(* ===== verification/Prelude.thy ===== *)
theory Prelude
  imports Main "HOL-Library.Word"
begin

unbundle bit_operations_syntax

text \<open>
  Shared vocabulary of the development: the machine types of the target (a 6809 with a
  16-bit \<open>int\<close>, a 32-bit \<open>long\<close> and a signed \<open>char\<close>), results that may be a stop of the
  program, byte arrays addressed by offset, and random-access files with the POSIX
  meaning of \<open>pread\<close> and \<open>pwrite\<close>.  The collections \<open>io_simps\<close> and \<open>res_simps\<close> gather
  the facts that the component proofs pass to the simplifier.
\<close>

named_theorems io_simps "reading and writing byte files"
named_theorems res_simps "results of computations that may stop the program"

section \<open>Machine types\<close>

type_synonym u8 = "8 word"
type_synonym u16 = "16 word"
type_synonym u32 = "32 word"
type_synonym bytes = "u8 list"

text \<open>C's conversion of a mathematical value to a 16-bit signed \<open>int\<close>.\<close>

definition int16 :: "int \<Rightarrow> int" where
  "int16 i = sint (word_of_int i :: u16)"

lemma sint_u32: "sint (w :: u32) = (if uint w < 2147483648 then uint w else uint w - 4294967296)"
proof -
  have b: "uint w < 2 ^ LENGTH(32)" by (rule uint_lt2p)
  have "sint (word_of_int (uint w) :: u32) = (uint w + 2147483648) mod 4294967296 - 2147483648"
    by (subst int_word_sint) simp
  moreover have "(uint w + 2147483648) mod 4294967296 =
      (if uint w < 2147483648 then uint w + 2147483648 else uint w - 2147483648)"
  proof (cases "uint w < 2147483648")
    case True
    then show ?thesis by (subst mod_pos_pos_trivial) simp_all
  next
    case False
    have "(uint w + 2147483648) mod 4294967296 = ((uint w - 2147483648) + 4294967296) mod 4294967296"
      by (rule arg_cong [where f = "\<lambda>x. x mod 4294967296"]) simp
    also have "\<dots> = (uint w - 2147483648) mod 4294967296" by (rule mod_add_self2)
    also have "\<dots> = uint w - 2147483648" using b False by (intro mod_pos_pos_trivial) simp_all
    finally show ?thesis using False by simp
  qed
  ultimately show ?thesis by simp
qed

lemma unat_u8 [simp]: "unat (c :: u8) < 256"
proof -
  have "unat c < 2 ^ LENGTH(8)" by (rule unsigned_less)
  then show ?thesis by simp
qed

lemma unat_u16 [simp]: "unat (w :: u16) < 65536"
proof -
  have "unat w < 2 ^ LENGTH(16)" by (rule unsigned_less)
  then show ?thesis by simp
qed

lemma uint_u8_bound: "0 \<le> uint (c :: u8) \<and> uint c < 256"
proof -
  have "uint c < 2 ^ LENGTH(8)" by (rule uint_lt2p)
  then show ?thesis by simp
qed

lemma nat_uint_mod: "nat (uint (c :: u8) mod 65536) = unat c"
proof -
  have "uint c mod 65536 = uint c"
    using uint_u8_bound [of c] by (intro mod_pos_pos_trivial) linarith+
  then show ?thesis by simp
qed

text \<open>Joining the two halves of a big-endian 16-bit quantity.\<close>

definition be16 :: "u8 \<Rightarrow> u8 \<Rightarrow> u16" where
  "be16 hi lo = push_bit 8 (ucast hi) OR ucast lo"

definition hi8 :: "u16 \<Rightarrow> u8" where
  "hi8 w = ucast (drop_bit 8 w)"

definition lo8 :: "u16 \<Rightarrow> u8" where
  "lo8 w = ucast w"

lemma be16_hi8_lo8 [simp]: "be16 (hi8 w) (lo8 w) = w"
proof (rule bit_word_eqI)
  fix n assume "n < LENGTH(16)"
  then show "bit (be16 (hi8 w) (lo8 w)) n = bit w n"
    by (auto simp: be16_def hi8_def lo8_def bit_simps)
qed

section \<open>Results that may stop the program\<close>

text \<open>
  A computation that can end the program (\<open>exit\<close>, an abort) or do something the C standard
  leaves undefined returns \<open>Inl\<close> with the reason; \<open>rbind\<close> runs the next step on a normal
  result.
\<close>

definition rbind :: "'e + 'a \<Rightarrow> ('a \<Rightarrow> 'e + 'b) \<Rightarrow> 'e + 'b" where
  "rbind r f = (case r of Inl e \<Rightarrow> Inl e | Inr a \<Rightarrow> f a)"

lemma rbind_simps [simp, res_simps]:
  "rbind (Inl e) f = Inl e"
  "rbind (Inr a) f = f a"
  by (simp_all add: rbind_def)

lemma rbind_eq_Inr [res_simps]:
  "rbind r f = Inr b \<longleftrightarrow> (\<exists>a. r = Inr a \<and> f a = Inr b)"
  by (cases r) auto

lemma rbind_eq_Inl [res_simps]:
  "rbind r f = Inl e \<longleftrightarrow> r = Inl e \<or> (\<exists>a. r = Inr a \<and> f a = Inl e)"
  by (cases r) auto

lemma rbind_cong [fundef_cong]:
  assumes "r = r'" and "\<And>a. r' = Inr a \<Longrightarrow> f a = g a"
  shows "rbind r f = rbind r' g"
  using assms by (cases r') auto

lemma rbind_assoc [res_simps]: "rbind (rbind r f) g = rbind r (\<lambda>x. rbind (f x) g)"
  by (cases r) auto

text \<open>
  Programs with state return the state with either kind of result.  \<open>final\<close> is the state a
  run leaves behind, and an invariant of the final states goes through a sequence step by
  step.
\<close>

definition final :: "('e \<times> 's) + ('a \<times> 's) \<Rightarrow> 's" where
  "final r = (case r of Inl p \<Rightarrow> snd p | Inr p \<Rightarrow> snd p)"

lemma final_simps [simp]:
  "final (Inl (e, s)) = s"
  "final (Inr (a, s)) = s"
  by (simp_all add: final_def)

lemma final_rbind:
  assumes "P (final r)" and "\<And>a s. r = Inr (a, s) \<Longrightarrow> P s \<Longrightarrow> P (final (f (a, s)))"
  shows "P (final (rbind r f))"
  using assms by (cases r) (auto simp: final_def)

lemma final_Inr: "r = Inr (a, s) \<Longrightarrow> P (final r) \<Longrightarrow> P s"
  by simp

section \<open>Byte files\<close>

text \<open>
  \<open>pread off n f\<close> is what \<open>read(fd, buf, n)\<close> delivers at offset \<open>off\<close> of a regular file,
  and \<open>pwrite off b f\<close> is the file after \<open>write(fd, b, |b|)\<close> there: a gap between the old
  end and the offset reads as zeros, and a write of no bytes changes nothing.
\<close>

definition pread :: "nat \<Rightarrow> nat \<Rightarrow> bytes \<Rightarrow> bytes" where
  "pread off n f = take n (drop off f)"

definition pwrite :: "nat \<Rightarrow> bytes \<Rightarrow> bytes \<Rightarrow> bytes" where
  "pwrite off b f =
     (if b = [] then f
      else take off (f @ replicate (off - length f) 0) @ b @ drop (off + length b) f)"

lemma pwrite_Nil [simp, io_simps]: "pwrite off [] f = f"
  by (simp add: pwrite_def)

lemma length_pwrite [io_simps]:
  "length (pwrite off b f) = (if b = [] then length f else max (length f) (off + length b))"
  by (auto simp: pwrite_def)

lemma length_pwrite_ge: "length f \<le> length (pwrite off b f)"
  by (simp add: length_pwrite)

lemma length_pwrite_in [simp]:
  "off + length b \<le> length f \<Longrightarrow> length (pwrite off b f) = length f"
  by (simp add: length_pwrite)

lemma length_pread: "length (pread off n f) = min n (length f - off)"
  by (simp add: pread_def)

lemma length_pread_in [simp]: "off + n \<le> length f \<Longrightarrow> length (pread off n f) = n"
  by (simp add: length_pread)

lemma nth_pwrite:
  assumes "b \<noteq> []" and "i < max (length f) (off + length b)"
  shows "pwrite off b f ! i =
    (if i < off then (if i < length f then f ! i else 0)
     else if i < off + length b then b ! (i - off) else f ! i)"
proof -
  let ?p = "take off (f @ replicate (off - length f) 0)"
  have l: "length ?p = off" by simp
  have e: "pwrite off b f = ?p @ b @ drop (off + length b) f"
    using assms(1) by (simp add: pwrite_def)
  show ?thesis
  proof (cases "i < off")
    case True
    then show ?thesis by (auto simp: e nth_append)
  next
    case False
    with l assms(2) show ?thesis
      unfolding e by (auto simp: nth_append)
  qed
qed

lemma pread_pwrite_same [simp, io_simps]: "pread off (length b) (pwrite off b f) = b"
  by (cases "b = []") (simp_all add: pread_def pwrite_def)

lemma pread_pwrite_same_len: "length b = n \<Longrightarrow> pread off n (pwrite off b f) = b"
  using pread_pwrite_same by blast

text \<open>A write leaves every range it does not touch as it was, where that range existed.\<close>

lemma pread_pwrite_disjoint [io_simps]:
  assumes "off + n \<le> off' \<or> off' + length b \<le> off" and "off + n \<le> length f"
  shows "pread off n (pwrite off' b f) = pread off n f"
proof (cases "b = []")
  case False
  show ?thesis
  proof (rule nth_equalityI)
    show "length (pread off n (pwrite off' b f)) = length (pread off n f)"
      using assms(2) False by (simp add: length_pread length_pwrite)
  next
    fix i assume "i < length (pread off n (pwrite off' b f))"
    with assms(2) have i: "i < n" by (simp add: length_pread)
    have "pwrite off' b f ! (off + i) = f ! (off + i)"
      using assms False i by (subst nth_pwrite) auto
    with i assms(2) show "pread off n (pwrite off' b f) ! i = pread off n f ! i"
      using length_pwrite_ge [of f off' b] by (simp add: pread_def)
  qed
qed simp

lemma pwrite_pwrite_same_len [io_simps]:
  assumes "length b = length c"
  shows "pwrite off c (pwrite off b f) = pwrite off c f"
proof (cases "b = []")
  case True
  with assms show ?thesis by simp
next
  case False
  with assms have c: "c \<noteq> []" by auto
  show ?thesis
  proof (rule nth_equalityI)
    show "length (pwrite off c (pwrite off b f)) = length (pwrite off c f)"
      using assms False c by (simp add: length_pwrite)
  next
    fix i assume "i < length (pwrite off c (pwrite off b f))"
    with assms False c have "i < max (length f) (off + length c)"
      by (simp add: length_pwrite)
    with assms False c show "pwrite off c (pwrite off b f) ! i = pwrite off c f ! i"
      by (subst nth_pwrite, simp, simp add: length_pwrite)
        (auto simp: nth_pwrite length_pwrite)
  qed
qed

text \<open>Two writes in a row, and reading inside a range just written.\<close>

lemma pwrite_append:
  "pwrite (off + length b) c (pwrite off b f) = pwrite off (b @ c) f"
proof (cases "b = [] \<or> c = []")
  case False
  show ?thesis
  proof (rule nth_equalityI)
    show "length (pwrite (off + length b) c (pwrite off b f)) = length (pwrite off (b @ c) f)"
      using False by (simp add: length_pwrite)
  next
    fix i assume "i < length (pwrite (off + length b) c (pwrite off b f))"
    then have i: "i < max (length f) (off + length b + length c)"
      using False by (auto simp: length_pwrite)
    then have "i < max (length (pwrite off b f)) (off + length b + length c)"
      using False by (auto simp: length_pwrite)
    with False i show "pwrite (off + length b) c (pwrite off b f) ! i = pwrite off (b @ c) f ! i"
      by (auto simp: nth_pwrite length_pwrite nth_append)
  qed
qed auto

lemma pread_pwrite_inside:
  assumes "off \<le> off'" and "off' + n \<le> off + length b"
  shows "pread off' n (pwrite off b f) = pread (off' - off) n b"
proof (cases "b = []")
  case True
  with assms show ?thesis by (simp add: pread_def)
next
  case False
  show ?thesis
  proof (rule nth_equalityI)
    show "length (pread off' n (pwrite off b f)) = length (pread (off' - off) n b)"
      using assms False by (auto simp: length_pread length_pwrite)
  next
    fix i assume "i < length (pread off' n (pwrite off b f))"
    then have i: "i < n" by (simp add: length_pread)
    with assms False show "pread off' n (pwrite off b f) ! i = pread (off' - off) n b ! i"
      by (simp add: pread_def nth_pwrite length_pwrite)
  qed
qed

text \<open>Reading a file in two pieces.\<close>

lemma pread_add: "pread off (m + n) f = pread off m f @ pread (off + m) n f"
  by (simp add: pread_def take_add add.commute)

lemma pread_0 [simp]: "pread off 0 f = []"
  by (simp add: pread_def)

lemma pread_all: "length f \<le> n \<Longrightarrow> pread 0 n f = f"
  by (simp add: pread_def)

section \<open>Fixed-size block stores\<close>

text \<open>
  A store of numbered blocks: what the block-oriented programs (the sector server, the
  disk tools) rely on when they read a block after writes.  \<open>ok\<close> is the store's invariant
  and \<open>fits\<close> says which block contents are whole blocks.
\<close>

locale block_store =
  fixes rd :: "'s \<Rightarrow> 'k \<Rightarrow> 'b"
    and wr :: "'k \<Rightarrow> 'b \<Rightarrow> 's \<Rightarrow> 's"
    and ok :: "'s \<Rightarrow> bool"
    and valid :: "'k \<Rightarrow> bool"
    and fits :: "'b \<Rightarrow> bool"
  assumes ok_wr: "ok s \<Longrightarrow> valid k \<Longrightarrow> fits b \<Longrightarrow> ok (wr k b s)"
    and rd_wr_same: "ok s \<Longrightarrow> valid k \<Longrightarrow> fits b \<Longrightarrow> rd (wr k b s) k = b"
    and rd_wr_other:
      "ok s \<Longrightarrow> valid k \<Longrightarrow> valid k' \<Longrightarrow> k \<noteq> k' \<Longrightarrow> fits b \<Longrightarrow> rd (wr k b s) k' = rd s k'"
begin

fun wr_all :: "('k \<times> 'b) list \<Rightarrow> 's \<Rightarrow> 's" where
  "wr_all [] s = s"
| "wr_all ((k, b) # ws) s = wr_all ws (wr k b s)"

lemma ok_wr_all:
  "ok s \<Longrightarrow> \<forall>(k, b) \<in> set ws. valid k \<and> fits b \<Longrightarrow> ok (wr_all ws s)"
  by (induction ws arbitrary: s) (auto simp: ok_wr)

lemma rd_wr_all_other:
  "ok s \<Longrightarrow> \<forall>(k, b) \<in> set ws. valid k \<and> fits b \<Longrightarrow> valid k \<Longrightarrow> k \<notin> fst ` set ws \<Longrightarrow>
   rd (wr_all ws s) k = rd s k"
proof (induction ws arbitrary: s)
  case Nil
  then show ?case by simp
next
  case (Cons w ws)
  obtain k' b where w: "w = (k', b)" by (cases w)
  with Cons.prems have s': "ok (wr k' b s)" by (auto intro: ok_wr)
  have "rd (wr_all ws (wr k' b s)) k = rd (wr k' b s) k"
    using Cons.prems s' by (intro Cons.IH) auto
  also have "\<dots> = rd s k"
    using Cons.prems w by (intro rd_wr_other) auto
  finally show ?case by (simp add: w)
qed

text \<open>After writing distinct blocks, each reads back what was written to it.\<close>

lemma rd_wr_all_distinct:
  assumes "ok s" and "\<forall>(k, b) \<in> set ws. valid k \<and> fits b"
    and "distinct (map fst ws)" and "(k, b) \<in> set ws"
  shows "rd (wr_all ws s) k = b"
  using assms
proof (induction ws arbitrary: s)
  case Nil
  then show ?case by simp
next
  case (Cons w ws)
  obtain k' b' where w: "w = (k', b')" by (cases w)
  with Cons.prems have s': "ok (wr k' b' s)" and v: "valid k'" "fits b'"
    by (auto intro: ok_wr)
  show ?case
  proof (cases "(k, b) \<in> set ws")
    case True
    with Cons.prems s' w show ?thesis by (simp add: Cons.IH)
  next
    case False
    with Cons.prems w have kb: "k = k'" "b = b'" by auto
    with Cons.prems w have "k \<notin> fst ` set ws" by auto
    with Cons.prems s' v kb have "rd (wr_all ws (wr k' b' s)) k = rd (wr k' b' s) k"
      by (intro rd_wr_all_other) auto
    with Cons.prems(1) v kb show ?thesis by (simp add: w rd_wr_same)
  qed
qed

end

section \<open>Codecs\<close>

text \<open>
  An encoder (a packer, a compressor) and the relation \<open>dec z x\<close> \<open>the archive z decodes to x\<close>,
  which is functional: on the inputs it accepts, what the encoder makes decodes to the input.
  Then no two inputs have the same archive.
\<close>

locale codec =
  fixes enc :: "'a \<Rightarrow> 'z option" and dec :: "'z \<Rightarrow> 'a \<Rightarrow> bool" and accepts :: "'a \<Rightarrow> bool"
  assumes dec_enc: "accepts x \<Longrightarrow> \<exists>z. enc x = Some z \<and> dec z x"
    and dec_fun: "dec z x \<Longrightarrow> dec z y \<Longrightarrow> x = y"
begin

lemma enc_inj:
  assumes "accepts x" and "accepts y" and "enc x = enc y"
  shows "x = y"
proof -
  from dec_enc [OF assms(1)] obtain z where "enc x = Some z" "dec z x" by blast
  moreover from dec_enc [OF assms(2)] obtain z' where "enc y = Some z'" "dec z' y" by blast
  ultimately show ?thesis using assms(3) dec_fun by auto
qed

end

section \<open>Lists\<close>

text \<open>Counting the entries equal to a value, and how an update changes the count.\<close>

lemma count_list_update:
  "i < length xs \<Longrightarrow> xs ! i \<noteq> x \<Longrightarrow> y = x \<Longrightarrow> count_list (xs[i := y]) x = Suc (count_list xs x)"
  by (induction xs arbitrary: i) (auto split: nat.splits)

lemma count_list_update_away:
  "i < length xs \<Longrightarrow> xs ! i = x \<Longrightarrow> y \<noteq> x \<Longrightarrow> Suc (count_list (xs[i := y]) x) = count_list xs x"
  by (induction xs arbitrary: i) (auto split: nat.splits)

lemma count_list_update_other:
  "i < length xs \<Longrightarrow> xs ! i \<noteq> x \<Longrightarrow> y \<noteq> x \<Longrightarrow> count_list (xs[i := y]) x = count_list xs x"
  by (induction xs arbitrary: i) (auto split: nat.splits)

lemma count_list_le: "count_list xs x \<le> length xs"
  by (induction xs) auto

end
