(* ===== verification/Lzw_Io.thy ===== *)
theory Lzw_Io
  imports Prelude "HOL-Library.Monad_Syntax"
begin

text \<open>
  The buffered byte streams that \<open>uncompress/compress.c\<close> and \<open>uncompress/uncompress.c\<close>
  share (each file has its own copy of the same \<open>inbyte\<close>, \<open>outbyte\<close>, \<open>outflush\<close>), and
  the interfaces through which the bit-level code uses them: a byte sink, a byte source,
  a bit sink and a bit source.

  \<open>None\<close> as the result of an operation means that the call does not return.
\<close>

section \<open>The buffered streams\<close>

definition BUFZ :: nat where
  "BUFZ = 512"

text \<open>
  The globals of the two programs together with the descriptors behind them: \<open>reads\<close> lists
  what the coming calls of \<open>read(in, ..)\<close> deliver (0 bytes once it is exhausted), \<open>written\<close>
  is what \<open>write(out, ..)\<close> has stored so far and \<open>room\<close> how many more bytes the output
  device takes.
\<close>

record bio =
  reads :: "bytes list"
  written :: bytes
  room :: nat
  ibuf :: bytes
  ipos :: nat
  isize :: nat
  obuf :: bytes
  opos :: nat

text \<open>\<open>write(out, b, |b|)\<close>: a full device gives -1, a nearly full one a short count.\<close>

definition do_write :: "bytes \<Rightarrow> 'a bio_scheme \<Rightarrow> int \<times> 'a bio_scheme" where
  "do_write b s =
     (if b \<noteq> [] \<and> room s = 0 then (-1, s)
      else let n = min (length b) (room s)
           in (int n, s\<lparr>written := written s @ take n b, room := room s - n\<rparr>))"

text \<open>
  \<open>outflush\<close> calls \<open>myabort\<close> when the write is short; \<open>myabort\<close> itself starts with
  \<open>outflush\<close>, and only exits after that call.
\<close>

partial_function (option) outflush :: "'a bio_scheme \<Rightarrow> 'a bio_scheme option" where
  "outflush s =
     (case do_write (take (opos s) (obuf s)) s of (ret, s') \<Rightarrow>
        if ret \<noteq> int (opos s) then do { _ \<leftarrow> outflush s'; None }
        else Some (s'\<lparr>opos := 0\<rparr>))"

definition outbyte :: "u8 \<Rightarrow> 'a bio_scheme \<Rightarrow> 'a bio_scheme option" where
  "outbyte c s =
     (let s' = s\<lparr>obuf := (obuf s)[opos s := c], opos := opos s + 1\<rparr>
      in if opos s' = BUFZ then outflush s' else Some s')"

text \<open>\<open>inbyte\<close> returns the next byte of the input, or -1 at its end.\<close>

definition fill :: "'a bio_scheme \<Rightarrow> 'a bio_scheme" where
  "fill s = (case reads s of
       [] \<Rightarrow> s\<lparr>isize := 0, ipos := 0\<rparr>
     | r # rs \<Rightarrow> s\<lparr>reads := rs, ibuf := r @ drop (length r) (ibuf s), isize := length r, ipos := 0\<rparr>)"

definition inbyte :: "'a bio_scheme \<Rightarrow> int \<times> 'a bio_scheme" where
  "inbyte s =
     (let s1 = (if isize s = 0 then fill s else s)
      in if isize s1 = 0 then (-1, s1)
         else let c = ibuf s1 ! ipos s1; s2 = s1\<lparr>ipos := ipos s1 + 1\<rparr>
              in (uint c, if ipos s2 = isize s2 then s2\<lparr>isize := 0\<rparr> else s2))"

section \<open>What the streams hold\<close>

definition out_bytes :: "'a bio_scheme \<Rightarrow> bytes" where
  "out_bytes s = written s @ take (opos s) (obuf s)"

definition space :: "'a bio_scheme \<Rightarrow> nat" where
  "space s = room s - opos s"

definition out_ok :: "'a bio_scheme \<Rightarrow> bool" where
  "out_ok s \<longleftrightarrow> length (obuf s) = BUFZ \<and> opos s < BUFZ \<and> opos s \<le> room s"

definition pending :: "'a bio_scheme \<Rightarrow> bytes" where
  "pending s = drop (ipos s) (take (isize s) (ibuf s)) @ concat (reads s)"

definition in_ok :: "'a bio_scheme \<Rightarrow> bool" where
  "in_ok s \<longleftrightarrow> length (ibuf s) = BUFZ \<and> (isize s = 0 \<or> ipos s < isize s \<and> isize s \<le> BUFZ)
     \<and> (\<forall>r \<in> set (reads s). r \<noteq> [] \<and> length r \<le> BUFZ)"

definition in_view :: "'a bio_scheme \<Rightarrow> bytes list \<times> bytes \<times> nat \<times> nat \<times> 'a" where
  "in_view s = (reads s, ibuf s, ipos s, isize s, bio.more s)"

definition out_view :: "'a bio_scheme \<Rightarrow> bytes \<times> nat \<times> bytes \<times> nat \<times> 'a" where
  "out_view s = (written s, room s, obuf s, opos s, bio.more s)"

lemmas bio_views = in_view_def out_view_def

lemma outflush_ok:
  assumes "opos s \<le> room s" and "opos s \<le> length (obuf s)"
  shows "outflush s =
    Some (s\<lparr>written := written s @ take (opos s) (obuf s), room := room s - opos s, opos := 0\<rparr>)"
  using assms by (subst outflush.simps) (auto simp: do_write_def Let_def min_def)

text \<open>
  When the device cannot take the whole buffer, the flush never comes back: the abort it
  calls flushes again, and now nothing can be written.
\<close>

lemma outflush_returns:
  assumes "outflush s = Some r" and "opos s \<le> length (obuf s)"
  shows "opos s \<le> room s"
proof -
  have "opos s \<le> length (obuf s) \<longrightarrow> opos s \<le> room s"
  proof (rule outflush.raw_induct [where P = "\<lambda>s r. opos s \<le> length (obuf s) \<longrightarrow> opos s \<le> room s", OF _ assms(1)])
    fix f :: "'a bio_scheme \<Rightarrow> 'a bio_scheme option" and s r
    assume "(case do_write (take (opos s) (obuf s)) s of (ret, s') \<Rightarrow>
        if ret \<noteq> int (opos s) then do { _ \<leftarrow> f s'; None } else Some (s'\<lparr>opos := 0\<rparr>)) = Some r"
    then show "opos s \<le> length (obuf s) \<longrightarrow> opos s \<le> room s"
      by (auto simp: do_write_def Let_def min_def split: if_splits option.splits)
  qed
  with assms(2) show ?thesis by blast
qed

lemma outflush_None:
  "opos s \<le> length (obuf s) \<Longrightarrow> room s < opos s \<Longrightarrow> outflush s = None"
  by (cases "outflush s") (auto dest: outflush_returns)

section \<open>Byte sinks and byte sources\<close>

text \<open>
  What a client may rely on when it emits bytes: while there is space, a byte is appended
  to the output, the space shrinks by one and everything outside the sink (the frame)
  stays as it was.
\<close>

locale byte_sink =
  fixes put :: "u8 \<Rightarrow> 's \<Rightarrow> 's option"
    and out :: "'s \<Rightarrow> bytes"
    and free :: "'s \<Rightarrow> nat"
    and ok :: "'s \<Rightarrow> bool"
    and frame :: "'s \<Rightarrow> 'f"
  assumes put_ok: "ok s \<Longrightarrow> 0 < free s \<Longrightarrow>
      \<exists>s'. put c s = Some s' \<and> ok s' \<and> out s' = out s @ [c] \<and> Suc (free s') = free s
           \<and> frame s' = frame s"
begin

fun put_all :: "bytes \<Rightarrow> 's \<Rightarrow> 's option" where
  "put_all [] s = Some s"
| "put_all (c # cs) s = Option.bind (put c s) (put_all cs)"

lemma put_all_ok:
  "ok s \<Longrightarrow> length cs \<le> free s \<Longrightarrow>
   \<exists>s'. put_all cs s = Some s' \<and> ok s' \<and> out s' = out s @ cs \<and> free s' + length cs = free s
        \<and> frame s' = frame s"
proof (induction cs arbitrary: s)
  case Nil
  then show ?case by simp
next
  case (Cons c cs)
  from Cons.prems obtain s1 where s1: "put c s = Some s1" "ok s1" "out s1 = out s @ [c]"
    "Suc (free s1) = free s" "frame s1 = frame s"
    using put_ok [of s c] by auto
  with Cons.prems(2) have "length cs \<le> free s1" by simp
  with Cons.IH [OF s1(2)] s1 show ?case by fastforce
qed

end

text \<open>What a client may rely on when it takes bytes: -1 exactly at the end of the input.\<close>

locale byte_source =
  fixes get :: "'s \<Rightarrow> int \<times> 's"
    and rest :: "'s \<Rightarrow> bytes"
    and ok :: "'s \<Rightarrow> bool"
    and frame :: "'s \<Rightarrow> 'f"
  assumes get_Nil: "ok s \<Longrightarrow> rest s = [] \<Longrightarrow>
      \<exists>s'. get s = (-1, s') \<and> ok s' \<and> rest s' = [] \<and> frame s' = frame s"
    and get_Cons: "ok s \<Longrightarrow> rest s = c # cs \<Longrightarrow>
      \<exists>s'. get s = (uint c, s') \<and> ok s' \<and> rest s' = cs \<and> frame s' = frame s"
begin

lemma get_cases:
  assumes "ok s"
  obtains (eof) s' where "rest s = []" "get s = (-1, s')" "ok s'" "rest s' = []" "frame s' = frame s"
  | (byte) c cs s' where "rest s = c # cs" "get s = (uint c, s')" "ok s'" "rest s' = cs"
      "frame s' = frame s"
  using assms get_Nil get_Cons by (cases "rest s") (blast, metis)

lemma get_length:
  "ok s \<Longrightarrow> get s = (i, s') \<Longrightarrow> 0 \<le> i \<Longrightarrow> length (rest s') < length (rest s)"
  by (erule get_cases) auto

end

lemma outbyte_ok:
  assumes "out_ok s" and "0 < space s"
  shows "\<exists>s'. outbyte c s = Some s' \<and> out_ok s' \<and> out_bytes s' = out_bytes s @ [c]
    \<and> Suc (space s') = space s \<and> in_view s' = in_view s"
proof -
  have u: "take (Suc (opos s)) ((obuf s)[opos s := c]) = take (opos s) (obuf s) @ [c]"
    using assms(1) by (simp add: out_ok_def take_Suc_conv_app_nth)
  let ?s = "s\<lparr>obuf := (obuf s)[opos s := c], opos := opos s + 1\<rparr>"
  show ?thesis
  proof (cases "opos s + 1 = BUFZ")
    case True
    have "outflush ?s =
      Some (?s\<lparr>written := written s @ take (opos s) (obuf s) @ [c], room := room s - opos ?s, opos := 0\<rparr>)"
      using assms u by (subst outflush_ok) (auto simp: out_ok_def space_def)
    with True assms show ?thesis
      by (auto simp: outbyte_def Let_def out_ok_def out_bytes_def space_def in_view_def BUFZ_def)
  next
    case False
    with assms u show ?thesis
      by (auto simp: outbyte_def Let_def out_ok_def out_bytes_def space_def in_view_def)
  qed
qed

interpretation bio_sink: byte_sink outbyte out_bytes space out_ok in_view
  by unfold_locales (rule outbyte_ok)

lemma inbyte_Nil:
  assumes "in_ok s" and "pending s = []"
  shows "\<exists>s'. inbyte s = (-1, s') \<and> in_ok s' \<and> pending s' = [] \<and> out_view s' = out_view s"
proof -
  from assms have z: "isize s = 0" by (auto simp: in_ok_def pending_def)
  moreover from assms have "reads s = []"
    by (cases "reads s") (auto simp: in_ok_def pending_def)
  ultimately show ?thesis
    using assms by (auto simp: inbyte_def fill_def in_ok_def pending_def out_view_def)
qed

lemma inbyte_buffered:
  assumes "length (ibuf s) = BUFZ" and "ipos s < isize s" and "isize s \<le> BUFZ"
    and "\<forall>r \<in> set (reads s). r \<noteq> [] \<and> length r \<le> BUFZ" and "pending s = c # cs"
  shows "\<exists>s'. inbyte s = (uint c, s') \<and> in_ok s' \<and> pending s' = cs \<and> out_view s' = out_view s"
proof -
  have "drop (ipos s) (take (isize s) (ibuf s))
      = ibuf s ! ipos s # drop (Suc (ipos s)) (take (isize s) (ibuf s))"
    using assms by (simp add: Cons_nth_drop_Suc [symmetric])
  with assms have "c = ibuf s ! ipos s"
    and "cs = drop (Suc (ipos s)) (take (isize s) (ibuf s)) @ concat (reads s)"
    by (auto simp: pending_def)
  with assms show ?thesis
    by (auto simp: inbyte_def Let_def in_ok_def pending_def out_view_def)
qed

lemma inbyte_Cons:
  assumes "in_ok s" and "pending s = c # cs"
  shows "\<exists>s'. inbyte s = (uint c, s') \<and> in_ok s' \<and> pending s' = cs \<and> out_view s' = out_view s"
proof (cases "isize s = 0")
  case False
  with assms show ?thesis by (intro inbyte_buffered) (auto simp: in_ok_def)
next
  case True
  with assms obtain r rs where r: "reads s = r # rs" by (cases "reads s") (auto simp: pending_def)
  with assms(1) have rr: "r \<noteq> []" "length r \<le> BUFZ" by (auto simp: in_ok_def)
  let ?s = "fill s"
  have e: "inbyte s = inbyte ?s"
    using True r rr by (simp add: inbyte_def fill_def)
  have p: "pending ?s = c # cs"
    using assms(2) True r by (simp add: pending_def fill_def)
  have v: "out_view ?s = out_view s" by (simp add: fill_def r out_view_def)
  show ?thesis
    unfolding e v [symmetric]
    by (rule inbyte_buffered [OF _ _ _ _ p]) (use assms(1) r rr in \<open>auto simp: fill_def in_ok_def\<close>)
qed

interpretation bio_source: byte_source inbyte pending in_ok out_view
  by unfold_locales (erule inbyte_Nil inbyte_Cons, assumption)+

lemma in_ok_cong: "in_view s = in_view t \<Longrightarrow> in_ok s = in_ok t"
  by (simp add: in_ok_def in_view_def)

lemma pending_cong: "in_view s = in_view t \<Longrightarrow> pending s = pending t"
  by (simp add: pending_def in_view_def)

lemma out_ok_cong: "out_view s = out_view t \<Longrightarrow> out_ok s = out_ok t"
  by (simp add: out_ok_def out_view_def)

lemma out_bytes_cong: "out_view s = out_view t \<Longrightarrow> out_bytes s = out_bytes t"
  by (simp add: out_bytes_def out_view_def)

lemma space_cong: "out_view s = out_view t \<Longrightarrow> space s = space t"
  by (simp add: space_def out_view_def)

lemmas bio_cong = in_ok_cong pending_cong out_ok_cong out_bytes_cong space_cong

section \<open>Bits\<close>

text \<open>The bits of a number, least significant first, and the number they stand for.\<close>

fun nat_bits :: "nat \<Rightarrow> nat \<Rightarrow> bool list" where
  "nat_bits 0 s = []"
| "nat_bits (Suc n) s = odd s # nat_bits n (s div 2)"

fun bval :: "bool list \<Rightarrow> nat" where
  "bval [] = 0"
| "bval (b # bs) = of_bool b + 2 * bval bs"

lemma length_nat_bits [simp]: "length (nat_bits n s) = n"
  by (induction n arbitrary: s) auto

lemma bval_nat_bits: "bval (nat_bits n s) = s mod 2 ^ n"
proof (induction n arbitrary: s)
  case 0
  then show ?case by simp
next
  case (Suc n)
  then show ?case
    by (simp add: mod2_eq_if [symmetric] mod_mult2_eq [of s 2 "2 ^ n"] of_bool_odd_eq_mod_2 add.commute)
qed

lemma bval_less: "bval bs < 2 ^ length bs"
  by (induction bs) auto

lemma bval_append: "bval (xs @ ys) = bval xs + 2 ^ length xs * bval ys"
  by (induction xs) (auto simp: algebra_simps)

definition byte_bits :: "u8 \<Rightarrow> bool list" where
  "byte_bits c = map (bit c) [0..<8]"

lemma length_byte_bits [simp]: "length (byte_bits c) = 8"
  by (simp add: byte_bits_def)

lemma byte_bits_not_Nil [simp]: "byte_bits c \<noteq> []"
  by (simp add: byte_bits_def)

abbreviation bits_of :: "bytes \<Rightarrow> bool list" where
  "bits_of bs \<equiv> concat (map byte_bits bs)"

lemma length_bits_of [simp]: "length (bits_of bs) = 8 * length bs"
  by (induction bs) auto

lemma byte_bits_inj: "byte_bits c = byte_bits d \<Longrightarrow> c = d"
  by (rule bit_word_eqI) (auto simp: byte_bits_def list_eq_iff_nth_eq)

lemma bits_of_prefix:
  "bits_of bs = bits_of xs @ ys \<Longrightarrow> \<exists>p. bs = xs @ p \<and> bits_of p = ys"
proof (induction xs arbitrary: bs)
  case (Cons x xs)
  then obtain b bs' where b: "bs = b # bs'" by (cases bs) auto
  with Cons.prems have "byte_bits b = byte_bits x" and "bits_of bs' = bits_of xs @ ys"
    by (simp_all add: append_eq_append_conv)
  with Cons.IH b show ?case by (auto dest: byte_bits_inj)
qed simp

text \<open>A bit sink: appending the \<open>n\<close> low bits of a number, least significant first.\<close>

locale bit_sink =
  fixes putb :: "nat \<Rightarrow> 's \<Rightarrow> 's option"
    and sent :: "'s \<Rightarrow> bool list"
    and room_for :: "'s \<Rightarrow> nat"
    and ok :: "'s \<Rightarrow> bool"
    and frame :: "'s \<Rightarrow> 'f"
  assumes putb_ok: "ok s \<Longrightarrow> 0 < room_for s \<Longrightarrow>
      \<exists>s'. putb b s = Some s' \<and> ok s' \<and> sent s' = sent s @ [odd b] \<and> Suc (room_for s') = room_for s
           \<and> frame s' = frame s"
begin

fun put_bits :: "nat \<Rightarrow> nat \<Rightarrow> 's \<Rightarrow> 's option" where
  "put_bits 0 v s = Some s"
| "put_bits (Suc n) v s = Option.bind (putb v s) (put_bits n (v div 2))"

lemma put_bits_ok:
  "ok s \<Longrightarrow> n \<le> room_for s \<Longrightarrow>
   \<exists>s'. put_bits n v s = Some s' \<and> ok s' \<and> sent s' = sent s @ nat_bits n v
        \<and> room_for s' + n = room_for s \<and> frame s' = frame s"
proof (induction n arbitrary: v s)
  case 0
  then show ?case by simp
next
  case (Suc n)
  then obtain s1 where s1: "putb v s = Some s1" "ok s1" "sent s1 = sent s @ [odd v]"
    "Suc (room_for s1) = room_for s" "frame s1 = frame s"
    using putb_ok [of s v] by auto
  with Suc.prems have "n \<le> room_for s1" by simp
  with Suc.IH [OF s1(2)] obtain s2 where "put_bits n (v div 2) s1 = Some s2" "ok s2"
    "sent s2 = sent s1 @ nat_bits n (v div 2)" "room_for s2 + n = room_for s1"
    "frame s2 = frame s1"
    by blast
  with s1 show ?case by auto
qed

end

text \<open>
  A bit source: taking \<open>n\<close> bits and adding them up from weight \<open>2 ^ x\<close> on; once the bits run
  out, the source raises its end mark and keeps it up.
\<close>

locale bit_source =
  fixes getb :: "'s \<Rightarrow> bool \<times> 's"
    and todo :: "'s \<Rightarrow> bool list"
    and ended :: "'s \<Rightarrow> bool"
    and ok :: "'s \<Rightarrow> bool"
    and frame :: "'s \<Rightarrow> 'f"
  assumes getb_Nil: "ok s \<Longrightarrow> todo s = [] \<Longrightarrow>
      \<exists>s'. getb s = (False, s') \<and> ok s' \<and> todo s' = [] \<and> ended s' \<and> frame s' = frame s"
    and getb_Cons: "ok s \<Longrightarrow> todo s = b # bs \<Longrightarrow>
      \<exists>s'. getb s = (b, s') \<and> ok s' \<and> todo s' = bs \<and> ended s' = ended s \<and> frame s' = frame s"
begin

fun get_bits :: "nat \<Rightarrow> nat \<Rightarrow> nat \<Rightarrow> 's \<Rightarrow> nat \<times> 's" where
  "get_bits 0 x acc s = (acc, s)"
| "get_bits (Suc n) x acc s =
     (case getb s of (b, s') \<Rightarrow> get_bits n (Suc x) (acc OR push_bit x (of_bool b)) s')"

lemma get_bits_enough:
  "ok s \<Longrightarrow> todo s = xs @ ys \<Longrightarrow> length xs = n \<Longrightarrow> acc < 2 ^ x \<Longrightarrow>
   \<exists>s'. get_bits n x acc s = (acc + 2 ^ x * bval xs, s') \<and> ok s' \<and> todo s' = ys
        \<and> ended s' = ended s \<and> frame s' = frame s"
proof (induction xs arbitrary: n x acc s)
  case Nil
  then show ?case by simp
next
  case (Cons b xs)
  from Cons.prems obtain m where n: "n = Suc m" "length xs = m" by auto
  from Cons.prems obtain s1 where s1: "getb s = (b, s1)" "ok s1" "todo s1 = xs @ ys"
    "ended s1 = ended s" "frame s1 = frame s"
    using getb_Cons [of s b "xs @ ys"] by auto
  have or: "acc OR push_bit x (of_bool b) = acc + 2 ^ x * of_bool b"
  proof -
    have "acc OR push_bit x (of_bool b) = acc + push_bit x (of_bool b)"
    proof (rule disjunctive_add_eq_or [symmetric])
      have "\<not> bit acc m" if "x \<le> m" for m
      proof -
        have "acc = take_bit x acc" using Cons.prems(4) by (simp add: take_bit_nat_eq_self)
        then show ?thesis using that by (metis bit_take_bit_iff not_less)
      qed
      then show "acc AND push_bit x (of_bool b) = 0"
        by (intro bit_eqI) (auto simp: bit_simps)
    qed
    then show ?thesis by (simp add: push_bit_eq_mult)
  qed
  have "acc + 2 ^ x * of_bool b < 2 ^ Suc x" using Cons.prems(4) by auto
  from Cons.IH [OF s1(2,3) n(2) this] s1 n or show ?case
    by (auto simp: algebra_simps)
qed

lemma get_bits_ended:
  "ok s \<Longrightarrow> ended s \<Longrightarrow>
   \<exists>s' v. get_bits n x acc s = (v, s') \<and> ok s' \<and> ended s' \<and> frame s' = frame s"
proof (induction n arbitrary: x acc s)
  case 0
  then show ?case by simp
next
  case (Suc n)
  have "\<exists>b s1. getb s = (b, s1) \<and> ok s1 \<and> ended s1 \<and> frame s1 = frame s"
    using Suc.prems getb_Nil [of s] getb_Cons [of s] by (cases "todo s") fastforce+
  then obtain b s1 where s1: "getb s = (b, s1)" "ok s1" "ended s1" "frame s1 = frame s" by blast
  with Suc.IH [OF s1(2,3)] show ?case by fastforce
qed

lemma get_bits_short:
  "ok s \<Longrightarrow> length (todo s) < n \<Longrightarrow>
   \<exists>s' v. get_bits n x acc s = (v, s') \<and> ok s' \<and> ended s' \<and> frame s' = frame s"
proof (induction n arbitrary: x acc s)
  case 0
  then show ?case by simp
next
  case (Suc n)
  show ?case
  proof (cases "todo s")
    case Nil
    with Suc.prems getb_Nil obtain s1 where s1: "getb s = (False, s1)" "ok s1" "ended s1"
      "frame s1 = frame s" by blast
    with get_bits_ended [OF s1(2,3)] show ?thesis by fastforce
  next
    case (Cons b bs)
    with Suc.prems getb_Cons obtain s1 where s1: "getb s = (b, s1)" "ok s1" "todo s1 = bs"
      "frame s1 = frame s" by blast
    with Suc.prems Cons have "length (todo s1) < n" by simp
    from Suc.IH [OF s1(2) this] s1 show ?thesis by fastforce
  qed
qed

end

end
