(* ===== verification/Lzw_Dict.thy ===== *)
theory Lzw_Dict
  imports Lzw_Io
begin

text \<open>
  The dictionary of the LZW programs as a mathematical object: an entry from 257 up is a
  shorter code (the prefix, array \<open>ref\<close>) followed by one byte (the suffix, array \<open>app\<close>), a
  code below 256 is that byte, and 256 is the clear code.  This theory says which string a
  code stands for and proves the symbol-level algorithms of the two programs inverse to
  each other; the programs themselves refine them.
\<close>

function estr :: "(nat \<Rightarrow> u8) \<Rightarrow> (nat \<Rightarrow> nat) \<Rightarrow> nat \<Rightarrow> bytes" where
  "estr a r e =
     (if e < 256 then [of_nat e] else if r e < e then estr a r (r e) @ [a e] else [])"
  by pat_completeness auto
termination
  by (relation "measure (\<lambda>(a, r, e). e)") auto

declare estr.simps [simp del]

definition dict_ok :: "(nat \<Rightarrow> nat) \<Rightarrow> nat \<Rightarrow> bool" where
  "dict_ok r n \<longleftrightarrow> 257 \<le> n \<and> (\<forall>k. 257 \<le> k \<longrightarrow> k < n \<longrightarrow> r k < k \<and> r k \<noteq> 256)"

definition code_ok :: "nat \<Rightarrow> nat \<Rightarrow> bool" where
  "code_ok e n \<longleftrightarrow> e < n \<and> e \<noteq> 256"

lemma str_byte [simp]: "e < 256 \<Longrightarrow> estr a r e = [of_nat e]"
  by (simp add: estr.simps)

lemma str_entry:
  "dict_ok r n \<Longrightarrow> 257 \<le> e \<Longrightarrow> e < n \<Longrightarrow> estr a r e = estr a r (r e) @ [a e]"
  by (subst estr.simps) (simp add: dict_ok_def)

lemma code_ok_prefix: "dict_ok r n \<Longrightarrow> 257 \<le> e \<Longrightarrow> e < n \<Longrightarrow> code_ok (r e) n"
  by (auto simp: dict_ok_def code_ok_def)

lemma code_ok_byte: "dict_ok r n \<Longrightarrow> code_ok (unat (c :: u8)) n"
  using unat_u8 [of c] unfolding dict_ok_def code_ok_def by linarith

lemma code_cases:
  assumes "code_ok e n"
  obtains (byte) "e < 256" | (entry) "257 \<le> e" "e < n"
  using assms by (cases "e < 256") (auto simp: code_ok_def)

lemma code_induct [consumes 2, case_names byte entry]:
  assumes "dict_ok r n" and "code_ok e n"
    and "\<And>e. e < 256 \<Longrightarrow> P e"
    and "\<And>e. 257 \<le> e \<Longrightarrow> e < n \<Longrightarrow> code_ok (r e) n \<Longrightarrow> r e < e \<Longrightarrow> P (r e) \<Longrightarrow> P e"
  shows "P e"
  using assms(2)
proof (induction e rule: less_induct)
  case (less e)
  from less.prems show ?case
  proof (cases rule: code_cases)
    case byte
    then show ?thesis by (rule assms(3))
  next
    case entry
    moreover from entry assms(1) have "r e < e" by (simp add: dict_ok_def)
    moreover from entry assms(1) have "code_ok (r e) n" by (simp add: code_ok_prefix)
    ultimately show ?thesis using less.IH assms(4) by blast
  qed
qed

lemma str_nonempty:
  assumes "dict_ok r n" and "code_ok e n"
  shows "estr a r e \<noteq> []"
  using assms(1,2) by (induction rule: code_induct) (simp_all add: str_entry [OF assms(1)])

lemma str_length:
  assumes "dict_ok r n" and "code_ok e n"
  shows "length (estr a r e) \<le> max 1 (e - 255)"
  using assms(1,2) by (induction rule: code_induct) (auto simp: str_entry [OF assms(1)])

text \<open>A code's string depends only on the entries up to the code.\<close>

lemma str_cong:
  assumes "dict_ok r n" and "code_ok e n"
    and "\<And>k. 257 \<le> k \<Longrightarrow> k < n \<Longrightarrow> r' k = r k \<and> a' k = a k"
  shows "estr a' r' e = estr a r e"
  using assms(1,2)
proof (induction rule: code_induct)
  case (byte e)
  then show ?case by simp
next
  case (entry e)
  then have "r' e = r e" "a' e = a e" using assms(3) by auto
  with entry assms(1) show ?case by (simp add: estr.simps [of _ _ e])
qed

text \<open>Adding the next entry.\<close>

lemma dict_ok_add: "dict_ok r n \<Longrightarrow> code_ok w n \<Longrightarrow> dict_ok (r(n := w)) (Suc n)"
  by (auto simp: dict_ok_def code_ok_def less_Suc_eq)

lemma code_ok_Suc: "code_ok e n \<Longrightarrow> code_ok e (Suc n)"
  by (simp add: code_ok_def)

lemma str_add_old:
  "dict_ok r n \<Longrightarrow> code_ok e n \<Longrightarrow> estr (a(n := c)) (r(n := w)) e = estr a r e"
  by (rule str_cong) auto

lemma str_add_new:
  assumes "dict_ok r n" and "code_ok w n"
  shows "estr (a(n := c)) (r(n := w)) n = estr a r w @ [c]"
proof -
  have "estr (a(n := c)) (r(n := w)) n = estr (a(n := c)) (r(n := w)) w @ [c]"
    using assms by (subst estr.simps) (auto simp: dict_ok_def code_ok_def)
  with assms show ?thesis by (simp add: str_add_old)
qed

text \<open>
  The first byte of a code that may be the newest one, read off in the dictionary that does
  not have the newest entry yet.
\<close>

lemma first_behind:
  assumes "dict_ok r n" and "code_ok prev n" and "code_ok w (Suc n)"
    and "hd (estr (a(n := c)) (r(n := prev)) w) = c"
  shows "hd (estr a r (if w = n then prev else w)) = c"
proof (cases "w = n")
  case True
  from assms(4) have "hd (estr a r prev @ [c]) = c"
    unfolding True str_add_new [OF assms(1,2)] .
  with True str_nonempty [OF assms(1,2)] show ?thesis by simp
next
  case False
  with assms(3) have w: "code_ok w n" by (auto simp: code_ok_def)
  from assms(4) show ?thesis
    unfolding str_add_old [OF assms(1) w] using False by simp
qed

section \<open>The symbol-level algorithms\<close>

text \<open>
  The encoder, given a way \<open>ex\<close> to search the dictionary, and the decoder.  A symbol above
  the next free code ends the decoding with an error.
\<close>

fun enc :: "((nat \<Rightarrow> u8) \<Rightarrow> (nat \<Rightarrow> nat) \<Rightarrow> nat \<Rightarrow> nat \<Rightarrow> u8 \<Rightarrow> nat option) \<Rightarrow>
    (nat \<Rightarrow> u8) \<Rightarrow> (nat \<Rightarrow> nat) \<Rightarrow> nat \<Rightarrow> nat \<Rightarrow> bytes \<Rightarrow> nat list" where
  "enc ex a r n w [] = [w]"
| "enc ex a r n w (c # cs) =
     (case ex a r n w c of
        Some h \<Rightarrow> enc ex a r n h cs
      | None \<Rightarrow> w # enc ex (a(n := c)) (r(n := w)) (Suc n) (unat c) cs)"

fun dec :: "(nat \<Rightarrow> u8) \<Rightarrow> (nat \<Rightarrow> nat) \<Rightarrow> nat \<Rightarrow> nat \<Rightarrow> nat list \<Rightarrow> bytes option" where
  "dec a r n prev [] = Some []"
| "dec a r n prev (e # es) =
     (if n < e then None
      else let f = hd (estr a r (if e = n then prev else e))
           in map_option (\<lambda>bs. estr (a(n := f)) (r(n := prev)) e @ bs)
                (dec (a(n := f)) (r(n := prev)) (Suc n) e es))"

lemma enc_Cons:
  "enc ex a r n w (c # cs) =
     (case ex a r n w c of
        Some h \<Rightarrow> enc ex a r n h cs
      | None \<Rightarrow> w # enc ex (a(n := c)) (r(n := w)) (Suc n) (unat c) cs)"
  by (simp add: fun_upd_def)

lemma dec_Cons:
  "dec a r n prev (e # es) =
     (if n < e then None
      else let f = hd (estr a r (if e = n then prev else e))
           in map_option (\<lambda>bs. estr (a(n := f)) (r(n := prev)) e @ bs)
                (dec (a(n := f)) (r(n := prev)) (Suc n) e es))"
  by (simp add: fun_upd_def Let_def)

declare enc.simps(2) [simp del] dec.simps(2) [simp del]
declare enc_Cons [simp] dec_Cons [simp]

text \<open>The decoder uses no entry at or above the next free code.\<close>

lemma dec_cong:
  assumes "dict_ok r n" and "code_ok prev n" and "\<forall>e \<in> set es. e \<noteq> 256"
    and "\<And>k. 257 \<le> k \<Longrightarrow> k < n \<Longrightarrow> r' k = r k \<and> a' k = a k"
  shows "dec a' r' n prev es = dec a r n prev es"
  using assms
proof (induction es arbitrary: a r a' r' n prev)
  case Nil
  then show ?case by simp
next
  case (Cons e es)
  show ?case
  proof (cases "n < e")
    case True
    then show ?thesis by simp
  next
    case False
    define g where "g = (if e = n then prev else e)"
    have g: "code_ok g n"
      using False Cons.prems(2,3) by (auto simp: g_def code_ok_def)
    define f where "f = hd (estr a r g)"
    have f': "hd (estr a' r' g) = f"
      unfolding f_def by (subst str_cong [OF Cons.prems(1) g Cons.prems(4)]) auto
    have ok: "dict_ok (r(n := prev)) (Suc n)" using Cons.prems by (simp add: dict_ok_add)
    have e: "code_ok e (Suc n)" using False Cons.prems(3) by (auto simp: code_ok_def)
    have agree: "(r'(n := prev)) k = (r(n := prev)) k \<and> (a'(n := f)) k = (a(n := f)) k"
      if "257 \<le> k" "k < Suc n" for k
      using that Cons.prems(4) [of k] by (cases "k = n") auto
    have s: "estr (a'(n := f)) (r'(n := prev)) e = estr (a(n := f)) (r(n := prev)) e"
      by (rule str_cong [OF ok e agree])
    have d: "dec (a'(n := f)) (r'(n := prev)) (Suc n) e es = dec (a(n := f)) (r(n := prev)) (Suc n) e es"
      using Cons.prems(3) by (intro Cons.IH [OF ok e _ agree]) auto
    show ?thesis
      unfolding dec_Cons g_def [symmetric] f' Let_def s d f_def [symmetric] ..
  qed
qed

text \<open>What the encoder needs of its dictionary search: a hit is an entry for the string.\<close>

locale dict_search =
  fixes ex :: "(nat \<Rightarrow> u8) \<Rightarrow> (nat \<Rightarrow> nat) \<Rightarrow> nat \<Rightarrow> nat \<Rightarrow> u8 \<Rightarrow> nat option"
  assumes hit: "dict_ok r n \<Longrightarrow> code_ok w n \<Longrightarrow> ex a r n w c = Some h \<Longrightarrow>
      257 \<le> h \<and> h < n \<and> estr a r h = estr a r w @ [c]"
begin

lemma hit_code: "dict_ok r n \<Longrightarrow> code_ok w n \<Longrightarrow> ex a r n w c = Some h \<Longrightarrow> code_ok h n"
  using hit by (fastforce simp: code_ok_def)

text \<open>Every code the encoder emits is valid when it is emitted.\<close>

lemma enc_codes:
  "dict_ok r n \<Longrightarrow> code_ok w n \<Longrightarrow> e \<in> set (enc ex a r n w cs) \<Longrightarrow>
   e \<noteq> 256 \<and> e < n + length (enc ex a r n w cs)"
proof (induction cs arbitrary: a r n w)
  case Nil
  then show ?case by (simp add: code_ok_def)
next
  case (Cons c cs)
  show ?case
  proof (cases "ex a r n w c")
    case None
    have c: "code_ok (unat c) (Suc n)"
      by (rule code_ok_byte [OF dict_ok_add [OF Cons.prems(1,2)]])
    from None Cons.prems(3) have "e = w \<or> e \<in> set (enc ex (a(n := c)) (r(n := w)) (Suc n) (unat c) cs)"
      by simp
    then show ?thesis
    proof
      assume "e = w"
      with Cons.prems(2) show ?thesis by (auto simp: code_ok_def)
    next
      assume "e \<in> set (enc ex (a(n := c)) (r(n := w)) (Suc n) (unat c) cs)"
      then have "e \<noteq> 256 \<and> e < Suc n + length (enc ex (a(n := c)) (r(n := w)) (Suc n) (unat c) cs)"
        using c dict_ok_add [OF Cons.prems(1,2)] by (intro Cons.IH)
      with None show ?thesis by (simp only: enc_Cons option.case) simp
    qed
  next
    case (Some h)
    with Cons.prems have "code_ok h n" by (blast intro: hit_code)
    with Cons Some show ?thesis by simp
  qed
qed

text \<open>
  The decoder is one entry behind the encoder: it knows the prefix \<open>prev\<close> of entry \<open>n\<close>, but
  learns its suffix, the first byte of the next code's string, only with that code.
\<close>

lemma dec_enc_behind:
  assumes "dict_ok r n" and "code_ok prev n"
    and "a' = a(n := c)" and "r' = r(n := prev)"
    and "code_ok w (Suc n)" and "hd (estr a' r' w) = c"
  shows "dec a r n prev (enc ex a' r' (Suc n) w cs) = Some (estr a' r' w @ cs)"
  using assms
proof (induction cs arbitrary: a r n prev c w a' r')
  case Nil
  have f: "hd (estr a r (if w = n then prev else w)) = c"
    using Nil.prems(6) unfolding Nil.prems(3,4)
    by (rule first_behind [OF Nil.prems(1,2,5)])
  have w: "\<not> n < w" using Nil.prems by (auto simp: code_ok_def)
  show ?case by (simp only: enc.simps(1) dec_Cons w if_False f Let_def Nil.prems(3,4) [symmetric]) simp
next
  case (Cons x cs)
  have ok: "dict_ok r' (Suc n)" using Cons.prems by (simp only: dict_ok_add)
  have f: "hd (estr a r (if w = n then prev else w)) = c"
    using Cons.prems(6) unfolding Cons.prems(3,4)
    by (rule first_behind [OF Cons.prems(1,2,5)])
  have w: "\<not> n < w" using Cons.prems by (auto simp: code_ok_def)
  note w' = Cons.prems(5)
  show ?case
  proof (cases "ex a' r' (Suc n) w x")
    case None
    have x: "code_ok (unat x) (Suc (Suc n))"
      using code_ok_byte [OF dict_ok_add [OF ok w']] .
    have "dec a' r' (Suc n) w (enc ex (a'(Suc n := x)) (r'(Suc n := w)) (Suc (Suc n)) (unat x) cs)
      = Some (estr (a'(Suc n := x)) (r'(Suc n := w)) (unat x) @ cs)"
      by (rule Cons.IH [OF ok w' refl refl x]) simp
    then show ?thesis
      using None by (simp only: enc_Cons option.case dec_Cons w if_False f Let_def
          Cons.prems(3,4) [symmetric]) simp
  next
    case (Some h)
    from hit [OF ok w' Some] have h: "estr a' r' h = estr a' r' w @ [x]" by simp
    from str_nonempty [OF ok w'] Cons.prems(6) have "hd (estr a' r' h) = c"
      by (simp add: h)
    from Cons.IH [OF Cons.prems(1-4) hit_code [OF ok w' Some] this] show ?thesis
      using Some h by simp
  qed
qed

text \<open>
  The first symbol the decoder sees is a byte; from there on it reproduces the input.
\<close>

definition dec_all :: "(nat \<Rightarrow> u8) \<Rightarrow> (nat \<Rightarrow> nat) \<Rightarrow> nat list \<Rightarrow> bytes option" where
  "dec_all a r es = (case es of [] \<Rightarrow> None
     | e # es' \<Rightarrow> map_option (\<lambda>bs. estr a r e @ bs) (dec a r 257 e es'))"

lemma dict_ok_start: "dict_ok r 257"
  by (simp add: dict_ok_def)

lemma ex_start: "code_ok w 257 \<Longrightarrow> ex a r 257 w c = None"
  using hit [of r 257 w a c] dict_ok_start [of r] by (cases "ex a r 257 w c") fastforce+

lemma enc_start:
  fixes b :: u8
  shows "enc ex a r 257 (unat b) (c # cs)
    = unat b # enc ex (a(257 := c)) (r(257 := unat b)) 258 (unat c) cs"
proof -
  have "code_ok (unat b) 257" by (rule code_ok_byte [OF dict_ok_start])
  then show ?thesis by (simp add: ex_start)
qed

text \<open>Whatever the two programs find in their dictionary memory at the start.\<close>

lemma dec_all_enc: "dec_all a2 r2 (enc ex a r 257 (unat b) cs) = Some (b # cs)"
proof (cases cs)
  case Nil
  then show ?thesis by (simp add: dec_all_def)
next
  case (Cons c cs')
  let ?a = "a(257 := c)" and ?r = "r(257 := unat b)"
  have b: "code_ok (unat b) 257" and c: "code_ok (unat c) (Suc 257)"
    using code_ok_byte [OF dict_ok_start, of b] code_ok_byte [OF dict_ok_start, of c]
    by (auto simp: code_ok_def)
  have ok: "dict_ok ?r (Suc 257)" by (rule dict_ok_add [OF dict_ok_start b])
  have d: "dec a r 257 (unat b) (enc ex ?a ?r (Suc 257) (unat c) cs')
      = Some (estr ?a ?r (unat c) @ cs')"
    by (rule dec_enc_behind [OF dict_ok_start b refl refl c]) simp
  have "dec a2 r2 257 (unat b) (enc ex ?a ?r (Suc 257) (unat c) cs')
      = dec a r 257 (unat b) (enc ex ?a ?r (Suc 257) (unat c) cs')"
    using enc_codes [OF ok c] by (intro dec_cong [OF dict_ok_start b]) auto
  then show ?thesis
    unfolding Cons enc_start dec_all_def using d by simp
qed

end

end
