(* ===== verification/Compress.thy ===== *)
theory Compress
  imports Lzw_Dict
begin

text \<open>
  The LZW compressor \<open>uncompress/compress.c\<close>: its bit output, its dictionary in the arrays
  \<open>app\<close> and \<open>ref\<close>, the linear dictionary search through \<open>buildstr\<close> and its main loop.
\<close>

definition CLEAR :: nat where
  "CLEAR = 256"

record cst = bio +
  num :: nat
  bbuf :: u8
  app :: "nat \<Rightarrow> u8"
  ref :: "nat \<Rightarrow> nat"
  nexti :: nat
  bits :: nat
  mymaxbits :: nat

section \<open>The program\<close>

definition putbit :: "nat \<Rightarrow> cst \<Rightarrow> cst option" where
  "putbit b s =
     (let s1 = s\<lparr>bbuf := bbuf s OR push_bit (num s) (of_bool (odd b)), num := num s + 1\<rparr>
      in if num s1 = 8
         then do { s2 \<leftarrow> outbyte (bbuf s1) s1; Some (s2\<lparr>num := 0, bbuf := 0\<rparr>) }
         else Some s1)"

fun outsym_loop :: "nat \<Rightarrow> nat \<Rightarrow> cst \<Rightarrow> cst option" where
  "outsym_loop 0 v s = Some s"
| "outsym_loop (Suc x) v s = do { s1 \<leftarrow> putbit v s; outsym_loop x (v div 2) s1 }"

definition outsym :: "nat \<Rightarrow> cst \<Rightarrow> cst option" where
  "outsym v s = outsym_loop (bits s) v s"

definition flushbits :: "cst \<Rightarrow> cst option" where
  "flushbits s = do {
     s1 \<leftarrow> (if num s \<noteq> 0 then outbyte (bbuf s) s else Some s);
     outflush (s1\<lparr>num := 0\<rparr>) }"

definition cleardict :: "cst \<Rightarrow> cst" where
  "cleardict s = s\<lparr>nexti := 257, bits := 9\<rparr>"

text \<open>\<open>adddict\<close> returns whether the dictionary is full.\<close>

definition adddict :: "nat \<Rightarrow> u8 \<Rightarrow> cst \<Rightarrow> bool \<times> cst" where
  "adddict prefix suffix s =
     (if nexti s = 2 ^ bits s \<and> \<not> bits s < mymaxbits s then (True, s)
      else let s1 = (if nexti s = 2 ^ bits s then s\<lparr>bits := bits s + 1\<rparr> else s)
           in (False, s1\<lparr>ref := (ref s1)(nexti s1 := prefix), app := (app s1)(nexti s1 := suffix),
                         nexti := nexti s1 + 1\<rparr>))"

text \<open>
  \<open>buildstr\<close> writes a code's string backwards from the end of a buffer of 256 bytes; the
  first argument counts the bytes left below the pointer, and \<open>None\<close> is a write below the
  buffer.
\<close>

fun buildstr :: "nat \<Rightarrow> cst \<Rightarrow> nat \<Rightarrow> bytes \<Rightarrow> bytes option" where
  "buildstr 0 s entry acc = None"
| "buildstr (Suc p) s entry acc =
     (if entry < 256 then Some (of_nat entry # acc)
      else buildstr p s (ref s entry) (app s entry # acc))"

text \<open>\<open>exist\<close> looks for the entry with string \<open>prefix\<close> \<open>suffix\<close>; -1 when there is none.\<close>

function exist_loop :: "nat \<Rightarrow> bytes \<Rightarrow> cst \<Rightarrow> int option" where
  "exist_loop h str s =
     (if h < nexti s then do {
        s1 \<leftarrow> buildstr 256 s h [];
        if length str \<noteq> length s1 then exist_loop (h + 1) str s
        else if str = s1 then Some (int h)
        else exist_loop (h + 1) str s }
      else Some (-1))"
  by pat_completeness auto
termination
  by (relation "measure (\<lambda>(h, str, s). nexti s - h)") auto

declare exist_loop.simps [simp del]

definition exist :: "nat \<Rightarrow> u8 \<Rightarrow> cst \<Rightarrow> int option" where
  "exist prefix suffix s = do {
     str \<leftarrow> buildstr 256 s prefix [];
     exist_loop 257 (str @ [suffix]) s }"

partial_function (option) compress_loop :: "nat \<Rightarrow> cst \<Rightarrow> (nat \<times> cst) option" where
  "compress_loop w s =
     (case inbyte s of (ch, s1) \<Rightarrow>
        if ch < 0 then Some (w, s1)
        else do {
          n \<leftarrow> exist w (word_of_int ch) s1;
          if 0 \<le> n then compress_loop (nat n) s1
          else case adddict w (word_of_int ch) s1 of (full, s2) \<Rightarrow>
            if full then do { s3 \<leftarrow> outsym CLEAR s2; compress_loop w (cleardict s3) }
            else do { s3 \<leftarrow> outsym w s2; compress_loop (nat ch) s3 } })"

text \<open>
  \<open>compress\<close>; \<open>Inl\<close> is the exit after \<open>myabort\<close>.  The first \<open>inbyte\<close> is stored in an
  unsigned 16-bit variable without a test for the end of the input.
\<close>

definition compress :: "cst \<Rightarrow> (cst + cst) option" where
  "compress s =
     (let s0 = s\<lparr>ipos := 0, isize := 0, opos := 0\<rparr>;
          mx = of_nat (mymaxbits s) OR 0x80
      in case do_write [0x1f, 0x9d] s0 of (r1, s1) \<Rightarrow>
         case do_write [mx] s1 of (r2, s2) \<Rightarrow>
           if r1 < 0 \<or> r2 < 0 then do { s3 \<leftarrow> outflush s2; Some (Inl s3) }
           else case inbyte (cleardict s2) of (c, s3) \<Rightarrow> do {
             (w, s4) \<leftarrow> compress_loop (nat (c mod 65536)) s3;
             s5 \<leftarrow> outsym w s4;
             Some (Inr s5) })"

text \<open>
  \<open>myalloc\<close>: the largest dictionary that fits into the \<open>avail\<close> bytes the process may still
  take from the system, tried from 14 bits down (three blocks of the same size); whatever
  the size found, the compressor then encodes with 9 bits.
\<close>

fun alloc_bits :: "nat \<Rightarrow> nat \<Rightarrow> nat option" where
  "alloc_bits avail 0 = None"
| "alloc_bits avail (Suc b) =
     (if 8 < Suc b then if 3 * 2 ^ Suc b \<le> avail then Some (Suc b) else alloc_bits avail b
      else None)"

lemma alloc_bits_numeral:
  "alloc_bits avail (numeral k) =
     (if 8 < (numeral k :: nat)
      then if 3 * 2 ^ numeral k \<le> avail then Some (numeral k) else alloc_bits avail (pred_numeral k)
      else None)"
  by (simp add: numeral_eq_Suc del: power_Suc)

definition myalloc :: "nat \<Rightarrow> cst \<Rightarrow> cst option" where
  "myalloc avail s = map_option (\<lambda>_. s\<lparr>mymaxbits := 9\<rparr>) (alloc_bits avail 14)"

text \<open>The whole program; \<open>Inl\<close> for an exit with status 1.\<close>

definition compress_main :: "nat \<Rightarrow> cst \<Rightarrow> (cst + cst) option" where
  "compress_main avail s =
     (case myalloc avail s of
        None \<Rightarrow> do { s1 \<leftarrow> outflush s; Some (Inl s1) }
      | Some s1 \<Rightarrow> do {
          r \<leftarrow> compress s1;
          case r of Inl s2 \<Rightarrow> Some (Inl s2)
          | Inr s2 \<Rightarrow> do { s3 \<leftarrow> flushbits s2; Some (Inr s3) } })"

section \<open>The bit output\<close>

definition sent_bits :: "cst \<Rightarrow> bool list" where
  "sent_bits s = bits_of (out_bytes s) @ map (bit (bbuf s)) [0..<num s]"

definition bit_room :: "cst \<Rightarrow> nat" where
  "bit_room s = 8 * space s - num s"

definition bits_ok :: "cst \<Rightarrow> bool" where
  "bits_ok s \<longleftrightarrow> out_ok s \<and> num s < 8 \<and> (\<forall>i\<ge>num s. \<not> bit (bbuf s) i)"

definition c_view ::
  "cst \<Rightarrow> bytes list \<times> bytes \<times> nat \<times> nat \<times> (nat \<Rightarrow> u8) \<times> (nat \<Rightarrow> nat) \<times> nat \<times> nat \<times> nat" where
  "c_view s = (reads s, ibuf s, ipos s, isize s, app s, ref s, nexti s, bits s, mymaxbits s)"

lemma in_view_c:
  assumes "in_view s' = in_view s"
  shows "c_view s' = c_view s" and "num s' = num s" and "bbuf s' = bbuf s"
  using assms by (cases s; cases s'; simp add: in_view_def c_view_def)+

lemma or_push_bit_prefix:
  fixes b :: u8
  assumes "n < 8" and "\<forall>i\<ge>n. \<not> bit b i"
  shows "map (bit (b OR push_bit n (of_bool v))) [0..<Suc n] = map (bit b) [0..<n] @ [v]"
  using assms by (auto simp: bit_simps)

lemma putbit_ok:
  assumes "bits_ok s" and "0 < bit_room s"
  shows "\<exists>s'. putbit b s = Some s' \<and> bits_ok s' \<and> sent_bits s' = sent_bits s @ [odd b]
    \<and> Suc (bit_room s') = bit_room s \<and> c_view s' = c_view s"
proof -
  let ?b = "bbuf s OR push_bit (num s) (of_bool (odd b))"
  let ?s = "s\<lparr>bbuf := ?b, num := num s + 1\<rparr>"
  from assms have n: "num s < 8" and z: "\<forall>i\<ge>num s. \<not> bit (bbuf s) i" and o: "out_ok s"
    by (simp_all add: bits_ok_def)
  note pre = or_push_bit_prefix [OF n z, of "odd b"]
  from assms n have sp: "0 < space s" by (simp add: bit_room_def)
  show ?thesis
  proof (cases "num s + 1 = 8")
    case True
    have "out_ok ?s" "space ?s = space s" "out_bytes ?s = out_bytes s" "c_view ?s = c_view s"
      using o by (simp_all add: out_ok_def space_def out_bytes_def c_view_def)
    with sp bio_sink.put_ok [of ?s ?b] obtain s2 where s2: "outbyte ?b ?s = Some s2" "out_ok s2"
      "out_bytes s2 = out_bytes s @ [?b]" "Suc (space s2) = space s" "in_view s2 = in_view ?s"
      by auto
    let ?s2 = "s2\<lparr>num := 0, bbuf := 0\<rparr>"
    have e: "putbit b s = Some ?s2" using True s2(1) by (simp add: putbit_def Let_def)
    have "c_view ?s2 = c_view s2" by (simp add: c_view_def)
    with in_view_c(1) [OF s2(5)] have v: "c_view ?s2 = c_view s" by (simp add: c_view_def)
    have bb: "byte_bits ?b = map (bit (bbuf s)) [0..<num s] @ [odd b]"
      using pre True by (simp only: byte_bits_def Suc_eq_plus1)
    have out: "out_bytes ?s2 = out_bytes s2" "space ?s2 = space s2" "out_ok ?s2 = out_ok s2"
      by (simp_all add: out_bytes_def space_def out_ok_def)
    show ?thesis
      unfolding e using True s2 v bb out by (auto simp: bits_ok_def sent_bits_def bit_room_def)
  next
    case False
    have out: "out_bytes ?s = out_bytes s" "space ?s = space s" "out_ok ?s = out_ok s"
      by (simp_all add: out_bytes_def space_def out_ok_def)
    have "\<forall>i\<ge>num s + 1. \<not> bit ?b i" using z by (auto simp: bit_simps)
    with False n o out have "bits_ok ?s" by (simp add: bits_ok_def)
    moreover have "sent_bits ?s = sent_bits s @ [odd b]"
      using pre out by (simp add: sent_bits_def)
    moreover have "Suc (bit_room ?s) = bit_room s"
      using out sp n by (simp add: bit_room_def)
    ultimately show ?thesis
      using False by (auto simp: putbit_def Let_def c_view_def)
  qed
qed

interpretation out_bits: bit_sink putbit sent_bits bit_room bits_ok c_view
  by unfold_locales (rule putbit_ok)

lemma outsym_loop_eq: "outsym_loop n = out_bits.put_bits n"
proof (induction n)
  case 0
  show ?case by (intro ext) simp
next
  case (Suc n)
  then show ?case by (intro ext) simp
qed

lemma outsym_ok:
  assumes "bits_ok s" and "bits s \<le> bit_room s"
  shows "\<exists>s'. outsym v s = Some s' \<and> bits_ok s' \<and> sent_bits s' = sent_bits s @ nat_bits (bits s) v
    \<and> bit_room s' + bits s = bit_room s \<and> c_view s' = c_view s"
  using out_bits.put_bits_ok [OF assms] by (simp add: outsym_def outsym_loop_eq)

text \<open>Reading input leaves the output and the dictionary alone.\<close>

lemma out_view_c:
  assumes "out_view s' = out_view s"
  shows "bits_ok s' = bits_ok s" and "sent_bits s' = sent_bits s" and "bit_room s' = bit_room s"
    and "app s' = app s" and "ref s' = ref s" and "nexti s' = nexti s" and "bits s' = bits s"
    and "mymaxbits s' = mymaxbits s"
  using assms
  by (cases s; cases s';
      simp add: out_view_def bits_ok_def out_ok_def sent_bits_def out_bytes_def bit_room_def
        space_def; fail)+

lemma c_viewD:
  assumes "c_view s' = c_view s"
  shows "in_ok s' = in_ok s" and "pending s' = pending s" and "app s' = app s" and "ref s' = ref s"
    and "nexti s' = nexti s" and "bits s' = bits s" and "mymaxbits s' = mymaxbits s"
  using assms by (simp_all add: c_view_def in_ok_def pending_def)

text \<open>\<open>flushbits\<close> completes the last byte with zero bits and empties the buffer.\<close>

lemma flushbits_ok:
  assumes "bits_ok s" and "0 < space s"
  shows "\<exists>s' k. flushbits s = Some s' \<and> k < 8
    \<and> bits_of (written s') = sent_bits s @ replicate k False"
proof -
  from assms have n: "num s < 8" and o: "out_ok s" and z: "\<forall>i\<ge>num s. \<not> bit (bbuf s) i"
    by (simp_all add: bits_ok_def)
  have flush: "\<exists>s'. outflush t = Some s' \<and> written s' = out_bytes t" if "out_ok t" for t :: cst
    using that by (auto simp: outflush_ok out_ok_def out_bytes_def)
  show ?thesis
  proof (cases "num s = 0")
    case True
    with flush [of "s\<lparr>num := 0\<rparr>"] o obtain s' where "flushbits s = Some s'"
      "written s' = out_bytes s"
      by (auto simp: flushbits_def out_ok_def out_bytes_def)
    with True show ?thesis by (intro exI [of _ s'] exI [of _ 0]) (simp add: sent_bits_def)
  next
    case False
    from bio_sink.put_ok [OF o assms(2)] obtain s1 where s1: "outbyte (bbuf s) s = Some s1"
      "out_ok s1" "out_bytes s1 = out_bytes s @ [bbuf s]" by blast
    have "[0..<8] = [0..<num s] @ [num s..<8]"
      using upt_add_eq_append [of 0 "num s" "8 - num s"] n by simp
    then have "byte_bits (bbuf s) = map (bit (bbuf s)) [0..<num s] @ map (bit (bbuf s)) [num s..<8]"
      by (simp add: byte_bits_def)
    also have "map (bit (bbuf s)) [num s..<8] = replicate (8 - num s) False"
      using z n by (intro nth_equalityI) auto
    finally have "bits_of (out_bytes s1) = sent_bits s @ replicate (8 - num s) False"
      using s1(3) by (simp add: sent_bits_def)
    moreover from flush [of "s1\<lparr>num := 0\<rparr>"] s1(2) obtain s' where
      "outflush (s1\<lparr>num := 0\<rparr>) = Some s'" "written s' = out_bytes s1"
      by (auto simp: out_ok_def out_bytes_def)
    ultimately show ?thesis
      using False n s1(1) by (intro exI [of _ s'] exI [of _ "8 - num s"]) (simp add: flushbits_def)
  qed
qed

section \<open>The dictionary search\<close>

lemma buildstr_ok:
  assumes "dict_ok (ref s) n" and "code_ok e n" and "length (estr (app s) (ref s) e) \<le> p"
  shows "buildstr p s e acc = Some (estr (app s) (ref s) e @ acc)"
  using assms
proof (induction p arbitrary: e acc)
  case 0
  with str_nonempty [OF 0(1,2)] show ?case by simp
next
  case (Suc p)
  from Suc.prems(2) show ?case
  proof (cases rule: code_cases)
    case byte
    then show ?thesis by simp
  next
    case entry
    note e = str_entry [OF Suc.prems(1) entry, of "app s"]
    have "buildstr p s (ref s e) (app s e # acc) = Some (estr (app s) (ref s) (ref s e) @ app s e # acc)"
      using Suc.prems e entry by (intro Suc.IH) (auto intro: code_ok_prefix)
    with entry e show ?thesis by simp
  qed
qed

lemma buildstr_256:
  assumes "dict_ok (ref s) (nexti s)" and "code_ok e (nexti s)" and "nexti s \<le> 512"
  shows "buildstr 256 s e [] = Some (estr (app s) (ref s) e)"
proof -
  have "length (estr (app s) (ref s) e) \<le> 256"
    using str_length [OF assms(1,2), of "app s"] assms(2,3) by (auto simp: code_ok_def)
  with buildstr_ok [OF assms(1,2)] show ?thesis by simp
qed

definition ex_search ::
  "(nat \<Rightarrow> u8) \<Rightarrow> (nat \<Rightarrow> nat) \<Rightarrow> nat \<Rightarrow> nat \<Rightarrow> u8 \<Rightarrow> nat option" where
  "ex_search a r n w c = List.find (\<lambda>h. estr a r h = estr a r w @ [c]) [257..<n]"

interpretation ex_search: dict_search ex_search
  by unfold_locales (auto simp: ex_search_def find_Some_iff)

lemma exist_loop_ok:
  assumes "dict_ok (ref s) (nexti s)" and "nexti s \<le> 512" and "257 \<le> h"
  shows "exist_loop h t s = Some (case List.find (\<lambda>h. estr (app s) (ref s) h = t) [h..<nexti s] of
      None \<Rightarrow> -1 | Some h \<Rightarrow> int h)"
  using assms
proof (induction h t s rule: exist_loop.induct)
  case (1 h t s)
  show ?case
  proof (cases "h < nexti s")
    case True
    with "1.prems" have "code_ok h (nexti s)" by (simp add: code_ok_def)
    with "1.prems" have b: "buildstr 256 s h [] = Some (estr (app s) (ref s) h)"
      by (intro buildstr_256)
    have up: "[h..<nexti s] = h # [h + 1..<nexti s]"
      using True by (simp add: upt_conv_Cons)
    show ?thesis
      using True b "1.IH" "1.prems" by (subst exist_loop.simps) (auto simp: up)
  next
    case False
    then show ?thesis by (subst exist_loop.simps) simp
  qed
qed

lemma exist_ok:
  assumes "dict_ok (ref s) (nexti s)" and "nexti s \<le> 512" and "code_ok w (nexti s)"
  shows "exist w c s = Some (case ex_search (app s) (ref s) (nexti s) w c of
      None \<Rightarrow> -1 | Some h \<Rightarrow> int h)"
  using assms by (simp add: exist_def buildstr_256 exist_loop_ok ex_search_def)

section \<open>The main loop emits the abstract codes\<close>

definition codes :: "cst \<Rightarrow> nat \<Rightarrow> bytes \<Rightarrow> nat list" where
  "codes s w cs = enc ex_search (app s) (ref s) (nexti s) w cs"

lemma codes_nonempty: "codes s w cs \<noteq> []"
  unfolding codes_def by (induction cs arbitrary: w rule: list.induct) (auto split: option.splits)

lemma compress_loop_ok:
  assumes "in_ok s" and "bits_ok s" and "bits s = 9" and "dict_ok (ref s) (nexti s)"
    and "code_ok w (nexti s)" and "pending s = cs"
    and "nexti s + length (codes s w cs) \<le> 513" and "9 * length (codes s w cs) \<le> bit_room s"
  shows "\<exists>w' s'. compress_loop w s = Some (w', s') \<and> bits_ok s' \<and> bits s' = 9
    \<and> sent_bits s' @ nat_bits 9 w' = sent_bits s @ concat (map (nat_bits 9) (codes s w cs))
    \<and> bit_room s' + 9 * length (codes s w cs) = bit_room s + 9"
  using assms
proof (induction cs arbitrary: s w)
  case Nil
  from bio_source.get_Nil [OF Nil.prems(1,6)] obtain s1 where
    s1: "inbyte s = (-1, s1)" "out_view s1 = out_view s" by blast
  then have "compress_loop w s = Some (w, s1)" by (subst compress_loop.simps) simp
  with Nil.prems out_view_c [OF s1(2)] show ?case by (simp add: codes_def)
next
  case (Cons c cs)
  from bio_source.get_Cons [OF Cons.prems(1,6)] obtain s1 where
    s1: "inbyte s = (uint c, s1)" "in_ok s1" "pending s1 = cs" "out_view s1 = out_view s" by blast
  note v = out_view_c [OF s1(4)]
  have n512: "nexti s \<le> 512"
    using Cons.prems(7) codes_nonempty [of s w "c # cs"] by (cases "codes s w (c # cs)") auto
  have ex: "exist w c s1 = Some (case ex_search (app s) (ref s) (nexti s) w c of
      None \<Rightarrow> -1 | Some h \<Rightarrow> int h)"
    using Cons.prems n512 by (simp add: exist_ok v)
  show ?case
  proof (cases "ex_search (app s) (ref s) (nexti s) w c")
    case (Some h)
    have cd: "codes s w (c # cs) = codes s1 h cs"
      using Some v by (simp add: codes_def)
    have e: "compress_loop w s = compress_loop h s1"
      using s1(1) ex Some by (subst compress_loop.simps) simp
    show ?thesis
      unfolding e cd v(2) [symmetric] v(3) [symmetric]
      using Cons.prems s1 v cd ex_search.hit_code [OF Cons.prems(4,5) Some]
      by (intro Cons.IH) auto
  next
    case None
    let ?s2 = "s1\<lparr>ref := (ref s1)(nexti s1 := w), app := (app s1)(nexti s1 := c), nexti := nexti s1 + 1\<rparr>"
    have cd: "codes s w (c # cs) = w # codes ?s2 (unat c) cs"
      using None v by (simp add: codes_def)
    with Cons.prems(7) codes_nonempty [of ?s2 "unat c" cs] have lt: "nexti s < 512"
      by (cases "codes ?s2 (unat c) cs") auto
    have add: "adddict w c s1 = (False, ?s2)"
      using lt v Cons.prems(3) by (simp add: adddict_def)
    have s2: "bits_ok ?s2" "bits ?s2 = 9" "sent_bits ?s2 = sent_bits s" "bit_room ?s2 = bit_room s"
      "in_ok ?s2" "pending ?s2 = cs"
      using Cons.prems v s1
      by (simp_all add: bits_ok_def out_ok_def sent_bits_def out_bytes_def bit_room_def space_def
          in_ok_def pending_def)
    from outsym_ok [OF s2(1), of w] s2 cd Cons.prems(8) obtain s3 where s3: "outsym w ?s2 = Some s3"
      "bits_ok s3" "sent_bits s3 = sent_bits s @ nat_bits 9 w" "bit_room s3 + 9 = bit_room s"
      "c_view s3 = c_view ?s2" by auto
    note v3 = c_viewD [OF s3(5)]
    have cd3: "codes s3 (unat c) cs = codes ?s2 (unat c) cs"
      using v3 by (simp add: codes_def)
    have dict: "dict_ok (ref s3) (nexti s3)" "code_ok (unat c) (nexti s3)"
      using dict_ok_add [OF Cons.prems(4,5)] code_ok_byte [OF dict_ok_add [OF Cons.prems(4,5)]]
        v v3 by simp_all
    have i3: "in_ok s3" "pending s3 = cs" "bits s3 = 9" "nexti s3 = nexti s + 1"
      using v3 s2 v by simp_all
    have l3: "nexti s3 + length (codes s3 (unat c) cs) \<le> 513"
      using Cons.prems(7) by (simp only: cd cd3 i3(4)) simp
    have r3: "9 * length (codes s3 (unat c) cs) \<le> bit_room s3"
      using Cons.prems(8) s3(4) by (simp only: cd cd3) simp
    note Cons.IH [OF i3(1) s3(2) i3(3) dict i3(2) l3 r3]
    moreover have "compress_loop w s = compress_loop (unat c) s3"
      using s1(1) ex None add s3(1) by (subst compress_loop.simps) simp
    ultimately show ?thesis using s3(3,4) unfolding cd cd3 by auto
  qed
qed

lemma length_codes: "length (codes s w cs) \<le> Suc (length cs)"
proof -
  have "length (enc ex_search a r n w cs) \<le> Suc (length cs)" for a r n
  proof (induction cs arbitrary: a r n w)
    case (Cons c cs)
    show ?case
    proof (cases "ex_search a r n w c")
      case None
      show ?thesis
        using Cons.IH [of "a(n := c)" "r(n := w)" "Suc n" "unat c"]
        unfolding enc_Cons None option.case list.size by linarith
    next
      case (Some h)
      with Cons.IH [of a r n h] show ?thesis by simp
    qed
  qed simp
  then show ?thesis by (simp add: codes_def)
qed

text \<open>A freshly started process: empty buffers, nothing written yet.\<close>

definition fresh :: "'a bio_scheme \<Rightarrow> bool" where
  "fresh s \<longleftrightarrow> length (ibuf s) = BUFZ \<and> length (obuf s) = BUFZ \<and> isize s = 0 \<and> opos s = 0
     \<and> written s = [] \<and> (\<forall>r \<in> set (reads s). r \<noteq> [] \<and> length r \<le> BUFZ)"

lemma do_write_ok:
  "length b \<le> room s \<Longrightarrow>
   do_write b s = (int (length b), s\<lparr>written := written s @ b, room := room s - length b\<rparr>)"
  by (cases b) (auto simp: do_write_def Let_def min_def)

text \<open>What the compressor writes for an input that does not fill the dictionary.\<close>

lemma compress_main_ok:
  assumes "fresh s" and "num s = 0" and "bbuf s = 0" and "concat (reads s) = b # cs"
    and "alloc_bits avail 14 \<noteq> None"
    and es: "es = codes (cleardict s) (unat b) cs"
    and "length es \<le> 256" and "5 + 2 * length es \<le> room s"
  shows "\<exists>s' p k. compress_main avail s = Some (Inr s') \<and> written s' = [0x1f, 0x9d, 0x89] @ p
    \<and> k < 8 \<and> bits_of p = concat (map (nat_bits 9) es) @ replicate k False"
proof -
  let ?t = "cleardict (s\<lparr>mymaxbits := 9, ipos := 0, isize := 0, opos := 0,
     written := [0x1f, 0x9d, 0x89], room := room s - 3\<rparr>)"
  have t: "in_ok ?t" "bits_ok ?t" "bits ?t = 9" "nexti ?t = 257" "pending ?t = b # cs"
    "sent_bits ?t = bits_of [0x1f, 0x9d, 0x89]" "bit_room ?t = 8 * (room s - 3)"
    using assms by (auto simp: fresh_def in_ok_def bits_ok_def out_ok_def pending_def sent_bits_def
        out_bytes_def bit_room_def space_def cleardict_def BUFZ_def)
  from bio_source.get_Cons [OF t(1,5)] obtain s1 where
    s1: "inbyte ?t = (uint b, s1)" "in_ok s1" "pending s1 = cs" "out_view s1 = out_view ?t" by blast
  note v = out_view_c [OF s1(4)]
  have cd: "codes s1 (unat b) cs = es"
    using v by (simp add: codes_def es cleardict_def)
  have d: "dict_ok (ref s1) (nexti s1)" "code_ok (unat b) (nexti s1)"
    using ex_search.dict_ok_start code_ok_byte [OF ex_search.dict_ok_start, of b] v
    by (simp_all add: cleardict_def)
  have l: "nexti s1 + length (codes s1 (unat b) cs) \<le> 513"
    "9 * length (codes s1 (unat b) cs) \<le> bit_room s1"
    using assms(7,8) v t unfolding cd by simp_all
  from compress_loop_ok [OF s1(2) _ _ d s1(3) l] v t obtain w' s2 where
    s2: "compress_loop (unat b) s1 = Some (w', s2)" "bits_ok s2" "bits s2 = 9"
      "sent_bits s2 @ nat_bits 9 w' = sent_bits s1 @ concat (map (nat_bits 9) es)"
      "bit_room s2 + 9 * length es = bit_room s1 + 9"
    unfolding cd by auto
  have r2: "9 \<le> bit_room s2" using s2(5) v t assms(8) by simp
  with outsym_ok [OF s2(2), of w'] s2(3) obtain s3 where s3: "outsym w' s2 = Some s3" "bits_ok s3"
    "sent_bits s3 = sent_bits s2 @ nat_bits 9 w'" "bit_room s3 + 9 = bit_room s2" by auto
  have "bit_room s3 + 9 * length es = 8 * (room s - 3)"
    using s3(4) s2(5) v(3) t(7) by linarith
  with assms(8) have "0 < bit_room s3" by linarith
  then have "0 < space s3" by (simp add: bit_room_def)
  from flushbits_ok [OF s3(2) this] obtain s4 k where s4: "flushbits s3 = Some s4" "k < 8"
    "bits_of (written s4) = sent_bits s3 @ replicate k False" by blast
  let ?u = "s\<lparr>mymaxbits := 9, ipos := 0, isize := 0, opos := 0\<rparr>"
  let ?v = "?u\<lparr>written := [0x1f, 0x9d], room := room s - 2\<rparr>"
  have w: "do_write [0x1f, 0x9d] ?u = (2, ?v)" "do_write [0x89] ?v =
      (1, ?v\<lparr>written := [0x1f, 0x9d, 0x89], room := room s - 3\<rparr>)"
    using assms(1,8) by (simp_all add: do_write_ok fresh_def)
  have m: "(of_nat (mymaxbits (s\<lparr>mymaxbits := 9\<rparr>)) :: u8) OR 0x80 = 0x89"
    "cleardict (?v\<lparr>written := [0x1f, 0x9d, 0x89], room := room s - 3\<rparr>) = ?t"
    by simp_all
  have "compress (s\<lparr>mymaxbits := 9\<rparr>) = (case inbyte ?t of (c, s3) \<Rightarrow> do {
             (w, s4) \<leftarrow> compress_loop (nat (c mod 65536)) s3;
             s5 \<leftarrow> outsym w s4;
             Some (Inr s5) })"
    unfolding compress_def Let_def m w prod.case by simp
  also have "\<dots> = Some (Inr s3)"
    by (simp add: s1(1) s2(1) s3(1) nat_uint_mod)
  finally have run: "compress_main avail s = Some (Inr s4)"
    using assms(5) s4(1) by (auto simp: compress_main_def myalloc_def)
  have "bits_of (written s4) = bits_of [0x1f, 0x9d, 0x89] @ concat (map (nat_bits 9) es) @ replicate k False"
    using s4(3) s3(3) s2(4) v t by simp
  then obtain p where "written s4 = [0x1f, 0x9d, 0x89] @ p"
    "bits_of p = concat (map (nat_bits 9) es) @ replicate k False"
    using bits_of_prefix by metis
  with run s4(2) show ?thesis by blast
qed

end
