(* ===== verification/Uncompress.thy ===== *)
theory Uncompress
  imports Lzw_Dict
begin

text \<open>
  The LZW decompressor \<open>uncompress/uncompress.c\<close>: its bit input, the recursive \<open>printsym\<close>
  and \<open>first\<close>, its own \<open>adddict\<close> and the decoding loop.
\<close>

record ust = bio +
  gnum :: nat
  gc :: u8
  eof :: bool
  app :: "nat \<Rightarrow> u8"
  ref :: "nat \<Rightarrow> nat"
  nexti :: nat
  bits :: nat
  maxbits :: nat
  mymaxbits :: nat

section \<open>The program\<close>

definition cleardict :: "ust \<Rightarrow> ust" where
  "cleardict s = s\<lparr>nexti := 257, bits := 9\<rparr>"

text \<open>\<open>gnum\<close> and \<open>gc\<close> are the static variables \<open>num\<close> and \<open>c\<close> of \<open>getbit\<close>.\<close>

definition getbit :: "ust \<Rightarrow> bool \<times> ust" where
  "getbit s =
     (let s1 = (if gnum s = 0
                then case inbyte s of (ret, t) \<Rightarrow>
                       let t1 = t\<lparr>gc := word_of_int ret\<rparr>
                       in if ret < 0 then t1\<lparr>eof := True\<rparr> else t1\<lparr>gnum := 8\<rparr>
                else s)
      in if gnum s1 = 0 then (False, s1)
         else (odd (gc s1), s1\<lparr>gnum := gnum s1 - 1, gc := gc s1 div 2\<rparr>))"

fun getsym_loop :: "nat \<Rightarrow> nat \<Rightarrow> nat \<Rightarrow> ust \<Rightarrow> nat \<times> ust" where
  "getsym_loop 0 x acc s = (acc, s)"
| "getsym_loop (Suc n) x acc s =
     (case getbit s of (b, s1) \<Rightarrow> getsym_loop n (Suc x) (acc OR push_bit x (of_bool b)) s1)"

definition getsym :: "ust \<Rightarrow> nat \<times> ust" where
  "getsym s = getsym_loop (bits s) 0 0 s"

partial_function (option) printsym :: "nat \<Rightarrow> ust \<Rightarrow> ust option" where
  "printsym code s =
     (if code < 256 then outbyte (of_nat code) s
      else do { s1 \<leftarrow> printsym (ref s code) s; outbyte (app s1 code) s1 })"

text \<open>The first byte of a symbol's string.\<close>

partial_function (option) first :: "nat \<Rightarrow> ust \<Rightarrow> u8 option" where
  "first code s = (if code < 256 then Some (of_nat code) else first (ref s code) s)"

definition adddict :: "nat \<Rightarrow> u8 \<Rightarrow> ust \<Rightarrow> ust" where
  "adddict prefix suffix s =
     (if nexti s = 2 ^ bits s then s
      else let s1 = s\<lparr>ref := (ref s)(nexti s := prefix), app := (app s)(nexti s := suffix),
                      nexti := nexti s + 1\<rparr>
           in if 2 ^ bits s1 \<le> nexti s1 \<and> bits s1 < mymaxbits s1 then s1\<lparr>bits := bits s1 + 1\<rparr> else s1)"

text \<open>
  The decoding loop; \<open>Inl\<close> is the abort on a symbol beyond the next free code.  After a clear
  code the loop starts afresh with a symbol that is printed without a dictionary entry.
\<close>

partial_function (option) decomp_loop :: "nat \<Rightarrow> ust \<Rightarrow> (ust + ust) option" where
  "decomp_loop prev s =
     (if eof s then Some (Inr s)
      else case getsym s of (cur, s1) \<Rightarrow>
        if eof s1 then Some (Inr s1)
        else if nexti s1 < cur then Some (Inl s1)
        else if cur = 256 then
          (case getsym (cleardict s1) of (p, s2) \<Rightarrow> do {
             s3 \<leftarrow> printsym p s2;
             decomp_loop p s3 })
        else do {
          f \<leftarrow> (if cur = nexti s1 then first prev s1 else first cur s1);
          s2 \<leftarrow> printsym cur (adddict prev f s1);
          decomp_loop cur s2 })"

text \<open>\<open>read(in, &header, 3)\<close>, which bypasses the buffer.\<close>

definition read3 :: "ust \<Rightarrow> bytes \<times> ust" where
  "read3 s = (case reads s of
       [] \<Rightarrow> ([], s)
     | r # rs \<Rightarrow> (take 3 r, s\<lparr>reads := (if length r \<le> 3 then rs else drop 3 r # rs)\<rparr>))"

datatype abort = Bad_header | Too_many_bits | Bad_input

definition decompress :: "ust \<Rightarrow> (abort \<times> ust + ust) option" where
  "decompress s =
     (let s0 = s\<lparr>ipos := 0, isize := 0, opos := 0, eof := False\<rparr>
      in case read3 s0 of (header, s1) \<Rightarrow>
        if length header < 3 \<or> header ! 0 \<noteq> 0x1f \<or> header ! 1 \<noteq> 0x9d
        then do { s2 \<leftarrow> outflush s1; Some (Inl (Bad_header, s2)) }
        else let s2 = s1\<lparr>maxbits := unat (header ! 2 AND 0x1f)\<rparr>
        in if mymaxbits s2 < maxbits s2
        then do { s3 \<leftarrow> outflush s2; Some (Inl (Too_many_bits, s3)) }
        else case getsym (cleardict s2) of (prev, s3) \<Rightarrow> do {
          s4 \<leftarrow> printsym prev s3;
          r \<leftarrow> decomp_loop prev s4;
          case r of
            Inl s5 \<Rightarrow> do { s6 \<leftarrow> outflush s5; Some (Inl (Bad_input, s6)) }
          | Inr s5 \<Rightarrow> do { s6 \<leftarrow> outflush s5; Some (Inr s6) } })"

section \<open>The bit input\<close>

definition todo_bits :: "ust \<Rightarrow> bool list" where
  "todo_bits s = map (bit (gc s)) [0..<gnum s] @ bits_of (pending s)"

definition get_ok :: "ust \<Rightarrow> bool" where
  "get_ok s \<longleftrightarrow> in_ok s \<and> gnum s \<le> 8"

definition u_view ::
  "ust \<Rightarrow> bytes \<times> nat \<times> bytes \<times> nat \<times> (nat \<Rightarrow> u8) \<times> (nat \<Rightarrow> nat) \<times> nat \<times> nat \<times> nat \<times> nat" where
  "u_view s = (written s, room s, obuf s, opos s, app s, ref s, nexti s, bits s, maxbits s, mymaxbits s)"

lemma out_view_u:
  assumes "out_view s' = out_view s"
  shows "u_view s' = u_view s" and "gnum s' = gnum s" and "gc s' = gc s" and "eof s' = eof s"
  using assms by (cases s; cases s'; simp add: out_view_def u_view_def; fail)+

lemma bit_div_2_u8: "bit ((c :: u8) div 2) i \<longleftrightarrow> bit c (Suc i)"
  by (simp add: bit_Suc)

lemma getbit_take:
  assumes "0 < gnum s" and "get_ok s" and "todo_bits s = b # bs"
  shows "\<exists>s'. getbit s = (b, s') \<and> get_ok s' \<and> todo_bits s' = bs \<and> eof s' = eof s \<and> u_view s' = u_view s"
proof -
  obtain n where n: "gnum s = Suc n" using assms(1) by (cases "gnum s") auto
  have up: "map (bit (gc s)) [0..<Suc n] = odd (gc s) # map (bit (gc s div 2)) [0..<n]"
    by (simp add: upt_conv_Cons map_Suc_upt [symmetric] bit_div_2_u8 bit_0 comp_def del: upt_Suc)
  let ?s = "s\<lparr>gnum := n, gc := gc s div 2\<rparr>"
  have "getbit s = (odd (gc s), ?s)" using n by (simp add: getbit_def)
  moreover have "pending ?s = pending s" "in_ok ?s = in_ok s" by (simp_all add: pending_def in_ok_def)
  moreover have "todo_bits s = odd (gc s) # map (bit (gc s div 2)) [0..<n] @ bits_of (pending s)"
    by (simp only: todo_bits_def n up append_Cons)
  ultimately show ?thesis
    using assms(2,3) n by (auto simp: todo_bits_def get_ok_def u_view_def)
qed

lemma getbit_Cons:
  assumes "get_ok s" and "todo_bits s = b # bs"
  shows "\<exists>s'. getbit s = (b, s') \<and> get_ok s' \<and> todo_bits s' = bs \<and> eof s' = eof s \<and> u_view s' = u_view s"
proof (cases "gnum s = 0")
  case False
  with assms show ?thesis by (intro getbit_take) auto
next
  case True
  with assms obtain c cs where p: "pending s = c # cs" by (cases "pending s") (auto simp: todo_bits_def)
  from assms(1) have i: "in_ok s" by (simp add: get_ok_def)
  from bio_source.get_Cons [OF i p] obtain t where t: "inbyte s = (uint c, t)" "in_ok t"
    "pending t = cs" "out_view t = out_view s" by blast
  let ?t = "t\<lparr>gc := c, gnum := 8\<rparr>"
  have e: "getbit s = getbit ?t"
    using True t(1) uint_u8_bound [of c] by (simp add: getbit_def Let_def)
  have v: "pending ?t = cs" "in_ok ?t" "u_view ?t = u_view s" "eof ?t = eof s"
    using t out_view_u [OF t(4)] by (simp_all add: pending_def in_ok_def u_view_def)
  then have "get_ok ?t" "todo_bits ?t = b # bs"
    using assms(2) p True by (simp_all add: get_ok_def todo_bits_def byte_bits_def)
  from getbit_take [OF _ this] v show ?thesis unfolding e by simp
qed

lemma getbit_Nil:
  assumes "get_ok s" and "todo_bits s = []"
  shows "\<exists>s'. getbit s = (False, s') \<and> get_ok s' \<and> todo_bits s' = [] \<and> eof s' \<and> u_view s' = u_view s"
proof -
  from assms have n: "gnum s = 0" and p: "pending s = []" and i: "in_ok s"
    by (auto simp: todo_bits_def get_ok_def)
  from bio_source.get_Nil [OF i p] obtain t where t: "inbyte s = (-1, t)" "in_ok t"
    "pending t = []" "out_view t = out_view s" by blast
  let ?t = "t\<lparr>gc := word_of_int (-1), eof := True\<rparr>"
  have "getbit s = (False, ?t)"
    using n t(1) out_view_u [OF t(4)] by (simp add: getbit_def Let_def)
  moreover have "u_view ?t = u_view s" "todo_bits ?t = []" "get_ok ?t"
    using t n out_view_u [OF t(4)]
    by (simp_all add: u_view_def todo_bits_def get_ok_def pending_def in_ok_def)
  ultimately show ?thesis by simp
qed

interpretation in_bits: bit_source getbit todo_bits eof get_ok u_view
  by unfold_locales (erule getbit_Nil getbit_Cons, assumption)+

lemma getsym_loop_eq: "getsym_loop n x acc s = in_bits.get_bits n x acc s"
  by (induction n arbitrary: x acc s) (simp_all split: prod.splits)

text \<open>Reading one 9-bit symbol, or meeting the end of the input.\<close>

lemma getsym_ok:
  assumes "get_ok s" and "todo_bits s = nat_bits 9 v @ ys" and "bits s = 9" and "v < 512"
  shows "\<exists>s'. getsym s = (v, s') \<and> get_ok s' \<and> todo_bits s' = ys \<and> eof s' = eof s \<and> u_view s' = u_view s"
  using in_bits.get_bits_enough [OF assms(1,2), of 9 0 0] assms(3,4)
  by (simp add: getsym_def getsym_loop_eq bval_nat_bits)

lemma getsym_eof:
  assumes "get_ok s" and "length (todo_bits s) < bits s"
  shows "\<exists>s' v. getsym s = (v, s') \<and> eof s' \<and> u_view s' = u_view s"
  using in_bits.get_bits_short [OF assms, of 0 0] by (auto simp: getsym_def getsym_loop_eq)

section \<open>Printing symbols\<close>

definition out_frame ::
  "ust \<Rightarrow> bytes list \<times> bytes \<times> nat \<times> nat \<times> nat \<times> u8 \<times> bool \<times> (nat \<Rightarrow> u8) \<times> (nat \<Rightarrow> nat)
     \<times> nat \<times> nat \<times> nat \<times> nat" where
  "out_frame s = (reads s, ibuf s, ipos s, isize s, gnum s, gc s, eof s, app s, ref s, nexti s, bits s,
     maxbits s, mymaxbits s)"

lemma in_view_u: "in_view s' = in_view s \<Longrightarrow> out_frame s' = out_frame s"
  by (cases s; cases s'; simp add: in_view_def out_frame_def)

lemma out_frameD:
  assumes "out_frame s' = out_frame s"
  shows "get_ok s' = get_ok s" and "todo_bits s' = todo_bits s" and "eof s' = eof s"
    and "app s' = app s" and "ref s' = ref s" and "nexti s' = nexti s" and "bits s' = bits s"
    and "mymaxbits s' = mymaxbits s" and "maxbits s' = maxbits s"
  using assms by (simp_all add: out_frame_def get_ok_def in_ok_def todo_bits_def pending_def)

lemma u_viewD:
  assumes "u_view s' = u_view s"
  shows "out_ok s' = out_ok s" and "out_bytes s' = out_bytes s" and "space s' = space s"
    and "app s' = app s" and "ref s' = ref s" and "nexti s' = nexti s" and "bits s' = bits s"
    and "mymaxbits s' = mymaxbits s" and "maxbits s' = maxbits s"
  using assms by (simp_all add: u_view_def out_ok_def out_bytes_def space_def)

lemma outbyte_u:
  assumes "out_ok s" and "0 < space s"
  shows "\<exists>s'. outbyte c s = Some s' \<and> out_ok s' \<and> out_bytes s' = out_bytes s @ [c]
    \<and> Suc (space s') = space s \<and> out_frame s' = out_frame s"
  using bio_sink.put_ok [OF assms, of c] in_view_u by blast

lemma printsym_ok:
  assumes "dict_ok (ref s) n" and "code_ok e n" and "out_ok s"
    and "length (estr (app s) (ref s) e) \<le> space s"
  shows "\<exists>s'. printsym e s = Some s' \<and> out_ok s' \<and> out_bytes s' = out_bytes s @ estr (app s) (ref s) e
    \<and> space s' + length (estr (app s) (ref s) e) = space s \<and> out_frame s' = out_frame s"
  using assms
proof (induction rule: code_induct)
  case (byte e)
  then show ?case using outbyte_u [of s "of_nat e"] by (subst printsym.simps) auto
next
  case (entry e)
  note e = str_entry [OF assms(1) entry.hyps(1,2), of "app s"]
  with entry.prems obtain s1 where s1: "printsym (ref s e) s = Some s1" "out_ok s1"
    "out_bytes s1 = out_bytes s @ estr (app s) (ref s) (ref s e)"
    "space s1 + length (estr (app s) (ref s) (ref s e)) = space s" "out_frame s1 = out_frame s"
    using entry.IH by auto
  with e entry.prems have "0 < space s1" by simp
  from outbyte_u [OF s1(2) this, of "app s e"] s1 entry.hyps out_frameD(4) [OF s1(5)] e
  show ?case by (subst printsym.simps) auto
qed

lemma first_ok:
  assumes "dict_ok (ref s) n" and "code_ok e n"
  shows "first e s = Some (hd (estr (app s) (ref s) e))"
  using assms
proof (induction rule: code_induct)
  case (byte e)
  then show ?case by (subst first.simps) simp
next
  case (entry e)
  have "hd (estr (app s) (ref s) e) = hd (estr (app s) (ref s) (ref s e))"
    using str_entry [OF assms(1) entry.hyps(1,2), of "app s"]
      str_nonempty [OF assms(1) entry.hyps(3), of "app s"] by simp
  with entry show ?case by (subst first.simps) simp
qed

section \<open>The loop decodes the abstract codes\<close>

lemma decomp_loop_ok:
  assumes "get_ok s" and "out_ok s" and "\<not> eof s" and "bits s = 9"
    and "dict_ok (ref s) (nexti s)" and "code_ok prev (nexti s)"
    and "todo_bits s = concat (map (nat_bits 9) es) @ pad" and "length pad < 9"
    and "\<forall>e \<in> set es. e \<noteq> 256"
    and "nexti s + length es \<le> 512"
    and "dec (app s) (ref s) (nexti s) prev es = Some bs" and "length bs \<le> space s"
  shows "\<exists>s'. decomp_loop prev s = Some (Inr s') \<and> out_ok s' \<and> out_bytes s' = out_bytes s @ bs"
  using assms
proof (induction es arbitrary: s prev bs)
  case Nil
  from getsym_eof [OF Nil.prems(1)] Nil.prems(4,7,8) obtain s1 v where
    s1: "getsym s = (v, s1)" "eof s1" "u_view s1 = u_view s" by auto
  then have "decomp_loop prev s = Some (Inr s1)"
    using Nil.prems(3) by (subst decomp_loop.simps) simp
  with u_viewD [OF s1(3)] Nil.prems show ?case by simp
next
  case (Cons e es)
  let ?a = "app s" and ?r = "ref s" and ?n = "nexti s"
  from Cons.prems(11) have en: "\<not> ?n < e" by (auto split: if_splits)
  with Cons.prems(10) have "e < 512" by simp
  with getsym_ok [OF Cons.prems(1) _ Cons.prems(4), of e] Cons.prems(7) obtain s1 where
    s1: "getsym s = (e, s1)" "get_ok s1" "todo_bits s1 = concat (map (nat_bits 9) es) @ pad"
      "eof s1 = eof s" "u_view s1 = u_view s" by auto
  note v1 = u_viewD [OF s1(5)]
  define g where "g = (if e = ?n then prev else e)"
  have g: "code_ok g ?n" using en Cons.prems(6,9) by (auto simp: g_def code_ok_def)
  define f where "f = hd (estr ?a ?r g)"
  have first: "(if e = nexti s1 then first prev s1 else first e s1) = Some f"
    using first_ok [of s1 ?n g] Cons.prems(5) g v1 by (auto simp: f_def g_def)
  define s2 where "s2 = s1\<lparr>ref := ?r(?n := prev), app := ?a(?n := f), nexti := ?n + 1\<rparr>"
  have b: "nexti s2 + length es \<le> 512" using Cons.prems(10) by (simp add: s2_def)
  define s2' where "s2' = adddict prev f s1"
  have ad: "ref s2' = ?r(?n := prev) \<and> app s2' = ?a(?n := f) \<and> nexti s2' = ?n + 1
     \<and> (es \<noteq> [] \<longrightarrow> bits s2' = 9) \<and> bits s2' \<le> 10 \<and> 9 \<le> bits s2' \<and> out_ok s2' = out_ok s \<and> out_bytes s2' = out_bytes s
     \<and> space s2' = space s \<and> get_ok s2' = get_ok s1 \<and> todo_bits s2' = todo_bits s1 \<and> eof s2' = eof s"
    using v1 s1(4) Cons.prems(4,10)
    by (cases es) (auto simp: s2'_def adddict_def Let_def out_ok_def out_bytes_def space_def get_ok_def
        in_ok_def todo_bits_def pending_def)
  have ok2: "dict_ok (ref s2') (nexti s2')" and e2: "code_ok e (nexti s2')"
    using ad dict_ok_add [OF Cons.prems(5,6)] en Cons.prems(9) by (auto simp: code_ok_def)
  from Cons.prems(11) en obtain bs' where
    d: "dec (app s2') (ref s2') (nexti s2') e es = Some bs'" and
    bs: "bs = estr (app s2') (ref s2') e @ bs'"
    using ad by (auto simp: Let_def f_def g_def)
  from printsym_ok [OF ok2 e2] ad Cons.prems(2,12) bs obtain s3 where
    s3: "printsym e s2' = Some s3" "out_ok s3" "out_bytes s3 = out_bytes s @ estr (app s2') (ref s2') e"
      "space s3 + length (estr (app s2') (ref s2') e) = space s" "out_frame s3 = out_frame s2'"
    by auto
  note v3 = out_frameD [OF s3(5)]
  have step: "decomp_loop prev s = decomp_loop e s3"
    using Cons.prems(3,9) s1(1,4) en v1 first s3(1)
    by (subst decomp_loop.simps) (auto simp: s2'_def)
  show ?case
  proof (cases "es = []")
    case True
    have short: "length (todo_bits s3) < bits s3"
      using True v3 ad s1(3) Cons.prems(8) by simp
    have "get_ok s3" using v3 ad s1(2) by simp
    from getsym_eof [OF this short] obtain s4 v where
      s4: "getsym s3 = (v, s4)" "eof s4" "u_view s4 = u_view s3" by blast
    then have "decomp_loop e s3 = Some (Inr s4)"
      using v3 ad Cons.prems(3) by (subst decomp_loop.simps) simp
    moreover have "bs' = []" using d True by simp
    ultimately show ?thesis using step s3 u_viewD [OF s4(3)] bs by simp
  next
    case False
    have i3: "get_ok s3" "\<not> eof s3" "bits s3 = 9" "nexti s3 + length es \<le> 512"
      "todo_bits s3 = concat (map (nat_bits 9) es) @ pad" "length bs' \<le> space s3"
      using False v3 ad s1(2,3) Cons.prems(3,10,12) s3(4) bs by simp_all
    have i4: "dict_ok (ref s3) (nexti s3)" "code_ok e (nexti s3)" "\<forall>e \<in> set es. e \<noteq> 256"
      "dec (app s3) (ref s3) (nexti s3) e es = Some bs'"
      using ok2 e2 d v3 Cons.prems(9) by simp_all
    from Cons.IH [OF i3(1) s3(2) i3(2,3) i4(1,2) i3(5) Cons.prems(8) i4(3) i3(4) i4(4) i3(6)]
    have "\<exists>s'. decomp_loop e s3 = Some (Inr s') \<and> out_ok s' \<and> out_bytes s' = out_bytes s3 @ bs'" .
    with step s3(3) bs show ?thesis by auto
  qed
qed

end
