(* ===== verification/Lzw.thy ===== *)
theory Lzw
  imports Compress Uncompress
begin

text \<open>
  The two LZW programs together: what \<open>compress\<close> writes, \<open>uncompress\<close> turns back into the
  input as long as the 9-bit dictionary does not fill; and what goes wrong when it does.
\<close>

section \<open>Round trip\<close>

lemma read3_ok:
  assumes "\<forall>r \<in> set (reads u). r \<noteq> [] \<and> length r \<le> BUFZ" and "reads u \<noteq> []" and "3 \<le> length (hd (reads u))"
    and "concat (reads u) = [h0, h1, h2] @ p"
  shows "\<exists>rs. read3 u = ([h0, h1, h2], u\<lparr>reads := rs\<rparr>) \<and> concat rs = p
    \<and> (\<forall>r \<in> set rs. r \<noteq> [] \<and> length r \<le> BUFZ)"
proof -
  obtain r rs where r: "reads u = r # rs" using assms(2) by (cases "reads u") auto
  with assms(3) have l: "3 \<le> length r" by simp
  have c: "take 3 r @ drop 3 r @ concat rs = [h0, h1, h2] @ p"
    using assms(4) r by (metis append.assoc append_take_drop_id concat.simps(2))
  moreover have "length (take 3 r) = length [h0, h1, h2]" using l by simp
  ultimately have "take 3 r = [h0, h1, h2]" "drop 3 r @ concat rs = p"
    by (metis append_eq_append_conv)+
  moreover have "read3 u = (take 3 r, u\<lparr>reads := (if length r \<le> 3 then rs else drop 3 r # rs)\<rparr>)"
    by (simp add: read3_def r)
  moreover have "concat (if length r \<le> 3 then rs else drop 3 r # rs) = drop 3 r @ concat rs" by simp
  moreover have "\<forall>x \<in> set (if length r \<le> 3 then rs else drop 3 r # rs). x \<noteq> [] \<and> length x \<le> BUFZ"
    using r assms(1) by auto
  ultimately show ?thesis by metis
qed

definition lzw_input_ok :: "nat \<Rightarrow> cst \<Rightarrow> bytes \<Rightarrow> bool" where
  "lzw_input_ok avail s xs \<longleftrightarrow> fresh s \<and> num s = 0 \<and> bbuf s = 0 \<and> concat (reads s) = xs \<and> xs \<noteq> []
     \<and> alloc_bits avail 14 \<noteq> None \<and> 5 + 2 * length xs \<le> room s
     \<and> length (codes (Compress.cleardict s) (unat (hd xs)) (tl xs)) \<le> 256"

definition unlzw_input_ok :: "ust \<Rightarrow> bytes \<Rightarrow> nat \<Rightarrow> bool" where
  "unlzw_input_ok u zs n \<longleftrightarrow> fresh u \<and> gnum u = 0 \<and> concat (reads u) = zs \<and> reads u \<noteq> []
     \<and> 3 \<le> length (hd (reads u)) \<and> 9 \<le> ust.mymaxbits u \<and> n \<le> room u"

lemma decompress_codes:
  assumes "unlzw_input_ok u ([0x1f, 0x9d, 0x89] @ p) (length bs)"
    and bits: "bits_of p = concat (map (nat_bits 9) (unat b # es)) @ pad" and "length pad < 9"
    and "\<forall>e \<in> set es. e \<noteq> 256" and "length es \<le> 255"
    and dec: "map_option (\<lambda>bs. b # bs) (dec (ust.app u) (ust.ref u) 257 (unat b) es) = Some bs"
  shows "\<exists>u'. decompress u = Some (Inr u') \<and> written u' = bs"
proof -
  from dec obtain bs' where d: "dec (ust.app u) (ust.ref u) 257 (unat b) es = Some bs'" "bs = b # bs'"
    by auto
  let ?u = "u\<lparr>ipos := 0, isize := 0, opos := 0, eof := False\<rparr>"
  from read3_ok [of ?u "0x1f" "0x9d" "0x89" p] assms(1) obtain rs where
    rs: "read3 ?u = ([0x1f, 0x9d, 0x89], ?u\<lparr>reads := rs\<rparr>)" "concat rs = p"
      "\<forall>r \<in> set rs. r \<noteq> [] \<and> length r \<le> BUFZ"
    by (auto simp: unlzw_input_ok_def fresh_def)
  let ?v = "Uncompress.cleardict (?u\<lparr>reads := rs, maxbits := 9\<rparr>)"
  have v: "get_ok ?v" "out_ok ?v" "ust.bits ?v = 9" "ust.nexti ?v = 257" "\<not> eof ?v"
    "todo_bits ?v = nat_bits 9 (unat b) @ concat (map (nat_bits 9) es) @ pad"
    "space ?v = room u" "out_bytes ?v = []" "ust.app ?v = ust.app u" "ust.ref ?v = ust.ref u"
    using assms(1) rs bits
    by (auto simp: unlzw_input_ok_def fresh_def Uncompress.cleardict_def get_ok_def in_ok_def out_ok_def
        todo_bits_def pending_def space_def out_bytes_def BUFZ_def)
  have b: "unat b < 512" using unat_u8 [of b] by linarith
  from getsym_ok [OF v(1) v(6) v(3) b] obtain s3 where s3: "getsym ?v = (unat b, s3)" "get_ok s3"
    "todo_bits s3 = concat (map (nat_bits 9) es) @ pad" "eof s3 = eof ?v" "u_view s3 = u_view ?v" by blast
  note w = u_viewD [OF s3(5)]
  have room: "length bs \<le> room u" using assms(1) by (simp add: unlzw_input_ok_def)
  have dict: "dict_ok (ust.ref s3) 257" "code_ok (unat b) 257"
    using ex_search.dict_ok_start code_ok_byte [OF ex_search.dict_ok_start] by blast+
  have "length (estr (ust.app s3) (ust.ref s3) (unat b)) \<le> space s3"
    using room d(2) w v by simp
  from printsym_ok [OF dict _ this] w v obtain s4 where s4: "printsym (unat b) s3 = Some s4"
    "out_ok s4" "out_bytes s4 = [b]" "Suc (space s4) = room u" "out_frame s4 = out_frame s3" by auto
  note x = out_frameD [OF s4(5)]
  have loop: "get_ok s4" "\<not> eof s4" "ust.bits s4 = 9" "ust.nexti s4 + length es \<le> 512"
    "dict_ok (ust.ref s4) (ust.nexti s4)" "code_ok (unat b) (ust.nexti s4)"
    "todo_bits s4 = concat (map (nat_bits 9) es) @ pad"
    "dec (ust.app s4) (ust.ref s4) (ust.nexti s4) (unat b) es = Some bs'" "length bs' \<le> space s4"
    using x w v s3 s4(4) dict assms(5) d room by simp_all
  from decomp_loop_ok [OF loop(1) s4(2) loop(2,3,5,6,7) assms(3,4) loop(4,8,9)] obtain s5 where
    s5: "decomp_loop (unat b) s4 = Some (Inr s5)" "out_ok s5" "out_bytes s5 = bs"
    using s4(3) d(2) by auto
  from s5(2) have fl: "outflush s5 = Some (s5\<lparr>written := out_bytes s5, room := room s5 - opos s5, opos := 0\<rparr>)"
    by (subst outflush_ok) (auto simp: out_ok_def out_bytes_def)
  have hdr: "unat ((0x89 :: u8) AND 0x1f) = 9" by simp
  have mx: "\<not> ust.mymaxbits u < 9" using assms(1) by (simp add: unlzw_input_ok_def)
  have "decompress u = Some (Inr (s5\<lparr>written := out_bytes s5, room := room s5 - opos s5, opos := 0\<rparr>))"
    unfolding decompress_def Let_def rs(1) prod.case
    using hdr mx by (simp add: s3(1) s4(1) s5(1) fl)
  with s5(3) show ?thesis by simp
qed

text \<open>What the compressor writes, as codes that the decoder of any old dictionary turns back.\<close>

lemma lzw_compressed:
  assumes "lzw_input_ok avail s (b # cs)"
  shows "\<exists>s' p k es. compress_main avail s = Some (Inr s') \<and> written s' = [0x1f, 0x9d, 0x89] @ p \<and> k < 8 \<and>
    bits_of p = concat (map (nat_bits 9) (unat b # es)) @ replicate k False \<and> length es \<le> 255 \<and>
    length es \<le> length cs \<and> (\<forall>e \<in> set es. e \<noteq> 256) \<and>
    (\<forall>a r. map_option (\<lambda>bs. b # bs) (dec a r 257 (unat b) es) = Some (b # cs))"
proof -
  define es where "es = codes (Compress.cleardict s) (unat b) cs"
  have len: "length es \<le> Suc (length cs)" "length es \<le> 256"
    using assms length_codes by (auto simp: es_def lzw_input_ok_def)
  have e_def: "es = enc ex_search (cst.app s) (cst.ref s) 257 (unat b) cs"
    by (simp add: es_def codes_def Compress.cleardict_def)
  from compress_main_ok [OF _ _ _ _ _ es_def len(2)] assms len(1) obtain s' p k where
    c: "compress_main avail s = Some (Inr s')" "written s' = [0x1f, 0x9d, 0x89] @ p" "k < 8"
      "bits_of p = concat (map (nat_bits 9) es) @ replicate k False"
    by (fastforce simp: lzw_input_ok_def)
  obtain e0 es' where es: "es = e0 # es'"
    using codes_nonempty unfolding es_def by (meson neq_Nil_conv)
  have e0: "e0 = unat b"
  proof (cases cs)
    case Nil
    with e_def es show ?thesis by simp
  next
    case (Cons c cs')
    have "es = unat b # enc ex_search ((cst.app s)(257 := c)) ((cst.ref s)(257 := unat b)) 258 (unat c) cs'"
      unfolding e_def Cons by (rule ex_search.enc_start)
    with es show ?thesis by simp
  qed
  have "e \<noteq> 256" if "e \<in> set es" for e
    using ex_search.enc_codes [OF ex_search.dict_ok_start code_ok_byte [OF ex_search.dict_ok_start], of e]
      that e_def by blast
  moreover have "ex_search.dec_all a r es = Some (b # cs)" for a r
    unfolding e_def by (rule ex_search.dec_all_enc)
  then have "map_option (\<lambda>bs. b # bs) (dec a r 257 (unat b) es') = Some (b # cs)" for a r
    using es e0 unat_u8 [of b] by (simp add: ex_search.dec_all_def)
  ultimately show ?thesis using c len es e0
    by (intro exI [of _ s'] exI [of _ p] exI [of _ k] exI [of _ es']) simp
qed

lemma lzw_restores:
  assumes "lzw_input_ok avail s xs"
  shows "\<exists>s'. compress_main avail s = Some (Inr s')
    \<and> 3 \<le> length (written s') \<and> length (written s') \<le> 5 + 2 * length xs
    \<and> (\<forall>u. unlzw_input_ok u (written s') (length xs) \<longrightarrow>
         (\<exists>u'. decompress u = Some (Inr u') \<and> written u' = xs))"
proof -
  from assms obtain b cs where xs: "xs = b # cs" by (cases xs) (auto simp: lzw_input_ok_def)
  from lzw_compressed [of avail s b cs] assms xs obtain s' p k es where
    c: "compress_main avail s = Some (Inr s')" "written s' = [0x1f, 0x9d, 0x89] @ p" "k < 8"
      "bits_of p = concat (map (nat_bits 9) (unat b # es)) @ replicate k False" "length es \<le> 255"
      "length es \<le> length cs" "\<forall>e \<in> set es. e \<noteq> 256"
      "\<And>a r. map_option (\<lambda>bs. b # bs) (dec a r 257 (unat b) es) = Some xs" by blast
  have "\<exists>u'. decompress u = Some (Inr u') \<and> written u' = xs"
    if u: "unlzw_input_ok u (written s') (length xs)" for u
    by (rule decompress_codes [OF _ c(4) _ c(7,5,8)]) (use u c(2,3) in simp_all)
  moreover have "8 * length p = 9 * Suc (length es) + k"
  proof -
    have "length (concat (map (nat_bits 9) es)) = 9 * length es" for es by (induction es) auto
    with arg_cong [OF c(4), where f = length] show ?thesis by simp
  qed
  then have "length p \<le> 2 + 2 * length xs" using c(3,6) xs by simp
  ultimately show ?thesis using c(1,2) by (intro exI [of _ s']) simp
qed

text \<open>C1:
  Compressing any non-empty input that needs at most 256 codes (every input of up to 256
  bytes, and longer ones with repetitions) and decompressing the result, read back in any
  pieces, gives the input again; both programs return, and the compressed file has at most
  5 + 2 n bytes.
\<close>

theorem lzw_roundtrip:
  assumes "lzw_input_ok avail s xs"
  shows "\<exists>s'. compress_main avail s = Some (Inr s')
    \<and> 3 \<le> length (written s') \<and> length (written s') \<le> 5 + 2 * length xs
    \<and> (\<forall>u. unlzw_input_ok u (written s') (length xs) \<longrightarrow>
         (\<exists>u'. decompress u = Some (Inr u') \<and> written u' = xs))"
  using assms by (rule lzw_restores)

definition lzw_demo :: cst where
  "lzw_demo = \<lparr>reads = [[7, 7, 7], [7, 9]], written = [], room = 100,
     ibuf = replicate 512 0, ipos = 0, isize = 0, obuf = replicate 512 0, opos = 0,
     num = 0, bbuf = 0, app = (\<lambda>_. 0), ref = (\<lambda>_. 0), nexti = 0, bits = 0, mymaxbits = 0\<rparr>"

definition unlzw_demo :: "bytes \<Rightarrow> ust" where
  "unlzw_demo zs = \<lparr>reads = [zs], written = [], room = 100,
     ibuf = replicate 512 0, ipos = 0, isize = 0, obuf = replicate 512 0, opos = 0,
     gnum = 0, gc = 0, eof = False, app = (\<lambda>_. 3), ref = (\<lambda>_. 300), nexti = 0, bits = 0,
     maxbits = 0, mymaxbits = 14\<rparr>"

lemma lzw_roundtrip_witness:
  "\<exists>s' u'. lzw_input_ok 2000 lzw_demo [7, 7, 7, 7, 9] \<and> compress_main 2000 lzw_demo = Some (Inr s')
     \<and> unlzw_input_ok (unlzw_demo (written s')) (written s') 5
     \<and> decompress (unlzw_demo (written s')) = Some (Inr u') \<and> written u' = [7, 7, 7, 7, 9]"
proof -
  have al: "alloc_bits 2000 14 = Some 9" by (simp add: alloc_bits_numeral)
  have "length (codes (Compress.cleardict lzw_demo) (unat (hd [7, 7, 7, 7, 9 :: u8])) (tl [7, 7, 7, 7, 9])) \<le> 256"
    by (rule order_trans [OF length_codes]) simp
  then have i: "lzw_input_ok 2000 lzw_demo [7, 7, 7, 7, 9]"
    by (auto simp: lzw_input_ok_def fresh_def lzw_demo_def BUFZ_def al)
  from lzw_roundtrip [OF i] obtain s' where s': "compress_main 2000 lzw_demo = Some (Inr s')"
    "3 \<le> length (written s')" "length (written s') \<le> 15"
    and dec: "\<And>u. unlzw_input_ok u (written s') 5 \<Longrightarrow>
      \<exists>u'. decompress u = Some (Inr u') \<and> written u' = [7, 7, 7, 7, 9]"
    by (auto simp: eval_nat_numeral)
  have u: "unlzw_input_ok (unlzw_demo (written s')) (written s') 5"
    using s'(2,3) by (auto simp: unlzw_input_ok_def fresh_def unlzw_demo_def BUFZ_def)
  with dec [OF u] i s'(1) show ?thesis by blast
qed

section \<open>A full dictionary\<close>

text \<open>
  When the dictionary is full the compressor emits the clear code, but it neither emits the
  code of the string it had matched nor keeps the byte it had just read.
\<close>

text \<open>
  With a full dictionary, a byte that does not extend the current string is lost: the
  compressor emits the clear code alone, for whatever byte it was, and goes on with the
  same current code and the rest of the input.
\<close>

theorem compress_full_loses_byte:
  assumes "in_ok s" and "bits_ok s" and "pending s = c # cs" and "cst.nexti s = 512"
    and "cst.bits s = 9" and "cst.mymaxbits s = 9" and "9 \<le> bit_room s"
    and "dict_ok (cst.ref s) 512" and "code_ok w 512"
    and "ex_search (cst.app s) (cst.ref s) 512 w c = None"
  shows "\<exists>t. compress_loop w s = compress_loop w t \<and> pending t = cs
    \<and> sent_bits t = sent_bits s @ nat_bits 9 CLEAR
    \<and> cst.nexti t = 257 \<and> cst.ref t = cst.ref s \<and> cst.app t = cst.app s"
proof -
  from bio_source.get_Cons [OF assms(1,3)] obtain s1 where
    s1: "inbyte s = (uint c, s1)" "in_ok s1" "pending s1 = cs" "out_view s1 = out_view s" by blast
  note v = out_view_c [OF s1(4)]
  have "bits_ok s1" "cst.bits s1 \<le> bit_room s1" using assms v by simp_all
  from outsym_ok [OF this, of CLEAR] obtain s2 where s2: "outsym CLEAR s1 = Some s2"
    "sent_bits s2 = sent_bits s @ nat_bits 9 CLEAR" "c_view s2 = c_view s1"
    using v assms by auto
  note v2 = c_viewD [OF s2(3)]
  have "exist w c s1 = Some (-1)"
    using assms v by (simp add: exist_ok)
  moreover have "Compress.adddict w c s1 = (True, s1)"
    using assms v by (simp add: Compress.adddict_def)
  ultimately have "compress_loop w s = compress_loop w (Compress.cleardict s2)"
    using s1(1) s2(1) by (subst compress_loop.simps) simp
  moreover have "pending (Compress.cleardict s2) = cs" "sent_bits (Compress.cleardict s2) = sent_bits s2"
    using v2 s1 by (simp_all add: Compress.cleardict_def pending_def sent_bits_def out_bytes_def)
  ultimately show ?thesis
    using s2 v v2 by (intro exI [of _ "Compress.cleardict s2"]) (simp add: Compress.cleardict_def)
qed

definition full_demo :: cst where
  "full_demo = lzw_demo\<lparr>cst.ref := (\<lambda>_. 1), cst.nexti := 512, cst.bits := 9, cst.mymaxbits := 9\<rparr>"

lemma estr_full_demo: "257 \<le> h \<Longrightarrow> estr (cst.app full_demo) (cst.ref full_demo) h = [1, 0]"
  by (subst estr.simps) (simp add: full_demo_def lzw_demo_def)

lemma compress_full_loses_byte_witness:
  "\<exists>t. compress_loop 5 full_demo = compress_loop 5 t \<and> pending t = [7, 7, 7, 9]
    \<and> sent_bits t = sent_bits full_demo @ nat_bits 9 CLEAR
    \<and> cst.nexti t = 257 \<and> cst.ref t = cst.ref full_demo \<and> cst.app t = cst.app full_demo"
proof (rule compress_full_loses_byte)
  show "pending full_demo = 7 # [7, 7, 7, 9]"
    by (simp add: full_demo_def lzw_demo_def pending_def)
  show "ex_search (cst.app full_demo) (cst.ref full_demo) 512 5 7 = None"
    by (auto simp: ex_search_def find_None_iff estr_full_demo)
qed (auto simp: full_demo_def lzw_demo_def in_ok_def bits_ok_def out_ok_def bit_room_def
    space_def BUFZ_def dict_ok_def code_ok_def)

text \<open>
  After the clear the compressor keeps its current string's code, which no longer means
  anything; if that code is 257 the next entry made is its own prefix, and the dictionary
  search runs off the buffer of \<open>buildstr\<close> when it reaches that entry.
\<close>

lemma buildstr_self: "257 \<le> e \<Longrightarrow> cst.ref s e = e \<Longrightarrow> buildstr p s e acc = None"
  by (induction p arbitrary: acc) auto

lemma buildstr_byte: "0 < p \<Longrightarrow> e < 256 \<Longrightarrow> buildstr p s e acc = Some (of_nat e # acc)"
  by (cases p) auto

lemma exist_no_entries: "cst.nexti s = 257 \<Longrightarrow> exist_loop 257 t s = Some (-1)"
  by (subst exist_loop.simps) simp

lemma exist_self:
  assumes "w < 256" and "cst.nexti s = 258" and "cst.ref s 257 = 257"
  shows "exist w c s = None"
  using assms by (simp add: exist_def buildstr_byte)
    (subst exist_loop.simps, simp add: buildstr_self)

text \<open>
  The compressor, left by a clear in the middle of the string 257 with two more bytes to
  come, writes outside its buffer: whatever the dictionary's memory holds, it does not
  return, provided the output device has room.
\<close>

theorem compress_crash_after_clear:
  assumes "in_ok s" and "bits_ok s" and "pending s = c # d # cs" and "cst.nexti s = 257"
    and "cst.bits s = 9" and "9 \<le> bit_room s"
  shows "compress_loop 257 s = None"
proof -
  from bio_source.get_Cons [OF assms(1,3)] obtain s1 where
    s1: "inbyte s = (uint c, s1)" "in_ok s1" "pending s1 = d # cs" "out_view s1 = out_view s" by blast
  note v = out_view_c [OF s1(4)]
  let ?s2 = "s1\<lparr>cst.ref := (cst.ref s1)(257 := 257), cst.app := (cst.app s1)(257 := c), cst.nexti := 258\<rparr>"
  have add: "Compress.adddict 257 c s1 = (False, ?s2)"
    using v assms(4,5) by (simp add: Compress.adddict_def)
  have s2: "bits_ok ?s2" "cst.bits ?s2 = 9" "9 \<le> bit_room ?s2" "in_ok ?s2" "pending ?s2 = d # cs"
    using assms v s1
    by (simp_all add: bits_ok_def out_ok_def bit_room_def space_def in_ok_def pending_def)
  with outsym_ok [of ?s2 257] obtain s3 where s3: "outsym 257 ?s2 = Some s3" "c_view s3 = c_view ?s2"
    by auto
  note v3 = c_viewD [OF s3(2)]
  have ex: "exist 257 c s1 = None \<or> exist 257 c s1 = Some (-1)"
    using v assms(4) by (cases "buildstr 256 s1 257 []") (simp_all add: exist_def exist_no_entries)
  have step: "compress_loop 257 s = None \<or> compress_loop 257 s = compress_loop (unat c) s3"
    using ex s1(1) add s3(1) by (subst (1 2) compress_loop.simps) auto
  have "in_ok s3" "pending s3 = d # cs" using v3 s2 by simp_all
  from bio_source.get_Cons [OF this] obtain s4 where
    s4: "inbyte s3 = (uint d, s4)" "out_view s4 = out_view s3" by blast
  note v4 = out_view_c [OF s4(2)]
  have "exist (unat c) d s4 = None"
    using unat_u8 [of c] v3 v4 by (intro exist_self) simp_all
  then have "compress_loop (unat c) s3 = None"
    using s4(1) by (subst compress_loop.simps) simp
  with step show ?thesis by auto
qed

lemma compress_crash_after_clear_witness:
  "compress_loop 257 (Compress.cleardict lzw_demo) = None"
proof (rule compress_crash_after_clear)
  show "pending (Compress.cleardict lzw_demo) = 7 # 7 # [7, 7, 9]"
    by (simp add: Compress.cleardict_def lzw_demo_def pending_def)
qed (auto simp: Compress.cleardict_def lzw_demo_def in_ok_def bits_ok_def out_ok_def bit_room_def
    space_def BUFZ_def)

text \<open>
  The decompressor accepts the code \<open>nexti\<close> after any code, also after a first code (of the
  file, or after a clear) that is itself \<open>nexti\<close>.
\<close>

lemma printsym_self:
  assumes "256 \<le> e" and "ust.ref s e = e"
  shows "printsym e s = None"
proof -
  have "\<not> (256 \<le> c \<and> ust.ref t c = c)" if "printsym c t = Some r" for c t r
    by (rule printsym.raw_induct [OF _ that, where P = "\<lambda>c t r. \<not> (256 \<le> c \<and> ust.ref t c = c)"])
      (auto split: if_splits simp: bind_eq_Some_conv)
  with assms show ?thesis by (cases "printsym e s") auto
qed

text \<open>
  A stream with the code 257 twice in a row at the start of a dictionary makes the
  decompressor store an entry that is its own prefix; printing it recurses for ever,
  whatever the memory of the dictionary held.
\<close>

theorem uncompress_hangs:
  assumes "getsym s = (257, t)" and "\<not> eof s" and "\<not> eof t" and "ust.nexti t = 257"
    and "ust.bits t = 9"
  shows "decomp_loop 257 s = None"
proof -
  have "printsym 257 (Uncompress.adddict 257 f t) = None" for f
    using assms(4,5) by (intro printsym_self) (simp_all add: Uncompress.adddict_def Let_def)
  then show ?thesis
    using assms by (subst decomp_loop.simps) simp
qed

definition hang_demo :: ust where
  "hang_demo = (unlzw_demo [0x01, 0x03, 0x02])\<lparr>ust.nexti := 257, ust.bits := 9\<rparr>"

lemma hang_demo_facts:
  "get_ok hang_demo" "\<not> eof hang_demo" "ust.nexti hang_demo = 257" "ust.bits hang_demo = 9"
  "todo_bits hang_demo = nat_bits 9 257 @ nat_bits 9 257 @ replicate 6 False"
proof -
  have "bits_of [0x01, 0x03, 0x02] = nat_bits 9 257 @ nat_bits 9 257 @ replicate 6 False"
    by code_simp
  then show "todo_bits hang_demo = nat_bits 9 257 @ nat_bits 9 257 @ replicate 6 False"
    by (simp add: hang_demo_def unlzw_demo_def todo_bits_def pending_def)
qed (simp_all add: hang_demo_def unlzw_demo_def get_ok_def in_ok_def BUFZ_def)

lemma uncompress_hangs_witness:
  "case getsym hang_demo of (v, s) \<Rightarrow> v = 257 \<and> decomp_loop v s = None"
proof -
  note h = hang_demo_facts
  from getsym_ok [OF h(1,5,4)] h(2) obtain s where s: "getsym hang_demo = (257, s)" "get_ok s"
    "todo_bits s = nat_bits 9 257 @ replicate 6 False" "\<not> eof s" "u_view s = u_view hang_demo" by auto
  note v = u_viewD [OF s(5)]
  from getsym_ok [OF s(2,3)] v h(4) s(4) obtain t where
    t: "getsym s = (257, t)" "\<not> eof t" "u_view t = u_view s" by auto
  have "decomp_loop 257 s = None"
    using u_viewD [OF t(3)] v h by (intro uncompress_hangs [OF t(1) s(4) t(2)]) simp_all
  with s show ?thesis by simp
qed

end
