(* ===== verification/Cstring.thy ===== *)
theory Cstring
  imports Prelude
begin

text \<open>
  C strings and the decimal and hexadecimal formats of \<open>printf\<close>, shared by the programs that
  work on text.  A C string is a byte list without a zero byte.
\<close>

section \<open>Strings\<close>

definition str :: "string \<Rightarrow> bytes" where
  "str s = map of_char s"

text \<open>The string that starts a memory area.\<close>

definition c_str :: "bytes \<Rightarrow> bytes" where
  "c_str b = takeWhile (\<lambda>c. c \<noteq> 0) b"

lemma c_str_no_0: "0 \<notin> set (c_str b)"
  by (auto simp: c_str_def dest: set_takeWhileD)

lemma c_str_same: "0 \<notin> set b \<Longrightarrow> c_str b = b"
  by (auto simp: c_str_def takeWhile_eq_all_conv)

lemma str_append [simp]: "str (a @ b) = str a @ str b"
  by (simp add: str_def)

text \<open>What \<open>snprintf(buf, n, ...)\<close> leaves in its buffer of a text.\<close>

definition snprintf :: "nat \<Rightarrow> bytes \<Rightarrow> bytes" where
  "snprintf n s = take (n - 1) s"

section \<open>Numbers\<close>

definition hex_digit :: "nat \<Rightarrow> u8" where
  "hex_digit d = (if d < 10 then word_of_nat (48 + d) else word_of_nat (87 + d))"

fun hex :: "nat \<Rightarrow> bytes" where
  "hex n = (if n < 16 then [hex_digit n] else hex (n div 16) @ [hex_digit (n mod 16)])"

declare hex.simps [simp del]

fun dec_nat :: "nat \<Rightarrow> bytes" where
  "dec_nat n = (if n < 10 then [hex_digit n] else dec_nat (n div 10) @ [hex_digit (n mod 10)])"

declare dec_nat.simps [simp del]

definition dec :: "int \<Rightarrow> bytes" where
  "dec i = (if i < 0 then str ''-'' @ dec_nat (nat (- i)) else dec_nat (nat i))"

text \<open>C's conversion of a mathematical value to a 32-bit \<open>long\<close>.\<close>

definition int32 :: "int \<Rightarrow> int" where
  "int32 i = sint (word_of_int i :: u32)"

text \<open>\<open>atol\<close>: blanks, a sign and the decimal digits that follow, with the value kept to 32 bits.\<close>

definition isspace :: "u8 \<Rightarrow> bool" where
  "isspace c \<longleftrightarrow> c = 32 \<or> 9 \<le> c \<and> c \<le> 13"

definition isdigit :: "u8 \<Rightarrow> bool" where
  "isdigit c \<longleftrightarrow> 48 \<le> c \<and> c \<le> 57"

definition digits_val :: "bytes \<Rightarrow> int" where
  "digits_val ds = foldl (\<lambda>a c. a * 10 + (uint c - 48)) 0 ds"

definition atol :: "bytes \<Rightarrow> int" where
  "atol s =
     (let r = dropWhile isspace s;
          neg = (r \<noteq> [] \<and> hd r = 0x2d);
          r' = (if r \<noteq> [] \<and> (hd r = 0x2d \<or> hd r = 0x2b) then tl r else r);
          v = digits_val (takeWhile isdigit r')
      in int32 (if neg then - v else v))"

lemma int32_id: "- 2147483648 \<le> i \<Longrightarrow> i < 2147483648 \<Longrightarrow> int32 i = i"
  unfolding int32_def by (subst int_word_sint) (simp add: mod_pos_pos_trivial)

lemma int32_range: "- 2147483648 \<le> int32 i \<and> int32 i < 2147483648"
  unfolding int32_def using sint_lt [of "word_of_int i :: u32"] sint_ge [of "word_of_int i :: u32"] by simp

lemma hex_digit_10: "d < 10 \<Longrightarrow> uint (hex_digit d) = 48 + int d"
proof -
  assume d: "d < 10"
  then have "unat (word_of_nat (48 + d) :: u8) = 48 + d"
    by (simp add: unat_of_nat take_bit_nat_eq_self del: of_nat_add)
  with d show ?thesis unfolding hex_digit_def by (simp add: uint_nat del: of_nat_add)
qed

lemma isdigit_iff: "isdigit c \<longleftrightarrow> 48 \<le> uint c \<and> uint c \<le> 57"
  by (simp add: isdigit_def word_le_def)

lemma isdigit_hex_digit: "d < 10 \<Longrightarrow> isdigit (hex_digit d)"
  by (simp add: isdigit_iff hex_digit_10)

lemma digits_val_snoc: "digits_val (ds @ [c]) = digits_val ds * 10 + (uint c - 48)"
  by (simp add: digits_val_def)

lemma dec_nat_digits: "\<forall>c \<in> set (dec_nat n). isdigit c"
proof (induction n rule: dec_nat.induct)
  case (1 n)
  then show ?case by (subst dec_nat.simps) (auto simp: isdigit_hex_digit)
qed

lemma dec_nat_ne: "dec_nat n \<noteq> []"
  by (subst dec_nat.simps) simp

lemma digits_val_dec_nat: "digits_val (dec_nat n) = int n"
proof (induction n rule: dec_nat.induct)
  case (1 n)
  show ?case
  proof (cases "n < 10")
    case True
    then show ?thesis by (subst dec_nat.simps) (simp add: digits_val_def hex_digit_10)
  next
    case False
    with 1 have "digits_val (dec_nat n) = int (n div 10) * 10 + int (n mod 10)"
      by (subst dec_nat.simps) (simp add: digits_val_snoc hex_digit_10)
    also have "\<dots> = int (n div 10 * 10 + n mod 10)" by (simp only: of_nat_add of_nat_mult of_nat_numeral)
    also have "\<dots> = int n" by (simp only: div_mult_mod_eq)
    finally show ?thesis .
  qed
qed

lemma isdigit_not: "isdigit c \<Longrightarrow> \<not> isspace c \<and> c \<noteq> 0x2d \<and> c \<noteq> 0x2b \<and> c \<noteq> 0"
proof -
  assume "isdigit c"
  then have u: "48 \<le> uint c" "uint c \<le> 57" by (simp_all add: isdigit_iff)
  then have "c \<noteq> 0x2d" "c \<noteq> 0x2b" "c \<noteq> 0" "c \<noteq> 32" by auto
  moreover from u have "\<not> c \<le> 13" by (simp add: word_le_def)
  ultimately show ?thesis by (simp add: isspace_def)
qed

text \<open>Reading back a printed number, and no printed number contains a zero byte.\<close>

lemma atol_dec: "- 2147483648 \<le> i \<Longrightarrow> i < 2147483648 \<Longrightarrow> atol (dec i) = i"
proof -
  assume i: "- 2147483648 \<le> i" "i < 2147483648"
  obtain c cs where d: "dec_nat (nat \<bar>i\<bar>) = c # cs" using dec_nat_ne by (cases "dec_nat (nat \<bar>i\<bar>)") auto
  have dig: "\<forall>x \<in> set (c # cs). isdigit x" using dec_nat_digits [of "nat \<bar>i\<bar>"] d by simp
  then have c: "isdigit c" by simp
  have tw: "takeWhile isdigit (c # cs) = c # cs" using dig by (simp add: takeWhile_eq_all_conv)
  have v: "digits_val (c # cs) = \<bar>i\<bar>" using digits_val_dec_nat [of "nat \<bar>i\<bar>"] d by simp
  show ?thesis
  proof (cases "i < 0")
    case True
    then have "dec i = 0x2d # c # cs" using d by (simp add: dec_def str_def)
    then have "atol (dec i) = int32 (- digits_val (takeWhile isdigit (c # cs)))"
      by (simp add: atol_def Let_def isspace_def)
    with tw v True i show ?thesis by (simp add: int32_id)
  next
    case False
    then have "dec i = c # cs" using d by (simp add: dec_def)
    then have "atol (dec i) = int32 (digits_val (takeWhile isdigit (c # cs)))"
      using isdigit_not [OF c] by (simp add: atol_def Let_def del: takeWhile.simps)
    with tw v False i show ?thesis by (simp add: int32_id)
  qed
qed

lemma dec_no_0: "0 \<notin> set (dec i)"
  using dec_nat_digits isdigit_not by (auto simp: dec_def str_def)

lemma length_dec_nat: "n < 10 ^ k \<Longrightarrow> 0 < k \<Longrightarrow> length (dec_nat n) \<le> k"
proof (induction k arbitrary: n)
  case (Suc k)
  show ?case
  proof (cases "n < 10")
    case True
    then show ?thesis by (subst dec_nat.simps) simp
  next
    case False
    with Suc.prems have k: "0 < k" by (cases k) auto
    have "n div 10 < 10 ^ k" using Suc.prems by (simp add: less_mult_imp_div_less)
    from Suc.IH [OF this k] False show ?thesis by (subst dec_nat.simps) simp
  qed
qed simp

lemma snprintf_dec: "- 2147483648 \<le> i \<Longrightarrow> i < 2147483648 \<Longrightarrow> snprintf 64 (dec i) = dec i"
proof -
  assume "- 2147483648 \<le> i" "i < 2147483648"
  then have "nat \<bar>i\<bar> < 10 ^ 10" by simp
  then have "length (dec_nat (nat \<bar>i\<bar>)) \<le> 10" by (rule length_dec_nat) simp
  then have "length (dec i) \<le> 63" by (auto simp: dec_def str_def)
  then show ?thesis by (simp add: snprintf_def)
qed

end
