(* ===== verification/Uncompress_Main.thy ===== *)
theory Uncompress_Main
  imports Lzw Cstring
begin

text \<open>
  The \<open>main\<close> of \<open>uncompress/uncompress.c\<close>: its options, the names of its files, the question
  before it overwrites one, and how it ends.  The file system is a map from names to contents; the
  environment \<open>uenv\<close> says which system calls fail.
\<close>

section \<open>State\<close>

definition NAMZ :: nat where "NAMZ = 256"

text \<open>
  \<open>zero_write\<close>: whether a \<open>write\<close> of no bytes to a closed descriptor succeeds, which systems do
  differently.
\<close>

record uenv =
  tty :: bool
  zero_write :: bool
  noread :: "bytes \<Rightarrow> bool"
  nostat :: "bytes \<Rightarrow> bool"
  nowrite :: "bytes \<Rightarrow> bool"
  nochown :: "bytes option \<Rightarrow> bool"
  nochmod :: "bytes option \<Rightarrow> bool"
  errno_text :: bytes
  memory :: nat
  disk_room :: nat

text \<open>
  \<open>out_name\<close> is the file behind \<open>out\<close>, \<open>None\<close> for the standard output, \<open>base\<close> what it held when
  it was opened, and \<open>closed\<close> says that \<open>out\<close> has been closed; \<open>stdin\<close> lists what the coming
  reads of the standard input deliver.
\<close>

record um =
  dec :: ust
  files :: "bytes \<Rightarrow> bytes option"
  stdin :: "bytes list"
  stdout :: bytes
  err :: bytes
  cflg :: bool
  fflg :: bool
  vflg :: bool
  infile :: bytes
  outfile :: bytes
  out_name :: "bytes option"
  base :: bytes
  closed :: bool

text \<open>An exit with a status, \<open>outflush\<close> and \<open>myabort\<close> calling each other for ever, or an access outside an array.\<close>

datatype uend = Status nat | Endless | Outside

type_synonym 'a ures = "(uend \<times> um) + ('a \<times> um)"

definition prints :: "bytes \<Rightarrow> um \<Rightarrow> um" where
  "prints m s = s\<lparr>err := err s @ m\<rparr>"

fun printi :: "nat \<Rightarrow> bytes" where
  "printi n = (if 9 < n then printi (n div 10) @ [0x30 + of_nat (n mod 10)] else [0x30 + of_nat n])"

text \<open>What has been written so far is in the file behind \<open>out\<close>, over its old contents.\<close>

definition sync :: "um \<Rightarrow> um" where
  "sync s = (case out_name s of
     None \<Rightarrow> s\<lparr>stdout := base s @ written (dec s)\<rparr>
   | Some f \<Rightarrow> s\<lparr>files := (files s)(f := Some (pwrite 0 (written (dec s)) (base s)))\<rparr>)"

definition mflush :: "uenv \<Rightarrow> um \<Rightarrow> unit ures" where
  "mflush env s =
     (if closed s then (if opos (dec s) = 0 \<and> zero_write env then Inr ((), s) else Inl (Endless, s))
      else case outflush (dec s) of
        None \<Rightarrow> Inl (Endless, s)
      | Some d \<Rightarrow> Inr ((), sync (s\<lparr>dec := d\<rparr>)))"

definition abort_text :: "bytes \<Rightarrow> bytes" where
  "abort_text m = str ''Abort: '' @ m @ [10]"

definition myabort :: "uenv \<Rightarrow> string \<Rightarrow> um \<Rightarrow> 'a ures" where
  "myabort env m s = rbind (mflush env s) (\<lambda>(_, s). Inl (Status 1, prints (abort_text (str m)) s))"

definition myexit :: "uenv \<Rightarrow> um \<Rightarrow> 'a ures" where
  "myexit env s = rbind (mflush env s) (\<lambda>(_, s). Inl (Status 0, s))"

definition printusage :: "um \<Rightarrow> 'a ures" where
  "printusage s = Inl (Status 1, prints (str ''uncompress [-cfv] [file...]'' @ [10]) s)"

definition perror :: "uenv \<Rightarrow> um \<Rightarrow> 'a ures" where
  "perror env s = Inl (Status 1, prints (str ''open: '' @ errno_text env @ [10]) s)"

section \<open>Decompressing\<close>

text \<open>The messages of the aborts inside \<open>decompress\<close>.\<close>

definition abort_msg :: "abort \<Rightarrow> ust \<Rightarrow> bytes" where
  "abort_msg a u = (case a of
     Bad_header \<Rightarrow> abort_text (str ''Bad id in header'')
   | Too_many_bits \<Rightarrow> str ''Error: encoded in '' @ printi (maxbits u) @ str '' bits, but I can only do '' @
       printi (mymaxbits u) @ str '' bits'' @ [10] @ abort_text (str ''Out of Memory'')
   | Bad_input \<Rightarrow> abort_text (str ''Bad input stream''))"

definition mdecompress :: "um \<Rightarrow> unit ures" where
  "mdecompress s =
     (case decompress (dec s) of
        None \<Rightarrow> Inl (Endless, s)
      | Some (Inl (a, u)) \<Rightarrow> Inl (Status 1, prints (abort_msg a u) (sync (s\<lparr>dec := u\<rparr>)))
      | Some (Inr u) \<Rightarrow> Inr ((), sync (s\<lparr>dec := u\<rparr>)))"

definition pipeit :: "uenv \<Rightarrow> um \<Rightarrow> 'a ures" where
  "pipeit env s =
     (let s = s\<lparr>dec := (dec s)\<lparr>reads := stdin s, written := [], room := disk_room env\<rparr>,
                out_name := None, base := stdout s, closed := False\<rparr>
      in rbind (mdecompress s) (\<lambda>(_, s). myexit env s))"

text \<open>The reads of a regular file: the header, then blocks.\<close>

fun blocks :: "nat \<Rightarrow> bytes \<Rightarrow> bytes list" where
  "blocks 0 b = []"
| "blocks (Suc k) b = (if b = [] then [] else take BUFZ b # blocks k (drop BUFZ b))"

definition file_reads :: "bytes \<Rightarrow> bytes list" where
  "file_reads b = (if b = [] then [] else take 3 b # blocks (length b) (drop 3 b))"

section \<open>Arguments\<close>

fun options :: "bytes \<Rightarrow> um \<Rightarrow> unit ures" where
  "options [] s = Inr ((), s)"
| "options (c # cs) s =
     (if c = 0x66 then options cs (s\<lparr>fflg := True\<rparr>)
      else if c = 0x76 then options cs (s\<lparr>vflg := True\<rparr>)
      else if c = 0x63 then options cs (s\<lparr>cflg := True\<rparr>)
      else printusage s)"

definition dotZ :: bytes where "dotZ = [0x2e, 0x5a]"

text \<open>
  \<open>infile\<close> and \<open>outfile\<close> for an argument.  The test for the suffix looks two bytes before the
  argument's end, which for a shorter one is outside of it, and a name of \<open>NAMZ\<close> bytes or more
  does not fit with its zero.
\<close>

definition names :: "bytes \<Rightarrow> um \<Rightarrow> unit ures" where
  "names a s =
     (if length a < 2 then Inl (Outside, s)
      else if drop (length a - 2) a = dotZ then
        if NAMZ \<le> length a then Inl (Outside, s)
        else Inr ((), s\<lparr>infile := a, outfile := take (length a - 2) a\<rparr>)
      else if NAMZ \<le> length a + 2 then Inl (Outside, s)
      else Inr ((), s\<lparr>infile := a @ dotZ, outfile := a\<rparr>))"

text \<open>\<open>read(0, &c, 1)\<close>.\<close>

definition read1 :: "um \<Rightarrow> u8 option \<times> um" where
  "read1 s = (case stdin s of
     [] \<Rightarrow> (None, s)
   | [] # r \<Rightarrow> (None, s\<lparr>stdin := r\<rparr>)
   | (c # b) # r \<Rightarrow> (Some c, s\<lparr>stdin := (if b = [] then r else b # r)\<rparr>))"

definition in_left :: "um \<Rightarrow> nat" where
  "in_left s = sum_list (map (\<lambda>b. Suc (length b)) (stdin s))"

function ask :: "uenv \<Rightarrow> um \<Rightarrow> unit ures" where
  "ask env s =
     (case read1 (prints (outfile s @ str '': File exists.  Overwrite? '') s) of (r, s) \<Rightarrow>
        case r of
          None \<Rightarrow> myabort env ''End of input'' s
        | Some c \<Rightarrow>
            if c = 0x79 \<or> c = 0x59 then Inr ((), s)
            else if c = 0x6e \<or> c = 0x4e then myabort env ''User cancelled.'' s
            else ask env s)"
  by pat_completeness auto

termination
  by (relation "measure (in_left \<circ> snd)")
    (auto simp: read1_def prints_def in_left_def split: list.splits if_splits)

declare ask.simps [simp del]

definition check_outfile :: "uenv \<Rightarrow> um \<Rightarrow> unit ures" where
  "check_outfile env s =
     (if \<not> fflg s \<and> files s (outfile s) \<noteq> None then
        if tty env then ask env s else myabort env ''File already exists.'' s
      else Inr ((), s))"

definition open_out :: "uenv \<Rightarrow> um \<Rightarrow> unit ures" where
  "open_out env s =
     (if cflg s then
        if NAMZ \<le> length (outfile s) + 6 then Inl (Outside, s)
        else Inr ((), s\<lparr>out_name := None, base := stdout s, closed := False, outfile := outfile s @ str ''stdout''\<rparr>)
      else if nowrite env (outfile s) then perror env s
      else
        let old = (case files s (outfile s) of None \<Rightarrow> [] | Some b \<Rightarrow> b) in
        Inr ((), s\<lparr>out_name := Some (outfile s), base := old, closed := False,
                   files := (files s)(outfile s := Some old)\<rparr>))"

definition one_file :: "uenv \<Rightarrow> bytes \<Rightarrow> um \<Rightarrow> unit ures" where
  "one_file env a s =
     rbind (names a s) (\<lambda>(_, s).
       if files s (infile s) = None \<or> noread env (infile s) then perror env s
       else if nostat env (infile s) then myabort env ''Can not stat() input file'' s
       else
         let c = the (files s (infile s)) in
         rbind (check_outfile env s) (\<lambda>(_, s).
           rbind (open_out env s) (\<lambda>(_, s).
             if nochown env (out_name s) then myabort env ''Cannot chown output file.'' s
             else if nochmod env (out_name s) then myabort env ''Cannot chmod output file.'' s
             else
               let s = (if vflg s then prints (infile s @ str '' -> '' @ outfile s @ [10]) s else s);
                   s = s\<lparr>dec := (dec s)\<lparr>reads := file_reads c, written := [], room := disk_room env\<rparr>\<rparr>
               in rbind (mdecompress s) (\<lambda>(_, s). Inr ((), if cflg s then s else s\<lparr>closed := True\<rparr>)))))"

definition argument :: "uenv \<Rightarrow> bytes \<Rightarrow> um \<Rightarrow> unit ures" where
  "argument env a s =
     (if a \<noteq> [] \<and> hd a = 0x2d then
        if length a = 1 then pipeit env s else options (tl a) s
      else one_file env a s)"

fun arguments :: "uenv \<Rightarrow> bytes list \<Rightarrow> um \<Rightarrow> unit ures" where
  "arguments env [] s = Inr ((), s)"
| "arguments env (a # as) s = rbind (argument env a s) (\<lambda>(_, s). arguments env as s)"

text \<open>\<open>myalloc\<close> runs before the options are known, so it never shows the number of bits.\<close>

definition umyalloc :: "uenv \<Rightarrow> um \<Rightarrow> unit ures" where
  "umyalloc env s =
     (case alloc_bits (memory env) 14 of
        None \<Rightarrow> myabort env ''Out of memory'' s
      | Some n \<Rightarrow>
          let s = (if vflg s then prints (str ''Max encoded bits: '' @ printi n @ [10]) s else s)
          in Inr ((), s\<lparr>dec := (dec s)\<lparr>mymaxbits := n\<rparr>\<rparr>))"

definition uncompress_main :: "uenv \<Rightarrow> bytes list \<Rightarrow> um \<Rightarrow> uend \<times> um" where
  "uncompress_main env as s =
     (case rbind (umyalloc env s) (\<lambda>(_, s).
        if as = [] then pipeit env s
        else rbind (arguments env as s) (\<lambda>(_, s). myexit env s)) of
      Inl e \<Rightarrow> e
    | Inr (u :: unit \<times> um) \<Rightarrow> (Endless, snd u))"

end
