(* ===== verification/Uncompress_Spec.thy ===== *)
theory Uncompress_Spec
  imports Uncompress_Main
begin

text \<open>
  What \<open>uncompress\<close> does with a file: it restores what was compressed, over the old contents of
  the output file; and how it ends.
\<close>

section \<open>Reading the input file\<close>

lemma blocks_ok: "length b \<le> k \<Longrightarrow> concat (blocks k b) = b \<and> (\<forall>r \<in> set (blocks k b). r \<noteq> [] \<and> length r \<le> BUFZ)"
proof (induction k arbitrary: b)
  case (Suc k)
  show ?case
  proof (cases "b = []")
    case False
    then have "length (drop BUFZ b) \<le> k" using Suc.prems by (simp add: BUFZ_def)
    from Suc.IH [OF this] False show ?thesis by (auto simp: BUFZ_def)
  qed simp
qed simp

lemma file_reads_ok:
  assumes "3 \<le> length c"
  shows "concat (file_reads c) = c" "\<forall>r \<in> set (file_reads c). r \<noteq> [] \<and> length r \<le> BUFZ"
    "file_reads c \<noteq> []" "3 \<le> length (hd (file_reads c))"
  using assms blocks_ok [of "drop 3 c" "length c"] by (auto simp: file_reads_def BUFZ_def)

section \<open>One file\<close>

text \<open>What is fixed while a file is restored, and a process that can start with one.\<close>

definition idle :: "um \<Rightarrow> bool" where
  "idle s \<longleftrightarrow> fresh (dec s) \<and> gnum (dec s) = 0 \<and> 9 \<le> ust.mymaxbits (dec s) \<and> \<not> cflg s"

definition allowed :: "uenv \<Rightarrow> bytes \<Rightarrow> bool" where
  "allowed env name \<longleftrightarrow> \<not> noread env (name @ dotZ) \<and> \<not> nostat env (name @ dotZ) \<and> \<not> nowrite env name \<and>
     \<not> nochown env (Some name) \<and> \<not> nochmod env (Some name)"

definition plain_name :: "bytes \<Rightarrow> bool" where
  "plain_name name \<longleftrightarrow> 2 \<le> length name \<and> length name < 254 \<and> drop (length name - 2) name \<noteq> dotZ \<and> hd name \<noteq> 0x2d"

definition old_file :: "um \<Rightarrow> bytes \<Rightarrow> bytes" where
  "old_file s name = (case files s name of None \<Rightarrow> [] | Some b \<Rightarrow> b)"

lemma outflush_opos: "outflush s = Some r \<Longrightarrow> opos r = 0"
  by (subst (asm) outflush.simps) (auto simp: Option.bind_eq_Some_conv split: prod.splits if_splits)

lemma decompress_opos: "decompress u = Some (Inr u') \<Longrightarrow> opos u' = 0"
  by (auto simp: decompress_def Let_def Option.bind_eq_Some_conv split: prod.splits if_splits sum.splits)
    (metis old.sum.exhaust outflush_opos)

lemma one_file_ok:
  assumes "idle s" "allowed env name" "plain_name name" "fflg s \<or> files s name = None"
    and "files s (name @ dotZ) = Some c" "3 \<le> length c" "length xs \<le> disk_room env"
    and "\<And>u. unlzw_input_ok u c (length xs) \<Longrightarrow> \<exists>u'. decompress u = Some (Inr u') \<and> written u' = xs"
  shows "\<exists>t. one_file env name s = Inr ((), t) \<and> files t = (files s)(name \<mapsto> pwrite 0 xs (old_file s name)) \<and>
    closed t \<and> opos (dec t) = 0"
proof -
  define s1 where "s1 = s\<lparr>infile := name @ dotZ, outfile := name\<rparr>"
  have n: "names name s = Inr ((), s1)" using assms(3) by (simp add: names_def plain_name_def NAMZ_def s1_def)
  have f1: "files s1 = files s" "infile s1 = name @ dotZ" "outfile s1 = name" "fflg s1 = fflg s" "cflg s1 = cflg s"
    "dec s1 = dec s" by (simp_all add: s1_def)
  have ck: "check_outfile env s1 = Inr ((), s1)" using assms(4) f1 by (auto simp: check_outfile_def)
  define s2 where "s2 = s1\<lparr>out_name := Some name, base := old_file s name, closed := False,
    files := (files s)(name := Some (old_file s name))\<rparr>"
  have op: "open_out env s1 = Inr ((), s2)"
    using assms(1,2) f1 by (simp add: open_out_def idle_def allowed_def Let_def s2_def old_file_def)
  define s3 where "s3 = (if vflg s2 then prints (infile s2 @ str '' -> '' @ outfile s2 @ [10]) s2 else s2)"
  define s4 where "s4 = s3\<lparr>dec := (dec s3)\<lparr>reads := file_reads c, written := [], room := disk_room env\<rparr>\<rparr>"
  have f3: "dec s3 = dec s" "files s3 = files s2" "out_name s3 = Some name" "base s3 = old_file s name" "cflg s3 = cflg s"
    by (simp_all add: s3_def prints_def s2_def s1_def)
  have "unlzw_input_ok (dec s4) c (length xs)"
    using assms(1,7) file_reads_ok [OF assms(6)]
    by (simp add: s4_def f3 unlzw_input_ok_def fresh_def idle_def)
  from assms(8) [OF this] obtain u where u: "decompress (dec s4) = Some (Inr u)" "written u = xs" by blast
  define t where "t = (sync (s4\<lparr>dec := u\<rparr>))\<lparr>closed := True\<rparr>"
  have md: "mdecompress s4 = Inr ((), sync (s4\<lparr>dec := u\<rparr>))" using u(1) by (simp add: mdecompress_def)
  have cf: "cflg (sync (s4\<lparr>dec := u\<rparr>)) = cflg s" by (simp add: sync_def s4_def f3 split: option.splits)
  have "one_file env name s = Inr ((), t)"
    unfolding one_file_def
    using n f1 assms(1,2,5) ck op md cf
    by (simp add: allowed_def idle_def Let_def s2_def [symmetric] s3_def [symmetric] s4_def [symmetric] t_def)
      (simp add: s2_def t_def)
  moreover have "files t = (files s)(name \<mapsto> pwrite 0 xs (old_file s name))"
    using u(2) by (simp add: t_def sync_def s4_def f3 s2_def)
  moreover have "closed t" "opos (dec t) = 0"
    using decompress_opos [OF u(1)] by (simp_all add: t_def sync_def s4_def f3)
  ultimately show ?thesis by blast
qed

lemma restored:
  assumes "lzw_input_ok avail c xs" "compress_main avail c = Some (Inr c')"
    and "idle s" "allowed env name" "plain_name name" "fflg s \<or> files s name = None"
    and "files s (name @ dotZ) = Some (written c')" "length xs \<le> disk_room env"
  shows "\<exists>t. one_file env name s = Inr ((), t) \<and> files t = (files s)(name \<mapsto> pwrite 0 xs (old_file s name)) \<and>
    closed t \<and> opos (dec t) = 0"
proof -
  from lzw_restores [OF assms(1)] assms(2) have "3 \<le> length (written c')"
    "\<And>u. unlzw_input_ok u (written c') (length xs) \<Longrightarrow> \<exists>u'. decompress u = Some (Inr u') \<and> written u' = xs" by auto
  from one_file_ok [OF assms(3-7) this(1) assms(8) this(2)] show ?thesis .
qed

section \<open>The program\<close>

definition um_start :: "um \<Rightarrow> bool" where
  "um_start s \<longleftrightarrow> fresh (dec s) \<and> gnum (dec s) = 0 \<and> \<not> cflg s \<and> \<not> fflg s \<and> \<not> vflg s"

definition ending :: "uenv \<Rightarrow> uend" where
  "ending env = (if zero_write env then Status 0 else Endless)"

lemma myexit_closed:
  assumes "closed s" "opos (dec s) = 0"
  shows "(myexit env s :: unit ures) = Inl (ending env, s)"
  using assms by (simp add: myexit_def mflush_def ending_def)

lemma alloc_ge_9: "alloc_bits m k = Some n \<Longrightarrow> 9 \<le> n"
  by (induction k) (auto split: if_splits)

lemma umyalloc_ok:
  assumes "alloc_bits (memory env) 14 = Some n" "um_start s"
  shows "umyalloc env s = Inr ((), s\<lparr>dec := (dec s)\<lparr>mymaxbits := n\<rparr>\<rparr>) \<and> idle (s\<lparr>dec := (dec s)\<lparr>mymaxbits := n\<rparr>\<rparr>)"
  using assms alloc_ge_9 by (simp add: umyalloc_def um_start_def idle_def fresh_def)

lemma plain_argument: "plain_name name \<Longrightarrow> argument env name s = one_file env name s"
  by (auto simp: argument_def plain_name_def)

text \<open>C11:
  \<open>uncompress name\<close> restores the file that \<open>compress\<close> made into \<open>name.Z\<close>: the file \<open>name\<close>
  appears with the bytes that were compressed and no other file changes.  The program then closes
  the output and flushes it once more, which on a system where writing nothing to a closed
  descriptor is an error never ends.
\<close>

theorem uncompress_restores:
  assumes "lzw_input_ok avail c xs" and "compress_main avail c = Some (Inr c')"
    and "um_start s" and "alloc_bits (memory env) 14 = Some n" and "length xs \<le> disk_room env"
    and "plain_name name" and "allowed env name" and "files s name = None" and "files s (name @ dotZ) = Some (written c')"
  shows "\<exists>t. uncompress_main env [name] s = (ending env, t) \<and> files t = (files s)(name \<mapsto> xs)"
proof -
  define s1 where "s1 = s\<lparr>dec := (dec s)\<lparr>mymaxbits := n\<rparr>\<rparr>"
  have a: "umyalloc env s = Inr ((), s1)" "idle s1" "files s1 = files s"
    using umyalloc_ok [OF assms(4,3)] by (simp_all add: s1_def)
  from restored [OF assms(1,2) a(2) assms(7,6) _ _ assms(5)] a(3) assms(8,9) obtain t where
    t: "one_file env name s1 = Inr ((), t)" "files t = (files s)(name \<mapsto> pwrite 0 xs (old_file s1 name))"
      "closed t" "opos (dec t) = 0" by auto
  have "old_file s1 name = []" using assms(8) a(3) by (simp add: old_file_def)
  moreover have "pwrite 0 xs [] = xs" by (simp add: pwrite_def)
  moreover have "uncompress_main env [name] s = (ending env, t)"
    using a(1) t(1) myexit_closed [OF t(3,4)] by (simp add: uncompress_main_def plain_argument [OF assms(6)])
  ultimately show ?thesis using t(2) by auto
qed

text \<open>
  With \<open>-f\<close> an existing output file is written over from its start but not truncated: when it
  was longer than the restored data, its old end stays behind them.
\<close>

theorem uncompress_keeps_tail:
  assumes "lzw_input_ok avail c xs" and "compress_main avail c = Some (Inr c')"
    and "um_start s" and "alloc_bits (memory env) 14 = Some n" and "length xs \<le> disk_room env"
    and "plain_name name" and "allowed env name" and "files s name = Some old"
    and "files s (name @ dotZ) = Some (written c')"
  shows "\<exists>t. uncompress_main env [str ''-f'', name] s = (ending env, t) \<and>
    files t = (files s)(name \<mapsto> xs @ drop (length xs) old)"
proof -
  define s1 where "s1 = s\<lparr>dec := (dec s)\<lparr>mymaxbits := n\<rparr>\<rparr>"
  define s2 where "s2 = s1\<lparr>fflg := True\<rparr>"
  have a: "umyalloc env s = Inr ((), s1)" "idle s2" "files s2 = files s" "fflg s2"
    using umyalloc_ok [OF assms(4,3)] by (simp_all add: s1_def s2_def idle_def)
  have o: "argument env (str ''-f'') s1 = Inr ((), s2)"
    by (simp add: argument_def str_def s2_def)
  from restored [OF assms(1,2) a(2) assms(7,6) _ _ assms(5)] a(3,4) assms(9) obtain t where
    t: "one_file env name s2 = Inr ((), t)" "files t = (files s)(name \<mapsto> pwrite 0 xs (old_file s2 name))"
      "closed t" "opos (dec t) = 0" by auto
  have "old_file s2 name = old" using assms(8) a(3) by (simp add: old_file_def)
  moreover have "pwrite 0 xs old = xs @ drop (length xs) old" by (simp add: pwrite_def)
  moreover have "uncompress_main env [str ''-f'', name] s = (ending env, t)"
    using a(1) o t(1) myexit_closed [OF t(3,4)] by (simp add: uncompress_main_def plain_argument [OF assms(6)])
  ultimately show ?thesis using t(2) by auto
qed

section \<open>An example\<close>

definition demo_env :: "bool \<Rightarrow> uenv" where
  "demo_env zw = \<lparr>tty = False, zero_write = zw, noread = \<lambda>_. False, nostat = \<lambda>_. False, nowrite = \<lambda>_. False,
     nochown = \<lambda>_. False, nochmod = \<lambda>_. False, errno_text = [], memory = 60000, disk_room = 100\<rparr>"

definition demo_name :: bytes where "demo_name = str ''ab''"

definition demo_um :: "bytes \<Rightarrow> bytes option \<Rightarrow> um" where
  "demo_um z old = \<lparr>dec = (unlzw_demo [])\<lparr>reads := []\<rparr>, files = [demo_name @ dotZ \<mapsto> z](demo_name := old), stdin = [], stdout = [], err = [],
     cflg = False, fflg = False, vflg = False, infile = [], outfile = [], out_name = None, base = [], closed = False\<rparr>"

lemma demo_start: "um_start (demo_um z old)" "alloc_bits (memory (demo_env zw)) 14 = Some 14"
  "plain_name demo_name" "allowed (demo_env zw) demo_name" "disk_room (demo_env zw) = 100"
  "files (demo_um z old) demo_name = old" "files (demo_um z old) (demo_name @ dotZ) = Some z"
  by (simp_all add: um_start_def demo_um_def unlzw_demo_def fresh_def BUFZ_def demo_env_def alloc_bits_numeral plain_name_def
      demo_name_def str_def dotZ_def allowed_def)

lemma demo_input: "lzw_input_ok 2000 lzw_demo [7, 7, 7, 7, 9]"
proof -
  have "length (codes (Compress.cleardict lzw_demo) (unat (hd [7, 7, 7, 7, 9 :: u8])) (tl [7, 7, 7, 7, 9])) \<le> 256"
    by (rule order_trans [OF length_codes]) simp
  moreover have "alloc_bits 2000 14 = Some 9" by (simp add: alloc_bits_numeral)
  ultimately show ?thesis by (auto simp: lzw_input_ok_def fresh_def lzw_demo_def BUFZ_def)
qed

lemma demo_ending: "ending (demo_env zw) = (if zw then Status 0 else Endless)"
  by (simp add: ending_def demo_env_def)

lemma uncompress_restores_witness:
  "\<exists>c' t. compress_main 2000 lzw_demo = Some (Inr c') \<and>
    uncompress_main (demo_env False) [demo_name] (demo_um (written c') None) = (Endless, t) \<and>
    files t demo_name = Some [7, 7, 7, 7, 9]"
proof -
  from lzw_restores [OF demo_input] obtain c' where c: "compress_main 2000 lzw_demo = Some (Inr c')" by blast
  have r: "length [7, 7, 7, 7, 9 :: u8] \<le> disk_room (demo_env False)" by (simp add: demo_start)
  from uncompress_restores [OF demo_input c demo_start(1,2) r demo_start(3,4,6,7)] obtain t where
    "uncompress_main (demo_env False) [demo_name] (demo_um (written c') None) = (Endless, t)"
    "files t = (files (demo_um (written c') None))(demo_name \<mapsto> [7, 7, 7, 7, 9])" unfolding demo_ending by auto
  with c show ?thesis by auto
qed

lemma uncompress_keeps_tail_witness:
  "\<exists>c' t. compress_main 2000 lzw_demo = Some (Inr c') \<and>
    uncompress_main (demo_env True) [str ''-f'', demo_name] (demo_um (written c') (Some [1, 1, 1, 1, 1, 1, 1])) = (Status 0, t) \<and>
    files t demo_name = Some [7, 7, 7, 7, 9, 1, 1]"
proof -
  from lzw_restores [OF demo_input] obtain c' where c: "compress_main 2000 lzw_demo = Some (Inr c')" by blast
  have r: "length [7, 7, 7, 7, 9 :: u8] \<le> disk_room (demo_env True)" by (simp add: demo_start)
  from uncompress_keeps_tail [OF demo_input c demo_start(1,2) r demo_start(3,4,6,7), of "[1, 1, 1, 1, 1, 1, 1]"] obtain t where
    "uncompress_main (demo_env True) [str ''-f'', demo_name] (demo_um (written c') (Some [1, 1, 1, 1, 1, 1, 1])) = (Status 0, t)"
    "files t = (files (demo_um (written c') (Some [1, 1, 1, 1, 1, 1, 1])))(demo_name \<mapsto> [7, 7, 7, 7, 9, 1, 1])"
    unfolding demo_ending by auto
  with c show ?thesis by auto
qed

end
