(* ===== verification/Lwwire.thy ===== *)
theory Lwwire
  imports Prelude "HOL-Library.Char_ord"
begin

text \<open>
  The DriveWire/lwwire disk server \<open>lwwire/lwwire.c\<close>: unbuffered protocol input and output
  with short transfers and interruptions, the table of 256 drives and their disk images, the
  table of protocol extensions, one definition per protocol operation, the argument parser
  and the main loop.  What the system does (the results of the coming \<open>read\<close>, \<open>write\<close>,
  \<open>nanosleep\<close>, \<open>fread\<close> and \<open>fwrite\<close> calls) is listed in scripts that are part of the state;
  a script that has run out means that the calls succeed, and for the input that the channel
  is closed.
\<close>

section \<open>State\<close>

definition LWERR_CHECKSUM :: u8 where "LWERR_CHECKSUM = 0xF3"
definition LWERR_READ :: u8 where "LWERR_READ = 0xF4"
definition LWERR_WRITE :: u8 where "LWERR_WRITE = 0xF5"
definition LWERR_NOTREADY :: u8 where "LWERR_NOTREADY = 0xF6"

lemmas lwerr_defs = LWERR_CHECKSUM_def LWERR_READ_def LWERR_WRITE_def LWERR_NOTREADY_def

text \<open>A drive; an open stream carries its error mark.\<close>

record drive =
  path :: "string option"
  fp :: "bool option"
  isconst :: bool

text \<open>
  An extension's function pointers act on state of their own, of type \<open>'x\<close>; \<open>None\<close> is the
  null pointer.
\<close>

record 'x ext =
  enabled :: int
  handler :: "(u8 \<Rightarrow> 'x \<Rightarrow> int \<times> 'x) option"
  disable :: "('x \<Rightarrow> int \<times> 'x) option"
  enable :: "('x \<Rightarrow> int \<times> 'x) option"
  ereset :: "('x \<Rightarrow> 'x) option"

text \<open>
  Input: bytes that have arrived, nothing there yet or an interruption, the end, an error
  (with the mark whether it is a time-out).
\<close>

datatype inev = Data bytes | Again | Eof | Fail bool
datatype outev = Wrote nat | Wagain | Wfail
datatype slev = Slept | Sintr | Sfail

text \<open>What the client sees: bytes, and silences of at least 1.1 seconds.\<close>

datatype obs = Sent bytes | Silence

record tm =
  tm_year :: int
  tm_mon :: int
  tm_mday :: int
  tm_hour :: int
  tm_min :: int
  tm_sec :: int

record 'x lw =
  drivedata :: "u8 \<Rightarrow> drive"
  files :: "string \<Rightarrow> bytes option"
  denied :: "string \<Rightarrow> bool"
  exts :: "u8 \<Rightarrow> 'x ext"
  xst :: 'x
  input :: "inev list"
  timedout :: bool
  wscript :: "outev list"
  sscript :: "slev list"
  frscript :: "nat list"
  fwscript :: "nat list"
  trace :: "obs list"
  prlog :: bytes
  clock :: tm

datatype stop = Exit int | Null_call | Out_of_bounds

type_synonym ('a, 'x) res = "(stop \<times> 'x lw) + ('a \<times> 'x lw)"

section \<open>Protocol input and output\<close>

datatype rdres = Got | End | Err bool

fun read_loop :: "inev list \<Rightarrow> nat \<Rightarrow> rdres \<times> bytes \<times> inev list" where
  "read_loop es 0 = (Got, [], es)"
| "read_loop [] (Suc n) = (End, [], [])"
| "read_loop (Data d # es) (Suc n) =
     (if d = [] then (End, [], es)
      else if Suc n = length d then (Got, d, es)
      else if Suc n < length d then (Got, take (Suc n) d, Data (drop (Suc n) d) # es)
      else case read_loop es (Suc n - length d) of (r, b, es') \<Rightarrow> (r, d @ b, es'))"
| "read_loop (Again # es) (Suc n) = read_loop es (Suc n)"
| "read_loop (Eof # es) (Suc n) = (End, [], es)"
| "read_loop (Fail t # es) (Suc n) = (Err t, [], es)"

text \<open>\<open>lwwire_readdata\<close>: the count, 0 at the end of the channel, -1 on an error.\<close>

definition readdata :: "nat \<Rightarrow> 'x lw \<Rightarrow> int \<times> bytes \<times> 'x lw" where
  "readdata len s =
     (case read_loop (input s) len of
        (Got, b, es) \<Rightarrow> (int len, b, s\<lparr>input := es\<rparr>)
      | (End, b, es) \<Rightarrow> (0, b, s\<lparr>input := es\<rparr>)
      | (Err t, b, es) \<Rightarrow> (-1, b, s\<lparr>input := es, timedout := t\<rparr>))"

fun sleep_loop :: "slev list \<Rightarrow> bool \<times> slev list" where
  "sleep_loop [] = (True, [])"
| "sleep_loop (Slept # r) = (True, r)"
| "sleep_loop (Sintr # r) = sleep_loop r"
| "sleep_loop (Sfail # r) = (False, r)"

fun write_loop :: "outev list \<Rightarrow> bytes \<Rightarrow> bool \<times> bytes \<times> outev list" where
  "write_loop ws [] = (True, [], ws)"
| "write_loop [] (c # b) = (True, c # b, [])"
| "write_loop (Wrote n # ws) (c # b) =
     (if length (c # b) \<le> n then (True, c # b, ws)
      else case write_loop ws (drop n (c # b)) of (r, o', ws') \<Rightarrow> (r, take n (c # b) @ o', ws'))"
| "write_loop (Wagain # ws) (c # b) = write_loop ws (c # b)"
| "write_loop (Wfail # ws) (c # b) = (False, [], ws)"

definition writedata :: "bytes \<Rightarrow> 'x lw \<Rightarrow> bool \<times> 'x lw" where
  "writedata b s =
     (case sleep_loop (sscript s) of (slept, sl) \<Rightarrow>
        let s1 = s\<lparr>sscript := sl\<rparr>
        in if \<not> slept then (False, s1)
           else case write_loop (wscript s1) b of (r, o', ws) \<Rightarrow>
             (r, s1\<lparr>wscript := ws, trace := trace s1 @ [Sent o']\<rparr>))"

definition lwwire_write :: "bytes \<Rightarrow> 'x lw \<Rightarrow> (unit, 'x) res" where
  "lwwire_write b s = (case writedata b s of (r, s1) \<Rightarrow> if r then Inr ((), s1) else Inl (Exit 1, s1))"

text \<open>\<open>lwwire_reset\<close>, extension by extension; a handler without reset function is a null call.\<close>

definition reset_one :: "u8 \<Rightarrow> 'x lw \<Rightarrow> (unit, 'x) res" where
  "reset_one i s =
     rbind (case handler (exts s i) of
              None \<Rightarrow> Inr s
            | Some _ \<Rightarrow> (case ereset (exts s i) of
                None \<Rightarrow> Inl (Null_call, s)
              | Some f \<Rightarrow> Inr (s\<lparr>xst := f (xst s)\<rparr>)))
       (\<lambda>s1. Inr ((), s1\<lparr>exts := (exts s1)(i := (exts s1 i)\<lparr>enabled := 0\<rparr>)\<rparr>))"

fun reset_from :: "nat \<Rightarrow> nat \<Rightarrow> 'x lw \<Rightarrow> (unit, 'x) res" where
  "reset_from i 0 s = Inr ((), s)"
| "reset_from i (Suc n) s = rbind (reset_one (of_nat i) s) (\<lambda>(_, s1). reset_from (Suc i) n s1)"

definition reset :: "'x lw \<Rightarrow> (unit, 'x) res" where
  "reset s = reset_from 0 256 s"

definition protoerror :: "'x lw \<Rightarrow> (unit, 'x) res" where
  "protoerror s =
     (case sleep_loop (sscript s) of (slept, sl) \<Rightarrow>
        reset (s\<lparr>sscript := sl, trace := trace s @ (if slept then [Silence] else [])\<rparr>))"

text \<open>\<open>lwwire_read\<close> and \<open>lwwire_read2\<close>: \<open>None\<close> is the return value -1.\<close>

definition read2 :: "nat \<Rightarrow> 'x lw \<Rightarrow> (bytes option, 'x) res" where
  "read2 len s =
     (case readdata len s of (rv, b, s1) \<Rightarrow>
        if rv < 0 then
          if timedout s1 then rbind (protoerror s1) (\<lambda>(_, s2). Inr (None, s2))
          else Inl (Exit 1, s1)
        else if rv = 0 then Inl (Exit 0, s1)
        else Inr (Some b, s1))"

section \<open>Drives\<close>

text \<open>
  \<open>fopen(path, "r+")\<close> of a drive's image and, when there is none, \<open>fopen(path, "w+")\<close>,
  which creates it.
\<close>

definition open_image :: "string \<Rightarrow> bool \<Rightarrow> 'x lw \<Rightarrow> bool option \<times> 'x lw" where
  "open_image p const s =
     (case files s p of
        Some _ \<Rightarrow> (if denied s p then None else Some False, s)
      | None \<Rightarrow>
          if \<not> const \<and> \<not> denied s p then (Some False, s\<lparr>files := (files s)(p := Some [])\<rparr>)
          else (None, s))"

definition fetch_drive_fp :: "u8 \<Rightarrow> 'x lw \<Rightarrow> bool option \<times> 'x lw" where
  "fetch_drive_fp dn s =
     (case path (drivedata s dn) of
        None \<Rightarrow> (None, s)
      | Some p \<Rightarrow>
          if fp (drivedata s dn) = Some False then (Some False, s)
          else case open_image p (isconst (drivedata s dn)) s of (f, s1) \<Rightarrow>
            (f, s1\<lparr>drivedata := (drivedata s1)(dn := (drivedata s1 dn)\<lparr>fp := f\<rparr>)\<rparr>))"

text \<open>
  The offset \<open>lsn * 256\<close> is computed in 32 bits without sign and given to \<open>fseek\<close> as a signed
  \<open>long\<close>.
\<close>

definition offset :: "u32 \<Rightarrow> int" where
  "offset lsn = sint (lsn * 256)"

text \<open>
  \<open>fread\<close> and \<open>fwrite\<close> of a sector on an open image; a script entry below 256 is an error
  after that many bytes, which marks the stream.
\<close>

definition set_fp :: "u8 \<Rightarrow> bool option \<Rightarrow> 'x lw \<Rightarrow> 'x lw" where
  "set_fp dn f s = s\<lparr>drivedata := (drivedata s)(dn := (drivedata s dn)\<lparr>fp := f\<rparr>)\<rparr>"

definition disk_image :: "u8 \<Rightarrow> 'x lw \<Rightarrow> bytes" where
  "disk_image dn s = (case path (drivedata s dn) of None \<Rightarrow> []
     | Some p \<Rightarrow> (case files s p of None \<Rightarrow> [] | Some f \<Rightarrow> f))"

definition set_image :: "u8 \<Rightarrow> bytes \<Rightarrow> 'x lw \<Rightarrow> 'x lw" where
  "set_image dn f s = (case path (drivedata s dn) of None \<Rightarrow> s
     | Some p \<Rightarrow> s\<lparr>files := (files s)(p := Some f)\<rparr>)"

definition fread256 :: "u8 \<Rightarrow> nat \<Rightarrow> 'x lw \<Rightarrow> bytes \<times> 'x lw" where
  "fread256 dn off s =
     (let b = pread off 256 (disk_image dn s)
      in case frscript s of
           [] \<Rightarrow> (b, s)
         | n # ns \<Rightarrow> if n < length b then (take n b, set_fp dn (Some True) (s\<lparr>frscript := ns\<rparr>))
                     else (b, s\<lparr>frscript := ns\<rparr>))"

definition fwrite256 :: "u8 \<Rightarrow> nat \<Rightarrow> bytes \<Rightarrow> 'x lw \<Rightarrow> nat \<times> 'x lw" where
  "fwrite256 dn off b s =
     (case fwscript s of
        [] \<Rightarrow> (length b, set_image dn (pwrite off b (disk_image dn s)) s)
      | n # ns \<Rightarrow>
          let s1 = s\<lparr>fwscript := ns\<rparr>
          in if n < length b
             then (n, set_fp dn (Some True) (set_image dn (pwrite off (take n b) (disk_image dn s1)) s1))
             else (length b, set_image dn (pwrite off b (disk_image dn s1)) s1))"

definition fetch_sector :: "u8 \<Rightarrow> u32 \<Rightarrow> 'x lw \<Rightarrow> u8 \<times> bytes \<times> 'x lw" where
  "fetch_sector dn lsn s =
     (case fetch_drive_fp dn s of (f, s1) \<Rightarrow>
        if f = None then (LWERR_NOTREADY, [], s1)
        else if offset lsn < 0 then (LWERR_READ, [], s1)
        else case fread256 dn (nat (offset lsn)) s1 of (b, s2) \<Rightarrow>
          (0, b @ replicate (256 - length b) 0, s2))"

definition drive_readonly :: "u8 \<Rightarrow> 'x lw \<Rightarrow> bool" where
  "drive_readonly dn s = isconst (drivedata s dn)"

definition save_sector :: "u8 \<Rightarrow> u32 \<Rightarrow> bytes \<Rightarrow> 'x lw \<Rightarrow> u8 \<times> 'x lw" where
  "save_sector dn lsn b s =
     (if drive_readonly dn s then (LWERR_WRITE, s)
      else case fetch_drive_fp dn s of (f, s1) \<Rightarrow>
        if f = None then (LWERR_NOTREADY, s1)
        else if isconst (drivedata s1 dn) then (LWERR_WRITE, s1)
        else if offset lsn < 0 then (LWERR_WRITE, s1)
        else case fwrite256 dn (nat (offset lsn)) b s1 of (rc, s2) \<Rightarrow>
          (if rc < 256 then LWERR_WRITE else 0, s2))"

section \<open>Protocol operations\<close>

definition lsn_of :: "bytes \<Rightarrow> u32" where
  "lsn_of b = push_bit 16 (ucast (b ! 1)) OR push_bit 8 (ucast (b ! 2)) OR ucast (b ! 3)"

definition checksum :: "bytes \<Rightarrow> u16" where
  "checksum b = fold (\<lambda>c acc. acc + ucast c) b 0"

definition proto_read :: "'x lw \<Rightarrow> (unit, 'x) res" where
  "proto_read s = rbind (read2 4 s) (\<lambda>(r, s1). case r of
       None \<Rightarrow> Inr ((), s1)
     | Some b \<Rightarrow> (case fetch_sector (b ! 0) (lsn_of b) s1 of (ec, sec, s2) \<Rightarrow>
         rbind (lwwire_write [ec] s2) (\<lambda>(_, s3).
           if ec \<noteq> 0 then Inr ((), s3)
           else lwwire_write (sec @ [hi8 (checksum sec), lo8 (checksum sec)]) s3)))"

definition proto_write :: "'x lw \<Rightarrow> (unit, 'x) res" where
  "proto_write s = rbind (read2 262 s) (\<lambda>(r, s1). case r of
       None \<Rightarrow> Inr ((), s1)
     | Some b \<Rightarrow>
         let dat = take 256 (drop 4 b)
         in case (if checksum dat \<noteq> be16 (b ! 260) (b ! 261) then (LWERR_CHECKSUM, s1)
                  else save_sector (b ! 0) (lsn_of b) dat s1) of (ec, s2) \<Rightarrow>
              lwwire_write [ec] s2)"

definition proto_readex :: "'x lw \<Rightarrow> (unit, 'x) res" where
  "proto_readex s = rbind (read2 4 s) (\<lambda>(r, s1). case r of
       None \<Rightarrow> Inr ((), s1)
     | Some b \<Rightarrow> (case fetch_sector (b ! 0) (lsn_of b) s1 of (ec, sec, s2) \<Rightarrow>
         let sec' = (if ec \<noteq> 0 then replicate 256 0 else sec)
         in rbind (lwwire_write sec' s2) (\<lambda>(_, s3).
            rbind (read2 2 s3) (\<lambda>(r', s4). case r' of
               None \<Rightarrow> Inr ((), s4)
             | Some c \<Rightarrow>
                 let ec' = (if be16 (c ! 0) (c ! 1) \<noteq> checksum sec' then LWERR_CHECKSUM else ec)
                 in lwwire_write [ec'] s4))))"

definition set_enabled :: "u8 \<Rightarrow> int \<Rightarrow> 'x lw \<Rightarrow> 'x lw" where
  "set_enabled e v s = s\<lparr>exts := (exts s)(e := (exts s e)\<lparr>enabled := v\<rparr>)\<rparr>"

definition proto_requestextension :: "'x lw \<Rightarrow> (unit, 'x) res" where
  "proto_requestextension s = rbind (read2 1 s) (\<lambda>(r, s1). case r of
       None \<Rightarrow> Inr ((), s1)
     | Some b \<Rightarrow> (case enable (exts s1 (b ! 0)) of
           None \<Rightarrow> lwwire_write [0x55] s1
         | Some f \<Rightarrow> (case f (xst s1) of (v, x) \<Rightarrow>
             let s2 = s1\<lparr>xst := x\<rparr>
             in if v = 0 then lwwire_write [0x42] (set_enabled (b ! 0) 1 s2)
                else lwwire_write [0x55] s2)))"

definition proto_disableextension :: "'x lw \<Rightarrow> (unit, 'x) res" where
  "proto_disableextension s = rbind (read2 1 s) (\<lambda>(r, s1). case r of
       None \<Rightarrow> Inr ((), s1)
     | Some b \<Rightarrow>
         case (case disable (exts s1 (b ! 0)) of
                 None \<Rightarrow> (0x42, s1)
               | Some f \<Rightarrow> (case f (xst s1) of (v, x) \<Rightarrow>
                   (if v \<noteq> 0 then 0x55 else 0x42, s1\<lparr>xst := x\<rparr>))) of (a, s2) \<Rightarrow>
           lwwire_write [a] (if a = 0x42 then set_enabled (b ! 0) 0 s2 else s2))"

definition proto_extensionop :: "'x lw \<Rightarrow> (unit, 'x) res" where
  "proto_extensionop s = rbind (read2 2 s) (\<lambda>(r, s1). case r of
       None \<Rightarrow> Inr ((), s1)
     | Some b \<Rightarrow>
         if enabled (exts s1 (b ! 0)) = 1 then
           (case handler (exts s1 (b ! 0)) of
              None \<Rightarrow> protoerror s1
            | Some f \<Rightarrow> (case f (b ! 1) (xst s1) of (v, x) \<Rightarrow>
                if v = 0 then Inr ((), s1\<lparr>xst := x\<rparr>) else protoerror (s1\<lparr>xst := x\<rparr>)))
         else protoerror s1)"

definition op_time :: "'x lw \<Rightarrow> (unit, 'x) res" where
  "op_time s = (let t = clock s in lwwire_write (map word_of_int
     [tm_year t, tm_mon t + 1, tm_mday t, tm_hour t, tm_min t, tm_sec t]) s)"

text \<open>PRINT logs the byte that follows, or the opcode itself when that byte does not arrive.\<close>

definition op_print :: "u8 \<Rightarrow> 'x lw \<Rightarrow> (unit, 'x) res" where
  "op_print opc s = rbind (read2 1 s) (\<lambda>(r, s1).
     let c = (case r of None \<Rightarrow> opc | Some b \<Rightarrow> b ! 0)
     in Inr ((), s1\<lparr>prlog := prlog s1 @ [c]\<rparr>))"

definition op_dwinit :: "'x lw \<Rightarrow> (unit, 'x) res" where
  "op_dwinit s = rbind (reset s) (\<lambda>(_, s1). rbind (read2 1 s1) (\<lambda>(r, s2).
     case r of None \<Rightarrow> Inr ((), s2) | Some b \<Rightarrow> lwwire_write [0x80] s2))"

definition dispatch :: "u8 \<Rightarrow> 'x lw \<Rightarrow> (unit, 'x) res" where
  "dispatch opc s =
     (if opc = 0x00 then Inr ((), s)
      else if opc = 0x23 then op_time s
      else if opc = 0x46 then Inr ((), s)
      else if opc \<in> {0x47, 0x53} then rbind (read2 2 s) (\<lambda>(_, s1). Inr ((), s1))
      else if opc \<in> {0x49, 0x54, 0xF8, 0xFE, 0xFF} then reset s
      else if opc = 0x50 then op_print opc s
      else if opc \<in> {0x52, 0x72} then proto_read s
      else if opc \<in> {0x57, 0x77} then proto_write s
      else if opc = 0x5A then op_dwinit s
      else if opc \<in> {0xD2, 0xF2} then proto_readex s
      else if opc = 0xF0 then proto_requestextension s
      else if opc = 0xF1 then proto_disableextension s
      else if opc = 0xF3 then proto_extensionop s
      else protoerror s)"

section \<open>The main loop\<close>

text \<open>The input still to be consumed, which every operation of the server only shortens.\<close>

fun in_size :: "inev list \<Rightarrow> nat" where
  "in_size [] = 0"
| "in_size (Data d # es) = Suc (length d + in_size es)"
| "in_size (_ # es) = Suc (in_size es)"

definition todo :: "'x lw \<Rightarrow> nat" where
  "todo s = in_size (input s)"

lemma read_loop_size:
  "case read_loop es n of (r, b, es') \<Rightarrow>
     in_size es' \<le> in_size es \<and> (0 < n \<longrightarrow> r = End \<or> in_size es' < in_size es)"
  by (induction es n rule: read_loop.induct) (auto split: prod.splits)

lemma readdata_todo:
  "readdata n s = (rv, b, s') \<Longrightarrow> todo s' \<le> todo s \<and> (0 < n \<longrightarrow> rv \<noteq> 0 \<longrightarrow> todo s' < todo s)"
  using read_loop_size [of "input s" n]
  by (auto simp: readdata_def todo_def split: rdres.splits prod.splits)

text \<open>The drives and their images, which only the sector operations change.\<close>

definition disks :: "'x lw \<Rightarrow> (u8 \<Rightarrow> drive) \<times> (string \<Rightarrow> bytes option) \<times> (string \<Rightarrow> bool)" where
  "disks s = (drivedata s, files s, denied s)"

text \<open>\<open>kept s t\<close>: from \<open>s\<close> to \<open>t\<close> input may have been consumed, and the disks are as they were.\<close>

definition kept :: "'x lw \<Rightarrow> 'x lw \<Rightarrow> bool" where
  "kept s t \<longleftrightarrow> todo t \<le> todo s \<and> disks t = disks s"

lemma kept_refl [simp]: "kept s s"
  by (simp add: kept_def)

lemma kept_trans: "kept s t \<Longrightarrow> kept t u \<Longrightarrow> kept s u"
  by (auto simp: kept_def)

lemma kept_write: "kept s (final (lwwire_write b s))"
  by (auto simp: lwwire_write_def writedata_def Let_def kept_def todo_def disks_def split: prod.splits if_splits)

lemma kept_reset_one: "kept s (final (reset_one i s))"
  by (auto simp: reset_one_def kept_def todo_def disks_def split: option.splits)

lemma kept_reset_from: "kept s (final (reset_from i n s))"
proof (induction n arbitrary: i s)
  case (Suc n)
  show ?case
    unfolding reset_from.simps
  proof (rule final_rbind)
    show "kept s (final (reset_one (of_nat i) s))" by (rule kept_reset_one)
  qed (auto intro: kept_trans Suc)
qed simp

lemma kept_reset: "kept s (final (reset s))"
  unfolding reset_def by (rule kept_reset_from)

lemma kept_protoerror: "kept s (final (protoerror s))"
proof -
  obtain b sl where sl: "sleep_loop (sscript s) = (b, sl)" by (cases "sleep_loop (sscript s)")
  let ?s = "s\<lparr>sscript := sl, trace := trace s @ (if b then [Silence] else [])\<rparr>"
  have "kept s ?s" by (simp add: kept_def todo_def disks_def)
  then show ?thesis
    using kept_reset [of ?s] by (auto simp: protoerror_def sl intro: kept_trans)
qed

lemma kept_readdata: "readdata n s = (rv, b, s') \<Longrightarrow> kept s s'"
  using readdata_todo [of n s rv b s']
  by (auto simp: kept_def readdata_def disks_def split: prod.splits rdres.splits)

lemma kept_read2: "kept s (final (read2 n s))"
proof -
  obtain rv b s1 where r: "readdata n s = (rv, b, s1)" by (cases "readdata n s") auto
  have "kept s (final (rbind (protoerror s1) (\<lambda>(_, s2). Inr (None :: bytes option, s2))))"
    by (rule final_rbind) (auto intro: kept_trans [OF kept_readdata [OF r]] kept_protoerror)
  then show ?thesis
    using kept_readdata [OF r] by (simp add: read2_def r)
qed

text \<open>
  \<open>untouched P s t\<close>: the input has not grown, the drive table names the same images with the
  same access, and the images whose path satisfies \<open>P\<close> are as they were.
\<close>

definition untouched :: "(string \<Rightarrow> bool) \<Rightarrow> 'x lw \<Rightarrow> 'x lw \<Rightarrow> bool" where
  "untouched P s t \<longleftrightarrow> todo t \<le> todo s \<and> (\<forall>p. P p \<longrightarrow> files t p = files s p)
     \<and> (\<forall>d. path (drivedata t d) = path (drivedata s d) \<and> isconst (drivedata t d) = isconst (drivedata s d))"

definition readonly_path :: "'x lw \<Rightarrow> string \<Rightarrow> bool" where
  "readonly_path s p \<longleftrightarrow> (\<forall>d. path (drivedata s d) = Some p \<longrightarrow> isconst (drivedata s d))"

lemma untouched_kept: "kept s t \<Longrightarrow> untouched P s t"
  by (auto simp: kept_def untouched_def disks_def)

lemma untouched_trans: "untouched P s t \<Longrightarrow> untouched P t u \<Longrightarrow> untouched P s u"
  by (auto simp: untouched_def)

lemma readonly_path_untouched: "untouched P s t \<Longrightarrow> readonly_path t = readonly_path s"
  by (auto simp: untouched_def readonly_path_def)

definition guarded :: "'x lw \<Rightarrow> 'x lw \<Rightarrow> bool" where
  "guarded s t \<longleftrightarrow> untouched (readonly_path s) s t"

lemma guarded_refl [simp]: "guarded s s"
  by (simp add: guarded_def untouched_def)

lemma guarded_trans: "guarded s t \<Longrightarrow> guarded t u \<Longrightarrow> guarded s u"
  by (metis guarded_def untouched_trans readonly_path_untouched)

lemma guarded_kept: "kept s t \<Longrightarrow> guarded s t"
  by (simp add: guarded_def untouched_kept)

lemma guarded_fetch_drive_fp: "fetch_drive_fp dn s = (f, s') \<Longrightarrow> guarded s s'"
  by (auto simp: fetch_drive_fp_def open_image_def guarded_def untouched_def todo_def readonly_path_def
      split: option.splits if_splits)

lemma guarded_fetch_sector: "fetch_sector dn lsn s = (ec, b, s') \<Longrightarrow> guarded s s'"
proof -
  assume a: "fetch_sector dn lsn s = (ec, b, s')"
  obtain f s1 where f: "fetch_drive_fp dn s = (f, s1)" by (cases "fetch_drive_fp dn s")
  have "guarded s1 s'"
    using a f by (auto simp: fetch_sector_def fread256_def set_fp_def Let_def guarded_def untouched_def todo_def
      split: prod.splits if_splits list.splits)
  with guarded_fetch_drive_fp [OF f] show ?thesis by (rule guarded_trans)
qed

lemma guarded_set_image: "\<not> isconst (drivedata s dn) \<Longrightarrow> guarded s (set_image dn f s)"
  by (auto simp: set_image_def guarded_def untouched_def todo_def readonly_path_def split: option.splits)

lemma guarded_upd:
  "guarded s t \<Longrightarrow> disks t' = disks t \<Longrightarrow> input t' = input t \<Longrightarrow> guarded s t'"
  by (simp add: guarded_def untouched_def disks_def todo_def)

lemma guarded_set_fp: "guarded s t \<Longrightarrow> guarded s (set_fp dn f t)"
  by (simp add: guarded_def untouched_def todo_def set_fp_def)

lemma guarded_fwrite256:
  assumes "\<not> isconst (drivedata s dn)"
  shows "guarded s (snd (fwrite256 dn off b s))"
proof (cases "fwscript s")
  case Nil
  with assms show ?thesis by (simp add: fwrite256_def guarded_set_image)
next
  case (Cons n ns)
  let ?s = "s\<lparr>fwscript := ns\<rparr>"
  have "guarded s ?s" by (rule guarded_upd [OF guarded_refl]) (simp_all add: disks_def)
  moreover have "guarded ?s (set_image dn f ?s)" for f
    using assms by (intro guarded_set_image) simp
  ultimately have "guarded s (set_image dn f ?s)" for f by (rule guarded_trans)
  with Cons show ?thesis by (simp add: fwrite256_def Let_def guarded_set_fp)
qed

lemma guarded_save_sector:
  assumes "save_sector dn lsn b s = (ec, s')"
  shows "guarded s s'"
proof (cases "isconst (drivedata s dn)")
  case True
  with assms show ?thesis by (simp add: save_sector_def drive_readonly_def)
next
  case False
  obtain f s1 where f: "fetch_drive_fp dn s = (f, s1)" by (cases "fetch_drive_fp dn s")
  note g = guarded_fetch_drive_fp [OF f]
  have c: "\<not> isconst (drivedata s1 dn)" using g False by (simp add: guarded_def untouched_def)
  obtain rc s2 where w: "fwrite256 dn (nat (offset lsn)) b s1 = (rc, s2)"
    by (cases "fwrite256 dn (nat (offset lsn)) b s1")
  from guarded_fwrite256 [OF c, of "nat (offset lsn)" b] w have "guarded s1 s2" by simp
  with g have "guarded s s2" by (rule guarded_trans)
  with g assms f w c False show ?thesis
    by (auto simp: save_sector_def drive_readonly_def split: if_splits)
qed

text \<open>Composing steps: each keeps what the run so far has kept.\<close>

lemma guarded_bind:
  assumes "guarded s0 (final r)"
    and "\<And>a s1. r = Inr (a, s1) \<Longrightarrow> guarded s0 s1 \<Longrightarrow> guarded s0 (final (f (a, s1)))"
  shows "guarded s0 (final (rbind r f))"
  using assms by (rule final_rbind [where P = "guarded s0"])

lemma guarded_write: "guarded s0 s \<Longrightarrow> guarded s0 (final (lwwire_write b s))"
  by (rule guarded_trans [OF _ guarded_kept [OF kept_write]])

lemma guarded_read2: "guarded s0 s \<Longrightarrow> guarded s0 (final (read2 n s))"
  by (rule guarded_trans [OF _ guarded_kept [OF kept_read2]])

lemma guarded_reset: "guarded s0 s \<Longrightarrow> guarded s0 (final (reset s))"
  by (rule guarded_trans [OF _ guarded_kept [OF kept_reset]])

lemma guarded_protoerror: "guarded s0 s \<Longrightarrow> guarded s0 (final (protoerror s))"
  by (rule guarded_trans [OF _ guarded_kept [OF kept_protoerror]])

lemmas guarded_io = guarded_bind guarded_write guarded_read2 guarded_reset guarded_protoerror

lemma guarded_fetch_after:
  "fetch_sector dn lsn s = (ec, b, s') \<Longrightarrow> guarded s0 s \<Longrightarrow> guarded s0 s'"
  using guarded_fetch_sector guarded_trans by blast

lemma guarded_save_after:
  "save_sector dn lsn b s = (ec, s') \<Longrightarrow> guarded s0 s \<Longrightarrow> guarded s0 s'"
  using guarded_save_sector guarded_trans by blast

lemma guarded_xst: "guarded s0 s \<Longrightarrow> guarded s0 (s\<lparr>xst := x\<rparr>)"
  by (erule guarded_upd) (simp_all add: disks_def)

lemma guarded_set_enabled: "guarded s0 s \<Longrightarrow> guarded s0 (set_enabled e v s)"
  by (erule guarded_upd) (simp_all add: disks_def set_enabled_def)

lemma guarded_prlog: "guarded s0 s \<Longrightarrow> guarded s0 (s\<lparr>prlog := l\<rparr>)"
  by (erule guarded_upd) (simp_all add: disks_def)

lemmas guarded_upds = guarded_xst guarded_set_enabled guarded_prlog

lemma guarded_proto_read: "guarded s0 s \<Longrightarrow> guarded s0 (final (proto_read s))"
  unfolding proto_read_def
  by (rule guarded_bind, erule guarded_read2)
    (auto split: option.split prod.split intro!: guarded_io dest: guarded_fetch_after)

lemma guarded_proto_write: "guarded s0 s \<Longrightarrow> guarded s0 (final (proto_write s))"
  unfolding proto_write_def Let_def
  by (rule guarded_bind, erule guarded_read2)
    (auto split: option.split prod.split if_split intro!: guarded_io dest: guarded_save_after)

lemma guarded_proto_readex: "guarded s0 s \<Longrightarrow> guarded s0 (final (proto_readex s))"
  unfolding proto_readex_def Let_def
  by (rule guarded_bind, erule guarded_read2)
    (auto split: option.split prod.split intro!: guarded_io dest: guarded_fetch_after)

lemma guarded_proto_requestextension: "guarded s0 s \<Longrightarrow> guarded s0 (final (proto_requestextension s))"
  unfolding proto_requestextension_def Let_def
  by (rule guarded_bind, erule guarded_read2)
    (auto split: option.split prod.split intro!: guarded_io guarded_upds)

lemma guarded_proto_disableextension: "guarded s0 s \<Longrightarrow> guarded s0 (final (proto_disableextension s))"
  unfolding proto_disableextension_def Let_def
  by (rule guarded_bind, erule guarded_read2)
    (auto split: option.split prod.split intro!: guarded_io guarded_upds)

lemma guarded_proto_extensionop: "guarded s0 s \<Longrightarrow> guarded s0 (final (proto_extensionop s))"
  unfolding proto_extensionop_def Let_def
  by (rule guarded_bind, erule guarded_read2)
    (auto split: option.split prod.split intro!: guarded_io guarded_upds)

lemma guarded_op_print: "guarded s0 s \<Longrightarrow> guarded s0 (final (op_print c s))"
  unfolding op_print_def Let_def
  by (rule guarded_bind, erule guarded_read2) (auto intro: guarded_upds)

lemma guarded_op_dwinit: "guarded s0 s \<Longrightarrow> guarded s0 (final (op_dwinit s))"
  unfolding op_dwinit_def
  by (rule guarded_bind, erule guarded_reset) (auto split: option.split intro!: guarded_io)

lemma guarded_dispatch: "guarded s0 s \<Longrightarrow> guarded s0 (final (dispatch c s))"
  unfolding dispatch_def op_time_def Let_def
  by (auto intro!: guarded_io guarded_proto_read guarded_proto_write guarded_proto_readex
      guarded_proto_requestextension guarded_proto_disableextension guarded_proto_extensionop
      guarded_op_print guarded_op_dwinit)

lemma dispatch_todo: "dispatch c s = Inr (u, s') \<Longrightarrow> todo s' \<le> todo s"
  using guarded_dispatch [of s s c] by (simp add: guarded_def untouched_def)

lemma protoerror_todo: "protoerror s = Inr (u, s') \<Longrightarrow> todo s' \<le> todo s"
  using kept_protoerror [of s] by (simp add: kept_def)

text \<open>
  \<open>main\<close>'s loop.  It runs until the channel is closed or the program stops, which the
  termination proof shows to happen for every input.
\<close>

function main_loop :: "'x lw \<Rightarrow> stop \<times> 'x lw" where
  "main_loop s =
     (case readdata 1 s of (rv, b, s1) \<Rightarrow>
        if rv < 0 then
          (case protoerror s1 of Inl e \<Rightarrow> e | Inr (_, s2) \<Rightarrow> main_loop s2)
        else if rv = 0 then (Exit 0, s1)
        else (case dispatch (b ! 0) s1 of Inl e \<Rightarrow> e | Inr (_, s2) \<Rightarrow> main_loop s2))"
  by pat_completeness auto
termination
by (relation "measure todo")
  (auto dest!: readdata_todo [OF sym] dispatch_todo protoerror_todo)

declare main_loop.simps [simp del]

lemma guarded_main_loop: "guarded s0 s \<Longrightarrow> guarded s0 (snd (main_loop s))"
proof (induction s rule: main_loop.induct)
  case (1 s)
  obtain rv b s1 where r: "readdata 1 s = (rv, b, s1)" by (cases "readdata 1 s") auto
  have g: "guarded s0 s1"
    using guarded_trans [OF 1(3) guarded_kept [OF kept_readdata [OF r]]] .
  show ?case
  proof (cases "rv < 0")
    case True
    have p: "guarded s0 (final (protoerror s1))" using g by (rule guarded_protoerror)
    show ?thesis
    proof (cases "protoerror s1")
      case (Inl e)
      with r True p show ?thesis by (subst main_loop.simps) (cases e, simp)
    next
      case (Inr q)
      with p have "guarded s0 (snd q)" by (cases q) simp
      with 1(1) [OF r [symmetric] refl True Inr] have "guarded s0 (snd (main_loop (snd q)))"
        by (cases q) simp
      with r True Inr show ?thesis by (subst main_loop.simps) (cases q, simp)
    qed
  next
    case False
    show ?thesis
    proof (cases "rv = 0")
      case True
      with r g show ?thesis by (subst main_loop.simps) simp
    next
      case nz: False
      have p: "guarded s0 (final (dispatch (b ! 0) s1))" using g by (rule guarded_dispatch)
      show ?thesis
      proof (cases "dispatch (b ! 0) s1")
        case (Inl e)
        with r False nz p show ?thesis by (subst main_loop.simps) (cases e, simp)
      next
        case (Inr q)
        with p have "guarded s0 (snd q)" by (cases q) simp
        with 1(2) [OF r [symmetric] refl False nz Inr] have "guarded s0 (snd (main_loop (snd q)))"
          by (cases q) simp
        with r False nz Inr show ?thesis by (subst main_loop.simps) (cases q, simp)
      qed
    qed
  qed
qed

text \<open>The arguments: the decimal number is computed in a 16-bit \<open>int\<close>.\<close>

fun number :: "int \<Rightarrow> string \<Rightarrow> int \<times> string" where
  "number dn [] = (dn, [])"
| "number dn (c # cs) =
     (if CHR ''0'' \<le> c \<and> c \<le> CHR ''9'' then number (int16 (dn * 10 + (of_char c - 48))) cs
      else (dn, c # cs))"

datatype arg = Other | Invalid | Drive int bool string

definition parse_arg :: "string \<Rightarrow> arg" where
  "parse_arg a =
     (if take 6 a \<noteq> ''drive='' then Other
      else let p = drop 6 a; const = (p \<noteq> [] \<and> hd p = CHR ''C'')
           in case number 0 (if const then tl p else p) of (dn, rest) \<Rightarrow>
             if rest = [] \<or> hd rest \<noteq> CHR '','' \<or> 255 < dn then Invalid
             else Drive dn const (tl rest))"

definition use_arg :: "string \<Rightarrow> 'x lw \<Rightarrow> (unit, 'x) res" where
  "use_arg a s =
     (case parse_arg a of
        Drive dn const p \<Rightarrow>
          if dn < 0 then Inl (Out_of_bounds, s)
          else Inr ((), s\<lparr>drivedata := (drivedata s)(word_of_int dn :=
                 (drivedata s (word_of_int dn))\<lparr>path := Some p, isconst := const\<rparr>)\<rparr>)
      | _ \<Rightarrow> Inr ((), s))"

fun use_args :: "string list \<Rightarrow> 'x lw \<Rightarrow> (unit, 'x) res" where
  "use_args [] s = Inr ((), s)"
| "use_args (a # as) s = rbind (use_arg a s) (\<lambda>(_, s1). use_args as s1)"

text \<open>The program: no drive has an image and no extension exists before the arguments.\<close>

definition clear_tables :: "'x lw \<Rightarrow> 'x lw" where
  "clear_tables s = s\<lparr>drivedata := (\<lambda>_. \<lparr>path = None, fp = None, isconst = False\<rparr>),
     exts := (\<lambda>_. \<lparr>enabled = 0, handler = None, disable = None, enable = None, ereset = None\<rparr>)\<rparr>"

definition lwwire_main :: "string list \<Rightarrow> 'x lw \<Rightarrow> stop \<times> 'x lw" where
  "lwwire_main args s =
     (case use_args args (clear_tables s) of Inl e \<Rightarrow> e | Inr (_, s1) \<Rightarrow> main_loop s1)"

section \<open>Sectors\<close>

text \<open>The sector of an image at an offset: bytes past the end of the file are zeros.\<close>

definition sector_at :: "bytes \<Rightarrow> nat \<Rightarrow> bytes" where
  "sector_at f off = pread off 256 f @ replicate (256 - length (pread off 256 f)) 0"

lemma length_sector_at [simp]: "length (sector_at f off) = 256"
  by (simp add: sector_at_def length_pread)

lemma nth_sector_at:
  "i < 256 \<Longrightarrow> sector_at f off ! i = (if off + i < length f then f ! (off + i) else 0)"
  by (auto simp: sector_at_def nth_append length_pread) (auto simp: pread_def)

lemma sector_at_pwrite_same:
  assumes "length b = 256"
  shows "sector_at (pwrite off b f) off = b"
  using assms pread_pwrite_same_len [OF assms] by (simp add: sector_at_def)

lemma sector_at_pwrite_other:
  assumes "off + 256 \<le> off' \<or> off' + length b \<le> off"
  shows "sector_at (pwrite off' b f) off = sector_at f off"
proof (cases "b = []")
  case False
  show ?thesis
  proof (rule nth_equalityI)
    fix i assume "i < length (sector_at (pwrite off' b f) off)"
    then have i: "i < 256" by simp
    show "sector_at (pwrite off' b f) off ! i = sector_at f off ! i"
      using assms False i by (auto simp: nth_sector_at nth_pwrite length_pwrite)
  qed simp
qed simp

lemma offset_low:
  assumes "unat lsn < 0x800000"
  shows "offset lsn = int (256 * unat lsn)"
proof -
  have "int (unat lsn) < 0x800000" using assms by linarith
  then have l: "uint lsn < 0x800000" by simp
  have "uint (lsn * 256) = uint lsn * 256 mod 4294967296" by (simp add: uint_word_ariths)
  also have "\<dots> = uint lsn * 256" using l by (intro mod_pos_pos_trivial) simp_all
  finally show ?thesis using l by (simp add: offset_def sint_u32)
qed

lemma offset_high:
  assumes "0x800000 \<le> unat lsn" and "unat lsn < 0x1000000"
  shows "offset lsn < 0"
proof -
  have "0x800000 \<le> int (unat lsn)" "int (unat lsn) < 0x1000000" using assms by linarith+
  then have l: "0x800000 \<le> uint lsn" "uint lsn < 0x1000000" by simp_all
  have "uint (lsn * 256) = uint lsn * 256 mod 4294967296" by (simp add: uint_word_ariths)
  also have "\<dots> = uint lsn * 256" using l by (intro mod_pos_pos_trivial) simp_all
  finally have "uint (lsn * 256) = uint lsn * 256" .
  with l show ?thesis by (simp add: offset_def sint_u32)
qed

text \<open>A drive whose image exists and can be read and written.\<close>

definition ready :: "u8 \<Rightarrow> bytes \<Rightarrow> 'x lw \<Rightarrow> bool" where
  "ready dn f s \<longleftrightarrow> (\<exists>p. path (drivedata s dn) = Some p \<and> files s p = Some f
     \<and> (fp (drivedata s dn) = Some False \<or> \<not> denied s p)) \<and> frscript s = [] \<and> fwscript s = []"

text \<open>The protocol side of the state, which the sector operations leave alone.\<close>

definition line :: "'x lw \<Rightarrow> inev list \<times> outev list \<times> slev list \<times> obs list \<times> (u8 \<Rightarrow> 'x ext)" where
  "line s = (input s, wscript s, sscript s, trace s, exts s)"

definition opened :: "u8 \<Rightarrow> 'x lw \<Rightarrow> 'x lw" where
  "opened dn s = (if fp (drivedata s dn) = Some False then s else set_fp dn (Some False) s)"

lemma line_sector [simp]: "line (opened dn s) = line s" "line (set_image dn f s) = line s"
  by (simp_all add: line_def opened_def set_fp_def set_image_def split: option.splits)

lemma opened_ready:
  assumes "ready dn f s"
  shows "fetch_drive_fp dn s = (Some False, opened dn s)" and "ready dn f (opened dn s)"
    and "isconst (drivedata (opened dn s) dn) = isconst (drivedata s dn)"
  using assms by (auto simp: ready_def fetch_drive_fp_def open_image_def opened_def set_fp_def)

lemma ready_image: "ready dn f s \<Longrightarrow> disk_image dn s = f"
  by (auto simp: ready_def disk_image_def)

lemma ready_set_image: "ready dn f s \<Longrightarrow> ready dn g (set_image dn g s)"
  by (auto simp: ready_def set_image_def)

lemma fetch_sector_ready:
  assumes "ready dn f s" and "0 \<le> offset lsn"
  shows "fetch_sector dn lsn s = (0, sector_at f (nat (offset lsn)), opened dn s)"
proof -
  note o = opened_ready [OF assms(1)]
  have "frscript (opened dn s) = []" using o(2) by (simp add: ready_def)
  then show ?thesis
    using assms(2) o by (simp add: fetch_sector_def fread256_def Let_def ready_image sector_at_def)
qed

lemma save_sector_ready:
  assumes "ready dn f s" and "0 \<le> offset lsn" and "\<not> isconst (drivedata s dn)" and "length b = 256"
  shows "save_sector dn lsn b s = (0, set_image dn (pwrite (nat (offset lsn)) b f) (opened dn s))"
proof -
  note o = opened_ready [OF assms(1)]
  have "fwscript (opened dn s) = []" using o(2) by (simp add: ready_def)
  then show ?thesis
    using assms o by (simp add: save_sector_def drive_readonly_def fwrite256_def ready_image)
qed

text \<open>The sectors of one drive are a store of blocks.\<close>

definition rd_sector :: "u8 \<Rightarrow> 'x lw \<Rightarrow> u32 \<Rightarrow> u8 \<times> bytes" where
  "rd_sector dn s lsn = (case fetch_sector dn lsn s of (ec, b, _) \<Rightarrow> (ec, b))"

definition wr_sector :: "u8 \<Rightarrow> u32 \<Rightarrow> u8 \<times> bytes \<Rightarrow> 'x lw \<Rightarrow> 'x lw" where
  "wr_sector dn lsn b s = snd (save_sector dn lsn (snd b) s)"

definition disk_ok :: "u8 \<Rightarrow> 'x lw \<Rightarrow> bool" where
  "disk_ok dn s \<longleftrightarrow> (\<exists>f. ready dn f s) \<and> \<not> isconst (drivedata s dn)"

definition low_lsn :: "u32 \<Rightarrow> bool" where
  "low_lsn lsn \<longleftrightarrow> unat lsn < 0x800000"

definition whole_sector :: "u8 \<times> bytes \<Rightarrow> bool" where
  "whole_sector b \<longleftrightarrow> fst b = 0 \<and> length (snd b) = 256"

lemma low_offset: "low_lsn lsn \<Longrightarrow> 0 \<le> offset lsn" "low_lsn lsn \<Longrightarrow> nat (offset lsn) = 256 * unat lsn"
  using offset_low [of lsn] unfolding low_lsn_def by (simp_all only: nat_int of_nat_0_le_iff)

lemma wr_sector_ready:
  assumes "ready dn f s" and "\<not> isconst (drivedata s dn)" and "low_lsn lsn" and "length (snd b) = 256"
  shows "ready dn (pwrite (256 * unat lsn) (snd b) f) (wr_sector dn lsn b s)"
    and "\<not> isconst (drivedata (wr_sector dn lsn b s) dn)"
proof -
  note o = low_offset [OF assms(3)]
  with save_sector_ready [OF assms(1) _ assms(2,4)] have
    e: "wr_sector dn lsn b s = set_image dn (pwrite (256 * unat lsn) (snd b) f) (opened dn s)"
    by (simp add: wr_sector_def)
  show "ready dn (pwrite (256 * unat lsn) (snd b) f) (wr_sector dn lsn b s)"
    unfolding e by (rule ready_set_image [OF opened_ready(2) [OF assms(1)]])
  show "\<not> isconst (drivedata (wr_sector dn lsn b s) dn)"
    unfolding e using opened_ready(3) [OF assms(1)] assms(2)
    by (simp add: set_image_def split: option.splits)
qed

lemma rd_sector_ready:
  "ready dn f s \<Longrightarrow> low_lsn lsn \<Longrightarrow> rd_sector dn s lsn = (0, sector_at f (256 * unat lsn))"
  by (simp add: rd_sector_def fetch_sector_ready low_offset)

interpretation disk: block_store "rd_sector dn" "wr_sector dn" "disk_ok dn" low_lsn whole_sector for dn
proof unfold_locales
  fix s :: "'x lw" and k b
  assume a: "disk_ok dn s" "low_lsn k" "whole_sector b"
  then obtain f where f: "ready dn f s" "\<not> isconst (drivedata s dn)" by (auto simp: disk_ok_def)
  have l: "length (snd b) = 256" using a(3) by (simp add: whole_sector_def)
  note w = wr_sector_ready [OF f a(2) l]
  show "disk_ok dn (wr_sector dn k b s)" using w by (auto simp: disk_ok_def)
  show "rd_sector dn (wr_sector dn k b s) k = b"
    using rd_sector_ready [OF w(1) a(2)] a(3) l
    by (cases b) (simp add: sector_at_pwrite_same whole_sector_def)
next
  fix s :: "'x lw" and k k' b
  assume a: "disk_ok dn s" "low_lsn k" "low_lsn k'" "k \<noteq> k'" "whole_sector b"
  then obtain f where f: "ready dn f s" "\<not> isconst (drivedata s dn)" by (auto simp: disk_ok_def)
  have l: "length (snd b) = 256" using a(5) by (simp add: whole_sector_def)
  have "unat k \<noteq> unat k'" using a(4) by (simp add: word_unat_eq_iff)
  then have "256 * unat k' + 256 \<le> 256 * unat k \<or> 256 * unat k + length (snd b) \<le> 256 * unat k'"
    using l by linarith
  with rd_sector_ready [OF wr_sector_ready(1) [OF f a(2) l] a(3)] rd_sector_ready [OF f(1) a(3)]
  show "rd_sector dn (wr_sector dn k b s) k' = rd_sector dn s k'"
    by (simp add: sector_at_pwrite_other)
qed

section \<open>The line\<close>

text \<open>The bytes that arrive before the channel ends or fails.\<close>

fun avail :: "inev list \<Rightarrow> bytes" where
  "avail (Data d # es) = (if d = [] then [] else d @ avail es)"
| "avail (Again # es) = avail es"
| "avail _ = []"

lemma read_loop_got:
  "n \<le> length (avail es) \<Longrightarrow>
   \<exists>es'. read_loop es n = (Got, take n (avail es), es') \<and> avail es' = drop n (avail es)"
proof (induction es n rule: read_loop.induct)
  case (3 d es n)
  show ?case
  proof (cases "length d < Suc n \<and> d \<noteq> []")
    case True
    with 3(2) have "Suc n - length d \<le> length (avail es)" by auto
    with 3(1) True obtain es' where "read_loop es (Suc n - length d) = (Got, take (Suc n - length d) (avail es), es')"
      "avail es' = drop (Suc n - length d) (avail es)" by auto
    with True show ?thesis by auto
  next
    case False
    with 3(2) show ?thesis by auto
  qed
qed auto

lemma read_loop_short:
  "read_loop es n = (Got, b, es') \<Longrightarrow> n \<le> length (avail es)"
proof (induction es n arbitrary: b es' rule: read_loop.induct)
  case (3 d es n)
  show ?case
  proof (cases "length d < Suc n \<and> d \<noteq> []")
    case True
    with 3(2) obtain b' where "read_loop es (Suc n - length d) = (Got, b', es')"
      by (auto split: prod.splits)
    with True 3(1) have "Suc n - length d \<le> length (avail es)" by auto
    with True show ?thesis by auto
  next
    case False
    with 3(2) show ?thesis by auto
  qed
qed auto

text \<open>C39:
  However the line splits the bytes of a request into pieces and interrupts the reads,
  \<open>lwwire_readdata\<close> delivers the next n bytes in order and leaves the rest for the next
  request; it reports the end or an error exactly when fewer bytes arrive.
\<close>

theorem readdata_any_pieces:
  "case readdata n s of (rv, b, s') \<Rightarrow>
     if n \<le> length (avail (input s))
     then rv = int n \<and> b = take n (avail (input s)) \<and> avail (input s') = drop n (avail (input s))
       \<and> s' = s\<lparr>input := input s'\<rparr>
     else rv \<le> 0"
proof (cases "n \<le> length (avail (input s))")
  case True
  with read_loop_got [of n "input s"] show ?thesis by (auto simp: readdata_def)
next
  case False
  with read_loop_short [of "input s" n] show ?thesis
    by (auto simp: readdata_def split: prod.splits rdres.splits)
qed

lemma readdata_got:
  assumes "avail (input s) = b @ r" and "length b = n"
  shows "\<exists>es. readdata n s = (int n, b, s\<lparr>input := es\<rparr>) \<and> avail es = r"
  using read_loop_got [of n "input s"] assms by (auto simp: readdata_def)

lemma read2_got:
  assumes "avail (input s) = b @ r" and "length b = n" and "0 < n"
  shows "\<exists>es. read2 n s = Inr (Some b, s\<lparr>input := es\<rparr>) \<and> avail es = r"
  using readdata_got [OF assms(1,2)] assms(3) by (auto simp: read2_def)

text \<open>A line on which neither sleeping nor writing fails, and what has been sent over it.\<close>

definition line_ok :: "'x lw \<Rightarrow> bool" where
  "line_ok s \<longleftrightarrow> Sfail \<notin> set (sscript s) \<and> Wfail \<notin> set (wscript s)"

fun sent :: "obs list \<Rightarrow> bytes" where
  "sent [] = []"
| "sent (Sent b # t) = b @ sent t"
| "sent (Silence # t) = sent t"

lemma sent_append [simp]: "sent (t @ u) = sent t @ sent u"
  by (induction t rule: sent.induct) auto

lemma sleep_loop_ok:
  "Sfail \<notin> set sl \<Longrightarrow> \<exists>sl'. sleep_loop sl = (True, sl') \<and> set sl' \<subseteq> set sl"
  by (induction sl rule: sleep_loop.induct) auto

lemma write_loop_ok:
  "Wfail \<notin> set ws \<Longrightarrow> \<exists>ws'. write_loop ws b = (True, b, ws') \<and> set ws' \<subseteq> set ws"
proof (induction ws b rule: write_loop.induct)
  case (3 n ws c b)
  show ?case
  proof (cases "length (c # b) \<le> n")
    case False
    with 3 obtain ws' where "write_loop ws (drop n (c # b)) = (True, drop n (c # b), ws')"
      "set ws' \<subseteq> set ws" by auto
    moreover have "take n (c # b) @ drop n (c # b) = c # b" by (rule append_take_drop_id)
    ultimately show ?thesis using False by auto
  qed auto
qed auto

text \<open>\<open>replied b s t\<close>: from \<open>s\<close> to \<open>t\<close> nothing changed but the line, on which \<open>b\<close> was sent.\<close>

definition replied :: "bytes \<Rightarrow> 'x lw \<Rightarrow> 'x lw \<Rightarrow> bool" where
  "replied b s t \<longleftrightarrow> line_ok t \<and> sent (trace t) = sent (trace s) @ b
     \<and> t = s\<lparr>wscript := wscript t, sscript := sscript t, trace := trace t\<rparr>"

lemma write_ok:
  assumes "line_ok s"
  shows "\<exists>t. lwwire_write b s = Inr ((), t) \<and> replied b s t"
proof -
  from assms sleep_loop_ok [of "sscript s"] obtain sl where
    sl: "sleep_loop (sscript s) = (True, sl)" "set sl \<subseteq> set (sscript s)" by (auto simp: line_ok_def)
  from assms write_loop_ok [of "wscript s" b] obtain ws where
    ws: "write_loop (wscript s) b = (True, b, ws)" "set ws \<subseteq> set (wscript s)" by (auto simp: line_ok_def)
  show ?thesis
    using assms sl ws
    by (auto simp: lwwire_write_def writedata_def Let_def replied_def line_ok_def)
qed

lemma repliedD:
  assumes "replied b s t"
  shows "line_ok t" and "sent (trace t) = sent (trace s) @ b" and "drivedata t = drivedata s"
    and "files t = files s" and "input t = input s" and "exts t = exts s" and "ready dn f t = ready dn f s"
    and "disk_image dn t = disk_image dn s"
proof -
  have e: "t = s\<lparr>wscript := wscript t, sscript := sscript t, trace := trace t\<rparr>"
    using assms by (simp add: replied_def)
  show "line_ok t" "sent (trace t) = sent (trace s) @ b" using assms by (simp_all add: replied_def)
  show "drivedata t = drivedata s" "files t = files s" "input t = input s" "exts t = exts s"
    "ready dn f t = ready dn f s" "disk_image dn t = disk_image dn s"
    by (subst e; simp add: ready_def disk_image_def split: option.split; fail)+
qed

section \<open>Requests and replies\<close>

definition sector_reply :: "bytes \<Rightarrow> bytes" where
  "sector_reply b = b @ [hi8 (checksum b), lo8 (checksum b)]"

definition lsn_bytes :: "u32 \<Rightarrow> bytes" where
  "lsn_bytes lsn = [ucast (drop_bit 16 lsn), ucast (drop_bit 8 lsn), ucast lsn]"

lemma lsn_of_bytes:
  assumes "unat lsn < 0x1000000"
  shows "lsn_of (dn # lsn_bytes lsn @ r) = lsn"
proof (rule bit_word_eqI)
  fix n assume n: "n < LENGTH(32)"
  have "unat (take_bit 24 lsn) = unat lsn"
    using assms by (simp add: unsigned_take_bit_eq take_bit_nat_eq_self)
  then have "take_bit 24 lsn = lsn" by (simp add: word_unat_eq_iff)
  then have "bit lsn n \<Longrightarrow> n < 24" by (metis bit_take_bit_iff)
  with n show "bit (lsn_of (dn # lsn_bytes lsn @ r)) n = bit lsn n"
    by (cases "n < 8"; cases "n < 16") (auto simp: lsn_of_def lsn_bytes_def bit_simps)
qed

lemma line_ok_sector [simp]:
  "line_ok (opened dn s) = line_ok s" "line_ok (set_image dn f s) = line_ok s"
  "line_ok (s\<lparr>input := es\<rparr>) = line_ok s"
  by (simp_all add: line_ok_def opened_def set_fp_def set_image_def split: option.splits)

lemma line_sectorD:
  "input (opened dn s) = input s" "trace (opened dn s) = trace s"
  "input (set_image dn f s) = input s" "trace (set_image dn f s) = trace s"
  by (simp_all add: opened_def set_fp_def set_image_def split: option.splits)

lemma ready_input [simp]: "ready dn f (s\<lparr>input := es\<rparr>) = ready dn f s"
  by (simp add: ready_def)

text \<open>
  A READ request for a sector of a ready drive is answered by the code 0, the 256 bytes of
  the sector (zeros past the end of the image) and their 16-bit checksum; the image stays as
  it was.
\<close>

lemma proto_read_ok:
  assumes "ready dn f s" and "line_ok s" and "unat lsn < 0x800000"
    and "avail (input s) = dn # lsn_bytes lsn @ r"
  shows "\<exists>t. proto_read s = Inr ((), t)
    \<and> sent (trace t) = sent (trace s) @ [0] @ sector_reply (sector_at f (256 * unat lsn))
    \<and> avail (input t) = r \<and> ready dn f t \<and> line_ok t
    \<and> isconst (drivedata t dn) = isconst (drivedata s dn)"
proof -
  let ?q = "dn # lsn_bytes lsn" and ?b = "sector_at f (256 * unat lsn)"
  from read2_got [of s ?q r 4] assms(4) obtain es where
    es: "read2 4 s = Inr (Some ?q, s\<lparr>input := es\<rparr>)" "avail es = r" by (auto simp: lsn_bytes_def)
  let ?s = "opened dn (s\<lparr>input := es\<rparr>)"
  have rd: "ready dn f (s\<lparr>input := es\<rparr>)" using assms(1) by simp
  have low: "low_lsn lsn" using assms(3) by (simp add: low_lsn_def)
  have l: "lsn_of ?q = lsn" using lsn_of_bytes [of lsn dn "[]"] assms(3) by simp
  have fs: "fetch_sector dn lsn (s\<lparr>input := es\<rparr>) = (0, ?b, ?s)"
    using fetch_sector_ready [OF rd low_offset(1) [OF low]] low_offset(2) [OF low] by simp
  have "line_ok ?s" using assms(2) by simp
  from write_ok [OF this, of "[0]"] obtain t1 where t1: "lwwire_write [0] ?s = Inr ((), t1)"
    "replied [0] ?s t1" by blast
  from write_ok [OF repliedD(1) [OF t1(2)], of "sector_reply ?b"] obtain t where
    t: "lwwire_write (sector_reply ?b) t1 = Inr ((), t)" "replied (sector_reply ?b) t1 t" by blast
  have "proto_read s = Inr ((), t)"
    using t(1) by (simp add: proto_read_def es l fs t1(1) sector_reply_def)
  moreover have "ready dn f ?s" by (rule opened_ready(2) [OF rd])
  ultimately show ?thesis
    using repliedD [OF t1(2)] repliedD [OF t(2)] es(2) opened_ready(3) [OF rd]
    by (simp add: line_sectorD)
qed

text \<open>
  A WRITE request with a correct checksum for a drive that may be written stores the 256
  bytes at the sector's offset and is answered by the code 0.
\<close>

lemma proto_write_ok:
  assumes "ready dn f s" and "\<not> isconst (drivedata s dn)" and "line_ok s"
    and "unat lsn < 0x800000" and "length b = 256"
    and "avail (input s) = dn # lsn_bytes lsn @ sector_reply b @ r"
  shows "\<exists>t. proto_write s = Inr ((), t) \<and> sent (trace t) = sent (trace s) @ [0]
    \<and> avail (input t) = r \<and> ready dn (pwrite (256 * unat lsn) b f) t \<and> line_ok t
    \<and> isconst (drivedata t dn) = isconst (drivedata s dn)"
proof -
  define q where "q = dn # lsn_bytes lsn @ sector_reply b"
  have lq: "length q = 262" using assms(5) by (simp add: q_def lsn_bytes_def sector_reply_def)
  from read2_got [of s q r 262] assms(6) lq q_def obtain es where
    es: "read2 262 s = Inr (Some q, s\<lparr>input := es\<rparr>)" "avail es = r" by auto
  have hd: "q ! 0 = dn" by (simp add: q_def)
  have rd: "ready dn f (s\<lparr>input := es\<rparr>)" using assms(1) by simp
  have low: "low_lsn lsn" using assms(4) by (simp add: low_lsn_def)
  have l: "lsn_of q = lsn" using lsn_of_bytes [of lsn dn] assms(4) by (simp add: q_def)
  have dat: "take 256 (drop 4 q) = b" using assms(5) by (simp add: q_def lsn_bytes_def sector_reply_def)
  have "q = (dn # lsn_bytes lsn @ b) @ [hi8 (checksum b), lo8 (checksum b)]"
    by (simp add: q_def sector_reply_def)
  moreover have "length (dn # lsn_bytes lsn @ b) = 260" using assms(5) by (simp add: lsn_bytes_def)
  ultimately have ck: "be16 (q ! 260) (q ! 261) = checksum b"
    by (simp only: nth_append) simp
  let ?s = "set_image dn (pwrite (256 * unat lsn) b f) (opened dn (s\<lparr>input := es\<rparr>))"
  have ss: "save_sector dn lsn b (s\<lparr>input := es\<rparr>) = (0, ?s)"
    using save_sector_ready [OF rd low_offset(1) [OF low] _ assms(5)] low_offset(2) [OF low] assms(2)
    by simp
  have "line_ok ?s" using assms(3) by simp
  from write_ok [OF this, of "[0]"] obtain t where t: "lwwire_write [0] ?s = Inr ((), t)"
    "replied [0] ?s t" by blast
  have "proto_write s = Inr ((), t)"
    using t(1) by (simp add: proto_write_def es Let_def dat ck l ss hd)
  moreover have "ready dn (pwrite (256 * unat lsn) b f) ?s"
    by (rule ready_set_image [OF opened_ready(2) [OF rd]])
  moreover have "isconst (drivedata ?s dn) = isconst (drivedata s dn)"
    using opened_ready(3) [OF rd] by (simp add: set_image_def split: option.splits)
  ultimately show ?thesis
    using repliedD [OF t(2)] es(2) by (simp add: line_sectorD)
qed

end
