(* ===== verification/Lwwire_Spec.thy ===== *)
theory Lwwire_Spec
  imports Lwwire
begin

text \<open>
  What the disk server promises its client, over whole requests: write then read, refused
  writes, the checksum handshake of READEX, the reset of the extensions, and the arguments.
\<close>

section \<open>Sessions\<close>

lemma main_loop_dispatch:
  assumes "avail (input s) = c # r"
    and "\<And>es. avail es = r \<Longrightarrow> \<exists>t. dispatch c (s\<lparr>input := es\<rparr>) = Inr ((), t) \<and> P t"
  shows "\<exists>t. main_loop s = main_loop t \<and> P t"
proof -
  from readdata_got [of s "[c]" r 1] assms(1) obtain es where
    es: "readdata 1 s = (1, [c], s\<lparr>input := es\<rparr>)" "avail es = r" by auto
  from assms(2) [OF es(2)] obtain t where t: "dispatch c (s\<lparr>input := es\<rparr>) = Inr ((), t)" "P t" by blast
  have "main_loop s = main_loop t" by (subst main_loop.simps) (simp add: es(1) t(1) del: One_nat_def)
  with t(2) show ?thesis by blast
qed

text \<open>C12:
  A client that writes a sector of a writable drive and then reads it gets back exactly the
  bytes it wrote, in the middle of any session and however the line splits the messages.
\<close>

theorem write_read_session:
  assumes "ready dn f s" and "\<not> isconst (drivedata s dn)" and "line_ok s"
    and "unat lsn < 0x800000" and "length b = 256"
    and "avail (input s) = 0x57 # dn # lsn_bytes lsn @ sector_reply b @ 0x52 # dn # lsn_bytes lsn @ r"
  shows "\<exists>t. main_loop s = main_loop t \<and> avail (input t) = r
    \<and> sent (trace t) = sent (trace s) @ [0] @ [0] @ sector_reply b
    \<and> ready dn (pwrite (256 * unat lsn) b f) t"
proof -
  let ?r = "0x52 # dn # lsn_bytes lsn @ r" and ?f = "pwrite (256 * unat lsn) b f"
  have w: "\<exists>t. dispatch 0x57 (s\<lparr>input := es\<rparr>) = Inr ((), t) \<and>
      (sent (trace t) = sent (trace s) @ [0] \<and> avail (input t) = ?r \<and> ready dn ?f t \<and> line_ok t)"
    if "avail es = dn # lsn_bytes lsn @ sector_reply b @ ?r" for es
    using proto_write_ok [of dn f "s\<lparr>input := es\<rparr>" lsn b ?r] assms(1-5) that
    by (simp add: dispatch_def) blast
  from main_loop_dispatch [OF assms(6) w] obtain t where
    t: "main_loop s = main_loop t" "sent (trace t) = sent (trace s) @ [0]" "avail (input t) = ?r"
      "ready dn ?f t" "line_ok t" by blast
  have r: "\<exists>u. dispatch 0x52 (t\<lparr>input := es\<rparr>) = Inr ((), u) \<and>
      (sent (trace u) = sent (trace t) @ [0] @ sector_reply b \<and> avail (input u) = r \<and> ready dn ?f u)"
    if "avail es = dn # lsn_bytes lsn @ r" for es
    using proto_read_ok [of dn ?f "t\<lparr>input := es\<rparr>" lsn r] assms(4,5) t(4,5) that
      sector_at_pwrite_same [OF assms(5), of "256 * unat lsn" f]
    by (simp add: dispatch_def) blast
  from main_loop_dispatch [OF t(3) r] obtain u where
    "main_loop t = main_loop u" "sent (trace u) = sent (trace t) @ [0] @ sector_reply b"
    "avail (input u) = r" "ready dn ?f u" by blast
  with t(1,2) show ?thesis by auto
qed

definition demo_drive :: drive where
  "demo_drive = \<lparr>path = Some ''disk'', fp = None, isconst = False\<rparr>"

definition demo_lw :: "inev list \<Rightarrow> unit lw" where
  "demo_lw es = \<lparr>drivedata = (\<lambda>_. \<lparr>path = None, fp = None, isconst = False\<rparr>)(1 := demo_drive),
     files = [''disk'' \<mapsto> [1, 2, 3]], denied = (\<lambda>_. False),
     exts = (\<lambda>_. \<lparr>enabled = 0, handler = None, disable = None, enable = None, ereset = None\<rparr>),
     xst = (), input = es, timedout = False, wscript = [Wrote 0, Wagain], sscript = [Sintr],
     frscript = [], fwscript = [], trace = [], prlog = [],
     clock = \<lparr>tm_year = 99, tm_mon = 0, tm_mday = 1, tm_hour = 0, tm_min = 0, tm_sec = 0\<rparr>\<rparr>"

lemma demo_lw_ok:
  "ready 1 [1, 2, 3] (demo_lw es)" "\<not> isconst (drivedata (demo_lw es) 1)" "line_ok (demo_lw es)"
  "input (demo_lw es) = es" "trace (demo_lw es) = []"
  by (simp_all add: ready_def demo_lw_def demo_drive_def line_ok_def)

lemma write_read_session_witness:
  "\<exists>t. main_loop (demo_lw [Data [0x57, 1], Again, Data (lsn_bytes 5 @ sector_reply (replicate 256 7)),
        Data (0x52 # 1 # lsn_bytes 5)]) = main_loop t \<and> avail (input t) = []
    \<and> sent (trace t) = [] @ [0] @ [0] @ sector_reply (replicate 256 7)
    \<and> ready 1 (pwrite 1280 (replicate 256 7) [1, 2, 3]) t"
  using write_read_session [of 1 "[1, 2, 3]" "demo_lw [Data [0x57, 1], Again,
      Data (lsn_bytes 5 @ sector_reply (replicate 256 7)), Data (0x52 # 1 # lsn_bytes 5)]"
      5 "replicate 256 7" "[]"]
  by (simp add: demo_lw_ok lsn_bytes_def sector_reply_def)

text \<open>C40:
  A READ request for a sector of a ready drive is answered by the code 0, the 256 bytes of
  the sector (zeros past the end of the image) and their 16-bit checksum; the image stays as
  it was and the rest of the input is left for the next request.
\<close>

theorem read_reply:
  assumes "ready dn f s" and "line_ok s" and "unat lsn < 0x800000"
    and "avail (input s) = dn # lsn_bytes lsn @ r"
  shows "\<exists>t. proto_read s = Inr ((), t)
    \<and> sent (trace t) = sent (trace s) @ [0] @ sector_reply (sector_at f (256 * unat lsn))
    \<and> avail (input t) = r \<and> ready dn f t"
  using proto_read_ok [OF assms] by blast

lemma read_reply_witness:
  "\<exists>t. proto_read (demo_lw [Data [1, 0, 0], Data [0]]) = Inr ((), t)
    \<and> sent (trace t) = [0] @ sector_reply ([1, 2, 3] @ replicate 253 0)"
proof -
  have "sector_at [1, 2, 3] 0 = [1, 2, 3] @ replicate 253 0" by (simp add: sector_at_def pread_def)
  with read_reply [OF demo_lw_ok(1,3), of 0 "[Data [1, 0, 0], Data [0]]" "[]"]
  show ?thesis by (auto simp: demo_lw_ok(4,5) lsn_bytes_def)
qed

text \<open>C29:
  Sectors are independent: after any writes of distinct sectors of a drive, each sector
  written reads back as what was written to it.
\<close>

theorem sectors_independent:
  fixes s :: "'x lw"
  assumes "ready dn f s" and "\<not> isconst (drivedata s dn)" and "distinct (map fst ws)"
    and "\<forall>(l, b) \<in> set ws. unat l < 0x800000 \<and> length b = 256" and "(l, b) \<in> set ws"
  shows "\<exists>t. fetch_sector dn l (fold (\<lambda>(l, b) s. snd (save_sector dn l b s)) ws s) = (0, b, t)"
proof -
  have "fold (\<lambda>(l, b) s. snd (save_sector dn l b s)) ws s =
      disk.wr_all dn (map (\<lambda>(l, b). (l, 0, b)) ws) s" for s :: "'x lw"
    by (induction ws arbitrary: s) (auto simp: wr_sector_def)
  moreover have "rd_sector dn (disk.wr_all dn (map (\<lambda>(l, b). (l, 0, b)) ws) s) l = (0, b)"
  proof (rule disk.rd_wr_all_distinct)
    show "disk_ok dn s" using assms(1,2) by (auto simp: disk_ok_def)
    show "\<forall>(k, b) \<in> set (map (\<lambda>(l, b). (l, 0, b)) ws). low_lsn k \<and> whole_sector b"
      using assms(4) by (auto simp: low_lsn_def whole_sector_def)
    have "map fst (map (\<lambda>(l, b). (l, 0 :: u8, b)) ws) = map fst ws" by (induction ws) auto
    with assms(3) show "distinct (map fst (map (\<lambda>(l, b). (l, 0 :: u8, b)) ws))" by (simp only:)
    show "(l, 0, b) \<in> set (map (\<lambda>(l, b). (l, 0, b)) ws)" using assms(5) by force
  qed
  ultimately show ?thesis by (auto simp: rd_sector_def split: prod.splits)
qed

lemma sectors_independent_witness:
  "\<exists>t. fetch_sector 1 2 (fold (\<lambda>(l, b) s. snd (save_sector 1 l b s))
     [(3, replicate 256 5), (2, replicate 256 6)] (demo_lw [])) = (0, replicate 256 6, t)"
  by (rule sectors_independent [OF demo_lw_ok(1,2)]) auto

section \<open>Refused writes and failed reads\<close>

text \<open>C13:
  A drive that was given as read-only is never written: whatever the client sends and however
  the line behaves, when the server ends, an image named by read-only drives only is as it
  was, and so is the access of every drive.
\<close>

theorem readonly_images_kept:
  assumes "readonly_path s p"
  shows "files (snd (main_loop s)) p = files s p
    \<and> isconst (drivedata (snd (main_loop s)) d) = isconst (drivedata s d)
    \<and> path (drivedata (snd (main_loop s)) d) = path (drivedata s d)"
  using guarded_main_loop [OF guarded_refl [of s]] assms by (simp add: guarded_def untouched_def)

lemma readonly_images_kept_witness:
  "files (snd (main_loop ((demo_lw [Data (0x57 # 1 # replicate 261 0)])\<lparr>drivedata :=
     \<lambda>_. demo_drive\<lparr>isconst := True\<rparr>\<rparr>))) ''disk'' = Some [1, 2, 3]"
  using readonly_images_kept [of "(demo_lw [Data (0x57 # 1 # replicate 261 0)])\<lparr>drivedata :=
     \<lambda>_. demo_drive\<lparr>isconst := True\<rparr>\<rparr>" "''disk''"]
  by (simp add: readonly_path_def demo_lw_def)

text \<open>
  A WRITE request whose checksum does not fit its 256 bytes is answered by F3 and changes no
  drive and no image.
\<close>

theorem write_bad_checksum:
  assumes "line_ok s" and "length b = 256" and "be16 h l \<noteq> checksum b"
    and "avail (input s) = dn # lsn_bytes lsn @ b @ [h, l] @ r"
  shows "\<exists>t. proto_write s = Inr ((), t) \<and> sent (trace t) = sent (trace s) @ [LWERR_CHECKSUM]
    \<and> files t = files s \<and> drivedata t = drivedata s \<and> avail (input t) = r"
proof -
  define q where "q = dn # lsn_bytes lsn @ b @ [h, l]"
  have lq: "length q = 262" using assms(2) by (simp add: q_def lsn_bytes_def)
  from read2_got [of s q r 262] assms(4) lq q_def obtain es where
    es: "read2 262 s = Inr (Some q, s\<lparr>input := es\<rparr>)" "avail es = r" by auto
  have dat: "take 256 (drop 4 q) = b" using assms(2) by (simp add: q_def lsn_bytes_def)
  have "q = (dn # lsn_bytes lsn @ b) @ [h, l]" by (simp add: q_def)
  moreover have "length (dn # lsn_bytes lsn @ b) = 260" using assms(2) by (simp add: lsn_bytes_def)
  ultimately have ck: "be16 (q ! 260) (q ! 261) = be16 h l" by (simp only: nth_append) simp
  from write_ok [of "s\<lparr>input := es\<rparr>" "[LWERR_CHECKSUM]"] assms(1) obtain t where
    t: "lwwire_write [LWERR_CHECKSUM] (s\<lparr>input := es\<rparr>) = Inr ((), t)"
      "replied [LWERR_CHECKSUM] (s\<lparr>input := es\<rparr>) t" by auto
  have "proto_write s = Inr ((), t)"
    using assms(3) t(1) by (simp add: proto_write_def es Let_def dat ck)
  with repliedD [OF t(2)] es(2) show ?thesis by simp
qed

lemma write_bad_checksum_witness:
  "\<exists>t. proto_write (demo_lw [Data (1 # lsn_bytes 0 @ replicate 256 1 @ [0, 0])]) = Inr ((), t)
    \<and> sent (trace t) = [LWERR_CHECKSUM] \<and> files t ''disk'' = Some [1, 2, 3]"
proof -
  have "checksum (replicate 256 1) = 256"
    by (simp add: checksum_def eval_nat_numeral)
  then have "be16 0 0 \<noteq> checksum (replicate 256 1)" by (simp add: be16_def)
  from write_bad_checksum [OF demo_lw_ok(3) _ this,
      of "[Data (1 # lsn_bytes 0 @ replicate 256 1 @ [0, 0])]" 1 0 "[]"]
  show ?thesis by (auto simp: demo_lw_ok(4,5) lsn_bytes_def) (auto simp: demo_lw_def)
qed

text \<open>
  Sectors from 800000 (hexadecimal) up, which the protocol's three address bytes can name,
  cannot be read: the offset of the sector is negative as a signed 32-bit number and the
  server answers F4.
\<close>

theorem high_sectors_unreadable:
  assumes "ready dn f s" and "0x800000 \<le> unat lsn" and "unat lsn < 0x1000000"
  shows "fetch_sector dn lsn s = (LWERR_READ, [], opened dn s)"
  using opened_ready(1) [OF assms(1)] offset_high [OF assms(2,3)] by (simp add: fetch_sector_def)

lemma high_sectors_unreadable_witness:
  "fetch_sector 1 0x800001 (demo_lw []) = (LWERR_READ, [], opened 1 (demo_lw []))"
  by (rule high_sectors_unreadable [OF demo_lw_ok(1)]) simp_all

text \<open>
  A read error on the image is not reported: the sector is delivered with code 0, the bytes
  that could not be read as zeros.
\<close>

theorem read_error_unreported:
  assumes "path (drivedata s dn) = Some p" and "fp (drivedata s dn) = Some False"
    and "unat lsn < 0x800000" and "frscript s = n # ns"
    and "n < length (pread (256 * unat lsn) 256 (disk_image dn s))"
  shows "\<exists>t. fetch_sector dn lsn s =
    (0, take n (pread (256 * unat lsn) 256 (disk_image dn s)) @ replicate (256 - n) 0, t)
    \<and> fp (drivedata t dn) = Some True"
proof -
  have low: "low_lsn lsn" using assms(3) by (simp add: low_lsn_def)
  have "fetch_drive_fp dn s = (Some False, s)" using assms(1,2) by (simp add: fetch_drive_fp_def)
  moreover have "\<not> offset lsn < 0" using low_offset(1) [OF low] by simp
  ultimately show ?thesis
    using assms(4,5) low_offset(2) [OF low]
    by (auto simp: fetch_sector_def fread256_def Let_def set_fp_def min_def)
qed

lemma read_error_unreported_witness:
  "\<exists>t. fetch_sector 1 0 ((opened 1 (demo_lw []))\<lparr>frscript := [1]\<rparr>) = (0, 1 # replicate 255 0, t)
    \<and> fp (drivedata t 1) = Some True"
  using read_error_unreported [of "(opened 1 (demo_lw []))\<lparr>frscript := [1]\<rparr>" 1 "''disk''" 0 1 "[]"]
  by (simp add: opened_def set_fp_def demo_lw_def demo_drive_def disk_image_def pread_def)

section \<open>READEX\<close>

text \<open>A channel that does not fail.\<close>

definition calm :: "inev list \<Rightarrow> bool" where
  "calm es \<longleftrightarrow> (\<forall>t. Fail t \<notin> set es)"

lemma read_loop_calm: "read_loop es n = (r, b, es') \<Longrightarrow> calm es \<Longrightarrow> calm es'"
  by (induction es n arbitrary: r b es' rule: read_loop.induct)
    (auto simp: calm_def split: if_splits prod.splits)

lemma read_loop_end: "calm es \<Longrightarrow> length (avail es) < n \<Longrightarrow> \<exists>b es'. read_loop es n = (End, b, es')"
proof (induction es n rule: read_loop.induct)
  case (3 d es n)
  show ?case
  proof (cases "length d < Suc n \<and> d \<noteq> []")
    case True
    with 3 have "\<exists>b es'. read_loop es (Suc n - length d) = (End, b, es')" by (auto simp: calm_def)
    with True show ?thesis by auto
  qed (cases "d = []"; use 3 in auto)
qed (auto simp: calm_def)

lemma readdata_calm: "readdata n s = (rv, b, t) \<Longrightarrow> calm (input s) \<Longrightarrow> calm (input t)"
  using read_loop_calm by (fastforce simp: readdata_def split: prod.splits rdres.splits)

lemma read2_calm: "read2 n s = Inr (Some b, t) \<Longrightarrow> calm (input s) \<Longrightarrow> calm (input t)"
  using readdata_calm by (fastforce simp: read2_def rbind_eq_Inr split: prod.splits if_splits)

lemma read2_end: "calm (input s) \<Longrightarrow> length (avail (input s)) < n \<Longrightarrow> \<exists>t. read2 n s = Inl (Exit 0, t) \<and> trace t = trace s"
  using read_loop_end [of "input s" n] by (auto simp: read2_def readdata_def)

lemma proto_readex_ok:
  assumes "ready dn f s" and "line_ok s" and "unat lsn < 0x800000"
    and "avail (input s) = dn # lsn_bytes lsn @ [h, l] @ r"
  shows "\<exists>t. proto_readex s = Inr ((), t) \<and> avail (input t) = r \<and> ready dn f t \<and> line_ok t \<and> (calm (input s) \<longrightarrow> calm (input t))
    \<and> sent (trace t) = sent (trace s) @ sector_at f (256 * unat lsn)
        @ [if be16 h l = checksum (sector_at f (256 * unat lsn)) then 0 else LWERR_CHECKSUM]"
proof -
  let ?q = "dn # lsn_bytes lsn" and ?b = "sector_at f (256 * unat lsn)"
  from read2_got [of s ?q "[h, l] @ r" 4] assms(4) obtain es where
    es: "read2 4 s = Inr (Some ?q, s\<lparr>input := es\<rparr>)" "avail es = [h, l] @ r"
    by (auto simp: lsn_bytes_def)
  let ?s = "opened dn (s\<lparr>input := es\<rparr>)"
  have rd: "ready dn f (s\<lparr>input := es\<rparr>)" using assms(1) by simp
  have low: "low_lsn lsn" using assms(3) by (simp add: low_lsn_def)
  have l: "lsn_of ?q = lsn" using lsn_of_bytes [of lsn dn "[]"] assms(3) by simp
  have fs: "fetch_sector dn lsn (s\<lparr>input := es\<rparr>) = (0, ?b, ?s)"
    using fetch_sector_ready [OF rd low_offset(1) [OF low]] low_offset(2) [OF low] by simp
  have "line_ok ?s" using assms(2) by simp
  from write_ok [OF this, of ?b] obtain t1 where t1: "lwwire_write ?b ?s = Inr ((), t1)"
    "replied ?b ?s t1" by blast
  note d1 = repliedD [OF t1(2)]
  have "avail (input t1) = [h, l] @ r" using d1(5) es(2) by (simp add: line_sectorD)
  from read2_got [OF this, of 2] obtain es2 where
    es2: "read2 2 t1 = Inr (Some [h, l], t1\<lparr>input := es2\<rparr>)" "avail es2 = r" by auto
  let ?e = "if be16 h l = checksum ?b then 0 else LWERR_CHECKSUM"
  from write_ok [of "t1\<lparr>input := es2\<rparr>" "[?e]"] d1(1) obtain t where
    t: "lwwire_write [?e] (t1\<lparr>input := es2\<rparr>) = Inr ((), t)" "replied [?e] (t1\<lparr>input := es2\<rparr>) t"
    by auto
  have "proto_readex s = Inr ((), t)"
    using t(1) by (simp add: proto_readex_def Let_def es l fs t1(1) es2 split: if_splits)
  moreover have "calm (input t)" if "calm (input s)"
  proof -
    from read2_calm [OF es(1) that] have "calm (input t1)" using d1(5) by (simp add: line_sectorD)
    from read2_calm [OF es2(1) this] show ?thesis using repliedD(5) [OF t(2)] by simp
  qed
  moreover have "ready dn f ?s" by (rule opened_ready(2) [OF rd])
  ultimately show ?thesis
    using repliedD [OF t(2)] d1 es2(2) by (simp add: line_sectorD)
qed

text \<open>
  READEX sends the sector first and its verdict after the client's checksum of it: the code
  is 0 if the client computed the same checksum, and F3 otherwise.
\<close>

theorem readex_handshake:
  assumes "ready dn f s" and "line_ok s" and "unat lsn < 0x800000"
    and "avail (input s) = dn # lsn_bytes lsn @ [h, l] @ r"
  shows "\<exists>t. proto_readex s = Inr ((), t) \<and> avail (input t) = r \<and> ready dn f t
    \<and> sent (trace t) = sent (trace s) @ sector_at f (256 * unat lsn)
        @ [if be16 h l = checksum (sector_at f (256 * unat lsn)) then 0 else LWERR_CHECKSUM]"
  using proto_readex_ok [OF assms] by blast

lemma readex_handshake_witness:
  "\<exists>t. proto_readex (demo_lw [Data [1, 0, 0, 0, 0, 6]]) = Inr ((), t)
    \<and> sent (trace t) = [1, 2, 3] @ replicate 253 0 @ [0]"
proof -
  have b: "sector_at [1, 2, 3] 0 = [1, 2, 3] @ replicate 253 0" by (simp add: sector_at_def pread_def)
  have "fold (\<lambda>c acc. acc + ucast c) (replicate k (0 :: u8)) v = (v :: u16)" for k v
    by (induction k) auto
  then have c: "checksum (sector_at [1, 2, 3] 0) = 6" by (simp add: checksum_def b)
  have "be16 0 6 = 6" by (simp add: be16_def)
  with readex_handshake [OF demo_lw_ok(1,3), of 0 "[Data [1, 0, 0, 0, 0, 6]]" 0 6 "[]"] c b
  show ?thesis by (auto simp: demo_lw_ok(4,5) lsn_bytes_def)
qed

section \<open>Errors and resets\<close>

definition resettable :: "'x lw \<Rightarrow> bool" where
  "resettable s \<longleftrightarrow> (\<forall>e. handler (exts s e) \<noteq> None \<longrightarrow> ereset (exts s e) \<noteq> None)"

lemma reset_one_ok:
  assumes "resettable s"
  shows "\<exists>t. reset_one e s = Inr ((), t) \<and> resettable t \<and> enabled (exts t e) = 0
    \<and> (\<forall>e'. enabled (exts s e') = 0 \<longrightarrow> enabled (exts t e') = 0) \<and> trace t = trace s \<and> disks t = disks s"
  using assms by (auto simp: reset_one_def resettable_def disks_def split: option.split)

lemma reset_from_ok:
  assumes "resettable s"
  shows "\<exists>t. reset_from i n s = Inr ((), t) \<and> resettable t
    \<and> (\<forall>k<n. enabled (exts t (of_nat (i + k))) = 0)
    \<and> (\<forall>e. enabled (exts s e) = 0 \<longrightarrow> enabled (exts t e) = 0) \<and> trace t = trace s \<and> disks t = disks s"
  using assms
proof (induction n arbitrary: i s)
  case (Suc n)
  from reset_one_ok [OF Suc.prems, of "of_nat i"] obtain s1 where
    s1: "reset_one (of_nat i) s = Inr ((), s1)" "resettable s1" "enabled (exts s1 (of_nat i)) = 0"
      "\<forall>e'. enabled (exts s e') = 0 \<longrightarrow> enabled (exts s1 e') = 0" "trace s1 = trace s" "disks s1 = disks s"
    by blast
  from Suc.IH [OF s1(2), of "Suc i"] obtain t where t: "reset_from (Suc i) n s1 = Inr ((), t)"
    "resettable t" "\<forall>k<n. enabled (exts t (of_nat (Suc i + k))) = 0"
    "\<forall>e. enabled (exts s1 e) = 0 \<longrightarrow> enabled (exts t e) = 0" "trace t = trace s1" "disks t = disks s1"
    by blast
  have "enabled (exts t (of_nat (i + k))) = 0" if "k < Suc n" for k
    using that s1(3) t(3,4) by (cases k) (auto simp: add_ac)
  with s1 t show ?case by auto
qed auto

lemma reset_ok:
  assumes "resettable s"
  shows "\<exists>t. reset s = Inr ((), t) \<and> (\<forall>e. enabled (exts t e) = 0) \<and> trace t = trace s \<and> disks t = disks s"
proof -
  from reset_from_ok [OF assms, of 0 256] obtain t where
    t: "reset_from 0 256 s = Inr ((), t)" "\<forall>k<256. enabled (exts t (of_nat k)) = 0"
      "trace t = trace s" "disks t = disks s"
    by auto
  have "enabled (exts t e) = 0" for e :: u8
    using t(2) [rule_format, OF unat_u8 [of e]] by simp
  with t show ?thesis by (auto simp: reset_def)
qed

text \<open>
  An unknown operation code is answered by silence of at least 1.1 seconds: no byte is sent,
  no drive or image changes, and afterwards all 256 extensions are disabled.
\<close>

theorem unknown_opcode_silence:
  assumes "resettable s" and "line_ok s"
    and "c \<notin> {0x00, 0x23, 0x46, 0x47, 0x49, 0x50, 0x52, 0x53, 0x54, 0x57, 0x5A, 0x72, 0x77,
      0xD2, 0xF0, 0xF1, 0xF2, 0xF3, 0xF8, 0xFE, 0xFF}"
  shows "\<exists>t. dispatch c s = Inr ((), t) \<and> trace t = trace s @ [Silence]
    \<and> (\<forall>e. enabled (exts t e) = 0) \<and> files t = files s \<and> drivedata t = drivedata s"
proof -
  from assms(2) sleep_loop_ok [of "sscript s"] obtain sl where
    sl: "sleep_loop (sscript s) = (True, sl)" by (auto simp: line_ok_def)
  have "resettable (s\<lparr>sscript := sl, trace := trace s @ [Silence]\<rparr>)"
    using assms(1) by (simp add: resettable_def)
  from reset_ok [OF this] obtain t where
    "reset (s\<lparr>sscript := sl, trace := trace s @ [Silence]\<rparr>) = Inr ((), t)"
    "\<forall>e. enabled (exts t e) = 0" "trace t = trace s @ [Silence]" "disks t = disks s"
    by (auto simp: disks_def)
  moreover have "dispatch c s = protoerror s"
    using assms(3) by (simp add: dispatch_def)
  ultimately show ?thesis by (simp add: protoerror_def sl disks_def)
qed

lemma unknown_opcode_silence_witness:
  "\<exists>t. dispatch 0x99 ((demo_lw [])\<lparr>exts := \<lambda>_. \<lparr>enabled = 1, handler = None, disable = None,
     enable = None, ereset = None\<rparr>\<rparr>) = Inr ((), t) \<and> trace t = [Silence] \<and> enabled (exts t 7) = 0"
  using unknown_opcode_silence [of "(demo_lw [])\<lparr>exts := \<lambda>_. \<lparr>enabled = 1, handler = None,
     disable = None, enable = None, ereset = None\<rparr>\<rparr>" "0x99"]
  by (auto simp: resettable_def demo_lw_ok line_ok_def demo_lw_def)

section \<open>Arguments\<close>

text \<open>A number of up to three decimal digits, as the parser accumulates it.\<close>

fun decimal :: "int \<Rightarrow> nat list \<Rightarrow> int" where
  "decimal a [] = a"
| "decimal a (d # ds) = decimal (a * 10 + int d) ds"

definition digit :: "nat \<Rightarrow> char" where
  "digit d = char_of (48 + d)"

lemma int16_small: "0 \<le> i \<Longrightarrow> i < 32768 \<Longrightarrow> int16 i = i"
  unfolding int16_def by (subst int_word_sint) simp

lemma of_char_digit: "d < 10 \<Longrightarrow> (of_char (digit d) :: nat) = 48 + d"
  by (simp add: digit_def)

lemma of_char_digit_int: "d < 10 \<Longrightarrow> (of_char (digit d) :: int) = 48 + int d"
proof -
  assume "d < 10"
  then have "int (of_char (digit d)) = 48 + int d" by (simp add: of_char_digit del: of_nat_of_char)
  then show ?thesis by (simp only: of_nat_of_char)
qed

lemma digit_range: "d < 10 \<Longrightarrow> CHR ''0'' \<le> digit d \<and> digit d \<le> CHR ''9''"
  by (simp add: less_eq_char_def of_char_digit)

lemma decimal_mono: "0 \<le> a \<Longrightarrow> a \<le> decimal a ds"
proof (induction ds arbitrary: a)
  case (Cons d ds)
  then have "a \<le> a * 10 + int d" by simp
  with Cons show ?case by (metis decimal.simps(2) order_trans)
qed simp

lemma number_decimal:
  assumes "0 \<le> a" and "decimal a ds < 32768" and "\<forall>d \<in> set ds. d < 10"
  shows "number a (map digit ds @ CHR '','' # p) = (decimal a ds, CHR '','' # p)"
  using assms
proof (induction ds arbitrary: a)
  case (Cons d ds)
  have "a * 10 + int d \<le> decimal (a * 10 + int d) ds" using Cons.prems by (intro decimal_mono) simp
  with Cons.prems have "int16 (a * 10 + int d) = a * 10 + int d" by (intro int16_small) simp_all
  with Cons show ?case using digit_range [of d] by (simp add: of_char_digit_int)
qed (simp add: less_eq_char_def)

text \<open>
  An argument \<open>drive=N,PATH\<close> with a decimal N of at most 255 gives drive N the image PATH, for
  reading and writing.
\<close>

theorem drive_argument:
  assumes "\<forall>d \<in> set ds. d < 10" and "decimal 0 ds \<le> 255"
  shows "use_arg (''drive='' @ map digit ds @ '','' @ p) s = Inr ((), s\<lparr>drivedata := (drivedata s)
     (word_of_int (decimal 0 ds) := (drivedata s (word_of_int (decimal 0 ds)))\<lparr>path := Some p, isconst := False\<rparr>)\<rparr>)"
proof -
  have n: "number 0 (map digit ds @ CHR '','' # p) = (decimal 0 ds, CHR '','' # p)"
    using assms by (intro number_decimal) simp_all
  have c: "\<not> (map digit ds @ CHR '','' # p \<noteq> [] \<and> hd (map digit ds @ CHR '','' # p) = CHR ''C'')"
  proof (cases ds)
    case (Cons d ds')
    have "digit d \<noteq> CHR ''C''"
    proof
      assume "digit d = CHR ''C''"
      then have "(of_char (digit d) :: nat) = of_char (CHR ''C'')" by simp
      then show False using of_char_digit [of d] assms(1) Cons by simp
    qed
    with Cons show ?thesis by simp
  qed simp
  have "parse_arg (''drive='' @ map digit ds @ '','' @ p) = Drive (decimal 0 ds) False p"
    using n c assms(2) by (simp add: parse_arg_def Let_def)
  moreover have "0 \<le> decimal 0 ds" by (rule decimal_mono) simp
  ultimately show ?thesis by (simp add: use_arg_def)
qed

lemma drive_argument_witness:
  "path (drivedata (final (use_arg ''drive=12,a.dsk'' (demo_lw []))) 12) = Some ''a.dsk''"
proof -
  have d: "''drive=12,a.dsk'' = ''drive='' @ map digit [1, 2] @ '','' @ ''a.dsk''"
    by code_simp
  show ?thesis
    unfolding d by (subst drive_argument) simp_all
qed

text \<open>
  The drive number is checked against 255 only after it has wrapped around in 16 bits:
  \<open>drive=40000,x\<close> passes the check as -25536 and writes outside the drive table.
\<close>

theorem drive_argument_wraps:
  "parse_arg ''drive=40000,x'' = Drive (-25536) False ''x''
   \<and> use_arg ''drive=40000,x'' s = Inl (Out_of_bounds, s)"
proof -
  have "parse_arg ''drive=40000,x'' = Drive (-25536) False ''x''" by code_simp
  then show ?thesis by (simp add: use_arg_def)
qed

end
