(* ===== verification/Decb.thy ===== *)
theory Decb
  imports Prelude "HOL-Library.Monad_Syntax"
begin

text \<open>
  \<open>decb/decb.c\<close>, the tool that reads and writes Disk Extended Color BASIC disk images: the
  directory scan, the granule table with its chains, the host files, and the commands mkfs,
  ls, get, put, rm, putboot, getboot, map and label.  One run of the program executes one
  command on a fresh state.  The state holds the host's files by name (the disk image is one
  of them) and assumes that writing to an open file succeeds.
\<close>

section \<open>State\<close>

abbreviation SECZ :: nat where "SECZ \<equiv> 256"
abbreviation GRANZ :: nat where "GRANZ \<equiv> 2304"
abbreviation FATZ :: nat where "FATZ \<equiv> 68"
abbreviation FATST :: nat where "FATST \<equiv> 78592"
abbreviation DIRST :: nat where "DIRST \<equiv> 78848"
abbreviation LABEL :: nat where "LABEL \<equiv> 82432"

record dirent =
  name :: bytes
  ext :: bytes
  type :: u8
  aflag :: u8
  first :: u8
  rem0 :: u8
  rem1 :: u8
  unused :: bytes

text \<open>The 32 bytes of a directory entry, which the code also compares and copies as bytes.\<close>

definition entry_bytes :: "dirent \<Rightarrow> bytes" where
  "entry_bytes e = name e @ ext e @ [type e, aflag e, first e, rem0 e, rem1 e] @ unused e"

definition bytes_entry :: "bytes \<Rightarrow> dirent" where
  "bytes_entry b = \<lparr>name = take 8 b, ext = take 3 (drop 8 b), type = b ! 11, aflag = b ! 12,
     first = b ! 13, rem0 = b ! 14, rem1 = b ! 15, unused = take 16 (drop 16 b)\<rparr>"

text \<open>What the commands print.\<close>

datatype cell = Protected | Free_gran | Next u8

datatype item =
    Label_line bytes
  | File_line bytes bytes u8 bool nat u8
  | Total_line nat nat
  | Map_line nat "cell list"

record decb =
  files :: "string \<Rightarrow> bytes option"
  denied :: "string \<Rightarrow> bool"
  img :: string
  pos :: nat
  entry :: dirent
  entry_off :: nat
  fat :: bytes
  buf :: bytes
  estate :: nat
  count :: nat
  deftype :: u8
  defaflag :: u8
  trans :: bool
  mbr :: bool
  boot :: bool
  offset :: int
  out :: "item list"

text \<open>
  The ways to stop: a system call failed, one of the program's own complaints, or a memory
  access outside an array.
\<close>

datatype fail = Perror | Not_big_enough | Not_found | File_exists | No_dirents | No_granules | Fault

type_synonym 'a dres = "(fail \<times> decb) + ('a \<times> decb)"

section \<open>Files\<close>

definition content :: "decb \<Rightarrow> bytes" where
  "content s = (case files s (img s) of None \<Rightarrow> [] | Some f \<Rightarrow> f)"

definition dlseek :: "int \<Rightarrow> decb \<Rightarrow> unit dres" where
  "dlseek o' s = (if o' < 0 then Inl (Perror, s) else Inr ((), s\<lparr>pos := nat o'\<rparr>))"

definition fdread :: "nat \<Rightarrow> decb \<Rightarrow> bytes \<times> decb" where
  "fdread n s = (let b = pread (pos s) n (content s) in (b, s\<lparr>pos := pos s + length b\<rparr>))"

definition fdwrite :: "bytes \<Rightarrow> decb \<Rightarrow> decb" where
  "fdwrite b s = s\<lparr>files := (files s)(img s := Some (pwrite (pos s) b (content s))),
     pos := pos s + length b\<rparr>"

text \<open>\<open>read(fd, buf, n)\<close>: the bytes read replace the start of the scratch buffer.\<close>

definition into_buf :: "bytes \<Rightarrow> decb \<Rightarrow> decb" where
  "into_buf b s = s\<lparr>buf := b @ drop (length b) (buf s)\<rparr>"

definition open_read :: "string \<Rightarrow> decb \<Rightarrow> bytes dres" where
  "open_read p s = (case files s p of
       Some f \<Rightarrow> if denied s p then Inl (Perror, s) else Inr (f, s)
     | None \<Rightarrow> Inl (Perror, s))"

definition open_create :: "string \<Rightarrow> bool \<Rightarrow> decb \<Rightarrow> unit dres" where
  "open_create p trunc s =
     (if denied s p then Inl (Perror, s)
      else if files s p = None \<or> trunc then Inr ((), s\<lparr>files := (files s)(p := Some [])\<rparr>)
      else Inr ((), s))"

section \<open>Directory and granule table\<close>

definition saveentry :: "decb \<Rightarrow> unit dres" where
  "saveentry s = rbind (dlseek (int (entry_off s)) s) (\<lambda>(_, s1). Inr ((), fdwrite (entry_bytes (entry s1)) s1))"

text \<open>\<open>getentry\<close> reads the next entry; the 73rd call of a scan returns 0 and ends it.\<close>

definition getentry :: "decb \<Rightarrow> bool dres" where
  "getentry s =
     rbind (if estate s = 0
            then rbind (dlseek (int DIRST + offset s) s) (\<lambda>(_, s1). Inr ((), s1\<lparr>estate := 1, count := 0\<rparr>))
            else Inr ((), s))
       (\<lambda>(_, s1). case fdread 32 (s1\<lparr>entry_off := pos s1\<rparr>) of (b, s2) \<Rightarrow>
          if length b \<noteq> 32 then Inl (Perror, s2)
          else let s3 = s2\<lparr>entry := bytes_entry b, count := count s2 + 1\<rparr>
               in if 72 < count s3 then Inr (False, s3\<lparr>estate := 0\<rparr>) else Inr (True, s3))"

definition seekfat :: "decb \<Rightarrow> unit dres" where
  "seekfat s = dlseek (int FATST + offset s) s"

definition loadfat :: "decb \<Rightarrow> unit dres" where
  "loadfat s = rbind (seekfat s) (\<lambda>(_, s1). case fdread FATZ s1 of (b, s2) \<Rightarrow>
     if b = [] then Inl (Not_big_enough, s2)
     else if length b \<noteq> FATZ then Inl (Perror, s2)
     else Inr ((), s2\<lparr>fat := b\<rparr>))"

definition savefat :: "decb \<Rightarrow> unit dres" where
  "savefat s = rbind (seekfat s) (\<lambda>(_, s1). Inr ((), fdwrite (fat s1) s1))"

text \<open>
  \<open>stringconv\<close>: the name goes byte by byte to a pointer that starts at the buffer and jumps
  to position 8 at every dot; \<open>None\<close> is a write behind the buffer.
\<close>

fun conv_loop :: "bytes \<Rightarrow> nat \<Rightarrow> bytes \<Rightarrow> bytes option" where
  "conv_loop [] d b = Some b"
| "conv_loop (c # cs) d b =
     (if c = 0x2e then conv_loop cs 8 b
      else if d < length b then conv_loop cs (d + 1) (b[d := c]) else None)"

definition c_string :: "string \<Rightarrow> bytes" where
  "c_string n = map of_char n"

definition stringconv :: "string \<Rightarrow> decb \<Rightarrow> unit dres" where
  "stringconv n s =
     (case conv_loop (c_string n) 0 (replicate 11 0x20 @ drop 11 (buf s)) of
        None \<Rightarrow> Inl (Fault, s)
      | Some b \<Rightarrow> Inr ((), s\<lparr>buf := b\<rparr>))"

text \<open>The scans over the directory stop after at most 72 entries.\<close>

lemma getentry_True:
  "getentry s = Inr (True, s') \<Longrightarrow> (if estate s = 0 then 0 else count s) < count s' \<and> count s' \<le> 72 \<and> estate s' \<noteq> 0"
  by (auto simp: getentry_def res_simps dlseek_def fdread_def Let_def split: if_splits)

function find_loop :: "decb \<Rightarrow> bool dres" where
  "find_loop s = rbind (getentry s) (\<lambda>(r, s1).
     if \<not> r then Inr (False, s1)
     else if name (entry s1) ! 0 = 0xff then Inr (False, s1)
     else if take 11 (entry_bytes (entry s1)) = take 11 (buf s1) then Inr (True, s1)
     else find_loop s1)"
  by pat_completeness auto
termination
  by (relation "measure (\<lambda>s. if estate s = 0 then 73 else 73 - count s)")
    (auto dest: getentry_True split: if_splits)

declare find_loop.simps [simp del]

definition find_file :: "string \<Rightarrow> decb \<Rightarrow> bool dres" where
  "find_file n s = rbind (stringconv n s) (\<lambda>(_, s1). find_loop s1)"

definition findgran :: "decb \<Rightarrow> int \<times> decb" where
  "findgran s = (case List.find (\<lambda>x. fat s ! x = 0xff) [0..<FATZ] of
       None \<Rightarrow> (-1, s)
     | Some x \<Rightarrow> (int x, s\<lparr>fat := (fat s)[x := 0xc0]\<rparr>))"

definition gran_pos :: "nat \<Rightarrow> nat" where
  "gran_pos g = GRANZ * (if 33 < g then g + 2 else g)"

definition seekgran :: "nat \<Rightarrow> decb \<Rightarrow> unit dres" where
  "seekgran g s = dlseek (int (gran_pos g) + offset s) s"

definition loadgran :: "nat \<Rightarrow> decb \<Rightarrow> unit dres" where
  "loadgran g s = rbind (seekgran g s) (\<lambda>(_, s1). case fdread GRANZ s1 of (b, s2) \<Rightarrow>
     if b = [] then Inl (Not_big_enough, s2)
     else if length b \<noteq> GRANZ then Inl (Perror, into_buf b s2)
     else Inr ((), into_buf b s2))"

definition openimg :: "string \<Rightarrow> decb \<Rightarrow> unit dres" where
  "openimg n s = rbind (open_read n s) (\<lambda>(_, s1). loadfat (s1\<lparr>img := n, pos := 0\<rparr>))"

text \<open>A byte that ends a chain: its two top bits are set.\<close>

definition last_gran :: "u8 \<Rightarrow> bool" where
  "last_gran c \<longleftrightarrow> c AND 0xc0 = 0xc0"

text \<open>\<open>delchain\<close> ends because it frees every granule it passes.\<close>

function delchain :: "u8 \<Rightarrow> bytes \<Rightarrow> bytes option" where
  "delchain g f =
     (if last_gran g then Some f
      else if length f \<le> unat g then None
      else delchain (f ! unat g) (f[unat g := 0xff]))"
  by pat_completeness auto
termination
proof (relation "measure (\<lambda>(g, f). 2 * (length f - count_list f 0xff) + (if last_gran g then 0 else 1))")
  fix g :: u8 and f :: bytes
  assume a: "\<not> last_gran g" "\<not> length f \<le> unat g"
  then have l: "unat g < length f" by simp
  have ff: "last_gran 0xff" by (simp add: last_gran_def)
  show "((f ! unat g, f[unat g := 0xff]), g, f)
    \<in> measure (\<lambda>(g, f). 2 * (length f - count_list f 0xff) + (if last_gran g then 0 else 1))"
  proof (cases "f ! unat g = 0xff")
    case True
    then have "f[unat g := 0xff] = f" by (metis list_update_id)
    with True ff a show ?thesis by simp
  next
    case False
    with l have "count_list (f[unat g := 0xff]) 0xff = Suc (count_list f 0xff)"
      by (simp add: count_list_update)
    moreover have "Suc (count_list f 0xff) \<le> length f"
      using calculation count_list_le [of "f[unat g := 0xff]" "0xff"] by simp
    ultimately show ?thesis using a by auto
  qed
qed simp

declare delchain.simps [simp del]

text \<open>\<open>countchain\<close> does not free what it passes, and does not end on a cycle.\<close>

partial_function (option) countchain :: "u8 \<Rightarrow> bytes \<Rightarrow> nat option option" where
  "countchain g f =
     (if last_gran g then Some (Some 0)
      else if length f \<le> unat g then Some None
      else do { r \<leftarrow> countchain (f ! unat g) f; Some (map_option Suc r) })"

definition granfree :: "bytes \<Rightarrow> nat" where
  "granfree f = count_list f 0xff"

definition nl2cr :: "decb \<Rightarrow> decb" where
  "nl2cr s = s\<lparr>buf := map (\<lambda>c. if c = 0x0a then 0x0d else c) (buf s)\<rparr>"

definition cr2nl :: "decb \<Rightarrow> decb" where
  "cr2nl s = s\<lparr>buf := map (\<lambda>c. if c = 0x0d then 0x0a else c) (buf s)\<rparr>"

section \<open>Commands\<close>

definition mkfs_write :: "decb \<Rightarrow> decb" where
  "mkfs_write s = fdwrite (take GRANZ (buf s)) s"

definition mkfs :: "string \<Rightarrow> decb \<Rightarrow> unit dres" where
  "mkfs n s0 =
     (let s = s0\<lparr>buf := replicate GRANZ 0xff\<rparr>
      in rbind (open_create n False s) (\<lambda>(_, s1).
         rbind (dlseek (offset s1) (s1\<lparr>img := n\<rparr>)) (\<lambda>(_, s2).
         rbind (loadfat ((mkfs_write ^^ 70) s2)) (\<lambda>(_, s3).
           let f1 = (if mbr s3 then (fat s3)[0 := 0xc0] else fat s3);
               f2 = (if boot s3 then f1[66 := 0xc0, 67 := 0xc0] else f1)
           in savefat (s3\<lparr>fat := f2\<rparr>)))))"

definition print :: "item \<Rightarrow> decb \<Rightarrow> decb" where
  "print i s = s\<lparr>out := out s @ [i]\<rparr>"

text \<open>\<open>printf("%s")\<close> of a field prints up to its first zero byte.\<close>

definition c_chars :: "bytes \<Rightarrow> bytes" where
  "c_chars b = takeWhile (\<lambda>c. c \<noteq> 0) b"

text \<open>\<open>getstring\<close> copies a field to the scratch buffer and ends it with a zero.\<close>

definition getstring :: "bytes \<Rightarrow> decb \<Rightarrow> bytes \<times> decb" where
  "getstring p s = (c_chars p, into_buf (p @ [0]) s)"

text \<open>\<open>None\<close> is a listing that does not end.\<close>

partial_function (option) list_loop :: "nat \<Rightarrow> decb \<Rightarrow> nat dres option" where
  "list_loop no s =
     (case getentry s of
        Inl e \<Rightarrow> Some (Inl e)
      | Inr (r, s1) \<Rightarrow>
          if \<not> r \<or> name (entry s1) ! 0 = 0xff then Some (Inr (no, s1))
          else if name (entry s1) ! 0 = 0 then list_loop no s1
          else case getstring (name (entry s1)) s1 of (n, s2) \<Rightarrow>
            case getstring (ext (entry s1)) s2 of (x, s3) \<Rightarrow> do {
              c \<leftarrow> countchain (first (entry s3)) (fat s3);
              case c of
                None \<Rightarrow> Some (Inl (Fault, s3))
              | Some k \<Rightarrow> list_loop (no + 1) (print (File_line n x (type (entry s3))
                  (aflag (entry s3) \<noteq> 0) k (first (entry s3))) s3) })"

definition list_files :: "string \<Rightarrow> decb \<Rightarrow> unit dres option" where
  "list_files n s =
     (case rbind (openimg n s) (\<lambda>(_, s1). dlseek (int LABEL + offset s1) s1) of
        Inl e \<Rightarrow> Some (Inl e)
      | Inr (_, s1) \<Rightarrow>
          case fdread 256 s1 of (b, s2) \<Rightarrow>
            let s3 = into_buf b s2;
                s4 = (if buf s3 ! 0 \<noteq> 0 \<and> buf s3 ! 0 \<noteq> 0xff
                      then print (Label_line (c_chars (buf s3))) s3 else s3)
            in do {
              r \<leftarrow> list_loop 0 s4;
              case r of
                Inl e \<Rightarrow> Some (Inl e)
              | Inr (no, s5) \<Rightarrow> Some (Inr ((), print (Total_line no (granfree (fat s5))) s5)) })"

text \<open>
  \<open>get\<close>: the size of a chain's last granule is computed in a 16-bit \<open>int\<close>; a negative count
  makes the \<open>write\<close> fail, a count beyond the buffer reads behind it.
\<close>

definition last_size :: "u8 \<Rightarrow> dirent \<Rightarrow> int" where
  "last_size c e = int16 ((uint (c AND 0x3f) - 1) * 256 + sint (be16 (rem0 e) 0) + uint (rem1 e))"

definition append_file :: "string \<Rightarrow> bytes \<Rightarrow> decb \<Rightarrow> decb" where
  "append_file p b s =
     s\<lparr>files := (files s)(p := Some ((case files s p of None \<Rightarrow> [] | Some f \<Rightarrow> f) @ b))\<rparr>"

partial_function (option) get_loop :: "string \<Rightarrow> u8 \<Rightarrow> decb \<Rightarrow> unit dres option" where
  "get_loop dst g s =
     (if length (fat s) \<le> unat g then Some (Inl (Fault, s))
      else let c = fat s ! unat g;
               size = (if last_gran c then last_size c (entry s) else int GRANZ)
           in case loadgran (unat (g AND 0x7f)) s of
                Inl e \<Rightarrow> Some (Inl e)
              | Inr (_, s1) \<Rightarrow>
                  let s2 = (if trans s1 then cr2nl s1 else s1)
                  in if size < 0 then Some (Inl (Perror, s2))
                     else if int (length (buf s2)) < size then Some (Inl (Fault, s2))
                     else let s3 = append_file dst (take (nat size) (buf s2)) s2
                          in if size = int GRANZ then get_loop dst (fat s3 ! unat g) s3
                             else Some (Inr ((), s3)))"

definition get :: "string \<Rightarrow> string \<Rightarrow> string \<Rightarrow> decb \<Rightarrow> unit dres option" where
  "get n src dst s =
     (case rbind (openimg n s) (\<lambda>(_, s1). rbind (find_file src s1) (\<lambda>(r, s2).
             if \<not> r then Inl (Not_found, s2) else open_create dst True s2)) of
        Inl e \<Rightarrow> Some (Inl e)
      | Inr (_, s3) \<Rightarrow> get_loop dst (first (entry s3)) s3)"

text \<open>
  \<open>put\<close>: the granule number is an \<open>int\<close>, but \<open>entry.first\<close> and the table's entries, through
  which the result of \<open>findgran\<close> passes, are bytes without sign; so -1 arrives as 255.
\<close>

definition put_piece :: "nat \<Rightarrow> bytes \<Rightarrow> decb \<Rightarrow> unit dres" where
  "put_piece x b s =
     (let s1 = into_buf b s; s2 = (if trans s1 then nl2cr s1 else s1)
      in rbind (seekgran x s2) (\<lambda>(_, s3). Inr ((), fdwrite (take (length b) (buf s3)) s3)))"

function put_loop :: "bytes \<Rightarrow> nat \<Rightarrow> decb \<Rightarrow> (nat \<times> nat) dres" where
  "put_loop src x s =
     rbind (put_piece x (take GRANZ src) s) (\<lambda>(_, s1).
       if length src < GRANZ then Inr ((x, length src), s1)
       else case findgran s1 of (r, s2) \<Rightarrow>
         if length (fat s2) \<le> x then Inl (Fault, s2)
         else let y = word_of_int r :: u8
              in put_loop (drop GRANZ src) (unat y) (s2\<lparr>fat := (fat s2)[x := y]\<rparr>))"
  by pat_completeness auto
termination
  by (relation "measure (\<lambda>(src, x, s). length src)") auto

declare put_loop.simps [simp del]

function free_entry_loop :: "decb \<Rightarrow> unit dres" where
  "free_entry_loop s = rbind (getentry s) (\<lambda>(r, s1).
     if \<not> r then Inl (No_dirents, s1)
     else if name (entry s1) ! 0 = 0 \<or> name (entry s1) ! 0 = 0xff then Inr ((), s1)
     else free_entry_loop s1)"
  by pat_completeness auto
termination
  by (relation "measure (\<lambda>s. if estate s = 0 then 73 else 73 - count s)")
    (auto dest: getentry_True split: if_splits)

declare free_entry_loop.simps [simp del]

text \<open>The end of \<open>put\<close>: the last granule's table entry, the directory entry, and both to disk.\<close>

definition put_finish :: "string \<Rightarrow> nat \<Rightarrow> nat \<Rightarrow> decb \<Rightarrow> unit dres" where
  "put_finish dst x sz s =
     (if length (fat s) \<le> x then Inl (Fault, s)
      else
        let s1 = s\<lparr>entry := (entry s)\<lparr>rem0 := word_of_nat (sz mod SECZ div 256),
                     rem1 := word_of_nat (sz mod SECZ)\<rparr>,
                   fat := (fat s)[x := 0xc0 OR word_of_nat ((sz + 255) div SECZ)]\<rparr>
        in rbind (stringconv dst s1) (\<lambda>(_, s2).
          let e = (entry s2)\<lparr>name := take 8 (buf s2), ext := take 3 (drop 8 (buf s2)),
                    type := deftype s2, aflag := defaflag s2\<rparr>
          in rbind (saveentry (s2\<lparr>entry := e\<rparr>)) (\<lambda>(_, s3). savefat s3)))"

definition put :: "string \<Rightarrow> string \<Rightarrow> string \<Rightarrow> decb \<Rightarrow> unit dres" where
  "put n src dst s =
     rbind (openimg n s) (\<lambda>(_, s1).
     rbind (find_file dst s1) (\<lambda>(r, s2).
       if r then Inl (File_exists, s2)
       else rbind (free_entry_loop (s2\<lparr>estate := 0\<rparr>)) (\<lambda>(_, s3).
         rbind (open_read src s3) (\<lambda>(c, s4).
           case findgran s4 of (g, s5) \<Rightarrow>
             let y = word_of_int g :: u8; s6 = s5\<lparr>entry := (entry s5)\<lparr>first := y\<rparr>\<rparr>
             in rbind (put_loop c (unat y) s6) (\<lambda>((x, sz), s7). put_finish dst x sz s7)))))"

definition rm :: "string \<Rightarrow> string \<Rightarrow> decb \<Rightarrow> unit dres" where
  "rm n nm s =
     rbind (openimg n s) (\<lambda>(_, s1).
     rbind (find_file nm s1) (\<lambda>(r, s2).
       if \<not> r then Inl (Not_found, s2)
       else case delchain (first (entry s2)) (fat s2) of
           None \<Rightarrow> Inl (Fault, s2)
         | Some f \<Rightarrow>
             let s3 = s2\<lparr>fat := f, entry := (entry s2)\<lparr>name := (name (entry s2))[0 := 0]\<rparr>\<rparr>
             in rbind (savefat s3) (\<lambda>(_, s4). saveentry s4)))"

text \<open>
  \<open>putboot\<close> walks every file's chain (and complains when one uses the boot track, but goes
  on); \<open>None\<close> is a walk along a cycle.
\<close>

partial_function (option) walk :: "u8 \<Rightarrow> bytes \<Rightarrow> bool option" where
  "walk x f =
     (if last_gran x then Some True
      else if length f \<le> unat x then Some False
      else walk (f ! unat x) f)"

partial_function (option) putb_scan :: "decb \<Rightarrow> unit dres option" where
  "putb_scan s =
     (case getentry s of
        Inl e \<Rightarrow> Some (Inl e)
      | Inr (r, s1) \<Rightarrow>
          if \<not> r \<or> name (entry s1) ! 0 = 0xff then Some (Inr ((), s1))
          else if name (entry s1) ! 0 = 0 then putb_scan s1
          else do {
            ok \<leftarrow> walk (first (entry s1)) (fat s1);
            if ok then putb_scan s1 else Some (Inl (Fault, s1)) })"

definition put_gran :: "nat \<Rightarrow> bytes \<Rightarrow> decb \<Rightarrow> unit dres" where
  "put_gran x b s = rbind (seekgran x (into_buf b s)) (\<lambda>(_, s1). Inr ((), fdwrite b s1))"

definition putb :: "string \<Rightarrow> string \<Rightarrow> decb \<Rightarrow> unit dres option" where
  "putb n src s =
     (case openimg n s of
        Inl e \<Rightarrow> Some (Inl e)
      | Inr (_, s1) \<Rightarrow> do {
          r \<leftarrow> putb_scan s1;
          Some (rbind r (\<lambda>(_, s2). rbind (open_read src s2) (\<lambda>(c, s3).
            rbind (put_gran 66 (take GRANZ c) s3) (\<lambda>(_, s4).
            rbind (put_gran 67 (take GRANZ (drop GRANZ c)) s4) (\<lambda>(_, s5).
              savefat (s5\<lparr>fat := (fat s5)[66 := 0xc0, 67 := 0xc0]\<rparr>)))))) })"

definition get_gran :: "string \<Rightarrow> nat \<Rightarrow> nat \<Rightarrow> decb \<Rightarrow> unit dres" where
  "get_gran dst off x s = rbind (seekgran x s) (\<lambda>(_, s1). case fdread GRANZ s1 of (b, s2) \<Rightarrow>
     if length b < GRANZ then Inl (Perror, into_buf b s2)
     else let s3 = into_buf b s2
          in Inr ((), s3\<lparr>files := (files s3)(dst := Some (pwrite off b
               (case files s3 dst of None \<Rightarrow> [] | Some f \<Rightarrow> f)))\<rparr>))"

definition getb :: "string \<Rightarrow> string \<Rightarrow> decb \<Rightarrow> unit dres" where
  "getb n dst s =
     rbind (openimg n s) (\<lambda>(_, s1). rbind (open_create dst False s1) (\<lambda>(_, s2).
       rbind (get_gran dst 0 66 s2) (\<lambda>(_, s3). get_gran dst GRANZ 67 s3)))"

definition fat_cell :: "u8 \<Rightarrow> cell" where
  "fat_cell c = (if c = 0xc0 then Protected else if c = 0xff then Free_gran else Next c)"

definition map_fat :: "string \<Rightarrow> decb \<Rightarrow> unit dres" where
  "map_fat n s = rbind (openimg n s) (\<lambda>(_, s1).
     Inr ((), s1\<lparr>out := out s1 @ map (\<lambda>i. Map_line (i div 2) (map fat_cell (take 8 (drop (8 * i) (fat s1)))))
       [0..<(FATZ + 7) div 8]\<rparr>))"

definition label :: "string \<Rightarrow> string \<Rightarrow> decb \<Rightarrow> unit dres" where
  "label n l s =
     rbind (openimg n s) (\<lambda>(_, s1). rbind (dlseek (int LABEL + offset s1) s1) (\<lambda>(_, s2).
       let b = take 255 (c_string l) @ replicate (SECZ - length (take 255 (c_string l))) 0
       in Inr ((), fdwrite b (into_buf b s2))))"

section \<open>The program\<close>

datatype opt = Opt_a | Opt_b | Opt_type u8 | Opt_l | Opt_m | Opt_p | Opt_o int | Opt_v int

text \<open>The number of \<open>-o\<close> or \<open>-v\<close> is what \<open>strtol\<close> returns; a \<open>long\<close> has 32 bits.\<close>

definition set_opt :: "opt \<Rightarrow> decb \<Rightarrow> decb" where
  "set_opt o' s = (case o' of
       Opt_a \<Rightarrow> s\<lparr>defaflag := 0xff\<rparr>
     | Opt_b \<Rightarrow> s\<lparr>defaflag := 0\<rparr>
     | Opt_type t \<Rightarrow> s\<lparr>deftype := t\<rparr>
     | Opt_l \<Rightarrow> s\<lparr>trans := True\<rparr>
     | Opt_m \<Rightarrow> s\<lparr>mbr := True\<rparr>
     | Opt_p \<Rightarrow> s\<lparr>boot := True\<rparr>
     | Opt_o n \<Rightarrow> s\<lparr>offset := sint (word_of_int (161280 * n) :: u32)\<rparr>
     | Opt_v n \<Rightarrow> s\<lparr>offset := sint (word_of_int n :: u32)\<rparr>)"

datatype cmd =
    Mkfs string | Ls string | Get string string string | Put string string string | Rm string string
  | Putboot string string | Getboot string string | Map string | Label string string

definition run :: "cmd \<Rightarrow> decb \<Rightarrow> unit dres option" where
  "run c s = (case c of
       Mkfs n \<Rightarrow> Some (mkfs n s)
     | Ls n \<Rightarrow> list_files n s
     | Get n src dst \<Rightarrow> get n src dst s
     | Put n src dst \<Rightarrow> Some (put n src dst s)
     | Rm n f \<Rightarrow> Some (rm n f s)
     | Putboot n src \<Rightarrow> putb n src s
     | Getboot n dst \<Rightarrow> Some (getb n dst s)
     | Map n \<Rightarrow> Some (map_fat n s)
     | Label n l \<Rightarrow> Some (label n l s))"

text \<open>A fresh process over the host's files.\<close>

definition start :: "(string \<Rightarrow> bytes option) \<Rightarrow> (string \<Rightarrow> bool) \<Rightarrow> decb" where
  "start fs dn = \<lparr>files = fs, denied = dn, img = [], pos = 0,
     entry = bytes_entry (replicate 32 0), entry_off = 0, fat = replicate FATZ 0,
     buf = replicate GRANZ 0, estate = 0, count = 0, deftype = 0, defaflag = 0, trans = False,
     mbr = False, boot = False, offset = 0, out = []\<rparr>"

definition decb_main :: "opt list \<Rightarrow> cmd \<Rightarrow> decb \<Rightarrow> unit dres option" where
  "decb_main os c s = run c (fold set_opt os s)"

end
