(* ===== verification/Decb_Disk.thy ===== *)
theory Decb_Disk
  imports Decb
begin

text \<open>
  A disk image as an abstract store: its 68 granules, its granule table and its 72 directory
  entries as functions of the image's bytes, which of these regions overlap (none), and what
  the scans and the chain walks of the program compute in terms of them.
\<close>

section \<open>Regions of an image\<close>

definition gran_at :: "nat \<Rightarrow> bytes \<Rightarrow> nat \<Rightarrow> bytes" where
  "gran_at o' f g = pread (o' + gran_pos g) GRANZ f"

definition fat_of :: "nat \<Rightarrow> bytes \<Rightarrow> bytes" where
  "fat_of o' f = pread (o' + FATST) FATZ f"

definition slot_at :: "nat \<Rightarrow> bytes \<Rightarrow> nat \<Rightarrow> bytes" where
  "slot_at o' f k = pread (o' + DIRST + 32 * k) 32 f"

definition dir_of :: "nat \<Rightarrow> bytes \<Rightarrow> dirent list" where
  "dir_of o' f = map (\<lambda>k. bytes_entry (slot_at o' f k)) [0..<72]"

definition image_ok :: "nat \<Rightarrow> bytes \<Rightarrow> bool" where
  "image_ok o' f \<longleftrightarrow> o' + 161280 \<le> length f"

lemma gran_pos_cases:
  assumes "g < 68"
  shows "gran_pos g + GRANZ \<le> 78336 \<or> 82944 \<le> gran_pos g \<and> gran_pos g + GRANZ \<le> 161280"
  using assms by (auto simp: gran_pos_def)

lemma gran_pos_apart:
  assumes "g \<noteq> h"
  shows "gran_pos g + GRANZ \<le> gran_pos h \<or> gran_pos h + GRANZ \<le> gran_pos g"
  using assms by (auto simp: gran_pos_def)

text \<open>
  \<open>store off b\<close> writes inside the image; each kind of region is kept by writes to another
  kind or to another index.
\<close>

lemma image_ok_pwrite [simp]: "image_ok o' f \<Longrightarrow> image_ok o' (pwrite off b f)"
  using length_pwrite_ge [of f off b] by (simp add: image_ok_def)

lemma length_gran_at [simp]: "image_ok o' f \<Longrightarrow> g < 68 \<Longrightarrow> length (gran_at o' f g) = GRANZ"
  using gran_pos_cases [of g] by (auto simp: gran_at_def length_pread image_ok_def)

lemma length_fat_of [simp]: "image_ok o' f \<Longrightarrow> length (fat_of o' f) = FATZ"
  by (simp add: fat_of_def length_pread image_ok_def)

lemma length_slot_at [simp]: "image_ok o' f \<Longrightarrow> k \<le> 72 \<Longrightarrow> length (slot_at o' f k) = 32"
  by (simp add: slot_at_def length_pread image_ok_def)

lemma length_dir_of [simp]: "length (dir_of o' f) = 72"
  by (simp add: dir_of_def)

lemma gran_at_gran:
  assumes "image_ok o' f" and "g < 68" and "g \<noteq> h" and "length b \<le> GRANZ"
  shows "gran_at o' (pwrite (o' + gran_pos h) b f) g = gran_at o' f g"
  unfolding gran_at_def
  by (rule pread_pwrite_disjoint)
    (use assms gran_pos_apart [of g h] gran_pos_cases [of g] in \<open>auto simp: image_ok_def\<close>)

lemma gran_at_same:
  assumes "image_ok o' f" and "g < 68" and "length b \<le> GRANZ"
  shows "take (length b) (gran_at o' (pwrite (o' + gran_pos g) b f) g) = b"
proof -
  have "take (length b) (pread (o' + gran_pos g) GRANZ (pwrite (o' + gran_pos g) b f)) =
      pread (o' + gran_pos g) (length b) (pwrite (o' + gran_pos g) b f)"
    using assms(3) by (simp add: pread_def min_absorb1)
  then show ?thesis by (simp add: gran_at_def)
qed

lemma gran_at_meta:
  assumes "image_ok o' f" and "g < 68" and "78336 \<le> off" and "off + length b \<le> 82944"
  shows "gran_at o' (pwrite (o' + off) b f) g = gran_at o' f g"
  unfolding gran_at_def
  by (rule pread_pwrite_disjoint)
    (use assms gran_pos_cases [of g] in \<open>auto simp: image_ok_def\<close>)

lemma meta_gran:
  assumes "image_ok o' f" and "g < 68" and "length b \<le> GRANZ"
    and "78336 \<le> off" and "off + n \<le> 82944"
  shows "pread (o' + off) n (pwrite (o' + gran_pos g) b f) = pread (o' + off) n f"
  by (rule pread_pwrite_disjoint)
    (use assms gran_pos_cases [of g] in \<open>auto simp: image_ok_def\<close>)

lemma fat_of_gran:
  "image_ok o' f \<Longrightarrow> g < 68 \<Longrightarrow> length b \<le> GRANZ \<Longrightarrow> fat_of o' (pwrite (o' + gran_pos g) b f) = fat_of o' f"
  by (simp add: fat_of_def meta_gran)

lemma slot_at_gran:
  "image_ok o' f \<Longrightarrow> g < 68 \<Longrightarrow> length b \<le> GRANZ \<Longrightarrow> k < 72 \<Longrightarrow>
   slot_at o' (pwrite (o' + gran_pos g) b f) k = slot_at o' f k"
  using meta_gran [of o' f g b "DIRST + 32 * k" 32] by (simp add: slot_at_def add.assoc)

lemma dir_of_gran:
  "image_ok o' f \<Longrightarrow> g < 68 \<Longrightarrow> length b \<le> GRANZ \<Longrightarrow> dir_of o' (pwrite (o' + gran_pos g) b f) = dir_of o' f"
  by (simp add: dir_of_def slot_at_gran)

lemma fat_of_fat: "length b = FATZ \<Longrightarrow> fat_of o' (pwrite (o' + FATST) b f) = b"
  unfolding fat_of_def by (rule pread_pwrite_same_len)

lemma gran_at_fat:
  "image_ok o' f \<Longrightarrow> g < 68 \<Longrightarrow> length b = FATZ \<Longrightarrow> gran_at o' (pwrite (o' + FATST) b f) g = gran_at o' f g"
  by (rule gran_at_meta) simp_all

lemma dir_of_fat:
  "image_ok o' f \<Longrightarrow> length b = FATZ \<Longrightarrow> dir_of o' (pwrite (o' + FATST) b f) = dir_of o' f"
  unfolding dir_of_def slot_at_def
  by (intro map_cong refl arg_cong [where f = bytes_entry] pread_pwrite_disjoint)
    (auto simp: image_ok_def)

lemma gran_at_slot:
  "image_ok o' f \<Longrightarrow> g < 68 \<Longrightarrow> k < 72 \<Longrightarrow> length b = 32 \<Longrightarrow>
   gran_at o' (pwrite (o' + DIRST + 32 * k) b f) g = gran_at o' f g"
  using gran_at_meta [of o' f g "DIRST + 32 * k" b] by (simp add: add.assoc)

lemma fat_of_slot:
  "image_ok o' f \<Longrightarrow> k < 72 \<Longrightarrow> length b = 32 \<Longrightarrow> fat_of o' (pwrite (o' + DIRST + 32 * k) b f) = fat_of o' f"
  unfolding fat_of_def by (rule pread_pwrite_disjoint) (auto simp: image_ok_def)

lemma dir_of_slot:
  assumes "image_ok o' f" and "k < 72" and "length b = 32"
  shows "dir_of o' (pwrite (o' + DIRST + 32 * k) b f) = (dir_of o' f)[k := bytes_entry b]"
proof (rule nth_equalityI)
  fix j assume "j < length (dir_of o' (pwrite (o' + DIRST + 32 * k) b f))"
  then have j: "j < 72" by simp
  have "slot_at o' (pwrite (o' + DIRST + 32 * k) b f) j = (if j = k then b else slot_at o' f j)"
  proof (cases "j = k")
    case True
    with assms(3) show ?thesis by (simp add: slot_at_def pread_pwrite_same_len)
  next
    case False
    then have "32 * j + 32 \<le> 32 * k \<or> 32 * k + 32 \<le> 32 * j" by linarith
    with False assms j show ?thesis
      unfolding slot_at_def by (simp, intro pread_pwrite_disjoint) (auto simp: image_ok_def)
  qed
  with j assms show "dir_of o' (pwrite (o' + DIRST + 32 * k) b f) ! j = (dir_of o' f)[k := bytes_entry b] ! j"
    by (auto simp: dir_of_def nth_list_update)
qed simp

text \<open>The granules of an image are a store of blocks.\<close>

interpretation grans: block_store "gran_at o'" "\<lambda>g b f. pwrite (o' + gran_pos g) b f" "image_ok o'"
  "\<lambda>g. g < 68" "\<lambda>b. length b = GRANZ" for o'
proof unfold_locales
  fix f :: bytes and g h :: nat and b :: bytes
  show "image_ok o' f \<Longrightarrow> g < 68 \<Longrightarrow> length b = GRANZ \<Longrightarrow> image_ok o' (pwrite (o' + gran_pos g) b f)"
    by simp
  show "image_ok o' f \<Longrightarrow> g < 68 \<Longrightarrow> length b = GRANZ \<Longrightarrow>
      gran_at o' (pwrite (o' + gran_pos g) b f) g = b"
    by (simp add: gran_at_def pread_pwrite_same_len)
  show "image_ok o' f \<Longrightarrow> g < 68 \<Longrightarrow> h < 68 \<Longrightarrow> g \<noteq> h \<Longrightarrow> length b = GRANZ \<Longrightarrow>
      gran_at o' (pwrite (o' + gran_pos g) b f) h = gran_at o' f h"
    by (rule gran_at_gran) auto
qed

section \<open>Directory entries\<close>

lemma entry_bytes_entry: "length b = 32 \<Longrightarrow> entry_bytes (bytes_entry b) = b"
proof -
  assume l: "length b = 32"
  have n: "drop k b = b ! k # drop (Suc k) b" if "k < 32" for k
    using that l by (simp add: Cons_nth_drop_Suc)
  have "drop 11 b = [b ! 11, b ! 12, b ! 13, b ! 14, b ! 15] @ drop 16 b"
    using n [of 11] n [of 12] n [of 13] n [of 14] n [of 15] by simp
  moreover have "drop 8 b = take 3 (drop 8 b) @ drop 11 b"
    using append_take_drop_id [of 3 "drop 8 b"] by simp
  then have "b = take 8 b @ take 3 (drop 8 b) @ drop 11 b"
    using append_take_drop_id [of 8 b] by simp
  ultimately show ?thesis using l by (simp add: entry_bytes_def bytes_entry_def)
qed

definition entry_ok :: "dirent \<Rightarrow> bool" where
  "entry_ok e \<longleftrightarrow> length (name e) = 8 \<and> length (ext e) = 3 \<and> length (unused e) = 16"

lemma length_entry_bytes: "entry_ok e \<Longrightarrow> length (entry_bytes e) = 32"
  by (simp add: entry_ok_def entry_bytes_def)

lemma bytes_entry_bytes:
  assumes "entry_ok e"
  shows "bytes_entry (entry_bytes e) = e"
proof -
  have n: "length (name e) = 8" "length (ext e) = 3" "length (unused e) = 16"
    using assms by (simp_all add: entry_ok_def)
  have "entry_bytes e ! (11 + i) = [type e, aflag e, first e, rem0 e, rem1 e] ! i" if "i < 5" for i
  proof -
    have "i \<in> {0, 1, 2, 3, 4}" using that by auto
    with n show ?thesis by (auto simp: entry_bytes_def nth_append)
  qed
  from this [of 0] this [of 1] this [of 2] this [of 3] this [of 4] n show ?thesis
    by (simp add: bytes_entry_def entry_bytes_def)
qed

lemma entry_ok_bytes: "length b = 32 \<Longrightarrow> entry_ok (bytes_entry b)"
  by (simp add: entry_ok_def bytes_entry_def)

lemma entry_ok_dir: "image_ok o' f \<Longrightarrow> k < 72 \<Longrightarrow> entry_ok (dir_of o' f ! k)"
  by (simp add: dir_of_def entry_ok_bytes)

text \<open>The 11 bytes that identify a file.\<close>

definition key_of :: "dirent \<Rightarrow> bytes" where
  "key_of e = take 11 (entry_bytes e)"

lemma key_of_ok: "entry_ok e \<Longrightarrow> key_of e = name e @ ext e"
  by (simp add: key_of_def entry_bytes_def entry_ok_def)

text \<open>The conversion of a name depends on the first 11 bytes of the buffer only.\<close>

definition key :: "string \<Rightarrow> bytes option" where
  "key n = map_option (take 11) (conv_loop (c_string n) 0 (replicate GRANZ 0x20))"

lemma conv_loop_length: "conv_loop cs d b = Some r \<Longrightarrow> length r = length b"
  by (induction cs d b rule: conv_loop.induct) (auto split: if_splits)

lemma conv_loop_cong:
  assumes "conv_loop cs d b = Some r" and "length b = length b'" and "take 11 b = take 11 b'"
  shows "\<exists>r'. conv_loop cs d b' = Some r' \<and> take 11 r' = take 11 r"
  using assms
proof (induction cs d b arbitrary: b' rule: conv_loop.induct)
  case (1 d b)
  then show ?case by simp
next
  case (2 c cs d b)
  show ?case
  proof (cases "c = 0x2e")
    case True
    with 2 show ?thesis by simp
  next
    case False
    with 2 have d: "d < length b" "conv_loop cs (d + 1) (b[d := c]) = Some r" by (auto split: if_splits)
    have "take 11 (b[d := c]) = take 11 (b'[d := c])"
      using "2.prems"(3) by (simp add: take_update_swap)
    with "2.IH"(2) [OF False d(1) d(2)] "2.prems"(2) False d(1) show ?thesis by auto
  qed
qed

lemma stringconv_ok:
  assumes "key n = Some k" and "length (buf s) = GRANZ"
  shows "\<exists>b. stringconv n s = Inr ((), s\<lparr>buf := b\<rparr>) \<and> length b = GRANZ \<and> take 11 b = k"
proof -
  from assms(1) obtain r where r: "conv_loop (c_string n) 0 (replicate GRANZ 0x20) = Some r" "k = take 11 r"
    by (auto simp: key_def)
  from conv_loop_cong [OF r(1), of "replicate 11 0x20 @ drop 11 (buf s)"] assms(2) obtain r' where
    r': "conv_loop (c_string n) 0 (replicate 11 0x20 @ drop 11 (buf s)) = Some r'" "take 11 r' = k"
    by (auto simp: r(2))
  with conv_loop_length [OF r'(1)] assms(2) show ?thesis
    by (intro exI [of _ r']) (simp add: stringconv_def)
qed

lemma length_key: "key n = Some k \<Longrightarrow> length k = 11"
  by (auto simp: key_def dest: conv_loop_length)

section \<open>Scanning the directory\<close>

text \<open>Looking a key up, and the first entry that is free: what the two scans compute.\<close>

fun lookup :: "bytes \<Rightarrow> dirent list \<Rightarrow> nat option" where
  "lookup k [] = None"
| "lookup k (e # es) =
     (if name e ! 0 = 0xff then None
      else if key_of e = k then Some 0
      else map_option Suc (lookup k es))"

fun free_slot :: "dirent list \<Rightarrow> nat option" where
  "free_slot [] = None"
| "free_slot (e # es) =
     (if name e ! 0 = 0 \<or> name e ! 0 = 0xff then Some 0 else map_option Suc (free_slot es))"

lemma lookup_Some:
  "lookup k es = Some i \<Longrightarrow> i < length es \<and> key_of (es ! i) = k \<and> name (es ! i) ! 0 \<noteq> 0xff"
  by (induction es arbitrary: i) (auto split: if_splits)

lemma free_slot_Some:
  "free_slot es = Some i \<Longrightarrow> i < length es \<and> (name (es ! i) ! 0 = 0 \<or> name (es ! i) ! 0 = 0xff)"
  by (induction es arbitrary: i) (auto split: if_splits)

text \<open>The state of a scan that has read \<open>k\<close> entries, and what a scan changes.\<close>

definition origin :: "decb \<Rightarrow> nat" where
  "origin s = nat (offset s)"

definition ready :: "decb \<Rightarrow> bool" where
  "ready s \<longleftrightarrow> 0 \<le> offset s \<and> image_ok (origin s) (content s) \<and> files s (img s) \<noteq> None
     \<and> length (buf s) = GRANZ \<and> length (fat s) = FATZ"

definition scanning :: "nat \<Rightarrow> decb \<Rightarrow> bool" where
  "scanning k s \<longleftrightarrow> k = 0 \<and> estate s = 0
     \<or> estate s = 1 \<and> count s = k \<and> pos s = origin s + DIRST + 32 * k"

definition scanned :: "decb \<Rightarrow> decb \<Rightarrow> bool" where
  "scanned s t \<longleftrightarrow> t = s\<lparr>entry := entry t, entry_off := entry_off t, pos := pos t,
     estate := estate t, count := count t\<rparr>"

lemma scanned_refl [simp]: "scanned s s"
  by (simp add: scanned_def)

lemma scannedD:
  assumes "scanned s t"
  shows "files t = files s" and "img t = img s" and "fat t = fat s" and "buf t = buf s"
    and "offset t = offset s" and "origin t = origin s" and "content t = content s"
    and "ready t = ready s" and "denied t = denied s" and "trans t = trans s"
    and "deftype t = deftype s" and "defaflag t = defaflag s"
proof -
  have e: "t = s\<lparr>entry := entry t, entry_off := entry_off t, pos := pos t,
     estate := estate t, count := count t\<rparr>"
    using assms by (simp add: scanned_def)
  show "files t = files s" "img t = img s" "fat t = fat s" "buf t = buf s" "offset t = offset s"
    "origin t = origin s" "content t = content s" "ready t = ready s" "denied t = denied s"
    "trans t = trans s" "deftype t = deftype s" "defaflag t = defaflag s"
    by (subst e; simp add: ready_def origin_def content_def; fail)+
qed

lemma scanned_trans: "scanned s t \<Longrightarrow> scanned t u \<Longrightarrow> scanned s u"
  by (cases s; cases t; cases u) (auto simp: scanned_def)

text \<open>One step of a scan.\<close>

definition at_slot :: "nat \<Rightarrow> decb \<Rightarrow> decb" where
  "at_slot k s = s\<lparr>entry := dir_of (origin s) (content s) ! k, entry_off := origin s + DIRST + 32 * k,
     pos := origin s + DIRST + 32 * Suc k, estate := 1, count := Suc k\<rparr>"

lemma at_slot_scan: "scanning (Suc k) (at_slot k s)" "scanned s (at_slot k s)"
  by (simp_all add: scanning_def at_slot_def scanned_def origin_def)

lemma getentry_ok:
  assumes "ready s" and "scanning k s" and "k < 72"
  shows "getentry s = Inr (True, at_slot k s)"
proof -
  let ?p = "origin s + DIRST + 32 * k"
  have o: "0 \<le> offset s" "image_ok (origin s) (content s)" using assms(1) by (simp_all add: ready_def)
  have l: "length (pread ?p 32 (content s)) = 32"
    using length_slot_at [OF o(2), of k] assms(3) by (simp add: slot_at_def)
  have d: "bytes_entry (pread ?p 32 (content s)) = dir_of (origin s) (content s) ! k"
    using assms(3) by (simp add: dir_of_def slot_at_def)
  have n: "nat (int DIRST + offset s) = origin s + DIRST"
    using o(1) by (simp add: origin_def nat_add_distrib)
  from assms(2) show ?thesis
    unfolding scanning_def
  proof
    assume z: "k = 0 \<and> estate s = 0"
    with o(1) n l d assms(3) show ?thesis
      by (simp add: getentry_def dlseek_def fdread_def Let_def content_def at_slot_def)
  next
    assume z: "estate s = 1 \<and> count s = k \<and> pos s = ?p"
    with l d assms(3) show ?thesis
      by (simp add: getentry_def fdread_def Let_def content_def at_slot_def)
  qed
qed

lemma getentry_end:
  assumes "ready s" and "scanning 72 s"
  shows "\<exists>t. getentry s = Inr (False, t) \<and> scanned s t"
proof -
  let ?p = "origin s + DIRST + 32 * 72"
  have o: "image_ok (origin s) (content s)" using assms(1) by (simp add: ready_def)
  have l: "length (pread ?p 32 (content s)) = 32"
    using length_slot_at [OF o, of 72] by (simp add: slot_at_def)
  from assms(2) l show ?thesis
    by (auto simp: scanning_def getentry_def fdread_def Let_def content_def scanned_def)
qed

lemma drop_dir: "k < 72 \<Longrightarrow> drop k (dir_of o' f) = dir_of o' f ! k # drop (Suc k) (dir_of o' f)"
  by (simp add: Cons_nth_drop_Suc)

lemma find_loop_None:
  assumes "ready s" and "scanning k s" and "k \<le> 72"
    and "lookup (take 11 (buf s)) (drop k (dir_of (origin s) (content s))) = None"
  shows "\<exists>t. find_loop s = Inr (False, t) \<and> scanned s t"
  using assms
proof (induction "72 - k" arbitrary: k s)
  case 0
  then show ?case using getentry_end [of s] by (subst find_loop.simps) auto
next
  case (Suc n)
  then have k: "k < 72" by simp
  let ?s = "at_slot k s"
  note g = getentry_ok [OF Suc.prems(1,2) k]
  note sc = at_slot_scan [where k = k and s = s]
  note d = scannedD [OF sc(2)]
  have e: "entry ?s = dir_of (origin s) (content s) ! k" by (simp add: at_slot_def)
  note dd = drop_dir [OF k, of "origin s" "content s"]
  show ?case
  proof (cases "name (entry ?s) ! 0 = 0xff")
    case True
    with g sc show ?thesis by (subst find_loop.simps) auto
  next
    case False
    with Suc.prems(4) dd e have "key_of (entry ?s) \<noteq> take 11 (buf s)"
      and r: "lookup (take 11 (buf s)) (drop (Suc k) (dir_of (origin s) (content s))) = None"
      by (auto split: if_splits)
    with g False d have "find_loop s = find_loop ?s"
      by (subst find_loop.simps) (simp add: key_of_def)
    moreover have "\<exists>t. find_loop ?s = Inr (False, t) \<and> scanned ?s t"
      using Suc.hyps(2) Suc.prems(1) k r d by (intro Suc.hyps(1) [OF _ _ sc(1)]) simp_all
    ultimately show ?thesis using scanned_trans [OF sc(2)] by auto
  qed
qed

lemma find_loop_Some:
  assumes "ready s" and "scanning k s" and "k \<le> 72"
    and "lookup (take 11 (buf s)) (drop k (dir_of (origin s) (content s))) = Some i"
  shows "\<exists>t. find_loop s = Inr (True, t) \<and> scanned s t
    \<and> entry t = dir_of (origin s) (content s) ! (k + i) \<and> entry_off t = origin s + DIRST + 32 * (k + i)"
  using assms
proof (induction i arbitrary: k s)
  case 0
  then have k: "k < 72" by (cases "k = 72") auto
  note g = getentry_ok [OF 0(1,2) k]
  note sc = at_slot_scan [where k = k and s = s]
  note d = scannedD [OF sc(2)]
  have e: "entry (at_slot k s) = dir_of (origin s) (content s) ! k" by (simp add: at_slot_def)
  from 0(4) drop_dir [OF k, of "origin s" "content s"] have
    "name (entry (at_slot k s)) ! 0 \<noteq> 0xff" "key_of (entry (at_slot k s)) = take 11 (buf s)"
    by (auto simp: e split: if_splits)
  with g d have "find_loop s = Inr (True, at_slot k s)"
    by (subst find_loop.simps) (simp add: key_of_def)
  with sc show ?case by (simp add: at_slot_def)
next
  case (Suc i)
  then have k: "k < 72" by (cases "k = 72") auto
  let ?s = "at_slot k s"
  note g = getentry_ok [OF Suc.prems(1,2) k]
  note sc = at_slot_scan [where k = k and s = s]
  note d = scannedD [OF sc(2)]
  have e: "entry ?s = dir_of (origin s) (content s) ! k" by (simp add: at_slot_def)
  from Suc.prems(4) drop_dir [OF k, of "origin s" "content s"] have
    n: "name (entry ?s) ! 0 \<noteq> 0xff" "key_of (entry ?s) \<noteq> take 11 (buf s)"
    and r: "lookup (take 11 (buf s)) (drop (Suc k) (dir_of (origin s) (content s))) = Some i"
    by (auto simp: e split: if_splits)
  from g n d have "find_loop s = find_loop ?s"
    by (subst find_loop.simps) (simp add: key_of_def)
  moreover have "\<exists>t. find_loop ?s = Inr (True, t) \<and> scanned ?s t
    \<and> entry t = dir_of (origin s) (content s) ! (Suc k + i)
    \<and> entry_off t = origin s + DIRST + 32 * (Suc k + i)"
    using Suc.IH [OF _ sc(1)] Suc.prems(1) k r d by simp
  ultimately show ?case using scanned_trans [OF sc(2)] by auto
qed

lemma free_entry_loop_Some:
  assumes "ready s" and "scanning k s" and "k \<le> 72"
    and "free_slot (drop k (dir_of (origin s) (content s))) = Some i"
  shows "\<exists>t. free_entry_loop s = Inr ((), t) \<and> scanned s t
    \<and> entry t = dir_of (origin s) (content s) ! (k + i) \<and> entry_off t = origin s + DIRST + 32 * (k + i)"
  using assms
proof (induction i arbitrary: k s)
  case 0
  then have k: "k < 72" by (cases "k = 72") auto
  note g = getentry_ok [OF 0(1,2) k]
  note sc = at_slot_scan [where k = k and s = s]
  have e: "entry (at_slot k s) = dir_of (origin s) (content s) ! k" by (simp add: at_slot_def)
  from 0(4) drop_dir [OF k, of "origin s" "content s"] have
    "name (entry (at_slot k s)) ! 0 = 0 \<or> name (entry (at_slot k s)) ! 0 = 0xff"
    by (auto simp: e split: if_splits)
  with g have "free_entry_loop s = Inr ((), at_slot k s)"
    by (subst free_entry_loop.simps) auto
  with sc show ?case by (simp add: at_slot_def)
next
  case (Suc i)
  then have k: "k < 72" by (cases "k = 72") auto
  let ?s = "at_slot k s"
  note g = getentry_ok [OF Suc.prems(1,2) k]
  note sc = at_slot_scan [where k = k and s = s]
  note d = scannedD [OF sc(2)]
  have e: "entry ?s = dir_of (origin s) (content s) ! k" by (simp add: at_slot_def)
  from Suc.prems(4) drop_dir [OF k, of "origin s" "content s"] have
    n: "name (entry ?s) ! 0 \<noteq> 0xff" "name (entry ?s) ! 0 \<noteq> 0"
    and r: "free_slot (drop (Suc k) (dir_of (origin s) (content s))) = Some i"
    by (auto simp: e split: if_splits)
  from g n have "free_entry_loop s = free_entry_loop ?s"
    by (subst free_entry_loop.simps) simp
  moreover have "\<exists>t. free_entry_loop ?s = Inr ((), t) \<and> scanned ?s t
    \<and> entry t = dir_of (origin s) (content s) ! (Suc k + i)
    \<and> entry_off t = origin s + DIRST + 32 * (Suc k + i)"
    using Suc.IH [OF _ sc(1)] Suc.prems(1) k r d by simp
  ultimately show ?case using scanned_trans [OF sc(2)] by auto
qed

end
