(* ===== verification/Decb_Chain.thy ===== *)
theory Decb_Chain
  imports Decb_Disk
begin

text \<open>
  Files as chains of granules: the bytes an image holds under a name, as a function of the
  image alone, and what the program's loops over chains do in terms of it.
\<close>

section \<open>The files of an image\<close>

text \<open>
  The bytes of a chain from granule \<open>g\<close> on, whose last granule is measured by the directory
  entry \<open>e\<close>; nothing if the chain leaves the table, has a bad size, or does not end within
  the given number of granules.
\<close>

fun chain_data :: "nat \<Rightarrow> nat \<Rightarrow> bytes \<Rightarrow> bytes \<Rightarrow> dirent \<Rightarrow> u8 \<Rightarrow> bytes option" where
  "chain_data 0 o' f ft e g = None"
| "chain_data (Suc n) o' f ft e g =
     (if FATZ \<le> unat g then None
      else let c = ft ! unat g; d = gran_at o' f (unat g)
           in if last_gran c
              then (if 0 \<le> last_size c e \<and> last_size c e < int GRANZ
                    then Some (take (nat (last_size c e)) d) else None)
              else map_option ((@) d) (chain_data n o' f ft e c))"

text \<open>The granules a chain uses.\<close>

fun chain_grans :: "nat \<Rightarrow> bytes \<Rightarrow> u8 \<Rightarrow> nat list" where
  "chain_grans 0 ft g = []"
| "chain_grans (Suc n) ft g =
     (if FATZ \<le> unat g then []
      else unat g # (if last_gran (ft ! unat g) then [] else chain_grans n ft (ft ! unat g)))"

definition file_of :: "nat \<Rightarrow> bytes \<Rightarrow> string \<Rightarrow> bytes option" where
  "file_of o' f nm =
     (case key nm of None \<Rightarrow> None | Some k \<Rightarrow>
        (case lookup k (dir_of o' f) of None \<Rightarrow> None | Some i \<Rightarrow>
           chain_data FATZ o' f (fat_of o' f) (dir_of o' f ! i) (first (dir_of o' f ! i))))"

lemma last_size_cong: "rem0 e = rem0 e' \<Longrightarrow> rem1 e = rem1 e' \<Longrightarrow> last_size c e = last_size c e'"
  by (simp add: last_size_def)

lemma chain_data_grow: "chain_data n o' f ft e g = Some d \<Longrightarrow> chain_data (n + k) o' f ft e g = Some d"
proof (induction n arbitrary: g d)
  case (Suc n)
  then show ?case by (auto simp: Let_def split: if_splits)
qed simp

text \<open>A chain's bytes depend on its own granules and their table entries only.\<close>

lemma chain_data_cong:
  assumes "\<forall>x \<in> set (chain_grans n ft g). gran_at o' f' x = gran_at o' f x \<and> ft' ! x = ft ! x"
  shows "chain_data n o' f' ft' e g = chain_data n o' f ft e g"
  using assms
  by (induction n arbitrary: g) (auto simp: Let_def)

lemma chain_grans_cong:
  assumes "\<forall>x \<in> set (chain_grans n ft g). ft' ! x = ft ! x"
  shows "chain_grans n ft' g = chain_grans n ft g"
  using assms by (induction n arbitrary: g) auto

lemma chain_grans_bound: "x \<in> set (chain_grans n ft g) \<Longrightarrow> x < FATZ"
  by (induction n arbitrary: g) (auto split: if_splits)

text \<open>The granules of a file that can be read are in use.\<close>

lemma last_gran_small: "unat g < 192 \<Longrightarrow> \<not> last_gran g"
proof
  assume u: "unat g < 192" and l: "last_gran g"
  have "g = (g AND 0xc0) OR (g AND 0x3f)"
    by (rule bit_word_eqI) (auto simp: bit_simps less_Suc_eq eval_nat_numeral)
  then have "192 \<le> g" using l by (metis last_gran_def le_word_or2 word_bw_comms(2))
  then show False using u by (simp add: word_le_nat_alt)
qed

lemma last_size_free: "rem0 e \<in> {0, 1} \<Longrightarrow> \<not> last_size 0xff e < int GRANZ"
proof -
  assume r: "rem0 e \<in> {0, 1}"
  obtain v where v: "sint (be16 (rem0 e) 0) = v" "v \<in> {0, 256}" using r by (auto simp: be16_def)
  have "int16 i = i" if "0 \<le> i" "i < 32768" for i
    unfolding int16_def using that by (subst int_word_sint) simp
  moreover have "0 \<le> uint (rem1 e)" "uint (rem1 e) < 256" using uint_u8_bound by auto
  ultimately have "last_size 0xff e = 15872 + v + uint (rem1 e)"
    using v by (auto simp: last_size_def)
  moreover obtain u where "u = uint (rem1 e)" "0 \<le> u" using \<open>0 \<le> uint (rem1 e)\<close> by blast
  ultimately have "last_size 0xff e = 15872 + v + u" by simp
  moreover have "int GRANZ \<le> 15872 + v + u" using v(2) \<open>0 \<le> u\<close> by auto
  ultimately show ?thesis by linarith
qed

lemma chain_data_used:
  assumes "chain_data n o' f ft e g = Some d" and "x \<in> set (chain_grans n ft g)"
    and "rem0 e \<in> {0, 1}"
  shows "x < FATZ \<and> ft ! x \<noteq> 0xff"
  using assms(1,2)
proof (induction n arbitrary: g d)
  case 0
  then show ?case by simp
next
  case (Suc n)
  have "last_gran 0xff" by (simp add: last_gran_def)
  with Suc last_size_free [OF assms(3)] show ?case by (auto simp: Let_def split: if_splits)
qed

section \<open>Reading a chain\<close>

text \<open>What the option \<open>-l\<close> does to the data read and written.\<close>

definition from_disk :: "bool \<Rightarrow> bytes \<Rightarrow> bytes" where
  "from_disk t b = (if t then map (\<lambda>c. if c = 0x0d then 0x0a else c) b else b)"

definition to_disk :: "bool \<Rightarrow> bytes \<Rightarrow> bytes" where
  "to_disk t b = (if t then map (\<lambda>c. if c = 0x0a then 0x0d else c) b else b)"

lemma length_to_disk [simp]: "length (to_disk t b) = length b"
  by (simp add: to_disk_def)

lemma and_7f: "unat (g :: u8) < 128 \<Longrightarrow> g AND 0x7f = g"
proof -
  assume "unat g < 128"
  then have "unat (take_bit 7 g) = unat g" by (simp add: unsigned_take_bit_eq take_bit_nat_eq_self)
  then have "take_bit 7 g = g" by (simp add: word_unat_eq_iff)
  then show ?thesis by (simp add: take_bit_eq_mask mask_eq_exp_minus_1)
qed

lemma seekgran_ok:
  assumes "0 \<le> offset s"
  shows "seekgran g s = Inr ((), s\<lparr>pos := origin s + gran_pos g\<rparr>)"
  using assms by (simp add: seekgran_def dlseek_def origin_def nat_add_distrib)

lemma loadgran_ok:
  assumes "ready s" and "g < 68"
  shows "loadgran g s = Inr ((), s\<lparr>pos := origin s + gran_pos g + GRANZ, buf := gran_at (origin s) (content s) g\<rparr>)"
proof -
  have o: "0 \<le> offset s" "image_ok (origin s) (content s)" "length (buf s) = GRANZ"
    using assms(1) by (simp_all add: ready_def)
  note l = length_gran_at [OF o(2) assms(2)]
  then have l': "length (pread (origin s + gran_pos g) GRANZ (content s)) = GRANZ"
    by (simp add: gran_at_def)
  then have "pread (origin s + gran_pos g) GRANZ (content s) \<noteq> []" by auto
  with o l' show ?thesis
    by (simp add: loadgran_def seekgran_ok fdread_def content_def Let_def into_buf_def gran_at_def)
qed

lemma get_loop_ok:
  assumes "ready s" and "dst \<noteq> img s" and "files s dst = Some p"
    and "chain_data n (origin s) (content s) (fat s) (entry s) g = Some d"
  shows "\<exists>t. get_loop dst g s = Some (Inr ((), t))
    \<and> files t = (files s)(dst := Some (p @ from_disk (trans s) d))"
  using assms
proof (induction n arbitrary: s g d p)
  case 0
  then show ?case by simp
next
  case (Suc n)
  let ?c = "fat s ! unat g" and ?d = "gran_at (origin s) (content s) (unat g)"
  have g: "unat g < 68" using Suc.prems(4) by (auto split: if_splits)
  then have g7: "unat (g AND 0x7f) = unat g" by (simp add: and_7f)
  have fl: "length (fat s) = 68" and o: "image_ok (origin s) (content s)"
    using Suc.prems(1) by (simp_all add: ready_def)
  let ?s1 = "s\<lparr>pos := origin s + gran_pos (unat g) + GRANZ, buf := ?d\<rparr>"
  have ld: "loadgran (unat (g AND 0x7f)) s = Inr ((), ?s1)"
    unfolding g7 by (rule loadgran_ok [OF Suc.prems(1) g])
  define s2 where "s2 = (if trans s then cr2nl ?s1 else ?s1)"
  have s2: "(if trans ?s1 then cr2nl ?s1 else ?s1) = s2" "buf s2 = from_disk (trans s) ?d"
    "files s2 = files s" "fat s2 = fat s" "entry s2 = entry s" "img s2 = img s"
    "offset s2 = offset s" "trans s2 = trans s"
    by (simp_all add: s2_def cr2nl_def from_disk_def)
  have lb: "length (buf s2) = GRANZ" using length_gran_at [OF o g] s2(2) by (simp add: from_disk_def)
  show ?case
  proof (cases "last_gran ?c")
    case True
    with Suc.prems(4) g have z: "0 \<le> last_size ?c (entry s)" "last_size ?c (entry s) < int GRANZ"
      "d = take (nat (last_size ?c (entry s))) ?d" by (auto simp: Let_def split: if_splits)
    have t: "take (nat (last_size ?c (entry s))) (buf s2) = from_disk (trans s) d"
      by (simp add: s2(2) z(3) from_disk_def take_map)
    have "get_loop dst g s = Some (Inr ((), append_file dst (from_disk (trans s) d) s2))"
      using True g fl ld s2 lb z(1,2) t
      by (subst get_loop.simps) (simp add: Let_def)
    then show ?thesis
      using Suc.prems(3) by (simp add: append_file_def s2 fun_eq_iff)
  next
    case False
    with Suc.prems(4) g obtain d' where
      d': "chain_data n (origin s) (content s) (fat s) (entry s) ?c = Some d'" "d = ?d @ d'"
      by (auto simp: Let_def)
    let ?s3 = "append_file dst (from_disk (trans s) ?d) s2"
    have "take (nat (int GRANZ)) (buf s2) = from_disk (trans s) ?d"
      using lb s2(2) by simp
    then have step: "get_loop dst g s = get_loop dst ?c ?s3"
      using False g fl ld s2 lb
      by (subst get_loop.simps) (simp add: Let_def append_file_def)
    have c3: "content ?s3 = content s" "origin ?s3 = origin s" "fat ?s3 = fat s" "entry ?s3 = entry s"
      "img ?s3 = img s" "trans ?s3 = trans s"
      using Suc.prems(2) by (simp_all add: append_file_def content_def s2 origin_def)
    have r3: "ready ?s3"
      using Suc.prems(1) lb c3 Suc.prems(2)
      by (auto simp: ready_def append_file_def s2)
    have f3: "files ?s3 dst = Some (p @ from_disk (trans s) ?d)"
      using Suc.prems(3) by (simp add: append_file_def s2)
    have "from_disk (trans s) d = from_disk (trans s) ?d @ from_disk (trans s) d'"
      by (simp add: d'(2) from_disk_def)
    moreover have i3: "dst \<noteq> img ?s3" using Suc.prems(2) by (metis c3(5))
    have h3: "chain_data n (origin ?s3) (content ?s3) (fat ?s3) (entry ?s3) ?c = Some d'"
      by (simp only: c3 d'(1))
    from Suc.IH [OF r3 i3 f3 h3, unfolded c3(6)] obtain t where
      "get_loop dst ?c ?s3 = Some (Inr ((), t))"
      "files t = (files ?s3)(dst := Some ((p @ from_disk (trans s) ?d) @ from_disk (trans s) d'))"
      by blast
    moreover have "(files ?s3)(dst := x) = (files s)(dst := x)" for x
      by (simp add: append_file_def s2 fun_eq_iff)
    ultimately show ?thesis using step by (intro exI [of _ t]) (simp only: append_assoc)
  qed
qed

section \<open>Writing a chain\<close>

text \<open>What the writing loop leaves alone: everything but the image, the table and the buffer.\<close>

definition wrote :: "decb \<Rightarrow> decb \<Rightarrow> bool" where
  "wrote s t \<longleftrightarrow> ready t \<and> files t = (files s)(img s := Some (content t))
     \<and> (\<exists>F p f b. t = s\<lparr>files := F, pos := p, fat := f, buf := b\<rparr>)"

lemma wroteD:
  assumes "wrote s t"
  shows "ready t" and "files t = (files s)(img s := Some (content t))" and "img t = img s"
    and "entry t = entry s" and "entry_off t = entry_off s" and "offset t = offset s"
    and "origin t = origin s" and "trans t = trans s" and "denied t = denied s"
    and "deftype t = deftype s" and "defaflag t = defaflag s"
proof -
  from assms obtain F p f b where e: "t = s\<lparr>files := F, pos := p, fat := f, buf := b\<rparr>"
    by (auto simp: wrote_def)
  show "ready t" "files t = (files s)(img s := Some (content t))"
    using assms by (simp_all add: wrote_def)
  show "img t = img s" "entry t = entry s" "entry_off t = entry_off s" "offset t = offset s"
    "origin t = origin s" "trans t = trans s" "denied t = denied s" "deftype t = deftype s"
    "defaflag t = defaflag s"
    by (simp_all add: e origin_def)
qed

lemma wrote_trans:
  assumes "wrote s t" and "wrote t u"
  shows "wrote s u"
proof -
  have "files u = (files s)(img s := Some (content u))"
    using wroteD(2) [OF assms(2)] wroteD(2,3) [OF assms(1)] by (simp add: fun_eq_iff)
  moreover have "\<exists>F p f b. u = s\<lparr>files := F, pos := p, fat := f, buf := b\<rparr>"
  proof -
    from assms obtain F p f b F' p' f' b' where
      "t = s\<lparr>files := F, pos := p, fat := f, buf := b\<rparr>" "u = t\<lparr>files := F', pos := p', fat := f', buf := b'\<rparr>"
      unfolding wrote_def by blast
    then have "u = s\<lparr>files := F', pos := p', fat := f', buf := b'\<rparr>" by simp
    then show ?thesis by blast
  qed
  ultimately show ?thesis using assms(2) by (simp add: wrote_def)
qed

text \<open>Writing one piece at a granule.\<close>

definition store_piece :: "nat \<Rightarrow> bytes \<Rightarrow> decb \<Rightarrow> decb" where
  "store_piece x b s = fdwrite (to_disk (trans s) b)
     ((if trans s then nl2cr (into_buf b s) else into_buf b s)\<lparr>pos := origin s + gran_pos x\<rparr>)"

lemma store_piece_ok:
  assumes "ready s" and "x < 68" and "length b \<le> GRANZ"
  shows "wrote s (store_piece x b s)"
    and "content (store_piece x b s) = pwrite (origin s + gran_pos x) (to_disk (trans s) b) (content s)"
    and "fat (store_piece x b s) = fat s"
proof -
  show c: "content (store_piece x b s) = pwrite (origin s + gran_pos x) (to_disk (trans s) b) (content s)"
    by (simp add: store_piece_def fdwrite_def content_def nl2cr_def into_buf_def)
  show "fat (store_piece x b s) = fat s"
    by (simp add: store_piece_def fdwrite_def nl2cr_def into_buf_def)
  have "length (buf (store_piece x b s)) = GRANZ"
    using assms by (simp add: store_piece_def fdwrite_def nl2cr_def into_buf_def ready_def)
  moreover have "origin (store_piece x b s) = origin s" "offset (store_piece x b s) = offset s"
    "files (store_piece x b s) (img (store_piece x b s)) \<noteq> None" "fat (store_piece x b s) = fat s"
    by (simp_all add: store_piece_def fdwrite_def nl2cr_def into_buf_def origin_def)
  ultimately have "ready (store_piece x b s)"
    using assms(1) by (simp add: ready_def c)
  moreover have "files (store_piece x b s) = (files s)(img s := Some (content (store_piece x b s)))"
    unfolding c by (simp add: store_piece_def fdwrite_def nl2cr_def into_buf_def content_def)
  moreover have "\<exists>F p f b'. store_piece x b s = s\<lparr>files := F, pos := p, fat := f, buf := b'\<rparr>"
    by (cases s) (auto simp: store_piece_def fdwrite_def nl2cr_def into_buf_def)
  ultimately show "wrote s (store_piece x b s)" by (simp add: wrote_def)
qed

lemma put_piece_ok:
  assumes "ready s" and "length b \<le> GRANZ"
  shows "put_piece x b s = Inr ((), store_piece x b s)"
proof -
  define s2 where "s2 = (if trans s then nl2cr (into_buf b s) else into_buf b s)"
  have o: "0 \<le> offset s" using assms(1) by (simp add: ready_def)
  have t: "trans (into_buf b s) = trans s" by (simp add: into_buf_def)
  have p: "seekgran x s2 = Inr ((), s2\<lparr>pos := origin s + gran_pos x\<rparr>)"
    using o by (subst seekgran_ok) (simp_all add: s2_def into_buf_def nl2cr_def origin_def)
  have b: "take (length b) (buf s2) = to_disk (trans s) b"
    by (simp add: s2_def into_buf_def nl2cr_def to_disk_def take_map)
  have "put_piece x b s = rbind (seekgran x s2) (\<lambda>(_, s3). Inr ((), fdwrite (take (length b) (buf s3)) s3))"
    unfolding put_piece_def Let_def t s2_def ..
  also have "\<dots> = Inr ((), fdwrite (to_disk (trans s) b) (s2\<lparr>pos := origin s + gran_pos x\<rparr>))"
    by (simp add: p b)
  finally show ?thesis unfolding store_piece_def s2_def .
qed

lemma findgran_free:
  assumes "length (fat s) = FATZ" and "0 < count_list (fat s) 0xff"
  shows "\<exists>y. findgran s = (int y, s\<lparr>fat := (fat s)[y := 0xc0]\<rparr>) \<and> y < FATZ \<and> fat s ! y = 0xff"
proof -
  have "0xff \<in> set (fat s)" using assms(2) by (metis count_notin less_irrefl)
  then obtain i where i: "i < FATZ" "fat s ! i = 0xff" using assms(1) by (metis in_set_conv_nth)
  then have "List.find (\<lambda>x. fat s ! x = 0xff) [0..<FATZ] \<noteq> None"
    by (auto simp: find_None_iff)
  then obtain y where y: "List.find (\<lambda>x. fat s ! x = 0xff) [0..<FATZ] = Some y" by blast
  then have "y < FATZ \<and> fat s ! y = 0xff" by (auto simp: find_Some_iff)
  with y show ?thesis by (simp add: findgran_def)
qed

lemma findgran_full:
  assumes "length (fat s) = FATZ" and "0xff \<notin> set (fat s)"
  shows "findgran s = (-1, s)"
proof -
  have "List.find (\<lambda>x. fat s ! x = 0xff) [0..<FATZ] = None"
    using assms by (auto simp: find_None_iff) (metis nth_mem)
  then show ?thesis by (simp add: findgran_def)
qed

text \<open>
  The loop of \<open>put\<close>, started at a granule already taken, with enough free granules: it stores
  the source along a chain of fresh granules, and leaves all granules in use, their table
  entries, and the directory as they were.
\<close>

lemma put_loop_ok:
  assumes "ready s" and "x < FATZ" and "fat s ! x = 0xc0"
    and "length src div GRANZ \<le> count_list (fat s) 0xff"
  shows "\<exists>x' t. put_loop src x s = Inr ((x', length src mod GRANZ), t) \<and> wrote s t \<and> x' < FATZ
    \<and> fat t ! x' = 0xc0
    \<and> fat_of (origin s) (content t) = fat_of (origin s) (content s)
    \<and> dir_of (origin s) (content t) = dir_of (origin s) (content s)
    \<and> (\<forall>g<FATZ. fat s ! g \<noteq> 0xff \<longrightarrow> g \<noteq> x \<longrightarrow> g \<noteq> x' \<and> fat t ! g = fat s ! g
         \<and> gran_at (origin s) (content t) g = gran_at (origin s) (content s) g)
    \<and> (\<forall>e c z. last_gran c \<longrightarrow> last_size c e = int z \<longrightarrow> z \<le> length src mod GRANZ \<longrightarrow>
         chain_data (Suc (length src div GRANZ)) (origin s) (content t) ((fat t)[x' := c]) e (of_nat x)
           = Some (to_disk (trans s) (take (length src div GRANZ * GRANZ + z) src)))
    \<and> count_list (fat t) 0xff + length src div GRANZ = count_list (fat s) 0xff"
  using assms
proof (induction "length src div GRANZ" arbitrary: src x s)
  case 0
  then have l: "length src < GRANZ" by (simp add: div_eq_0_iff)
  let ?t = "store_piece x src s"
  note sp = store_piece_ok [OF 0(2,3), of src, simplified]
  have o: "image_ok (origin s) (content s)" "length (fat s) = FATZ" using 0(2) by (simp_all add: ready_def)
  have "put_loop src x s = Inr ((x, length src), ?t)"
    using put_piece_ok [OF 0(2), of src x] l by (subst put_loop.simps) simp
  moreover have "fat_of (origin s) (content ?t) = fat_of (origin s) (content s)"
    "dir_of (origin s) (content ?t) = dir_of (origin s) (content s)"
    using sp l o 0(3) by (simp_all add: fat_of_gran dir_of_gran)
  moreover have "gran_at (origin s) (content ?t) g = gran_at (origin s) (content s) g" if "g < 68" "g \<noteq> x" for g
    using sp l o that by (simp add: gran_at_gran)
  moreover have "take z (gran_at (origin s) (content ?t) x) = to_disk (trans s) (take z src)"
    if "z \<le> length src" for z
  proof -
    have "take (length src) (gran_at (origin s) (content ?t) x) = to_disk (trans s) src"
      using gran_at_same [OF o(1) 0(3), of "to_disk (trans s) src"] sp l by simp
    then have "take z (take (length src) (gran_at (origin s) (content ?t) x)) = take z (to_disk (trans s) src)"
      by simp
    with that show ?thesis by (simp add: min_absorb1 to_disk_def take_map)
  qed
  moreover have "unat (of_nat x :: u8) = x" using 0(3) by (simp add: unat_of_nat)
  ultimately show ?case
    using sp l o 0(3,4) by (intro exI [of _ x] exI [of _ ?t]) (auto simp: Let_def)
next
  case (Suc n)
  then have l: "GRANZ \<le> length src" by (metis div_less not_le nat.simps(3))
  let ?b = "take GRANZ src" and ?src = "drop GRANZ src" and ?o = "origin s"
  let ?s1 = "store_piece x ?b s"
  have bl: "length ?b \<le> GRANZ" by simp
  note sp = store_piece_ok [OF Suc.prems(1,2) bl]
  have o: "image_ok ?o (content s)" "length (fat s) = FATZ" using Suc.prems(1) by (simp_all add: ready_def)
  have c1: "0 < count_list (fat ?s1) 0xff" using Suc.prems(4) Suc.hyps(2) sp(3) by simp
  have l1: "length (fat ?s1) = FATZ" using o(2) sp(3) by simp
  from findgran_free [OF l1 c1] sp(3) obtain y where
    y: "findgran ?s1 = (int y, ?s1\<lparr>fat := (fat s)[y := 0xc0]\<rparr>)" "y < FATZ" "fat s ! y = 0xff"
    by auto
  have yx: "y \<noteq> x" using y(3) Suc.prems(3) by auto
  have uy: "unat (of_nat y :: u8) = y" using y(2) by (simp add: unat_of_nat)
  have ly: "\<not> last_gran (of_nat y)" using y(2) uy by (intro last_gran_small) simp
  let ?f2 = "(fat s)[y := 0xc0, x := of_nat y]"
  let ?s2 = "?s1\<lparr>fat := ?f2\<rparr>"
  have step: "put_loop src x s = put_loop ?src y ?s2"
    using put_piece_ok [OF Suc.prems(1) bl, of x] l y uy o Suc.prems(2)
    by (subst put_loop.simps) (simp add: Let_def)
  have w2: "wrote s ?s2"
  proof -
    have "ready ?s2" using wroteD(1) [OF sp(1)] o(2) by (simp add: ready_def origin_def content_def)
    moreover from sp(1) obtain F p f b' where "?s1 = s\<lparr>files := F, pos := p, fat := f, buf := b'\<rparr>"
      unfolding wrote_def by blast
    then have "?s2 = s\<lparr>files := F, pos := p, fat := ?f2, buf := b'\<rparr>" by simp
    moreover have "files ?s2 = (files s)(img s := Some (content ?s2))"
      using wroteD(2) [OF sp(1)] by (simp add: content_def)
    ultimately show ?thesis unfolding wrote_def by blast
  qed
  note d2 = wroteD [OF w2]
  have c2: "content ?s2 = content ?s1" by (simp add: content_def)
  have cnt: "Suc (count_list ?f2 0xff) = count_list (fat s) 0xff"
  proof -
    have "of_nat y \<noteq> (0xff :: u8)" using ly by (auto simp: last_gran_def)
    then show ?thesis
      using y o(2) yx Suc.prems(2,3)
      by (subst count_list_update_other) (auto simp: count_list_update_away)
  qed
  have n: "n = length ?src div GRANZ" using Suc.hyps(2) l by (simp add: le_div_geq)
  have IH: "\<exists>x' t. put_loop ?src y ?s2 = Inr ((x', length ?src mod GRANZ), t) \<and> wrote ?s2 t \<and> x' < FATZ
    \<and> fat t ! x' = 0xc0
    \<and> fat_of (origin ?s2) (content t) = fat_of (origin ?s2) (content ?s2)
    \<and> dir_of (origin ?s2) (content t) = dir_of (origin ?s2) (content ?s2)
    \<and> (\<forall>g<FATZ. fat ?s2 ! g \<noteq> 0xff \<longrightarrow> g \<noteq> y \<longrightarrow> g \<noteq> x' \<and> fat t ! g = fat ?s2 ! g
         \<and> gran_at (origin ?s2) (content t) g = gran_at (origin ?s2) (content ?s2) g)
    \<and> (\<forall>e c z. last_gran c \<longrightarrow> last_size c e = int z \<longrightarrow> z \<le> length ?src mod GRANZ \<longrightarrow>
         chain_data (Suc (length ?src div GRANZ)) (origin ?s2) (content t) ((fat t)[x' := c]) e (of_nat y)
           = Some (to_disk (trans ?s2) (take (length ?src div GRANZ * GRANZ + z) ?src)))
    \<and> count_list (fat t) 0xff + length ?src div GRANZ = count_list (fat ?s2) 0xff"
  proof (rule Suc.hyps(1) [OF n d2(1) y(2)])
    show "fat ?s2 ! y = 0xc0" using y(2) yx o(2) by simp
    show "length ?src div GRANZ \<le> count_list (fat ?s2) 0xff"
      using cnt Suc.hyps(2) Suc.prems(4) n by simp
  qed
  have o2: "origin ?s2 = ?o" "trans ?s2 = trans s" using d2 by simp_all
  have f2: "fat ?s2 = ?f2" by simp
  from IH obtain x' t where t: "put_loop ?src y ?s2 = Inr ((x', length ?src mod GRANZ), t)"
    "wrote ?s2 t" "x' < FATZ" "fat t ! x' = 0xc0"
    "fat_of ?o (content t) = fat_of ?o (content ?s1)" "dir_of ?o (content t) = dir_of ?o (content ?s1)"
    and fr: "\<And>g. g < FATZ \<Longrightarrow> ?f2 ! g \<noteq> 0xff \<Longrightarrow> g \<noteq> y \<Longrightarrow> g \<noteq> x' \<and> fat t ! g = ?f2 ! g
         \<and> gran_at ?o (content t) g = gran_at ?o (content ?s1) g"
    and ch: "\<And>e c z. last_gran c \<Longrightarrow> last_size c e = int z \<Longrightarrow> z \<le> length ?src mod GRANZ \<Longrightarrow>
         chain_data (Suc (length ?src div GRANZ)) ?o (content t) ((fat t)[x' := c]) e (of_nat y)
           = Some (to_disk (trans s) (take (length ?src div GRANZ * GRANZ + z) ?src))"
    and ct: "count_list (fat t) 0xff + length ?src div GRANZ = count_list ?f2 0xff"
    unfolding o2 c2 f2 by blast
  have md: "length ?src mod GRANZ = length src mod GRANZ" using l by (simp add: le_mod_geq)
  have tb: "length (to_disk (trans s) ?b) = GRANZ" using l by simp
  have nff: "(of_nat y :: u8) \<noteq> 0xff" using ly by (auto simp: last_gran_def)
  have fx: "?f2 ! x = of_nat y" using o(2) Suc.prems(2) by simp
  from fr [of x] nff yx fx Suc.prems(2) have x: "x \<noteq> x'" "fat t ! x = of_nat y"
    "gran_at ?o (content t) x = gran_at ?o (content ?s1) x" by auto
  have gx: "gran_at ?o (content t) x = to_disk (trans s) ?b"
    unfolding x(3) sp(2) using gran_at_same [OF o(1) Suc.prems(2), of "to_disk (trans s) ?b"] tb o(1) Suc.prems(2)
    by simp
  have A: "fat_of ?o (content t) = fat_of ?o (content s)" "dir_of ?o (content t) = dir_of ?o (content s)"
    using t(5,6) sp(2) o(1) Suc.prems(2) by (simp_all add: fat_of_gran dir_of_gran)
  have B: "g \<noteq> x' \<and> fat t ! g = fat s ! g \<and> gran_at ?o (content t) g = gran_at ?o (content s) g"
    if "g < FATZ" "fat s ! g \<noteq> 0xff" "g \<noteq> x" for g
  proof -
    have "g \<noteq> y" using that(2) y(3) by auto
    with that o(2) have e: "?f2 ! g = fat s ! g" by simp
    have "gran_at ?o (content ?s1) g = gran_at ?o (content s) g"
      unfolding sp(2) using that o(1) by (intro gran_at_gran) simp_all
    with fr [of g] that \<open>g \<noteq> y\<close> e show ?thesis by simp
  qed
  have C: "chain_data (Suc (length src div GRANZ)) ?o (content t) ((fat t)[x' := c]) e (of_nat x)
      = Some (to_disk (trans s) (take (length src div GRANZ * GRANZ + z) src))"
    if "last_gran c" "last_size c e = int z" "z \<le> length src mod GRANZ" for e c z
  proof -
    let ?n = "length ?src div GRANZ * GRANZ + z"
    have ux: "unat (of_nat x :: u8) = x" using Suc.prems(2) by (simp add: unat_of_nat)
    have "chain_data (Suc n) ?o (content t) ((fat t)[x' := c]) e (of_nat y) =
        Some (to_disk (trans s) (take ?n ?src))"
      using ch [OF that(1,2)] that(3) md n by simp
    moreover have "take (length src div GRANZ * GRANZ + z) src = ?b @ take ?n ?src"
    proof -
      have "length src div GRANZ * GRANZ + z = GRANZ + ?n" using n Suc.hyps(2) by simp
      then show ?thesis by (simp only: take_add)
    qed
    then have "to_disk (trans s) (take (length src div GRANZ * GRANZ + z) src) =
        to_disk (trans s) ?b @ to_disk (trans s) (take ?n ?src)"
      by (simp only:) (simp add: to_disk_def)
    moreover have "((fat t)[x' := c]) ! x = of_nat y" using x(1,2) by simp
    ultimately show ?thesis
      using Suc.prems(2) ux ly gx Suc.hyps(2) [symmetric]
      by (subst chain_data.simps(2)) (simp add: Let_def)
  qed
  have D: "count_list (fat t) 0xff + length src div GRANZ = count_list (fat s) 0xff"
    using ct cnt n Suc.hyps(2) by simp
  have E: "put_loop src x s = Inr ((x', length src mod GRANZ), t)" using step t(1) md by simp
  have B': "\<forall>g<FATZ. fat s ! g \<noteq> 0xff \<longrightarrow> g \<noteq> x \<longrightarrow> g \<noteq> x' \<and> fat t ! g = fat s ! g
      \<and> gran_at ?o (content t) g = gran_at ?o (content s) g" using B by blast
  have C': "\<forall>e c z. last_gran c \<longrightarrow> last_size c e = int z \<longrightarrow> z \<le> length src mod GRANZ \<longrightarrow>
      chain_data (Suc (length src div GRANZ)) ?o (content t) ((fat t)[x' := c]) e (of_nat x)
        = Some (to_disk (trans s) (take (length src div GRANZ * GRANZ + z) src))" using C by blast
  show ?case
    by (rule exI [of _ x'], rule exI [of _ t])
      (intro conjI E wrote_trans [OF w2 t(2)] t(3,4) A B' C' D)
qed

end
