(* ===== verification/Decb_Spec.thy ===== *)
theory Decb_Spec
  imports Decb_Chain
begin

text \<open>
  The commands of \<open>decb\<close> as operations on the files of a disk image: get reads what
  \<open>file_of\<close> says, put adds a file and leaves the others alone, rm removes one, mkfs makes an
  empty disk; and where the commands do something else.
\<close>

section \<open>Opening an image\<close>

text \<open>A fresh process whose first argument names an image of at least 35 tracks.\<close>

definition disk_ready :: "string \<Rightarrow> bytes \<Rightarrow> decb \<Rightarrow> bool" where
  "disk_ready n f s \<longleftrightarrow> files s n = Some f \<and> \<not> denied s n \<and> 0 \<le> offset s \<and> image_ok (origin s) f
     \<and> length (buf s) = GRANZ \<and> estate s = 0"

definition opened :: "string \<Rightarrow> bytes \<Rightarrow> decb \<Rightarrow> decb" where
  "opened n f s = s\<lparr>img := n, pos := origin s + FATST + FATZ, fat := fat_of (origin s) f\<rparr>"

lemma openimg_ok:
  assumes "disk_ready n f s"
  shows "openimg n s = Inr ((), opened n f s)"
proof -
  have o: "0 \<le> offset s" "image_ok (origin s) f" "files s n = Some f" "\<not> denied s n"
    using assms by (simp_all add: disk_ready_def)
  have p: "nat (int FATST + offset s) = origin s + FATST"
    using o(1) by (simp add: origin_def nat_add_distrib)
  have l: "length (pread (origin s + FATST) FATZ f) = FATZ"
    using length_fat_of [OF o(2)] by (simp add: fat_of_def)
  then have "pread (origin s + FATST) FATZ f \<noteq> []" by auto
  with o p l show ?thesis
    by (simp add: openimg_def open_read_def loadfat_def seekfat_def dlseek_def fdread_def content_def
        Let_def opened_def fat_of_def)
qed

lemma opened_simps [simp]:
  "files (opened n f s) = files s" "img (opened n f s) = n" "fat (opened n f s) = fat_of (origin s) f"
  "origin (opened n f s) = origin s" "buf (opened n f s) = buf s" "offset (opened n f s) = offset s"
  "denied (opened n f s) = denied s" "trans (opened n f s) = trans s" "estate (opened n f s) = estate s"
  "deftype (opened n f s) = deftype s" "defaflag (opened n f s) = defaflag s"
  by (simp_all add: opened_def origin_def)

lemma openimg_ready:
  assumes "disk_ready n f s"
  shows "ready (opened n f s)" and "content (opened n f s) = f" and "scanning 0 (opened n f s)"
  using assms by (auto simp: disk_ready_def ready_def content_def scanning_def)

lemma ready_buf: "ready s \<Longrightarrow> length b = GRANZ \<Longrightarrow> ready (s\<lparr>buf := b\<rparr>)"
  by (simp add: ready_def origin_def content_def)

lemma find_file_Some:
  assumes "ready s" and "scanning 0 s" and "key nm = Some k"
    and "lookup k (dir_of (origin s) (content s)) = Some i"
  shows "\<exists>t b. find_file nm s = Inr (True, t) \<and> scanned (s\<lparr>buf := b\<rparr>) t \<and> length b = GRANZ
    \<and> entry t = dir_of (origin s) (content s) ! i \<and> entry_off t = origin s + DIRST + 32 * i"
proof -
  have "length (buf s) = GRANZ" using assms(1) by (simp add: ready_def)
  from stringconv_ok [OF assms(3) this] obtain b where
    b: "stringconv nm s = Inr ((), s\<lparr>buf := b\<rparr>)" "length b = GRANZ" "take 11 b = k" by blast
  let ?s = "s\<lparr>buf := b\<rparr>"
  have e: "origin ?s = origin s" "content ?s = content s" by (simp_all add: origin_def content_def)
  have "scanning 0 ?s" using assms(2) by (simp add: scanning_def origin_def)
  from find_loop_Some [OF ready_buf [OF assms(1) b(2)] this, of i] assms(4) b(3) e
  show ?thesis using b(1,2) by (fastforce simp: find_file_def)
qed

lemma find_file_None:
  assumes "ready s" and "scanning 0 s" and "key nm = Some k"
    and "lookup k (dir_of (origin s) (content s)) = None"
  shows "\<exists>t b. find_file nm s = Inr (False, t) \<and> scanned (s\<lparr>buf := b\<rparr>) t \<and> length b = GRANZ"
proof -
  have "length (buf s) = GRANZ" using assms(1) by (simp add: ready_def)
  from stringconv_ok [OF assms(3) this] obtain b where
    b: "stringconv nm s = Inr ((), s\<lparr>buf := b\<rparr>)" "length b = GRANZ" "take 11 b = k" by blast
  let ?s = "s\<lparr>buf := b\<rparr>"
  have e: "origin ?s = origin s" "content ?s = content s" by (simp_all add: origin_def content_def)
  have "scanning 0 ?s" using assms(2) by (simp add: scanning_def origin_def)
  from find_loop_None [OF ready_buf [OF assms(1) b(2)] this] assms(4) b(3) e
  show ?thesis using b(1,2) by (fastforce simp: find_file_def)
qed

section \<open>get\<close>

lemma get_file_ok:
  assumes "disk_ready n f s" and "file_of (origin s) f nm = Some d" and "dst \<noteq> n" and "\<not> denied s dst"
  shows "\<exists>t. get n nm dst s = Some (Inr ((), t))
    \<and> files t = (files s)(dst := Some (from_disk (trans s) d))"
proof -
  let ?s = "opened n f s" and ?o = "origin s"
  note r = openimg_ready [OF assms(1)]
  from assms(2) obtain k i where k: "key nm = Some k" "lookup k (dir_of ?o f) = Some i"
    "chain_data FATZ ?o f (fat_of ?o f) (dir_of ?o f ! i) (first (dir_of ?o f ! i)) = Some d"
    by (auto simp: file_of_def split: option.splits)
  from find_file_Some [OF r(1,3) k(1)] r(2) k(2) obtain t b where
    t: "find_file nm ?s = Inr (True, t)" "scanned (?s\<lparr>buf := b\<rparr>) t" "length b = GRANZ"
      "entry t = dir_of ?o f ! i" by auto
  note d = scannedD [OF t(2)]
  let ?t = "t\<lparr>files := (files t)(dst := Some [])\<rparr>"
  have oc: "open_create dst True t = Inr ((), ?t)"
    using d assms(4) by (simp add: open_create_def)
  have cc: "content ?t = f" "origin ?t = ?o" "fat ?t = fat_of ?o f" "entry ?t = dir_of ?o f ! i"
    "img ?t = n" "trans ?t = trans s"
  proof -
    have "files s n = Some f" using assms(1) by (simp add: disk_ready_def)
    with d assms(3) show "content ?t = f" by (simp add: content_def)
    show "origin ?t = ?o" using d(6) by (simp add: origin_def)
    show "fat ?t = fat_of ?o f" "entry ?t = dir_of ?o f ! i" "img ?t = n" "trans ?t = trans s"
      using d t(4) by simp_all
  qed
  have rt: "ready ?t"
  proof -
    have "ready (?s\<lparr>buf := b\<rparr>)" by (rule ready_buf [OF r(1) t(3)])
    then have "ready t" using d by simp
    moreover have "files ?t n \<noteq> None"
      using assms(1,3) d by (simp add: disk_ready_def)
    ultimately show ?thesis
      using cc r(2) assms(1) d(3,5) by (simp add: ready_def disk_ready_def)
  qed
  have ft: "files ?t dst = Some []" by simp
  have ni: "dst \<noteq> img ?t" using cc(5) assms(3) by simp
  have cd: "chain_data FATZ (origin ?t) (content ?t) (fat ?t) (entry ?t) (first (entry ?t)) = Some d"
    using k(3) by (simp only: cc)
  from get_loop_ok [OF rt ni ft cd] obtain u where
    u: "get_loop dst (first (entry ?t)) ?t = Some (Inr ((), u))"
      "files u = (files ?t)(dst := Some ([] @ from_disk (trans ?t) d))" by blast
  have "get n nm dst s = Some (Inr ((), u))"
    using u(1) by (simp add: get_def openimg_ok [OF assms(1)] t(1) oc)
  moreover have "files u = (files s)(dst := Some (from_disk (trans s) d))"
    using u(2) d cc(6) by (simp add: fun_eq_iff)
  ultimately show ?thesis by blast
qed

section \<open>put\<close>

lemma lookup_fill:
  assumes "lookup k es = None" and "free_slot es = Some i" and "key_of e = k" and "name e ! 0 \<noteq> 0xff"
  shows "lookup k (es[i := e]) = Some i"
  using assms by (induction es arbitrary: i) (auto split: if_splits)

lemma lookup_fill_other:
  assumes "lookup k es = Some j" and "free_slot es = Some i" and "key_of e \<noteq> k" and "name e ! 0 \<noteq> 0xff"
    and "name (es ! j) ! 0 \<noteq> 0"
  shows "lookup k (es[i := e]) = Some j \<and> i \<noteq> j"
  using assms
proof (induction es arbitrary: i j)
  case (Cons x es)
  show ?case
  proof (cases "name x ! 0 = 0")
    case True
    with Cons.prems have "i = 0" by simp
    with True Cons.prems show ?thesis by (cases j) (auto split: if_splits)
  next
    case False
    with Cons show ?thesis by (cases j) (auto split: if_splits)
  qed
qed simp

lemma last_size_put:
  assumes "sz < GRANZ" and "sz mod 256 \<noteq> 0"
    and "rem0 e = word_of_nat (sz mod SECZ div 256)" and "rem1 e = word_of_nat (sz mod SECZ)"
  shows "last_size (0xc0 OR word_of_nat ((sz + 255) div SECZ)) e = int sz"
proof -
  define q where "q = sz div 256"
  have q: "q < 9" using assms(1) by (simp add: q_def)
  have e: "(sz + 255) div 256 = q + 1"
  proof -
    have "sz = 256 * q + sz mod 256" by (simp add: q_def)
    with assms(2) show ?thesis by linarith
  qed
  have "q + 1 \<in> {1, 2, 3, 4, 5, 6, 7, 8, 9}" using q by auto
  then have "((0xc0 OR word_of_nat (q + 1)) AND 0x3f :: u8) = word_of_nat (q + 1)"
    by (auto simp: of_nat_Suc)
  moreover have "uint (word_of_nat (q + 1) :: u8) = int q + 1"
    using q by (simp add: unsigned_of_nat take_bit_nat_def del: of_nat_Suc)
  ultimately have u: "uint ((0xc0 OR word_of_nat ((sz + 255) div SECZ)) AND 0x3f :: u8) = int q + 1"
    by (simp add: e)
  have r0: "rem0 e = 0" using assms(3) by simp
  have r1: "uint (rem1 e) = int (sz mod 256)"
    using assms(4) by (simp add: unsigned_of_nat take_bit_nat_def)
  have "q * 256 + sz mod 256 = sz" by (simp add: q_def)
  then have "int q * 256 + int (sz mod 256) = int sz" by linarith
  moreover have "int16 (int sz) = int sz"
    unfolding int16_def using assms(1) by (subst int_word_sint) simp
  ultimately show ?thesis
    unfolding last_size_def u r0 r1 by (simp add: be16_def)
qed

lemma last_size_put_whole:
  assumes "sz < GRANZ" and "sz mod 256 = 0" and "0 < sz"
    and "rem0 e = word_of_nat (sz mod SECZ div 256)" and "rem1 e = word_of_nat (sz mod SECZ)"
  shows "last_size (0xc0 OR word_of_nat ((sz + 255) div SECZ)) e = int (sz - 256)"
proof -
  obtain q where q: "sz = 256 * q" using assms(2) by (auto elim: dvdE simp: mod_eq_0_iff_dvd)
  with assms(1,3) have "q \<in> {1, 2, 3, 4, 5, 6, 7, 8}" by auto
  moreover have "(sz + 255) div 256 = q" using q by simp
  ultimately show ?thesis
    using assms(4,5) q by (auto simp: last_size_def be16_def int16_def)
qed

text \<open>What \<open>put\<close> makes of an image: the new table, the new directory entry, the new data.\<close>

lemma key_entry:
  assumes "length b = GRANZ" and "take 11 b = k" and "name e = take 8 b" and "ext e = take 3 (drop 8 b)"
  shows "key_of e = k"
proof -
  have "take 11 b = take 8 b @ take 3 (drop 8 b)" using take_add [of 8 3 b] by simp
  with assms show ?thesis by (simp add: key_of_def entry_bytes_def)
qed

lemma saveentry_ok:
  "saveentry s = Inr ((), fdwrite (entry_bytes (entry s)) (s\<lparr>pos := entry_off s\<rparr>))"
  by (simp add: saveentry_def dlseek_def)

lemma savefat_ok:
  assumes "0 \<le> offset s"
  shows "savefat s = Inr ((), fdwrite (fat s) (s\<lparr>pos := origin s + FATST\<rparr>))"
  using assms by (simp add: savefat_def seekfat_def dlseek_def origin_def nat_add_distrib add.commute)

text \<open>What the end of \<open>put\<close> writes.\<close>

lemma put_finish_ok:
  assumes r: "ready s" and x: "x < FATZ" and k: "key nm = Some k" and i: "i < 72"
    and off: "entry_off s = origin s + DIRST + 32 * i" and eo: "entry_ok (entry s)"
    and q: "q = 0xc0 OR word_of_nat ((sz + 255) div SECZ)"
  shows "\<exists>t f' e. put_finish nm x sz s = Inr ((), t) \<and> files t = (files s)(img s := Some f')
    \<and> image_ok (origin s) f' \<and> entry_ok e \<and> key_of e = k \<and> first e = first (entry s)
    \<and> rem0 e = word_of_nat (sz mod SECZ div 256) \<and> rem1 e = word_of_nat (sz mod SECZ)
    \<and> dir_of (origin s) f' = (dir_of (origin s) (content s))[i := e]
    \<and> fat_of (origin s) f' = (fat s)[x := q]
    \<and> (\<forall>g<FATZ. gran_at (origin s) f' g = gran_at (origin s) (content s) g)"
proof -
  have o: "0 \<le> offset s" "image_ok (origin s) (content s)" "length (buf s) = GRANZ" "length (fat s) = FATZ"
    using r by (simp_all add: ready_def)
  define s1 where "s1 = s\<lparr>entry := (entry s)\<lparr>rem0 := word_of_nat (sz mod SECZ div 256),
                     rem1 := word_of_nat (sz mod SECZ)\<rparr>, fat := (fat s)[x := q]\<rparr>"
  have "length (buf s1) = GRANZ" using o(3) by (simp add: s1_def)
  from stringconv_ok [OF k this] obtain b where
    b: "stringconv nm s1 = Inr ((), s1\<lparr>buf := b\<rparr>)" "length b = GRANZ" "take 11 b = k" by blast
  define e where "e = (entry s1)\<lparr>name := take 8 b, ext := take 3 (drop 8 b),
                    type := deftype s1, aflag := defaflag s1\<rparr>"
  have eok: "entry_ok e" using eo b(2) by (simp add: entry_ok_def e_def s1_def)
  note le = length_entry_bytes [OF eok]
  have ek: "key_of e = k" by (rule key_entry [OF b(2,3)]) (simp_all add: e_def)
  define s2 where "s2 = s1\<lparr>buf := b, entry := e\<rparr>"
  define f2 where "f2 = pwrite (origin s + DIRST + 32 * i) (entry_bytes e) (content s)"
  define s3 where "s3 = fdwrite (entry_bytes e) (s2\<lparr>pos := entry_off s2\<rparr>)"
  have c3: "content s3 = f2" "files s3 = (files s)(img s := Some f2)" "img s3 = img s" "offset s3 = offset s"
    "fat s3 = (fat s)[x := q]" "origin s3 = origin s"
    using off by (simp_all add: s3_def s2_def s1_def f2_def fdwrite_def content_def origin_def)
  have se: "saveentry s2 = Inr ((), s3)" by (simp add: saveentry_ok s3_def s2_def)
  have l: "length ((fat s)[x := q]) = FATZ" using o(4) by simp
  define f4 where "f4 = pwrite (origin s + FATST) ((fat s)[x := q]) f2"
  define s4 where "s4 = fdwrite (fat s3) (s3\<lparr>pos := origin s3 + FATST\<rparr>)"
  have sf: "savefat s3 = Inr ((), s4)" using o(1) c3(4) by (simp add: savefat_ok s4_def)
  have f4: "files s4 = (files s)(img s := Some f4)"
    using c3 by (simp add: s4_def f4_def fdwrite_def content_def fun_eq_iff)
  have run: "put_finish nm x sz s = Inr ((), s4)"
    using x o(4) b(1) se sf unfolding put_finish_def q [symmetric] Let_def s1_def [symmetric]
    by (simp add: e_def [symmetric] s2_def [symmetric] flip: e_def)
  have io2: "image_ok (origin s) f2" using o(2) by (simp add: f2_def)
  have io4: "image_ok (origin s) f4" using io2 by (simp add: f4_def)
  have "fat_of (origin s) f4 = (fat s)[x := q]" unfolding f4_def by (rule fat_of_fat [OF l])
  moreover have "dir_of (origin s) f4 = (dir_of (origin s) (content s))[i := e]"
    using dir_of_fat [OF io2 l] dir_of_slot [OF o(2) i le] bytes_entry_bytes [OF eok]
    by (simp add: f4_def f2_def)
  moreover have "gran_at (origin s) f4 g = gran_at (origin s) (content s) g" if "g < FATZ" for g
    using gran_at_fat [OF io2 that l] gran_at_slot [OF o(2) that i le] by (simp add: f4_def f2_def)
  moreover have "first e = first (entry s)" "rem0 e = word_of_nat (sz mod SECZ div 256)"
    "rem1 e = word_of_nat (sz mod SECZ)" by (simp_all add: e_def s1_def)
  ultimately show ?thesis using run f4 io4 eok ek by blast
qed

lemma put_ok:
  assumes dr: "disk_ready n f s" and k: "key nm = Some k" "lookup k (dir_of (origin s) f) = None"
    and slot: "free_slot (dir_of (origin s) f) = Some i"
    and src: "files s src = Some c" "\<not> denied s src" "src \<noteq> n"
    and room: "length c div GRANZ < count_list (fat_of (origin s) f) 0xff"
  shows "\<exists>t f' e. put n src nm s = Inr ((), t) \<and> files t = (files s)(n := Some f')
    \<and> image_ok (origin s) f' \<and> entry_ok e \<and> key_of e = k
    \<and> dir_of (origin s) f' = (dir_of (origin s) f)[i := e]
    \<and> (\<forall>g<FATZ. fat_of (origin s) f ! g \<noteq> 0xff \<longrightarrow>
         fat_of (origin s) f' ! g = fat_of (origin s) f ! g \<and> gran_at (origin s) f' g = gran_at (origin s) f g)
    \<and> (c \<noteq> [] \<longrightarrow> length c mod GRANZ \<noteq> 0 \<longrightarrow>
         chain_data FATZ (origin s) f' (fat_of (origin s) f') e (first e) =
           Some (to_disk (trans s) (take (length c - (if length c mod 256 = 0 then 256 else 0)) c)))"
proof -
  let ?o = "origin s" and ?s = "opened n f s" and ?m = "length c mod GRANZ"
  note op = openimg_ready [OF dr]
  have io: "image_ok ?o f" and fn: "files s n = Some f" and o0: "0 \<le> offset s"
    using dr by (simp_all add: disk_ready_def)
  from find_file_None [OF op(1,3) k(1)] op(2) k(2) obtain t1 b where
    t1: "find_file nm ?s = Inr (False, t1)" "scanned (?s\<lparr>buf := b\<rparr>) t1" "length b = GRANZ" by auto
  note d1 = scannedD [OF t1(2)]
  let ?t1 = "t1\<lparr>estate := 0\<rparr>"
  have rt: "ready (?s\<lparr>buf := b\<rparr>)" by (rule ready_buf [OF op(1) t1(3)])
  have r1: "ready ?t1" "origin ?t1 = ?o" "content ?t1 = f" "scanning 0 ?t1"
  proof -
    have "ready t1" using rt d1(8) by simp
    then show "ready ?t1" by (simp add: ready_def origin_def content_def)
    show "origin ?t1 = ?o" using d1(5) by (simp add: origin_def)
    show "content ?t1 = f" using d1(1,2) fn by (simp add: content_def)
    show "scanning 0 ?t1" by (simp add: scanning_def)
  qed
  from free_entry_loop_Some [OF r1(1,4), of i] r1(2,3) slot obtain t2 where
    t2: "free_entry_loop ?t1 = Inr ((), t2)" "scanned ?t1 t2" "entry t2 = dir_of ?o f ! i"
      "entry_off t2 = ?o + DIRST + 32 * i" by auto
  note d2 = scannedD [OF t2(2)]
  have f2: "files t2 = files s" "img t2 = n" "denied t2 = denied s" "fat t2 = fat_of ?o f" "trans t2 = trans s"
    "origin t2 = ?o" "offset t2 = offset s" "content t2 = f" "ready t2"
    using d1 d2 r1 by (simp_all add: origin_def)
  have i72: "i < 72" using free_slot_Some [OF slot] by simp
  have rd: "open_read src t2 = Inr (c, t2)" using src f2 by (simp add: open_read_def)
  have lf: "length (fat t2) = FATZ" using io f2 by simp
  have c0: "0 < count_list (fat t2) 0xff" using room f2 by simp
  from findgran_free [OF lf c0] obtain y where
    y: "findgran t2 = (int y, t2\<lparr>fat := (fat t2)[y := 0xc0]\<rparr>)" "y < FATZ" "fat t2 ! y = 0xff" by blast
  let ?e1 = "(entry t2)\<lparr>first := of_nat y\<rparr>"
  let ?t3 = "t2\<lparr>fat := (fat t2)[y := 0xc0], entry := ?e1\<rparr>"
  have uy: "unat (of_nat y :: u8) = y" using y(2) by (simp add: unat_of_nat)
  have t3: "ready ?t3" "fat ?t3 ! y = 0xc0" "origin ?t3 = ?o" "content ?t3 = f"
  proof -
    show "ready ?t3" using f2(9) lf by (simp add: ready_def origin_def content_def)
    show "fat ?t3 ! y = 0xc0" using y(2) lf by simp
    show "origin ?t3 = ?o" using f2(6) by (simp add: origin_def)
    show "content ?t3 = f" using f2(1,2) fn by (simp add: content_def)
  qed
  have cnt: "length c div GRANZ \<le> count_list (fat ?t3) 0xff"
    using count_list_update_away [of y "fat t2" "0xff" "0xc0"] y lf room f2(4) by simp
  from put_loop_ok [OF t3(1) y(2) t3(2) cnt] t3(3,4) f2(5) obtain x t4 where
    pl: "put_loop c y ?t3 = Inr ((x, ?m), t4)" and w4: "wrote ?t3 t4" and x: "x < FATZ"
    and fd: "fat_of ?o (content t4) = fat_of ?o f" "dir_of ?o (content t4) = dir_of ?o f"
    and fr: "\<And>g. g < FATZ \<Longrightarrow> fat ?t3 ! g \<noteq> 0xff \<Longrightarrow> g \<noteq> y \<Longrightarrow>
       g \<noteq> x \<and> fat t4 ! g = fat ?t3 ! g \<and> gran_at ?o (content t4) g = gran_at ?o f g"
    and ch: "\<And>e q z. last_gran q \<Longrightarrow> last_size q e = int z \<Longrightarrow> z \<le> ?m \<Longrightarrow>
       chain_data (Suc (length c div GRANZ)) ?o (content t4) ((fat t4)[x := q]) e (of_nat y)
         = Some (to_disk (trans s) (take (length c div GRANZ * GRANZ + z) c))"
    by auto
  note d4 = wroteD [OF w4]
  have lf4: "length (fat t4) = FATZ" and rdy4: "ready t4" using d4(1) by (simp_all add: ready_def)
  have io4: "image_ok ?o (content t4)" using rdy4 d4(7) t3(3) by (simp add: ready_def)
  define q where "q = 0xc0 OR (word_of_nat ((?m + 255) div SECZ) :: u8)"
  have en: "entry t4 = ?e1" "entry_off t4 = origin t4 + DIRST + 32 * i" "img t4 = n" "origin t4 = ?o"
    using d4(3,4,5,6,7) t2(3,4) t3(3) f2 by simp_all
  have e4: "entry_ok (entry t4)"
    using entry_ok_dir [OF io i72] en t2(3) by (simp add: entry_ok_def)
  from put_finish_ok [OF rdy4 x k(1) i72 en(2) e4 q_def] obtain t8 f7 e where
    pf: "put_finish nm x ?m t4 = Inr ((), t8)" and f8: "files t8 = (files t4)(n := Some f7)"
    and io7: "image_ok ?o f7" and eok: "entry_ok e" and ek: "key_of e = k" and e0: "first e = of_nat y"
    and er: "rem0 e = word_of_nat (?m mod SECZ div 256)" "rem1 e = word_of_nat (?m mod SECZ)"
    and dir7: "dir_of ?o f7 = (dir_of ?o f)[i := e]" and fat7: "fat_of ?o f7 = (fat t4)[x := q]"
    and gr7: "\<And>g. g < FATZ \<Longrightarrow> gran_at ?o f7 g = gran_at ?o (content t4) g"
    unfolding en fd(2) by auto
  have run: "put n src nm s = Inr ((), t8)"
    using uy by (simp add: put_def openimg_ok [OF dr] t1(1) t2(1) rd y(1) Let_def pl pf)
  have files: "files t8 = (files s)(n := Some f7)"
    using d4(2) f2(1,2) f8 by (simp add: fun_eq_iff)
  have used: "fat_of ?o f7 ! g = fat_of ?o f ! g \<and> gran_at ?o f7 g = gran_at ?o f g"
    if "g < FATZ" "fat_of ?o f ! g \<noteq> 0xff" for g
  proof -
    have "g \<noteq> y" using that(2) y(3) f2(4) by auto
    then have "fat ?t3 ! g = fat_of ?o f ! g" using f2(4) by simp
    with fr [OF that(1)] that(2) \<open>g \<noteq> y\<close> fat7 gr7 [OF that(1)] show ?thesis by simp
  qed
  let ?z = "?m - (if length c mod 256 = 0 then 256 else 0)"
  let ?c = "take (length c - (if length c mod 256 = 0 then 256 else 0)) c"
  have data: "chain_data FATZ ?o f7 (fat_of ?o f7) e (first e) = Some (to_disk (trans s) ?c)"
    if "c \<noteq> []" "length c mod GRANZ \<noteq> 0"
  proof -
    have mm: "?m mod 256 = length c mod 256" by (simp add: mod_mod_cancel)
    have lq: "last_gran q" by (simp add: last_gran_def q_def bit.conj_disj_distrib2)
    have ls: "last_size q e = int ?z"
    proof (cases "length c mod 256 = 0")
      case True
      then have "last_size q e = int (?m - 256)"
        unfolding q_def using that(2) mm by (intro last_size_put_whole er) simp_all
      with True show ?thesis by simp
    next
      case False
      then have "last_size q e = int ?m"
        unfolding q_def using mm by (intro last_size_put er) simp_all
      with False show ?thesis by simp
    qed
    have zc: "length c div GRANZ * GRANZ + ?z = length c - (if length c mod 256 = 0 then 256 else 0)"
    proof (cases "length c mod 256 = 0")
      case True
      then have "?m mod 256 = 0" using mm by simp
      with that(2) have "256 \<le> ?m" by (metis dvd_imp_le mod_0_imp_dvd neq0_conv)
      moreover have "length c div GRANZ * GRANZ + ?m = length c" by simp
      ultimately show ?thesis using True by simp
    qed simp
    have "length c div GRANZ < FATZ"
      using room count_list_le [of "fat_of ?o f" "0xff"] length_fat_of [OF io] by linarith
    then obtain j where j: "FATZ = Suc (length c div GRANZ) + j"
      by (metis Suc_leI less_eqE)
    have "chain_data FATZ ?o (content t4) ((fat t4)[x := q]) e (of_nat y) = Some (to_disk (trans s) ?c)"
      unfolding j zc [symmetric] by (rule chain_data_grow [OF ch [OF lq ls]]) simp
    moreover have "chain_data FATZ ?o f7 ((fat t4)[x := q]) e (of_nat y) = chain_data FATZ ?o (content t4) ((fat t4)[x := q]) e (of_nat y)"
    proof (rule chain_data_cong, intro ballI conjI refl)
      fix g assume "g \<in> set (chain_grans FATZ ((fat t4)[x := q]) (of_nat y))"
      then have "g < FATZ" by (rule chain_grans_bound)
      then show "gran_at ?o f7 g = gran_at ?o (content t4) g" by (rule gr7)
    qed
    ultimately show ?thesis using e0 by (simp add: fat7)
  qed
  show ?thesis
    by (rule exI [of _ t8], rule exI [of _ f7], rule exI [of _ e])
      (intro conjI run files io7 eok ek dir7 allI impI used data)
qed

lemma file_of_put:
  assumes "key nm = Some k" and "lookup k (dir_of o' f) = None" and "free_slot (dir_of o' f) = Some i"
    and "dir_of o' f' = (dir_of o' f)[i := e]" and "entry_ok e" and "key_of e = k" and "k ! 0 \<noteq> 0xff"
    and "chain_data FATZ o' f' (fat_of o' f') e (first e) = Some d"
  shows "file_of o' f' nm = Some d"
proof -
  have n: "name e ! 0 \<noteq> 0xff"
    using assms(5-7) by (auto simp: key_of_ok entry_ok_def nth_append)
  have "lookup k (dir_of o' f') = Some i"
    unfolding assms(4) by (rule lookup_fill [OF assms(2,3,6) n])
  moreover have "dir_of o' f' ! i = e"
    using free_slot_Some [OF assms(3)] assms(4) by simp
  ultimately show ?thesis using assms(1,8) by (simp add: file_of_def)
qed

text \<open>C2:
  A host file stored with \<open>put\<close> under a new name, on an image with a free directory entry and
  enough free granules, is what a later \<open>get\<close> of that name gives back (up to the newline
  translation of the option \<open>-l\<close>), if its length is not a multiple of 256; \<open>put\<close> changes no
  other file of the host.
\<close>

theorem put_get_roundtrip:
  assumes "disk_ready n f s" and "key nm = Some k" and "k ! 0 \<noteq> 0xff"
    and "lookup k (dir_of (origin s) f) = None" and "free_slot (dir_of (origin s) f) = Some i"
    and "files s src = Some c" and "\<not> denied s src" and "src \<noteq> n"
    and "length c div GRANZ < granfree (fat_of (origin s) f)" and "length c mod 256 \<noteq> 0"
  shows "\<exists>t f'. put n src nm s = Inr ((), t) \<and> files t = (files s)(n := Some f')
    \<and> image_ok (origin s) f' \<and> (\<forall>u dst. disk_ready n f' u \<longrightarrow> origin u = origin s \<longrightarrow> dst \<noteq> n \<longrightarrow> \<not> denied u dst \<longrightarrow>
         (\<exists>v. get n nm dst u = Some (Inr ((), v))
            \<and> files v = (files u)(dst := Some (from_disk (trans u) (to_disk (trans s) c)))))"
proof -
  have ne: "c \<noteq> []" "length c mod GRANZ \<noteq> 0"
  proof -
    show "c \<noteq> []" using assms(10) by auto
    have "length c mod GRANZ mod 256 = length c mod 256" by (simp add: mod_mod_cancel)
    with assms(10) show "length c mod GRANZ \<noteq> 0" by auto
  qed
  from put_ok [OF assms(1,2,4,5,6,7,8)] assms(9,10) ne obtain t f' e where
    t: "put n src nm s = Inr ((), t)" "files t = (files s)(n := Some f')" "entry_ok e" "key_of e = k"
      "dir_of (origin s) f' = (dir_of (origin s) f)[i := e]"
      "chain_data FATZ (origin s) f' (fat_of (origin s) f') e (first e) = Some (to_disk (trans s) c)"
    and io: "image_ok (origin s) f'"
    by (auto simp: granfree_def)
  have fo: "file_of (origin s) f' nm = Some (to_disk (trans s) c)"
    by (rule file_of_put [OF assms(2,4,5) t(5,3,4) assms(3) t(6)])
  have "\<exists>v. get n nm dst u = Some (Inr ((), v))
            \<and> files v = (files u)(dst := Some (from_disk (trans u) (to_disk (trans s) c)))"
    if "disk_ready n f' u" "origin u = origin s" "dst \<noteq> n" "\<not> denied u dst" for u dst
    using get_file_ok [OF that(1) _ that(3,4)] fo that(2) by simp
  with t(1,2) io show ?thesis by blast
qed

text \<open>
  A file whose length is a multiple of 256 (but not of a whole granule) does not survive: \<open>put\<close>
  succeeds, and a later \<open>get\<close> succeeds too, without the last 256 bytes.
\<close>

theorem put_get_truncates:
  assumes "disk_ready n f s" and "key nm = Some k" and "k ! 0 \<noteq> 0xff"
    and "lookup k (dir_of (origin s) f) = None" and "free_slot (dir_of (origin s) f) = Some i"
    and "files s src = Some c" and "\<not> denied s src" and "src \<noteq> n"
    and "length c div GRANZ < granfree (fat_of (origin s) f)"
    and "length c mod 256 = 0" and "length c mod GRANZ \<noteq> 0"
  shows "\<exists>t f'. put n src nm s = Inr ((), t) \<and> files t = (files s)(n := Some f')
    \<and> image_ok (origin s) f' \<and> (\<forall>u dst. disk_ready n f' u \<longrightarrow> origin u = origin s \<longrightarrow> dst \<noteq> n \<longrightarrow> \<not> denied u dst \<longrightarrow>
         (\<exists>v. get n nm dst u = Some (Inr ((), v))
            \<and> files v = (files u)(dst := Some (from_disk (trans u) (to_disk (trans s) (take (length c - 256) c))))))"
proof -
  have ne: "c \<noteq> []" using assms(11) by auto
  from put_ok [OF assms(1,2,4,5,6,7,8)] assms(9,10,11) ne obtain t f' e where
    t: "put n src nm s = Inr ((), t)" "files t = (files s)(n := Some f')" "entry_ok e" "key_of e = k"
      "dir_of (origin s) f' = (dir_of (origin s) f)[i := e]"
      "chain_data FATZ (origin s) f' (fat_of (origin s) f') e (first e)
         = Some (to_disk (trans s) (take (length c - 256) c))"
    and io: "image_ok (origin s) f'"
    by (auto simp: granfree_def)
  have fo: "file_of (origin s) f' nm = Some (to_disk (trans s) (take (length c - 256) c))"
    by (rule file_of_put [OF assms(2,4,5) t(5,3,4) assms(3) t(6)])
  have "\<exists>v. get n nm dst u = Some (Inr ((), v))
            \<and> files v = (files u)(dst := Some (from_disk (trans u) (to_disk (trans s) (take (length c - 256) c))))"
    if "disk_ready n f' u" "origin u = origin s" "dst \<noteq> n" "\<not> denied u dst" for u dst
    using get_file_ok [OF that(1) _ that(3,4)] fo that(2) by simp
  with t(1,2) io show ?thesis by blast
qed

text \<open>C14:
  \<open>put\<close> leaves every other file of the image as it was, and readable as it was.
\<close>

theorem put_keeps_files:
  assumes "disk_ready n f s" and "key nm = Some k" and "k ! 0 \<noteq> 0xff"
    and "lookup k (dir_of (origin s) f) = None" and "free_slot (dir_of (origin s) f) = Some i"
    and "files s src = Some c" and "\<not> denied s src" and "src \<noteq> n"
    and "length c div GRANZ < granfree (fat_of (origin s) f)"
    and "key nm' = Some k'" and "k' \<noteq> k" and "lookup k' (dir_of (origin s) f) = Some j" and "k' ! 0 \<noteq> 0"
    and "rem0 (dir_of (origin s) f ! j) \<in> {0, 1}" and "file_of (origin s) f nm' = Some d"
  shows "\<exists>t f'. put n src nm s = Inr ((), t) \<and> files t = (files s)(n := Some f')
    \<and> file_of (origin s) f' nm' = Some d"
proof -
  let ?o = "origin s"
  from put_ok [OF assms(1,2,4,5,6,7,8)] assms(9) obtain t f' e where
    t: "put n src nm s = Inr ((), t)" "files t = (files s)(n := Some f')" "entry_ok e" "key_of e = k"
      "dir_of ?o f' = (dir_of ?o f)[i := e]" and
    used: "\<And>g. g < FATZ \<Longrightarrow> fat_of ?o f ! g \<noteq> 0xff \<Longrightarrow>
       fat_of ?o f' ! g = fat_of ?o f ! g \<and> gran_at ?o f' g = gran_at ?o f g"
    unfolding granfree_def by blast
  have io: "image_ok ?o f" using assms(1) by (simp add: disk_ready_def)
  have j: "j < 72" "key_of (dir_of ?o f ! j) = k'" using lookup_Some [OF assms(12)] by simp_all
  have nj: "name (dir_of ?o f ! j) ! 0 \<noteq> 0"
    using j(2) assms(13) entry_ok_dir [OF io j(1)] by (auto simp: key_of_ok entry_ok_def nth_append)
  have ne: "name e ! 0 \<noteq> 0xff"
    using t(3,4) assms(3) by (auto simp: key_of_ok entry_ok_def nth_append)
  have "key_of e \<noteq> k'" using t(4) assms(11) by simp
  from lookup_fill_other [OF assms(12,5) this ne nj] have
    l: "lookup k' (dir_of ?o f') = Some j" "i \<noteq> j" unfolding t(5) by simp_all
  have dj: "dir_of ?o f' ! j = dir_of ?o f ! j" using l(2) t(5) by simp
  from assms(15) have cd: "chain_data FATZ ?o f (fat_of ?o f) (dir_of ?o f ! j) (first (dir_of ?o f ! j)) = Some d"
    by (simp add: file_of_def assms(10,12))
  have "chain_data FATZ ?o f' (fat_of ?o f') (dir_of ?o f ! j) (first (dir_of ?o f ! j)) = Some d"
    unfolding cd [symmetric]
    by (rule chain_data_cong) (use chain_data_used [OF cd _ assms(14)] used in blast)
  then have "file_of ?o f' nm' = Some d" by (simp add: file_of_def assms(10) l(1) dj)
  with t(1,2) show ?thesis by blast
qed

section \<open>rm\<close>

text \<open>A chain that can be read visits no granule twice, so that freeing it frees exactly it.\<close>

lemma chain_grans_grow:
  "chain_data n o' f ft e g = Some d \<Longrightarrow> chain_grans (n + k) ft g = chain_grans n ft g"
  by (induction n arbitrary: g d) (auto simp: Let_def split: if_splits)

lemma chain_tail:
  "chain_data n o' f ft e g = Some d \<Longrightarrow> x \<in> set (chain_grans n ft g) \<Longrightarrow>
   \<exists>m d'. chain_data m o' f ft e (of_nat x) = Some d'
     \<and> length (chain_grans m ft (of_nat x)) \<le> length (chain_grans n ft g)"
proof (induction n arbitrary: g d)
  case (Suc n)
  show ?case
  proof (cases "x = unat g")
    case True
    with Suc.prems(1) show ?thesis by (intro exI [of _ "Suc n"]) auto
  next
    case False
    with Suc.prems obtain d' where "chain_data n o' f ft e (ft ! unat g) = Some d'"
      "x \<in> set (chain_grans n ft (ft ! unat g))" "\<not> last_gran (ft ! unat g)" "\<not> FATZ \<le> unat g"
      by (auto simp: Let_def split: if_splits)
    from Suc.IH [OF this(1,2)] this(3,4) show ?thesis by fastforce
  qed
qed simp

lemma distinct_chain:
  "chain_data n o' f ft e g = Some d \<Longrightarrow> distinct (chain_grans n ft g)"
proof (induction n arbitrary: g d)
  case (Suc n)
  show ?case
  proof (cases "last_gran (ft ! unat g)")
    case True
    then show ?thesis by simp
  next
    case False
    with Suc.prems obtain d' where d': "chain_data n o' f ft e (ft ! unat g) = Some d'" "\<not> FATZ \<le> unat g"
      by (auto simp: Let_def split: if_splits)
    have "unat g \<notin> set (chain_grans n ft (ft ! unat g))"
    proof
      assume "unat g \<in> set (chain_grans n ft (ft ! unat g))"
      from chain_tail [OF d'(1) this] obtain m d'' where m: "chain_data m o' f ft e g = Some d''"
        "length (chain_grans m ft g) \<le> length (chain_grans n ft (ft ! unat g))" by auto
      have "chain_grans m ft g = chain_grans (m + Suc n) ft g"
        by (rule chain_grans_grow [OF m(1), symmetric])
      also have "\<dots> = chain_grans (Suc n) ft g"
        using chain_grans_grow [OF Suc.prems, of m] by (simp only: add.commute)
      finally show False using m(2) False d'(2) by simp
    qed
    with False d' Suc.IH [OF d'(1)] show ?thesis by simp
  qed
qed simp

lemma delchain_ok:
  assumes "chain_data n o' f ft e g = Some d" and "length ft' = FATZ" and "\<not> last_gran g"
    and "\<forall>x \<in> set (chain_grans n ft g). ft' ! x = ft ! x"
  shows "\<exists>r. delchain g ft' = Some r \<and> length r = FATZ
    \<and> (\<forall>x<FATZ. r ! x = (if x \<in> set (chain_grans n ft g) then 0xff else ft' ! x))"
  using assms
proof (induction n arbitrary: g d ft')
  case (Suc n)
  then have g: "unat g < FATZ" by (auto split: if_splits)
  then have fg: "ft' ! unat g = ft ! unat g" using Suc.prems(4) by simp
  have step: "delchain g ft' = delchain (ft ! unat g) (ft'[unat g := 0xff])"
    using Suc.prems(2,3) g fg by (subst delchain.simps) simp
  show ?case
  proof (cases "last_gran (ft ! unat g)")
    case True
    then show ?thesis using step Suc.prems(2) g by (subst (asm) (2) delchain.simps) auto
  next
    case False
    from Suc.prems(1) False g obtain d' where d': "chain_data n o' f ft e (ft ! unat g) = Some d'"
      by (auto simp: Let_def)
    have ng: "unat g \<notin> set (chain_grans n ft (ft ! unat g))"
      using distinct_chain [OF Suc.prems(1)] False g by simp
    have "\<forall>x \<in> set (chain_grans n ft (ft ! unat g)). ft'[unat g := 0xff] ! x = ft ! x"
    proof
      fix x assume x: "x \<in> set (chain_grans n ft (ft ! unat g))"
      with ng have "x \<noteq> unat g" by auto
      with x Suc.prems(4) False g show "ft'[unat g := 0xff] ! x = ft ! x" by simp
    qed
    from Suc.IH [OF d' _ False this] Suc.prems(2) obtain r where
      r: "delchain (ft ! unat g) (ft'[unat g := 0xff]) = Some r" "length r = FATZ"
        "\<forall>x<FATZ. r ! x = (if x \<in> set (chain_grans n ft (ft ! unat g)) then 0xff else ft'[unat g := 0xff] ! x)"
      by auto
    show ?thesis
      using step r False g ng Suc.prems(2) by (intro exI [of _ r]) (auto simp: nth_list_update)
  qed
qed simp

lemma granfree_card: "granfree f = card {x. x < length f \<and> f ! x = 0xff}"
  by (simp add: granfree_def count_list_eq_length_filter length_filter_conv_card eq_commute)

lemma lookup_clear:
  assumes "lookup k es = Some j" and "j \<noteq> i" and "name e ! 0 \<noteq> 0xff" and "key_of e \<noteq> k"
  shows "lookup k (es[i := e]) = Some j"
  using assms
proof (induction es arbitrary: i j)
  case (Cons x es)
  then show ?case by (cases i; cases j) (auto split: if_splits)
qed simp

lemma lookup_absent: "\<forall>e \<in> set es. key_of e \<noteq> k \<Longrightarrow> lookup k es = None"
  by (induction es) auto

text \<open>What \<open>rm\<close> writes: the granule table with the chain freed, and the entry without its name.\<close>

definition no_name :: "dirent \<Rightarrow> dirent" where
  "no_name e = e\<lparr>name := (name e)[0 := 0]\<rparr>"

lemma rm_run:
  assumes "disk_ready n f s" and "key nm = Some k"
    and "lookup k (dir_of (origin s) f) = Some i" and "file_of (origin s) f nm = Some d"
  defines "gs \<equiv> chain_grans FATZ (fat_of (origin s) f) (first (dir_of (origin s) f ! i))"
  shows "\<exists>t f'. rm n nm s = Inr ((), t) \<and> files t = (files s)(n := Some f') \<and> length (fat_of (origin s) f') = FATZ \<and>
    (\<forall>g<FATZ. fat_of (origin s) f' ! g = (if g \<in> set gs then 0xff else fat_of (origin s) f ! g)) \<and>
    dir_of (origin s) f' = (dir_of (origin s) f)[i := no_name (dir_of (origin s) f ! i)] \<and>
    (\<forall>g<FATZ. gran_at (origin s) f' g = gran_at (origin s) f g)"
proof -
  let ?o = "origin s" and ?s = "opened n f s" and ?e = "dir_of (origin s) f ! i"
  note op = openimg_ready [OF assms(1)]
  have io: "image_ok ?o f" and fn: "files s n = Some f" and o0: "0 \<le> offset s"
    using assms(1) by (simp_all add: disk_ready_def)
  from find_file_Some [OF op(1,3) assms(2)] op(2) assms(3) obtain t b where
    t: "find_file nm ?s = Inr (True, t)" "scanned (?s\<lparr>buf := b\<rparr>) t" "entry t = ?e"
      "entry_off t = ?o + DIRST + 32 * i" by auto
  note d = scannedD [OF t(2)]
  have i: "i < 72" using lookup_Some [OF assms(3)] by simp
  have eo: "entry_ok ?e" by (rule entry_ok_dir [OF io i])
  have lf: "length (fat_of ?o f) = FATZ" using io by simp
  have cd: "chain_data FATZ ?o f (fat_of ?o f) ?e (first ?e) = Some d"
    using assms(4) by (simp add: file_of_def assms(2,3))
  have nl: "\<not> last_gran (first ?e)"
  proof (rule last_gran_small)
    have "FATZ = Suc 67" by simp
    with cd have "\<not> FATZ \<le> unat (first ?e)" by (metis chain_data.simps(2) option.distinct(1))
    then show "unat (first ?e) < 192" by simp
  qed
  from delchain_ok [OF cd lf nl] obtain r where r: "delchain (first ?e) (fat_of ?o f) = Some r" "length r = FATZ"
    "\<And>x. x < FATZ \<Longrightarrow> r ! x = (if x \<in> set gs then 0xff else fat_of ?o f ! x)"
    by (auto simp: gs_def)
  define e where "e = ?e\<lparr>name := (name ?e)[0 := 0]\<rparr>"
  have eok: "entry_ok e" using eo by (simp add: e_def entry_ok_def)
  define t3 where "t3 = t\<lparr>fat := r, entry := e\<rparr>"
  have c3: "offset t3 = offset s" "origin t3 = ?o" "img t3 = n" "content t3 = f" "fat t3 = r"
    "entry t3 = e" "entry_off t3 = ?o + DIRST + 32 * i" "files t3 = files s"
    using d fn t(4) by (simp_all add: t3_def origin_def content_def)
  define f1 where "f1 = pwrite (?o + FATST) r f"
  define t4 where "t4 = fdwrite r (t3\<lparr>pos := ?o + FATST\<rparr>)"
  have sf: "savefat t3 = Inr ((), t4)" using savefat_ok [of t3] o0 c3 by (simp add: t4_def)
  have c4: "content t4 = f1" "img t4 = n" "entry t4 = e" "entry_off t4 = ?o + DIRST + 32 * i"
    "files t4 = (files s)(n := Some f1)"
    using c3 by (simp_all add: t4_def fdwrite_def content_def f1_def)
  define f2 where "f2 = pwrite (?o + DIRST + 32 * i) (entry_bytes e) f1"
  define t5 where "t5 = fdwrite (entry_bytes e) (t4\<lparr>pos := ?o + DIRST + 32 * i\<rparr>)"
  have se: "saveentry t4 = Inr ((), t5)" using c4 by (simp add: saveentry_ok t5_def)
  have c5: "files t5 = (files s)(n := Some f2)"
    using c4 by (simp add: t5_def fdwrite_def content_def f2_def fun_eq_iff)
  have run: "rm n nm s = Inr ((), t5)"
    using r(1) sf se t(3) d(3)
    by (simp add: rm_def openimg_ok [OF assms(1)] t(1) Let_def t3_def [symmetric] e_def [symmetric])
  have io1: "image_ok ?o f1" using io by (simp add: f1_def)
  note le = length_entry_bytes [OF eok]
  have fat2: "fat_of ?o f2 = r"
    using fat_of_slot [OF io1 i le] fat_of_fat [OF r(2)] by (simp add: f2_def f1_def)
  have dir2: "dir_of ?o f2 = (dir_of ?o f)[i := e]"
    using dir_of_slot [OF io1 i le] dir_of_fat [OF io r(2)] bytes_entry_bytes [OF eok]
    by (simp add: f2_def f1_def)
  have gr2: "gran_at ?o f2 g = gran_at ?o f g" if "g < FATZ" for g
    using gran_at_slot [OF io1 that i le] gran_at_fat [OF io that r(2)] by (simp add: f2_def f1_def)
  show ?thesis
    using run c5 r(2,3) fat2 dir2 gr2 by (intro exI [of _ t5] exI [of _ f2]) (simp add: e_def no_name_def)
qed

text \<open>C15:
  \<open>rm\<close> removes exactly one file: the name is gone; in the granule table exactly the granules of its
  chain become free, every other entry stays as it was, and so there are as many more free ones as
  the chain has; in the directory only the first byte of its name is cleared; and every file that
  shares no granule with it reads as before.
\<close>

theorem rm_removes:
  assumes "disk_ready n f s" and "key nm = Some k" and "k ! 0 \<noteq> 0"
    and "lookup k (dir_of (origin s) f) = Some i" and "file_of (origin s) f nm = Some d"
    and "\<forall>j<72. j \<noteq> i \<longrightarrow> key_of (dir_of (origin s) f ! j) \<noteq> k"
    and "rem0 (dir_of (origin s) f ! i) \<in> {0, 1}"
  defines "gs \<equiv> chain_grans FATZ (fat_of (origin s) f) (first (dir_of (origin s) f ! i))"
  shows "\<exists>t f'. rm n nm s = Inr ((), t) \<and> files t = (files s)(n := Some f')
    \<and> file_of (origin s) f' nm = None
    \<and> (\<forall>g<FATZ. fat_of (origin s) f' ! g = (if g \<in> set gs then 0xff else fat_of (origin s) f ! g))
    \<and> dir_of (origin s) f' = (dir_of (origin s) f)[i := no_name (dir_of (origin s) f ! i)]
    \<and> granfree (fat_of (origin s) f') = granfree (fat_of (origin s) f) + length gs
    \<and> (\<forall>nm' k' j. key nm' = Some k' \<longrightarrow> k' ! 0 \<noteq> 0 \<longrightarrow> lookup k' (dir_of (origin s) f) = Some j \<longrightarrow> j \<noteq> i \<longrightarrow>
         set gs \<inter> set (chain_grans FATZ (fat_of (origin s) f) (first (dir_of (origin s) f ! j))) = {} \<longrightarrow>
         file_of (origin s) f' nm' = file_of (origin s) f nm')"
proof -
  let ?o = "origin s" and ?e = "dir_of (origin s) f ! i"
  define e where "e = no_name ?e"
  have io: "image_ok ?o f" using assms(1) by (simp add: disk_ready_def)
  have i: "i < 72" using lookup_Some [OF assms(4)] by simp
  have eo: "entry_ok ?e" by (rule entry_ok_dir [OF io i])
  have eok: "entry_ok e" "name e ! 0 = 0" using eo by (simp_all add: e_def no_name_def entry_ok_def)
  have lf: "length (fat_of ?o f) = FATZ" using io by simp
  have cd: "chain_data FATZ ?o f (fat_of ?o f) ?e (first ?e) = Some d"
    using assms(5) by (simp add: file_of_def assms(2,4))
  obtain t f2 where r: "rm n nm s = Inr ((), t)" "files t = (files s)(n := Some f2)" "length (fat_of ?o f2) = FATZ"
    "\<And>g. g < FATZ \<Longrightarrow> fat_of ?o f2 ! g = (if g \<in> set gs then 0xff else fat_of ?o f ! g)"
    and dir2: "dir_of ?o f2 = (dir_of ?o f)[i := e]" and gr2: "\<And>g. g < FATZ \<Longrightarrow> gran_at ?o f2 g = gran_at ?o f g"
    using rm_run [OF assms(1,2,4,5)] by (auto simp: gs_def e_def)
  have ke: "key_of e \<noteq> k'" if "k' ! 0 \<noteq> 0" for k'
    using eok that by (auto simp: key_of_ok entry_ok_def nth_append)
  have gone: "file_of ?o f2 nm = None"
  proof -
    have "key_of x \<noteq> k" if "x \<in> set ((dir_of ?o f)[i := e])" for x
    proof -
      from that obtain j where j: "j < 72" "x = (dir_of ?o f)[i := e] ! j"
        by (auto simp: in_set_conv_nth)
      then show ?thesis using assms(6) ke [OF assms(3)] i by (cases "j = i") simp_all
    qed
    then have "lookup k (dir_of ?o f2) = None" unfolding dir2 by (intro lookup_absent) blast
    then show ?thesis by (simp add: file_of_def assms(2))
  qed
  have others: "file_of ?o f2 nm' = file_of ?o f nm'"
    if a: "key nm' = Some k'" "k' ! 0 \<noteq> 0" "lookup k' (dir_of ?o f) = Some j" "j \<noteq> i"
      "set gs \<inter> set (chain_grans FATZ (fat_of ?o f) (first (dir_of ?o f ! j))) = {}" for nm' k' j
  proof -
    have l: "lookup k' (dir_of ?o f2) = Some j"
      unfolding dir2 using eok(2) ke [OF a(2)] by (intro lookup_clear [OF a(3,4)]) simp_all
    have dj: "dir_of ?o f2 ! j = dir_of ?o f ! j" unfolding dir2 using a(4) by simp
    have "chain_data FATZ ?o f2 (fat_of ?o f2) (dir_of ?o f ! j) (first (dir_of ?o f ! j)) =
        chain_data FATZ ?o f (fat_of ?o f) (dir_of ?o f ! j) (first (dir_of ?o f ! j))"
    proof (rule chain_data_cong, intro ballI)
      fix x assume x: "x \<in> set (chain_grans FATZ (fat_of ?o f) (first (dir_of ?o f ! j)))"
      then have "x < FATZ" by (rule chain_grans_bound)
      moreover have "x \<notin> set gs" using a(5) x by blast
      ultimately show "gran_at ?o f2 x = gran_at ?o f x \<and> fat_of ?o f2 ! x = fat_of ?o f ! x"
        using gr2 r(4) by simp
    qed
    then show ?thesis by (simp add: file_of_def a(1,3) l dj)
  qed
  have free: "granfree (fat_of ?o f2) = granfree (fat_of ?o f) + length gs"
  proof -
    have u: "x < FATZ \<and> fat_of ?o f ! x \<noteq> 0xff" if "x \<in> set gs" for x
      using chain_data_used [OF cd _ assms(7)] that by (simp add: gs_def)
    have "{x. x < FATZ \<and> fat_of ?o f2 ! x = 0xff} = {x. x < FATZ \<and> fat_of ?o f ! x = 0xff} \<union> set gs"
      using r(4) u by (auto split: if_splits)
    moreover have "{x. x < FATZ \<and> fat_of ?o f ! x = 0xff} \<inter> set gs = {}" using u by blast
    ultimately have "card {x. x < FATZ \<and> fat_of ?o f2 ! x = 0xff} =
        card {x. x < FATZ \<and> fat_of ?o f ! x = 0xff} + card (set gs)"
      by (simp add: card_Un_disjoint)
    moreover have "card (set gs) = length gs"
      unfolding gs_def by (rule distinct_card [OF distinct_chain [OF cd]])
    ultimately show ?thesis by (simp add: granfree_card r(3) lf)
  qed
  have "\<forall>g<FATZ. fat_of ?o f2 ! g = (if g \<in> set gs then 0xff else fat_of ?o f ! g)" using r(4) by blast
  then show ?thesis
    by (intro exI [of _ t] exI [of _ f2] conjI r(1,2) gone free dir2 [unfolded e_def]) (use others in blast)+
qed

section \<open>mkfs\<close>

lemma mkfs_writes:
  assumes "img s = n" and "files s n \<noteq> None" and "take GRANZ (buf s) = replicate GRANZ 0xff"
  shows "files ((mkfs_write ^^ k) s) = (files s)(n := Some (pwrite (pos s) (replicate (k * GRANZ) 0xff) (content s)))
    \<and> pos ((mkfs_write ^^ k) s) = pos s + k * GRANZ
    \<and> (\<exists>F p. (mkfs_write ^^ k) s = s\<lparr>files := F, pos := p\<rparr>)"
proof (induction k)
  case 0
  have "(files s)(n := Some (content s)) = files s" using assms(1,2) by (auto simp: content_def)
  moreover have "s = s\<lparr>files := files s, pos := pos s\<rparr>" by simp
  ultimately show ?case by (simp only: funpow.simps id_apply mult_0 replicate.simps pwrite_Nil add_0_right) blast
next
  case (Suc k)
  let ?t = "(mkfs_write ^^ k) s" and ?b = "replicate (k * GRANZ) (0xff :: u8)"
  from Suc obtain F p where t: "?t = s\<lparr>files := F, pos := p\<rparr>" by blast
  then have b: "take GRANZ (buf ?t) = replicate GRANZ 0xff" "img ?t = n" using assms by simp_all
  have c: "content ?t = pwrite (pos s) ?b (content s)"
    using Suc b(2) by (simp add: content_def)
  have "pwrite (pos s + k * GRANZ) (replicate GRANZ 0xff) (pwrite (pos s) ?b (content s)) =
      pwrite (pos s) (?b @ replicate GRANZ 0xff) (content s)"
    using pwrite_append [of "pos s" ?b "replicate GRANZ 0xff" "content s"] by simp
  also have "?b @ replicate GRANZ (0xff :: u8) = replicate (Suc k * GRANZ) 0xff"
    by (simp only: replicate_add [symmetric] mult_Suc add.commute)
  finally have w: "pwrite (pos s + k * GRANZ) (replicate GRANZ 0xff) (pwrite (pos s) ?b (content s)) =
      pwrite (pos s) (replicate (Suc k * GRANZ) 0xff) (content s)" .
  have e: "(mkfs_write ^^ Suc k) s = fdwrite (replicate GRANZ 0xff) ?t"
    using b(1) by (simp add: mkfs_write_def)
  have "files ((mkfs_write ^^ Suc k) s) =
      (files s)(n := Some (pwrite (pos s) (replicate (Suc k * GRANZ) 0xff) (content s)))"
    unfolding e using Suc b(2) c w by (simp add: fdwrite_def fun_eq_iff)
  moreover have "pos ((mkfs_write ^^ Suc k) s) = pos s + Suc k * GRANZ"
    unfolding e using Suc by (simp add: fdwrite_def)
  moreover have "\<exists>F p. (mkfs_write ^^ Suc k) s = s\<lparr>files := F, pos := p\<rparr>"
    unfolding e fdwrite_def t by auto
  ultimately show ?case by blast
qed

text \<open>
  \<open>mkfs\<close> makes an image without files: no name can be read, the first directory entry is free,
  and all 68 granules are free but the one kept by \<open>-m\<close> and the two kept by \<open>-p\<close>.
\<close>

theorem mkfs_empty:
  assumes "0 \<le> offset s" and "\<not> denied s n"
  shows "\<exists>t f. mkfs n s = Inr ((), t) \<and> files t = (files s)(n := Some f) \<and> image_ok (origin s) f
    \<and> free_slot (dir_of (origin s) f) = Some 0 \<and> (\<forall>nm. file_of (origin s) f nm = None)
    \<and> granfree (fat_of (origin s) f) = 68 - (if mbr s then 1 else 0) - (if boot s then 2 else 0)"
proof -
  let ?o = "origin s"
  define s1 where "s1 = s\<lparr>buf := replicate GRANZ 0xff, img := n, pos := ?o,
     files := (if files s n = None then (files s)(n := Some []) else files s)\<rparr>"
  have s1: "img s1 = n" "files s1 n \<noteq> None" "take GRANZ (buf s1) = replicate GRANZ 0xff" "pos s1 = ?o"
    "offset s1 = offset s" "mbr s1 = mbr s" "boot s1 = boot s"
    by (simp_all add: s1_def)
  define t where "t = (mkfs_write ^^ 70) s1"
  define f where "f = pwrite ?o (replicate (70 * GRANZ) 0xff) (content s1)"
  from mkfs_writes [OF s1(1-3), of 70] obtain F p where
    t: "files t = (files s1)(n := Some f)" "t = s1\<lparr>files := F, pos := p\<rparr>"
    unfolding t_def f_def s1(4) by blast
  have t': "img t = n" "offset t = offset s" "mbr t = mbr s" "boot t = boot s" "content t = f" "origin t = ?o"
    using t(1) s1 by (simp_all add: t(2) content_def origin_def)
  have io: "image_ok ?o f" by (simp add: f_def image_ok_def length_pwrite)
  have pr: "pread (?o + k) m f = replicate m 0xff" if "k + m \<le> 161280" for k m
    unfolding f_def using that by (subst pread_pwrite_inside) (simp_all add: pread_def min_def)
  have fat: "fat_of ?o f = replicate FATZ 0xff" unfolding fat_of_def by (rule pr) simp
  define f1 where "f1 = (if mbr s then (replicate FATZ 0xff)[0 := 0xc0] else replicate FATZ (0xff :: u8))"
  define f2 where "f2 = (if boot s then f1[66 := 0xc0, 67 := 0xc0] else f1)"
  have l2: "length f2 = FATZ" by (simp add: f2_def f1_def)
  define t3 where "t3 = t\<lparr>pos := ?o + FATST + FATZ, fat := replicate FATZ 0xff\<rparr>"
  have lf: "loadfat t = Inr ((), t3)"
  proof -
    have "nat (int FATST + offset t) = ?o + FATST"
      using assms(1) t'(2) by (simp add: origin_def nat_add_distrib)
    moreover have "pread (?o + FATST) FATZ (content t) = replicate FATZ 0xff"
      using fat t'(5) by (simp add: fat_of_def)
    moreover have "replicate FATZ (0xff :: u8) \<noteq> []" by simp
    ultimately show ?thesis
      using assms(1) t'(2)
      by (simp add: loadfat_def seekfat_def dlseek_def fdread_def content_def Let_def t3_def)
  qed
  define g where "g = pwrite (?o + FATST) f2 f"
  define t4 where "t4 = fdwrite f2 (t3\<lparr>fat := f2, pos := ?o + FATST\<rparr>)"
  have sv: "savefat (t3\<lparr>fat := f2\<rparr>) = Inr ((), t4)"
    using assms(1) t'(2,6) savefat_ok [of "t3\<lparr>fat := f2\<rparr>"] by (simp add: t4_def t3_def origin_def)
  have c3: "content (t3\<lparr>fat := f2, pos := ?o + FATST\<rparr>) = f" "img t3 = n" "files t3 = files t"
    "mbr t3 = mbr s" "boot t3 = boot s" "fat t3 = replicate FATZ 0xff"
    using t' by (simp_all add: t3_def content_def)
  have f4: "files t4 = (files s)(n := Some g)"
    using c3 t(1) by (simp add: t4_def fdwrite_def g_def s1_def fun_eq_iff)
  have run: "mkfs n s = Inr ((), t4)"
  proof -
    let ?s = "s\<lparr>buf := replicate GRANZ 0xff\<rparr>"
    have oc: "open_create n False ?s = Inr ((), ?s\<lparr>files := files s1\<rparr>)"
      using assms(2) by (auto simp: open_create_def s1_def)
    have sk: "dlseek (offset ?s) (?s\<lparr>files := files s1, img := n\<rparr>) = Inr ((), s1)"
      using assms(1) by (simp add: dlseek_def s1_def origin_def)
    have "savefat (t3\<lparr>fat := if boot t3 then (if mbr t3 then (fat t3)[0 := 0xc0] else fat t3)[66 := 0xc0, 67 := 0xc0]
        else (if mbr t3 then (fat t3)[0 := 0xc0] else fat t3)\<rparr>) = Inr ((), t4)"
      using sv unfolding c3 f1_def f2_def .
    with oc sk lf show ?thesis
      by (simp add: mkfs_def Let_def t_def)
  qed
  have io2: "image_ok ?o g" using io by (simp add: g_def)
  have fat2: "fat_of ?o g = f2" unfolding g_def by (rule fat_of_fat [OF l2])
  have dir: "dir_of ?o g = map (\<lambda>k. bytes_entry (replicate 32 0xff)) [0..<72]"
  proof -
    have "slot_at ?o f k = replicate 32 0xff" if "k < 72" for k
      unfolding slot_at_def add.assoc using that by (intro pr) simp
    then show ?thesis unfolding g_def dir_of_fat [OF io l2] by (simp add: dir_of_def)
  qed
  have n0: "name (bytes_entry (replicate 32 0xff)) ! 0 = 0xff" by (simp add: bytes_entry_def)
  have up: "[0..<72] = 0 # [1..<72]" by (simp add: upt_conv_Cons)
  have slot: "free_slot (dir_of ?o g) = Some 0" unfolding dir up using n0 by simp
  have none: "file_of ?o g nm = None" for nm
    unfolding file_of_def dir up using n0 by (simp split: option.split)
  have "granfree (replicate FATZ 0xff) = 68" "granfree ((replicate FATZ 0xff)[0 := 0xc0]) = 67"
    "granfree ((replicate FATZ 0xff)[66 := 0xc0, 67 := 0xc0]) = 66"
    "granfree ((replicate FATZ 0xff)[0 := 0xc0, 66 := 0xc0, 67 := 0xc0]) = 65"
    by code_simp+
  then have "granfree f2 = 68 - (if mbr s then 1 else 0) - (if boot s then 2 else 0)"
    by (simp add: f2_def f1_def)
  then show ?thesis using run f4 io2 slot none fat2 by auto
qed

section \<open>A full disk\<close>

text \<open>
  On a disk without free granules \<open>put\<close> does not stop with an error: the byte 255 stands for
  the missing granule, the data is written at granule 255, far behind the 35 tracks of the
  image (or into another image of the same file), and then the table is written outside its
  68 bytes.
\<close>

theorem put_full_disk:
  assumes "disk_ready n f s" and "key nm = Some k"
    and "lookup k (dir_of (origin s) f) = None" and "free_slot (dir_of (origin s) f) = Some i"
    and "files s src = Some c" and "\<not> denied s src" and "length c < GRANZ"
    and "0xff \<notin> set (fat_of (origin s) f)"
  shows "\<exists>t. put n src nm s = Inl (Fault, t)
    \<and> files t n = Some (pwrite (origin s + 592128) (to_disk (trans s) c) f)"
proof -
  let ?o = "origin s" and ?s = "opened n f s"
  note op = openimg_ready [OF assms(1)]
  have io: "image_ok ?o f" and fn: "files s n = Some f" and o0: "0 \<le> offset s"
    using assms(1) by (simp_all add: disk_ready_def)
  from find_file_None [OF op(1,3) assms(2)] op(2) assms(3) obtain t1 b where
    t1: "find_file nm ?s = Inr (False, t1)" "scanned (?s\<lparr>buf := b\<rparr>) t1" "length b = GRANZ" by auto
  note d1 = scannedD [OF t1(2)]
  let ?t1 = "t1\<lparr>estate := 0\<rparr>"
  have rt: "ready (?s\<lparr>buf := b\<rparr>)" by (rule ready_buf [OF op(1) t1(3)])
  have r1: "ready ?t1" "origin ?t1 = ?o" "content ?t1 = f" "scanning 0 ?t1"
  proof -
    have "ready t1" using rt d1(8) by simp
    then show "ready ?t1" by (simp add: ready_def origin_def content_def)
    show "origin ?t1 = ?o" using d1(5) by (simp add: origin_def)
    show "content ?t1 = f" using d1(1,2) fn by (simp add: content_def)
    show "scanning 0 ?t1" by (simp add: scanning_def)
  qed
  from free_entry_loop_Some [OF r1(1,4), of i] r1(2,3) assms(4) obtain t2 where
    t2: "free_entry_loop ?t1 = Inr ((), t2)" "scanned ?t1 t2" by auto
  note d2 = scannedD [OF t2(2)]
  have f2: "files t2 = files s" "img t2 = n" "denied t2 = denied s" "fat t2 = fat_of ?o f" "trans t2 = trans s"
    "offset t2 = offset s" "ready t2"
    using d1 d2 r1 by simp_all
  have rd: "open_read src t2 = Inr (c, t2)" using assms(5,6) f2 by (simp add: open_read_def)
  have fg: "findgran t2 = (-1, t2)"
    using findgran_full [of t2] f2(4) io assms(8) by simp
  let ?t3 = "t2\<lparr>entry := (entry t2)\<lparr>first := 0xff\<rparr>\<rparr>"
  have r3: "ready ?t3" "origin ?t3 = ?o" "trans ?t3 = trans s" "content ?t3 = f" "img ?t3 = n"
    using f2 fn by (simp_all add: ready_def origin_def content_def)
  let ?t4 = "store_piece 255 c ?t3"
  have l: "length c \<le> GRANZ" using assms(7) by simp
  have pl: "put_loop c 255 ?t3 = Inr ((255, length c), ?t4)"
    using put_piece_ok [OF r3(1) l, of 255] assms(7) by (subst put_loop.simps) simp
  have gp: "gran_pos 255 = 592128" by (simp add: gran_pos_def)
  have "files ?t4 n = Some (pwrite (?o + 592128) (to_disk (trans s) c) f)"
    unfolding gp [symmetric] r3(2-4) [symmetric]
    using r3(5) by (simp add: store_piece_def fdwrite_def nl2cr_def into_buf_def content_def)
  moreover have "length (fat ?t4) = FATZ"
    using f2(4) io by (simp add: store_piece_def fdwrite_def nl2cr_def into_buf_def)
  ultimately have pf: "put_finish nm 255 (length c) ?t4 = Inl (Fault, ?t4)"
    by (simp add: put_finish_def)
  have m: "(-1 :: u8) = 0xff" by simp
  have "put n src nm s = Inl (Fault, ?t4)"
    using pl pf by (simp add: put_def openimg_ok [OF assms(1)] t1(1) t2(1) rd fg Let_def m)
  with \<open>files ?t4 n = _\<close> show ?thesis by blast
qed

section \<open>The boot track\<close>

lemma putb_scan_ok:
  assumes "ready s" and "scanning k s" and "k \<le> 72"
    and "\<forall>e \<in> set (drop k (dir_of (origin s) (content s))). walk (first e) (fat s) = Some True"
  shows "\<exists>t. putb_scan s = Some (Inr ((), t)) \<and> scanned s t"
  using assms
proof (induction "72 - k" arbitrary: k s)
  case 0
  then show ?case using getentry_end [of s] by (subst putb_scan.simps) auto
next
  case (Suc m)
  then have k: "k < 72" by simp
  let ?s = "at_slot k s"
  note g = getentry_ok [OF Suc.prems(1,2) k]
  note sc = at_slot_scan [where k = k and s = s]
  note d = scannedD [OF sc(2)]
  have e: "entry ?s = dir_of (origin s) (content s) ! k" by (simp add: at_slot_def)
  note dd = drop_dir [OF k, of "origin s" "content s"]
  have w: "walk (first (entry ?s)) (fat ?s) = Some True" using Suc.prems(4) dd e d by simp
  have IH: "\<exists>t. putb_scan ?s = Some (Inr ((), t)) \<and> scanned ?s t"
    using Suc.hyps(2) Suc.prems(1,4) k dd d by (intro Suc.hyps(1) [OF _ _ sc(1)]) simp_all
  show ?case
  proof (cases "name (entry ?s) ! 0 = 0xff")
    case True
    with g sc show ?thesis by (subst putb_scan.simps) auto
  next
    case False
    then have "putb_scan s = putb_scan ?s" using g w by (subst putb_scan.simps) simp
    with IH scanned_trans [OF sc(2)] show ?thesis by auto
  qed
qed

lemma put_gran_ok:
  assumes "ready s" and "length b \<le> GRANZ"
  shows "\<exists>t. put_gran x b s = Inr ((), t) \<and> ready t \<and> origin t = origin s \<and> img t = img s
    \<and> fat t = fat s \<and> offset t = offset s \<and> content t = pwrite (origin s + gran_pos x) b (content s)
    \<and> files t = (files s)(img s := Some (content t)) \<and> denied t = denied s"
proof -
  have o: "0 \<le> offset s" using assms(1) by (simp add: ready_def)
  let ?s = "into_buf b s"
  let ?t = "fdwrite b (?s\<lparr>pos := origin s + gran_pos x\<rparr>)"
  have "seekgran x ?s = Inr ((), ?s\<lparr>pos := origin s + gran_pos x\<rparr>)"
    using o by (subst seekgran_ok) (simp_all add: into_buf_def origin_def)
  then have "put_gran x b s = Inr ((), ?t)" by (simp add: put_gran_def)
  moreover have c: "content ?t = pwrite (origin s + gran_pos x) b (content s)"
    by (simp add: fdwrite_def into_buf_def content_def)
  moreover have "ready ?t"
    using assms by (simp add: ready_def c) (simp add: fdwrite_def into_buf_def origin_def)
  moreover have "files ?t = (files s)(img s := Some (content ?t))"
    unfolding c by (simp add: fdwrite_def into_buf_def content_def)
  ultimately show ?thesis by (intro exI [of _ ?t]) (simp add: fdwrite_def into_buf_def origin_def)
qed

lemma pread_pwrite_take: "length b \<ge> n \<Longrightarrow> pread off n (pwrite off b f) = take n b"
  using pread_pwrite_inside [of off off n b f] by (simp add: pread_def)

text \<open>
  \<open>putboot\<close> stores the first 4608 bytes of a file in the last two granules, whoever uses them:
  files with chains there are not spared, the complaint the program prints does not stop it.
  \<open>getboot\<close> reads them back.
\<close>

theorem putboot_getboot:
  assumes "disk_ready n f s" and "files s src = Some c" and "\<not> denied s src" and "src \<noteq> n"
    and "2 * GRANZ \<le> length c"
    and "\<forall>e \<in> set (dir_of (origin s) f). walk (first e) (fat_of (origin s) f) = Some True"
  shows "\<exists>t f'. putb n src s = Some (Inr ((), t)) \<and> files t = (files s)(n := Some f')
    \<and> fat_of (origin s) f' = (fat_of (origin s) f)[66 := 0xc0, 67 := 0xc0]
    \<and> gran_at (origin s) f' 66 @ gran_at (origin s) f' 67 = take (2 * GRANZ) c
    \<and> (\<forall>u dst. disk_ready n f' u \<longrightarrow> origin u = origin s \<longrightarrow> dst \<noteq> n \<longrightarrow> \<not> denied u dst \<longrightarrow> files u dst = None \<longrightarrow>
         (\<exists>v. getb n dst u = Inr ((), v) \<and> files v dst = Some (take (2 * GRANZ) c)))"
proof -
  let ?o = "origin s" and ?s = "opened n f s"
  note op = openimg_ready [OF assms(1)]
  have io: "image_ok ?o f" and fn: "files s n = Some f" and o0: "0 \<le> offset s"
    using assms(1) by (simp_all add: disk_ready_def)
  from putb_scan_ok [OF op(1,3)] op(2) assms(6) obtain t1 where
    t1: "putb_scan ?s = Some (Inr ((), t1))" "scanned ?s t1" by auto
  note d1 = scannedD [OF t1(2)]
  have r1: "ready t1" "origin t1 = ?o" "content t1 = f" "img t1 = n" "files t1 = files s" "fat t1 = fat_of ?o f"
    "offset t1 = offset s"
    using d1 op by simp_all
  have rd: "open_read src t1 = Inr (c, t1)" using assms(2,3) d1 by (simp add: open_read_def)
  define b1 where "b1 = take GRANZ c"
  define b2 where "b2 = take GRANZ (drop GRANZ c)"
  have lb: "length b1 = GRANZ" "length b2 = GRANZ" using assms(5) by (simp_all add: b1_def b2_def)
  from put_gran_ok [OF r1(1), of b1 66] lb r1 obtain t2 where
    t2: "put_gran 66 b1 t1 = Inr ((), t2)" "ready t2" "origin t2 = ?o" "img t2 = n" "fat t2 = fat_of ?o f"
      "offset t2 = offset s" "content t2 = pwrite (?o + gran_pos 66) b1 f"
      "files t2 = (files s)(n := Some (content t2))"
    by auto
  from put_gran_ok [OF t2(2), of b2 67] lb t2 obtain t3 where
    t3: "put_gran 67 b2 t2 = Inr ((), t3)" "origin t3 = ?o" "img t3 = n" "fat t3 = fat_of ?o f"
      "offset t3 = offset s" "content t3 = pwrite (?o + gran_pos 67) b2 (content t2)"
      "files t3 = (files t2)(n := Some (content t3))"
    by auto
  define ft where "ft = (fat_of ?o f)[66 := 0xc0, 67 := 0xc0]"
  define t4 where "t4 = t3\<lparr>fat := ft\<rparr>"
  define f' where "f' = pwrite (?o + FATST) ft (content t3)"
  define t5 where "t5 = fdwrite ft (t4\<lparr>pos := ?o + FATST\<rparr>)"
  have t4: "offset t4 = offset s" "origin t4 = ?o" "img t4 = n" "fat t4 = ft" "files t4 = files t3"
    using t3 by (simp_all add: t4_def origin_def)
  have c4: "content (t4\<lparr>pos := ?o + FATST\<rparr>) = content t3" using t3(3) t4 by (simp add: content_def)
  have sf: "savefat t4 = Inr ((), t5)" using o0 t4 by (simp add: savefat_ok t5_def)
  have run: "putb n src s = Some (Inr ((), t5))"
    using t1(1) rd t2(1) t3(1,4) sf
    by (simp add: putb_def openimg_ok [OF assms(1)] b1_def b2_def t4_def ft_def)
  have f5: "files t5 = (files s)(n := Some f')"
    using t4 c4 t3(7) t2(8) by (simp add: t5_def fdwrite_def f'_def fun_eq_iff)
  have io2: "image_ok ?o (content t2)" using io t2(7) by simp
  have io3: "image_ok ?o (content t3)" using io2 t3(6) by simp
  have lt: "length ft = FATZ" using io by (simp add: ft_def)
  have fat: "fat_of ?o f' = ft" unfolding f'_def by (rule fat_of_fat [OF lt])
  have g66: "gran_at ?o f' 66 = b1"
    using gran_at_fat [OF io3 _ lt, of 66] gran_at_gran [OF io2, of 66 67 b2]
      grans.rd_wr_same [OF io, of 66 b1] lb t2(7) t3(6) by (simp add: f'_def)
  have g67: "gran_at ?o f' 67 = b2"
    using gran_at_fat [OF io3 _ lt, of 67] grans.rd_wr_same [OF io2, of 67 b2] lb t3(6)
    by (simp add: f'_def)
  have cc: "b1 @ b2 = take (2 * GRANZ) c"
    using take_add [of GRANZ GRANZ c] by (simp add: b1_def b2_def)
  have reads: "\<exists>v. getb n dst u = Inr ((), v) \<and> files v dst = Some (take (2 * GRANZ) c)"
    if u: "disk_ready n f' u" "origin u = ?o" "dst \<noteq> n" "\<not> denied u dst" "files u dst = None" for u dst
  proof -
    define v1 where "v1 = (opened n f' u)\<lparr>files := (files u)(dst := Some [])\<rparr>"
    note ou = openimg_ready [OF u(1)]
    have v1: "open_create dst False (opened n f' u) = Inr ((), v1)"
      using u by (simp add: open_create_def v1_def)
    have rv: "ready v1" "origin v1 = ?o" "content v1 = f'" "img v1 = n" "files v1 dst = Some []"
      using u ou by (auto simp: v1_def ready_def content_def origin_def disk_ready_def)
    have gg: "\<exists>v. get_gran dst off x w = Inr ((), v) \<and> ready v \<and> origin v = ?o \<and> content v = f' \<and> img v = n
        \<and> files v dst = Some (pwrite off (gran_at ?o f' x) h)"
      if w: "ready w" "origin w = ?o" "content w = f'" "img w = n" "files w dst = Some h" "x < 68" for w x off h
    proof -
      have o: "0 \<le> offset w" "image_ok ?o f'" using w by (simp_all add: ready_def)
      note l = length_gran_at [OF o(2) w(6)]
      let ?w = "w\<lparr>pos := ?o + gran_pos x + GRANZ, buf := gran_at ?o f' x\<rparr>"
      have "length (buf w) = GRANZ" using w(1) by (simp add: ready_def)
      then have "get_gran dst off x w = Inr ((), ?w\<lparr>files := (files w)(dst := Some (pwrite off (gran_at ?o f' x) h))\<rparr>)"
        using l w o by (simp add: get_gran_def seekgran_ok fdread_def Let_def into_buf_def gran_at_def content_def)
      moreover have "content (?w\<lparr>files := (files w)(dst := Some y)\<rparr>) = f'" for y
        using w(3,4) u(3) by (simp add: content_def)
      moreover have "ready (?w\<lparr>files := (files w)(dst := Some y)\<rparr>)" for y
        using w(1) calculation(2) [of y] w(2,4) l o by (auto simp: ready_def origin_def)
      ultimately show ?thesis using w by (simp add: origin_def)
    qed
    from gg [OF rv, of 66 0] obtain v2 where v2: "get_gran dst 0 66 v1 = Inr ((), v2)" "ready v2" "origin v2 = ?o"
      "content v2 = f'" "img v2 = n" "files v2 dst = Some (pwrite 0 b1 [])" unfolding g66 by auto
    from gg [OF v2(2-6), of 67 GRANZ] obtain v3 where v3: "get_gran dst GRANZ 67 v2 = Inr ((), v3)"
      "files v3 dst = Some (pwrite GRANZ b2 (pwrite 0 b1 []))" unfolding g67 by auto
    have "pwrite GRANZ b2 (pwrite 0 b1 []) = pwrite 0 (b1 @ b2) []"
      using pwrite_append [of 0 b1 b2 "[]"] lb by simp
    also have "\<dots> = b1 @ b2" by (simp add: pwrite_def)
    finally have "files v3 dst = Some (take (2 * GRANZ) c)" using v3(2) cc by simp
    moreover have "getb n dst u = Inr ((), v3)"
      by (simp add: getb_def openimg_ok [OF u(1)] v1 v2(1) v3(1))
    ultimately show ?thesis by blast
  qed
  show ?thesis
    by (rule exI [of _ t5], rule exI [of _ f'])
      (use run f5 fat ft_def g66 g67 cc reads in simp)
qed

section \<open>Cyclic chains\<close>

lemma countchain_cycle:
  assumes "\<not> last_gran g" and "unat g < length f" and "f ! unat g = g"
  shows "countchain g f = None"
proof -
  have "\<not> (\<not> last_gran x \<and> unat x < length h \<and> h ! unat x = x)" if "countchain x h = Some r" for x h r
    by (rule countchain.raw_induct [OF _ that, where
        P = "\<lambda>x h r. \<not> (\<not> last_gran x \<and> unat x < length h \<and> h ! unat x = x)"])
      (fastforce split: if_splits simp: bind_eq_Some_conv)
  with assms show ?thesis by (cases "countchain g f") auto
qed

text \<open>
  \<open>ls\<close> never ends on an image whose first file's chain is a granule that points to itself.
\<close>

theorem ls_hangs_on_cycle:
  assumes "disk_ready n f s" and "name (dir_of (origin s) f ! 0) ! 0 \<notin> {0, 0xff}"
    and "first (dir_of (origin s) f ! 0) = g" and "unat g < FATZ" and "fat_of (origin s) f ! unat g = g"
  shows "list_files n s = None"
proof -
  let ?o = "origin s" and ?s = "opened n f s"
  note op = openimg_ready [OF assms(1)]
  have io: "image_ok ?o f" and o0: "0 \<le> offset s" using assms(1) by (simp_all add: disk_ready_def)
  let ?s1 = "?s\<lparr>pos := ?o + LABEL\<rparr>"
  have sk: "dlseek (int LABEL + offset ?s) ?s = Inr ((), ?s1)"
    using o0 by (simp add: dlseek_def origin_def nat_add_distrib add.commute)
  have l: "length (pread (?o + LABEL) 256 f) = 256"
    using io by (simp add: length_pread image_ok_def)
  have c1: "content ?s1 = f" using op(2) by (simp add: content_def)
  have hang: "list_loop 0 t = None" if "ready t" "scanning 0 t" "origin t = ?o" "content t = f"
    "fat t = fat_of ?o f" for t
  proof -
    note g = getentry_ok [OF that(1,2)]
    let ?t = "at_slot 0 t"
    have e: "entry ?t = dir_of ?o f ! 0" "fat ?t = fat_of ?o f" using that by (simp_all add: at_slot_def)
    have "\<not> last_gran g" using assms(4) by (intro last_gran_small) simp
    then have c: "countchain g (fat_of ?o f) = None"
      using assms(4,5) io by (intro countchain_cycle) simp_all
    show ?thesis
      using g e c assms(2,3)
      by (subst list_loop.simps) (simp add: getstring_def into_buf_def)
  qed
  let ?s2 = "into_buf (pread (?o + LABEL) 256 f) (?s1\<lparr>pos := ?o + LABEL + 256\<rparr>)"
  have b2: "length (buf ?s2) = GRANZ" using op(1) l by (simp add: ready_def into_buf_def)
  have s2: "ready ?s2" "scanning 0 ?s2" "origin ?s2 = ?o" "content ?s2 = f" "fat ?s2 = fat_of ?o f"
    using op(1,2) b2 assms(1)
    by (auto simp: ready_def scanning_def into_buf_def origin_def content_def disk_ready_def)
  have p2: "ready (print i ?s2)" "scanning 0 (print i ?s2)" "origin (print i ?s2) = ?o"
    "content (print i ?s2) = f" "fat (print i ?s2) = fat_of ?o f" for i
    using s2 by (simp_all add: print_def ready_def scanning_def origin_def content_def)
  show ?thesis
    using hang [OF s2] hang [OF p2] sk l c1
    by (simp add: list_files_def openimg_ok [OF assms(1)] fdread_def Let_def)
qed

end
