(* ===== verification/Decb_Demo.thy ===== *)
theory Decb_Demo
  imports Decb_Spec
begin

text \<open>
  Concrete disk images on which the properties of \<open>decb\<close> are applied: an empty one, and images
  with a given granule table and one directory entry.
\<close>

definition blank :: bytes where
  "blank = replicate 161280 0xff"

definition demo_img :: "bytes \<Rightarrow> dirent \<Rightarrow> bytes" where
  "demo_img ft e = pwrite (0 + DIRST + 32 * 0) (entry_bytes e) (pwrite (0 + FATST) ft blank)"

definition demo :: "bytes \<Rightarrow> bytes \<Rightarrow> decb" where
  "demo f c = start [''d'' \<mapsto> f, ''s'' \<mapsto> c] (\<lambda>_. False)"

lemma image_ok_blank [simp]: "image_ok 0 blank"
  by (simp add: image_ok_def blank_def)

lemma pread_blank: "off + m \<le> 161280 \<Longrightarrow> pread off m blank = replicate m 0xff"
  by (simp add: pread_def blank_def min_def)

lemma fat_of_blank [simp]: "fat_of 0 blank = replicate FATZ 0xff"
  by (simp add: fat_of_def pread_blank)

lemma gran_at_blank [simp]: "g < 68 \<Longrightarrow> gran_at 0 blank g = replicate GRANZ 0xff"
  using gran_pos_cases [of g] by (auto simp: gran_at_def intro: pread_blank)

lemma dir_of_blank: "dir_of 0 blank = replicate 72 (bytes_entry (replicate 32 0xff))"
proof (rule nth_equalityI)
  fix i assume "i < length (dir_of 0 blank)"
  then show "dir_of 0 blank ! i = replicate 72 (bytes_entry (replicate 32 0xff)) ! i"
    by (simp add: dir_of_def slot_at_def pread_blank)
qed simp

lemma entry_ff [simp]: "name (bytes_entry (replicate 32 0xff)) ! 0 = 0xff"
  by (simp add: bytes_entry_def)

lemma lookup_blank [simp]: "lookup k (replicate n (bytes_entry (replicate 32 0xff))) = None"
  by (cases n) simp_all

lemma free_slot_blank [simp]: "free_slot (replicate (Suc n) (bytes_entry (replicate 32 0xff))) = Some 0"
  by simp

lemma rep72: "replicate 72 x = x # replicate 71 x"
  by (simp add: numeral_eq_Suc)

lemma demo_img_facts:
  assumes "length ft = FATZ" and "entry_ok e"
  shows "image_ok 0 (demo_img ft e)" and "fat_of 0 (demo_img ft e) = ft"
    and "dir_of 0 (demo_img ft e) = e # replicate 71 (bytes_entry (replicate 32 0xff))"
    and "g < 68 \<Longrightarrow> gran_at 0 (demo_img ft e) g = replicate GRANZ 0xff"
proof -
  let ?f = "pwrite (0 + FATST) ft blank"
  have io: "image_ok 0 ?f" by simp
  note le = length_entry_bytes [OF assms(2)]
  show "image_ok 0 (demo_img ft e)" by (simp add: demo_img_def)
  show "fat_of 0 (demo_img ft e) = ft"
    unfolding demo_img_def fat_of_slot [OF io zero_less_numeral le] by (rule fat_of_fat [OF assms(1)])
  show "dir_of 0 (demo_img ft e) = e # replicate 71 (bytes_entry (replicate 32 0xff))"
    unfolding demo_img_def dir_of_slot [OF io zero_less_numeral le] bytes_entry_bytes [OF assms(2)]
      dir_of_fat [OF image_ok_blank assms(1)] dir_of_blank rep72 by simp
  show "g < 68 \<Longrightarrow> gran_at 0 (demo_img ft e) g = replicate GRANZ 0xff"
    unfolding demo_img_def using gran_at_slot [OF io _ zero_less_numeral le, of g]
      gran_at_fat [OF image_ok_blank _ assms(1), of g] by simp
qed

lemma demo_facts [simp]:
  "disk_ready ''d'' f (demo f c) \<longleftrightarrow> image_ok 0 f" "origin (demo f c) = 0" "trans (demo f c) = False"
  "files (demo f c) ''s'' = Some c" "\<not> denied (demo f c) p" "offset (demo f c) = 0"
  "mbr (demo f c) = False" "boot (demo f c) = False"
  by (simp_all add: disk_ready_def demo_def start_def origin_def)

lemma rep11: "replicate 11 x = x # replicate 10 x" "replicate 7 x @ replicate 3 x = replicate 10 x"
  by (simp_all add: numeral_eq_Suc)

lemma key_A: "key ''A'' = Some (0x41 # replicate 10 0x20)"
  by (simp add: key_def c_string_def take_update_swap rep11)

lemma key_B: "key ''B'' = Some (0x42 # replicate 10 0x20)"
  by (simp add: key_def c_string_def take_update_swap rep11)

definition entry_A :: "u8 \<Rightarrow> dirent" where
  "entry_A g = \<lparr>name = 0x41 # replicate 7 0x20, ext = replicate 3 0x20, type = 0, aflag = 0, first = g,
     rem0 = 0, rem1 = 5, unused = replicate 16 0\<rparr>"

lemma entry_A_simps [simp]: "name (entry_A g) ! 0 = 0x41" "first (entry_A g) = g" "rem0 (entry_A g) = 0"
  by (simp_all add: entry_A_def)

lemma entry_A_ok [simp]: "entry_ok (entry_A g)"
  by (simp add: entry_ok_def entry_A_def)

lemma key_entry_A: "key_of (entry_A g) = 0x41 # replicate 10 0x20"
  using key_of_ok [OF entry_A_ok, of g] by (simp add: entry_A_def rep11)

lemma lookup_A: "lookup (0x41 # replicate 10 0x20) (entry_A g # es) = Some 0"
  "lookup (0x42 # replicate 10 0x20) (entry_A g # replicate n (bytes_entry (replicate 32 0xff))) = None"
  by (simp_all only: lookup.simps key_entry_A) (simp_all add: entry_A_def)

text \<open>The image with one file of five bytes in granule 0.\<close>

definition img_A :: bytes where
  "img_A = demo_img (0xc1 # replicate 67 0xff) (entry_A 0)"

lemma img_A_facts:
  "image_ok 0 img_A" "fat_of 0 img_A = 0xc1 # replicate 67 0xff"
  "dir_of 0 img_A = entry_A 0 # replicate 71 (bytes_entry (replicate 32 0xff))"
  "gran_at 0 img_A 0 = replicate GRANZ 0xff"
  unfolding img_A_def by (rule demo_img_facts; simp)+

lemma chain_A:
  "chain_data FATZ 0 img_A (fat_of 0 img_A) (entry_A 0) 0 = Some (replicate 5 0xff)"
  "chain_grans FATZ (fat_of 0 img_A) 0 = [0]"
proof -
  have "last_size 0xc1 (entry_A 0) = 5" by (simp add: last_size_def entry_A_def be16_def int16_def)
  moreover have "last_gran 0xc1" by (simp add: last_gran_def)
  moreover have "FATZ = Suc 67" by simp
  ultimately show "chain_data FATZ 0 img_A (fat_of 0 img_A) (entry_A 0) 0 = Some (replicate 5 0xff)"
    "chain_grans FATZ (fat_of 0 img_A) 0 = [0]"
    by (simp_all only: chain_data.simps chain_grans.simps img_A_facts Let_def) (simp_all add: img_A_facts(4))
qed

lemma file_A: "file_of 0 img_A ''A'' = Some (replicate 5 0xff)"
proof -
  have "first (entry_A 0) = 0" by (simp add: entry_A_def)
  with chain_A(1) show ?thesis
    by (simp add: file_of_def key_A img_A_facts(3) lookup_A del: lookup.simps)
qed

lemma free_slot_A: "free_slot (entry_A g # replicate 71 (bytes_entry (replicate 32 0xff))) = Some (Suc 0)"
proof -
  have "replicate 71 x = x # replicate 70 x" for x :: dirent by (simp add: numeral_eq_Suc)
  moreover have "name (entry_A g) ! 0 = 0x41" by (simp add: entry_A_def)
  ultimately show ?thesis by simp
qed

lemma granfree_rep: "granfree (replicate n 0xff) = n" "granfree (0xc1 # replicate n 0xff) = n"
proof -
  have "count_list (replicate n (0xff :: u8)) 0xff = n" by (induction n) auto
  then show "granfree (replicate n 0xff) = n" "granfree (0xc1 # replicate n 0xff) = n"
    by (simp_all add: granfree_def)
qed

section \<open>Applications\<close>

lemma put_get_roundtrip_witness:
  "\<exists>t f' v. put ''d'' ''s'' ''A'' (demo blank [1, 2, 3]) = Inr ((), t) \<and> files t ''d'' = Some f'
    \<and> get ''d'' ''A'' ''x'' (demo f' []) = Some (Inr ((), v)) \<and> files v ''x'' = Some [1, 2, 3]"
proof -
  have "\<exists>t f'. put ''d'' ''s'' ''A'' (demo blank [1, 2, 3]) = Inr ((), t)
    \<and> files t = (files (demo blank [1, 2, 3]))(''d'' := Some f') \<and> image_ok (origin (demo blank [1, 2, 3])) f'
    \<and> (\<forall>u dst. disk_ready ''d'' f' u \<longrightarrow> origin u = origin (demo blank [1, 2, 3]) \<longrightarrow> dst \<noteq> ''d'' \<longrightarrow>
         \<not> denied u dst \<longrightarrow> (\<exists>v. get ''d'' ''A'' dst u = Some (Inr ((), v))
            \<and> files v = (files u)(dst := Some (from_disk (trans u) (to_disk (trans (demo blank [1, 2, 3])) [1, 2, 3])))))"
    by (rule put_get_roundtrip [where f = blank and i = 0, OF _ key_A])
      (simp_all add: dir_of_blank rep72 granfree_rep)
  then obtain t f' where t: "put ''d'' ''s'' ''A'' (demo blank [1, 2, 3]) = Inr ((), t)"
    "files t ''d'' = Some f'" "image_ok 0 f'" and
    r: "\<And>u dst. disk_ready ''d'' f' u \<Longrightarrow> origin u = 0 \<Longrightarrow> dst \<noteq> ''d'' \<Longrightarrow>
         \<not> denied u dst \<Longrightarrow> \<exists>v. get ''d'' ''A'' dst u = Some (Inr ((), v))
            \<and> files v = (files u)(dst := Some (from_disk (trans u) (to_disk False [1, 2, 3])))"
    by auto
  have "\<exists>v. get ''d'' ''A'' ''x'' (demo f' []) = Some (Inr ((), v)) \<and> files v ''x'' = Some [1, 2, 3]"
    using r [of "demo f' []" "''x''"] t(3) by (auto simp: from_disk_def to_disk_def)
  with t(1,2) show ?thesis by blast
qed

lemma put_get_truncates_witness:
  "\<exists>t f' v. put ''d'' ''s'' ''A'' (demo blank (replicate 512 7)) = Inr ((), t) \<and> files t ''d'' = Some f'
    \<and> get ''d'' ''A'' ''x'' (demo f' []) = Some (Inr ((), v)) \<and> files v ''x'' = Some (replicate 256 7)"
proof -
  let ?c = "replicate 512 7 :: bytes"
  have "\<exists>t f'. put ''d'' ''s'' ''A'' (demo blank ?c) = Inr ((), t)
    \<and> files t = (files (demo blank ?c))(''d'' := Some f') \<and> image_ok (origin (demo blank ?c)) f'
    \<and> (\<forall>u dst. disk_ready ''d'' f' u \<longrightarrow> origin u = origin (demo blank ?c) \<longrightarrow> dst \<noteq> ''d'' \<longrightarrow>
         \<not> denied u dst \<longrightarrow> (\<exists>v. get ''d'' ''A'' dst u = Some (Inr ((), v))
            \<and> files v = (files u)(dst := Some (from_disk (trans u) (to_disk (trans (demo blank ?c)) (take (length ?c - 256) ?c))))))"
    by (rule put_get_truncates [where f = blank and i = 0, OF _ key_A])
      (simp_all add: dir_of_blank rep72 granfree_rep)
  then obtain t f' where t: "put ''d'' ''s'' ''A'' (demo blank ?c) = Inr ((), t)"
    "files t ''d'' = Some f'" "image_ok 0 f'" and
    r: "\<And>u dst. disk_ready ''d'' f' u \<Longrightarrow> origin u = 0 \<Longrightarrow> dst \<noteq> ''d'' \<Longrightarrow>
         \<not> denied u dst \<Longrightarrow> \<exists>v. get ''d'' ''A'' dst u = Some (Inr ((), v))
            \<and> files v = (files u)(dst := Some (from_disk (trans u) (to_disk False (replicate 256 7))))"
    by auto
  have "\<exists>v. get ''d'' ''A'' ''x'' (demo f' []) = Some (Inr ((), v)) \<and> files v ''x'' = Some (replicate 256 7)"
    using r [of "demo f' []" "''x''"] t(3) by (auto simp: from_disk_def to_disk_def)
  with t(1,2) show ?thesis by blast
qed

lemma put_keeps_files_witness:
  "\<exists>t f'. put ''d'' ''s'' ''B'' (demo img_A [1, 2, 3]) = Inr ((), t) \<and> files t ''d'' = Some f'
    \<and> file_of 0 f' ''A'' = Some (replicate 5 0xff)"
proof -
  let ?s = "demo img_A [1, 2, 3]"
  have "\<exists>t f'. put ''d'' ''s'' ''B'' ?s = Inr ((), t) \<and> files t = (files ?s)(''d'' := Some f')
    \<and> file_of (origin ?s) f' ''A'' = Some (replicate 5 0xff)"
    by (rule put_keeps_files [where f = img_A and i = 1 and j = 0 and c = "[1, 2, 3]", OF _ key_B _ _ _ _ _ _ _ key_A])
      (simp_all add: img_A_facts file_A lookup_A free_slot_A granfree_rep del: lookup.simps free_slot.simps)
  then show ?thesis by auto
qed

lemma rm_removes_witness:
  "\<exists>t f'. rm ''d'' ''A'' (demo img_A []) = Inr ((), t) \<and> files t ''d'' = Some f'
    \<and> file_of 0 f' ''A'' = None \<and> granfree (fat_of 0 f') = 68"
proof -
  let ?s = "demo img_A []"
  have u: "key_of (dir_of 0 img_A ! j) \<noteq> 0x41 # replicate 10 0x20" if "j < 72" "j \<noteq> 0" for j
  proof -
    have "dir_of 0 img_A ! j = bytes_entry (replicate 32 0xff)"
      using that by (cases j) (simp_all add: img_A_facts)
    then show ?thesis by (simp add: key_of_def entry_bytes_entry rep11)
  qed
  have f0: "first (entry_A 0) = 0" by (simp add: entry_A_def)
  have d0: "dir_of 0 img_A ! 0 = entry_A 0" by (simp add: img_A_facts)
  have lk: "lookup (0x41 # replicate 10 0x20) (dir_of (origin ?s) img_A) = Some 0"
    by (simp add: img_A_facts lookup_A del: lookup.simps)
  have "granfree (fat_of 0 img_A) = 67" unfolding img_A_facts by (rule granfree_rep)
  with rm_removes [OF _ key_A _ lk, of "''d''"] u file_A show ?thesis
    by (fastforce simp: img_A_facts(1) d0 f0 chain_A(2) entry_A_def)
qed

lemma mkfs_empty_witness:
  "\<exists>t f. mkfs ''new'' (demo blank []) = Inr ((), t) \<and> files t ''new'' = Some f
    \<and> (\<forall>nm. file_of 0 f nm = None) \<and> granfree (fat_of 0 f) = 68"
  using mkfs_empty [of "demo blank []" "''new''"] by auto

lemma put_full_disk_witness:
  "\<exists>t. put ''d'' ''s'' ''B'' (demo (demo_img (replicate 68 0xc0) (entry_A 0)) [9]) = Inl (Fault, t)
    \<and> files t ''d'' = Some (pwrite 592128 [9] (demo_img (replicate 68 0xc0) (entry_A 0)))"
proof -
  let ?f = "demo_img (replicate 68 0xc0) (entry_A 0)"
  have f: "image_ok 0 ?f" "fat_of 0 ?f = replicate 68 0xc0"
    "dir_of 0 ?f = entry_A 0 # replicate 71 (bytes_entry (replicate 32 0xff))"
    by (rule demo_img_facts; simp)+
  have "\<exists>t. put ''d'' ''s'' ''B'' (demo ?f [9]) = Inl (Fault, t)
    \<and> files t ''d'' = Some (pwrite (origin (demo ?f [9]) + 592128) (to_disk (trans (demo ?f [9])) [9]) ?f)"
    by (rule put_full_disk [where i = 1, OF _ key_B])
      (simp_all add: f lookup_A free_slot_A del: lookup.simps free_slot.simps)
  then show ?thesis by (simp add: to_disk_def)
qed

lemma putboot_getboot_witness:
  "\<exists>t f'. putb ''d'' ''s'' (demo blank (replicate 5000 3)) = Some (Inr ((), t)) \<and> files t ''d'' = Some f'
    \<and> fat_of 0 f' = (replicate 68 0xff)[66 := 0xc0, 67 := 0xc0]
    \<and> gran_at 0 f' 66 @ gran_at 0 f' 67 = replicate 4608 3"
proof -
  have w: "walk 0xff ft = Some True" for ft by (subst walk.simps) (simp add: last_gran_def)
  have e: "first (bytes_entry (replicate 32 0xff)) = 0xff" by (simp add: bytes_entry_def)
  show ?thesis
    using putboot_getboot [of "''d''" blank "demo blank (replicate 5000 3)" "''s''" "replicate 5000 3"]
    by (auto simp: dir_of_blank w e)
qed

lemma ls_hangs_on_cycle_witness:
  "list_files ''d'' (demo (demo_img (replicate 68 7) (entry_A 7)) []) = None"
proof -
  let ?f = "demo_img (replicate 68 7) (entry_A 7)"
  have f: "image_ok 0 ?f" "fat_of 0 ?f = replicate 68 7"
    "dir_of 0 ?f = entry_A 7 # replicate 71 (bytes_entry (replicate 32 0xff))"
    by (rule demo_img_facts; simp)+
  show ?thesis
    by (rule ls_hangs_on_cycle [where f = ?f and g = 7]) (simp_all add: f)
qed

end
