(* ===== verification/Slz.thy ===== *)
theory Slz
  imports Prelude
begin

text \<open>
  \<open>slz/slz.c\<close>, the SLZ packer and unpacker (compiled, as the source has it, without
  \<open>hashing_on\<close>).  A group is a tag byte and eight items, which are literal bytes or copies of
  3 to 17 bytes from the last 4095; the tag's bits say which.  A file's size fits a 32-bit
  \<open>long\<close>, so the position arithmetic is on integers.  The sizes given to \<open>calloc\<close> and \<open>fread\<close> are
  taken to be as wide as that, as on the host (\<open>Makefile.linux\<close>); where a \<open>size_t\<close> has 16 bits, files
  from 64 KB on are not covered.
\<close>

section \<open>State\<close>

abbreviation HISTORY_SIZE :: nat where "HISTORY_SIZE \<equiv> 4096"
abbreviation MAX_COMP_LEN :: nat where "MAX_COMP_LEN \<equiv> 17"

text \<open>
  The globals and the output file: \<open>room\<close> is how many bytes it still takes before \<open>putc\<close>
  returns \<open>EOF\<close>.  \<open>dist\<close> and \<open>mind\<close> are the unpacker's \<open>dist\<close> and \<open>min\<close>, which it prints.
\<close>

record slz =
  hist :: bytes
  hoff :: nat
  out :: bytes
  room :: nat
  dist :: int
  mind :: int

text \<open>\<open>Write_error\<close> is the \<open>exit\<close> after a failed write, \<open>Over_read\<close> a read behind the input buffer.\<close>

datatype stop = Write_error | Over_read

type_synonym 'a sres = "(stop \<times> slz) + ('a \<times> slz)"

definition do_putc :: "u8 \<Rightarrow> slz \<Rightarrow> unit sres" where
  "do_putc c s = (if room s = 0 then Inl (Write_error, s)
     else Inr ((), s\<lparr>out := out s @ [c], room := room s - 1\<rparr>))"

definition writechar :: "u8 \<Rightarrow> slz \<Rightarrow> unit sres" where
  "writechar c s = rbind (do_putc c s) (\<lambda>(_, s1).
     Inr ((), s1\<lparr>hist := (hist s1)[hoff s1 := c], hoff := (hoff s1 + 1) mod HISTORY_SIZE\<rparr>))"

section \<open>Unpacking\<close>

fun copy_loop :: "nat \<Rightarrow> nat \<Rightarrow> slz \<Rightarrow> unit sres" where
  "copy_loop 0 off s = Inr ((), s)"
| "copy_loop (Suc n) off s =
     rbind (writechar (hist s ! ((hoff s + off) mod HISTORY_SIZE)) s) (\<lambda>(_, s1).
       let d = int16 (dist s1 - 1)
       in copy_loop n off (s1\<lparr>dist := d, mind := min d (mind s1)\<rparr>))"

text \<open>
  The eight items of a group; the result tells whether the exit mark was met, and what is left
  of the input.
\<close>

fun bits_loop :: "nat \<Rightarrow> u16 \<Rightarrow> bytes \<Rightarrow> slz \<Rightarrow> (bool \<times> bytes) sres" where
  "bits_loop 0 tag inp s = Inr ((False, inp), s)"
| "bits_loop (Suc k) tag inp s =
     (case inp of
        [] \<Rightarrow> Inl (Over_read, s)
      | c # rest \<Rightarrow>
          if tag AND 0x80 \<noteq> 0 then
            if c = 0 then Inr ((True, rest), s)
            else (case rest of
                [] \<Rightarrow> Inl (Over_read, s)
              | d # rest' \<Rightarrow>
                  let off = HISTORY_SIZE - (unat (0xf0 AND c) * 16 + unat d)
                  in rbind (copy_loop (unat (c AND 0x0f) + 2) off (s\<lparr>dist := int16 (dist s + 1)\<rparr>))
                       (\<lambda>(_, s1). bits_loop k (tag + tag) rest' s1))
          else rbind (writechar c s) (\<lambda>(_, s1). bits_loop k (tag + tag) rest s1))"

lemma bits_loop_length:
  "bits_loop k tag inp s = Inr ((e, inp'), s') \<Longrightarrow> length inp' \<le> length inp"
proof (induction k tag inp s arbitrary: e inp' s' rule: bits_loop.induct)
  case (2 k tag inp s)
  then show ?case
    by (fastforce simp: Let_def res_simps split: list.splits if_splits)
qed simp

function unpack_loop :: "bytes \<Rightarrow> slz \<Rightarrow> bytes sres" where
  "unpack_loop [] s = Inl (Over_read, s)"
| "unpack_loop (t # inp) s =
     rbind (bits_loop 8 (ucast t) inp (s\<lparr>dist := int16 (dist s + 1)\<rparr>)) (\<lambda>((e, inp'), s1).
       if e then Inr (inp', s1) else unpack_loop inp' s1)"
  by pat_completeness auto
termination
  by (relation "measure (\<lambda>(inp, s). length inp)") (auto dest: bits_loop_length)

definition UnPackSLZ :: "bytes \<Rightarrow> slz \<Rightarrow> unit sres" where
  "UnPackSLZ inp s = rbind (unpack_loop inp (s\<lparr>dist := 0, mind := 0\<rparr>)) (\<lambda>(_, s1). Inr ((), s1))"

section \<open>Packing\<close>

text \<open>
  The comparison of two places runs up to 18 bytes, also behind the end of the input: \<open>mem\<close> is
  the memory from the start of the buffer on, of which only the first \<open>len\<close> bytes are the file.
\<close>

function match_len :: "(nat \<Rightarrow> u8) \<Rightarrow> nat \<Rightarrow> nat \<Rightarrow> nat \<Rightarrow> nat" where
  "match_len mem a b temp =
     (if mem a = mem b \<and> temp < MAX_COMP_LEN then match_len mem (a + 1) (b + 1) (temp + 1) else temp)"
  by pat_completeness auto
termination
  by (relation "measure (\<lambda>(mem, a, b, temp). MAX_COMP_LEN - temp)") auto

declare match_len.simps [simp del]

text \<open>The search from the byte before \<open>pos\<close> backwards; the result is \<open>found\<close> and \<open>wherefound\<close>.\<close>

function search :: "(nat \<Rightarrow> u8) \<Rightarrow> nat \<Rightarrow> nat \<Rightarrow> int \<Rightarrow> int \<Rightarrow> nat \<Rightarrow> int \<Rightarrow> nat \<times> int" where
  "search mem len pos start endv found wh =
     (if endv < start then (found, wh)
      else let temp = match_len mem pos (nat endv) 0
           in if found < temp then
                if len < temp + pos then
                  let temp' = len - pos;
                      r = (if found < temp' then (temp', endv) else (found, wh))
                  in if fst r = MAX_COMP_LEN then r else search mem len pos start (endv - 1) (fst r) (snd r)
                else if temp = MAX_COMP_LEN then (temp, endv)
                else search mem len pos start (endv - 1) temp endv
              else search mem len pos start (endv - 1) found wh)"
  by pat_completeness auto
termination
  by (relation "measure (\<lambda>(mem, len, pos, start, endv, found, wh). nat (endv - start + 1))") auto

declare search.simps [simp del]

record packer =
  loop1 :: nat
  loop2 :: int
  iter :: nat
  tag :: u16
  outchars :: bytes
  lenoutchars :: nat
  finished :: bool

definition outchar :: "u8 \<Rightarrow> packer \<Rightarrow> packer" where
  "outchar c p = p\<lparr>outchars := (outchars p)[lenoutchars p := c], lenoutchars := lenoutchars p + 1\<rparr>"

definition start_of :: "nat \<Rightarrow> int" where
  "start_of pos = (let v = int pos - 4095 in if v < 0 then 0 else v)"

text \<open>One pass of the inner loop.\<close>

definition pack_item :: "(nat \<Rightarrow> u8) \<Rightarrow> nat \<Rightarrow> packer \<Rightarrow> packer" where
  "pack_item mem len p =
     (let (found, wh) = search mem len (loop1 p) (start_of (loop1 p)) (int (loop1 p) - 1) 0 0;
          p1 = (if 2 < found then
                  let e = int (loop1 p) - wh;
                      v = word_of_int (((e div 16) AND 0xf0) + (int found - 2));
                      q = outchar (word_of_int e) (outchar v (p\<lparr>tag := tag p OR drop_bit (iter p) 128\<rparr>))
                  in q\<lparr>loop2 := loop2 q - int found, loop1 := loop1 q + found\<rparr>
                else let q = outchar (mem (loop1 p)) p
                     in q\<lparr>loop1 := loop1 q + 1, loop2 := loop2 q - 1\<rparr>)
      in p1\<lparr>finished := (if loop2 p1 \<le> 0 then True else finished p1), iter := iter p1 + 1\<rparr>)"

lemma pack_item_simps [simp]: "iter (pack_item mem len p) = iter p + 1"
  by (simp add: pack_item_def outchar_def Let_def split: prod.split)

lemma pack_item_loop2: "loop2 (pack_item mem len p) < loop2 p"
  by (simp add: pack_item_def outchar_def Let_def split: prod.split)

lemma pack_item_finished:
  "finished (pack_item mem len p) \<longleftrightarrow> loop2 (pack_item mem len p) \<le> 0 \<or> finished p"
  by (simp add: pack_item_def outchar_def Let_def split: prod.split)

function group_loop :: "(nat \<Rightarrow> u8) \<Rightarrow> nat \<Rightarrow> packer \<Rightarrow> packer" where
  "group_loop mem len p =
     (if iter p < 8 \<and> \<not> finished p then group_loop mem len (pack_item mem len p) else p)"
  by pat_completeness auto
termination
  by (relation "measure (\<lambda>(mem, len, p). 8 - iter p)") auto

declare group_loop.simps [simp del]

lemma group_loop_less:
  "\<not> finished (group_loop mem len p) \<Longrightarrow> iter p < 8 \<Longrightarrow>
   loop2 (group_loop mem len p) < loop2 p \<and> 0 < loop2 (group_loop mem len p)"
proof (induction mem len p rule: group_loop.induct)
  case (1 mem len p)
  show ?case
  proof (cases "iter (pack_item mem len p) < 8 \<and> \<not> finished (pack_item mem len p)")
    case True
    with 1 pack_item_loop2 [of mem len p] show ?thesis
      by (subst (asm) group_loop.simps, subst (1 2) group_loop.simps) (auto simp: pack_item_finished)
  next
    case False
    then have g: "group_loop mem len (pack_item mem len p) = pack_item mem len p"
      by (subst group_loop.simps) auto
    from 1(2,3) have "group_loop mem len p = group_loop mem len (pack_item mem len p) \<or> finished p"
      by (subst group_loop.simps) auto
    with 1(2,3) g pack_item_loop2 [of mem len p] show ?thesis
      by (subst (asm) group_loop.simps, subst (1 2) group_loop.simps) (auto simp: pack_item_finished)
  qed
qed

lemma group_loop_idle: "\<not> iter p < 8 \<Longrightarrow> group_loop mem len p = p"
  by (subst group_loop.simps) simp

fun put_all :: "bytes \<Rightarrow> slz \<Rightarrow> unit sres" where
  "put_all [] s = Inr ((), s)"
| "put_all (c # cs) s = rbind (do_putc c s) (\<lambda>(_, s1). put_all cs s1)"

fun write_all :: "bytes \<Rightarrow> slz \<Rightarrow> unit sres" where
  "write_all [] s = Inr ((), s)"
| "write_all (c # cs) s = rbind (writechar c s) (\<lambda>(_, s1). write_all cs s1)"

text \<open>The outer loop: whole groups are written as they fill, until the input is used up.\<close>

function pack_loop :: "(nat \<Rightarrow> u8) \<Rightarrow> nat \<Rightarrow> packer \<Rightarrow> slz \<Rightarrow> packer sres" where
  "pack_loop mem len p s =
     (if finished p then Inr (p, s)
      else let q = group_loop mem len (p\<lparr>tag := 0\<rparr>)
           in if finished q then Inr (q, s)
              else rbind (put_all (take (lenoutchars q) ((outchars q)[0 := ucast (tag q)])) s) (\<lambda>(_, s1).
                     pack_loop mem len (q\<lparr>outchars := (outchars q)[0 := ucast (tag q)],
                       lenoutchars := 1, iter := 0\<rparr>) s1))"
  by pat_completeness auto
termination
proof (relation "measures [\<lambda>(mem, len, p, s). nat (loop2 p), \<lambda>(mem, len, p, s). if iter p < 8 then 0 else 1]", goal_cases)
  case 1
  show ?case by simp
next
  case (2 mem len p s q r u s1)
  show ?case
  proof (cases "iter p < 8")
    case True
    with 2 group_loop_less [of mem len "p\<lparr>tag := 0\<rparr>"] show ?thesis by auto
  next
    case False
    with 2 show ?thesis by (auto simp: group_loop_idle)
  qed
qed

declare pack_loop.simps [simp del]

definition pack_start :: "(nat \<Rightarrow> u8) \<Rightarrow> nat \<Rightarrow> packer" where
  "pack_start mem len = \<lparr>loop1 = 1, loop2 = int len - 1, iter = 1, tag = 0,
     outchars = (replicate 170 0)[1 := mem 0], lenoutchars = 2, finished = False\<rparr>"

definition PackSLZ :: "(nat \<Rightarrow> u8) \<Rightarrow> nat \<Rightarrow> slz \<Rightarrow> unit sres" where
  "PackSLZ mem len s =
     rbind (pack_loop mem len (pack_start mem len) s) (\<lambda>(p, s1).
       if iter p = 8 then
         rbind (write_all (take (lenoutchars p) ((outchars p)[0 := ucast (tag p)])) s1) (\<lambda>(_, s2).
           write_all [255, 0, 0] s2)
       else
         rbind (write_all (take (lenoutchars p)
             ((outchars p)[0 := ucast (tag p OR drop_bit (iter p) 128)])) s1) (\<lambda>(_, s2).
           write_all [0, 0] s2))"

section \<open>The program\<close>

definition slz_start :: "nat \<Rightarrow> slz" where
  "slz_start n = \<lparr>hist = replicate HISTORY_SIZE 0, hoff = 0, out = [], room = n, dist = 0, mind = 0\<rparr>"

text \<open>The memory behind the buffer of a file: the file, then \<open>junk\<close>.\<close>

definition memory :: "bytes \<Rightarrow> (nat \<Rightarrow> u8) \<Rightarrow> nat \<Rightarrow> u8" where
  "memory c junk i = (if i < length c then c ! i else junk i)"

text \<open>
  \<open>main\<close>: the source file (\<open>None\<close> when it cannot be opened), how much the destination takes
  (\<open>None\<close> when it cannot be opened), and whether \<open>calloc\<close> succeeds.  The result is the exit
  status and what was written; \<open>None\<close> is a crash.
\<close>

definition finish :: "unit sres \<Rightarrow> (int \<times> bytes option) option" where
  "finish r = (case r of
       Inr (_, s) \<Rightarrow> Some (0, Some (out s))
     | Inl (Write_error, s) \<Rightarrow> Some (1024 + 8, Some (out s))
     | Inl (Over_read, s) \<Rightarrow> None)"

definition slz_main :: "nat \<Rightarrow> string \<Rightarrow> bytes option \<Rightarrow> nat option \<Rightarrow> bool \<Rightarrow> (nat \<Rightarrow> u8)
    \<Rightarrow> (int \<times> bytes option) option" where
  "slz_main argc flag src dst calloc junk =
     (if argc \<noteq> 4 then Some (1024 + 1, None)
      else case src of
        None \<Rightarrow> Some (1024 + 2, None)
      | Some c \<Rightarrow> (case dst of
          None \<Rightarrow> Some (1024 + 4, None)
        | Some n \<Rightarrow>
            if 2 < length c \<and> calloc then
              if flag \<noteq> [] \<and> hd flag \<in> {CHR ''U'', CHR ''u''} then finish (UnPackSLZ c (slz_start n))
              else if flag \<noteq> [] \<and> hd flag \<in> {CHR ''P'', CHR ''p''} then
                finish (PackSLZ (memory c junk) (length c) (slz_start n))
              else Some (1024 + 1, Some [])
            else Some (0, Some [])))"

end
