(* ===== verification/Slz_Spec.thy ===== *)
theory Slz_Spec
  imports Slz
begin

text \<open>
  What the packer and the unpacker of \<open>slz/slz.c\<close> agree on: a token list, its meaning
  \<open>play\<close> and its encoding in groups of eight.  The unpacker plays the tokens of a packed file;
  the packer's tokens play to its input.
\<close>

section \<open>Tokens\<close>

datatype tok = Lit u8 | Copy nat nat

fun back_copy :: "nat \<Rightarrow> nat \<Rightarrow> bytes \<Rightarrow> bytes" where
  "back_copy d 0 b = b"
| "back_copy d (Suc n) b = back_copy d n (b @ [b ! (length b - d)])"

fun play1 :: "tok \<Rightarrow> bytes \<Rightarrow> bytes" where
  "play1 (Lit c) b = b @ [c]"
| "play1 (Copy d n) b = back_copy d n b"

fun play :: "tok list \<Rightarrow> bytes \<Rightarrow> bytes" where
  "play [] b = b"
| "play (t # ts) b = play ts (play1 t b)"

fun tok_ok :: "tok \<Rightarrow> bytes \<Rightarrow> bool" where
  "tok_ok (Lit c) b = True"
| "tok_ok (Copy d n) b = (0 < d \<and> d \<le> length b \<and> d < HISTORY_SIZE \<and> 2 < n \<and> n \<le> MAX_COMP_LEN)"

fun toks_ok :: "tok list \<Rightarrow> bytes \<Rightarrow> bool" where
  "toks_ok [] b = True"
| "toks_ok (t # ts) b = (tok_ok t b \<and> toks_ok ts (play1 t b))"

fun enc1 :: "tok \<Rightarrow> bytes" where
  "enc1 (Lit c) = [c]"
| "enc1 (Copy d n) = [word_of_int (((int d div 16) AND 0xf0) + (int n - 2)), word_of_int (int d)]"

definition enc :: "tok list \<Rightarrow> bytes" where
  "enc ts = concat (map enc1 ts)"

fun is_copy :: "tok \<Rightarrow> bool" where
  "is_copy (Lit c) = False"
| "is_copy (Copy d n) = True"

text \<open>The bits of a tag from position \<open>i\<close> of its group on.\<close>

definition tag_from :: "nat \<Rightarrow> 'a::len word \<Rightarrow> tok list \<Rightarrow> bool" where
  "tag_from i t ts \<longleftrightarrow> (\<forall>j<length ts. bit t (7 - (i + j)) = is_copy (ts ! j))"

inductive packed :: "bytes \<Rightarrow> tok list \<Rightarrow> bool" where
  packed_Nil: "packed [] []"
| packed_group: "packed w ts \<Longrightarrow> length g = 8 \<Longrightarrow> tag_from 0 (t :: u8) g \<Longrightarrow> packed (w @ t # enc g) (ts @ g)"

lemma enc_simps [simp]: "enc [] = []" "enc (t # ts) = enc1 t @ enc ts" "enc (ts @ us) = enc ts @ enc us"
  by (simp_all add: enc_def)

lemma play_append: "play (ts @ us) b = play us (play ts b)"
  by (induction ts arbitrary: b) simp_all

lemma toks_ok_append: "toks_ok (ts @ us) b \<longleftrightarrow> toks_ok ts b \<and> toks_ok us (play ts b)"
  by (induction ts arbitrary: b) auto

lemma length_back_copy [simp]: "length (back_copy d n b) = length b + n"
  by (induction n arbitrary: b) simp_all

lemma length_play1: "length b \<le> length (play1 t b)"
  by (cases t) simp_all

lemma length_play: "length b \<le> length (play ts b)"
proof (induction ts arbitrary: b)
  case (Cons t ts)
  show ?case using Cons [of "play1 t b"] length_play1 [of b t] by simp
qed simp

lemma tag_from_Cons: "tag_from i t (x # ts) \<longleftrightarrow> bit t (7 - i) = is_copy x \<and> tag_from (Suc i) t ts"
  unfolding tag_from_def length_Cons All_less_Suc2 by simp

section \<open>The unpacker plays the tokens\<close>

text \<open>The unpacker's state after the output \<open>o'\<close>; \<open>n\<close> is the size the output file can reach.\<close>

definition unp :: "nat \<Rightarrow> bytes \<Rightarrow> slz \<Rightarrow> bool" where
  "unp n o' s \<longleftrightarrow> out s = o' \<and> room s + length o' = n \<and> length (hist s) = HISTORY_SIZE
     \<and> hoff s = length o' mod HISTORY_SIZE
     \<and> (\<forall>d. 0 < d \<and> d \<le> HISTORY_SIZE \<and> d \<le> length o' \<longrightarrow>
          hist s ! ((hoff s + HISTORY_SIZE - d) mod HISTORY_SIZE) = o' ! (length o' - d))"

lemma unp_cong [simp]: "unp n o' (s\<lparr>dist := x\<rparr>) = unp n o' s" "unp n o' (s\<lparr>mind := y\<rparr>) = unp n o' s"
  by (simp_all add: unp_def)

lemma mod_shift:
  fixes a d :: nat
  assumes "d < m" and "d \<le> a"
  shows "(a mod m + m - d) mod m = (a - d) mod m"
proof -
  have "(a mod m + m - d) mod m = (a mod m + (m - d)) mod m" using assms by simp
  also have "\<dots> = (a + (m - d)) mod m" by (simp add: mod_add_left_eq)
  also have "\<dots> = (a - d + m) mod m" using assms by simp
  finally show ?thesis by simp
qed

lemma unp_start: "unp n [] (slz_start n)"
  by (simp add: unp_def slz_start_def)

lemma writechar_ok:
  assumes "unp n o' s" and "length o' < n"
  shows "\<exists>s'. writechar c s = Inr ((), s') \<and> unp n (o' @ [c]) s'"
proof -
  let ?m = "HISTORY_SIZE" and ?l = "length o'"
  let ?s = "s\<lparr>out := out s @ [c], room := room s - 1, hist := (hist s)[hoff s := c],
    hoff := (hoff s + 1) mod ?m\<rparr>"
  have "writechar c s = Inr ((), ?s)"
    using assms by (simp add: writechar_def do_putc_def unp_def)
  moreover have "hist ?s ! ((hoff ?s + ?m - d) mod ?m) = (o' @ [c]) ! (length (o' @ [c]) - d)"
    if d: "0 < d" "d \<le> ?m" "d \<le> Suc ?l" for d
  proof -
    have h: "hoff s = ?l mod ?m" "length (hist s) = ?m" using assms(1) by (simp_all add: unp_def)
    have e: "(hoff ?s + ?m - d) mod ?m = (Suc ?l - d) mod ?m"
    proof (cases "d = ?m")
      case True
      with d h show ?thesis by (simp add: mod_Suc_eq le_mod_geq)
    next
      case False
      with d h mod_shift [of d ?m "Suc ?l"] show ?thesis by (simp add: mod_Suc_eq)
    qed
    show ?thesis
    proof (cases "d = 1")
      case True
      with h show ?thesis unfolding e by (simp add: nth_append)
    next
      case False
      then obtain k where k: "d = Suc k" "0 < k" using d(1) by (cases d) auto
      with d have "k < ?m" "k \<le> ?l" by auto
      then have "(?l - k) mod ?m \<noteq> ?l mod ?m"
        using k(2) by (metis Suc_pred diff_diff_cancel diff_le_self mod_eq_dvd_iff_nat nat_dvd_not_less zero_less_diff)
      moreover have "hist s ! ((hoff s + ?m - k) mod ?m) = o' ! (?l - k)"
        using assms(1) k \<open>k < ?m\<close> \<open>k \<le> ?l\<close> by (clarsimp simp: unp_def)
      moreover have "(hoff s + ?m - k) mod ?m = (?l - k) mod ?m"
        using h(1) mod_shift [OF \<open>k < ?m\<close> \<open>k \<le> ?l\<close>] by simp
      ultimately show ?thesis
        unfolding e using h k \<open>k \<le> ?l\<close> by (simp add: nth_append less_diff_conv2)
    qed
  qed
  ultimately show ?thesis
    using assms by (auto simp: unp_def mod_Suc_eq)
qed

lemma copy_loop_ok:
  assumes "unp n o' s" and "0 < d" and "d \<le> length o'" and "d \<le> HISTORY_SIZE" and "length o' + k \<le> n"
  shows "\<exists>s'. copy_loop k (HISTORY_SIZE - d) s = Inr ((), s') \<and> unp n (back_copy d k o') s'"
  using assms
proof (induction k arbitrary: o' s)
  case 0
  then show ?case by simp
next
  case (Suc k)
  have "hoff s + (HISTORY_SIZE - d) = hoff s + HISTORY_SIZE - d" using Suc.prems by simp
  then have "hist s ! ((hoff s + (HISTORY_SIZE - d)) mod HISTORY_SIZE) = o' ! (length o' - d)"
    using Suc.prems by (clarsimp simp: unp_def)
  moreover obtain s1 where "writechar (o' ! (length o' - d)) s = Inr ((), s1)"
    "unp n (o' @ [o' ! (length o' - d)]) s1"
    using writechar_ok [OF Suc.prems(1)] Suc.prems(5) by fastforce
  ultimately show ?case
    using Suc.IH [of "o' @ [o' ! (length o' - d)]"] Suc.prems by (simp add: Let_def)
qed

text \<open>The two bytes of a copy give its distance and its length back.\<close>

lemma word_0xf0:
  assumes "n < 16"
  shows "(word_of_int (((int d div 16) AND 0xf0) + int n) :: u8) = word_of_nat ((d div 256 mod 16) * 16 + n)"
proof -
  have "(int d div 16) AND 0xf0 = int (d div 256 mod 16) * 16"
  proof -
    have "(int d div 16) AND 0xf0 = push_bit 4 (take_bit 4 (drop_bit 4 (int d div 16)))"
    proof -
      have "(240 :: int) = push_bit 4 (mask 4)" by (simp add: mask_eq_exp_minus_1)
      show ?thesis unfolding \<open>240 = push_bit 4 (mask 4)\<close> by (rule bit_eqI) (auto simp: bit_simps)
    qed
    then show ?thesis
      by (simp add: push_bit_eq_mult take_bit_eq_mod drop_bit_eq_div zdiv_int zmod_int flip: zdiv_zmult2_eq)
  qed
  then have "((int d div 16) AND 0xf0) + int n = int ((d div 256 mod 16) * 16 + n)" by simp
  then show ?thesis by (simp only: of_int_of_nat_eq)
qed

lemma enc_copy_bytes:
  assumes "tok_ok (Copy d n) b" and "c = word_of_int (((int d div 16) AND 0xf0) + (int n - 2))"
  shows "c \<noteq> (0 :: u8)" and "unat (c AND 0x0f) + 2 = n"
    and "HISTORY_SIZE - (unat (0xf0 AND c) * 16 + unat (word_of_int (int d) :: u8)) = HISTORY_SIZE - d"
proof -
  let ?h = "d div 256 mod 16"
  from assms have n: "2 < n" "n \<le> 17" and d: "d < HISTORY_SIZE" by auto
  have c: "c = word_of_nat (?h * 16 + (n - 2))"
    unfolding assms(2) using n word_0xf0 [of "n - 2" d] by (simp add: of_nat_diff)
  have h: "?h < 16" by simp
  have u: "unat c = ?h * 16 + (n - 2)"
    unfolding c unat_of_nat using n h by simp
  show "c \<noteq> 0" using u n by auto
  have lo: "unat (c AND 0x0f) = n - 2"
  proof -
    have "c AND 0x0f = take_bit 4 c" by (simp add: take_bit_eq_mask mask_eq_exp_minus_1)
    then have "unat (c AND 0x0f) = unat c mod 16" by (simp add: unsigned_take_bit_eq take_bit_eq_mod unat_mod)
    moreover have "(?h * 16 + (n - 2)) mod 16 = n - 2" using n by (subst mod_mult_self3) simp
    ultimately show ?thesis unfolding u by simp
  qed
  then show "unat (c AND 0x0f) + 2 = n" using n by simp
  have m4: "(- 16 :: u8) = 240" by simp
  have "(0xf0 AND c) + (c AND 0x0f) = c"
  proof -
    have "(0xf0 :: u8) AND c = c AND NOT (mask 4)" by (simp add: mask_eq_exp_minus_1 and.commute m4)
    moreover have "c AND 0x0f = c AND mask 4" by (simp add: mask_eq_exp_minus_1)
    moreover have "(c AND NOT (mask 4)) AND (c AND mask 4) = 0" by (rule bit_word_eqI) (simp add: bit_simps)
    ultimately show ?thesis by (simp only: disjunctive_add_eq_or) (rule bit_word_eqI, auto simp: bit_simps)
  qed
  then have "0xf0 AND c = c - (c AND 0x0f)" by (metis add_diff_cancel_right')
  moreover have "c AND 0x0f \<le> c" using u lo n by (simp add: word_le_nat_alt)
  ultimately have hi: "unat (0xf0 AND c) = unat c - unat (c AND 0x0f)" by (simp add: unat_sub)
  have "unat (word_of_int (int d) :: u8) = d mod 256" by (simp add: unat_of_nat)
  moreover have "?h * 256 + d mod 256 = d" using d by simp
  ultimately show "HISTORY_SIZE - (unat (0xf0 AND c) * 16 + unat (word_of_int (int d) :: u8)) = HISTORY_SIZE - d"
    using hi lo u by simp
qed

text \<open>A group's items, from position \<open>i\<close> on.\<close>

lemma tag_shift: "push_bit i (ucast t :: u16) + push_bit i (ucast t) = push_bit (Suc i) (ucast (t :: u8))"
  by (simp add: push_bit_eq_mult mult_2 flip: mult_2)

lemma tag_bit:
  assumes "i < 8"
  shows "push_bit i (ucast (t :: u8) :: u16) AND 0x80 \<noteq> 0 \<longleftrightarrow> bit t (7 - i)"
proof -
  have e: "(0x80 :: u16) = 2 ^ 7" by simp
  show ?thesis unfolding e and_exp_eq_0_iff_not_bit using assms by (simp add: bit_simps) arith
qed

lemma bits_loop_copy:
  assumes "t AND 0x80 \<noteq> 0" and "c \<noteq> 0"
  shows "bits_loop (Suc k) t (c # d # r) s =
    rbind (copy_loop (unat (c AND 0x0f) + 2) (HISTORY_SIZE - (unat (0xf0 AND c) * 16 + unat d))
        (s\<lparr>dist := int16 (dist s + 1)\<rparr>)) (\<lambda>(_, s1). bits_loop k (t + t) r s1)"
  using assms by (simp add: Let_def)

lemma bits_loop_toks:
  assumes "unp n b s" and "toks_ok ts b" and "tag_from i t ts" and "i + length ts \<le> 8"
    and "length (play ts b) \<le> n"
  shows "\<exists>s'. bits_loop (8 - i) (push_bit i (ucast (t :: u8))) (enc ts @ rest) s
    = bits_loop (8 - (i + length ts)) (push_bit (i + length ts) (ucast t)) rest s' \<and> unp n (play ts b) s'"
  using assms
proof (induction ts arbitrary: i b s)
  case Nil
  then show ?case by auto
next
  case (Cons x ts)
  then have i: "i < 8" by simp
  then have k: "8 - i = Suc (8 - Suc i)" by simp
  have len: "length (play1 x b) \<le> n" using Cons.prems(5) length_play [of "play1 x b" ts] by simp
  have step: "\<exists>s'. bits_loop (8 - i) (push_bit i (ucast t)) (enc1 x @ enc ts @ rest) s
    = bits_loop (8 - Suc i) (push_bit (Suc i) (ucast t)) (enc ts @ rest) s' \<and> unp n (play1 x b) s'"
  proof (cases x)
    case (Lit c)
    with Cons.prems len obtain s' where "writechar c s = Inr ((), s')" "unp n (b @ [c]) s'"
      using writechar_ok [OF Cons.prems(1), of c] by auto
    with Lit Cons.prems(3) i show ?thesis
      unfolding k tag_from_Cons by (auto simp: tag_bit tag_shift)
  next
    case (Copy d m)
    define c where "c = (word_of_int (((int d div 16) AND 0xf0) + (int m - 2)) :: u8)"
    from Cons.prems(2) Copy have ok: "tok_ok (Copy d m) b" by simp
    note e = enc_copy_bytes [OF ok c_def]
    let ?s = "s\<lparr>dist := int16 (dist s + 1)\<rparr>"
    have "unp n b ?s" using Cons.prems(1) by simp
    then obtain s' where "copy_loop m (HISTORY_SIZE - d) ?s = Inr ((), s')" "unp n (back_copy d m b) s'"
      using copy_loop_ok [of n b ?s d m] ok len Copy by auto
    moreover have ne: "push_bit i (ucast t :: u16) AND 0x80 \<noteq> 0"
      using Copy Cons.prems(3) i by (simp add: tag_bit tag_from_Cons)
    moreover have "enc1 x @ enc ts @ rest = c # word_of_int (int d) # enc ts @ rest"
      by (simp add: Copy c_def)
    ultimately have "bits_loop (8 - i) (push_bit i (ucast t)) (enc1 x @ enc ts @ rest) s
      = bits_loop (8 - Suc i) (push_bit (Suc i) (ucast t)) (enc ts @ rest) s'" and "unp n (back_copy d m b) s'"
      unfolding k by (simp_all only: bits_loop_copy [OF ne e(1)] e(2,3) rbind_simps prod.case tag_shift)
    then show ?thesis unfolding Copy play1.simps by blast
  qed
  then obtain s' where s': "bits_loop (8 - i) (push_bit i (ucast t)) (enc1 x @ enc ts @ rest) s
    = bits_loop (8 - Suc i) (push_bit (Suc i) (ucast t)) (enc ts @ rest) s'" "unp n (play1 x b) s'"
    by blast
  from Cons.IH [OF s'(2), of "Suc i"] Cons.prems show ?case
    by (simp add: s'(1) tag_from_Cons)
qed

lemma unpack_groups:
  assumes "packed w ts" and "toks_ok ts []" and "length (play ts []) \<le> n"
  shows "\<exists>s. unpack_loop (w @ rest) (slz_start n) = unpack_loop rest s \<and> unp n (play ts []) s"
  using assms
proof (induction arbitrary: rest rule: packed.induct)
  case packed_Nil
  then show ?case using unp_start by auto
next
  case (packed_group w ts g t)
  then have ok: "toks_ok ts []" "toks_ok g (play ts [])" by (simp_all add: toks_ok_append)
  have "length (play ts []) \<le> n"
    using packed_group.prems(2) length_play [of "play ts []" g] by (simp add: play_append)
  with packed_group ok obtain s where
    s: "unpack_loop (w @ t # enc g @ rest) (slz_start n) = unpack_loop (t # enc g @ rest) s" "unp n (play ts []) s"
    by fastforce
  let ?s = "s\<lparr>dist := int16 (dist s + 1)\<rparr>"
  have "\<exists>s'. bits_loop (8 - 0) (push_bit 0 (ucast t)) (enc g @ rest) ?s
    = bits_loop (8 - (0 + length g)) (push_bit (0 + length g) (ucast t)) rest s' \<and> unp n (play g (play ts [])) s'"
    using s(2) packed_group by (intro bits_loop_toks) (simp_all add: ok play_append)
  then show ?case using s(1) packed_group.hyps(2) by (auto simp: play_append)
qed

text \<open>The two ways a packed file ends: inside a group, or behind a full one.\<close>

lemma unpack_end:
  assumes "packed w ts" and "length g < 8" and "tag_from 0 t g" and "bit t (7 - length g)"
    and "toks_ok (ts @ g) []" and "length (play (ts @ g) []) \<le> n"
  shows "\<exists>s. unpack_loop (w @ t # enc g @ 0 # rest) (slz_start n) = Inr (rest, s) \<and> unp n (play (ts @ g) []) s"
proof -
  from assms(5,6) have ok: "toks_ok ts []" "toks_ok g (play ts [])" and len: "length (play ts []) \<le> n"
    using length_play [of "play ts []" g] by (simp_all add: toks_ok_append play_append)
  from unpack_groups [OF assms(1) ok(1) len, of "t # enc g @ 0 # rest"] obtain s where
    s: "unpack_loop (w @ t # enc g @ 0 # rest) (slz_start n) = unpack_loop (t # enc g @ 0 # rest) s" "unp n (play ts []) s"
    by auto
  let ?s = "s\<lparr>dist := int16 (dist s + 1)\<rparr>"
  have "\<exists>s'. bits_loop (8 - 0) (push_bit 0 (ucast t)) (enc g @ 0 # rest) ?s
    = bits_loop (8 - (0 + length g)) (push_bit (0 + length g) (ucast t)) (0 # rest) s' \<and> unp n (play g (play ts [])) s'"
    using s(2) assms by (intro bits_loop_toks) (simp_all add: ok play_append)
  then obtain s' where s': "bits_loop 8 (ucast t) (enc g @ 0 # rest) ?s
    = bits_loop (8 - length g) (push_bit (length g) (ucast t)) (0 # rest) s'" "unp n (play g (play ts [])) s'" by auto
  have "8 - length g = Suc (7 - length g)" using assms(2) by simp
  then have "bits_loop (8 - length g) (push_bit (length g) (ucast t)) (0 # rest) s' = Inr ((True, rest), s')"
    using assms(2,4) by (simp add: tag_bit)
  with s s' show ?thesis by (simp add: play_append)
qed

section \<open>The packer's tokens play to its input\<close>

lemma match_len_ok:
  assumes "t \<le> MAX_COMP_LEN"
  shows "t \<le> match_len mem a b t \<and> match_len mem a b t \<le> MAX_COMP_LEN
    \<and> (\<forall>i<match_len mem a b t - t. mem (a + i) = mem (b + i))"
  using assms
proof (induction mem a b t rule: match_len.induct)
  case (1 mem a b t)
  show ?case
  proof (cases "mem a = mem b \<and> t < MAX_COMP_LEN")
    case True
    let ?m = "match_len mem (a + 1) (b + 1) (t + 1)"
    have m: "match_len mem a b t = ?m" using True by (subst match_len.simps) simp
    have ih: "t + 1 \<le> ?m" "?m \<le> MAX_COMP_LEN" "\<forall>i<?m - (t + 1). mem (a + 1 + i) = mem (b + 1 + i)"
      using 1 True by auto
    have "mem (a + i) = mem (b + i)" if "i < ?m - t" for i
      using that ih True by (cases i) auto
    then show ?thesis unfolding m using ih by auto
  next
    case False
    then have "match_len mem a b t = t" by (subst match_len.simps) auto
    with 1(2) show ?thesis by simp
  qed
qed

text \<open>A match for the input at \<open>pos\<close>, at most \<open>pos - start\<close> bytes back.\<close>

definition matches :: "(nat \<Rightarrow> u8) \<Rightarrow> nat \<Rightarrow> nat \<Rightarrow> int \<Rightarrow> nat \<Rightarrow> int \<Rightarrow> bool" where
  "matches mem len pos start found wh \<longleftrightarrow> found \<le> MAX_COMP_LEN \<and> pos + found \<le> len
     \<and> (0 < found \<longrightarrow> start \<le> wh \<and> wh < int pos \<and> (\<forall>i<found. mem (pos + i) = mem (nat wh + i)))"

lemma matches_here:
  assumes "start \<le> endv" and "endv < int pos" and "k \<le> match_len mem pos (nat endv) 0" and "pos + k \<le> len"
  shows "matches mem len pos start k endv"
  using assms match_len_ok [of 0 mem pos "nat endv"] by (auto simp: matches_def)

lemma search_ok:
  assumes "matches mem len pos start found wh" and "endv < int pos" and "pos \<le> len"
  shows "case search mem len pos start endv found wh of (f, w) \<Rightarrow> matches mem len pos start f w"
  using assms
proof (induction mem len pos start endv found wh rule: search.induct)
  case (1 mem len pos start endv found wh)
  let ?t = "match_len mem pos (nat endv) 0"
  show ?case
  proof (cases "endv < start")
    case True
    then show ?thesis using 1 by (subst search.simps) simp
  next
    case False
    then have e: "start \<le> endv" by simp
    have here: "matches mem len pos start k endv" if "k \<le> ?t" "pos + k \<le> len" for k
      using matches_here [OF e "1.prems"(2) that] .
    show ?thesis
      by (subst search.simps)
        (use False 1 here [of ?t] here [of "len - pos"] in \<open>auto simp: Let_def split del: if_split split: if_splits\<close>)
  qed
qed

lemma length_enc1: "2 < n \<or> t \<noteq> Copy d n \<Longrightarrow> tok_ok t b \<Longrightarrow> length (enc1 t) + length b \<le> length (play1 t b)"
  by (cases t) auto

lemma length_enc: "toks_ok ts b \<Longrightarrow> length (enc ts) + length b \<le> length (play ts b)"
proof (induction ts arbitrary: b)
  case (Cons t ts)
  have "length (enc1 t) + length b \<le> length (play1 t b)" using Cons.prems by (cases t) auto
  with Cons show ?case by fastforce
qed simp

lemma length_toks: "toks_ok ts b \<Longrightarrow> length ts + length b \<le> length (play ts b)"
proof (induction ts arbitrary: b)
  case (Cons t ts)
  have "Suc (length b) \<le> length (play1 t b)" using Cons.prems by (cases t) auto
  with Cons show ?case by fastforce
qed simp

lemma back_copy_take:
  assumes "0 < d" and "d \<le> pos" and "pos + n \<le> length c" and "\<forall>i<n. c ! (pos + i) = c ! (pos - d + i)"
  shows "back_copy d n (take pos c) = take (pos + n) c"
  using assms(2-)
proof (induction n arbitrary: pos)
  case (Suc n)
  have "c ! pos = c ! (pos - d)" using Suc.prems(3) by auto
  then have "take pos c @ [take pos c ! (length (take pos c) - d)] = take (Suc pos) c"
    using Suc.prems assms(1) by (simp add: take_Suc_conv_app_nth min_def)
  moreover have "\<forall>i<n. c ! (Suc pos + i) = c ! (Suc pos - d + i)"
  proof (intro allI impI)
    fix i assume "i < n"
    with Suc.prems(3) have "c ! (pos + Suc i) = c ! (pos - d + Suc i)" by blast
    with Suc.prems(1) show "c ! (Suc pos + i) = c ! (Suc pos - d + i)" by (simp add: Suc_diff_le)
  qed
  ultimately show ?case using Suc.IH [of "Suc pos"] Suc.prems by simp
qed simp

lemma length_enc_group: "length (enc ts) \<le> 2 * length ts"
proof (induction ts)
  case (Cons t ts)
  then show ?case by (cases t) simp_all
qed simp

definition chars :: "packer \<Rightarrow> bytes" where
  "chars p = drop 1 (take (lenoutchars p) (outchars p))"

lemma chars_outchar:
  "lenoutchars p < length (outchars p) \<Longrightarrow> 0 < lenoutchars p \<Longrightarrow> chars (outchar x p) = chars p @ [x]"
  by (simp add: chars_def outchar_def take_Suc_conv_app_nth)

lemma outchar_simps [simp]:
  "lenoutchars (outchar x p) = Suc (lenoutchars p)" "length (outchars (outchar x p)) = length (outchars p)"
  "tag (outchar x p) = tag p" "iter (outchar x p) = iter p" "loop1 (outchar x p) = loop1 p"
  "loop2 (outchar x p) = loop2 p" "finished (outchar x p) = finished p"
  by (simp_all add: outchar_def)

lemma chars_cong [simp]: "chars (p\<lparr>tag := t\<rparr>) = chars p" "chars (p\<lparr>loop1 := l\<rparr>) = chars p"
  "chars (p\<lparr>loop2 := i\<rparr>) = chars p" "chars (p\<lparr>iter := n\<rparr>) = chars p" "chars (p\<lparr>finished := e\<rparr>) = chars p"
  by (simp_all add: chars_def)

text \<open>The packer inside a group whose tokens so far are \<open>ts\<close>, with the output \<open>b\<close> before it.\<close>

definition grouped :: "bytes \<Rightarrow> bytes \<Rightarrow> tok list \<Rightarrow> packer \<Rightarrow> bool" where
  "grouped c b ts p \<longleftrightarrow> toks_ok ts b \<and> play ts b = take (loop1 p) c \<and> loop1 p \<le> length c
     \<and> 0 < loop1 p \<and> loop2 p = int (length c) - int (loop1 p) \<and> iter p = length ts \<and> iter p \<le> 8
     \<and> tag_from 0 (tag p) ts \<and> (\<forall>j. bit (tag p) j \<longrightarrow> 8 \<le> j + iter p \<and> j \<le> 7)
     \<and> length (outchars p) = 170 \<and> lenoutchars p = Suc (length (enc ts))
     \<and> chars p = enc ts"

text \<open>Taking one more token.\<close>

definition take_tok :: "tok \<Rightarrow> packer \<Rightarrow> packer" where
  "take_tok t p = (case t of
       Lit x \<Rightarrow> outchar x p
     | Copy d n \<Rightarrow> outchar (enc1 t ! 1) (outchar (enc1 t ! 0) (p\<lparr>tag := tag p OR drop_bit (iter p) 128\<rparr>)))"

lemma bit_128: "bit (drop_bit i (128 :: u16)) j \<longleftrightarrow> i + j = 7"
proof -
  have e: "(128 :: u16) = 2 ^ 7" by simp
  show ?thesis unfolding e bit_drop_bit_eq o_def bit_exp_iff by auto
qed

lemma take_tok_ok:
  assumes g: "grouped c b ts p" and "iter p < 8" and "tok_ok t (take (loop1 p) c)"
    and "play1 t (take (loop1 p) c) = take l c" and "loop1 p < l" and "l \<le> length c"
    and "r = take_tok t p"
  shows "grouped c b (ts @ [t]) (r\<lparr>loop1 := l, loop2 := int (length c) - int l, iter := Suc (iter p), finished := e\<rparr>)"
proof -
  have len: "Suc (Suc (lenoutchars p)) \<le> length (outchars p)" "0 < lenoutchars p"
    using g assms(2) length_enc_group [of ts] by (auto simp: grouped_def)
  have tags: "tag_from 0 (tag r) (ts @ [t]) \<and> (\<forall>j. bit (tag r) j \<longrightarrow> 8 \<le> j + Suc (iter p) \<and> j \<le> 7)"
    using g assms(2) unfolding assms(7) tag_from_def grouped_def
    by (cases t) (auto simp: take_tok_def nth_append bit_or_iff bit_128 less_Suc_eq)
  have chars: "length (outchars r) = 170 \<and> lenoutchars r = Suc (length (enc (ts @ [t])))
      \<and> chars r = enc (ts @ [t])"
    using g len unfolding assms(7) grouped_def
    by (cases t) (auto simp: take_tok_def chars_outchar)
  show ?thesis
    using g assms(2-6) tags chars by (auto simp: grouped_def toks_ok_append play_append)
qed

lemma memory_in [simp]: "i < length c \<Longrightarrow> memory c junk i = c ! i"
  by (simp add: memory_def)

text \<open>The token of one pass, and the group and the outer loop.\<close>

lemma pack_item_ok:
  assumes g: "grouped c b ts p" and i: "iter p < 8" and l: "loop1 p < length c"
  shows "\<exists>t. grouped c b (ts @ [t]) (pack_item (memory c junk) (length c) p)"
proof -
  let ?m = "memory c junk" and ?l = "loop1 p"
  have p0: "0 < ?l" and l2: "loop2 p = int (length c) - int ?l" using g by (simp_all add: grouped_def)
  obtain f w where s: "search ?m (length c) ?l (start_of ?l) (int ?l - 1) 0 0 = (f, w)" by fastforce
  have "matches ?m (length c) ?l (start_of ?l) 0 0" using l by (simp add: matches_def)
  from search_ok [OF this, of "int ?l - 1"] l s have m: "matches ?m (length c) ?l (start_of ?l) f w" by simp
  show ?thesis
  proof (cases "2 < f")
    case True
    from m True have w: "start_of ?l \<le> w" "w < int ?l" "f \<le> MAX_COMP_LEN" "?l + f \<le> length c"
      and eq: "\<And>i. i < f \<Longrightarrow> ?m (?l + i) = ?m (nat w + i)" by (auto simp: matches_def)
    have w0: "0 \<le> w" "int ?l - w < 4096" using w(1) by (auto simp: start_of_def Let_def split: if_splits)
    define d where "d = ?l - nat w"
    have d: "int ?l - w = int d" "0 < d" "d \<le> ?l" "d < HISTORY_SIZE" "?l - d = nat w"
      using w0 w(2) by (auto simp: d_def)
    have "c ! (?l + i) = c ! (?l - d + i)" if "i < f" for i
      using eq [OF that] that w(4) w(2) w0(1) d(5) by simp
    then have pl: "play1 (Copy d f) (take ?l c) = take (?l + f) c"
      using back_copy_take [of d ?l f c] d(2,3) w(4) by simp
    have ok: "tok_ok (Copy d f) (take ?l c)" using d l w True by simp
    have "pack_item ?m (length c) p = (take_tok (Copy d f) p)\<lparr>loop1 := ?l + f,
        loop2 := int (length c) - int (?l + f), iter := Suc (iter p),
        finished := (loop2 p - int f \<le> 0 \<or> finished p)\<rparr>"
      unfolding pack_item_def s prod.case Let_def d(1) using True l2 by (simp add: take_tok_def diff_diff_eq)
    with take_tok_ok [OF g i ok pl] w(4) True show ?thesis by auto
  next
    case False
    have pl: "play1 (Lit (c ! ?l)) (take ?l c) = take (Suc ?l) c"
      using l by (simp add: take_Suc_conv_app_nth)
    have "pack_item ?m (length c) p = (take_tok (Lit (c ! ?l)) p)\<lparr>loop1 := Suc ?l,
        loop2 := int (length c) - int (Suc ?l), iter := Suc (iter p),
        finished := (loop2 p - 1 \<le> 0 \<or> finished p)\<rparr>"
      using False l l2 by (simp add: pack_item_def s take_tok_def Let_def)
    with take_tok_ok [OF g i _ pl] l show ?thesis by auto
  qed
qed

lemma grouped_finished:
  "grouped c b ts (pack_item mem len p) \<Longrightarrow> \<not> finished p \<Longrightarrow>
   finished (pack_item mem len p) \<longleftrightarrow> loop1 (pack_item mem len p) = length c"
  by (auto simp: grouped_def pack_item_finished)

lemma group_loop_ok:
  assumes "grouped c b ts p" and "iter p < 8" and "\<not> finished p" and "loop1 p < length c"
  shows "\<exists>us. grouped c b us (group_loop (memory c junk) (length c) p)
    \<and> (finished (group_loop (memory c junk) (length c) p) \<longleftrightarrow>
        loop1 (group_loop (memory c junk) (length c) p) = length c)
    \<and> (\<not> finished (group_loop (memory c junk) (length c) p) \<longrightarrow>
        iter (group_loop (memory c junk) (length c) p) = 8)"
  using assms
proof (induction "memory c junk" "length c" p arbitrary: ts rule: group_loop.induct)
  case (1 p)
  let ?p = "pack_item (memory c junk) (length c) p"
  obtain t where t: "grouped c b (ts @ [t]) ?p" using pack_item_ok [OF "1.prems"(1,2,4)] by blast
  have g: "group_loop (memory c junk) (length c) p = group_loop (memory c junk) (length c) ?p"
    using "1.prems"(2,3) by (subst group_loop.simps) simp
  note f = grouped_finished [OF t "1.prems"(3)]
  show ?case
  proof (cases "iter ?p < 8 \<and> \<not> finished ?p")
    case True
    then have "loop1 ?p < length c" using t f by (auto simp: grouped_def)
    with True "1.hyps" [OF _ t] "1.prems" show ?thesis unfolding g by simp
  next
    case False
    then have e: "group_loop (memory c junk) (length c) ?p = ?p" by (subst group_loop.simps) auto
    have "iter ?p \<le> 8" using t by (simp add: grouped_def)
    with t f False show ?thesis unfolding g e by (intro exI [of _ "ts @ [t]"]) auto
  qed
qed

text \<open>The output file: \<open>n\<close> is its capacity.\<close>

definition wrote :: "nat \<Rightarrow> bytes \<Rightarrow> slz \<Rightarrow> bool" where
  "wrote n w s \<longleftrightarrow> out s = w \<and> room s + length w = n"

lemma putc_all_ok:
  "wrote n w s \<Longrightarrow> length w + length cs \<le> n \<Longrightarrow> \<exists>s'. put_all cs s = Inr ((), s') \<and> wrote n (w @ cs) s'"
proof (induction cs arbitrary: w s)
  case (Cons x cs)
  let ?s = "s\<lparr>out := out s @ [x], room := room s - 1\<rparr>"
  have "do_putc x s = Inr ((), ?s)" "wrote n (w @ [x]) ?s"
    using Cons.prems by (auto simp: do_putc_def wrote_def)
  with Cons.IH [of "w @ [x]" ?s] Cons.prems show ?case by simp
qed simp

lemma write_all_ok:
  "wrote n w s \<Longrightarrow> length w + length cs \<le> n \<Longrightarrow> \<exists>s'. write_all cs s = Inr ((), s') \<and> wrote n (w @ cs) s'"
proof (induction cs arbitrary: w s)
  case (Cons x cs)
  obtain s' where "writechar x s = Inr ((), s')" "wrote n (w @ [x]) s'"
    using Cons.prems by (auto simp: writechar_def do_putc_def wrote_def)
  with Cons.IH [of "w @ [x]" s'] Cons.prems show ?case by simp
qed simp

lemma packed_length: "packed w ts \<Longrightarrow> length w = length ts div 8 + length (enc ts) \<and> length ts mod 8 = 0"
  by (induction rule: packed.induct) auto

lemma group_bytes:
  assumes "grouped c b ts p"
  shows "take (lenoutchars p) ((outchars p)[0 := x]) = x # enc ts"
proof -
  have "length (outchars p) = 170" "lenoutchars p = Suc (length (enc ts))" "chars p = enc ts"
    using assms by (simp_all add: grouped_def)
  then show ?thesis
    by (cases "outchars p") (simp_all add: chars_def)
qed

lemma packed_size:
  assumes "packed w ts" and "toks_ok (ts @ us) []" and "play (ts @ us) [] = b"
  shows "length w + length (enc us) \<le> length b + length ts div 8"
    and "length ts + length us \<le> length b"
  using packed_length [OF assms(1)] length_enc [OF assms(2)] length_toks [OF assms(2)] assms(3) by simp_all

lemma tag_from_ucast: "i + length ts \<le> 8 \<Longrightarrow> tag_from i (ucast (t :: u16) :: u8) ts \<longleftrightarrow> tag_from i t ts"
  by (auto simp: tag_from_def bit_simps)

text \<open>Where the outer loop stops: groups \<open>gs\<close> written, the group \<open>ts\<close> not yet.\<close>

definition packing :: "nat \<Rightarrow> bytes \<Rightarrow> tok list \<Rightarrow> packer \<Rightarrow> slz \<Rightarrow> tok list \<Rightarrow> bool" where
  "packing n c gs p s ts \<longleftrightarrow> toks_ok gs [] \<and> grouped c (play gs []) ts p \<and> (\<exists>w. packed w gs \<and> wrote n w s)"

lemma pack_loop_ok:
  assumes "packing n c gs (p\<lparr>tag := 0\<rparr>) s ts" and "iter p < 8" and "\<not> finished p" and "loop1 p < length c"
    and "length c + length c div 8 + 3 \<le> n"
  shows "\<exists>gs' ts' p' s'. pack_loop (memory c junk) (length c) p s = Inr (p', s') \<and> packing n c gs' p' s' ts'
    \<and> loop1 p' = length c"
  using assms
proof (induction "memory c junk" "length c" p s arbitrary: gs ts rule: pack_loop.induct)
  case (1 p s)
  let ?q = "group_loop (memory c junk) (length c) (p\<lparr>tag := 0\<rparr>)"
  from "1.prems"(1) obtain w where w: "toks_ok gs []" "grouped c (play gs []) ts (p\<lparr>tag := 0\<rparr>)" "packed w gs" "wrote n w s"
    by (auto simp: packing_def)
  from group_loop_ok [OF w(2), of junk] "1.prems"(2,3,4) obtain us where
    us: "grouped c (play gs []) us ?q" "finished ?q \<longleftrightarrow> loop1 ?q = length c" "\<not> finished ?q \<longrightarrow> iter ?q = 8"
    by auto
  show ?case
  proof (cases "finished ?q")
    case True
    then have "pack_loop (memory c junk) (length c) p s = Inr (?q, s)"
      using "1.prems"(3) by (subst pack_loop.simps) (simp add: Let_def)
    with True us w show ?thesis by (auto simp: packing_def)
  next
    case False
    with us have l: "loop1 ?q < length c" "iter ?q = 8" by (auto simp: grouped_def)
    let ?r = "?q\<lparr>outchars := (outchars ?q)[0 := ucast (tag ?q)], lenoutchars := 1, iter := 0\<rparr>"
    let ?g = "ucast (tag ?q) # enc us"
    have ok: "toks_ok (gs @ us) []" "play (gs @ us) [] = take (loop1 ?q) c" "length us = 8"
      "tag_from 0 (ucast (tag ?q) :: u8) us"
      using w(1) us(1) l by (auto simp: toks_ok_append play_append grouped_def tag_from_ucast)
    note sz = packed_size [OF w(3) ok(1,2)]
    have "length w + length ?g \<le> n" using sz ok(3) l(1) "1.prems"(5) div_le_mono [of "length gs" "length c" 8] by simp
    from putc_all_ok [OF w(4) this] obtain s1 where s1: "put_all ?g s = Inr ((), s1)" "wrote n (w @ ?g) s1" by blast
    have pk: "packing n c (gs @ us) (?r\<lparr>tag := 0\<rparr>) s1 []"
      using ok s1(2) packed_group [OF w(3) ok(3,4)] us(1) l
      by (auto simp: packing_def grouped_def tag_from_def chars_def)
    have step: "pack_loop (memory c junk) (length c) p s = pack_loop (memory c junk) (length c) ?r s1"
      using "1.prems"(3) False s1(1)
      by (subst pack_loop.simps) (simp add: Let_def group_bytes [OF us(1)])
    show ?thesis
      unfolding step
      by (rule "1.hyps" [where gs = "gs @ us" and ts = "[]"])
        (use "1.prems" False s1(1) pk l in \<open>simp_all add: group_bytes [OF us(1)]\<close>)
  qed
qed

lemma packing_start:
  assumes "0 < length c" and "n' = n"
  shows "packing n c [] ((pack_start (memory c junk) (length c))\<lparr>tag := 0\<rparr>) (slz_start n') [Lit (c ! 0)]"
proof -
  have "take (Suc 0) c = [c ! 0]" "Suc 0 \<le> length c" using assms(1) by (cases c; auto)+
  with assms show ?thesis
    by (auto simp: packing_def grouped_def pack_start_def tag_from_def chars_def wrote_def slz_start_def numeral_eq_Suc
        intro!: packed_Nil)
qed

lemma bit_tag_end: "bit (ucast (a OR drop_bit i 128 :: u16) :: u8) k \<longleftrightarrow> k < 8 \<and> (bit a k \<or> i + k = 7)"
  unfolding bit_ucast_iff bit_or_iff bit_128 by auto

lemma packed_file:
  assumes "length c + length c div 8 + 3 \<le> n" and "1 < length c"
  shows "\<exists>s. PackSLZ (memory c junk) (length c) (slz_start n) = Inr ((), s) \<and> 2 < length (out s)
    \<and> length (out s) \<le> length c + length c div 8 + 3
    \<and> (\<forall>m. length c \<le> m \<longrightarrow> (\<exists>u. UnPackSLZ (out s) (slz_start m) = Inr ((), u) \<and> out u = c))"
proof -
  let ?p0 = "pack_start (memory c junk) (length c)"
  have "iter ?p0 < 8" "\<not> finished ?p0" "loop1 ?p0 < length c" using assms(2) by (simp_all add: pack_start_def)
  from pack_loop_ok [OF packing_start this assms(1), of n junk] assms(2) obtain gs ts p s where
    p: "pack_loop (memory c junk) (length c) ?p0 (slz_start n) = Inr (p, s)" "packing n c gs p s ts" "loop1 p = length c"
    by fastforce
  then obtain w where w: "packed w gs" "wrote n w s" and g: "grouped c (play gs []) ts p" and gs: "toks_ok gs []"
    by (auto simp: packing_def)
  have ok: "toks_ok (gs @ ts) []" "play (gs @ ts) [] = c" "length ts = iter p" "iter p \<le> 8"
    using g gs p(3) by (auto simp: grouped_def toks_ok_append play_append)
  note sz = packed_size [OF w(1) ok(1,2)]
  have dl: "length gs div 8 + (if iter p = 8 then 1 else 0) \<le> length c div 8"
  proof -
    have "length gs + (if iter p = 8 then 8 else 0) \<le> length c" using sz(2) ok(3) by simp
    from div_le_mono [OF this, of 8] show ?thesis by (auto split: if_splits)
  qed
  show ?thesis
  proof (cases "iter p = 8")
    case True
    let ?t = "ucast (tag p) :: u8"
    have len: "length w + length (?t # enc ts @ [255, 0, 0]) \<le> length c + length c div 8 + 3"
      using sz dl True by simp
    have "tag_from 0 ?t ts" using g ok(3,4) by (simp add: grouped_def tag_from_ucast)
    then have pk: "packed (w @ ?t # enc ts) (gs @ ts)" using w(1) ok(3) True by (intro packed_group) simp_all
    obtain s1 where s1: "write_all (?t # enc ts) s = Inr ((), s1)" "wrote n (w @ ?t # enc ts) s1"
      using write_all_ok [OF w(2), of "?t # enc ts"] len assms(1) by auto
    obtain s2 where s2: "write_all [255, 0, 0] s1 = Inr ((), s2)" "wrote n ((w @ ?t # enc ts) @ [255, 0, 0]) s2"
      using write_all_ok [OF s1(2), of "[255, 0, 0]"] len assms(1) by auto
    have "PackSLZ (memory c junk) (length c) (slz_start n) = Inr ((), s2)"
      using True s1(1) s2(1) by (simp add: PackSLZ_def p(1) group_bytes [OF g])
    moreover have o2: "out s2 = (w @ ?t # enc ts) @ 255 # enc [] @ 0 # [0]" using s2(2) by (simp add: wrote_def)
    moreover have "\<exists>u. UnPackSLZ (out s2) (slz_start m) = Inr ((), u) \<and> out u = c" if "length c \<le> m" for m
      using unpack_end [OF pk, of "[]" 255 m "[0]"] ok that unfolding o2
      by (auto simp: UnPackSLZ_def tag_from_def unp_def slz_start_def)
    ultimately show ?thesis using len by auto
  next
    case False
    let ?t = "ucast (tag p OR drop_bit (iter p) 128) :: u8"
    have i: "iter p < 8" using False ok(4) by simp
    have len: "length w + length (?t # enc ts @ [0, 0]) \<le> length c + length c div 8 + 3"
      using sz dl False by simp
    have tf: "tag_from 0 ?t ts" "bit ?t (7 - length ts)"
      using g ok(3,4) i unfolding tag_from_def bit_tag_end by (auto simp: grouped_def tag_from_def)
    obtain s1 where s1: "write_all (?t # enc ts) s = Inr ((), s1)" "wrote n (w @ ?t # enc ts) s1"
      using write_all_ok [OF w(2), of "?t # enc ts"] len assms(1) by auto
    obtain s2 where s2: "write_all [0, 0] s1 = Inr ((), s2)" "wrote n ((w @ ?t # enc ts) @ [0, 0]) s2"
      using write_all_ok [OF s1(2), of "[0, 0]"] len assms(1) by auto
    have "PackSLZ (memory c junk) (length c) (slz_start n) = Inr ((), s2)"
      using False s1(1) s2(1) by (simp add: PackSLZ_def p(1) group_bytes [OF g])
    moreover have o2: "out s2 = w @ ?t # enc ts @ 0 # [0]" using s2(2) by (simp add: wrote_def)
    moreover have "\<exists>u. UnPackSLZ (out s2) (slz_start m) = Inr ((), u) \<and> out u = c" if "length c \<le> m" for m
      using unpack_end [OF w(1) _ tf(1), of m "[0]"] tf(2) ok i that unfolding o2
      by (auto simp: UnPackSLZ_def unp_def slz_start_def)
    ultimately show ?thesis using len by auto
  qed
qed

text \<open>Compression as a codec: what it promises, and what follows without looking inside.\<close>

definition slz_pack :: "bytes \<Rightarrow> bytes option" where
  "slz_pack c = (case slz_main 4 ''P'' (Some c) (Some (length c + length c div 8 + 3)) True (\<lambda>_. 0) of
     None \<Rightarrow> None | Some (e, z) \<Rightarrow> if e = 0 then z else None)"

definition slz_unpacks :: "bytes \<Rightarrow> bytes \<Rightarrow> bool" where
  "slz_unpacks z c \<longleftrightarrow> (\<forall>m \<ge> length c. slz_main 4 ''U'' (Some z) (Some m) True (\<lambda>_. 0) = Some (0, Some c))"

lemma slz_main_packed:
  assumes "2 < length c" and "length c + length c div 8 + 3 \<le> n"
  shows "\<exists>z. slz_main 4 ''P'' (Some c) (Some n) True junk = Some (0, Some z) \<and> 2 < length z
    \<and> length z \<le> length c + length c div 8 + 3
    \<and> (\<forall>m junk'. length c \<le> m \<longrightarrow> slz_main 4 ''U'' (Some z) (Some m) True junk' = Some (0, Some c))"
proof -
  from packed_file [OF assms(2), of junk] assms(1) obtain s where
    s: "PackSLZ (memory c junk) (length c) (slz_start n) = Inr ((), s)" "2 < length (out s)"
      "length (out s) \<le> length c + length c div 8 + 3" and
    u: "\<And>m. length c \<le> m \<Longrightarrow> \<exists>u. UnPackSLZ (out s) (slz_start m) = Inr ((), u) \<and> out u = c" by auto
  have "slz_main 4 ''P'' (Some c) (Some n) True junk = Some (0, Some (out s))"
    using assms(1) s(1) by (simp add: slz_main_def finish_def)
  moreover have "slz_main 4 ''U'' (Some (out s)) (Some m) True junk' = Some (0, Some c)" if "length c \<le> m" for m junk'
    using u [OF that] s(2) by (auto simp: slz_main_def finish_def)
  ultimately show ?thesis using s(2,3) by blast
qed

interpretation slz: codec slz_pack slz_unpacks "\<lambda>c. 2 < length c"
proof
  fix c :: bytes assume "2 < length c"
  from slz_main_packed [OF this order_refl, of "\<lambda>_. 0"] show "\<exists>z. slz_pack c = Some z \<and> slz_unpacks z c"
    by (auto simp: slz_pack_def slz_unpacks_def)
next
  fix z b c assume "slz_unpacks z b" and "slz_unpacks z c"
  then have "slz_main 4 ''U'' (Some z) (Some (max (length b) (length c))) True (\<lambda>_. 0) = Some (0, Some b)"
    and "slz_main 4 ''U'' (Some z) (Some (max (length b) (length c))) True (\<lambda>_. 0) = Some (0, Some c)"
    unfolding slz_unpacks_def by (metis max.cobounded1, metis max.cobounded2)
  then show "b = c" by simp
qed

section \<open>Properties\<close>

text \<open>C3:
  \<open>slz P\<close> turns every file of more than two bytes into one that \<open>slz U\<close> turns back into it,
  whatever the memory behind the input buffer holds; the packed file has at most 3 bytes and
  an eighth of the file's size more than the file, and both commands end with status 0 when
  the destination has room for that.
\<close>

theorem slz_roundtrip:
  assumes "2 < length c" and "length c + length c div 8 + 3 \<le> n" and "length c \<le> m"
  shows "\<exists>z. slz_main 4 ''P'' (Some c) (Some n) True junk = Some (0, Some z)
    \<and> length z \<le> length c + length c div 8 + 3
    \<and> slz_main 4 ''U'' (Some z) (Some m) True junk' = Some (0, Some c)"
  using slz_main_packed [OF assms(1,2)] assms(3) by blast

lemma slz_roundtrip_witness:
  "\<exists>z. slz_main 4 ''P'' (Some [7, 7, 7, 7, 7, 1, 7, 7, 7]) (Some 100) True (\<lambda>_. 7) = Some (0, Some z)
    \<and> length z \<le> 13 \<and> slz_main 4 ''U'' (Some z) (Some 9) True (\<lambda>_. 0) = Some (0, Some [7, 7, 7, 7, 7, 1, 7, 7, 7])"
  using slz_roundtrip [of "[7, 7, 7, 7, 7, 1, 7, 7, 7]" 100 9 "\<lambda>_. 7" "\<lambda>_. 0"] by simp

text \<open>
  No two files of more than two bytes have the same packed form.
\<close>

theorem slz_injective:
  assumes "2 < length b" and "2 < length c" and "b \<noteq> c"
  shows "slz_pack b \<noteq> slz_pack c"
  using slz.enc_inj [OF assms(1,2)] assms(3) by blast

lemma slz_injective_witness: "slz_pack [1, 2, 3] \<noteq> slz_pack [1, 2, 4]"
  using slz_injective [of "[1, 2, 3]" "[1, 2, 4]"] by simp

text \<open>
  A file of one or two bytes is lost: \<open>slz\<close> reports success (status 0) and leaves an empty
  destination, packing or unpacking; so is every file when the buffer cannot be allocated.
\<close>

theorem slz_short_lost:
  "slz_main 4 f (Some [x, y]) (Some n) True junk = Some (0, Some [])
    \<and> slz_main 4 f (Some [x]) (Some n) True junk = Some (0, Some [])
    \<and> slz_main 4 f (Some c) (Some n) False junk = Some (0, Some [])"
  by (simp add: slz_main_def)

end
