(* ===== verification/Bfc.thy ===== *)
theory Bfc
  imports Cstring
begin

text \<open>
  \<open>bfc/bfc.c\<close>, the Forth compiler: it reads blank-separated words and writes assembler lines.
  The lines are values of \<open>line\<close>, with \<open>render\<close> the text that is printed for them.  A run
  either ends normally, or stops with one of the program's complaints (\<open>Quit\<close>), or accesses
  memory outside an array or through a null pointer (\<open>Fault\<close>).
\<close>

section \<open>State\<close>

abbreviation MAXDICT :: nat where "MAXDICT \<equiv> 256"
abbreviation MAXNAME :: nat where "MAXNAME \<equiv> 32"

record entry =
  ename :: bytes
  flags :: u8
  ref :: u16

datatype line =
    Jsr u16 bytes
  | Operand u16
  | Label u16
  | Entry u16 bytes
  | Cell u16
  | Byte u16
  | Count int
  | Ascii u8 bytes
  | Asciz u8 bytes
  | Rts
  | Raw bytes
  | Dict_label u16 bytes
  | Dict_link u16
  | Dict_flags u8
  | Dp0 u16
  | Cp0

text \<open>The pointers to prerequisite words are indices into the dictionary, \<open>None\<close> is null.\<close>

record bfc =
  input :: bytes
  outp :: "line list"
  labeli :: u16
  dict :: "entry list"
  dp :: nat
  lit :: "nat option"
  zbra :: "nat option"
  bra :: "nat option"
  slit :: "nat option"
  dodoes :: "nat option"
  noop :: "nat option"
  dofor :: "nat option"
  push :: "nat option"
  cstack :: "u16 list"
  cp :: nat
  nstack :: "u16 list"
  np :: nat
  compiling :: bool
  wordb :: bytes

datatype bstop = Quit string | Fault

type_synonym 'a bres = "(bstop \<times> bfc) + ('a \<times> bfc)"

section \<open>Text of the lines\<close>

abbreviation tabs :: bytes where "tabs \<equiv> [9, 9]"
abbreviation nl :: bytes where "nl \<equiv> [10]"

fun render :: "line \<Rightarrow> bytes" where
  "render (Jsr r n) = tabs @ str ''jsr L'' @ hex (unat r) @ [9] @ str ''; comp: '' @ n @ nl"
| "render (Operand l) = tabs @ str ''dw L'' @ hex (unat l) @ nl"
| "render (Label l) = str ''L'' @ hex (unat l) @ nl"
| "render (Entry l n) = str ''L'' @ hex (unat l) @ tabs @ str ''; mkentry: '' @ n @ nl"
| "render (Cell v) = tabs @ str ''dw $'' @ hex (unat v) @ [9] @ str ''; compile: #'' @ nl"
| "render (Byte v) = tabs @ str ''db $'' @ hex (unat v) @ [9] @ str ''; compile: #'' @ nl"
| "render (Count i) = tabs @ str ''dw '' @ dec i @ nl"
| "render (Ascii d t) = tabs @ str ''.ascii '' @ d # t @ d # nl"
| "render (Asciz d t) = tabs @ str ''.asciz '' @ d # t @ d # nl"
| "render Rts = tabs @ str ''rts'' @ [9] @ str ''; exit'' @ nl"
| "render (Raw b) = b"
| "render (Dict_label l n) = str ''LAB'' @ hex (unat l) @ str '':'' @ tabs @ str ''; do_dict: '' @ n @ nl"
| "render (Dict_link l) = tabs @ str ''dw LAB'' @ hex (unat l) @ nl"
| "render (Dict_flags f) = tabs @ str ''db $'' @ hex (unat f) @ nl"
| "render (Dp0 l) = str ''dp0 equ LAB'' @ hex (unat l) @ nl"
| "render Cp0 = str ''cp0 equ *'' @ nl"

section \<open>Stacks and dictionary\<close>

definition emit :: "line \<Rightarrow> bfc \<Rightarrow> bfc" where
  "emit l s = s\<lparr>outp := outp s @ [l]\<rparr>"

definition push_cntl :: "u16 \<Rightarrow> bfc \<Rightarrow> unit bres" where
  "push_cntl i s = (if cp s < 16 then Inr ((), s\<lparr>cstack := (cstack s)[cp s := i], cp := cp s + 1\<rparr>)
     else Inl (Fault, s))"

definition pull_cntl :: "bfc \<Rightarrow> u16 bres" where
  "pull_cntl s = (if cp s = 0 then Inl (Fault, s)
     else Inr (cstack s ! (cp s - 1), s\<lparr>cp := cp s - 1\<rparr>))"

definition push_number :: "u16 \<Rightarrow> bfc \<Rightarrow> unit bres" where
  "push_number i s = (if np s < 16 then Inr ((), s\<lparr>nstack := (nstack s)[np s := i], np := np s + 1\<rparr>)
     else Inl (Fault, s))"

definition pull_number :: "bfc \<Rightarrow> u16 bres" where
  "pull_number s = (if np s = 0 then Inl (Fault, s)
     else Inr (nstack s ! (np s - 1), s\<lparr>np := np s - 1\<rparr>))"

text \<open>A fresh label: \<open>labeli++\<close>.\<close>

definition new_label :: "bfc \<Rightarrow> u16 \<times> bfc" where
  "new_label s = (labeli s, s\<lparr>labeli := labeli s + 1\<rparr>)"

text \<open>
  The name of an entry as a C string: it starts at the entry's place in memory and goes on to
  the first zero byte, which a name of 32 characters does not contain.
\<close>

definition entry_mem :: "entry \<Rightarrow> bytes" where
  "entry_mem e = ename e @ [flags e, hi8 (ref e), lo8 (ref e)]"

definition entry_str :: "entry list \<Rightarrow> nat \<Rightarrow> bytes" where
  "entry_str d i = c_str (concat (map entry_mem (drop i d)))"

definition comp_name :: "nat \<Rightarrow> bfc \<Rightarrow> bfc" where
  "comp_name e s = (let n = entry_str (dict s) e in emit (Ascii 0x22 n) (emit (Count (int (length n))) s))"

definition comp_int :: "u16 \<Rightarrow> bfc \<Rightarrow> bfc" where
  "comp_int i s = emit (Cell i) s"

definition comp_char :: "u8 \<Rightarrow> bfc \<Rightarrow> bfc" where
  "comp_char c s = emit (Byte (scast c)) s"

definition comp_entry :: "nat option \<Rightarrow> bfc \<Rightarrow> unit bres" where
  "comp_entry e s = (case e of None \<Rightarrow> Inl (Fault, s)
     | Some i \<Rightarrow> Inr ((), emit (Jsr (ref (dict s ! i)) (entry_str (dict s) i)) s))"

definition do_dict1 :: "nat \<Rightarrow> u16 \<times> bfc \<Rightarrow> u16 \<times> bfc" where
  "do_dict1 i = (\<lambda>(prev, s).
     let s1 = emit (Dict_label (labeli s) (entry_str (dict s) i)) s;
         s2 = (if i \<noteq> 0 then emit (Dict_link prev) s1 else comp_int 0 s1);
         s3 = emit (Operand (ref (dict s2 ! i))) s2;
         s4 = emit (Dict_flags (flags (dict s3 ! i))) s3
     in new_label (comp_name i s4))"

definition do_dict :: "bfc \<Rightarrow> bfc" where
  "do_dict s = (case fold do_dict1 [0..<dp s] (0, s) of (prev, s1) \<Rightarrow> emit (Dp0 prev) s1)"

text \<open>\<open>strncpy\<close> to the 32 bytes of a name.\<close>

definition name_of :: "bytes \<Rightarrow> bytes" where
  "name_of w = take MAXNAME (c_str w @ replicate MAXNAME 0)"

definition set_prereq :: "bytes \<Rightarrow> nat \<Rightarrow> bfc \<Rightarrow> bfc" where
  "set_prereq w e s =
     (if w = str ''lit'' then s\<lparr>lit := Some e\<rparr>
      else if w = str ''0bra'' then s\<lparr>zbra := Some e\<rparr>
      else if w = str ''bra'' then s\<lparr>bra := Some e\<rparr>
      else if w = str ''slit'' then s\<lparr>slit := Some e\<rparr>
      else if w = str ''dodoes'' then s\<lparr>dodoes := Some e\<rparr>
      else if w = str ''noop'' then s\<lparr>noop := Some e\<rparr>
      else if w = str ''dofor'' then s\<lparr>dofor := Some e\<rparr>
      else if w = str ''push'' then s\<lparr>push := Some e\<rparr>
      else s)"

definition mkentry :: "bfc \<Rightarrow> unit bres" where
  "mkentry s =
     (if MAXDICT \<le> dp s then Inl (Fault, s)
      else let e = dp s; s1 = set_prereq (c_str (wordb s)) e (s\<lparr>dp := dp s + 1\<rparr>)
           in case new_label s1 of (r, s2) \<Rightarrow>
             let s3 = s2\<lparr>dict := (dict s2)[e := \<lparr>ename = name_of (wordb s2), flags = 0, ref = r\<rparr>]\<rparr>
             in Inr ((), emit (Entry r (entry_str (dict s3) e)) s3))"

text \<open>
  \<open>findentry\<close> starts at the entry numbered by the label counter, not at the end of the
  dictionary; with more than 256 labels that is outside the array.
\<close>

definition findentry :: "bfc \<Rightarrow> nat option bres" where
  "findentry s =
     (if MAXDICT < unat (labeli s) then Inl (Fault, s)
      else Inr (List.find (\<lambda>i. entry_str (dict s) i = c_str (wordb s)) (rev [0..<unat (labeli s)]), s))"

section \<open>Words\<close>

text \<open>\<open>isfblank\<close> takes a signed character, so bytes from 128 up are blanks too.\<close>

definition isfblank :: "u8 \<Rightarrow> bool" where
  "isfblank c \<longleftrightarrow> sint c \<le> 32"

text \<open>\<open>word\<close>: \<open>False\<close> at the end of the input.  \<open>wordb\<close> has room for 63 characters.\<close>

definition word :: "bfc \<Rightarrow> bool bres" where
  "word s =
     (let i = dropWhile isfblank (input s)
      in if i = [] then Inr (False, s\<lparr>input := []\<rparr>)
         else let w = takeWhile (\<lambda>c. \<not> isfblank c) i
              in if 63 < length w then Inl (Fault, s)
                 else Inr (True, s\<lparr>wordb := w, input := drop (length w + 1) i\<rparr>))"

text \<open>\<open>fgets(buff, 256, infile)\<close>: a line with its newline, at most 255 characters of it.\<close>

definition fgets :: "bytes \<Rightarrow> bytes \<times> bytes" where
  "fgets b = (let l = takeWhile (\<lambda>c. c \<noteq> 10) b; n = min 255 (min (length b) (length l + 1)) in (take n b, drop n b))"

lemma fgets_shorter: "b \<noteq> [] \<Longrightarrow> length (snd (fgets b)) < length b"
  by (simp add: fgets_def Let_def)

function doasm_loop :: "bytes \<Rightarrow> line list \<Rightarrow> bytes \<times> line list" where
  "doasm_loop b out =
     (if b = [] then ([], out)
      else if take 2 (fst (fgets b)) = str '';p'' then (snd (fgets b), out)
      else doasm_loop (snd (fgets b)) (out @ [Raw (c_str (fst (fgets b)))]))"
  by pat_completeness auto
termination
  by (relation "measure (\<lambda>(b, out). length b)") (auto dest: fgets_shorter)

declare doasm_loop.simps [simp del]

definition doasm :: "bfc \<Rightarrow> unit bres" where
  "doasm s = (case doasm_loop (input s) (outp s) of (i, out) \<Rightarrow> Inr ((), s\<lparr>input := i, outp := out\<rparr>))"

definition doprim :: "bfc \<Rightarrow> unit bres" where
  "doprim s = rbind (word s) (\<lambda>(_, s1). rbind (mkentry s1) (\<lambda>(_, s2). doasm s2))"

definition docolon :: "bfc \<Rightarrow> unit bres" where
  "docolon s = rbind (word s) (\<lambda>(_, s1). rbind (mkentry s1) (\<lambda>(_, s2). Inr ((), s2\<lparr>compiling := True\<rparr>)))"

definition dosemi :: "bfc \<Rightarrow> unit bres" where
  "dosemi s = Inr ((), (emit Rts s)\<lparr>compiling := False\<rparr>)"

section \<open>Control structures\<close>

text \<open>The operand of a forward jump: a fresh label, printed and pushed.\<close>

definition forward :: "bfc \<Rightarrow> unit bres" where
  "forward s = (let s1 = emit (Operand (labeli s)) s in case new_label s1 of (l, s2) \<Rightarrow> push_cntl l s2)"

definition doif :: "bfc \<Rightarrow> unit bres" where
  "doif s = rbind (comp_entry (zbra s) s) (\<lambda>(_, s1). forward s1)"

definition dothen :: "bfc \<Rightarrow> unit bres" where
  "dothen s = rbind (pull_cntl s) (\<lambda>(l, s1). Inr ((), emit (Label l) s1))"

definition doagain :: "bfc \<Rightarrow> unit bres" where
  "doagain s = rbind (comp_entry (bra s) s) (\<lambda>(_, s1). rbind (pull_cntl s1) (\<lambda>(l, s2).
     Inr ((), emit (Operand l) s2)))"

definition dodofor :: "bfc \<Rightarrow> unit bres" where
  "dodofor s = (case new_label s of (i, s1) \<Rightarrow>
     rbind (comp_entry (push s1) s1) (\<lambda>(_, s2).
     rbind (comp_entry (dofor s2) (emit (Label i) s2)) (\<lambda>(_, s3).
     rbind (forward s3) (\<lambda>(_, s4). push_cntl i s4))))"

definition donext :: "bfc \<Rightarrow> unit bres" where
  "donext s = rbind (doagain s) (\<lambda>(_, s1). dothen s1)"

definition dobegin :: "bfc \<Rightarrow> unit bres" where
  "dobegin s = (let s1 = emit (Label (labeli s)) s in case new_label s1 of (l, s2) \<Rightarrow> push_cntl l s2)"

definition dountil :: "bfc \<Rightarrow> unit bres" where
  "dountil s = rbind (comp_entry (zbra s) s) (\<lambda>(_, s1). rbind (pull_cntl s1) (\<lambda>(l, s2).
     Inr ((), emit (Operand l) s2)))"

definition dowhile :: "bfc \<Rightarrow> unit bres" where
  "dowhile s = rbind (pull_cntl s) (\<lambda>(i, s1). rbind (comp_entry (zbra s1) s1) (\<lambda>(_, s2).
     rbind (forward s2) (\<lambda>(_, s3). push_cntl i s3)))"

definition dorepeat :: "bfc \<Rightarrow> unit bres" where
  "dorepeat s = rbind (doagain s) (\<lambda>(_, s1). rbind (pull_cntl s1) (\<lambda>(l, s2). Inr ((), emit (Label l) s2)))"

definition doelse :: "bfc \<Rightarrow> unit bres" where
  "doelse s = rbind (pull_cntl s) (\<lambda>(i, s1). rbind (comp_entry (bra s1) s1) (\<lambda>(_, s2).
     rbind (forward s2) (\<lambda>(_, s3). Inr ((), emit (Label i) s3))))"

section \<open>Strings, variables and the rest\<close>

definition wordb_str :: "bfc \<Rightarrow> u8 bres" where
  "wordb_str s =
     (case dropWhile isfblank (input s) of
        [] \<Rightarrow> Inl (Quit ''EOF before string delimiter'', s)
      | d # i \<Rightarrow>
          let w = takeWhile (\<lambda>c. c \<noteq> d) i
          in if length w = length i then (if 64 < length w then Inl (Fault, s) else Inl (Quit ''EOF during string'', s))
             else if 63 < length w then Inl (Fault, s)
             else Inr (d, s\<lparr>wordb := w, input := drop (length w + 1) i\<rparr>))"

definition dostring :: "bfc \<Rightarrow> unit bres" where
  "dostring s = rbind (wordb_str s) (\<lambda>(d, s1). rbind (comp_entry (slit s1) s1) (\<lambda>(_, s2).
     let t = c_str (wordb s2) in Inr ((), emit (Ascii d t) (emit (Count (int (length t))) s2))))"

definition docstring :: "bfc \<Rightarrow> unit bres" where
  "docstring s = rbind (wordb_str s) (\<lambda>(d, s1). rbind (comp_entry (slit s1) s1) (\<lambda>(_, s2).
     let t = c_str (wordb s2) in Inr ((), emit (Asciz d t) (emit (Count (int (length t) + 1)) s2))))"

definition dodovar :: "bfc \<Rightarrow> unit bres" where
  "dodovar s = rbind (word s) (\<lambda>(_, s1). rbind (mkentry s1) (\<lambda>(_, s2).
     rbind (comp_entry (dodoes s2) s2) (\<lambda>(_, s3).
     case noop s3 of
       None \<Rightarrow> Inl (Fault, s3)
     | Some e \<Rightarrow> rbind (pull_number (emit (Operand (ref (dict s3 ! e))) s3)) (\<lambda>(n, s4).
         Inr ((), emit (Count (sint n)) s4)))))"

definition dorbrack :: "bfc \<Rightarrow> unit bres" where
  "dorbrack s = Inr ((), s\<lparr>compiling := True\<rparr>)"

text \<open>The count goes down to 0, from a negative number by way of the wrap-around.\<close>

definition doallot :: "bfc \<Rightarrow> unit bres" where
  "doallot s = rbind (pull_number s) (\<lambda>(n, s1). Inr ((), (comp_char 0 ^^ unat n) s1))"

definition doimm :: "bfc \<Rightarrow> unit bres" where
  "doimm s = (if dp s = 0 then Inl (Fault, s)
     else Inr ((), s\<lparr>dict := (dict s)[dp s - 1 := (dict s ! (dp s - 1))\<lparr>flags := flags (dict s ! (dp s - 1)) OR 0x80\<rparr>]\<rparr>))"

text \<open>A comment ends at a newline, at the end of the file, or at a byte 255, which is read as \<open>-1\<close>.\<close>

definition dolcom :: "bfc \<Rightarrow> unit bres" where
  "dolcom s = Inr ((), s\<lparr>input := drop 1 (dropWhile (\<lambda>c. c \<noteq> 10 \<and> c \<noteq> 0xff) (input s))\<rparr>)"

section \<open>Numbers\<close>

text \<open>\<open>strtol(s, &end, 0)\<close> of the C library with a 32-bit \<open>long\<close>: the value and the rest of the string.\<close>

definition digit_val :: "u8 \<Rightarrow> nat" where
  "digit_val c = (let n = unat c in
     if 48 \<le> n \<and> n \<le> 57 then n - 48
     else if 97 \<le> n \<and> n \<le> 122 then n - 87
     else if 65 \<le> n \<and> n \<le> 90 then n - 55 else 99)"

definition strtol0 :: "bytes \<Rightarrow> int \<times> bytes" where
  "strtol0 w =
     (let neg = (w \<noteq> [] \<and> hd w = 0x2d);
          r = (if w \<noteq> [] \<and> (hd w = 0x2d \<or> hd w = 0x2b) then tl w else w);
          hx = (2 < length r \<and> r ! 0 = 0x30 \<and> (r ! 1 = 0x78 \<or> r ! 1 = 0x58) \<and> digit_val (r ! 2) < 16);
          base = (if hx then 16 else if r \<noteq> [] \<and> hd r = 0x30 then 8 else 10);
          r' = (if hx then drop 2 r else r);
          ds = takeWhile (\<lambda>c. digit_val c < base) r';
          v = foldl (\<lambda>a c. a * int base + int (digit_val c)) 0 ds
      in if ds = [] then (0, w)
         else (max (- 2147483648) (min 2147483647 (if neg then - v else v)), drop (length ds) r'))"

section \<open>The main loop\<close>

definition compile_word :: "bfc \<Rightarrow> unit bres" where
  "compile_word s = rbind (findentry s) (\<lambda>(e, s1).
     case e of
       Some i \<Rightarrow> comp_entry (Some i) s1
     | None \<Rightarrow>
         (case strtol0 (c_str (wordb s1)) of (x, end) \<Rightarrow>
            if end = [] then
              if compiling s1 then rbind (comp_entry (lit s1) s1) (\<lambda>(_, s2). Inr ((), comp_int (word_of_int x) s2))
              else push_number (word_of_int x) s1
            else Inl (Quit ''word not found.'', s1)))"

definition process_word :: "bfc \<Rightarrow> unit bres" where
  "process_word s =
     (let w = c_str (wordb s) in
      if w = str ''p:'' then doprim s
      else if w = str ''a:'' then doasm s
      else if w = str '':'' then docolon s
      else if w = str '';'' then dosemi s
      else if w = str ''if'' then doif s
      else if w = str ''then'' then dothen s
      else if w = str ''begin'' then dobegin s
      else if w = str ''again'' then doagain s
      else if w = str ''until'' then dountil s
      else if w = str ''while'' then dowhile s
      else if w = str ''repeat'' then dorepeat s
      else if w = str ''else'' then doelse s
      else if w = str ''$'' then dostring s
      else if w = str ''c$'' then docstring s
      else if w = str ''var'' then dodovar s
      else if w = str '']'' then dorbrack s
      else if w = str ''allot'' then doallot s
      else if w = str ''for'' then dodofor s
      else if w = str ''next'' then donext s
      else if w = str ''imm'' then doimm s
      else if w = str ''#'' then dolcom s
      else compile_word s)"

text \<open>
  No word puts characters back, so the main loop ends: \<open>within n r\<close> says that a normal result
  has at most \<open>n\<close> characters left.
\<close>

lemma word_shorter:
  assumes "word s = Inr (True, s')"
  shows "length (input s') < length (input s)"
proof -
  let ?i = "dropWhile isfblank (input s)"
  have l: "length ?i \<le> length (input s)" by (rule length_dropWhile_le)
  from assms have ne: "?i \<noteq> []" and i: "input s' = drop (length (takeWhile (\<lambda>c. \<not> isfblank c) ?i) + 1) ?i"
    by (auto simp: word_def Let_def split: if_splits)
  from ne have "length (input s') < length ?i" unfolding i by simp
  with l show ?thesis by simp
qed

definition within :: "nat \<Rightarrow> 'a bres \<Rightarrow> bool" where
  "within n r \<longleftrightarrow> (case r of Inl _ \<Rightarrow> True | Inr (_, s) \<Rightarrow> length (input s) \<le> n)"

lemma within_simps [simp]: "within n (Inl e)" "within n (Inr (a, s)) \<longleftrightarrow> length (input s) \<le> n"
  by (simp_all add: within_def)

lemma within_bind:
  assumes "within n r" and "\<And>a s. length (input s) \<le> n \<Longrightarrow> within n (f (a, s))"
  shows "within n (rbind r f)"
  using assms by (cases r) auto

lemma input_upd [simp]: "input (emit l s) = input s" "input (comp_int i s) = input s"
  "input (set_prereq w e s) = input s" "input ((comp_char c ^^ n) s) = input s"
  by (induction n) (simp_all add: emit_def comp_int_def comp_char_def set_prereq_def)

lemma doasm_loop_length: "length (fst (doasm_loop b out)) \<le> length b"
proof (induction b out rule: doasm_loop.induct)
  case (1 b out)
  show ?case
  proof (cases "b = []")
    case False
    with fgets_shorter [OF this] 1 show ?thesis by (subst doasm_loop.simps) auto
  qed (simp add: doasm_loop.simps)
qed

lemma within_parts:
  assumes "length (input s) \<le> n"
  shows "within n (push_cntl i s)" "within n (pull_cntl s)" "within n (push_number i s)" "within n (pull_number s)"
    "within n (comp_entry e s)" "within n (findentry s)" "within n (forward s)" "within n (mkentry s)"
    "within n (word s)" "within n (doasm s)" "within n (wordb_str s)" "within n (dolcom s)"
proof -
  show "within n (push_cntl i s)" "within n (pull_cntl s)" "within n (push_number i s)" "within n (pull_number s)"
    "within n (comp_entry e s)" "within n (findentry s)" "within n (forward s)" "within n (mkentry s)"
    using assms by (simp_all add: push_cntl_def pull_cntl_def push_number_def pull_number_def comp_entry_def
      findentry_def forward_def new_label_def mkentry_def Let_def split: option.split)
  have d: "length (dropWhile P (input s)) \<le> n" for P :: "u8 \<Rightarrow> bool"
    using length_dropWhile_le [of P "input s"] assms by simp
  show "within n (word s)" using d [of isfblank] by (auto simp: word_def Let_def)
  show "within n (doasm s)"
    using doasm_loop_length [of "input s" "outp s"] assms by (auto simp: doasm_def split: prod.split)
  show "within n (wordb_str s)" using d [of isfblank] by (auto simp: wordb_str_def Let_def split: list.split)
  show "within n (dolcom s)" using d [of "\<lambda>c. c \<noteq> 10 \<and> c \<noteq> 0xff"] by (auto simp: dolcom_def)
qed

lemma within_controls:
  assumes "length (input s) \<le> n"
  shows "within n (doif s)" "within n (dothen s)" "within n (doagain s)" "within n (dodofor s)"
    "within n (dobegin s)" "within n (dountil s)" "within n (dowhile s)" "within n (doelse s)"
  using assms
  by (auto simp: doif_def dothen_def doagain_def dodofor_def dobegin_def dountil_def dowhile_def doelse_def
      new_label_def Let_def intro!: within_bind within_parts)

lemma within_words:
  assumes "length (input s) \<le> n"
  shows "within n (doprim s)" "within n (docolon s)" "within n (dosemi s)" "within n (donext s)"
    "within n (dorepeat s)" "within n (dostring s)" "within n (docstring s)" "within n (dodovar s)"
    "within n (dorbrack s)" "within n (doallot s)" "within n (doimm s)"
  using assms
  by (auto simp: doprim_def docolon_def dosemi_def donext_def dorepeat_def dostring_def docstring_def dodovar_def
      dorbrack_def doallot_def doimm_def Let_def split: option.split
      intro!: within_bind within_parts within_controls)

lemma within_compile_word:
  assumes "length (input s) \<le> n"
  shows "within n (compile_word s)"
  unfolding compile_word_def
  by (rule within_bind [OF within_parts(6) [OF assms]])
    (auto split: option.split prod.split intro!: within_bind within_parts)

lemma within_process_word: "length (input s) \<le> n \<Longrightarrow> within n (process_word s)"
  unfolding process_word_def Let_def
  by (simp add: within_words within_parts within_controls within_compile_word)

function process_file :: "bfc \<Rightarrow> unit bres" where
  "process_file s = rbind (word s) (\<lambda>(more, s1).
     if \<not> more then Inr ((), s1) else rbind (process_word s1) (\<lambda>(_, s2). process_file s2))"
  by pat_completeness auto
termination
proof (relation "measure (\<lambda>s. length (input s))", simp, goal_cases)
  case (1 s r more s1 r' u s2)
  then show ?case using word_shorter within_process_word [of s1 "length (input s1)"] by fastforce
qed

declare process_file.simps [simp del]

section \<open>The program\<close>

definition bfc_start :: "bytes \<Rightarrow> bfc" where
  "bfc_start i = \<lparr>input = i, outp = [], labeli = 0,
     dict = replicate MAXDICT \<lparr>ename = replicate MAXNAME 0, flags = 0, ref = 0\<rparr>, dp = 0,
     lit = None, zbra = None, bra = None, slit = None, dodoes = None, noop = None, dofor = None, push = None,
     cstack = replicate 16 0, cp = 0, nstack = replicate 16 0, np = 0, compiling = False, wordb = []\<rparr>"

text \<open>
  \<open>main\<close>: the source file (\<open>None\<close> when it cannot be opened), whether \<open>f.out\<close> can be opened; the
  result is the exit status with what \<open>f.out\<close> then holds, or a crash.
\<close>

definition bfc_main :: "bytes option list \<Rightarrow> bool \<Rightarrow> (int \<times> bytes) option" where
  "bfc_main args creat = (case args of
       [] \<Rightarrow> None
     | src # _ \<Rightarrow>
         (case src of
            None \<Rightarrow> Some (1, [])
          | Some i \<Rightarrow>
              if \<not> creat then Some (1, [])
              else (case process_file (bfc_start i) of
                  Inr (_, s) \<Rightarrow> Some (0, concat (map render (outp (emit Cp0 (do_dict s)))))
                | Inl (Quit m, s) \<Rightarrow> Some (1, concat (map render (outp s)))
                | Inl (Fault, s) \<Rightarrow> None)))"

end
