(* ===== verification/Bfc_Inv.thy ===== *)
theory Bfc_Inv
  imports Bfc
begin

text \<open>
  The state invariant of the Forth compiler: the arrays keep their sizes, the pointers to
  prerequisite words point into the dictionary, every label in use is below the label counter,
  and the labels of the dictionary are those of the \<open>mkentry\<close> lines, in ascending order.
  \<open>sane b\<close> says further that \<open>b\<close> more labels can be made before the counter wraps around.
\<close>

section \<open>The invariant\<close>

definition refs :: "bfc \<Rightarrow> u16 list" where
  "refs s = map ref (take (dp s) (dict s))"

fun entry_label :: "line \<Rightarrow> u16 option" where
  "entry_label (Entry r n) = Some r"
| "entry_label l = None"

fun uses :: "line \<Rightarrow> u16 list" where
  "uses (Jsr r n) = [r]"
| "uses (Operand r) = [r]"
| "uses (Label r) = [r]"
| "uses (Entry r n) = [r]"
| "uses l = []"

abbreviation zero_entry :: entry where
  "zero_entry \<equiv> \<lparr>ename = replicate MAXNAME 0, flags = 0, ref = 0\<rparr>"

definition prereqs :: "bfc \<Rightarrow> nat option list" where
  "prereqs s = [lit s, zbra s, bra s, slit s, dodoes s, noop s, dofor s, push s]"

definition sane :: "nat \<Rightarrow> bfc \<Rightarrow> bool" where
  "sane b s \<longleftrightarrow> length (dict s) = MAXDICT \<and> dp s \<le> MAXDICT
     \<and> length (cstack s) = 16 \<and> cp s \<le> 16 \<and> length (nstack s) = 16 \<and> np s \<le> 16
     \<and> drop (dp s) (dict s) = replicate (MAXDICT - dp s) zero_entry
     \<and> (\<forall>i. Some i \<in> set (prereqs s) \<longrightarrow> i < dp s)
     \<and> distinct (filter (\<lambda>e. e \<noteq> None) (prereqs s))
     \<and> List.map_filter entry_label (outp s) = refs s
     \<and> sorted_wrt (<) (map unat (refs s))
     \<and> (\<forall>r \<in> set (refs s) \<union> set (take (cp s) (cstack s)) \<union> (\<Union>l \<in> set (outp s). set (uses l)). unat r < unat (labeli s))
     \<and> unat (labeli s) + b < 65536"

definition post :: "nat \<Rightarrow> 'a bres \<Rightarrow> bool" where
  "post b r \<longleftrightarrow> (case r of Inl _ \<Rightarrow> True | Inr (_, s) \<Rightarrow> sane b s)"

lemma post_simps [simp]: "post b (Inl e)" "post b (Inr (a, s)) \<longleftrightarrow> sane b s"
  by (simp_all add: post_def)

lemma post_bind:
  assumes "post b r" and "\<And>a s. r = Inr (a, s) \<Longrightarrow> sane b s \<Longrightarrow> post c (f (a, s))"
  shows "post c (rbind r f)"
  using assms by (cases r) auto

lemma inv_less: "sane b s \<Longrightarrow> c \<le> b \<Longrightarrow> sane c s"
  by (simp add: sane_def)

lemma inv_input [simp]: "sane b (s\<lparr>input := i\<rparr>) = sane b s" "sane b (s\<lparr>wordb := w\<rparr>) = sane b s"
  "sane b (s\<lparr>compiling := c\<rparr>) = sane b s"
  by (simp_all add: sane_def refs_def prereqs_def)

section \<open>Preservation\<close>

lemma emit_simps [simp]:
  "labeli (emit l s) = labeli s" "dp (emit l s) = dp s" "dict (emit l s) = dict s" "outp (emit l s) = outp s @ [l]"
  "cp (emit l s) = cp s" "cstack (emit l s) = cstack s" "zbra (emit l s) = zbra s" "bra (emit l s) = bra s"
  "dofor (emit l s) = dofor s" "push (emit l s) = push s" "lit (emit l s) = lit s" "wordb (emit l s) = wordb s"
  "compiling (emit l s) = compiling s" "input (emit l s) = input s"
  by (simp_all add: emit_def)

lemma map_filter_snoc: "List.map_filter f (xs @ [x]) = List.map_filter f xs @ (case f x of None \<Rightarrow> [] | Some y \<Rightarrow> [y])"
  by (simp add: List.map_filter_def split: option.split)

lemma inv_emit:
  assumes "sane b s" and "entry_label l = None" and "\<forall>r \<in> set (uses l). unat r < unat (labeli s)"
  shows "sane b (emit l s)"
  using assms by (auto simp: sane_def emit_def refs_def prereqs_def map_filter_snoc)

lemma inv_emits [simp]:
  "sane b s \<Longrightarrow> sane b (emit (Cell v) s)" "sane b s \<Longrightarrow> sane b (emit (Byte v) s)"
  "sane b s \<Longrightarrow> sane b (emit (Count i) s)" "sane b s \<Longrightarrow> sane b (emit (Ascii d t) s)"
  "sane b s \<Longrightarrow> sane b (emit (Asciz d t) s)" "sane b s \<Longrightarrow> sane b (emit Rts s)"
  "sane b s \<Longrightarrow> sane b (emit (Raw t) s)"
  by (simp_all add: inv_emit)

lemma inv_ref: "sane b s \<Longrightarrow> i < dp s \<Longrightarrow> unat (ref (dict s ! i)) < unat (labeli s)"
proof -
  assume a: "sane b s" "i < dp s"
  then have "ref (dict s ! i) \<in> set (refs s)"
    by (force simp: sane_def refs_def in_set_conv_nth)
  with a show ?thesis unfolding sane_def by blast
qed

lemma unat_new: "unat (labeli s) + Suc b < 65536 \<Longrightarrow> unat (labeli s + 1) = Suc (unat (labeli s))"
  by (simp add: unat_word_ariths)

lemma inv_new:
  assumes "sane (Suc b) s"
  shows "sane b (s\<lparr>labeli := labeli s + 1\<rparr>)" and "unat (labeli s) < unat (labeli s + 1)"
  using assms unat_new [of s b] by (auto simp: sane_def refs_def prereqs_def less_Suc_eq)

lemma post_push_cntl: "sane b s \<Longrightarrow> unat i < unat (labeli s) \<Longrightarrow> post b (push_cntl i s)"
  by (auto simp: push_cntl_def sane_def refs_def prereqs_def take_Suc_conv_app_nth)

lemma post_pull_cntl: "sane b s \<Longrightarrow> post b (pull_cntl s)"
proof (cases "cp s")
  case (Suc n)
  assume i: "sane b s"
  have "set (take n (cstack s)) \<subseteq> set (take (cp s) (cstack s))" using Suc by (simp add: set_take_subset_set_take)
  with i Suc show ?thesis by (auto simp: pull_cntl_def sane_def refs_def prereqs_def)
qed (simp add: pull_cntl_def)

lemma pull_cntl_label: "sane b s \<Longrightarrow> pull_cntl s = Inr (l, s') \<Longrightarrow> unat l < unat (labeli s')"
proof -
  assume a: "sane b s" "pull_cntl s = Inr (l, s')"
  then have c: "0 < cp s" "l = cstack s ! (cp s - 1)" "labeli s' = labeli s"
    by (auto simp: pull_cntl_def split: if_splits)
  have "cp s \<le> length (cstack s)" using a(1) by (simp add: sane_def)
  with c have "take (cp s) (cstack s) ! (cp s - 1) = l" "cp s - 1 < length (take (cp s) (cstack s))" by simp_all
  then have "l \<in> set (take (cp s) (cstack s))" by (metis nth_mem)
  with a(1) have "unat l < unat (labeli s)" unfolding sane_def by blast
  then show ?thesis by (simp add: c)
qed

lemma post_numbers: "sane b s \<Longrightarrow> post b (push_number i s)" "sane b s \<Longrightarrow> post b (pull_number s)"
  by (auto simp: push_number_def pull_number_def sane_def refs_def prereqs_def)

lemma post_comp_entry: "sane b s \<Longrightarrow> (\<And>i. e = Some i \<Longrightarrow> i < dp s) \<Longrightarrow> post b (comp_entry e s)"
  using inv_ref by (auto simp: comp_entry_def intro!: inv_emit split: option.split)

lemma inv_prereq:
  "sane b s \<Longrightarrow> lit s = Some i \<Longrightarrow> i < dp s" "sane b s \<Longrightarrow> zbra s = Some i \<Longrightarrow> i < dp s"
  "sane b s \<Longrightarrow> bra s = Some i \<Longrightarrow> i < dp s" "sane b s \<Longrightarrow> slit s = Some i \<Longrightarrow> i < dp s"
  "sane b s \<Longrightarrow> dodoes s = Some i \<Longrightarrow> i < dp s" "sane b s \<Longrightarrow> noop s = Some i \<Longrightarrow> i < dp s"
  "sane b s \<Longrightarrow> dofor s = Some i \<Longrightarrow> i < dp s" "sane b s \<Longrightarrow> push s = Some i \<Longrightarrow> i < dp s"
  by (simp_all add: sane_def prereqs_def)

lemma post_findentry: "sane b s \<Longrightarrow> post b (findentry s)"
  by (simp add: findentry_def)

text \<open>What \<open>findentry\<close> finds is an entry in use: the others have empty names.\<close>

lemma entry_str_zero: "sane b s \<Longrightarrow> dp s \<le> i \<Longrightarrow> entry_str (dict s) i = []"
proof -
  assume a: "sane b s" "dp s \<le> i"
  have "drop i (dict s) = drop (i - dp s) (drop (dp s) (dict s))" using a(2) by simp
  also have "\<dots> = replicate (MAXDICT - dp s - (i - dp s)) zero_entry" using a(1) by (simp add: sane_def)
  finally have r: "drop i (dict s) = replicate (MAXDICT - dp s - (i - dp s)) zero_entry" .
  show ?thesis
    unfolding entry_str_def r
    by (cases "MAXDICT - dp s - (i - dp s)") (simp_all add: entry_mem_def c_str_def numeral_eq_Suc)
qed

lemma findentry_in:
  assumes "sane b s" and "findentry s = Inr (Some i, s')" and "c_str (wordb s) \<noteq> []"
  shows "i < dp s"
proof (rule ccontr)
  assume "\<not> i < dp s"
  with entry_str_zero [OF assms(1)] have "entry_str (dict s) i = []" by simp
  moreover have "entry_str (dict s) i = c_str (wordb s)"
    using assms(2) by (auto simp: findentry_def find_Some_iff split: if_splits)
  ultimately show False using assms(3) by simp
qed

lemma post_forward: "sane (Suc b) s \<Longrightarrow> post b (forward s)"
proof -
  assume i: "sane (Suc b) s"
  have "sane b ((emit (Operand (labeli s)) s)\<lparr>labeli := labeli s + 1\<rparr>)"
    using inv_emit [OF inv_new(1) [OF i], of "Operand (labeli s)"] inv_new(2) [OF i]
    by (simp add: emit_def) (simp add: sane_def refs_def prereqs_def)
  then show ?thesis
    using inv_new(2) [OF i] by (auto simp: forward_def new_label_def Let_def emit_def intro!: post_push_cntl)
qed

lemma forward_dp: "forward s = Inr (a, s') \<Longrightarrow> dp s' = dp s"
  by (auto simp: forward_def new_label_def push_cntl_def emit_def Let_def split: if_splits)

lemma refs_mkentry:
  assumes "length (dict s) = MAXDICT" and "dp s < MAXDICT" and "dict s' = (dict s)[dp s := e]" and "dp s' = Suc (dp s)"
  shows "refs s' = refs s @ [ref e]"
  using assms by (simp add: refs_def take_Suc_conv_app_nth)

lemma set_prereq_simps [simp]:
  "dict (set_prereq w e s) = dict s" "dp (set_prereq w e s) = dp s" "labeli (set_prereq w e s) = labeli s"
  "cstack (set_prereq w e s) = cstack s" "cp (set_prereq w e s) = cp s" "nstack (set_prereq w e s) = nstack s"
  "np (set_prereq w e s) = np s" "outp (set_prereq w e s) = outp s" "wordb (set_prereq w e s) = wordb s"
  by (simp_all add: set_prereq_def)

lemma prereqs_set: "Some i \<in> set (prereqs (set_prereq w e s)) \<Longrightarrow> i = e \<or> Some i \<in> set (prereqs s)"
  by (auto simp: set_prereq_def prereqs_def split: if_splits)

lemma set_prereq_cases:
  "prereqs (set_prereq w e s) \<in> set (prereqs s # map (\<lambda>k. (prereqs s)[k := Some e]) [0, 1, 2, 3, 4, 5, 6, 7])"
  by (simp add: set_prereq_def prereqs_def)

lemma distinct_filter_update:
  "distinct (filter (\<lambda>e. e \<noteq> None) xs) \<Longrightarrow> Some e \<notin> set xs \<Longrightarrow>
   distinct (filter (\<lambda>e. e \<noteq> None) (xs[k := Some e]))"
proof (induction xs arbitrary: k)
  case (Cons x xs)
  have "y \<in> set (xs[j := Some e]) \<Longrightarrow> y = Some e \<or> y \<in> set xs" for j y
    using set_update_subset_insert [of xs j "Some e"] by blast
  with Cons show ?case by (cases k) (fastforce split: if_splits)+
qed simp

lemma distinct_set_prereq:
  "distinct (filter (\<lambda>e. e \<noteq> None) (prereqs s)) \<Longrightarrow> Some e \<notin> set (prereqs s) \<Longrightarrow>
   distinct (filter (\<lambda>e. e \<noteq> None) (prereqs (set_prereq w e s)))"
  using set_prereq_cases [of w e s] distinct_filter_update [of "prereqs s" e] by auto

lemma post_mkentry: "sane (Suc b) s \<Longrightarrow> post b (mkentry s)"
proof (cases "MAXDICT \<le> dp s")
  case False
  assume i: "sane (Suc b) s"
  let ?s1 = "set_prereq (c_str (wordb s)) (dp s) (s\<lparr>dp := dp s + 1\<rparr>)"
  let ?e = "\<lparr>ename = name_of (wordb s), flags = 0, ref = labeli s\<rparr>"
  let ?s3 = "?s1\<lparr>labeli := labeli s + 1, dict := (dict s)[dp s := ?e]\<rparr>"
  let ?s4 = "emit (Entry (labeli s) (entry_str (dict ?s3) (dp s))) ?s3"
  have m: "mkentry s = Inr ((), ?s4)"
    using False by (simp add: mkentry_def new_label_def Let_def)
  have n: "unat (labeli s + 1) = Suc (unat (labeli s))" using i by (intro unat_new [of s b]) (simp add: sane_def)
  have r: "refs ?s4 = refs s @ [labeli s]"
    using False i by (subst refs_mkentry [where s = s and e = ?e]) (simp_all add: sane_def emit_def)
  have d: "drop (Suc (dp s)) ((dict s)[dp s := ?e]) = replicate (MAXDICT - Suc (dp s)) zero_entry"
  proof -
    have "drop (Suc (dp s)) ((dict s)[dp s := ?e]) = drop (Suc (dp s)) (dict s)" by (rule drop_update_cancel) simp
    also have "\<dots> = drop 1 (drop (dp s) (dict s))" by simp
    also have "\<dots> = drop 1 (replicate (MAXDICT - dp s) zero_entry)" using i by (simp only: sane_def)
    finally show ?thesis by simp
  qed
  have p: "j < Suc (dp s)" if "Some j \<in> set (prereqs ?s4)" for j
    using that i prereqs_set [of j "c_str (wordb s)" "dp s" "s\<lparr>dp := dp s + 1\<rparr>"]
    by (auto simp: sane_def emit_def prereqs_def less_Suc_eq)
  have q: "distinct (filter (\<lambda>e. e \<noteq> None) (prereqs ?s4))"
  proof -
    have "prereqs ?s4 = prereqs (set_prereq (c_str (wordb s)) (dp s) s)"
      by (simp add: prereqs_def emit_def set_prereq_def)
    moreover have "Some (dp s) \<notin> set (prereqs s)" using i by (auto simp: sane_def)
    ultimately show ?thesis using i distinct_set_prereq [of s "dp s"] by (simp add: sane_def)
  qed
  have "sane b ?s4"
    unfolding sane_def r
    using i False n d p q
    by (auto simp: sane_def emit_def map_filter_snoc sorted_wrt_append less_Suc_eq)
  then show ?thesis unfolding m by simp
qed (simp add: mkentry_def)

lemma labeli_comp_entry: "comp_entry e s = Inr (a, s') \<Longrightarrow> labeli s' = labeli s"
  by (auto simp: comp_entry_def emit_def split: option.splits)

lemma labeli_forward: "sane (Suc b) s \<Longrightarrow> forward s = Inr (a, s') \<Longrightarrow> unat (labeli s) < unat (labeli s')"
  using inv_new(2) [of b s]
  by (auto simp: forward_def new_label_def push_cntl_def emit_def Let_def split: if_splits)

lemma post_control:
  assumes "sane b s"
  shows "post b (dothen s)" "post b (doagain s)" "post b (dountil s)" "post b (donext s)" "post b (dorepeat s)"
proof -
  have pull: "post b (rbind (pull_cntl t) (\<lambda>(l, u). Inr ((), emit (f l) u)))"
    if "sane b t" and "\<And>l. entry_label (f l) = None \<and> uses (f l) = [l]" for t f
    using that pull_cntl_label [of b t] post_pull_cntl [of b t]
    by (intro post_bind [where b = b]) (auto intro!: inv_emit)
  have t: "post b (dothen s)" if "sane b s" for s using that by (simp add: dothen_def pull)
  have a: "post b (doagain s)" if "sane b s" for s
    unfolding doagain_def using that inv_prereq
    by (intro post_bind [where b = b] post_comp_entry) (auto intro!: pull)
  show "post b (dothen s)" "post b (doagain s)" by (rule t a, rule assms)+
  show "post b (dountil s)"
    unfolding dountil_def using assms inv_prereq
    by (intro post_bind [where b = b] post_comp_entry) (auto intro!: pull)
  show "post b (donext s)"
    unfolding donext_def using a [OF assms] by (rule post_bind) (auto intro: t)
  show "post b (dorepeat s)"
    unfolding dorepeat_def using a [OF assms] by (rule post_bind) (auto intro!: pull)
qed

text \<open>The words that make labels use up one or two of the budget.\<close>

lemma inv_label:
  assumes "sane (Suc b) s"
  shows "sane b ((emit (Label (labeli s)) s)\<lparr>labeli := labeli s + 1\<rparr>)"
  using inv_emit [OF inv_new(1) [OF assms], of "Label (labeli s)"] inv_new(2) [OF assms]
  by (simp add: emit_def) (simp add: sane_def refs_def prereqs_def)

lemma post_fresh:
  assumes "sane (Suc b) s"
  shows "post b (doif s)" "post b (dobegin s)" "post b (dowhile s)" "post b (doelse s)"
proof -
  show "post b (doif s)"
    unfolding doif_def using assms inv_prereq
    by (intro post_bind [where b = "Suc b"] post_comp_entry) (auto intro: post_forward)
  show "post b (dobegin s)"
    using inv_label [OF assms] inv_new(2) [OF assms]
    by (auto simp: dobegin_def new_label_def Let_def emit_def intro!: post_push_cntl)
  show "post b (dowhile s)"
    unfolding dowhile_def
  proof (rule post_bind [OF post_pull_cntl [OF assms]])
    fix i t assume t: "pull_cntl s = Inr (i, t)" "sane (Suc b) t"
    have i: "unat i < unat (labeli t)" by (rule pull_cntl_label [OF assms t(1)])
    show "post b (case (i, t) of (i, s1) \<Rightarrow> rbind (comp_entry (zbra s1) s1) (\<lambda>(_, s2).
        rbind (forward s2) (\<lambda>(_, s3). push_cntl i s3)))"
      using t(2) i inv_prereq(2) [OF t(2)]
      by (auto intro!: post_bind [where b = "Suc b"] post_comp_entry post_bind [OF post_forward] post_push_cntl
        dest!: labeli_comp_entry labeli_forward [rotated])
  qed
  show "post b (doelse s)"
    unfolding doelse_def
  proof (rule post_bind [OF post_pull_cntl [OF assms]])
    fix i t assume t: "pull_cntl s = Inr (i, t)" "sane (Suc b) t"
    have i: "unat i < unat (labeli t)" by (rule pull_cntl_label [OF assms t(1)])
    show "post b (case (i, t) of (i, s1) \<Rightarrow> rbind (comp_entry (bra s1) s1) (\<lambda>(_, s2).
        rbind (forward s2) (\<lambda>(_, s3). Inr ((), emit (Label i) s3))))"
      using t(2) i inv_prereq(3) [OF t(2)]
      by (auto intro!: post_bind [where b = "Suc b"] post_comp_entry post_bind [OF post_forward] inv_emit
        dest!: labeli_comp_entry labeli_forward [rotated])
  qed
qed

lemma post_dodofor:
  assumes "sane (Suc (Suc b)) s"
  shows "post b (dodofor s)"
proof -
  let ?t = "s\<lparr>labeli := labeli s + 1\<rparr>"
  have t: "sane (Suc b) ?t" "unat (labeli s) < unat (labeli ?t)" using inv_new [OF assms] by simp_all
  show ?thesis
    unfolding dodofor_def new_label_def prod.case
    using t inv_prereq(8) [OF t(1)]
    by (auto intro!: post_bind [where b = "Suc b"] post_comp_entry post_bind [OF post_forward] post_push_cntl inv_emit
        dest: inv_prereq(7) dest!: labeli_comp_entry labeli_forward [rotated])
qed

lemma post_word: "sane b s \<Longrightarrow> post b (word s)"
  by (simp add: word_def Let_def)

lemma post_wordb_str: "sane b s \<Longrightarrow> post b (wordb_str s)"
  by (simp add: wordb_str_def Let_def split: list.split)

lemma doasm_loop_raw:
  "\<exists>ts. snd (doasm_loop i out) = out @ map Raw ts"
proof (induction i out rule: doasm_loop.induct)
  case (1 i out)
  show ?case
  proof (cases "i = [] \<or> take 2 (fst (fgets i)) = str '';p''")
    case True
    then have "snd (doasm_loop i out) = out @ map Raw []" by (subst doasm_loop.simps) auto
    then show ?thesis by blast
  next
    case False
    then have "snd (doasm_loop i out) = snd (doasm_loop (snd (fgets i)) (out @ [Raw (c_str (fst (fgets i)))]))"
      by (subst doasm_loop.simps) auto
    moreover from 1 False obtain ts where "snd (doasm_loop (snd (fgets i)) (out @ [Raw (c_str (fst (fgets i)))]))
      = (out @ [Raw (c_str (fst (fgets i)))]) @ map Raw ts" by blast
    ultimately have "snd (doasm_loop i out) = out @ map Raw (c_str (fst (fgets i)) # ts)" by simp
    then show ?thesis by blast
  qed
qed

lemma inv_raws: "sane b s \<Longrightarrow> sane b (s\<lparr>outp := outp s @ map Raw ts\<rparr>)"
proof (induction ts rule: rev_induct)
  case (snoc t ts)
  then have "sane b (emit (Raw t) (s\<lparr>outp := outp s @ map Raw ts\<rparr>))" by simp
  then show ?case by (simp add: emit_def)
qed simp

lemma post_doasm: "sane b s \<Longrightarrow> post b (doasm s)"
proof -
  assume i: "sane b s"
  obtain ts where "snd (doasm_loop (input s) (outp s)) = outp s @ map Raw ts" using doasm_loop_raw by blast
  with inv_raws [OF i, of ts] show ?thesis
    by (auto simp: doasm_def split: prod.split) (metis inv_input(1) bfc.surjective bfc.update_convs(1,2))
qed

lemma inv_comp_chars: "sane b s \<Longrightarrow> sane b ((comp_char c ^^ n) s)"
  by (induction n) (simp_all add: comp_char_def)

lemma post_doimm:
  assumes "sane b s"
  shows "post b (doimm s)"
proof (cases "dp s = 0")
  case False
  let ?i = "dp s - 1"
  let ?e = "(dict s ! ?i)\<lparr>flags := flags (dict s ! ?i) OR 0x80\<rparr>"
  let ?t = "s\<lparr>dict := (dict s)[?i := ?e]\<rparr>"
  have "dp s \<le> length (dict s)" using assms by (simp add: sane_def)
  then have len: "?i < length (dict s)" using False by linarith
  have "map ref ((dict s)[?i := ?e]) = map ref (dict s)"
    using len by (simp add: map_update list_update_same_conv)
  then have "refs ?t = refs s" by (simp add: refs_def flip: take_map)
  moreover have "drop (dp s) ((dict s)[?i := ?e]) = drop (dp s) (dict s)" using False by (simp add: drop_update_cancel)
  ultimately have "sane b ?t" using assms by (auto simp: sane_def prereqs_def)
  with False show ?thesis by (simp add: doimm_def)
qed (simp add: doimm_def)

lemma post_defining:
  assumes "sane (Suc b) s"
  shows "post b (doprim s)" "post b (docolon s)" "post b (dodovar s)"
proof -
  show "post b (doprim s)"
    unfolding doprim_def using assms
    by (auto intro!: post_bind [OF post_word] post_bind [OF post_mkentry] post_doasm)
  show "post b (docolon s)"
    unfolding docolon_def using assms by (auto intro!: post_bind [OF post_word] post_bind [OF post_mkentry])
  have ref: "post b (rbind (pull_number (emit (Operand (ref (dict u ! e))) u)) (\<lambda>(n, v). Inr ((), emit (Count (sint n)) v)))"
    if "sane b u" "noop u = Some e" for u e
    using that inv_ref [OF that(1) inv_prereq(6) [OF that]]
    by (auto intro!: post_bind [where b = b] post_numbers inv_emit)
  show "post b (dodovar s)"
    unfolding dodovar_def using assms inv_prereq(5)
    by (auto intro!: post_bind [OF post_word] post_bind [OF post_mkentry] post_bind [OF post_comp_entry] ref split: option.split)
qed

lemma post_strings:
  assumes "sane b s"
  shows "post b (dostring s)" "post b (docstring s)"
  using assms inv_prereq(4)
  by (auto simp: dostring_def docstring_def Let_def
      intro!: post_bind [OF post_wordb_str] post_bind [OF post_comp_entry])

lemma post_plain:
  assumes "sane b s"
  shows "post b (dosemi s)" "post b (dorbrack s)" "post b (doallot s)" "post b (dolcom s)"
proof -
  show "post b (doallot s)"
    unfolding doallot_def using post_numbers(2) [OF assms]
    by (rule post_bind) (auto intro: inv_comp_chars)
qed (use assms in \<open>simp_all add: dosemi_def dorbrack_def dolcom_def\<close>)

lemma post_compile_word:
  assumes "sane b s" and "c_str (wordb s) \<noteq> []"
  shows "post b (compile_word s)"
  unfolding compile_word_def
  by (rule post_bind [OF post_findentry [OF assms(1)]])
    (use assms findentry_in [OF assms(1)] inv_prereq(1) in
      \<open>auto simp: findentry_def comp_int_def split: option.split prod.split if_splits
        intro!: post_bind [OF post_comp_entry] post_comp_entry post_numbers\<close>)

lemma post_less: "post b r \<Longrightarrow> c \<le> b \<Longrightarrow> post c r"
  by (auto simp: post_def inv_less split: sum.splits)

lemma post_process_word:
  assumes "sane (Suc (Suc b)) s" and "c_str (wordb s) \<noteq> []"
  shows "post b (process_word s)"
proof -
  have i: "sane (Suc b) s" "sane b s" using assms(1) inv_less by auto
  show ?thesis
    unfolding process_word_def Let_def
    by (simp add: post_control [OF i(2)] post_fresh [OF i(1)] post_dodofor [OF assms(1)] post_doasm [OF i(2)]
        post_defining [OF i(1)] post_strings [OF i(2)] post_plain [OF i(2)] post_doimm [OF i(2)]
        post_compile_word [OF i(2) assms(2)])
qed

lemma word_nonempty:
  assumes "word s = Inr (True, s')"
  shows "c_str (wordb s') \<noteq> []"
proof -
  let ?i = "dropWhile isfblank (input s)"
  from assms have ne: "?i \<noteq> []" and w: "wordb s' = takeWhile (\<lambda>c. \<not> isfblank c) ?i"
    by (auto simp: word_def Let_def split: if_splits)
  from ne have h: "\<not> isfblank (hd ?i)" by (rule hd_dropWhile)
  then have "hd ?i \<noteq> 0" by (auto simp: isfblank_def)
  with ne h show ?thesis unfolding w c_str_def by (cases ?i) auto
qed

lemma post_process_file: "sane (2 * length (input s)) s \<Longrightarrow> post 0 (process_file s)"
proof (induction s rule: process_file.induct)
  case (1 s)
  show ?case
  proof (cases "word s")
    case (Inr r)
    obtain more s1 where r: "r = (more, s1)" by (cases r)
    have s1: "sane (2 * length (input s)) s1" using post_word [OF "1.prems"] Inr r by simp
    show ?thesis
    proof (cases more)
      case False
      then show ?thesis using inv_less [OF s1] Inr r by (subst process_file.simps) simp
    next
      case True
      note sh = word_shorter [of s s1]
      have "sane (Suc (Suc (2 * length (input s1)))) s1"
        by (rule inv_less [OF s1]) (use sh Inr r True in auto)
      from post_process_word [OF this word_nonempty] have p: "post (2 * length (input s1)) (process_word s1)"
        using Inr r True by simp
      show ?thesis
      proof (cases "process_word s1")
        case (Inl e)
        then show ?thesis using \<open>word s = Inr r\<close> r True by (subst process_file.simps) simp
      next
        case (Inr q)
        obtain u s2 where q: "q = (u, s2)" by (cases q)
        have "length (input s2) \<le> length (input s1)"
          using within_process_word [of s1 "length (input s1)"] Inr q by simp
        moreover have "sane (2 * length (input s1)) s2" using p Inr q by simp
        ultimately have "sane (2 * length (input s2)) s2" by (auto intro: inv_less)
        with "1.IH" \<open>word s = Inr r\<close> r True Inr q have "post 0 (process_file s2)" by auto
        then show ?thesis using \<open>word s = Inr r\<close> r True Inr q by (subst process_file.simps) simp
      qed
    qed
  qed (subst process_file.simps, simp)
qed

lemma inv_start: "b < 65536 \<Longrightarrow> sane b (bfc_start i)"
  by (simp add: sane_def bfc_start_def refs_def prereqs_def List.map_filter_def)

section \<open>Labels of the dictionary\<close>

text \<open>C30:
  In the output for a source of less than 32768 bytes the words' labels are all different: the
  dictionary's labels are, in order, those of the lines printed by \<open>mkentry\<close>, and they ascend; no
  line refers to a label number that has not been handed out.
\<close>

theorem bfc_labels_distinct:
  assumes "process_file (bfc_start i) = Inr ((), s)" and "length i < 32768"
  shows "List.map_filter entry_label (outp s) = refs s \<and> distinct (refs s)
    \<and> (\<forall>l \<in> set (outp s). \<forall>r \<in> set (uses l). unat r < unat (labeli s))"
proof -
  have "sane (2 * length (input (bfc_start i))) (bfc_start i)"
    using assms(2) by (intro inv_start) (simp add: bfc_start_def)
  from post_process_file [OF this] assms(1) have s: "sane 0 s" by simp
  then have "distinct (map unat (refs s))" by (simp add: sane_def strict_sorted_iff)
  then have "distinct (refs s)" by (simp add: distinct_map)
  with s show ?thesis unfolding sane_def by blast
qed

end
