(* ===== verification/Bfc_Code.thy ===== *)
theory Bfc_Code
  imports Bfc_Inv
begin

text \<open>
  What the code that the Forth compiler writes for control structures does.  A structured
  command \<open>com\<close> has a source text (\<open>words\<close>), a meaning (\<open>run\<close>) and, through the compiler, a list
  of lines, which a machine executes line by line.  The machine takes the words \<open>lit\<close>, \<open>0bra\<close>,
  \<open>bra\<close> and \<open>dofor\<close> to do what \<open>bfc.1\<close> says they do: push the cell that follows, jump when the
  top of the stack is zero, jump, and count down or leave the loop; what all other words do to
  the machine's data is a parameter.
\<close>

section \<open>Structured commands\<close>

datatype com =
    Skip
  | Call bytes
  | Num bytes
  | Seq com com
  | If com
  | IfElse com com
  | Until com
  | While com com
  | For com

fun words :: "com \<Rightarrow> bytes list" where
  "words Skip = []"
| "words (Call w) = [w]"
| "words (Num w) = [w]"
| "words (Seq c d) = words c @ words d"
| "words (If c) = str ''if'' # words c @ [str ''then'']"
| "words (IfElse c d) = str ''if'' # words c @ str ''else'' # words d @ [str ''then'']"
| "words (Until c) = str ''begin'' # words c @ [str ''until'']"
| "words (While c d) = str ''begin'' # words c @ str ''while'' # words d @ [str ''repeat'']"
| "words (For c) = str ''for'' # words c @ [str ''next'']"

definition source :: "com \<Rightarrow> bytes" where
  "source c = concat (map (\<lambda>w. w @ [32]) (words c))"

text \<open>How many labels a command makes, and how deep it uses the control stack.\<close>

fun labels :: "com \<Rightarrow> nat" where
  "labels (Seq c d) = labels c + labels d"
| "labels (If c) = Suc (labels c)"
| "labels (IfElse c d) = Suc (labels c + Suc (labels d))"
| "labels (Until c) = Suc (labels c)"
| "labels (While c d) = Suc (labels c + Suc (labels d))"
| "labels (For c) = Suc (Suc (labels c))"
| "labels _ = 0"

fun depth :: "com \<Rightarrow> nat" where
  "depth (Seq c d) = max (depth c) (depth d)"
| "depth (If c) = Suc (depth c)"
| "depth (IfElse c d) = Suc (max (depth c) (depth d))"
| "depth (Until c) = Suc (depth c)"
| "depth (While c d) = max (Suc (depth c)) (Suc (Suc (depth d)))"
| "depth (For c) = Suc (Suc (depth c))"
| "depth _ = 0"

definition host_words :: "bytes list" where
  "host_words = map str [''p:'', ''a:'', '':'', '';'', ''if'', ''then'', ''begin'', ''again'', ''until'', ''while'',
     ''repeat'', ''else'', ''$'', ''c$'', ''var'', '']'', ''allot'', ''for'', ''next'', ''imm'', ''#'']"

definition plain_word :: "bytes \<Rightarrow> bool" where
  "plain_word w \<longleftrightarrow> w \<noteq> [] \<and> length w < 64 \<and> (\<forall>c \<in> set w. \<not> isfblank c)"

definition lookup :: "bfc \<Rightarrow> bytes \<Rightarrow> nat option" where
  "lookup s w = List.find (\<lambda>i. entry_str (dict s) i = w) (rev [0..<dp s])"

definition jump_words :: "bfc \<Rightarrow> nat option list" where
  "jump_words s = [lit s, zbra s, bra s, dofor s]"

text \<open>
  A command fits a dictionary when its words are found there (and are not among those with
  operands), its numbers are numbers and not words, and the prerequisite words are defined.
\<close>

fun fits :: "bfc \<Rightarrow> com \<Rightarrow> bool" where
  "fits s Skip = True"
| "fits s (Call w) = (plain_word w \<and> w \<notin> set host_words \<and> lookup s w \<noteq> None \<and> lookup s w \<notin> set (jump_words s))"
| "fits s (Num w) = (plain_word w \<and> w \<notin> set host_words \<and> lookup s w = None \<and> snd (strtol0 w) = [] \<and> lit s \<noteq> None)"
| "fits s (Seq c d) = (fits s c \<and> fits s d)"
| "fits s (If c) = (zbra s \<noteq> None \<and> fits s c)"
| "fits s (IfElse c d) = (zbra s \<noteq> None \<and> bra s \<noteq> None \<and> fits s c \<and> fits s d)"
| "fits s (Until c) = (zbra s \<noteq> None \<and> fits s c)"
| "fits s (While c d) = (zbra s \<noteq> None \<and> bra s \<noteq> None \<and> fits s c \<and> fits s d)"
| "fits s (For c) = (push s \<noteq> None \<and> dofor s \<noteq> None \<and> bra s \<noteq> None \<and> push s \<notin> set (jump_words s) \<and> fits s c)"

section \<open>Code\<close>

definition jsr :: "bfc \<Rightarrow> nat option \<Rightarrow> line" where
  "jsr s e = Jsr (ref (dict s ! the e)) (entry_str (dict s) (the e))"

abbreviation lab :: "nat \<Rightarrow> u16" where "lab n \<equiv> word_of_nat n"

fun code :: "bfc \<Rightarrow> com \<Rightarrow> nat \<Rightarrow> line list" where
  "code s Skip n = []"
| "code s (Call w) n = [jsr s (lookup s w)]"
| "code s (Num w) n = [jsr s (lit s), Cell (word_of_int (fst (strtol0 w)))]"
| "code s (Seq c d) n = code s c n @ code s d (n + labels c)"
| "code s (If c) n = [jsr s (zbra s), Operand (lab n)] @ code s c (Suc n) @ [Label (lab n)]"
| "code s (IfElse c d) n =
     (let m = Suc n + labels c
      in [jsr s (zbra s), Operand (lab n)] @ code s c (Suc n) @ [jsr s (bra s), Operand (lab m), Label (lab n)]
         @ code s d (Suc m) @ [Label (lab m)])"
| "code s (Until c) n = [Label (lab n)] @ code s c (Suc n) @ [jsr s (zbra s), Operand (lab n)]"
| "code s (While c d) n =
     (let m = Suc n + labels c
      in [Label (lab n)] @ code s c (Suc n) @ [jsr s (zbra s), Operand (lab m)] @ code s d (Suc m)
         @ [jsr s (bra s), Operand (lab n), Label (lab m)])"
| "code s (For c) n =
     [jsr s (push s), Label (lab n), jsr s (dofor s), Operand (lab (Suc n))] @ code s c (Suc (Suc n))
       @ [jsr s (bra s), Operand (lab n), Label (lab (Suc n))]"

section \<open>The compiler writes that code\<close>

text \<open>What compiling a command does not change.\<close>

definition same_dict :: "bfc \<Rightarrow> bfc \<Rightarrow> bool" where
  "same_dict s t \<longleftrightarrow> dict t = dict s \<and> dp t = dp s \<and> prereqs t = prereqs s"

text \<open>\<open>t\<close> comes after \<open>s\<close>: the lines \<open>ls\<close> and \<open>n\<close> labels more, and the control stack \<open>cs\<close>.\<close>

definition after :: "bfc \<Rightarrow> line list \<Rightarrow> nat \<Rightarrow> u16 list \<Rightarrow> bytes \<Rightarrow> bfc \<Rightarrow> bool" where
  "after s ls n cs i t \<longleftrightarrow> same_dict s t \<and> outp t = outp s @ ls \<and> unat (labeli t) = unat (labeli s) + n
     \<and> take (cp t) (cstack t) = cs \<and> cp t \<le> 16 \<and> length (cstack t) = 16 \<and> compiling t \<and> input t = i"

lemma same_dictD:
  "same_dict s t \<Longrightarrow> dict t = dict s" "same_dict s t \<Longrightarrow> dp t = dp s" "same_dict s t \<Longrightarrow> lit t = lit s"
  "same_dict s t \<Longrightarrow> zbra t = zbra s" "same_dict s t \<Longrightarrow> bra t = bra s" "same_dict s t \<Longrightarrow> dofor t = dofor s"
  "same_dict s t \<Longrightarrow> push t = push s"
  by (simp_all add: same_dict_def prereqs_def)

lemma code_cong: "same_dict s t \<Longrightarrow> code t c n = code s c n"
proof -
  assume d: "same_dict s t"
  have "jsr t e = jsr s e" "lookup t w = lookup s w" for e w
    using same_dictD [OF d] by (simp_all add: jsr_def lookup_def)
  then show ?thesis
    using same_dictD [OF d] by (induction c arbitrary: n) (simp_all add: Let_def)
qed

lemma fits_cong: "same_dict s t \<Longrightarrow> fits t c = fits s c"
proof -
  assume d: "same_dict s t"
  have "lookup t w = lookup s w" "jump_words t = jump_words s" for w
    using same_dictD [OF d] by (simp_all add: lookup_def jump_words_def)
  then show ?thesis using same_dictD [OF d] by (induction c) simp_all
qed

text \<open>One word.\<close>

lemma take_token:
  assumes "plain_word w" and "input s = w @ 32 # i"
  shows "word s = Inr (True, s\<lparr>wordb := w, input := i\<rparr>)" and "c_str w = w"
proof -
  have b: "isfblank 32" by (simp add: isfblank_def)
  have w: "w \<noteq> []" "length w < 64" "\<And>c. c \<in> set w \<Longrightarrow> \<not> isfblank c"
    using assms(1) by (auto simp: plain_word_def)
  have "dropWhile isfblank (input s) = input s"
    using w(1,3) assms(2) by (cases w) auto
  moreover have "takeWhile (\<lambda>c. \<not> isfblank c) (input s) = w"
    using w(3) b by (simp add: assms(2) takeWhile_tail)
  ultimately show "word s = Inr (True, s\<lparr>wordb := w, input := i\<rparr>)"
    using w(1,2) assms(2) by (simp add: word_def)
  have "\<not> isfblank 0 \<Longrightarrow> False" by (simp add: isfblank_def)
  with w(3) show "c_str w = w" unfolding c_str_def by (intro takeWhile_eq_all_conv [THEN iffD2]) auto
qed

lemma process_token:
  assumes "plain_word w" and "input s = w @ 32 # i"
    and "process_word (s\<lparr>wordb := w, input := i\<rparr>) = Inr ((), t)"
  shows "process_file s = process_file t"
  using assms by (subst process_file.simps) (simp add: take_token)

text \<open>The control stack as a list.\<close>

definition stk :: "bfc \<Rightarrow> u16 list" where
  "stk s = take (cp s) (cstack s)"

definition ready :: "bfc \<Rightarrow> bool" where
  "ready s \<longleftrightarrow> cp s \<le> 16 \<and> length (cstack s) = 16 \<and> compiling s"

lemma length_stk: "ready s \<Longrightarrow> length (stk s) = cp s"
  by (simp add: ready_def stk_def)

lemma stk_simps [simp]: "stk (emit l s) = stk s" "stk (s\<lparr>labeli := n\<rparr>) = stk s"
  "stk (s\<lparr>wordb := w\<rparr>) = stk s" "stk (s\<lparr>input := i\<rparr>) = stk s"
  by (simp_all add: stk_def emit_def)

lemma ready_simps [simp]: "ready (emit l s) = ready s" "ready (s\<lparr>labeli := n\<rparr>) = ready s"
  "ready (s\<lparr>wordb := w\<rparr>) = ready s" "ready (s\<lparr>input := i\<rparr>) = ready s"
  by (simp_all add: ready_def emit_def)

lemma prereqs_simps [simp]: "prereqs (emit l s) = prereqs s" "prereqs (s\<lparr>labeli := n\<rparr>) = prereqs s"
  "prereqs (s\<lparr>cstack := c\<rparr>) = prereqs s" "prereqs (s\<lparr>cp := k\<rparr>) = prereqs s"
  "prereqs (s\<lparr>wordb := w\<rparr>) = prereqs s" "prereqs (s\<lparr>input := i\<rparr>) = prereqs s"
  by (simp_all add: prereqs_def emit_def)

lemma comp_entry_ok: "e \<noteq> None \<Longrightarrow> comp_entry e s = Inr ((), emit (jsr s e) s)"
  by (auto simp: comp_entry_def jsr_def)

lemma jsr_simps [simp]: "jsr (emit l s) e = jsr s e" "jsr (s\<lparr>labeli := n\<rparr>) e = jsr s e"
  "jsr (s\<lparr>cstack := c\<rparr>) e = jsr s e" "jsr (s\<lparr>cp := k\<rparr>) e = jsr s e"
  "jsr (s\<lparr>wordb := w\<rparr>) e = jsr s e" "jsr (s\<lparr>input := i\<rparr>) e = jsr s e"
  by (simp_all add: jsr_def)

lemma push_ok:
  assumes "ready s" and "length (stk s) < 16"
  obtains t where "push_cntl i s = Inr ((), t)" and "stk t = stk s @ [i]" and "ready t"
    and "t = s\<lparr>cstack := cstack t, cp := cp t\<rparr>"
  using assms length_stk [OF assms(1)]
  by (auto simp: push_cntl_def stk_def ready_def take_Suc_conv_app_nth intro!: that)

lemma pull_ok:
  assumes "ready s" and "stk s = cs @ [l]"
  obtains t where "pull_cntl s = Inr (l, t)" and "stk t = cs" and "ready t" and "t = s\<lparr>cp := cp t\<rparr>"
proof -
  from assms have n: "cp s = Suc (length cs)" "cp s \<le> length (cstack s)"
    using length_stk [OF assms(1)] by (simp_all add: ready_def)
  then have "take (length cs) (cstack s) @ [cstack s ! length cs] = cs @ [l]"
    using assms(2) by (simp add: stk_def take_Suc_conv_app_nth)
  then have "take (length cs) (cstack s) = cs" "cstack s ! length cs = l" by simp_all
  with n assms(1) show ?thesis
    by (intro that [of "s\<lparr>cp := length cs\<rparr>"]) (simp_all add: pull_cntl_def stk_def ready_def)
qed

definition went :: "bfc \<Rightarrow> line list \<Rightarrow> nat \<Rightarrow> u16 list \<Rightarrow> bfc \<Rightarrow> bool" where
  "went s ls n cs t \<longleftrightarrow> same_dict s t \<and> outp t = outp s @ ls \<and> unat (labeli t) = unat (labeli s) + n
     \<and> stk t = cs \<and> ready t \<and> input t = input s"

lemma forward_ok:
  assumes "ready s" and "length (stk s) < 16" and "unat (labeli s) < 65535"
  obtains t where "forward s = Inr ((), t)" and "went s [Operand (labeli s)] 1 (stk s @ [labeli s]) t"
proof -
  let ?s = "(emit (Operand (labeli s)) s)\<lparr>labeli := labeli s + 1\<rparr>"
  have "ready ?s" "length (stk ?s) < 16" using assms by simp_all
  then obtain t where t: "push_cntl (labeli s) ?s = Inr ((), t)" "stk t = stk ?s @ [labeli s]" "ready t"
    and e: "t = ?s\<lparr>cstack := cstack t, cp := cp t\<rparr>" by (rule push_ok)
  have "outp t = outp s @ [Operand (labeli s)]" "labeli t = labeli s + 1" "same_dict s t" "input t = input s"
    by (subst e, simp add: same_dict_def)+
  with t assms(3) unat_new [of s 0] show ?thesis
    by (intro that [of t]) (simp_all add: forward_def new_label_def Let_def went_def)
qed

lemma same_dict_trans: "same_dict s t \<Longrightarrow> same_dict t u \<Longrightarrow> same_dict s u"
  by (simp add: same_dict_def)

lemma went_trans: "went s ls n cs t \<Longrightarrow> went t ls' n' cs' u \<Longrightarrow> went s (ls @ ls') (n + n') cs' u"
  by (auto simp: went_def intro: same_dict_trans)

lemma went_emit: "ready s \<Longrightarrow> went s [l] 0 (stk s) (emit l s)"
  by (simp add: went_def same_dict_def)

lemma wentD:
  "went s ls n cs t \<Longrightarrow> same_dict s t" "went s ls n cs t \<Longrightarrow> stk t = cs" "went s ls n cs t \<Longrightarrow> ready t"
  "went s ls n cs t \<Longrightarrow> unat (labeli t) = unat (labeli s) + n" "went s ls n cs t \<Longrightarrow> jsr t e = jsr s e"
  by (auto simp: went_def same_dict_def jsr_def)

lemma labeli_unat: "unat (labeli t) = unat (labeli s) \<Longrightarrow> labeli t = labeli s"
  by (simp add: word_unat_eq_iff)

lemma pull_went:
  assumes "ready s" and "stk s = cs @ [l]"
  obtains t where "pull_cntl s = Inr (l, t)" and "went s [] 0 cs t" and "labeli t = labeli s"
proof -
  from pull_ok [OF assms] obtain t where t: "pull_cntl s = Inr (l, t)" "stk t = cs" "ready t"
    and e: "t = s\<lparr>cp := cp t\<rparr>" by blast
  have "outp t = outp s" "labeli t = labeli s" "same_dict s t" "input t = input s"
    by (subst e, simp add: same_dict_def)+
  with t show ?thesis by (intro that [of t]) (simp_all add: went_def)
qed

lemma push_went:
  assumes "ready s" and "length (stk s) < 16"
  obtains t where "push_cntl l s = Inr ((), t)" and "went s [] 0 (stk s @ [l]) t"
proof -
  from push_ok [OF assms] obtain t where t: "push_cntl l s = Inr ((), t)" "stk t = stk s @ [l]" "ready t"
    and e: "t = s\<lparr>cstack := cstack t, cp := cp t\<rparr>" by blast
  have "outp t = outp s" "labeli t = labeli s" "same_dict s t" "input t = input s"
    by (subst e, simp add: same_dict_def)+
  with t show ?thesis by (intro that [of t]) (simp_all add: went_def)
qed

text \<open>The control words.\<close>

lemma doif_ok:
  assumes "ready s" and "length (stk s) < 16" and "unat (labeli s) < 65535" and "zbra s \<noteq> None"
  shows "\<exists>t. doif s = Inr ((), t) \<and> went s [jsr s (zbra s), Operand (labeli s)] 1 (stk s @ [labeli s]) t"
proof -
  let ?s = "emit (jsr s (zbra s)) s"
  have "ready ?s" "length (stk ?s) < 16" "unat (labeli ?s) < 65535" using assms by simp_all
  then obtain t where "forward ?s = Inr ((), t)" "went ?s [Operand (labeli ?s)] 1 (stk ?s @ [labeli ?s]) t"
    by (rule forward_ok)
  with went_trans [OF went_emit [OF assms(1)] this(2)] assms(4) show ?thesis
    by (simp add: doif_def comp_entry_ok)
qed

lemma dothen_ok:
  assumes "ready s" and "stk s = cs @ [l]"
  shows "\<exists>t. dothen s = Inr ((), t) \<and> went s [Label l] 0 cs t"
proof -
  from pull_went [OF assms] obtain t where t: "pull_cntl s = Inr (l, t)" "went s [] 0 cs t" by blast
  from went_trans [OF t(2) went_emit [OF wentD(3) [OF t(2)]]] wentD(2) [OF t(2)] t(1) show ?thesis
    by (simp add: dothen_def)
qed

lemma dobegin_ok:
  assumes "ready s" and "length (stk s) < 16" and "unat (labeli s) < 65535"
  shows "\<exists>t. dobegin s = Inr ((), t) \<and> went s [Label (labeli s)] 1 (stk s @ [labeli s]) t"
proof -
  let ?s = "(emit (Label (labeli s)) s)\<lparr>labeli := labeli s + 1\<rparr>"
  have w: "went s [Label (labeli s)] 1 (stk s) ?s"
    using assms(1,3) unat_new [of s 0] by (simp add: went_def same_dict_def)
  have "ready ?s" "length (stk ?s) < 16" using assms by simp_all
  then obtain t where "push_cntl (labeli s) ?s = Inr ((), t)" "went ?s [] 0 (stk ?s @ [labeli s]) t" by (rule push_went)
  with went_trans [OF w this(2)] show ?thesis by (simp add: dobegin_def new_label_def)
qed

lemma jump_back_ok:
  assumes "ready s" and "stk s = cs @ [l]" and "e \<noteq> None"
  shows "\<exists>t. rbind (comp_entry e s) (\<lambda>(_, s1). rbind (pull_cntl s1) (\<lambda>(l, s2). Inr ((), emit (Operand l) s2))) = Inr ((), t)
    \<and> went s [jsr s e, Operand l] 0 cs t"
proof -
  have "ready (emit (jsr s e) s)" "stk (emit (jsr s e) s) = cs @ [l]" using assms by simp_all
  then obtain t where t: "pull_cntl (emit (jsr s e) s) = Inr (l, t)" "went (emit (jsr s e) s) [] 0 cs t"
    by (rule pull_went)
  note w = went_trans [OF went_emit [OF assms(1)] t(2)]
  from went_trans [OF w went_emit [OF wentD(3) [OF w]]] wentD(2) [OF w] t(1) assms(3) show ?thesis
    by (simp add: comp_entry_ok)
qed

lemma dountil_ok:
  "ready s \<Longrightarrow> stk s = cs @ [l] \<Longrightarrow> zbra s \<noteq> None \<Longrightarrow>
   \<exists>t. dountil s = Inr ((), t) \<and> went s [jsr s (zbra s), Operand l] 0 cs t"
  unfolding dountil_def by (rule jump_back_ok)

lemma doagain_ok:
  "ready s \<Longrightarrow> stk s = cs @ [l] \<Longrightarrow> bra s \<noteq> None \<Longrightarrow>
   \<exists>t. doagain s = Inr ((), t) \<and> went s [jsr s (bra s), Operand l] 0 cs t"
  unfolding doagain_def by (rule jump_back_ok)

lemma jump_end_ok:
  assumes "ready s" and "stk s = cs @ [m, l]" and "bra s \<noteq> None"
  shows "\<exists>t. rbind (doagain s) (\<lambda>(_, s1). rbind (pull_cntl s1) (\<lambda>(l, s2). Inr ((), emit (Label l) s2))) = Inr ((), t)
    \<and> went s [jsr s (bra s), Operand l, Label m] 0 cs t"
proof -
  have "stk s = (cs @ [m]) @ [l]" using assms(2) by simp
  from doagain_ok [OF assms(1) this assms(3)] obtain t where
    t: "doagain s = Inr ((), t)" "went s [jsr s (bra s), Operand l] 0 (cs @ [m]) t" by blast
  from dothen_ok [OF wentD(3) [OF t(2)] wentD(2) [OF t(2)]] obtain u where
    u: "dothen t = Inr ((), u)" "went t [Label m] 0 cs u" by blast
  from went_trans [OF t(2) u(2)] t(1) u(1) show ?thesis by (simp add: dothen_def)
qed

lemma dorepeat_ok:
  "ready s \<Longrightarrow> stk s = cs @ [m, l] \<Longrightarrow> bra s \<noteq> None \<Longrightarrow>
   \<exists>t. dorepeat s = Inr ((), t) \<and> went s [jsr s (bra s), Operand l, Label m] 0 cs t"
  unfolding dorepeat_def by (rule jump_end_ok)

lemma donext_ok:
  "ready s \<Longrightarrow> stk s = cs @ [m, l] \<Longrightarrow> bra s \<noteq> None \<Longrightarrow>
   \<exists>t. donext s = Inr ((), t) \<and> went s [jsr s (bra s), Operand l, Label m] 0 cs t"
  unfolding donext_def dothen_def by (rule jump_end_ok)

lemma doelse_ok:
  assumes "ready s" and "stk s = cs @ [l]" and "unat (labeli s) < 65535" and "bra s \<noteq> None"
  shows "\<exists>t. doelse s = Inr ((), t)
    \<and> went s [jsr s (bra s), Operand (labeli s), Label l] 1 (cs @ [labeli s]) t"
proof -
  from pull_went [OF assms(1,2)] obtain t where
    t: "pull_cntl s = Inr (l, t)" "went s [] 0 cs t" "labeli t = labeli s" by blast
  have cs: "length cs < 16" using assms(1,2) length_stk [OF assms(1)] by (simp add: ready_def)
  have b: "bra t = bra s" "jsr t e = jsr s e" for e
    using same_dictD [OF wentD(1) [OF t(2)]] wentD(5) [OF t(2)] by simp_all
  let ?t = "emit (jsr s (bra s)) t"
  note w = went_trans [OF t(2) went_emit [OF wentD(3) [OF t(2)], of "jsr s (bra s)"]]
  have "ready ?t" "length (stk ?t) < 16" "unat (labeli ?t) < 65535"
    using wentD [OF w] cs assms(3) wentD(2,3) [OF t(2)] by simp_all
  then obtain u where u: "forward ?t = Inr ((), u)" "went ?t [Operand (labeli ?t)] 1 (stk ?t @ [labeli ?t]) u"
    by (rule forward_ok)
  note w = went_trans [OF went_trans [OF w u(2)] went_emit [OF wentD(3) [OF u(2)], of "Label l"]]
  show ?thesis
    using w t(1,3) u assms(4) b wentD(2) [OF t(2)] wentD(2) [OF u(2)]
    by (simp add: doelse_def comp_entry_ok)
qed

lemma dowhile_ok:
  assumes "ready s" and "stk s = cs @ [l]" and "length cs < 15" and "unat (labeli s) < 65535" and "zbra s \<noteq> None"
  shows "\<exists>t. dowhile s = Inr ((), t)
    \<and> went s [jsr s (zbra s), Operand (labeli s)] 1 (cs @ [labeli s, l]) t"
proof -
  from pull_went [OF assms(1,2)] obtain t where
    t: "pull_cntl s = Inr (l, t)" "went s [] 0 cs t" "labeli t = labeli s" by blast
  have b: "zbra t = zbra s" "jsr t e = jsr s e" for e
    using same_dictD [OF wentD(1) [OF t(2)]] wentD(5) [OF t(2)] by simp_all
  let ?t = "emit (jsr s (zbra s)) t"
  note w = went_trans [OF t(2) went_emit [OF wentD(3) [OF t(2)], of "jsr s (zbra s)"]]
  have "ready ?t" "length (stk ?t) < 16" "unat (labeli ?t) < 65535"
    using wentD [OF w] assms(3,4) wentD(2,3) [OF t(2)] by simp_all
  then obtain u where u: "forward ?t = Inr ((), u)" "went ?t [Operand (labeli ?t)] 1 (stk ?t @ [labeli ?t]) u"
    by (rule forward_ok)
  have "length (stk u) < 16" using wentD(2) [OF u(2)] wentD(2) [OF t(2)] assms(3) by simp
  from push_went [OF wentD(3) [OF u(2)] this, of l] obtain v where
    v: "push_cntl l u = Inr ((), v)" "went u [] 0 (stk u @ [l]) v" by blast
  show ?thesis
    using went_trans [OF went_trans [OF w u(2)] v(2)] t(1,3) u(1) v(1) assms(5) b wentD(2) [OF t(2)] wentD(2) [OF u(2)]
    by (simp add: dowhile_def comp_entry_ok)
qed

lemma dodofor_ok:
  assumes "ready s" and "length (stk s) < 15" and "unat (labeli s) < 65534" and "push s \<noteq> None" and "dofor s \<noteq> None"
  shows "\<exists>t. dodofor s = Inr ((), t)
    \<and> went s [jsr s (push s), Label (labeli s), jsr s (dofor s), Operand (labeli s + 1)] 2
        (stk s @ [labeli s + 1, labeli s]) t"
proof -
  let ?s = "s\<lparr>labeli := labeli s + 1\<rparr>"
  let ?t = "emit (jsr s (dofor s)) (emit (Label (labeli s)) (emit (jsr s (push s)) ?s))"
  have n: "unat (labeli s + 1) = Suc (unat (labeli s))" using assms(3) unat_new [of s 0] by simp
  have w: "went s [jsr s (push s), Label (labeli s), jsr s (dofor s)] 1 (stk s) ?t"
    using assms(1) n by (simp add: went_def same_dict_def)
  have "ready ?t" "length (stk ?t) < 16" "unat (labeli ?t) < 65535" using assms n by simp_all
  then obtain u where u: "forward ?t = Inr ((), u)" "went ?t [Operand (labeli ?t)] 1 (stk ?t @ [labeli ?t]) u"
    by (rule forward_ok)
  have "length (stk u) < 16" using wentD(2) [OF u(2)] assms(2) by simp
  from push_went [OF wentD(3) [OF u(2)] this, of "labeli s"] obtain v where
    v: "push_cntl (labeli s) u = Inr ((), v)" "went u [] 0 (stk u @ [labeli s]) v" by blast
  show ?thesis
    using went_trans [OF went_trans [OF w u(2)] v(2)] u(1) v(1) assms(4,5) wentD(2) [OF u(2)]
    by (simp add: dodofor_def new_label_def comp_entry_ok numeral_2_eq_2)
qed

text \<open>\<open>does\<close>: compiling from \<open>s\<close> on comes to a state with more output and the input \<open>i\<close> left.\<close>

definition does :: "bfc \<Rightarrow> line list \<Rightarrow> nat \<Rightarrow> u16 list \<Rightarrow> bytes \<Rightarrow> bool" where
  "does s ls n cs i \<longleftrightarrow> (\<exists>t. process_file s = process_file t \<and> went (s\<lparr>input := i\<rparr>) ls n cs t)"

lemma does_nil: "ready s \<Longrightarrow> does s [] 0 (stk s) (input s)"
  by (auto simp: does_def went_def same_dict_def intro!: exI [of _ s])

lemma does_then:
  assumes "does s ls n cs i" and "\<And>t. went (s\<lparr>input := i\<rparr>) ls n cs t \<Longrightarrow> does t ls' n' cs' j"
  shows "does s (ls @ ls') (n + n') cs' j"
proof -
  from assms(1) obtain t where t: "process_file s = process_file t" "went (s\<lparr>input := i\<rparr>) ls n cs t"
    by (auto simp: does_def)
  from assms(2) [OF t(2)] obtain u where
    u: "process_file t = process_file u" "went (t\<lparr>input := j\<rparr>) ls' n' cs' u" by (auto simp: does_def)
  have "went (s\<lparr>input := j\<rparr>) ls n cs (t\<lparr>input := j\<rparr>)" using t(2) by (simp add: went_def same_dict_def)
  from went_trans [OF this u(2)] t(1) u(1) show ?thesis by (auto simp: does_def)
qed

lemma does_token:
  assumes "input s = w @ 32 # i" and "plain_word w"
    and "process_word (s\<lparr>wordb := w, input := i\<rparr>) = r"
    and "\<exists>t. r = Inr ((), t) \<and> went (s\<lparr>wordb := w, input := i\<rparr>) ls n cs t"
  shows "does s ls n cs i"
proof -
  from assms(4) obtain t where t: "r = Inr ((), t)" "went (s\<lparr>wordb := w, input := i\<rparr>) ls n cs t" by blast
  have "process_file s = process_file t" using assms(3) t(1) by (intro process_token [OF assms(2,1)]) simp
  moreover have "went (s\<lparr>input := i\<rparr>) ls n cs t" using t(2) by (simp add: went_def same_dict_def)
  ultimately show ?thesis by (auto simp: does_def)
qed

lemma process_keywords:
  "wordb s = str ''if'' \<Longrightarrow> process_word s = doif s" "wordb s = str ''then'' \<Longrightarrow> process_word s = dothen s"
  "wordb s = str ''begin'' \<Longrightarrow> process_word s = dobegin s" "wordb s = str ''until'' \<Longrightarrow> process_word s = dountil s"
  "wordb s = str ''while'' \<Longrightarrow> process_word s = dowhile s" "wordb s = str ''repeat'' \<Longrightarrow> process_word s = dorepeat s"
  "wordb s = str ''else'' \<Longrightarrow> process_word s = doelse s" "wordb s = str ''for'' \<Longrightarrow> process_word s = dodofor s"
  "wordb s = str ''next'' \<Longrightarrow> process_word s = donext s"
  by (simp_all add: process_word_def str_def c_str_def Let_def)

lemma plain_keywords [simp]:
  "plain_word (str ''if'')" "plain_word (str ''then'')" "plain_word (str ''begin'')" "plain_word (str ''until'')"
  "plain_word (str ''while'')" "plain_word (str ''repeat'')" "plain_word (str ''else'')" "plain_word (str ''for'')"
  "plain_word (str ''next'')"
  by (simp_all add: plain_word_def str_def isfblank_def)

definition dict_ok :: "bfc \<Rightarrow> bool" where
  "dict_ok s \<longleftrightarrow> dp s \<le> unat (labeli s) \<and> (\<forall>i\<ge>dp s. entry_str (dict s) i = [])"

lemma findentry_lookup:
  assumes "dict_ok s" and "unat (labeli s) \<le> 256" and "wordb s = w" and "c_str w = w" and "w \<noteq> []"
  shows "findentry s = Inr (lookup s w, s)"
proof -
  let ?P = "\<lambda>i. entry_str (dict s) i = w"
  have "rev [0..<unat (labeli s)] = rev [dp s..<unat (labeli s)] @ rev [0..<dp s]"
    using assms(1) upt_add_eq_append [of 0 "dp s" "unat (labeli s) - dp s"]
    by (simp add: dict_ok_def flip: rev_append)
  moreover have "List.find ?P (rev [dp s..<unat (labeli s)] @ xs) = List.find ?P xs" for xs
  proof -
    have "List.find ?P (ys @ xs) = List.find ?P xs" if "\<forall>i \<in> set ys. \<not> ?P i" for ys using that by (induction ys) auto
    then show ?thesis using assms(1,5) by (auto simp: dict_ok_def)
  qed
  ultimately show ?thesis using assms by (simp add: findentry_def lookup_def)
qed

lemma process_plain:
  "c_str (wordb s) \<notin> set host_words \<Longrightarrow> process_word s = compile_word s"
  by (simp add: process_word_def host_words_def Let_def)

lemma lookup_cong [simp]: "lookup (s\<lparr>wordb := w\<rparr>) x = lookup s x" "lookup (s\<lparr>input := i\<rparr>) x = lookup s x"
  "dict_ok (s\<lparr>wordb := w\<rparr>) = dict_ok s" "dict_ok (s\<lparr>input := i\<rparr>) = dict_ok s"
  by (simp_all add: lookup_def dict_ok_def)

lemma does_call:
  assumes "fits s (Call w)" and "ready s" and "dict_ok s" and "unat (labeli s) \<le> 256" and "input s = w @ 32 # i"
  shows "does s [jsr s (lookup s w)] 0 (stk s) i"
proof -
  let ?s = "s\<lparr>wordb := w, input := i\<rparr>"
  from assms(1) have w: "plain_word w" "w \<notin> set host_words" "lookup s w \<noteq> None" by auto
  have c: "c_str w = w" by (rule take_token(2) [OF w(1) assms(5)])
  have ne: "w \<noteq> []" using w(1) by (auto simp: plain_word_def)
  have "findentry ?s = Inr (lookup ?s w, ?s)"
    by (rule findentry_lookup) (use assms c ne in simp_all)
  then have "process_word ?s = Inr ((), emit (jsr s (lookup s w)) ?s)"
    using w c by (auto simp: process_plain compile_word_def comp_entry_ok)
  then show ?thesis
    using assms(2) by (intro does_token [OF assms(5) w(1)]) (auto simp: went_def same_dict_def)
qed

lemma does_num:
  assumes "fits s (Num w)" and "ready s" and "dict_ok s" and "unat (labeli s) \<le> 256" and "input s = w @ 32 # i"
  shows "does s [jsr s (lit s), Cell (word_of_int (fst (strtol0 w)))] 0 (stk s) i"
proof -
  let ?s = "s\<lparr>wordb := w, input := i\<rparr>"
  from assms(1) have w: "plain_word w" "w \<notin> set host_words" "lookup s w = None" "snd (strtol0 w) = []" "lit s \<noteq> None"
    by auto
  have c: "c_str w = w" by (rule take_token(2) [OF w(1) assms(5)])
  have ne: "w \<noteq> []" using w(1) by (auto simp: plain_word_def)
  have "findentry ?s = Inr (lookup ?s w, ?s)"
    by (rule findentry_lookup) (use assms c ne in simp_all)
  then have "process_word ?s = Inr ((), emit (Cell (word_of_int (fst (strtol0 w)))) (emit (jsr s (lit s)) ?s))"
    using w c assms(2) by (auto simp: process_plain compile_word_def comp_entry_ok ready_def comp_int_def split: prod.split)
  then show ?thesis
    using assms(2) by (intro does_token [OF assms(5) w(1)]) (auto simp: went_def same_dict_def)
qed

text \<open>All of a command.\<close>

lemma lab_labeli: "unat (labeli t) = n \<Longrightarrow> labeli t = lab n"
  by auto

lemma dict_ok_went: "went s ls n cs t \<Longrightarrow> dict_ok s \<Longrightarrow> dict_ok t"
  by (auto simp: went_def same_dict_def dict_ok_def)

lemma source_simps [simp]:
  "source Skip = []" "source (Call w) = w @ [32]" "source (Num w) = w @ [32]"
  "source (Seq c d) = source c @ source d"
  "source (If c) = str ''if'' @ 32 # source c @ str ''then'' @ [32]"
  "source (IfElse c d) = str ''if'' @ 32 # source c @ str ''else'' @ 32 # source d @ str ''then'' @ [32]"
  "source (Until c) = str ''begin'' @ 32 # source c @ str ''until'' @ [32]"
  "source (While c d) = str ''begin'' @ 32 # source c @ str ''while'' @ 32 # source d @ str ''repeat'' @ [32]"
  "source (For c) = str ''for'' @ 32 # source c @ str ''next'' @ [32]"
  by (simp_all add: source_def)

text \<open>The facts about the state in the middle of a command.\<close>

lemma midD:
  assumes "went (s\<lparr>input := i\<rparr>) ls n cs t" and "dict_ok s"
  shows "ready t" "stk t = cs" "dict_ok t" "unat (labeli t) = unat (labeli s) + n" "input t = i"
    "fits t c = fits s c" "code t c k = code s c k" "jsr t e = jsr s e" "zbra t = zbra s" "bra t = bra s"
proof -
  have d: "same_dict s t" using assms(1) by (simp add: went_def same_dict_def)
  show "fits t c = fits s c" "code t c k = code s c k" using d by (simp_all add: fits_cong code_cong)
  show "jsr t e = jsr s e" "zbra t = zbra s" "bra t = bra s" using same_dictD [OF d] by (simp_all add: jsr_def)
  show "dict_ok t" using assms by (auto simp: went_def same_dict_def dict_ok_def)
qed (use assms in \<open>simp_all add: went_def\<close>)

lemma does_kw:
  assumes "does s ls n cs (w @ 32 # i)" and "dict_ok s" and "plain_word w"
    and "\<And>u. ready u \<Longrightarrow> stk u = cs \<Longrightarrow> labeli u = lab (unat (labeli s) + n) \<Longrightarrow> unat (labeli u) = unat (labeli s) + n \<Longrightarrow>
      same_dict s u \<Longrightarrow> wordb u = w \<Longrightarrow> \<exists>t. process_word u = Inr ((), t) \<and> went u ls' n' cs' t"
  shows "does s (ls @ ls') (n + n') cs' i"
  using assms(1)
proof (rule does_then)
  fix t assume t: "went (s\<lparr>input := w @ 32 # i\<rparr>) ls n cs t"
  note m = midD [OF t assms(2)]
  let ?u = "t\<lparr>wordb := w, input := i\<rparr>"
  have "same_dict s ?u" using t by (simp add: went_def same_dict_def)
  with m assms(4) [of ?u] have "\<exists>v. process_word ?u = Inr ((), v) \<and> went ?u ls' n' cs' v"
    using lab_labeli [of t] by simp
  then show "does t ls' n' cs' i" by (intro does_token [OF m(5) assms(3)]) auto
qed

definition compiled :: "com \<Rightarrow> bool" where
  "compiled c \<longleftrightarrow> (\<forall>s i. fits s c \<and> ready s \<and> dict_ok s \<and> unat (labeli s) + labels c \<le> 256
     \<and> length (stk s) + depth c \<le> 16 \<and> input s = source c @ i \<longrightarrow>
     does s (code s c (unat (labeli s))) (labels c) (stk s) i)"

lemma does_com:
  assumes "does s ls n cs (source c @ i)" and "dict_ok s" and "compiled c"
    and "fits s c" and "unat (labeli s) + n + labels c \<le> 256" and "length cs + depth c \<le> 16"
  shows "does s (ls @ code s c (unat (labeli s) + n)) (n + labels c) cs i"
  using assms(1)
proof (rule does_then)
  fix t assume t: "went (s\<lparr>input := source c @ i\<rparr>) ls n cs t"
  note m = midD [OF t assms(2)]
  show "does t (code s c (unat (labeli s) + n)) (labels c) cs i"
    using assms(3) [unfolded compiled_def, rule_format, of t i] m assms(4-6) by simp
qed

lemma same_dict_kw:
  assumes "same_dict s u"
  shows "zbra u = zbra s" "bra u = bra s" "push u = push s" "dofor u = dofor s" "jsr u e = jsr s e"
  using same_dictD [OF assms] by (simp_all add: jsr_def)

lemma if_kw:
  assumes "does s ls n cs (str ''if'' @ 32 # i)" and "dict_ok s" and "zbra s \<noteq> None" and "length cs < 16"
    and "unat (labeli s) + n < 65535"
  shows "does s (ls @ [jsr s (zbra s), Operand (lab (unat (labeli s) + n))]) (n + 1) (cs @ [lab (unat (labeli s) + n)]) i"
proof -
  have "does s (ls @ [jsr s (zbra s), Operand (lab (unat (labeli s) + n))]) (n + 1) (cs @ [lab (unat (labeli s) + n)]) i"
  proof (rule does_kw [OF assms(1,2)])
    fix u assume u: "ready u" "stk u = cs" "labeli u = lab (unat (labeli s) + n)"
      "unat (labeli u) = unat (labeli s) + n" "same_dict s u" "wordb u = str ''if''"
    show "\<exists>t. process_word u = Inr ((), t) \<and> went u [jsr s (zbra s), Operand (lab (unat (labeli s) + n))] 1 (cs @ [lab (unat (labeli s) + n)]) t"
      unfolding process_keywords(1) [OF u(6)] u(3) [symmetric]
      using doif_ok [of u] u(1,2,4) assms(3-) by (simp add: same_dict_kw [OF u(5)])
  qed simp
  then show ?thesis by simp
qed

lemma then_kw:
  assumes "does s ls n (cs @ [l]) (str ''then'' @ 32 # i)" and "dict_ok s"
  shows "does s (ls @ [Label l]) n cs i"
proof -
  have "does s (ls @ [Label l]) (n + 0) cs i"
  proof (rule does_kw [OF assms(1,2)])
    fix u assume u: "ready u" "stk u = cs @ [l]" "labeli u = lab (unat (labeli s) + n)"
      "unat (labeli u) = unat (labeli s) + n" "same_dict s u" "wordb u = str ''then''"
    show "\<exists>t. process_word u = Inr ((), t) \<and> went u [Label l] 0 cs t"
      unfolding process_keywords(2) [OF u(6)] u(3) [symmetric]
      using dothen_ok [of u cs l] u(1,2,4) by (simp add: same_dict_kw [OF u(5)])
  qed simp
  then show ?thesis by simp
qed

lemma begin_kw:
  assumes "does s ls n cs (str ''begin'' @ 32 # i)" and "dict_ok s" and "length cs < 16"
    and "unat (labeli s) + n < 65535"
  shows "does s (ls @ [Label (lab (unat (labeli s) + n))]) (n + 1) (cs @ [lab (unat (labeli s) + n)]) i"
proof -
  have "does s (ls @ [Label (lab (unat (labeli s) + n))]) (n + 1) (cs @ [lab (unat (labeli s) + n)]) i"
  proof (rule does_kw [OF assms(1,2)])
    fix u assume u: "ready u" "stk u = cs" "labeli u = lab (unat (labeli s) + n)"
      "unat (labeli u) = unat (labeli s) + n" "same_dict s u" "wordb u = str ''begin''"
    show "\<exists>t. process_word u = Inr ((), t) \<and> went u [Label (lab (unat (labeli s) + n))] 1 (cs @ [lab (unat (labeli s) + n)]) t"
      unfolding process_keywords(3) [OF u(6)] u(3) [symmetric]
      using dobegin_ok [of u] u(1,2,4) assms(3-) by (simp add: same_dict_kw [OF u(5)])
  qed simp
  then show ?thesis by simp
qed

lemma until_kw:
  assumes "does s ls n (cs @ [l]) (str ''until'' @ 32 # i)" and "dict_ok s" and "zbra s \<noteq> None"
  shows "does s (ls @ [jsr s (zbra s), Operand l]) n cs i"
proof -
  have "does s (ls @ [jsr s (zbra s), Operand l]) (n + 0) cs i"
  proof (rule does_kw [OF assms(1,2)])
    fix u assume u: "ready u" "stk u = cs @ [l]" "labeli u = lab (unat (labeli s) + n)"
      "unat (labeli u) = unat (labeli s) + n" "same_dict s u" "wordb u = str ''until''"
    show "\<exists>t. process_word u = Inr ((), t) \<and> went u [jsr s (zbra s), Operand l] 0 cs t"
      unfolding process_keywords(4) [OF u(6)] u(3) [symmetric]
      using dountil_ok [of u cs l] u(1,2,4) assms(3-) by (simp add: same_dict_kw [OF u(5)])
  qed simp
  then show ?thesis by simp
qed

lemma else_kw:
  assumes "does s ls n (cs @ [l]) (str ''else'' @ 32 # i)" and "dict_ok s" and "bra s \<noteq> None"
    and "unat (labeli s) + n < 65535"
  shows "does s (ls @ [jsr s (bra s), Operand (lab (unat (labeli s) + n)), Label l]) (n + 1)
    (cs @ [lab (unat (labeli s) + n)]) i"
proof -
  have "does s (ls @ [jsr s (bra s), Operand (lab (unat (labeli s) + n)), Label l]) (n + 1) (cs @ [lab (unat (labeli s) + n)]) i"
  proof (rule does_kw [OF assms(1,2)])
    fix u assume u: "ready u" "stk u = cs @ [l]" "labeli u = lab (unat (labeli s) + n)"
      "unat (labeli u) = unat (labeli s) + n" "same_dict s u" "wordb u = str ''else''"
    show "\<exists>t. process_word u = Inr ((), t) \<and> went u [jsr s (bra s), Operand (lab (unat (labeli s) + n)), Label l] 1 (cs @ [lab (unat (labeli s) + n)]) t"
      unfolding process_keywords(7) [OF u(6)] u(3) [symmetric]
      using doelse_ok [of u cs l] u(1,2,4) assms(3-) by (simp add: same_dict_kw [OF u(5)])
  qed simp
  then show ?thesis by simp
qed

lemma while_kw:
  assumes "does s ls n (cs @ [l]) (str ''while'' @ 32 # i)" and "dict_ok s" and "zbra s \<noteq> None" and "length cs < 15"
    and "unat (labeli s) + n < 65535"
  shows "does s (ls @ [jsr s (zbra s), Operand (lab (unat (labeli s) + n))]) (n + 1)
    (cs @ [lab (unat (labeli s) + n), l]) i"
proof -
  have "does s (ls @ [jsr s (zbra s), Operand (lab (unat (labeli s) + n))]) (n + 1) (cs @ [lab (unat (labeli s) + n), l]) i"
  proof (rule does_kw [OF assms(1,2)])
    fix u assume u: "ready u" "stk u = cs @ [l]" "labeli u = lab (unat (labeli s) + n)"
      "unat (labeli u) = unat (labeli s) + n" "same_dict s u" "wordb u = str ''while''"
    show "\<exists>t. process_word u = Inr ((), t) \<and> went u [jsr s (zbra s), Operand (lab (unat (labeli s) + n))] 1 (cs @ [lab (unat (labeli s) + n), l]) t"
      unfolding process_keywords(5) [OF u(6)] u(3) [symmetric]
      using dowhile_ok [of u cs l] u(1,2,4) assms(3-) by (simp add: same_dict_kw [OF u(5)])
  qed simp
  then show ?thesis by simp
qed

lemma repeat_kw:
  assumes "does s ls n (cs @ [m, l]) (str ''repeat'' @ 32 # i)" and "dict_ok s" and "bra s \<noteq> None"
  shows "does s (ls @ [jsr s (bra s), Operand l, Label m]) n cs i"
proof -
  have "does s (ls @ [jsr s (bra s), Operand l, Label m]) (n + 0) cs i"
  proof (rule does_kw [OF assms(1,2)])
    fix u assume u: "ready u" "stk u = cs @ [m, l]" "labeli u = lab (unat (labeli s) + n)"
      "unat (labeli u) = unat (labeli s) + n" "same_dict s u" "wordb u = str ''repeat''"
    show "\<exists>t. process_word u = Inr ((), t) \<and> went u [jsr s (bra s), Operand l, Label m] 0 cs t"
      unfolding process_keywords(6) [OF u(6)] u(3) [symmetric]
      using dorepeat_ok [of u cs m l] u(1,2,4) assms(3-) by (simp add: same_dict_kw [OF u(5)])
  qed simp
  then show ?thesis by simp
qed

lemma next_kw:
  assumes "does s ls n (cs @ [m, l]) (str ''next'' @ 32 # i)" and "dict_ok s" and "bra s \<noteq> None"
  shows "does s (ls @ [jsr s (bra s), Operand l, Label m]) n cs i"
proof -
  have "does s (ls @ [jsr s (bra s), Operand l, Label m]) (n + 0) cs i"
  proof (rule does_kw [OF assms(1,2)])
    fix u assume u: "ready u" "stk u = cs @ [m, l]" "labeli u = lab (unat (labeli s) + n)"
      "unat (labeli u) = unat (labeli s) + n" "same_dict s u" "wordb u = str ''next''"
    show "\<exists>t. process_word u = Inr ((), t) \<and> went u [jsr s (bra s), Operand l, Label m] 0 cs t"
      unfolding process_keywords(9) [OF u(6)] u(3) [symmetric]
      using donext_ok [of u cs m l] u(1,2,4) assms(3-) by (simp add: same_dict_kw [OF u(5)])
  qed simp
  then show ?thesis by simp
qed

lemma for_kw:
  assumes "does s ls n cs (str ''for'' @ 32 # i)" and "dict_ok s" and "push s \<noteq> None" and "dofor s \<noteq> None"
    and "length cs < 15" and "unat (labeli s) + n < 65534"
  shows "does s (ls @ [jsr s (push s), Label (lab (unat (labeli s) + n)), jsr s (dofor s),
      Operand (lab (Suc (unat (labeli s) + n)))]) (n + 2)
    (cs @ [lab (Suc (unat (labeli s) + n)), lab (unat (labeli s) + n)]) i"
proof -
  have "does s (ls @ [jsr s (push s), Label (lab (unat (labeli s) + n)), jsr s (dofor s), Operand (lab (Suc (unat (labeli s) + n)))]) (n + 2) (cs @ [lab (Suc (unat (labeli s) + n)), lab (unat (labeli s) + n)]) i"
  proof (rule does_kw [OF assms(1,2)])
    fix u assume u: "ready u" "stk u = cs" "labeli u = lab (unat (labeli s) + n)"
      "unat (labeli u) = unat (labeli s) + n" "same_dict s u" "wordb u = str ''for''"
    have e: "lab (Suc (unat (labeli s) + n)) = labeli u + 1" by (simp add: u(3))
    show "\<exists>t. process_word u = Inr ((), t) \<and> went u [jsr s (push s), Label (lab (unat (labeli s) + n)), jsr s (dofor s), Operand (lab (Suc (unat (labeli s) + n)))] 2 (cs @ [lab (Suc (unat (labeli s) + n)), lab (unat (labeli s) + n)]) t"
      unfolding process_keywords(8) [OF u(6)] e u(3) [symmetric]
      using dodofor_ok [of u] u(1,2,4) assms(3-) by (simp add: same_dict_kw [OF u(5)])
  qed simp
  then show ?thesis by simp
qed

lemma compiles: "compiled c"
proof (induction c)
  case Skip
  then show ?case using does_nil by (auto simp: compiled_def)
next
  case (Call w)
  then show ?case using does_call by (simp add: compiled_def)
next
  case (Num w)
  then show ?case using does_num by (simp add: compiled_def)
next
  case (Seq c d)
  show ?case
    unfolding compiled_def
  proof (intro allI impI, elim conjE)
    fix s i
    assume f: "fits s (Seq c d)" and r: "ready s" and d: "dict_ok s" and n: "unat (labeli s) + labels (Seq c d) \<le> 256"
      and k: "length (stk s) + depth (Seq c d) \<le> 16" and i: "input s = source (Seq c d) @ i"
    from does_nil [OF r] have "does s [] 0 (stk s) (source (Seq c d) @ i)" by (simp only: i)
    note h = this [unfolded source_simps append_assoc append_Cons append_Nil]
    note h = does_com [OF h d Seq.IH(1)]
    note h = does_com [OF h d Seq.IH(2)]
    show "does s (code s (Seq c d) (unat (labeli s))) (labels (Seq c d)) (stk s) i"
      using h f n k by simp
  qed
next
  case (If c)
  show ?case
    unfolding compiled_def
  proof (intro allI impI, elim conjE)
    fix s i
    assume f: "fits s (If c)" and r: "ready s" and d: "dict_ok s" and n: "unat (labeli s) + labels (If c) \<le> 256"
      and k: "length (stk s) + depth (If c) \<le> 16" and i: "input s = source (If c) @ i"
    from does_nil [OF r] have "does s [] 0 (stk s) (source (If c) @ i)" by (simp only: i)
    note h = this [unfolded source_simps append_assoc append_Cons append_Nil]
    note h = if_kw [OF h d]
    note h = does_com [OF h d If.IH]
    note h = then_kw [OF h d]
    show "does s (code s (If c) (unat (labeli s))) (labels (If c)) (stk s) i"
      using h f n k by simp
  qed
next
  case (IfElse c d)
  show ?case
    unfolding compiled_def
  proof (intro allI impI, elim conjE)
    fix s i
    assume f: "fits s (IfElse c d)" and r: "ready s" and d: "dict_ok s" and n: "unat (labeli s) + labels (IfElse c d) \<le> 256"
      and k: "length (stk s) + depth (IfElse c d) \<le> 16" and i: "input s = source (IfElse c d) @ i"
    from does_nil [OF r] have "does s [] 0 (stk s) (source (IfElse c d) @ i)" by (simp only: i)
    note h = this [unfolded source_simps append_assoc append_Cons append_Nil]
    note h = if_kw [OF h d]
    note h = does_com [OF h d IfElse.IH(1)]
    note h = else_kw [OF h d]
    note h = does_com [OF h d IfElse.IH(2)]
    note h = then_kw [OF h d]
    show "does s (code s (IfElse c d) (unat (labeli s))) (labels (IfElse c d)) (stk s) i"
      using h f n k by (simp add: Let_def)
  qed
next
  case (Until c)
  show ?case
    unfolding compiled_def
  proof (intro allI impI, elim conjE)
    fix s i
    assume f: "fits s (Until c)" and r: "ready s" and d: "dict_ok s" and n: "unat (labeli s) + labels (Until c) \<le> 256"
      and k: "length (stk s) + depth (Until c) \<le> 16" and i: "input s = source (Until c) @ i"
    from does_nil [OF r] have "does s [] 0 (stk s) (source (Until c) @ i)" by (simp only: i)
    note h = this [unfolded source_simps append_assoc append_Cons append_Nil]
    note h = begin_kw [OF h d]
    note h = does_com [OF h d Until.IH]
    note h = until_kw [OF h d]
    show "does s (code s (Until c) (unat (labeli s))) (labels (Until c)) (stk s) i"
      using h f n k by simp
  qed
next
  case (While c d)
  show ?case
    unfolding compiled_def
  proof (intro allI impI, elim conjE)
    fix s i
    assume f: "fits s (While c d)" and r: "ready s" and d: "dict_ok s" and n: "unat (labeli s) + labels (While c d) \<le> 256"
      and k: "length (stk s) + depth (While c d) \<le> 16" and i: "input s = source (While c d) @ i"
    from does_nil [OF r] have "does s [] 0 (stk s) (source (While c d) @ i)" by (simp only: i)
    note h = this [unfolded source_simps append_assoc append_Cons append_Nil]
    note h = begin_kw [OF h d]
    note h = does_com [OF h d While.IH(1)]
    note h = while_kw [OF h d]
    note h = does_com [OF h d While.IH(2)]
    note h = repeat_kw [OF h d]
    show "does s (code s (While c d) (unat (labeli s))) (labels (While c d)) (stk s) i"
      using h f n k by (simp add: Let_def)
  qed
next
  case (For c)
  show ?case
    unfolding compiled_def
  proof (intro allI impI, elim conjE)
    fix s i
    assume f: "fits s (For c)" and r: "ready s" and d: "dict_ok s" and n: "unat (labeli s) + labels (For c) \<le> 256"
      and k: "length (stk s) + depth (For c) \<le> 16" and i: "input s = source (For c) @ i"
    from does_nil [OF r] have "does s [] 0 (stk s) (source (For c) @ i)" by (simp only: i)
    note h = this [unfolded source_simps append_assoc append_Cons append_Nil]
    note h = for_kw [OF h d]
    note h = does_com [OF h d For.IH]
    note h = next_kw [OF h d]
    show "does s (code s (For c) (unat (labeli s))) (labels (For c)) (stk s) i"
      using h f n k by simp
  qed
qed

end
