(* ===== verification/Bfc_Run.thy ===== *)
theory Bfc_Run
  imports Bfc_Code
begin

text \<open>
  The meaning of structured Forth commands, the machine that executes the compiler's lines,
  and the proof that the code the compiler writes for a command does what the command means.
\<close>

section \<open>The machine\<close>

text \<open>
  What the words do to the machine's data: \<open>do_call r\<close> is the word with label \<open>r\<close>, \<open>do_num\<close>
  pushes a number, \<open>test\<close> takes the top of the stack and tells whether it was zero, \<open>count\<close>
  tells whether the loop counter was used up.
\<close>

record 'st machine =
  do_call :: "u16 \<Rightarrow> 'st \<Rightarrow> 'st"
  do_num :: "u16 \<Rightarrow> 'st \<Rightarrow> 'st"
  test :: "'st \<Rightarrow> bool \<times> 'st"
  count :: "'st \<Rightarrow> bool \<times> 'st"

fun deflab :: "line \<Rightarrow> u16 option" where
  "deflab (Label l) = Some l"
| "deflab (Entry l n) = Some l"
| "deflab _ = None"

definition addr :: "line list \<Rightarrow> u16 \<Rightarrow> nat" where
  "addr P l = length (takeWhile (\<lambda>x. deflab x \<noteq> Some l) P)"

definition operand :: "line list \<Rightarrow> nat \<Rightarrow> u16 option" where
  "operand P k = (if k < length P then (case P ! k of Operand l \<Rightarrow> Some l | _ \<Rightarrow> None) else None)"

definition cell :: "line list \<Rightarrow> nat \<Rightarrow> u16 option" where
  "cell P k = (if k < length P then (case P ! k of Cell v \<Rightarrow> Some v | _ \<Rightarrow> None) else None)"

definition is_word :: "bfc \<Rightarrow> nat option \<Rightarrow> u16 \<Rightarrow> bool" where
  "is_word s e r \<longleftrightarrow> (case e of None \<Rightarrow> False | Some i \<Rightarrow> ref (dict s ! i) = r)"

definition step :: "bfc \<Rightarrow> 'st machine \<Rightarrow> line list \<Rightarrow> nat \<times> 'st \<Rightarrow> (nat \<times> 'st) option" where
  "step s m P = (\<lambda>(k, st).
     if length P \<le> k then None
     else (case P ! k of
         Jsr r n \<Rightarrow>
           if is_word s (zbra s) r then
             (case operand P (k + 1) of None \<Rightarrow> None
              | Some l \<Rightarrow> (case test m st of (z, st') \<Rightarrow> Some (if z then addr P l else k + 2, st')))
           else if is_word s (bra s) r then
             (case operand P (k + 1) of None \<Rightarrow> None | Some l \<Rightarrow> Some (addr P l, st))
           else if is_word s (dofor s) r then
             (case operand P (k + 1) of None \<Rightarrow> None
              | Some l \<Rightarrow> (case count m st of (z, st') \<Rightarrow> Some (if z then addr P l else k + 2, st')))
           else if is_word s (lit s) r then
             (case cell P (k + 1) of None \<Rightarrow> None | Some v \<Rightarrow> Some (k + 2, do_num m v st))
           else Some (k + 1, do_call m r st)
       | Label l \<Rightarrow> Some (k + 1, st)
       | Entry l n \<Rightarrow> Some (k + 1, st)
       | _ \<Rightarrow> None))"

inductive steps :: "bfc \<Rightarrow> 'st machine \<Rightarrow> line list \<Rightarrow> nat \<times> 'st \<Rightarrow> nat \<times> 'st \<Rightarrow> bool" for s m P where
  steps_refl [intro!]: "steps s m P a a"
| steps_step: "step s m P a = Some b \<Longrightarrow> steps s m P b c \<Longrightarrow> steps s m P a c"

lemma steps_trans [trans]: "steps s m P a b \<Longrightarrow> steps s m P b c \<Longrightarrow> steps s m P a c"
  by (induction rule: steps.induct) (auto intro: steps_step)

lemma steps_one: "step s m P a = Some b \<Longrightarrow> steps s m P a b"
  by (rule steps_step [OF _ steps_refl])

section \<open>The meaning of commands\<close>

inductive run :: "bfc \<Rightarrow> 'st machine \<Rightarrow> com \<Rightarrow> 'st \<Rightarrow> 'st \<Rightarrow> bool"
  and loop :: "bfc \<Rightarrow> 'st machine \<Rightarrow> com \<Rightarrow> 'st \<Rightarrow> 'st \<Rightarrow> bool" for s m where
  run_skip: "run s m Skip a a"
| run_call: "run s m (Call w) a (do_call m (ref (dict s ! the (lookup s w))) a)"
| run_num: "run s m (Num w) a (do_num m (word_of_int (fst (strtol0 w))) a)"
| run_seq: "run s m c a b \<Longrightarrow> run s m d b e \<Longrightarrow> run s m (Seq c d) a e"
| run_if_true: "test m a = (False, b) \<Longrightarrow> run s m c b d \<Longrightarrow> run s m (If c) a d"
| run_if_false: "test m a = (True, b) \<Longrightarrow> run s m (If c) a b"
| run_else_true: "test m a = (False, b) \<Longrightarrow> run s m c b e \<Longrightarrow> run s m (IfElse c d) a e"
| run_else_false: "test m a = (True, b) \<Longrightarrow> run s m d b e \<Longrightarrow> run s m (IfElse c d) a e"
| run_until_end: "run s m c a b \<Longrightarrow> test m b = (False, d) \<Longrightarrow> run s m (Until c) a d"
| run_until_more: "run s m c a b \<Longrightarrow> test m b = (True, d) \<Longrightarrow> run s m (Until c) d e \<Longrightarrow> run s m (Until c) a e"
| run_while_end: "run s m c a b \<Longrightarrow> test m b = (True, e) \<Longrightarrow> run s m (While c d) a e"
| run_while_more: "run s m c a b \<Longrightarrow> test m b = (False, e) \<Longrightarrow> run s m d e f \<Longrightarrow> run s m (While c d) f g \<Longrightarrow>
    run s m (While c d) a g"
| run_for: "loop s m c (do_call m (ref (dict s ! the (push s))) a) b \<Longrightarrow> run s m (For c) a b"
| loop_end: "count m a = (True, b) \<Longrightarrow> loop s m c a b"
| loop_more: "count m a = (False, b) \<Longrightarrow> run s m c b d \<Longrightarrow> loop s m c d e \<Longrightarrow> loop s m c a e"

section \<open>Code inside a program\<close>

definition emb :: "line list \<Rightarrow> nat \<Rightarrow> line list \<Rightarrow> bool" where
  "emb P k ls \<longleftrightarrow> k + length ls \<le> length P \<and> take (length ls) (drop k P) = ls"

lemma emb_append: "emb P k (xs @ ys) \<longleftrightarrow> emb P k xs \<and> emb P (k + length xs) ys"
proof -
  have "take (length xs + length ys) (drop k P) = take (length xs) (drop k P) @ take (length ys) (drop (k + length xs) P)"
    by (simp add: take_add add.commute)
  moreover have "length (take (length xs) (drop k P)) = length xs" if "k + length xs \<le> length P" using that by simp
  ultimately show ?thesis by (auto simp: emb_def)
qed

lemma emb_Cons: "emb P k (x # xs) \<longleftrightarrow> k < length P \<and> P ! k = x \<and> emb P (Suc k) xs"
proof -
  have "emb P k [x] \<longleftrightarrow> k < length P \<and> P ! k = x"
    by (auto simp: emb_def take_Suc_conv_app_nth hd_drop_conv_nth take_Suc)
  then show ?thesis using emb_append [of P k "[x]" xs] by auto
qed

lemma emb_Nil: "emb P k [] \<longleftrightarrow> k \<le> length P"
  by (simp add: emb_def)

lemma emb_here: "emb (A @ ls @ B) (length A) ls"
  by (simp add: emb_def)

definition labels_once :: "line list \<Rightarrow> bool" where
  "labels_once P \<longleftrightarrow> distinct (List.map_filter deflab P)"

lemma map_filter_append [simp]: "List.map_filter f (xs @ ys) = List.map_filter f xs @ List.map_filter f ys"
  by (simp add: List.map_filter_def)

lemma map_filter_Cons [simp]:
  "List.map_filter f (x # xs) = (case f x of None \<Rightarrow> List.map_filter f xs | Some y \<Rightarrow> y # List.map_filter f xs)"
  by (simp add: List.map_filter_def split: option.split)

lemma map_filter_Nil [simp]: "List.map_filter f [] = []"
  by (simp add: List.map_filter_def)

lemma set_map_filter: "y \<in> set (List.map_filter f xs) \<longleftrightarrow> (\<exists>x \<in> set xs. f x = Some y)"
  by (force simp: List.map_filter_def)

lemma addr_at:
  assumes "labels_once P" and "k < length P" and "deflab (P ! k) = Some l"
  shows "addr P l = k"
proof -
  have P: "P = take k P @ P ! k # drop (Suc k) P" using assms(2) by (rule id_take_nth_drop)
  have "labels_once (take k P @ P ! k # drop (Suc k) P)" using assms(1) P by simp
  then have n: "deflab x \<noteq> Some l" if "x \<in> set (take k P)" for x
    using that assms(3) by (auto simp: labels_once_def set_map_filter)
  have "takeWhile (\<lambda>x. deflab x \<noteq> Some l) (take k P @ P ! k # drop (Suc k) P) = take k P"
    using n assms(3) by (simp add: takeWhile_tail)
  then show ?thesis using P assms(2) by (simp add: addr_def flip: P)
qed

text \<open>The words of the dictionary are told apart by their labels.\<close>

lemma is_word_ref:
  assumes "sane b s" and "i < dp s" and "\<And>j. e = Some j \<Longrightarrow> j < dp s"
  shows "is_word s e (ref (dict s ! i)) \<longleftrightarrow> e = Some i"
proof (cases e)
  case (Some j)
  with assms(3) have j: "j < dp s" by simp
  have d: "distinct (refs s)"
    using assms(1) by (metis distinct_map sane_def strict_sorted_iff)
  have "length (refs s) = dp s" "\<And>k. k < dp s \<Longrightarrow> refs s ! k = ref (dict s ! k)"
    using assms(1) by (simp_all add: sane_def refs_def)
  with d j assms(2) have "ref (dict s ! j) = ref (dict s ! i) \<longleftrightarrow> j = i" by (metis nth_eq_iff_index_eq)
  with Some show ?thesis by (simp add: is_word_def)
qed (simp add: is_word_def)

lemma is_word_jump:
  assumes "sane b s" and "i < dp s"
  shows "is_word s (zbra s) (ref (dict s ! i)) \<longleftrightarrow> zbra s = Some i"
    and "is_word s (bra s) (ref (dict s ! i)) \<longleftrightarrow> bra s = Some i"
    and "is_word s (dofor s) (ref (dict s ! i)) \<longleftrightarrow> dofor s = Some i"
    and "is_word s (lit s) (ref (dict s ! i)) \<longleftrightarrow> lit s = Some i"
  by (rule is_word_ref [OF assms], erule inv_prereq [OF assms(1)])+

lemma distinct_filter_nth:
  "distinct (filter P xs) \<Longrightarrow> i < j \<Longrightarrow> j < length xs \<Longrightarrow> P (xs ! i) \<Longrightarrow> xs ! i \<noteq> xs ! j"
proof (induction xs arbitrary: i j)
  case (Cons x xs)
  then show ?case by (cases i; cases j) (auto split: if_splits dest: nth_mem)
qed simp

lemma jump_distinct:
  assumes "sane b s"
  shows "bra s = Some i \<Longrightarrow> zbra s \<noteq> Some i" "dofor s = Some i \<Longrightarrow> zbra s \<noteq> Some i"
    "dofor s = Some i \<Longrightarrow> bra s \<noteq> Some i" "lit s = Some i \<Longrightarrow> zbra s \<noteq> Some i"
    "lit s = Some i \<Longrightarrow> bra s \<noteq> Some i" "lit s = Some i \<Longrightarrow> dofor s \<noteq> Some i"
proof -
  have "distinct (filter (\<lambda>e. e \<noteq> None) (prereqs s))" using assms by (simp add: sane_def)
  note d = distinct_filter_nth [OF this]
  have n: "length (prereqs s) = 8" "prereqs s ! 0 = lit s" "prereqs s ! 1 = zbra s" "prereqs s ! 2 = bra s"
    "prereqs s ! 6 = dofor s" by (simp_all add: prereqs_def)
  show "bra s = Some i \<Longrightarrow> zbra s \<noteq> Some i" using d [of 1 2] n by auto
  show "dofor s = Some i \<Longrightarrow> zbra s \<noteq> Some i" using d [of 1 6] n by auto
  show "dofor s = Some i \<Longrightarrow> bra s \<noteq> Some i" using d [of 2 6] n by auto
  show "lit s = Some i \<Longrightarrow> zbra s \<noteq> Some i" using d [of 0 1] n by auto
  show "lit s = Some i \<Longrightarrow> bra s \<noteq> Some i" using d [of 0 2] n by auto
  show "lit s = Some i \<Longrightarrow> dofor s \<noteq> Some i" using d [of 0 6] n by auto
qed

section \<open>Single steps\<close>

lemma exec_label:
  assumes "emb P k [x]" and "deflab x \<noteq> None"
  shows "steps s m P (k, a) (Suc k, a)"
  using assms by (intro steps_one) (cases x; simp add: step_def emb_Cons)

lemma exec_test:
  assumes "sane b s" and "zbra s \<noteq> None" and "emb P k [jsr s (zbra s), Operand l]" and "test m a = (z, c)"
  shows "steps s m P (k, a) (if z then addr P l else k + 2, c)"
proof -
  from assms(2) obtain i where i: "zbra s = Some i" by auto
  note w = is_word_jump [OF assms(1) inv_prereq(2) [OF assms(1) i]]
  show ?thesis using assms(3,4) i w by (intro steps_one) (simp add: step_def emb_Cons jsr_def operand_def)
qed

lemma exec_bra:
  assumes "sane b s" and "bra s \<noteq> None" and "emb P k [jsr s (bra s), Operand l]"
  shows "steps s m P (k, a) (addr P l, a)"
proof -
  from assms(2) obtain i where i: "bra s = Some i" by auto
  note w = is_word_jump [OF assms(1) inv_prereq(3) [OF assms(1) i]] jump_distinct(1) [OF assms(1) i]
  show ?thesis using assms(3) i w by (intro steps_one) (simp add: step_def emb_Cons jsr_def operand_def)
qed

lemma exec_dofor:
  assumes "sane b s" and "dofor s \<noteq> None" and "emb P k [jsr s (dofor s), Operand l]" and "count m a = (z, c)"
  shows "steps s m P (k, a) (if z then addr P l else k + 2, c)"
proof -
  from assms(2) obtain i where i: "dofor s = Some i" by auto
  note w = is_word_jump [OF assms(1) inv_prereq(7) [OF assms(1) i]] jump_distinct(2,3) [OF assms(1) i]
  show ?thesis using assms(3,4) i w by (intro steps_one) (simp add: step_def emb_Cons jsr_def operand_def)
qed

lemma exec_num:
  assumes "sane b s" and "lit s \<noteq> None" and "emb P k [jsr s (lit s), Cell v]"
  shows "steps s m P (k, a) (k + 2, do_num m v a)"
proof -
  from assms(2) obtain i where i: "lit s = Some i" by auto
  note w = is_word_jump [OF assms(1) inv_prereq(1) [OF assms(1) i]] jump_distinct(4,5,6) [OF assms(1) i]
  show ?thesis using assms(3) i w by (intro steps_one) (simp add: step_def emb_Cons jsr_def cell_def)
qed

lemma exec_call:
  assumes "sane b s" and "e = Some i" and "i < dp s" and "e \<notin> set (jump_words s)" and "emb P k [jsr s e]"
  shows "steps s m P (k, a) (Suc k, do_call m (ref (dict s ! i)) a)"
  using assms(2-) is_word_jump [OF assms(1,3)]
  by (intro steps_one) (auto simp: step_def emb_Cons jsr_def jump_words_def)

lemma lookup_in: "lookup s w = Some i \<Longrightarrow> i < dp s"
  by (auto simp: lookup_def find_Some_iff) (metis add_0 length_rev length_upt minus_nat.diff_0 nth_mem nth_upt rev_nth set_rev set_upt atLeastLessThan_iff)

section \<open>The code does what the command means\<close>

lemma addr_emb: "labels_once P \<Longrightarrow> emb P k [x] \<Longrightarrow> deflab x = Some l \<Longrightarrow> addr P l = k"
  by (rule addr_at) (simp_all add: emb_Cons)

lemma code_runs:
  assumes "sane b s" and "labels_once P"
  shows "run s m c x y \<Longrightarrow> fits s c \<Longrightarrow> emb P k (code s c n) \<Longrightarrow> steps s m P (k, x) (k + length (code s c n), y)"
    and "loop s m c x y \<Longrightarrow> fits s (For c) \<Longrightarrow> emb P k (code s (For c) n) \<Longrightarrow>
      steps s m P (k + 1, x) (k + length (code s (For c) n), y)"
proof (induction arbitrary: k n and k n rule: run_loop.inducts)
  case (run_skip a)
  then show ?case by auto
next
  case (run_call w a)
  then obtain i where i: "lookup s w = Some i" by auto
  from exec_call [OF assms(1) i lookup_in [OF i]] run_call i show ?case by simp
next
  case (run_num w a)
  with exec_num [OF assms(1), of P k "word_of_int (fst (strtol0 w))"] show ?case by simp
next
  case (run_seq c x y d z)
  have "steps s m P (k, x) (k + length (code s c n), y)" using run_seq by (simp add: emb_append)
  moreover have "steps s m P (k + length (code s c n), y)
      (k + length (code s c n) + length (code s d (n + labels c)), z)"
    using run_seq by (simp add: emb_append)
  ultimately show ?case by (auto intro: steps_trans simp: add.assoc)
next
  case (run_if_true x y c z)
  have e: "emb P k [jsr s (zbra s), Operand (lab n)]" "emb P (k + 2) (code s c (Suc n))"
    "emb P (k + 2 + length (code s c (Suc n))) [Label (lab n)]"
    using run_if_true.prems(2) by (auto simp: emb_append emb_Cons emb_Nil)
  have "steps s m P (k, x) (k + 2, y)" using exec_test [OF assms(1) _ e(1) run_if_true(1)] run_if_true.prems(1) by simp
  also have "steps s m P (k + 2, y) (k + 2 + length (code s c (Suc n)), z)"
    using run_if_true(3) [OF _ e(2)] run_if_true.prems(1) by simp
  also have "steps s m P (k + 2 + length (code s c (Suc n)), z) (Suc (k + 2 + length (code s c (Suc n))), z)"
    using exec_label [OF e(3)] by simp
  finally show ?case by simp
next
  case (run_if_false x y c)
  have e: "emb P k [jsr s (zbra s), Operand (lab n)]" "emb P (k + 2 + length (code s c (Suc n))) [Label (lab n)]"
    using run_if_false.prems(2) by (auto simp: emb_append emb_Cons emb_Nil)
  have "steps s m P (k, x) (k + 2 + length (code s c (Suc n)), y)"
    using exec_test [OF assms(1) _ e(1) run_if_false(1)] run_if_false.prems(1) addr_emb [OF assms(2) e(2)] by simp
  also have "steps s m P (k + 2 + length (code s c (Suc n)), y) (Suc (k + 2 + length (code s c (Suc n))), y)"
    using exec_label [OF e(2)] by simp
  finally show ?case by simp
next
  case (run_else_true x y c z d)
  let ?c = "code s c (Suc n)" and ?n = "Suc n + labels c"
  let ?d = "code s d (Suc ?n)" and ?l = "k + 2 + length (code s c (Suc n)) + 2"
  have e: "emb P k [jsr s (zbra s), Operand (lab n)]" "emb P (k + 2) ?c"
    "emb P (k + 2 + length ?c) [jsr s (bra s), Operand (lab ?n)]" "emb P (?l + 1 + length ?d) [Label (lab ?n)]"
    using run_else_true.prems(2) by (auto simp: emb_append emb_Cons emb_Nil Let_def)
  have "steps s m P (k, x) (k + 2, y)" using exec_test [OF assms(1) _ e(1) run_else_true(1)] run_else_true.prems(1) by simp
  also have "steps s m P (k + 2, y) (k + 2 + length ?c, z)" using run_else_true(3) [OF _ e(2)] run_else_true.prems(1) by simp
  also have "steps s m P (k + 2 + length ?c, z) (?l + 1 + length ?d, z)"
    using exec_bra [OF assms(1) _ e(3), of m z] run_else_true.prems(1) addr_emb [OF assms(2) e(4)] by simp
  also have "steps s m P (?l + 1 + length ?d, z) (Suc (?l + 1 + length ?d), z)" using exec_label [OF e(4)] by simp
  finally show ?case by (simp add: Let_def add.assoc)
next
  case (run_else_false x y d z c)
  let ?c = "code s c (Suc n)" and ?n = "Suc n + labels c"
  let ?d = "code s d (Suc ?n)" and ?l = "k + 2 + length (code s c (Suc n)) + 2"
  have e: "emb P k [jsr s (zbra s), Operand (lab n)]" "emb P ?l [Label (lab n)]"
    "emb P (Suc ?l) ?d" "emb P (Suc ?l + length ?d) [Label (lab ?n)]"
    using run_else_false.prems(2) by (auto simp: emb_append emb_Cons emb_Nil Let_def)
  have "steps s m P (k, x) (?l, y)"
    using exec_test [OF assms(1) _ e(1) run_else_false(1)] run_else_false.prems(1) addr_emb [OF assms(2) e(2)] by simp
  also have "steps s m P (?l, y) (Suc ?l, y)" using exec_label [OF e(2)] by simp
  also have "steps s m P (Suc ?l, y) (Suc ?l + length ?d, z)" using run_else_false(3) [OF _ e(3)] run_else_false.prems(1) by simp
  also have "steps s m P (Suc ?l + length ?d, z) (Suc (Suc ?l + length ?d), z)" using exec_label [OF e(4)] by simp
  finally show ?case by (simp add: Let_def add.assoc)
next
  case (run_until_end c x y z)
  let ?c = "code s c (Suc n)"
  have e: "emb P k [Label (lab n)]" "emb P (Suc k) ?c" "emb P (Suc k + length ?c) [jsr s (zbra s), Operand (lab n)]"
    using run_until_end.prems(2) by (auto simp: emb_append emb_Cons emb_Nil)
  have "steps s m P (k, x) (Suc k, x)" using exec_label [OF e(1)] by simp
  also have "steps s m P (Suc k, x) (Suc k + length ?c, y)" using run_until_end(2) [OF _ e(2)] run_until_end.prems(1) by simp
  also have "steps s m P (Suc k + length ?c, y) (Suc k + length ?c + 2, z)"
    using exec_test [OF assms(1) _ e(3) run_until_end(3)] run_until_end.prems(1) by simp
  finally show ?case by simp
next
  case (run_until_more c x y z w)
  let ?c = "code s c (Suc n)"
  have e: "emb P k [Label (lab n)]" "emb P (Suc k) ?c" "emb P (Suc k + length ?c) [jsr s (zbra s), Operand (lab n)]"
    using run_until_more.prems(2) by (auto simp: emb_append emb_Cons emb_Nil)
  have "steps s m P (k, x) (Suc k, x)" using exec_label [OF e(1)] by simp
  also have "steps s m P (Suc k, x) (Suc k + length ?c, y)" using run_until_more(2) [OF _ e(2)] run_until_more.prems(1) by simp
  also have "steps s m P (Suc k + length ?c, y) (k, z)"
    using exec_test [OF assms(1) _ e(3) run_until_more(3)] run_until_more.prems addr_emb [OF assms(2) e(1)] by simp
  also have "steps s m P (k, z) (k + length (code s (Until c) n), w)" using run_until_more by blast
  finally show ?case .
next
  case (run_while_end c x y z d)
  let ?c = "code s c (Suc n)" and ?n = "Suc n + labels c"
  let ?d = "code s d (Suc ?n)" and ?t = "Suc k + length (code s c (Suc n))"
  have e: "emb P k [Label (lab n)]" "emb P (Suc k) ?c" "emb P ?t [jsr s (zbra s), Operand (lab ?n)]"
    "emb P (?t + 2 + length ?d + 2) [Label (lab ?n)]"
    using run_while_end.prems(2) by (auto simp: emb_append emb_Cons emb_Nil Let_def)
  have "steps s m P (k, x) (Suc k, x)" using exec_label [OF e(1)] by simp
  also have "steps s m P (Suc k, x) (?t, y)" using run_while_end(2) [OF _ e(2)] run_while_end.prems(1) by simp
  also have "steps s m P (?t, y) (?t + 2 + length ?d + 2, z)"
    using exec_test [OF assms(1) _ e(3) run_while_end(3)] run_while_end.prems(1) addr_emb [OF assms(2) e(4)] by simp
  also have "steps s m P (?t + 2 + length ?d + 2, z) (Suc (?t + 2 + length ?d + 2), z)" using exec_label [OF e(4)] by simp
  finally show ?case by (simp add: Let_def add.assoc)
next
  case (run_while_more c x y z d w v)
  let ?c = "code s c (Suc n)" and ?n = "Suc n + labels c"
  let ?d = "code s d (Suc ?n)" and ?t = "Suc k + length (code s c (Suc n))"
  have e: "emb P k [Label (lab n)]" "emb P (Suc k) ?c" "emb P ?t [jsr s (zbra s), Operand (lab ?n)]"
    "emb P (?t + 2) ?d" "emb P (?t + 2 + length ?d) [jsr s (bra s), Operand (lab n)]"
    using run_while_more.prems(2) by (auto simp: emb_append emb_Cons emb_Nil Let_def)
  have "steps s m P (k, x) (Suc k, x)" using exec_label [OF e(1)] by simp
  also have "steps s m P (Suc k, x) (?t, y)" using run_while_more(2) [OF _ e(2)] run_while_more.prems(1) by simp
  also have "steps s m P (?t, y) (?t + 2, z)"
    using exec_test [OF assms(1) _ e(3) run_while_more(3)] run_while_more.prems(1) by simp
  also have "steps s m P (?t + 2, z) (?t + 2 + length ?d, w)" using run_while_more(5) [OF _ e(4)] run_while_more.prems(1) by simp
  also have "steps s m P (?t + 2 + length ?d, w) (k, w)"
    using exec_bra [OF assms(1) _ e(5), of m w] run_while_more.prems(1) addr_emb [OF assms(2) e(1)] by simp
  also have "steps s m P (k, w) (k + length (code s (While c d) n), v)" using run_while_more by blast
  finally show ?case .
next
  case (run_for c x y)
  obtain i where i: "push s = Some i" using run_for.prems(1) by auto
  have e: "emb P k [jsr s (push s)]" using run_for.prems(2) by (auto simp: emb_append emb_Cons emb_Nil)
  have "steps s m P (k, x) (k + 1, do_call m (ref (dict s ! the (push s))) x)"
    using exec_call [OF assms(1) i inv_prereq(8) [OF assms(1) i] _ e] run_for.prems(1) i by simp
  also have "steps s m P (k + 1, do_call m (ref (dict s ! the (push s))) x) (k + length (code s (For c) n), y)"
    using run_for by blast
  finally show ?case .
next
  case (loop_end x y c)
  let ?c = "code s c (Suc (Suc n))"
  have e: "emb P (k + 1) [Label (lab n)]" "emb P (k + 2) [jsr s (dofor s), Operand (lab (Suc n))]"
    "emb P (k + 4 + length ?c + 2) [Label (lab (Suc n))]"
    using loop_end.prems(2) by (auto simp: emb_append emb_Cons emb_Nil eval_nat_numeral)
  have "steps s m P (k + 1, x) (k + 2, x)" using exec_label [OF e(1)] by simp
  also have "steps s m P (k + 2, x) (k + 4 + length ?c + 2, y)"
    using exec_dofor [OF assms(1) _ e(2) loop_end(1)] loop_end.prems(1) addr_emb [OF assms(2) e(3)] by simp
  also have "steps s m P (k + 4 + length ?c + 2, y) (Suc (k + 4 + length ?c + 2), y)" using exec_label [OF e(3)] by simp
  finally show ?case by (simp add: eval_nat_numeral)
next
  case (loop_more x y c z w)
  let ?c = "code s c (Suc (Suc n))"
  have e: "emb P (k + 1) [Label (lab n)]" "emb P (k + 2) [jsr s (dofor s), Operand (lab (Suc n))]" "emb P (k + 4) ?c"
    "emb P (k + 4 + length ?c) [jsr s (bra s), Operand (lab n)]"
    using loop_more.prems(2) by (auto simp: emb_append emb_Cons emb_Nil eval_nat_numeral)
  have "steps s m P (k + 1, x) (k + 2, x)" using exec_label [OF e(1)] by simp
  also have "steps s m P (k + 2, x) (k + 4, y)"
    using exec_dofor [OF assms(1) _ e(2) loop_more(1)] loop_more.prems(1) by (simp add: eval_nat_numeral)
  also have "steps s m P (k + 4, y) (k + 4 + length ?c, z)" using loop_more(3) [OF _ e(3)] loop_more.prems(1) by simp
  also have "steps s m P (k + 4 + length ?c, z) (k + 1, z)"
    using exec_bra [OF assms(1) _ e(4), of m z] loop_more.prems(1) addr_emb [OF assms(2) e(1)] by simp
  also have "steps s m P (k + 1, z) (k + length (code s (For c) n), w)" using loop_more by blast
  finally show ?case .
qed

section \<open>Labels of the code\<close>

lemma unat_lab [simp]: "n < 65536 \<Longrightarrow> unat (lab n) = n"
  by (simp add: unat_of_nat)

definition code_labs :: "bfc \<Rightarrow> com \<Rightarrow> nat \<Rightarrow> nat list" where
  "code_labs s c n = map unat (List.map_filter deflab (code s c n))"

lemma deflab_jsr [simp]: "deflab (jsr s e) = None"
  by (simp add: jsr_def)

lemma interval_two:
  "n < m \<Longrightarrow> m < k \<Longrightarrow> insert n ({Suc n..<m} \<union> insert m {Suc m..<k}) = {n..<k}" for n m k :: nat
  by auto

lemma interval_one: "n < k \<Longrightarrow> insert n {Suc n..<k} = {n..<k}" for n k :: nat
  by auto

lemma code_labs:
  "n + labels c \<le> 65536 \<Longrightarrow> set (code_labs s c n) = {n..<n + labels c} \<and> length (code_labs s c n) = labels c"
proof (induction c arbitrary: n)
  case (IfElse c d)
  let ?m = "Suc n + labels c"
  have e: "code_labs s (IfElse c d) n = code_labs s c (Suc n) @ n # code_labs s d (Suc ?m) @ [?m]"
    using IfElse.prems by (simp add: code_labs_def Let_def del: of_nat_add of_nat_Suc)
  have "set (code_labs s c (Suc n)) = {Suc n..<?m}" "set (code_labs s d (Suc ?m)) = {Suc ?m..<Suc ?m + labels d}"
    and l: "length (code_labs s c (Suc n)) = labels c" "length (code_labs s d (Suc ?m)) = labels d"
    using IfElse.prems IfElse.IH(1) [of "Suc n"] IfElse.IH(2) [of "Suc ?m"] by simp_all
  then have "set (code_labs s (IfElse c d) n) = insert n ({Suc n..<?m} \<union> insert ?m {Suc ?m..<Suc ?m + labels d})"
    unfolding e by (simp only: set_append list.set) blast
  also have "\<dots> = {n..<n + labels (IfElse c d)}" by (subst interval_two) (simp_all add: add.assoc)
  finally show ?case unfolding e using l by simp
next
  case (While c d)
  let ?m = "Suc n + labels c"
  have e: "code_labs s (While c d) n = n # code_labs s c (Suc n) @ code_labs s d (Suc ?m) @ [?m]"
    using While.prems by (simp add: code_labs_def Let_def del: of_nat_add of_nat_Suc)
  have "set (code_labs s c (Suc n)) = {Suc n..<?m}" "set (code_labs s d (Suc ?m)) = {Suc ?m..<Suc ?m + labels d}"
    and l: "length (code_labs s c (Suc n)) = labels c" "length (code_labs s d (Suc ?m)) = labels d"
    using While.prems While.IH(1) [of "Suc n"] While.IH(2) [of "Suc ?m"] by simp_all
  then have "set (code_labs s (While c d) n) = insert n ({Suc n..<?m} \<union> insert ?m {Suc ?m..<Suc ?m + labels d})"
    unfolding e by (simp only: set_append list.set) blast
  also have "\<dots> = {n..<n + labels (While c d)}" by (subst interval_two) (simp_all add: add.assoc)
  finally show ?case unfolding e using l by simp
next
  case (Seq c d)
  have "code_labs s (Seq c d) n = code_labs s c n @ code_labs s d (n + labels c)" by (simp add: code_labs_def)
  with Seq.prems Seq.IH(1) [of n] Seq.IH(2) [of "n + labels c"] show ?case by auto
next
  case (If c)
  have "code_labs s (If c) n = code_labs s c (Suc n) @ [n]" using If.prems by (simp add: code_labs_def)
  with If.prems If.IH [of "Suc n"] show ?case by (simp add: interval_one)
next
  case (Until c)
  have "code_labs s (Until c) n = n # code_labs s c (Suc n)" using Until.prems by (simp add: code_labs_def)
  with Until.prems Until.IH [of "Suc n"] show ?case by (simp add: interval_one)
next
  case (For c)
  have "code_labs s (For c) n = n # code_labs s c (Suc (Suc n)) @ [Suc n]"
    using For.prems unat_lab [of "Suc n"] by (simp add: code_labs_def)
  with For.prems For.IH [of "Suc (Suc n)"] show ?case by (simp add: interval_one insert_commute)
qed (simp_all add: code_labs_def)

lemma labels_once_code:
  assumes "sane b s" and "labels_once (outp s)" and "unat (labeli s) + labels c \<le> 65536"
  shows "labels_once (outp s @ code s c (unat (labeli s)))"
proof -
  let ?n = "unat (labeli s)"
  note cl = code_labs [OF assms(3), of s]
  then have "distinct (code_labs s c ?n)" by (intro card_distinct) simp
  then have d: "distinct (List.map_filter deflab (code s c ?n))" by (simp add: code_labs_def distinct_map)
  have "unat l < ?n" if "l \<in> set (List.map_filter deflab (outp s))" for l
  proof -
    from that obtain x where x: "x \<in> set (outp s)" "deflab x = Some l" by (auto simp: set_map_filter)
    from x(2) have "l \<in> set (uses x)" by (cases x) auto
    with x(1) assms(1) show ?thesis unfolding sane_def by blast
  qed
  moreover have "?n \<le> unat l" if "l \<in> set (List.map_filter deflab (code s c ?n))" for l
  proof -
    from that have "unat l \<in> set (code_labs s c ?n)" by (simp add: code_labs_def)
    with cl show ?thesis by simp
  qed
  ultimately show ?thesis using assms(2) d by (fastforce simp: labels_once_def)
qed

section \<open>Property\<close>

lemma sane_dict_ok:
  assumes "sane b s"
  shows "dict_ok s" and "cp s \<le> 16" and "length (cstack s) = 16"
proof -
  have "length (refs s) = dp s" "distinct (map unat (refs s))" "set (map unat (refs s)) \<subseteq> {..<unat (labeli s)}"
    using assms unfolding sane_def refs_def by (auto simp: strict_sorted_iff)
  then have "dp s \<le> unat (labeli s)" by (metis card_lessThan card_mono distinct_card finite_lessThan length_map)
  then show "dict_ok s" using entry_str_zero [OF assms] by (simp add: dict_ok_def)
qed (use assms in \<open>simp_all add: sane_def\<close>)

text \<open>C4:
  Compiling the source text of a structured command (nested if, else, begin .. until, begin ..
  while .. repeat and for .. next over words and numbers) appends code to the output that does
  what the command means: in any program that goes on after that code and in which every label
  is defined once, the machine gets from the start of the code with data \<open>x\<close> to its end with the
  data \<open>y\<close> that the command makes of \<open>x\<close>.  The code itself defines its labels once, and no
  label that was defined before.  This holds in every state the compiler can reach, as long as
  the control stack and the 256 labels suffice.
\<close>

theorem bfc_refines:
  assumes "sane b s" and "compiling s" and "fits s c" and "input s = source c @ i"
    and "unat (labeli s) + labels c \<le> 256" and "cp s + depth c \<le> 16"
  shows "\<exists>t ls. process_file s = process_file t \<and> input t = i \<and> outp t = outp s @ ls \<and> same_dict s t
    \<and> cp t = cp s \<and> (labels_once (outp s) \<longrightarrow> labels_once (outp t))
    \<and> (\<forall>m x y rest. run s m c x y \<longrightarrow> labels_once (outp t @ rest) \<longrightarrow>
         steps s m (outp t @ rest) (length (outp s), x) (length (outp t), y))"
proof -
  note sd = sane_dict_ok [OF assms(1)]
  have r: "ready s" using sd assms(2) by (simp add: ready_def)
  then have "does s (code s c (unat (labeli s))) (labels c) (stk s) i"
    using compiles [of c, unfolded compiled_def, rule_format, of s i] sd assms length_stk [OF r] by simp
  then obtain t where t: "process_file s = process_file t"
    "went (s\<lparr>input := i\<rparr>) (code s c (unat (labeli s))) (labels c) (stk s) t" by (auto simp: does_def)
  have o': "outp t = outp s @ code s c (unat (labeli s))" "input t = i" "same_dict s t" "stk t = stk s" "ready t"
    using t(2) by (simp_all add: went_def same_dict_def)
  have "cp t = cp s" using o'(4,5) length_stk [OF r] length_stk [of t] by simp
  moreover have "labels_once (outp s) \<longrightarrow> labels_once (outp t)"
    using labels_once_code [OF assms(1)] assms(5) o'(1) by simp
  moreover have "steps s m (outp t @ rest) (length (outp s), x) (length (outp t), y)"
    if "run s m c x y" "labels_once (outp t @ rest)" for m x y rest
  proof -
    have "emb (outp t @ rest) (length (outp s)) (code s c (unat (labeli s)))" by (simp add: o'(1) emb_here)
    from code_runs(1) [OF assms(1) that(2,1) assms(3) this] show ?thesis by (simp add: o'(1))
  qed
  ultimately show ?thesis using t(1) o' by blast
qed

end
