(* ===== verification/Bfc_Demo.thy ===== *)
theory Bfc_Demo
  imports Bfc_Run
begin

text \<open>
  A dictionary of two words, \<open>0bra\<close> and \<open>dec\<close>, in the middle of a definition, and the uses of the
  properties of the Forth compiler on it; then the words with names of more than 32 characters.
\<close>

definition demo_entry :: "string \<Rightarrow> u16 \<Rightarrow> entry" where
  "demo_entry n r = \<lparr>ename = name_of (str n), flags = 0, ref = r\<rparr>"

definition demo_bfc :: "bytes \<Rightarrow> bfc" where
  "demo_bfc i = (bfc_start i)\<lparr>dict := demo_entry ''0bra'' 0 # demo_entry ''dec'' 1 # replicate 254 zero_entry,
     dp := 2, labeli := 2, zbra := Some 0, compiling := True,
     outp := [Entry 0 (str ''0bra''), Raw [], Entry 1 (str ''dec'')]\<rparr>"

definition demo_machine :: "nat machine" where
  "demo_machine = \<lparr>do_call = \<lambda>r n. n - 1, do_num = \<lambda>v n. n, test = \<lambda>n. (n = 0, n), count = \<lambda>n. (n = 0, n)\<rparr>"

lemma takeWhile_end: "x \<in> set xs \<Longrightarrow> \<not> P x \<Longrightarrow> takeWhile P (xs @ ys) = takeWhile P xs"
  by (induction xs) auto

lemma entry_str_name:
  assumes "i < length d" and "0 \<in> set (ename (d ! i))"
  shows "entry_str d i = c_str (ename (d ! i))"
proof -
  have "drop i d = d ! i # drop (Suc i) d" using assms(1) by (simp add: Cons_nth_drop_Suc)
  then show ?thesis
    using assms(2) by (simp add: entry_str_def entry_mem_def c_str_def takeWhile_end)
qed

lemma c_str_name_of:
  assumes "0 \<notin> set w" and "length w < MAXNAME"
  shows "c_str (name_of w) = w" and "0 \<in> set (name_of w)"
proof -
  have w: "c_str w = w" using assms(1) by (simp add: c_str_def takeWhile_eq_all_conv) (metis assms(1))
  have n: "name_of w = w @ replicate (MAXNAME - length w) 0" using assms(2) by (simp add: name_of_def w min_def)
  then show "0 \<in> set (name_of w)" using assms(2) by simp
  have "replicate (MAXNAME - length w) (0 :: u8) = 0 # replicate (MAXNAME - length w - 1) 0"
    using assms(2) by (cases "MAXNAME - length w") simp_all
  then show "c_str (name_of w) = w" unfolding n using w by (simp add: c_str_def takeWhile_tail)
qed

lemma demo_entries:
  "entry_str (dict (demo_bfc i)) 0 = str ''0bra''" "entry_str (dict (demo_bfc i)) 1 = str ''dec''"
proof -
  have s: "0 \<notin> set (str ''0bra'')" "0 \<notin> set (str ''dec'')" "length (str ''0bra'') < MAXNAME" "length (str ''dec'') < MAXNAME"
    by (simp_all add: str_def)
  note c = c_str_name_of [OF s(1,3)] c_str_name_of [OF s(2,4)]
  show "entry_str (dict (demo_bfc i)) 0 = str ''0bra''"
    using c by (subst entry_str_name) (simp_all add: demo_bfc_def demo_entry_def)
  show "entry_str (dict (demo_bfc i)) 1 = str ''dec''"
    using c by (subst entry_str_name) (simp_all add: demo_bfc_def demo_entry_def)
qed

lemma demo_sane: "sane 100 (demo_bfc i)"
  by (simp add: sane_def demo_bfc_def bfc_start_def refs_def prereqs_def demo_entry_def)

lemma demo_lookup: "lookup (demo_bfc i) (str ''dec'') = Some 1"
proof -
  have "dp (demo_bfc i) = 2" by (simp add: demo_bfc_def)
  then show ?thesis using demo_entries [of i] by (simp add: lookup_def numeral_2_eq_2)
qed

text \<open>Two words with a loop and a branch in the second, compiled from the start.\<close>

lemma entry_str_code [code]: "entry_str d i =
   (if i < length d \<and> 0 \<in> set (ename (d ! i)) then c_str (ename (d ! i)) else c_str (concat (map entry_mem (drop i d))))"
  by (simp add: entry_str_name) (simp add: entry_str_def)

definition loop_source :: bytes where
  "loop_source = str ''p: 0bra'' @ [10] @ str '';p'' @ [10] @ str '': f begin if f then 0bra until ;''"

lemma loop_source_run: "case process_file (bfc_start loop_source) of
    Inl _ \<Rightarrow> False
  | Inr (_, s) \<Rightarrow> refs s = [0, 1] \<and> labeli s = 4 \<and> Label 2 \<in> set (outp s) \<and> Operand 2 \<in> set (outp s) \<and> Operand 3 \<in> set (outp s)"
  by code_simp

lemma bfc_labels_distinct_witness:
  "\<exists>s. process_file (bfc_start loop_source) = Inr ((), s) \<and> List.map_filter entry_label (outp s) = [0, 1] \<and> distinct (refs s)
    \<and> {Label 2, Operand 2, Operand 3} \<subseteq> set (outp s) \<and> (\<forall>l \<in> set (outp s). \<forall>r \<in> set (uses l). unat r < 4)"
proof -
  obtain s where s: "process_file (bfc_start loop_source) = Inr ((), s)" "refs s = [0, 1]" "labeli s = 4"
    "{Label 2, Operand 2, Operand 3} \<subseteq> set (outp s)"
    using loop_source_run by (auto split: sum.splits)
  have "length loop_source < 32768" by (simp add: loop_source_def str_def)
  from bfc_labels_distinct [OF s(1) this] s show ?thesis by auto
qed

lemma bfc_refines_witness:
  "\<exists>t. process_file (demo_bfc (str ''if dec then '')) = process_file t \<and> input t = []
    \<and> steps (demo_bfc (str ''if dec then '')) demo_machine (outp t) (3, 5) (length (outp t), 4)"
proof -
  let ?c = "If (Call (str ''dec''))" and ?i = "str ''if dec then ''"
  let ?s = "demo_bfc ?i"
  have z: "zbra ?s = Some 0" "lit ?s = None" "bra ?s = None" "dofor ?s = None"
    and f: "compiling ?s" "unat (labeli ?s) = 2" "cp ?s = 0" "length (outp ?s) = 3" "labels_once (outp ?s)"
    and inp: "input ?s = source ?c @ []"
    by (simp_all add: demo_bfc_def bfc_start_def labels_once_def str_def)
  have "str ''dec'' \<notin> set host_words" by (simp add: host_words_def str_def)
  moreover have "plain_word (str ''dec'')" by (simp add: plain_word_def str_def isfblank_def)
  ultimately have fit: "fits ?s ?c" using demo_lookup z by (simp add: jump_words_def)
  have "test demo_machine 5 = (False, 5)" "do_call demo_machine (ref (dict ?s ! the (lookup ?s (str ''dec'')))) 5 = 4"
    by (simp_all add: demo_machine_def)
  then have r: "run ?s demo_machine ?c 5 4"
    using run_call [of ?s demo_machine "str ''dec''" 5] run_if_true [of demo_machine 5 5 ?s "Call (str ''dec'')" 4] by simp
  have b: "unat (labeli ?s) + labels ?c \<le> 256" "cp ?s + depth ?c \<le> 16" using f(2,3) by simp_all
  from bfc_refines [OF demo_sane f(1) fit inp b] obtain t ls where
    t: "process_file ?s = process_file t" "input t = []" and o': "labels_once (outp ?s) \<longrightarrow> labels_once (outp t)" and
    st: "\<forall>(m :: nat machine) x y rest. run ?s m ?c x y \<longrightarrow> labels_once (outp t @ rest) \<longrightarrow>
         steps ?s m (outp t @ rest) (length (outp ?s), x) (length (outp t), y)"
    by (elim exE conjE) (rule that)
  have "labels_once (outp t @ [])" using o' f(5) by simp
  from st [rule_format, OF r this] have "steps ?s demo_machine (outp t) (length (outp ?s), 5) (length (outp t), 4)"
    by simp
  then show ?thesis unfolding f(4) using t by blast
qed

section \<open>Long names\<close>

text \<open>
  A word whose name has more than 32 characters (but fits the word buffer) can be defined and is
  never found again: the name is cut at 32 characters and the comparison is with the whole word.
\<close>

theorem bfc_long_name_lost:
  assumes "mkentry s = Inr ((), t)" and "length (dict s) = MAXDICT" and "32 < length (c_str (wordb s))"
  shows "entry_str (dict t) (dp s) \<noteq> c_str (wordb s)"
proof
  let ?w = "c_str (wordb s)"
  assume e: "entry_str (dict t) (dp s) = ?w"
  have nz: "c \<noteq> 0" if "c \<in> set ?w" for c using that by (auto simp: c_str_def dest: set_takeWhileD)
  have n: "name_of (wordb s) = take 32 ?w" using assms(3) by (simp add: name_of_def)
  from assms(1) have d: "dp s < MAXDICT" by (auto simp: mkentry_def split: if_splits)
  from assms(1,2) d have t: "dict t ! dp s = \<lparr>ename = take 32 ?w, flags = 0, ref = labeli s\<rparr>" "dp s < length (dict t)"
    by (auto simp: mkentry_def new_label_def Let_def emit_def n split: if_splits)
  then have "drop (dp s) (dict t) = \<lparr>ename = take 32 ?w, flags = 0, ref = labeli s\<rparr> # drop (Suc (dp s)) (dict t)"
    by (metis Cons_nth_drop_Suc)
  then have "entry_str (dict t) (dp s) = takeWhile (\<lambda>c. c \<noteq> 0) (take 32 ?w @ [0]
      @ [hi8 (labeli s), lo8 (labeli s)] @ concat (map entry_mem (drop (Suc (dp s)) (dict t))))"
    by (simp add: entry_str_def c_str_def entry_mem_def)
  also have "\<dots> = take 32 ?w"
    using nz by (subst takeWhile_append2) (auto dest: in_set_takeD)
  finally have "length (take 32 ?w) = length ?w" unfolding e by (rule arg_cong [OF sym])
  then show False using assms(3) by simp
qed

lemma bfc_long_name_lost_witness:
  "\<exists>t. mkentry ((bfc_start [])\<lparr>wordb := replicate 40 0x61\<rparr>) = Inr ((), t)
    \<and> entry_str (dict t) 0 \<noteq> replicate 40 0x61"
proof -
  let ?s = "(bfc_start [])\<lparr>wordb := replicate 40 0x61\<rparr>"
  have w: "c_str (wordb ?s) = replicate 40 0x61" by (simp add: c_str_def takeWhile_eq_all_conv)
  obtain t where t: "mkentry ?s = Inr ((), t)"
    by (simp add: mkentry_def new_label_def Let_def bfc_start_def)
  have "length (dict ?s) = MAXDICT" "32 < length (c_str (wordb ?s))" "dp ?s = 0"
    unfolding w by (simp_all add: bfc_start_def)
  from bfc_long_name_lost [OF t this(1,2)] this(3) w t show ?thesis by auto
qed

end
