(* ===== verification/Picol_Parse.thy ===== *)
theory Picol_Parse
  imports Cstring
begin

text \<open>
  The tokenizer of \<open>tcl/picol.c\<close>.  The parser structure points into the script: \<open>pos\<close> is the
  offset of \<open>p\<close>, and the character at the end of the script is its terminating zero.  Reading
  beyond that zero is the stop \<open>Overrun\<close>.
\<close>

section \<open>Parser state\<close>

datatype retcode = PICOL_OK | PICOL_ERR | PICOL_RETURN | PICOL_BREAK | PICOL_CONTINUE

datatype tok = PT_ESC | PT_STR | PT_CMD | PT_VAR | PT_SEP | PT_EOL | PT_EOF

text \<open>
  How a run can stop: a read beyond the script, an append to an argument that does not exist, a
  write beyond a buffer, a call of \<open>exit\<close>, and the end of the fuel of the model.
\<close>

datatype pstop = Overrun | NoArgument | Overflow | Exit | OutOfFuel

record picolParser =
  ptext :: bytes
  pos :: nat
  len :: int
  tstart :: nat
  tend :: int
  ttype :: tok
  insidequote :: bool

definition picolInitParser :: "bytes \<Rightarrow> picolParser" where
  "picolInitParser t = \<lparr>ptext = t, pos = 0, len = int (length t), tstart = 0, tend = 0,
     ttype = PT_EOL, insidequote = False\<rparr>"

text \<open>The character \<open>*p->p\<close>, and \<open>p->p++; p->len--\<close>.\<close>

definition at :: "picolParser \<Rightarrow> u8" where
  "at p = (if pos p < length (ptext p) then ptext p ! pos p else 0)"

definition adv :: "picolParser \<Rightarrow> picolParser" where
  "adv p = p\<lparr>pos := pos p + 1, len := len p - 1\<rparr>"

abbreviation start_here :: "picolParser \<Rightarrow> picolParser" where
  "start_here p \<equiv> p\<lparr>tstart := pos p\<rparr>"

text \<open>\<open>p->end = p->p-1; p->type = t\<close>\<close>

definition end_before :: "tok \<Rightarrow> picolParser \<Rightarrow> picolParser" where
  "end_before t p = p\<lparr>tend := int (pos p) - 1, ttype := t\<rparr>"

lemma adv_simps [simp]:
  "ptext (adv p) = ptext p" "pos (adv p) = pos p + 1" "len (adv p) = len p - 1"
  "tstart (adv p) = tstart p" "tend (adv p) = tend p" "ttype (adv p) = ttype p"
  "insidequote (adv p) = insidequote p"
  by (simp_all add: adv_def)

lemma end_before_simps [simp]:
  "ptext (end_before t p) = ptext p" "pos (end_before t p) = pos p" "len (end_before t p) = len p"
  "tstart (end_before t p) = tstart p" "tend (end_before t p) = int (pos p) - 1"
  "ttype (end_before t p) = t" "insidequote (end_before t p) = insidequote p"
  by (simp_all add: end_before_def)

lemma at_inside: "at p \<noteq> 0 \<Longrightarrow> pos p < length (ptext p)"
  by (auto simp: at_def split: if_splits)

section \<open>Separators, variables and comments\<close>

definition isblank_sep :: "u8 \<Rightarrow> bool" where
  "isblank_sep c \<longleftrightarrow> c = 32 \<or> c = 9 \<or> c = 10 \<or> c = 13"

definition isname :: "u8 \<Rightarrow> bool" where
  "isname c \<longleftrightarrow> 97 \<le> c \<and> c \<le> 122 \<or> 65 \<le> c \<and> c \<le> 90 \<or> 48 \<le> c \<and> c \<le> 57 \<or> c = 0x5f"

text \<open>The loops that step over the characters of a class, which never holds the zero.\<close>

function skip :: "(u8 \<Rightarrow> bool) \<Rightarrow> picolParser \<Rightarrow> picolParser" where
  "skip c p = (if at p \<noteq> 0 \<and> c (at p) then skip c (adv p) else p)"
  by pat_completeness auto
termination
  by (relation "measure (\<lambda>(c, p). length (ptext p) - pos p)") (auto dest: at_inside)

declare skip.simps [simp del]

definition picolParseSep :: "picolParser \<Rightarrow> picolParser" where
  "picolParseSep p = end_before PT_SEP (skip isblank_sep (start_here p))"

definition picolParseEol :: "picolParser \<Rightarrow> picolParser" where
  "picolParseEol p = end_before PT_EOL (skip (\<lambda>c. isblank_sep c \<or> c = 0x3b) (start_here p))"

definition picolParseVar :: "picolParser \<Rightarrow> picolParser" where
  "picolParseVar p =
     (let p1 = start_here (adv p); p2 = skip isname p1
      in if tstart p2 = pos p2
         then p2\<lparr>tstart := pos p2 - 1, tend := int (pos p2) - 1, ttype := PT_STR\<rparr>
         else end_before PT_VAR p2)"

function picolParseComment :: "picolParser \<Rightarrow> picolParser" where
  "picolParseComment p =
     (if 0 < len p \<and> at p \<noteq> 10 then picolParseComment (adv p) else p)"
  by pat_completeness auto
termination
  by (relation "measure (\<lambda>p. nat (len p))") auto

declare picolParseComment.simps [simp del]

section \<open>Commands, braces and strings\<close>

text \<open>
  The loop over a bracketed command.  A backslash steps over two characters without looking
  at \<open>len\<close>: as the last character of the script it makes \<open>len\<close> negative, and then the test
  \<open>len == 0\<close> never ends the loop.
\<close>

function command_loop :: "int \<Rightarrow> int \<Rightarrow> picolParser \<Rightarrow> pstop + picolParser" where
  "command_loop level blevel p =
     (if len p < 0 then Inl Overrun
      else if len p = 0 then Inr p
      else if at p = 0x5b \<and> blevel = 0 then command_loop (level + 1) blevel (adv p)
      else if at p = 0x5d \<and> blevel = 0 then
        (if level - 1 = 0 then Inr p else command_loop (level - 1) blevel (adv p))
      else if at p = 0x5c then command_loop level blevel (adv (adv p))
      else if at p = 0x7b then command_loop level (blevel + 1) (adv p)
      else if at p = 0x7d then command_loop level (if blevel \<noteq> 0 then blevel - 1 else blevel) (adv p)
      else command_loop level blevel (adv p))"
  by pat_completeness auto
termination
  by (relation "measure (\<lambda>(l, b, p). nat (len p))") auto

declare command_loop.simps [simp del]

definition picolParseCommand :: "picolParser \<Rightarrow> pstop + picolParser" where
  "picolParseCommand p =
     rbind (command_loop 1 0 (start_here (adv p))) (\<lambda>q.
       let q' = end_before PT_CMD q in Inr (if at q' = 0x5d then adv q' else q'))"

function brace_loop :: "int \<Rightarrow> picolParser \<Rightarrow> pstop + picolParser" where
  "brace_loop level p =
     (if len p < 0 then Inl Overrun
      else if 2 \<le> len p \<and> at p = 0x5c then brace_loop level (adv (adv p))
      else if len p = 0 \<or> at p = 0x7d then
        (if level - 1 = 0 \<or> len p = 0
         then Inr (let q = p\<lparr>tend := int (pos p) - 1\<rparr> in (if len q \<noteq> 0 then adv q else q)\<lparr>ttype := PT_STR\<rparr>)
         else brace_loop (level - 1) (adv p))
      else if at p = 0x7b then brace_loop (level + 1) (adv p)
      else brace_loop level (adv p))"
  by pat_completeness auto
termination
  by (relation "measure (\<lambda>(l, p). nat (len p))") auto

declare brace_loop.simps [simp del]

definition picolParseBrace :: "picolParser \<Rightarrow> pstop + picolParser" where
  "picolParseBrace p = brace_loop 1 (start_here (adv p))"

function string_loop :: "picolParser \<Rightarrow> pstop + picolParser" where
  "string_loop p =
     (if len p < 0 then Inl Overrun
      else if len p = 0 then Inr (end_before PT_ESC p)
      else if at p = 0x5c then string_loop (if 2 \<le> len p then adv (adv p) else adv p)
      else if at p = 0x24 \<or> at p = 0x5b then Inr (end_before PT_ESC p)
      else if (isblank_sep (at p) \<or> at p = 0x3b) \<and> \<not> insidequote p then Inr (end_before PT_ESC p)
      else if at p = 0x22 \<and> insidequote p then
        Inr ((adv (end_before PT_ESC p))\<lparr>insidequote := False\<rparr>)
      else string_loop (adv p))"
  by pat_completeness auto
termination
  by (relation "measure (\<lambda>p. nat (len p))") auto

declare string_loop.simps [simp del]

definition picolParseString :: "picolParser \<Rightarrow> pstop + picolParser" where
  "picolParseString p =
     (let newword = (ttype p = PT_SEP \<or> ttype p = PT_EOL \<or> ttype p = PT_STR) in
      if newword \<and> at p = 0x7b then picolParseBrace p
      else
        let q = (if newword \<and> at p = 0x22 then adv (p\<lparr>insidequote := True\<rparr>) else p)
        in string_loop (start_here q))"

section \<open>The next token\<close>

lemma comment_len: "len (picolParseComment p) \<le> len p"
proof (induction p rule: picolParseComment.induct)
  case (1 p)
  then show ?case by (subst picolParseComment.simps) auto
qed

function picolGetToken :: "picolParser \<Rightarrow> pstop + picolParser" where
  "picolGetToken p =
     (if len p < 0 then Inl Overrun
      else if len p = 0 then
        Inr (p\<lparr>ttype := (if ttype p \<noteq> PT_EOL \<and> ttype p \<noteq> PT_EOF then PT_EOL else PT_EOF)\<rparr>)
      else if at p = 32 \<or> at p = 9 \<or> at p = 13 then
        (if insidequote p then picolParseString p else Inr (picolParseSep p))
      else if at p = 10 \<or> at p = 0x3b then
        (if insidequote p then picolParseString p else Inr (picolParseEol p))
      else if at p = 0x5b then picolParseCommand p
      else if at p = 0x24 then Inr (picolParseVar p)
      else if at p = 0x23 \<and> ttype p = PT_EOL then picolGetToken (picolParseComment p)
      else picolParseString p)"
  by pat_completeness auto
termination
proof (relation "measure (\<lambda>p. nat (len p))")
  fix p :: picolParser
  assume a: "\<not> len p < 0" "len p \<noteq> 0" "at p = 0x23 \<and> ttype p = PT_EOL"
  then have "picolParseComment p = picolParseComment (adv p)" by (subst picolParseComment.simps) simp
  with comment_len [of "adv p"] a show "(picolParseComment p, p) \<in> measure (\<lambda>p. nat (len p))" by simp
qed simp

declare picolGetToken.simps [simp del]

text \<open>The token's characters: \<open>tlen = p.end-p.start+1\<close>, at least 0, copied from \<open>p.start\<close>.\<close>

definition tok_text :: "picolParser \<Rightarrow> bytes" where
  "tok_text p = take (nat (tend p - int (tstart p) + 1)) (drop (tstart p) (ptext p))"

end
