(* ===== verification/Picol.thy ===== *)
theory Picol
  imports Picol_Parse "HOL-Library.AList"
begin

text \<open>
  The interpreter of \<open>tcl/picol.c\<close> and the \<open>system\<close> command of \<open>tcl/picol-brett.c\<close>: variables
  in a stack of call frames, a list of commands, the evaluator and the commands it calls.  The
  evaluator and the commands that run scripts call each other, and a script may run for ever, so
  they take a fuel that bounds the depth of the calls; \<open>OutOfFuel\<close> is no outcome of the program.

  \<open>system\<close> is code of the host: its parameter \<open>sys\<close> gives the value that is printed for the
  \<open>k\<close>-th call (from 0) on a command line.
\<close>

section \<open>State\<close>

datatype cmdfunc = Math | Set_cmd | Puts | If_cmd | While_cmd | RetCodes | Proc | CallProc | Return | System

text \<open>\<open>privdata\<close> holds the argument list and the body of a procedure.\<close>

record picolCmd =
  cname :: bytes
  cfunc :: cmdfunc
  privdata :: "bytes \<times> bytes"

type_synonym frame = "(bytes \<times> bytes) list"

text \<open>The frames are a list from the current one to the top level; \<open>sout\<close> is what was printed.\<close>

record interp =
  level :: int
  callframe :: "frame list"
  commands :: "picolCmd list"
  result :: bytes
  sout :: bytes
  syslog :: "bytes list"

type_synonym pres = "(pstop \<times> interp) + (retcode \<times> interp)"

definition picolInitInterp :: interp where
  "picolInitInterp = \<lparr>level = 0, callframe = [[]], commands = [], result = [], sout = [], syslog = []\<rparr>"

definition picolSetResult :: "interp \<Rightarrow> bytes \<Rightarrow> interp" where
  "picolSetResult i s = i\<lparr>result := s\<rparr>"

definition picolGetVar :: "interp \<Rightarrow> bytes \<Rightarrow> bytes option" where
  "picolGetVar i name = map_of (hd (callframe i)) name"

definition set_frame :: "bytes \<Rightarrow> bytes \<Rightarrow> frame \<Rightarrow> frame" where
  "set_frame name val vars =
     (case map_of vars name of
        Some _ \<Rightarrow> AList.update name val vars
      | None \<Rightarrow> (name, val) # vars)"

definition picolSetVar :: "interp \<Rightarrow> bytes \<Rightarrow> bytes \<Rightarrow> interp" where
  "picolSetVar i name val =
     i\<lparr>callframe := set_frame name val (hd (callframe i)) # tl (callframe i)\<rparr>"

definition picolGetCommand :: "interp \<Rightarrow> bytes \<Rightarrow> picolCmd option" where
  "picolGetCommand i name = List.find (\<lambda>c. cname c = name) (commands i)"

definition picolRegisterCommand :: "interp \<Rightarrow> bytes \<Rightarrow> cmdfunc \<Rightarrow> bytes \<times> bytes \<Rightarrow> retcode \<times> interp" where
  "picolRegisterCommand i name f pd =
     (case picolGetCommand i name of
        Some _ \<Rightarrow> (PICOL_ERR, picolSetResult i
          (snprintf 1024 (str ''Command '' @ [0x27] @ name @ [0x27] @ str '' already defined'')))
      | None \<Rightarrow> (PICOL_OK, i\<lparr>commands := \<lparr>cname = name, cfunc = f, privdata = pd\<rparr> # commands i\<rparr>))"

definition picolArityErr :: "interp \<Rightarrow> bytes \<Rightarrow> retcode \<times> interp" where
  "picolArityErr i name =
     (PICOL_ERR, picolSetResult i (snprintf 1024 (str ''Wrong number of args for '' @ name)))"

section \<open>Commands that run no script\<close>

text \<open>The character of a C string at an index up to its length.\<close>

definition ch :: "bytes \<Rightarrow> nat \<Rightarrow> u8" where
  "ch s k = (if k < length s then s ! k else 0)"

text \<open>
  The operator, on 32-bit values that wrap around.  Division is C's, toward zero.
\<close>

definition bool_long :: "bool \<Rightarrow> int" where
  "bool_long b = (if b then 1 else 0)"

definition math_op :: "bytes \<Rightarrow> int \<Rightarrow> int \<Rightarrow> int" where
  "math_op f a b =
     (if ch f 0 = 0x2b then int32 (a + b)
      else if ch f 0 = 0x2d then int32 (a - b)
      else if ch f 0 = 0x2a then int32 (a * b)
      else if ch f 0 = 0x2f then int32 (sgn a * sgn b * (\<bar>a\<bar> div \<bar>b\<bar>))
      else if ch f 0 = 0x3e \<and> ch f 1 = 0 then bool_long (b < a)
      else if ch f 0 = 0x3e \<and> ch f 1 = 0x3d then bool_long (b \<le> a)
      else if ch f 0 = 0x3c \<and> ch f 1 = 0 then bool_long (a < b)
      else if ch f 0 = 0x3c \<and> ch f 1 = 0x3d then bool_long (a \<le> b)
      else if ch f 0 = 0x3d \<and> ch f 1 = 0x3d then bool_long (a = b)
      else if ch f 0 = 0x21 \<and> ch f 1 = 0x3d then bool_long (a \<noteq> b)
      else 0)"

text \<open>The precedence of the test is that of the source: \<open>(b == 0 && c == '/') || c == '%'\<close>.\<close>

definition picolCommandMath :: "interp \<Rightarrow> bytes list \<Rightarrow> retcode \<times> interp" where
  "picolCommandMath i argv =
     (if length argv \<noteq> 3 then picolArityErr i (argv ! 0)
      else
        let a = atol (argv ! 1); b = atol (argv ! 2) in
        if b = 0 \<and> ch (argv ! 0) 0 = 0x2f \<or> ch (argv ! 0) 0 = 0x25
        then (PICOL_ERR, picolSetResult i (str ''Division by zero''))
        else (PICOL_OK, picolSetResult i (snprintf 64 (dec (math_op (argv ! 0) a b)))))"

definition picolCommandSet :: "interp \<Rightarrow> bytes list \<Rightarrow> retcode \<times> interp" where
  "picolCommandSet i argv =
     (if length argv \<noteq> 3 then picolArityErr i (argv ! 0)
      else (PICOL_OK, picolSetResult (picolSetVar i (argv ! 1) (argv ! 2)) (argv ! 2)))"

definition printf :: "bytes \<Rightarrow> interp \<Rightarrow> interp" where
  "printf s i = i\<lparr>sout := sout i @ s\<rparr>"

definition picolCommandPuts :: "interp \<Rightarrow> bytes list \<Rightarrow> retcode \<times> interp" where
  "picolCommandPuts i argv =
     (if length argv \<noteq> 2 then picolArityErr i (argv ! 0)
      else (PICOL_OK, printf (argv ! 1 @ [10]) i))"

definition picolCommandRetCodes :: "interp \<Rightarrow> bytes list \<Rightarrow> retcode \<times> interp" where
  "picolCommandRetCodes i argv =
     (if length argv \<noteq> 1 then picolArityErr i (argv ! 0)
      else if argv ! 0 = str ''break'' then (PICOL_BREAK, i)
      else if argv ! 0 = str ''continue'' then (PICOL_CONTINUE, i)
      else (PICOL_OK, i))"

definition picolCommandReturn :: "interp \<Rightarrow> bytes list \<Rightarrow> retcode \<times> interp" where
  "picolCommandReturn i argv =
     (if length argv \<noteq> 1 \<and> length argv \<noteq> 2 then picolArityErr i (argv ! 0)
      else (PICOL_RETURN, picolSetResult i (if length argv = 2 then argv ! 1 else [])))"

definition cmd_system :: "(nat \<Rightarrow> bytes \<Rightarrow> int) \<Rightarrow> interp \<Rightarrow> bytes list \<Rightarrow> retcode \<times> interp" where
  "cmd_system sys i argv =
     (if length argv \<noteq> 2 then picolArityErr i (argv ! 0)
      else
        let ret = sys (length (syslog i)) (argv ! 1); i1 = i\<lparr>syslog := syslog i @ [argv ! 1]\<rparr>
        in (PICOL_OK, picolSetResult i1 (snprintf 64 (dec (int32 ret)))))"

section \<open>Procedures\<close>

definition picolCommandProc :: "interp \<Rightarrow> bytes list \<Rightarrow> retcode \<times> interp" where
  "picolCommandProc i argv =
     (if length argv \<noteq> 4 then picolArityErr i (argv ! 0)
      else picolRegisterCommand i (argv ! 1) CallProc (argv ! 2, argv ! 3))"

definition push_frame :: "interp \<Rightarrow> interp" where
  "push_frame i = i\<lparr>callframe := [] # callframe i\<rparr>"

definition picolDropCallFrame :: "interp \<Rightarrow> interp" where
  "picolDropCallFrame i = i\<lparr>callframe := tl (callframe i)\<rparr>"

lemma dropWhile_shorter: "x \<in> set s \<Longrightarrow> length (dropWhile P s) - Suc 0 < length s"
  using length_dropWhile_le [of P s] by (cases s) (auto simp: less_Suc_eq_le)

text \<open>
  The loop that cuts the argument list \<open>s\<close> at its spaces and sets each name to the next
  argument: \<open>None\<close> when there are more names than arguments, else the number of names.
\<close>

function bind_args :: "bytes list \<Rightarrow> bytes \<Rightarrow> nat \<Rightarrow> interp \<Rightarrow> nat option \<times> interp" where
  "bind_args argv s arity i =
     (let w = takeWhile (\<lambda>c. c \<noteq> 32) s; r = dropWhile (\<lambda>c. c \<noteq> 32) s in
      if r \<noteq> [] \<and> w = [] then bind_args argv (tl r) arity i
      else if w = [] then (Some arity, i)
      else if length argv - 1 < arity + 1 then (None, i)
      else
        let i1 = picolSetVar i w (argv ! (arity + 1)) in
        if r = [] then (Some (arity + 1), i1) else bind_args argv (tl r) (arity + 1) i1)"
  by pat_completeness auto

termination
  by (relation "measure (\<lambda>(argv, s, a, i). length s)") (auto simp: dropWhile_shorter)

declare bind_args.simps [simp del]

definition proc_arityerr :: "interp \<Rightarrow> bytes list \<Rightarrow> retcode \<times> interp" where
  "proc_arityerr i argv =
     (PICOL_ERR, picolDropCallFrame (picolSetResult i
        (snprintf 1024 (str ''Proc '' @ [0x27] @ argv ! 0 @ [0x27] @ str '' called with wrong arg num''))))"

section \<open>The evaluator\<close>

text \<open>A new token becomes an argument of its own or is appended to the last one.\<close>

definition add_token :: "tok \<Rightarrow> bytes \<Rightarrow> bytes list \<Rightarrow> pstop + bytes list" where
  "add_token prevtype t argv =
     (if prevtype = PT_SEP \<or> prevtype = PT_EOL then Inr (argv @ [t])
      else if argv = [] then Inl NoArgument
      else Inr (butlast argv @ [last argv @ t]))"

text \<open>The command's return code decides whether the script goes on.\<close>

definition next_if_ok :: "pres \<Rightarrow> (interp \<Rightarrow> pres) \<Rightarrow> pres" where
  "next_if_ok r f = rbind r (\<lambda>(rc, i). if rc \<noteq> PICOL_OK then Inr (rc, i) else f i)"

definition no_such :: "string \<Rightarrow> bytes \<Rightarrow> interp \<Rightarrow> pres" where
  "no_such what t i = Inr (PICOL_ERR, picolSetResult i
     (snprintf 1024 (str (''No such '' @ what @ '' '') @ [0x27] @ t @ [0x27])))"

text \<open>
  The calls the evaluator's functions make of each other: of \<open>picolEval\<close> on a script, of the
  evaluator's loop with its parser and arguments, of a command, and of the loop of \<open>while\<close>.
\<close>

datatype task = Eval bytes | Loop picolParser "bytes list" | Call picolCmd "bytes list" | While "bytes list"

type_synonym runner = "task \<Rightarrow> interp \<Rightarrow> pres"

definition eval_start :: "runner \<Rightarrow> bytes \<Rightarrow> interp \<Rightarrow> pres" where
  "eval_start run t i = run (Loop (picolInitParser t) []) (picolSetResult i [])"

definition append_token :: "runner \<Rightarrow> tok \<Rightarrow> picolParser \<Rightarrow> bytes list \<Rightarrow> bytes \<Rightarrow> interp \<Rightarrow> pres" where
  "append_token run prevtype q argv t i =
     (case add_token prevtype t argv of
        Inl e \<Rightarrow> Inl (e, i)
      | Inr argv' \<Rightarrow> run (Loop q argv') i)"

definition run_command :: "runner \<Rightarrow> picolParser \<Rightarrow> bytes list \<Rightarrow> interp \<Rightarrow> pres" where
  "run_command run q argv i =
     (if argv = [] then run (Loop q []) i
      else case picolGetCommand i (argv ! 0) of
        None \<Rightarrow> no_such ''command'' (argv ! 0) i
      | Some c \<Rightarrow> next_if_ok (run (Call c argv) i) (run (Loop q [])))"

definition eval_loop :: "runner \<Rightarrow> picolParser \<Rightarrow> bytes list \<Rightarrow> interp \<Rightarrow> pres" where
  "eval_loop run p argv i =
     (case picolGetToken p of
        Inl e \<Rightarrow> Inl (e, i)
      | Inr q \<Rightarrow>
        (case ttype q of
           PT_EOF \<Rightarrow> Inr (PICOL_OK, i)
         | PT_VAR \<Rightarrow> (case picolGetVar i (tok_text q) of
               None \<Rightarrow> no_such ''variable'' (tok_text q) i
             | Some v \<Rightarrow> append_token run (ttype p) q argv v i)
         | PT_CMD \<Rightarrow> next_if_ok (run (Eval (tok_text q)) i)
               (\<lambda>i1. append_token run (ttype p) q argv (result i1) i1)
         | PT_SEP \<Rightarrow> run (Loop q argv) i
         | PT_EOL \<Rightarrow> run_command run q argv i
         | PT_ESC \<Rightarrow> append_token run (ttype p) q argv (tok_text q) i
         | PT_STR \<Rightarrow> append_token run (ttype p) q argv (tok_text q) i))"

definition picolCommandIf :: "runner \<Rightarrow> interp \<Rightarrow> bytes list \<Rightarrow> pres" where
  "picolCommandIf run i argv =
     (if length argv \<noteq> 3 \<and> length argv \<noteq> 5 then Inr (picolArityErr i (argv ! 0))
      else next_if_ok (run (Eval (argv ! 1)) i) (\<lambda>i1.
        if atol (result i1) \<noteq> 0 then run (Eval (argv ! 2)) i1
        else if length argv = 5 then run (Eval (argv ! 4)) i1
        else Inr (PICOL_OK, i1)))"

definition while_loop :: "runner \<Rightarrow> bytes list \<Rightarrow> interp \<Rightarrow> pres" where
  "while_loop run argv i =
     next_if_ok (run (Eval (argv ! 1)) i) (\<lambda>i1.
       if atol (result i1) \<noteq> 0 then
         rbind (run (Eval (argv ! 2)) i1) (\<lambda>(rc, i2).
           if rc = PICOL_CONTINUE then run (While argv) i2
           else if rc = PICOL_OK then run (While argv) i2
           else if rc = PICOL_BREAK then Inr (PICOL_OK, i2)
           else Inr (rc, i2))
       else Inr (PICOL_OK, i1))"

definition picolCommandWhile :: "runner \<Rightarrow> interp \<Rightarrow> bytes list \<Rightarrow> pres" where
  "picolCommandWhile run i argv =
     (if length argv \<noteq> 3 then Inr (picolArityErr i (argv ! 0)) else run (While argv) i)"

definition picolCommandCallProc :: "runner \<Rightarrow> interp \<Rightarrow> bytes list \<Rightarrow> bytes \<times> bytes \<Rightarrow> pres" where
  "picolCommandCallProc run i argv pd =
     (case bind_args argv (fst pd) 0 (push_frame i) of
        (None, i1) \<Rightarrow> Inr (proc_arityerr i1 argv)
      | (Some arity, i1) \<Rightarrow>
          if arity \<noteq> length argv - 1 then Inr (proc_arityerr i1 argv)
          else rbind (run (Eval (snd pd)) i1) (\<lambda>(rc, i2).
            Inr (if rc = PICOL_RETURN then PICOL_OK else rc, picolDropCallFrame i2)))"

definition call_func :: "(nat \<Rightarrow> bytes \<Rightarrow> int) \<Rightarrow> runner \<Rightarrow> picolCmd \<Rightarrow> interp \<Rightarrow> bytes list \<Rightarrow> pres" where
  "call_func sys run c i argv =
     (case cfunc c of
        Math \<Rightarrow> Inr (picolCommandMath i argv)
      | Set_cmd \<Rightarrow> Inr (picolCommandSet i argv)
      | Puts \<Rightarrow> Inr (picolCommandPuts i argv)
      | If_cmd \<Rightarrow> picolCommandIf run i argv
      | While_cmd \<Rightarrow> picolCommandWhile run i argv
      | RetCodes \<Rightarrow> Inr (picolCommandRetCodes i argv)
      | Proc \<Rightarrow> Inr (picolCommandProc i argv)
      | CallProc \<Rightarrow> picolCommandCallProc run i argv (privdata c)
      | Return \<Rightarrow> Inr (picolCommandReturn i argv)
      | System \<Rightarrow> Inr (cmd_system sys i argv))"

definition dispatch :: "(nat \<Rightarrow> bytes \<Rightarrow> int) \<Rightarrow> runner \<Rightarrow> runner" where
  "dispatch sys run task i =
     (case task of
        Eval t \<Rightarrow> eval_start run t i
      | Loop p argv \<Rightarrow> eval_loop run p argv i
      | Call c argv \<Rightarrow> call_func sys run c i argv
      | While argv \<Rightarrow> while_loop run argv i)"

primrec picol_run :: "(nat \<Rightarrow> bytes \<Rightarrow> int) \<Rightarrow> nat \<Rightarrow> runner" where
  "picol_run sys 0 = (\<lambda>task i. Inl (OutOfFuel, i))"
| "picol_run sys (Suc n) = dispatch sys (picol_run sys n)"

definition picolEval :: "(nat \<Rightarrow> bytes \<Rightarrow> int) \<Rightarrow> nat \<Rightarrow> interp \<Rightarrow> bytes \<Rightarrow> pres" where
  "picolEval sys n i t = picol_run sys n (Eval t) i"

section \<open>The program\<close>

definition register :: "string \<Rightarrow> cmdfunc \<Rightarrow> interp \<Rightarrow> interp" where
  "register name f i = snd (picolRegisterCommand i (str name) f ([], []))"

definition picolRegisterCoreCommands :: "interp \<Rightarrow> interp" where
  "picolRegisterCoreCommands i =
     (let i = fold (\<lambda>name. register name Math)
                [''+'', ''-'', ''*'', ''/'', ''>'', ''>='', ''<'', ''<='', ''=='', ''!=''] i;
          i = register ''set'' Set_cmd i;
          i = register ''puts'' Puts i;
          i = register ''if'' If_cmd i;
          i = register ''while'' While_cmd i;
          i = register ''break'' RetCodes i;
          i = register ''continue'' RetCodes i;
          i = register ''proc'' Proc i;
          i = register ''return'' Return i
      in i)"

definition init_brett :: "interp \<Rightarrow> interp" where
  "init_brett i = register ''system'' System i"

text \<open>\<open>fgets(clibuf, 1024, stdin)\<close>: a line with its newline, at most 1023 characters of it.\<close>

definition read_line :: "bytes \<Rightarrow> bytes \<times> bytes" where
  "read_line b =
     (let l = takeWhile (\<lambda>c. c \<noteq> 10) b; n = min 1023 (min (length b) (length l + 1))
      in (take n b, drop n b))"

lemma read_line_shorter: "b \<noteq> [] \<Longrightarrow> length (snd (read_line b)) < length b"
  by (simp add: read_line_def Let_def)

fun rc_num :: "retcode \<Rightarrow> int" where
  "rc_num PICOL_OK = 0"
| "rc_num PICOL_ERR = 1"
| "rc_num PICOL_RETURN = 2"
| "rc_num PICOL_BREAK = 3"
| "rc_num PICOL_CONTINUE = 4"

text \<open>The interactive loop: each line is evaluated with the same fuel.\<close>

function picol_repl :: "(nat \<Rightarrow> bytes \<Rightarrow> int) \<Rightarrow> nat \<Rightarrow> bytes \<Rightarrow> interp \<Rightarrow> (pstop \<times> interp) + (int \<times> interp)" where
  "picol_repl sys n b i =
     (let i = printf (str ''picol> '') i in
      if b = [] then Inr (0, i)
      else rbind (picolEval sys n i (c_str (fst (read_line b)))) (\<lambda>(rc, i1).
        picol_repl sys n (snd (read_line b))
          (if result i1 \<noteq> [] then printf (str ''['' @ dec (rc_num rc) @ str ''] '' @ result i1 @ [10]) i1
           else i1)))"
  by pat_completeness auto
termination
  by (relation "measure (\<lambda>(sys, n, b, i). length b)") (simp_all add: read_line_shorter)

declare picol_repl.simps [simp del]

text \<open>
  A script file: \<open>buf\<close> has 8192 bytes, and \<open>buf[fread(buf, 1, 8192, fp)] = 0\<close> writes the byte
  after it when the file has that many.
\<close>

definition picol_script :: "(nat \<Rightarrow> bytes \<Rightarrow> int) \<Rightarrow> nat \<Rightarrow> bytes option \<Rightarrow> interp \<Rightarrow> (pstop \<times> interp) + (int \<times> interp)" where
  "picol_script sys n file i =
     (case file of
        None \<Rightarrow> Inl (Exit, i)
      | Some f \<Rightarrow>
          let got = take 8192 f in
          if length got \<ge> 8192 then Inl (Overflow, i)
          else rbind (picolEval sys n i (c_str got)) (\<lambda>(rc, i1).
            Inr (0, if rc \<noteq> PICOL_OK then printf (result i1 @ [10]) i1 else i1)))"

text \<open>\<open>main\<close>, with the standard input and the contents of the files by name.\<close>

definition picol_main ::
  "(nat \<Rightarrow> bytes \<Rightarrow> int) \<Rightarrow> nat \<Rightarrow> bytes list \<Rightarrow> bytes \<Rightarrow> (bytes \<Rightarrow> bytes option) \<Rightarrow> (pstop \<times> interp) + (int \<times> interp)" where
  "picol_main sys n argv input files =
     (let i = init_brett (picolRegisterCoreCommands picolInitInterp) in
      if length argv = 1 then picol_repl sys n input i
      else if length argv = 2 then picol_script sys n (files (argv ! 1)) i
      else Inr (0, i))"

end
