(* ===== verification/Picol_Lex.thy ===== *)
theory Picol_Lex
  imports Picol_Parse
begin

text \<open>
  Facts about the tokenizer: it stays inside the script but for the one overrun of a bracketed
  command, every call makes progress, and the tokens of a script as a list.
\<close>

section \<open>Staying inside the script\<close>

text \<open>\<open>len\<close> counts what is left after \<open>pos\<close>; the characters left are \<open>rest\<close>.\<close>

definition len_ok :: "picolParser \<Rightarrow> bool" where
  "len_ok p \<longleftrightarrow> len p = int (length (ptext p)) - int (pos p)"

definition rest :: "picolParser \<Rightarrow> bytes" where
  "rest p = drop (pos p) (ptext p)"

lemma at_updates [simp]:
  "at (p\<lparr>ttype := t\<rparr>) = at p" "at (p\<lparr>insidequote := b\<rparr>) = at p" "at (p\<lparr>tend := e\<rparr>) = at p"
  "at (p\<lparr>tstart := s\<rparr>) = at p" "at (end_before t p) = at p"
  by (simp_all add: at_def)

text \<open>Where a parse function may leave a parser: later in the same script.\<close>

definition later :: "picolParser \<Rightarrow> picolParser \<Rightarrow> bool" where
  "later p q \<longleftrightarrow> ptext q = ptext p \<and> len_ok q \<and> pos p \<le> pos q"

lemma later_refl: "len_ok p \<Longrightarrow> later p p"
  by (simp add: later_def)

lemma later_trans: "later p q \<Longrightarrow> later q r \<Longrightarrow> later p r"
  by (simp add: later_def)

lemma later_adv: "len_ok p \<Longrightarrow> later p (adv p)"
  by (simp add: later_def len_ok_def)

lemma later_adv_trans: "len_ok p \<Longrightarrow> (len_ok (adv p) \<Longrightarrow> later (adv p) q) \<Longrightarrow> later p q"
  using later_adv later_trans later_def by blast

lemma later_updates [simp]:
  "later p (q\<lparr>ttype := t\<rparr>) = later p q"
  "later p (q\<lparr>insidequote := b\<rparr>) = later p q"
  "later p (q\<lparr>tend := e\<rparr>) = later p q"
  "later p (q\<lparr>tstart := s\<rparr>) = later p q"
  "later p (end_before t q) = later p q"
  "later (p\<lparr>insidequote := b\<rparr>) q = later p q"
  "later (p\<lparr>tstart := s\<rparr>) q = later p q"
  by (simp_all add: later_def len_ok_def)

lemma len_ok_updates [simp]:
  "len_ok (q\<lparr>ttype := t\<rparr>) = len_ok q"
  "len_ok (q\<lparr>insidequote := b\<rparr>) = len_ok q"
  "len_ok (q\<lparr>tend := e\<rparr>) = len_ok q"
  "len_ok (q\<lparr>tstart := s\<rparr>) = len_ok q"
  "len_ok (end_before t q) = len_ok q"
  "len_ok (adv q) = len_ok q"
  by (auto simp: len_ok_def)

lemma later_skip: "len_ok p \<Longrightarrow> later p (skip c p)"
proof (induction c p rule: skip.induct)
  case (1 c p)
  then show ?case
    by (subst skip.simps) (auto simp: later_refl intro: later_trans [OF later_adv])
qed

lemma skip_fields:
  "tstart (skip c p) = tstart p \<and> ttype (skip c p) = ttype p \<and> insidequote (skip c p) = insidequote p"
proof (induction c p rule: skip.induct)
  case (1 c p)
  then show ?case by (subst (1 2 3) skip.simps) simp
qed

lemma pos_skip: "len_ok p \<Longrightarrow> 0 \<le> len p \<Longrightarrow> 0 \<le> len (skip c p)"
proof (induction c p rule: skip.induct)
  case (1 c p)
  then show ?case by (subst skip.simps) (auto dest: at_inside simp: len_ok_def)
qed

lemma skip_moves: "at p \<noteq> 0 \<Longrightarrow> c (at p) \<Longrightarrow> skip c p = skip c (adv p)"
  by (subst skip.simps) simp

text \<open>The token of a parser is a part of the script.\<close>

definition token_ok :: "picolParser \<Rightarrow> bool" where
  "token_ok p \<longleftrightarrow> int (tstart p) \<le> tend p + 1 \<and> tend p < int (length (ptext p))"

definition parser_ok :: "picolParser \<Rightarrow> bool" where
  "parser_ok p \<longleftrightarrow> len_ok p \<and> 0 \<le> len p \<and> (token_ok p \<or> ttype p = PT_EOL)"

text \<open>What a call that reads at least one character delivers.\<close>

definition took :: "picolParser \<Rightarrow> picolParser \<Rightarrow> bool" where
  "took p q \<longleftrightarrow> ptext q = ptext p \<and> len_ok q \<and> 0 \<le> len q \<and> len q < len p \<and> token_ok q \<and> ttype q \<noteq> PT_EOF"

lemma tookI:
  assumes "later p q" and "len_ok p" and "pos p < pos q" and "0 \<le> len q"
    and "int (tstart q) \<le> tend q + 1" and "tend q < int (pos q)" and "ttype q \<noteq> PT_EOF"
  shows "took p q"
  using assms by (auto simp: took_def later_def len_ok_def token_ok_def)

lemma skip_took:
  assumes "len_ok p" and "at p \<noteq> 0" and "c (at p)" and "t \<noteq> PT_EOF"
  shows "took p (end_before t (skip c (start_here p)))"
proof -
  let ?s = "start_here p" and ?q = "skip c (start_here p)"
  have m: "at ?s \<noteq> 0" "c (at ?s)" using assms by simp_all
  have i: "0 \<le> len ?s" using at_inside [OF assms(2)] assms(1) by (simp add: len_ok_def)
  have q: "later ?s ?q" "0 \<le> len ?q" "tstart ?q = pos p"
    using later_skip [of ?s c] pos_skip [OF _ i, of c] skip_fields [of c ?s] assms(1) by simp_all
  have "later (adv ?s) ?q" unfolding skip_moves [of ?s c, OF m] using assms(1) by (intro later_skip) simp
  then have "pos p < pos ?q" by (simp add: later_def)
  with q assms show ?thesis by (intro tookI) simp_all
qed

lemma picolParseSep_took: "len_ok p \<Longrightarrow> at p \<noteq> 0 \<Longrightarrow> isblank_sep (at p) \<Longrightarrow> took p (picolParseSep p)"
  unfolding picolParseSep_def by (rule skip_took) simp_all

lemma picolParseEol_took:
  "len_ok p \<Longrightarrow> at p \<noteq> 0 \<Longrightarrow> isblank_sep (at p) \<or> at p = 0x3b \<Longrightarrow> took p (picolParseEol p)"
  unfolding picolParseEol_def by (rule skip_took) simp_all

lemma picolParseVar_took:
  assumes "len_ok p" and "0 < len p"
  shows "took p (picolParseVar p)"
proof -
  let ?s = "start_here (adv p)" let ?q = "skip isname ?s"
  have s: "len_ok ?s" "0 \<le> len ?s" using assms by simp_all
  have q: "later ?s ?q" "0 \<le> len ?q" "tstart ?q = pos p + 1"
    using later_skip [OF s(1)] pos_skip [OF s] skip_fields [of isname ?s] by simp_all
  then have "pos p < pos ?q" "later p ?q" by (simp_all add: later_def)
  with q assms(1) show ?thesis
    unfolding picolParseVar_def Let_def by (auto intro!: tookI simp: end_before_def)
qed

text \<open>The loops over commands, braces and strings.\<close>

definition loop_ok :: "picolParser \<Rightarrow> picolParser \<Rightarrow> bool" where
  "loop_ok p q \<longleftrightarrow> later p q \<and> 0 \<le> len q \<and> tstart q = tstart p"

lemma loop_ok_adv: "len_ok p \<Longrightarrow> loop_ok (adv p) q \<Longrightarrow> loop_ok p q"
  by (auto simp: loop_ok_def intro: later_trans [OF later_adv])

text \<open>The results of the loops: they overrun only a script with a backslash in it.\<close>

definition ran_ok :: "picolParser \<Rightarrow> pstop + picolParser \<Rightarrow> bool" where
  "ran_ok p r \<longleftrightarrow>
     (case r of Inl e \<Rightarrow> e = Overrun \<and> (len p < 0 \<or> 0x5c \<in> set (ptext p)) | Inr q \<Rightarrow> loop_ok p q)"

lemma ran_ok_simps [simp]:
  "ran_ok p (Inl e) \<longleftrightarrow> e = Overrun \<and> (len p < 0 \<or> 0x5c \<in> set (ptext p))"
  "ran_ok p (Inr q) \<longleftrightarrow> loop_ok p q"
  by (simp_all add: ran_ok_def)

lemma ran_ok_if: "(c \<Longrightarrow> ran_ok p a) \<Longrightarrow> (\<not> c \<Longrightarrow> ran_ok p b) \<Longrightarrow> ran_ok p (if c then a else b)"
  by simp

lemma ran_ok_adv: "len_ok p \<Longrightarrow> 0 < len p \<Longrightarrow> ran_ok (adv p) r \<Longrightarrow> ran_ok p r"
  by (cases r) (auto intro: loop_ok_adv [of p])

lemma at_in: "at p = c \<Longrightarrow> c \<noteq> 0 \<Longrightarrow> c \<in> set (ptext p)"
proof -
  assume c: "at p = c" "c \<noteq> 0"
  then have "pos p < length (ptext p)" by (intro at_inside) simp
  with c(1) show ?thesis unfolding at_def by (metis nth_mem)
qed

lemma backslash_in: "at p = 0x5c \<Longrightarrow> 0x5c \<in> set (ptext p)"
  by (rule at_in) simp_all

lemma ran_ok_adv2: "len_ok p \<Longrightarrow> at p = 0x5c \<Longrightarrow> ran_ok (adv (adv p)) r \<Longrightarrow> ran_ok p r"
  using backslash_in [of p] by (cases r) (auto intro!: loop_ok_adv [of p] loop_ok_adv [of "adv p"])

lemma loop_ok_refl: "len_ok p \<Longrightarrow> 0 \<le> len p \<Longrightarrow> loop_ok p p"
  by (simp add: loop_ok_def later_refl)

lemma command_loop_ok: "len_ok p \<Longrightarrow> ran_ok p (command_loop l b p)"
proof (induction l b p rule: command_loop.induct)
  case (1 l b p)
  show ?case
    unfolding command_loop.simps [of l b p]
    by (intro ran_ok_if) (use 1 in \<open>auto intro: ran_ok_adv [of p] ran_ok_adv2 [of p] loop_ok_refl\<close>)
qed


text \<open>The loops over braces and strings stay inside the script whatever it holds.\<close>

definition ends_ok :: "picolParser \<Rightarrow> pstop + picolParser \<Rightarrow> bool" where
  "ends_ok p r \<longleftrightarrow>
     (\<exists>q. r = Inr q \<and> loop_ok p q \<and> int (pos p) - 1 \<le> tend q \<and> tend q < int (pos q) \<and> ttype q \<noteq> PT_EOF)"

lemma ends_ok_if: "(c \<Longrightarrow> ends_ok p a) \<Longrightarrow> (\<not> c \<Longrightarrow> ends_ok p b) \<Longrightarrow> ends_ok p (if c then a else b)"
  by simp

lemma ends_ok_adv: "len_ok p \<Longrightarrow> ends_ok (adv p) r \<Longrightarrow> ends_ok p r"
  by (auto simp: ends_ok_def dest: loop_ok_adv)

lemma ends_ok_Inr [simp]:
  "ends_ok p (Inr q) \<longleftrightarrow>
     loop_ok p q \<and> int (pos p) - 1 \<le> tend q \<and> tend q < int (pos q) \<and> ttype q \<noteq> PT_EOF"
  by (simp add: ends_ok_def)

lemma loop_ok_updates [simp]:
  "loop_ok p (q\<lparr>ttype := t\<rparr>) = loop_ok p q"
  "loop_ok p (q\<lparr>insidequote := b\<rparr>) = loop_ok p q"
  "loop_ok p (q\<lparr>tend := e\<rparr>) = loop_ok p q"
  "loop_ok p (end_before t q) = loop_ok p q"
  by (simp_all add: loop_ok_def)

lemma loop_ok_one: "len_ok p \<Longrightarrow> 0 < len p \<Longrightarrow> loop_ok p (adv p)"
  by (simp add: loop_ok_def later_adv)

lemma adv_updates:
  "adv (p\<lparr>ttype := t\<rparr>) = (adv p)\<lparr>ttype := t\<rparr>"
  "adv (p\<lparr>tend := e\<rparr>) = (adv p)\<lparr>tend := e\<rparr>"
  "adv (end_before t p) = (adv p)\<lparr>tend := int (pos p) - 1, ttype := t\<rparr>"
  by (simp_all add: adv_def end_before_def)

lemma brace_loop_ok: "len_ok p \<Longrightarrow> 0 \<le> len p \<Longrightarrow> ends_ok p (brace_loop l p)"
proof (induction l p rule: brace_loop.induct)
  case (1 l p)
  have two: "ends_ok p r" if "2 \<le> len p" "ends_ok (adv (adv p)) r" for r
    using that 1(5) by (intro ends_ok_adv [of p] ends_ok_adv [of "adv p"]) simp_all
  show ?case
    unfolding brace_loop.simps [of l p]
    by (intro ends_ok_if)
      (use 1 in \<open>auto intro: ends_ok_adv [of p] two simp: Let_def adv_updates loop_ok_one loop_ok_refl\<close>)
qed

lemma string_loop_ok: "len_ok p \<Longrightarrow> 0 \<le> len p \<Longrightarrow> ends_ok p (string_loop p)"
proof (induction p rule: string_loop.induct)
  case (1 p)
  have two: "ends_ok p r" if "2 \<le> len p" "ends_ok (adv (adv p)) r" for r
    using that 1(3) by (intro ends_ok_adv [of p] ends_ok_adv [of "adv p"]) simp_all
  show ?case
    unfolding string_loop.simps [of p]
    by (intro ends_ok_if)
      (use 1 in \<open>auto intro: ends_ok_adv [of p] two simp: adv_updates loop_ok_one loop_ok_refl\<close>)
qed

section \<open>Progress\<close>

lemma loop_ok_pos: "loop_ok (adv p) q \<Longrightarrow> pos p < pos q"
  by (simp add: loop_ok_def later_def)

lemma string_loop_moves:
  assumes p: "len_ok p" "0 < len p" and c: "at p \<noteq> 0x24" "at p \<noteq> 0x5b"
    and b: "isblank_sep (at p) \<or> at p = 0x3b \<Longrightarrow> insidequote p"
  shows "\<exists>q. string_loop p = Inr q \<and> pos p < pos q"
proof -
  have e: "\<exists>q. string_loop q0 = Inr q \<and> pos p < pos q" if "loop_ok (adv p) q0" for q0
  proof -
    from that have "len_ok q0" "0 \<le> len q0" "pos p < pos q0" by (simp_all add: loop_ok_def later_def)
    then show ?thesis using string_loop_ok [of q0] by (auto simp: ends_ok_def loop_ok_def later_def)
  qed
  have a: "len_ok (adv p)" "0 \<le> len (adv p)" using p by simp_all
  consider "at p = 0x5c" | "at p = 0x22" "insidequote p" | "at p \<noteq> 0x5c" "\<not> (at p = 0x22 \<and> insidequote p)"
    by blast
  then show ?thesis
  proof cases
    case 1
    then have "string_loop p = string_loop (if 2 \<le> len p then adv (adv p) else adv p)"
      using p by (subst string_loop.simps) simp
    with e loop_ok_refl [OF a] loop_ok_one [OF a(1)] show ?thesis by simp
  next
    case 2
    then show ?thesis using p c by (subst string_loop.simps) simp
  next
    case 3
    with b have "string_loop p = string_loop (adv p)" using p c by (subst string_loop.simps) auto
    with e loop_ok_refl [OF a] show ?thesis by simp
  qed
qed

lemma picolParseString_took:
  assumes p: "len_ok p" "0 < len p" and c: "at p \<noteq> 0x24" "at p \<noteq> 0x5b"
    and b: "isblank_sep (at p) \<or> at p = 0x3b \<Longrightarrow> insidequote p"
  shows "\<exists>q. picolParseString p = Inr q \<and> took p q"
proof -
  have t: "\<exists>q. r = Inr q \<and> took p q"
    if "ends_ok s r" "later p s" "0 \<le> len s" "tstart s = pos s" "\<And>q. r = Inr q \<Longrightarrow> pos p < pos q" for s r
  proof -
    from that(1) obtain q where q: "r = Inr q" "loop_ok s q" "int (pos s) - 1 \<le> tend q"
      "tend q < int (pos q)" "ttype q \<noteq> PT_EOF" by (auto simp: ends_ok_def)
    with that p(1) have "took p q"
      by (intro tookI) (auto simp: loop_ok_def intro: later_trans)
    with q(1) show ?thesis by blast
  qed
  let ?w = "ttype p = PT_SEP \<or> ttype p = PT_EOL \<or> ttype p = PT_STR"
  let ?s = "start_here (adv p)" let ?i = "start_here (adv (p\<lparr>insidequote := True\<rparr>))"
  have s: "len_ok ?s" "0 \<le> len ?s" "len_ok ?i" "0 \<le> len ?i" "later p ?s" "later p ?i"
    using p later_adv [of "p\<lparr>insidequote := True\<rparr>"] by (simp_all add: later_adv)
  consider (brace) "?w" "at p = 0x7b" | (quote) "?w" "at p = 0x22"
    | (word) "\<not> (?w \<and> at p = 0x7b)" "\<not> (?w \<and> at p = 0x22)" by blast
  then show ?thesis
  proof cases
    case brace
    have e: "ends_ok ?s (brace_loop 1 ?s)" using s by (intro brace_loop_ok)
    from brace have "picolParseString p = brace_loop 1 ?s"
      by (simp add: picolParseString_def picolParseBrace_def)
    moreover have "\<exists>q. brace_loop 1 ?s = Inr q \<and> took p q"
      using e s by (intro t [of ?s]) (auto simp: loop_ok_def later_def)
    ultimately show ?thesis by simp
  next
    case quote
    have e: "ends_ok ?i (string_loop ?i)" using s by (intro string_loop_ok)
    from quote have "picolParseString p = string_loop ?i"
      by (simp add: picolParseString_def)
    moreover have "\<exists>q. string_loop ?i = Inr q \<and> took p q"
      using e s by (intro t [of ?i]) (auto simp: loop_ok_def later_def)
    ultimately show ?thesis by simp
  next
    case word
    have h: "later p (start_here p)" "len_ok (start_here p)" "0 \<le> len (start_here p)"
      using p by (simp_all add: later_def)
    have e: "ends_ok (start_here p) (string_loop (start_here p))" using h by (intro string_loop_ok)
    from word have "picolParseString p = string_loop (start_here p)"
      by (auto simp: picolParseString_def)
    moreover have "\<exists>q. string_loop (start_here p) = Inr q \<and> took p q"
      using e h string_loop_moves [of "start_here p"] p c b by (intro t [of "start_here p"]) auto
    ultimately show ?thesis by simp
  qed
qed

lemma picolParseCommand_took:
  assumes p: "len_ok p" "0 < len p"
  shows "case picolParseCommand p of Inl e \<Rightarrow> e = Overrun \<and> 0x5c \<in> set (ptext p) | Inr q \<Rightarrow> took p q"
proof -
  let ?s = "start_here (adv p)"
  have r: "ran_ok ?s (command_loop 1 0 ?s)" using p by (intro command_loop_ok) simp
  show ?thesis
  proof (cases "command_loop 1 0 ?s")
    case (Inl e)
    with r p show ?thesis by (simp add: picolParseCommand_def)
  next
    case (Inr q)
    let ?q = "end_before PT_CMD q" let ?r = "if at ?q = 0x5d then adv ?q else ?q"
    from r Inr have q: "later ?s q" "0 \<le> len q" "tstart q = pos p + 1" by (simp_all add: loop_ok_def)
    then have pos: "pos p + 1 \<le> pos q" "len_ok q" "ptext q = ptext p" by (simp_all add: later_def)
    have one: "0 < len q" if "at q = 0x5d"
    proof -
      have "pos q < length (ptext q)" by (rule at_inside) (simp add: that)
      with pos(2) show ?thesis by (simp add: len_ok_def)
    qed
    have "took p ?r"
      using q pos one by (intro tookI p) (auto simp: adv_updates later_def)
    with Inr show ?thesis by (simp add: picolParseCommand_def Let_def)
  qed
qed

lemma comment_ok:
  "len_ok p \<Longrightarrow> 0 \<le> len p \<Longrightarrow>
   later p (picolParseComment p) \<and> 0 \<le> len (picolParseComment p) \<and> ttype (picolParseComment p) = ttype p"
proof (induction p rule: picolParseComment.induct)
  case (1 p)
  then show ?case
    by (subst (1 2 3) picolParseComment.simps) (auto simp: later_refl intro: later_trans [OF later_adv])
qed

lemma comment_moves:
  assumes "0 < len p" "at p \<noteq> 10"
  shows "len (picolParseComment p) < len p"
proof -
  from assms have "picolParseComment p = picolParseComment (adv p)" by (subst picolParseComment.simps) simp
  with comment_len [of "adv p"] show ?thesis by simp
qed

text \<open>
  What a call for a token delivers: a token from the characters left, or the end of the last
  line or of the script.
\<close>

definition got :: "picolParser \<Rightarrow> picolParser \<Rightarrow> bool" where
  "got p q \<longleftrightarrow> ptext q = ptext p \<and> len_ok q \<and>
     (took p q \<or>
      len q = 0 \<and> (ttype q = PT_EOF \<or> ttype q = PT_EOL \<and> ttype p \<noteq> PT_EOL \<and> ttype p \<noteq> PT_EOF \<and> (token_ok p \<longrightarrow> token_ok q)))"

lemma took_got: "took p q \<Longrightarrow> got p q"
  by (simp add: got_def took_def)

definition gets :: "picolParser \<Rightarrow> pstop + picolParser \<Rightarrow> bool" where
  "gets p r \<longleftrightarrow> (case r of Inl e \<Rightarrow> e = Overrun \<and> 0x5c \<in> set (ptext p) | Inr q \<Rightarrow> got p q)"

lemma gets_if: "(c \<Longrightarrow> gets p a) \<Longrightarrow> (\<not> c \<Longrightarrow> gets p b) \<Longrightarrow> gets p (if c then a else b)"
  by simp

lemma gets_took: "took p q \<Longrightarrow> gets p (Inr q)"
  by (simp add: gets_def took_got)

lemma gets_string:
  "len_ok p \<Longrightarrow> 0 < len p \<Longrightarrow> at p \<noteq> 0x24 \<Longrightarrow> at p \<noteq> 0x5b \<Longrightarrow>
   (isblank_sep (at p) \<or> at p = 0x3b \<longrightarrow> insidequote p) \<Longrightarrow> gets p (picolParseString p)"
  using picolParseString_took [of p] by (auto simp: gets_def took_got)

lemma gets_comment:
  assumes "len_ok p" "0 < len p" "at p = 0x23" "ttype p = PT_EOL"
    and g: "gets (picolParseComment p) r"
  shows "gets p r"
proof -
  let ?c = "picolParseComment p"
  have c: "later p ?c" "0 \<le> len ?c" "ttype ?c = PT_EOL" "len ?c < len p"
    using comment_ok [of p] comment_moves [of p] assms(1-4) by simp_all
  with g show ?thesis by (cases r) (auto simp: gets_def got_def took_def later_def)
qed

lemma get_token_got: "len_ok p \<Longrightarrow> 0 \<le> len p \<Longrightarrow> gets p (picolGetToken p)"
proof (induction p rule: picolGetToken.induct)
  case (1 p)
  note p = 1(2,3)
  have nz: "at p \<noteq> 0 \<Longrightarrow> 0 < len p" using p at_inside [of p] by (simp add: len_ok_def)
  have com: "gets p (picolGetToken (picolParseComment p))"
    if "at p = 0x23" "ttype p = PT_EOL" "len p \<noteq> 0" "\<not> (at p = 0x24)" "\<not> (at p = 0x5b)"
  proof (rule gets_comment [OF p(1)])
    show "gets (picolParseComment p) (picolGetToken (picolParseComment p))"
      using that p comment_ok [OF p] by (intro 1(1)) (simp_all add: later_def)
  qed (use that p in simp_all)
  show ?case
    unfolding picolGetToken.simps [of p]
  proof (intro gets_if)
    assume "len p = 0"
    then show "gets p (Inr (p\<lparr>ttype := (if ttype p \<noteq> PT_EOL \<and> ttype p \<noteq> PT_EOF then PT_EOL else PT_EOF)\<rparr>))"
      using p by (simp add: gets_def got_def token_ok_def)
  next
    assume "at p = 0x5b"
    then show "gets p (picolParseCommand p)"
      using p picolParseCommand_took [of p] nz by (auto simp: gets_def took_got split: sum.splits)
  next
    assume "at p = 0x23 \<and> ttype p = PT_EOL" "len p \<noteq> 0"
    then show "gets p (picolGetToken (picolParseComment p))" using com by simp
  qed (use p in \<open>auto intro!: gets_took gets_string picolParseSep_took picolParseEol_took picolParseVar_took simp: isblank_sep_def\<close>)
qed

end
