(* ===== verification/Picol_Inv.thy ===== *)
theory Picol_Inv
  imports Picol Picol_Lex "HOL-Library.Sublist"
begin

text \<open>
  The invariant of the interpreter and how a run changes its state: the names of commands and
  of the variables of a frame are distinct, the frames of the callers stay as they are,
  commands are only added, and a run stops by an overrun of the tokenizer or for lack of fuel
  only.
\<close>

section \<open>Variables as maps\<close>

definition frame_ok :: "frame \<Rightarrow> bool" where
  "frame_ok f \<longleftrightarrow> distinct (map fst f)"

lemma set_frame_map: "map_of (set_frame n v f) = (map_of f)(n \<mapsto> v)"
  by (simp add: set_frame_def update_conv' split: option.split)

lemma set_frame_ok: "frame_ok f \<Longrightarrow> frame_ok (set_frame n v f)"
  by (auto simp: set_frame_def frame_ok_def distinct_update map_of_eq_None_iff split: option.split)

definition interp_ok :: "interp \<Rightarrow> bool" where
  "interp_ok i \<longleftrightarrow> callframe i \<noteq> [] \<and> (\<forall>f \<in> set (callframe i). frame_ok f) \<and> distinct (map cname (commands i))"

lemma interp_ok_updates [simp]:
  "interp_ok (picolSetResult i s) = interp_ok i"
  "interp_ok (printf s i) = interp_ok i"
  "interp_ok (i\<lparr>syslog := l\<rparr>) = interp_ok i"
  by (simp_all add: interp_ok_def picolSetResult_def printf_def)

lemma interp_ok_SetVar: "interp_ok i \<Longrightarrow> interp_ok (picolSetVar i n v)"
  by (cases "callframe i") (auto simp: interp_ok_def picolSetVar_def set_frame_ok)

lemma picolGetVar_SetVar: "picolGetVar (picolSetVar i n v) m = (if m = n then Some v else picolGetVar i m)"
  by (simp add: picolGetVar_def picolSetVar_def set_frame_map)

lemma picolGetVar_SetResult [simp]: "picolGetVar (picolSetResult i s) n = picolGetVar i n"
  by (simp add: picolGetVar_def picolSetResult_def)

text \<open>The variables of the current frame are a store of blocks by name.\<close>

interpretation pvars: block_store picolGetVar "\<lambda>n v i. picolSetVar i n (the v)" interp_ok "\<lambda>_. True" "\<lambda>v. v \<noteq> None"
  by unfold_locales (auto simp: picolGetVar_SetVar interp_ok_SetVar)

section \<open>Commands\<close>

lemma find_name:
  "distinct (map cname cs) \<Longrightarrow> List.find (\<lambda>c. cname c = n) cs = Some c \<longleftrightarrow> c \<in> set cs \<and> cname c = n"
  by (induction cs) (auto simp: image_iff)

lemma find_none: "List.find (\<lambda>c. cname c = n) cs = None \<longleftrightarrow> n \<notin> cname ` set cs"
  by (induction cs) auto

lemma RegisterCommand_ok: "interp_ok i \<Longrightarrow> interp_ok (snd (picolRegisterCommand i n f pd))"
  by (auto simp: picolRegisterCommand_def picolGetCommand_def interp_ok_def find_none picolSetResult_def
      split: option.split)

section \<open>How a run changes the state\<close>

definition grew :: "interp \<Rightarrow> interp \<Rightarrow> bool" where
  "grew i i' \<longleftrightarrow> level i' = level i \<and> tl (callframe i') = tl (callframe i) \<and>
     dom (map_of (hd (callframe i))) \<subseteq> dom (map_of (hd (callframe i'))) \<and> suffix (commands i) (commands i') \<and>
     prefix (sout i) (sout i') \<and> prefix (syslog i) (syslog i')"

lemma grew_refl [simp]: "grew i i"
  by (simp add: grew_def)

lemma grew_trans [trans]: "grew i j \<Longrightarrow> grew j k \<Longrightarrow> grew i k"
  unfolding grew_def by (auto intro: suffix_order.trans prefix_order.trans)

lemma grew_SetResult [simp]: "grew i (picolSetResult j s) = grew i j"
  by (simp add: grew_def picolSetResult_def picolGetVar_def)

lemma grew_SetResult1 [simp]: "grew (picolSetResult i s) j = grew i j"
  by (simp add: grew_def picolSetResult_def picolGetVar_def)

lemma grew_SetVar: "grew i (picolSetVar i n v)"
proof -
  have "dom (map_of (hd (callframe i))) \<subseteq> dom (map_of (set_frame n v (hd (callframe i))))"
    by (auto simp: set_frame_map)
  then show ?thesis by (simp add: grew_def picolSetVar_def)
qed

lemma grew_printf: "grew i (printf s i)"
  by (simp add: grew_def printf_def picolGetVar_def)

lemma grew_system: "grew i (i\<lparr>syslog := syslog i @ l\<rparr>)"
  by (simp add: grew_def picolGetVar_def)

lemma grew_Register: "grew i (snd (picolRegisterCommand i n f pd))"
  by (auto simp: picolRegisterCommand_def grew_def picolSetResult_def suffix_def picolGetVar_def
      split: option.split)

text \<open>The outcomes of a run that starts in a state of the invariant.\<close>

definition went :: "interp \<Rightarrow> pres \<Rightarrow> bool" where
  "went i r \<longleftrightarrow>
     (case r of Inl (e, i') \<Rightarrow> e = Overrun \<or> e = OutOfFuel
      | Inr (rc, i') \<Rightarrow> interp_ok i' \<and> grew i i')"

lemma went_simps [simp]:
  "went i (Inl (e, i')) \<longleftrightarrow> e = Overrun \<or> e = OutOfFuel"
  "went i (Inr (rc, i')) \<longleftrightarrow> interp_ok i' \<and> grew i i'"
  by (simp_all add: went_def)

lemma went_bind:
  assumes "went i r" and "\<And>rc j. r = Inr (rc, j) \<Longrightarrow> interp_ok j \<Longrightarrow> went j (f (rc, j))"
  shows "went i (rbind r f)"
proof (cases r)
  case (Inl x)
  with assms(1) show ?thesis by (cases x) simp
next
  case (Inr x)
  obtain rc j where x: "x = (rc, j)" by (cases x)
  with assms(1) Inr have j: "interp_ok j" "grew i j" by simp_all
  from assms(2) [of rc j] j Inr x have "went j (f (rc, j))" by simp
  with j Inr x show ?thesis
    by (cases "f (rc, j)") (auto simp: went_def intro: grew_trans split: prod.splits)
qed

lemma went_next:
  assumes "went i r" and "\<And>rc j. r = Inr (rc, j) \<Longrightarrow> interp_ok j \<Longrightarrow> went j (f j)"
  shows "went i (next_if_ok r f)"
  unfolding next_if_ok_def using assms by (intro went_bind) auto

lemma went_SetResult: "went i r \<Longrightarrow> went (picolSetResult i s) r"
  by (auto simp: went_def split: sum.splits)

text \<open>The commands that run no script.\<close>

lemma plain_commands_went:
  assumes "interp_ok i"
  shows "went i (Inr (picolArityErr i n))" "went i (Inr (picolCommandMath i argv))"
    "went i (Inr (picolCommandSet i argv))" "went i (Inr (picolCommandPuts i argv))"
    "went i (Inr (picolCommandRetCodes i argv))" "went i (Inr (picolCommandReturn i argv))"
    "went i (Inr (cmd_system sys i argv))" "went i (no_such w t i)"
  using assms
  by (simp_all add: picolArityErr_def picolCommandMath_def picolCommandSet_def picolCommandPuts_def
      picolCommandRetCodes_def picolCommandReturn_def cmd_system_def no_such_def Let_def
      interp_ok_SetVar grew_SetVar grew_printf grew_system)

lemma Proc_went: "interp_ok i \<Longrightarrow> went i (Inr (picolCommandProc i argv))"
  using grew_Register [of i "argv ! 1" CallProc "(argv ! 2, argv ! 3)"]
    RegisterCommand_ok [of i "argv ! 1" CallProc "(argv ! 2, argv ! 3)"]
  by (cases "picolRegisterCommand i (argv ! 1) CallProc (argv ! 2, argv ! 3)")
    (simp add: picolCommandProc_def plain_commands_went)

section \<open>Calls of procedures\<close>

text \<open>What happens in the frame of a procedure leaves the caller's frames alone.\<close>

lemma bind_args_end: "bind_args argv [] a i = (Some a, i)"
  by (subst bind_args.simps) simp

lemma bind_args_space: "bind_args argv (32 # s) a i = bind_args argv s a i"
  by (subst bind_args.simps) simp

lemma takeWhile_name: "32 \<notin> set w \<Longrightarrow> takeWhile (\<lambda>c. c \<noteq> 32) w = w \<and> dropWhile (\<lambda>c. c \<noteq> 32) w = []"
  by (induction w) auto

lemma takeWhile_name_space:
  "32 \<notin> set w \<Longrightarrow> takeWhile (\<lambda>c. c \<noteq> 32) (w @ 32 # s) = w \<and> dropWhile (\<lambda>c. c \<noteq> 32) (w @ 32 # s) = 32 # s"
  by (induction w) auto

lemma bind_args_last:
  assumes "w \<noteq> []" "32 \<notin> set w"
  shows "bind_args argv w a i =
    (if length argv - 1 < a + 1 then (None, i) else (Some (a + 1), picolSetVar i w (argv ! (a + 1))))"
  using assms(1) by (subst bind_args.simps) (simp add: Let_def takeWhile_name [OF assms(2)])

lemma bind_args_name:
  assumes "w \<noteq> []" "32 \<notin> set w"
  shows "bind_args argv (w @ 32 # s) a i =
    (if length argv - 1 < a + 1 then (None, i) else bind_args argv s (a + 1) (picolSetVar i w (argv ! (a + 1))))"
  using assms(1) by (subst bind_args.simps) (simp add: Let_def takeWhile_name_space [OF assms(2)])

text \<open>An argument list is empty, starts with a space, or with a name and the rest.\<close>

lemma arg_list_cases:
  obtains "s = []" | s' where "s = 32 # s'" | "s \<noteq> []" "32 \<notin> set s"
  | w s' where "s = w @ 32 # s'" "w \<noteq> []" "32 \<notin> set w"
proof (cases "32 \<in> set s")
  case True
  then obtain w s' where "s = w @ 32 # s'" "32 \<notin> set w" by (metis split_list_first)
  with that(2,4) show ?thesis by (cases "w = []") auto
next
  case False
  with that(1,3) show ?thesis by (cases "s = []") auto
qed

lemma bind_args_grew:
  "interp_ok i \<Longrightarrow> interp_ok (snd (bind_args argv s a i)) \<and> grew i (snd (bind_args argv s a i))"
proof (induction "length s" arbitrary: s a i rule: less_induct)
  case less
  have i: "interp_ok (picolSetVar i w v)" "grew i (picolSetVar i w v)" for w v
    using less.prems by (simp_all add: interp_ok_SetVar grew_SetVar)
  show ?case
  proof (cases s rule: arg_list_cases)
    case 1
    with less.prems show ?thesis by (simp add: bind_args_end)
  next
    case (2 s')
    with less show ?thesis by (simp add: bind_args_space)
  next
    case 3
    with less.prems i show ?thesis by (simp add: bind_args_last)
  next
    case (4 w s')
    have "length s' < length s" using 4 by simp
    from less.hyps [OF this i(1)] 4 less.prems show ?thesis
      by (simp add: bind_args_name) (blast intro: grew_trans [OF i(2)])
  qed
qed

lemma push_frame_ok: "interp_ok i \<Longrightarrow> interp_ok (push_frame i)"
  by (simp add: push_frame_def interp_ok_def frame_ok_def)

lemma drop_frame:
  assumes "interp_ok j" and "grew (push_frame i) j" and "interp_ok i"
  shows "interp_ok (picolDropCallFrame j)" "callframe (picolDropCallFrame j) = callframe i"
    "grew i (picolDropCallFrame j)"
proof -
  from assms(2) have t: "tl (callframe j) = callframe i" by (simp add: grew_def push_frame_def)
  then show c: "callframe (picolDropCallFrame j) = callframe i" by (simp add: picolDropCallFrame_def)
  with assms(1,3) show "interp_ok (picolDropCallFrame j)"
    by (simp add: interp_ok_def picolDropCallFrame_def)
  from assms(2) c show "grew i (picolDropCallFrame j)"
    by (simp add: grew_def push_frame_def picolDropCallFrame_def picolGetVar_def)
qed

section \<open>Runs\<close>

text \<open>
  A loop starts with a parser inside its script, and after a token that is no separator there
  is an argument to append to.
\<close>

definition word_open :: "tok \<Rightarrow> bytes list \<Rightarrow> bool" where
  "word_open t argv \<longleftrightarrow> t = PT_SEP \<or> t = PT_EOL \<or> argv \<noteq> []"

fun task_ok :: "task \<Rightarrow> bool" where
  "task_ok (Loop p argv) \<longleftrightarrow> len_ok p \<and> 0 \<le> len p \<and> word_open (ttype p) argv"
| "task_ok _ \<longleftrightarrow> True"

definition runs_ok :: "runner \<Rightarrow> bool" where
  "runs_ok run \<longleftrightarrow> (\<forall>task i. task_ok task \<longrightarrow> interp_ok i \<longrightarrow> went i (run task i))"

lemma runs_okD: "runs_ok run \<Longrightarrow> task_ok task \<Longrightarrow> interp_ok i \<Longrightarrow> went i (run task i)"
  by (simp add: runs_ok_def)

lemma init_parser_ok: "len_ok (picolInitParser t) \<and> 0 \<le> len (picolInitParser t) \<and> word_open (ttype (picolInitParser t)) argv"
  by (simp add: picolInitParser_def len_ok_def word_open_def)

lemma got_len: "got p q \<Longrightarrow> len_ok q \<and> 0 \<le> len q"
  by (auto simp: got_def took_def)

lemma append_token_went:
  assumes "runs_ok run" "interp_ok i" "word_open prev argv" "len_ok q" "0 \<le> len q"
  shows "went i (append_token run prev q argv t i)"
proof -
  have "\<exists>argv'. add_token prev t argv = Inr argv' \<and> argv' \<noteq> []"
    using assms(3) by (auto simp: add_token_def word_open_def)
  then obtain argv' where a: "add_token prev t argv = Inr argv'" "argv' \<noteq> []" by blast
  have "went i (run (Loop q argv') i)"
    by (rule runs_okD) (use assms a(2) in \<open>simp_all add: word_open_def\<close>)
  with a(1) show ?thesis by (simp add: append_token_def)
qed

lemma run_command_went:
  assumes "runs_ok run" "interp_ok i" "len_ok q" "0 \<le> len q" "ttype q = PT_EOL"
  shows "went i (run_command run q argv i)"
proof -
  have l: "went j (run (Loop q []) j)" if "interp_ok j" for j
    by (rule runs_okD) (use assms that in \<open>simp_all add: word_open_def\<close>)
  have "went i (run (Call c argv) i)" for c
    by (rule runs_okD) (use assms in simp_all)
  with l assms show ?thesis
    by (auto simp: run_command_def plain_commands_went intro!: went_next split: option.split)
qed

lemma eval_loop_went:
  assumes "runs_ok run" "task_ok (Loop p argv)" "interp_ok i"
  shows "went i (eval_loop run p argv i)"
proof -
  from assms(2) have p: "len_ok p" "0 \<le> len p" "word_open (ttype p) argv" by simp_all
  note g = get_token_got [OF p(1,2)]
  show ?thesis
  proof (cases "picolGetToken p")
    case (Inl e)
    with g show ?thesis by (simp add: eval_loop_def gets_def)
  next
    case (Inr q)
    with g have q: "len_ok q" "0 \<le> len q" using got_len [of p q] by (simp_all add: gets_def)
    note app = append_token_went [OF assms(1) _ p(3) q]
    have sep: "went i (run (Loop q argv) i)" if "ttype q = PT_SEP"
      by (rule runs_okD) (use assms(1,3) q that in \<open>simp_all add: word_open_def\<close>)
    have cmd: "went i (run (Eval (tok_text q)) i)" by (rule runs_okD) (use assms in simp_all)
    show ?thesis
    proof (cases "ttype q")
      case PT_CMD
      with Inr cmd app show ?thesis by (simp add: eval_loop_def went_next)
    next
      case PT_VAR
      with Inr app assms(3) show ?thesis
        by (simp add: eval_loop_def plain_commands_went split: option.split)
    next
      case PT_EOL
      with Inr assms q show ?thesis by (simp add: eval_loop_def run_command_went)
    qed (use Inr app assms(3) sep in \<open>simp_all add: eval_loop_def\<close>)
  qed
qed

lemma If_went:
  assumes "runs_ok run" "interp_ok i"
  shows "went i (picolCommandIf run i argv)"
proof -
  have "went j (run (Eval t) j)" if "interp_ok j" for j t
    by (rule runs_okD) (use assms that in simp_all)
  with assms(2) show ?thesis
    by (auto simp: picolCommandIf_def plain_commands_went intro!: went_next)
qed

lemma while_loop_went:
  assumes "runs_ok run" "interp_ok i"
  shows "went i (while_loop run argv i)"
proof -
  have e: "went j (run (Eval t) j)" "went j (run (While argv) j)" if "interp_ok j" for j t
    by (rule runs_okD; use assms that in simp)+
  with assms(2) show ?thesis
    unfolding while_loop_def by (auto intro!: went_next went_bind)
qed

lemma While_went:
  assumes "runs_ok run" "interp_ok i"
  shows "went i (picolCommandWhile run i argv)"
proof -
  have "went i (run (While argv) i)" by (rule runs_okD) (use assms in simp_all)
  with assms(2) show ?thesis by (simp add: picolCommandWhile_def plain_commands_went)
qed

lemma proc_arityerr_went:
  assumes "interp_ok j" "grew (push_frame i) j" "interp_ok i"
  shows "went i (Inr (proc_arityerr j argv))"
proof -
  let ?j = "picolSetResult j (snprintf 1024 (str ''Proc '' @ [0x27] @ argv ! 0 @ [0x27] @ str '' called with wrong arg num''))"
  have "interp_ok ?j" "grew (push_frame i) ?j" using assms by simp_all
  from drop_frame [OF this assms(3)] show ?thesis by (simp add: proc_arityerr_def)
qed

text \<open>A call of a procedure restores the frames of the caller and is over with a return.\<close>

definition back_in :: "interp \<Rightarrow> pres \<Rightarrow> bool" where
  "back_in i r \<longleftrightarrow> went i r \<and> (\<forall>rc j. r = Inr (rc, j) \<longrightarrow> rc \<noteq> PICOL_RETURN \<and> callframe j = callframe i)"

lemma proc_arityerr_back:
  assumes "interp_ok j" "grew (push_frame i) j" "interp_ok i"
  shows "back_in i (Inr (proc_arityerr j argv))"
  using proc_arityerr_went [OF assms] drop_frame(2) [OF _ _ assms(3)] assms
  unfolding back_in_def by (auto simp: proc_arityerr_def)

lemma CallProc_back:
  assumes "runs_ok run" "interp_ok i"
  shows "back_in i (picolCommandCallProc run i argv pd)"
proof -
  let ?b = "bind_args argv (fst pd) 0 (push_frame i)"
  obtain a j where b: "?b = (a, j)" by (cases ?b)
  with bind_args_grew [OF push_frame_ok [OF assms(2)], of argv "fst pd" 0]
  have j: "interp_ok j" "grew (push_frame i) j" by simp_all
  show ?thesis
  proof (cases "a = Some (length argv - 1)")
    case False
    with b j assms(2) show ?thesis
      by (auto simp: picolCommandCallProc_def intro: proc_arityerr_back split: option.split)
  next
    case True
    have e: "went j (run (Eval (snd pd)) j)" by (rule runs_okD) (use assms(1) j in simp_all)
    have "back_in i (rbind (run (Eval (snd pd)) j) (\<lambda>(rc, i2).
            Inr (if rc = PICOL_RETURN then PICOL_OK else rc, picolDropCallFrame i2)))"
    proof (cases "run (Eval (snd pd)) j")
      case (Inl x)
      with e show ?thesis by (cases x) (simp add: back_in_def)
    next
      case (Inr x)
      obtain rc k where x: "x = (rc, k)" by (cases x)
      with e Inr have "interp_ok k" "grew (push_frame i) k" using j(2) by (auto intro: grew_trans)
      from drop_frame [OF this assms(2)] Inr x show ?thesis by (simp add: back_in_def)
    qed
    with b True show ?thesis by (simp add: picolCommandCallProc_def)
  qed
qed

lemma call_func_went:
  assumes "runs_ok run" "interp_ok i"
  shows "went i (call_func sys run c i argv)"
  using assms If_went [OF assms] While_went [OF assms] CallProc_back [OF assms]
  by (simp add: call_func_def plain_commands_went Proc_went back_in_def split: cmdfunc.split)

lemma picol_run_ok: "runs_ok (picol_run sys n)"
proof (induction n)
  case 0
  then show ?case by (simp add: runs_ok_def)
next
  case (Suc n)
  have "went i (picol_run sys (Suc n) task i)" if "task_ok task" "interp_ok i" for task i
  proof (cases task)
    case (Eval t)
    have "went (picolSetResult i []) (picol_run sys n (Loop (picolInitParser t) []) (picolSetResult i []))"
      by (rule runs_okD [OF Suc]) (use init_parser_ok that in simp_all)
    then have "went i (picol_run sys n (Loop (picolInitParser t) []) (picolSetResult i []))"
      by (auto simp: went_def split: sum.splits)
    with Eval show ?thesis by (simp add: eval_start_def dispatch_def)
  next
    case (Loop p argv)
    with that show ?thesis by (simp add: eval_loop_went [OF Suc] dispatch_def)
  qed (use that in \<open>simp_all add: call_func_went [OF Suc] while_loop_went [OF Suc] dispatch_def\<close>)
  then show ?case by (simp add: runs_ok_def)
qed

end
