(* ===== verification/Picol_Fuel.thy ===== *)
theory Picol_Fuel
  imports Picol
begin

text \<open>
  More fuel never changes an outcome of the interpreter: every function of the evaluator is
  monotone in the calls it makes, for the order in which \<open>OutOfFuel\<close> is below everything.
\<close>

definition no_fuel :: "('e + 'a) \<Rightarrow> ('e \<Rightarrow> bool) \<Rightarrow> bool" where
  "no_fuel r out \<longleftrightarrow> (case r of Inl e \<Rightarrow> out e | Inr _ \<Rightarrow> False)"

definition below :: "(pstop \<times> interp) + 'a \<Rightarrow> (pstop \<times> interp) + 'a \<Rightarrow> bool" where
  "below r r' \<longleftrightarrow> r' = r \<or> no_fuel r (\<lambda>e. fst e = OutOfFuel)"

lemma below_refl [simp]: "below r r"
  by (simp add: below_def)

lemma below_out [simp]: "below (Inl (OutOfFuel, i)) r"
  by (simp add: below_def no_fuel_def)

lemma below_trans: "below r s \<Longrightarrow> below s t \<Longrightarrow> below r t"
  by (auto simp: below_def)

lemma below_bind:
  assumes "below r r'" and "\<And>x. below (f x) (g x)"
  shows "below (rbind r f) (rbind r' g)"
proof (cases "r' = r")
  case True
  with assms(2) show ?thesis by (cases r) simp_all
next
  case False
  with assms(1) show ?thesis by (cases r) (auto simp: below_def no_fuel_def)
qed

lemma below_next:
  assumes "below r r'" and "\<And>x. below (f x) (g x)"
  shows "below (next_if_ok r f) (next_if_ok r' g)"
  unfolding next_if_ok_def using assms by (intro below_bind) auto

definition runs_below :: "runner \<Rightarrow> runner \<Rightarrow> bool" where
  "runs_below f g \<longleftrightarrow> (\<forall>task i. below (f task i) (g task i))"

lemma append_token_below:
  "runs_below f g \<Longrightarrow> below (append_token f prev q argv t i) (append_token g prev q argv t i)"
  by (simp add: append_token_def runs_below_def split: sum.split)

lemma run_command_below: "runs_below f g \<Longrightarrow> below (run_command f q argv i) (run_command g q argv i)"
  by (auto simp: run_command_def runs_below_def intro!: below_next split: option.split)

lemma eval_loop_below: "runs_below f g \<Longrightarrow> below (eval_loop f p argv i) (eval_loop g p argv i)"
  by (auto simp: eval_loop_def append_token_below run_command_below intro!: below_next
      split: sum.split tok.split option.split) (simp_all add: runs_below_def)

lemma If_below: "runs_below f g \<Longrightarrow> below (picolCommandIf f i argv) (picolCommandIf g i argv)"
  by (auto simp: picolCommandIf_def runs_below_def intro!: below_next)

lemma while_loop_below: "runs_below f g \<Longrightarrow> below (while_loop f argv i) (while_loop g argv i)"
  by (auto simp: while_loop_def runs_below_def intro!: below_next below_bind)

lemma CallProc_below: "runs_below f g \<Longrightarrow> below (picolCommandCallProc f i argv pd) (picolCommandCallProc g i argv pd)"
  by (auto simp: picolCommandCallProc_def runs_below_def intro!: below_bind split: option.split prod.split)

lemma call_func_below: "runs_below f g \<Longrightarrow> below (call_func sys f c i argv) (call_func sys g c i argv)"
  using If_below [of f g] CallProc_below [of f g]
  by (auto simp: call_func_def picolCommandWhile_def runs_below_def split: cmdfunc.split)

lemma dispatch_below: "runs_below f g \<Longrightarrow> runs_below (dispatch sys f) (dispatch sys g)"
proof -
  assume fg: "runs_below f g"
  have "below (dispatch sys f task i) (dispatch sys g task i)" for task i
    using eval_loop_below [OF fg] call_func_below [OF fg] while_loop_below [OF fg] fg
    by (simp add: dispatch_def eval_start_def runs_below_def split: task.split)
  then show ?thesis by (simp add: runs_below_def)
qed

lemma picol_run_Suc: "runs_below (picol_run sys n) (picol_run sys (Suc n))"
proof (induction n)
  case 0
  then show ?case by (simp add: runs_below_def)
next
  case (Suc n)
  from dispatch_below [OF Suc] show ?case by simp
qed

lemma picol_run_mono: "n \<le> m \<Longrightarrow> runs_below (picol_run sys n) (picol_run sys m)"
proof (induction m rule: dec_induct)
  case base
  then show ?case by (simp add: runs_below_def)
next
  case (step m)
  then show ?case using picol_run_Suc [of sys m] unfolding runs_below_def by (blast intro: below_trans)
qed

lemma picol_run_enough:
  assumes "picol_run sys n task i = Inr x" and "n \<le> m"
  shows "picol_run sys m task i = Inr x"
proof -
  have "below (picol_run sys n task i) (picol_run sys m task i)"
    using picol_run_mono [OF assms(2)] by (simp add: runs_below_def)
  with assms(1) show ?thesis by (simp add: below_def no_fuel_def)
qed

lemma picol_run_unique:
  assumes "picol_run sys n task i = Inr x" and "picol_run sys m task i = Inr y"
  shows "x = y"
proof -
  have "picol_run sys (max n m) task i = Inr x" by (rule picol_run_enough [OF assms(1)]) simp
  moreover have "picol_run sys (max n m) task i = Inr y" by (rule picol_run_enough [OF assms(2)]) simp
  ultimately show ?thesis by simp
qed

end
