(* ===== verification/Picol_Words.thy ===== *)
theory Picol_Words
  imports Picol_Inv Picol_Fuel
begin

text \<open>
  Scripts as lists of tokens: the evaluator's loop in terms of the tokens of a script, the
  tokens of words quoted in braces, and the parameters of a procedure.
\<close>

section \<open>Scripts as tokens\<close>

fun lexes :: "picolParser \<Rightarrow> (tok \<times> bytes) list \<Rightarrow> bool" where
  "lexes p [] \<longleftrightarrow> (case picolGetToken p of Inl _ \<Rightarrow> False | Inr q \<Rightarrow> ttype q = PT_EOF)"
| "lexes p ((ty, t) # ts) \<longleftrightarrow>
     (case picolGetToken p of
        Inl _ \<Rightarrow> False
      | Inr q \<Rightarrow> ttype q = ty \<and> ty \<noteq> PT_EOF \<and> (ty = PT_SEP \<or> ty = PT_EOL \<or> tok_text q = t) \<and> lexes q ts)"

fun play :: "(nat \<Rightarrow> bytes \<Rightarrow> int) \<Rightarrow> nat \<Rightarrow> tok \<Rightarrow> (tok \<times> bytes) list \<Rightarrow> bytes list \<Rightarrow> interp \<Rightarrow> pres" where
  "play sys 0 prev ts argv i = Inl (OutOfFuel, i)"
| "play sys (Suc n) prev [] argv i = Inr (PICOL_OK, i)"
| "play sys (Suc n) prev ((ty, t) # ts) argv i =
     (let append = (\<lambda>t i. case add_token prev t argv of
                      Inl e \<Rightarrow> Inl (e, i)
                    | Inr argv' \<Rightarrow> play sys n ty ts argv' i)
      in case ty of
           PT_VAR \<Rightarrow> (case picolGetVar i t of
               None \<Rightarrow> no_such ''variable'' t i
             | Some v \<Rightarrow> append v i)
         | PT_CMD \<Rightarrow> next_if_ok (picol_run sys n (Eval t) i) (\<lambda>i1. append (result i1) i1)
         | PT_SEP \<Rightarrow> play sys n PT_SEP ts argv i
         | PT_EOL \<Rightarrow>
             (if argv = [] then play sys n PT_EOL ts [] i
              else case picolGetCommand i (argv ! 0) of
                None \<Rightarrow> no_such ''command'' (argv ! 0) i
              | Some c \<Rightarrow> next_if_ok (picol_run sys n (Call c argv) i) (play sys n PT_EOL ts []))
         | _ \<Rightarrow> append t i)"

lemma loop_play: "lexes p ts \<Longrightarrow> picol_run sys n (Loop p argv) i = play sys n (ttype p) ts argv i"
proof (induction n arbitrary: p ts argv i)
  case 0
  then show ?case by simp
next
  case (Suc n)
  show ?case
  proof (cases ts)
    case Nil
    with Suc.prems show ?thesis by (auto simp: dispatch_def eval_loop_def split: sum.splits)
  next
    case (Cons x ts')
    obtain ty t where x: "x = (ty, t)" by (cases x)
    with Suc.prems Cons obtain q where q: "picolGetToken p = Inr q" "ttype q = ty" "ty \<noteq> PT_EOF"
      "ty = PT_SEP \<or> ty = PT_EOL \<or> tok_text q = t" "lexes q ts'" by (auto split: sum.splits)
    have l: "picol_run sys n (Loop q a) = play sys n ty ts' a" for a
      using Suc.IH [OF q(5)] q(2) by (intro ext) simp
    show ?thesis
      using q Cons x
      by (cases ty) (simp_all add: dispatch_def eval_loop_def append_token_def run_command_def l
          cong: option.case_cong sum.case_cong)
  qed
qed

lemma eval_play:
  "lexes (picolInitParser t) ts \<Longrightarrow>
   picol_run sys (Suc n) (Eval t) i = play sys n PT_EOL ts [] (picolSetResult i [])"
  using loop_play [of "picolInitParser t" ts sys n "[]"]
  by (simp add: dispatch_def eval_start_def) (simp add: picolInitParser_def)

section \<open>Words in braces\<close>

text \<open>
  A word whose braces pair up, where a backslash hides the character after it: \<open>bal d s\<close> with
  \<open>d\<close> braces open.
\<close>

fun bal :: "nat \<Rightarrow> bytes \<Rightarrow> bool" where
  "bal d [] \<longleftrightarrow> d = 0"
| "bal d (c # s) \<longleftrightarrow>
     (if c = 0x5c then (case s of [] \<Rightarrow> False | x # s' \<Rightarrow> bal d s')
      else if c = 0x7b then bal (Suc d) s
      else if c = 0x7d then d \<noteq> 0 \<and> bal (d - 1) s
      else bal d s)"

fun quote :: "bytes list \<Rightarrow> bytes" where
  "quote [] = []"
| "quote [w] = 0x7b # w @ [0x7d]"
| "quote (w # ws) = 0x7b # w @ [0x7d, 32] @ quote ws"

fun quote_toks :: "bytes list \<Rightarrow> (tok \<times> bytes) list" where
  "quote_toks [] = []"
| "quote_toks [w] = [(PT_STR, w), (PT_EOL, [])]"
| "quote_toks (w # ws) = (PT_STR, w) # (PT_SEP, []) # quote_toks ws"

lemma rest_at: "rest p = c # r \<Longrightarrow> at p = c \<and> pos p < length (ptext p) \<and> rest (adv p) = r"
proof -
  assume r: "rest p = c # r"
  then have l: "pos p < length (ptext p)" unfolding rest_def by (metis drop_all leI list.distinct(1))
  with r show ?thesis unfolding rest_def by (simp add: at_def Cons_nth_drop_Suc [symmetric])
qed

lemma rest_len: "len_ok p \<Longrightarrow> rest p = c # r \<Longrightarrow> len p = int (length r) + 1"
proof -
  assume p: "len_ok p" "rest p = c # r"
  have "length (rest p) = length (ptext p) - pos p" by (simp add: rest_def)
  with p rest_at [OF p(2)] show ?thesis by (simp add: len_ok_def)
qed

lemma brace_loop_text:
  assumes "bal d s" and "rest p = s @ 0x7d # r" and "len_ok p"
  shows "brace_loop (int d + 1) p = Inr (p\<lparr>pos := pos p + length s + 1, len := len p - int (length s) - 1,
    tend := int (pos p + length s) - 1, ttype := PT_STR\<rparr>)"
  using assms
proof (induction d s arbitrary: p rule: bal.induct)
  case (1 d)
  with rest_at [of p "0x7d" r] rest_len [of p "0x7d" r] show ?case
    by (subst brace_loop.simps) (simp add: Let_def adv_def)
next
  case (2 d c s)
  from 2(6) have p: "rest p = c # s @ 0x7d # r" by simp
  note a = rest_at [OF p] and l = rest_len [OF 2(7) p]
  show ?case
  proof (cases "c = 0x5c")
    case True
    with 2(5) obtain x s' where s: "s = x # s'" "bal d s'" by (cases s) auto
    have a': "rest (adv p) = x # s' @ 0x7d # r" using a s(1) by simp
    have "brace_loop (int d + 1) p = brace_loop (int d + 1) (adv (adv p))"
      using a l s(1) True by (subst brace_loop.simps) simp
    also have "\<dots> = Inr ((adv (adv p))\<lparr>pos := pos (adv (adv p)) + length s' + 1,
      len := len (adv (adv p)) - int (length s') - 1,
      tend := int (pos (adv (adv p)) + length s') - 1, ttype := PT_STR\<rparr>)"
      by (rule 2(1) [OF True s(1) s(2)]) (use 2(7) rest_at [OF a'] in simp_all)
    finally show ?thesis using s(1) by (simp add: adv_def)
  next
    case False
    have n: "len p \<noteq> 0" "\<not> len p < 0" using l by simp_all
    let ?d = "if c = 0x7b then Suc d else if c = 0x7d then d - 1 else d"
    have b: "bal ?d s" "c = 0x7d \<Longrightarrow> d \<noteq> 0" using 2(5) False by (auto split: if_splits)
    have "brace_loop (int d + 1) p = brace_loop (int ?d + 1) (adv p)"
      using a n b(2) False by (subst brace_loop.simps) auto
    also have "\<dots> = Inr ((adv p)\<lparr>pos := pos (adv p) + length s + 1, len := len (adv p) - int (length s) - 1,
      tend := int (pos (adv p) + length s) - 1, ttype := PT_STR\<rparr>)"
      using 2(2-4) False b a 2(7) by (auto split: if_splits)
    finally show ?thesis by (simp add: adv_def)
  qed
qed

lemma brace_token:
  assumes r: "rest p = 0x7b # w @ 0x7d # r" and p: "len_ok p" "ttype p = PT_SEP \<or> ttype p = PT_EOL"
    and w: "bal 0 w"
  shows "\<exists>q. picolGetToken p = Inr q \<and> ttype q = PT_STR \<and> tok_text q = w \<and> rest q = r \<and> len_ok q \<and>
    insidequote q = insidequote p"
proof -
  note a = rest_at [OF r] and l = rest_len [OF p(1) r]
  let ?s = "start_here (adv p)"
  let ?q = "?s\<lparr>pos := pos ?s + length w + 1, len := len ?s - int (length w) - 1,
    tend := int (pos ?s + length w) - 1, ttype := PT_STR\<rparr>"
  have s: "rest ?s = w @ 0x7d # r" "len_ok ?s" using a p(1) by (simp_all add: rest_def)
  have "picolGetToken p = brace_loop 1 ?s"
    using a l p(2) by (subst picolGetToken.simps) (auto simp: picolParseString_def picolParseBrace_def)
  also have "\<dots> = Inr ?q" using brace_loop_text [OF w s] by simp
  finally have g: "picolGetToken p = Inr ?q" .
  have w': "drop (Suc (pos p)) (ptext p) = w @ 0x7d # r" using s(1) by (simp add: rest_def)
  have "drop (length w + Suc (pos p)) (ptext p) = drop (length w) (w @ 0x7d # r)"
    unfolding w' [symmetric] by simp
  then have r': "drop (length w + Suc (pos p)) (ptext p) = 0x7d # r" by simp
  have "drop (Suc (length w + Suc (pos p))) (ptext p) = tl (drop (length w + Suc (pos p)) (ptext p))"
    by (simp add: drop_Suc tl_drop)
  with r' have r2: "drop (Suc (length w + Suc (pos p))) (ptext p) = r" by simp
  have "tok_text ?q = w" using w' by (simp add: tok_text_def)
  moreover have "rest ?q = r" using r2 by (simp add: rest_def add.commute)
  moreover have "len_ok ?q" using s(2) by (simp add: len_ok_def)
  ultimately show ?thesis using g by (intro exI [of _ ?q]) simp
qed

lemma space_token:
  assumes r: "rest p = 32 # 0x7b # r" and p: "len_ok p" "\<not> insidequote p"
  shows "\<exists>q. picolGetToken p = Inr q \<and> ttype q = PT_SEP \<and> rest q = 0x7b # r \<and> len_ok q \<and> \<not> insidequote q"
proof -
  note a = rest_at [OF r] and l = rest_len [OF p(1) r]
  have r': "rest (adv (start_here p)) = 0x7b # r" using a by (simp add: rest_def)
  have "skip isblank_sep (start_here p) = adv (start_here p)"
    using a rest_at [OF r'] by (subst skip.simps, subst skip.simps) (simp add: isblank_sep_def)
  then have "picolGetToken p = Inr (end_before PT_SEP (adv (start_here p)))"
    using a l p by (subst picolGetToken.simps) (simp add: picolParseSep_def)
  then show ?thesis using r' p by (simp add: rest_def)
qed

lemma end_tokens:
  assumes "rest p = []" "len_ok p" "pos p \<le> length (ptext p)" "ttype p = PT_STR"
  shows "lexes p [(PT_EOL, [])]"
proof -
  have "len p = 0" using assms by (simp add: len_ok_def rest_def)
  then show ?thesis using assms by (simp add: picolGetToken.simps [of p] picolGetToken.simps [of "p\<lparr>ttype := PT_EOL\<rparr>"])
qed

lemma quote_lexes:
  assumes "ws \<noteq> []" "\<forall>w \<in> set ws. bal 0 w" "rest p = quote ws" "len_ok p" "0 \<le> len p"
    "ttype p = PT_SEP \<or> ttype p = PT_EOL" "\<not> insidequote p"
  shows "lexes p (quote_toks ws)"
  using assms
proof (induction ws arbitrary: p rule: quote.induct)
  case (2 w)
  then have "rest p = 0x7b # w @ 0x7d # []" by simp
  from brace_token [OF this 2(4,6)] 2(2) obtain q
    where q: "picolGetToken p = Inr q" "ttype q = PT_STR" "tok_text q = w" "rest q = []" "len_ok q" by auto
  from get_token_got [OF 2(4,5)] q(1) have "0 \<le> len q" using got_len [of p q] by (simp add: gets_def)
  with q(5) have "pos q \<le> length (ptext q)" by (simp add: len_ok_def)
  from end_tokens [OF q(4,5) this q(2)] q(1-3) show ?case by simp
next
  case (3 w v vs)
  obtain x where x: "quote (v # vs) = 0x7b # x" by (cases vs) auto
  with 3(4) have "rest p = 0x7b # w @ 0x7d # 32 # 0x7b # x" by simp
  from brace_token [OF this 3(5,7)] 3(3,8) obtain q
    where q: "picolGetToken p = Inr q" "ttype q = PT_STR" "tok_text q = w" "rest q = 32 # 0x7b # x"
      "len_ok q" "\<not> insidequote q" by auto
  from space_token [OF q(4-6)] obtain s
    where s: "picolGetToken q = Inr s" "ttype s = PT_SEP" "rest s = 0x7b # x" "len_ok s" "\<not> insidequote s"
    by blast
  have "lexes s (quote_toks (v # vs))"
    by (rule 3(1)) (use 3(3) x s rest_len [OF s(4,3)] in simp_all)
  with q s show ?case by simp
qed simp

lemma quote_play:
  assumes "ws \<noteq> []" "prev = PT_SEP \<or> prev = PT_EOL" "picolGetCommand i ((argv @ ws) ! 0) = Some c"
  shows "play sys (2 * length ws + k) prev (quote_toks ws) argv i =
    next_if_ok (picol_run sys k (Call c (argv @ ws)) i) (play sys k PT_EOL [] [])"
  using assms
proof (induction ws arbitrary: argv prev rule: quote.induct)
  case (2 w)
  then show ?case by (auto simp: add_token_def numeral_2_eq_2 simp del: picol_run.simps)
next
  case (3 w v vs)
  have "play sys (2 * length (w # v # vs) + k) prev (quote_toks (w # v # vs)) argv i =
      play sys (2 * length (v # vs) + k) PT_SEP (quote_toks (v # vs)) (argv @ [w]) i"
    using 3(3) by (auto simp: add_token_def)
  also have "\<dots> = next_if_ok (picol_run sys k (Call c ((argv @ [w]) @ v # vs)) i) (play sys k PT_EOL [] [])"
    by (rule 3(1)) (use 3(4) in simp_all)
  finally show ?case by simp
qed simp

section \<open>Parameters of procedures\<close>

text \<open>The parameter list of a procedure as its names with a space between them.\<close>

fun join :: "bytes list \<Rightarrow> bytes" where
  "join [] = []"
| "join [x] = x"
| "join (x # xs) = x @ 32 # join xs"

definition names_ok :: "bytes list \<Rightarrow> bool" where
  "names_ok xs \<longleftrightarrow> (\<forall>x \<in> set xs. x \<noteq> [] \<and> 32 \<notin> set x)"

definition assigns :: "bytes list \<Rightarrow> bytes list \<Rightarrow> (bytes \<times> bytes option) list" where
  "assigns xs vs = zip xs (map Some vs)"

lemma bind_args_join:
  assumes "names_ok xs" "a + length xs \<le> length argv - 1"
  shows "bind_args argv (join xs) a i =
    (Some (a + length xs), pvars.wr_all (assigns xs (drop (Suc a) argv)) i)"
  using assms
proof (induction xs arbitrary: a i rule: join.induct)
  case 1
  then show ?case by (simp add: bind_args_end assigns_def)
next
  case (2 x)
  then have "Suc a < length argv" by auto
  then have "drop (Suc a) argv = argv ! Suc a # drop (Suc (Suc a)) argv"
    by (simp add: Cons_nth_drop_Suc)
  with 2 show ?case by (simp add: names_ok_def bind_args_last assigns_def)
next
  case (3 x y ys)
  then have "Suc a < length argv" by auto
  then have d: "drop (Suc a) argv = argv ! Suc a # drop (Suc (Suc a)) argv"
    by (simp add: Cons_nth_drop_Suc)
  let ?i = "picolSetVar i x (argv ! Suc a)"
  have "bind_args argv (join (x # y # ys)) a i = bind_args argv (join (y # ys)) (Suc a) ?i"
    using 3(2,3) by (simp add: names_ok_def bind_args_name)
  also have "\<dots> = (Some (Suc a + length (y # ys)), pvars.wr_all (assigns (y # ys) (drop (Suc (Suc a)) argv)) ?i)"
    by (rule 3(1)) (use 3(2,3) in \<open>auto simp: names_ok_def\<close>)
  finally show ?case by (simp add: assigns_def d)
qed

lemma bind_args_short:
  assumes "names_ok xs" "length argv - 1 < a + length xs" "a \<le> length argv - 1"
  shows "fst (bind_args argv (join xs) a i) = None"
  using assms
proof (induction xs arbitrary: a i rule: join.induct)
  case (3 x y ys)
  then show ?case by (auto simp: names_ok_def bind_args_name)
qed (auto simp: names_ok_def bind_args_last)

text \<open>Binding the parameters changes the current frame only.\<close>

lemma picolSetVar_frame: "picolSetVar (i\<lparr>callframe := f # fs\<rparr>) n v = i\<lparr>callframe := set_frame n v f # fs\<rparr>"
  by (simp add: picolSetVar_def)

lemma bind_args_frame:
  "\<exists>f'. snd (bind_args argv s a (i\<lparr>callframe := f # fs\<rparr>)) = i\<lparr>callframe := f' # fs\<rparr>"
proof (induction "length s" arbitrary: s a f rule: less_induct)
  case less
  show ?case
  proof (cases s rule: arg_list_cases)
    case 1
    then show ?thesis by (auto simp: bind_args_end)
  next
    case (2 s')
    with less show ?thesis by (simp add: bind_args_space)
  next
    case 3
    then show ?thesis by (auto simp: bind_args_last picolSetVar_frame)
  next
    case (4 w s')
    then have "length s' < length s" by simp
    from less.hyps [OF this] 4 show ?thesis by (auto simp: bind_args_name picolSetVar_frame)
  qed
qed

lemma assigns_map:
  assumes "interp_ok i"
  shows "interp_ok (pvars.wr_all (assigns xs vs) i) \<and>
    picolGetVar (pvars.wr_all (assigns xs vs) i) = picolGetVar i ++ map_of (rev (zip xs vs))"
  using assms
proof (induction xs arbitrary: vs i)
  case Nil
  then show ?case by (simp add: assigns_def)
next
  case (Cons x xs)
  show ?case
  proof (cases vs)
    case Nil
    with Cons.prems show ?thesis by (simp add: assigns_def)
  next
    case (Cons v vs')
    have "picolGetVar (picolSetVar i x v) = (picolGetVar i)(x \<mapsto> v)" by (auto simp: picolGetVar_SetVar)
    with Cons.IH [where vs = vs', OF interp_ok_SetVar [OF Cons.prems, of x v]] Cons
    show ?thesis by (simp add: assigns_def map_add_def fun_eq_iff split: option.split)
  qed
qed

lemma push_frame_eq: "push_frame i = i\<lparr>callframe := [] # callframe i\<rparr>"
  by (simp add: push_frame_def)

lemma picolGetVar_frame: "picolGetVar i = map_of (hd (callframe i))"
  by (simp add: fun_eq_iff picolGetVar_def)

lemma push_frame_var: "picolGetVar (push_frame i) = Map.empty"
  by (auto simp: push_frame_def picolGetVar_def)

lemma map_of_rev_distinct: "distinct (map fst al) \<Longrightarrow> map_of (rev al) = map_of al"
proof (induction al)
  case (Cons x al)
  then have "map_of al (fst x) = None" by (simp add: map_of_eq_None_iff)
  with Cons show ?case by (auto simp: map_add_def fun_eq_iff split: option.split)
qed simp

text \<open>
  A procedure called with as many arguments as it has parameters runs its body in a new frame
  that holds exactly its parameters.
\<close>

lemma CallProc_params:
  assumes i: "interp_ok i" and xs: "names_ok xs" "distinct xs" "length argv = Suc (length xs)"
  shows "\<exists>f. frame_ok f \<and> map_of f = map_of (zip xs (tl argv)) \<and>
    picolCommandCallProc run i argv (join xs, body) =
      rbind (run (Eval body) (i\<lparr>callframe := f # callframe i\<rparr>))
        (\<lambda>(rc, j). Inr (if rc = PICOL_RETURN then PICOL_OK else rc, picolDropCallFrame j))"
proof -
  let ?j = "pvars.wr_all (assigns xs (drop (Suc 0) argv)) (push_frame i)"
  have b: "bind_args argv (join xs) 0 (push_frame i) = (Some (length xs), ?j)"
    using bind_args_join [OF xs(1), of 0 argv] xs(3) by simp
  from bind_args_frame [where argv = argv and s = "join xs" and a = 0 and i = i and f = "[]" and fs = "callframe i"] b
  obtain f where f: "?j = i\<lparr>callframe := f # callframe i\<rparr>" by (auto simp: push_frame_eq)
  from assigns_map [where xs = xs and vs = "tl argv", OF push_frame_ok [OF i]]
  have m: "interp_ok ?j" "picolGetVar ?j = map_of (rev (zip xs (tl argv)))"
    by (simp_all add: drop_Suc push_frame_var)
  have "map_of (rev (zip xs (tl argv))) = map_of (zip xs (tl argv))"
    using xs(2,3) by (intro map_of_rev_distinct) simp
  with m(2) have "map_of f = map_of (zip xs (tl argv))" unfolding f by (simp add: picolGetVar_frame)
  moreover have "frame_ok f" using m(1) unfolding f by (simp add: interp_ok_def)
  ultimately show ?thesis
    using b xs(3) f by (intro exI [of _ f]) (simp add: picolCommandCallProc_def)
qed

end
