(* ===== verification/Picol_Spec.thy ===== *)
theory Picol_Spec
  imports Picol_Words
begin

text \<open>
  What the Tcl interpreter guarantees: its invariant, what scripts cannot change, how words and
  parameters are passed, a loop that ends, and the two places where it leaves its buffers.
\<close>

section \<open>The started interpreter\<close>

definition picol_start :: interp where
  "picol_start = init_brett (picolRegisterCoreCommands picolInitInterp)"

definition core_table :: "(string \<times> cmdfunc) list" where
  "core_table = map (\<lambda>n. (n, Math)) [''+'', ''-'', ''*'', ''/'', ''>'', ''>='', ''<'', ''<='', ''=='', ''!=''] @
     [(''set'', Set_cmd), (''puts'', Puts), (''if'', If_cmd), (''while'', While_cmd), (''break'', RetCodes),
      (''continue'', RetCodes), (''proc'', Proc), (''return'', Return), (''system'', System)]"

lemma picol_start_commands:
  "commands picol_start = map (\<lambda>(n, f). \<lparr>cname = str n, cfunc = f, privdata = ([], [])\<rparr>) (rev core_table)"
  by code_simp

lemma picol_start_frames: "callframe picol_start = [[]]"
  by code_simp

lemma picol_start_ok: "interp_ok picol_start"
proof -
  have "distinct (map cname (commands picol_start))" by code_simp
  then show ?thesis by (simp add: interp_ok_def picol_start_frames frame_ok_def)
qed

lemma picol_start_get:
  "(n, f) \<in> set core_table \<Longrightarrow> \<exists>c. picolGetCommand picol_start (str n) = Some c \<and> cfunc c = f"
proof -
  assume "(n, f) \<in> set core_table"
  then have "\<lparr>cname = str n, cfunc = f, privdata = ([], [])\<rparr> \<in> set (commands picol_start)"
    by (force simp: picol_start_commands)
  moreover have "distinct (map cname (commands picol_start))"
    using picol_start_ok by (simp add: interp_ok_def)
  ultimately have "picolGetCommand picol_start (str n) = Some \<lparr>cname = str n, cfunc = f, privdata = ([], [])\<rparr>"
    by (simp add: picolGetCommand_def find_name)
  then show ?thesis by simp
qed

section \<open>Runs\<close>

lemma eval_went: "interp_ok i \<Longrightarrow> went i (picolEval sys n i t)"
  unfolding picolEval_def using picol_run_ok by (rule runs_okD) simp_all

lemma grew_command:
  assumes "grew i j" "interp_ok j" "interp_ok i" "picolGetCommand i name = Some c"
  shows "picolGetCommand j name = Some c"
proof -
  from assms(1) obtain cs where "commands j = cs @ commands i" by (auto simp: grew_def suffix_def)
  with assms(2-4) show ?thesis by (simp add: picolGetCommand_def find_name interp_ok_def)
qed

text \<open>C16:
  Whatever a script does, when its evaluation is over the invariant of the interpreter holds:
  commands and the variables of each frame have distinct names.  The frames of the callers are
  unchanged, every variable and every command of before is still there, the command with its
  old meaning, and output was only added.
\<close>

theorem eval_keeps:
  assumes "interp_ok i" and "picolEval sys n i t = Inr (rc, j)"
  shows "interp_ok j \<and> tl (callframe j) = tl (callframe i) \<and> prefix (sout i) (sout j) \<and>
    (\<forall>name c. picolGetCommand i name = Some c \<longrightarrow> picolGetCommand j name = Some c) \<and>
    (\<forall>name. picolGetVar i name \<noteq> None \<longrightarrow> picolGetVar j name \<noteq> None)"
proof -
  from eval_went [OF assms(1), of sys n t] assms(2) have j: "interp_ok j" "grew i j" by simp_all
  have "picolGetVar j name \<noteq> None" if "picolGetVar i name \<noteq> None" for name
    using j(2) that by (auto simp: grew_def picolGetVar_def)
  with j grew_command [OF j(2) j(1) assms(1)] show ?thesis by (auto simp: grew_def)
qed

lemma demo_set: "picolEval (\<lambda>_ _. 0) 9 picol_start (str ''set a {x y}'') =
    Inr (PICOL_OK, picolSetResult (picolSetVar picol_start (str ''a'') (str ''x y'')) (str ''x y''))"
  by code_simp

theorem eval_keeps_witness:
  "picolGetCommand (picolSetResult (picolSetVar picol_start (str ''a'') (str ''x y'')) (str ''x y'')) (str ''set'') \<noteq> None"
proof -
  obtain c where "picolGetCommand picol_start (str ''set'') = Some c"
    using picol_start_get [of "''set''" Set_cmd] by (auto simp: core_table_def)
  with eval_keeps [OF picol_start_ok demo_set] show ?thesis by blast
qed

text \<open>
  The evaluator appends text to an argument only when there is one, and reads outside the script
  only in the tokenizer's overrun: no run of a script stops in another way than by this
  overrun or, in the model, by the end of the fuel.
\<close>

theorem eval_stops:
  assumes "interp_ok i" and "picolEval sys n i t = Inl (e, j)"
  shows "e = Overrun \<or> e = OutOfFuel"
  using eval_went [OF assms(1), of sys n t] assms(2) by simp

text \<open>A backslash at the end of a command substitution.\<close>

lemma demo_overrun: "\<exists>e j. picolEval (\<lambda>_ _. 0) 9 picol_start (str ''set a ['' @ [0x5c]) = Inl (e, j) \<and> e \<noteq> OutOfFuel"
proof -
  have "(case picolEval (\<lambda>_ _. 0) 9 picol_start (str ''set a ['' @ [0x5c]) of
      Inl (e, j) \<Rightarrow> e \<noteq> OutOfFuel | Inr _ \<Rightarrow> False)" by code_simp
  then show ?thesis by (auto split: sum.splits)
qed

lemma eval_stops_witness:
  "\<exists>j. picolEval (\<lambda>_ _. 0) 9 picol_start (str ''set a ['' @ [0x5c]) = Inl (Overrun, j)"
proof -
  obtain e j where r: "picolEval (\<lambda>_ _. 0) 9 picol_start (str ''set a ['' @ [0x5c]) = Inl (e, j)" "e \<noteq> OutOfFuel"
    using demo_overrun by blast
  from eval_stops [OF picol_start_ok r(1)] r show ?thesis by auto
qed

text \<open>C26:
  A procedure cannot touch its caller: after a call every frame, with all the variables of the
  caller in it, is what it was before, and the code \<open>PICOL_RETURN\<close> of a \<open>return\<close> ends with the
  procedure.
\<close>

theorem proc_local:
  assumes "interp_ok i" and "cfunc c = CallProc" and "picol_run sys n (Call c argv) i = Inr (rc, j)"
  shows "callframe j = callframe i \<and> rc \<noteq> PICOL_RETURN"
proof (cases n)
  case 0
  with assms(3) show ?thesis by simp
next
  case (Suc m)
  from CallProc_back [OF picol_run_ok [of sys m] assms(1), of argv "privdata c"] assms(2,3) Suc
  show ?thesis by (simp add: back_in_def dispatch_def call_func_def)
qed

definition demo_proc :: picolCmd where
  "demo_proc = \<lparr>cname = str ''sq'', cfunc = CallProc, privdata = (str ''x'', str ''return [* $x $x]'')\<rparr>"

lemma demo_call:
  "picol_run (\<lambda>_ _. 0) 20 (Call demo_proc [str ''sq'', str ''12'']) (picolSetVar picol_start (str ''x'') (str ''1'')) =
    Inr (PICOL_OK, picolSetResult (picolSetVar picol_start (str ''x'') (str ''1'')) (str ''144''))"
  by code_simp

theorem proc_local_witness:
  "callframe (picolSetResult (picolSetVar picol_start (str ''x'') (str ''1'')) (str ''144'')) =
   callframe (picolSetVar picol_start (str ''x'') (str ''1''))"
  using proc_local [OF interp_ok_SetVar [OF picol_start_ok] _ demo_call] by (simp add: demo_proc_def)

text \<open>
  The fuel of the model does not matter: a run that is over with some fuel is over with the same
  result for every larger fuel, so two finished runs of a script agree.
\<close>

theorem eval_fuel:
  assumes "picolEval sys n i t = Inr x"
  shows "(n \<le> m \<longrightarrow> picolEval sys m i t = Inr x) \<and> (picolEval sys m i t = Inr y \<longrightarrow> y = x)"
  using picol_run_enough [of sys n "Eval t" i x m] picol_run_unique [of sys n "Eval t" i x m y] assms
  unfolding picolEval_def by blast

theorem eval_fuel_witness:
  "picolEval (\<lambda>_ _. 0) 1000 picol_start (str ''set a {x y}'') =
    Inr (PICOL_OK, picolSetResult (picolSetVar picol_start (str ''a'') (str ''x y'')) (str ''x y''))"
  by (rule eval_fuel [OF demo_set, THEN conjunct1, rule_format]) simp

section \<open>Words and parameters\<close>

text \<open>C17:
  Words in braces reach a command as they are: a script made of the words \<open>ws\<close>, each between
  braces, calls the command named by the first with exactly \<open>ws\<close> as its arguments, whatever
  blanks, quotes, dollars or brackets the words hold, as long as the braces inside pair up.
\<close>

theorem quote_call:
  assumes "ws \<noteq> []" and "\<forall>w \<in> set ws. bal 0 w" and "picolGetCommand i (ws ! 0) = Some c"
  shows "picolEval sys (2 * length ws + Suc (Suc k)) i (quote ws) =
    next_if_ok (picol_run sys (Suc k) (Call c ws) (picolSetResult i [])) (\<lambda>j. Inr (PICOL_OK, j))"
proof -
  let ?p = "picolInitParser (quote ws)"
  have p: "rest ?p = quote ws" "len_ok ?p" "0 \<le> len ?p" "ttype ?p = PT_EOL" "\<not> insidequote ?p"
    by (simp_all add: picolInitParser_def rest_def len_ok_def)
  have l: "lexes ?p (quote_toks ws)" by (rule quote_lexes [OF assms(1,2)]) (use p in simp_all)
  have g: "picolGetCommand (picolSetResult i []) (([] @ ws) ! 0) = Some c"
    using assms(3) by (simp add: picolGetCommand_def picolSetResult_def)
  have "picolEval sys (Suc (2 * length ws + Suc k)) i (quote ws) =
      next_if_ok (picol_run sys (Suc k) (Call c ([] @ ws)) (picolSetResult i [])) (play sys (Suc k) PT_EOL [] [])"
    unfolding picolEval_def eval_play [OF l] by (rule quote_play [OF assms(1) _ g]) simp
  moreover have "play sys (Suc k) PT_EOL [] [] = (\<lambda>j. Inr (PICOL_OK, j))" by (simp add: fun_eq_iff)
  ultimately show ?thesis by simp
qed

theorem quote_call_witness:
  "\<exists>j. picolEval (\<lambda>_ _. 0) 8 picol_start (quote [str ''set'', str ''a'', str ''$b [c] {d; e}'']) = Inr (PICOL_OK, j) \<and>
    picolGetVar j (str ''a'') = Some (str ''$b [c] {d; e}'')"
proof -
  obtain c where c: "picolGetCommand picol_start (str ''set'') = Some c" "cfunc c = Set_cmd"
    using picol_start_get [of "''set''" Set_cmd] by (auto simp: core_table_def)
  have b: "\<forall>w \<in> set [str ''set'', str ''a'', str ''$b [c] {d; e}'']. bal 0 w" by (simp add: str_def)
  from quote_call [OF _ b, of picol_start c "\<lambda>_ _. 0" 0] c show ?thesis
    by (simp add: numeral_eq_Suc dispatch_def call_func_def picolCommandSet_def next_if_ok_def picolGetVar_SetVar)
qed

lemma drop_frame_eq: "picolDropCallFrame (i\<lparr>callframe := f # callframe i, result := r\<rparr>) = i\<lparr>result := r\<rparr>"
  by (simp add: picolDropCallFrame_def)

lemma proc_arityerr_eq:
  "proc_arityerr (i\<lparr>callframe := f # callframe i\<rparr>) argv =
   (PICOL_ERR, picolSetResult i (snprintf 1024 (str ''Proc '' @ [0x27] @ argv ! 0 @ [0x27] @ str '' called with wrong arg num'')))"
  by (simp add: proc_arityerr_def picolSetResult_def picolDropCallFrame_def)

lemma CallProc_wrong:
  assumes "names_ok xs" "length argv \<noteq> Suc (length xs)" "argv \<noteq> []"
  shows "picolCommandCallProc run i argv (join xs, body) =
    Inr (PICOL_ERR, picolSetResult i (snprintf 1024 (str ''Proc '' @ [0x27] @ argv ! 0 @ [0x27] @ str '' called with wrong arg num'')))"
proof -
  from bind_args_frame [where argv = argv and s = "join xs" and a = 0 and i = i and f = "[]" and fs = "callframe i"]
  obtain f where f: "snd (bind_args argv (join xs) 0 (push_frame i)) = i\<lparr>callframe := f # callframe i\<rparr>"
    by (auto simp: push_frame_eq)
  have "fst (bind_args argv (join xs) 0 (push_frame i)) \<noteq> Some (length argv - 1)"
  proof (cases "length xs \<le> length argv - 1")
    case True
    then show ?thesis using bind_args_join [OF assms(1), of 0 argv] assms(2,3) by (cases argv) auto
  next
    case False
    then show ?thesis using bind_args_short [OF assms(1), of argv 0] by simp
  qed
  then show ?thesis using f proc_arityerr_eq [where i = i and f = f and argv = argv]
    by (cases "bind_args argv (join xs) 0 (push_frame i)")
      (auto simp: picolCommandCallProc_def split: option.split)
qed

text \<open>C31:
  A call of a procedure with the parameters \<open>xs\<close>: with one argument for each, the body runs in a
  new frame that holds the parameters with their values and nothing else; with any other number
  the call is an error that says so and changes nothing but the result.
\<close>

theorem proc_params:
  assumes "interp_ok i" and "names_ok xs" and "distinct xs" and "argv \<noteq> []"
    and "cfunc c = CallProc" and "privdata c = (join xs, body)"
  shows "if length argv = Suc (length xs)
    then \<exists>f. map_of f = map_of (zip xs (tl argv)) \<and>
      picol_run sys (Suc n) (Call c argv) i =
        rbind (picolEval sys n (i\<lparr>callframe := f # callframe i\<rparr>) body)
          (\<lambda>(rc, j). Inr (if rc = PICOL_RETURN then PICOL_OK else rc, picolDropCallFrame j))
    else picol_run sys (Suc n) (Call c argv) i =
      Inr (PICOL_ERR, picolSetResult i
        (snprintf 1024 (str ''Proc '' @ [0x27] @ argv ! 0 @ [0x27] @ str '' called with wrong arg num'')))"
  using CallProc_params [OF assms(1-3), where argv = argv and run = "picol_run sys n" and body = body]
    CallProc_wrong [OF assms(2) _ assms(4), where run = "picol_run sys n" and i = i and body = body] assms(5,6)
  by (auto simp: dispatch_def call_func_def picolEval_def)

theorem proc_params_witness:
  "picol_run (\<lambda>_ _. 0) 5 (Call demo_proc [str ''sq'']) picol_start =
   Inr (PICOL_ERR, picolSetResult picol_start (str ''Proc '' @ [0x27] @ str ''sq'' @ [0x27] @ str '' called with wrong arg num''))"
proof -
  have "snprintf 1024 (str ''Proc '' @ [0x27] @ str ''sq'' @ [0x27] @ str '' called with wrong arg num'') =
      str ''Proc '' @ [0x27] @ str ''sq'' @ [0x27] @ str '' called with wrong arg num''" by code_simp
  with proc_params [where i = picol_start and xs = "[str ''x'']" and argv = "[str ''sq'']" and c = demo_proc
      and body = "str ''return [* $x $x]''" and sys = "\<lambda>_ _. 0" and n = 4, OF picol_start_ok]
  show ?thesis by (simp add: demo_proc_def names_ok_def str_def)
qed

end
