(* ===== verification/Picol_Loop.thy ===== *)
theory Picol_Loop
  imports Picol_Spec
begin

text \<open>
  A counting loop of the Tcl interpreter that ends with the right count, the division of its
  numbers, and the places where the program leaves its buffers.
\<close>

section \<open>A counting loop\<close>

definition count_cond :: bytes where "count_cond = str ''< $i $n''"
definition count_body :: bytes where "count_body = str ''set i [+ $i 1]''"
definition count_script :: bytes where
  "count_script = str ''while {< $i $n} {set i [+ $i 1]}''"

lemma count_lexes:
  "lexes (picolInitParser count_cond)
     [(PT_ESC, str ''<''), (PT_SEP, []), (PT_VAR, str ''i''), (PT_SEP, []), (PT_VAR, str ''n''), (PT_EOL, [])]"
  "lexes (picolInitParser count_body)
     [(PT_ESC, str ''set''), (PT_SEP, []), (PT_ESC, str ''i''), (PT_SEP, []), (PT_CMD, str ''+ $i 1''), (PT_EOL, [])]"
  "lexes (picolInitParser (str ''+ $i 1''))
     [(PT_ESC, str ''+''), (PT_SEP, []), (PT_VAR, str ''i''), (PT_SEP, []), (PT_ESC, str ''1''), (PT_EOL, [])]"
  "lexes (picolInitParser count_script)
     [(PT_ESC, str ''while''), (PT_SEP, []), (PT_STR, count_cond), (PT_SEP, []), (PT_STR, count_body), (PT_EOL, [])]"
  by code_simp+

text \<open>The commands the loop needs, under their names.\<close>

definition has_cmd :: "interp \<Rightarrow> string \<Rightarrow> cmdfunc \<Rightarrow> bool" where
  "has_cmd i n f \<longleftrightarrow> (case picolGetCommand i (str n) of None \<Rightarrow> False | Some c \<Rightarrow> cfunc c = f)"

definition counts :: "interp \<Rightarrow> int \<Rightarrow> int \<Rightarrow> bool" where
  "counts i k n \<longleftrightarrow> has_cmd i ''while'' While_cmd \<and> has_cmd i ''set'' Set_cmd \<and> has_cmd i ''<'' Math \<and>
     has_cmd i ''+'' Math \<and> picolGetVar i (str ''i'') = Some (dec k) \<and> picolGetVar i (str ''n'') = Some (dec n) \<and>
     - 2147483648 \<le> k \<and> k < 2147483648 \<and> - 2147483648 \<le> n \<and> n < 2147483648"

lemma has_cmd_get: "has_cmd i n f \<Longrightarrow> \<exists>c. picolGetCommand i (str n) = Some c \<and> cfunc c = f"
  by (auto simp: has_cmd_def split: option.splits)

lemma picolGetCommand_updates [simp]:
  "picolGetCommand (picolSetResult i s) m = picolGetCommand i m"
  "picolGetCommand (picolSetVar i x v) m = picolGetCommand i m"
  by (simp_all add: picolGetCommand_def picolSetResult_def picolSetVar_def)

lemma has_cmd_updates [simp]:
  "has_cmd (picolSetResult i s) m f = has_cmd i m f"
  "has_cmd (picolSetVar i x v) m f = has_cmd i m f"
  by (simp_all add: has_cmd_def)

lemma counts_SetResult [simp]: "counts (picolSetResult i s) k n = counts i k n"
  by (simp add: counts_def)

lemma result_SetResult [simp]: "result (picolSetResult i s) = s"
  by (simp add: picolSetResult_def)

lemma sout_SetResult [simp]: "sout (picolSetResult i s) = sout i"
  by (simp add: picolSetResult_def)

lemma SetResult_twice [simp]: "picolSetResult (picolSetResult i s) t = picolSetResult i t"
  by (simp add: picolSetResult_def)

lemma math_less:
  assumes "- 2147483648 \<le> k" "k < 2147483648" "- 2147483648 \<le> n" "n < 2147483648"
  shows "picolCommandMath i [str ''<'', dec k, dec n] = (PICOL_OK, picolSetResult i (dec (bool_long (k < n))))"
proof -
  have "snprintf 64 (dec (bool_long (k < n))) = dec (bool_long (k < n))"
    by (rule snprintf_dec) (simp_all add: bool_long_def)
  then show ?thesis
    using assms by (simp add: picolCommandMath_def atol_dec math_op_def ch_def str_def)
qed

lemma math_plus_1:
  assumes "- 2147483648 \<le> k" "k < 2147483647"
  shows "picolCommandMath i [str ''+'', dec k, str ''1''] = (PICOL_OK, picolSetResult i (dec (k + 1)))"
proof -
  have "snprintf 64 (dec (k + 1)) = dec (k + 1)" using assms by (intro snprintf_dec) simp_all
  moreover have "atol (str ''1'') = 1" by code_simp
  ultimately show ?thesis
    using assms by (simp add: picolCommandMath_def atol_dec math_op_def ch_def str_def int32_id)
qed

lemma count_cond_run:
  assumes "counts i k n"
  shows "picol_run sys (Suc (Suc (Suc (Suc (Suc (Suc (Suc (Suc (Suc m))))))))) (Eval count_cond) i =
    Inr (PICOL_OK, picolSetResult i (dec (bool_long (k < n))))"
proof -
  obtain c where c: "picolGetCommand i (str ''<'') = Some c" "cfunc c = Math"
    using has_cmd_get [of i "''<''" Math] assms by (auto simp: counts_def)
  show ?thesis
    unfolding eval_play [OF count_lexes(1)]
    using assms c math_less [of k n]
    by (simp add: counts_def add_token_def dispatch_def call_func_def next_if_ok_def)
qed

lemma count_inner_run:
  assumes "counts i k n" "k < n"
  shows "picol_run sys (Suc (Suc (Suc (Suc (Suc (Suc (Suc (Suc (Suc m))))))))) (Eval (str ''+ $i 1'')) i =
    Inr (PICOL_OK, picolSetResult i (dec (k + 1)))"
proof -
  obtain c where c: "picolGetCommand i (str ''+'') = Some c" "cfunc c = Math"
    using has_cmd_get [of i "''+''" Math] assms by (auto simp: counts_def)
  show ?thesis
    unfolding eval_play [OF count_lexes(3)]
    using assms c math_plus_1 [of k]
    by (simp add: counts_def add_token_def dispatch_def call_func_def next_if_ok_def)
qed

definition counted :: "interp \<Rightarrow> int \<Rightarrow> interp" where
  "counted i k = picolSetResult (picolSetVar (picolSetResult i (dec k)) (str ''i'') (dec k)) (dec k)"

lemma count_body_run:
  assumes "counts i k n" "k < n"
  shows "picol_run sys (Suc (Suc (Suc (Suc (Suc (Suc (Suc (Suc (Suc (Suc (Suc (Suc (Suc (Suc (Suc m)))))))))))))))
      (Eval count_body) i = Inr (PICOL_OK, counted i (k + 1))"
proof -
  obtain c where c: "picolGetCommand i (str ''set'') = Some c" "cfunc c = Set_cmd"
    using has_cmd_get [of i "''set''" Set_cmd] assms by (auto simp: counts_def)
  show ?thesis
    unfolding eval_play [OF count_lexes(2)]
    using c count_inner_run [where i = "picolSetResult i []" and k = k and n = n] assms
    by (simp add: add_token_def dispatch_def call_func_def next_if_ok_def picolCommandSet_def counted_def
        del: picol_run.simps) (simp add: dispatch_def call_func_def next_if_ok_def picolCommandSet_def)
qed

lemma counts_next: "counts i k n \<Longrightarrow> k < n \<Longrightarrow> counts (counted i (k + 1)) (k + 1) n"
  by (simp add: counts_def counted_def picolGetVar_SetVar str_def)

lemma counted_simps:
  "x \<noteq> str ''i'' \<Longrightarrow> picolGetVar (counted i k) x = picolGetVar i x"
  "sout (counted i k) = sout i"
  by (simp_all add: counted_def picolGetVar_SetVar) (simp add: picolSetResult_def picolSetVar_def)

abbreviation count_argv :: "bytes list" where
  "count_argv \<equiv> [str ''while'', count_cond, count_body]"

lemma atol_bool: "atol (dec 0) = 0" "atol (dec 1) = 1"
  by (rule atol_dec; simp)+

lemma count_while:
  assumes "counts i k n" "k \<le> n" "nat (n - k) = d"
  shows "\<exists>j. picol_run sys (d + 16) (While count_argv) i = Inr (PICOL_OK, j) \<and>
    picolGetVar j (str ''i'') = Some (dec n) \<and> (\<forall>x. x \<noteq> str ''i'' \<longrightarrow> picolGetVar j x = picolGetVar i x) \<and>
    sout j = sout i"
  using assms
proof (induction d arbitrary: i k)
  case 0
  then have "k = n" by simp
  have "picol_run sys 15 (Eval count_cond) i = Inr (PICOL_OK, picolSetResult i (dec (bool_long (k < n))))"
    using count_cond_run [OF 0(1), of sys 6] by (simp add: numeral_eq_Suc)
  then have "while_loop (picol_run sys 15) count_argv i = Inr (PICOL_OK, picolSetResult i (dec (bool_long (k < n))))"
    using \<open>k = n\<close> by (simp add: while_loop_def next_if_ok_def atol_bool bool_long_def del: picol_run.simps)
  then have "picol_run sys 16 (While count_argv) i = Inr (PICOL_OK, picolSetResult i (dec (bool_long (k < n))))"
    using picol_run.simps(2) [of sys 15] by (simp add: dispatch_def)
  then show ?case using 0 \<open>k = n\<close> by (simp add: counts_def)
next
  case (Suc d)
  then have k: "k < n" by simp
  let ?f = "picol_run sys (d + 16)" let ?i = "picolSetResult i (dec (bool_long (k < n)))"
  have c: "?f (Eval count_cond) i = Inr (PICOL_OK, ?i)"
    using count_cond_run [OF Suc(2), of sys "d + 7"] by (simp add: numeral_eq_Suc)
  have b: "?f (Eval count_body) ?i = Inr (PICOL_OK, counted ?i (k + 1))"
    using count_body_run [where i = ?i and k = k and n = n and m = "d + 1" and sys = sys] Suc(2) k
    by (simp add: numeral_eq_Suc del: picol_run.simps)
  have n: "counts (counted ?i (k + 1)) (k + 1) n" using Suc(2) k by (intro counts_next) simp_all
  have d: "k + 1 \<le> n" "nat (n - (k + 1)) = d" using k Suc(4) by linarith+
  from Suc.IH [OF n d] obtain j
    where j: "?f (While count_argv) (counted ?i (k + 1)) = Inr (PICOL_OK, j)"
      "picolGetVar j (str ''i'') = Some (dec n)"
      "\<forall>x. x \<noteq> str ''i'' \<longrightarrow> picolGetVar j x = picolGetVar (counted ?i (k + 1)) x"
      "sout j = sout (counted ?i (k + 1))" by auto
  have "while_loop ?f count_argv i = Inr (PICOL_OK, j)"
    using c b j(1) k by (simp add: while_loop_def next_if_ok_def atol_bool bool_long_def del: picol_run.simps)
  then have "picol_run sys (Suc d + 16) (While count_argv) i = Inr (PICOL_OK, j)"
    using picol_run.simps(2) [of sys "d + 16"] by (simp add: dispatch_def)
  with j show ?case by (intro exI [of _ j]) (simp add: counted_simps)
qed

text \<open>C32:
  A loop that counts: where the commands it uses have their meaning, \<open>i\<close> is the text of \<open>k\<close> and
  \<open>n\<close> that of \<open>n\<close>, with \<open>k \<le> n\<close>, the script \<open>while {< $i $n} {set i [+ $i 1]}\<close> ends normally after
  finitely many steps, \<open>i\<close> is then the text of \<open>n\<close>, the other variables are as before, and
  nothing was printed.
\<close>

theorem count_loop:
  assumes "counts i k n" and "k \<le> n"
  shows "\<exists>j. picolEval sys (nat (n - k) + 25) i count_script = Inr (PICOL_OK, j) \<and>
    picolGetVar j (str ''i'') = Some (dec n) \<and> (\<forall>x. x \<noteq> str ''i'' \<longrightarrow> picolGetVar j x = picolGetVar i x) \<and>
    sout j = sout i"
proof -
  let ?d = "nat (n - k)" let ?i = "picolSetResult i []"
  obtain c where c: "picolGetCommand i (str ''while'') = Some c" "cfunc c = While_cmd"
    using has_cmd_get [of i "''while''" While_cmd] assms by (auto simp: counts_def)
  from count_while [where i = ?i and k = k and n = n, OF _ assms(2) refl, of sys] assms(1) obtain j
    where j: "picol_run sys (?d + 16) (While count_argv) ?i = Inr (PICOL_OK, j)"
      "picolGetVar j (str ''i'') = Some (dec n)" "\<forall>x. x \<noteq> str ''i'' \<longrightarrow> picolGetVar j x = picolGetVar ?i x"
      "sout j = sout ?i" by auto
  have w: "picol_run sys (Suc (?d + 16)) (Call c count_argv) ?i = Inr (PICOL_OK, j)"
    unfolding picol_run.simps(2) using j(1) c(2) by (simp add: dispatch_def call_func_def picolCommandWhile_def)
  define e where "e = ?d + 16"
  have w': "picol_run sys (Suc e) (Call c count_argv) ?i = Inr (PICOL_OK, j)" using w by (simp only: e_def)
  have "picolEval sys (Suc (Suc (Suc (Suc (Suc (Suc (Suc (Suc e)))))))) i count_script = Inr (PICOL_OK, j)"
    unfolding picolEval_def eval_play [OF count_lexes(4)]
    using c w' by (simp add: add_token_def next_if_ok_def del: picol_run.simps)
  then have "picolEval sys (?d + 25) i count_script = Inr (PICOL_OK, j)"
    unfolding picolEval_def by (rule picol_run_enough) (simp add: e_def)
  with j show ?thesis by (intro exI [of _ j]) simp
qed

definition demo_count :: interp where
  "demo_count = picolSetVar (picolSetVar picol_start (str ''n'') (dec 12)) (str ''i'') (dec 3)"

lemma demo_counts: "counts demo_count 3 12"
proof -
  have "has_cmd demo_count n f" if "(n, f) \<in> set core_table" for n f
    using picol_start_get [OF that] by (auto simp: demo_count_def has_cmd_def)
  then have "has_cmd demo_count ''while'' While_cmd" "has_cmd demo_count ''set'' Set_cmd"
    "has_cmd demo_count ''<'' Math" "has_cmd demo_count ''+'' Math" by (auto simp: core_table_def)
  then show ?thesis by (simp add: counts_def demo_count_def picolGetVar_SetVar str_def)
qed

theorem count_loop_witness:
  "\<exists>j. picolEval (\<lambda>_ _. 0) (nat (12 - 3) + 25) demo_count count_script = Inr (PICOL_OK, j) \<and>
    picolGetVar j (str ''i'') = Some (str ''12'')"
proof -
  have "dec 12 = str ''12''" by code_simp
  with count_loop [OF demo_counts, of "\<lambda>_ _. 0"] show ?thesis by auto
qed

section \<open>Tokens, commands and numbers\<close>

text \<open>
  A call of \<open>picolGetToken\<close> on a parser inside its script overruns the script only when the script
  has a backslash in it; otherwise the parser stays inside, every token it delivers but the end
  of the script is a part of the script, and the call consumes characters or is at the end.
\<close>

theorem get_token_ok:
  assumes "parser_ok p"
  shows "case picolGetToken p of
      Inl e \<Rightarrow> e = Overrun \<and> 0x5c \<in> set (ptext p)
    | Inr q \<Rightarrow> ptext q = ptext p \<and> len_ok q \<and> 0 \<le> len q \<and> (ttype q \<noteq> PT_EOF \<longrightarrow> token_ok q) \<and>
        (len q < len p \<or> len q = 0 \<and> (ttype q = PT_EOF \<or> ttype q = PT_EOL \<and> ttype p \<noteq> PT_EOL))"
proof -
  from assms have p: "len_ok p" "0 \<le> len p" by (simp_all add: parser_ok_def)
  show ?thesis
    using get_token_got [OF p] assms
    by (auto simp: gets_def got_def took_def parser_ok_def split: sum.split)
qed

theorem get_token_ok_witness:
  "case picolGetToken (picolInitParser (str ''set a'')) of
      Inl e \<Rightarrow> e = Overrun \<and> 0x5c \<in> set (str ''set a'')
    | Inr q \<Rightarrow> ptext q = str ''set a''"
proof -
  have "parser_ok (picolInitParser (str ''set a''))"
    by (simp add: parser_ok_def picolInitParser_def len_ok_def)
  from get_token_ok [OF this] show ?thesis by (simp add: picolInitParser_def split: sum.splits)
qed

text \<open>
  No script can lose or redefine a core command: whatever was evaluated in the started
  interpreter, each core command still has its function, and registering its name again is an
  error that says so and leaves the commands alone.
\<close>

theorem core_kept:
  assumes "picolEval sys n picol_start t = Inr (rc, j)" and "(name, f) \<in> set core_table"
  shows "(\<exists>c. picolGetCommand j (str name) = Some c \<and> cfunc c = f) \<and>
    picolRegisterCommand j (str name) g pd =
      (PICOL_ERR, picolSetResult j (snprintf 1024 (str ''Command '' @ [0x27] @ str name @ [0x27] @ str '' already defined'')))"
proof -
  from eval_went [OF picol_start_ok, of sys n t] assms(1) have j: "interp_ok j" "grew picol_start j" by simp_all
  from picol_start_get [OF assms(2)] obtain c
    where c: "picolGetCommand picol_start (str name) = Some c" "cfunc c = f" by blast
  from grew_command [OF j(2,1) picol_start_ok c(1)] c(2) show ?thesis
    by (simp add: picolRegisterCommand_def)
qed

theorem core_kept_witness:
  "\<exists>c. picolGetCommand (picolSetResult (picolSetVar picol_start (str ''a'') (str ''x y'')) (str ''x y'')) (str ''while'') = Some c
     \<and> cfunc c = While_cmd"
  using core_kept [OF demo_set, of "''while''" While_cmd] by (simp add: core_table_def)

lemma trunc_div:
  fixes a b :: int
  assumes "b \<noteq> 0"
  shows "a - sgn a * sgn b * (\<bar>a\<bar> div \<bar>b\<bar>) * b = sgn a * (\<bar>a\<bar> mod \<bar>b\<bar>)"
proof -
  define q r where "q = \<bar>a\<bar> div \<bar>b\<bar>" and "r = \<bar>a\<bar> mod \<bar>b\<bar>"
  have e: "q * \<bar>b\<bar> + r = \<bar>a\<bar>" unfolding q_def r_def by (rule div_mult_mod_eq)
  have "a - sgn a * sgn b * q * b = sgn a * r"
  proof (cases "a = 0")
    case False
    have sb: "sgn b * b = \<bar>b\<bar>" by (simp add: abs_sgn mult.commute)
    have "sgn a * sgn b * q * b = sgn a * (q * (sgn b * b))" by (simp only: ac_simps)
    then have m: "sgn a * sgn b * q * b = sgn a * (q * \<bar>b\<bar>)" by (simp only: sb)
    have "a = sgn a * (q * \<bar>b\<bar> + r)" by (simp only: e mult_sgn_abs)
    then have "a = sgn a * (q * \<bar>b\<bar>) + sgn a * r" by (simp only: distrib_left)
    then show ?thesis unfolding m by linarith
  qed simp
  then show ?thesis by (simp only: q_def r_def)
qed

lemma trunc_div_range:
  fixes a b :: int
  assumes "- 2147483648 \<le> a" "a < 2147483648" "b \<noteq> 0" "\<not> (a = - 2147483648 \<and> b = - 1)"
  shows "- 2147483648 \<le> sgn a * sgn b * (\<bar>a\<bar> div \<bar>b\<bar>) \<and> sgn a * sgn b * (\<bar>a\<bar> div \<bar>b\<bar>) < 2147483648"
proof -
  have "\<bar>a\<bar> div \<bar>b\<bar> \<le> \<bar>a\<bar> div 1" using assms(3) by (intro zdiv_mono2) simp_all
  then have d: "0 \<le> \<bar>a\<bar> div \<bar>b\<bar>" "\<bar>a\<bar> div \<bar>b\<bar> \<le> \<bar>a\<bar>"
    using assms(3) by (simp_all add: pos_imp_zdiv_nonneg_iff)
  have s: "sgn a * sgn b = 1 \<or> sgn a * sgn b = -1 \<or> sgn a * sgn b = 0" by (auto simp: sgn_if)
  have big: "\<bar>a\<bar> div \<bar>b\<bar> < 2147483648" if "sgn a * sgn b = 1"
  proof (cases "a = - 2147483648")
    case True
    with that assms have "b < - 1" by (auto simp: sgn_if split: if_splits)
    then have "2147483648 div \<bar>b\<bar> < (2147483648 :: int)" by (intro int_div_less_self) simp_all
    with True show ?thesis by simp
  qed (use d assms in linarith)
  show ?thesis
  proof (cases "sgn a * sgn b = 1")
    case True
    show ?thesis unfolding True using d(1) big [OF True] by simp
  next
    case False
    with s have "sgn a * sgn b = - 1 \<or> sgn a * sgn b = 0" by blast
    then show ?thesis
    proof
      assume m: "sgn a * sgn b = - 1"
      show ?thesis unfolding m using d assms(1,2) by linarith
    next
      assume m: "sgn a * sgn b = 0"
      show ?thesis unfolding m by simp
    qed
  qed
qed

text \<open>
  Division, of numbers in the range of a \<open>long\<close>: by zero it is an error; otherwise the result is
  the text of the quotient rounded toward zero, the number \<open>q\<close> with a remainder that is smaller
  than the divisor and has the sign of the dividend.
\<close>

theorem math_div:
  assumes "- 2147483648 \<le> a" "a < 2147483648" "- 2147483648 \<le> b" "b < 2147483648"
    and "\<not> (a = - 2147483648 \<and> b = - 1)"
  shows "if b = 0
    then picolCommandMath i [str ''/'', dec a, dec b] = (PICOL_ERR, picolSetResult i (str ''Division by zero''))
    else \<exists>q. picolCommandMath i [str ''/'', dec a, dec b] = (PICOL_OK, picolSetResult i (dec q)) \<and>
      \<bar>a - q * b\<bar> < \<bar>b\<bar> \<and> 0 \<le> (a - q * b) * a"
proof (cases "b = 0")
  case True
  with assms show ?thesis by (simp add: picolCommandMath_def atol_dec ch_def str_def)
next
  case False
  let ?q = "sgn a * sgn b * (\<bar>a\<bar> div \<bar>b\<bar>)"
  note r = trunc_div_range [OF assms(1,2) False assms(5)] and t = trunc_div [OF False, of a]
  have "math_op (str ''/'') a b = ?q" using r by (simp add: math_op_def ch_def str_def int32_id)
  then have m: "picolCommandMath i [str ''/'', dec a, dec b] = (PICOL_OK, picolSetResult i (dec ?q))"
    using assms False r by (simp add: picolCommandMath_def atol_dec ch_def snprintf_dec) (simp add: str_def)
  have "\<bar>a - ?q * b\<bar> < \<bar>b\<bar>" unfolding t using False by (simp add: abs_mult sgn_if)
  moreover have "(a - ?q * b) * a = \<bar>a\<bar> * (\<bar>a\<bar> mod \<bar>b\<bar>)"
    unfolding t by (simp add: abs_sgn mult.commute mult.left_commute)
  moreover have "0 \<le> \<bar>a\<bar> * (\<bar>a\<bar> mod \<bar>b\<bar>)" using False by simp
  ultimately show ?thesis using m False by (intro iffD2 [OF if_not_P] exI [of _ ?q]) simp_all
qed

theorem math_div_witness:
  "\<exists>q. picolCommandMath picol_start [str ''/'', dec (- 7), dec 2] = (PICOL_OK, picolSetResult picol_start (dec q)) \<and>
     \<bar>- 7 - q * 2\<bar> < 2"
  using math_div [of "- 7" 2 picol_start] by auto

section \<open>Leaving the buffers\<close>

text \<open>
  A script file runs out of the program's buffer exactly when it has 8192 bytes or more: then the
  terminating zero is written behind the buffer.
\<close>

theorem script_overflow:
  assumes "interp_ok i"
  shows "(\<exists>j. picol_script sys n (Some f) i = Inl (Overflow, j)) \<longleftrightarrow> 8192 \<le> length f"
proof (cases "8192 \<le> length f")
  case True
  then show ?thesis by (simp add: picol_script_def)
next
  case False
  then show ?thesis
    using eval_went [OF assms, of sys n "c_str f"]
    by (cases "picolEval sys n i (c_str f)") (auto simp: picol_script_def)
qed

theorem script_overflow_witness:
  "\<exists>j. picol_script (\<lambda>_ _. 0) 9 (Some (replicate 8192 32)) picol_start = Inl (Overflow, j)"
  using script_overflow [OF picol_start_ok, of "\<lambda>_ _. 0" 9 "replicate 8192 32"] by simp

lemma command_loop_plain:
  assumes "\<forall>c \<in> set u. c \<notin> {0x5b, 0x5c, 0x5d, 0x7b, 0x7d}" and "rest p = u @ [0x5c]" and "len_ok p"
  shows "command_loop 1 0 p = Inl Overrun"
  using assms
proof (induction u arbitrary: p)
  case Nil
  then have r: "rest p = [0x5c]" by simp
  note a = rest_at [OF r] and l = rest_len [OF Nil(3) r]
  have "command_loop 1 0 (adv (adv p)) = Inl Overrun"
    using l by (subst command_loop.simps) simp
  then show ?case using a l by (subst command_loop.simps) simp
next
  case (Cons c u)
  then have r: "rest p = c # (u @ [0x5c])" by simp
  note a = rest_at [OF r] and l = rest_len [OF Cons(4) r]
  have "command_loop 1 0 (adv p) = Inl Overrun"
    by (rule Cons.IH) (use Cons.prems a in simp_all)
  then show ?case using a l Cons.prems(1) by (subst command_loop.simps) simp
qed

text \<open>
  A bracket that is not closed and ends with a backslash makes the tokenizer read past the end
  of the script: \<open>len\<close> steps from 1 to -1 and is never 0.
\<close>

theorem bracket_overrun:
  assumes "\<forall>c \<in> set u. c \<notin> {0x5b, 0x5c, 0x5d, 0x7b, 0x7d}"
  shows "picolEval sys (Suc (Suc n)) i (0x5b # u @ [0x5c]) = Inl (Overrun, picolSetResult i [])"
proof -
  let ?p = "picolInitParser (0x5b # u @ [0x5c])" let ?s = "start_here (adv ?p)"
  have p: "rest ?p = 0x5b # (u @ [0x5c])" "len_ok ?p" by (simp_all add: picolInitParser_def rest_def len_ok_def)
  note a = rest_at [OF p(1)] and l = rest_len [OF p(2,1)]
  have "command_loop 1 0 ?s = Inl Overrun"
    by (rule command_loop_plain [OF assms]) (use a p(2) in \<open>simp_all add: rest_def\<close>)
  then have "picolGetToken ?p = Inl Overrun"
    using a l by (subst picolGetToken.simps) (simp add: picolParseCommand_def)
  then show ?thesis by (simp add: picolEval_def dispatch_def eval_start_def eval_loop_def)
qed

theorem bracket_overrun_witness:
  "picolEval (\<lambda>_ _. 0) (Suc (Suc 0)) picol_start (0x5b # str ''a'' @ [0x5c]) = Inl (Overrun, picolSetResult picol_start [])"
  by (rule bracket_overrun) (simp add: str_def)

end
