(* ===== verification/Booter.thy ===== *)
theory Booter
  imports Cstring
begin

text \<open>
  \<open>booter/booter.c\<close>, the boot loader, up to its file system: it reads a Fuzix file system through
  a block driver, opens one file at a time, resolves paths, and mounts a partition.  The machine
  is big-endian with 16-bit addresses and a 16-bit \<open>int\<close>.

  The driver behind the pointers \<open>dev_init\<close> and \<open>_dev_read\<close>, the console of BASIC and the keyboard
  are not code of this file: the driver is the parameter \<open>dev\<close> (\<open>Dw\<close> models
  \<open>booter/dw.c\<close>), the characters put on the console are collected in \<open>screen\<close>, and the keys to
  come are the list \<open>keys\<close>.
\<close>

section \<open>Data on the disk\<close>

definition ROOT :: u16 where "ROOT = 1"
definition MAGIC :: u16 where "MAGIC = 0x31c6"
definition F_DIR :: u16 where "F_DIR = 0x4000"
definition MBR_PART_OFF :: nat where "MBR_PART_OFF = 446"

text \<open>A 16-bit and a 32-bit field at an offset.\<close>

definition get16 :: "nat \<Rightarrow> bytes \<Rightarrow> u16" where
  "get16 k b = be16 (b ! k) (b ! (k + 1))"

definition get32 :: "nat \<Rightarrow> bytes \<Rightarrow> u32" where
  "get32 k b = push_bit 16 (ucast (get16 k b)) OR ucast (get16 (k + 2) b)"

record inode =
  i_mode :: u16
  i_nlink :: u16
  i_uid :: u16
  i_gid :: u16
  i_size :: u32
  i_atime :: u32
  i_mtime :: u32
  i_ctime :: u32
  i_addr :: "u16 list"

text \<open>The structure that \<open>memcpy\<close> makes of the 64 bytes of an inode.\<close>

definition inode_of :: "bytes \<Rightarrow> inode" where
  "inode_of b = \<lparr>i_mode = get16 0 b, i_nlink = get16 2 b, i_uid = get16 4 b, i_gid = get16 6 b,
     i_size = get32 8 b, i_atime = get32 12 b, i_mtime = get32 16 b, i_ctime = get32 20 b,
     i_addr = map (\<lambda>k. get16 (24 + 2 * k) b) [0..<20]\<rparr>"

text \<open>The 256 block numbers of an indirect block.\<close>

definition words :: "bytes \<Rightarrow> u16 list" where
  "words b = map (\<lambda>k. get16 (2 * k) b) [0..<256]"

record dirent =
  d_inode :: u16
  d_name :: bytes

definition dirent_of :: "bytes \<Rightarrow> dirent" where
  "dirent_of b = \<lparr>d_inode = get16 0 b, d_name = take 30 (drop 2 b)\<rparr>"

text \<open>
  \<open>swizzle32\<close> turns the four bytes around in place and gives their value.
\<close>

definition swizzle32 :: "bytes \<Rightarrow> u32 \<times> bytes" where
  "swizzle32 b =
     (let s0 = b ! 0; s1 = b ! 1; b = b[0 := b ! 3]; b = b[1 := b ! 2]; b = b[2 := s1]; b = b[3 := s0]
      in (get32 0 b, b))"

definition mbr_magic :: "bytes \<Rightarrow> bool" where
  "mbr_magic b \<longleftrightarrow> b ! 510 \<noteq> 0x55 \<or> b ! 511 \<noteq> 0xaa"

section \<open>State\<close>

text \<open>
  The machine around the program: the driver (\<open>init\<close> is true for an error, \<open>rd\<close> gives the same
  and what is then in the buffer), the keys Control and Space and the ticker of BASIC at each
  look at them, the assembled bounce routine of \<open>crt0.s\<close>, the string variables of BASIC, and the byte that
  follows the zero at the end of the command line in its buffer.
\<close>

record dev =
  init :: "u8 \<Rightarrow> bool"
  rd :: "u8 \<Rightarrow> u32 \<Rightarrow> bool \<times> bytes"
  cntl :: "nat \<Rightarrow> bool"
  spc :: "nat \<Rightarrow> bool"
  timer :: "nat \<Rightarrow> u16"
  bounce :: bytes
  basvars :: "(u16 \<times> bytes) list"
  junk :: u8

text \<open>
  How a run ends without a result: \<open>Exit\<close> to BASIC, \<open>Exec\<close> of the loaded kernel, a read through
  a null pointer or outside an array (\<open>Outside\<close>), a recursion without end, and waiting for a key.
  Two ends are writes that leave their array: \<open>dopath\<close> copies a component \<open>c\<close> of a path into a
  buffer of 31 bytes without a bound (\<open>Path_overrun c\<close>), and \<open>mount\<close> swaps four bytes in place at the
  table entry of drive \<open>m\<close>, which may be behind the block buffer (\<open>Table_overrun m\<close>).  The program
  goes on after these writes with whatever they have hit; what that is depends on the linker, and
  the model ends there.
\<close>

datatype bend = Exit | Exec | Null_read | Outside | Path_overrun bytes | Table_overrun u16 | Recursion | Waiting | Out_of_fuel

text \<open>
  The program's variables: \<open>bpos\<close> is the offset in \<open>dbuf\<close>, \<open>maddr\<close> that in the window of the
  memory file, whose page is \<open>page\<close>, and \<open>rest\<close> the string that \<open>strtok\<close> has left; \<open>ram\<close> is the
  physical memory, \<open>drive_sel\<close> the drive last given to \<open>dev_init\<close>, and \<open>polls\<close> counts the looks
  at the keyboard and the ticker.  The command line and the boot file are the C strings in their
  buffers of 256 bytes.
\<close>

record bt =
  cmd_line :: bytes
  boot_file :: bytes
  drive_no :: u8
  part_no :: u8
  part_offset :: u32
  tick_div :: u16
  tick_acc :: u16
  buf :: bytes
  mountf :: bool
  dbuf :: bytes
  idir :: "u16 list"
  ino :: inode
  left :: nat
  bpos :: nat
  spos :: nat
  epos :: nat
  cd :: u16
  mleft :: nat
  maddr :: nat
  paddr :: u16
  page :: nat
  ram :: "nat \<Rightarrow> u8"
  mmu1 :: "u8 list"
  taskreg :: u8
  hflag :: u8
  haddr :: u16
  rest :: "bytes option"
  drive_sel :: u8
  screen :: bytes
  keys :: bytes
  polls :: nat

type_synonym 'a bres = "(bend \<times> bt) + ('a \<times> bt)"

section \<open>Console\<close>

definition putc :: "u8 \<Rightarrow> bt \<Rightarrow> bt" where
  "putc c s = s\<lparr>screen := screen s @ [c]\<rparr>"

definition puts :: "bytes \<Rightarrow> bt \<Rightarrow> bt" where
  "puts t s = s\<lparr>screen := screen s @ t\<rparr>"

abbreviation NL :: "bt \<Rightarrow> bt" where
  "NL \<equiv> putc 13"

definition putn :: "u8 \<Rightarrow> bt \<Rightarrow> bt" where
  "putn n = putc (if 9 < n then n + (0x41 - 10) else n + 0x30)"

definition putb :: "u8 \<Rightarrow> bt \<Rightarrow> bt" where
  "putb n s = putn (n AND 0xf) (putn (drop_bit 4 n) s)"

definition putw :: "u16 \<Rightarrow> bt \<Rightarrow> bt" where
  "putw n s = putb (lo8 n) (putb (hi8 n) s)"

definition putl :: "u32 \<Rightarrow> bt \<Rightarrow> bt" where
  "putl n s = putw (ucast (n AND 0xffff)) (putw (ucast (drop_bit 16 n)) s)"

definition err_tab :: "string list" where
  "err_tab = [''NO ERROR'', ''READING 0 BYTES'', ''CANNOT OPEN KERNEL FILE'', ''SHORT READ OF KERNEL FILE'',
     ''SHORT READ OF KERNEL FILE'', ''ERROR READING KERNEL FILE'', ''ERROR READING DEVICE'',
     ''ERROR PREMATURE EOF'', ''BAD ERROR NO'']"

text \<open>For a number above 7 the function calls itself with 8, and so on.\<close>

definition error :: "u8 \<Rightarrow> bt \<Rightarrow> unit bres" where
  "error no s =
     (let s = NL (putb no (puts (str ''ERROR 0X'') s)) in
      if 7 < no then Inl (Recursion, s)
      else Inr ((), NL (puts (str (err_tab ! unat no)) s)))"

section \<open>Open files\<close>

definition dev_read :: "dev \<Rightarrow> u32 \<Rightarrow> bt \<Rightarrow> bool \<times> bytes" where
  "dev_read dev blk s = rd dev (drive_sel s) (blk + part_offset s)"

definition iopen :: "dev \<Rightarrow> u16 \<Rightarrow> bt \<Rightarrow> bt" where
  "iopen dev no s =
     (let s1 = s\<lparr>buf := snd (dev_read dev (2 + ucast (drop_bit 3 no)) s)\<rparr>;
          s2 = s1\<lparr>ino := inode_of (take 64 (drop (unat (no AND 7) * 64) (buf s1)))\<rparr>;
          s3 = s2\<lparr>idir := words (snd (dev_read dev (ucast (i_addr (ino s2) ! 18)) s2))\<rparr>
      in s3\<lparr>left := 0, spos := 0,
           epos := unat (ucast (drop_bit 9 (i_size (ino s3) + 0x1ff)) :: u16)\<rparr>)"

definition bmap :: "bt \<Rightarrow> u16 bres" where
  "bmap s =
     (if spos s < 18 then Inr (i_addr (ino s) ! spos s, s)
      else if spos s - 18 < 256 then Inr (idir s ! (spos s - 18), s)
      else Inl (Outside, s))"

text \<open>
  Reading some bytes: none at the end of the file, otherwise the bytes, at most to the end of
  the block; \<open>None\<close> is the return value \<open>-1\<close>.
\<close>

definition iload :: "dev \<Rightarrow> bt \<Rightarrow> unit bres" where
  "iload dev s = rbind (bmap s) (\<lambda>(b, s).
     Inr ((), s\<lparr>dbuf := snd (dev_read dev (ucast b) s), spos := spos s + 1, bpos := 0, left := 512\<rparr>))"

definition itake :: "nat \<Rightarrow> bt \<Rightarrow> bytes option bres" where
  "itake n s =
     (let n = min n (left s) in
      if n = 0 then rbind (error 1 s) (\<lambda>(_, s). Inr (None, s))
      else Inr (Some (take n (drop (bpos s) (dbuf s))), s\<lparr>left := left s - n, bpos := bpos s + n\<rparr>))"

definition iread :: "dev \<Rightarrow> nat \<Rightarrow> bt \<Rightarrow> bytes option bres" where
  "iread dev n s =
     (if left s = 0 then
        if spos s = epos s then Inr (Some [], s)
        else rbind (iload dev s) (\<lambda>(_, s). itake n s)
      else itake n s)"

section \<open>Directories\<close>

text \<open>
  \<open>strcmp(d.name, name)\<close> on the 30 characters of a name: when none of them is a zero, a name that
  starts with all of them makes the comparison read behind the entry.
\<close>

definition same_name :: "bytes \<Rightarrow> bytes \<Rightarrow> bool option" where
  "same_name d name =
     (if 0 \<in> set d then Some (c_str d = name)
      else if take (length d) name = d then None
      else Some False)"

text \<open>
  The loop reads an entry at a time until \<open>iread\<close> returns 0; its fuel is the number of entries
  that the file may have.  The value \<open>0xffff\<close> is the \<open>-1\<close> of an error.  An \<open>iread\<close> of a positive
  number of bytes never returns \<open>-1\<close> itself (\<open>iread_some\<close>), so that branch is not reached.
\<close>

fun lookup_loop :: "dev \<Rightarrow> bytes \<Rightarrow> nat \<Rightarrow> bt \<Rightarrow> u16 bres" where
  "lookup_loop dev name 0 s = Inl (Out_of_fuel, s)"
| "lookup_loop dev name (Suc k) s =
     rbind (iread dev 32 s) (\<lambda>(r, s).
       case r of
         None \<Rightarrow> Inl (Outside, s)
       | Some b \<Rightarrow>
           if b = [] then Inr (0xffff, s)
           else case same_name (d_name (dirent_of b)) name of
             None \<Rightarrow> Inl (Outside, s)
           | Some True \<Rightarrow> Inr (d_inode (dirent_of b), s)
           | Some False \<Rightarrow> lookup_loop dev name k s)"

definition entries_fuel :: "bt \<Rightarrow> nat" where
  "entries_fuel s = Suc (left s div 32 + 16 * (epos s - spos s))"

text \<open>
  The test \<open>i.i_mode & F_DIR == 0\<close> is \<open>i.i_mode & (F_DIR == 0)\<close>, which is 0: the branch is never
  taken.
\<close>

definition lookup :: "dev \<Rightarrow> u16 \<Rightarrow> bytes \<Rightarrow> bt \<Rightarrow> u16 bres" where
  "lookup dev no name s =
     (let s = iopen dev no s in
      if i_mode (ino s) AND (if F_DIR = 0 then 1 else 0) \<noteq> 0 then Inr (0xffff, s)
      else lookup_loop dev name (entries_fuel s) s)"

lemma path_shorter:
  "p \<noteq> [] \<Longrightarrow> length (dropWhile (\<lambda>c. c \<noteq> 0x2f) (dropWhile (\<lambda>c. c = 0x2f) p)) < length (p :: bytes)"
proof (cases p)
  case (Cons c r)
  then show ?thesis
    using length_dropWhile_le [of "\<lambda>c. c = 0x2f" r] length_dropWhile_le [of "\<lambda>c. c \<noteq> 0x2f" r]
      length_dropWhile_le [of "\<lambda>c. c \<noteq> 0x2f" "dropWhile (\<lambda>c. c = 0x2f) r"]
    by auto
qed simp

text \<open>
  A path's components, from the root or the current directory.  Each is copied to an array of 31
  bytes; one of more than 30 characters is written past its end.
\<close>

function dopath_loop :: "dev \<Rightarrow> bytes \<Rightarrow> u16 \<Rightarrow> bt \<Rightarrow> u16 bres" where
  "dopath_loop dev p no s =
     (if p = [] \<or> no = 0xffff then Inr (no, s)
      else
        let q = dropWhile (\<lambda>c. c = 0x2f) p; c = takeWhile (\<lambda>c. c \<noteq> 0x2f) q; r = dropWhile (\<lambda>c. c \<noteq> 0x2f) q in
        if 30 < length c then Inl (Path_overrun c, s)
        else rbind (lookup dev no c s) (\<lambda>(no, s). dopath_loop dev r no s))"
  by pat_completeness auto

termination
  by (relation "measure (\<lambda>(d, p, n, s). length p)") (simp_all add: path_shorter)

declare dopath_loop.simps [simp del]

definition dopath :: "dev \<Rightarrow> bytes \<Rightarrow> bt \<Rightarrow> u16 bres" where
  "dopath dev p s =
     (if p \<noteq> [] \<and> hd p = 0x2f then dopath_loop dev (tl p) ROOT s else dopath_loop dev p (cd s) s)"

text \<open>\<open>open\<close> is true for an error; the path may be a null pointer.\<close>

definition open_path :: "dev \<Rightarrow> bytes option \<Rightarrow> bt \<Rightarrow> bool bres" where
  "open_path dev p s =
     (case p of
        None \<Rightarrow> Inl (Null_read, s)
      | Some p \<Rightarrow> rbind (dopath dev p s) (\<lambda>(no, s).
          if no = 0xffff then Inr (True, s) else Inr (False, iopen dev no s)))"

section \<open>Listing and printing\<close>

definition mounted :: "bt \<Rightarrow> bool \<times> bt" where
  "mounted s = (mountf s, if mountf s then s else puts (str ''NOTHING MOUNTED'' @ [13]) s)"

fun dir_loop :: "dev \<Rightarrow> nat \<Rightarrow> bt \<Rightarrow> unit bres" where
  "dir_loop dev 0 s = Inl (Out_of_fuel, s)"
| "dir_loop dev (Suc k) s =
     rbind (iread dev 32 s) (\<lambda>(r, s).
       case r of
         None \<Rightarrow> Inl (Outside, s)
       | Some b \<Rightarrow>
           if b = [] then Inr ((), s)
           else
             let d = dirent_of b in
             if 0 \<notin> set (d_name d) then Inl (Outside, s)
             else dir_loop dev k
               (if d_name d ! 0 \<noteq> 0
                then NL (puts (c_str (d_name d)) (putc 32 (putw (d_inode d) s))) else s))"

definition dir :: "dev \<Rightarrow> u16 \<Rightarrow> bt \<Rightarrow> unit bres" where
  "dir dev no s =
     (case mounted s of (ok, s) \<Rightarrow>
        if \<not> ok then Inr ((), s) else let s = iopen dev no s in dir_loop dev (entries_fuel s) s)"

fun cat_loop :: "dev \<Rightarrow> nat \<Rightarrow> bt \<Rightarrow> unit bres" where
  "cat_loop dev 0 s = Inl (Out_of_fuel, s)"
| "cat_loop dev (Suc k) s =
     rbind (iread dev 512 s) (\<lambda>(r, s).
       case r of
         None \<Rightarrow> Inl (Outside, s)
       | Some b \<Rightarrow>
           if b = [] then Inr ((), s)
           else
             let b = map (\<lambda>c. if c = 10 then 13 else c) b in
             cat_loop dev k (puts b (s\<lparr>buf := b @ drop (length b) (buf s)\<rparr>)))"

definition cat :: "dev \<Rightarrow> bytes option \<Rightarrow> bt \<Rightarrow> unit bres" where
  "cat dev p s =
     (case mounted s of (ok, s) \<Rightarrow>
        if \<not> ok then Inr ((), s)
        else rbind (open_path dev p s) (\<lambda>(err, s).
          if err then Inr ((), s) else cat_loop dev (Suc (epos s)) s))"

section \<open>Mounting\<close>

definition mount_bad :: "bt \<Rightarrow> bool bres" where
  "mount_bad s = Inr (True, s\<lparr>mountf := False\<rparr>)"

definition mount_super :: "dev \<Rightarrow> bt \<Rightarrow> bool bres" where
  "mount_super dev s =
     (case dev_read dev 1 s of (err, b) \<Rightarrow>
        let s = s\<lparr>buf := b\<rparr> in
        if err then mount_bad s
        else if get16 0 (buf s) \<noteq> MAGIC then mount_bad s
        else Inr (False, s\<lparr>mountf := True, cd := ROOT\<rparr>))"

text \<open>
  The partition's first block is taken from the entry \<open>p[minor-1]\<close> of the table in \<open>buf\<close>, whose four
  bytes are put into the other order in place; there are four entries, and nothing bounds \<open>minor\<close>.
\<close>

definition lba_off :: "u16 \<Rightarrow> nat" where
  "lba_off minor = unat (of_nat MBR_PART_OFF + 16 * (minor - 1) + 8 :: u16)"

definition mount :: "dev \<Rightarrow> u16 \<Rightarrow> u8 \<Rightarrow> bt \<Rightarrow> bool bres" where
  "mount dev minor part s =
     (let s = s\<lparr>drive_sel := ucast minor\<rparr> in
      if init dev (ucast minor) then mount_bad s
      else case dev_read dev 0 s of (err, b) \<Rightarrow>
        let s = s\<lparr>buf := b\<rparr> in
        if err then mount_bad s
        else if \<not> mbr_magic (buf s) then
          if part \<noteq> 0 then
            if 512 < lba_off minor + 4 then Inl (Table_overrun minor, s)
            else case swizzle32 (take 4 (drop (lba_off minor) (buf s))) of (off, b) \<Rightarrow>
              mount_super dev (s\<lparr>part_offset := off,
                buf := take (lba_off minor) (buf s) @ b @ drop (lba_off minor + 4) (buf s)\<rparr>)
          else mount_super dev s
        else
          let s = (puts (str ''MBR NOT FOUND'' @ [13]) s)\<lparr>part_offset := 0\<rparr> in
          if 0 < part then mount_bad s else mount_super dev s)"

end
