(* ===== verification/Booter_Fs.thy ===== *)
theory Booter_Fs
  imports Booter
begin

text \<open>
  The boot loader's file system code against the file system it reads: a disk is a function from
  block numbers to blocks, a file is the sequence of its blocks, a directory a list of entries,
  and a path a walk through directories.
\<close>

section \<open>The file system on a disk\<close>

type_synonym disk = "u32 \<Rightarrow> bytes"

definition fs_inode :: "disk \<Rightarrow> u16 \<Rightarrow> inode" where
  "fs_inode D no = inode_of (take 64 (drop (unat (no AND 7) * 64) (D (2 + ucast (drop_bit 3 no)))))"

definition fs_blocks :: "inode \<Rightarrow> nat" where
  "fs_blocks i = unat (ucast (drop_bit 9 (i_size i + 0x1ff)) :: u16)"

definition fs_block :: "disk \<Rightarrow> inode \<Rightarrow> nat \<Rightarrow> bytes" where
  "fs_block D i k =
     D (ucast (if k < 18 then i_addr i ! k else words (D (ucast (i_addr i ! 18))) ! (k - 18)))"

definition fs_data :: "disk \<Rightarrow> inode \<Rightarrow> bytes" where
  "fs_data D i = concat (map (fs_block D i) [0..<fs_blocks i])"

fun dirents :: "nat \<Rightarrow> bytes \<Rightarrow> dirent list" where
  "dirents 0 b = []"
| "dirents (Suc k) b = dirent_of (take 32 b) # dirents k (drop 32 b)"

definition fs_entries :: "disk \<Rightarrow> u16 \<Rightarrow> dirent list" where
  "fs_entries D no = dirents (16 * fs_blocks (fs_inode D no)) (fs_data D (fs_inode D no))"

definition fs_lookup :: "disk \<Rightarrow> u16 \<Rightarrow> bytes \<Rightarrow> u16" where
  "fs_lookup D no name =
     (case List.find (\<lambda>e. c_str (d_name e) = name) (fs_entries D no) of
        None \<Rightarrow> 0xffff
      | Some e \<Rightarrow> d_inode e)"

text \<open>
  What the code relies on: blocks have 512 bytes; a file reaches no further than its single
  indirect block; and the names of a directory end with a zero.
\<close>

definition disk_ok :: "disk \<Rightarrow> bool" where
  "disk_ok D \<longleftrightarrow> (\<forall>b. length (D b) = 512)"

definition dir_ok :: "disk \<Rightarrow> u16 \<Rightarrow> bool" where
  "dir_ok D no \<longleftrightarrow> fs_blocks (fs_inode D no) \<le> 274 \<and> (\<forall>e \<in> set (fs_entries D no). 0 \<in> set (d_name e))"

fun walk :: "disk \<Rightarrow> bytes list \<Rightarrow> u16 \<Rightarrow> u16 option" where
  "walk D [] no = Some no"
| "walk D (c # cs) no =
     (if no = 0xffff then Some no else if dir_ok D no then walk D cs (fs_lookup D no c) else None)"

section \<open>States of an open file\<close>

text \<open>The disk that a state reads, and the state without the variables of the open file.\<close>

definition disk :: "dev \<Rightarrow> bt \<Rightarrow> disk" where
  "disk dev s = (\<lambda>b. snd (dev_read dev b s))"

definition core :: "bt \<Rightarrow> bt" where
  "core s = s\<lparr>buf := [], dbuf := [], idir := [], ino := inode_of [], left := 0, bpos := 0, spos := 0, epos := 0\<rparr>"

lemma core_fields:
  assumes "core t = core s"
  shows "part_offset t = part_offset s" "drive_sel t = drive_sel s" "cd t = cd s" "mountf t = mountf s"
    "screen t = screen s" "keys t = keys s" "ram t = ram s" "mleft t = mleft s" "maddr t = maddr s"
    "paddr t = paddr s" "page t = page s" "rest t = rest s" "polls t = polls s" "hflag t = hflag s"
    "haddr t = haddr s" "tick_acc t = tick_acc s" "tick_div t = tick_div s"
proof -
  have f: "f (core t) = f (core s)" for f :: "bt \<Rightarrow> 'a" using assms by simp
  show "part_offset t = part_offset s" using f [of part_offset] by (simp add: core_def)
  show "drive_sel t = drive_sel s" using f [of drive_sel] by (simp add: core_def)
  show "cd t = cd s" using f [of cd] by (simp add: core_def)
  show "mountf t = mountf s" using f [of mountf] by (simp add: core_def)
  show "screen t = screen s" using f [of screen] by (simp add: core_def)
  show "keys t = keys s" using f [of keys] by (simp add: core_def)
  show "ram t = ram s" using f [of ram] by (simp add: core_def)
  show "mleft t = mleft s" using f [of mleft] by (simp add: core_def)
  show "maddr t = maddr s" using f [of maddr] by (simp add: core_def)
  show "paddr t = paddr s" using f [of paddr] by (simp add: core_def)
  show "page t = page s" using f [of page] by (simp add: core_def)
  show "rest t = rest s" using f [of rest] by (simp add: core_def)
  show "polls t = polls s" using f [of polls] by (simp add: core_def)
  show "hflag t = hflag s" using f [of hflag] by (simp add: core_def)
  show "haddr t = haddr s" using f [of haddr] by (simp add: core_def)
  show "tick_acc t = tick_acc s" using f [of tick_acc] by (simp add: core_def)
  show "tick_div t = tick_div s" using f [of tick_div] by (simp add: core_def)
qed

lemma core_disk: "core t = core s \<Longrightarrow> disk dev t = disk dev s"
proof -
  assume "core t = core s"
  from core_fields(1,2) [OF this] show ?thesis by (simp add: disk_def dev_read_def)
qed

lemma core_updates [simp]:
  "core (s\<lparr>buf := b\<rparr>) = core s" "core (s\<lparr>dbuf := b\<rparr>) = core s" "core (s\<lparr>idir := w\<rparr>) = core s"
  "core (s\<lparr>ino := i\<rparr>) = core s" "core (s\<lparr>left := n\<rparr>) = core s" "core (s\<lparr>bpos := n\<rparr>) = core s"
  "core (s\<lparr>spos := n\<rparr>) = core s" "core (s\<lparr>epos := n\<rparr>) = core s"
  by (simp_all add: core_def)

lemma disk_updates [simp]:
  "disk dev (s\<lparr>buf := b\<rparr>) = disk dev s" "disk dev (s\<lparr>dbuf := b\<rparr>) = disk dev s"
  "disk dev (s\<lparr>idir := w\<rparr>) = disk dev s" "disk dev (s\<lparr>ino := i\<rparr>) = disk dev s"
  "disk dev (s\<lparr>left := n\<rparr>) = disk dev s" "disk dev (s\<lparr>bpos := n\<rparr>) = disk dev s"
  "disk dev (s\<lparr>spos := n\<rparr>) = disk dev s" "disk dev (s\<lparr>epos := n\<rparr>) = disk dev s"
  by (rule core_disk, simp)+

text \<open>An open file: the tables of its inode, and a data buffer that is used from its end.\<close>

definition file_ok :: "dev \<Rightarrow> bt \<Rightarrow> bool" where
  "file_ok dev s \<longleftrightarrow> spos s \<le> epos s \<and> epos s = fs_blocks (ino s) \<and>
     idir s = words (disk dev s (ucast (i_addr (ino s) ! 18))) \<and>
     left s \<le> 512 \<and> (0 < left s \<longrightarrow> length (dbuf s) = 512 \<and> bpos s + left s = 512)"

text \<open>What is still to be read of it.\<close>

definition stream :: "dev \<Rightarrow> bt \<Rightarrow> bytes" where
  "stream dev s = take (left s) (drop (bpos s) (dbuf s)) @
     concat (map (fs_block (disk dev s) (ino s)) [spos s..<epos s])"

lemma iopen_ok:
  "file_ok dev (iopen dev no s) \<and> core (iopen dev no s) = core s \<and> left (iopen dev no s) = 0 \<and>
   spos (iopen dev no s) = 0 \<and> ino (iopen dev no s) = fs_inode (disk dev s) no"
proof -
  have d: "snd (dev_read dev b t) = disk dev t b" for b t by (simp add: disk_def)
  show ?thesis
    by (simp add: iopen_def Let_def d file_ok_def fs_blocks_def fs_inode_def)
qed

lemma iopen_stream: "stream dev (iopen dev no s) = fs_data (disk dev s) (fs_inode (disk dev s) no)"
proof -
  note o = iopen_ok [of dev no s]
  then have "disk dev (iopen dev no s) = disk dev s" by (intro core_disk) simp
  with o show ?thesis by (simp add: stream_def fs_data_def file_ok_def)
qed

section \<open>Reading\<close>

lemma bmap_ok:
  assumes "file_ok dev s" and "spos s < 274"
  shows "bmap s = Inr (if spos s < 18 then i_addr (ino s) ! spos s else idir s ! (spos s - 18), s)"
  using assms by (auto simp: bmap_def)

text \<open>
  One \<open>iread\<close>: the bytes it delivers are the next of the stream, none only at the end, and as many
  as asked for unless the block ends before.
\<close>

definition chunk :: "bt \<Rightarrow> nat" where
  "chunk s = (if left s = 0 then (if spos s = epos s then 0 else 512) else left s)"

lemma itake_ok:
  assumes "file_ok dev s" "0 < left s" "0 < n"
  shows "\<exists>b t. itake n s = Inr (Some b, t) \<and> stream dev s = b @ stream dev t \<and> file_ok dev t \<and>
    core t = core s \<and> ino t = ino s \<and> epos t = epos s \<and> length b = min n (left s) \<and> left t = left s - length b \<and> spos t = spos s"
proof -
  let ?n = "min n (left s)"
  let ?b = "take ?n (drop (bpos s) (dbuf s))" and ?t = "s\<lparr>left := left s - ?n, bpos := bpos s + ?n\<rparr>"
  have "take (left s) (drop (bpos s) (dbuf s)) = ?b @ take (left s - ?n) (drop (bpos s + ?n) (dbuf s))"
    using take_add [of ?n "left s - ?n" "drop (bpos s) (dbuf s)"] by (simp add: add.commute)
  then have "stream dev s = ?b @ stream dev ?t" by (simp add: stream_def)
  moreover have "file_ok dev ?t" "length ?b = ?n" using assms by (auto simp: file_ok_def)
  moreover have "itake n s = Inr (Some ?b, ?t)" using assms by (auto simp: itake_def Let_def)
  ultimately show ?thesis by simp
qed

lemma iread_ok:
  assumes f: "file_ok dev s" and e: "epos s \<le> 274" and D: "disk_ok (disk dev s)" and n: "0 < n"
  shows "\<exists>b t. iread dev n s = Inr (Some b, t) \<and> stream dev s = b @ stream dev t \<and> file_ok dev t \<and>
    core t = core s \<and> ino t = ino s \<and> epos t = epos s \<and> length b = min n (chunk s) \<and>
    left t = chunk s - length b \<and> (chunk s \<noteq> 0 \<longrightarrow> spos t = (if left s = 0 then spos s + 1 else spos s)) \<and>
    (chunk s = 0 \<longrightarrow> t = s)"
proof -
  consider "left s \<noteq> 0" | "left s = 0" "spos s = epos s" | "left s = 0" "spos s < epos s"
    using f by (fastforce simp: file_ok_def)
  then show ?thesis
  proof cases
    case 1
    with itake_ok [OF f _ n] show ?thesis by (auto simp: iread_def chunk_def)
  next
    case 2
    with f show ?thesis by (auto simp: iread_def chunk_def stream_def)
  next
    case 3
    let ?a = "if spos s < 18 then i_addr (ino s) ! spos s else idir s ! (spos s - 18)"
    let ?s = "s\<lparr>dbuf := disk dev s (ucast ?a), spos := spos s + 1, bpos := 0, left := 512\<rparr>"
    have l: "iload dev s = Inr ((), ?s)"
      using bmap_ok [OF f] 3 e by (simp add: iload_def disk_def)
    have b: "fs_block (disk dev s) (ino s) (spos s) = disk dev s (ucast ?a)"
      using f by (simp add: fs_block_def file_ok_def)
    have ok: "file_ok dev ?s" using f 3 D by (simp add: file_ok_def disk_ok_def)
    have "[spos s..<epos s] = spos s # [Suc (spos s)..<epos s]" using 3 by (simp add: upt_conv_Cons)
    then have st: "stream dev ?s = stream dev s" using 3 b D by (simp add: stream_def disk_ok_def)
    from itake_ok [OF ok _ n] obtain x t where t: "itake n ?s = Inr (Some x, t)" "stream dev ?s = x @ stream dev t"
      "file_ok dev t" "core t = core ?s" "ino t = ino ?s" "epos t = epos ?s" "length x = min n 512"
      "left t = 512 - length x" "spos t = spos ?s" by auto
    have "iread dev n s = Inr (Some x, t)" using 3 l t(1) by (simp add: iread_def)
    with t st 3 show ?thesis by (simp add: chunk_def)
  qed
qed

lemma iread_some: "0 < n \<Longrightarrow> iread dev n s \<noteq> Inr (None, t)"
  by (auto simp: iread_def itake_def iload_def bmap_def Let_def)

lemma chunk_stream:
  assumes "file_ok dev s" "disk_ok (disk dev s)"
  shows "chunk s = 0 \<longleftrightarrow> stream dev s = []"
proof -
  have b: "length (fs_block (disk dev s) (ino s) k) = 512" for k
    using assms(2) unfolding fs_block_def disk_ok_def by blast
  have "concat (map (fs_block (disk dev s) (ino s)) [spos s..<epos s]) = [] \<longleftrightarrow> epos s \<le> spos s"
    using b by (cases "epos s \<le> spos s") (auto simp: upt_conv_Cons simp flip: length_0_conv)
  with assms(1) show ?thesis by (auto simp: chunk_def stream_def file_ok_def)
qed

lemma fs_block_length: "disk_ok D \<Longrightarrow> length (fs_block D i k) = 512"
  unfolding fs_block_def disk_ok_def by blast

lemma fs_blocks_length: "disk_ok D \<Longrightarrow> length (concat (map (fs_block D i) ks)) = 512 * length ks"
  by (induction ks) (simp_all add: fs_block_length)

lemma stream_length:
  "file_ok dev s \<Longrightarrow> disk_ok (disk dev s) \<Longrightarrow> length (stream dev s) = left s + 512 * (epos s - spos s)"
  by (auto simp: stream_def fs_blocks_length file_ok_def)

section \<open>Directories\<close>

text \<open>The entries still to be read of a directory.\<close>

definition entries_left :: "bt \<Rightarrow> nat" where
  "entries_left s = left s div 32 + 16 * (epos s - spos s)"

lemma entry_read:
  assumes f: "file_ok dev s" and e: "epos s \<le> 274" and D: "disk_ok (disk dev s)" and l: "left s mod 32 = 0"
    and m: "entries_left s = Suc m"
  shows "\<exists>b t. iread dev 32 s = Inr (Some b, t) \<and> length b = 32 \<and> stream dev s = b @ stream dev t \<and>
    file_ok dev t \<and> core t = core s \<and> epos t = epos s \<and> left t mod 32 = 0 \<and> entries_left t = m"
proof -
  have sp: "spos s \<le> epos s" using f by (simp add: file_ok_def)
  have c: "chunk s mod 32 = 0" "chunk s \<noteq> 0"
    using l m sp by (auto simp: chunk_def entries_left_def)
  then have c32: "min 32 (chunk s) = 32" by (auto simp: min_def)
  from iread_ok [OF f e D, of 32] c c32 obtain b t where t: "iread dev 32 s = Inr (Some b, t)"
    "stream dev s = b @ stream dev t" "file_ok dev t" "core t = core s" "epos t = epos s" "length b = 32"
    "left t = chunk s - 32" "spos t = (if left s = 0 then spos s + 1 else spos s)" by auto
  have "left t mod 32 = 0" using t(7) c c32 by (metis le_mod_geq min.cobounded2)
  moreover have "entries_left t = m"
  proof (cases "left s = 0")
    case True
    then have "spos s < epos s" using m sp by (auto simp: entries_left_def)
    with True t(5,7,8) m show ?thesis by (simp add: entries_left_def chunk_def)
  next
    case False
    with c32 have "left s div 32 = Suc ((left s - 32) div 32)" by (intro le_div_geq) (simp_all add: chunk_def)
    with False t(5,7,8) m show ?thesis by (simp add: entries_left_def chunk_def)
  qed
  ultimately show ?thesis using t by (intro exI [of _ b] exI [of _ t]) simp
qed

lemma entry_none:
  assumes "entries_left s = 0" "left s mod 32 = 0" "file_ok dev s"
  shows "iread dev 32 s = Inr (Some [], s)" "stream dev s = []"
proof -
  from assms have "left s = 0" "spos s = epos s" by (auto simp: entries_left_def file_ok_def)
  then show "iread dev 32 s = Inr (Some [], s)" "stream dev s = []" by (simp_all add: iread_def stream_def)
qed

definition found :: "dirent list \<Rightarrow> bytes \<Rightarrow> u16" where
  "found es name = (case List.find (\<lambda>e. c_str (d_name e) = name) es of None \<Rightarrow> 0xffff | Some e \<Rightarrow> d_inode e)"

lemma found_simps [simp]:
  "found [] name = 0xffff"
  "found (e # es) name = (if c_str (d_name e) = name then d_inode e else found es name)"
  by (simp_all add: found_def)

lemma lookup_loop_ok:
  assumes "file_ok dev s" "epos s \<le> 274" "disk_ok (disk dev s)" "left s mod 32 = 0"
    and "\<forall>e \<in> set (dirents (entries_left s) (stream dev s)). 0 \<in> set (d_name e)"
  shows "\<exists>t. lookup_loop dev name (Suc (entries_left s)) s = Inr (found (dirents (entries_left s) (stream dev s)) name, t) \<and>
    core t = core s"
  using assms
proof (induction "entries_left s" arbitrary: s)
  case 0
  with entry_none [OF 0(1) [symmetric] 0(5,2)] show ?case by (simp flip: 0(1))
next
  case (Suc m)
  from entry_read [OF Suc(3-6) Suc(2) [symmetric]] obtain b t
    where t: "iread dev 32 s = Inr (Some b, t)" "length b = 32" "stream dev s = b @ stream dev t"
      "file_ok dev t" "core t = core s" "epos t = epos s" "left t mod 32 = 0" "entries_left t = m"
    by (elim exE conjE)
  have d: "dirents (entries_left s) (stream dev s) = dirent_of b # dirents m (stream dev t)"
    using t(2,3) by (simp flip: Suc(2))
  have z: "0 \<in> set (d_name (dirent_of b))" using Suc(7) unfolding d by simp
  have dt: "disk dev t = disk dev s" using t(5) by (rule core_disk)
  have b: "b \<noteq> []" using t(2) by auto
  show ?case
  proof (cases "c_str (d_name (dirent_of b)) = name")
    case True
    with t(1,5) b z show ?thesis unfolding d by (simp add: same_name_def)
  next
    case False
    have "\<forall>e \<in> set (dirents (entries_left t) (stream dev t)). 0 \<in> set (d_name e)"
      using Suc(7) t(8) unfolding d by simp
    with Suc.hyps(1) [OF t(8) [symmetric] t(4) _ _ t(7)] Suc(4,5) t(6,8) dt obtain u
      where u: "lookup_loop dev name (Suc m) t = Inr (found (dirents m (stream dev t)) name, u)" "core u = core t"
      by auto
    have "lookup_loop dev name (Suc (entries_left s)) s = lookup_loop dev name (Suc m) t"
      using t(1) b z False by (simp add: same_name_def flip: Suc(2) del: lookup_loop.simps(2))
        (simp add: same_name_def lookup_loop.simps(2) [of dev name "Suc m" s] del: lookup_loop.simps(2))
    with u t(5) False show ?thesis unfolding d by simp
  qed
qed

lemma lookup_ok:
  assumes "disk_ok (disk dev s)" "dir_ok (disk dev s) no"
  shows "\<exists>t. lookup dev no name s = Inr (fs_lookup (disk dev s) no name, t) \<and> core t = core s"
proof -
  let ?s = "iopen dev no s" and ?D = "disk dev s"
  note o = iopen_ok [of dev no s]
  then have d: "disk dev ?s = ?D" by (intro core_disk) simp
  from o have ep: "epos ?s = fs_blocks (fs_inode ?D no)" by (simp add: file_ok_def)
  with o have el: "entries_left ?s = 16 * fs_blocks (fs_inode ?D no)" by (simp add: entries_left_def)
  have es: "dirents (entries_left ?s) (stream dev ?s) = fs_entries ?D no"
    by (simp add: el iopen_stream fs_entries_def)
  have "\<exists>t. lookup_loop dev name (Suc (entries_left ?s)) ?s =
      Inr (found (dirents (entries_left ?s) (stream dev ?s)) name, t) \<and> core t = core ?s"
    by (rule lookup_loop_ok) (use o d ep assms in \<open>simp_all add: dir_ok_def es\<close>)
  moreover have "entries_fuel ?s = Suc (entries_left ?s)" by (simp add: entries_fuel_def entries_left_def)
  ultimately show ?thesis
    unfolding es using o
    by (simp add: lookup_def Let_def fs_lookup_def found_def F_DIR_def del: lookup_loop.simps)
qed

section \<open>Paths\<close>

text \<open>A path of components, each after a slash.\<close>

definition path_of :: "bytes list \<Rightarrow> bytes" where
  "path_of cs = concat (map (\<lambda>c. 0x2f # c) cs)"

definition comps_ok :: "bytes list \<Rightarrow> bool" where
  "comps_ok cs \<longleftrightarrow> (\<forall>c \<in> set cs. c \<noteq> [] \<and> 0x2f \<notin> set c \<and> length c \<le> 30)"

lemma split_comp:
  assumes "0x2f \<notin> set c" "c \<noteq> []"
  shows "dropWhile (\<lambda>x. x = 0x2f) (c @ path_of cs) = c @ path_of cs"
    "takeWhile (\<lambda>x. x \<noteq> 0x2f) (c @ path_of cs) = c"
    "dropWhile (\<lambda>x. x \<noteq> 0x2f) (c @ path_of cs) = path_of cs"
proof -
  have n: "\<forall>x \<in> set c. x \<noteq> 0x2f" using assms(1) by blast
  have p: "path_of cs = [] \<or> hd (path_of cs) = 0x2f" by (cases cs) (simp_all add: path_of_def)
  obtain x y where c: "c = x # y" using assms(2) by (cases c) auto
  with n show "dropWhile (\<lambda>x. x = 0x2f) (c @ path_of cs) = c @ path_of cs" by simp
  have t: "takeWhile (\<lambda>x. x \<noteq> 0x2f) (path_of cs) = []" "dropWhile (\<lambda>x. x \<noteq> 0x2f) (path_of cs) = path_of cs"
    using p by (cases "path_of cs"; simp)+
  show "takeWhile (\<lambda>x. x \<noteq> 0x2f) (c @ path_of cs) = c" "dropWhile (\<lambda>x. x \<noteq> 0x2f) (c @ path_of cs) = path_of cs"
    using n t by (simp_all add: takeWhile_append2 dropWhile_append2)
qed

lemma dopath_loop_ok:
  assumes "comps_ok cs" "disk_ok (disk dev s)" "walk (disk dev s) cs no = Some r"
    and "p = path_of cs \<or> (\<exists>c cs'. cs = c # cs' \<and> p = c @ path_of cs')"
  shows "\<exists>t. dopath_loop dev p no s = Inr (r, t) \<and> core t = core s"
  using assms
proof (induction cs arbitrary: p no s)
  case Nil
  then show ?case by (simp add: path_of_def dopath_loop.simps)
next
  case (Cons c cs)
  have c: "0x2f \<notin> set c" "c \<noteq> []" "length c \<le> 30" "comps_ok cs" using Cons(2) by (simp_all add: comps_ok_def)
  have p: "p \<noteq> []" "dropWhile (\<lambda>x. x = 0x2f) p = c @ path_of cs"
    using Cons(5) c split_comp(1) [OF c(1,2), of cs] by (auto simp: path_of_def)
  show ?case
  proof (cases "no = 0xffff")
    case True
    with Cons(4) show ?thesis by (subst dopath_loop.simps) simp
  next
    case False
    from False Cons(4) have w: "dir_ok (disk dev s) no" "walk (disk dev s) cs (fs_lookup (disk dev s) no c) = Some r"
      by (simp_all split: if_splits)
    from lookup_ok [OF Cons(3) w(1), of c] obtain t
      where t: "lookup dev no c s = Inr (fs_lookup (disk dev s) no c, t)" "core t = core s" by blast
    from core_disk [OF t(2)] have d: "disk dev t = disk dev s" .
    from Cons.IH [of t "fs_lookup (disk dev s) no c" "path_of cs"] c(4) Cons(3) w(2) d obtain u
      where u: "dopath_loop dev (path_of cs) (fs_lookup (disk dev s) no c) t = Inr (r, u)" "core u = core t" by auto
    have "dopath_loop dev p no s = dopath_loop dev (path_of cs) (fs_lookup (disk dev s) no c) t"
      using p(1) False c(3) t(1)
      by (subst dopath_loop.simps) (simp add: Let_def p(2) split_comp(2,3) [OF c(1,2)])
    with u t(2) show ?thesis by simp
  qed
qed

end
