(* ===== verification/Booter_Load.thy ===== *)
theory Booter_Load
  imports Booter
begin

text \<open>
  The second half of \<open>booter/booter.c\<close> up to \<open>boot\<close>: the physical memory as a file that is
  written through an 8 KB window, and the loader of a kernel in the format of BASIC's
  \<open>.bin\<close> files.
\<close>

section \<open>The memory file\<close>

text \<open>Bytes placed in the memory from an address on.\<close>

definition poke :: "nat \<Rightarrow> bytes \<Rightarrow> (nat \<Rightarrow> u8) \<Rightarrow> nat \<Rightarrow> u8" where
  "poke a b m = (\<lambda>x. if a \<le> x \<and> x < a + length b then b ! (x - a) else m x)"

definition mseek :: "u16 \<Rightarrow> bt \<Rightarrow> bt" where
  "mseek a s =
     (let off = unat (a AND 0x1fff) in
      s\<lparr>paddr := a, page := unat (drop_bit 13 a), mleft := 0x2000 - off, maddr := off\<rparr>)"

text \<open>The pointer and counters after \<open>n\<close> bytes at \<open>maddr\<close>.\<close>

definition madv :: "nat \<Rightarrow> bt \<Rightarrow> bt" where
  "madv n s = s\<lparr>mleft := mleft s - n, maddr := maddr s + n, paddr := paddr s + of_nat n\<rparr>"

definition mcopy :: "bytes \<Rightarrow> bt \<Rightarrow> bt" where
  "mcopy b s = s\<lparr>ram := poke (8192 * page s + maddr s) b (ram s)\<rparr>"

lemma and_1fff: "unat (a AND 0x1fff :: u16) = unat a mod 8192"
proof -
  have "a AND 0x1fff = take_bit 13 a" by (simp add: take_bit_eq_mask mask_eq_exp_minus_1)
  then show ?thesis by (simp only: unsigned_take_bit_eq) (simp add: take_bit_eq_mod)
qed

lemma mseek_room: "0 < mleft (mseek a s)"
proof -
  have "unat a mod 8192 < 8192" by simp
  then show ?thesis by (simp add: mseek_def Let_def and_1fff del: mod_less_divisor)
qed

function mwrite :: "bytes \<Rightarrow> bt \<Rightarrow> bt" where
  "mwrite b s =
     (if b = [] then s
      else
        let s = (if mleft s = 0 then mseek (paddr s) s else s); n = min (mleft s) (length b)
        in mwrite (drop n b) (madv n (mcopy (take n b) s)))"
  by pat_completeness auto

termination
proof (relation "measure (\<lambda>(b, s). length b)")
  fix b :: bytes and s x :: bt and n :: nat
  assume "b \<noteq> []" "x = (if mleft s = 0 then mseek (paddr s) s else s)" "n = min (mleft x) (length b)"
  then show "((drop n b, madv n (mcopy (take n b) x)), (b, s)) \<in> measure (\<lambda>(b, s). length b)"
    using mseek_room [of "paddr s" s] by (cases b) auto
qed simp

declare mwrite.simps [simp del]

section \<open>Loading\<close>

definition ticker :: "u16 \<Rightarrow> bt \<Rightarrow> bt" where
  "ticker done s =
     (let s = s\<lparr>tick_acc := tick_acc s + done\<rparr> in
      if tick_div s \<le> tick_acc s then (putc 0xaf s)\<lparr>tick_acc := tick_acc s - tick_div s\<rparr> else s)"

definition iscntldown :: "dev \<Rightarrow> bt \<Rightarrow> bool \<times> bt" where
  "iscntldown dev s = (cntl dev (polls s), s\<lparr>polls := polls s + 1\<rparr>)"

definition isspcdown :: "dev \<Rightarrow> bt \<Rightarrow> bool \<times> bt" where
  "isspcdown dev s = (spc dev (polls s), s\<lparr>polls := polls s + 1\<rparr>)"

text \<open>A loader's error: the message, and the return value 1 (\<open>True\<close>).\<close>

definition fail :: "u8 \<Rightarrow> bt \<Rightarrow> bool bres" where
  "fail no s = rbind (error no s) (\<lambda>(_, s). Inr (True, s))"

text \<open>
  One turn of the inner loop: 512 bytes from the device to memory when a block of the file
  starts, and otherwise the next bytes through \<open>tmp\<close>.  \<open>None\<close> is a return with an error, and
  \<open>Some n\<close> the number of bytes loaded.
\<close>

definition failed :: "u8 \<Rightarrow> bt \<Rightarrow> nat option bres" where
  "failed no s = rbind (error no s) (\<lambda>(_, s). Inr (None, s))"

definition load_direct :: "dev \<Rightarrow> bt \<Rightarrow> nat option bres" where
  "load_direct dev s =
     (if spos s = epos s then failed 7 s
      else rbind (bmap s) (\<lambda>(k, s).
        case dev_read dev (ucast k) s of (err, b) \<Rightarrow>
          let s = mcopy b s in
          if err then failed 6 s
          else let s = madv 512 s in Inr (Some 512, ticker 512 (s\<lparr>spos := spos s + 1\<rparr>))))"

definition load_buffered :: "dev \<Rightarrow> nat \<Rightarrow> bt \<Rightarrow> nat option bres" where
  "load_buffered dev todo s =
     rbind (iread dev todo s) (\<lambda>(r, s).
       case r of
         None \<Rightarrow> failed 5 s
       | Some b \<Rightarrow>
           if b = [] then failed 4 s
           else Inr (Some (length b), ticker (of_nat (length b)) (mwrite b s)))"

definition load_some :: "dev \<Rightarrow> nat \<Rightarrow> bt \<Rightarrow> nat option bres" where
  "load_some dev todo s =
     (if min (min todo (mleft s)) 512 = 512 \<and> left s = 0 then load_direct dev s
      else load_buffered dev todo s)"

text \<open>
  The loop over the bytes of a section, true for a return with an error.  Every turn loads at
  least one byte, so \<open>todo\<close> as fuel is enough.
\<close>

fun load_loop :: "dev \<Rightarrow> nat \<Rightarrow> nat \<Rightarrow> bt \<Rightarrow> bool bres" where
  "load_loop dev 0 todo s = (if todo = 0 then Inr (False, s) else Inl (Out_of_fuel, s))"
| "load_loop dev (Suc k) todo s =
     (if todo = 0 then Inr (False, s)
      else case iscntldown dev s of (down, s) \<Rightarrow>
        if down then Inr (True, NL s)
        else rbind (load_some dev todo s) (\<lambda>(r, s).
          case r of
            None \<Rightarrow> Inr (True, s)
          | Some n \<Rightarrow> load_loop dev k (todo - n) s))"

text \<open>
  The loop over the sections of the file, each with a header of five bytes: a flag, the length
  and the address.  \<open>todo\<close> is a 16-bit variable that the code only compares as unsigned.
\<close>

fun sections :: "dev \<Rightarrow> nat \<Rightarrow> bt \<Rightarrow> bool bres" where
  "sections dev 0 s = Inl (Out_of_fuel, s)"
| "sections dev (Suc k) s =
     rbind (iread dev 5 s) (\<lambda>(r, s).
       case r of
         None \<Rightarrow> fail 3 s
       | Some b \<Rightarrow>
           if length b \<noteq> 5 then fail 3 s
           else
             let s = s\<lparr>hflag := b ! 0, haddr := get16 3 b\<rparr>; todo = unat (get16 1 b) in
             if hflag s \<noteq> 0 then Inr (False, s)
             else rbind (load_loop dev todo todo (mseek (haddr s) s)) (\<lambda>(err, s).
               if err then Inr (True, s) else sections dev k s))"

text \<open>
  After the kernel, the bounce routine with the kernel's start address goes to address 0 and the
  command line to 0x88: \<open>strlen\<close> counts the zero, so \<open>strlen(cmd)+1\<close> bytes are one more than the
  string with its zero.
\<close>

definition boot_exec :: "dev \<Rightarrow> bt \<Rightarrow> bool bres" where
  "boot_exec dev s =
     (let s = ticker (tick_div s) s;
          s = mwrite (bounce dev) (mseek 0 s);
          s = mwrite [hi8 (haddr s), lo8 (haddr s)] s;
          c = cmd_line s @ [0, junk dev]
      in if 256 < length c then Inl (Outside, s)
         else
           let s = mwrite c (mseek 0x88 s)
           in Inl (Exec, s\<lparr>mmu1 := (map (\<lambda>x. 0x38 + of_nat x) [0..<8])[0 := 0], taskreg := 1\<rparr>))"

definition boot :: "dev \<Rightarrow> bytes \<Rightarrow> bt \<Rightarrow> bool bres" where
  "boot dev name s =
     rbind (open_path dev (Some name) s) (\<lambda>(err, s).
       if err then fail 2 s
       else
         let s = s\<lparr>tick_div := ucast (i_size (ino s) div 32)\<rparr> in
         rbind (sections dev (Suc (512 * epos s)) s) (\<lambda>(err, s).
           if err then Inr (True, s) else boot_exec dev s))"

end
