(* ===== verification/Booter_Ui.thy ===== *)
theory Booter_Ui
  imports Booter_Load
begin

text \<open>
  The command line of \<open>booter/booter.c\<close> and its \<open>main\<close>: the line editor, \<open>strtok\<close>, the commands,
  and the loop that mounts, prints the boot message and boots.
\<close>

section \<open>Line editor and tokens\<close>

fun cmdline_keys :: "bytes \<Rightarrow> bytes \<Rightarrow> bt \<Rightarrow> bytes bres" where
  "cmdline_keys [] line s = Inl (Waiting, s\<lparr>keys := []\<rparr>)"
| "cmdline_keys (c # ks) line s =
     (if c = 13 then Inr (line, putc c (s\<lparr>keys := ks\<rparr>))
      else if c = 8 then
        (if line \<noteq> [] then cmdline_keys ks (butlast line) (putc c s) else cmdline_keys ks line s)
      else if c < 32 \<or> 0x7f < c then cmdline_keys ks line s
      else if length line < 255 then cmdline_keys ks (line @ [c]) (putc c s)
      else cmdline_keys ks line s)"

definition getcmdline :: "bytes \<Rightarrow> bt \<Rightarrow> bytes bres" where
  "getcmdline prompt s = (let s = puts prompt s in cmdline_keys (keys s) [] s)"

text \<open>
  \<open>strtok\<close> with a line or with a null pointer, which goes on in \<open>rest\<close>.  The token starts where
  \<open>rest\<close> was, with its blanks; after the last token \<open>rest\<close> is null, and the next call reads through
  it.
\<close>

definition strtok :: "bytes option \<Rightarrow> bt \<Rightarrow> bytes option bres" where
  "strtok line s =
     (case (if line \<noteq> None then line else rest s) of
        None \<Rightarrow> Inl (Null_read, s)
      | Some l \<Rightarrow>
          if l = [] then Inr (None, s\<lparr>rest := Some l\<rparr>)
          else
            let b = takeWhile (\<lambda>c. c = 32) l; q = dropWhile (\<lambda>c. c = 32) l;
                w = takeWhile (\<lambda>c. c \<noteq> 32) q; r = dropWhile (\<lambda>c. c \<noteq> 32) q
            in Inr (Some (b @ w), s\<lparr>rest := (if r \<noteq> [] then Some (tl r) else None)\<rparr>))"

definition line_of :: "string \<Rightarrow> bytes" where
  "line_of t = str t @ [13]"

text \<open>\<open>set_driver\<close> knows one driver and is true for any other name.\<close>

definition set_driver :: "bytes \<Rightarrow> bool" where
  "set_driver t \<longleftrightarrow> t \<noteq> str ''dw''"

section \<open>Commands\<close>

definition docd :: "dev \<Rightarrow> bt \<Rightarrow> unit bres" where
  "docd dev s =
     (case mounted s of (ok, s) \<Rightarrow>
        if \<not> ok then Inr ((), s)
        else rbind (strtok None s) (\<lambda>(t, s).
          case t of
            None \<Rightarrow> Inr ((), s\<lparr>cd := ROOT\<rparr>)
          | Some t \<Rightarrow> rbind (dopath dev t s) (\<lambda>(ret, s).
              if ret = 0xffff then Inr ((), puts (line_of ''DIR NOT FOUND'') s)
              else
                let s = iopen dev ret s in
                if i_mode (ino s) AND F_DIR = 0 then Inr ((), puts (line_of ''NOT A DIR'') s)
                else Inr ((), s\<lparr>cd := ret\<rparr>))))"

definition cannot_mount :: "bt \<Rightarrow> unit bres" where
  "cannot_mount s = Inr ((), puts (line_of ''CANNOT MOUNT'') s)"

text \<open>An optional token whose first character gives a number.\<close>

definition tok_num :: "bytes option \<Rightarrow> u8 \<Rightarrow> bt \<Rightarrow> (bytes option \<times> u8) bres" where
  "tok_num t n s =
     (case t of
        None \<Rightarrow> Inr ((None, n), s)
      | Some _ \<Rightarrow> rbind (strtok None s) (\<lambda>(t, s).
          Inr ((t, case t of None \<Rightarrow> n | Some w \<Rightarrow> hd w - 0x30), s)))"

definition domount :: "dev \<Rightarrow> bt \<Rightarrow> unit bres" where
  "domount dev s =
     rbind (strtok None s) (\<lambda>(t, s).
       if t = None then cannot_mount s
       else rbind (tok_num t 0 s) (\<lambda>((t, drive), s).
         rbind (tok_num t 0 s) (\<lambda>((t, part), s).
           if 9 < drive \<or> 4 < part then cannot_mount (puts (line_of ''BAD DRIVE NO OR PART'') s)
           else rbind (mount dev (ucast drive) part s) (\<lambda>(bad, s).
             if bad then cannot_mount s else Inr ((), s)))))"

text \<open>A line of the partition table; the two numbers are turned around in the buffer.\<close>

definition swizzle_at :: "nat \<Rightarrow> bt \<Rightarrow> u32 \<times> bt" where
  "swizzle_at k s =
     (case swizzle32 (take 4 (drop k (buf s))) of (n, b) \<Rightarrow>
        (n, s\<lparr>buf := take k (buf s) @ b @ drop (k + 4) (buf s)\<rparr>))"

definition part_line :: "nat \<Rightarrow> bt \<Rightarrow> bt" where
  "part_line x s =
     (let p = MBR_PART_OFF + 16 * x;
          s = puts (str ''   '') (putb (buf s ! p) s);
          s = puts (str ''   '') (putb (buf s ! (p + 4)) s)
      in case swizzle_at (p + 8) s of (n, s) \<Rightarrow>
         case swizzle_at (p + 12) (putc 32 (putl n s)) of (m, s) \<Rightarrow> NL (putl m s))"

definition dopart :: "dev \<Rightarrow> bt \<Rightarrow> unit bres" where
  "dopart dev s =
     (case rd dev (drive_sel s) 0 of (err, b) \<Rightarrow>
        let s = s\<lparr>buf := b\<rparr> in
        if err then Inr ((), puts (line_of ''CANNOT READ DEVICE'') s)
        else if mbr_magic (buf s) then Inr ((), puts (line_of ''MBR MAGIC NOT FOUND'') s)
        else Inr ((), fold part_line [0..<4] (puts (line_of ''STAT TYPE START    END'') s)))"

definition dohelp :: "bt \<Rightarrow> bt" where
  "dohelp s = fold (\<lambda>t. puts (line_of t))
     [''mount driver no'', ''part'', ''cd dir'', ''ls'', ''cat'', ''help'', ''exit'',
      ''bt <file> <driver> <no>'', ''fx <krn-cmd-len>'', ''boot''] s"

text \<open>\<open>dooverride\<close> shows a string or replaces it by the rest of the line.\<close>

definition dooverride :: "bytes \<Rightarrow> bt \<Rightarrow> bytes \<times> bt" where
  "dooverride b s = (case rest s of None \<Rightarrow> (b, NL (puts b s)) | Some r \<Rightarrow> (r, s))"

text \<open>A command of the command line: true for \<open>boot\<close>, which leaves it.\<close>

definition command :: "dev \<Rightarrow> bytes \<Rightarrow> bt \<Rightarrow> bool bres" where
  "command dev t s =
     (let go = (\<lambda>r. rbind r (\<lambda>((), s). Inr (False, s))) in
      if t = str ''ls'' then go (dir dev (cd s) s)
      else if t = str ''cd'' then go (docd dev s)
      else if t = str ''cat'' then rbind (strtok None s) (\<lambda>(p, s). go (cat dev p s))
      else if t = str ''mount'' then go (domount dev s)
      else if t = str ''part'' then go (dopart dev s)
      else if t = str ''exit'' \<or> t = str ''quit'' then Inl (Exit, s)
      else if t = str ''help'' then Inr (False, dohelp s)
      else if t = str ''boot'' then Inr (True, s)
      else if t = str ''bt'' then case dooverride (boot_file s) s of (b, s) \<Rightarrow> Inr (False, s\<lparr>boot_file := b\<rparr>)
      else if t = str ''fx'' then case dooverride (cmd_line s) s of (b, s) \<Rightarrow> Inr (False, s\<lparr>cmd_line := b\<rparr>)
      else Inr (False, puts (line_of ''BAD COMMAND'') s))"

text \<open>Every turn of the command line takes a key or ends in waiting for one.\<close>

fun docmd_loop :: "dev \<Rightarrow> nat \<Rightarrow> bt \<Rightarrow> unit bres" where
  "docmd_loop dev 0 s = Inl (Out_of_fuel, s)"
| "docmd_loop dev (Suc k) s =
     rbind (getcmdline (str ''>'') s) (\<lambda>(line, s).
       rbind (strtok (Some line) s) (\<lambda>(t, s).
         case t of
           None \<Rightarrow> docmd_loop dev k s
         | Some t \<Rightarrow> rbind (command dev t s) (\<lambda>(leave, s).
             if leave then Inr ((), s) else docmd_loop dev k s)))"

definition docmd :: "dev \<Rightarrow> bt \<Rightarrow> unit bres" where
  "docmd dev s = docmd_loop dev (Suc (length (keys s))) (puts (line_of ''DROPPING TO COMMAND LINE'') s)"

section \<open>main\<close>

text \<open>A string variable of BASIC; true when it is not set.\<close>

definition getbas :: "dev \<Rightarrow> u8 \<Rightarrow> u8 \<Rightarrow> bool \<times> bytes" where
  "getbas dev a b =
     (case map_of (basvars dev) (be16 a b OR 0x80) of
        None \<Rightarrow> (True, [])
      | Some v \<Rightarrow> (False, c_str v))"

text \<open>
  The wait for a key while \<open>time\<close>, an 8-bit value, is above the ticker: \<open>Some True\<close> for Control,
  \<open>Some False\<close> for Space.  How long it takes is up to the ticker, so the loop has a fuel.
\<close>

definition ticks :: "dev \<Rightarrow> bt \<Rightarrow> u16 \<times> bt" where
  "ticks dev s = (timer dev (polls s), s\<lparr>polls := polls s + 1\<rparr>)"

fun wait_key :: "dev \<Rightarrow> nat \<Rightarrow> u8 \<Rightarrow> bt \<Rightarrow> bool option bres" where
  "wait_key dev 0 time s = Inl (Out_of_fuel, s)"
| "wait_key dev (Suc k) time s =
     (case ticks dev s of (now, s) \<Rightarrow>
        if now < ucast time then
          case iscntldown dev s of (down, s) \<Rightarrow>
            if down then Inr (Some True, s)
            else case isspcdown dev s of (down, s) \<Rightarrow>
              if down then Inr (Some False, s) else wait_key dev k time s
        else Inr (None, s))"

fun countdown :: "dev \<Rightarrow> nat \<Rightarrow> nat \<Rightarrow> bt \<Rightarrow> bool option bres" where
  "countdown dev fuel 0 s = Inr (None, s)"
| "countdown dev fuel (Suc togo) s =
     (case ticks dev s of (now, s) \<Rightarrow>
        rbind (wait_key dev fuel (ucast (now + 60)) s) (\<lambda>(r, s).
          case r of
            Some k \<Rightarrow> Inr (Some k, s)
          | None \<Rightarrow> countdown dev fuel togo (putn (of_nat togo) (putc 8 s))))"

text \<open>The drive and partition behind the name of the boot file; true for a bad driver name.\<close>

definition boot_params :: "bt \<Rightarrow> bool bres" where
  "boot_params s =
     rbind (strtok (Some (boot_file s)) s) (\<lambda>(t, s).
       let s = s\<lparr>boot_file := (case t of None \<Rightarrow> [] | Some w \<Rightarrow> w)\<rparr> in
       rbind (strtok None s) (\<lambda>(t, s).
         if t \<noteq> None \<and> set_driver (the t) then Inr (True, puts (line_of ''BAD DRIVER NAME'') s)
         else rbind (tok_num t (drive_no s) s) (\<lambda>((t1, d), s).
           let s = s\<lparr>drive_no := d\<rparr>;
               s = (if t \<noteq> None \<and> 9 < drive_no s then puts (line_of ''BAD DRIVE NO'') s else s)
           in rbind (tok_num t1 (part_no s) s) (\<lambda>((t2, p), s).
             let s = s\<lparr>part_no := p\<rparr> in
             Inr (False, if t1 \<noteq> None \<and> 4 < part_no s
                         then (puts (line_of ''BAD PARTITION NO'') s)\<lparr>part_no := 0\<rparr> else s)))))"

definition boot_show :: "bt \<Rightarrow> bt" where
  "boot_show s =
     NL (puts (cmd_line s) (puts (str ''FX: '') (NL (puts (boot_file s) (puts (str ''BT: '')
       (puts (line_of ''BOOTING WITH:'') s))))))"

text \<open>
  The label \<open>again\<close>: every way back to it goes through the command line, which takes a key.
\<close>

fun again :: "dev \<Rightarrow> nat \<Rightarrow> bt \<Rightarrow> unit bres" where
  "again dev 0 s = Inl (Out_of_fuel, s)"
| "again dev (Suc k) s =
     rbind (boot_params (boot_show s)) (\<lambda>(bad, s).
       if bad then rbind (docmd dev s) (\<lambda>(_, s). again dev k s)
       else rbind (mount dev (ucast (drive_no s)) (part_no s) s) (\<lambda>(bad, s).
         if bad then rbind (docmd dev (puts (line_of ''CANNOT MOUNT FILESYSTEM'') s)) (\<lambda>(_, s). again dev k s)
         else rbind (cat dev (Some (str ''/boot/boot.msg'')) s) (\<lambda>(_, s).
           rbind (boot dev (boot_file s) s) (\<lambda>(bad, s).
             if bad then rbind (docmd dev (puts (line_of ''CANNOT BOOT KERNEL'') s)) (\<lambda>(_, s). again dev k s)
             else Inr ((), s)))))"

definition booter_main :: "dev \<Rightarrow> nat \<Rightarrow> bt \<Rightarrow> unit bres" where
  "booter_main dev fuel s =
     (let s = puts (line_of ''FUZIX BOOT'') s;
          s = s\<lparr>cmd_line := snd (getbas dev 0x46 0x58)\<rparr>;
          s = s\<lparr>boot_file := snd (getbas dev 0x42 0x54)\<rparr>
      in rbind
        (if fst (getbas dev 0x42 0x54) then docmd dev (puts (line_of ''BT$ NOT SET'') s)
         else
           let s = puts (line_of ''HIT CNTL FOR MANUAL BOOTING'') s;
               s = putb 3 (puts (str ''BOOT IN '') (puts (line_of ''HIT SPACE TO BOOT'') s))
           in rbind (countdown dev fuel 3 s) (\<lambda>(r, s).
             case r of
               None \<Rightarrow> Inr ((), NL s)
             | Some True \<Rightarrow> docmd dev (NL s)
             | Some False \<Rightarrow> Inr ((), NL s)))
        (\<lambda>(_, s). again dev (Suc (length (keys s))) s))"

end
