(* ===== verification/Booter_Boot.thy ===== *)
theory Booter_Boot
  imports Booter_Fs Booter_Ui
begin

text \<open>
  The loader against the format of a kernel file: writing through the window fills consecutive
  addresses, and a file of sections whose headers do not cross a block is loaded as it says.
\<close>

section \<open>The memory file\<close>

lemma poke_append: "poke (a + length b) c (poke a b m) = poke a (b @ c) m"
  by (auto simp: poke_def fun_eq_iff nth_append)

lemma poke_Nil [simp]: "poke a [] m = m"
  by (auto simp: poke_def fun_eq_iff)

lemma poke_read: "x < length b \<Longrightarrow> poke a b m (a + x) = b ! x"
  by (simp add: poke_def)

lemma poke_outside: "x < a \<or> a + length b \<le> x \<Longrightarrow> poke a b m x = m x"
  by (auto simp: poke_def)

text \<open>The window shows the page of \<open>paddr\<close>; at its end the next write moves it.\<close>

definition mem_ok :: "bt \<Rightarrow> bool" where
  "mem_ok s \<longleftrightarrow> page s < 8 \<and> maddr s + mleft s = 8192 \<and>
     unat (paddr s) = (8192 * page s + maddr s) mod 65536"

text \<open>The state but for the memory file, and what a write leaves alone.\<close>

definition no_mem :: "bt \<Rightarrow> bt" where
  "no_mem s = s\<lparr>ram := \<lambda>_. 0, paddr := 0, page := 0, mleft := 0, maddr := 0\<rparr>"

definition still :: "bt \<Rightarrow> bt \<Rightarrow> bool" where
  "still s t \<longleftrightarrow> no_mem t = no_mem s"

lemma no_mem_updates [simp]:
  "no_mem (s\<lparr>ram := m\<rparr>) = no_mem s" "no_mem (s\<lparr>paddr := a\<rparr>) = no_mem s" "no_mem (s\<lparr>page := n\<rparr>) = no_mem s"
  "no_mem (s\<lparr>mleft := n\<rparr>) = no_mem s" "no_mem (s\<lparr>maddr := n\<rparr>) = no_mem s"
  by (simp_all add: no_mem_def)

lemma still_refl: "still s s"
  by (simp add: still_def)

lemma still_trans: "still s t \<Longrightarrow> still t u \<Longrightarrow> still s u"
  by (simp add: still_def)

lemma still_parts: "still s (mseek a s)" "still s (madv n s)" "still s (mcopy b s)"
  by (simp_all add: still_def mseek_def madv_def mcopy_def Let_def)

lemma drop_bit_13: "unat (drop_bit 13 (a :: u16)) = unat a div 8192"
proof -
  have "unat (drop_bit 13 a) = drop_bit 13 (take_bit LENGTH(16) (unat a))"
    by (simp only: unsigned_drop_bit_eq)
  then show ?thesis by (simp only: drop_bit_eq_div take_bit_eq_mod) simp
qed

lemma mseek_ok: "mem_ok (mseek a s) \<and> paddr (mseek a s) = a \<and> still s (mseek a s) \<and> ram (mseek a s) = ram s \<and>
    0 < mleft (mseek a s)"
proof -
  have lt: "unat a mod 8192 < 8192" by simp
  have pg: "unat a div 8192 < 8" using unat_u16 [of a] by (simp add: less_mult_imp_div_less)
  have "8192 * (unat a div 8192) + unat a mod 8192 = unat a" by simp
  then have "mem_ok (mseek a s)"
    using lt pg unat_u16 [of a] by (simp add: mem_ok_def mseek_def Let_def and_1fff drop_bit_13)
  with mseek_room [of a s] still_parts(1) [of s a] show ?thesis by (simp add: mseek_def Let_def)
qed

lemma madv_ok:
  assumes "mem_ok s" "n \<le> mleft s" "n \<le> 8192"
  shows "mem_ok (madv n s)"
proof -
  have "unat (paddr s + of_nat n) = (unat (paddr s) + n) mod 65536"
    using assms(3) by (simp add: unat_word_ariths unat_of_nat mod_add_right_eq)
  with assms show ?thesis by (simp add: mem_ok_def madv_def mod_add_left_eq add.assoc)
qed

lemma window:
  assumes "mem_ok s" "0 < mleft s"
  shows "8192 * page s + maddr s = unat (paddr s)"
  using assms by (auto simp: mem_ok_def mod_pos_pos_trivial)

lemma madv_paddr:
  assumes "unat (paddr s) + n < 65536"
  shows "unat (paddr (madv n s)) = unat (paddr s) + n"
  using assms by (simp add: madv_def unat_word_ariths unat_of_nat)

text \<open>Writing bytes puts them at consecutive addresses, across the pages.\<close>

lemma mwrite_ok:
  assumes "mem_ok s" "unat (paddr s) + length b \<le> 65536"
  shows "mem_ok (mwrite b s) \<and> ram (mwrite b s) = poke (unat (paddr s)) b (ram s) \<and> still s (mwrite b s) \<and>
    paddr (mwrite b s) = paddr s + of_nat (length b)"
  using assms
proof (induction b s rule: mwrite.induct)
  case (1 b s)
  show ?case
  proof (cases "b = []")
    case True
    with 1 show ?thesis by (simp add: mwrite.simps still_refl)
  next
    case False
    define x where "x = (if mleft s = 0 then mseek (paddr s) s else s)"
    define n where "n = min (mleft x) (length b)"
    define t where "t = madv n (mcopy (take n b) x)"
    have w: "mwrite b s = mwrite (drop n b) t"
      using False by (subst mwrite.simps) (simp add: Let_def x_def n_def t_def)
    have s: "mem_ok x" "paddr x = paddr s" "still s x" "ram x = ram s" "0 < mleft x"
      using mseek_ok [of "paddr s" s] 1(2) by (auto simp: still_refl x_def)
    have n: "0 < n" "n \<le> mleft x" "n \<le> 8192" "n \<le> length b"
      using s(1,5) False by (auto simp: mem_ok_def n_def)
    have mc: "mem_ok (mcopy (take n b) x)" using s(1) by (simp add: mem_ok_def mcopy_def)
    have ok: "mem_ok t" unfolding t_def by (rule madv_ok [OF mc]) (use n in \<open>simp_all add: mcopy_def\<close>)
    have r: "ram t = poke (unat (paddr s)) (take n b) (ram s)"
      using window [OF s(1,5)] s(2,4) by (simp add: t_def madv_def mcopy_def)
    have st: "still x t" unfolding t_def by (rule still_trans [OF still_parts(3,2)])
    have p: "paddr t = paddr s + of_nat n" using s(2) by (simp add: t_def madv_def mcopy_def)
    show ?thesis
    proof (cases "drop n b = []")
      case True
      then have "n = length b" using n(4) by simp
      with w ok r p still_trans [OF s(3) st] show ?thesis by (simp add: mwrite.simps)
    next
      case more: False
      then have lt: "unat (paddr s) + n < 65536" using 1(3) by simp
      have mp: "unat (paddr t) = unat (paddr s) + n"
        using madv_paddr [of "mcopy (take n b) x" n] lt s(2) by (simp add: t_def mcopy_def)
      have "unat (paddr t) + length (drop n b) \<le> 65536" using mp n(4) 1(3) by simp
      with 1(1) [OF False x_def n_def] ok
      have i: "mem_ok (mwrite (drop n b) t)" "still t (mwrite (drop n b) t)"
        "ram (mwrite (drop n b) t) = poke (unat (paddr t)) (drop n b) (ram t)"
        "paddr (mwrite (drop n b) t) = paddr t + of_nat (length (drop n b))" by (simp_all add: t_def)
      have "poke (unat (paddr s) + length (take n b)) (drop n b) (poke (unat (paddr s)) (take n b) (ram s)) =
          poke (unat (paddr s)) b (ram s)"
        unfolding poke_append by simp
      then have "ram (mwrite (drop n b) t) = poke (unat (paddr s)) b (ram s)"
        using i(3) mp r n(4) by simp
      moreover have "of_nat n + of_nat (length (drop n b)) = (of_nat (length b) :: u16)"
        using n(4) by (simp flip: of_nat_add)
      ultimately show ?thesis
        using w i(1,4) p still_trans [OF still_trans [OF s(3) st] i(2)] by (simp add: add.assoc)
    qed
  qed
qed

section \<open>Loading\<close>

lemma still_fields:
  assumes "still s t"
  shows "left t = left s" "bpos t = bpos s" "dbuf t = dbuf s" "ino t = ino s" "idir t = idir s" "spos t = spos s"
    "epos t = epos s" "drive_sel t = drive_sel s" "part_offset t = part_offset s" "cmd_line t = cmd_line s"
    "haddr t = haddr s" "hflag t = hflag s" "polls t = polls s"
proof -
  have f: "f (no_mem t) = f (no_mem s)" for f :: "bt \<Rightarrow> 'a" using assms by (simp add: still_def)
  show "left t = left s" using f [of left] by (simp add: no_mem_def)
  show "bpos t = bpos s" using f [of bpos] by (simp add: no_mem_def)
  show "dbuf t = dbuf s" using f [of dbuf] by (simp add: no_mem_def)
  show "ino t = ino s" using f [of ino] by (simp add: no_mem_def)
  show "idir t = idir s" using f [of idir] by (simp add: no_mem_def)
  show "spos t = spos s" using f [of spos] by (simp add: no_mem_def)
  show "epos t = epos s" using f [of epos] by (simp add: no_mem_def)
  show "drive_sel t = drive_sel s" using f [of drive_sel] by (simp add: no_mem_def)
  show "part_offset t = part_offset s" using f [of part_offset] by (simp add: no_mem_def)
  show "cmd_line t = cmd_line s" using f [of cmd_line] by (simp add: no_mem_def)
  show "haddr t = haddr s" using f [of haddr] by (simp add: no_mem_def)
  show "hflag t = hflag s" using f [of hflag] by (simp add: no_mem_def)
  show "polls t = polls s" using f [of polls] by (simp add: no_mem_def)
qed

text \<open>An open file in the reach of its inode, and the position in it.\<close>

definition reading :: "dev \<Rightarrow> bt \<Rightarrow> bool" where
  "reading dev s \<longleftrightarrow> file_ok dev s \<and> epos s \<le> 274 \<and> disk_ok (disk dev s) \<and> left s \<le> 512 * spos s"

definition fpos :: "bt \<Rightarrow> nat" where
  "fpos s = 512 * spos s - left s"

definition frame :: "bt \<Rightarrow> bytes \<times> inode \<times> nat \<times> u32 \<times> u8" where
  "frame s = (cmd_line s, ino s, epos s, part_offset s, drive_sel s)"

text \<open>The file and the memory do not depend on the rest of the state.\<close>

definition same_file :: "bt \<Rightarrow> bt \<Rightarrow> bool" where
  "same_file s t \<longleftrightarrow> left t = left s \<and> bpos t = bpos s \<and> dbuf t = dbuf s \<and> idir t = idir s \<and> spos t = spos s \<and> frame t = frame s"

definition same_mem :: "bt \<Rightarrow> bt \<Rightarrow> bool" where
  "same_mem s t \<longleftrightarrow> ram t = ram s \<and> paddr t = paddr s \<and> page t = page s \<and> mleft t = mleft s \<and> maddr t = maddr s"

lemma frame_disk: "frame t = frame s \<Longrightarrow> disk dev t = disk dev s"
  by (simp add: frame_def disk_def dev_read_def)

lemma same_file_facts:
  assumes "same_file s t"
  shows "stream dev t = stream dev s" "reading dev t = reading dev s" "fpos t = fpos s" "chunk t = chunk s"
    "disk dev t = disk dev s" "frame t = frame s"
proof -
  show f: "frame t = frame s" using assms by (simp add: same_file_def)
  then show d: "disk dev t = disk dev s" by (rule frame_disk)
  from f have "ino t = ino s" "epos t = epos s" by (simp_all add: frame_def)
  with assms d show "stream dev t = stream dev s" "reading dev t = reading dev s" "fpos t = fpos s" "chunk t = chunk s"
    by (simp_all add: same_file_def stream_def reading_def file_ok_def fpos_def chunk_def)
qed

lemma still_file: "still s t \<Longrightarrow> same_file s t"
  by (simp add: same_file_def frame_def still_fields)

lemma same_mem_ok: "same_mem s t \<Longrightarrow> mem_ok t = mem_ok s"
  by (simp add: same_mem_def mem_ok_def)

lemma ticker_same: "same_file s (ticker n s) \<and> same_mem s (ticker n s) \<and> haddr (ticker n s) = haddr s"
  by (simp add: ticker_def Let_def putc_def same_file_def same_mem_def frame_def)

text \<open>The bytes \<open>b\<close> of the file went to the memory at \<open>paddr\<close>.\<close>

definition loaded :: "dev \<Rightarrow> bytes \<Rightarrow> bt \<Rightarrow> bt \<Rightarrow> bool" where
  "loaded dev b s t \<longleftrightarrow> stream dev s = b @ stream dev t \<and> ram t = poke (unat (paddr s)) b (ram s) \<and>
     paddr t = paddr s + of_nat (length b) \<and> reading dev t \<and> mem_ok t \<and> fpos t = fpos s + length b \<and>
     frame t = frame s \<and> haddr t = haddr s"

lemma loaded_refl: "reading dev s \<Longrightarrow> mem_ok s \<Longrightarrow> loaded dev [] s s"
  by (simp add: loaded_def)

lemma loaded_trans:
  assumes "loaded dev b s t" "loaded dev c t u" "unat (paddr s) + length b < 65536 \<or> c = []"
  shows "loaded dev (b @ c) s u"
proof -
  have "poke (unat (paddr t)) c (ram t) = poke (unat (paddr s)) (b @ c) (ram s)"
  proof (cases "c = []")
    case False
    with assms(3) have lt: "unat (paddr s) + length b < 65536" by simp
    have "unat (paddr s + of_nat (length b)) = unat (paddr s) + length b"
      using lt by (simp add: unat_word_ariths unat_of_nat)
    with assms(1) show ?thesis by (simp add: loaded_def poke_append)
  qed (use assms(1) in \<open>simp add: loaded_def\<close>)
  with assms(1,2) show ?thesis by (simp add: loaded_def add.assoc)
qed

lemma loaded_ticker:
  assumes "loaded dev b s t"
  shows "loaded dev b s (ticker n t)"
proof -
  have f: "same_file t (ticker n t)" "same_mem t (ticker n t)" "haddr (ticker n t) = haddr t" by (simp_all add: ticker_same)
  with assms same_file_facts [OF f(1)] same_mem_ok [OF f(2)] show ?thesis
    by (simp add: loaded_def same_mem_def)
qed

text \<open>Reading in a file being loaded, in terms of the position.\<close>

lemma chunk_fpos:
  assumes "reading dev s" "stream dev s \<noteq> []"
  shows "chunk s = 512 - fpos s mod 512"
proof (cases "left s = 0")
  case True
  moreover have "spos s \<noteq> epos s" using assms True by (auto simp: stream_def)
  ultimately show ?thesis by (simp add: chunk_def fpos_def)
next
  case False
  from assms have l: "left s \<le> 512" "left s \<le> 512 * spos s" by (simp_all add: reading_def file_ok_def)
  with False have sp: "0 < spos s" by (cases "spos s") auto
  have "fpos s = 512 * (spos s - 1) + (512 - left s)" using l sp by (cases "spos s") (simp_all add: fpos_def)
  moreover have "512 - left s < 512" using False by simp
  ultimately have "fpos s mod 512 = 512 - left s" by simp
  with False l show ?thesis by (simp add: chunk_def)
qed

lemma read_ok:
  assumes "reading dev s" "0 < n" "stream dev s \<noteq> []"
  shows "\<exists>b t. iread dev n s = Inr (Some b, t) \<and> stream dev s = b @ stream dev t \<and> reading dev t \<and>
    core t = core s \<and> ino t = ino s \<and> epos t = epos s \<and> length b = min n (chunk s) \<and> b \<noteq> [] \<and>
    fpos t = fpos s + length b"
proof -
  from assms(1) have r: "file_ok dev s" "epos s \<le> 274" "disk_ok (disk dev s)" "left s \<le> 512 * spos s"
    by (simp_all add: reading_def)
  have c: "chunk s \<noteq> 0" using chunk_stream [OF r(1,3)] assms(3) by simp
  from iread_ok [OF r(1-3) assms(2)] c obtain b t where t: "iread dev n s = Inr (Some b, t)"
    "stream dev s = b @ stream dev t" "file_ok dev t" "core t = core s" "ino t = ino s" "epos t = epos s"
    "length b = min n (chunk s)" "left t = chunk s - length b" "spos t = (if left s = 0 then spos s + 1 else spos s)"
    by auto
  have d: "disk dev t = disk dev s" using t(4) by (rule core_disk)
  have cl: "chunk s = (if left s = 0 then 512 else left s)" using c by (auto simp: chunk_def split: if_splits)
  have "left t \<le> 512 * spos t" using t(7-9) r(4) cl by auto
  with t(3,6) r d have "reading dev t" by (simp add: reading_def)
  moreover have "fpos t = fpos s + length b"
    using t(7-9) r(4) cl by (auto simp: fpos_def)
  moreover have "b \<noteq> []" using t(7) assms(2) c by auto
  ultimately show ?thesis using t by (intro exI [of _ b] exI [of _ t]) simp
qed

lemma core_frame: "core t = core s \<Longrightarrow> ino t = ino s \<Longrightarrow> epos t = epos s \<Longrightarrow> frame t = frame s"
proof -
  assume c: "core t = core s" "ino t = ino s" "epos t = epos s"
  have "cmd_line (core t) = cmd_line (core s)" using c(1) by simp
  then have "cmd_line t = cmd_line s" by (simp add: core_def)
  with c core_fields(1,2) [OF c(1)] show ?thesis by (simp add: frame_def)
qed

lemma core_mem: "core t = core s \<Longrightarrow> same_mem s t"
  using core_fields [of t s] by (simp add: same_mem_def)

text \<open>A run without read errors and without the Control key.\<close>

definition quiet :: "dev \<Rightarrow> bool" where
  "quiet dev \<longleftrightarrow> (\<forall>k. \<not> cntl dev k) \<and> (\<forall>d b. \<not> fst (rd dev d b))"

lemma load_direct_ok:
  assumes r: "reading dev s" "left s = 0" "stream dev s \<noteq> []" and m: "mem_ok s" "512 \<le> mleft s" and q: "quiet dev"
  shows "\<exists>t b. load_direct dev s = Inr (Some 512, t) \<and> length b = 512 \<and> loaded dev b s t"
proof -
  have sp: "spos s < epos s" using r by (auto simp: stream_def reading_def file_ok_def)
  have f: "file_ok dev s" "epos s \<le> 274" "disk_ok (disk dev s)" using r(1) by (simp_all add: reading_def)
  define a where "a = (if spos s < 18 then i_addr (ino s) ! spos s else idir s ! (spos s - 18))"
  define b where "b = disk dev s (ucast a)"
  define t where "t = (madv 512 (mcopy b s))\<lparr>spos := spos s + 1\<rparr>"
  have b: "fs_block (disk dev s) (ino s) (spos s) = b"
    using f by (simp add: fs_block_def file_ok_def a_def b_def)
  have lb: "length b = 512" using f(3) by (simp add: disk_ok_def b_def)
  have rd: "dev_read dev (ucast a) s = (False, b)"
  proof -
    have "\<not> fst (dev_read dev (ucast a) s)" using q by (simp add: dev_read_def quiet_def)
    then show ?thesis by (cases "dev_read dev (ucast a) s") (simp add: disk_def b_def)
  qed
  have sp': "spos (madv 512 (mcopy b s)) = spos s" by (simp add: madv_def mcopy_def)
  have run: "load_direct dev s = Inr (Some 512, ticker 512 t)"
    using sp rd bmap_ok [OF f(1)] f(2) sp' by (simp add: load_direct_def Let_def t_def a_def)
  have fr: "frame t = frame s" by (simp add: frame_def t_def madv_def mcopy_def)
  have d: "disk dev t = disk dev s" by (rule frame_disk [OF fr])
  have u: "[spos s..<epos s] = spos s # [Suc (spos s)..<epos s]" using sp by (simp add: upt_conv_Cons)
  have k: "left t = 0" "spos t = Suc (spos s)" "epos t = epos s" "ino t = ino s" "idir t = idir s"
    using r(2) by (simp_all add: t_def madv_def mcopy_def)
  have st: "stream dev s = b @ stream dev t"
    using r(2) k b by (simp add: stream_def d u)
  have rt: "reading dev t" using f k sp by (simp add: reading_def file_ok_def d)
  have mt: "mem_ok (madv 512 (mcopy b s))"
    by (rule madv_ok) (use m in \<open>simp_all add: mem_ok_def mcopy_def\<close>)
  then have mt': "mem_ok t" by (simp add: mem_ok_def t_def)
  have ra: "ram t = poke (unat (paddr s)) b (ram s)"
    using window [OF m(1)] m(2) by (simp add: t_def madv_def mcopy_def)
  have "loaded dev b s t"
    using st rt mt' ra fr lb r(2) k by (simp add: loaded_def fpos_def) (simp add: t_def madv_def mcopy_def)
  from loaded_ticker [OF this, of 512] run lb show ?thesis by blast
qed

lemma load_buffered_ok:
  assumes r: "reading dev s" "stream dev s \<noteq> []" and m: "mem_ok s" and n: "0 < todo" "unat (paddr s) + todo \<le> 65536"
  shows "\<exists>t b. load_buffered dev todo s = Inr (Some (length b), t) \<and> 0 < length b \<and> length b \<le> todo \<and> loaded dev b s t"
proof -
  from read_ok [OF r(1) n(1) r(2)] obtain b u where u: "iread dev todo s = Inr (Some b, u)"
    "stream dev s = b @ stream dev u" "reading dev u" "core u = core s" "ino u = ino s" "epos u = epos s"
    "length b = min todo (chunk s)" "b \<noteq> []" "fpos u = fpos s + length b" by auto
  have mu: "same_mem s u" using u(4) by (rule core_mem)
  then have p: "paddr u = paddr s" "ram u = ram s" by (simp_all add: same_mem_def)
  have ok: "mem_ok u" using mu m by (simp add: same_mem_ok)
  let ?t = "mwrite b u"
  have w: "mem_ok ?t" "ram ?t = poke (unat (paddr s)) b (ram s)" "still u ?t" "paddr ?t = paddr s + of_nat (length b)"
    using mwrite_ok [OF ok, of b] n(2) u(7) p by simp_all
  note sf = same_file_facts [OF still_file [OF w(3)]]
  have fr: "frame u = frame s" using u(4-6) by (rule core_frame)
  have h: "haddr ?t = haddr s" using still_fields(11) [OF w(3)] core_fields(15) [OF u(4)] by simp
  have "loaded dev b s ?t" using u w sf fr h by (simp add: loaded_def)
  from loaded_ticker [OF this, of "of_nat (length b)"]
  have l: "loaded dev b s (ticker (of_nat (length b)) ?t)" .
  have "load_buffered dev todo s = Inr (Some (length b), ticker (of_nat (length b)) ?t)"
    using u(1,8) by (simp add: load_buffered_def)
  moreover have "0 < length b" using u(8) by (cases b) simp_all
  moreover have "length b \<le> todo" using u(7) by linarith
  ultimately show ?thesis using l by blast
qed

lemma load_some_ok:
  assumes "reading dev s" "stream dev s \<noteq> []" "mem_ok s" "0 < todo" "unat (paddr s) + todo \<le> 65536" "quiet dev"
  shows "\<exists>t b. load_some dev todo s = Inr (Some (length b), t) \<and> 0 < length b \<and> length b \<le> todo \<and> loaded dev b s t"
proof (cases "min (min todo (mleft s)) 512 = 512 \<and> left s = 0")
  case True
  then have "512 \<le> mleft s" "512 \<le> todo" "left s = 0" by auto
  from load_direct_ok [OF assms(1) this(3) assms(2,3) this(1) assms(6)] obtain t b
    where t: "load_direct dev s = Inr (Some 512, t)" "length b = 512" "loaded dev b s t" by blast
  have "load_some dev todo s = load_direct dev s" unfolding load_some_def if_P [OF True] ..
  with t \<open>512 \<le> todo\<close> show ?thesis by (intro exI [of _ t] exI [of _ b]) auto
next
  case False
  from load_buffered_ok [OF assms(1-5)] show ?thesis unfolding load_some_def if_not_P [OF False] .
qed

lemma loaded_poll:
  assumes "loaded dev b (snd (iscntldown dev s)) t"
  shows "loaded dev b s t"
proof -
  have f: "same_file s (snd (iscntldown dev s))" "same_mem s (snd (iscntldown dev s))"
    "haddr (snd (iscntldown dev s)) = haddr s"
    by (simp_all add: iscntldown_def same_file_def same_mem_def frame_def)
  with assms same_file_facts [OF f(1)] show ?thesis by (simp add: loaded_def same_mem_def)
qed

lemma load_loop_ok:
  assumes "reading dev s" "mem_ok s" "todo \<le> length (stream dev s)" "unat (paddr s) + todo \<le> 65536" "quiet dev"
    and "todo \<le> k"
  shows "\<exists>t. load_loop dev k todo s = Inr (False, t) \<and> loaded dev (take todo (stream dev s)) s t"
  using assms
proof (induction k arbitrary: todo s)
  case 0
  then show ?case by (simp add: loaded_refl)
next
  case (Suc k)
  show ?case
  proof (cases "todo = 0")
    case True
    with Suc.prems show ?thesis by (simp add: loaded_refl)
  next
    case False
    define p where "p = snd (iscntldown dev s)"
    have c: "iscntldown dev s = (False, p)" using Suc.prems(5) by (simp add: iscntldown_def quiet_def p_def)
    have f: "same_file s p" "same_mem s p" by (simp_all add: p_def iscntldown_def same_file_def same_mem_def frame_def)
    note sf = same_file_facts [OF f(1)]
    have pa: "paddr p = paddr s" using f(2) by (simp add: same_mem_def)
    have ne: "stream dev s \<noteq> []" using False Suc.prems(3) by auto
    from load_some_ok [of dev p todo] ne Suc.prems False sf same_mem_ok [OF f(2)] pa obtain u b
      where u: "load_some dev todo p = Inr (Some (length b), u)" "0 < length b" "length b \<le> todo" "loaded dev b p u"
      by auto
    have ls: "loaded dev b s u" using u(4) unfolding p_def by (rule loaded_poll)
    then have st: "stream dev s = b @ stream dev u" "reading dev u" "mem_ok u" "paddr u = paddr s + of_nat (length b)"
      by (simp_all add: loaded_def)
    have run: "load_loop dev (Suc k) todo s = load_loop dev k (todo - length b) u"
      unfolding load_loop.simps(2) c using False u(1) by simp
    have tk: "take todo (stream dev s) = b @ take (todo - length b) (stream dev u)"
      using u(3) st(1) by simp
    show ?thesis
    proof (cases "todo = length b")
      case True
      with run tk ls st(2,3) show ?thesis by (cases k) simp_all
    next
      case more: False
      then have lt: "unat (paddr s) + length b < 65536" using u(3) Suc.prems(4) by simp
      then have pu: "unat (paddr u) = unat (paddr s) + length b"
        using st(4) by (simp add: unat_word_ariths unat_of_nat)
      have len: "length (stream dev s) = length b + length (stream dev u)" using st(1) by simp
      have le: "todo - length b \<le> length (stream dev u)" "unat (paddr u) + (todo - length b) \<le> 65536"
        "todo - length b \<le> k"
        using len pu u(2,3) Suc.prems(3,4,6) by linarith+
      from Suc.IH [OF st(2,3) le(1,2) Suc.prems(5) le(3)] obtain t
        where t: "load_loop dev k (todo - length b) u = Inr (False, t)"
          "loaded dev (take (todo - length b) (stream dev u)) u t" by blast
      from loaded_trans [OF ls t(2)] lt run t(1) tk show ?thesis by auto
    qed
  qed
qed

section \<open>Kernel files\<close>

text \<open>
  A section of a kernel file: a zero flag, the length and the address, then the bytes.  The file
  ends with a header whose flag is not zero and whose address is the start address.
\<close>

type_synonym section_data = "u16 \<times> bytes"

definition sect :: "section_data \<Rightarrow> bytes" where
  "sect x = (case x of (a, d) \<Rightarrow>
     let n = of_nat (length d) :: u16 in [0, hi8 n, lo8 n, hi8 a, lo8 a] @ d)"

definition kernel :: "section_data list \<Rightarrow> u8 \<Rightarrow> u16 \<Rightarrow> u16 \<Rightarrow> bytes" where
  "kernel ss flag n start = concat (map sect ss) @ [flag, hi8 n, lo8 n, hi8 start, lo8 start]"

text \<open>
  No header crosses the border of a block of 512 bytes, and no section wraps around the address
  space; \<open>p\<close> is the position of the first header.
\<close>

fun heads_ok :: "nat \<Rightarrow> section_data list \<Rightarrow> bool" where
  "heads_ok p [] \<longleftrightarrow> p mod 512 \<le> 507"
| "heads_ok p ((a, d) # ss) \<longleftrightarrow> p mod 512 \<le> 507 \<and> length d < 65536 \<and> unat a + length d \<le> 65536 \<and>
     heads_ok (p + 5 + length d) ss"

definition placed :: "section_data list \<Rightarrow> (nat \<Rightarrow> u8) \<Rightarrow> nat \<Rightarrow> u8" where
  "placed ss m = fold (\<lambda>(a, d). poke (unat a) d) ss m"

lemma reading_header [simp]:
  "reading dev (s\<lparr>hflag := f, haddr := a\<rparr>) = reading dev s"
  "stream dev (s\<lparr>hflag := f, haddr := a\<rparr>) = stream dev s"
  "fpos (s\<lparr>hflag := f, haddr := a\<rparr>) = fpos s"
  "frame (s\<lparr>hflag := f, haddr := a\<rparr>) = frame s"
proof -
  have f: "same_file s (s\<lparr>hflag := f, haddr := a\<rparr>)" by (simp add: same_file_def frame_def)
  from same_file_facts [OF this]
  show "reading dev (s\<lparr>hflag := f, haddr := a\<rparr>) = reading dev s"
    "stream dev (s\<lparr>hflag := f, haddr := a\<rparr>) = stream dev s"
    "fpos (s\<lparr>hflag := f, haddr := a\<rparr>) = fpos s" "frame (s\<lparr>hflag := f, haddr := a\<rparr>) = frame s" by simp_all
qed

text \<open>A header inside a block is read as a whole.\<close>

lemma read_header:
  assumes "reading dev s" "fpos s mod 512 \<le> 507" "stream dev s = [f, n1, n2, a1, a2] @ r"
  shows "\<exists>t. iread dev 5 s = Inr (Some [f, n1, n2, a1, a2], t) \<and> stream dev t = r \<and> reading dev t \<and>
    fpos t = fpos s + 5 \<and> frame t = frame s \<and> same_mem s t"
proof -
  have c: "min 5 (chunk s) = 5" using chunk_fpos [OF assms(1)] assms(2,3) by simp
  have "(0::nat) < 5" "stream dev s \<noteq> []" using assms(3) by simp_all
  from read_ok [OF assms(1) this] obtain b t where t: "iread dev 5 s = Inr (Some b, t)"
    "stream dev s = b @ stream dev t" "reading dev t" "core t = core s" "ino t = ino s" "epos t = epos s"
    "length b = 5" "fpos t = fpos s + 5" unfolding c by auto
  have "b = [f, n1, n2, a1, a2] \<and> stream dev t = r"
    using t(2,7) assms(3) by (metis append_eq_append_conv length_Cons list.size(3) numeral_eq_Suc pred_numeral_simps(3) numeral_2_eq_2 One_nat_def pred_numeral_simps(1) pred_numeral_simps(2) BitM.simps)
  with t core_frame [OF t(4-6)] core_mem [OF t(4)] show ?thesis by blast
qed

lemma sections_ok:
  assumes "reading dev s" "heads_ok (fpos s) ss" "stream dev s = kernel ss flag n start @ r" "flag \<noteq> 0"
    and "quiet dev" "length ss < k"
  shows "\<exists>t. sections dev k s = Inr (False, t) \<and> ram t = placed ss (ram s) \<and> haddr t = start \<and> frame t = frame s"
  using assms
proof (induction ss arbitrary: s k)
  case Nil
  then obtain k' where k: "k = Suc k'" by (cases k) auto
  from Nil(2,3) have "fpos s mod 512 \<le> 507" "stream dev s = [flag, hi8 n, lo8 n, hi8 start, lo8 start] @ r"
    by (simp_all add: kernel_def)
  from read_header [OF Nil(1) this] obtain t where t: "iread dev 5 s = Inr (Some [flag, hi8 n, lo8 n, hi8 start, lo8 start], t)"
    "frame t = frame s" "same_mem s t" by blast
  have "sections dev k s = Inr (False, t\<lparr>hflag := flag, haddr := start\<rparr>)"
    using t(1) Nil(4) k by (simp add: get16_def Let_def)
  with t(2,3) show ?case by (simp add: placed_def same_mem_def)
next
  case (Cons x ss)
  obtain a d where x: "x = (a, d)" by (cases x)
  from Cons.prems(6) obtain k' where k: "k = Suc k'" "length ss < k'" by (cases k) auto
  let ?n = "of_nat (length d) :: u16"
  from Cons.prems(2) x have h: "fpos s mod 512 \<le> 507" "length d < 65536" "unat a + length d \<le> 65536"
    "heads_ok (fpos s + 5 + length d) ss" by simp_all
  have nd: "unat ?n = length d" using h(2) by (simp add: unat_of_nat)
  have st: "stream dev s = [0, hi8 ?n, lo8 ?n, hi8 a, lo8 a] @ d @ kernel ss flag n start @ r"
    using Cons.prems(3) x by (simp add: kernel_def sect_def Let_def)
  from read_header [OF Cons.prems(1) h(1) st] obtain t
    where t: "iread dev 5 s = Inr (Some [0, hi8 ?n, lo8 ?n, hi8 a, lo8 a], t)"
      "stream dev t = d @ kernel ss flag n start @ r" "reading dev t" "fpos t = fpos s + 5" "frame t = frame s" "same_mem s t"
    by blast
  define u where "u = mseek a (t\<lparr>hflag := 0, haddr := a\<rparr>)"
  note ms = mseek_ok [of a "t\<lparr>hflag := 0, haddr := a\<rparr>"]
  have "still (t\<lparr>hflag := 0, haddr := a\<rparr>) u" using ms by (simp add: u_def)
  note uf = same_file_facts [OF still_file [OF this]]
  have u: "reading dev u" "mem_ok u" "length d \<le> length (stream dev u)" "unat (paddr u) + length d \<le> 65536"
    "stream dev u = d @ kernel ss flag n start @ r" "ram u = ram s" "fpos u = fpos s + 5" "frame u = frame s"
    using ms uf t(2-6) h(3) by (simp_all add: u_def same_mem_def)
  from load_loop_ok [OF u(1-4) Cons.prems(5) order_refl] obtain v
    where v: "load_loop dev (length d) (length d) u = Inr (False, v)" "loaded dev d u v"
    using u(5) by auto
  have v': "stream dev v = kernel ss flag n start @ r" "ram v = poke (unat a) d (ram s)" "reading dev v"
    "fpos v = fpos s + 5 + length d" "frame v = frame s"
    using v(2) u(5-8) ms by (simp_all add: loaded_def u_def)
  from Cons.IH [of v k'] v' h(4) Cons.prems(4,5) k(2) obtain w
    where w: "sections dev k' v = Inr (False, w)" "ram w = placed ss (ram v)" "haddr w = start" "frame w = frame v" by auto
  have "sections dev k s = sections dev k' v"
    using t(1) v(1) k(1) nd by (simp add: get16_def Let_def u_def)
  with w v' x show ?case by (simp add: placed_def)
qed

end
