(* ===== verification/Booter_Spec.thy ===== *)
theory Booter_Spec
  imports Booter_Boot
begin

text \<open>
  What the boot loader does: it follows paths, prints files, and loads kernels as the format
  says; its line editor keeps to its buffer; and the ways in which it fails.
\<close>

section \<open>Paths\<close>

lemma dopath_ok:
  assumes "disk_ok (disk dev s)" "comps_ok cs" "cs \<noteq> []" "walk (disk dev s) cs ROOT = Some r"
  shows "\<exists>t. dopath dev (path_of cs) s = Inr (r, t) \<and> core t = core s"
proof -
  obtain c cs' where cs: "cs = c # cs'" using assms(3) by (cases cs) auto
  then have "dopath dev (path_of cs) s = dopath_loop dev (c @ path_of cs') ROOT s"
    by (simp add: dopath_def path_of_def)
  moreover have "\<exists>t. dopath_loop dev (c @ path_of cs') ROOT s = Inr (r, t) \<and> core t = core s"
    by (rule dopath_loop_ok [OF assms(2,1,4)]) (use cs in blast)
  ultimately show ?thesis by simp
qed

text \<open>C23:
  An absolute path leads where the walk through the directories of the disk leads: each component
  is looked up among the entries of the directory before it, the first entry with that name
  counts, and a missing name ends the walk with the error value.  Nothing but the variables of
  the open file changes.
\<close>

theorem dopath_walks:
  assumes "disk_ok (disk dev s)" and "comps_ok cs" and "cs \<noteq> []" and "walk (disk dev s) cs ROOT = Some r"
  shows "\<exists>t. dopath dev (path_of cs) s = Inr (r, t) \<and> core t = core s"
  using assms by (rule dopath_ok)

lemma open_path_ok:
  assumes "disk_ok (disk dev s)" "comps_ok cs" "cs \<noteq> []" "walk (disk dev s) cs ROOT = Some no" "no \<noteq> 0xffff"
  shows "\<exists>t. open_path dev (Some (path_of cs)) s = Inr (False, t) \<and> core t = core s \<and>
    stream dev t = fs_data (disk dev s) (fs_inode (disk dev s) no) \<and> file_ok dev t \<and>
    epos t = fs_blocks (fs_inode (disk dev s) no) \<and> left t = 0 \<and> spos t = 0 \<and> ino t = fs_inode (disk dev s) no"
proof -
  from dopath_ok [OF assms(1-4)] obtain u where u: "dopath dev (path_of cs) s = Inr (no, u)" "core u = core s" by blast
  have d: "disk dev u = disk dev s" using u(2) by (rule core_disk)
  note o = iopen_ok [of dev no u] iopen_stream [of dev no u]
  have "open_path dev (Some (path_of cs)) s = Inr (False, iopen dev no u)"
    using u(1) assms(5) by (simp add: open_path_def)
  with o u(2) d show ?thesis by (auto simp: file_ok_def)
qed

section \<open>Printing a file\<close>

definition shown :: "bytes \<Rightarrow> bytes" where
  "shown b = map (\<lambda>c. if c = 10 then 13 else c) b"

lemma screen_file: "same_file s (puts b (s\<lparr>buf := x\<rparr>))"
  by (simp add: same_file_def puts_def frame_def)

lemma cat_loop_ok:
  assumes "reading dev s" "left s = 0" "epos s - spos s < k"
  shows "\<exists>t. cat_loop dev k s = Inr ((), t) \<and> screen t = screen s @ shown (stream dev s)"
  using assms
proof (induction k arbitrary: s)
  case (Suc k)
  have f: "file_ok dev s" "epos s \<le> 274" "disk_ok (disk dev s)" using Suc.prems(1) by (simp_all add: reading_def)
  show ?case
  proof (cases "spos s = epos s")
    case True
    with Suc.prems(2) show ?thesis by (auto simp: iread_def stream_def shown_def)
  next
    case False
    then have sp: "spos s < epos s" using f(1) by (simp add: file_ok_def)
    have ne: "stream dev s \<noteq> []" using chunk_stream [OF f(1,3)] Suc.prems(2) sp by (simp add: chunk_def)
    have "(0::nat) < 512" by simp
    from read_ok [OF Suc.prems(1) this ne] obtain b t where t: "iread dev 512 s = Inr (Some b, t)"
      "stream dev s = b @ stream dev t" "reading dev t" "core t = core s" "epos t = epos s" "length b = min 512 (chunk s)"
      "b \<noteq> []" "fpos t = fpos s + length b" by auto
    have c: "length b = 512" using t(6) Suc.prems(2) sp by (simp add: chunk_def)
    define u where "u = puts (shown b) (t\<lparr>buf := shown b @ drop (length (shown b)) (buf t)\<rparr>)"
    have su: "same_file t u" unfolding u_def by (rule screen_file)
    note uf = same_file_facts [OF su]
    have lt: "left t \<le> 512" "left t \<le> 512 * spos t" using t(3) by (simp_all add: reading_def file_ok_def)
    have "512 * spos t - left t = 512 * spos s + 512" using t(8) c Suc.prems(2) by (simp add: fpos_def)
    moreover have "left t \<le> 512 - 512" using iread_ok [OF f, of 512] t(1) c Suc.prems(2) sp by (auto simp: chunk_def)
    ultimately have l: "left t = 0" "spos t = spos s + 1" by simp_all
    have ul: "left u = 0" "spos u = spos s + 1" "epos u = epos s"
      using su l t(5) by (simp_all add: same_file_def frame_def)
    have r: "reading dev u" using uf(2) t(3) by blast
    have m: "epos u - spos u < k" using ul Suc.prems(3) sp by simp
    from Suc.IH [OF r ul(1) m] obtain v
      where v: "cat_loop dev k u = Inr ((), v)" "screen v = screen u @ shown (stream dev u)" by blast
    have run: "cat_loop dev (Suc k) s = cat_loop dev k u"
      using t(1,7) by (simp add: Let_def shown_def u_def)
    have "screen u = screen s @ shown b" using core_fields(5) [OF t(4)] by (simp add: u_def puts_def)
    moreover have "stream dev u = stream dev t" by (rule uf(1))
    ultimately show ?thesis using v t(2) unfolding run by (simp add: shown_def)
  qed
qed simp

text \<open>
  \<open>cat\<close> of a file on a mounted file system prints the blocks of the file one after the other, with
  line feeds as carriage returns: all of each block, so also what follows the end of the file in
  the last one.
\<close>

theorem cat_prints:
  assumes "mountf s" and "disk_ok (disk dev s)" and "comps_ok cs" and "cs \<noteq> []"
    and "walk (disk dev s) cs ROOT = Some no" and "no \<noteq> 0xffff"
    and "fs_blocks (fs_inode (disk dev s) no) \<le> 274"
  shows "\<exists>t. cat dev (Some (path_of cs)) s = Inr ((), t) \<and>
    screen t = screen s @ shown (fs_data (disk dev s) (fs_inode (disk dev s) no))"
proof -
  from open_path_ok [OF assms(2-6)] obtain u where u: "open_path dev (Some (path_of cs)) s = Inr (False, u)"
    "core u = core s" "stream dev u = fs_data (disk dev s) (fs_inode (disk dev s) no)" "file_ok dev u"
    "epos u = fs_blocks (fs_inode (disk dev s) no)" "left u = 0" "spos u = 0" by blast
  have "reading dev u" using u assms(2,7) core_disk [OF u(2)] by (simp add: reading_def)
  from cat_loop_ok [OF this u(6), of "Suc (epos u)"] u(7) obtain t
    where "cat_loop dev (Suc (epos u)) u = Inr ((), t)" "screen t = screen u @ shown (stream dev u)" by auto
  with u assms(1) core_fields(5) [OF u(2)] show ?thesis
    by (simp add: cat_def mounted_def del: cat_loop.simps)
qed

section \<open>Booting\<close>

lemma boot_exec_ok:
  assumes "length (bounce dev) + 2 < 65536" "length (cmd_line s) \<le> 254"
  shows "\<exists>t. boot_exec dev s = Inl (Exec, t) \<and> taskreg t = 1 \<and>
    ram t = poke 0x88 (cmd_line s @ [0, junk dev]) (poke 0 (bounce dev @ [hi8 (haddr s), lo8 (haddr s)]) (ram s))"
proof -
  let ?t = "ticker (tick_div s) s"
  define a where "a = mwrite (bounce dev) (mseek 0 ?t)"
  define b where "b = mwrite [hi8 (haddr a), lo8 (haddr a)] a"
  define c where "c = mwrite (cmd_line b @ [0, junk dev]) (mseek 0x88 b)"
  have t: "same_mem s ?t" "same_file s ?t" "haddr ?t = haddr s" by (simp_all add: ticker_same)
  have a: "mem_ok a" "ram a = poke 0 (bounce dev) (ram s)" "paddr a = of_nat (length (bounce dev))" "still ?t a"
    using mwrite_ok [of "mseek 0 ?t" "bounce dev"] mseek_ok [of 0 ?t] assms(1) t(1)
    by (auto simp: a_def same_mem_def intro: still_trans)
  have ha: "haddr a = haddr s" "cmd_line a = cmd_line s"
    using still_fields(10,11) [OF a(4)] t(2,3) by (simp_all add: same_file_def frame_def)
  have pa: "unat (paddr a) = length (bounce dev)" using a(3) assms(1) by (simp add: unat_of_nat)
  have b: "mem_ok b" "ram b = poke (length (bounce dev)) [hi8 (haddr s), lo8 (haddr s)] (ram a)" "still a b"
    using mwrite_ok [OF a(1), of "[hi8 (haddr a), lo8 (haddr a)]"] pa assms(1) ha(1) by (simp_all add: b_def)
  have rb: "ram b = poke 0 (bounce dev @ [hi8 (haddr s), lo8 (haddr s)]) (ram s)"
    using b(2) a(2) poke_append [of 0 "bounce dev"] by simp
  have cb: "cmd_line b = cmd_line s" using still_fields(10) [OF b(3)] ha(2) by simp
  have c: "ram c = poke 0x88 (cmd_line s @ [0, junk dev]) (ram b)"
    using mwrite_ok [of "mseek 0x88 b" "cmd_line b @ [0, junk dev]"] mseek_ok [of "0x88" b] assms(2) cb
    by (simp add: c_def)
  have "boot_exec dev s = Inl (Exec, c\<lparr>mmu1 := (map (\<lambda>x. 0x38 + of_nat x) [0..<8])[0 := 0], taskreg := 1\<rparr>)"
    using assms(2) cb by (simp add: boot_exec_def Let_def a_def [symmetric] b_def [symmetric] c_def)
  with c rb show ?thesis by simp
qed

lemma sect_length: "5 * length ss \<le> length (concat (map sect ss))"
  by (induction ss) (auto simp: sect_def Let_def)

text \<open>C5:
  Booting a kernel file loads it as the format says.  When the path leads to a file whose blocks
  hold a kernel (sections that do not wrap around the address space, with headers that do not
  cross a block), nothing goes wrong on the device and Control is not pressed, the loader ends
  by starting the bounce routine, with each section at its address, the bounce routine and the
  start address at 0, and the command line with its zero and one byte more at 0x88.
\<close>

theorem boot_loads:
  assumes "disk_ok (disk dev s)" and "comps_ok cs" and "cs \<noteq> []"
    and "walk (disk dev s) cs ROOT = Some no" and "no \<noteq> 0xffff"
    and "fs_blocks (fs_inode (disk dev s) no) \<le> 274"
    and "fs_data (disk dev s) (fs_inode (disk dev s) no) = kernel ss flag n start @ r"
    and "heads_ok 0 ss" and "flag \<noteq> 0" and "quiet dev"
    and "length (bounce dev) + 2 < 65536" and "length (cmd_line s) \<le> 254"
  shows "\<exists>t. boot dev (path_of cs) s = Inl (Exec, t) \<and> taskreg t = 1 \<and>
    ram t = poke 0x88 (cmd_line s @ [0, junk dev])
      (poke 0 (bounce dev @ [hi8 start, lo8 start]) (placed ss (ram s)))"
proof -
  from open_path_ok [OF assms(1-5)] obtain u where u: "open_path dev (Some (path_of cs)) s = Inr (False, u)"
    "core u = core s" "stream dev u = kernel ss flag n start @ r" "file_ok dev u"
    "epos u = fs_blocks (fs_inode (disk dev s) no)" "left u = 0" "spos u = 0" unfolding assms(7) by blast
  define v where "v = u\<lparr>tick_div := ucast (i_size (ino u) div 32)\<rparr>"
  have f: "same_file u v" by (simp add: v_def same_file_def frame_def)
  have du: "disk_ok (disk dev u)" using assms(1) core_disk [OF u(2)] by simp
  then have "reading dev u" using u(4-7) assms(6) by (simp add: reading_def)
  with same_file_facts [OF f] u(3) have v: "reading dev v" "stream dev v = kernel ss flag n start @ r"
    "fpos v = 0" "frame v = frame u" using u(6,7) by (simp_all add: fpos_def)
  have "length (stream dev u) = 512 * epos u" using stream_length [OF u(4) du] u(6,7) by simp
  then have "5 * length ss + 5 \<le> 512 * epos u" using u(3) sect_length [of ss] by (simp add: kernel_def)
  then have k: "length ss < Suc (512 * epos v)" by (simp add: v_def)
  have h: "heads_ok (fpos v) ss" using assms(8) v(3) by simp
  from sections_ok [OF v(1) h v(2) assms(9,10) k] obtain w
    where w: "sections dev (Suc (512 * epos v)) v = Inr (False, w)" "ram w = placed ss (ram v)" "haddr w = start"
      "frame w = frame v" by blast
  have ram: "ram v = ram s" using core_fields(7) [OF u(2)] by (simp add: v_def)
  have "cmd_line (core u) = cmd_line (core s)" using u(2) by simp
  then have cl: "cmd_line w = cmd_line s" using w(4) v(4) by (simp add: frame_def core_def)
  from boot_exec_ok [of dev w] assms(11,12) cl obtain t where t: "boot_exec dev w = Inl (Exec, t)" "taskreg t = 1"
    "ram t = poke 0x88 (cmd_line s @ [0, junk dev]) (poke 0 (bounce dev @ [hi8 start, lo8 start]) (placed ss (ram s)))"
    unfolding w(2,3) ram by auto
  have "epos v = epos u" by (simp add: v_def)
  then have "boot dev (path_of cs) s = boot_exec dev w"
    using u(1) w(1) by (simp add: boot_def Let_def v_def del: sections.simps)
  with t show ?thesis by simp
qed

end
