(* ===== verification/Booter_Type.thy ===== *)
theory Booter_Type
  imports Booter_Ui
begin

text \<open>
  The boot loader's state keeps its types: its buffers have their sizes, its strings fit into
  theirs, the position in an open file stays inside it and the window on the memory stays 8 KB
  wide.  Every operation up to \<open>main\<close> keeps that, whatever is on the disk and whatever is typed.
\<close>

section \<open>Well-typed states\<close>

text \<open>A string that fits into a buffer of 256 bytes with its zero.\<close>

definition fits :: "bytes \<Rightarrow> bool" where
  "fits t \<longleftrightarrow> length t \<le> 255 \<and> 0 \<notin> set t"

definition dev_ok :: "dev \<Rightarrow> bool" where
  "dev_ok dev \<longleftrightarrow> (\<forall>d b. length (snd (rd dev d b)) = 512) \<and> (\<forall>v \<in> snd ` set (basvars dev). length v \<le> 255)"

definition bt_ok :: "bt \<Rightarrow> bool" where
  "bt_ok s \<longleftrightarrow> fits (cmd_line s) \<and> fits (boot_file s) \<and> pred_option fits (rest s) \<and>
     length (buf s) = 512 \<and> length (dbuf s) = 512 \<and> length (idir s) = 256 \<and> length (i_addr (ino s)) = 20 \<and>
     (left s = 0 \<or> bpos s + left s = 512) \<and> spos s \<le> epos s \<and> epos s < 65536 \<and>
     page s < 8 \<and> maddr s + mleft s \<le> 8192"

text \<open>
  The ends that write past an array, with what it takes: a component of a path that is longer than
  its buffer, or a drive without an entry in the partition table.
\<close>

fun overrun_of :: "bend \<Rightarrow> bool" where
  "overrun_of (Path_overrun c) \<longleftrightarrow> 30 < length c \<and> 0x2f \<notin> set c"
| "overrun_of (Table_overrun m) \<longleftrightarrow> 4 < m"
| "overrun_of e \<longleftrightarrow> True"

text \<open>A run that ends in such a state, with a result that has a property, or for such a reason.\<close>

definition rok :: "('a \<Rightarrow> bool) \<Rightarrow> 'a bres \<Rightarrow> bool" where
  "rok Q r \<longleftrightarrow> (case r of Inl (e, s) \<Rightarrow> bt_ok s \<and> overrun_of e | Inr (a, s) \<Rightarrow> bt_ok s \<and> Q a)"

lemma rok_simps [simp]:
  "rok Q (Inl (e, s)) \<longleftrightarrow> bt_ok s \<and> overrun_of e" "rok Q (Inr (a, s)) \<longleftrightarrow> bt_ok s \<and> Q a"
  by (simp_all add: rok_def)

lemma rok_bind:
  assumes "rok Q r" and "\<And>a s. r = Inr (a, s) \<Longrightarrow> bt_ok s \<Longrightarrow> Q a \<Longrightarrow> rok R (f (a, s))"
  shows "rok R (rbind r f)"
  using assms by (cases r) (auto simp: rok_def)

lemma rok_weaken: "rok Q r \<Longrightarrow> (\<And>a. Q a \<Longrightarrow> R a) \<Longrightarrow> rok R r"
  by (auto simp: rok_def split: sum.splits prod.splits)

abbreviation ok :: "'a bres \<Rightarrow> bool" where "ok \<equiv> rok (\<lambda>_. True)"

named_theorems keeps

lemma bt_ok_updates [simp]:
  "bt_ok (s\<lparr>screen := x\<rparr>) = bt_ok s" "bt_ok (s\<lparr>keys := x\<rparr>) = bt_ok s" "bt_ok (s\<lparr>polls := n\<rparr>) = bt_ok s"
  "bt_ok (s\<lparr>tick_acc := w\<rparr>) = bt_ok s" "bt_ok (s\<lparr>tick_div := w\<rparr>) = bt_ok s" "bt_ok (s\<lparr>drive_no := c\<rparr>) = bt_ok s"
  "bt_ok (s\<lparr>part_no := c\<rparr>) = bt_ok s" "bt_ok (s\<lparr>part_offset := l\<rparr>) = bt_ok s" "bt_ok (s\<lparr>mountf := f\<rparr>) = bt_ok s"
  "bt_ok (s\<lparr>cd := w\<rparr>) = bt_ok s" "bt_ok (s\<lparr>ram := m\<rparr>) = bt_ok s" "bt_ok (s\<lparr>mmu1 := x\<rparr>) = bt_ok s"
  "bt_ok (s\<lparr>taskreg := c\<rparr>) = bt_ok s" "bt_ok (s\<lparr>hflag := c\<rparr>) = bt_ok s" "bt_ok (s\<lparr>haddr := w\<rparr>) = bt_ok s"
  "bt_ok (s\<lparr>drive_sel := c\<rparr>) = bt_ok s" "bt_ok (s\<lparr>paddr := w\<rparr>) = bt_ok s"
  by (simp_all add: bt_ok_def)

lemma bt_ok_buf: "bt_ok s \<Longrightarrow> length b = 512 \<Longrightarrow> bt_ok (s\<lparr>buf := b\<rparr>)"
  by (simp add: bt_ok_def)

lemma buf_length: "bt_ok s \<Longrightarrow> length (buf s) = 512"
  by (simp add: bt_ok_def)

lemma bt_ok_line: "bt_ok s \<Longrightarrow> fits t \<Longrightarrow> bt_ok (s\<lparr>cmd_line := t\<rparr>) \<and> bt_ok (s\<lparr>boot_file := t\<rparr>) \<and> bt_ok (s\<lparr>rest := Some t\<rparr>)"
  by (simp add: bt_ok_def)

lemma bt_ok_rest: "bt_ok s \<Longrightarrow> bt_ok (s\<lparr>rest := None\<rparr>)" "bt_ok s \<Longrightarrow> rest s = Some t \<Longrightarrow> fits t"
  by (simp_all add: bt_ok_def)

lemma bt_ok_strings: "bt_ok s \<Longrightarrow> fits (cmd_line s) \<and> fits (boot_file s) \<and> length (buf s) = 512"
  by (simp add: bt_ok_def)

lemma fits_Nil [simp]: "fits []"
  by (simp add: fits_def)

lemma dev_read_length: "dev_ok dev \<Longrightarrow> dev_read dev b s = (err, d) \<Longrightarrow> length d = 512"
  by (metis dev_ok_def dev_read_def snd_conv)

section \<open>Console\<close>

lemma console_ok [simp]:
  "bt_ok (putc c s) = bt_ok s" "bt_ok (puts t s) = bt_ok s" "bt_ok (putn c s) = bt_ok s" "bt_ok (putb c s) = bt_ok s"
  "bt_ok (putw w s) = bt_ok s" "bt_ok (putl l s) = bt_ok s" "bt_ok (ticker w s) = bt_ok s"
  by (simp_all add: putc_def puts_def putn_def putb_def putw_def putl_def ticker_def Let_def)

lemma error_ok: "bt_ok s \<Longrightarrow> ok (error n s)"
  by (simp add: error_def Let_def)

lemma messages_ok: "bt_ok s \<Longrightarrow> ok (fail n s)" "bt_ok s \<Longrightarrow> ok (failed n s)" "bt_ok s \<Longrightarrow> ok (cannot_mount s)"
  unfolding fail_def failed_def cannot_mount_def by (auto intro: rok_bind error_ok)

lemma polls_ok: "bt_ok (snd (iscntldown dev s)) = bt_ok s" "bt_ok (snd (isspcdown dev s)) = bt_ok s"
  "bt_ok (snd (ticks dev s)) = bt_ok s"
  by (simp_all add: iscntldown_def isspcdown_def ticks_def)

section \<open>Files\<close>

lemma iopen_keeps: "dev_ok dev \<Longrightarrow> bt_ok s \<Longrightarrow> bt_ok (iopen dev no s)"
  by (simp add: iopen_def Let_def bt_ok_def inode_of_def words_def dev_ok_def dev_read_def unat_u16)

lemma iload_keeps: "dev_ok dev \<Longrightarrow> bt_ok s \<Longrightarrow> left s = 0 \<Longrightarrow> spos s \<noteq> epos s \<Longrightarrow> ok (iload dev s)"
  by (simp add: iload_def bmap_def bt_ok_def dev_ok_def dev_read_def)

text \<open>What is read is no longer than asked for, and fits into a block.\<close>

definition got :: "nat \<Rightarrow> bytes option \<Rightarrow> bool" where
  "got n r \<longleftrightarrow> pred_option (\<lambda>b. length b \<le> n \<and> length b \<le> 512) r"

lemma itake_keeps: "bt_ok s \<Longrightarrow> rok (got n) (itake n s)"
  unfolding itake_def Let_def
  by (auto simp: got_def intro!: rok_bind [OF error_ok]) (auto simp: bt_ok_def)

lemma iread_keeps:
  assumes "dev_ok dev" "bt_ok s"
  shows "rok (got n) (iread dev n s)"
proof (cases "left s = 0 \<and> spos s \<noteq> epos s")
  case True
  have "rok (got n) (rbind (iload dev s) (\<lambda>(_, s). itake n s))"
    by (rule rok_bind [OF iload_keeps]) (use assms True itake_keeps in auto)
  with True show ?thesis by (simp add: iread_def)
qed (use assms itake_keeps in \<open>auto simp: iread_def got_def\<close>)

lemma lookup_loop_keeps: "dev_ok dev \<Longrightarrow> bt_ok s \<Longrightarrow> ok (lookup_loop dev name k s)"
proof (induction k arbitrary: s)
  case (Suc k)
  show ?case unfolding lookup_loop.simps
    by (rule rok_bind [OF iread_keeps [OF Suc.prems]])
      (use Suc in \<open>auto split: option.splits bool.splits\<close>)
qed simp

lemma lookup_keeps: "dev_ok dev \<Longrightarrow> bt_ok s \<Longrightarrow> ok (lookup dev no name s)"
  by (simp add: lookup_def Let_def iopen_keeps lookup_loop_keeps)

lemma component_plain: "0x2f \<notin> set (takeWhile (\<lambda>c. c \<noteq> 0x2f) (p :: bytes))"
  by (auto dest: set_takeWhileD)

lemma dopath_loop_keeps: "dev_ok dev \<Longrightarrow> bt_ok s \<Longrightarrow> ok (dopath_loop dev p no s)"
proof (induction dev p no s rule: dopath_loop.induct)
  case (1 dev p no s)
  show ?case
    by (subst dopath_loop.simps)
      (use 1 component_plain in \<open>auto simp: Let_def simp del: dropWhile_eq_Nil_conv intro!: rok_bind [OF lookup_keeps]\<close>)
qed

lemma dopath_keeps: "dev_ok dev \<Longrightarrow> bt_ok s \<Longrightarrow> ok (dopath dev p s)"
  by (simp add: dopath_def dopath_loop_keeps)

lemma open_keeps: "dev_ok dev \<Longrightarrow> bt_ok s \<Longrightarrow> ok (open_path dev p s)"
  by (auto simp: open_path_def iopen_keeps intro!: rok_bind [OF dopath_keeps] split: option.splits)

lemma dir_loop_keeps: "dev_ok dev \<Longrightarrow> bt_ok s \<Longrightarrow> ok (dir_loop dev k s)"
proof (induction k arbitrary: s)
  case (Suc k)
  show ?case unfolding dir_loop.simps
    by (rule rok_bind [OF iread_keeps [OF Suc.prems]])
      (use Suc in \<open>auto simp: Let_def split: option.splits\<close>)
qed simp

lemma mounted_keeps: "bt_ok (snd (mounted s)) = bt_ok s"
  by (simp add: mounted_def)

lemma dir_keeps: "dev_ok dev \<Longrightarrow> bt_ok s \<Longrightarrow> ok (dir dev no s)"
  by (auto simp: dir_def mounted_def Let_def iopen_keeps dir_loop_keeps)

lemma cat_loop_keeps: "dev_ok dev \<Longrightarrow> bt_ok s \<Longrightarrow> ok (cat_loop dev k s)"
proof (induction k arbitrary: s)
  case (Suc k)
  show ?case unfolding cat_loop.simps
    by (rule rok_bind [OF iread_keeps [OF Suc.prems]])
      (use Suc in \<open>auto simp: Let_def got_def bt_ok_buf buf_length split: option.splits\<close>)
qed simp

lemma cat_keeps: "dev_ok dev \<Longrightarrow> bt_ok s \<Longrightarrow> ok (cat dev p s)"
  by (auto simp: cat_def mounted_def cat_loop_keeps simp del: cat_loop.simps intro!: rok_bind [OF open_keeps])

section \<open>Mounting and loading\<close>

lemma mount_super_keeps: "dev_ok dev \<Longrightarrow> bt_ok s \<Longrightarrow> ok (mount_super dev s)"
  by (auto simp: mount_super_def mount_bad_def Let_def bt_ok_buf dev_read_length split: prod.splits)

lemma swizzle_length: "length b = 4 \<Longrightarrow> length (snd (swizzle32 b)) = 4"
  by (simp add: swizzle32_def Let_def)

lemma swizzle_buf:
  assumes "bt_ok s" "k + 4 \<le> 512" "swizzle32 (take 4 (drop k (buf s))) = (off, b)"
  shows "bt_ok (s\<lparr>buf := take k (buf s) @ b @ drop (k + 4) (buf s)\<rparr>)"
proof (rule bt_ok_buf [OF assms(1)])
  have "length b = 4" using swizzle_length [of "take 4 (drop k (buf s))"] assms buf_length [OF assms(1)] by simp
  then show "length (take k (buf s) @ b @ drop (k + 4) (buf s)) = 512"
    using assms(2) buf_length [OF assms(1)] by simp
qed

lemma mount_table_keeps:
  assumes "dev_ok dev" "bt_ok s" "k + 4 \<le> 512"
  shows "ok (case swizzle32 (take 4 (drop k (buf s))) of (off, b) \<Rightarrow>
    mount_super dev (s\<lparr>part_offset := off, buf := take k (buf s) @ b @ drop (k + 4) (buf s)\<rparr>))"
proof (cases "swizzle32 (take 4 (drop k (buf s)))")
  case (Pair off b)
  have "bt_ok (s\<lparr>part_offset := off, buf := take k (buf s) @ b @ drop (k + 4) (buf s)\<rparr>)"
    using swizzle_buf [OF assms(2,3) Pair] by (simp add: bt_ok_def)
  with Pair show ?thesis by (simp add: mount_super_keeps [OF assms(1)])
qed

text \<open>The table's four entries are inside the block.\<close>

lemma lba_behind: "508 < lba_off minor \<Longrightarrow> 4 < minor"
proof (rule ccontr)
  assume b: "508 < lba_off minor" and "\<not> 4 < minor"
  then have "unat minor \<le> 4" by (simp add: word_le_nat_alt not_less)
  then have "unat minor \<in> {0, 1, 2, 3, 4}" by auto
  then have "minor \<in> {0, 1, 2, 3, 4}" by (auto simp: word_unat_eq_iff)
  with b show False by (auto simp: lba_off_def MBR_PART_OFF_def)
qed

lemma mount_keeps:
  assumes "dev_ok dev" "bt_ok s"
  shows "ok (mount dev minor part s)"
proof -
  let ?s = "s\<lparr>drive_sel := ucast minor\<rparr>"
  obtain err b where b: "dev_read dev 0 ?s = (err, b)" by (cases "dev_read dev 0 ?s")
  define t where "t = ?s\<lparr>buf := b\<rparr>"
  have t: "bt_ok t" using assms dev_read_length [OF assms(1) b] by (simp add: t_def bt_ok_buf)
  have tab: "ok (case swizzle32 (take 4 (drop (lba_off minor) (buf t))) of (off, b) \<Rightarrow>
    mount_super dev (t\<lparr>part_offset := off, buf := take (lba_off minor) (buf t) @ b @ drop (lba_off minor + 4) (buf t)\<rparr>))"
    if "\<not> 512 < lba_off minor + 4"
    using that by (intro mount_table_keeps [OF assms(1) t]) simp
  show ?thesis
    unfolding mount_def b Let_def prod.case t_def [symmetric]
    using t tab assms(2) mount_super_keeps [OF assms(1)] by (simp add: mount_bad_def lba_behind)
qed

lemma mseek_keeps: "bt_ok s \<Longrightarrow> bt_ok (mseek a s) \<and> 0 < mleft (mseek a s)"
proof -
  assume s: "bt_ok s"
  have "unat (drop_bit 13 a) < 8"
  proof -
    have "unat (drop_bit 13 a) = drop_bit 13 (take_bit LENGTH(16) (unat a))" by (simp only: unsigned_drop_bit_eq)
    then have "unat (drop_bit 13 a) = unat a div 8192" by (simp only: drop_bit_eq_div take_bit_eq_mod) simp
    with unat_u16 [of a] show ?thesis by (simp add: less_mult_imp_div_less)
  qed
  moreover have "unat a mod 8192 < 8192" by simp
  ultimately show ?thesis using s mseek_room [of a s]
    by (simp add: mseek_def Let_def bt_ok_def and_1fff)
qed

lemma mcopy_keeps [simp]: "bt_ok (mcopy b s) = bt_ok s" "mleft (mcopy b s) = mleft s"
  by (simp_all add: mcopy_def)

lemma madv_keeps: "bt_ok s \<Longrightarrow> n \<le> mleft s \<Longrightarrow> bt_ok (madv n s)"
  by (simp add: madv_def bt_ok_def)

lemma mwrite_keeps: "bt_ok s \<Longrightarrow> bt_ok (mwrite b s)"
proof (induction b s rule: mwrite.induct)
  case (1 b s)
  show ?case
  proof (cases "b = []")
    case False
    define x where "x = (if mleft s = 0 then mseek (paddr s) s else s)"
    have x: "bt_ok x" using 1(2) mseek_keeps by (simp add: x_def)
    have "bt_ok (madv (min (mleft x) (length b)) (mcopy (take (min (mleft x) (length b)) b) x))"
      using x by (intro madv_keeps) simp_all
    from 1(1) [OF False x_def refl this] show ?thesis
      using False by (subst mwrite.simps) (simp add: Let_def x_def)
  qed (use 1 in \<open>simp add: mwrite.simps\<close>)
qed

lemma load_direct_keeps:
  assumes "dev_ok dev" "bt_ok s" "512 \<le> mleft s"
  shows "ok (load_direct dev s)"
proof (cases "spos s = epos s")
  case False
  then have sp: "spos s < epos s" using assms(2) by (simp add: bt_ok_def)
  have b: "bmap s = Inl (Outside, s) \<or> (\<exists>k. bmap s = Inr (k, s))" by (auto simp: bmap_def)
  have "bt_ok (madv 512 (mcopy d s))" for d using assms by (intro madv_keeps) simp_all
  then have "bt_ok ((madv 512 (mcopy d s))\<lparr>spos := Suc (spos s)\<rparr>)" for d
    using sp by (simp add: bt_ok_def madv_def mcopy_def)
  moreover have "spos (madv 512 (mcopy d s)) = spos s" for d by (simp add: madv_def mcopy_def)
  ultimately show ?thesis
    using b False assms messages_ok(2)
    by (auto simp: load_direct_def Let_def split: prod.splits)
qed (simp add: load_direct_def messages_ok assms)

lemma load_buffered_keeps: "dev_ok dev \<Longrightarrow> bt_ok s \<Longrightarrow> ok (load_buffered dev todo s)"
  unfolding load_buffered_def
  by (rule rok_bind [OF iread_keeps]) (auto simp: messages_ok mwrite_keeps split: option.splits)

lemma load_some_keeps: "dev_ok dev \<Longrightarrow> bt_ok s \<Longrightarrow> ok (load_some dev todo s)"
  unfolding load_some_def using load_direct_keeps load_buffered_keeps by auto

lemma load_loop_keeps: "dev_ok dev \<Longrightarrow> bt_ok s \<Longrightarrow> ok (load_loop dev k todo s)"
proof (induction k arbitrary: todo s)
  case (Suc k)
  obtain down u where u: "iscntldown dev s = (down, u)" by (cases "iscntldown dev s")
  have "bt_ok u" using polls_ok(1) [of dev s] Suc(3) u by simp
  then have "ok (rbind (load_some dev todo u) (\<lambda>(r, s). case r of None \<Rightarrow> Inr (True, s)
      | Some n \<Rightarrow> load_loop dev k (todo - n) s))"
    by (intro rok_bind [OF load_some_keeps]) (use Suc in \<open>auto split: option.splits\<close>)
  with \<open>bt_ok u\<close> Suc(3) u show ?case by simp
qed simp

lemma sections_keeps: "dev_ok dev \<Longrightarrow> bt_ok s \<Longrightarrow> ok (sections dev k s)"
proof (induction k arbitrary: s)
  case (Suc k)
  show ?case unfolding sections.simps
    by (rule rok_bind [OF iread_keeps [OF Suc(2,3)]])
      (use Suc mseek_keeps in \<open>auto simp: Let_def messages_ok intro!: rok_bind [OF load_loop_keeps] split: option.splits\<close>)
qed simp

lemma boot_exec_keeps: "bt_ok s \<Longrightarrow> ok (boot_exec dev s)"
  by (simp add: boot_exec_def Let_def mwrite_keeps mseek_keeps)

lemma boot_keeps: "dev_ok dev \<Longrightarrow> bt_ok s \<Longrightarrow> ok (boot dev name s)"
  unfolding boot_def
  by (auto simp: Let_def messages_ok boot_exec_keeps simp del: sections.simps
      intro!: rok_bind [OF open_keeps] rok_bind [OF sections_keeps])

section \<open>The command line\<close>

lemma cmdline_keys_keeps:
  assumes "bt_ok s" "length line \<le> 255" "\<forall>c \<in> set line. 32 \<le> c"
  shows "rok fits (cmdline_keys ks line s)"
  using assms
proof (induction ks line s rule: cmdline_keys.induct)
  case (2 c ks line s)
  have "\<forall>x \<in> set line. x \<noteq> 0" using 2(8) by auto
  then have "fits line" using 2(7) by (auto simp: fits_def)
  moreover have "\<forall>x \<in> set (butlast line). 32 \<le> x" using 2(8) by (meson in_set_butlastD)
  moreover have "bt_ok (putc c s)" using 2(6) by simp
  ultimately show ?case using 2 by (auto simp: putc_def)
qed simp

lemma getcmdline_keeps: "bt_ok s \<Longrightarrow> rok fits (getcmdline p s)"
  by (simp add: getcmdline_def Let_def cmdline_keys_keeps)

lemma set_tl: "set (tl x) \<subseteq> set x"
  by (cases x) auto

lemma fits_part:
  assumes "fits l"
  shows "fits (takeWhile P l @ takeWhile Q (dropWhile P l))" "fits (tl (dropWhile Q (dropWhile P l)))"
proof -
  let ?d = "dropWhile P l" and ?r = "dropWhile Q (dropWhile P l)"
  have l: "takeWhile P l @ takeWhile Q ?d @ ?r = l" by simp
  have "length l = length (takeWhile P l @ takeWhile Q ?d) + length ?r" by (metis append.assoc l length_append)
  moreover have "set l = set (takeWhile P l @ takeWhile Q ?d) \<union> set ?r" by (metis append.assoc l set_append)
  moreover have "set (tl ?r) \<subseteq> set ?r" by (rule set_tl)
  ultimately show "fits (takeWhile P l @ takeWhile Q ?d)" "fits (tl ?r)"
    using assms by (auto simp: fits_def)
qed

lemma strtok_keeps:
  assumes "bt_ok s" "pred_option fits line"
  shows "rok (pred_option fits) (strtok line s)"
proof -
  have r: "pred_option fits (if line \<noteq> None then line else rest s)" using assms by (simp add: bt_ok_def)
  show ?thesis
  proof (cases "if line \<noteq> None then line else rest s")
    case None
    then show ?thesis unfolding strtok_def by (simp add: assms)
  next
    case (Some l)
    then have "fits l" using r by simp
    with Some assms(1) fits_part [OF this, where P = "\<lambda>c. c = 32" and Q = "\<lambda>c. c \<noteq> 32"] show ?thesis
      unfolding strtok_def Some by (simp add: Let_def bt_ok_line bt_ok_rest)
  qed
qed

lemma next_token_keeps: "bt_ok s \<Longrightarrow> rok (pred_option fits) (strtok None s)"
  by (rule strtok_keeps) simp_all

lemma docd_keeps: "dev_ok dev \<Longrightarrow> bt_ok s \<Longrightarrow> ok (docd dev s)"
  by (auto simp: docd_def mounted_def Let_def iopen_keeps split: option.splits
      intro!: rok_bind [OF next_token_keeps] rok_bind [OF dopath_keeps])

lemma tok_num_keeps: "bt_ok s \<Longrightarrow> ok (tok_num t n s)"
  by (auto simp: tok_num_def split: option.splits intro!: rok_bind [OF next_token_keeps])

lemma domount_keeps: "dev_ok dev \<Longrightarrow> bt_ok s \<Longrightarrow> ok (domount dev s)"
  unfolding domount_def
  by (auto simp: messages_ok intro!: rok_bind [OF next_token_keeps] rok_bind [OF tok_num_keeps] rok_bind [OF mount_keeps])

lemma swizzle_at_keeps: "bt_ok s \<Longrightarrow> k + 4 \<le> 512 \<Longrightarrow> bt_ok (snd (swizzle_at k s))"
  using swizzle_buf [of s k] by (auto simp: swizzle_at_def split: prod.splits)

lemma part_line_keeps: "bt_ok s \<Longrightarrow> x < 4 \<Longrightarrow> bt_ok (part_line x s)"
  by (simp add: part_line_def Let_def MBR_PART_OFF_def case_prod_unfold swizzle_at_keeps)

lemma part_lines_keep: "bt_ok s \<Longrightarrow> \<forall>x \<in> set xs. x < 4 \<Longrightarrow> bt_ok (fold part_line xs s)"
  by (induction xs arbitrary: s) (simp_all add: part_line_keeps)

lemma dopart_keeps:
  assumes "dev_ok dev" "bt_ok s"
  shows "ok (dopart dev s)"
proof -
  obtain err b where b: "rd dev (drive_sel s) 0 = (err, b)" by (cases "rd dev (drive_sel s) 0")
  with assms(1) have "length b = 512" by (metis dev_ok_def snd_conv)
  with assms(2) b show ?thesis
    by (simp add: dopart_def Let_def bt_ok_buf part_lines_keep)
qed

lemma dohelp_keeps [simp]: "bt_ok (dohelp s) = bt_ok s"
  by (simp add: dohelp_def)

lemma dooverride_keeps: "bt_ok s \<Longrightarrow> fits b \<Longrightarrow> fits (fst (dooverride b s)) \<and> bt_ok (snd (dooverride b s))"
  using bt_ok_rest(2) [of s] by (auto simp: dooverride_def split: option.splits)

lemma command_keeps:
  assumes "dev_ok dev" "bt_ok s"
  shows "ok (command dev t s)"
proof -
  have go: "ok (rbind r (\<lambda>((), s). Inr (False, s)))" if "ok r" for r :: "unit bres"
    by (rule rok_bind [OF that]) (simp split: unit.splits)
  have c: "ok (rbind (strtok None s) (\<lambda>(p, s). rbind (cat dev p s) (\<lambda>((), s). Inr (False, s))))"
    by (rule rok_bind [OF next_token_keeps [OF assms(2)]]) (simp add: go cat_keeps assms)
  have o: "ok (case dooverride (boot_file s) s of (b, s) \<Rightarrow> Inr (False, s\<lparr>boot_file := b\<rparr>))"
    "ok (case dooverride (cmd_line s) s of (b, s) \<Rightarrow> Inr (False, s\<lparr>cmd_line := b\<rparr>))"
    using dooverride_keeps [OF assms(2)] bt_ok_line bt_ok_strings [OF assms(2)]
    by (simp_all add: case_prod_unfold)
  show ?thesis
    unfolding command_def Let_def
    using go [OF dir_keeps [OF assms]] go [OF docd_keeps [OF assms]] go [OF domount_keeps [OF assms]]
      go [OF dopart_keeps [OF assms]] c o assms by simp
qed

lemma docmd_loop_keeps: "dev_ok dev \<Longrightarrow> bt_ok s \<Longrightarrow> ok (docmd_loop dev k s)"
proof (induction k arbitrary: s)
  case (Suc k)
  show ?case unfolding docmd_loop.simps
    by (rule rok_bind [OF getcmdline_keeps [OF Suc(3)]])
      (use Suc in \<open>auto intro!: rok_bind [OF strtok_keeps] rok_bind [OF command_keeps] split: option.splits\<close>)
qed simp

lemma docmd_keeps: "dev_ok dev \<Longrightarrow> bt_ok s \<Longrightarrow> ok (docmd dev s)"
  by (simp add: docmd_def docmd_loop_keeps del: docmd_loop.simps)

section \<open>main\<close>

lemma c_str_fits: "length v \<le> 255 \<Longrightarrow> fits (c_str v)"
  using length_takeWhile_le [of "\<lambda>c. c \<noteq> 0" v] set_takeWhileD [of 0 "\<lambda>c. c \<noteq> 0" v] by (auto simp: fits_def c_str_def)

lemma getbas_fits: "dev_ok dev \<Longrightarrow> fits (snd (getbas dev a b))"
  by (force simp: getbas_def dev_ok_def intro: c_str_fits dest: map_of_SomeD split: option.splits)

lemma wait_key_keeps: "bt_ok s \<Longrightarrow> ok (wait_key dev k time s)"
proof (induction k arbitrary: s)
  case (Suc k)
  obtain n s1 where s1: "ticks dev s = (n, s1)" by (cases "ticks dev s")
  obtain d s2 where s2: "iscntldown dev s1 = (d, s2)" by (cases "iscntldown dev s1")
  obtain e s3 where s3: "isspcdown dev s2 = (e, s3)" by (cases "isspcdown dev s2")
  have "bt_ok s1" "bt_ok s2" "bt_ok s3"
    using Suc(2) polls_ok(3) [of dev s] polls_ok(1) [of dev s1] polls_ok(2) [of dev s2] s1 s2 s3 by simp_all
  with Suc(1) [of s3] s1 s2 s3 show ?case by simp
qed simp

lemma countdown_keeps: "bt_ok s \<Longrightarrow> ok (countdown dev k togo s)"
proof (induction togo arbitrary: s)
  case (Suc togo)
  obtain n s1 where s1: "ticks dev s = (n, s1)" by (cases "ticks dev s")
  then have "bt_ok s1" using Suc(2) polls_ok(3) [of dev s] by simp
  have "ok (rbind (wait_key dev k (ucast (n + 60)) s1) (\<lambda>(r, s). case r of Some k \<Rightarrow> Inr (Some k, s)
      | None \<Rightarrow> countdown dev k togo (putn (of_nat togo) (putc 8 s))))"
    by (rule rok_bind [OF wait_key_keeps [OF \<open>bt_ok s1\<close>]]) (use Suc in \<open>auto split: option.splits\<close>)
  with s1 show ?case by simp
qed simp

lemma boot_params_keeps:
  assumes "bt_ok s"
  shows "ok (boot_params s)"
  unfolding boot_params_def
  by (rule rok_bind [OF strtok_keeps])
    (use assms bt_ok_strings in \<open>auto simp: Let_def bt_ok_line intro!: rok_bind [OF next_token_keeps]
      rok_bind [OF tok_num_keeps] split: option.splits\<close>)

lemma boot_show_keeps [simp]: "bt_ok (boot_show s) = bt_ok s"
  by (simp add: boot_show_def)

lemma again_keeps: "dev_ok dev \<Longrightarrow> bt_ok s \<Longrightarrow> ok (again dev k s)"
proof (induction k arbitrary: s)
  case (Suc k)
  have cl: "ok (rbind (docmd dev t) (\<lambda>(_, s). again dev k s))" if "bt_ok t" for t
    by (rule rok_bind [OF docmd_keeps [OF Suc(2) that]]) (use Suc in simp)
  have "bt_ok (boot_show s)" using Suc(3) by simp
  from boot_params_keeps [OF this] show ?case unfolding again.simps
    by (rule rok_bind)
      (use cl Suc(2) in \<open>auto intro!: rok_bind [OF mount_keeps] rok_bind [OF cat_keeps] rok_bind [OF boot_keeps]\<close>)
qed simp

lemma main_keeps:
  assumes "dev_ok dev" "bt_ok s"
  shows "ok (booter_main dev fuel s)"
proof -
  have str: "bt_ok (s\<lparr>cmd_line := snd (getbas dev a b), boot_file := snd (getbas dev c d)\<rparr>)" for a b c d
    using assms getbas_fits [OF assms(1)] by (simp add: bt_ok_def)
  have scr: "(puts x s)\<lparr>cmd_line := a, boot_file := b\<rparr> = puts x (s\<lparr>cmd_line := a, boot_file := b\<rparr>)" for x a b
    by (simp add: puts_def)
  show ?thesis
    unfolding booter_main_def Let_def
    by (rule rok_bind [where Q = "\<lambda>_. True"])
      (use str again_keeps [OF assms(1)] in \<open>auto simp: scr simp del: again.simps intro!: docmd_keeps [OF assms(1)]
        rok_bind [OF countdown_keeps] split: option.splits bool.splits\<close>)
qed

text \<open>C6:
  The program keeps its state well-typed to the end of every run, whatever the disk holds and
  whatever the keys are: both strings and what \<open>strtok\<close> has left fit into their buffers of 256 bytes,
  the buffers keep their sizes, the position in the open file stays between its first and its
  last block and its data buffer is used up to its end, and the memory window stays inside its
  page.  There are two ways to write outside an array, and the run is followed up to them: a path
  with a component of more than 30 characters, and a mount of a drive above 4 with a partition.
  The blocks of the device have 512 bytes and BASIC's strings at most 255.
\<close>

theorem booter_typed:
  assumes "dev_ok dev" and "bt_ok s"
  shows "case booter_main dev fuel s of
      Inl (e, t) \<Rightarrow> bt_ok t \<and> (\<forall>c. e = Path_overrun c \<longrightarrow> 30 < length c \<and> 0x2f \<notin> set c) \<and> (\<forall>m. e = Table_overrun m \<longrightarrow> 4 < m)
    | Inr (u, t) \<Rightarrow> bt_ok t"
  using main_keeps [OF assms, of fuel] by (auto simp: rok_def split: sum.splits)

definition printable :: "bytes \<Rightarrow> bool" where
  "printable l \<longleftrightarrow> length l \<le> 255 \<and> (\<forall>c \<in> set l. 32 \<le> c \<and> c \<le> 0x7f)"

lemma printable_edit:
  "printable l \<Longrightarrow> printable (butlast l)"
  "printable l \<Longrightarrow> length l < 255 \<Longrightarrow> \<not> (c < 32 \<or> 0x7f < c) \<Longrightarrow> printable (l @ [c])"
  by (auto simp: printable_def not_less dest: in_set_butlastD)

lemma cmdline_line:
  "cmdline_keys ks l s = Inr (line, t) \<Longrightarrow> printable l \<Longrightarrow> printable line \<and> length (keys t) < length ks"
proof (induction ks arbitrary: l s)
  case (Cons c ks)
  have IH: "printable line \<and> length (keys t) < length (c # ks)" if "cmdline_keys ks l' s' = Inr (line, t)" "printable l'" for l' s'
    using Cons.IH [OF that] by simp
  consider "c = 13" | "c = 8" | "c \<noteq> 13" "c \<noteq> 8" "c < 32 \<or> 0x7f < c" | "c \<noteq> 13" "c \<noteq> 8" "\<not> (c < 32 \<or> 0x7f < c)" by blast
  then show ?case
  proof cases
    case 1
    with Cons.prems show ?thesis by (auto simp: putc_def)
  next
    case 2
    with Cons.prems IH printable_edit(1) [of l] show ?thesis by (simp split: if_splits)
  next
    case 3
    then have "cmdline_keys (c # ks) l s = cmdline_keys ks l s" by simp
    with Cons.prems IH show ?thesis by simp
  next
    case 4
    then have "cmdline_keys (c # ks) l s =
      (if length l < 255 then cmdline_keys ks (l @ [c]) (putc c s) else cmdline_keys ks l s)" by simp
    with Cons.prems IH printable_edit(2) [of l c] 4(3) show ?thesis by (simp split: if_splits)
  qed
qed simp

text \<open>
  The line editor stays inside its buffer: a line has at most 255 characters, all of them from
  the space to 0x7f, and at least the key that ends it is taken.
\<close>

theorem cmdline_fits:
  assumes "getcmdline prompt s = Inr (line, t)"
  shows "length line \<le> 255 \<and> (\<forall>c \<in> set line. 32 \<le> c \<and> c \<le> 0x7f) \<and> length (keys t) < length (keys s)"
  using cmdline_line [of "keys s" "[]" "puts prompt s" line t] assms
  by (simp add: getcmdline_def printable_def puts_def)

end
