(* ===== verification/Booter_Ends.thy ===== *)
theory Booter_Ends
  imports Booter_Ui
begin

text \<open>
  The loops of the boot loader end: a file is read to its end in as many turns as it has pieces,
  and the command line takes a key of the keyboard in every turn.  So the fuel the loops are
  given is enough, and the program ends, waits for a key or stops for a reason of its own.
\<close>

section \<open>Results that are not for lack of fuel\<close>

definition fine :: "('a \<Rightarrow> bt \<Rightarrow> bool) \<Rightarrow> 'a bres \<Rightarrow> bool" where
  "fine Q r \<longleftrightarrow> (case r of Inl (e, _) \<Rightarrow> e \<noteq> Out_of_fuel | Inr (a, s) \<Rightarrow> Q a s)"

lemma fine_simps [simp]:
  "fine Q (Inl (e, s)) \<longleftrightarrow> e \<noteq> Out_of_fuel" "fine Q (Inr (a, s)) \<longleftrightarrow> Q a s"
  by (simp_all add: fine_def)

lemma fine_bind:
  "fine Q r \<Longrightarrow> (\<And>a s. r = Inr (a, s) \<Longrightarrow> Q a s \<Longrightarrow> fine R (f (a, s))) \<Longrightarrow> fine R (rbind r f)"
  by (cases r) (auto simp: fine_def)

lemma fine_weaken: "fine Q r \<Longrightarrow> (\<And>a s. Q a s \<Longrightarrow> R a s) \<Longrightarrow> fine R r"
  by (auto simp: fine_def split: sum.splits)

text \<open>The keys that are left and the place in the open file.\<close>

definition place :: "bt \<Rightarrow> bytes \<times> nat \<times> nat \<times> nat" where
  "place s = (keys s, epos s, spos s, left s)"

abbreviation stays :: "bt \<Rightarrow> 'a bres \<Rightarrow> bool" where
  "stays s \<equiv> fine (\<lambda>_ t. place t = place s)"

abbreviation keeps_keys :: "bt \<Rightarrow> 'a bres \<Rightarrow> bool" where
  "keeps_keys s \<equiv> fine (\<lambda>_ t. keys t = keys s)"

lemma place_eq: "place t = place s \<longleftrightarrow> keys t = keys s \<and> epos t = epos s \<and> spos t = spos s \<and> left t = left s"
  by (auto simp: place_def)

lemma place_print [simp]:
  "place (putc c s) = place s" "place (puts t s) = place s" "place (putn c s) = place s" "place (putb c s) = place s"
  "place (putw w s) = place s" "place (putl l s) = place s" "place (ticker w s) = place s" "place (mseek a s) = place s"
  "place (mcopy b s) = place s" "place (madv n s) = place s" "place (snd (iscntldown dev s)) = place s"
  by (simp_all add: putc_def puts_def putn_def putb_def putw_def putl_def ticker_def mseek_def mcopy_def madv_def
      iscntldown_def place_def Let_def)

lemma place_mwrite [simp]: "place (mwrite b s) = place s"
proof (induction b s rule: mwrite.induct)
  case (1 b s)
  then show ?case by (subst mwrite.simps) (auto simp: Let_def)
qed

lemma keys_print [simp]:
  "keys (putc c s) = keys s" "keys (puts t s) = keys s" "keys (putn c s) = keys s" "keys (putb c s) = keys s"
  "keys (putw w s) = keys s" "keys (putl l s) = keys s" "keys (ticker w s) = keys s" "keys (mwrite b s) = keys s"
  "keys (mseek a s) = keys s"
  using place_print place_mwrite by (metis place_eq)+

lemma error_stays: "stays s (error n s)"
  by (simp add: error_def Let_def)

lemma messages_stay: "stays s (fail n s)" "stays s (failed n s)" "stays s (cannot_mount s)"
  unfolding fail_def failed_def cannot_mount_def by (auto intro: fine_bind error_stays)

section \<open>Files\<close>

definition remaining :: "bt \<Rightarrow> nat" where
  "remaining s = left s + 512 * (epos s - spos s)"

definition inside :: "bt \<Rightarrow> bool" where
  "inside s \<longleftrightarrow> spos s \<le> epos s"

lemma place_inside: "place t = place s \<Longrightarrow> inside t = inside s \<and> remaining t = remaining s"
  by (simp add: place_def inside_def remaining_def)

lemma iopen_place: "keys (iopen dev no s) = keys s \<and> left (iopen dev no s) = 0 \<and> spos (iopen dev no s) = 0"
  by (simp add: iopen_def Let_def)

lemma iopen_start: "inside (iopen dev no s)" "remaining (iopen dev no s) = 512 * epos (iopen dev no s)"
  using iopen_place [of dev no s] by (simp_all add: inside_def remaining_def)

text \<open>A read comes to the end, or takes some of what remains, all that was asked for if blocks divide evenly.\<close>

definition took :: "nat \<Rightarrow> bt \<Rightarrow> bytes option \<Rightarrow> bt \<Rightarrow> bool" where
  "took n s r t \<longleftrightarrow> keys t = keys s \<and> inside t \<and>
     (\<forall>b. r = Some b \<longrightarrow> b = [] \<or> length b \<le> n \<and> remaining t + length b \<le> remaining s \<and>
       (n dvd 512 \<and> n dvd left s \<longrightarrow> n dvd left t \<and> remaining t + n = remaining s))"

lemma itake_took:
  assumes "inside s" "0 < n"
  shows "fine (took n s) (itake n s)"
proof (cases "left s = 0")
  case False
  have "n dvd left s \<longrightarrow> min n (left s) = n" using False by (auto dest: dvd_imp_le)
  then show ?thesis using False assms
    by (auto simp: itake_def took_def inside_def remaining_def Let_def)
qed (use assms(1) error_stays [of s 1] in \<open>auto simp: itake_def took_def place_eq inside_def intro!: fine_bind\<close>)

lemma iread_took:
  assumes "inside s" "0 < n"
  shows "fine (took n s) (iread dev n s)"
proof (cases "left s = 0 \<and> spos s \<noteq> epos s")
  case True
  then have sp: "spos s < epos s" using assms(1) by (simp add: inside_def)
  have "fine (\<lambda>_ t. keys t = keys s \<and> inside t \<and> remaining t = remaining s \<and> left t = 512) (iload dev s)"
    using sp True by (auto simp: iload_def bmap_def inside_def remaining_def)
  then have "fine (took n s) (rbind (iload dev s) (\<lambda>(_, s). itake n s))"
  proof (rule fine_bind)
    fix a and t :: bt assume t: "keys t = keys s \<and> inside t \<and> remaining t = remaining s \<and> left t = 512"
    then have "fine (took n t) (itake n t)" using assms(2) by (intro itake_took) simp_all
    then show "fine (took n s) ((\<lambda>(_, s). itake n s) (a, t))"
      unfolding prod.case by (rule fine_weaken) (use t in \<open>auto simp: took_def\<close>)
  qed
  with True show ?thesis by (simp add: iread_def)
qed (use assms itake_took in \<open>auto simp: iread_def took_def\<close>)

text \<open>A loop over entries or blocks: its fuel is above the number of them.\<close>

lemma entries_ok:
  assumes "left s = 0" "inside s"
  shows "remaining s < 32 * entries_fuel s"
  using assms by (simp add: entries_fuel_def remaining_def)

lemma lookup_loop_ends:
  "inside s \<Longrightarrow> 32 dvd left s \<Longrightarrow> remaining s < 32 * k \<Longrightarrow> keeps_keys s (lookup_loop dev name k s)"
proof (induction k arbitrary: s)
  case (Suc k)
  show ?case unfolding lookup_loop.simps
  proof (rule fine_bind [OF iread_took [OF Suc.prems(1)]])
    fix r and t :: bt assume t: "took 32 s r t"
    show "keeps_keys s ((\<lambda>(r, s). case r of None \<Rightarrow> Inl (Outside, s) | Some b \<Rightarrow>
           if b = [] then Inr (0xffff, s)
           else case same_name (d_name (dirent_of b)) name of
             None \<Rightarrow> Inl (Outside, s)
           | Some True \<Rightarrow> Inr (d_inode (dirent_of b), s)
           | Some False \<Rightarrow> lookup_loop dev name k s) (r, t))"
    proof (cases "r = None \<or> r = Some []")
      case False
      then have "inside t" "32 dvd left t" "remaining t < 32 * k" "keys t = keys s"
        using t Suc.prems(2,3) by (auto simp: took_def)
      with Suc.IH [of t] t show ?thesis by (auto simp: took_def split: option.split bool.split)
    qed (use t in \<open>auto simp: took_def\<close>)
  qed simp
qed simp

lemma lookup_ends: "keeps_keys s (lookup dev no name s)"
proof -
  have "keeps_keys (iopen dev no s) (lookup_loop dev name (entries_fuel (iopen dev no s)) (iopen dev no s))"
    using iopen_place [of dev no s] iopen_start(1) by (intro lookup_loop_ends entries_ok) simp_all
  then show ?thesis using iopen_place [of dev no s] by (simp add: lookup_def Let_def)
qed

lemma dopath_loop_ends: "keeps_keys s (dopath_loop dev p no s)"
proof (induction dev p no s rule: dopath_loop.induct)
  case (1 dev p no s)
  show ?case
    by (subst dopath_loop.simps)
      (use 1 in \<open>auto simp: Let_def simp del: dropWhile_eq_Nil_conv intro!: fine_bind [OF lookup_ends] intro: fine_weaken\<close>)
qed

lemma dopath_ends: "keeps_keys s (dopath dev p s)"
  by (simp add: dopath_def dopath_loop_ends)

text \<open>An opened file is at its start.\<close>

lemma open_ends: "fine (\<lambda>err t. keys t = keys s \<and> (\<not> err \<longrightarrow> left t = 0 \<and> inside t \<and> remaining t = 512 * epos t)) (open_path dev p s)"
  unfolding open_path_def
  by (auto simp: iopen_place iopen_start intro!: fine_bind [OF dopath_ends] split: option.splits)

lemma dir_loop_ends:
  "inside s \<Longrightarrow> 32 dvd left s \<Longrightarrow> remaining s < 32 * k \<Longrightarrow> keeps_keys s (dir_loop dev k s)"
proof (induction k arbitrary: s)
  case (Suc k)
  show ?case unfolding dir_loop.simps
  proof (rule fine_bind [OF iread_took [OF Suc.prems(1)]])
    fix r and t :: bt assume t: "took 32 s r t"
    show "keeps_keys s ((\<lambda>(r, s). case r of None \<Rightarrow> Inl (Outside, s) | Some b \<Rightarrow>
           if b = [] then Inr ((), s)
           else let d = dirent_of b in
             if 0 \<notin> set (d_name d) then Inl (Outside, s)
             else dir_loop dev k (if d_name d ! 0 \<noteq> 0 then NL (puts (c_str (d_name d)) (putc 32 (putw (d_inode d) s))) else s)) (r, t))"
    proof (cases "r = None \<or> r = Some []")
      case False
      then obtain b where b: "r = Some b" "b \<noteq> []" by auto
      define u where "u = (if d_name (dirent_of b) ! 0 \<noteq> 0
        then NL (puts (c_str (d_name (dirent_of b))) (putc 32 (putw (d_inode (dirent_of b)) t))) else t)"
      have p: "place u = place t" by (simp add: u_def)
      have "inside u" "32 dvd left u" "remaining u < 32 * k" "keys u = keys s"
        using t b Suc.prems(2,3) place_inside [OF p] p by (auto simp: took_def place_eq)
      with Suc.IH [of u] b show ?thesis by (simp add: Let_def flip: u_def)
    qed (use t in \<open>auto simp: took_def\<close>)
  qed simp
qed simp

lemma dir_ends: "keeps_keys s (dir dev no s)"
proof -
  have "keeps_keys (iopen dev no t) (dir_loop dev (entries_fuel (iopen dev no t)) (iopen dev no t))" for t
    using iopen_place [of dev no t] iopen_start(1) by (intro dir_loop_ends entries_ok) simp_all
  then show ?thesis using iopen_place by (auto simp: dir_def mounted_def Let_def)
qed

lemma cat_loop_ends:
  "inside s \<Longrightarrow> 512 dvd left s \<Longrightarrow> remaining s < 512 * k \<Longrightarrow> keeps_keys s (cat_loop dev k s)"
proof (induction k arbitrary: s)
  case (Suc k)
  show ?case unfolding cat_loop.simps
  proof (rule fine_bind [OF iread_took [OF Suc.prems(1)]])
    fix r and t :: bt assume t: "took 512 s r t"
    show "keeps_keys s ((\<lambda>(r, s). case r of None \<Rightarrow> Inl (Outside, s) | Some b \<Rightarrow>
           if b = [] then Inr ((), s)
           else let b = map (\<lambda>c. if c = 10 then 13 else c) b in
             cat_loop dev k (puts b (s\<lparr>buf := b @ drop (length b) (buf s)\<rparr>))) (r, t))"
    proof (cases "r = None \<or> r = Some []")
      case False
      then obtain b where b: "r = Some b" "b \<noteq> []" by auto
      define c where "c = map (\<lambda>c. if c = 10 then 13 else c) b"
      define u where "u = puts c (t\<lparr>buf := c @ drop (length c) (buf t)\<rparr>)"
      have p: "place u = place t" by (simp add: u_def) (simp add: place_def)
      have "inside u" "512 dvd left u" "remaining u < 512 * k" "keys u = keys s"
        using t b Suc.prems(2,3) place_inside [OF p] p by (auto simp: took_def place_eq)
      with Suc.IH [of u] b show ?thesis by (simp add: Let_def flip: u_def c_def)
    qed (use t in \<open>auto simp: took_def\<close>)
  qed simp
qed simp

lemma cat_ends: "keeps_keys s (cat dev p s)"
proof -
  have "keeps_keys t (rbind (open_path dev p t) (\<lambda>(err, s). if err then Inr ((), s) else cat_loop dev (Suc (epos s)) s))" for t
  proof (rule fine_bind [OF open_ends])
    fix err and u :: bt assume u: "keys u = keys t \<and> (\<not> err \<longrightarrow> left u = 0 \<and> inside u \<and> remaining u = 512 * epos u)"
    show "keeps_keys t ((\<lambda>(err, s). if err then Inr ((), s) else cat_loop dev (Suc (epos s)) s) (err, u))"
      using u cat_loop_ends [of u "Suc (epos u)" dev] by (auto simp del: cat_loop.simps)
  qed
  then show ?thesis by (auto simp: cat_def mounted_def simp del: cat_loop.simps)
qed

section \<open>Mounting and loading\<close>

lemma mount_super_ends: "keeps_keys s (mount_super dev s)"
  by (auto simp: mount_super_def mount_bad_def Let_def split: prod.splits)

lemma mount_ends: "keeps_keys s (mount dev minor part s)"
proof -
  have "keeps_keys s (mount_super dev t)" if "keys t = keys s" for t
    using mount_super_ends [of t dev] that by simp
  then show ?thesis by (auto simp: mount_def mount_bad_def Let_def split: prod.splits)
qed

text \<open>Loading part of a section: at least one byte, and no less of the file remains.\<close>

definition loaded :: "bt \<Rightarrow> nat option \<Rightarrow> bt \<Rightarrow> bool" where
  "loaded s r t \<longleftrightarrow> keys t = keys s \<and> inside t \<and> (\<forall>n. r = Some n \<longrightarrow> 0 < n \<and> remaining t \<le> remaining s)"

lemma failed_loaded: "inside s \<Longrightarrow> place u = place s \<Longrightarrow> fine (loaded s) (failed n u)"
proof -
  assume s: "inside s" "place u = place s"
  have "stays u (failed n u)" by (rule messages_stay)
  moreover have "fine (\<lambda>r t. r = (None :: nat option)) (failed n u)"
    unfolding failed_def by (rule fine_bind [OF error_stays]) simp
  ultimately have "fine (\<lambda>r t. place t = place u \<and> r = (None :: nat option)) (failed n u)" by (auto simp: fine_def split: sum.splits)
  then show ?thesis
  proof (rule fine_weaken)
    fix r :: "nat option" and t assume "place t = place u \<and> r = None"
    then show "loaded s r t" using s place_inside [of t s] by (simp add: loaded_def place_eq)
  qed
qed

lemma load_direct_ends: "inside s \<Longrightarrow> left s = 0 \<Longrightarrow> fine (loaded s) (load_direct dev s)"
proof -
  assume s: "inside s" "left s = 0"
  show ?thesis
  proof (cases "spos s = epos s")
    case False
    have b: "bmap s = Inl (Outside, s) \<or> (\<exists>k. bmap s = Inr (k, s))" by (auto simp: bmap_def)
    have "loaded s (Some 512) (ticker 512 ((madv 512 (mcopy d s))\<lparr>spos := Suc (spos s)\<rparr>))" for d
    proof -
      define u where "u = (madv 512 (mcopy d s))\<lparr>spos := Suc (spos s)\<rparr>"
      have "keys u = keys s" "inside u" "remaining u \<le> remaining s"
        using s False by (simp_all add: u_def madv_def mcopy_def inside_def remaining_def)
      moreover have "place (ticker 512 u) = place u" by simp
      ultimately show ?thesis using place_inside [of "ticker 512 u" u] by (simp add: loaded_def u_def place_eq)
    qed
    moreover have "spos (madv 512 (mcopy d s)) = spos s" for d by (simp add: madv_def mcopy_def)
    ultimately show ?thesis using b False failed_loaded [OF s(1)]
      by (auto simp: load_direct_def Let_def split: prod.splits)
  qed (use s failed_loaded [OF s(1)] in \<open>simp add: load_direct_def\<close>)
qed

lemma load_buffered_ends: "inside s \<Longrightarrow> 0 < todo \<Longrightarrow> fine (loaded s) (load_buffered dev todo s)"
  unfolding load_buffered_def
proof (rule fine_bind [OF iread_took])
  fix r t assume s: "inside s" and t: "took todo s r t"
  have fl: "fine (loaded s) (failed n t)" for n
  proof -
    have "fine (loaded t) (failed n t)" using t failed_loaded [of t t] by (simp add: took_def)
    moreover have "fine (\<lambda>r t. r = (None :: nat option)) (failed n t)"
      unfolding failed_def by (rule fine_bind [OF error_stays]) simp
    ultimately show ?thesis using t by (auto simp: fine_def loaded_def took_def split: sum.splits)
  qed
  have "loaded s (Some (length b)) (ticker (of_nat (length b)) (mwrite b t))" if "r = Some b" "b \<noteq> []" for b
  proof -
    have "place (ticker (of_nat (length b)) (mwrite b t)) = place t" by simp
    then show ?thesis using place_inside [of "ticker (of_nat (length b)) (mwrite b t)" t] t that
      by (simp add: loaded_def took_def place_eq)
  qed
  then show "fine (loaded s) ((\<lambda>(r, s). case r of None \<Rightarrow> failed 5 s | Some b \<Rightarrow>
      if b = [] then failed 4 s else Inr (Some (length b), ticker (of_nat (length b)) (mwrite b s))) (r, t))"
    using fl by (auto split: option.split)
qed

lemma load_some_ends: "inside s \<Longrightarrow> 0 < todo \<Longrightarrow> fine (loaded s) (load_some dev todo s)"
  by (simp add: load_some_def load_direct_ends load_buffered_ends)

lemma load_loop_ends:
  "inside s \<Longrightarrow> todo \<le> k \<Longrightarrow>
    fine (\<lambda>err t. keys t = keys s \<and> inside t \<and> (\<not> err \<longrightarrow> remaining t \<le> remaining s)) (load_loop dev k todo s)"
proof (induction k arbitrary: todo s)
  case (Suc k)
  obtain down u where u: "iscntldown dev s = (down, u)" by (cases "iscntldown dev s")
  then have p: "place u = place s" using place_print(11) [of dev s] by simp
  then have iu: "inside u" "remaining u = remaining s" "keys u = keys s" using place_inside [OF p] Suc.prems(1) by (simp_all add: place_eq)
  have pn: "inside (NL u) = inside u" "keys (NL u) = keys u" using place_inside [of "NL u" u] by (simp_all add: place_eq)
  show ?case
  proof (cases "todo = 0 \<or> down")
    case False
    have "fine (\<lambda>err t. keys t = keys s \<and> inside t \<and> (\<not> err \<longrightarrow> remaining t \<le> remaining s))
      (rbind (load_some dev todo u) (\<lambda>(r, s). case r of None \<Rightarrow> Inr (True, s) | Some n \<Rightarrow> load_loop dev k (todo - n) s))"
    proof (rule fine_bind [OF load_some_ends [OF iu(1)]])
      fix r and t :: bt assume t: "loaded u r t"
      show "fine (\<lambda>err t. keys t = keys s \<and> inside t \<and> (\<not> err \<longrightarrow> remaining t \<le> remaining s))
        ((\<lambda>(r, s). case r of None \<Rightarrow> Inr (True, s) | Some n \<Rightarrow> load_loop dev k (todo - n) s) (r, t))"
      proof (cases r)
        case (Some n)
        then have n: "0 < n" "inside t" "keys t = keys s" "remaining t \<le> remaining s" using t iu by (simp_all add: loaded_def)
        have "todo - n \<le> k" using n(1) Suc.prems(2) by simp
        from Suc.IH [OF n(2) this] Some n show ?thesis by (auto intro: fine_weaken)
      qed (use t iu in \<open>simp add: loaded_def\<close>)
    qed (use False in simp)
    with False u show ?thesis by simp
  qed (use u iu pn Suc.prems in auto)
qed simp

lemma sections_ends:
  "inside s \<Longrightarrow> remaining s < k \<Longrightarrow> keeps_keys s (sections dev k s)"
proof (induction k arbitrary: s)
  case (Suc k)
  show ?case unfolding sections.simps
  proof (rule fine_bind [OF iread_took [OF Suc.prems(1)]])
    fix r and t :: bt assume t: "took 5 s r t"
    have k: "keys t = keys s" using t by (simp add: took_def)
    have fl: "keeps_keys s (fail 3 t)"
      using messages_stay(1) [of t 3] k by (auto simp: place_eq intro: fine_weaken)
    show "keeps_keys s ((\<lambda>(r, s). case r of None \<Rightarrow> fail 3 s | Some b \<Rightarrow>
        if length b \<noteq> 5 then fail 3 s
        else let s = s\<lparr>hflag := b ! 0, haddr := get16 3 b\<rparr>; todo = unat (get16 1 b) in
          if hflag s \<noteq> 0 then Inr (False, s)
          else rbind (load_loop dev todo todo (mseek (haddr s) s)) (\<lambda>(err, s). if err then Inr (True, s) else sections dev k s)) (r, t))"
    proof (cases "\<exists>b. r = Some b \<and> length b = 5")
      case False
      with fl show ?thesis by (auto split: option.split)
    next
      case True
      then obtain b where b: "r = Some b" "length b = 5" by blast
      define t' where "t' = t\<lparr>hflag := b ! 0, haddr := get16 3 b\<rparr>"
      define u where "u = mseek (haddr t') t'"
      have p: "place u = place t" by (simp add: u_def) (simp add: t'_def place_def)
      have "b \<noteq> []" using b(2) by auto
      then have u: "inside u" "remaining u < k" "keys u = keys s"
        using t b Suc.prems(2) place_inside [OF p] p by (auto simp: took_def place_eq)
      have "keeps_keys s (rbind (load_loop dev (unat (get16 1 b)) (unat (get16 1 b)) u)
          (\<lambda>(err, s). if err then Inr (True, s) else sections dev k s))"
      proof (rule fine_bind [OF load_loop_ends [OF u(1) order_refl]])
        fix err v assume v: "keys v = keys u \<and> inside v \<and> (\<not> err \<longrightarrow> remaining v \<le> remaining u)"
        with Suc.IH [of v] u show "keeps_keys s ((\<lambda>(err, s). if err then Inr (True, s) else sections dev k s) (err, v))"
          by auto
      qed
      moreover have "keys t' = keys s" using k by (simp add: t'_def)
      ultimately show ?thesis using b(2) unfolding prod.case b(1) option.case Let_def t'_def [symmetric] u_def [symmetric] by simp
    qed
  qed simp
qed simp

lemma boot_ends: "keeps_keys s (boot dev name s)"
  unfolding boot_def
proof (rule fine_bind [OF open_ends])
  fix err and t :: bt assume t: "keys t = keys s \<and> (\<not> err \<longrightarrow> left t = 0 \<and> inside t \<and> remaining t = 512 * epos t)"
  have fl: "keeps_keys s (fail 2 t)"
    using messages_stay(1) [of t 2] t by (auto simp: place_eq intro: fine_weaken)
  define u where "u = t\<lparr>tick_div := ucast (i_size (ino t) div 32)\<rparr>"
  have p: "place u = place t" by (simp add: u_def place_def)
  have ex: "keeps_keys s (boot_exec dev v)" if "keys v = keys s" for v
    using that by (simp add: boot_exec_def Let_def)
  have "keeps_keys s (rbind (sections dev (Suc (512 * epos u)) u) (\<lambda>(err, s). if err then Inr (True, s) else boot_exec dev s))" if "\<not> err"
    using that t p place_inside [OF p] sections_ends [of u "Suc (512 * epos u)" dev]
    by (auto simp: ex place_eq simp del: sections.simps intro!: fine_bind)
  with fl t show "keeps_keys s ((\<lambda>(err, s). if err then fail 2 s
      else let s = s\<lparr>tick_div := ucast (i_size (ino s) div 32)\<rparr>
        in rbind (sections dev (Suc (512 * epos s)) s) (\<lambda>(err, s). if err then Inr (True, s) else boot_exec dev s)) (err, t))"
    by (simp add: Let_def u_def del: sections.simps)
qed

section \<open>The command line\<close>

abbreviation takes_key :: "bt \<Rightarrow> 'a bres \<Rightarrow> bool" where
  "takes_key s \<equiv> fine (\<lambda>_ t. length (keys t) < length (keys s))"

lemma cmdline_takes: "fine (\<lambda>_ t. length (keys t) < length ks) (cmdline_keys ks line s)"
proof (induction ks line s rule: cmdline_keys.induct)
  case (2 c ks line s)
  have *: "fine (\<lambda>_ t. length (keys t) < length (c # ks)) (cmdline_keys ks l u)"
    if "fine (\<lambda>_ t. length (keys t) < length ks) (cmdline_keys ks l u)" for l u
    using that by (rule fine_weaken) simp
  have "keys (putc c (s\<lparr>keys := ks\<rparr>)) = ks" by simp
  with 2 * show ?case by (cases "c = 13"; cases "c = 8"; cases "line = []") auto
qed simp

lemma getcmdline_takes: "takes_key s (getcmdline p s)"
  using cmdline_takes [of "keys s" "[]" "puts p s"] by (simp add: getcmdline_def Let_def)

lemma strtok_ends: "keeps_keys s (strtok line s)"
  by (auto simp: strtok_def Let_def split: option.splits)

lemma tok_num_ends: "keeps_keys s (tok_num t n s)"
  by (auto simp: tok_num_def intro!: fine_bind [OF strtok_ends] split: option.splits)

lemma docd_ends: "keeps_keys s (docd dev s)"
  by (auto simp: docd_def mounted_def Let_def iopen_place intro!: fine_bind [OF strtok_ends] fine_bind [OF dopath_ends]
      split: option.split)

lemma cannot_mount_ends: "keys t = keys s \<Longrightarrow> keeps_keys s (cannot_mount t)"
  by (simp add: cannot_mount_def)

lemma domount_ends: "keeps_keys s (domount dev s)"
  unfolding domount_def
  by (auto simp: cannot_mount_ends intro!: fine_bind [OF strtok_ends] fine_bind [OF tok_num_ends] fine_bind [OF mount_ends])

lemma swizzle_at_keys: "keys (snd (swizzle_at k s)) = keys s"
  by (simp add: swizzle_at_def case_prod_unfold)

lemma part_lines_keys: "keys (fold part_line xs s) = keys s"
  by (induction xs arbitrary: s) (simp_all add: part_line_def Let_def case_prod_unfold swizzle_at_keys)

lemma dopart_ends: "keeps_keys s (dopart dev s)"
  by (auto simp: dopart_def Let_def part_lines_keys split: prod.splits)

lemma dohelp_keys: "keys (dohelp s) = keys s"
  by (simp add: dohelp_def)

lemma command_ends: "keeps_keys s (command dev t s)"
proof -
  have go: "keeps_keys s (rbind r (\<lambda>((), s). Inr (False, s)))" if "keeps_keys s r" for r :: "unit bres"
    by (rule fine_bind [OF that]) (simp split: unit.splits)
  have c: "keeps_keys s (rbind (strtok None s) (\<lambda>(p, s). rbind (cat dev p s) (\<lambda>((), s). Inr (False, s))))"
  proof (rule fine_bind [OF strtok_ends])
    fix p and u :: bt assume u: "keys u = keys s"
    then have "keeps_keys s (cat dev p u)" using cat_ends [of u dev p] by simp
    from go [OF this] show "keeps_keys s ((\<lambda>(p, s). rbind (cat dev p s) (\<lambda>((), s). Inr (False, s))) (p, u))" by simp
  qed
  have o: "keeps_keys s (case dooverride (boot_file s) s of (b, s) \<Rightarrow> Inr (False, s\<lparr>boot_file := b\<rparr>))"
    "keeps_keys s (case dooverride (cmd_line s) s of (b, s) \<Rightarrow> Inr (False, s\<lparr>cmd_line := b\<rparr>))"
    by (simp_all add: dooverride_def split: option.split)
  show ?thesis
    unfolding command_def Let_def
    using go [OF dir_ends] go [OF docd_ends] go [OF domount_ends] go [OF dopart_ends] c o by (simp add: dohelp_keys)
qed

lemma docmd_loop_ends: "length (keys s) < k \<Longrightarrow> takes_key s (docmd_loop dev k s)"
proof (induction k arbitrary: s)
  case (Suc k)
  show ?case unfolding docmd_loop.simps
  proof (rule fine_bind [OF getcmdline_takes], clarsimp)
    fix line and t :: bt assume t: "length (keys t) < length (keys s)"
    have rec: "takes_key s (docmd_loop dev k u)" if "keys u = keys t" for u
      by (rule fine_weaken [OF Suc.IH]) (use that t Suc.prems in auto)
    show "takes_key s (rbind (strtok (Some line) t) (\<lambda>(w, s). case w of None \<Rightarrow> docmd_loop dev k s
      | Some w \<Rightarrow> rbind (command dev w s) (\<lambda>(leave, s). if leave then Inr ((), s) else docmd_loop dev k s)))"
    proof (rule fine_bind [OF strtok_ends], clarsimp)
      fix w and u :: bt assume u: "keys u = keys t"
      have "takes_key s (rbind (command dev v u) (\<lambda>(leave, s). if leave then Inr ((), s) else docmd_loop dev k s))" for v
        by (rule fine_bind [OF command_ends]) (use u t rec in auto)
      then show "takes_key s (case w of None \<Rightarrow> docmd_loop dev k u
        | Some w \<Rightarrow> rbind (command dev w u) (\<lambda>(leave, s). if leave then Inr ((), s) else docmd_loop dev k s))"
        using rec u by (simp split: option.split)
    qed
  qed
qed simp

lemma docmd_ends: "takes_key s (docmd dev s)"
proof -
  let ?t = "puts (line_of ''DROPPING TO COMMAND LINE'') s"
  have "takes_key ?t (docmd_loop dev (Suc (length (keys s))) ?t)" by (rule docmd_loop_ends) simp
  then show ?thesis by (simp only: docmd_def keys_print)
qed

section \<open>main\<close>

text \<open>Whenever the ticker is looked at, it is seen at 255 or above within that many looks more.\<close>

definition ticker_runs :: "dev \<Rightarrow> nat \<Rightarrow> bool" where
  "ticker_runs dev fuel \<longleftrightarrow> (\<forall>n. \<exists>j < fuel. 255 \<le> timer dev (n + 3 * j))"

lemma wait_key_ends: "j < k \<Longrightarrow> 255 \<le> timer dev (polls s + 3 * j) \<Longrightarrow> keeps_keys s (wait_key dev k time s)"
proof (induction k arbitrary: j s)
  case (Suc k)
  have time: "ucast time \<le> (255 :: u16)"
  proof -
    have "uint (ucast time :: u16) = uint time" by (simp add: unsigned_ucast_eq take_bit_int_eq_self uint_u8_bound less_trans [OF conjunct2 [OF uint_u8_bound]])
    then show ?thesis using uint_u8_bound [of time] by (simp add: word_le_def)
  qed
  show ?case
  proof (cases j)
    case 0
    then have "\<not> timer dev (polls s) < ucast time" using Suc.prems(2) time by simp
    then show ?thesis by (simp add: ticks_def)
  next
    case (Suc i)
    define u where "u = s\<lparr>polls := polls s + 3\<rparr>"
    have "255 \<le> timer dev (polls u + 3 * i)" using Suc.prems(2) Suc by (simp add: u_def algebra_simps)
    with Suc.IH [of i u] Suc.prems(1) Suc have "keeps_keys s (wait_key dev k time u)" by (simp add: u_def)
    then show ?thesis by (simp add: ticks_def iscntldown_def isspcdown_def u_def numeral_3_eq_3)
  qed
qed simp

lemma countdown_ends: "ticker_runs dev fuel \<Longrightarrow> keeps_keys s (countdown dev fuel togo s)"
proof (induction togo arbitrary: s)
  case (Suc togo)
  define u where "u = s\<lparr>polls := polls s + 1\<rparr>"
  obtain j where j: "j < fuel" "255 \<le> timer dev (polls u + 3 * j)" using Suc.prems unfolding ticker_runs_def by blast
  have "keeps_keys s (rbind (wait_key dev fuel (ucast (timer dev (polls s) + 60)) u) (\<lambda>(r, s). case r of Some k \<Rightarrow> Inr (Some k, s)
      | None \<Rightarrow> countdown dev fuel togo (putn (of_nat togo) (putc 8 s))))"
  proof (rule fine_bind [OF wait_key_ends [OF j]], clarsimp)
    fix r and t :: bt assume t: "keys t = keys u"
    then show "keeps_keys s (case r of None \<Rightarrow> countdown dev fuel togo (putn (of_nat togo) (putc 8 t)) | Some k \<Rightarrow> Inr (Some k, t))"
      using Suc.IH [OF Suc.prems, of "putn (of_nat togo) (putc 8 t)"] by (simp add: u_def split: option.split)
  qed
  then show ?case by (simp add: ticks_def u_def)
qed simp

lemma boot_params_ends: "keeps_keys s (boot_params s)"
  unfolding boot_params_def
  by (auto simp: Let_def intro!: fine_bind [OF strtok_ends] fine_bind [OF tok_num_ends])

lemma boot_show_keys: "keys (boot_show s) = keys s"
  by (simp add: boot_show_def)

lemma again_ends: "length (keys s) < k \<Longrightarrow> fine (\<lambda>_ _. True) (again dev k s)"
proof (induction k arbitrary: s)
  case (Suc k)
  have cl: "fine (\<lambda>_ _. True) (rbind (docmd dev t) (\<lambda>(_, s). again dev k s))" if "keys t = keys s" for t
    by (rule fine_bind [OF docmd_ends]) (use that Suc in auto)
  have pr: "fine (\<lambda>_ _. True) (rbind (docmd dev (puts x t)) (\<lambda>(_, s). again dev k s))" if "keys t = keys s" for t x
    using that by (intro cl) simp
  have bt: "fine (\<lambda>_ _. True) (rbind (boot dev n t) (\<lambda>(bad, s).
      if bad then rbind (docmd dev (puts (line_of ''CANNOT BOOT KERNEL'') s)) (\<lambda>(_, s). again dev k s) else Inr ((), s)))"
    if "keys t = keys s" for t n
    by (rule fine_bind [OF boot_ends]) (use that pr in auto)
  have ct: "fine (\<lambda>_ _. True) (rbind (cat dev p t) (\<lambda>(_, s). rbind (boot dev (boot_file s) s) (\<lambda>(bad, s).
      if bad then rbind (docmd dev (puts (line_of ''CANNOT BOOT KERNEL'') s)) (\<lambda>(_, s). again dev k s) else Inr ((), s))))"
    if "keys t = keys s" for t p
    by (rule fine_bind [OF cat_ends]) (use that bt in auto)
  show ?case unfolding again.simps
  proof (rule fine_bind [OF boot_params_ends], clarsimp simp: cl boot_show_keys)
    fix t :: bt assume t: "keys t = keys s"
    show "fine (\<lambda>_ _. True) (rbind (mount dev (ucast (drive_no t)) (part_no t) t) (\<lambda>(bad, s).
      if bad then rbind (docmd dev (puts (line_of ''CANNOT MOUNT FILESYSTEM'') s)) (\<lambda>(_, s). again dev k s)
      else rbind (cat dev (Some (str ''/boot/boot.msg'')) s) (\<lambda>(_, s). rbind (boot dev (boot_file s) s) (\<lambda>(bad, s).
        if bad then rbind (docmd dev (puts (line_of ''CANNOT BOOT KERNEL'') s)) (\<lambda>(_, s). again dev k s) else Inr ((), s)))))"
      by (rule fine_bind [OF mount_ends]) (use t pr ct in auto)
  qed
qed simp

lemma main_ends:
  assumes "ticker_runs dev fuel"
  shows "fine (\<lambda>_ _. True) (booter_main dev fuel s)"
proof -
  have a: "fine (\<lambda>_ _. True) (again dev (Suc (length (keys t))) t)" for t by (rule again_ends) simp
  have d: "fine (\<lambda>_ _. True) (docmd dev t)" for t by (rule fine_weaken [OF docmd_ends]) simp
  show ?thesis
    unfolding booter_main_def Let_def
    by (rule fine_bind [where Q = "\<lambda>_ _. True"])
      (use a d in \<open>auto simp del: again.simps intro!: fine_bind [OF countdown_ends [OF assms]] split: option.splits bool.splits\<close>)
qed

text \<open>C7:
  The boot loader does not go on for ever: whatever the disk holds, directories and files of any
  size and a kernel of any number of sections among it, and however often the command line is
  entered, every run ends, jumps into the kernel, waits for a key or stops, if the ticker of the
  countdown runs.  No loop comes to the bound that the model gives it.
\<close>

theorem booter_ends:
  assumes "ticker_runs dev fuel"
  shows "booter_main dev fuel s \<noteq> Inl (Out_of_fuel, t)"
  using main_ends [OF assms, of s] by auto


end
