(* ===== verification/Booter_Demo.thy ===== *)
theory Booter_Demo
  imports Booter_Spec Booter_Type Booter_Ends
begin

text \<open>
  A small disk on which the theorems about the boot loader apply, the bounds of its line editor,
  and the ways in which it mounts the wrong partition, rejects a kernel and loses its drive
  number.
\<close>

section \<open>A disk\<close>

text \<open>The inodes 1 (the root directory, block 10) and 2 (the file \<open>k\<close>, block 11) in block 2.\<close>

definition raw_inode :: "u8 \<Rightarrow> u8 \<Rightarrow> bytes" where
  "raw_inode mode blk = [mode, 0, 0, 1, 0, 0, 0, 0, 0, 0, 2, 0] @ replicate 12 0 @ [0, blk] @ replicate 38 0"

definition demo_kernel :: "section_data list" where
  "demo_kernel = [(0x100, [1, 2, 3]), (0x3ffe, [4, 5, 6, 7])]"

definition demo_disk :: disk where
  "demo_disk b =
     (if b = 2 then replicate 64 0 @ raw_inode 0x40 10 @ raw_inode 0x80 11 @ replicate 320 0
      else if b = 10 then [0, 2, 0x6b] @ replicate 509 0
      else if b = 11 then kernel demo_kernel 0xff 0 0x100 @ replicate 490 0
      else replicate 512 0)"

definition demo_dev :: dev where
  "demo_dev = \<lparr>init = \<lambda>_. False, rd = \<lambda>_ b. (False, demo_disk b), cntl = \<lambda>_. False, spc = \<lambda>_. False,
     timer = \<lambda>_. 0, bounce = [0x7e], basvars = [], junk = 0\<rparr>"

definition demo_bt :: bt where
  "demo_bt = \<lparr>cmd_line = [], boot_file = [], drive_no = 0, part_no = 0, part_offset = 0, tick_div = 0,
     tick_acc = 0, buf = replicate 512 0, mountf = True, dbuf = replicate 512 0, idir = replicate 256 0,
     ino = inode_of (replicate 64 0), left = 0,
     bpos = 0, spos = 0, epos = 0, cd = 1, mleft = 0, maddr = 0, paddr = 0, page = 0, ram = \<lambda>_. 0,
     mmu1 = [], taskreg = 0, hflag = 0, haddr = 0, rest = None, drive_sel = 0, screen = [], keys = [], polls = 0\<rparr>"

lemma demo_disk_eq: "disk demo_dev demo_bt = demo_disk"
  by (simp add: disk_def dev_read_def demo_dev_def demo_bt_def)

lemma demo_disk_ok: "disk_ok demo_disk"
  by (simp add: disk_ok_def demo_disk_def raw_inode_def kernel_def demo_kernel_def sect_def Let_def)

definition demo_path :: "bytes list" where "demo_path = [str ''k'']"

lemma demo_path_ok: "comps_ok demo_path" "demo_path \<noteq> []"
  by (simp_all add: comps_ok_def demo_path_def str_def)

lemma demo_walk: "walk demo_disk demo_path ROOT = Some 2"
  by code_simp

lemma demo_file: "fs_blocks (fs_inode demo_disk 2) \<le> 274"
  "fs_data demo_disk (fs_inode demo_disk 2) = kernel demo_kernel 0xff 0 0x100 @ replicate 490 0"
  by code_simp+


lemma demo_quiet: "quiet demo_dev"
  by (simp add: quiet_def demo_dev_def)

lemma demo_heads: "heads_ok 0 demo_kernel"
  by (simp add: demo_kernel_def)

lemma dopath_walks_witness: "\<exists>t. dopath demo_dev (path_of demo_path) demo_bt = Inr (2, t) \<and> core t = core demo_bt"
  using dopath_walks [of demo_dev demo_bt demo_path 2] demo_disk_ok demo_path_ok demo_walk
  by (simp add: demo_disk_eq)

lemma cat_prints_witness:
  "\<exists>t. cat demo_dev (Some (path_of demo_path)) demo_bt = Inr ((), t) \<and>
    screen t = shown (kernel demo_kernel 0xff 0 0x100 @ replicate 490 0)"
proof -
  have "mountf demo_bt" "screen demo_bt = []" by (simp_all add: demo_bt_def)
  with cat_prints [of demo_bt demo_dev demo_path 2] demo_disk_ok demo_path_ok demo_walk demo_file
  show ?thesis by (simp add: demo_disk_eq)
qed

lemma boot_loads_witness:
  "\<exists>t. boot demo_dev (path_of demo_path) demo_bt = Inl (Exec, t) \<and> ram t 0 = 0x7e \<and> ram t 2 = 0 \<and>
    ram t 0x101 = 2 \<and> ram t 0x4000 = 6"
proof -
  have c: "cmd_line demo_bt = []" "bounce demo_dev = [0x7e]" "junk demo_dev = 0"
    by (simp_all add: demo_bt_def demo_dev_def)
  from boot_loads [of demo_dev demo_bt demo_path 2 demo_kernel "0xff" 0 "0x100" "replicate 490 0"]
    demo_disk_ok demo_path_ok demo_walk demo_file demo_quiet demo_heads c
  obtain t where "boot demo_dev (path_of demo_path) demo_bt = Inl (Exec, t)"
    "ram t = poke 0x88 [0, 0] (poke 0 [0x7e, hi8 0x100, lo8 0x100] (placed demo_kernel (ram demo_bt)))"
    by (auto simp: demo_disk_eq)
  then show ?thesis by (simp add: poke_def placed_def demo_kernel_def lo8_def)
qed


lemma demo_typed: "dev_ok demo_dev" "bt_ok demo_bt"
  using demo_disk_ok by (simp_all add: dev_ok_def demo_dev_def disk_ok_def bt_ok_def demo_bt_def inode_of_def)

text \<open>A \<open>cat\<close> of a name of 31 characters, typed at the command line, writes past the end of \<open>c\<close>.\<close>

definition long_name :: bytes where
  "long_name = replicate 31 0x61"

definition typing :: "bytes \<Rightarrow> bt" where
  "typing l = demo_bt\<lparr>keys := l @ [13]\<rparr>"

lemma long_name_run: "case booter_main demo_dev 5 (typing (str ''cat '' @ long_name)) of
    Inl (e, t) \<Rightarrow> (case e of Path_overrun c \<Rightarrow> True | _ \<Rightarrow> False)
  | Inr _ \<Rightarrow> False"
  by code_simp

lemma booter_typed_witness:
  "\<exists>c t. booter_main demo_dev 5 (typing (str ''cat '' @ long_name)) = Inl (Path_overrun c, t) \<and> bt_ok t \<and> 30 < length c"
proof -
  obtain c t where r: "booter_main demo_dev 5 (typing (str ''cat '' @ long_name)) = Inl (Path_overrun c, t)"
    using long_name_run by (auto split: sum.splits bend.splits)
  have "bt_ok (typing (str ''cat '' @ long_name))" using demo_typed(2) by (simp add: typing_def)
  from booter_typed [OF demo_typed(1) this, of 5] r show ?thesis by auto
qed

lemma booter_ends_witness:
  "\<forall>t. booter_main (demo_dev\<lparr>timer := \<lambda>_. 300\<rparr>) 1 demo_bt \<noteq> Inl (Out_of_fuel, t)"
proof -
  have "ticker_runs (demo_dev\<lparr>timer := \<lambda>_. 300\<rparr>) 1" by (simp add: ticker_runs_def)
  then show ?thesis using booter_ends by blast
qed

lemma cmdline_fits_witness:
  "\<exists>t. getcmdline [] (demo_bt\<lparr>keys := [0x6c, 8, 0x6c, 1, 0x73, 13]\<rparr>) = Inr (str ''ls'', t) \<and> length (keys t) < 6"
proof -
  have "\<exists>t. getcmdline [] (demo_bt\<lparr>keys := [0x6c, 8, 0x6c, 1, 0x73, 13]\<rparr>) = Inr (str ''ls'', t)"
    by (simp add: getcmdline_def Let_def puts_def putc_def str_def)
  then obtain t where t: "getcmdline [] (demo_bt\<lparr>keys := [0x6c, 8, 0x6c, 1, 0x73, 13]\<rparr>) = Inr (str ''ls'', t)" by blast
  with cmdline_fits [OF t] show ?thesis by auto
qed

section \<open>The partition table\<close>

lemma or_parts:
  fixes a b :: "'a::len word"
  assumes "unat b < 2 ^ n" "unat a * 2 ^ n + unat b < 2 ^ LENGTH('a)"
  shows "unat (push_bit n a OR b) = unat a * 2 ^ n + unat b"
proof -
  have "take_bit n b = b"
  proof (rule unsigned_word_eqI)
    show "unat (take_bit n b) = unat b" using assms(1) by (simp add: unsigned_take_bit_eq take_bit_nat_eq_self)
  qed
  then have b: "bit b k \<Longrightarrow> k < n" for k by (metis bit_take_bit_iff)
  have "push_bit n a OR b = push_bit n a + b"
    by (rule disjunctive_add [symmetric]) (auto simp: bit_simps dest: b)
  moreover have "unat (push_bit n a) = (unat a * 2 ^ n) mod 2 ^ LENGTH('a)"
    by (simp only: unsigned_push_bit_eq) (simp only: take_bit_eq_mod push_bit_eq_mult)
  ultimately have "unat (push_bit n a OR b) = (unat a * 2 ^ n + unat b) mod 2 ^ LENGTH('a)"
    by (simp add: unat_word_ariths(1) mod_add_left_eq)
  with assms(2) show ?thesis by simp
qed

lemma swizzle_value:
  "unat (fst (swizzle32 [a, b, c, d])) = unat a + 256 * unat b + 65536 * unat c + 16777216 * unat d"
proof -
  have be: "unat (be16 x y) = unat x * 256 + unat y" for x y
    using or_parts [of "ucast y :: u16" 8 "ucast x"] unat_u8 [of x] unat_u8 [of y]
    by (simp add: be16_def unsigned_ucast_eq take_bit_nat_eq_self)
  have w: "unat (ucast (be16 x y) :: u32) = unat x * 256 + unat y" for x y
    by (simp only: unsigned_ucast_eq be [symmetric], rule take_bit_nat_eq_self)
      (rule less_trans [OF unat_u16], simp)
  have lt: "unat x * 256 + unat y < 65536" for x y :: u8 using unat_u16 [of "be16 x y"] by (simp add: be)
  have "fst (swizzle32 [a, b, c, d]) = push_bit 16 (ucast (be16 d c)) OR ucast (be16 b a)"
    by (simp add: swizzle32_def get32_def get16_def Let_def)
  moreover have "unat (push_bit 16 (ucast (be16 d c)) OR ucast (be16 b a) :: u32) =
      (unat d * 256 + unat c) * 65536 + (unat b * 256 + unat a)"
    using or_parts [of "ucast (be16 b a) :: u32" 16 "ucast (be16 d c)"] lt [of d c] lt [of b a] by (simp add: w)
  ultimately show ?thesis by simp
qed


text \<open>A partition table's entry, and the first block that it gives.\<close>

definition le32 :: "bytes \<Rightarrow> nat" where
  "le32 b = unat (b ! 0) + 256 * unat (b ! 1) + 65536 * unat (b ! 2) + 16777216 * unat (b ! 3)"

definition part_start :: "bytes \<Rightarrow> nat \<Rightarrow> nat" where
  "part_start mbr k = le32 (drop (MBR_PART_OFF + 16 * k + 8) mbr)"

lemma swizzle_le32: "4 \<le> length b \<Longrightarrow> unat (fst (swizzle32 (take 4 b))) = le32 b"
proof -
  assume "4 \<le> length b"
  then obtain w x y z r where "b = w # x # y # z # r" by (auto simp: numeral_eq_Suc Suc_le_length_iff)
  then show ?thesis by (simp add: swizzle_value le32_def)
qed

lemma lba_entry:
  assumes "1 \<le> unat minor" "unat minor < 4000"
  shows "lba_off minor = MBR_PART_OFF + 16 * (unat minor - 1) + 8"
proof -
  have m: "unat (minor - 1) = unat minor - 1" using assms(1) by (simp add: unat_sub word_le_nat_alt)
  have "of_nat MBR_PART_OFF + 16 * (minor - 1) + 8 = (of_nat (MBR_PART_OFF + 16 * unat (minor - 1) + 8) :: u16)"
    by simp
  then show ?thesis using assms m by (simp add: lba_off_def unat_of_nat MBR_PART_OFF_def del: of_nat_add)
qed

lemma mount_super_part: "mount_super dev s = Inr (False, t) \<Longrightarrow> part_offset t = part_offset s \<and> mountf t \<and> cd t = ROOT"
  by (auto simp: mount_super_def mount_bad_def Let_def split: prod.splits if_splits)

text \<open>
  A component of more than 30 characters is copied past the end of \<open>c\<close>, wherever the path leads
  otherwise, and a mount of a drive from 5 on swaps bytes behind the block buffer when the first
  block has a partition table and a partition is asked for.
\<close>

lemma dopath_overruns:
  assumes "30 < length c" "0x2f \<notin> set c" "cd s \<noteq> 0xffff"
  shows "dopath dev (c @ p) s = Inl (Path_overrun (takeWhile (\<lambda>c. c \<noteq> 0x2f) (c @ p)), s)"
proof -
  have c: "c @ p \<noteq> []" "hd (c @ p) \<noteq> 0x2f" "dropWhile (\<lambda>c. c = 0x2f) (c @ p) = c @ p"
    using assms(1,2) by (cases c; auto)+
  have "takeWhile (\<lambda>c. c \<noteq> 0x2f) (c @ p) = c @ takeWhile (\<lambda>c. c \<noteq> 0x2f) p" using assms(2) by (intro takeWhile_append2) auto
  then have "30 < length (takeWhile (\<lambda>c. c \<noteq> 0x2f) (c @ p))" using assms(1) by simp
  then show ?thesis using c assms(3) by (simp add: dopath_def dopath_loop.simps [of dev "c @ p"] Let_def)
qed

lemma mount_overruns:
  assumes "5 \<le> minor" "minor \<le> 4000" "part \<noteq> 0" "\<not> init dev (ucast minor)"
    "dev_read dev 0 (s\<lparr>drive_sel := ucast minor\<rparr>) = (False, b)" "\<not> mbr_magic b"
  shows "mount dev minor part s = Inl (Table_overrun minor, s\<lparr>drive_sel := ucast minor, buf := b\<rparr>)"
proof -
  have m: "5 \<le> unat minor" "unat minor \<le> 4000" using assms(1,2) by (simp_all add: word_le_nat_alt)
  have "unat (minor - 1) = unat minor - 1" using m by (intro unat_minus_one) auto
  then have "lba_off minor = 446 + 16 * (unat minor - 1) + 8"
    using m by (simp add: lba_off_def MBR_PART_OFF_def unat_word_ariths)
  then have "512 < lba_off minor + 4" using m by simp
  then show ?thesis using assms by (simp add: mount_def Let_def)
qed

text \<open>C37:
  Mounting a partition takes the entry of the partition table that the drive number selects,
  not the partition number: all partition numbers but 0 do the same, and when the mount succeeds
  the partition starts where entry \<open>minor - 1\<close> says.  The table is read from block 0 of the
  partition mounted before.
\<close>

theorem mount_ignores_part:
  assumes "mount dev minor part s = Inr (False, t)" and "part \<noteq> 0" and "1 \<le> unat minor" and "unat minor < 256"
    and "part' \<noteq> 0" and "dev_ok dev"
  shows "mount dev minor part' s = Inr (False, t) \<and> mountf t \<and> cd t = ROOT \<and>
    unat (part_offset t) = part_start (snd (rd dev (ucast minor) (part_offset s))) (unat minor - 1)"
proof -
  let ?s = "s\<lparr>drive_sel := ucast minor\<rparr>"
  have same: "mount dev minor part' s = mount dev minor part s"
    using assms(2,5) by (cases "dev_read dev 0 ?s") (simp add: mount_def Let_def word_greater_zero_iff)
  obtain err b where b: "dev_read dev 0 ?s = (err, b)" by (cases "dev_read dev 0 ?s")
  have mbr: "snd (rd dev (ucast minor) (part_offset s)) = b" using b by (simp add: dev_read_def)
  have len: "length b = 512" using dev_read_length [OF assms(6) b] .
  let ?k = "lba_off minor"
  obtain off c where c: "swizzle32 (take 4 (drop ?k b)) = (off, c)" by (cases "swizzle32 (take 4 (drop ?k b))")
  define u where "u = ?s\<lparr>part_offset := off, buf := take ?k b @ c @ drop (?k + 4) b\<rparr>"
  have in_buf: "?k + 4 \<le> 512" and run: "mount_super dev u = Inr (False, t)"
    using assms(1,2) b c by (auto simp: mount_def mount_bad_def Let_def u_def word_greater_zero_iff split: if_splits)
  have "part_offset t = off \<and> mountf t \<and> cd t = ROOT" using mount_super_part [OF run] by (simp add: u_def)
  moreover have "unat off = part_start b (unat minor - 1)"
    using swizzle_le32 [of "drop ?k b"] c in_buf len lba_entry [OF assms(3)] assms(4) by (simp add: part_start_def)
  ultimately show ?thesis using same assms(1) mbr by simp
qed

text \<open>A disk whose table in block 0 sends drive 1 to block 5, with a file system from there.\<close>

definition part_dev :: dev where
  "part_dev = demo_dev\<lparr>rd := \<lambda>_ b.
     (False, if b = 0 then replicate 446 0 @ replicate 8 0 @ [5, 0, 0, 0] @ replicate 52 0 @ [0x55, 0xaa]
             else if b = 6 then [0x31, 0xc6] @ replicate 510 0 else replicate 512 0)\<rparr>"

lemma part_mount: "\<exists>t. mount part_dev 1 2 demo_bt = Inr (False, t)"
proof -
  have "case mount part_dev 1 2 demo_bt of Inr (False, t) \<Rightarrow> True | _ \<Rightarrow> False" by code_simp
  then show ?thesis by (auto split: sum.splits bool.splits)
qed

lemma mount_ignores_part_witness: "\<exists>t. mount part_dev 1 3 demo_bt = Inr (False, t) \<and> mountf t \<and> unat (part_offset t) = 5"
proof -
  from part_mount obtain t where t: "mount part_dev 1 2 demo_bt = Inr (False, t)" by blast
  have "dev_ok part_dev" by (simp add: dev_ok_def part_dev_def demo_dev_def)
  moreover have "part_start (snd (rd part_dev 1 (part_offset demo_bt))) 0 = 5"
    by (simp add: part_start_def part_dev_def demo_bt_def le32_def MBR_PART_OFF_def nth_append)
  ultimately show ?thesis using mount_ignores_part [OF t, of 3] by (intro exI [of _ t]) simp
qed

section \<open>Kernels that are rejected\<close>

text \<open>
  A section header that crosses the border of a block makes the loader give up: with fewer than
  five bytes left in the data buffer, the read is short, and the error is \<open>SHORT READ OF KERNEL
  FILE\<close>, whatever follows.
\<close>

theorem header_crossing:
  assumes "file_ok dev s" and "epos s \<le> 274" and "disk_ok (disk dev s)" and "0 < left s" and "left s < 5"
  shows "\<exists>t. sections dev (Suc k) s = Inr (True, t) \<and>
    screen t = screen s @ str ''ERROR 0X03'' @ [13] @ str ''SHORT READ OF KERNEL FILE'' @ [13]"
proof -
  have "(0::nat) < 5" by simp
  from iread_ok [OF assms(1-3) this] obtain b t where t: "iread dev 5 s = Inr (Some b, t)" "core t = core s"
    "length b = min 5 (chunk s)" by blast
  have "length b \<noteq> 5" using t(3) assms(4,5) by (simp add: chunk_def)
  moreover have "screen t = screen s" using core_fields(5) [OF t(2)] .
  ultimately show ?thesis
    using t(1) by (simp add: fail_def error_def err_tab_def putb_def putn_def putc_def puts_def str_def Let_def)
qed

text \<open>The kernel file of the disk, four bytes before the end of its block.\<close>

definition demo_crossing :: bt where
  "demo_crossing = (iopen demo_dev 2 demo_bt)\<lparr>left := 4, bpos := 508, spos := 1, dbuf := replicate 512 0\<rparr>"

lemma demo_crossing_ok: "file_ok demo_dev demo_crossing" "epos demo_crossing = 1" "disk_ok (disk demo_dev demo_crossing)"
  "left demo_crossing = 4"
proof -
  define x where "x = iopen demo_dev 2 demo_bt"
  have e: "epos x = 1" unfolding x_def by code_simp
  have x: "file_ok demo_dev x" "core x = core demo_bt" using iopen_ok [of demo_dev 2 demo_bt] by (simp_all add: x_def)
  have c: "demo_crossing = x\<lparr>left := 4, bpos := 508, spos := 1, dbuf := replicate 512 0\<rparr>"
    by (simp add: demo_crossing_def x_def)
  show "file_ok demo_dev demo_crossing" "epos demo_crossing = 1" "left demo_crossing = 4"
    using x(1) e by (simp_all add: c file_ok_def)
  show "disk_ok (disk demo_dev demo_crossing)" using demo_disk_ok core_disk [OF x(2)] by (simp add: c demo_disk_eq)
qed

lemma header_crossing_witness: "\<exists>t. sections demo_dev (Suc 0) demo_crossing = Inr (True, t) \<and> screen t \<noteq> []"
  using header_crossing [of demo_dev demo_crossing 0] demo_crossing_ok by (auto simp del: sections.simps)

section \<open>The boot file's parameters\<close>

text \<open>
  A boot file without a drive behind its name is read through a null pointer: the first \<open>strtok\<close>
  leaves nothing, and the second one looks at it.
\<close>

theorem boot_needs_drive:
  assumes "boot_file s \<noteq> []" and "32 \<notin> set (boot_file s)"
  shows "\<exists>t. again dev (Suc k) s = Inl (Null_read, t)"
proof -
  define u where "u = boot_show s"
  have u: "boot_file u = boot_file s" by (simp add: u_def boot_show_def puts_def putc_def)
  have "takeWhile (\<lambda>c. c = 32) (boot_file s) = []" "dropWhile (\<lambda>c. c = 32) (boot_file s) = boot_file s"
    "takeWhile (\<lambda>c. c \<noteq> 32) (boot_file s) = boot_file s" "dropWhile (\<lambda>c. c \<noteq> 32) (boot_file s) = []"
    using assms by (cases "boot_file s"; auto)+
  then have tok: "strtok (Some (boot_file u)) u = Inr (Some (boot_file s), u\<lparr>rest := None\<rparr>)"
    using assms u by (simp add: strtok_def Let_def)
  have "strtok None (u\<lparr>rest := None, boot_file := boot_file s\<rparr>) = Inl (Null_read, u\<lparr>rest := None, boot_file := boot_file s\<rparr>)"
    by (simp add: strtok_def)
  with tok have "\<exists>t. boot_params u = Inl (Null_read, t)" by (simp add: boot_params_def Let_def)
  then show ?thesis by (auto simp: u_def)
qed

lemma boot_needs_drive_witness: "\<exists>t. again demo_dev (Suc 1) (demo_bt\<lparr>boot_file := str ''k''\<rparr>) = Inl (Null_read, t)"
proof -
  have "boot_file (demo_bt\<lparr>boot_file := str ''k''\<rparr>) = [0x6b]" by (simp add: str_def)
  moreover have "32 \<notin> set [0x6b :: u8]" by simp
  ultimately show ?thesis using boot_needs_drive [of "demo_bt\<lparr>boot_file := str ''k''\<rparr>" demo_dev 1] by simp
qed

end
