(* ===== verification/Dw.thy ===== *)
theory Dw
  imports Prelude
begin

text \<open>
  \<open>booter/dw.c\<close>, the boot loader's DriveWire driver.  The transaction \<open>dw_trans\<close> is assembly
  (\<open>dw_ll.s\<close>): it sends some bytes and waits for others.  It is the parameter \<open>tr\<close>, a function
  of what is on the line: it gives a return value that is 0 when all bytes have arrived, those
  that have, and the sum that it leaves in \<open>dw_cksum\<close>.
\<close>

type_synonym 'l trans = "bytes \<Rightarrow> nat \<Rightarrow> 'l \<Rightarrow> (u16 \<times> bytes \<times> u16) \<times> 'l"

record 'l dw =
  b2 :: bytes
  dtype :: u8
  dw_cksum :: u16
  wire :: 'l

definition b1 :: bytes where "b1 = [0x5a, 0x00]"

text \<open>What has arrived goes to the front of the buffer.\<close>

definition into :: "bytes \<Rightarrow> bytes \<Rightarrow> bytes" where
  "into buf got = got @ drop (length got) buf"

definition dw_trans :: "'l trans \<Rightarrow> bytes \<Rightarrow> nat \<Rightarrow> bytes \<Rightarrow> 'l dw \<Rightarrow> u16 \<times> bytes \<times> 'l dw" where
  "dw_trans tr req n buf s =
     (case tr req n (wire s) of ((ret, got, ck), l) \<Rightarrow>
        (ret, into buf got, s\<lparr>dw_cksum := ck, wire := l\<rparr>))"

definition dw_init :: "'l trans \<Rightarrow> u8 \<Rightarrow> 'l dw \<Rightarrow> u16 \<times> 'l dw" where
  "dw_init tr drive_no s =
     (let s = s\<lparr>b2 := (b2 s)[1 := drive_no]\<rparr> in
      case dw_trans tr b1 1 [dtype s] s of (ret, t, s) \<Rightarrow> (ret, s\<lparr>dtype := hd t\<rparr>))"

text \<open>\<open>read\<close>: the request in \<open>b2\<close>, the sector, then its sum and the server's verdict in \<open>b2[4]\<close>.\<close>

definition dw_sector :: "'l trans \<Rightarrow> bytes \<Rightarrow> u32 \<Rightarrow> 'l dw \<Rightarrow> u16 \<times> bytes \<times> 'l dw" where
  "dw_sector tr b blk s =
     (let s = s\<lparr>b2 := (b2 s)[4 := ucast (blk AND 0xff)]\<rparr>; blk = drop_bit 8 blk;
          s = s\<lparr>b2 := (b2 s)[3 := ucast (blk AND 0xff)]\<rparr>; blk = drop_bit 8 blk;
          s = s\<lparr>b2 := (b2 s)[2 := ucast blk]\<rparr>
      in case dw_trans tr (b2 s) 256 b s of (ret, b, s) \<Rightarrow>
         case dw_trans tr [hi8 (dw_cksum s), lo8 (dw_cksum s)] 1 [b2 s ! 4] s of (ret', v, s) \<Rightarrow>
           let s = s\<lparr>b2 := (b2 s)[4 := hd v]\<rparr>
           in (ret OR ret' OR scast (b2 s ! 4), b, s))"

definition dw_read :: "'l trans \<Rightarrow> bytes \<Rightarrow> u32 \<Rightarrow> 'l dw \<Rightarrow> u16 \<times> bytes \<times> 'l dw" where
  "dw_read tr b blk s =
     (if blk AND 0xff800000 \<noteq> 0 then (- 1, b, s)
      else
        let blk = blk * 2 in
        case dw_sector tr (take 256 b) blk s of (ret, c, s) \<Rightarrow>
          if ret \<noteq> 0 then (- 1, c @ drop 256 b, s)
          else case dw_sector tr (drop 256 b) (blk + 1) s of (ret, d, s) \<Rightarrow> (ret, c @ d, s))"

end
