(* ===== verification/Dw_Server.thy ===== *)
theory Dw_Server
  imports Dw Lwwire_Spec
begin

text \<open>
  The boot loader's driver over the disk server of \<open>lwwire.c\<close>: the two programs connected by a
  line without loss.  What the server has sent is a function of what the driver has sent so far,
  so the driver's transactions are computed by running the server's main loop on that.
\<close>

section \<open>The line between the two programs\<close>

text \<open>All that the server \<open>s0\<close> sends when it has got the bytes \<open>h\<close>.\<close>

definition replies :: "'x lw \<Rightarrow> bytes \<Rightarrow> bytes" where
  "replies s0 h = sent (trace (snd (main_loop (s0\<lparr>input := [Data h]\<rparr>))))"

text \<open>
  The state of the line is what the driver has sent and the number of bytes that it has taken of
  the replies.  A transaction that gets fewer bytes than it waits for returns 4, the flag that
  \<open>dw_ll.s\<close> turns around.
\<close>

definition server_trans :: "'x lw \<Rightarrow> (bytes \<times> nat) trans" where
  "server_trans s0 req n l =
     (case l of (h, k) \<Rightarrow>
        let got = take n (drop k (replies s0 (h @ req)))
        in ((if length got = n then 0 else 4, got, checksum got), (h @ req, k + length got)))"

text \<open>
  Between two requests: the server has taken all of \<open>h\<close>, the driver all of the replies, and the
  server can still serve the drive.
\<close>

definition synced :: "'x lw \<Rightarrow> u8 \<Rightarrow> bytes \<Rightarrow> bytes \<times> nat \<Rightarrow> bool" where
  "synced s0 dn f l \<longleftrightarrow> (case l of (h, k) \<Rightarrow>
     \<forall>r. \<exists>t. main_loop (s0\<lparr>input := [Data (h @ r)]\<rparr>) = main_loop t \<and> avail (input t) = r \<and>
       length (sent (trace t)) = k \<and> ready dn f t \<and> line_ok t \<and> calm (input t))"

lemma synced_start:
  assumes "ready dn f s0" "line_ok s0" "trace s0 = []"
  shows "synced s0 dn f ([], 0)"
  unfolding synced_def prod.case
proof
  fix r
  show "\<exists>t. main_loop (s0\<lparr>input := [Data ([] @ r)]\<rparr>) = main_loop t \<and> avail (input t) = r \<and>
       length (sent (trace t)) = 0 \<and> ready dn f t \<and> line_ok t \<and> calm (input t)"
    by (rule exI [of _ "s0\<lparr>input := [Data r]\<rparr>"]) (use assms in \<open>simp add: calm_def\<close>)
qed

section \<open>A READEX request in two parts\<close>

text \<open>The first part is answered by the sector, and the server waits for the rest.\<close>

lemma main_loop_step:
  assumes "avail (input s) = c # r" "calm (input s)"
  shows "\<exists>es. avail es = r \<and> calm es \<and>
    main_loop s = (case dispatch c (s\<lparr>input := es\<rparr>) of Inl e \<Rightarrow> e | Inr (_, t) \<Rightarrow> main_loop t)"
proof -
  from readdata_got [of s "[c]" r 1] assms(1) obtain es where
    es: "readdata 1 s = (1, [c], s\<lparr>input := es\<rparr>)" "avail es = r" by auto
  have "calm es" using readdata_calm [OF es(1) assms(2)] by simp
  moreover have "main_loop s = (case dispatch c (s\<lparr>input := es\<rparr>) of Inl e \<Rightarrow> e | Inr (_, t) \<Rightarrow> main_loop t)"
    by (subst main_loop.simps) (simp add: es(1) del: One_nat_def)
  ultimately show ?thesis using es(2) by blast
qed

lemma readex_sector:
  assumes "ready dn f s" "line_ok s" "unat lsn < 0x800000" "avail (input s) = 0xd2 # dn # lsn_bytes lsn"
    and "calm (input s)"
  shows "sent (trace (snd (main_loop s))) = sent (trace s) @ sector_at f (256 * unat lsn)"
proof -
  let ?q = "dn # lsn_bytes lsn" and ?b = "sector_at f (256 * unat lsn)"
  from main_loop_step [OF assms(4,5)] obtain es where
    es: "avail es = ?q" "calm es" "main_loop s =
      (case dispatch 0xd2 (s\<lparr>input := es\<rparr>) of Inl e \<Rightarrow> e | Inr (_, t) \<Rightarrow> main_loop t)" by blast
  from read2_got [of "s\<lparr>input := es\<rparr>" ?q "[]" 4] es(1) obtain es' where
    es': "read2 4 (s\<lparr>input := es\<rparr>) = Inr (Some ?q, s\<lparr>input := es'\<rparr>)" "avail es' = []"
    by (auto simp: lsn_bytes_def)
  have c: "calm es'" using read2_calm [OF es'(1)] es(2) by simp
  let ?s = "opened dn (s\<lparr>input := es'\<rparr>)"
  have rd: "ready dn f (s\<lparr>input := es'\<rparr>)" using assms(1) by simp
  have low: "low_lsn lsn" using assms(3) by (simp add: low_lsn_def)
  have l: "lsn_of ?q = lsn" using lsn_of_bytes [of lsn dn "[]"] assms(3) by simp
  have fs: "fetch_sector dn lsn (s\<lparr>input := es'\<rparr>) = (0, ?b, ?s)"
    using fetch_sector_ready [OF rd low_offset(1) [OF low]] low_offset(2) [OF low] by simp
  have "line_ok ?s" using assms(2) by simp
  from write_ok [OF this, of ?b] obtain t1 where t1: "lwwire_write ?b ?s = Inr ((), t1)" "replied ?b ?s t1" by blast
  note d1 = repliedD [OF t1(2)]
  have "input t1 = es'" using d1(5) by (simp add: line_sectorD)
  with read2_end [of t1 2] c es'(2) obtain t where t: "read2 2 t1 = Inl (Exit 0, t)" "trace t = trace t1" by auto
  have "dispatch 0xd2 (s\<lparr>input := es\<rparr>) = Inl (Exit 0, t)"
    by (simp add: dispatch_def proto_readex_def es'(1) l fs t1(1) t(1))
  then have "snd (main_loop s) = t" using es(3) by simp
  then show ?thesis using t(2) d1(2) by (simp add: line_sectorD)
qed

lemma readex_all:
  assumes "ready dn f s" "line_ok s" "unat lsn < 0x800000" "c = checksum (sector_at f (256 * unat lsn))"
    and "avail (input s) = 0xd2 # dn # lsn_bytes lsn @ [hi8 c, lo8 c] @ r" "calm (input s)"
  shows "\<exists>t. main_loop s = main_loop t \<and> avail (input t) = r \<and> ready dn f t \<and> line_ok t \<and> calm (input t) \<and>
    sent (trace t) = sent (trace s) @ sector_at f (256 * unat lsn) @ [0]"
proof -
  from main_loop_step [OF assms(5,6)] obtain es where
    es: "avail es = dn # lsn_bytes lsn @ [hi8 c, lo8 c] @ r" "calm es" "main_loop s =
      (case dispatch 0xd2 (s\<lparr>input := es\<rparr>) of Inl e \<Rightarrow> e | Inr (_, t) \<Rightarrow> main_loop t)" by blast
  from proto_readex_ok [of dn f "s\<lparr>input := es\<rparr>" lsn "hi8 c" "lo8 c" r] assms(1-4) es(1,2) obtain t
    where "proto_readex (s\<lparr>input := es\<rparr>) = Inr ((), t)" "avail (input t) = r \<and> ready dn f t \<and> line_ok t \<and> calm (input t)"
      "sent (trace t) = sent (trace s) @ sector_at f (256 * unat lsn) @ [0]" by auto
  with es(3) show ?thesis by (auto simp: dispatch_def)
qed

section \<open>The driver's sectors\<close>

text \<open>One sector: the request, its sum, and the verdict 0.\<close>

lemma low_byte: "ucast (w AND 0xff) = (ucast w :: u8)" for w :: u32
proof -
  have "w AND 0xff = take_bit 8 w" by (simp add: take_bit_eq_mask mask_eq_exp_minus_1)
  then show ?thesis by (auto intro!: bit_word_eqI simp: bit_simps)
qed

lemma dw_sector_ok:
  assumes sy: "synced s0 dn f (wire s)" and b: "length (b2 s) = 5" "b2 s ! 0 = 0xd2" "b2 s ! 1 = dn"
    and "unat lsn < 0x800000" "length buf = 256"
  shows "\<exists>t. dw_sector (server_trans s0) buf lsn s = (0, sector_at f (256 * unat lsn), t) \<and>
    synced s0 dn f (wire t) \<and> length (b2 t) = 5 \<and> b2 t ! 0 = 0xd2 \<and> b2 t ! 1 = dn"
proof -
  let ?b = "sector_at f (256 * unat lsn)"
  obtain h k where w: "wire s = (h, k)" by (cases "wire s")
  define req where "req = 0xd2 # dn # lsn_bytes lsn"
  define c where "c = checksum ?b"
  have one: "\<exists>t. main_loop (s0\<lparr>input := [Data (h @ r)]\<rparr>) = main_loop t \<and> avail (input t) = r \<and>
       length (sent (trace t)) = k \<and> ready dn f t \<and> line_ok t \<and> calm (input t)" for r
    using sy w by (simp add: synced_def)
  have r1: "drop k (replies s0 (h @ req)) = ?b"
  proof -
    from one [of req] obtain t where "main_loop (s0\<lparr>input := [Data (h @ req)]\<rparr>) = main_loop t" "avail (input t) = req"
      "length (sent (trace t)) = k" "ready dn f t" "line_ok t" "calm (input t)" by blast
    with readex_sector [of dn f t lsn] assms(5) show ?thesis by (simp add: replies_def req_def)
  qed
  have two: "\<exists>t. main_loop (s0\<lparr>input := [Data ((h @ req @ [hi8 c, lo8 c]) @ r)]\<rparr>) = main_loop t \<and> avail (input t) = r \<and>
      ready dn f t \<and> line_ok t \<and> calm (input t) \<and> length (sent (trace t)) = k + 257 \<and> (\<exists>p. sent (trace t) = p @ [0] \<and> length p = k + 256)" for r
  proof -
    from one [of "req @ [hi8 c, lo8 c] @ r"] obtain t where t: "main_loop (s0\<lparr>input := [Data (h @ req @ [hi8 c, lo8 c] @ r)]\<rparr>) = main_loop t"
      "avail (input t) = req @ [hi8 c, lo8 c] @ r" "length (sent (trace t)) = k" "ready dn f t" "line_ok t" "calm (input t)" by blast
    have "avail (input t) = 0xd2 # dn # lsn_bytes lsn @ [hi8 c, lo8 c] @ r" using t(2) by (simp add: req_def)
    from readex_all [OF t(4,5) assms(5) c_def this t(6)] obtain u where
      u: "main_loop t = main_loop u" "avail (input u) = r" "ready dn f u" "line_ok u" "calm (input u)"
        "sent (trace u) = sent (trace t) @ ?b @ [0]" by blast
    have "sent (trace u) = (sent (trace t) @ ?b) @ [0] \<and> length (sent (trace t) @ ?b) = k + 256" using u(6) t(3) by simp
    with t(1) u show ?thesis by (intro exI [of _ u]) auto
  qed
  have r2: "drop (k + 256) (replies s0 ((h @ req) @ [hi8 c, lo8 c])) = [0]"
  proof -
    from two [of "[]"] obtain t p where t: "main_loop (s0\<lparr>input := [Data (h @ req @ [hi8 c, lo8 c])]\<rparr>) = main_loop t"
      "avail (input t) = []" "calm (input t)" "sent (trace t) = p @ [0]" "length p = k + 256" by auto
    have "sent (trace (snd (main_loop t))) = sent (trace t)"
    proof -
      from read_loop_end [OF t(3), of 1] t(2) obtain x es where "read_loop (input t) 1 = (End, x, es)" by auto
      then show ?thesis by (subst main_loop.simps) (simp add: readdata_def)
    qed
    then show ?thesis using t by (simp add: replies_def)
  qed
  have tr: "server_trans s0 req 256 (h, k) = ((0, ?b, c), (h @ req, k + 256))"
    "server_trans s0 [hi8 c, lo8 c] 1 (h @ req, k + 256) = ((0, [0], checksum [0]), ((h @ req) @ [hi8 c, lo8 c], k + 257))"
    unfolding server_trans_def prod.case Let_def r1 r2 by (simp_all add: c_def)
  define s1 where "s1 = s\<lparr>b2 := req\<rparr>"
  define t where "t = s1\<lparr>dw_cksum := checksum [0], wire := ((h @ req) @ [hi8 c, lo8 c], k + 257), b2 := req[4 := 0]\<rparr>"
  obtain x y z where b2: "b2 s = [0xd2, dn, x, y, z]"
  proof -
    from b(1) obtain v w x y z where "b2 s = [v, w, x, y, z]" by (auto simp: numeral_eq_Suc length_Suc_conv)
    with b that show ?thesis by simp
  qed
  have "(b2 s)[4 := ucast (lsn AND 0xff), 3 := ucast (drop_bit 8 lsn AND 0xff), 2 := ucast (drop_bit 8 (drop_bit 8 lsn))] = req"
    by (simp add: b2 req_def lsn_bytes_def low_byte)
  then have "dw_sector (server_trans s0) buf lsn s = (0, ?b, t)"
    using assms(6) tr w by (simp add: dw_sector_def dw_trans_def Let_def into_def s1_def t_def) (simp add: req_def lsn_bytes_def)
  moreover have "synced s0 dn f (wire t)"
  proof -
    have "\<exists>t. main_loop (s0\<lparr>input := [Data ((h @ req @ [hi8 c, lo8 c]) @ r)]\<rparr>) = main_loop t \<and> avail (input t) = r \<and>
       length (sent (trace t)) = k + 257 \<and> ready dn f t \<and> line_ok t \<and> calm (input t)" for r
      using two [of r] by blast
    then show ?thesis by (simp add: synced_def t_def)
  qed
  moreover have "length (b2 t) = 5" "b2 t ! 0 = 0xd2" "b2 t ! 1 = dn" by (simp_all add: t_def req_def lsn_bytes_def)
  ultimately show ?thesis by blast
qed

section \<open>Blocks\<close>

text \<open>A block of the image, as the two sectors that the driver asks for.\<close>

definition image_block :: "bytes \<Rightarrow> u32 \<Rightarrow> bytes" where
  "image_block f blk = sector_at f (512 * unat blk) @ sector_at f (256 + 512 * unat blk)"

lemma low_block:
  fixes blk :: u32
  assumes "unat blk < 0x400000"
  shows "blk AND 0xff800000 = 0" "unat (blk * 2) = 2 * unat blk" "unat (blk * 2 + 1) = 2 * unat blk + 1"
proof -
  have "take_bit 22 blk = blk"
  proof (rule unsigned_word_eqI)
    show "unat (take_bit 22 blk) = unat blk" using assms by (simp add: unsigned_take_bit_eq take_bit_nat_eq_self)
  qed
  then have "bit blk n \<Longrightarrow> n < 22" for n by (metis bit_take_bit_iff)
  moreover have "\<not> bit (0xff800000 :: u32) n" if "n < 22" for n
  proof -
    have "(0xff800000 :: u32) = push_bit 23 0x1ff" by simp
    then show ?thesis using that by (simp only: bit_push_bit_iff) simp
  qed
  ultimately show "blk AND 0xff800000 = 0" by (intro bit_word_eqI) (auto simp: bit_simps)
  have "unat (blk * 2) = (unat blk * 2) mod 4294967296" by (simp add: unat_word_ariths)
  then show e: "unat (blk * 2) = 2 * unat blk" using assms by simp
  have "unat (blk * 2 + 1) = (unat (blk * 2) + 1) mod 4294967296" by (simp add: unat_word_ariths(1))
  then show "unat (blk * 2 + 1) = 2 * unat blk + 1" using assms e by simp
qed

lemma dw_read_ok:
  assumes "synced s0 dn f (wire s)" "length (b2 s) = 5" "b2 s ! 0 = 0xd2" "b2 s ! 1 = dn"
    and "unat blk < 0x400000" "length buf = 512"
  shows "\<exists>t. dw_read (server_trans s0) buf blk s = (0, image_block f blk, t) \<and>
    synced s0 dn f (wire t) \<and> length (b2 t) = 5 \<and> b2 t ! 0 = 0xd2 \<and> b2 t ! 1 = dn"
proof -
  note lb = low_block [OF assms(5)]
  have n: "unat (blk * 2) < 0x800000" "unat (blk * 2 + 1) < 0x800000" using lb(2,3) assms(5) by linarith+
  have l: "length (take 256 buf) = 256" "length (drop 256 buf) = 256" using assms(6) by simp_all
  from dw_sector_ok [OF assms(1-4) n(1) l(1)] obtain u where
    u: "dw_sector (server_trans s0) (take 256 buf) (blk * 2) s = (0, sector_at f (256 * unat (blk * 2)), u)"
      "synced s0 dn f (wire u)" "length (b2 u) = 5" "b2 u ! 0 = 0xd2" "b2 u ! 1 = dn" by blast
  from dw_sector_ok [OF u(2-5) n(2) l(2)] obtain t where
    t: "dw_sector (server_trans s0) (drop 256 buf) (blk * 2 + 1) u = (0, sector_at f (256 * unat (blk * 2 + 1)), t)"
      "synced s0 dn f (wire t)" "length (b2 t) = 5" "b2 t ! 0 = 0xd2" "b2 t ! 1 = dn" by blast
  have "dw_read (server_trans s0) buf blk s = (0, image_block f blk, t)"
    unfolding dw_read_def using lb(1) u(1) t(1) by (simp add: Let_def image_block_def lb(2,3))
  with t show ?thesis by blast
qed

section \<open>A session\<close>

lemma reset_one_frame: "reset_one e s = Inr (u, t) \<Longrightarrow> t = s\<lparr>exts := exts t, xst := xst t\<rparr>"
  by (auto simp: reset_one_def res_simps split: option.splits)

lemma reset_from_frame: "reset_from i n s = Inr (u, t) \<Longrightarrow> t = s\<lparr>exts := exts t, xst := xst t\<rparr>"
proof (induction n arbitrary: i s)
  case (Suc n)
  then obtain s1 where s1: "reset_one (of_nat i) s = Inr ((), s1)" "reset_from (Suc i) n s1 = Inr (u, t)"
    by (auto simp: res_simps)
  from Suc.IH [OF s1(2)] have "t = s1\<lparr>exts := exts t, xst := xst t\<rparr>" .
  also have "\<dots> = s\<lparr>exts := exts t, xst := xst t\<rparr>" by (subst reset_one_frame [OF s1(1)]) simp
  finally show ?case .
qed simp

text \<open>The first request: the server resets its extensions and answers with its type.\<close>

lemma dwinit_served:
  assumes "ready dn f s" "line_ok s" "resettable s" "avail (input s) = 0x5a # 0 # r" "calm (input s)"
  shows "\<exists>t. main_loop s = main_loop t \<and> avail (input t) = r \<and> ready dn f t \<and> line_ok t \<and> calm (input t) \<and>
    sent (trace t) = sent (trace s) @ [0x80]"
proof -
  from main_loop_step [OF assms(4,5)] obtain es where
    es: "avail es = 0 # r" "calm es" "main_loop s =
      (case dispatch 0x5a (s\<lparr>input := es\<rparr>) of Inl e \<Rightarrow> e | Inr (_, t) \<Rightarrow> main_loop t)" by blast
  have "resettable (s\<lparr>input := es\<rparr>)" using assms(3) by (simp add: resettable_def)
  from reset_ok [OF this] obtain u where u: "reset (s\<lparr>input := es\<rparr>) = Inr ((), u)" by blast
  then have ue: "u = s\<lparr>input := es, exts := exts u, xst := xst u\<rparr>"
    using reset_from_frame [of 0 256 "s\<lparr>input := es\<rparr>" "()" u] by (simp add: reset_def)
  have uf: "ready dn f u" "line_ok u" "input u = es" "trace u = trace s"
    using assms(1,2) by (subst ue, simp add: ready_def line_ok_def)+
  from read2_got [of u "[0]" r 1] es(1) uf(3) obtain es' where
    es': "read2 1 u = Inr (Some [0], u\<lparr>input := es'\<rparr>)" "avail es' = r" by auto
  have c: "calm es'" using read2_calm [OF es'(1)] es(2) uf(3) by simp
  from write_ok [of "u\<lparr>input := es'\<rparr>" "[0x80]"] uf(2) obtain t where
    t: "lwwire_write [0x80] (u\<lparr>input := es'\<rparr>) = Inr ((), t)" "replied [0x80] (u\<lparr>input := es'\<rparr>) t" by auto
  have "dispatch 0x5a (s\<lparr>input := es\<rparr>) = Inr ((), t)"
    using u es'(1) t(1) by (simp add: dispatch_def op_dwinit_def)
  with es(3) repliedD [OF t(2)] es'(2) c uf(1,4) show ?thesis by (intro exI [of _ t]) simp
qed

definition dw_start :: "(bytes \<times> nat) dw" where
  "dw_start = \<lparr>b2 = [0xd2, 0, 0, 0, 0], dtype = 0, dw_cksum = 0, wire = ([], 0)\<rparr>"

lemma dw_init_ok:
  assumes "ready dn f s0" "line_ok s0" "resettable s0" "trace s0 = []"
  shows "\<exists>t. dw_init (server_trans s0) dn dw_start = (0, t) \<and> synced s0 dn f (wire t) \<and> dtype t = 0x80 \<and>
    length (b2 t) = 5 \<and> b2 t ! 0 = 0xd2 \<and> b2 t ! 1 = dn"
proof -
  have two: "\<exists>t. main_loop (s0\<lparr>input := [Data ([0x5a, 0] @ r)]\<rparr>) = main_loop t \<and> avail (input t) = r \<and>
      sent (trace t) = [0x80] \<and> ready dn f t \<and> line_ok t \<and> calm (input t)" for r
    using dwinit_served [of dn f "s0\<lparr>input := [Data ([0x5a, 0] @ r)]\<rparr>" r] assms
    by (simp add: resettable_def calm_def) blast
  have r: "replies s0 [0x5a, 0] = [0x80]"
  proof -
    from two [of "[]"] obtain t where t: "main_loop (s0\<lparr>input := [Data [0x5a, 0]]\<rparr>) = main_loop t"
      "avail (input t) = []" "calm (input t)" "sent (trace t) = [0x80]" by auto
    from read_loop_end [OF t(3), of 1] t(2) obtain x es where "read_loop (input t) 1 = (End, x, es)" by auto
    then have "sent (trace (snd (main_loop t))) = sent (trace t)" by (subst main_loop.simps) (simp add: readdata_def)
    with t show ?thesis by (simp add: replies_def)
  qed
  have "synced s0 dn f ([0x5a, 0], 1)"
  proof -
    have "\<exists>t. main_loop (s0\<lparr>input := [Data ([0x5a, 0] @ r)]\<rparr>) = main_loop t \<and> avail (input t) = r \<and>
      length (sent (trace t)) = 1 \<and> ready dn f t \<and> line_ok t \<and> calm (input t)" for r
      using two [of r] by auto
    then show ?thesis by (simp add: synced_def)
  qed
  then show ?thesis by (simp add: dw_init_def dw_trans_def dw_start_def server_trans_def b1_def r Let_def into_def)
qed

text \<open>The results of a sequence of reads into fresh buffers.\<close>

fun dw_reads :: "'l trans \<Rightarrow> u32 list \<Rightarrow> 'l dw \<Rightarrow> (u16 \<times> bytes) list" where
  "dw_reads tr [] s = []"
| "dw_reads tr (blk # blks) s =
     (case dw_read tr (replicate 512 0) blk s of (ret, b, s) \<Rightarrow> (ret, b) # dw_reads tr blks s)"

lemma dw_reads_ok:
  assumes "synced s0 dn f (wire s)" "length (b2 s) = 5" "b2 s ! 0 = 0xd2" "b2 s ! 1 = dn"
    and "\<forall>blk \<in> set blks. unat blk < 0x400000"
  shows "dw_reads (server_trans s0) blks s = map (\<lambda>blk. (0, image_block f blk)) blks"
  using assms
proof (induction blks arbitrary: s)
  case (Cons blk blks)
  then have "unat blk < 0x400000" by simp
  from dw_read_ok [OF Cons.prems(1-4) this, of "replicate 512 0"] obtain t where
    "dw_read (server_trans s0) (replicate 512 0) blk s = (0, image_block f blk, t)"
    "synced s0 dn f (wire t)" "length (b2 t) = 5" "b2 t ! 0 = 0xd2" "b2 t ! 1 = dn" by auto
  with Cons show ?case by simp
qed simp

text \<open>C9:
  The boot loader's driver and the disk server understand each other: over a line without loss,
  a server whose drive has an image answers the driver's first request, and then every sequence
  of reads gives the driver the blocks of the image (with zeros behind its end) without an error,
  whatever was read before.  The blocks are those that the server can seek to, below 0x400000.
\<close>

theorem dw_session:
  assumes "ready dn f s0" and "line_ok s0" and "resettable s0" and "trace s0 = []"
    and "\<forall>blk \<in> set blks. unat blk < 0x400000"
  shows "case dw_init (server_trans s0) dn dw_start of (ret, s) \<Rightarrow>
    ret = 0 \<and> dtype s = 0x80 \<and> dw_reads (server_trans s0) blks s = map (\<lambda>blk. (0, image_block f blk)) blks"
proof -
  from dw_init_ok [OF assms(1-4)] obtain t where t: "dw_init (server_trans s0) dn dw_start = (0, t)"
    "synced s0 dn f (wire t)" "dtype t = 0x80" "length (b2 t) = 5" "b2 t ! 0 = 0xd2" "b2 t ! 1 = dn" by blast
  with dw_reads_ok [OF t(2,4,5,6) assms(5)] show ?thesis by simp
qed

lemma dw_session_witness:
  "case dw_init (server_trans (demo_lw [])) 1 dw_start of (ret, s) \<Rightarrow>
    map fst (dw_reads (server_trans (demo_lw [])) [0, 7] s) = [0, 0]"
proof -
  have "resettable (demo_lw [])" by (simp add: resettable_def demo_lw_def)
  with dw_session [of 1 "[1, 2, 3]" "demo_lw []" "[0, 7]"] demo_lw_ok show ?thesis
    by (simp add: case_prod_unfold)
qed

end
