(* ===== verification/Detoken.thy ===== *)
theory Detoken
  imports Cstring
begin

text \<open>
  \<open>decb/detoken.c\<close>: it lists BASIC programs that the Color Computer has saved in their binary
  form, and copies files that are not in that form.  It goes through its input twice, the first
  time without printing.
\<close>

section \<open>Tokens\<close>

definition tokens :: "string list" where
  "tokens = [
    ''FOR'', ''GO'', ''REM'', [CHR 0x27], ''ELSE'', ''IF'', ''DATA'', ''PRINT'', ''ON'', ''INPUT'',
    ''END'', ''NEXT'', ''DIM'', ''READ'', ''RUN'', ''RESTOR'', ''RETURN'', ''STOP'', ''POKE'',
    ''CONT'', ''LIST'', ''CLEAR'', ''NEW'', ''CLOAD'', ''CSAVE'', ''OPEN'', ''CLOSE'', ''LLIST'',
    ''SET'', ''RESET'', ''CLS'', ''MOTOR'', ''SOUND'', ''AUDIO'', ''EXEC'', ''SKIPF'', ''TAB('',
    ''TO'', ''SUB'', ''THEN'', ''NOT'', ''STEP'', ''OFF'', ''+'', ''-'', ''*'', ''/'', ''^'',
    ''AND'', ''OR'', ''>'', ''='', ''<'', ''DEL'', ''EDIT'', ''TRON'', ''TROF'', ''DEF'', ''LET'',
    ''LINE'', ''PCLS'', ''PSET'', ''PRESET'', ''SCREEN'', ''PCLEAR'', ''COLOR'', ''CIRCLE'',
    ''PAINT'', ''GET'', ''PUT'', ''DRAW'', ''PCOPY'', ''PMODE'', ''PLAY'', ''DLOAD'', ''RENUM'',
    ''FN'', ''USING'', ''DIR'', ''DRIVE'', ''FIELD'', ''FILES'', ''KILL'', ''LOAD'', ''LSET'',
    ''MERGE'', ''RENAME'', ''RSET'', ''SAVE'', ''WRITE'', ''VERIFY'', ''UNLOAD'', ''DSKINI'',
    ''BACKUP'', ''COPY'', ''DSKI$'', ''DSKO$'', ''DOS'', ''WIDTH'', ''PALETTE'', ''HSCREEN'',
    ''LPOKE'', ''HCLS'', ''HCOLOR'', ''HPAINT'', ''HCIRCLE'', ''HLINE'', ''HGET'', ''HPUT'',
    ''HBUFF'', ''HPRINT'', ''ERR'', ''BRK'', ''LOCATE'', ''HSTAT'', ''HSET'', ''HRESET'', ''HDRAW'',
    ''CMP'', ''RGB'', ''ATTR'']"

definition second :: "string list" where
  "second = [
    ''SGN'', ''INT'', ''ABS'', ''USR'', ''RND'', ''SIN'', ''PEEK'', ''LEN'', ''STR$'', ''VAL'',
    ''ASC'', ''CHR$'', ''EOF'', ''JOYSTK'', ''LEFT$'', ''RIGHT$'', ''MID$'', ''POINT'', ''INKEY$'',
    ''MEM'', ''ATN'', ''COS'', ''TAN'', ''EXP'', ''FIX'', ''LOG'', ''POS'', ''SQR'', ''HEX$'',
    ''VARPTR'', ''INSTR'', ''TIMER'', ''PPOINT'', ''STRING$'', ''CVN'', ''FREE'', ''LOC'', ''LOF'',
    ''MKN$'', ''AS'', ''LPEEK'', ''BUTTON'', ''HPOINT'', ''ERRNO'', ''ERLIN'']"

section \<open>State\<close>

definition MAXBUF :: nat where "MAXBUF = 256"

text \<open>
  Descriptor 0 is a file with a body, \<open>None\<close> for one that cannot be read, that can be seeked or
  not; what is printed goes to the file that \<open>-o\<close> has named last, or to the standard output, which
  is \<open>None\<close>.
\<close>

record infile =
  body :: "bytes option"
  seekable :: bool

record dt =
  fin :: infile
  fpos :: nat
  buf :: bytes
  len :: int
  pos :: nat
  unixflg :: bool
  tflag :: bool
  sink :: "bytes option"
  outs :: "bytes option \<Rightarrow> bytes"
  errs :: bytes

text \<open>
  The files that can be opened, the names that can be opened for output (\<open>None\<close> is the null
  pointer behind the last argument), the text of \<open>perror\<close>, and whether an \<open>int\<close> has 16 bits, as on
  the 6809, or more, as on the host: the \<open>Makefile\<close> builds the program for both.
\<close>

record denv =
  infiles :: "bytes \<Rightarrow> infile option"
  reopens :: "bytes option \<Rightarrow> bool"
  errno :: bytes
  narrow_int :: bool

datatype dstop = Exit nat | Outside

type_synonym 'a dres = "(dstop \<times> dt) + ('a \<times> dt)"

definition printf :: "bytes \<Rightarrow> dt \<Rightarrow> dt" where
  "printf t s = s\<lparr>outs := (outs s)(sink s := outs s (sink s) @ t)\<rparr>"

definition eprintf :: "bytes \<Rightarrow> dt \<Rightarrow> dt" where
  "eprintf t s = s\<lparr>errs := errs s @ t\<rparr>"

text \<open>A \<open>uint16_t\<close> under \<open>%d\<close>: where it is as wide as an \<open>int\<close>, its upper half is negative.\<close>

definition uint16_text :: "bool \<Rightarrow> u16 \<Rightarrow> bytes" where
  "uint16_text narrow n = dec (if narrow then sint n else uint n)"

definition error_msg :: "nat \<Rightarrow> bytes" where
  "error_msg v = str ''error '' @ dec_nat v @ str '': '' @
     str (if v = 1 then ''premature end of file'' else if v = 2 then ''unknown block type''
          else if v = 3 then ''cannot rewind input file'' else if v = 4 then ''cannot open output file''
          else if v = 5 then ''cannot open input file'' else ''unknown error'') @ [10]"

definition myerror :: "nat \<Rightarrow> dt \<Rightarrow> 'a dres" where
  "myerror v s = Inl (Exit v, if v \<noteq> 0 then eprintf (error_msg v) s else s)"

section \<open>Input\<close>

text \<open>
  \<open>mygetc\<close>: \<open>None\<close> at the end of the file.  After a failed read \<open>len\<close> is \<open>-1\<close>, the old bytes of
  the buffer are returned, and then bytes behind it.
\<close>

definition refill :: "dt \<Rightarrow> dt" where
  "refill s =
     (case body (fin s) of
        None \<Rightarrow> s\<lparr>pos := 0, len := - 1\<rparr>
      | Some b \<Rightarrow>
          let d = take MAXBUF (drop (fpos s) b)
          in s\<lparr>pos := 0, len := int (length d), buf := d @ drop (length d) (buf s), fpos := fpos s + length d\<rparr>)"

definition mygetc :: "dt \<Rightarrow> u8 option dres" where
  "mygetc s =
     (let s = (if int (pos s) = len s then refill s else s) in
      if len s = 0 then Inr (None, s)
      else if length (buf s) \<le> pos s then Inl (Outside, s)
      else Inr (Some (buf s ! pos s), s\<lparr>pos := pos s + 1\<rparr>))"

definition mygetc_err :: "dt \<Rightarrow> u8 dres" where
  "mygetc_err s = rbind (mygetc s) (\<lambda>(c, s). case c of None \<Rightarrow> myerror 1 s | Some c \<Rightarrow> Inr (c, s))"

definition mygetw :: "dt \<Rightarrow> u16 dres" where
  "mygetw s = rbind (mygetc_err s) (\<lambda>(a, s). rbind (mygetc_err s) (\<lambda>(b, s). Inr (be16 a b, s)))"

text \<open>True when the file cannot be rewound.\<close>

definition reset :: "denv \<Rightarrow> dt \<Rightarrow> bool \<times> dt" where
  "reset env s =
     (let s = s\<lparr>pos := 0, len := 0\<rparr> in
      if seekable (fin s) then (False, s\<lparr>fpos := 0\<rparr>)
      else (True, eprintf (str ''lseek: '' @ errno env @ [10]) s))"

text \<open>What is still to come, which every character makes shorter.\<close>

definition coming :: "dt \<Rightarrow> nat" where
  "coming s =
     (case body (fin s) of None \<Rightarrow> (if int (pos s) \<le> len s then length (buf s) + 1 else 0) | Some b \<Rightarrow> length b - fpos s) +
     (if int (pos s) \<le> len s then nat (len s - int (pos s)) else length (buf s) - pos s)"

lemma mygetc_shorter:
  assumes "mygetc s = Inr (Some c, t)"
  shows "coming t < coming s"
proof (cases "int (pos s) = len s")
  case False
  with assms show ?thesis
    by (auto simp: mygetc_def coming_def Let_def split: if_splits option.splits)
next
  case True
  then show ?thesis using assms
    by (cases "body (fin s)") (auto simp: mygetc_def coming_def refill_def Let_def MAXBUF_def split: if_splits)
qed

lemma mygetc_shorter0: "mygetc s = Inr (r, t) \<Longrightarrow> coming t \<le> coming s"
proof (cases r)
  case None
  assume "mygetc s = Inr (r, t)"
  with None show ?thesis
    by (cases "body (fin s)") (auto simp: mygetc_def coming_def refill_def Let_def MAXBUF_def split: if_splits)
next
  case (Some c)
  assume "mygetc s = Inr (r, t)"
  with Some mygetc_shorter show ?thesis by fastforce
qed

lemma mygetc_err_shorter: "mygetc_err s = Inr (c, t) \<Longrightarrow> coming t < coming s"
  using mygetc_shorter by (auto simp: mygetc_err_def myerror_def res_simps split: option.splits)

lemma mygetw_shorter: "mygetw s = Inr (c, t) \<Longrightarrow> coming t < coming s"
  by (auto simp: mygetw_def res_simps dest!: mygetc_err_shorter)

section \<open>Listing\<close>

lemma coming_printf [simp]: "coming (printf t s) = coming s"
  by (simp add: coming_def printf_def split: option.split)

function copy_loop :: "dt \<Rightarrow> unit dres" where
  "copy_loop s =
     (case mygetc s of
        Inl e \<Rightarrow> Inl e
      | Inr (None, s) \<Rightarrow> Inl (Exit 0, s)
      | Inr (Some c, s) \<Rightarrow> copy_loop (printf [if unixflg s \<and> c = 13 then 10 else c] s))"
  by pat_completeness auto

termination
  by (relation "measure coming") (auto intro: mygetc_shorter)

declare copy_loop.simps [simp del]

definition copy :: "denv \<Rightarrow> dt \<Rightarrow> unit dres" where
  "copy env s = (case reset env s of (bad, s) \<Rightarrow> if bad then myerror 3 s else copy_loop s)"

definition myprintf :: "bool \<Rightarrow> bytes \<Rightarrow> dt \<Rightarrow> dt" where
  "myprintf pflag t s = (if pflag then printf t s else s)"

text \<open>A token of a table, which is read also when nothing is printed.\<close>

definition tok :: "string list \<Rightarrow> u8 \<Rightarrow> bytes option" where
  "tok ts c = (if unat c < length ts then Some (str (ts ! unat c)) else None)"

lemma coming_myprintf [simp]: "coming (myprintf pflag t s) = coming s"
  by (simp add: myprintf_def)

function chars_loop :: "bool \<Rightarrow> bool \<Rightarrow> dt \<Rightarrow> unit dres" where
  "chars_loop pflag flag s =
     (case mygetc_err s of
        Inl e \<Rightarrow> Inl e
      | Inr (c, s) \<Rightarrow>
          if flag then
            case tok second (c AND 0x7f) of
              None \<Rightarrow> Inl (Outside, s)
            | Some t \<Rightarrow> chars_loop pflag False (myprintf pflag t s)
          else if c = 0xff then chars_loop pflag True s
          else if c AND 0x80 \<noteq> 0 then
            case tok tokens (c AND 0x7f) of
              None \<Rightarrow> Inl (Outside, s)
            | Some t \<Rightarrow> chars_loop pflag False (myprintf pflag t s)
          else if c = 0 then Inr ((), myprintf pflag [if unixflg s then 10 else 13] s)
          else chars_loop pflag False (myprintf pflag [c] s))"
  by pat_completeness auto

termination
  by (relation "measure (\<lambda>(p, f, s). coming s)") (auto intro: mygetc_err_shorter)

declare chars_loop.simps [simp del]

lemma chars_loop_shorter: "chars_loop pflag flag s = Inr (u, t) \<Longrightarrow> coming t \<le> coming s"
proof (induction pflag flag s rule: chars_loop.induct)
  case (1 pflag flag s)
  show ?case
  proof (cases "mygetc_err s")
    case (Inr q)
    then obtain c s' where q: "mygetc_err s = Inr (c, s')" by (cases q) simp
    from mygetc_err_shorter [OF q] 1 q show ?thesis
      by (subst (asm) (5) chars_loop.simps) (fastforce split: if_splits option.splits)
  qed (use 1(5) in \<open>simp add: chars_loop.simps\<close>)
qed

function lines_loop :: "bool \<Rightarrow> bool \<Rightarrow> dt \<Rightarrow> unit dres" where
  "lines_loop narrow pflag s =
     (case mygetw s of
        Inl e \<Rightarrow> Inl e
      | Inr (link, s) \<Rightarrow>
          if link = 0 then Inr ((), s)
          else case mygetw s of
            Inl e \<Rightarrow> Inl e
          | Inr (ln, s) \<Rightarrow>
              (case chars_loop pflag False (myprintf pflag (uint16_text narrow ln @ [32]) s) of
                 Inl e \<Rightarrow> Inl e
               | Inr (_, s) \<Rightarrow> lines_loop narrow pflag s))"
  by pat_completeness auto

termination
  by (relation "measure (\<lambda>(n, p, s). coming s)")
    (auto dest!: mygetw_shorter chars_loop_shorter)

declare lines_loop.simps [simp del]

text \<open>One pass over the file: true when it cannot be rewound.\<close>

definition foo :: "denv \<Rightarrow> bool \<Rightarrow> dt \<Rightarrow> bool dres" where
  "foo env pflag s =
     (case reset env s of (bad, s) \<Rightarrow>
        if bad then Inr (True, s)
        else rbind (mygetc_err s) (\<lambda>(c, s).
          rbind (if c \<noteq> 0xff then copy env s else Inr ((), s)) (\<lambda>(_, s).
            rbind (mygetw s) (\<lambda>(n, s).
              let s = (if 22584 < unat n then eprintf (str ''suspicious length: '' @ uint16_text (narrow_int env) n @ [10]) s else s)
              in rbind (lines_loop (narrow_int env) pflag s) (\<lambda>(_, s). Inr (False, s))))))"

section \<open>main\<close>

definition usage :: "dt \<Rightarrow> 'a dres" where
  "usage s = Inl (Exit 1, eprintf
     (str ''usage: detoken -hlo file ...'' @ [10] @ str ''-h : print help'' @ [10] @
      str ''-l : convert line ending to unix'' @ [10] @ str ''-o : set output file'' @ [10] @
      str ''-t : exit 0 if binary, don'' @ [0x27] @ str ''t output'' @ [10]) s)"

text \<open>The options of an argument; \<open>-o\<close> may take the next one, so the arguments left are returned.\<close>

fun options :: "denv \<Rightarrow> bytes \<Rightarrow> bytes list \<Rightarrow> dt \<Rightarrow> bytes list dres" where
  "options env [] as s = Inr (as, s)"
| "options env (c # cs) as s =
     (if c = 0x6c then options env cs as (s\<lparr>unixflg := True\<rparr>)
      else if c = 0x68 then usage s
      else if c = 0x6f then
        let name = (if cs \<noteq> [] then Some cs else if as = [] then None else Some (hd as)) in
        if \<not> reopens env name then myerror 4 s
        else Inr (if cs \<noteq> [] then as else tl as,
                  if name = None then s else s\<lparr>sink := name, outs := (outs s)(name := [])\<rparr>)
      else if c = 0x74 then options env cs as (s\<lparr>tflag := True\<rparr>)
      else usage (eprintf (str ''unknown option: '' @ [c, 10]) s))"

definition one_file :: "denv \<Rightarrow> bytes \<Rightarrow> dt \<Rightarrow> unit dres" where
  "one_file env a s =
     (case infiles env a of
        None \<Rightarrow> myerror 5 (eprintf (a @ str '': '' @ errno env @ [10]) s)
      | Some f \<Rightarrow> rbind (foo env False (s\<lparr>fin := f, fpos := 0\<rparr>)) (\<lambda>(_, s).
          rbind (foo env True s) (\<lambda>(_, s). Inr ((), s))))"

lemma options_left: "options env cs as s = Inr (bs, t) \<Longrightarrow> length bs \<le> length as"
  by (induction env cs as s rule: options.induct) (auto simp: Let_def usage_def myerror_def split: if_splits)

function arguments :: "denv \<Rightarrow> bytes list \<Rightarrow> dt \<Rightarrow> unit dres" where
  "arguments env [] s = Inr ((), s)"
| "arguments env (a # as) s =
     (if a \<noteq> [] \<and> hd a = 0x2d then
        case options env (tl a) as s of
          Inl e \<Rightarrow> Inl e
        | Inr (bs, s) \<Rightarrow> arguments env bs s
      else
        case one_file env a s of
          Inl e \<Rightarrow> Inl e
        | Inr (_, s) \<Rightarrow> arguments env as s)"
  by pat_completeness auto

termination
  by (relation "measure (\<lambda>(env, as, s). length as)") (auto dest!: options_left)

definition detoken_main :: "denv \<Rightarrow> bytes list \<Rightarrow> dt \<Rightarrow> dstop \<times> dt" where
  "detoken_main env as s = (case arguments env as s of Inl e \<Rightarrow> e | Inr (_, s) \<Rightarrow> (Exit 0, s))"

end
