(* ===== verification/Detoken_Spec.thy ===== *)
theory Detoken_Spec
  imports Detoken
begin

text \<open>
  What \<open>detoken\<close> prints, over the bytes of its input: a program is listed as a whole or not at
  all, and a program saved in the binary form is listed as it was written.
\<close>

section \<open>The input as a stream\<close>

text \<open>A file that can be read and rewound, and the buffer as a part of it.\<close>

definition reading :: "dt \<Rightarrow> bool" where
  "reading s \<longleftrightarrow> body (fin s) \<noteq> None \<and> seekable (fin s) \<and> length (buf s) = MAXBUF \<and>
     int (pos s) \<le> len s \<and> len s \<le> int MAXBUF"

definition stream :: "dt \<Rightarrow> bytes" where
  "stream s = drop (pos s) (take (nat (len s)) (buf s)) @ drop (fpos s) (the (body (fin s)))"

text \<open>The state without its place in the input.\<close>

definition view :: "dt \<Rightarrow> dt" where
  "view s = s\<lparr>fpos := 0, buf := [], len := 0, pos := 0\<rparr>"

lemma view_updates [simp]:
  "view (s\<lparr>fpos := n\<rparr>) = view s" "view (s\<lparr>buf := b\<rparr>) = view s" "view (s\<lparr>len := i\<rparr>) = view s" "view (s\<lparr>pos := n\<rparr>) = view s"
  by (simp_all add: view_def)

lemma view_fields:
  assumes "view t = view s"
  shows "outs t = outs s" "sink t = sink s" "errs t = errs s" "unixflg t = unixflg s" "fin t = fin s"
proof -
  have f: "f (view t) = f (view s)" for f :: "dt \<Rightarrow> 'a" using assms by simp
  show "outs t = outs s" "sink t = sink s" "errs t = errs s" "unixflg t = unixflg s" "fin t = fin s"
    using f [of outs] f [of sink] f [of errs] f [of unixflg] f [of fin] by (simp_all add: view_def)
qed

lemma view_print:
  assumes "view t = view s"
  shows "view (myprintf p x t) = view (myprintf p x s)" "view (eprintf x t) = view (eprintf x s)"
proof -
  have "view (myprintf p x t) = myprintf p x (view t)" for t by (simp add: view_def myprintf_def printf_def)
  moreover have "view (eprintf x t) = eprintf x (view t)" for t by (simp add: view_def eprintf_def)
  ultimately show "view (myprintf p x t) = view (myprintf p x s)" "view (eprintf x t) = view (eprintf x s)"
    using assms by simp_all
qed

lemma print_keeps [simp]:
  "reading (myprintf p x s) = reading s" "stream (myprintf p x s) = stream s"
  "reading (eprintf x s) = reading s" "stream (eprintf x s) = stream s" "unixflg (myprintf p x s) = unixflg s"
  by (simp_all add: reading_def stream_def myprintf_def printf_def eprintf_def)

lemma myprintf_app [simp]: "myprintf p y (myprintf p x s) = myprintf p (x @ y) s" "myprintf p [] s = s"
  by (simp_all add: myprintf_def printf_def)

lemma refill_ok:
  assumes "reading s" "int (pos s) = len s"
  shows "reading (refill s) \<and> stream (refill s) = stream s \<and> view (refill s) = view s \<and>
    (len (refill s) = 0 \<longleftrightarrow> stream s = []) \<and> pos (refill s) = 0"
proof -
  obtain b where b: "body (fin s) = Some b" using assms(1) by (auto simp: reading_def)
  have st: "stream s = drop (fpos s) b" using assms(2) b by (simp add: stream_def)
  define d where "d = take MAXBUF (drop (fpos s) b)"
  have ld: "length d \<le> MAXBUF" "d = [] \<longleftrightarrow> drop (fpos s) b = []" by (auto simp: d_def MAXBUF_def)
  have r: "refill s = s\<lparr>pos := 0, len := int (length d), buf := d @ drop (length d) (buf s), fpos := fpos s + length d\<rparr>"
    by (simp add: refill_def b Let_def d_def)
  have dr: "drop (fpos s + length d) b = drop MAXBUF (drop (fpos s) b)"
    by (simp add: d_def min_def add.commute)
  have "stream (refill s) = d @ drop MAXBUF (drop (fpos s) b)" by (simp add: r stream_def b dr del: drop_drop)
  also have "\<dots> = stream s" unfolding st d_def by (rule append_take_drop_id)
  finally show ?thesis using assms(1) ld by (auto simp: r reading_def b st)
qed

lemma mygetc_ok:
  assumes "reading s"
  shows "case stream s of
      [] \<Rightarrow> \<exists>t. mygetc s = Inr (None, t) \<and> reading t \<and> stream t = [] \<and> view t = view s
    | c # r \<Rightarrow> \<exists>t. mygetc s = Inr (Some c, t) \<and> reading t \<and> stream t = r \<and> view t = view s"
proof -
  define u where "u = (if int (pos s) = len s then refill s else s)"
  have u: "reading u" "stream u = stream s" "view u = view s" "len u = 0 \<longleftrightarrow> stream s = []"
    "stream s \<noteq> [] \<Longrightarrow> int (pos u) < len u"
  proof -
    show "reading u" "stream u = stream s" "view u = view s" using assms refill_ok [OF assms] by (auto simp: u_def)
    have "int (pos s) < len s \<Longrightarrow> stream s \<noteq> []" using assms by (auto simp: stream_def reading_def MAXBUF_def)
    moreover have "0 < len u" if "len u \<noteq> 0" using \<open>reading u\<close> that by (simp add: reading_def)
    ultimately show "len u = 0 \<longleftrightarrow> stream s = []" "stream s \<noteq> [] \<Longrightarrow> int (pos u) < len u"
      using assms refill_ok [OF assms] by (auto simp: u_def reading_def)
  qed
  have g: "mygetc s = (if len u = 0 then Inr (None, u) else if length (buf u) \<le> pos u then Inl (Outside, u)
      else Inr (Some (buf u ! pos u), u\<lparr>pos := pos u + 1\<rparr>))"
    by (simp add: mygetc_def u_def Let_def)
  show ?thesis
  proof (cases "stream s")
    case Nil
    with u g show ?thesis by auto
  next
    case (Cons c r)
    then have p: "int (pos u) < len u" using u(5) by simp
    with u(1) have b: "pos u < length (buf u)" "nat (len u) \<le> length (buf u)" by (auto simp: reading_def)
    then have "stream u = buf u ! pos u # stream (u\<lparr>pos := pos u + 1\<rparr>)"
      using p by (simp add: stream_def Cons_nth_drop_Suc [symmetric, of "pos u" "take (nat (len u)) (buf u)"])
    then have "buf u ! pos u = c" "stream (u\<lparr>pos := pos u + 1\<rparr>) = r" using u(2) Cons by simp_all
    moreover have "reading (u\<lparr>pos := pos u + 1\<rparr>)" using u(1) p by (simp add: reading_def)
    moreover have "len u \<noteq> 0" using u(4) Cons by simp
    ultimately show ?thesis using g b(1) u(3) Cons by simp
  qed
qed

text \<open>The end of a pass that comes too early.\<close>

definition cut_short :: "dt \<Rightarrow> 'a dres \<Rightarrow> bool" where
  "cut_short s r \<longleftrightarrow> (\<exists>t. r = Inl (Exit 1, t) \<and> view t = view (eprintf (error_msg 1) s))"

lemma mygetc_err_ok:
  assumes "reading s"
  shows "case stream s of
      [] \<Rightarrow> cut_short s (mygetc_err s)
    | c # r \<Rightarrow> \<exists>t. mygetc_err s = Inr (c, t) \<and> reading t \<and> stream t = r \<and> view t = view s"
proof (cases "stream s")
  case Nil
  with mygetc_ok [OF assms] obtain t where t: "mygetc s = Inr (None, t)" "view t = view s" by auto
  then have "cut_short s (mygetc_err s)"
    using view_print(2) [OF t(2)] by (simp add: mygetc_err_def myerror_def cut_short_def)
  with Nil show ?thesis by simp
next
  case (Cons c r)
  with mygetc_ok [OF assms] obtain t where
    "mygetc s = Inr (Some c, t)" "reading t" "stream t = r" "view t = view s" by auto
  with Cons show ?thesis by (simp add: mygetc_err_def)
qed

lemma mygetw_ok:
  assumes "reading s"
  shows "case stream s of
      a # b # r \<Rightarrow> \<exists>t. mygetw s = Inr (be16 a b, t) \<and> reading t \<and> stream t = r \<and> view t = view s
    | _ \<Rightarrow> cut_short s (mygetw s)"
proof (cases "stream s")
  case Nil
  with mygetc_err_ok [OF assms] show ?thesis by (auto simp: mygetw_def cut_short_def)
next
  case (Cons a r)
  with mygetc_err_ok [OF assms] obtain t where
    t: "mygetc_err s = Inr (a, t)" "reading t" "stream t = r" "view t = view s" by auto
  show ?thesis
  proof (cases r)
    case Nil
    with mygetc_err_ok [OF t(2)] t(3) have "cut_short t (mygetc_err t)" by simp
    with t(1) view_print(2) [OF t(4)] have "cut_short s (mygetw s)" by (auto simp: mygetw_def cut_short_def)
    with Nil Cons show ?thesis by simp
  next
    fix b q assume r: "r = b # q"
    with mygetc_err_ok [OF t(2)] t(3) obtain u where
      u: "mygetc_err t = Inr (b, u)" "reading u" "stream u = q" "view u = view t" by auto
    with t have "mygetw s = Inr (be16 a b, u)" by (simp add: mygetw_def)
    with u t(4) r Cons show ?thesis by auto
  qed
qed

section \<open>Listings\<close>

text \<open>
  What a listing of some bytes is and how it ends: done, cut short by the end of the file, or
  with a token outside of its table.
\<close>

datatype pend = Done | Short | Bad

fun chars_of :: "bool \<Rightarrow> bool \<Rightarrow> bytes \<Rightarrow> bytes \<times> pend \<times> bytes" where
  "chars_of u flag [] = ([], Short, [])"
| "chars_of u flag (c # r) =
     (if flag then
        case tok second (c AND 0x7f) of
          None \<Rightarrow> ([], Bad, r)
        | Some t \<Rightarrow> apfst ((@) t) (chars_of u False r)
      else if c = 0xff then chars_of u True r
      else if c AND 0x80 \<noteq> 0 then
        case tok tokens (c AND 0x7f) of
          None \<Rightarrow> ([], Bad, r)
        | Some t \<Rightarrow> apfst ((@) t) (chars_of u False r)
      else if c = 0 then ([if u then 10 else 13], Done, r)
      else apfst ((@) [c]) (chars_of u False r))"

lemma chars_of_left: "length (snd (snd (chars_of u flag r))) \<le> length r"
  by (induction u flag r rule: chars_of.induct) (auto split: option.split simp: le_Suc_eq)

lemma chars_of_shorter: "chars_of u flag r = (t, e, q) \<Longrightarrow> length q \<le> length r"
  using chars_of_left [of u flag r] by simp

function lines_of :: "bool \<Rightarrow> bool \<Rightarrow> bytes \<Rightarrow> bytes \<times> pend" where
  "lines_of i u (a # b # c # d # r) =
     (if be16 a b = 0 then ([], Done)
      else
        let n = uint16_text i (be16 c d) @ [32] in
        case chars_of u False r of (t, e, q) \<Rightarrow>
          if e = Done then apfst ((@) (n @ t)) (lines_of i u q) else (n @ t, e))"
| "lines_of i u [a, b, c] = ([], if be16 a b = 0 then Done else Short)"
| "lines_of i u [a, b] = ([], if be16 a b = 0 then Done else Short)"
| "lines_of i u [a] = ([], Short)"
| "lines_of i u [] = ([], Short)"
  by pat_completeness auto

termination
  by (relation "measure (\<lambda>(i, u, r). length r)") (auto dest!: chars_of_shorter [OF sym])

text \<open>A run that prints \<open>x\<close> (in the second pass) and ends so.\<close>

definition ends :: "bool \<Rightarrow> dt \<Rightarrow> bytes \<Rightarrow> pend \<Rightarrow> bytes \<Rightarrow> unit dres \<Rightarrow> bool" where
  "ends p s x e q r \<longleftrightarrow> (case e of
     Done \<Rightarrow> \<exists>t. r = Inr ((), t) \<and> reading t \<and> stream t = q \<and> view t = view (myprintf p x s)
   | Short \<Rightarrow> cut_short (myprintf p x s) r
   | Bad \<Rightarrow> \<exists>t. r = Inl (Outside, t) \<and> view t = view (myprintf p x s))"

lemma ends_step:
  assumes "view t = view s" "ends p (myprintf p y t) x e q r"
  shows "ends p s (y @ x) e q r"
proof -
  have v: "view (myprintf p (y @ x) t) = view (myprintf p (y @ x) s)" using assms(1) by (rule view_print)
  show ?thesis using assms(2) v view_print(2) [OF v] by (cases e) (simp_all add: ends_def cut_short_def)
qed

lemma ends_same:
  assumes "view t = view s" "ends p t x e q r"
  shows "ends p s x e q r"
  using ends_step [OF assms(1), of p "[]"] assms(2) by simp

lemma chars_loop_ok:
  assumes "reading s"
  shows "case chars_of (unixflg s) flag (stream s) of (x, e, q) \<Rightarrow> ends p s x e q (chars_loop p flag s)"
  using assms
proof (induction "stream s" arbitrary: s flag)
  case Nil
  from mygetc_err_ok [OF Nil(2)] Nil(1) have "cut_short s (mygetc_err s)" by (simp flip: Nil(1))
  then have "cut_short s (chars_loop p flag s)" by (subst chars_loop.simps) (auto simp: cut_short_def)
  with Nil(1) show ?case by (simp add: ends_def flip: Nil(1))
next
  case (Cons c r)
  from mygetc_err_ok [OF Cons(3)] obtain t where
    t: "mygetc_err s = Inr (c, t)" "reading t" "stream t = r" "view t = view s" by (auto simp flip: Cons(2))
  have u: "unixflg t = unixflg s" using view_fields(4) [OF t(4)] .
  have IH: "ends p s (y @ x) e q (chars_loop p fl (myprintf p y t))"
    if "chars_of (unixflg s) fl r = (x, e, q)" for y x e q fl
  proof (rule ends_step [OF t(4)])
    have "r = stream (myprintf p y t)" "reading (myprintf p y t)" "unixflg (myprintf p y t) = unixflg s"
      using t u by simp_all
    from Cons(1) [OF this(1,2), of fl] that this(3) t(3)
    show "ends p (myprintf p y t) x e q (chars_loop p fl (myprintf p y t))" by simp
  qed
  have bad: "ends p s [] Bad q (Inl (Outside, t))" for q using t(4) by (simp add: ends_def)
  have nl: "ends p s [y] Done r (Inr ((), myprintf p [y] t))" for y
    using t view_print(1) [OF t(4)] by (auto simp: ends_def)
  obtain x0 e0 q0 where f: "chars_of (unixflg s) False r = (x0, e0, q0)" by (cases "chars_of (unixflg s) False r")
  obtain x1 e1 q1 where g: "chars_of (unixflg s) True r = (x1, e1, q1)" by (cases "chars_of (unixflg s) True r")
  show ?case
    using IH [OF f] IH [OF f, of "[c]"] IH [OF g, of "[]"] bad nl
    by (subst chars_loop.simps) (simp add: t(1) u f g flip: Cons(2) split: option.split)
qed

lemma ends_cut:
  assumes "cut_short s r"
  shows "ends p s [] Short q r"
  using assms by (simp add: ends_def)

lemma cut_same: "view t = view s \<Longrightarrow> cut_short t r \<Longrightarrow> cut_short s r"
  using view_print(2) [of t s] by (auto simp: cut_short_def)

lemma lines_none:
  assumes "reading s" "length (stream s) < 2"
  shows "cut_short s (lines_loop i p s)"
proof -
  have "cut_short s (mygetw s)" using mygetw_ok [OF assms(1)] assms(2) by (auto split: list.splits)
  then show ?thesis by (subst lines_loop.simps) (auto simp: cut_short_def)
qed

text \<open>The line's link is there, but not its number.\<close>

lemma lines_short:
  assumes "reading s" "stream s = a # b # r" "length r < 2"
  shows "ends p s [] (if be16 a b = 0 then Done else Short) r (lines_loop i p s)"
proof -
  from mygetw_ok [OF assms(1)] assms(2) obtain t where
    t: "mygetw s = Inr (be16 a b, t)" "reading t" "stream t = r" "view t = view s" by auto
  have "cut_short t (mygetw t)" using mygetw_ok [OF t(2)] t(3) assms(3) by (auto split: list.splits)
  from cut_same [OF t(4) this] have "cut_short s (mygetw t)" .
  then obtain w where w: "mygetw t = Inl (Exit 1, w)" "view w = view (eprintf (error_msg 1) s)" by (auto simp: cut_short_def)
  have run: "lines_loop i p s = (if be16 a b = 0 then Inr ((), t) else Inl (Exit 1, w))"
    by (subst lines_loop.simps) (simp add: t(1) w(1))
  show ?thesis unfolding run using t w(2) by (cases "be16 a b = 0") (simp_all add: ends_def cut_short_def)
qed

lemma lines_loop_ok:
  assumes "reading s"
  shows "case lines_of i (unixflg s) (stream s) of (x, e) \<Rightarrow> \<exists>q. ends p s x e q (lines_loop i p s)"
  using assms
proof (induction i "unixflg s" "stream s" arbitrary: s rule: lines_of.induct)
  case (1 i a b c d r)
  note st = 1(2) [symmetric]
  from mygetw_ok [OF 1(3)] obtain t where
    t: "mygetw s = Inr (be16 a b, t)" "reading t" "stream t = c # d # r" "view t = view s" unfolding st by auto
  show ?case
  proof (cases "be16 a b = 0")
    case True
    with t have "ends p s [] Done (stream t) (lines_loop i p s)" by (subst lines_loop.simps) (simp add: ends_def)
    with True show ?thesis by (auto simp: st)
  next
    case False
    from mygetw_ok [OF t(2)] t(3) obtain t2 where
      t2: "mygetw t = Inr (be16 c d, t2)" "reading t2" "stream t2 = r" "view t2 = view t" by auto
    define n where "n = uint16_text i (be16 c d) @ [32]"
    define v where "v = myprintf p n t2"
    have v2: "view t2 = view s" using t(4) t2(4) by simp
    have v: "reading v" "stream v = r" "unixflg v = unixflg s"
      using t2 view_fields(4) [OF v2] by (simp_all add: v_def)
    obtain x e q where x: "chars_of (unixflg s) False r = (x, e, q)" by (cases "chars_of (unixflg s) False r")
    from chars_loop_ok [OF v(1), where flag = False and p = p] x v have ch: "ends p v x e q (chars_loop p False v)" by simp
    have run: "lines_loop i p s = (case chars_loop p False v of Inl e \<Rightarrow> Inl e | Inr (_, s) \<Rightarrow> lines_loop i p s)"
      by (subst lines_loop.simps) (simp add: t(1) False t2(1) v_def n_def)
    show ?thesis
    proof (cases e)
      case Done
      from ch obtain w where w: "chars_loop p False v = Inr ((), w)" "reading w" "stream w = q"
        "view w = view (myprintf p x v)" by (auto simp: ends_def Done)
      have vw: "view w = view (myprintf p (n @ x) s)"
        using w(4) view_print(1) [OF v2, of p "n @ x"] by (simp add: v_def)
      have uw: "unixflg s = unixflg w" using view_fields(4) [OF vw] by simp
      obtain y e' where y: "lines_of i (unixflg s) q = (y, e')" by (cases "lines_of i (unixflg s) q")
      have "(e, stream w) = (e, q)" using w(3) by simp
      from 1(1) [OF False n_def x [symmetric] this Done uw w(2)] y w(3) uw obtain q' where
        "ends p w y e' q' (lines_loop i p w)" by auto
      then have "ends p (myprintf p (n @ x) s) y e' q' (lines_loop i p w)" by (rule ends_same [OF vw])
      from ends_step [OF refl this] have "ends p s ((n @ x) @ y) e' q' (lines_loop i p w)" .
      then have "ends p s ((n @ x) @ y) e' q' (lines_loop i p s)" using run w(1) by simp
      then show ?thesis using False x y Done by (auto simp: Let_def n_def [symmetric] st)
    next
      case Short
      with ch run have "ends p v x Short q (lines_loop i p s)" by (auto simp: ends_def cut_short_def)
      then have "ends p s (n @ x) Short q (lines_loop i p s)" unfolding v_def by (rule ends_step [OF v2])
      then show ?thesis using False x Short by (auto simp: Let_def n_def [symmetric] st)
    next
      case Bad
      with ch run have "ends p v x Bad q (lines_loop i p s)" by (auto simp: ends_def)
      then have "ends p s (n @ x) Bad q (lines_loop i p s)" unfolding v_def by (rule ends_step [OF v2])
      then show ?thesis using False x Bad by (auto simp: Let_def n_def [symmetric] st)
    qed
  qed
next
  case (2 i a b c)
  from lines_short [OF 2(2), of a b "[c]" p i] show ?case unfolding 2(1) [symmetric] by (auto simp: 2(1) [symmetric])
next
  case (3 i a b)
  from lines_short [OF 3(2), of a b "[]" p i] show ?case unfolding 3(1) [symmetric] by (auto simp: 3(1) [symmetric])
next
  case (4 i a)
  from lines_none [OF 4(2), of i p] show ?case unfolding 4(1) [symmetric] by (auto simp: ends_def 4(1) [symmetric])
next
  case (5 i)
  from lines_none [OF 5(2), of i p] show ?case unfolding 5(1) [symmetric] by (auto simp: ends_def 5(1) [symmetric])
qed

section \<open>One file\<close>

text \<open>A file that can be read from its start, with the bytes \<open>b\<close>.\<close>

definition holds_file :: "bytes \<Rightarrow> dt \<Rightarrow> bool" where
  "holds_file b s \<longleftrightarrow> fin s = \<lparr>body = Some b, seekable = True\<rparr> \<and> length (buf s) = MAXBUF"

lemma rewound:
  assumes "holds_file b s"
  shows "\<exists>t. reset env s = (False, t) \<and> reading t \<and> stream t = b \<and> view t = view s \<and> holds_file b t"
  using assms by (simp add: reset_def holds_file_def reading_def stream_def MAXBUF_def)

text \<open>What is read and printed keeps the file and the size of the buffer.\<close>

definition copied :: "bool \<Rightarrow> bytes \<Rightarrow> bytes" where
  "copied u b = map (\<lambda>c. if u \<and> c = 13 then 10 else c) b"

lemma copied_ok:
  assumes "reading s"
  shows "\<exists>t. copy_loop s = Inl (Exit 0, t) \<and> view t = view (myprintf True (copied (unixflg s) (stream s)) s)"
  using assms
proof (induction "stream s" arbitrary: s)
  case Nil
  from mygetc_ok [OF Nil(2)] obtain t where "mygetc s = Inr (None, t)" "view t = view s" unfolding Nil(1) [symmetric] by auto
  then show ?case by (subst copy_loop.simps) (simp add: copied_def flip: Nil(1))
next
  case (Cons c r)
  note st = Cons(2) [symmetric]
  from mygetc_ok [OF Cons(3)] obtain t where
    t: "mygetc s = Inr (Some c, t)" "reading t" "stream t = r" "view t = view s" unfolding st by auto
  have u: "unixflg t = unixflg s" using view_fields(4) [OF t(4)] .
  let ?c = "[if unixflg s \<and> c = 13 then 10 else c]"
  have "r = stream (myprintf True ?c t)" "reading (myprintf True ?c t)" using t by simp_all
  from Cons(1) [OF this] obtain v where
    v: "copy_loop (myprintf True ?c t) = Inl (Exit 0, v)"
      "view v = view (myprintf True (?c @ copied (unixflg t) (stream t)) t)" by auto
  have "view v = view (myprintf True (copied (unixflg s) (stream s)) s)"
    using v(2) view_print(1) [OF t(4)] u t(3) by (simp add: st copied_def)
  moreover have "copy_loop s = Inl (Exit 0, v)"
    using v(1) u by (subst copy_loop.simps) (simp add: t(1) myprintf_def)
  ultimately show ?case by blast
qed

lemma foo_text:
  assumes "holds_file (c # b) s" "c \<noteq> 0xff"
  shows "\<exists>t. foo env p s = Inl (Exit 0, t) \<and> view t = view (myprintf True (copied (unixflg s) (c # b)) s)"
proof -
  from rewound [OF assms(1)] obtain t where
    t: "reset env s = (False, t)" "reading t" "stream t = c # b" "view t = view s" "holds_file (c # b) t" by blast
  from mygetc_err_ok [OF t(2)] t(3) obtain u where
    u: "mygetc_err t = Inr (c, u)" "reading u" "view u = view t" by auto
  have "holds_file (c # b) u" using view_fields(5) [OF u(3)] t(5) u(2) by (simp add: holds_file_def reading_def)
  from rewound [OF this] obtain v where
    v: "reset env u = (False, v)" "reading v" "stream v = c # b" "view v = view u" by blast
  from copied_ok [OF v(2)] obtain w where
    w: "copy_loop v = Inl (Exit 0, w)" "view w = view (myprintf True (copied (unixflg v) (c # b)) v)" using v(3) by auto
  have vs: "view v = view s" using v(4) u(3) t(4) by simp
  have "foo env p s = Inl (Exit 0, w)"
    using t(1) u(1) v(1) w(1) assms(2) by (simp add: foo_def copy_def)
  with w(2) view_print(1) [OF vs] view_fields(4) [OF vs] show ?thesis by auto
qed

lemma foo_program:
  assumes "holds_file (0xff # n1 # n2 # r) s" "lines_of (narrow_int env) (unixflg s) r = (x, e)"
  shows "case e of
      Done \<Rightarrow> \<exists>t. foo env p s = Inr (False, t) \<and> holds_file (0xff # n1 # n2 # r) t \<and> outs t = outs (myprintf p x s) \<and>
        sink t = sink s \<and> unixflg t = unixflg s
    | Short \<Rightarrow> \<exists>t. foo env p s = Inl (Exit 1, t) \<and> outs t = outs (myprintf p x s)
    | Bad \<Rightarrow> \<exists>t. foo env p s = Inl (Outside, t) \<and> outs t = outs (myprintf p x s)"
proof -
  let ?b = "0xff # n1 # n2 # r"
  from rewound [OF assms(1)] obtain t where
    t: "reset env s = (False, t)" "reading t" "stream t = ?b" "view t = view s" by blast
  from mygetc_err_ok [OF t(2)] t(3) obtain u where
    u: "mygetc_err t = Inr (0xff, u)" "reading u" "stream u = n1 # n2 # r" "view u = view t" by auto
  from mygetw_ok [OF u(2)] u(3) obtain v where
    v: "mygetw u = Inr (be16 n1 n2, v)" "reading v" "stream v = r" "view v = view u" by auto
  define m where "m = (if 22584 < unat (be16 n1 n2) then str ''suspicious length: '' @ uint16_text (narrow_int env) (be16 n1 n2) @ [10] else [])"
  define w where "w = (if 22584 < unat (be16 n1 n2) then eprintf m v else v)"
  have vs: "view v = view s" using t u v by simp
  have w: "reading w" "stream w = r" "outs w = outs s" "sink w = sink s" "unixflg w = unixflg s" "fin w = fin s"
  proof -
    show "reading w" "stream w = r" using v by (simp_all add: w_def)
    show "outs w = outs s" "sink w = sink s" "unixflg w = unixflg s" "fin w = fin s"
      using view_fields [OF vs] by (simp_all add: w_def eprintf_def)
  qed
  from lines_loop_ok [OF w(1), where p = p and i = "narrow_int env"] assms(2) w(2,5) obtain q where l: "ends p w x e q (lines_loop (narrow_int env) p w)" by auto
  have run: "foo env p s = rbind (lines_loop (narrow_int env) p w) (\<lambda>(_, s). Inr (False, s))"
    using t(1) u(1) v(1) by (simp add: foo_def w_def m_def Let_def)
  have o: "outs (myprintf p x w) = outs (myprintf p x s)" using w by (simp add: myprintf_def printf_def)
  show ?thesis
  proof (cases e)
    case Done
    with l obtain z where z: "lines_loop (narrow_int env) p w = Inr ((), z)" "reading z" "view z = view (myprintf p x w)" by (auto simp: ends_def)
    from view_fields [OF z(3)] w have "fin z = fin s" "sink z = sink s" "unixflg z = unixflg s"
      by (simp_all add: myprintf_def printf_def)
    with z view_fields(1) [OF z(3)] o assms(1) run Done show ?thesis by (simp add: holds_file_def reading_def)
  next
    case Short
    with l obtain z where z: "lines_loop (narrow_int env) p w = Inl (Exit 1, z)" "view z = view (eprintf (error_msg 1) (myprintf p x w))"
      by (auto simp: ends_def cut_short_def)
    with view_fields(1) [OF z(2)] o run Short show ?thesis by (simp add: eprintf_def)
  next
    case Bad
    with l obtain z where z: "lines_loop (narrow_int env) p w = Inl (Outside, z)" "view z = view (myprintf p x w)" by (auto simp: ends_def)
    with view_fields(1) [OF z(2)] o run Bad show ?thesis by simp
  qed
qed

section \<open>The program\<close>

definition plain_arg :: "bytes \<Rightarrow> bool" where
  "plain_arg a \<longleftrightarrow> a = [] \<or> hd a \<noteq> 0x2d"

definition readable :: "bytes \<Rightarrow> infile" where
  "readable b = \<lparr>body = Some b, seekable = True\<rparr>"

lemma main_arg:
  assumes "infiles env a = Some (readable b)" "plain_arg a" "length (buf s) = MAXBUF"
  shows "holds_file b (s\<lparr>fin := readable b, fpos := 0\<rparr>)"
    "detoken_main env (a # as) s =
      (case rbind (foo env False (s\<lparr>fin := readable b, fpos := 0\<rparr>)) (\<lambda>(_, s). rbind (foo env True s) (\<lambda>(_, s). Inr ((), s))) of
         Inl e \<Rightarrow> e
       | Inr (_, s) \<Rightarrow> detoken_main env as s)"
  using assms
  by (auto simp: holds_file_def readable_def detoken_main_def plain_arg_def one_file_def split: sum.split prod.split)

text \<open>Both passes over a program.\<close>

lemma main_program:
  assumes "infiles env a = Some (readable (0xff # n1 # n2 # r))" "plain_arg a" "length (buf s) = MAXBUF"
    and "lines_of (narrow_int env) (unixflg s) r = (x, e)"
  shows "\<exists>t. detoken_main env [a] s = (case e of Done \<Rightarrow> Exit 0 | Short \<Rightarrow> Exit 1 | Bad \<Rightarrow> Outside, t) \<and>
    outs t = outs (myprintf (e = Done) x s)"
proof -
  let ?b = "0xff # n1 # n2 # r" and ?s = "s\<lparr>fin := readable (0xff # n1 # n2 # r), fpos := 0\<rparr>"
  note m = main_arg(1) [OF assms(1-3)] main_arg(2) [OF assms(1-3), of "[]"]
  have l: "lines_of (narrow_int env) (unixflg ?s) r = (x, e)" using assms(4) by simp
  note f = foo_program [OF m(1) l, where p = False]
  show ?thesis
  proof (cases e)
    case Done
    with f obtain t where t: "foo env False ?s = Inr (False, t)" "holds_file ?b t" "outs t = outs s" "sink t = sink s"
      "unixflg t = unixflg s" by (auto simp: myprintf_def)
    have "lines_of (narrow_int env) (unixflg t) r = (x, e)" using assms(4) t(5) by simp
    from foo_program [OF t(2) this, where p = True] Done obtain w where
      "foo env True t = Inr (False, w)" "outs w = outs (myprintf True x t)" by auto
    with Done t show ?thesis unfolding m(2) by (simp add: detoken_main_def myprintf_def printf_def)
  next
    case Short
    with f obtain t where "foo env False ?s = Inl (Exit 1, t)" "outs t = outs s" by (auto simp: myprintf_def)
    with Short show ?thesis unfolding m(2) by (simp add: myprintf_def)
  next
    case Bad
    with f obtain t where "foo env False ?s = Inl (Outside, t)" "outs t = outs s" by (auto simp: myprintf_def)
    with Bad show ?thesis unfolding m(2) by (simp add: myprintf_def)
  qed
qed

text \<open>
  A program in the binary form is listed as a whole or not at all: the first pass prints nothing,
  and only when it comes to the program's end does the second print the same listing.  A file that
  ends too early leaves the output as it was and the status 1, and one with a token outside of
  the tables runs outside of them.
\<close>

theorem detoken_whole:
  assumes "infiles env a = Some (readable (0xff # n1 # n2 # r))" and "plain_arg a" and "length (buf s) = MAXBUF"
    and "lines_of (narrow_int env) (unixflg s) r = (x, e)"
  shows "\<exists>t. detoken_main env [a] s = (case e of Done \<Rightarrow> Exit 0 | Short \<Rightarrow> Exit 1 | Bad \<Rightarrow> Outside, t) \<and>
    outs t = (if e = Done then (outs s)(sink s := outs s (sink s) @ x) else outs s)"
  using main_program [OF assms] by (auto simp: myprintf_def printf_def)

section \<open>Saved programs\<close>

text \<open>
  A program line, and what BASIC saves of it: the tokens of the two tables and characters below
  0x80.
\<close>

datatype item = Tok nat | Fun nat | Chr u8

fun item_bytes :: "item \<Rightarrow> bytes" where
  "item_bytes (Tok k) = [0x80 + of_nat k]"
| "item_bytes (Fun k) = [0xff, 0x80 + of_nat k]"
| "item_bytes (Chr c) = [c]"

fun item_text :: "item \<Rightarrow> bytes" where
  "item_text (Tok k) = str (tokens ! k)"
| "item_text (Fun k) = str (second ! k)"
| "item_text (Chr c) = [c]"

fun item_ok :: "item \<Rightarrow> bool" where
  "item_ok (Tok k) \<longleftrightarrow> k < 121"
| "item_ok (Fun k) \<longleftrightarrow> k < 45"
| "item_ok (Chr c) \<longleftrightarrow> c \<noteq> 0 \<and> c < 0x80"

type_synonym basic_line = "u16 \<times> u16 \<times> item list"

definition line_bytes :: "basic_line \<Rightarrow> bytes" where
  "line_bytes l = (case l of (link, n, is) \<Rightarrow>
     [hi8 link, lo8 link, hi8 n, lo8 n] @ concat (map item_bytes is) @ [0])"

definition line_text :: "bool \<Rightarrow> bool \<Rightarrow> basic_line \<Rightarrow> bytes" where
  "line_text i u l = (case l of (link, n, is) \<Rightarrow>
     uint16_text i n @ [32] @ concat (map item_text is) @ [if u then 10 else 13])"

definition line_ok :: "basic_line \<Rightarrow> bool" where
  "line_ok l \<longleftrightarrow> (case l of (link, n, is) \<Rightarrow> link \<noteq> 0 \<and> (\<forall>i \<in> set is. item_ok i))"

definition saved :: "u16 \<Rightarrow> basic_line list \<Rightarrow> bytes" where
  "saved n ls = [0xff, hi8 n, lo8 n] @ concat (map line_bytes ls) @ [0, 0]"

definition listing :: "bool \<Rightarrow> bool \<Rightarrow> basic_line list \<Rightarrow> bytes" where
  "listing i u ls = concat (map (line_text i u) ls)"

lemma table_lengths: "length tokens = 121" "length second = 45"
  by (simp_all add: tokens_def second_def)

lemma token_byte:
  assumes "k < 128"
  shows "unat ((0x80 + of_nat k :: u8) AND 0x7f) = k" "(0x80 + of_nat k :: u8) AND 0x80 \<noteq> 0"
    "k < 127 \<Longrightarrow> (0x80 + of_nat k :: u8) \<noteq> 0xff"
proof -
  have "\<forall>k \<in> set [0..<128]. unat ((0x80 + of_nat k :: u8) AND 0x7f) = k \<and> (0x80 + of_nat k :: u8) AND 0x80 \<noteq> 0 \<and>
      (k < 127 \<longrightarrow> (0x80 + of_nat k :: u8) \<noteq> 0xff)" by code_simp
  moreover have "k \<in> set [0..<128]" using assms by simp
  ultimately show "unat ((0x80 + of_nat k :: u8) AND 0x7f) = k" "(0x80 + of_nat k :: u8) AND 0x80 \<noteq> 0"
    "k < 127 \<Longrightarrow> (0x80 + of_nat k :: u8) \<noteq> 0xff" by blast+
qed

lemma low_char: "(c :: u8) < 0x80 \<Longrightarrow> c AND 0x80 = 0 \<and> c \<noteq> 0xff"
proof -
  assume c: "c < 0x80"
  have "\<forall>k \<in> set [0..<128]. (of_nat k :: u8) AND 0x80 = 0 \<and> (of_nat k :: u8) \<noteq> 0xff" by code_simp
  moreover have "unat c \<in> set [0..<128]" using c by (simp add: word_less_nat_alt)
  ultimately show ?thesis by fastforce
qed

lemma chars_item:
  assumes "item_ok i"
  shows "chars_of u False (item_bytes i @ r) = apfst ((@) (item_text i)) (chars_of u False r)"
proof (cases i)
  case (Tok k)
  with assms token_byte [of k] show ?thesis by (simp add: tok_def table_lengths)
next
  case (Fun k)
  with assms token_byte [of k] show ?thesis by (simp add: tok_def table_lengths)
next
  case (Chr c)
  with assms low_char [of c] show ?thesis by simp
qed

lemma chars_items:
  "\<forall>i \<in> set is. item_ok i \<Longrightarrow>
    chars_of u False (concat (map item_bytes is) @ 0 # r) = (concat (map item_text is) @ [if u then 10 else 13], Done, r)"
  by (induction "is") (simp_all add: chars_item)

lemma lines_saved:
  "\<forall>l \<in> set ls. line_ok l \<Longrightarrow> lines_of i u (concat (map line_bytes ls) @ 0 # 0 # r) = (listing i u ls, Done)"
proof (induction ls)
  case Nil
  have "be16 0 0 = 0" by (simp add: be16_def)
  then show ?case by (cases r rule: remdups_adj.cases) (simp_all add: listing_def)
next
  case (Cons l ls)
  obtain link n xs where l: "l = (link, n, xs)" by (cases l) auto
  with Cons show ?case
    by (simp add: line_bytes_def line_ok_def chars_items listing_def line_text_def Let_def)
qed

text \<open>C20:
  What BASIC has saved is listed as it was: for a program with any lines of tokens and
  characters, the output is the listing of its lines, each with its number in decimal, the texts
  of its items and the end of line that was asked for, whatever follows the program in the file.
  Where an \<open>int\<close> has 16 bits the number of a line from 32768 on is printed as the negative number
  that has the same bits.
\<close>

theorem detoken_lists:
  assumes "infiles env a = Some (readable (saved n ls @ r))" and "plain_arg a" and "length (buf s) = MAXBUF"
    and "\<forall>l \<in> set ls. line_ok l"
  shows "\<exists>t. detoken_main env [a] s = (Exit 0, t) \<and>
    outs t = (outs s)(sink s := outs s (sink s) @ listing (narrow_int env) (unixflg s) ls)"
proof -
  have f: "infiles env a = Some (readable (0xff # hi8 n # lo8 n # concat (map line_bytes ls) @ 0 # 0 # r))"
    using assms(1) by (simp add: saved_def)
  from main_program [OF f assms(2,3) lines_saved [OF assms(4)]] show ?thesis
    by (simp add: myprintf_def printf_def)
qed

text \<open>
  A file that does not start with 0xff is copied, with its line ends changed when that was asked
  for, and ends the program: the files behind it on the command line are never looked at.
\<close>

theorem detoken_text_ends:
  assumes "infiles env a = Some (readable (c # b))" and "c \<noteq> 0xff" and "plain_arg a" and "length (buf s) = MAXBUF"
  shows "\<exists>t. detoken_main env (a # as) s = (Exit 0, t) \<and>
    outs t = (outs s)(sink s := outs s (sink s) @ copied (unixflg s) (c # b))"
proof -
  note m = main_arg(1) [OF assms(1,3,4)] main_arg(2) [OF assms(1,3,4), of as]
  from foo_text [OF m(1) assms(2), of env False] obtain t where
    t: "foo env False (s\<lparr>fin := readable (c # b), fpos := 0\<rparr>) = Inl (Exit 0, t)"
      "view t = view (myprintf True (copied (unixflg s) (c # b)) (s\<lparr>fin := readable (c # b), fpos := 0\<rparr>))" by auto
  from view_fields(1) [OF t(2)] show ?thesis
    unfolding m(2) t(1) by (simp add: myprintf_def printf_def)
qed

section \<open>An example\<close>

text \<open>
  \<open>10 PRINT CHR$(65)\<close> and \<open>40000 END\<close>, whose number a 16-bit \<open>int\<close> prints as -25536; a program
  without its end; and a text.
\<close>

definition demo_prog :: "basic_line list" where
  "demo_prog = [(0x2610, 10, [Tok 7, Chr 32, Fun 11, Chr 0x28, Chr 0x36, Chr 0x35, Chr 0x29]), (0x2618, 40000, [Tok 10])]"

definition demo_denv :: denv where
  "demo_denv = \<lparr>infiles = (\<lambda>n. if n = [1] then Some (readable (saved 13 demo_prog @ []))
     else if n = [2] then Some (readable [0xff, 0, 5, 1, 1, 0]) else if n = [3] then Some (readable [0x41, 13]) else None),
     reopens = (\<lambda>_. True), errno = [], narrow_int = True\<rparr>"

definition demo_dt :: dt where
  "demo_dt = \<lparr>fin = readable [], fpos = 0, buf = replicate 256 0, len = 0, pos = 0, unixflg = True, tflag = False,
     sink = None, outs = \<lambda>_. [], errs = []\<rparr>"

lemma demo_dt_ok: "length (buf demo_dt) = MAXBUF" "plain_arg [1]" "plain_arg [2]" "plain_arg [3]"
  "sink demo_dt = None" "outs demo_dt = (\<lambda>_. [])" "unixflg demo_dt" "narrow_int demo_denv" "\<forall>l \<in> set demo_prog. line_ok l"
  by (simp_all add: demo_dt_def demo_denv_def MAXBUF_def plain_arg_def demo_prog_def line_ok_def)

lemma demo_numbers: "uint16_text True 10 = str ''10''" "uint16_text True 40000 = str ''-25536''"
proof -
  have "sint (10 :: u16) = 10" "sint (40000 :: u16) = - 25536" by simp_all
  moreover have "dec 10 = str ''10''" "dec (- 25536) = str ''-25536''"
    by (simp_all add: dec_def dec_nat.simps hex_digit_def str_def)
  ultimately show "uint16_text True 10 = str ''10''" "uint16_text True 40000 = str ''-25536''"
    by (simp_all add: uint16_text_def)
qed

lemma demo_tokens: "tokens ! 7 = ''PRINT''" "second ! 11 = ''CHR$''" "tokens ! 10 = ''END''"
  by code_simp+

lemma demo_listing: "listing True True demo_prog = str ''10 PRINT CHR$(65)'' @ [10] @ str ''-25536 END'' @ [10]"
  by (simp add: listing_def line_text_def demo_prog_def demo_numbers demo_tokens str_def)

lemma detoken_lists_witness:
  "\<exists>t. detoken_main demo_denv [[1]] demo_dt = (Exit 0, t) \<and> outs t None = str ''10 PRINT CHR$(65)'' @ [10] @ str ''-25536 END'' @ [10]"
proof -
  have "infiles demo_denv [1] = Some (readable (saved 13 demo_prog @ []))" by (simp add: demo_denv_def)
  from detoken_lists [OF this demo_dt_ok(2,1,9)] show ?thesis
    using demo_listing by (auto simp: demo_dt_ok)
qed

lemma detoken_whole_witness: "\<exists>t. detoken_main demo_denv [[2]] demo_dt = (Exit 1, t) \<and> outs t None = []"
proof -
  have "infiles demo_denv [2] = Some (readable (0xff # 0 # 5 # [1, 1, 0]))" by (simp add: demo_denv_def)
  moreover have "lines_of True (unixflg demo_dt) [1, 1, 0] = ([], Short)" by (simp add: be16_def)
  ultimately show ?thesis using detoken_whole [of demo_denv "[2]"] demo_dt_ok by fastforce
qed

lemma detoken_text_ends_witness:
  "\<exists>t. detoken_main demo_denv [[3], [1]] demo_dt = (Exit 0, t) \<and> outs t None = [0x41, 10]"
proof -
  have "infiles demo_denv [3] = Some (readable (0x41 # [13]))" by (simp add: demo_denv_def)
  moreover have "(0x41 :: u8) \<noteq> 0xff" by simp
  ultimately show ?thesis using detoken_text_ends [of demo_denv "[3]" "0x41" "[13]" demo_dt "[[1]]"] demo_dt_ok
    by (auto simp: copied_def)
qed

end
