(* ===== verification/Romfs.thy ===== *)
theory Romfs
  imports Cstring
begin

text \<open>
  \<open>decb/romfs.c\<close>, which packs a disk image of the Color Computer into a ROM: a table of 630
  sector numbers in the first three sectors, then the sectors that are not all 0xff or all zero.
  The last sector of each 16 kilobyte bank stays free.  It is a program of the host, with an
  \<open>int\<close> of 32 bits; the results of \<open>getopt\<close> are given.
\<close>

section \<open>State\<close>

definition SECZ :: nat where "SECZ = 256"

text \<open>
  The files of the host by name, those whose reads fail (directories) or that cannot be seeked (pipes), and how long a file may
  get before a write stops short.  \<open>inf\<close> and \<open>outf\<close> are the names behind the descriptors.
\<close>

record rom =
  files :: "bytes \<Rightarrow> bytes option"
  badreads :: "bytes \<Rightarrow> bool"
  unseekable :: "bytes \<Rightarrow> bool"
  limit :: nat
  inf :: bytes
  outf :: bytes
  buf :: bytes
  lsns :: bytes
  outpos :: nat
  banks :: int
  errs :: bytes

text \<open>What can be opened for reading and for writing, and the text of \<open>perror\<close>.\<close>

record renv =
  opens :: "bytes \<Rightarrow> bool"
  creates :: "bytes \<Rightarrow> bool"
  errno :: bytes

type_synonym 'a rres = "(nat \<times> rom) + ('a \<times> rom)"

definition ones :: bytes where "ones = replicate SECZ 0xff"
definition zero :: bytes where "zero = replicate SECZ 0"

definition eprintf :: "bytes \<Rightarrow> rom \<Rightarrow> rom" where
  "eprintf t s = s\<lparr>errs := errs s @ t\<rparr>"

definition perror :: "renv \<Rightarrow> string \<Rightarrow> rom \<Rightarrow> rom" where
  "perror env t s = eprintf (str t @ str '': '' @ errno env @ [10]) s"

definition exit :: "nat \<Rightarrow> rom \<Rightarrow> 'a rres" where
  "exit v s = Inl (v, s)"

section \<open>Sectors\<close>

text \<open>
  A short or failed read is not noticed: the return before the test of \<open>ret\<close> leaves what the
  buffer had.
\<close>

definition load :: "renv \<Rightarrow> nat \<Rightarrow> rom \<Rightarrow> unit rres" where
  "load env sec s =
     (if unseekable s (inf s) then exit 1 (perror env ''infile seek'' s)
      else case files s (inf s) of
        None \<Rightarrow> Inr ((), s)
      | Some f \<Rightarrow>
          if badreads s (inf s) then Inr ((), s)
          else let d = pread (sec * SECZ) SECZ f in Inr ((), s\<lparr>buf := d @ drop (length d) (buf s)\<rparr>))"

definition save :: "renv \<Rightarrow> bytes \<Rightarrow> nat \<Rightarrow> rom \<Rightarrow> unit rres" where
  "save env b sec s =
     (if unseekable s (outf s) then exit 1 (perror env ''outfile seek'' s)
      else let d = take (limit s - sec * SECZ) (take SECZ b);
          f = (case files s (outf s) of None \<Rightarrow> [] | Some f \<Rightarrow> f);
          s = s\<lparr>files := (files s)(outf s \<mapsto> pwrite (sec * SECZ) d f)\<rparr>
      in if length d \<noteq> SECZ then exit 1 (perror env ''outfile write'' s) else Inr ((), s))"

definition pack_sector :: "renv \<Rightarrow> nat \<Rightarrow> rom \<Rightarrow> unit rres" where
  "pack_sector env i s =
     rbind (load env i s) (\<lambda>(_, s).
      if buf s = ones then Inr ((), s\<lparr>lsns := (lsns s)[i := 0]\<rparr>)
      else if buf s = zero then Inr ((), s\<lparr>lsns := (lsns s)[i := 1]\<rparr>)
      else let p = outpos s; s = s\<lparr>lsns := (lsns s)[i := word_of_nat p], outpos := p + 1\<rparr> in
        rbind (save env (buf s) p s) (\<lambda>(_, s).
          if outpos s mod 64 = 63 then save env ones (outpos s) (s\<lparr>outpos := outpos s + 1\<rparr>)
          else Inr ((), s)))"

text \<open>The sectors from \<open>i\<close> on, \<open>n\<close> of them.\<close>

fun pack_loop :: "renv \<Rightarrow> nat \<Rightarrow> nat \<Rightarrow> rom \<Rightarrow> unit rres" where
  "pack_loop env 0 i s = Inr ((), s)"
| "pack_loop env (Suc n) i s = rbind (pack_sector env i s) (\<lambda>(_, s). pack_loop env n (i + 1) s)"

section \<open>main\<close>

datatype ropt = Opt_s int | Opt_unknown

definition printusage :: "rom \<Rightarrow> rom" where
  "printusage s = eprintf (str ''usage: romfs -s# infile outfile'' @ [10]) s"

fun set_opts :: "ropt list \<Rightarrow> rom \<Rightarrow> unit rres" where
  "set_opts [] s = Inr ((), s)"
| "set_opts (Opt_s n # os) s = set_opts os (s\<lparr>banks := int32 n\<rparr>)"
| "set_opts (Opt_unknown # os) s = exit 0 (printusage s)"

definition open_in :: "renv \<Rightarrow> bytes \<Rightarrow> rom \<Rightarrow> unit rres" where
  "open_in env n s =
     (if files s n = None \<or> \<not> opens env n then exit 1 (perror env ''infile open'' s)
      else Inr ((), s\<lparr>inf := n\<rparr>))"

definition open_out :: "renv \<Rightarrow> bytes \<Rightarrow> rom \<Rightarrow> unit rres" where
  "open_out env n s =
     (if \<not> creates env n then exit 1 (perror env ''outfile open'' s)
      else Inr ((), s\<lparr>files := (files s)(n \<mapsto> []), outf := n\<rparr>))"

definition pack :: "renv \<Rightarrow> rom \<Rightarrow> unit rres" where
  "pack env s =
     rbind (pack_loop env 630 0 (s\<lparr>outpos := 3\<rparr>)) (\<lambda>(_, s).
       if int (outpos s) > banks s * 64 then
         exit 1 (eprintf (str ''Error: cannot fit into ROM'' @ [10]) (s\<lparr>files := (files s)(outf s := None)\<rparr>))
       else rbind (save env (lsns s) 0 s) (\<lambda>(_, s).
         rbind (save env (drop SECZ (lsns s)) 1 s) (\<lambda>(_, s).
           rbind (save env (drop (2 * SECZ) (lsns s)) 2 s) (\<lambda>(_, s). exit 0 s))))"

definition romfs_main :: "renv \<Rightarrow> ropt list \<Rightarrow> bytes list \<Rightarrow> rom \<Rightarrow> unit rres" where
  "romfs_main env os args s =
     rbind (set_opts os (s\<lparr>lsns := replicate (SECZ * 3) 0\<rparr>)) (\<lambda>(_, s).
       case args of
         i # out # _ \<Rightarrow>
           rbind (open_in env i s) (\<lambda>(_, s).
             rbind (open_out env out s) (\<lambda>(_, s).
               if banks s < 1 \<or> 4 < banks s then
                 exit 1 (eprintf (str ''Error: number of banks must be 1-4'' @ [10]) s)
               else pack env s))
       | _ \<Rightarrow> exit 1 (printusage s))"

text \<open>A fresh process over the host's files.\<close>

definition start :: "(bytes \<Rightarrow> bytes option) \<Rightarrow> nat \<Rightarrow> rom" where
  "start fs lim = \<lparr>files = fs, badreads = (\<lambda>_. False), unseekable = (\<lambda>_. False), limit = lim, inf = [], outf = [],
     buf = replicate SECZ 0, lsns = replicate (SECZ * 3) 0, outpos = 5, banks = 1, errs = []\<rparr>"

end
