(* ===== verification/Romfs_Spec.thy ===== *)
theory Romfs_Spec
  imports Romfs
begin

text \<open>
  What a packed ROM gives back: the reader of the format finds every sector of the image in it,
  and whether an image fits depends on the number of its sectors that are neither all 0xff nor
  all zero.
\<close>

section \<open>The format\<close>

definition sector :: "bytes \<Rightarrow> nat \<Rightarrow> bytes" where
  "sector img i = pread (i * SECZ) SECZ img"

text \<open>Sector \<open>i\<close> of the disk that a ROM holds.\<close>

definition rom_sector :: "bytes \<Rightarrow> nat \<Rightarrow> bytes" where
  "rom_sector r i =
     (if r ! i = 0 then ones else if r ! i = 1 then zero else sector r (unat (r ! i)))"

text \<open>The buffer after sector \<open>i\<close> has been read: what lies behind the end of the image is not read.\<close>

fun held :: "bytes \<Rightarrow> bytes \<Rightarrow> nat \<Rightarrow> bytes" where
  "held b img 0 = (let d = sector img 0 in d @ drop (length d) b)"
| "held b img (Suc i) = (let d = sector img (Suc i) in d @ drop (length d) (held b img i))"

definition stored :: "bytes \<Rightarrow> bool" where
  "stored b \<longleftrightarrow> b \<noteq> ones \<and> b \<noteq> zero"

definition before :: "(nat \<Rightarrow> bytes) \<Rightarrow> nat \<Rightarrow> nat" where
  "before h i = length (filter (\<lambda>j. stored (h j)) [0..<i])"

text \<open>The place of the \<open>k\<close>-th stored sector: 63 of each bank's 64 are used, the first three by the table.\<close>

definition slot :: "nat \<Rightarrow> nat" where
  "slot k = k + 3 + (k + 3) div 63"

definition code :: "(nat \<Rightarrow> bytes) \<Rightarrow> nat \<Rightarrow> u8" where
  "code h i = (if h i = ones then 0 else if h i = zero then 1 else word_of_nat (slot (before h i)))"

lemma slot_split: "slot k = 64 * ((k + 3) div 63) + (k + 3) mod 63"
  unfolding slot_def using div_mult_mod_eq [of "k + 3" 63] by linarith

lemma slot_next:
  "(slot k + 1) mod 64 = 63 \<longleftrightarrow> slot (Suc k) = slot k + 2"
  "(slot k + 1) mod 64 \<noteq> 63 \<longleftrightarrow> slot (Suc k) = slot k + 1"
proof -
  define q r where "q = (k + 3) div 63" and "r = (k + 3) mod 63"
  have kr: "k + 3 = 63 * q + r" "r < 63" unfolding q_def r_def by simp_all
  have s: "slot k = 64 * q + r" using slot_split q_def r_def by simp
  have "(slot k + 1) mod 64 = r + 1" using s kr(2) by (simp add: mod_mult_self4)
  moreover have "slot (Suc k) = (if r = 62 then slot k + 2 else slot k + 1)"
  proof -
    have "Suc k + 3 = 63 * q + (r + 1)" using kr(1) by simp
    then have "slot (Suc k) = 63 * q + (r + 1) + (63 * q + (r + 1)) div 63" by (simp only: slot_def)
    moreover have "(63 * q + (r + 1)) div 63 = q + (r + 1) div 63" by simp
    moreover have "(r + 1) div 63 = (if r = 62 then 1 else 0)" using kr(2) by auto
    ultimately show ?thesis using s by simp
  qed
  ultimately show "(slot k + 1) mod 64 = 63 \<longleftrightarrow> slot (Suc k) = slot k + 2"
    "(slot k + 1) mod 64 \<noteq> 63 \<longleftrightarrow> slot (Suc k) = slot k + 1" by auto
qed

lemma slot_less: "slot k < slot (Suc k)"
  using slot_next [of k] by (cases "(slot k + 1) mod 64 = 63") auto

lemma slot_mono: "i < j \<Longrightarrow> slot i < slot j"
  by (rule lift_Suc_mono_less [of slot, OF slot_less])

lemma slot_ge: "3 \<le> slot k"
  by (simp add: slot_def)

lemma slot_fits: "slot k \<le> 64 * b \<longleftrightarrow> k + 3 \<le> 63 * b"
proof -
  define q r where "q = (k + 3) div 63" and "r = (k + 3) mod 63"
  have kr: "k + 3 = 63 * q + r" "r < 63" unfolding q_def r_def by simp_all
  have s: "slot k = 64 * q + r" using slot_split q_def r_def by simp
  show ?thesis
  proof (cases "q < b")
    case True
    then obtain c where "b = q + 1 + c" using less_imp_Suc_add by auto
    with kr s show ?thesis by simp
  next
    case False
    then obtain c where "q = b + c" using le_Suc_ex by (metis not_less)
    with kr s show ?thesis by auto
  qed
qed

lemma before_Suc: "before h (Suc i) = before h i + (if stored (h i) then 1 else 0)"
  by (simp add: before_def)

lemma before_mono: "i < j \<Longrightarrow> stored (h i) \<Longrightarrow> before h i < before h j"
proof -
  assume ij: "i < j" and s: "stored (h i)"
  have "[0..<j] = [0..<i] @ i # [Suc i..<j]" using ij by (metis upt_add_eq_append upt_conv_Cons le_add_diff_inverse less_imp_le zero_le)
  with s show ?thesis by (simp add: before_def)
qed

lemma before_le: "before h i \<le> i"
  unfolding before_def using length_filter_le [of "\<lambda>j. stored (h j)" "[0..<i]"] by simp

section \<open>Packing\<close>

text \<open>The part of the state that packing leaves as it is.\<close>

definition side :: "rom \<Rightarrow> rom" where
  "side s = s\<lparr>files := (files s)(outf s := None), buf := [], lsns := [], outpos := 0\<rparr>"

text \<open>The sectors up to \<open>i\<close> are packed.\<close>

definition packed :: "rom \<Rightarrow> (nat \<Rightarrow> bytes) \<Rightarrow> nat \<Rightarrow> rom \<Rightarrow> bool" where
  "packed s0 h i s \<longleftrightarrow> side s = side s0 \<and> length (lsns s) = 3 * SECZ \<and> outpos s = slot (before h i) \<and>
     (\<forall>j < i. lsns s ! j = code h j) \<and>
     (\<exists>f. files s (outf s) = Some f \<and>
       (\<forall>j < i. stored (h j) \<longrightarrow> pread (slot (before h j) * SECZ) SECZ f = h j))"

text \<open>The image can be read and is not the output, and the output can become as long as needed.\<close>

definition ready :: "rom \<Rightarrow> bytes \<Rightarrow> bool" where
  "ready s img \<longleftrightarrow> files s (inf s) = Some img \<and> \<not> badreads s (inf s) \<and> \<not> unseekable s (inf s) \<and> \<not> unseekable s (outf s) \<and> inf s \<noteq> outf s \<and> SECZ * 644 \<le> limit s"

lemma side_fields:
  assumes "side s = side t"
  shows "inf s = inf t" "outf s = outf t" "limit s = limit t" "banks s = banks t" "badreads s = badreads t" "unseekable s = unseekable t" "errs s = errs t"
    "n \<noteq> outf t \<Longrightarrow> files s n = files t n"
proof -
  show o: "outf s = outf t" and "inf s = inf t" "limit s = limit t" "banks s = banks t" "badreads s = badreads t" "unseekable s = unseekable t" "errs s = errs t"
    using arg_cong [OF assms, of outf] arg_cong [OF assms, of inf] arg_cong [OF assms, of limit]
      arg_cong [OF assms, of banks] arg_cong [OF assms, of badreads] arg_cong [OF assms, of unseekable] arg_cong [OF assms, of errs] by (simp_all add: side_def)
  show "n \<noteq> outf t \<Longrightarrow> files s n = files t n"
    using arg_cong [OF assms, of "\<lambda>s. files s n"] o by (simp add: side_def)
qed

lemma load_ready:
  assumes "side s = side t" "ready t img"
  shows "load env i s = Inr ((), s\<lparr>buf := sector img i @ drop (length (sector img i)) (buf s)\<rparr>)"
  using assms side_fields [OF assms(1)] by (simp add: load_def ready_def sector_def Let_def)

lemma save_ready:
  assumes "side s = side t" "ready t img" "length b = SECZ" "k < 644" "files s (outf s) = Some f"
  shows "save env b k s = Inr ((), s\<lparr>files := (files s)(outf s \<mapsto> pwrite (k * SECZ) b f)\<rparr>)"
proof -
  have "SECZ \<le> limit s - k * SECZ"
  proof -
    have "(k + 1) * 256 \<le> 644 * (256 :: nat)" using assms(4) by (intro mult_le_mono1) simp
    then have "SECZ + k * SECZ \<le> limit s"
      using assms(2) side_fields(3) [OF assms(1)] by (simp add: ready_def SECZ_def)
    then show ?thesis by simp
  qed
  with assms side_fields [OF assms(1)] show ?thesis by (simp add: save_def Let_def ready_def)
qed

lemma pread_whole: "length (pread off n f) = n \<Longrightarrow> 0 < n \<Longrightarrow> off + n \<le> length f"
  by (auto simp: length_pread min_def split: if_splits)

text \<open>What is in a slot stays there when another sector is written.\<close>

lemma slot_kept:
  assumes "pread (a * SECZ) SECZ f = b" "length b = SECZ" "length c = SECZ" "a \<noteq> k"
  shows "pread (a * SECZ) SECZ (pwrite (k * SECZ) c f) = b"
proof -
  have "a * SECZ + SECZ \<le> k * SECZ \<or> k * SECZ + SECZ \<le> a * SECZ"
  proof -
    from assms(4) consider "Suc a \<le> k" | "Suc k \<le> a" by linarith
    then show ?thesis by cases (metis add.commute mult_Suc mult_le_mono1)+
  qed
  moreover have "a * SECZ + SECZ \<le> length f"
    using assms(1,2) by (intro pread_whole) (simp_all add: SECZ_def)
  ultimately show ?thesis using assms(1,3) pread_pwrite_disjoint by metis
qed

lemma lens [simp]: "length ones = SECZ" "length zero = SECZ"
  by (simp_all add: ones_def zero_def)

lemma pack_sector_ok:
  assumes "packed s0 h i s" "ready s0 img" "i < 630" "\<And>j. length (h j) = SECZ"
    and "sector img i @ drop (length (sector img i)) (buf s) = h i"
  shows "\<exists>t. pack_sector env i s = Inr ((), t) \<and> packed s0 h (Suc i) t \<and> buf t = h i"
proof -
  note p = assms(1) [unfolded packed_def]
  define t where "t = s\<lparr>buf := h i\<rparr>"
  have ld: "load env i s = Inr ((), t)" using load_ready [of s s0 img env i] p assms(2,5) by (simp add: t_def)
  obtain f where f: "files s (outf s) = Some f"
    "\<And>j. j < i \<Longrightarrow> stored (h j) \<Longrightarrow> pread (slot (before h j) * SECZ) SECZ f = h j" using p by blast
  have il: "i < length (lsns s)" using p assms(3) by (simp add: SECZ_def)
  show ?thesis
  proof (cases "stored (h i)")
    case False
    then have nb: "before h (Suc i) = before h i" by (simp add: before_Suc)
    define u where "u = t\<lparr>lsns := (lsns t)[i := code h i]\<rparr>"
    have "pack_sector env i s = Inr ((), u)"
      using False by (auto simp: pack_sector_def ld u_def t_def code_def stored_def Let_def)
    moreover have "packed s0 h (Suc i) u"
      using p il f nb False by (auto simp: packed_def u_def t_def side_def nth_list_update less_Suc_eq)
    ultimately show ?thesis by (auto simp: u_def t_def)
  next
    case True
    define k where "k = slot (before h i)"
    define u where "u = t\<lparr>lsns := (lsns t)[i := code h i], outpos := k + 1\<rparr>"
    define g where "g = pwrite (k * SECZ) (h i) f"
    define v where "v = u\<lparr>files := (files u)(outf u \<mapsto> g)\<rparr>"
    have k: "k < 644" "k + 1 < 644"
    proof -
      have "before h i \<le> 629" using before_le [of h i] assms(3) by simp
      then have "slot (before h i) \<le> slot 629" using slot_mono [of "before h i" 629] by (cases "before h i = 629") auto
      then show "k < 644" "k + 1 < 644" by (simp_all add: k_def slot_def)
    qed
    have su: "side u = side s0" "files u (outf u) = Some f" using p f by (simp_all add: u_def t_def side_def)
    have sv: "side v = side s0" "files v (outf v) = Some g" using su(1) by (simp_all add: v_def side_def)
    have save1: "save env (h i) k u = Inr ((), v)"
      using save_ready [OF su(1) assms(2,4) k(1) su(2)] by (simp add: v_def g_def)
    have c: "code h i = word_of_nat k" using True by (simp add: code_def stored_def k_def)
    have run: "pack_sector env i s =
        (if (k + 1) mod 64 = 63 then save env ones (k + 1) (v\<lparr>outpos := k + 2\<rparr>) else Inr ((), v))"
    proof -
      have "outpos t = k" "buf t = h i" "buf u = h i" "outpos v = k + 1"
        using p by (simp_all add: t_def u_def v_def k_def)
      moreover have "t\<lparr>lsns := (lsns t)[i := word_of_nat k], outpos := k + 1\<rparr> = u" by (simp add: u_def c)
      ultimately show ?thesis using True save1 unfolding pack_sector_def ld Let_def by (simp add: stored_def)
    qed
    have gk: "pread (k * SECZ) SECZ g = h i" using assms(4) by (simp add: g_def pread_pwrite_same_len)
    have gj: "pread (slot (before h j) * SECZ) SECZ g = h j" if "j < i" "stored (h j)" for j
      unfolding g_def using f(2) [OF that] assms(4) slot_mono [OF before_mono [of j i h]] that
      by (intro slot_kept) (auto simp: k_def)
    have lv: "length (lsns v) = 3 * SECZ" "\<forall>j < Suc i. lsns v ! j = code h j"
      using p il by (auto simp: v_def u_def t_def nth_list_update less_Suc_eq)
    have nb: "before h (Suc i) = Suc (before h i)" using True by (simp add: before_Suc)
    have bv: "buf v = h i" by (simp add: v_def u_def t_def)
    show ?thesis
    proof (cases "(k + 1) mod 64 = 63")
      case False
      then have "outpos v = slot (before h (Suc i))" using slot_next(2) [of "before h i"] nb by (simp add: k_def v_def u_def)
      then have "packed s0 h (Suc i) v"
        unfolding packed_def using sv lv gk gj k_def by (auto simp: less_Suc_eq)
      with run False bv show ?thesis by auto
    next
      case True
      define w where "w = v\<lparr>outpos := k + 2, files := (files v)(outf v \<mapsto> pwrite ((k + 1) * SECZ) ones g)\<rparr>"
      have "save env ones (k + 1) (v\<lparr>outpos := k + 2\<rparr>) = Inr ((), w)"
        using save_ready [of "v\<lparr>outpos := k + 2\<rparr>" s0 img ones "k + 1" g env] sv assms(2) k(2)
        by (simp add: w_def side_def)
      moreover have "packed s0 h (Suc i) w"
      proof -
        have "outpos w = slot (before h (Suc i))" using slot_next(1) [of "before h i"] nb True by (simp add: k_def w_def)
        moreover have "pread (slot (before h j) * SECZ) SECZ (pwrite ((k + 1) * SECZ) ones g) = h j"
          if "j < Suc i" "stored (h j)" for j
        proof (rule slot_kept)
          show "pread (slot (before h j) * SECZ) SECZ g = h j"
            using that gk gj k_def by (cases "j = i") auto
          have "slot (before h j) \<le> k" using that slot_mono [OF before_mono [of j i h]]
            by (cases "j = i") (auto simp: k_def)
          then show "slot (before h j) \<noteq> k + 1" by simp
        qed (simp_all add: assms(4))
        moreover have "side w = side s0" "lsns w = lsns v" "files w (outf w) = Some (pwrite ((k + 1) * SECZ) ones g)"
          using sv(1) by (simp_all add: w_def side_def)
        ultimately show ?thesis unfolding packed_def using lv by auto
      qed
      ultimately show ?thesis using run True bv by (auto simp: w_def)
    qed
  qed
qed

lemma held_length: "length b = SECZ \<Longrightarrow> length (held b img i) = SECZ"
  by (induction i) (simp_all add: Let_def sector_def length_pread)

lemma sectors_packed:
  assumes "ready s0 img" "length b = SECZ" "h = held b img"
  shows "i + n \<le> 630 \<Longrightarrow> packed s0 h i s \<Longrightarrow> buf s = (case i of 0 \<Rightarrow> b | Suc j \<Rightarrow> h j) \<Longrightarrow>
    \<exists>t. pack_loop env n i s = Inr ((), t) \<and> packed s0 h (i + n) t"
proof (induction n arbitrary: i s)
  case (Suc n)
  have "sector img i @ drop (length (sector img i)) (buf s) = h i"
    using Suc.prems(3) assms(3) by (cases i) (simp_all add: Let_def)
  with pack_sector_ok [OF Suc.prems(2) assms(1), of env] Suc.prems(1) held_length [OF assms(2)] assms(3)
  obtain t where t: "pack_sector env i s = Inr ((), t)" "packed s0 h (Suc i) t" "buf t = h i" by auto
  with Suc.IH [of "Suc i" t] Suc.prems(1) show ?case by simp
qed simp

section \<open>The program\<close>

lemma table_written:
  assumes "length t = 3 * SECZ"
  shows "pwrite (2 * SECZ) (take SECZ (drop (2 * SECZ) t)) (pwrite SECZ (take SECZ (drop SECZ t)) (pwrite 0 (take SECZ t) f)) =
    pwrite 0 t f"
proof -
  have "pwrite SECZ (take SECZ (drop SECZ t)) (pwrite 0 (take SECZ t) f) = pwrite 0 (take SECZ t @ take SECZ (drop SECZ t)) f"
    using pwrite_append [of 0 "take SECZ t" "take SECZ (drop SECZ t)" f] assms by simp
  moreover have "take SECZ t @ take SECZ (drop SECZ t) = take (2 * SECZ) t"
    using take_add [of SECZ SECZ t] by (simp add: mult_2)
  moreover have "take (2 * SECZ) t @ take SECZ (drop (2 * SECZ) t) = t"
    using take_add [of "2 * SECZ" SECZ t] assms by simp
  ultimately show ?thesis
    using pwrite_append [of 0 "take (2 * SECZ) t" "take SECZ (drop (2 * SECZ) t)" f] assms by simp
qed

lemma save_take: "save env (take SECZ b) k s = save env b k s"
  by (simp add: save_def)

lemma pack_ok:
  assumes "ready s img" "length (buf s) = SECZ" "length (lsns s) = 3 * SECZ" "files s (outf s) = Some []"
    and "h = held (buf s) img" "int b = banks s" "b \<le> 4"
  shows "\<exists>t. pack env s = Inl (if before h 630 + 3 \<le> 63 * b then 0 else 1, t) \<and>
    (\<forall>n. n \<noteq> outf s \<longrightarrow> files t n = files s n) \<and>
    (if before h 630 + 3 \<le> 63 * b then \<exists>r. files t (outf s) = Some r \<and> (\<forall>i < 630. rom_sector r i = h i) \<and> errs t = errs s
     else files t (outf s) = None)"
proof -
  define s0 where "s0 = s\<lparr>outpos := 3\<rparr>"
  have p: "packed s0 h 0 s0" "ready s0 img" "buf s0 = buf s"
    using assms by (simp_all add: packed_def s0_def before_def slot_def ready_def)
  from sectors_packed [OF p(2) assms(2,5), of 0 630 s0 env] p obtain t where
    t: "pack_loop env 630 0 s0 = Inr ((), t)" "packed s0 h 630 t" by auto
  have st: "side t = side s0" "outpos t = slot (before h 630)" "length (lsns t) = 3 * SECZ" using t(2) by (simp_all add: packed_def)
  note sf = side_fields [OF st(1)]
  have fits: "int (outpos t) > banks t * 64 \<longleftrightarrow> \<not> before h 630 + 3 \<le> 63 * b"
  proof -
    have "banks t = int b" using sf(4) assms(6) by (simp add: s0_def)
    then show ?thesis using st(2) slot_fits [of "before h 630" b] by linarith
  qed
  have o: "outf t = outf s" "errs t = errs s" "\<And>n. n \<noteq> outf s \<Longrightarrow> files t n = files s n" using sf(2,7,8) by (simp_all add: s0_def)
  show ?thesis
  proof (cases "before h 630 + 3 \<le> 63 * b")
    case False
    with fits t(1) have "pack env s = Inl (1, eprintf (str ''Error: cannot fit into ROM'' @ [10]) (t\<lparr>files := (files t)(outf t := None)\<rparr>))"
      by (simp add: pack_def s0_def exit_def)
    with False o show ?thesis by (simp add: eprintf_def)
  next
    case True
    obtain f where f: "files t (outf t) = Some f"
      "\<And>j. j < 630 \<Longrightarrow> stored (h j) \<Longrightarrow> pread (slot (before h j) * SECZ) SECZ f = h j" using t(2) by (auto simp: packed_def)
    define a where "a = (\<lambda>f. t\<lparr>files := (files t)(outf t \<mapsto> f)\<rparr>)"
    have sa: "side (a f) = side s0" "files (a f) (outf (a f)) = Some f" "lsns (a f) = lsns t" for f
      using st(1) by (simp_all add: a_def side_def)
    have sv: "save env c k (a f) = Inr ((), a (pwrite (k * SECZ) (take SECZ c) f))" if "k < 644" "SECZ \<le> length c" for c k f
      using save_ready [OF sa(1) p(2) _ that(1) sa(2), of "take SECZ c" env] that(2) by (simp add: save_take a_def)
    have at: "a f = t" using f(1) by (simp add: a_def fun_upd_idem)
    define r where "r = pwrite 0 (lsns t) f"
    have run: "pack env s = Inl (0, a r)"
    proof -
      have "save env (lsns t) 0 t = Inr ((), a (pwrite 0 (take SECZ (lsns t)) f))"
        using sv [of 0 "lsns t" f] at st(3) by simp
      moreover have "save env (drop SECZ (lsns t)) 1 (a g) = Inr ((), a (pwrite SECZ (take SECZ (drop SECZ (lsns t))) g))" for g
        using sv [of 1 "drop SECZ (lsns t)" g] st(3) by simp
      moreover have "save env (drop (2 * SECZ) (lsns t)) 2 (a g) = Inr ((), a (pwrite (2 * SECZ) (take SECZ (drop (2 * SECZ) (lsns t))) g))" for g
        using sv [of 2 "drop (2 * SECZ) (lsns t)" g] st(3) by simp
      ultimately show ?thesis
        using fits True t(1) table_written [OF st(3), of f] by (simp add: pack_def s0_def exit_def sa(3) r_def)
    qed
    have "rom_sector r i = h i" if i: "i < 630" for i
    proof -
      have "r ! i = lsns t ! i" using i st(3) by (auto simp: r_def pwrite_def nth_append SECZ_def)
      also have "\<dots> = code h i" using t(2) i by (simp add: packed_def)
      finally have ri: "r ! i = code h i" .
      show ?thesis
      proof (cases "stored (h i)")
        case False
        then show ?thesis by (auto simp: rom_sector_def ri code_def stored_def)
      next
        case st: True
        have "slot (before h i) < slot (before h 630)" by (rule slot_mono) (rule before_mono, fact i, fact st)
        moreover have "slot (before h 630) \<le> 64 * b" using True slot_fits by simp
        ultimately have k: "slot (before h i) < 256" using assms(7) by simp
        then have u: "unat (code h i) = slot (before h i)" "3 \<le> unat (code h i)"
          using st slot_ge [of "before h i"] by (simp_all add: code_def stored_def unat_of_nat take_bit_nat_eq_self)
        then have "code h i \<noteq> 0" "code h i \<noteq> 1" by auto
        moreover have "pread (slot (before h i) * SECZ) SECZ r = h i"
          unfolding r_def using f(2) [OF i st] slot_ge [of "before h i"] \<open>length (lsns t) = 3 * SECZ\<close> pread_whole [of "slot (before h i) * SECZ" SECZ f] held_length [OF assms(2), of img i] assms(5)
          by (subst pread_pwrite_disjoint) (auto simp: SECZ_def)
        ultimately show ?thesis by (simp add: rom_sector_def ri sector_def u)
      qed
    qed
    then show ?thesis using run True o by (auto simp: a_def)
  qed
qed


lemma held_sector:
  "length b = SECZ \<Longrightarrow> length img = SECZ * k \<Longrightarrow> 0 < k \<Longrightarrow> held b img i = sector img (min i (k - 1))"
proof (induction i)
  case 0
  then show ?case by (cases k) (simp_all add: sector_def pread_def Let_def)
next
  case (Suc i)
  show ?case
  proof (cases "Suc i < k")
    case True
    then have "Suc i * SECZ + SECZ \<le> length img"
      using Suc.prems(2) mult_le_mono1 [of "Suc (Suc i)" k SECZ] by (simp add: mult.commute)
    then have "length (sector img (Suc i)) = SECZ" by (simp add: sector_def)
    moreover have "min (Suc i) (k - 1) = Suc i" using True by simp
    ultimately show ?thesis using held_length [OF Suc.prems(1), of img i] by (simp add: Let_def)
  next
    case False
    then have "length img \<le> Suc i * SECZ" using Suc.prems(2) mult_le_mono1 [of k "Suc i" SECZ] by (simp add: mult.commute)
    then have "sector img (Suc i) = []" by (simp add: sector_def pread_def)
    moreover have "min i (k - 1) = min (Suc i) (k - 1)" using False by simp
    ultimately show ?thesis using Suc by (simp add: Let_def)
  qed
qed

text \<open>The number of sectors that an image needs in the ROM.\<close>

definition needed :: "bytes \<Rightarrow> nat" where
  "needed img = length (filter (\<lambda>i. stored (sector img i)) [0..<630])"

lemma set_opts_s: "set_opts (map Opt_s ns) s = Inr ((), s\<lparr>banks := (case rev ns of [] \<Rightarrow> banks s | n # _ \<Rightarrow> int32 n)\<rparr>)"
proof (induction ns arbitrary: s)
  case (Cons n ns)
  show ?case by (simp add: Cons split: list.split)
qed simp

lemma main_packs:
  assumes "fs a = Some img" "a \<noteq> c" "opens env a" "creates env c" "SECZ * 644 \<le> lim"
    and "length img = SECZ * k" "0 < k" "1 \<le> b" "b \<le> 4" "h = (\<lambda>i. sector img (min i (k - 1)))"
  shows "\<exists>t. romfs_main env [Opt_s (int b)] [a, c] (start fs lim) = Inl (if before h 630 + 3 \<le> 63 * b then 0 else 1, t) \<and>
    (\<forall>n. n \<noteq> c \<longrightarrow> files t n = fs n) \<and>
    (if before h 630 + 3 \<le> 63 * b then \<exists>r. files t c = Some r \<and> (\<forall>i < 630. rom_sector r i = h i) \<and> errs t = []
     else files t c = None)"
proof -
  define s where "s = (start fs lim)\<lparr>banks := int b, inf := a, files := fs(c \<mapsto> []), outf := c\<rparr>"
  have "int32 (int b) = int b" using assms(9) by (intro int32_id) simp_all
  then have run: "romfs_main env [Opt_s (int b)] [a, c] (start fs lim) = pack env s"
    using assms by (simp add: romfs_main_def start_def open_in_def open_out_def s_def)
  have h: "h = held (buf s) img"
    using held_sector [OF _ assms(6,7), of "buf s"] assms(10) by (simp add: s_def start_def fun_eq_iff)
  have r: "ready s img" "length (buf s) = SECZ" "length (lsns s) = 3 * SECZ" "files s (outf s) = Some []" "int b = banks s"
    using assms by (simp_all add: ready_def s_def start_def)
  have "outf s = c" "errs s = []" "\<And>n. n \<noteq> c \<Longrightarrow> files s n = fs n" by (simp_all add: s_def start_def)
  with pack_ok [OF r(1-4) h r(5) assms(9), of env] show ?thesis unfolding run by auto
qed

text \<open>C24:
  A ROM holds the disk: a whole image of 630 sectors fits into 1 to 4 banks if and only if it has
  at most 63 sectors per bank, less the three of the table, that are neither all 0xff nor all
  zero.  Then every sector of the disk can be read from the ROM, and else no ROM is left.  The
  other files are as they were.
\<close>

theorem romfs_roundtrip:
  assumes "fs a = Some img" and "a \<noteq> c" and "opens env a" and "creates env c" and "SECZ * 644 \<le> lim"
    and "length img = 630 * SECZ" and "1 \<le> b" and "b \<le> 4"
  shows "\<exists>t. romfs_main env [Opt_s (int b)] [a, c] (start fs lim) = Inl (if needed img \<le> 63 * b - 3 then 0 else 1, t) \<and>
    (\<forall>n. n \<noteq> c \<longrightarrow> files t n = fs n) \<and>
    (if needed img \<le> 63 * b - 3 then \<exists>r. files t c = Some r \<and> (\<forall>i < 630. rom_sector r i = sector img i)
     else files t c = None)"
proof -
  define h where "h = (\<lambda>i. sector img (min i (630 - 1)))"
  have hi: "\<And>i. i < 630 \<Longrightarrow> h i = sector img i" by (simp add: h_def min_def)
  have "before h 630 = needed img"
    unfolding before_def needed_def using hi by (intro arg_cong [where f = length] filter_cong) auto
  then have b: "before h 630 + 3 \<le> 63 * b \<longleftrightarrow> needed img \<le> 63 * b - 3" using assms(7) by linarith
  have l: "length img = SECZ * 630" using assms(6) by simp
  have "(0 :: nat) < 630" by simp
  from main_packs [where fs = fs and a = a and h = h, OF assms(1-5) l this assms(7,8) h_def] hi show ?thesis unfolding b by (auto cong: all_cong)
qed

text \<open>An image continued to 630 sectors with copies of its last one.\<close>

definition padded :: "bytes \<Rightarrow> bytes" where
  "padded img = img @ concat (replicate (630 - length img div SECZ) (sector img (length img div SECZ - 1)))"

lemma sector_copies: "length b = SECZ \<Longrightarrow> i < n \<Longrightarrow> sector (concat (replicate n b)) i = b"
proof (induction n arbitrary: i)
  case (Suc n)
  then show ?case by (cases i) (simp_all add: sector_def pread_def)
qed simp

lemma sector_padded:
  assumes "length img = SECZ * k" "0 < k" "k \<le> 630" "i < 630"
  shows "sector (padded img) i = sector img (min i (k - 1))"
proof -
  define l where "l = sector img (k - 1)"
  have d: "length img div SECZ = k" using assms(1) by (simp add: SECZ_def)
  have e: "padded img = img @ concat (replicate (630 - k) l)" by (simp add: padded_def d l_def)
  have "SECZ * (k - 1) + SECZ = length img" using assms(1,2) by (cases k) simp_all
  then have ll: "length l = SECZ" by (simp add: l_def sector_def length_pread mult.commute)
  show ?thesis
  proof (cases "i < k")
    case True
    then have "i * SECZ + SECZ \<le> length img" using assms(1) mult_le_mono1 [of "Suc i" k SECZ] by (simp add: mult.commute)
    moreover have "min i (k - 1) = i" using True by simp
    ultimately show ?thesis by (simp add: e sector_def pread_def)
  next
    case False
    then obtain j where j: "i = k + j" using le_Suc_ex by (metis not_less)
    then have "sector (padded img) i = sector (concat (replicate (630 - k) l)) j"
      using assms(1) by (simp add: e sector_def pread_def add_mult_distrib2 mult.commute)
    moreover have "min i (k - 1) = k - 1" using False by simp
    ultimately show ?thesis using sector_copies [OF ll, of j "630 - k"] j assms(4) by (simp add: l_def)
  qed
qed

text \<open>
  A truncated image is packed without a word: the ROM holds the image continued with copies of
  its last sector.
\<close>

theorem romfs_truncated:
  assumes "fs a = Some img" and "a \<noteq> c" and "opens env a" and "creates env c" and "SECZ * 644 \<le> lim"
    and "length img = SECZ * k" and "0 < k" and "k < 630" and "1 \<le> b" and "b \<le> 4"
    and "needed (padded img) \<le> 63 * b - 3"
  shows "\<exists>t r. romfs_main env [Opt_s (int b)] [a, c] (start fs lim) = Inl (0, t) \<and> errs t = [] \<and>
    files t c = Some r \<and> (\<forall>i < 630. rom_sector r i = sector (padded img) i)"
proof -
  define h where "h = (\<lambda>i. sector img (min i (k - 1)))"
  have hi: "\<And>i. i < 630 \<Longrightarrow> h i = sector (padded img) i" using sector_padded [OF assms(6,7)] assms(8) by (simp add: h_def)
  have "before h 630 = needed (padded img)"
    unfolding before_def needed_def using hi by (intro arg_cong [where f = length] filter_cong) auto
  then have b: "before h 630 + 3 \<le> 63 * b" using assms(9,11) by linarith
  from main_packs [where fs = fs and a = a and h = h, OF assms(1-7,9,10) h_def] hi b show ?thesis by (auto cong: all_cong)
qed

text \<open>
  The number of banks is looked at when the output file has already been emptied: a wrong number
  costs the file of that name its contents.
\<close>

theorem romfs_bad_banks:
  assumes "fs a = Some img" and "opens env a" and "creates env c"
    and "- 2147483648 \<le> b \<and> b < 1 \<or> 4 < b \<and> b < 2147483648"
  shows "\<exists>t. romfs_main env [Opt_s b] [a, c] (start fs lim) = Inl (1, t) \<and> files t c = Some []"
  using assms by (auto simp: romfs_main_def start_def open_in_def open_out_def int32_id exit_def eprintf_def)

section \<open>An example\<close>

text \<open>A disk with data in its first sector, zeros in the next 399 and an unwritten rest.\<close>

definition demo_disk :: bytes where
  "demo_disk = replicate SECZ 7 @ replicate (399 * SECZ) 0 @ replicate (230 * SECZ) 0xff"

definition demo_renv :: renv where
  "demo_renv = \<lparr>opens = (\<lambda>_. True), creates = (\<lambda>_. True), errno = []\<rparr>"

lemma sector_replicate:
  "sector (replicate (a * SECZ) c @ r) i = (if i < a then replicate SECZ c else sector r (i - a))"
proof (cases "i < a")
  case True
  then have "i * SECZ + SECZ \<le> a * SECZ" using mult_le_mono1 [of "Suc i" a SECZ] by simp
  with True show ?thesis by (simp add: sector_def pread_def min_def)
next
  case False
  then obtain j where "i = a + j" using le_Suc_ex by (metis not_less)
  then show ?thesis by (simp add: sector_def pread_def add_mult_distrib)
qed

lemma demo_sector: "i < 630 \<Longrightarrow> sector demo_disk i = replicate SECZ (if i = 0 then 7 else if i < 400 then 0 else 0xff)"
proof -
  assume i: "i < 630"
  have e: "demo_disk = replicate (1 * SECZ) 7 @ replicate (399 * SECZ) 0 @ replicate (230 * SECZ) 0xff @ []"
    by (simp only: demo_disk_def mult_1 append_Nil2)
  show ?thesis unfolding e sector_replicate using i by auto
qed

lemma demo_stored: "i < 630 \<Longrightarrow> stored (sector demo_disk i) \<longleftrightarrow> i = 0"
proof -
  have "0 < SECZ" by (simp add: SECZ_def)
  then have "stored (replicate SECZ 7)" "\<not> stored (replicate SECZ 0)" "\<not> stored (replicate SECZ 0xff)"
    by (auto simp: stored_def ones_def zero_def replicate_eq_replicate)
  moreover assume "i < 630"
  ultimately show ?thesis by (simp add: demo_sector)
qed

lemma filter_zero: "filter (\<lambda>i. i = 0) [0..<Suc n] = [0]"
  by (induction n) auto

lemma demo_needed: "needed demo_disk = 1"
proof -
  have "filter (\<lambda>i. stored (sector demo_disk i)) [0..<630] = filter (\<lambda>i. i = 0) [0..<630]"
    by (rule filter_cong [OF refl]) (rule demo_stored, simp only: set_upt atLeastLessThan_iff)
  also have "\<dots> = [0]" using filter_zero [of 629] by (simp only: Suc_numeral semiring_norm)
  finally show ?thesis by (simp only: needed_def) simp
qed

text \<open>The first 400 sectors of it, and its ROM from one bank.\<close>

definition demo_half :: bytes where
  "demo_half = replicate SECZ 7 @ replicate (399 * SECZ) 0"

lemma demo_half_ok: "length demo_half = SECZ * 400" "i < 630 \<Longrightarrow> sector (padded demo_half) i = replicate SECZ (if i = 0 then 7 else 0)"
  "needed (padded demo_half) \<le> 1"
proof -
  show l: "length demo_half = SECZ * 400" by (simp add: demo_half_def)
  have e: "demo_half = replicate (1 * SECZ) 7 @ replicate (399 * SECZ) 0 @ []"
    by (simp only: demo_half_def mult_1 append_Nil2)
  have s: "sector (padded demo_half) i = replicate SECZ (if i = 0 then 7 else 0)" if "i < 630" for i
  proof -
    have "sector (padded demo_half) i = sector demo_half (min i (400 - 1))" using that by (intro sector_padded [OF l]) simp_all
    also have "\<dots> = replicate SECZ (if i = 0 then 7 else 0)" unfolding e sector_replicate by (auto simp: min_def)
    finally show ?thesis .
  qed
  then show "i < 630 \<Longrightarrow> sector (padded demo_half) i = replicate SECZ (if i = 0 then 7 else 0)" .
  have "0 < SECZ" by (simp add: SECZ_def)
  then have st: "stored (sector (padded demo_half) i) \<longleftrightarrow> i = 0" if "i < 630" for i
    using that by (auto simp: s stored_def ones_def zero_def replicate_eq_replicate)
  have "filter (\<lambda>i. stored (sector (padded demo_half) i)) [0..<630] = filter (\<lambda>i. i = 0) [0..<630]"
    by (rule filter_cong [OF refl]) (rule st, simp only: set_upt atLeastLessThan_iff)
  also have "\<dots> = [0]" using filter_zero [of 629] by (simp only: Suc_numeral semiring_norm)
  finally show "needed (padded demo_half) \<le> 1" by (simp only: needed_def) simp
qed

lemma demo_renv_ok: "opens demo_renv n" "creates demo_renv n"
  by (simp_all add: demo_renv_def)

lemma demo_limit: "SECZ * 644 \<le> 1000000"
  by (simp add: SECZ_def)

lemma romfs_roundtrip_witness:
  "\<exists>t r. romfs_main demo_renv [Opt_s 1] [[1], [2]] (start [[1] \<mapsto> demo_disk] 1000000) = Inl (0, t) \<and>
    files t [2] = Some r \<and> rom_sector r 0 = replicate SECZ 7 \<and> rom_sector r 500 = replicate SECZ 0xff"
proof -
  have l: "length demo_disk = 630 * SECZ" by (simp add: demo_disk_def)
  have f: "[[1] \<mapsto> demo_disk] [1] = Some demo_disk" "[1 :: u8] \<noteq> [2]" by simp_all
  from romfs_roundtrip [where fs = "[[1] \<mapsto> demo_disk]" and a = "[1]" and b = 1,
      OF f demo_renv_ok demo_limit l] demo_needed
  obtain t r where t: "romfs_main demo_renv [Opt_s 1] [[1], [2]] (start [[1] \<mapsto> demo_disk] 1000000) = Inl (0, t)"
    "files t [2] = Some r" "\<forall>i < 630. rom_sector r i = sector demo_disk i" by auto
  then have "rom_sector r 0 = sector demo_disk 0" "rom_sector r 500 = sector demo_disk 500" by simp_all
  with t show ?thesis by (simp add: demo_sector)
qed

lemma romfs_truncated_witness:
  "\<exists>t r. romfs_main demo_renv [Opt_s 1] [[1], [2]] (start [[1] \<mapsto> demo_half] 1000000) = Inl (0, t) \<and>
    files t [2] = Some r \<and> rom_sector r 500 = replicate SECZ 0"
proof -
  have f: "[[1] \<mapsto> demo_half] [1] = Some demo_half" "[1 :: u8] \<noteq> [2]" by simp_all
  have n: "needed (padded demo_half) \<le> 63 * 1 - 3" "(0 :: nat) < 400" "(400 :: nat) < 630" "(1 :: nat) \<le> 1" "(1 :: nat) \<le> 4"
    using demo_half_ok(3) by simp_all
  from romfs_truncated [where fs = "[[1] \<mapsto> demo_half]" and a = "[1]",
      OF f demo_renv_ok demo_limit demo_half_ok(1) n(2-5,1)]
  obtain t r where t: "romfs_main demo_renv [Opt_s 1] [[1], [2]] (start [[1] \<mapsto> demo_half] 1000000) = Inl (0, t)"
    "files t [2] = Some r" "\<forall>i < 630. rom_sector r i = sector (padded demo_half) i" by auto
  then have "rom_sector r 500 = sector (padded demo_half) 500" by simp
  with t show ?thesis by (simp add: demo_half_ok(2))
qed

lemma romfs_bad_banks_witness:
  "\<exists>t. romfs_main demo_renv [Opt_s 9] [[1], [2]] (start [[1] \<mapsto> demo_half, [2] \<mapsto> [1, 2, 3]] 1000000) = Inl (1, t) \<and>
    files t [2] = Some []"
  by (rule romfs_bad_banks [where img = demo_half]) (simp_all add: demo_renv_ok)

end
