(* ===== verification/Os9sim.thy ===== *)
theory Os9sim
  imports Cstring
begin

text \<open>
  \<open>os9sim/os9sim.c\<close>: it loads an OS-9 module into its own address space, and serves the system
  calls the module makes with those of Fuzix.  The kernel is a record of functions over a state
  of its own, \<open>'k\<close>; the processor that runs the module between the calls is not modelled, so a
  call is a step from any state.  \<open>int\<close> and pointers have 16 bits.
\<close>

section \<open>State\<close>

text \<open>
  The kernel: results below 0 are errors, a failed \<open>read\<close> is \<open>None\<close>.  \<open>indet\<close> is what \<open>getmode\<close>'s
  variable happens to hold, and \<open>frame_s\<close> the address of \<open>main\<close>'s variable \<open>s\<close>.
\<close>

record 'k sys =
  k_open :: "bytes \<Rightarrow> int \<Rightarrow> u16 option \<Rightarrow> 'k \<Rightarrow> int \<times> 'k"
  k_close :: "int \<Rightarrow> 'k \<Rightarrow> int \<times> 'k"
  k_read :: "int \<Rightarrow> nat \<Rightarrow> 'k \<Rightarrow> bytes option \<times> 'k"
  k_write :: "int \<Rightarrow> bytes \<Rightarrow> 'k \<Rightarrow> int \<times> 'k"
  k_lseek :: "int \<Rightarrow> u32 \<Rightarrow> 'k \<Rightarrow> int \<times> 'k"
  k_mkdir :: "bytes \<Rightarrow> u16 \<Rightarrow> 'k \<Rightarrow> int \<times> 'k"
  k_unlink :: "bytes \<Rightarrow> 'k \<Rightarrow> int \<times> 'k"
  k_chdir :: "bytes \<Rightarrow> 'k \<Rightarrow> int \<times> 'k"
  k_dup :: "int \<Rightarrow> 'k \<Rightarrow> int \<times> 'k"
  k_sbrk0 :: "'k \<Rightarrow> u16"
  k_brk :: "u16 \<Rightarrow> 'k \<Rightarrow> int \<times> 'k"
  k_uname :: "'k \<Rightarrow> int \<times> u8"
  k_swi2 :: "int \<Rightarrow> 'k \<Rightarrow> int \<times> 'k"
  k_errno :: "'k \<Rightarrow> int"
  k_strerror :: "'k \<Rightarrow> bytes"
  o_creat :: u16
  indet :: u16
  frame_s :: u16

text \<open>
  The program: the registers of the module that \<open>reg\<close> points to, the memory, which program and
  module share, and the variables.
\<close>

type_synonym mem = "u16 \<Rightarrow> u8"

record 'k os9 =
  r_cc :: u8
  r_a :: u8
  r_b :: u8
  r_dp :: u8
  r_x :: u16
  r_y :: u16
  r_u :: u16
  r_pc :: u16
  mem :: mem
  mybrk :: u16
  mytop :: u16
  datasize :: u16
  path :: bytes
  termfd :: u8
  po :: bytes
  outs :: bytes
  errs :: bytes
  kern :: 'k

text \<open>
  How a run can end: \<open>exit\<close>, a write behind \<open>path\<close>, a memory of nothing but blanks, in which the
  search for the end of them does not end, a string at the null pointer, and the start of the module.
\<close>

datatype ostop = Exit int | Overrun | Forever | Null_string | Go u16

type_synonym ('a, 'k) ores = "(ostop \<times> 'k os9) + ('a \<times> 'k os9)"

definition eprintf :: "bytes \<Rightarrow> 'k os9 \<Rightarrow> 'k os9" where
  "eprintf t s = s\<lparr>errs := errs s @ t\<rparr>"

definition printf :: "bytes \<Rightarrow> 'k os9 \<Rightarrow> 'k os9" where
  "printf t s = s\<lparr>outs := outs s @ t\<rparr>"

definition perror :: "'k sys \<Rightarrow> bytes \<Rightarrow> 'k os9 \<Rightarrow> 'k os9" where
  "perror K t s = eprintf (t @ str '': '' @ k_strerror K (kern s) @ [10]) s"

definition exit :: "int \<Rightarrow> 'k os9 \<Rightarrow> ('a, 'k) ores" where
  "exit v s = Inl (Exit v, s)"

text \<open>A call of the kernel, whose result is an \<open>int\<close>.\<close>

definition kcall :: "('k \<Rightarrow> int \<times> 'k) \<Rightarrow> 'k os9 \<Rightarrow> int \<times> 'k os9" where
  "kcall f s = (case f (kern s) of (r, k) \<Rightarrow> (int16 r, s\<lparr>kern := k\<rparr>))"

section \<open>Memory\<close>

definition get16 :: "mem \<Rightarrow> u16 \<Rightarrow> u16" where
  "get16 m p = be16 (m p) (m (p + 1))"

fun poke :: "u16 \<Rightarrow> bytes \<Rightarrow> mem \<Rightarrow> mem" where
  "poke p [] m = m"
| "poke p (c # cs) m = poke (p + 1) cs (m(p := c))"

fun peek :: "mem \<Rightarrow> u16 \<Rightarrow> nat \<Rightarrow> bytes" where
  "peek m p 0 = []"
| "peek m p (Suc n) = m p # peek m (p + 1) n"

text \<open>The break, which the program keeps itself; the sum is one of unsigned 16-bit words.\<close>

definition mysbrk :: "u16 \<Rightarrow> 'k os9 \<Rightarrow> u16 \<times> 'k os9" where
  "mysbrk inc s =
     (let old = mybrk s in
      if mytop s < mybrk s + inc then (- 1, s) else (old, s\<lparr>mybrk := mybrk s + inc\<rparr>))"

definition dump :: "u16 \<Rightarrow> int \<Rightarrow> 'k os9 \<Rightarrow> 'k os9" where
  "dump p c s =
     eprintf (concat (map (\<lambda>b. hex (unat (scast b :: u16)) @ [32]) (peek (mem s) p (nat c))) @ [10]) s"

section \<open>Paths\<close>

text \<open>
  The end of the blanks at \<open>p\<close>, after at most \<open>n\<close> of them: if there are more than 65535, all of the
  memory is blank.
\<close>

fun blanks :: "nat \<Rightarrow> mem \<Rightarrow> u16 \<Rightarrow> u16 option" where
  "blanks n m p = (if m p \<noteq> 32 then Some p else case n of 0 \<Rightarrow> None | Suc n \<Rightarrow> blanks n m (p + 1))"

text \<open>The characters of a name, of which there may be \<open>n\<close>, and where it ends; characters are signed.\<close>

fun name_loop :: "nat \<Rightarrow> mem \<Rightarrow> u16 \<Rightarrow> (bytes \<times> u16) option" where
  "name_loop n m p =
     (if m p \<noteq> 32 \<and> 0 < sint (m p) then
        case n of 0 \<Rightarrow> None
        | Suc n \<Rightarrow> (case name_loop n m (p + 1) of None \<Rightarrow> None | Some (cs, q) \<Rightarrow> Some (m p # cs, q))
      else Some ([], p))"

definition parsepath :: "'k os9 \<Rightarrow> (unit, 'k) ores" where
  "parsepath s =
     (case blanks 65535 (mem s) (r_x s) of
        None \<Rightarrow> Inl (Forever, s)
      | Some p \<Rightarrow>
          (case name_loop 256 (mem s) p of
             None \<Rightarrow> Inl (Overrun, s)
           | Some (cs, p) \<Rightarrow>
               let (cs, p) = (if sint (mem s p) < 0 then (cs @ [mem s p AND 0x7f], p + 1) else (cs, p)) in
               if 256 \<le> length cs then Inl (Overrun, s)
               else let s = s\<lparr>path := cs @ 0 # drop (length cs + 1) (path s)\<rparr> in
                 (case blanks 65535 (mem s) p of
                    None \<Rightarrow> Inl (Forever, s)
                  | Some p \<Rightarrow> Inr ((), s\<lparr>r_x := p\<rparr>))))"

definition getmode :: "'k sys \<Rightarrow> u16 \<Rightarrow> u16" where
  "getmode K os9mod =
     indet K OR (if os9mod AND 1 \<noteq> 0 then 256 else 0) OR (if os9mod AND 2 \<noteq> 0 then 128 else 0) OR
     (if os9mod AND 4 \<noteq> 0 then 64 else 0) OR (if os9mod AND 8 \<noteq> 0 then 36 else 0) OR
     (if os9mod AND 16 \<noteq> 0 then 18 else 0) OR (if os9mod AND 32 \<noteq> 0 then 9 else 0)"

section \<open>System calls\<close>

text \<open>The carry flag and an error code in \<open>B\<close>.\<close>

definition fail :: "int \<Rightarrow> 'k os9 \<Rightarrow> 'k os9" where
  "fail e s = s\<lparr>r_cc := r_cc s OR 1, r_b := word_of_int e\<rparr>"

definition errno_fail :: "'k sys \<Rightarrow> 'k os9 \<Rightarrow> 'k os9" where
  "errno_fail K s = fail (k_errno K (kern s)) s"

definition os9icpt :: "'k os9 \<Rightarrow> 'k os9" where
  "os9icpt s = s"

definition os9create :: "'k sys \<Rightarrow> 'k os9 \<Rightarrow> (unit, 'k) ores" where
  "os9create K s =
     (let md = getmode K (ucast (r_b s)) in
      rbind (parsepath s) (\<lambda>(_, s).
        let flags = sint (word_of_int (uint (r_a s AND 3) + 1) OR o_creat K) in
        case kcall (k_open K (c_str (path s)) flags (Some md)) s of (ret, s) \<Rightarrow>
          Inr ((), if ret < 0 then errno_fail K s else s\<lparr>r_a := word_of_int ret\<rparr>)))"

definition os9open :: "'k sys \<Rightarrow> 'k os9 \<Rightarrow> (unit, 'k) ores" where
  "os9open K s =
     rbind (parsepath s) (\<lambda>(_, s).
       let s = eprintf (str ''I$Open: '' @ [0x22] @ c_str (path s) @ [0x22, 10]) s in
       if c_str (path s) = str ''/TERM'' then
         case kcall (k_dup K 0) s of (ret, s) \<Rightarrow> Inr ((), s\<lparr>r_a := word_of_int ret, termfd := word_of_int ret\<rparr>)
       else
         case kcall (k_open K (c_str (path s)) (uint (r_a s AND 3) - 1) None) s of (ret, s) \<Rightarrow>
           Inr ((), if ret < 0 then fail (- 1) (perror K (str ''open'') s) else s\<lparr>r_a := word_of_int ret\<rparr>))"

definition os9getstat :: "'k os9 \<Rightarrow> 'k os9" where
  "os9getstat s =
     (let s = eprintf (str ''I$GetStt: '' @ hex (unat (r_a s)) @ [32] @ hex (unat (r_b s)) @ [10]) s in
      if r_b s = 0 then s\<lparr>r_b := 0\<rparr>
      else if r_b s = 0x12 then s\<lparr>r_a := 0, r_x := 0xa000, r_y := 0, r_b := 0\<rparr>
      else fail (- 1) s)"

definition os9setstat :: "'k os9 \<Rightarrow> 'k os9" where
  "os9setstat s =
     (let s = eprintf (str ''I$SetStt: '' @ hex (unat (r_a s)) @ [32] @ hex (unat (r_b s)) @ [10]) s in
      if r_b s = 0 then (dump (r_x s) 32 s)\<lparr>r_b := 0\<rparr>
      else fail (- 1) s)"

text \<open>What was read is in the memory, also when its length is negative as an \<open>int\<close>.\<close>

definition os9read :: "'k sys \<Rightarrow> 'k os9 \<Rightarrow> 'k os9" where
  "os9read K s =
     (let s = eprintf (str ''I$Read: '' @ hex (unat (r_a s)) @ [32] @ hex (unat (r_x s)) @ [32] @ hex (unat (r_y s)) @ [10]) s in
      case k_read K (uint (r_a s)) (unat (r_y s)) (kern s) of
        (None, k) \<Rightarrow> fail (- 1) (perror K (str ''read'') (s\<lparr>kern := k\<rparr>))
      | (Some d, k) \<Rightarrow>
          let s = s\<lparr>kern := k, mem := poke (r_x s) d (mem s)\<rparr>; ret = int16 (int (length d)) in
          if ret < 0 then fail (- 1) (perror K (str ''read'') s) else s\<lparr>r_y := word_of_int ret\<rparr>)"

definition os9write :: "'k sys \<Rightarrow> 'k os9 \<Rightarrow> 'k os9" where
  "os9write K s =
     (let s = eprintf (str ''I$Write: '' @ hex (unat (r_a s)) @ [32] @ hex (unat (r_x s)) @ [32] @ hex (unat (r_y s)) @ [10]) s;
          s = dump (r_x s) (sint (r_y s)) s in
      case kcall (k_write K (uint (r_a s)) (peek (mem s) (r_x s) (unat (r_y s)))) s of (ret, s) \<Rightarrow>
        if ret < 0 then fail (- 1) s else s\<lparr>r_y := word_of_int ret\<rparr>)"

definition os9unlink :: "'k os9 \<Rightarrow> 'k os9" where
  "os9unlink s = dump (r_u s) 32 (eprintf (str ''F$Unlink: '' @ hex (unat (r_u s)) @ [10]) s)"

definition os9close :: "'k sys \<Rightarrow> 'k os9 \<Rightarrow> 'k os9" where
  "os9close K s =
     (let s = eprintf (str ''I$Close: '' @ hex (unat (r_a s)) @ [10]) s in
      case kcall (k_close K (uint (r_a s))) s of (ret, s) \<Rightarrow>
        if ret < 0 then errno_fail K s else s\<lparr>r_b := word_of_int ret\<rparr>)"

definition os9exit :: "'k os9 \<Rightarrow> (unit, 'k) ores" where
  "os9exit s = exit (uint (r_b s)) (eprintf (str ''F$Exit: '' @ hex (unat (r_b s)) @ [10]) s)"

text \<open>The new position is a \<open>long\<close>, its test is one of an \<open>int\<close>.\<close>

definition os9seek :: "'k sys \<Rightarrow> 'k os9 \<Rightarrow> 'k os9" where
  "os9seek K s =
     (let pos = push_bit 16 (ucast (r_x s)) + ucast (r_u s) :: u32;
          s = eprintf (str ''I$Seek: '' @ dec (sint (r_u s)) @ [10]) s in
      case kcall (k_lseek K (uint (r_a s)) pos) s of (ret, s) \<Rightarrow> if ret < 0 then fail ret s else s)"

definition os9mkdir :: "'k sys \<Rightarrow> 'k os9 \<Rightarrow> (unit, 'k) ores" where
  "os9mkdir K s =
     (let md = getmode K (ucast (r_b s)) in
      rbind (parsepath s) (\<lambda>(_, s).
        case kcall (k_mkdir K (c_str (path s)) md) s of (ret, s) \<Rightarrow> Inr ((), if ret < 0 then fail ret s else s)))"

definition os9dup :: "'k sys \<Rightarrow> 'k os9 \<Rightarrow> 'k os9" where
  "os9dup K s = (case kcall (k_dup K (uint (r_a s))) s of (ret, s) \<Rightarrow> if ret < 0 then errno_fail K s else s)"

definition os9delete :: "'k sys \<Rightarrow> 'k os9 \<Rightarrow> (unit, 'k) ores" where
  "os9delete K s =
     rbind (parsepath s) (\<lambda>(_, s).
       case kcall (k_unlink K (c_str (path s))) s of (ret, s) \<Rightarrow> Inr ((), if ret < 0 then errno_fail K s else s))"

definition os9chdir :: "'k sys \<Rightarrow> 'k os9 \<Rightarrow> (unit, 'k) ores" where
  "os9chdir K s =
     rbind (parsepath s) (\<lambda>(_, s).
       case kcall (k_chdir K (c_str (path s))) s of (ret, s) \<Rightarrow> Inr ((), if ret < 0 then errno_fail K s else s))"

definition os9perr :: "'k os9 \<Rightarrow> 'k os9" where
  "os9perr s = eprintf (str ''ERROR #'' @ dec_nat (unat (r_b s)) @ [10]) s"

text \<open>The old break as an \<open>int\<close> decides.\<close>

definition os9mem :: "'k sys \<Rightarrow> 'k os9 \<Rightarrow> 'k os9" where
  "os9mem K s =
     (let new = (be16 (r_a s) (r_b s) + 0xff) AND 0xff00; diff = new - datasize s;
          s = eprintf (str ''F$Mem: '' @ hex (unat new) @ [32] @ hex (unat diff) @ [10]) s in
      case mysbrk diff s of (old, s) \<Rightarrow>
        if sint old < 0 then errno_fail K (eprintf (str ''bad sbrk'' @ [10]) s)
        else
          let s = s\<lparr>datasize := new, r_y := mybrk s, r_a := hi8 new, r_b := lo8 new\<rparr>;
              s = s\<lparr>r_b := 0\<rparr>
          in eprintf (hex (unat (datasize s)) @ [32] @ hex (unat (r_y s)) @ [10]) s)"

definition dispatch :: "'k sys \<Rightarrow> u8 \<Rightarrow> 'k os9 \<Rightarrow> (unit, 'k) ores" where
  "dispatch K opc s =
     (if opc = 0x02 then Inr ((), os9unlink s)
      else if opc = 0x09 then Inr ((), os9icpt s)
      else if opc = 0x82 then Inr ((), os9dup K s)
      else if opc = 0x83 then os9create K s
      else if opc = 0x84 then os9open K s
      else if opc = 0x85 then os9mkdir K s
      else if opc = 0x86 then os9chdir K s
      else if opc = 0x87 then os9delete K s
      else if opc = 0x88 then Inr ((), os9seek K s)
      else if opc = 0x89 then Inr ((), os9read K s)
      else if opc = 0x8a then Inr ((), os9write K s)
      else if opc = 0x8d then Inr ((), os9getstat s)
      else if opc = 0x8e then Inr ((), os9setstat s)
      else if opc = 0x8f then Inr ((), os9close K s)
      else if opc = 0x90 then os9delete K s
      else if opc = 0x06 then os9exit s
      else if opc = 0x07 then Inr ((), os9mem K s)
      else if opc = 0x0f then Inr ((), os9perr s)
      else exit 1 (eprintf (str ''unhandled syscall 0x'' @ hex (unat opc) @ [10]) s))"

definition os9call :: "'k sys \<Rightarrow> 'k os9 \<Rightarrow> (unit, 'k) ores" where
  "os9call K s = dispatch K (mem s (r_pc s)) (s\<lparr>r_pc := r_pc s + 1, r_cc := r_cc s AND NOT 1\<rparr>)"

section \<open>Starting a module\<close>

definition HEADER :: nat where "HEADER = 13"

definition po_init :: bytes where
  "po_init = (replicate 32 0)[4 := 1, 8 := 24, 9 := 0x08, 10 := 0x7f, 11 := 0x0a, 12 := 0x04, 26 := 80, 27 := 24]"

text \<open>The fields of the module's header that are used.\<close>

definition h_sync :: "mem \<Rightarrow> u16 \<Rightarrow> u16" where "h_sync m h = get16 m h"
definition h_size :: "mem \<Rightarrow> u16 \<Rightarrow> u16" where "h_size m h = get16 m (h + 2)"
definition h_exec :: "mem \<Rightarrow> u16 \<Rightarrow> u16" where "h_exec m h = get16 m (h + 9)"
definition h_dsize :: "mem \<Rightarrow> u16 \<Rightarrow> u16" where "h_dsize m h = get16 m (h + 11)"

text \<open>
  The rest of the module: each \<open>read\<close> takes all it can get, up to \<open>INT_MAX\<close> bytes, and what is to
  do is a 16-bit word.  No result is a loop that does not end.
\<close>

partial_function (option) load_loop :: "'k sys \<Rightarrow> int \<Rightarrow> u16 \<Rightarrow> u16 \<Rightarrow> 'k os9 \<Rightarrow> (unit, 'k) ores option" where
  "load_loop K fd b todo s =
     (case k_read K fd 32767 (kern s) of
        (None, k) \<Rightarrow> Some (exit 1 (perror K (str ''read'') (s\<lparr>kern := k\<rparr>)))
      | (Some d, k) \<Rightarrow>
          let s = s\<lparr>kern := k, mem := poke b d (mem s)\<rparr>; n = word_of_nat (length d) in
          if d = [] then Some (exit 1 (eprintf (str ''error: module size too small'' @ [10]) s))
          else if todo - n = 0 then Some (Inr ((), s))
          else load_loop K fd (b + n) (todo - n) s)"

definition page_up :: "u16 \<Rightarrow> u16" where
  "page_up w = (w + 0xff) AND NOT 0xff"

text \<open>The areas: code from \<open>ibot\<close> to \<open>itop\<close>, data up to \<open>dtop\<close>, with parameters and stack at its end.\<close>

record areas =
  ibot :: u16
  itop :: u16
  dtop :: u16
  psize :: u16
  pbot :: u16
  sbot :: u16
  ipc :: u16

definition areas_of :: "mem \<Rightarrow> u16 \<Rightarrow> bytes \<Rightarrow> areas" where
  "areas_of m h arg =
     (let it = page_up (h + h_size m h); dt = page_up (it + h_dsize m h);
          ps = word_of_nat (length arg); pb = dt - ps
      in \<lparr>ibot = h, itop = it, dtop = dt, psize = ps, pbot = pb, sbot = pb - 12, ipc = h + h_exec m h\<rparr>)"

definition print_areas :: "mem \<Rightarrow> areas \<Rightarrow> 'k os9 \<Rightarrow> 'k os9" where
  "print_areas m A s =
     (let line = (\<lambda>l (w :: u16). str l @ hex (unat w) @ [10]); h = ibot A in
      printf (line ''h  size: '' (h_size m h) @ line ''h  exec: '' (h_exec m h) @ line ''h dsize: '' (h_dsize m h) @
        line ''ibot: '' (ibot A) @ line ''itop: '' (itop A) @ line ''dtop: '' (dtop A) @ line ''psize: '' (psize A) @
        line ''pbot: '' (pbot A) @ line ''sbot: '' (sbot A) @ line ''size: '' (dtop A - ibot A) @ line ''ipc: '' (ipc A)) s)"

text \<open>The registers that the start pulls from the module's stack.\<close>

definition start_frame :: "areas \<Rightarrow> bytes" where
  "start_frame A =
     [0x80, hi8 (psize A), lo8 (psize A), ucast (drop_bit 8 (itop A)), hi8 (pbot A), lo8 (pbot A),
      hi8 (dtop A), lo8 (dtop A), hi8 (itop A), lo8 (itop A), hi8 (ipc A), lo8 (ipc A)]"

text \<open>Parameters, with the byte that ends them, and stack.\<close>

definition enter :: "areas \<Rightarrow> bytes \<Rightarrow> 'k os9 \<Rightarrow> ostop \<times> 'k os9" where
  "enter A arg s =
     (let m = poke (pbot A) (arg @ [0]) (mem s); m = poke (sbot A) (start_frame A) m
      in (Go (sbot A), s\<lparr>mem := m\<rparr>))"

text \<open>The module over its areas: the break moved, the rest of it read, and entered.\<close>

definition fill_module :: "'k sys \<Rightarrow> int \<Rightarrow> bytes \<Rightarrow> areas \<Rightarrow> 'k os9 \<Rightarrow> (ostop \<times> 'k os9) option" where
  "fill_module K fd arg A s =
     (case mysbrk (dtop A - ibot A) s of (old, s) \<Rightarrow>
        if sint old = - 1 then Some (Exit 1, perror K (str ''mysbrk'') s)
        else case load_loop K fd (ibot A + of_nat HEADER) (h_size (mem s) (ibot A) - of_nat HEADER) s of
          None \<Rightarrow> None
        | Some (Inl e) \<Rightarrow> Some e
        | Some (Inr (_, s)) \<Rightarrow> Some (enter A arg (snd (kcall (k_close K fd) s))))"

text \<open>The header is at the break; a parameter that is not there is a null pointer for \<open>strlen\<close>.\<close>

definition place_module :: "'k sys \<Rightarrow> int \<Rightarrow> bytes list \<Rightarrow> 'k os9 \<Rightarrow> (ostop \<times> 'k os9) option" where
  "place_module K fd argv s =
     (let h = mybrk s in
      if h_sync (mem s) h \<noteq> 0x87cd then Some (Exit 1, eprintf (str ''bad header sync bytes'' @ [10]) s)
      else case argv of
        _ # arg # _ \<Rightarrow>
          let A = areas_of (mem s) h arg
          in fill_module K fd arg A (print_areas (mem s) A (s\<lparr>datasize := dtop A - itop A\<rparr>))
      | _ \<Rightarrow> Some (Null_string, s))"

definition run_module :: "'k sys \<Rightarrow> int \<Rightarrow> bytes list \<Rightarrow> 'k os9 \<Rightarrow> (ostop \<times> 'k os9) option" where
  "run_module K fd argv s =
     (case k_read K fd HEADER (kern s) of
        (None, k) \<Rightarrow> Some (Exit 1, perror K (str ''read'') (s\<lparr>kern := k\<rparr>))
      | (Some d, k) \<Rightarrow> place_module K fd argv (s\<lparr>kern := k, mem := poke (mybrk s) d (mem s)\<rparr>))"

text \<open>What goes before it: the break, the processor, the interrupt and the options of paths.\<close>

definition os9_setup :: "'k sys \<Rightarrow> 'k os9 \<Rightarrow> (unit, 'k) ores" where
  "os9_setup K s =
     (let s = s\<lparr>mybrk := k_sbrk0 K (kern s)\<rparr> in
      case kcall (k_brk K (frame_s K - 3000)) s of (ret, s) \<Rightarrow>
        if ret < 0 then exit 1 (perror K (str ''brk'') s)
        else
          let s = s\<lparr>mytop := k_sbrk0 K (kern s)\<rparr>;
              s = eprintf (str ''mybrk '' @ hex (unat (mybrk s)) @ str '', mytop '' @ hex (unat (mytop s)) @ [10]) s
          in case k_uname K (kern s) of (ret, cpu) \<Rightarrow>
            if ret < 0 then exit 1 (perror K (str ''uname'') s)
            else if cpu \<noteq> 1 then exit 1 (eprintf (str ''incorect cpu, need 6809'' @ [10]) s)
            else case kcall (k_open K (str ''/dev/sys'') 0 None) s of (fd, s) \<Rightarrow>
              if fd < 0 then exit 1 (perror K (str ''/dev/sys'') s)
              else case kcall (k_swi2 K fd) s of (ret, s) \<Rightarrow>
                if ret < 0 then exit 1 (perror K (str ''setting swi2'') s)
                else case kcall (k_close K fd) s of (_, s) \<Rightarrow> Inr ((), s\<lparr>po := po_init\<rparr>))"

text \<open>\<open>main\<close>, with the arguments behind the program's name.\<close>

definition os9sim_main :: "'k sys \<Rightarrow> bytes list \<Rightarrow> 'k os9 \<Rightarrow> (ostop \<times> 'k os9) option" where
  "os9sim_main K argv s =
     (case os9_setup K s of
        Inl e \<Rightarrow> Some e
      | Inr (_, s) \<Rightarrow>
          if argv = [] then Some (Exit 1, eprintf (str ''os9sim module [params]...'' @ [10]) s)
          else case kcall (k_open K (hd argv) 0 None) s of (fd, s) \<Rightarrow>
            if fd < 0 then Some (Exit 1, perror K (hd argv) s)
            else run_module K fd argv s)"

end
