(* ===== verification/Os9sim_Spec.thy ===== *)
theory Os9sim_Spec
  imports Os9sim
begin

text \<open>
  What the simulator promises to a module: its path names are understood, a module that fits is
  started over the areas its header asks for, a call changes only the registers it should, and
  the data area and the break stay in step.
\<close>

section \<open>Memory\<close>

lemma poke_at:
  "length bs \<le> 65536 \<Longrightarrow> poke p bs m q = (if unat (q - p) < length bs then bs ! unat (q - p) else m q)"
proof (induction bs arbitrary: p m)
  case (Cons c cs)
  have IH: "poke (p + 1) cs (m(p := c)) q = (if unat (q - p - 1) < length cs then cs ! unat (q - p - 1) else (m(p := c)) q)"
    using Cons by (simp add: diff_diff_eq)
  show ?case
  proof (cases "q = p")
    case True
    have "unat (- 1 :: u16) = 65535" by (simp add: unsigned_minus_1_eq_mask mask_eq_exp_minus_1)
    then show ?thesis using True IH Cons.prems by simp
  next
    case False
    then have "unat (q - p) = Suc (unat (q - p - 1))" by (subst unat_minus_one) (simp_all add: unat_gt_0)
    then show ?thesis using False IH by simp
  qed
qed simp

lemma length_peek [simp]: "length (peek m p n) = n"
  by (induction n arbitrary: p) simp_all

lemma nth_peek: "i < n \<Longrightarrow> peek m p n ! i = m (p + of_nat i)"
proof (induction n arbitrary: p i)
  case (Suc n)
  then show ?case by (cases i) (simp_all add: algebra_simps)
qed simp

lemma peek_eq: "peek m p n = bs \<longleftrightarrow> length bs = n \<and> (\<forall>i < n. m (p + of_nat i) = bs ! i)"
  by (auto simp: nth_peek list_eq_iff_nth_eq)

lemma peek_append: "peek m p (i + j) = peek m p i @ peek m (p + of_nat i) j"
  by (induction i arbitrary: p) (simp_all add: algebra_simps)

lemma unat_of_nat16: "n < 65536 \<Longrightarrow> unat (of_nat n :: u16) = n"
  by (simp add: unat_of_nat take_bit_nat_eq_self)

lemma peek_poke_same: "length bs \<le> 65536 \<Longrightarrow> n = length bs \<Longrightarrow> peek (poke p bs m) p n = bs"
  by (auto simp: peek_eq poke_at unat_of_nat16)

text \<open>Two areas given by addresses below 64K that do not meet.\<close>

lemma unat_diff16:
  "a < 65536 \<Longrightarrow> b < 65536 \<Longrightarrow> unat (of_nat a - of_nat b :: u16) = (if b \<le> a then a - b else 65536 + a - b)"
proof -
  assume ab: "a < 65536" "b < 65536"
  show ?thesis
  proof (cases "b \<le> a")
    case True
    then have "of_nat a - of_nat b = (of_nat (a - b) :: u16)" by (rule of_nat_diff [symmetric])
    with True ab show ?thesis by (simp add: unat_of_nat16 del: of_nat_diff)
  next
    case False
    have "(of_nat (65536 + a - b) :: u16) = of_nat (65536 + a) - of_nat b" using ab by (subst of_nat_diff) simp_all
    also have "(of_nat (65536 + a) :: u16) = of_nat a"
      by (simp add: word_of_nat_eq_iff take_bit_eq_mod del: of_nat_add)
    finally have "of_nat a - of_nat b = (of_nat (65536 + a - b) :: u16)" by simp
    then show ?thesis using False ab by (simp add: unat_of_nat16 del: of_nat_diff)
  qed
qed

lemma peek_poke_other:
  assumes "a + n \<le> b \<or> b + length bs \<le> a" "a + n \<le> 65536" "b + length bs \<le> 65536" "b < 65536"
  shows "peek (poke (of_nat b) bs m) (of_nat a) n = peek m (of_nat a) n"
proof -
  have "poke (of_nat b) bs m (of_nat a + of_nat i) = m (of_nat a + of_nat i)" if i: "i < n" for i
  proof -
    have "unat (of_nat a + of_nat i - of_nat b :: u16) = unat (of_nat (a + i) - of_nat b :: u16)" by simp
    also have "\<dots> = (if b \<le> a + i then a + i - b else 65536 + (a + i) - b)"
      using assms i by (intro unat_diff16) auto
    finally have "\<not> unat (of_nat a + of_nat i - of_nat b :: u16) < length bs" using assms i by auto
    then show ?thesis using assms(3) by (simp add: poke_at)
  qed
  then show ?thesis by (simp add: peek_eq nth_peek)
qed

lemma get16_peek: "get16 m p = be16 (peek m p 2 ! 0) (peek m p 2 ! 1)"
  by (simp add: get16_def numeral_2_eq_2)

lemma sint_u16: "sint (w :: u16) = (if uint w < 32768 then uint w else uint w - 65536)"
proof -
  have b: "uint w < 2 ^ LENGTH(16)" by (rule uint_lt2p)
  have "sint (word_of_int (uint w) :: u16) = (uint w + 32768) mod 65536 - 32768"
    by (subst int_word_sint) simp
  moreover have "(uint w + 32768) mod 65536 = (if uint w < 32768 then uint w + 32768 else uint w - 32768)"
  proof (cases "uint w < 32768")
    case True
    then show ?thesis by (subst mod_pos_pos_trivial) simp_all
  next
    case False
    have "(uint w + 32768) mod 65536 = ((uint w - 32768) + 65536) mod 65536"
      by (rule arg_cong [where f = "\<lambda>x. x mod 65536"]) simp
    also have "\<dots> = (uint w - 32768) mod 65536" by (rule mod_add_self2)
    also have "\<dots> = uint w - 32768" using b False by (intro mod_pos_pos_trivial) simp_all
    finally show ?thesis using False by simp
  qed
  ultimately show ?thesis by simp
qed

lemma page_mask: "n < 16 \<Longrightarrow> bit (0xff00 :: u16) n \<longleftrightarrow> 8 \<le> n"
proof -
  have all: "\<forall>n \<in> set [0..<16]. bit (0xff00 :: u16) n \<longleftrightarrow> 8 \<le> n" by code_simp
  assume "n < 16"
  then have "n \<in> set [0..<16]" by simp
  from bspec [OF all this] show ?thesis .
qed

lemma page_bits: "unat (w AND 0xff00 :: u16) = unat w div 256 * 256"
proof -
  have "w AND 0xff00 = push_bit 8 (drop_bit 8 w)"
  proof (rule bit_word_eqI)
    fix n assume n: "n < LENGTH(16)"
    then have "bit (0xff00 :: u16) n \<longleftrightarrow> 8 \<le> n" by (intro page_mask) simp
    with n show "bit (w AND 0xff00) n = bit (push_bit 8 (drop_bit 8 w)) n"
      by (auto simp: bit_simps)
  qed
  moreover have "unat (push_bit 8 (drop_bit 8 w)) = unat w div 256 * 256"
  proof -
    have "unat w div 256 < 256" using unat_u16 [of w] by (simp add: less_mult_imp_div_less)
    then show ?thesis
      unfolding unsigned_push_bit_eq unsigned_drop_bit_eq by (simp add: push_bit_eq_mult drop_bit_eq_div take_bit_nat_eq_self)
  qed
  ultimately show ?thesis by simp
qed
section \<open>Paths\<close>

text \<open>A name as OS-9 programs have it: its end marked in the last character, or by what follows it.\<close>

definition coded :: "bool \<Rightarrow> bytes \<Rightarrow> bytes" where
  "coded marked cs = (if marked then butlast cs @ [last cs OR 0x80] else cs)"

definition plain_char :: "u8 \<Rightarrow> bool" where
  "plain_char c \<longleftrightarrow> 0x20 < c \<and> c < 0x80"

lemma plain_chars:
  "plain_char c \<Longrightarrow> c \<noteq> 32 \<and> 0 < sint c"
  "plain_char c \<Longrightarrow> sint (c OR 0x80) < 0 \<and> (c OR 0x80) AND 0x7f = c \<and> c OR 0x80 \<noteq> 32 \<and> c \<noteq> 0"
proof -
  have all: "\<forall>k \<in> set [33..<128]. (of_nat k :: u8) \<noteq> 32 \<and> 0 < sint (of_nat k :: u8) \<and>
    sint (of_nat k OR 0x80 :: u8) < 0 \<and> (of_nat k OR 0x80 :: u8) AND 0x7f = of_nat k \<and> (of_nat k OR 0x80 :: u8) \<noteq> 32 \<and>
    (of_nat k :: u8) \<noteq> 0" by code_simp
  have "unat c \<in> set [33..<128]" if "plain_char c"
    using that unfolding set_upt atLeastLessThan_iff plain_char_def word_less_nat_alt by simp
  then have c: "c \<noteq> 32 \<and> 0 < sint c \<and> sint (c OR 0x80) < 0 \<and> (c OR 0x80) AND 0x7f = c \<and> c OR 0x80 \<noteq> 32 \<and> c \<noteq> 0"
    if "plain_char c" using bspec [OF all, of "unat c"] that by simp
  then show "plain_char c \<Longrightarrow> c \<noteq> 32 \<and> 0 < sint c"
    "plain_char c \<Longrightarrow> sint (c OR 0x80) < 0 \<and> (c OR 0x80) AND 0x7f = c \<and> c OR 0x80 \<noteq> 32 \<and> c \<noteq> 0" by auto
qed

lemma blanks_end:
  "peek m p (n + 1) = replicate n 32 @ [c] \<Longrightarrow> c \<noteq> 32 \<Longrightarrow> n \<le> k \<Longrightarrow> blanks k m p = Some (p + of_nat n)"
proof (induction n arbitrary: p k)
  case (Suc n)
  then have "m p = 32" "peek m (p + 1) (n + 1) = replicate n 32 @ [c]" by simp_all
  with Suc show ?case by (cases k) (simp_all add: algebra_simps)
qed simp

lemma name_loop_end:
  "peek m p (length cs + 1) = cs @ [c] \<Longrightarrow> \<forall>x \<in> set cs. plain_char x \<Longrightarrow> c = 32 \<or> sint c \<le> 0 \<Longrightarrow>
    length cs \<le> n \<Longrightarrow> name_loop n m p = Some (cs, p + of_nat (length cs))"
proof (induction cs arbitrary: p n)
  case Nil
  then show ?case by (subst name_loop.simps) auto
next
  case (Cons x cs)
  then have "m p = x" "peek m (p + 1) (length cs + 1) = cs @ [c]" by simp_all
  moreover from Cons.prems obtain k where k: "n = Suc k" by (cases n) auto
  ultimately have "name_loop k m (p + 1) = Some (cs, p + 1 + of_nat (length cs))" using Cons by simp
  with k \<open>m p = x\<close> plain_chars(1) [of x] Cons.prems(2) show ?case
    by (subst name_loop.simps) (simp add: algebra_simps)
qed

declare blanks.simps [simp del] name_loop.simps [simp del]

text \<open>C28:
  Path names reach the kernel as the module means them: blanks, a name of up to 255 printable
  characters, whose last one has its high bit set or which a blank or a zero byte ends, and the
  blanks that follow give the name as the path, and \<open>X\<close> at what comes behind.
\<close>

theorem os9_paths:
  assumes "peek (mem s) (r_x s) (i + length cs + j + 1) = replicate i 32 @ coded marked cs @ replicate j 32 @ [c]"
    and "\<forall>x \<in> set cs. plain_char x" and "cs \<noteq> []" and "length cs \<le> 255" and "c \<noteq> 32"
    and "marked \<or> 0 < j \<or> c = 0" and "i + length cs + j < 65536"
  shows "\<exists>t. parsepath s = Inr ((), t) \<and> c_str (path t) = cs \<and> r_x t = r_x s + of_nat (i + length cs + j) \<and>
    t = s\<lparr>path := path t, r_x := r_x t\<rparr>"
proof -
  let ?m = "mem s"
  define p where "p = r_x s + of_nat i"
  define q where "q = p + of_nat (length cs)"
  define zs where "zs = (if marked then butlast cs else cs)"
  define e where "e = (if marked then last cs OR 0x80 else (replicate j 32 @ [c]) ! 0)"
  have lc: "length (coded marked cs) = length cs" using assms(3) by (simp add: coded_def)
  have n: "i + length cs + j + 1 = i + (length cs + (j + 1))" by simp
  have mid: "peek ?m (r_x s) i = replicate i 32" "peek ?m p (length cs) = coded marked cs"
      "peek ?m q (j + 1) = replicate j 32 @ [c]"
    using assms(1) lc unfolding n peek_append [of ?m _ i] peek_append [of ?m _ "length cs"] p_def q_def by simp_all
  have b2: "blanks 65535 ?m q = Some (q + of_nat j)"
    using mid(3) assms(5,7) by (intro blanks_end [of _ _ _ c]) simp_all
  have nxt: "peek ?m p (length zs + 1) = zs @ [e]"
  proof (cases marked)
    case True
    then have "length zs + 1 = length cs" using assms(3) by (simp add: zs_def)
    with True mid(2) show ?thesis by (simp add: coded_def zs_def e_def)
  next
    case False
    have "peek ?m q 1 = [e]" using arg_cong [OF mid(3), of "\<lambda>xs. xs ! 0"] False by (simp add: e_def)
    with False mid(2) show ?thesis unfolding peek_append by (simp add: coded_def zs_def q_def)
  qed
  have pz: "\<forall>x \<in> set zs. plain_char x" using assms(2) by (auto simp: zs_def dest: in_set_butlastD)
  have el: "e = 32 \<or> sint e \<le> 0"
    using assms(2,3,6) plain_chars(2) [of "last cs"] by (cases j) (auto simp: e_def)
  have "e \<noteq> 32 \<longrightarrow> True" by simp
  have ne: "name_loop 256 ?m p = Some (zs, p + of_nat (length zs))"
    using assms(4) by (intro name_loop_end [OF nxt pz el]) (auto simp: zs_def)
  have first: "hd (coded marked cs) \<noteq> 32"
    using assms(2,3) plain_chars(1) [of "hd cs"] plain_chars(2) [of "last cs"]
    by (cases cs) (auto simp: coded_def hd_append)
  have b1: "blanks 65535 ?m (r_x s) = Some p"
    unfolding p_def
  proof (rule blanks_end)
    have "peek ?m p 1 = [hd (coded marked cs)]"
      using arg_cong [OF mid(2), of hd] assms(3) by (cases cs) simp_all
    then show "peek ?m (r_x s) (i + 1) = replicate i 32 @ [hd (coded marked cs)]"
      unfolding peek_append using mid(1) by (simp add: p_def)
  qed (use first assms(7) in simp_all)
  have at: "?m (p + of_nat (length zs)) = e"
    using nth_peek [of "length zs" "length zs + 1" ?m p] nxt by (simp del: peek.simps)
  have fin: "(if sint e < 0 then (zs @ [e AND 0x7f], p + of_nat (length zs) + 1) else (zs, p + of_nat (length zs))) = (cs, q)"
  proof (cases marked)
    case True
    have "plain_char (last cs)" using assms(2,3) by simp
    with True plain_chars(2) [OF this] assms(3) show ?thesis
      by (cases cs rule: rev_cases) (simp_all add: zs_def e_def q_def algebra_simps)
  next
    case False
    then have "\<not> sint e < 0" using assms(6) by (cases j) (auto simp: e_def)
    with False show ?thesis by (simp add: zs_def q_def)
  qed
  have "parsepath s = Inr ((), s\<lparr>path := cs @ 0 # drop (length cs + 1) (path s), r_x := q + of_nat j\<rparr>)"
    unfolding parsepath_def b1 option.case ne prod.case at fin Let_def
    using assms(4) by (simp add: b2)
  moreover have "c_str (cs @ 0 # r) = cs" for r
    using assms(2) plain_chars(2) by (auto simp: c_str_def takeWhile_append)
  ultimately show ?thesis by (simp add: q_def p_def algebra_simps)
qed

section \<open>Calls\<close>

text \<open>What no call changes, and what only \<open>F$Mem\<close> changes.\<close>

definition fixed :: "'k os9 \<Rightarrow> _" where
  "fixed s = (r_dp s, r_u s, r_pc s, mytop s, po s, outs s)"

definition area :: "'k os9 \<Rightarrow> u16 \<times> u16" where
  "area s = (mybrk s, datasize s)"

named_theorems keeps

lemma prints_keep [keeps]:
  "fixed (eprintf t s) = fixed s" "area (eprintf t s) = area s" "mem (eprintf t s) = mem s"
  "fixed (perror K t s) = fixed s" "area (perror K t s) = area s" "mem (perror K t s) = mem s"
  "fixed (dump p c s) = fixed s" "area (dump p c s) = area s" "mem (dump p c s) = mem s"
  "fixed (fail e s) = fixed s" "area (fail e s) = area s" "mem (fail e s) = mem s"
  "fixed (errno_fail K s) = fixed s" "area (errno_fail K s) = area s" "mem (errno_fail K s) = mem s"
  by (simp_all add: eprintf_def perror_def dump_def fail_def errno_fail_def fixed_def area_def)

lemma updates_keep [keeps]:
  "fixed (s\<lparr>r_a := w\<rparr>) = fixed s" "area (s\<lparr>r_a := w\<rparr>) = area s"
  "fixed (s\<lparr>r_b := w\<rparr>) = fixed s" "area (s\<lparr>r_b := w\<rparr>) = area s"
  "fixed (s\<lparr>r_x := z\<rparr>) = fixed s" "area (s\<lparr>r_x := z\<rparr>) = area s"
  "fixed (s\<lparr>r_y := z\<rparr>) = fixed s" "area (s\<lparr>r_y := z\<rparr>) = area s"
  "fixed (s\<lparr>termfd := w\<rparr>) = fixed s" "area (s\<lparr>termfd := w\<rparr>) = area s"
  "fixed (s\<lparr>path := b\<rparr>) = fixed s" "area (s\<lparr>path := b\<rparr>) = area s"
  "fixed (s\<lparr>kern := k\<rparr>) = fixed s" "area (s\<lparr>kern := k\<rparr>) = area s"
  "fixed (s\<lparr>mem := m\<rparr>) = fixed s" "area (s\<lparr>mem := m\<rparr>) = area s"
  "fixed (s\<lparr>mybrk := z\<rparr>) = fixed s" "fixed (s\<lparr>datasize := z\<rparr>) = fixed s"
  by (simp_all add: fixed_def area_def)

lemma kcall_keeps [keeps]:
  "fixed (snd (kcall f s)) = fixed s" "area (snd (kcall f s)) = area s" "mem (snd (kcall f s)) = mem s"
  by (simp_all add: kcall_def case_prod_unfold fixed_def area_def)

lemma parsepath_keeps:
  "parsepath s = Inr ((), t) \<Longrightarrow> fixed t = fixed s \<and> area t = area s \<and> mem t = mem s"
  by (auto simp: parsepath_def Let_def fixed_def area_def split: option.splits prod.splits if_splits)

lemma path_calls_keep:
  "os9create K s = Inr ((), t) \<Longrightarrow> fixed t = fixed s \<and> area t = area s \<and> mem t = mem s"
  "os9open K s = Inr ((), t) \<Longrightarrow> fixed t = fixed s \<and> area t = area s \<and> mem t = mem s"
  "os9mkdir K s = Inr ((), t) \<Longrightarrow> fixed t = fixed s \<and> area t = area s \<and> mem t = mem s"
  "os9chdir K s = Inr ((), t) \<Longrightarrow> fixed t = fixed s \<and> area t = area s \<and> mem t = mem s"
  "os9delete K s = Inr ((), t) \<Longrightarrow> fixed t = fixed s \<and> area t = area s \<and> mem t = mem s"
  by (auto simp: os9create_def os9open_def os9mkdir_def os9chdir_def os9delete_def res_simps Let_def case_prod_unfold keeps
      split: if_splits dest!: parsepath_keeps)

lemma fd_calls_keep:
  "fixed (os9dup K s) = fixed s \<and> area (os9dup K s) = area s \<and> mem (os9dup K s) = mem s"
  "fixed (os9seek K s) = fixed s \<and> area (os9seek K s) = area s \<and> mem (os9seek K s) = mem s"
  "fixed (os9write K s) = fixed s \<and> area (os9write K s) = area s \<and> mem (os9write K s) = mem s"
  "fixed (os9close K s) = fixed s \<and> area (os9close K s) = area s \<and> mem (os9close K s) = mem s"
  "fixed (os9read K s) = fixed s \<and> area (os9read K s) = area s"
  by (auto simp: os9dup_def os9seek_def os9write_def os9close_def os9read_def Let_def case_prod_unfold keeps
      split: option.splits)

lemma plain_calls_keep:
  "fixed (os9unlink s) = fixed s \<and> area (os9unlink s) = area s \<and> mem (os9unlink s) = mem s"
  "fixed (os9icpt s) = fixed s \<and> area (os9icpt s) = area s \<and> mem (os9icpt s) = mem s"
  "fixed (os9getstat s) = fixed s \<and> area (os9getstat s) = area s \<and> mem (os9getstat s) = mem s"
  "fixed (os9setstat s) = fixed s \<and> area (os9setstat s) = area s \<and> mem (os9setstat s) = mem s"
  "fixed (os9perr s) = fixed s \<and> area (os9perr s) = area s \<and> mem (os9perr s) = mem s"
  by (auto simp: os9unlink_def os9icpt_def os9getstat_def os9setstat_def os9perr_def Let_def keeps)

lemma mysbrk_keeps [keeps]: "fixed (snd (mysbrk d s)) = fixed s" "mem (snd (mysbrk d s)) = mem s"
  by (simp_all add: mysbrk_def Let_def keeps)

lemma mem_keeps: "fixed (os9mem K s) = fixed s \<and> mem (os9mem K s) = mem s"
  by (auto simp: os9mem_def Let_def case_prod_unfold keeps)

lemmas calls_keep = fd_calls_keep plain_calls_keep mem_keeps

lemma dispatch_keeps:
  assumes "dispatch K c s = Inr ((), t)"
  shows "fixed t = fixed s \<and> (c \<noteq> 0x07 \<longrightarrow> area t = area s) \<and> (c \<noteq> 0x89 \<longrightarrow> mem t = mem s)"
  using assms unfolding dispatch_def
  by (auto simp: os9exit_def exit_def calls_keep split: if_splits dest!: path_calls_keep)

text \<open>
  A call changes no more than it should: whichever it is and whatever the kernel answers, if it
  returns then the module goes on behind its code byte, with \<open>DP\<close> and \<open>U\<close> as they were; only
  \<open>F$Mem\<close> moves the break, and only \<open>I$Read\<close> writes into the memory.
\<close>

theorem os9_call_frame:
  assumes "os9call K s = Inr ((), t)"
  shows "r_pc t = r_pc s + 1 \<and> r_dp t = r_dp s \<and> r_u t = r_u s \<and>
    (mem s (r_pc s) \<noteq> 0x07 \<longrightarrow> mybrk t = mybrk s \<and> datasize t = datasize s) \<and>
    (mem s (r_pc s) \<noteq> 0x89 \<longrightarrow> mem t = mem s)"
  using dispatch_keeps [OF assms [unfolded os9call_def]] by (auto simp: fixed_def area_def)

section \<open>The data area\<close>

text \<open>
  A run of a module: its own instructions change its registers and the memory, a call is what
  \<open>os9call\<close> makes of it.
\<close>

definition hidden :: "'k os9 \<Rightarrow> 'k os9" where
  "hidden s = s\<lparr>r_cc := 0, r_a := 0, r_b := 0, r_dp := 0, r_x := 0, r_y := 0, r_u := 0, r_pc := 0, mem := (\<lambda>_. 0)\<rparr>"

inductive os9_step :: "'k sys \<Rightarrow> 'k os9 \<Rightarrow> 'k os9 \<Rightarrow> bool" for K where
  user: "hidden t = hidden s \<Longrightarrow> os9_step K s t"
| call: "os9call K s = Inr ((), t) \<Longrightarrow> os9_step K s t"

inductive_cases os9_stepE: "os9_step K s t"

lemma hidden_area:
  assumes "hidden t = hidden s"
  shows "area t = area s" "mytop t = mytop s"
  using arg_cong [OF assms, of mybrk] arg_cong [OF assms, of datasize] arg_cong [OF assms, of mytop]
  by (simp_all add: hidden_def area_def)

text \<open>The size asked for, in whole pages, and the break that goes with it.\<close>

definition asked :: "'k os9 \<Rightarrow> u16" where
  "asked s = (be16 (r_a s) (r_b s) + 0xff) AND 0xff00"

definition new_brk :: "'k os9 \<Rightarrow> u16" where
  "new_brk s = mybrk s + (asked s - datasize s)"

lemma os9mem_is:
  "mytop s < new_brk s \<Longrightarrow> area (os9mem K s) = area s \<and> r_cc (os9mem K s) = r_cc s OR 1"
  "\<not> mytop s < new_brk s \<Longrightarrow> sint (mybrk s) < 0 \<Longrightarrow>
    area (os9mem K s) = (new_brk s, datasize s) \<and> r_cc (os9mem K s) = r_cc s OR 1"
  "\<not> mytop s < new_brk s \<Longrightarrow> 0 \<le> sint (mybrk s) \<Longrightarrow>
    area (os9mem K s) = (new_brk s, asked s) \<and> r_cc (os9mem K s) = r_cc s \<and> r_y (os9mem K s) = new_brk s \<and>
    be16 (r_a (os9mem K s)) (r_b (os9mem K s)) = asked s"
proof -
  have "lo8 (asked s) = 0"
    unfolding lo8_def asked_def by (rule bit_word_eqI) (use page_mask in \<open>auto simp: bit_simps\<close>)
  then have be: "be16 (hi8 (asked s)) 0 = asked s" using be16_hi8_lo8 [of "asked s"] by simp
  show "mytop s < new_brk s \<Longrightarrow> area (os9mem K s) = area s \<and> r_cc (os9mem K s) = r_cc s OR 1"
    "\<not> mytop s < new_brk s \<Longrightarrow> sint (mybrk s) < 0 \<Longrightarrow>
      area (os9mem K s) = (new_brk s, datasize s) \<and> r_cc (os9mem K s) = r_cc s OR 1"
    by (simp_all add: os9mem_def mysbrk_def eprintf_def errno_fail_def fail_def area_def Let_def
        flip: asked_def new_brk_def)
  show "\<not> mytop s < new_brk s \<Longrightarrow> 0 \<le> sint (mybrk s) \<Longrightarrow>
    area (os9mem K s) = (new_brk s, asked s) \<and> r_cc (os9mem K s) = r_cc s \<and> r_y (os9mem K s) = new_brk s \<and>
    be16 (r_a (os9mem K s)) (r_b (os9mem K s)) = asked s"
    using be by (simp add: os9mem_def mysbrk_def eprintf_def area_def Let_def flip: asked_def new_brk_def)
qed

text \<open>The data area with its start, which a call keeps while the break stays in the lower half.\<close>

definition in_step :: "u16 \<Rightarrow> u16 \<Rightarrow> 'k os9 \<Rightarrow> bool" where
  "in_step it lim s \<longleftrightarrow> mybrk s = it + datasize s \<and> mybrk s \<le> mytop s \<and> mytop s = lim"

lemma mem_in_step:
  assumes "in_step it lim s" "lim < 0x8000"
  shows "in_step it lim (os9mem K s)"
proof -
  have "uint lim < 32768" "uint (mybrk s) \<le> uint lim"
    using assms by (auto simp: in_step_def word_less_def word_le_def)
  then have low: "0 \<le> sint (mybrk s)" by (simp add: sint_u16)
  have mt: "mytop (os9mem K s) = mytop s" using mem_keeps [of K s] by (simp add: fixed_def)
  have nb: "new_brk s = it + asked s" using assms(1) by (auto simp: in_step_def new_brk_def)
  show ?thesis
  proof (cases "mytop s < new_brk s")
    case True
    with os9mem_is(1) [OF True, of K] assms(1) mt show ?thesis by (auto simp: in_step_def area_def)
  next
    case False
    with os9mem_is(3) [OF False low, of K] nb mt assms(1) show ?thesis by (auto simp: in_step_def area_def)
  qed
qed

lemma call_in_step:
  assumes "os9call K s = Inr ((), t)" "in_step it lim s" "lim < 0x8000"
  shows "in_step it lim t"
proof -
  let ?s = "s\<lparr>r_pc := r_pc s + 1, r_cc := r_cc s AND NOT 1\<rparr>" and ?c = "mem s (r_pc s)"
  have d: "dispatch K ?c ?s = Inr ((), t)" using assms(1) by (simp add: os9call_def)
  have s: "in_step it lim ?s" using assms(2) by (auto simp: in_step_def)
  show ?thesis
  proof (cases "?c = 0x07")
    case True
    then have "t = os9mem K ?s" using d by (simp add: dispatch_def)
    with mem_in_step [OF s assms(3)] show ?thesis by simp
  next
    case False
    with dispatch_keeps [OF d] s show ?thesis by (auto simp: in_step_def fixed_def area_def)
  qed
qed

text \<open>C27:
  Through every run of a module, whatever its instructions do to registers and memory and
  whatever the kernel answers, the break is the start of the data area plus its size, and not
  above the top: if the memory that can be had lies in the lower half of the address space.
\<close>

theorem os9_break_kept:
  assumes "(os9_step K)\<^sup>*\<^sup>* s t" and "in_step it lim s" and "lim < 0x8000"
  shows "in_step it lim t"
  using assms(1,2)
proof (induction rule: rtranclp_induct)
  case (step t u)
  then have t: "in_step it lim t" by simp
  from step(2) show ?case
    by (cases rule: os9_stepE) (use hidden_area [of u t] call_in_step [OF _ t assms(3)] t in \<open>auto simp: in_step_def area_def\<close>)
qed

text \<open>
  In the upper half \<open>F$Mem\<close> breaks it: there a request that is met is reported as an error, with
  the break moved and the size of the area as it was, since the old break is tested as a signed
  number.
\<close>

theorem os9_mem_high:
  assumes "0x8000 \<le> mybrk s" and "new_brk s \<le> mytop s"
  shows "r_cc (os9mem K s) = r_cc s OR 1 \<and> mybrk (os9mem K s) = new_brk s \<and> datasize (os9mem K s) = datasize s"
proof -
  have "\<not> uint (mybrk s) < 32768" using assms(1) by (simp add: word_le_def)
  then have "sint (mybrk s) < 0" using uint_lt2p [of "mybrk s"] by (simp add: sint_u16)
  with os9mem_is(2) [of s K] assms(2) show ?thesis by (simp add: area_def)
qed

section \<open>Positions and descriptors\<close>

text \<open>
  A seek that the kernel has done is reported as an error if bit 15 of the new position is set:
  the position is kept in an \<open>int\<close>.
\<close>

theorem os9_seek_sign:
  assumes "k_lseek K (uint (r_a s)) (push_bit 16 (ucast (r_x s)) + ucast (r_u s)) (kern s) = (pos, k)"
    and "0 \<le> pos" and "pos mod 65536 \<ge> 32768"
  shows "r_cc (os9seek K s) = r_cc s OR 1 \<and> kern (os9seek K s) = k"
proof -
  have "uint (word_of_int pos :: u16) = pos mod 65536" by (simp add: uint_word_of_int)
  with assms(3) have "int16 pos < 0" unfolding int16_def using uint_lt2p [of "word_of_int pos :: u16"] by (simp add: sint_u16)
  then show ?thesis using assms(1) by (simp add: os9seek_def kcall_def eprintf_def fail_def)
qed

end
