(* ===== verification/Os9sim_Start.thy ===== *)
theory Os9sim_Start
  imports Os9sim_Spec
begin

text \<open>
  Starting a module from a file: it is loaded and entered over the areas that its header asks for
  if and only if the file is exactly as long as the header says.
\<close>

section \<open>Files and areas\<close>

text \<open>What \<open>read\<close> does on a regular file with contents \<open>c\<close>: all bytes asked for, as far as there are any.\<close>

definition reads :: "'k sys \<Rightarrow> int \<Rightarrow> 'k \<Rightarrow> bytes \<Rightarrow> bool" where
  "reads K fd k c \<longleftrightarrow> (\<exists>ks. k = ks (0 :: nat) \<and>
     (\<forall>off n. k_read K fd n (ks off) = (Some (pread off n c), ks (off + length (pread off n c)))))"

text \<open>The header's fields, and numbers rounded up to pages.\<close>

definition m_size :: "bytes \<Rightarrow> nat" where "m_size c = unat (be16 (c ! 2) (c ! 3))"
definition m_exec :: "bytes \<Rightarrow> nat" where "m_exec c = unat (be16 (c ! 9) (c ! 10))"
definition m_dsize :: "bytes \<Rightarrow> nat" where "m_dsize c = unat (be16 (c ! 11) (c ! 12))"

definition up :: "nat \<Rightarrow> nat" where "up n = (n + 255) div 256 * 256"

lemma up_ge: "n \<le> up n"
  unfolding up_def using div_mult_mod_eq [of "n + 255" 256] mod_less_divisor [of 256 "n + 255"] by linarith

lemma page_up_nat: "n + 255 < 65536 \<Longrightarrow> page_up (of_nat n) = of_nat (up n)"
proof -
  assume n: "n + 255 < 65536"
  have "NOT 0xff = (0xff00 :: u16)" by code_simp
  then have "page_up (of_nat n) = of_nat (n + 255) AND 0xff00"
    unfolding page_up_def of_nat_add of_nat_numeral by (simp only:)
  then have "unat (page_up (of_nat n)) = unat (of_nat (n + 255) :: u16) div 256 * 256" by (simp only: page_bits)
  also have "\<dots> = up n" using n by (simp add: unat_of_nat16 up_def del: of_nat_add)
  also have "up n < 65536" using n div_times_less_eq_dividend [of "n + 255" 256] unfolding up_def by linarith
  then have "up n = unat (of_nat (up n) :: u16)" by (simp add: unat_of_nat16)
  finally show ?thesis by (simp only: word_unat_eq_iff)
qed

text \<open>A module in memory and the areas for it, as numbers.\<close>

definition fits :: "bytes \<Rightarrow> bytes \<Rightarrow> nat \<Rightarrow> nat \<Rightarrow> nat \<Rightarrow> nat \<Rightarrow> bool" where
  "fits c arg h it dt lim \<longleftrightarrow> take 2 c = [0x87, 0xcd] \<and> 13 < length c \<and> length c \<le> 32780 \<and>
     it = up (h + m_size c) \<and> dt = up (it + m_dsize c) \<and> it + length arg + 12 \<le> dt \<and> dt \<le> lim \<and> lim < 65536"

lemma fitsD:
  assumes "fits c arg h it dt lim"
  shows "take 2 c = [0x87, 0xcd]" "13 < length c" "length c \<le> 32780" "it = up (h + m_size c)" "dt = up (it + m_dsize c)"
    "it + length arg + 12 \<le> dt" "dt \<le> lim" "lim < 65536"
  using assms unfolding fits_def by auto

lemma up_fits: "up n < 65536 \<Longrightarrow> n + 255 < 65536"
proof -
  assume "up n < 65536"
  moreover have "up n = 256 * ((n + 255) div 256)" by (simp add: up_def)
  ultimately have "(n + 255) div 256 < 256" by linarith
  then show ?thesis by (simp add: div_less_iff_less_mult)
qed

lemma header_fields:
  assumes "peek m (of_nat h) 13 = take 13 c" "13 < length c"
  shows "h_sync m (of_nat h) = be16 (c ! 0) (c ! 1)" "h_size m (of_nat h) = of_nat (m_size c)"
    "h_exec m (of_nat h) = of_nat (m_exec c)" "h_dsize m (of_nat h) = of_nat (m_dsize c)"
proof -
  have at: "m (of_nat h + of_nat i) = c ! i" if "i < 13" for i
    using arg_cong [OF assms(1), of "\<lambda>xs. xs ! i"] that assms(2) nth_peek [OF that, of m "of_nat h"] by simp
  show "h_sync m (of_nat h) = be16 (c ! 0) (c ! 1)" "h_size m (of_nat h) = of_nat (m_size c)"
    "h_exec m (of_nat h) = of_nat (m_exec c)" "h_dsize m (of_nat h) = of_nat (m_dsize c)"
    using at [of 0] at [of 1] at [of 2] at [of 3] at [of 9] at [of 10] at [of 11] at [of 12]
    by (simp_all add: h_sync_def h_size_def h_exec_def h_dsize_def get16_def m_size_def m_exec_def m_dsize_def add.assoc)
qed

lemma areas_fit:
  assumes "fits c arg h it dt lim" "peek m (of_nat h) 13 = take 13 c"
  shows "areas_of m (of_nat h) arg =
    \<lparr>ibot = of_nat h, itop = of_nat it, dtop = of_nat dt, psize = of_nat (length arg), pbot = of_nat (dt - length arg),
     sbot = of_nat (dt - length arg - 12), ipc = of_nat (h + m_exec c)\<rparr>"
proof -
  note f = fitsD [OF assms(1)]
  have d: "dt < 65536" using f(7,8) by simp
  then have "it + m_dsize c + 255 < 65536" using up_fits f(5) by blast
  then have u1: "page_up (of_nat (it + m_dsize c)) = of_nat dt" using page_up_nat f(5) by blast
  have "up (h + m_size c) < 65536" using f(4,6) d by linarith
  then have "h + m_size c + 255 < 65536" by (rule up_fits)
  then have u2: "page_up (of_nat (h + m_size c)) = of_nat it" using page_up_nat f(4) by blast
  have "of_nat dt - of_nat (length arg) = (of_nat (dt - length arg) :: u16)"
    "of_nat (dt - length arg) - 12 = (of_nat (dt - length arg - 12) :: u16)" using f(6) by simp_all
  then show ?thesis
    using header_fields [OF assms(2) f(2)] u1 u2 by (simp add: areas_of_def Let_def)
qed

section \<open>Loading\<close>

lemma load_file:
  assumes "\<And>off n. k_read K fd n (ks off) = (Some (pread off n c), ks (off + length (pread off n c)))"
    and "kern s = ks 13" "13 < length c" "length c \<le> 32780" "n < 65536"
  shows "\<exists>k. load_loop K fd b (of_nat n - of_nat 13) s =
    (if n = length c then Some (Inr ((), s\<lparr>kern := k, mem := poke b (drop 13 c) (mem s)\<rparr>))
     else Some (Inl (Exit 1, eprintf (str ''error: module size too small'' @ [10]) (s\<lparr>kern := k, mem := poke b (drop 13 c) (mem s)\<rparr>))))"
proof -
  let ?l = "length c"
  have p: "pread 13 32767 c = drop 13 c" "drop 13 c \<noteq> []" using assms(3,4) by (simp_all add: pread_def)
  have r1: "k_read K fd 32767 (kern s) = (Some (drop 13 c), ks ?l)"
    using assms(1) [of 32767 13] assms(2,3) p by simp
  have r2: "k_read K fd 32767 (ks ?l) = (Some [], ks ?l)" using assms(1) [of 32767 ?l] by (simp add: pread_def)
  have "of_nat n - of_nat 13 - of_nat (length (drop 13 c)) = (of_nat n - of_nat ?l :: u16)"
    using assms(3) by (simp add: of_nat_diff)
  moreover have "of_nat n - of_nat ?l = (0 :: u16) \<longleftrightarrow> n = ?l"
  proof
    assume "of_nat n - of_nat ?l = (0 :: u16)"
    then have "unat (of_nat n :: u16) = unat (of_nat ?l :: u16)" by simp
    then show "n = ?l" using unat_of_nat16 [of n] unat_of_nat16 [of ?l] assms(4,5) by simp
  qed simp
  ultimately have todo: "of_nat n - of_nat 13 - of_nat (length (drop 13 c)) = (0 :: u16) \<longleftrightarrow> n = ?l" by (simp only:)
  note step = load_loop.simps [of K fd]
  define s1 where "s1 = s\<lparr>kern := ks ?l, mem := poke b (drop 13 c) (mem s)\<rparr>"
  have first: "load_loop K fd b (of_nat n - of_nat 13) s =
    (if n = ?l then Some (Inr ((), s1))
     else load_loop K fd (b + of_nat (length (drop 13 c))) (of_nat n - of_nat 13 - of_nat (length (drop 13 c))) s1)"
    unfolding step [of b "of_nat n - of_nat 13" s] r1 prod.case option.case Let_def todo by (simp only: p if_False s1_def)
  have second: "load_loop K fd b' w s1 = Some (Inl (Exit 1, eprintf (str ''error: module size too small'' @ [10]) s1))" for b' w
    unfolding step [of b' w s1] using r2 by (simp add: s1_def exit_def)
  show ?thesis unfolding first second unfolding s1_def by auto
qed

section \<open>The program\<close>

lemma mysbrk_fit:
  assumes "mybrk s = of_nat h" "h \<le> dt" "dt \<le> unat (mytop s)"
  shows "mysbrk (of_nat dt - of_nat h) s = (of_nat h, s\<lparr>mybrk := of_nat dt\<rparr>)"
proof -
  have "unat (of_nat dt :: u16) \<le> unat (mytop s)" using assms(3) by (metis le_unat_uoi order_refl)
  then have "\<not> mytop s < of_nat dt" by (simp add: word_less_nat_alt)
  then show ?thesis using assms(1) by (simp add: mysbrk_def Let_def)
qed

lemma print_areas_same:
  "mybrk (print_areas m A s) = mybrk s" "mytop (print_areas m A s) = mytop s" "kern (print_areas m A s) = kern s"
  "mem (print_areas m A s) = mem s" "datasize (print_areas m A s) = datasize s"
  by (simp_all add: print_areas_def printf_def Let_def)

lemma run_module_file:
  assumes "reads K fd (kern s) c" "mybrk s = of_nat h" "h < 65536" "fits c arg h it dt (unat (mytop s))"
  shows "\<exists>t. run_module K fd (n # arg # rest) s = Some (if m_size c = length c then enter (areas_of (mem t) (of_nat h) arg) arg t else (Exit 1, t)) \<and>
    (m_size c = length c \<longrightarrow> peek (mem t) (of_nat h) (length c) = c) \<and> mybrk t = of_nat dt \<and> datasize t = of_nat dt - of_nat it"
proof -
  note f = fitsD [OF assms(4)]
  obtain ks where ks: "kern s = ks 0" "\<And>off n. k_read K fd n (ks off) = (Some (pread off n c), ks (off + length (pread off n c)))"
    using assms(1) unfolding reads_def by blast
  define m where "m = poke (of_nat h) (take 13 c) (mem s)"
  define A where "A = areas_of m (of_nat h) arg"
  define s1 where "s1 = print_areas m A (s\<lparr>kern := ks 13, mem := m, datasize := dtop A - itop A\<rparr>)"
  define m2 where "m2 = poke (of_nat h + 13) (drop 13 c) m"
  have r: "k_read K fd HEADER (kern s) = (Some (take 13 c), ks 13)"
    using ks(1) ks(2) [of HEADER 0] f(2) by (simp add: pread_def HEADER_def)
  have pk: "peek m (of_nat h) 13 = take 13 c" unfolding m_def using f(2) by (intro peek_poke_same) simp_all
  note A = areas_fit [OF assms(4) pk, folded A_def]
  have "c ! 0 = 0x87" "c ! 1 = 0xcd" using f(1) nth_take [of 0 2 c] nth_take [of 1 2 c] by simp_all
  moreover have "be16 0x87 0xcd = 0x87cd" by code_simp
  ultimately have sy: "h_sync m (of_nat h) = 0x87cd" using header_fields(1) [OF pk f(2)] by simp
  have hd: "h \<le> dt" "h < dt" using up_ge [of "h + m_size c"] f(4,6) by linarith+
  have s1: "mybrk s1 = of_nat h" "mytop s1 = mytop s" "kern s1 = ks 13" "mem s1 = m" "datasize s1 = of_nat dt - of_nat it"
    using assms(2) A by (simp_all add: s1_def print_areas_same)
  have sb: "mysbrk (dtop A - ibot A) s1 = (of_nat h, s1\<lparr>mybrk := of_nat dt\<rparr>)"
    using mysbrk_fit [OF s1(1) hd(1)] f(7) s1(2) A by simp
  have neg: "sint (of_nat h :: u16) \<noteq> - 1"
  proof
    define w where "w = (of_nat h :: u16)"
    assume "sint (of_nat h :: u16) = - 1"
    then have "(if uint w < 32768 then uint w else uint w - 65536) = - 1" using sint_u16 [of w] by (simp only: w_def)
    then have "uint w = 65535" using uint_ge_0 [of w] by (cases "uint w < 32768") simp_all
    then have "h = 65535" using assms(3) unat_of_nat16 [of h] unfolding w_def by (simp only: unat_eq_nat_uint) simp
    then show False using hd(2) f(7,8) by simp
  qed
  have sz: "m_size c < 65536" by (simp add: m_size_def)
  have mm: "mem (s1\<lparr>mybrk := of_nat dt\<rparr>) = m" "kern (s1\<lparr>mybrk := of_nat dt\<rparr>) = ks 13" using s1(3,4) by simp_all
  note l = load_file [where ks = ks and b = "of_nat h + 13", OF ks(2) mm(2) f(2,3) sz, unfolded mm(1), folded m2_def]
  from l obtain k where l: "load_loop K fd (of_nat h + 13) (of_nat (m_size c) - of_nat 13) (s1\<lparr>mybrk := of_nat dt\<rparr>) =
    (if m_size c = length c then Some (Inr ((), s1\<lparr>mybrk := of_nat dt, kern := k, mem := m2\<rparr>))
     else Some (Inl (Exit 1, eprintf (str ''error: module size too small'' @ [10]) (s1\<lparr>mybrk := of_nat dt, kern := k, mem := m2\<rparr>))))" by blast
  have pk2: "peek m2 (of_nat h) (length c) = c" if "m_size c = length c"
  proof -
    have le: "h + length c \<le> 65536" using that up_ge [of "h + m_size c"] f(4,6,7,8) by linarith
    have m2: "m2 = poke (of_nat (h + 13)) (drop 13 c) m" by (simp add: m2_def)
    have "peek m2 (of_nat h) 13 = peek m (of_nat h) 13"
      unfolding m2 using le f(2) by (intro peek_poke_other) simp_all
    moreover have "peek m2 (of_nat h + of_nat 13) (length c - 13) = drop 13 c"
      unfolding m2_def of_nat_numeral using f(3) by (intro peek_poke_same) simp_all
    ultimately have "peek m2 (of_nat h) (13 + (length c - 13)) = take 13 c @ drop 13 c"
      unfolding peek_append pk by simp
    then show ?thesis using f(2) by simp
  qed
  have run: "run_module K fd (n # arg # rest) s =
      (case load_loop K fd (of_nat h + 13) (of_nat (m_size c) - of_nat 13) (s1\<lparr>mybrk := of_nat dt\<rparr>) of
         None \<Rightarrow> None
       | Some (Inl e) \<Rightarrow> Some e
       | Some (Inr (_, s)) \<Rightarrow> Some (enter A arg (snd (kcall (k_close K fd) s))))"
  proof -
    have "run_module K fd (n # arg # rest) s = place_module K fd (n # arg # rest) (s\<lparr>kern := ks 13, mem := m\<rparr>)"
      by (simp add: run_module_def r m_def assms(2))
    also have "\<dots> = fill_module K fd arg A s1"
      using sy by (simp add: place_module_def assms(2) A_def s1_def Let_def)
    also have "\<dots> = (case load_loop K fd (of_nat h + 13) (of_nat (m_size c) - of_nat 13) (s1\<lparr>mybrk := of_nat dt\<rparr>) of
         None \<Rightarrow> None
       | Some (Inl e) \<Rightarrow> Some e
       | Some (Inr (_, s)) \<Rightarrow> Some (enter A arg (snd (kcall (k_close K fd) s))))"
    proof -
      have "ibot A = of_nat h" by (simp add: A)
      moreover have "h_size (mem (s1\<lparr>mybrk := of_nat dt\<rparr>)) (of_nat h) = of_nat (m_size c)"
        unfolding mm(1) by (rule header_fields(2) [OF pk f(2)])
      ultimately show ?thesis using neg sb by (simp add: fill_module_def HEADER_def)
    qed
    finally show ?thesis .
  qed
  show ?thesis
  proof (cases "m_size c = length c")
    case False
    define t where "t = eprintf (str ''error: module size too small'' @ [10]) (s1\<lparr>mybrk := of_nat dt, kern := k, mem := m2\<rparr>)"
    have "run_module K fd (n # arg # rest) s = Some (Exit 1, t)" unfolding run l using False by (simp add: t_def)
    moreover have "mybrk t = of_nat dt" "datasize t = of_nat dt - of_nat it" by (simp_all add: t_def eprintf_def s1(5))
    ultimately show ?thesis using False by auto
  next
    case True
    define t where "t = snd (kcall (k_close K fd) (s1\<lparr>mybrk := of_nat dt, kern := k, mem := m2\<rparr>))"
    have t: "mem t = m2" "mybrk t = of_nat dt" "datasize t = of_nat dt - of_nat it"
      by (simp_all add: t_def kcall_def case_prod_unfold s1(5))
    have "peek m2 (of_nat h) 13 = take 13 c"
      using arg_cong [OF pk2 [OF True], of "take 13"] peek_append [of m2 "of_nat h" 13 "length c - 13"] f(2) by simp
    with areas_fit [OF assms(4)] A have "areas_of m2 (of_nat h) arg = A" by simp
    moreover have "run_module K fd (n # arg # rest) s = Some (enter A arg t)"
      unfolding run l using True by (simp add: t_def case_prod_unfold)
    ultimately show ?thesis using True t pk2 by (intro exI [of _ t]) simp
  qed
qed

text \<open>What the start of a module leaves: parameters with their end behind the data area, and the registers.\<close>

definition word_bytes :: "nat \<Rightarrow> bytes" where
  "word_bytes n = [hi8 (of_nat n), lo8 (of_nat n)]"

lemma page_high: "it < 65536 \<Longrightarrow> ucast (drop_bit 8 (of_nat it :: u16)) = (of_nat (it div 256) :: u8)"
proof -
  assume it: "it < 65536"
  then have "it div 256 < 256" by (simp add: less_mult_imp_div_less)
  moreover have "unat (drop_bit 8 (of_nat it :: u16)) = it div 256"
    unfolding unsigned_drop_bit_eq using it by (simp add: unat_of_nat16 drop_bit_eq_div take_bit_nat_eq_self)
  ultimately show ?thesis by (simp only: word_unat_eq_iff) (simp add: unsigned_ucast_eq unat_of_nat take_bit_nat_eq_self)
qed

lemma enter_areas:
  assumes "fits c arg h it dt lim" "m_size c = length c" "peek (mem s) (of_nat h) (length c) = c"
  shows "\<exists>t. enter (areas_of (mem s) (of_nat h) arg) arg s = (Go (of_nat (dt - length arg - 12)), t) \<and>
    peek (mem t) (of_nat h) (length c) = c \<and>
    peek (mem t) (of_nat (dt - length arg)) (length arg + 1) = arg @ [0] \<and>
    peek (mem t) (of_nat (dt - length arg - 12)) 12 = [0x80] @ word_bytes (length arg) @ [of_nat (it div 256)] @
      word_bytes (dt - length arg) @ word_bytes dt @ word_bytes it @ word_bytes (h + m_exec c) \<and>
    mybrk t = mybrk s \<and> datasize t = datasize s"
proof -
  note f = fitsD [OF assms(1)]
  have "peek (mem s) (of_nat h) 13 = take 13 c"
    using arg_cong [OF assms(3), of "take 13"] peek_append [of "mem s" "of_nat h" 13 "length c - 13"] f(2) by simp
  note A = areas_fit [OF assms(1) this]
  define A where "A = areas_of (mem s) (of_nat h) arg"
  define m1 where "m1 = poke (of_nat (dt - length arg)) (arg @ [0]) (mem s)"
  define m2 where "m2 = poke (of_nat (dt - length arg - 12)) (start_frame A) m1"
  have le: "h + length c \<le> it" using up_ge [of "h + m_size c"] f(4) assms(2) by linarith
  have sep: "h + length c \<le> dt - length arg - 12" "dt - length arg - 12 + 12 = dt - length arg" "h + length c \<le> dt - length arg"
    using le f(6) by linarith+
  have fr: "start_frame A = [0x80] @ word_bytes (length arg) @ [of_nat (it div 256)] @
      word_bytes (dt - length arg) @ word_bytes dt @ word_bytes it @ word_bytes (h + m_exec c)"
    using page_high [of it] f(6-8) unfolding A_def A by (simp add: start_frame_def word_bytes_def)
  have l12: "length (start_frame A) = 12" by (simp add: start_frame_def)
  have "peek m1 (of_nat h) (length c) = c"
    unfolding m1_def using sep f(6-8) by (subst peek_poke_other) (auto simp: assms(3))
  then have c: "peek m2 (of_nat h) (length c) = c"
    unfolding m2_def using sep f(6-8) l12 by (subst peek_poke_other) auto
  have "peek m1 (of_nat (dt - length arg)) (length arg + 1) = arg @ [0]"
    unfolding m1_def using f(6-8) by (intro peek_poke_same) simp_all
  then have p: "peek m2 (of_nat (dt - length arg)) (length arg + 1) = arg @ [0]"
    unfolding m2_def using sep f(6-8) l12 by (subst peek_poke_other) auto
  have r: "peek m2 (of_nat (dt - length arg - 12)) 12 = start_frame A"
    unfolding m2_def using l12 by (intro peek_poke_same) simp_all
  have "enter A arg s = (Go (of_nat (dt - length arg - 12)), s\<lparr>mem := m2\<rparr>)"
    unfolding enter_def Let_def m2_def m1_def unfolding A_def A by simp
  then show ?thesis unfolding A_def using c p r fr by simp
qed


text \<open>C10:
  A module is started if and only if its file is exactly as long as its header says: then the
  whole of it is in memory at the old break, \<open>U\<close> and \<open>Y\<close> are the bounds of the data area, the
  parameter string and its end mark are at \<open>X\<close> with the length in \<open>D\<close>, the registers are pulled
  from below it, and the break is the end of the data area, so that the end mark is the first byte
  that has not been allocated.  A longer or a shorter file ends the program with an error.
\<close>

theorem os9_start:
  assumes "os9_setup K s = Inr ((), s1)" and "kcall (k_open K n 0 None) s1 = (fd, s2)" and "0 \<le> fd"
    and "reads K fd (kern s2) c" and "h = unat (mybrk s2)" and "fits c arg h it dt (unat (mytop s2))"
  shows "\<exists>t. os9sim_main K (n # arg # rest) s =
      Some (if m_size c = length c then Go (of_nat (dt - length arg - 12)) else Exit 1, t) \<and>
    (m_size c = length c \<longrightarrow>
      peek (mem t) (of_nat h) (length c) = c \<and>
      peek (mem t) (of_nat (dt - length arg)) (length arg + 1) = arg @ [0] \<and>
      peek (mem t) (of_nat (dt - length arg - 12)) 12 = [0x80] @ word_bytes (length arg) @ [of_nat (it div 256)] @
        word_bytes (dt - length arg) @ word_bytes dt @ word_bytes it @ word_bytes (h + m_exec c)) \<and>
    mybrk t = of_nat dt \<and> datasize t = of_nat dt - of_nat it"
proof -
  have h: "mybrk s2 = of_nat h" "h < 65536" using assms(5) by simp_all
  have run: "os9sim_main K (n # arg # rest) s = run_module K fd (n # arg # rest) s2"
    using assms(1-3) by (simp add: os9sim_main_def)
  from run_module_file [OF assms(4) h assms(6), of n rest] obtain t where
    t: "run_module K fd (n # arg # rest) s2 =
      Some (if m_size c = length c then enter (areas_of (mem t) (of_nat h) arg) arg t else (Exit 1, t))"
    "m_size c = length c \<Longrightarrow> peek (mem t) (of_nat h) (length c) = c" "mybrk t = of_nat dt" "datasize t = of_nat dt - of_nat it" by blast
  show ?thesis
  proof (cases "m_size c = length c")
    case False
    with run t show ?thesis by auto
  next
    case True
    from enter_areas [OF assms(6) True t(2) [OF True]] run t True show ?thesis by auto
  qed
qed

section \<open>An example\<close>

text \<open>
  A kernel with one file, whose state is the position in it, and a module of 16 bytes with a page
  of data that is given a parameter.
\<close>

definition demo_module :: bytes where
  "demo_module = [0x87, 0xcd, 0, 16, 0, 13, 0x11, 0x81, 0, 0, 13, 1, 0, 0x12, 0x13, 0x14]"

definition demo_sys :: "bytes \<Rightarrow> nat sys" where
  "demo_sys c = \<lparr>k_open = (\<lambda>n fl md k. (3, 0)), k_close = (\<lambda>fd k. (0, k)),
     k_read = (\<lambda>fd n k. (Some (pread k n c), k + length (pread k n c))), k_write = (\<lambda>fd b k. (int (length b), k)),
     k_lseek = (\<lambda>fd p k. (uint p, unat p)), k_mkdir = (\<lambda>n m k. (0, k)), k_unlink = (\<lambda>n k. (0, k)),
     k_chdir = (\<lambda>n k. (0, k)), k_dup = (\<lambda>fd k. (4, k)), k_sbrk0 = (\<lambda>k. if k = 0 then 0x2000 else 0x7000),
     k_brk = (\<lambda>p k. (0, 1)), k_uname = (\<lambda>k. (0, 1)), k_swi2 = (\<lambda>fd k. (0, k)), k_errno = (\<lambda>k. 9),
     k_strerror = (\<lambda>k. []), o_creat = 0x100, indet = 0, frame_s = 0xf000\<rparr>"

definition demo_os9 :: "nat os9" where
  "demo_os9 = \<lparr>r_cc = 0, r_a = 0, r_b = 0, r_dp = 0, r_x = 0, r_y = 0, r_u = 0, r_pc = 0, mem = (\<lambda>_. 0), mybrk = 0,
     mytop = 0, datasize = 0, path = replicate 256 0, termfd = 0, po = [], outs = [], errs = [], kern = 0\<rparr>"

lemma demo_setup:
  "\<exists>s1. os9_setup (demo_sys c) demo_os9 = Inr ((), s1) \<and> mybrk s1 = 0x2000 \<and> mytop s1 = 0x7000"
  by (simp add: os9_setup_def demo_sys_def demo_os9_def kcall_def int16_def eprintf_def Let_def)

lemma demo_reads: "reads (demo_sys c) 3 0 c"
  unfolding reads_def by (rule exI [of _ "\<lambda>k. k"]) (simp add: demo_sys_def)

lemma demo_fits: "fits demo_module [0x41] 0x2000 0x2100 0x2200 0x7000"
  by (simp add: fits_def demo_module_def m_size_def m_dsize_def be16_def up_def)

lemma os9_start_witness:
  "\<exists>t. os9sim_main (demo_sys demo_module) [[1], [0x41]] demo_os9 = Some (Go 8691, t) \<and>
    peek (mem t) 0x2000 16 = demo_module \<and> mybrk t = 0x2200"
proof -
  obtain s1 where s1: "os9_setup (demo_sys demo_module) demo_os9 = Inr ((), s1)" "mybrk s1 = 0x2000" "mytop s1 = 0x7000"
    using demo_setup by blast
  have o: "kcall (k_open (demo_sys demo_module) [1] 0 None) s1 = (3, s1\<lparr>kern := 0\<rparr>)"
    by (simp add: kcall_def demo_sys_def int16_def)
  have "reads (demo_sys demo_module) 3 (kern (s1\<lparr>kern := 0\<rparr>)) demo_module" using demo_reads by simp
  moreover have "0x2000 = unat (mybrk (s1\<lparr>kern := 0\<rparr>))" "fits demo_module [0x41] 0x2000 0x2100 0x2200 (unat (mytop (s1\<lparr>kern := 0\<rparr>)))"
    using demo_fits s1 by simp_all
  moreover have "m_size demo_module = 16" "length demo_module = 16" by (simp_all add: m_size_def demo_module_def be16_def)
  ultimately show ?thesis using os9_start [OF s1(1) o, of demo_module] by fastforce
qed

definition path_os9 :: "nat os9" where
  "path_os9 = demo_os9\<lparr>mem := poke 0x100 (replicate 2 32 @ coded True [0x2f, 0x44] @ replicate 3 32 @ [13]) (\<lambda>_. 0), r_x := 0x100\<rparr>"

lemma os9_paths_witness:
  "\<exists>t. parsepath path_os9 = Inr ((), t) \<and> c_str (path t) = str ''/D'' \<and> r_x t = 0x107"
proof -
  let ?bs = "replicate 2 32 @ coded True [0x2f, 0x44] @ replicate 3 32 @ [13]"
  have m: "mem path_os9 = poke 0x100 ?bs (\<lambda>_. 0)" "r_x path_os9 = 0x100" by (simp_all add: path_os9_def del: poke.simps)
  have "peek (mem path_os9) (r_x path_os9) (2 + length [0x2f, 0x44 :: u8] + 3 + 1) = ?bs"
    unfolding m by (rule peek_poke_same) (simp_all add: coded_def)
  moreover have "\<forall>x \<in> set [0x2f, 0x44]. plain_char x" by (simp add: plain_char_def)
  ultimately obtain t where "parsepath path_os9 = Inr ((), t)" "c_str (path t) = [0x2f, 0x44]" "r_x t = r_x path_os9 + of_nat (2 + length [0x2f, 0x44 :: u8] + 3)"
    using os9_paths [where i = 2 and j = 3 and cs = "[0x2f, 0x44]" and marked = True and c = 13 and s = path_os9] by auto
  then show ?thesis by (simp add: path_os9_def str_def)
qed

text \<open>A call of \<open>F$Mem\<close> for two pages, with the break in the lower and in the upper half.\<close>

definition mem_os9 :: "u16 \<Rightarrow> u16 \<Rightarrow> nat os9" where
  "mem_os9 brk lim = demo_os9\<lparr>mem := (\<lambda>_. 0)(0x100 := 0x07), r_pc := 0x100, r_a := 2, mybrk := brk, datasize := 0x100, mytop := lim\<rparr>"

lemma mem_os9_fields:
  "new_brk (mem_os9 brk lim) = brk + 0x100" "mybrk (mem_os9 brk lim) = brk" "mytop (mem_os9 brk lim) = lim"
  "datasize (mem_os9 brk lim) = 0x100" "r_cc (mem_os9 brk lim) = 0"
  by (simp_all add: new_brk_def asked_def mem_os9_def be16_def demo_os9_def)

lemma mem_os9_call: "os9call K (mem_os9 brk lim) =
   Inr ((), os9mem K ((mem_os9 brk lim)\<lparr>r_pc := 0x101, r_cc := 0\<rparr>))"
  by (simp add: os9call_def dispatch_def mem_os9_def demo_os9_def)

lemma os9_call_frame_witness:
  "\<exists>t. os9call (demo_sys []) (mem_os9 0x2200 0x7000) = Inr ((), t) \<and> r_pc t = 0x101 \<and> mem t = mem (mem_os9 0x2200 0x7000)"
  using os9_call_frame [OF mem_os9_call, of "demo_sys []" "0x2200" "0x7000"] mem_os9_call [of "demo_sys []" "0x2200" "0x7000"]
  by (auto simp: mem_os9_def)

lemma os9_break_kept_witness:
  "in_step 0x2100 0x7000 (mem_os9 0x2200 0x7000) \<and>
   in_step 0x2100 0x7000 (os9mem (demo_sys []) ((mem_os9 0x2200 0x7000)\<lparr>r_pc := 0x101, r_cc := 0\<rparr>))"
proof -
  have i: "in_step 0x2100 0x7000 (mem_os9 0x2200 0x7000)" by (simp add: in_step_def mem_os9_fields)
  have "(os9_step (demo_sys []))\<^sup>*\<^sup>* (mem_os9 0x2200 0x7000) (os9mem (demo_sys []) ((mem_os9 0x2200 0x7000)\<lparr>r_pc := 0x101, r_cc := 0\<rparr>))"
    by (rule r_into_rtranclp) (rule os9_step.call [OF mem_os9_call])
  from os9_break_kept [OF this i] i show ?thesis by simp
qed

lemma os9_mem_high_witness:
  "r_cc (os9mem (demo_sys []) (mem_os9 0x9000 0xf000)) = 1 \<and> mybrk (os9mem (demo_sys []) (mem_os9 0x9000 0xf000)) = 0x9100 \<and>
   datasize (os9mem (demo_sys []) (mem_os9 0x9000 0xf000)) = 0x100"
  using os9_mem_high [of "mem_os9 0x9000 0xf000" "demo_sys []"] by (simp add: mem_os9_fields)

lemma os9_seek_sign_witness:
  "r_cc (os9seek (demo_sys []) (demo_os9\<lparr>r_u := 0x9000\<rparr>)) = 1 \<and> kern (os9seek (demo_sys []) (demo_os9\<lparr>r_u := 0x9000\<rparr>)) = 0x9000"
  using os9_seek_sign [of "demo_sys []" "demo_os9\<lparr>r_u := 0x9000\<rparr>" "0x9000" "0x9000"] by (simp add: demo_sys_def demo_os9_def)

end
