(* ===== verification/Resolve.thy ===== *)
theory Resolve
  imports Cstring
begin

text \<open>
  \<open>firc/gethostbyname.c\<close>, the resolver: it asks the name server of \<open>/etc/resolv.conf\<close> for the
  addresses of a host, with one packet in each direction.  The structures are those of a
  big-endian machine, the network and the address parser \<open>inet_pton\<close> are the environment.
\<close>

section \<open>State\<close>

definition MAXADDRS :: nat where "MAXADDRS = 4"
definition BUFZ :: nat where "BUFZ = 512"

text \<open>
  The static variables: the packet buffer, the bytes of the address table, the list of pointers
  into it (by the number of the address) and \<open>h_errno\<close>; \<open>sent\<close> are the packets that were written.
\<close>

record rsv =
  buf :: bytes
  addrs :: bytes
  hlist :: "nat option list"
  h_errno :: nat
  sent :: "bytes list"

text \<open>
  \<open>resolv\<close> is the configuration file, \<open>reply\<close> what the \<open>read\<close> of a try delivers (\<open>None\<close> when the
  alarm ends it), \<open>connects\<close> whether an address can be connected to, where \<open>None\<close> is an address
  that was never set.  \<open>junk\<close> is the string that \<open>server\<close> happens to hold.  The assignment
  \<open>list[lno++] = &addrs[lno][0]\<close> does not say which \<open>lno\<close> the right side has: \<open>inc_first\<close> does.
\<close>

record renv =
  pton :: "bytes \<Rightarrow> bytes option"
  resolv :: "bytes option"
  sockets :: bool
  connects :: "bytes option \<Rightarrow> bool"
  reply :: "nat \<Rightarrow> bytes option"
  junk :: bytes
  inc_first :: bool

text \<open>A write through the null pointer, an access outside of an array, and a loop without end.\<close>

datatype rstop = Null_write | Outside | Forever

type_synonym 'a rres = "(rstop \<times> rsv) + ('a \<times> rsv)"

section \<open>The question\<close>

text \<open>
  The name as labels with their lengths in front: \<open>l\<close> is the place of the length of the label
  that is being copied, and \<open>o'\<close> that of the next byte.
\<close>

fun label_loop :: "bytes \<Rightarrow> nat \<Rightarrow> nat \<Rightarrow> bytes \<Rightarrow> (bytes \<times> nat) option" where
  "label_loop [] l o' b = (if l < length b then Some (b[l := of_nat (o' - l - 1)], o') else None)"
| "label_loop (c # cs) l o' b =
     (if c = 0x2e then
        if l < length b then label_loop cs o' (o' + 1) (b[l := of_nat (o' - l - 1)]) else None
      else if o' < length b then label_loop cs l (o' + 1) (b[o' := c]) else None)"

definition HEADER :: nat where "HEADER = 12"

definition blank_question :: bytes where
  "blank_question = (replicate BUFZ 0)[1 := 42, 2 := 1, 5 := 1]"

definition send_question :: "bytes \<Rightarrow> rsv \<Rightarrow> unit rres" where
  "send_question name s =
     (case label_loop name HEADER (HEADER + 1) blank_question of
        None \<Rightarrow> Inl (Outside, s)
      | Some (b, o') \<Rightarrow>
          if length b < o' + 5 then Inl (Outside, s)
          else
            let b = b[o' := 0]; o' = o' + 1; b = b[o' := 0, o' + 1 := 1]; b = b[o' + 2 := 0, o' + 3 := 1]
            in Inr ((), s\<lparr>buf := b, sent := sent s @ [take (o' + 4) b]\<rparr>))"

section \<open>The answer\<close>

definition word_at :: "bytes \<Rightarrow> nat \<Rightarrow> u16" where
  "word_at b i = be16 (b ! i) (b ! (i + 1))"

text \<open>
  Skipping a name: a zero ends it, so does a pointer of two bytes, and anything else is the length
  of a label, as a signed number.  The place is all the state of the loop, so more turns than
  there are places are a loop without end.
\<close>

fun skip_name :: "nat \<Rightarrow> bytes \<Rightarrow> int \<Rightarrow> rstop + int" where
  "skip_name 0 b p = Inl Forever"
| "skip_name (Suc n) b p =
     (if p < 0 \<or> int (length b) \<le> p then Inl Outside
      else
        let c = b ! nat p in
        if c = 0 then Inr (p + 1)
        else if c AND 0xc0 = 0xc0 then Inr (p + 2)
        else skip_name n b (p + sint c + 1))"

definition scan_name :: "bytes \<Rightarrow> int \<Rightarrow> rstop + int" where
  "scan_name b p = skip_name (length b + 1) b p"

fun skip_questions :: "nat \<Rightarrow> bytes \<Rightarrow> int \<Rightarrow> rstop + int" where
  "skip_questions 0 b p = Inr p"
| "skip_questions (Suc n) b p = rbind (scan_name b p) (\<lambda>p. skip_questions n b (p + 4))"

text \<open>The data of an address, copied to its place in the table, which it may be longer than.\<close>

fun copy_addr :: "nat \<Rightarrow> nat \<Rightarrow> int \<Rightarrow> rsv \<Rightarrow> int rres" where
  "copy_addr 0 k p s = Inr (p, s)"
| "copy_addr (Suc n) k p s =
     (if p < 0 \<or> int (length (buf s)) \<le> p \<or> length (addrs s) \<le> k then Inl (Outside, s)
      else copy_addr n (k + 1) (p + 1) (s\<lparr>addrs := (addrs s)[k := buf s ! nat p]\<rparr>))"

text \<open>\<open>n\<close> records from \<open>p\<close> on, with \<open>lno\<close> addresses so far.\<close>

fun answers :: "renv \<Rightarrow> nat \<Rightarrow> nat \<Rightarrow> int \<Rightarrow> rsv \<Rightarrow> nat rres" where
  "answers env 0 lno p s = Inr (lno, s)"
| "answers env (Suc n) lno p s =
     (case scan_name (buf s) p of
        Inl e \<Rightarrow> Inl (e, s)
      | Inr t \<Rightarrow>
          if t < 0 \<or> int (length (buf s)) < t + 10 then Inl (Outside, s)
          else
            let rdlen = unat (word_at (buf s) (nat t + 8)) in
            if word_at (buf s) (nat t) = 1 then
              rbind (copy_addr rdlen (4 * lno) (t + 10) s) (\<lambda>(p, s).
                answers env n (lno + 1) p
                  (s\<lparr>hlist := (hlist s)[lno := Some (if inc_first env then lno + 1 else lno)]\<rparr>))
            else answers env n lno (t + 10 + int rdlen) s)"

text \<open>
  A reply, with true for the return of the host.  In C, \<open>! h->cntl & 0x80\<close> is the negation of the
  byte and then its bit 7.
\<close>

definition process :: "renv \<Rightarrow> rsv \<Rightarrow> bool rres" where
  "process env s =
     (let not_byte = (\<lambda>c :: u8. if c = 0 then 1 else 0 :: u8) in
      if word_at (buf s) 0 \<noteq> 42 then Inr (False, s)
      else if not_byte (buf s ! 2) AND 0x80 \<noteq> 0 then Inr (False, s)
      else if not_byte (buf s ! 3) AND 0x80 \<noteq> 0 then Inr (False, s)
      else if word_at (buf s) 6 = 0 then Inr (False, s)
      else case skip_questions (min (unat (word_at (buf s) 4)) 4) (buf s) (int HEADER) of
        Inl e \<Rightarrow> Inl (e, s)
      | Inr p \<Rightarrow>
          let s = (if of_nat MAXADDRS < word_at (buf s) 6
                   then s\<lparr>buf := (buf s)[6 := 0, 7 := of_nat MAXADDRS]\<rparr> else s)
          in rbind (answers env (unat (word_at (buf s) 6)) 0 p s) (\<lambda>(lno, s).
            Inr (True, s\<lparr>hlist := (hlist s)[lno := None]\<rparr>)))"

text \<open>Each try sends the question and waits for two seconds.\<close>

fun tries :: "renv \<Rightarrow> bytes \<Rightarrow> nat \<Rightarrow> nat \<Rightarrow> rsv \<Rightarrow> bool rres" where
  "tries env name 0 k s = Inr (False, s\<lparr>h_errno := 1\<rparr>)"
| "tries env name (Suc n) k s =
     rbind (send_question name s) (\<lambda>(_, s).
       case reply env k of
         None \<Rightarrow> tries env name n (k + 1) s
       | Some r \<Rightarrow> let d = take BUFZ r in process env (s\<lparr>buf := d @ drop (length d) (buf s)\<rparr>))"

section \<open>The name server\<close>

definition is_ws :: "u8 \<Rightarrow> bool" where
  "is_ws c \<longleftrightarrow> c = 32 \<or> c = 12 \<or> c = 10 \<or> c = 13 \<or> c = 9 \<or> c = 11"

text \<open>The tokens of \<open>strtok\<close>.\<close>

function words_of :: "bytes \<Rightarrow> bytes list" where
  "words_of t =
     (let r = dropWhile is_ws t in
      if r = [] then [] else takeWhile (\<lambda>c. \<not> is_ws c) r # words_of (dropWhile (\<lambda>c. \<not> is_ws c) r))"
  by pat_completeness auto

termination
proof (relation "measure length")
  fix t r :: bytes
  assume r: "r = dropWhile is_ws t" "r \<noteq> []"
  then have "\<not> is_ws (hd r)" by (simp add: hd_dropWhile)
  then have "length (dropWhile (\<lambda>c. \<not> is_ws c) r) < length r"
    using r(2) length_dropWhile_le [of "\<lambda>c. \<not> is_ws c" "tl r"] by (cases r) auto
  also have "length r \<le> length t" using r(1) length_dropWhile_le [of is_ws t] by simp
  finally show "(dropWhile (\<lambda>c. \<not> is_ws c) r, t) \<in> measure length" by simp
qed simp

declare words_of.simps [simp del]

text \<open>
  The server is what follows the last \<open>nameserver\<close>, in 17 bytes: \<open>None\<close> for one that is longer,
  \<open>Some None\<close> for a keyword without a value.
\<close>

fun find_server :: "bytes list \<Rightarrow> bytes \<Rightarrow> bytes option option" where
  "find_server [] srv = Some (Some srv)"
| "find_server (w # ws) srv =
     (if w = str ''nameserver'' then
        case ws of
          [] \<Rightarrow> Some None
        | a # ws \<Rightarrow> if 17 \<le> length a then None else find_server ws a
      else find_server ws srv)"

definition gethostbyname :: "renv \<Rightarrow> bytes \<Rightarrow> rsv \<Rightarrow> bool rres" where
  "gethostbyname env name s =
     (case pton env name of
        Some a \<Rightarrow>
          (case hlist s ! 0 of
             None \<Rightarrow> Inl (Null_write, s)
           | Some k \<Rightarrow> Inr (True, s\<lparr>addrs := take (4 * k) (addrs s) @ a @ drop (4 * k + 4) (addrs s),
               hlist := (hlist s)[1 := None]\<rparr>))
      | None \<Rightarrow>
          case resolv env of
            None \<Rightarrow> Inr (False, s)
          | Some f \<Rightarrow>
              let d = take 511 f in
              if d = [] then Inr (False, s)
              else
                let s = s\<lparr>buf := d @ 0 # drop (length d + 1) (buf s)\<rparr> in
                case find_server (words_of (c_str d)) (junk env) of
                  None \<Rightarrow> Inl (Outside, s)
                | Some None \<Rightarrow> Inr (False, s)
                | Some (Some srv) \<Rightarrow>
                    if \<not> sockets env then Inr (False, s)
                    else if \<not> connects env (pton env srv) then Inr (False, s)
                    else tries env name 5 0 s)"

text \<open>The addresses of the host that was returned, and the variables at the start of the program.\<close>

definition host_addrs :: "rsv \<Rightarrow> bytes list" where
  "host_addrs s = map (\<lambda>k. take 4 (drop (4 * the k) (addrs s))) (takeWhile (\<lambda>k. k \<noteq> None) (hlist s))"

definition rsv_start :: rsv where
  "rsv_start = \<lparr>buf = replicate BUFZ 0, addrs = replicate 16 0, hlist = replicate 5 None, h_errno = 0, sent = []\<rparr>"

end
