(* ===== verification/Firc.thy ===== *)
theory Firc
  imports Resolve
begin

text \<open>
  \<open>firc/firc.c\<close>, the IRC client: keys are collected in an input line, bytes of the network in a
  protocol line, and a full line of either kind is acted on at once.  The terminal, the keys and
  the network are arguments, by the number of the turn of the main loop.
\<close>

section \<open>State\<close>

definition IMAX :: nat where "IMAX = 512"

text \<open>
  The global variables.  Pointers into a buffer are its indices, \<open>None\<close> is null; \<open>ppos\<close> is the
  static \<open>p\<close> of \<open>fill_proto\<close>, \<open>raw\<close> whether the terminal is in its raw mode, \<open>tty\<close> and \<open>net\<close> what
  was written to the terminal and to the server, \<open>diag\<close> the messages for the error output.
\<close>

record irc =
  ibuf :: bytes
  obuf :: bytes
  iptr :: nat
  scrl :: nat
  pbuf :: bytes
  ppos :: nat
  mes :: "nat option"
  nickname :: "nat option"
  com :: "nat option"
  param :: "nat option list"
  param_no :: nat
  channel :: bytes
  raw :: bool
  tty :: bytes
  net :: bytes
  diag :: "bytes list"
  rsv_of :: rsv

datatype keyread = Key u8 | End_input | No_key

text \<open>
  \<open>junk_c\<close> and \<open>junk_x\<close> are what the variables \<open>c\<close> of \<open>hash_nick\<close> and \<open>x\<close> of \<open>inproc\<close> hold, which are
  never set.
\<close>

record ienv =
  resolver :: renv
  gets_attr :: bool
  sets_attr :: bool
  tcp_socket :: bool
  tcp_connect :: "bytes \<Rightarrow> u16 \<Rightarrow> bool"
  keys :: "nat \<Rightarrow> keyread"
  recv :: "nat \<Rightarrow> bytes option"
  junk_c :: "irc \<Rightarrow> u8"
  junk_x :: "nat \<Rightarrow> int"

text \<open>
  The ends of the program: its exit, an access outside of an array, a null pointer that is read, a
  conversion of \<open>printf\<close> without an argument, and what stops the resolver.
\<close>

datatype fstop = Exit nat | Overrun | Null_read | Format | In_resolver rstop

type_synonym 'a fres = "(fstop \<times> irc) + ('a \<times> irc)"

definition my_exit :: "nat \<Rightarrow> irc \<Rightarrow> 'a fres" where
  "my_exit val s = Inl (Exit val, s\<lparr>raw := False\<rparr>)"

section \<open>Output\<close>

definition put :: "bytes \<Rightarrow> irc \<Rightarrow> irc" where
  "put t s = s\<lparr>tty := tty s @ t\<rparr>"

definition mvto :: "u8 \<Rightarrow> u8 \<Rightarrow> irc \<Rightarrow> irc" where
  "mvto y x s = put [27, 0x59, y + 32, x + 32] s"

definition set_fcolor :: "u8 \<Rightarrow> irc \<Rightarrow> irc" where
  "set_fcolor color s = put [27, 0x62, 0x30 + color] s"

definition hash_nick :: "u8 \<Rightarrow> bytes \<Rightarrow> u8" where
  "hash_nick c t = (let c = fold (\<lambda>x c. c XOR x) t c AND 7 in if c = 4 \<or> c = 0 then c + 1 else c)"

text \<open>A text as the format of \<open>printf\<close>: only \<open>%%\<close> has no argument.\<close>

fun fmt_text :: "bytes \<Rightarrow> bytes option" where
  "fmt_text [] = Some []"
| "fmt_text (c # t) =
     (if c \<noteq> 0x25 then map_option (Cons c) (fmt_text t)
      else case t of [] \<Rightarrow> None | d # t \<Rightarrow> if d = 0x25 then map_option (Cons d) (fmt_text t) else None)"

definition printf :: "bytes \<Rightarrow> irc \<Rightarrow> unit fres" where
  "printf t s = (case fmt_text t of None \<Rightarrow> Inl (Format, s) | Some t \<Rightarrow> Inr ((), put t s))"

text \<open>The string at a pointer into a buffer.\<close>

definition string_at :: "bytes \<Rightarrow> nat option \<Rightarrow> irc \<Rightarrow> bytes fres" where
  "string_at b p s =
     (case p of
        None \<Rightarrow> Inl (Null_read, s)
      | Some p \<Rightarrow> if 0 \<in> set (drop p b) then Inr (c_str (drop p b), s) else Inl (Overrun, s))"

definition iprint :: "irc \<Rightarrow> unit fres" where
  "iprint s =
     (let s = mvto 24 0 s; s = s\<lparr>ibuf := (ibuf s)[iptr s := 0]\<rparr>
      in rbind (string_at (ibuf s) (Some (scrl s)) s) (\<lambda>(t, s). printf t s))"

definition oprint :: "irc \<Rightarrow> unit fres" where
  "oprint s =
     (let s = put [27, 0x4b] (mvto 24 0 s)
      in rbind (string_at (obuf s) (Some 0) s) (\<lambda>(t, s).
         rbind (printf t s) (\<lambda>(_, s). iprint (put [10] s))))"

text \<open>\<open>sprintf\<close> into the output line, with the text that the format gives, and its paddings.\<close>

definition sprintf_obuf :: "bytes \<Rightarrow> irc \<Rightarrow> unit fres" where
  "sprintf_obuf t s =
     (if length (obuf s) \<le> length t then Inl (Overrun, s)
      else Inr ((), s\<lparr>obuf := t @ 0 # drop (length t + 1) (obuf s)\<rparr>))"

definition pad8 :: "bytes \<Rightarrow> bytes" where
  "pad8 t = replicate (8 - length t) 32 @ t"

section \<open>The protocol line\<close>

text \<open>\<open>skip\<close>: the end of a word becomes a zero, and the next word is where its blanks end.\<close>

function skip_word :: "bytes \<Rightarrow> nat \<Rightarrow> nat option" where
  "skip_word b p =
     (if length b \<le> p then None
      else if b ! p = 32 \<or> b ! p = 0 then Some p else skip_word b (p + 1))"
  by pat_completeness auto
termination by (relation "measure (\<lambda>(b, p). length b - p)") auto

function skip_blanks :: "bytes \<Rightarrow> nat \<Rightarrow> nat option" where
  "skip_blanks b p =
     (if length b \<le> p then None
      else if b ! p = 32 then skip_blanks b (p + 1) else Some p)"
  by pat_completeness auto
termination by (relation "measure (\<lambda>(b, p). length b - p)") auto

declare skip_word.simps [simp del] skip_blanks.simps [simp del]

definition skip :: "nat \<Rightarrow> irc \<Rightarrow> nat fres" where
  "skip p s =
     (case skip_word (pbuf s) p of
        None \<Rightarrow> Inl (Overrun, s)
      | Some q \<Rightarrow>
          if pbuf s ! q = 0 then Inr (q, s)
          else
            let s = s\<lparr>pbuf := (pbuf s)[q := 0]\<rparr> in
            case skip_blanks (pbuf s) (q + 1) of None \<Rightarrow> Inl (Overrun, s) | Some q \<Rightarrow> Inr (q, s))"

definition MAXPARAMS :: nat where "MAXPARAMS = 6"

definition add_param :: "nat \<Rightarrow> irc \<Rightarrow> irc" where
  "add_param p s =
     s\<lparr>mes := Some p, param := (param s)[param_no s := Some p], param_no := param_no s + 1\<rparr>"

text \<open>The loop over the parameters, with the number of places that are left in the table.\<close>

fun params_loop :: "nat \<Rightarrow> nat \<Rightarrow> irc \<Rightarrow> unit fres" where
  "params_loop n p s =
     (if length (pbuf s) \<le> p then Inl (Overrun, s)
      else if pbuf s ! p = 0x3a then
        case n of 0 \<Rightarrow> Inl (Overrun, s) | Suc n \<Rightarrow> Inr ((), add_param (p + 1) s)
      else if pbuf s ! p = 0 then Inr ((), s)
      else
        case n of
          0 \<Rightarrow> Inl (Overrun, s)
        | Suc n \<Rightarrow> rbind (skip p (add_param p s)) (\<lambda>(p, s). params_loop n p s))"

declare params_loop.simps [simp del]

text \<open>The first part of \<open>proc_proto\<close>, with true for its return at the command \<open>005\<close>.\<close>

definition parse_proto :: "irc \<Rightarrow> bool fres" where
  "parse_proto s =
     (let s = s\<lparr>param_no := 0, nickname := None, com := None, mes := None\<rparr> in
      rbind (if pbuf s ! 0 = 0x3a then skip 1 (s\<lparr>nickname := Some 1\<rparr>) else Inr (0, s)) (\<lambda>(p, s).
      rbind (skip p (s\<lparr>com := Some p\<rparr>)) (\<lambda>(p, s).
      rbind (string_at (pbuf s) (com s) s) (\<lambda>(c, s).
        if c = str ''005'' then Inr (True, s)
        else rbind (params_loop MAXPARAMS p s) (\<lambda>(_, s). Inr (False, s))))))"

definition show_line :: "bytes \<Rightarrow> irc \<Rightarrow> unit fres" where
  "show_line t s = rbind (sprintf_obuf t s) (\<lambda>(_, s). oprint s)"

definition strcpy_channel :: "bytes \<Rightarrow> irc \<Rightarrow> unit fres" where
  "strcpy_channel t s =
     (if length (channel s) \<le> length t then Inl (Overrun, s)
      else Inr ((), s\<lparr>channel := t @ 0 # drop (length t + 1) (channel s)\<rparr>))"

definition handle :: "ienv \<Rightarrow> irc \<Rightarrow> unit fres" where
  "handle env s =
     rbind (string_at (pbuf s) (com s) s) (\<lambda>(c, s).
       if c = str ''PING'' then Inr ((), s\<lparr>net := net s @ str ''PONG'' @ [13, 10]\<rparr>)
       else if c = str ''JOIN'' then
         rbind (string_at (pbuf s) (param s ! 0) s) (\<lambda>(t, s).
         rbind (strcpy_channel t s) (\<lambda>(_, s).
         rbind (string_at (pbuf s) (nickname s) s) (\<lambda>(n, s).
           show_line (pad8 n @ str '' joined channel '' @ c_str (channel s)) s)))
       else if c = str ''NICK'' then
         rbind (string_at (pbuf s) (nickname s) s) (\<lambda>(n, s).
         rbind (string_at (pbuf s) (param s ! 0) s) (\<lambda>(t, s).
           show_line (pad8 n @ str '' is now known as '' @ t) s))
       else if c = str ''PART'' then
         rbind (string_at (pbuf s) (nickname s) s) (\<lambda>(n, s).
           show_line (pad8 n @ str '' left channel'') s)
       else if c \<noteq> [] \<and> isdigit (hd c) then
         rbind (string_at (pbuf s) (mes s) s) (\<lambda>(t, s). show_line (c @ [32] @ t) s)
       else if c = str ''PRIVMSG'' then
         rbind (string_at (pbuf s) (nickname s) s) (\<lambda>(n, s).
         let s = set_fcolor (hash_nick (junk_c env s) n) s in
         rbind (string_at (pbuf s) (mes s) s) (\<lambda>(t, s).
           show_line (take 8 n @ [32, 27] @ str ''b4'' @ t) s))
       else rbind (string_at (pbuf s) (mes s) s) (\<lambda>(t, s). show_line t s))"

definition proc_proto :: "ienv \<Rightarrow> irc \<Rightarrow> unit fres" where
  "proc_proto env s =
     rbind (parse_proto s) (\<lambda>(ignored, s). if ignored then Inr ((), s) else handle env s)"

definition fill_proto :: "ienv \<Rightarrow> u8 \<Rightarrow> irc \<Rightarrow> unit fres" where
  "fill_proto env c s =
     (if c = 10 then
        if ppos s = 0 then Inl (Overrun, s)
        else rbind (proc_proto env (s\<lparr>pbuf := (pbuf s)[ppos s - 1 := 0]\<rparr>)) (\<lambda>(_, s). Inr ((), s\<lparr>ppos := 0\<rparr>))
      else if ppos s < length (pbuf s) then Inr ((), s\<lparr>pbuf := (pbuf s)[ppos s := c], ppos := ppos s + 1\<rparr>)
      else Inl (Overrun, s))"

fun fill_all :: "ienv \<Rightarrow> bytes \<Rightarrow> irc \<Rightarrow> unit fres" where
  "fill_all env [] s = Inr ((), s)"
| "fill_all env (c # cs) s = rbind (fill_proto env c s) (\<lambda>(_, s). fill_all env cs s)"

text \<open>True for bytes that have come.\<close>

definition do_network :: "ienv \<Rightarrow> bytes option \<Rightarrow> irc \<Rightarrow> bool fres" where
  "do_network env r s =
     (case r of
        None \<Rightarrow> Inr (False, s)
      | Some d \<Rightarrow>
          let d = take IMAX d in
          if d = [] then Inr (False, s) else rbind (fill_all env d s) (\<lambda>(_, s). Inr (True, s)))"

section \<open>The connection\<close>

definition port_of :: "bytes list \<Rightarrow> u16" where
  "port_of args = (if length args = 2 then word_of_int (atol (args ! 1)) else 6667)"

definition my_open :: "ienv \<Rightarrow> bytes list \<Rightarrow> irc \<Rightarrow> unit fres" where
  "my_open env args s =
     (case args of
        [] \<Rightarrow> Inl (Null_read, s)
      | name # _ \<Rightarrow>
        (case gethostbyname (resolver env) name (rsv_of s) of
           Inl (e, r) \<Rightarrow> Inl (In_resolver e, s\<lparr>rsv_of := r\<rparr>)
         | Inr (found, r) \<Rightarrow>
             let s = s\<lparr>rsv_of := r\<rparr> in
             if \<not> found then my_exit 1 (s\<lparr>diag := diag s @ [str ''cannot resolve hostname'']\<rparr>)
             else
               case hlist r ! 0 of
                 None \<Rightarrow> Inl (Null_read, s)
               | Some k \<Rightarrow>
                   if \<not> tcp_socket env then my_exit 1 (s\<lparr>diag := diag s @ [str ''af_inet sock_stream 0'']\<rparr>)
                   else if \<not> tcp_connect env (take 4 (drop (4 * k) (addrs r))) (port_of args) then
                     my_exit 1 (s\<lparr>diag := diag s @ [str ''connect'']\<rparr>)
                   else Inr ((), put (str ''connected'' @ [10]) s)))"

section \<open>The input line\<close>

definition mygetc :: "keyread \<Rightarrow> int" where
  "mygetc r = (case r of Key c \<Rightarrow> sint c | End_input \<Rightarrow> 0 | No_key \<Rightarrow> -1)"

definition sendto :: "bytes \<Rightarrow> irc \<Rightarrow> irc" where
  "sendto t s = s\<lparr>net := net s @ t\<rparr>"

definition messproc :: "irc \<Rightarrow> unit fres" where
  "messproc s =
     rbind (string_at (ibuf s) (Some 0) s) (\<lambda>(t, s).
     rbind (if t \<noteq> [] \<and> hd t = 0x2f then
              if tl t = str ''exit'' then my_exit 0 s else Inr ((), sendto (tl t) s)
            else
              let s = sendto (str ''PRIVMSG '') s; s = sendto (c_str (channel s)) s;
                  s = sendto (str '' :'') s; s = sendto t s
              in show_line (str ''me> '' @ t) s)
       (\<lambda>(_, s). Inr ((), sendto [13, 10] s)))"

text \<open>A key of turn \<open>k\<close>: true for the end of a line.\<close>

definition inproc :: "ienv \<Rightarrow> nat \<Rightarrow> u8 \<Rightarrow> irc \<Rightarrow> bool fres" where
  "inproc env k c s =
     (if iptr s = IMAX - 1 then Inr (False, s)
      else if c = 8 then
        if iptr s = 0 then Inr (False, s)
        else
          let s = s\<lparr>iptr := iptr s - 1\<rparr> in
          Inr (False, if junk_x env k = 0 then s else put [8, 32, 8] s)
      else if c = 10 then Inr (True, s\<lparr>ibuf := (ibuf s)[iptr s := 0], iptr := 0, scrl := 0\<rparr>)
      else
        let s = s\<lparr>ibuf := (ibuf s)[iptr s := c], iptr := iptr s + 1\<rparr> in
        if 78 < iptr s then rbind (iprint (s\<lparr>scrl := scrl s + 1\<rparr>)) (\<lambda>(_, s). Inr (False, s))
        else Inr (False, put [c] s))"

section \<open>The program\<close>

text \<open>One turn of the loop, with the value of the key.\<close>

definition turn :: "ienv \<Rightarrow> nat \<Rightarrow> irc \<Rightarrow> int fres" where
  "turn env k s =
     (let c = mygetc (keys env k) in
      rbind (if 0 < c then rbind (inproc env k (word_of_int c) s) (\<lambda>(nl, s). if nl then messproc s else Inr ((), s))
             else Inr ((), s)) (\<lambda>(_, s).
      rbind (do_network env (recv env k) s) (\<lambda>(_, s). Inr (c, s))))"

text \<open>The loop need not end: \<open>None\<close> is a session without end.\<close>

partial_function (option) main_loop :: "ienv \<Rightarrow> nat \<Rightarrow> irc \<Rightarrow> unit fres option" where
  "main_loop env k s =
     (case turn env k s of
        Inl e \<Rightarrow> Some (Inl e)
      | Inr (c, s) \<Rightarrow> if c = 27 then Some (Inr ((), s)) else main_loop env (k + 1) s)"

definition firc_main :: "ienv \<Rightarrow> bytes list \<Rightarrow> irc \<Rightarrow> unit fres option" where
  "firc_main env args s =
     (if \<not> gets_attr env then Some (Inl (Exit 1, s\<lparr>diag := diag s @ [str ''getting termios'']\<rparr>))
      else if \<not> sets_attr env then Some (Inl (Exit 1, s\<lparr>diag := diag s @ [str ''setting termios'']\<rparr>))
      else
        let s = s\<lparr>raw := True\<rparr>; s = mvto 23 0 (put [27, 0x48, 27, 0x4a] s) in
        case rbind (my_open env args s) (\<lambda>(_, s). show_line (str ''Opened connection.'') s) of
          Inl e \<Rightarrow> Some (Inl e)
        | Inr (_, s) \<Rightarrow>
            (case main_loop env 0 s of
               None \<Rightarrow> None
             | Some r \<Rightarrow> Some (rbind r (\<lambda>(_, s). my_exit 0 s))))"

definition irc_start :: irc where
  "irc_start =
     \<lparr>ibuf = replicate IMAX 0, obuf = replicate IMAX 0, iptr = 0, scrl = 0, pbuf = replicate IMAX 0, ppos = 0,
      mes = None, nickname = None, com = None, param = replicate MAXPARAMS None, param_no = 0,
      channel = replicate 256 0, raw = False, tty = [], net = [], diag = [], rsv_of = rsv_start\<rparr>"

end
