(* ===== verification/Firc_Spec.thy ===== *)
theory Firc_Spec
  imports Firc
begin

text \<open>
  The IRC client: it takes the lines of the protocol apart as they were put together, shows and
  answers them however the network cuts them into pieces, sends typed lines to the channel, and
  leaves the terminal as it was.
\<close>

section \<open>Strings in the protocol buffer\<close>

definition holds :: "bytes \<Rightarrow> nat \<Rightarrow> bytes \<Rightarrow> bool" where
  "holds b p w \<longleftrightarrow> 0 \<notin> set w \<and> (\<exists>pre rest. b = pre @ w @ 0 # rest \<and> length pre = p)"

lemma c_str_0: "0 \<notin> set w \<Longrightarrow> c_str (w @ 0 # r) = w"
  unfolding c_str_def by (subst takeWhile_append2) auto

lemma string_at_holds: "holds b p w \<Longrightarrow> string_at b (Some p) s = Inr (w, s)"
  by (auto simp: holds_def string_at_def c_str_0)

lemma holdsI: "0 \<notin> set w \<Longrightarrow> length pre = p \<Longrightarrow> holds (pre @ w @ 0 # r) p w"
  by (auto simp: holds_def)

lemma skip_word_eq:
  "0 \<notin> set w \<Longrightarrow> 32 \<notin> set w \<Longrightarrow> c = 0 \<or> c = 32 \<Longrightarrow>
   skip_word (pre @ w @ c # r) (length pre) = Some (length pre + length w)"
proof (induction w arbitrary: pre)
  case Nil
  then show ?case by (subst skip_word.simps) auto
next
  case (Cons x w)
  from Cons have "skip_word ((pre @ [x]) @ w @ c # r) (length (pre @ [x])) = Some (length (pre @ [x]) + length w)"
    by (intro Cons.IH) auto
  with Cons.prems show ?case by (subst skip_word.simps) auto
qed

lemma skip_end:
  "pbuf s = pre @ w @ 0 # r \<Longrightarrow> 0 \<notin> set w \<Longrightarrow> 32 \<notin> set w \<Longrightarrow>
   skip (length pre) s = Inr (length pre + length w, s)"
  by (simp add: skip_def skip_word_eq nth_append)

lemma skip_next:
  assumes "pbuf s = pre @ w @ 32 # r" "0 \<notin> set w" "32 \<notin> set w" "r \<noteq> []" "hd r \<noteq> 32"
  shows "skip (length pre) s = Inr (length pre + length w + 1, s\<lparr>pbuf := pre @ w @ 0 # r\<rparr>)"
proof -
  have "skip_blanks (pre @ w @ 0 # r) (length pre + length w + 1) = Some (length pre + length w + 1)"
    using assms(4,5) by (subst skip_blanks.simps) (auto simp: nth_append hd_conv_nth)
  then show ?thesis using assms(1-3) by (simp add: skip_def skip_word_eq nth_append list_update_append)
qed

section \<open>Messages\<close>

text \<open>A message of RFC 1459 and its text.\<close>

record message =
  m_prefix :: "bytes option"
  m_com :: bytes
  m_mids :: "bytes list"
  m_trail :: "bytes option"

fun args_text :: "bytes list \<Rightarrow> bytes option \<Rightarrow> bytes" where
  "args_text [] None = []"
| "args_text [] (Some t) = 0x3a # t"
| "args_text (w # ws) tr = w @ (if ws = [] \<and> tr = None then [] else 32 # args_text ws tr)"

definition com_text :: "message \<Rightarrow> bytes" where
  "com_text m = m_com m @ (if m_mids m = [] \<and> m_trail m = None then [] else 32 # args_text (m_mids m) (m_trail m))"

definition msg_text :: "message \<Rightarrow> bytes" where
  "msg_text m = (case m_prefix m of None \<Rightarrow> [] | Some n \<Rightarrow> 0x3a # n @ [32]) @ com_text m"

definition msg_args :: "message \<Rightarrow> bytes list" where
  "msg_args m = m_mids m @ (case m_trail m of None \<Rightarrow> [] | Some t \<Rightarrow> [t])"

definition word_ok :: "bytes \<Rightarrow> bool" where
  "word_ok w \<longleftrightarrow> w \<noteq> [] \<and> hd w \<noteq> 0x3a \<and> 0 \<notin> set w \<and> 10 \<notin> set w \<and> 32 \<notin> set w"

definition msg_ok :: "message \<Rightarrow> bool" where
  "msg_ok m \<longleftrightarrow> (\<forall>n. m_prefix m = Some n \<longrightarrow> 0 \<notin> set n \<and> 10 \<notin> set n \<and> 32 \<notin> set n) \<and> word_ok (m_com m) \<and>
     (\<forall>w \<in> set (m_mids m). word_ok w) \<and> (\<forall>t. m_trail m = Some t \<longrightarrow> 0 \<notin> set t \<and> 10 \<notin> set t) \<and>
     length (msg_args m) \<le> MAXPARAMS \<and> length (msg_text m) \<le> 510"

lemma args_text_ne: "\<forall>w \<in> set ws. word_ok w \<Longrightarrow> \<not> (ws = [] \<and> tr = None) \<Longrightarrow>
    args_text ws tr \<noteq> [] \<and> hd (args_text ws tr) \<noteq> 32"
  by (cases "(ws, tr)" rule: args_text.cases) (auto simp: word_ok_def dest: hd_in_set)

text \<open>The parameters of a text are pointers to its words.\<close>

lemma params_loop_text:
  assumes "\<forall>w \<in> set ws. word_ok w" "\<forall>t. tr = Some t \<longrightarrow> 0 \<notin> set t"
    "pbuf s = pre @ args_text ws tr @ 0 # rest" "length ws + (case tr of None \<Rightarrow> 0 | Some _ \<Rightarrow> 1) \<le> n"
    "n + param_no s = length (param s)"
  shows "\<exists>t ps. length t = length (args_text ws tr) \<and>
    list_all2 (holds (pre @ t @ 0 # rest)) ps (ws @ (case tr of None \<Rightarrow> [] | Some t \<Rightarrow> [t])) \<and>
    params_loop n (length pre) s = Inr ((), s\<lparr>pbuf := pre @ t @ 0 # rest,
      mes := if ps = [] then mes s else Some (last ps),
      param := take (param_no s) (param s) @ map Some ps @ drop (param_no s + length ps) (param s),
      param_no := param_no s + length ps\<rparr>)"
  using assms
proof (induction ws arbitrary: n pre s)
  case Nil
  show ?case
  proof (cases tr)
    case None
    with Nil.prems show ?thesis
      by (intro exI [of _ "[]"]) (subst params_loop.simps, simp)
  next
    case (Some t)
    with Nil.prems obtain m where n: "n = Suc m" by (cases n) auto
    have h: "holds (pre @ (0x3a # t) @ 0 # rest) (length pre + 1) t"
      using Nil.prems Some holdsI [of t "pre @ [0x3a]" "length pre + 1" rest] by simp
    have u: "(param s)[param_no s := Some (length pre + 1)] =
        take (param_no s) (param s) @ Some (length pre + 1) # drop (param_no s + 1) (param s)"
      using Nil.prems n by (simp add: upd_conv_take_nth_drop)
    show ?thesis using Nil.prems Some n h u
      by (intro exI [of _ "0x3a # t"] exI [of _ "[length pre + 1]"])
        (subst params_loop.simps, simp add: add_param_def)
  qed
next
  case (Cons w ws)
  then obtain m where n: "n = Suc m" by (cases n) auto
  have w: "w \<noteq> []" "hd w \<noteq> 0x3a" "0 \<notin> set w" "32 \<notin> set w" using Cons.prems by (auto simp: word_ok_def)
  then obtain x w' where x: "w = x # w'" "x \<noteq> 0x3a" "x \<noteq> 0" by (cases w) auto
  define s1 where "s1 = add_param (length pre) s"
  have s1: "pbuf s1 = pbuf s" "param s1 = (param s)[param_no s := Some (length pre)]"
    "param_no s1 = param_no s + 1" "mes s1 = Some (length pre)"
    by (simp_all add: s1_def add_param_def)
  have step: "params_loop n (length pre) s = rbind (skip (length pre) s1) (\<lambda>(p, s). params_loop m p s)"
    using Cons.prems x n by (subst params_loop.simps) (simp add: s1_def)
  show ?case
  proof (cases "ws = [] \<and> tr = None")
    case True
    then have b: "pbuf s1 = pre @ w @ 0 # rest" using Cons.prems s1 by simp
    then have "params_loop n (length pre) s = params_loop m (length pre + length w) s1"
      using step skip_end [OF b w(3,4)] by simp
    also have "\<dots> = Inr ((), s1)" using b by (subst params_loop.simps) simp
    finally show ?thesis using True Cons.prems n w(3)
      by (intro exI [of _ w] exI [of _ "[length pre]"])
        (simp add: holdsI s1_def add_param_def upd_conv_take_nth_drop)
  next
    case False
    let ?a = "args_text ws tr"
    have b: "pbuf s1 = pre @ w @ 32 # ?a @ 0 # rest" using Cons.prems s1 False by auto
    have a: "?a @ 0 # rest \<noteq> []" "hd (?a @ 0 # rest) \<noteq> 32"
      using args_text_ne [OF _ False] Cons.prems by auto
    define s2 where "s2 = s1\<lparr>pbuf := pre @ w @ 0 # ?a @ 0 # rest\<rparr>"
    have st: "params_loop n (length pre) s = params_loop m (length (pre @ w @ [0])) s2"
      using step skip_next [OF b w(3,4) a] by (simp add: s2_def)
    have "\<exists>t ps. length t = length ?a \<and>
      list_all2 (holds ((pre @ w @ [0]) @ t @ 0 # rest)) ps (ws @ (case tr of None \<Rightarrow> [] | Some t \<Rightarrow> [t])) \<and>
      params_loop m (length (pre @ w @ [0])) s2 = Inr ((), s2\<lparr>pbuf := (pre @ w @ [0]) @ t @ 0 # rest,
        mes := if ps = [] then mes s2 else Some (last ps),
        param := take (param_no s2) (param s2) @ map Some ps @ drop (param_no s2 + length ps) (param s2),
        param_no := param_no s2 + length ps\<rparr>)"
      using Cons.prems n by (intro Cons.IH) (auto simp: s2_def s1)
    then obtain t ps where t: "length t = length ?a"
      "list_all2 (holds ((pre @ w @ [0]) @ t @ 0 # rest)) ps (ws @ (case tr of None \<Rightarrow> [] | Some t \<Rightarrow> [t]))"
      "params_loop m (length (pre @ w @ [0])) s2 = Inr ((), s2\<lparr>pbuf := (pre @ w @ [0]) @ t @ 0 # rest,
        mes := if ps = [] then mes s2 else Some (last ps),
        param := take (param_no s2) (param s2) @ map Some ps @ drop (param_no s2 + length ps) (param s2),
        param_no := param_no s2 + length ps\<rparr>)"
      by blast
    have "param_no s < length (param s)" using Cons.prems n by simp
    then have pm: "take (param_no s2) (param s2) @ map Some ps @ drop (param_no s2 + length ps) (param s2) =
        take (param_no s) (param s) @ map Some (length pre # ps) @ drop (param_no s + length (length pre # ps)) (param s)"
      by (simp add: s2_def s1 upd_conv_take_nth_drop add.commute)
    have "holds (pre @ (w @ 0 # t) @ 0 # rest) (length pre) w" using w(3) holdsI [of w pre] by simp
    with t st pm False show ?thesis
      by (intro exI [of _ "w @ 0 # t"] exI [of _ "length pre # ps"])
        (auto simp: s2_def s1_def add_param_def)
  qed
qed

text \<open>What the parts of a message are after it was taken apart in a buffer \<open>b\<close>.\<close>

definition parsed :: "message \<Rightarrow> bytes \<Rightarrow> nat \<Rightarrow> nat list \<Rightarrow> bool" where
  "parsed m b c ps \<longleftrightarrow> (\<forall>n. m_prefix m = Some n \<longrightarrow> holds b 1 n) \<and> holds b c (m_com m) \<and>
     list_all2 (holds b) ps (msg_args m)"

definition parsed_state :: "message \<Rightarrow> bytes \<Rightarrow> nat \<Rightarrow> nat list \<Rightarrow> irc \<Rightarrow> irc" where
  "parsed_state m b c ps s = s\<lparr>pbuf := b, nickname := map_option (\<lambda>_. 1) (m_prefix m), com := Some c,
     mes := if ps = [] then None else Some (last ps),
     param := map Some ps @ drop (length ps) (param s), param_no := length ps\<rparr>"

definition parse_tail :: "nat \<Rightarrow> irc \<Rightarrow> bool fres" where
  "parse_tail p s =
     rbind (skip p (s\<lparr>com := Some p\<rparr>)) (\<lambda>(p, s).
     rbind (string_at (pbuf s) (com s) s) (\<lambda>(c, s).
       if c = str ''005'' then Inr (True, s)
       else rbind (params_loop MAXPARAMS p s) (\<lambda>(_, s). Inr (False, s))))"

lemma parse_tail_text:
  assumes m: "msg_ok m" "m_com m \<noteq> str ''005''"
    and s: "pbuf s = pre @ com_text m @ 0 # rest" "param_no s = 0" "length (param s) = MAXPARAMS" "mes s = None"
  shows "\<exists>t ps. length t = length (com_text m) \<and> holds (pre @ t @ 0 # rest) (length pre) (m_com m) \<and>
    list_all2 (holds (pre @ t @ 0 # rest)) ps (msg_args m) \<and>
    parse_tail (length pre) s = Inr (False, s\<lparr>pbuf := pre @ t @ 0 # rest, com := Some (length pre),
      mes := if ps = [] then None else Some (last ps),
      param := map Some ps @ drop (length ps) (param s), param_no := length ps\<rparr>)"
proof -
  let ?c = "m_com m" and ?a = "args_text (m_mids m) (m_trail m)"
  define s1 where "s1 = s\<lparr>com := Some (length pre)\<rparr>"
  have c: "0 \<notin> set ?c" "32 \<notin> set ?c" using m by (auto simp: msg_ok_def word_ok_def)
  show ?thesis
  proof (cases "m_mids m = [] \<and> m_trail m = None")
    case True
    then have b: "pbuf s1 = pre @ ?c @ 0 # rest" using s by (simp add: s1_def com_text_def)
    have h: "holds (pre @ ?c @ 0 # rest) (length pre) ?c" using c by (simp add: holdsI)
    have e: "params_loop MAXPARAMS (length pre + length ?c) s1 = Inr ((), s1)"
      using b by (subst params_loop.simps) simp
    have "parse_tail (length pre) s = Inr (False, s1)"
      using m(2) skip_end [OF b c] string_at_holds [OF h] b e by (simp add: parse_tail_def s1_def)
    then show ?thesis using True h s m(2)
      by (intro exI [of _ ?c] exI [of _ "[]"]) (simp add: s1_def com_text_def msg_args_def)
  next
    case False
    then have b: "pbuf s1 = pre @ ?c @ 32 # ?a @ 0 # rest" using s by (auto simp: s1_def com_text_def)
    have a: "?a @ 0 # rest \<noteq> []" "hd (?a @ 0 # rest) \<noteq> 32"
      using args_text_ne [OF _ False] m by (auto simp: msg_ok_def)
    define s2 where "s2 = s1\<lparr>pbuf := pre @ ?c @ 0 # ?a @ 0 # rest\<rparr>"
    have h: "holds (pre @ ?c @ 0 # r) (length pre) ?c" for r using c by (simp add: holdsI)
    have st: "parse_tail (length pre) s =
        rbind (params_loop MAXPARAMS (length (pre @ ?c @ [0])) s2) (\<lambda>(_, s). Inr (False, s))"
      using m(2) skip_next [OF b c a] string_at_holds [OF h, of "?a @ 0 # rest"]
      by (simp add: parse_tail_def s1_def s2_def)
    have "\<exists>t ps. length t = length ?a \<and>
      list_all2 (holds ((pre @ ?c @ [0]) @ t @ 0 # rest)) ps (m_mids m @ (case m_trail m of None \<Rightarrow> [] | Some t \<Rightarrow> [t])) \<and>
      params_loop MAXPARAMS (length (pre @ ?c @ [0])) s2 = Inr ((), s2\<lparr>pbuf := (pre @ ?c @ [0]) @ t @ 0 # rest,
        mes := if ps = [] then mes s2 else Some (last ps),
        param := take (param_no s2) (param s2) @ map Some ps @ drop (param_no s2 + length ps) (param s2),
        param_no := param_no s2 + length ps\<rparr>)"
      using m s by (intro params_loop_text)
        (auto simp: msg_ok_def msg_args_def s2_def s1_def MAXPARAMS_def split: option.splits)
    then obtain t ps where t: "length t = length ?a" "list_all2 (holds ((pre @ ?c @ [0]) @ t @ 0 # rest)) ps (msg_args m)"
      "params_loop MAXPARAMS (length (pre @ ?c @ [0])) s2 = Inr ((), s2\<lparr>pbuf := (pre @ ?c @ [0]) @ t @ 0 # rest,
        mes := if ps = [] then mes s2 else Some (last ps),
        param := take (param_no s2) (param s2) @ map Some ps @ drop (param_no s2 + length ps) (param s2),
        param_no := param_no s2 + length ps\<rparr>)"
      unfolding msg_args_def by blast
    show ?thesis
      using t st h [of "t @ 0 # rest"] s False
      by (intro exI [of _ "?c @ 0 # t"] exI [of _ ps]) (auto simp: s2_def s1_def com_text_def)
  qed
qed

lemma parse_proto_text:
  assumes m: "msg_ok m" "m_com m \<noteq> str ''005''"
    and s: "pbuf s = msg_text m @ 0 # rest" "length (param s) = MAXPARAMS"
  shows "\<exists>b c ps. parsed m b c ps \<and> length b = length (pbuf s) \<and>
    parse_proto s = Inr (False, parsed_state m b c ps s)"
proof -
  define s0 where "s0 = s\<lparr>param_no := 0, nickname := None, com := None, mes := None\<rparr>"
  have cm: "com_text m \<noteq> []" "hd (com_text m) \<noteq> 0x3a" "hd (com_text m) \<noteq> 32"
    using m by (auto simp: msg_ok_def word_ok_def com_text_def dest: hd_in_set)
  show ?thesis
  proof (cases "m_prefix m")
    case None
    then have b: "pbuf s0 = [] @ com_text m @ 0 # rest" using s by (simp add: s0_def msg_text_def)
    have "pbuf s0 ! 0 \<noteq> 0x3a" using cm b by (simp add: nth_append hd_conv_nth)
    then have st: "parse_proto s = parse_tail 0 s0"
      by (simp add: parse_proto_def parse_tail_def s0_def)
    obtain t ps where t: "length t = length (com_text m)" "holds (t @ 0 # rest) 0 (m_com m)"
      "list_all2 (holds (t @ 0 # rest)) ps (msg_args m)"
      "parse_tail 0 s0 = Inr (False, s0\<lparr>pbuf := t @ 0 # rest, com := Some 0,
        mes := if ps = [] then None else Some (last ps),
        param := map Some ps @ drop (length ps) (param s0), param_no := length ps\<rparr>)"
      using parse_tail_text [OF m b] s by (auto simp: s0_def)
    then show ?thesis using st s None
      by (intro exI [of _ "t @ 0 # rest"] exI [of _ 0] exI [of _ ps])
        (simp add: parsed_def parsed_state_def s0_def msg_text_def)
  next
    case (Some n)
    define s1 where "s1 = s0\<lparr>nickname := Some 1\<rparr>"
    have n: "0 \<notin> set n" "32 \<notin> set n" using m Some by (auto simp: msg_ok_def)
    have b: "pbuf s1 = [0x3a] @ n @ 32 # com_text m @ 0 # rest"
      using s Some by (simp add: s1_def s0_def msg_text_def)
    have cm': "com_text m @ 0 # rest \<noteq> []" "hd (com_text m @ 0 # rest) \<noteq> 32" using cm by auto
    define s2 where "s2 = s1\<lparr>pbuf := [0x3a] @ n @ 0 # com_text m @ 0 # rest\<rparr>"
    have b2: "pbuf s2 = ([0x3a] @ n @ [0]) @ com_text m @ 0 # rest" by (simp add: s2_def)
    have "skip 1 s1 = Inr (length ([0x3a] @ n @ [0]), s2)"
      using skip_next [OF b n cm'] by (simp add: s2_def)
    moreover have "pbuf s0 ! 0 = 0x3a" using b by (simp add: s1_def)
    ultimately have st: "parse_proto s = parse_tail (length ([0x3a] @ n @ [0])) s2"
      unfolding parse_proto_def Let_def s0_def [symmetric] s1_def [symmetric]
      by (simp add: parse_tail_def del: append.simps)
    let ?p = "[0x3a] @ n @ [0]"
    obtain t ps where t: "length t = length (com_text m)" "holds (?p @ t @ 0 # rest) (length ?p) (m_com m)"
      "list_all2 (holds (?p @ t @ 0 # rest)) ps (msg_args m)"
      "parse_tail (length ?p) s2 = Inr (False, s2\<lparr>pbuf := ?p @ t @ 0 # rest, com := Some (length ?p),
        mes := if ps = [] then None else Some (last ps),
        param := map Some ps @ drop (length ps) (param s2), param_no := length ps\<rparr>)"
      using parse_tail_text [OF m b2] s by (auto simp: s2_def s1_def s0_def simp del: append.simps)
    moreover have "holds (?p @ t @ 0 # rest) 1 n" using n(1) holdsI [of n "[0x3a]" 1] by simp
    ultimately show ?thesis using st s Some
      by (intro exI [of _ "?p @ t @ 0 # rest"] exI [of _ "length ?p"] exI [of _ ps])
        (simp add: parsed_def parsed_state_def s2_def s1_def s0_def msg_text_def)
  qed
qed

section \<open>Lines from the network\<close>

text \<open>Some reads of the network, one after the other.\<close>

fun net_all :: "ienv \<Rightarrow> bytes list \<Rightarrow> irc \<Rightarrow> unit fres" where
  "net_all env [] s = Inr ((), s)"
| "net_all env (d # ds) s = rbind (do_network env (Some d) s) (\<lambda>(_, s). net_all env ds s)"

lemma fill_all_append:
  "fill_all env (a @ b) s = rbind (fill_all env a s) (\<lambda>(_, s). fill_all env b s)"
proof (induction a arbitrary: s)
  case (Cons c a)
  then show ?case by (cases "fill_proto env c s") auto
qed simp

text \<open>It does not matter how the network cuts the text.\<close>

lemma net_all_concat: "\<forall>d \<in> set ds. length d \<le> IMAX \<Longrightarrow> net_all env ds s = fill_all env (concat ds) s"
proof (induction ds arbitrary: s)
  case (Cons d ds)
  have "do_network env (Some d) s = rbind (fill_all env d s) (\<lambda>(_, s). Inr (d \<noteq> [], s))"
    using Cons.prems by (simp add: do_network_def)
  then have "net_all env (d # ds) s = rbind (fill_all env d s) (\<lambda>(_, s). net_all env ds s)"
    by (cases "fill_all env d s") auto
  with Cons show ?case by (simp add: fill_all_append)
qed simp

lemma fill_all_text:
  "10 \<notin> set t \<Longrightarrow> pbuf s = pre @ old \<Longrightarrow> ppos s = length pre \<Longrightarrow> length t \<le> length old \<Longrightarrow>
   fill_all env t s = Inr ((), s\<lparr>pbuf := pre @ t @ drop (length t) old, ppos := length pre + length t\<rparr>)"
proof (induction t arbitrary: pre old s)
  case (Cons c t)
  then obtain x old' where x: "old = x # old'" by (cases old) auto
  let ?s = "s\<lparr>pbuf := (pre @ [c]) @ old', ppos := length (pre @ [c])\<rparr>"
  have "fill_proto env c s = Inr ((), ?s)" using Cons.prems x by (simp add: fill_proto_def)
  moreover have "fill_all env t ?s = Inr ((), ?s\<lparr>pbuf := (pre @ [c]) @ t @ drop (length t) old',
      ppos := length (pre @ [c]) + length t\<rparr>)"
    using Cons.prems x by (intro Cons.IH) auto
  ultimately show ?case using x by simp
qed simp

text \<open>A whole line is processed as it is, without its end.\<close>

definition line_in :: "bytes \<Rightarrow> irc \<Rightarrow> irc" where
  "line_in t s = s\<lparr>ppos := length t + 1, pbuf := t @ 0 # drop (length t + 1) (pbuf s)\<rparr>"

lemma fill_all_line:
  assumes "10 \<notin> set t" "ppos s = 0" "length t < length (pbuf s)"
  shows "fill_all env (t @ [13, 10]) s = rbind (proc_proto env (line_in t s)) (\<lambda>(_, s). Inr ((), s\<lparr>ppos := 0\<rparr>))"
proof -
  have "fill_all env (t @ [13]) s = Inr ((), s\<lparr>pbuf := (t @ [13]) @ drop (length (t @ [13])) (pbuf s),
      ppos := length (t @ [13])\<rparr>)"
    using fill_all_text [of "t @ [13]" s "[]" "pbuf s" env] assms by simp
  then have "fill_all env ((t @ [13]) @ [10]) s =
      fill_all env [10] (s\<lparr>pbuf := (t @ [13]) @ drop (length (t @ [13])) (pbuf s), ppos := length (t @ [13])\<rparr>)"
    by (simp only: fill_all_append rbind_simps prod.case)
  also have "\<dots> = rbind (proc_proto env (line_in t s)) (\<lambda>(_, s). Inr ((), s\<lparr>ppos := 0\<rparr>))"
    by (cases "proc_proto env (line_in t s)") (auto simp: fill_proto_def line_in_def list_update_append)
  finally show ?thesis by simp
qed

section \<open>Lines on the terminal\<close>

text \<open>What the input line shows, if it has no conversions of \<open>printf\<close>.\<close>

definition echo :: "irc \<Rightarrow> bytes option" where
  "echo s = (let b = (ibuf s)[iptr s := 0] in
     if 0 \<in> set (drop (scrl s) b) then fmt_text (c_str (drop (scrl s) b)) else None)"

definition to_input_line :: bytes where
  "to_input_line = [27, 0x59, 56, 32]"

lemma fmt_text_plain: "0x25 \<notin> set t \<Longrightarrow> fmt_text t = Some t"
  by (induction t) auto

lemma put_put: "put b (put a s) = put (a @ b) s"
  by (simp add: put_def)

lemma iprint_echo:
  "echo s = Some e \<Longrightarrow> iprint s = Inr ((), s\<lparr>ibuf := (ibuf s)[iptr s := 0], tty := tty s @ to_input_line @ e\<rparr>)"
  by (auto simp: echo_def iprint_def mvto_def put_def string_at_def printf_def to_input_line_def Let_def
      split: if_splits)

lemma show_line_echo:
  assumes t: "0 \<notin> set t" "0x25 \<notin> set t" "length t < length (obuf s)" and e: "echo s = Some e"
  shows "show_line t s = Inr ((), s\<lparr>obuf := t @ 0 # drop (length t + 1) (obuf s), ibuf := (ibuf s)[iptr s := 0],
    tty := tty s @ to_input_line @ [27, 0x4b] @ t @ [10] @ to_input_line @ e\<rparr>)"
proof -
  let ?s = "s\<lparr>obuf := t @ 0 # drop (length t + 1) (obuf s),
    tty := tty s @ to_input_line @ [27, 0x4b] @ t @ [10]\<rparr>"
  have "echo ?s = Some e" using e by (auto simp: echo_def Let_def split: if_splits)
  then have "iprint ?s = Inr ((), ?s\<lparr>ibuf := (ibuf ?s)[iptr ?s := 0], tty := tty ?s @ to_input_line @ e\<rparr>)"
    by (rule iprint_echo)
  moreover have "show_line t s = iprint ?s"
    using t by (simp add: show_line_def sprintf_obuf_def oprint_def string_at_def c_str_0 printf_def
        fmt_text_plain mvto_def put_def to_input_line_def)
  ultimately show ?thesis by simp
qed

section \<open>Messages from the network\<close>

text \<open>The buffers have their lengths, and the protocol line is empty.\<close>

definition ready :: "irc \<Rightarrow> bool" where
  "ready s \<longleftrightarrow> length (ibuf s) = IMAX \<and> length (obuf s) = IMAX \<and> length (pbuf s) = IMAX \<and>
     length (param s) = MAXPARAMS \<and> length (channel s) = 256 \<and> iptr s < IMAX \<and> ppos s = 0"

lemma msg_text_no10: "msg_ok m \<Longrightarrow> 10 \<notin> set (msg_text m)"
proof -
  assume m: "msg_ok m"
  have a: "10 \<notin> set (args_text ws tr)"
    if "\<forall>w \<in> set ws. word_ok w" "\<forall>t. tr = Some t \<longrightarrow> 10 \<notin> set t" for ws tr
    using that by (induction ws tr rule: args_text.induct) (auto simp: word_ok_def)
  have "10 \<notin> set (args_text (m_mids m) (m_trail m))" using m by (intro a) (auto simp: msg_ok_def)
  with m show ?thesis by (auto simp: msg_ok_def msg_text_def com_text_def word_ok_def split: option.splits)
qed

text \<open>The message in pieces is taken apart and then handled.\<close>

lemma net_message:
  assumes m: "msg_ok m" "m_com m \<noteq> str ''005''" and s: "ready s"
    and ds: "concat ds = msg_text m @ [13, 10]" "\<forall>d \<in> set ds. length d \<le> IMAX"
  shows "\<exists>b c ps. parsed m b c ps \<and> length b = IMAX \<and>
    net_all env ds s = rbind (handle env (parsed_state m b c ps (line_in (msg_text m) s)))
      (\<lambda>(_, s). Inr ((), s\<lparr>ppos := 0\<rparr>))"
proof -
  let ?s = "line_in (msg_text m) s"
  have l: "length (msg_text m) < length (pbuf s)" using m s by (simp add: msg_ok_def ready_def IMAX_def)
  have "pbuf ?s = msg_text m @ 0 # drop (length (msg_text m) + 1) (pbuf s)" "length (param ?s) = MAXPARAMS"
    using s by (simp_all add: line_in_def ready_def)
  from parse_proto_text [OF m this] obtain b c ps where p: "parsed m b c ps" "length b = length (pbuf ?s)"
    "parse_proto ?s = Inr (False, parsed_state m b c ps ?s)" by blast
  have "net_all env ds s = rbind (proc_proto env ?s) (\<lambda>(_, s). Inr ((), s\<lparr>ppos := 0\<rparr>))"
    unfolding net_all_concat [OF ds(2)] ds(1) using s l
    by (intro fill_all_line) (auto simp: msg_text_no10 [OF m(1)] ready_def)
  moreover have "length b = IMAX" using p(2) l s by (simp add: line_in_def ready_def)
  ultimately show ?thesis using p(1,3) unfolding proc_proto_def by (intro exI [of _ b]) auto
qed

text \<open>The state after a message: the input line is as it was.\<close>

definition same_line :: "irc \<Rightarrow> irc \<Rightarrow> bool" where
  "same_line s s' \<longleftrightarrow> iptr s' = iptr s \<and> scrl s' = scrl s \<and> (ibuf s')[iptr s := 0] = (ibuf s)[iptr s := 0]"

lemma echo_cong: "same_line s s' \<Longrightarrow> echo s' = echo s"
  by (simp add: same_line_def echo_def Let_def)

lemma string_at_last:
  assumes "list_all2 (holds b) ps ws" "ws \<noteq> []"
  shows "ps \<noteq> [] \<and> string_at b (Some (last ps)) s = Inr (last ws, s)"
proof -
  have ps: "ps \<noteq> []" using assms by auto
  then have "holds b (last ps) (last ws)" using assms by (simp add: last_conv_nth list_all2_conv_all_nth)
  with ps show ?thesis by (simp add: string_at_holds)
qed

lemma string_at_hd:
  assumes "list_all2 (holds b) ps ws" "ws \<noteq> []"
  shows "ps \<noteq> [] \<and> string_at b (Some (hd ps)) s = Inr (hd ws, s)"
  using assms by (cases ps; cases ws) (auto simp: string_at_holds)

lemma hash_nick_range_all: "\<forall>x \<in> set [0..<256]. (of_nat x AND 7 :: u8) \<in> {0, 1, 2, 3, 4, 5, 6, 7}"
  by code_simp

lemma hash_nick_range: "hash_nick c t \<in> {1, 2, 3, 5, 6, 7}"
proof -
  define x where "x = fold (\<lambda>x c. c XOR x) t c"
  have "x = of_nat (unat x)" by simp
  moreover have "unat x \<in> set [0..<256]" by simp
  ultimately have "x AND 7 \<in> {0, 1, 2, 3, 4, 5, 6, 7}" using hash_nick_range_all by metis
  then show ?thesis unfolding hash_nick_def Let_def x_def [symmetric] by auto
qed

lemma args_text_word:
  "w \<in> set (ws @ (case tr of None \<Rightarrow> [] | Some t \<Rightarrow> [t])) \<Longrightarrow> length w \<le> length (args_text ws tr)"
  by (induction ws tr rule: args_text.induct) auto

lemma msg_arg:
  assumes "msg_ok m" "w \<in> set (msg_args m)"
  shows "0 \<notin> set w \<and> length (m_com m) + 1 + length w \<le> length (com_text m)"
proof -
  have "0 \<notin> set w" using assms by (auto simp: msg_ok_def msg_args_def word_ok_def split: option.splits)
  moreover have "length w \<le> length (args_text (m_mids m) (m_trail m))"
    using assms(2) args_text_word unfolding msg_args_def by blast
  moreover have "\<not> (m_mids m = [] \<and> m_trail m = None)" using assms(2) by (cases "m_trail m") (auto simp: msg_args_def)
  then have "com_text m = m_com m @ 32 # args_text (m_mids m) (m_trail m)" by (simp only: com_text_def if_False)
  ultimately show ?thesis by simp
qed

text \<open>The state that a message is handled in, and what the readers of its strings give there.\<close>

lemma parsed_fields:
  fixes s :: irc and m :: message and b t :: bytes and c :: nat and ps :: "nat list"
  defines "P \<equiv> parsed_state m b c ps (line_in t s)"
  shows "pbuf P = b" "tty P = tty s" "net P = net s" "obuf P = obuf s" "channel P = channel s"
    "same_line s P" "echo P = echo s" "ibuf P = ibuf s" "iptr P = iptr s" "scrl P = scrl s"
  by (simp_all add: P_def parsed_state_def line_in_def same_line_def echo_def Let_def)

lemma parsed_strings:
  fixes s :: irc and m :: message and b t :: bytes and c :: nat and ps :: "nat list"
  defines "P \<equiv> parsed_state m b c ps (line_in t s)"
  assumes p: "parsed m b c ps"
  shows "string_at (pbuf P) (com P) P = Inr (m_com m, P)"
    "m_prefix m = Some n \<Longrightarrow> string_at (pbuf P) (nickname P) P = Inr (n, P)"
    "msg_args m \<noteq> [] \<Longrightarrow> string_at b (mes P) S = Inr (last (msg_args m), S)"
    "msg_args m \<noteq> [] \<Longrightarrow> string_at (pbuf P) (param P ! 0) P = Inr (hd (msg_args m), P)"
proof -
  have l: "list_all2 (holds b) ps (msg_args m)" using p by (simp add: parsed_def)
  show "string_at (pbuf P) (com P) P = Inr (m_com m, P)"
    using p by (simp add: P_def parsed_state_def parsed_def string_at_holds)
  show "string_at (pbuf P) (nickname P) P = Inr (n, P)" if "m_prefix m = Some n"
    using p that by (simp add: P_def parsed_state_def parsed_def string_at_holds)
  show "string_at b (mes P) S = Inr (last (msg_args m), S)" if "msg_args m \<noteq> []"
    using string_at_last [OF l that] by (simp add: P_def parsed_state_def)
  show "string_at (pbuf P) (param P ! 0) P = Inr (hd (msg_args m), P)" if "msg_args m \<noteq> []"
    using string_at_hd [OF l that, of P] by (cases ps) (simp_all add: P_def parsed_state_def)
qed

text \<open>How a shown line leaves the terminal, from the state that it was read in.\<close>

definition shows_line :: "bytes \<Rightarrow> bytes \<Rightarrow> bytes \<Rightarrow> bytes" where
  "shows_line colour t e = colour @ to_input_line @ [27, 0x4b] @ t @ [10] @ to_input_line @ e"

lemma show_after:
  assumes P: "echo P = Some e" "same_line s P" "tty P = tty s @ colour"
    and t: "0 \<notin> set t" "0x25 \<notin> set t" "length t < length (obuf P)"
    and r: "length (ibuf P) = IMAX" "length (obuf P) = IMAX" "length (pbuf P) = IMAX" "length (param P) = MAXPARAMS"
      "length (channel P) = 256" "iptr s < IMAX"
  shows "\<exists>s'. show_line t P = Inr ((), s') \<and> tty s' = tty s @ shows_line colour t e \<and> net s' = net P \<and>
    channel s' = channel P \<and> same_line s (s'\<lparr>ppos := 0\<rparr>) \<and> ready (s'\<lparr>ppos := 0\<rparr>)"
proof -
  have "length (ibuf s) = IMAX" using P(2) r(1) unfolding same_line_def by (metis length_list_update)
  with P r t(3) show ?thesis by (simp add: show_line_echo [OF t P(1)] shows_line_def same_line_def ready_def)
qed

lemma parsed_params: "list_all2 (holds b) ps (msg_args m) \<Longrightarrow> msg_ok m \<Longrightarrow> length ps \<le> MAXPARAMS"
  by (auto simp: msg_ok_def dest: list_all2_lengthD)

lemma parsed_ready:
  fixes s :: irc and m :: message and b t :: bytes and c :: nat and ps :: "nat list"
  assumes "parsed m b c ps" "length b = IMAX" "msg_ok m" "ready s"
  defines "P \<equiv> parsed_state m b c ps (line_in t s)"
  shows "length (ibuf P) = IMAX" "length (obuf P) = IMAX" "length (pbuf P) = IMAX" "length (param P) = MAXPARAMS"
    "length (channel P) = 256"
  using assms parsed_params [of b ps m]
  by (simp_all add: parsed_state_def line_in_def ready_def parsed_def)

section \<open>Properties of messages\<close>

text \<open>C19:
  A line of the protocol is taken apart as it was put together: for a message with at most six
  parameters, in at most 510 bytes, the pointers that \<open>proc_proto\<close> sets are the prefix, the command
  and the parameters of the message, with the last of them as the text.  The command 005 is
  excluded: the parser returns as soon as it has seen it, with the parameters not taken apart.
\<close>

theorem irc_message:
  assumes "msg_ok m" "m_com m \<noteq> str ''005''" "pbuf s = msg_text m @ 0 # rest" "length (param s) = MAXPARAMS"
  shows "\<exists>s'. parse_proto s = Inr (False, s') \<and>
    (\<forall>n. m_prefix m = Some n \<longrightarrow> string_at (pbuf s') (nickname s') s' = Inr (n, s')) \<and>
    (m_prefix m = None \<longrightarrow> nickname s' = None) \<and>
    string_at (pbuf s') (com s') s' = Inr (m_com m, s') \<and>
    param_no s' = length (msg_args m) \<and>
    (\<forall>i < length (msg_args m). string_at (pbuf s') (param s' ! i) s' = Inr (msg_args m ! i, s')) \<and>
    (if msg_args m = [] then mes s' = None else mes s' = param s' ! (param_no s' - 1))"
proof -
  from parse_proto_text [OF assms] obtain b c ps where
    p: "parsed m b c ps" "parse_proto s = Inr (False, parsed_state m b c ps s)" by blast
  then have l: "length ps = length (msg_args m)" "\<forall>i < length (msg_args m). holds b (ps ! i) (msg_args m ! i)"
    by (auto simp: parsed_def list_all2_conv_all_nth)
  show ?thesis using p l
    by (auto simp: parsed_state_def parsed_def string_at_holds nth_append last_conv_nth)
qed

lemma irc_message_witness:
  "\<exists>s'. parse_proto (irc_start\<lparr>pbuf := str '':fi!f@h PRIVMSG #cc :good day'' @ 0 # replicate 20 0\<rparr>) = Inr (False, s') \<and>
    string_at (pbuf s') (nickname s') s' = Inr (str ''fi!f@h'', s') \<and>
    string_at (pbuf s') (com s') s' = Inr (str ''PRIVMSG'', s') \<and> param_no s' = 2 \<and>
    string_at (pbuf s') (param s' ! 1) s' = Inr (str ''good day'', s')"
proof -
  let ?m = "\<lparr>m_prefix = Some (str ''fi!f@h''), m_com = str ''PRIVMSG'', m_mids = [str ''#cc''],
    m_trail = Some (str ''good day'')\<rparr>"
  let ?s = "irc_start\<lparr>pbuf := str '':fi!f@h PRIVMSG #cc :good day'' @ 0 # replicate 20 0\<rparr>"
  have a: "msg_args ?m = [str ''#cc'', str ''good day'']" by (simp add: msg_args_def)
  have t: "msg_text ?m = str '':fi!f@h PRIVMSG #cc :good day''" by code_simp
  have ok: "msg_ok ?m"
    unfolding msg_ok_def t by (simp add: word_ok_def str_def msg_args_def MAXPARAMS_def)
  have "m_com ?m \<noteq> str ''005''" by (simp add: str_def)
  moreover have "pbuf ?s = msg_text ?m @ 0 # replicate 20 0" unfolding t by simp
  moreover have "length (param ?s) = MAXPARAMS" by (simp add: irc_start_def)
  ultimately show ?thesis using irc_message [OF ok] unfolding a by fastforce
qed

text \<open>What a message to the channel comes down to.\<close>

definition said :: "bytes \<Rightarrow> message \<Rightarrow> bytes" where
  "said n m = take 8 n @ [32, 27] @ str ''b4'' @ last (msg_args m)"

lemma privmsg_show:
  assumes m: "msg_ok m" "m_com m = str ''PRIVMSG''" "m_prefix m = Some n" "msg_args m \<noteq> []" and s: "ready s"
    and ds: "concat ds = msg_text m @ [13, 10]" "\<forall>d \<in> set ds. length d \<le> IMAX"
  shows "\<exists>h S. h \<in> {1, 2, 3, 5, 6, 7} \<and>
    net_all env ds s = rbind (show_line (said n m) S) (\<lambda>(_, s). Inr ((), s\<lparr>ppos := 0\<rparr>)) \<and>
    same_line s S \<and> tty S = tty s @ [27, 0x62, 0x30 + h] \<and> net S = net s \<and>
    length (ibuf S) = IMAX \<and> length (obuf S) = IMAX \<and> length (pbuf S) = IMAX \<and> length (param S) = MAXPARAMS \<and>
    length (channel S) = 256 \<and> 0 \<notin> set (said n m) \<and> length (said n m) < IMAX"
proof -
  have "m_com m \<noteq> str ''005''" using m(2) by (simp add: str_def)
  from net_message [OF m(1) this s ds, of env] obtain b c ps where p: "parsed m b c ps" "length b = IMAX"
    "net_all env ds s = rbind (handle env (parsed_state m b c ps (line_in (msg_text m) s)))
      (\<lambda>(_, s). Inr ((), s\<lparr>ppos := 0\<rparr>))" by blast
  let ?P = "parsed_state m b c ps (line_in (msg_text m) s)" and ?l = "last (msg_args m)"
  define h where "h = hash_nick (junk_c env ?P) n"
  define S where "S = set_fcolor h ?P"
  have S: "pbuf S = b" "mes S = mes ?P" by (simp_all add: S_def set_fcolor_def put_def parsed_fields)
  have "string_at (pbuf S) (mes S) S = Inr (?l, S)" unfolding S by (rule parsed_strings(3) [OF p(1) m(4)])
  then have hd: "handle env ?P = show_line (said n m) S"
    unfolding handle_def rbind_simps prod.case Let_def parsed_strings(1) [OF p(1)] parsed_strings(2) [OF p(1) m(3)]
      h_def [symmetric] S_def [symmetric] said_def
    by (simp add: m(2) str_def isdigit_def)
  have l: "?l \<in> set (msg_args m)" using m(4) by simp
  have "length (msg_text m) \<le> 510" using m(1) by (simp add: msg_ok_def)
  moreover have "length (said n m) \<le> length n + 4 + length ?l" by (simp add: said_def str_def)
  ultimately have "length (said n m) < IMAX" using msg_arg [OF m(1) l] m(3) by (simp add: msg_text_def IMAX_def)
  moreover have "0 \<notin> set (said n m)"
    using m(1,3) msg_arg [OF m(1) l] by (auto simp: said_def str_def msg_ok_def dest: in_set_takeD)
  moreover have "h \<in> {1, 2, 3, 5, 6, 7}" unfolding h_def by (rule hash_nick_range)
  ultimately show ?thesis
    using parsed_ready [OF p(1,2) m(1) s, of "msg_text m"] parsed_fields [where t = "msg_text m"]
    unfolding p(3) hd by (intro exI [of _ h] exI [of _ S]) (simp add: S_def set_fcolor_def put_def same_line_def)
qed

text \<open>C38:
  A message to the channel is shown as it was sent, however the network cuts it into pieces:
  the colour of the sender, who is never shown in the colours 0 and 4, the first eight bytes of his
  name, and the text; then the line that is being typed is shown again, and it is as it was.  Name
  and text have no percent sign.
\<close>

theorem irc_privmsg:
  assumes m: "msg_ok m" "m_com m = str ''PRIVMSG''" "m_prefix m = Some n" "msg_args m \<noteq> []"
    and plain: "0x25 \<notin> set n" "0x25 \<notin> set (last (msg_args m))"
    and s: "ready s" "echo s = Some e"
    and ds: "concat ds = msg_text m @ [13, 10]" "\<forall>d \<in> set ds. length d \<le> IMAX"
  shows "\<exists>h \<in> {1, 2, 3, 5, 6, 7}. \<exists>s'. net_all env ds s = Inr ((), s') \<and>
    tty s' = tty s @ shows_line [27, 0x62, 0x30 + h] (take 8 n @ [32, 27] @ str ''b4'' @ last (msg_args m)) e \<and>
    net s' = net s \<and> same_line s s' \<and> ready s'"
proof -
  obtain h S where S: "h \<in> {1, 2, 3, 5, 6, 7}"
    "net_all env ds s = rbind (show_line (said n m) S) (\<lambda>(_, s). Inr ((), s\<lparr>ppos := 0\<rparr>))"
    "same_line s S" "tty S = tty s @ [27, 0x62, 0x30 + h]" "net S = net s"
    "length (ibuf S) = IMAX" "length (obuf S) = IMAX" "length (pbuf S) = IMAX" "length (param S) = MAXPARAMS"
    "length (channel S) = 256" "0 \<notin> set (said n m)" "length (said n m) < IMAX"
    using privmsg_show [OF m s(1) ds] by blast
  have "0x25 \<notin> set (said n m)" using plain by (auto simp: said_def str_def dest: in_set_takeD)
  then have "\<exists>s'. show_line (said n m) S = Inr ((), s') \<and> tty s' = tty s @ shows_line [27, 0x62, 0x30 + h] (said n m) e \<and>
      net s' = net S \<and> channel s' = channel S \<and> same_line s (s'\<lparr>ppos := 0\<rparr>) \<and> ready (s'\<lparr>ppos := 0\<rparr>)"
    using S s echo_cong [OF S(3)] by (intro show_after) (simp_all add: ready_def)
  then show ?thesis using S(1,5) unfolding S(2) said_def by (intro bexI [OF _ S(1)]) (auto simp: same_line_def)
qed

definition demo_msg :: message where
  "demo_msg = \<lparr>m_prefix = Some (str ''fi!f@h''), m_com = str ''PRIVMSG'', m_mids = [str ''#cc''],
     m_trail = Some (str ''good day'')\<rparr>"

lemma demo_msg_ok: "msg_ok demo_msg" "msg_text demo_msg = str '':fi!f@h PRIVMSG #cc :good day''"
proof -
  show t: "msg_text demo_msg = str '':fi!f@h PRIVMSG #cc :good day''" by code_simp
  show "msg_ok demo_msg"
    unfolding msg_ok_def t by (simp add: word_ok_def str_def msg_args_def MAXPARAMS_def demo_msg_def)
qed

lemma start_ready: "ready irc_start" "echo irc_start = Some []"
proof -
  show "ready irc_start" by (simp add: ready_def irc_start_def IMAX_def)
  have "0 \<in> set ((replicate IMAX 0)[0 := 0 :: u8])" "c_str ((replicate IMAX 0)[0 := 0]) = []"
    by (simp_all add: IMAX_def c_str_def numeral_eq_Suc)
  then show "echo irc_start = Some []" by (simp add: echo_def irc_start_def Let_def)
qed

lemma irc_privmsg_witness:
  "\<forall>env. \<exists>h \<in> {1, 2, 3, 5, 6, 7}. \<exists>s'.
    net_all env [str '':fi!f@h PRIVM'', str ''SG #cc :good day'' @ [13], [10]] irc_start = Inr ((), s') \<and>
    tty s' = shows_line [27, 0x62, 0x30 + h] (str ''fi!f@h'' @ [32, 27] @ str ''b4good day'') [] \<and> ready s'"
proof
  fix env
  let ?ds = "[str '':fi!f@h PRIVM'', str ''SG #cc :good day'' @ [13], [10]]"
  have "concat ?ds = msg_text demo_msg @ [13, 10]" unfolding demo_msg_ok(2) by (simp add: str_def)
  moreover have "\<forall>d \<in> set ?ds. length d \<le> IMAX" by (simp add: str_def IMAX_def)
  moreover have "m_com demo_msg = str ''PRIVMSG''" "m_prefix demo_msg = Some (str ''fi!f@h'')"
    "msg_args demo_msg = [str ''#cc'', str ''good day'']"
    by (simp_all add: demo_msg_def msg_args_def)
  moreover have "0x25 \<notin> set (str ''fi!f@h'')" "0x25 \<notin> set (str ''good day'')" by (simp_all add: str_def)
  ultimately have "\<exists>h \<in> {1, 2, 3, 5, 6, 7}. \<exists>s'. net_all env ?ds irc_start = Inr ((), s') \<and>
    tty s' = tty irc_start @ shows_line [27, 0x62, 0x30 + h]
      (take 8 (str ''fi!f@h'') @ [32, 27] @ str ''b4'' @ last (msg_args demo_msg)) [] \<and>
    net s' = net irc_start \<and> same_line irc_start s' \<and> ready s'"
    by (intro irc_privmsg [OF demo_msg_ok(1) _ _ _ _ _ start_ready]) simp_all
  moreover have "take 8 (str ''fi!f@h'') = str ''fi!f@h''" "str ''b4'' @ str ''good day'' = str ''b4good day''"
    by (simp_all add: str_def)
  moreover have "tty irc_start = []" by (simp add: irc_start_def)
  ultimately show "\<exists>h \<in> {1, 2, 3, 5, 6, 7}. \<exists>s'. net_all env ?ds irc_start = Inr ((), s') \<and>
    tty s' = shows_line [27, 0x62, 0x30 + h] (str ''fi!f@h'' @ [32, 27] @ str ''b4good day'') [] \<and> ready s'"
    using \<open>msg_args demo_msg = _\<close> by auto
qed

text \<open>
  The text of a message is the format of a \<open>printf\<close>: a percent sign in it that no second one
  follows makes the client read arguments that are not there.
\<close>

lemma fmt_text_percent: "0x25 \<notin> set a \<Longrightarrow> d \<noteq> 0x25 \<Longrightarrow> fmt_text (a @ 0x25 # d # t) = None"
  by (induction a) auto

theorem irc_percent:
  assumes m: "msg_ok m" "m_com m = str ''PRIVMSG''" "m_prefix m = Some n" "msg_args m \<noteq> []" "0x25 \<notin> set n"
    and percent: "last (msg_args m) = a @ 0x25 # d # t" "0x25 \<notin> set a" "d \<noteq> 0x25"
    and s: "ready s" and ds: "concat ds = msg_text m @ [13, 10]" "\<forall>d \<in> set ds. length d \<le> IMAX"
  shows "\<exists>s'. net_all env ds s = Inl (Format, s')"
proof -
  obtain h S where S:
    "net_all env ds s = rbind (show_line (said n m) S) (\<lambda>(_, s). Inr ((), s\<lparr>ppos := 0\<rparr>))"
    "length (obuf S) = IMAX" "0 \<notin> set (said n m)" "length (said n m) < IMAX"
    using privmsg_show [OF m(1-4) s ds] by blast
  have "said n m = (take 8 n @ [32, 27] @ str ''b4'' @ a) @ 0x25 # d # t" using percent by (simp add: said_def)
  moreover have "0x25 \<notin> set (take 8 n @ [32, 27] @ str ''b4'' @ a)"
    using m percent by (auto simp: str_def dest: in_set_takeD)
  ultimately have "fmt_text (said n m) = None" by (simp only: fmt_text_percent [OF _ percent(3)] not_False_eq_True)
  then show ?thesis using S
    by (simp add: show_line_def sprintf_obuf_def oprint_def mvto_def put_def string_at_def c_str_0 printf_def)
qed

lemma irc_percent_witness:
  "\<forall>env. \<exists>s'. net_all env [str '':fi!f@h PRIVMSG #cc :100% sure'' @ [13, 10]] irc_start = Inl (Format, s')"
proof
  fix env
  let ?m = "demo_msg\<lparr>m_trail := Some (str ''100% sure'')\<rparr>"
  have t: "msg_text ?m = str '':fi!f@h PRIVMSG #cc :100% sure''" by code_simp
  have ok: "msg_ok ?m"
    unfolding msg_ok_def t by (simp add: word_ok_def str_def msg_args_def MAXPARAMS_def demo_msg_def)
  have m: "m_com ?m = str ''PRIVMSG''" "m_prefix ?m = Some (str ''fi!f@h'')" "msg_args ?m \<noteq> []"
    "0x25 \<notin> set (str ''fi!f@h'')"
    by (simp_all add: str_def msg_args_def demo_msg_def)
  have l: "last (msg_args ?m) = str ''100'' @ 0x25 # 0x20 # str ''sure''" "0x25 \<notin> set (str ''100'')" "0x20 \<noteq> (0x25 :: u8)"
    by (simp_all add: str_def msg_args_def demo_msg_def)
  have d: "concat [str '':fi!f@h PRIVMSG #cc :100% sure'' @ [13, 10]] = msg_text ?m @ [13, 10]"
    "\<forall>d \<in> set [str '':fi!f@h PRIVMSG #cc :100% sure'' @ [13, 10]]. length d \<le> IMAX"
    unfolding t by (simp_all add: str_def IMAX_def)
  show "\<exists>s'. net_all env [str '':fi!f@h PRIVMSG #cc :100% sure'' @ [13, 10]] irc_start = Inl (Format, s')"
    by (rule irc_percent [OF ok m l start_ready(1) d])
qed

text \<open>A ping is answered, and nothing is shown.\<close>

theorem irc_ping:
  assumes m: "msg_ok m" "m_com m = str ''PING''" and s: "ready s"
    and ds: "concat ds = msg_text m @ [13, 10]" "\<forall>d \<in> set ds. length d \<le> IMAX"
  shows "\<exists>s'. net_all env ds s = Inr ((), s') \<and> tty s' = tty s \<and>
    net s' = net s @ str ''PONG'' @ [13, 10] \<and> same_line s s' \<and> ready s'"
proof -
  have "m_com m \<noteq> str ''005''" using m(2) by (simp add: str_def)
  from net_message [OF m(1) this s ds, of env] obtain b c ps where p: "parsed m b c ps" "length b = IMAX"
    "net_all env ds s = rbind (handle env (parsed_state m b c ps (line_in (msg_text m) s)))
      (\<lambda>(_, s). Inr ((), s\<lparr>ppos := 0\<rparr>))" by blast
  let ?P = "parsed_state m b c ps (line_in (msg_text m) s)"
  have hd: "handle env ?P = Inr ((), ?P\<lparr>net := net ?P @ str ''PONG'' @ [13, 10]\<rparr>)"
    unfolding handle_def parsed_strings(1) [OF p(1)] by (simp add: m(2))
  show ?thesis
    using parsed_ready [OF p(1,2) m(1) s, of "msg_text m"] parsed_fields [where t = "msg_text m"] s
    by (simp add: p(3) hd same_line_def ready_def)
qed

lemma irc_join:
  assumes m: "msg_ok m" "m_com m = str ''JOIN''" "m_prefix m = Some n" "msg_args m = [ch]"
    and plain: "0x25 \<notin> set n" "0x25 \<notin> set ch" "length n \<le> 200" "length ch \<le> 200"
    and s: "ready s" "echo s = Some e"
    and ds: "concat ds = msg_text m @ [13, 10]" "\<forall>d \<in> set ds. length d \<le> IMAX"
  shows "\<exists>s'. net_all env ds s = Inr ((), s') \<and> c_str (channel s') = ch \<and>
    tty s' = tty s @ shows_line [] (pad8 n @ str '' joined channel '' @ ch) e \<and>
    net s' = net s \<and> same_line s s' \<and> ready s'"
proof -
  have "m_com m \<noteq> str ''005''" using m(2) by (simp add: str_def)
  from net_message [OF m(1) this s(1) ds, of env] obtain b c ps where p: "parsed m b c ps" "length b = IMAX"
    "net_all env ds s = rbind (handle env (parsed_state m b c ps (line_in (msg_text m) s)))
      (\<lambda>(_, s). Inr ((), s\<lparr>ppos := 0\<rparr>))" by blast
  let ?P = "parsed_state m b c ps (line_in (msg_text m) s)"
  define S where "S = ?P\<lparr>channel := ch @ 0 # drop (length ch + 1) (channel ?P)\<rparr>"
  define t where "t = pad8 n @ str '' joined channel '' @ ch"
  have ch: "0 \<notin> set ch" using msg_arg [OF m(1), of ch] m(4) by simp
  have nz: "0 \<notin> set n" using m by (auto simp: msg_ok_def)
  note R = parsed_ready [OF p(1,2) m(1) s(1), of "msg_text m"]
  have c: "strcpy_channel ch ?P = Inr ((), S)" using R plain by (simp add: strcpy_channel_def S_def)
  have cs: "c_str (channel S) = ch" using ch by (simp add: S_def c_str_0)
  have "string_at (pbuf ?P) (param ?P ! 0) ?P = Inr (ch, ?P)" using parsed_strings(4) [OF p(1)] m(4) by simp
  moreover have "string_at (pbuf S) (nickname S) S = Inr (n, S)"
    using parsed_strings(2) [OF p(1) m(3), of "msg_text m" s]
    by (auto simp: S_def string_at_def split: option.splits if_splits)
  ultimately have hd: "handle env ?P = show_line t S"
    unfolding handle_def parsed_strings(1) [OF p(1)] by (simp add: m(2) c cs t_def str_def)
  have len: "length t < IMAX" using plain by (simp add: t_def pad8_def IMAX_def str_def)
  have t: "0 \<notin> set t" "0x25 \<notin> set t" using nz ch plain by (auto simp: t_def pad8_def str_def)
  have "\<exists>s'. show_line t S = Inr ((), s') \<and> tty s' = tty s @ shows_line [] t e \<and>
      net s' = net S \<and> channel s' = channel S \<and> same_line s (s'\<lparr>ppos := 0\<rparr>) \<and> ready (s'\<lparr>ppos := 0\<rparr>)"
    using R parsed_fields [where t = "msg_text m"] s t len plain
      echo_cong [of s S] by (intro show_after) (simp_all add: S_def same_line_def ready_def)
  moreover have "net S = net s" by (simp add: S_def parsed_fields)
  ultimately show ?thesis using cs unfolding p(3) hd t_def [symmetric] by (auto simp: same_line_def)
qed

end
