(* ===== verification/Resolve_Spec.thy ===== *)
theory Resolve_Spec
  imports Resolve
begin

text \<open>
  The resolver: its question is the one of the protocol (a reference decoder of names reads the
  labels back), the addresses of a well-formed answer are those of its first four records, and a
  reply with a label length above 63 can keep it in its loop for ever.
\<close>

section \<open>Names on the wire\<close>

fun dotted :: "bytes list \<Rightarrow> bytes" where
  "dotted [] = []"
| "dotted [l] = l"
| "dotted (l # m # ls) = l @ 0x2e # dotted (m # ls)"

definition labels_wire :: "bytes list \<Rightarrow> bytes" where
  "labels_wire ls = concat (map (\<lambda>l. of_nat (length l) # l) ls)"

definition label_ok :: "bytes \<Rightarrow> bool" where
  "label_ok l \<longleftrightarrow> l \<noteq> [] \<and> length l \<le> 63 \<and> 0x2e \<notin> set l"

text \<open>The names of RFC 1035, without pointers.\<close>

fun read_name :: "nat \<Rightarrow> bytes \<Rightarrow> (bytes list \<times> bytes) option" where
  "read_name 0 b = None"
| "read_name (Suc n) [] = None"
| "read_name (Suc n) (c # b) =
     (if c = 0 then Some ([], b)
      else if 63 < unat c \<or> length b < unat c then None
      else map_option (\<lambda>(ls, r). (take (unat c) b # ls, r)) (read_name n (drop (unat c) b)))"

lemma labels_wire_simps [simp]:
  "labels_wire [] = []"
  "labels_wire (l # ls) = of_nat (length l) # l @ labels_wire ls"
  by (simp_all add: labels_wire_def)

lemma unat_label: "length l \<le> 63 \<Longrightarrow> unat (of_nat (length l) :: u8) = length l"
  by (simp add: unat_of_nat take_bit_nat_eq_self)

lemma label_ne0: "label_ok l \<Longrightarrow> (of_nat (length l) :: u8) \<noteq> 0"
  using unat_label [of l] by (auto simp: label_ok_def)

lemma read_name_wire:
  "\<forall>l \<in> set ls. label_ok l \<Longrightarrow> length ls < n \<Longrightarrow> read_name n (labels_wire ls @ 0 # r) = Some (ls, r)"
proof (induction ls arbitrary: n)
  case Nil
  then show ?case by (cases n) auto
next
  case (Cons l ls)
  then obtain m where n: "n = Suc m" "length ls < m" by (cases n) auto
  have l: "unat (of_nat (length l) :: u8) = length l" "length l \<le> 63"
    using Cons.prems unat_label by (auto simp: label_ok_def)
  have nz: "(of_nat (length l) :: u8) \<noteq> 0" using Cons.prems label_ne0 by auto
  from Cons have "read_name m (labels_wire ls @ 0 # r) = Some (ls, r)" using n by simp
  then show ?case using l nz n by simp
qed

section \<open>The question\<close>

lemma label_copy:
  "0x2e \<notin> set lab \<Longrightarrow> length lab \<le> length q \<Longrightarrow>
   label_loop (lab @ rest) l (length p) (p @ q) =
   label_loop rest l (length p + length lab) (p @ lab @ drop (length lab) q)"
proof (induction lab arbitrary: p q)
  case (Cons c lab)
  then obtain x q' where q: "q = x # q'" by (cases q) auto
  with Cons have "label_loop (lab @ rest) l (length (p @ [c])) ((p @ [c]) @ q') =
      label_loop rest l (length (p @ [c]) + length lab) ((p @ [c]) @ lab @ drop (length lab) q')"
    by (intro Cons.IH) auto
  with Cons.prems q show ?case by simp
qed simp

lemma label_loop_wire:
  "ls \<noteq> [] \<Longrightarrow> \<forall>l \<in> set ls. 0x2e \<notin> set l \<Longrightarrow> length (labels_wire ls) \<le> length q \<Longrightarrow>
   label_loop (dotted ls) (length p) (length p + 1) (p @ q) =
   Some (p @ labels_wire ls @ drop (length (labels_wire ls)) q, length p + length (labels_wire ls))"
proof (induction ls arbitrary: p q rule: dotted.induct)
  case 1
  then show ?case by simp
next
  case (2 l)
  then obtain x q' where q: "q = x # q'" "length l \<le> length q'" by (cases q) auto
  have "label_loop (l @ []) (length p) (length (p @ [x])) ((p @ [x]) @ q') =
      label_loop [] (length p) (length (p @ [x]) + length l) ((p @ [x]) @ l @ drop (length l) q')"
    using 2 q by (intro label_copy) auto
  then show ?case using q by (simp add: list_update_append)
next
  case (3 l m ls)
  then obtain x q' where q: "q = x # q'" "length l + length (labels_wire (m # ls)) \<le> length q'"
    by (cases q) auto
  let ?p = "p @ of_nat (length l) # l" and ?q = "drop (length l) q'"
  have "label_loop (l @ 0x2e # dotted (m # ls)) (length p) (length (p @ [x])) ((p @ [x]) @ q') =
      label_loop (0x2e # dotted (m # ls)) (length p) (length (p @ [x]) + length l) ((p @ [x]) @ l @ ?q)"
    using 3 q by (intro label_copy) auto
  also have "\<dots> = label_loop (dotted (m # ls)) (length ?p) (length ?p + 1) (?p @ ?q)"
    by (simp add: list_update_append)
  also have "\<dots> = Some (?p @ labels_wire (m # ls) @ drop (length (labels_wire (m # ls))) ?q,
      length ?p + length (labels_wire (m # ls)))"
    using 3 q by (intro "3.IH") auto
  finally show ?case using q by (simp add: add.commute add.left_commute)
qed

definition question_head :: bytes where
  "question_head = [0, 42, 1, 0, 0, 1, 0, 0, 0, 0, 0, 0]"

definition question :: "bytes list \<Rightarrow> bytes" where
  "question ls = labels_wire ls @ [0, 0, 1, 0, 1]"

lemma blank_question_eq: "blank_question = question_head @ replicate 500 0"
proof -
  have "replicate BUFZ 0 = replicate 12 (0 :: u8) @ replicate 500 0"
    unfolding BUFZ_def replicate_add [symmetric] by simp
  also have "replicate 12 (0 :: u8) = [0, 0, 0, 0, 0, 0, 0, 0, 0, 0, 0, 0]" by (simp add: numeral_eq_Suc)
  finally show ?thesis
    by (simp add: blank_question_def question_head_def)
qed

lemma send_question_wire:
  assumes ls: "ls \<noteq> []" "\<forall>l \<in> set ls. 0x2e \<notin> set l" "length (labels_wire ls) \<le> 495"
  shows "send_question (dotted ls) s =
    Inr ((), s\<lparr>buf := question_head @ question ls @ replicate (495 - length (labels_wire ls)) 0,
               sent := sent s @ [question_head @ question ls]\<rparr>)"
proof -
  let ?w = "labels_wire ls" and ?n = "495 - length (labels_wire ls)"
  have z: "drop (length ?w) (replicate 500 (0 :: u8)) = [0, 0, 0, 0, 0] @ replicate ?n 0"
  proof -
    have "500 - length ?w = 5 + ?n" using ls by simp
    moreover have "replicate 5 (0 :: u8) = [0, 0, 0, 0, 0]" by (simp add: numeral_eq_Suc)
    ultimately show ?thesis by (simp only: drop_replicate replicate_add)
  qed
  have h: "length question_head = 12" by (simp add: question_head_def)
  have "label_loop (dotted ls) (length question_head) (length question_head + 1) (question_head @ replicate 500 0) =
      Some (question_head @ ?w @ drop (length ?w) (replicate 500 0), length question_head + length ?w)"
    using ls by (intro label_loop_wire) auto
  then have "label_loop (dotted ls) HEADER (HEADER + 1) blank_question =
      Some (question_head @ ?w @ [0, 0, 0, 0, 0] @ replicate ?n 0, 12 + length ?w)"
    unfolding z h blank_question_eq HEADER_def by simp
  moreover have "(question_head @ ?w @ [0, 0, 0, 0, 0] @ replicate ?n 0)
      [12 + length ?w := 0, 12 + length ?w + 1 := 0, 12 + length ?w + 1 + 1 := 1,
       12 + length ?w + 1 + 2 := 0, 12 + length ?w + 1 + 3 := 1] = question_head @ question ls @ replicate ?n 0"
    by (simp add: h question_def list_update_append)
  moreover have "take (12 + length ?w + 1 + 4) (question_head @ question ls @ replicate ?n 0) =
      question_head @ question ls"
    by (simp add: h question_def)
  ultimately show ?thesis using h
    by (simp add: send_question_def Let_def)
qed

section \<open>Names and records of an answer\<close>

text \<open>A name is a list of labels that ends with a zero or with a pointer to the rest of it.\<close>

datatype rname = Rname (rlabels: "bytes list") (rpointer: "(u8 \<times> u8) option")

definition rname_ok :: "rname \<Rightarrow> bool" where
  "rname_ok n \<longleftrightarrow> (\<forall>l \<in> set (rlabels n). label_ok l) \<and>
     (case rpointer n of None \<Rightarrow> True | Some (p, _) \<Rightarrow> p AND 0xc0 = 0xc0)"

definition rname_wire :: "rname \<Rightarrow> bytes" where
  "rname_wire n = labels_wire (rlabels n) @ (case rpointer n of None \<Rightarrow> [0] | Some (p, q) \<Rightarrow> [p, q])"

record rr =
  rr_name :: rname
  rr_type :: u16
  rr_class_ttl :: bytes
  rr_data :: bytes

definition bytes16 :: "u16 \<Rightarrow> bytes" where
  "bytes16 w = [hi8 w, lo8 w]"

definition rr_wire :: "rr \<Rightarrow> bytes" where
  "rr_wire r = rname_wire (rr_name r) @ bytes16 (rr_type r) @ rr_class_ttl r @
     bytes16 (of_nat (length (rr_data r))) @ rr_data r"

definition rr_ok :: "rr \<Rightarrow> bool" where
  "rr_ok r \<longleftrightarrow> rname_ok (rr_name r) \<and> length (rr_class_ttl r) = 6 \<and> (rr_type r = 1 \<longrightarrow> length (rr_data r) = 4)"

lemma label_byte_all: "\<forall>n \<in> set [0..<64]. (of_nat n :: u8) AND 0xc0 \<noteq> 0xc0 \<and> sint (of_nat n :: u8) = int n"
  by code_simp

lemma label_byte:
  "label_ok l \<Longrightarrow> (of_nat (length l) :: u8) AND 0xc0 \<noteq> 0xc0 \<and> sint (of_nat (length l) :: u8) = int (length l)"
  by (rule bspec [OF label_byte_all]) (simp add: label_ok_def)

lemma skip_name_end:
  "case e of None \<Rightarrow> True | Some (p, _) \<Rightarrow> p AND 0xc0 = (0xc0 :: u8) \<Longrightarrow>
   skip_name (Suc n) (pre @ (case e of None \<Rightarrow> [0] | Some (p, q) \<Rightarrow> [p, q]) @ r) (int (length pre)) =
   Inr (int (length pre) + int (length (case e of None \<Rightarrow> [0 :: u8] | Some (p, q) \<Rightarrow> [p, q])))"
  by (auto simp: Let_def split: option.splits prod.splits)

lemma skip_name_wire:
  "\<forall>l \<in> set ls. label_ok l \<Longrightarrow> case e of None \<Rightarrow> True | Some (p, _) \<Rightarrow> p AND 0xc0 = 0xc0 \<Longrightarrow>
   length ls < n \<Longrightarrow>
   skip_name n (pre @ rname_wire (Rname ls e) @ r) (int (length pre)) =
   Inr (int (length pre) + int (length (rname_wire (Rname ls e))))"
proof (induction ls arbitrary: n pre)
  case Nil
  then obtain m where "n = Suc m" by (cases n) auto
  with Nil skip_name_end [of e m pre r] show ?case by (simp add: rname_wire_def)
next
  case (Cons l ls)
  then obtain m where n: "n = Suc m" "length ls < m" by (cases n) auto
  let ?c = "of_nat (length l) :: u8"
  have c: "?c \<noteq> 0" "?c AND 0xc0 \<noteq> 0xc0" "sint ?c = int (length l)"
    using Cons.prems label_ne0 label_byte by auto
  have "skip_name m ((pre @ ?c # l) @ rname_wire (Rname ls e) @ r) (int (length (pre @ ?c # l))) =
      Inr (int (length (pre @ ?c # l)) + int (length (rname_wire (Rname ls e))))"
    using Cons n by (intro Cons.IH) auto
  then show ?case using c n by (simp add: rname_wire_def Let_def ac_simps)
qed

lemma length_labels_wire: "length ls \<le> length (labels_wire ls)"
  by (induction ls) auto

lemma scan_wire:
  assumes "rname_ok n"
  shows "scan_name (pre @ rname_wire n @ r) (int (length pre)) = Inr (int (length pre) + int (length (rname_wire n)))"
proof (cases n)
  case (Rname ls e)
  have "length ls < length (pre @ rname_wire (Rname ls e) @ r) + 1"
    using length_labels_wire [of ls] by (simp add: rname_wire_def)
  with Rname assms skip_name_wire [of ls e] show ?thesis unfolding scan_name_def rname_ok_def by (simp del: skip_name.simps)
qed

lemma word_at_bytes16: "word_at (pre @ bytes16 w @ r) (length pre) = w"
  by (simp add: word_at_def bytes16_def nth_append)

text \<open>The data of an address record goes to its place in the table.\<close>

lemma copy_addr_wire:
  "buf s = pre @ d @ r \<Longrightarrow> addrs s = az @ zs \<Longrightarrow> length d \<le> length zs \<Longrightarrow>
   copy_addr (length d) (length az) (int (length pre)) s =
   Inr (int (length pre) + int (length d), s\<lparr>addrs := az @ d @ drop (length d) zs\<rparr>)"
proof (induction d arbitrary: pre az zs s)
  case (Cons c d)
  then obtain z zs' where z: "zs = z # zs'" by (cases zs) auto
  let ?s = "s\<lparr>addrs := az @ c # zs'\<rparr>"
  have "copy_addr (length d) (length (az @ [c])) (int (length (pre @ [c]))) ?s =
      Inr (int (length (pre @ [c])) + int (length d), ?s\<lparr>addrs := (az @ [c]) @ d @ drop (length d) zs'\<rparr>)"
    using Cons.prems z by (intro Cons.IH) auto
  then show ?case using Cons.prems z by (simp add: list_update_append ac_simps)
qed simp

definition is_A :: "rr \<Rightarrow> bool" where
  "is_A r \<longleftrightarrow> rr_type r = 1"

lemma rr_skip:
  assumes "rr_ok r"
  shows "scan_name (pre @ rr_wire r @ rest) (int (length pre)) = Inr (int (length pre + length (rname_wire (rr_name r))))"
  using scan_wire [of "rr_name r" pre] assms by (simp add: rr_wire_def rr_ok_def)

lemma rr_type_at:
  "word_at (pre @ rr_wire r @ rest) (length pre + length (rname_wire (rr_name r))) = rr_type r"
  using word_at_bytes16 [of "pre @ rname_wire (rr_name r)" "rr_type r"] by (simp add: rr_wire_def)

lemma rr_rdlen_at:
  assumes "rr_ok r" "length (rr_data r) < 65536"
  shows "unat (word_at (pre @ rr_wire r @ rest) (length pre + length (rname_wire (rr_name r)) + 8)) = length (rr_data r)"
proof -
  let ?h = "pre @ rname_wire (rr_name r) @ bytes16 (rr_type r) @ rr_class_ttl r"
  have "length ?h = length pre + length (rname_wire (rr_name r)) + 8"
    using assms by (simp add: rr_ok_def bytes16_def)
  then show ?thesis
    using word_at_bytes16 [of ?h "of_nat (length (rr_data r))" "rr_data r @ rest"] assms
    by (simp add: rr_wire_def unat_of_nat take_bit_nat_eq_self add.assoc)
qed

lemma rr_wire_split:
  assumes "rr_ok r"
  shows "\<exists>h. rr_wire r = h @ rr_data r \<and> length h = length (rname_wire (rr_name r)) + 10"
  using assms by (intro exI [of _ "rname_wire (rr_name r) @ bytes16 (rr_type r) @ rr_class_ttl r @
    bytes16 (of_nat (length (rr_data r)))"]) (simp add: rr_wire_def rr_ok_def bytes16_def)

text \<open>One record: an address is stored, anything else is passed over.\<close>

lemma answers_step:
  fixes s :: rsv
  assumes r: "rr_ok r" "length (rr_data r) < 65536" and b: "buf s = pre @ rr_wire r @ rest"
    and inc: "\<not> inc_first env"
    and a: "is_A r \<Longrightarrow> addrs s = az @ zs \<and> length az = 4 * lno \<and> 4 \<le> length zs"
  shows "answers env (Suc n) lno (int (length pre)) s =
    (if is_A r
     then answers env n (lno + 1) (int (length (pre @ rr_wire r)))
       (s\<lparr>addrs := az @ rr_data r @ drop 4 zs, hlist := (hlist s)[lno := Some lno]\<rparr>)
     else answers env n lno (int (length (pre @ rr_wire r))) s)"
proof -
  let ?t = "length pre + length (rname_wire (rr_name r))"
  obtain h where h: "rr_wire r = h @ rr_data r" "length h = length (rname_wire (rr_name r)) + 10"
    using rr_wire_split [OF r(1)] by blast
  have sk: "scan_name (buf s) (int (length pre)) = Inr (int ?t)" using rr_skip [OF r(1)] b by simp
  have ty: "word_at (buf s) (nat (int ?t)) = rr_type r" unfolding b nat_int by (rule rr_type_at)
  have rd: "unat (word_at (buf s) (nat (int ?t) + 8)) = length (rr_data r)"
    unfolding b nat_int by (rule rr_rdlen_at [OF r])
  have inb: "\<not> (int ?t < 0 \<or> int (length (buf s)) < int ?t + 10)" using b h by simp
  have cp: "copy_addr (length (rr_data r)) (4 * lno) (int ?t + 10) s =
      Inr (int (length (pre @ rr_wire r)), s\<lparr>addrs := az @ rr_data r @ drop 4 zs\<rparr>)" if A: "is_A r"
  proof -
    from A r have d: "length (rr_data r) = 4" by (simp add: is_A_def rr_ok_def)
    have "copy_addr (length (rr_data r)) (length az) (int (length (pre @ h))) s =
        Inr (int (length (pre @ h)) + int (length (rr_data r)), s\<lparr>addrs := az @ rr_data r @ drop (length (rr_data r)) zs\<rparr>)"
      using a [OF A] b h d by (intro copy_addr_wire) auto
    then show ?thesis using a [OF A] h d by (simp add: ac_simps)
  qed
  show ?thesis
  proof (cases "is_A r")
    case True
    then show ?thesis using cp [OF True] inb rd ty inc
      by (simp add: sk is_A_def Let_def)
  next
    case False
    then show ?thesis using inb rd ty h by (simp add: sk is_A_def Let_def ac_simps)
  qed
qed

text \<open>All of them: the table holds the addresses in the order of the records.\<close>

definition addr_data :: "rr list \<Rightarrow> bytes list" where
  "addr_data rs = map rr_data (filter is_A rs)"

definition tabled :: "bytes list \<Rightarrow> rsv \<Rightarrow> bool" where
  "tabled as s \<longleftrightarrow> (\<exists>zs hs. (\<forall>a \<in> set as. length a = 4) \<and> length as \<le> 4 \<and>
     addrs s = concat as @ zs \<and> length zs = 16 - 4 * length as \<and>
     hlist s = map Some [0..<length as] @ hs \<and> length hs = 5 - length as)"

lemma length_concat4: "\<forall>a \<in> set as. length a = 4 \<Longrightarrow> length (concat as) = 4 * length as"
  by (induction as) auto

lemma answers_wire:
  fixes s :: rsv
  assumes "\<forall>r \<in> set rs. rr_ok r \<and> length (rr_data r) < 65536" "\<not> inc_first env"
    "buf s = pre @ concat (map rr_wire rs) @ rest" "tabled as s" "length as + length rs \<le> 4"
  shows "\<exists>s'. answers env (length rs) (length as) (int (length pre)) s = Inr (length as + length (addr_data rs), s') \<and>
    tabled (as @ addr_data rs) s' \<and> sent s' = sent s"
  using assms
proof (induction rs arbitrary: as s pre)
  case Nil
  then show ?case by (simp add: addr_data_def)
next
  case (Cons r rs)
  then have r: "rr_ok r" "length (rr_data r) < 65536" by auto
  have b: "buf s = pre @ rr_wire r @ concat (map rr_wire rs) @ rest" using Cons.prems by simp
  from Cons.prems obtain zs hs where t: "\<forall>a \<in> set as. length a = 4" "addrs s = concat as @ zs"
    "length zs = 16 - 4 * length as" "hlist s = map Some [0..<length as] @ hs" "length hs = 5 - length as"
    unfolding tabled_def by auto
  from Cons.prems have le: "length as \<le> 3" by simp
  have st: "answers env (Suc (length rs)) (length as) (int (length pre)) s =
    (if is_A r
     then answers env (length rs) (length as + 1) (int (length (pre @ rr_wire r)))
       (s\<lparr>addrs := concat as @ rr_data r @ drop 4 zs, hlist := (hlist s)[length as := Some (length as)]\<rparr>)
     else answers env (length rs) (length as) (int (length (pre @ rr_wire r))) s)"
    using r Cons.prems t le by (intro answers_step [OF r b]) (auto simp: length_concat4)
  show ?case
  proof (cases "is_A r")
    case True
    let ?s = "s\<lparr>addrs := concat as @ rr_data r @ drop 4 zs, hlist := (hlist s)[length as := Some (length as)]\<rparr>"
    have d: "length (rr_data r) = 4" using True r by (simp add: is_A_def rr_ok_def)
    obtain h hs' where hs: "hs = h # hs'" using t le by (cases hs) auto
    have "tabled (as @ [rr_data r]) ?s" using t le d hs unfolding tabled_def
      by (intro exI [of _ "drop 4 zs"] exI [of _ hs']) (auto simp: list_update_append)
    with Cons.prems have "\<exists>s'. answers env (length rs) (length (as @ [rr_data r])) (int (length (pre @ rr_wire r))) ?s =
        Inr (length (as @ [rr_data r]) + length (addr_data rs), s') \<and>
        tabled ((as @ [rr_data r]) @ addr_data rs) s' \<and> sent s' = sent ?s"
      by (intro Cons.IH) auto
    then show ?thesis using True st by (auto simp: addr_data_def)
  next
    case False
    have "\<exists>s'. answers env (length rs) (length as) (int (length (pre @ rr_wire r))) s = Inr (length as + length (addr_data rs), s') \<and>
        tabled (as @ addr_data rs) s' \<and> sent s' = sent s"
      using Cons.prems by (intro Cons.IH) auto
    then show ?thesis using False st by (auto simp: addr_data_def)
  qed
qed

lemma take_drop_concat4:
  "\<forall>a \<in> set as. length a = 4 \<Longrightarrow> k < length as \<Longrightarrow> take 4 (drop (4 * k) (concat as @ zs)) = as ! k"
proof (induction as arbitrary: k)
  case (Cons a as)
  then show ?case by (cases k) auto
qed simp

lemma host_addrs_tabled:
  assumes "tabled as s"
  shows "host_addrs (s\<lparr>hlist := (hlist s)[length as := None]\<rparr>) = as \<and> length (hlist s) = 5"
proof -
  from assms obtain zs hs where t: "\<forall>a \<in> set as. length a = 4" "length as \<le> 4" "addrs s = concat as @ zs"
    "hlist s = map Some [0..<length as] @ hs" "length hs = 5 - length as"
    unfolding tabled_def by auto
  then obtain h hs' where hs: "hs = h # hs'" by (cases hs) auto
  have "takeWhile (\<lambda>k. k \<noteq> None) ((hlist s)[length as := None]) = map Some [0..<length as]"
  proof -
    have "(hlist s)[length as := None] = map Some [0..<length as] @ None # hs'"
      unfolding t(4) hs by (simp add: list_update_append)
    moreover have "takeWhile (\<lambda>k. k \<noteq> None) (map Some [0..<length as] @ None # hs') =
        map Some [0..<length as] @ takeWhile (\<lambda>k. k \<noteq> None) (None # hs')"
      by (rule takeWhile_append2) auto
    ultimately show ?thesis by simp
  qed
  then have "host_addrs (s\<lparr>hlist := (hlist s)[length as := None]\<rparr>) =
      map (\<lambda>k. take 4 (drop (4 * k) (concat as @ zs))) [0..<length as]"
    by (simp add: host_addrs_def o_def t(3))
  also have "\<dots> = map ((!) as) [0..<length as]"
    by (rule map_cong [OF refl]) (simp only: take_drop_concat4 [OF t(1)] set_upt atLeastLessThan_iff)
  finally show ?thesis using t by (simp add: map_nth)
qed

section \<open>A reply\<close>

definition q_wire :: "rname \<times> bytes \<Rightarrow> bytes" where
  "q_wire q = rname_wire (fst q) @ snd q"

definition q_ok :: "rname \<times> bytes \<Rightarrow> bool" where
  "q_ok q \<longleftrightarrow> rname_ok (fst q) \<and> length (snd q) = 4"

lemma skip_questions_wire:
  "\<forall>q \<in> set qs. q_ok q \<Longrightarrow>
   skip_questions (length qs) (pre @ concat (map q_wire qs) @ rest) (int (length pre)) =
   Inr (int (length (pre @ concat (map q_wire qs))))"
proof (induction qs arbitrary: pre)
  case (Cons q qs)
  then have q: "rname_ok (fst q)" "length (snd q) = 4" by (auto simp: q_ok_def)
  have "scan_name (pre @ rname_wire (fst q) @ snd q @ concat (map q_wire qs) @ rest) (int (length pre)) =
      Inr (int (length pre) + int (length (rname_wire (fst q))))"
    by (rule scan_wire [OF q(1)])
  moreover have "skip_questions (length qs) ((pre @ q_wire q) @ concat (map q_wire qs) @ rest) (int (length (pre @ q_wire q))) =
      Inr (int (length ((pre @ q_wire q) @ concat (map q_wire qs))))"
    using Cons by (intro Cons.IH) auto
  moreover have "q_wire q = rname_wire (fst q) @ snd q" by (simp add: q_wire_def)
  ultimately show ?case using q by (simp add: ac_simps)
qed simp

text \<open>A reply to the query 42 with at most four questions and some answers.\<close>

definition reply_wire :: "bytes \<Rightarrow> (rname \<times> bytes) list \<Rightarrow> rr list \<Rightarrow> bytes \<Rightarrow> bytes" where
  "reply_wire h qs rs extra = h @ concat (map q_wire qs) @ concat (map rr_wire rs) @ extra"

definition head_ok :: "bytes \<Rightarrow> nat \<Rightarrow> nat \<Rightarrow> bool" where
  "head_ok h qn an \<longleftrightarrow> length h = 12 \<and> word_at h 0 = 42 \<and> unat (word_at h 4) = qn \<and> unat (word_at h 6) = an"

definition reply_ok :: "bytes \<Rightarrow> (rname \<times> bytes) list \<Rightarrow> rr list \<Rightarrow> bytes \<Rightarrow> bool" where
  "reply_ok h qs rs extra \<longleftrightarrow> head_ok h (length qs) (length rs) \<and> length qs \<le> 4 \<and> rs \<noteq> [] \<and>
     (\<forall>q \<in> set qs. q_ok q) \<and> (\<forall>r \<in> set rs. rr_ok r) \<and> length (reply_wire h qs rs extra) \<le> BUFZ"

lemma word_at_append: "i + 1 < length h \<Longrightarrow> word_at (h @ r) i = word_at h i"
  by (simp add: word_at_def nth_append)

lemma flag_never: "(if c = 0 then 1 else 0 :: u8) AND 0x80 = 0"
  by simp

lemma rr_data_le: "r \<in> set rs \<Longrightarrow> length (rr_data r) \<le> length (concat (map rr_wire rs))"
  by (induction rs) (auto simp: rr_wire_def)

lemma process_wire:
  fixes s :: rsv
  assumes ok: "reply_ok h qs rs extra" and b: "buf s = reply_wire h qs rs extra @ old"
    and t: "tabled [] s" and inc: "\<not> inc_first env"
  shows "\<exists>s'. process env s = Inr (True, s') \<and> host_addrs s' = addr_data (take 4 rs) \<and>
    length (hlist s') = 5 \<and> sent s' = sent s"
proof -
  from ok have h: "length h = 12" "word_at h 0 = 42" "unat (word_at h 4) = length qs" "unat (word_at h 6) = length rs"
    and qs: "length qs \<le> 4" "\<forall>q \<in> set qs. q_ok q" and rs: "rs \<noteq> []" "\<forall>r \<in> set rs. rr_ok r"
    and len: "length (reply_wire h qs rs extra) \<le> 512"
    by (auto simp: reply_ok_def head_ok_def BUFZ_def)
  define tl where "tl = concat (map q_wire qs) @ concat (map rr_wire rs) @ extra @ old"
  have bh: "buf s = h @ tl" using b by (simp add: reply_wire_def tl_def)
  have w: "word_at (buf s) 0 = 42" "unat (word_at (buf s) 4) = length qs" "unat (word_at (buf s) 6) = length rs"
    using h by (simp_all add: bh word_at_append)
  have nz: "word_at (buf s) 6 \<noteq> 0" using w(3) rs by auto
  have sk: "skip_questions (min (unat (word_at (buf s) 4)) 4) (buf s) (int HEADER) =
      Inr (int (length (h @ concat (map q_wire qs))))"
    using skip_questions_wire [OF qs(2), of h "concat (map rr_wire rs) @ extra @ old"] w(2) qs(1) h(1)
    unfolding bh tl_def HEADER_def by simp
  define h' where "h' = (if 4 < length rs then h[6 := 0, 7 := 4] else h)"
  define s1 where "s1 = (if of_nat MAXADDRS < word_at (buf s) 6
      then s\<lparr>buf := (buf s)[6 := 0, 7 := of_nat MAXADDRS]\<rparr> else s)"
  have cap: "of_nat MAXADDRS < word_at (buf s) 6 \<longleftrightarrow> 4 < length rs"
    using w(3) by (simp add: MAXADDRS_def word_less_nat_alt)
  have b1: "buf s1 = h' @ tl"
    unfolding s1_def cap h'_def using h(1) by (simp add: bh list_update_append MAXADDRS_def)
  have an: "unat (word_at (buf s1) 6) = length (take 4 rs)"
  proof -
    have "be16 0 4 = 4" by (simp add: be16_def)
    then have "unat (word_at h' 6) = length (take 4 rs)" using h by (simp add: h'_def word_at_def)
    moreover have "length h' = 12" using h(1) by (simp add: h'_def)
    ultimately show ?thesis by (simp add: b1 word_at_append)
  qed
  have "\<exists>s'. answers env (length (take 4 rs)) (length ([] :: bytes list)) (int (length (h' @ concat (map q_wire qs)))) s1 =
      Inr (length ([] :: bytes list) + length (addr_data (take 4 rs)), s') \<and>
      tabled ([] @ addr_data (take 4 rs)) s' \<and> sent s' = sent s1"
  proof (rule answers_wire)
    have "length (rr_data r) < 65536" if "r \<in> set rs" for r
      using rr_data_le [OF that] len by (simp add: reply_wire_def)
    then show "\<forall>r \<in> set (take 4 rs). rr_ok r \<and> length (rr_data r) < 65536"
      using rs by (meson in_set_takeD)
    have "concat (map rr_wire rs) = concat (map rr_wire (take 4 rs)) @ concat (map rr_wire (drop 4 rs))"
      by (metis append_take_drop_id concat_append map_append)
    then show "buf s1 = (h' @ concat (map q_wire qs)) @ concat (map rr_wire (take 4 rs)) @
        concat (map rr_wire (drop 4 rs)) @ extra @ old"
      by (simp add: b1 tl_def)
    show "tabled [] s1" using t by (simp add: s1_def tabled_def)
  qed (use inc in auto)
  then obtain s' where a: "answers env (length (take 4 rs)) 0 (int (length (h' @ concat (map q_wire qs)))) s1 =
      Inr (length (addr_data (take 4 rs)), s')" "tabled (addr_data (take 4 rs)) s'" "sent s' = sent s1"
    by auto
  have lh: "length h' = length h" by (simp add: h'_def)
  have "process env s = Inr (True, s'\<lparr>hlist := (hlist s')[length (addr_data (take 4 rs)) := None]\<rparr>)"
    unfolding process_def Let_def flag_never sk sum.case s1_def [symmetric] an using w(1) nz a(1) lh by simp
  then show ?thesis using host_addrs_tabled [OF a(2)] a(3) by (simp add: s1_def)
qed

section \<open>The whole call\<close>

text \<open>The call gets as far as the network, with \<open>srv\<close> of the file as the server.\<close>

definition asks :: "renv \<Rightarrow> bytes \<Rightarrow> bool" where
  "asks env name \<longleftrightarrow> pton env name = None \<and> sockets env \<and>
     (\<exists>f srv. resolv env = Some f \<and> f \<noteq> [] \<and>
        find_server (words_of (c_str (take 511 f))) (junk env) = Some (Some srv) \<and> connects env (pton env srv))"

definition name_ok :: "bytes list \<Rightarrow> bool" where
  "name_ok ls \<longleftrightarrow> ls \<noteq> [] \<and> (\<forall>l \<in> set ls. label_ok l) \<and> length (labels_wire ls) \<le> 495"

lemma asks_gethostbyname:
  assumes "asks env name"
  shows "\<exists>b. gethostbyname env name s = tries env name 5 0 (s\<lparr>buf := b\<rparr>)"
proof -
  from assms obtain f srv where f: "pton env name = None" "sockets env" "resolv env = Some f" "f \<noteq> []"
    "find_server (words_of (c_str (take 511 f))) (junk env) = Some (Some srv)" "connects env (pton env srv)"
    by (auto simp: asks_def)
  then have "take 511 f \<noteq> []" by simp
  with f show ?thesis
    unfolding gethostbyname_def f(1,3) option.case Let_def f(5) by (intro exI) (simp only: if_False if_True simp_thms)
qed

lemma send_question_name:
  "name_ok ls \<Longrightarrow> \<exists>b. send_question (dotted ls) s =
    Inr ((), s\<lparr>buf := b, sent := sent s @ [question_head @ question ls]\<rparr>)"
  using send_question_wire [of ls s] by (auto simp: name_ok_def label_ok_def)

text \<open>Tries without an answer send the question again.\<close>

lemma tries_silent:
  assumes ls: "name_ok ls"
  shows "\<forall>i < m. reply env (k + i) = None \<Longrightarrow>
    \<exists>b. tries env (dotted ls) (m + n) k s = tries env (dotted ls) n (k + m)
      (s\<lparr>buf := b, sent := sent s @ replicate m (question_head @ question ls)\<rparr>)"
proof (induction m arbitrary: k s)
  case 0
  have "s = s\<lparr>buf := buf s, sent := sent s\<rparr>" by simp
  then show ?case by (metis Nat.add_0_right add_0 append_Nil2 replicate_0)
next
  case (Suc m)
  obtain b where b: "send_question (dotted ls) s =
      Inr ((), s\<lparr>buf := b, sent := sent s @ [question_head @ question ls]\<rparr>)"
    using send_question_name [OF ls] by blast
  let ?s = "s\<lparr>buf := b, sent := sent s @ [question_head @ question ls]\<rparr>"
  have "reply env k = None" using Suc.prems by force
  then have "tries env (dotted ls) (Suc m + n) k s = tries env (dotted ls) (m + n) (k + 1) ?s"
    by (simp add: b)
  moreover have "\<forall>i < m. reply env (k + 1 + i) = None" using Suc.prems by force
  then obtain b' where "tries env (dotted ls) (m + n) (k + 1) ?s = tries env (dotted ls) n (k + 1 + m)
      (?s\<lparr>buf := b', sent := sent ?s @ replicate m (question_head @ question ls)\<rparr>)"
    using Suc.IH [of "k + 1" ?s] by blast
  ultimately show ?case by (auto simp: replicate_append_same)
qed

lemma tabled_start: "tabled [] rsv_start"
  by (simp add: tabled_def rsv_start_def numeral_eq_Suc)

section \<open>Properties\<close>

text \<open>C33:
  The packet that asks for the name \<open>dotted ls\<close> is the query of RFC 1035: its header has the
  identifier 42, one question and the wish for recursion, and a reference decoder of names reads
  the labels of the name back, followed by the type and the class of an address.
\<close>

theorem dns_query:
  assumes "name_ok ls"
  shows "\<exists>s' q. send_question (dotted ls) s = Inr ((), s') \<and> sent s' = sent s @ [question_head @ q] \<and>
    read_name (length ls + 1) q = Some (ls, [0, 1, 0, 1]) \<and> length (question_head @ q) \<le> BUFZ"
proof -
  obtain b where "send_question (dotted ls) s =
      Inr ((), s\<lparr>buf := b, sent := sent s @ [question_head @ question ls]\<rparr>)"
    using send_question_name [OF assms] by blast
  moreover have "read_name (length ls + 1) (question ls) = Some (ls, [0, 1, 0, 1])"
    using assms read_name_wire [of ls "length ls + 1" "[0, 1, 0, 1]"] unfolding name_ok_def question_def by simp
  ultimately show ?thesis using assms
    by (auto simp: name_ok_def question_def question_head_def BUFZ_def)
qed

lemma dns_query_witness:
  "\<exists>s' q. send_question (str ''fuzix.org'') rsv_start = Inr ((), s') \<and> sent s' = sent rsv_start @ [question_head @ q] \<and>
    read_name 3 q = Some ([str ''fuzix'', str ''org''], [0, 1, 0, 1]) \<and> length (question_head @ q) \<le> BUFZ"
proof -
  have d: "dotted [str ''fuzix'', str ''org''] = str ''fuzix.org''" by code_simp
  have ok: "name_ok [str ''fuzix'', str ''org'']" unfolding name_ok_def label_ok_def by code_simp
  show ?thesis using dns_query [OF ok, of rsv_start] unfolding d by (simp add: eval_nat_numeral)
qed

lemma gethostbyname_answer:
  assumes "asks env (dotted ls)" "name_ok ls" "\<not> inc_first env" "k < 5" "\<forall>i < k. reply env i = None"
    "reply env k = Some (reply_wire h qs rs extra)" "reply_ok h qs rs extra"
  shows "\<exists>s'. gethostbyname env (dotted ls) rsv_start = Inr (True, s') \<and>
    host_addrs s' = addr_data (take 4 rs) \<and> length (hlist s') = 5 \<and>
    sent s' = replicate (k + 1) (question_head @ question ls)"
proof -
  let ?p = "question_head @ question ls" and ?r = "reply_wire h qs rs extra"
  obtain b where b: "gethostbyname env (dotted ls) rsv_start = tries env (dotted ls) 5 0 (rsv_start\<lparr>buf := b\<rparr>)"
    using asks_gethostbyname [OF assms(1)] by blast
  have k: "5 = k + Suc (4 - k)" using assms(4) by simp
  obtain b' where b': "tries env (dotted ls) 5 0 (rsv_start\<lparr>buf := b\<rparr>) =
      tries env (dotted ls) (Suc (4 - k)) k (rsv_start\<lparr>buf := b', sent := replicate k ?p\<rparr>)"
    using tries_silent [OF assms(2), of k env 0 "Suc (4 - k)" "rsv_start\<lparr>buf := b\<rparr>"] assms(5)
    unfolding k [symmetric] by (auto simp: rsv_start_def)
  obtain b'' where b'': "send_question (dotted ls) (rsv_start\<lparr>buf := b', sent := replicate k ?p\<rparr>) =
      Inr ((), rsv_start\<lparr>buf := b'', sent := replicate (k + 1) ?p\<rparr>)"
    using send_question_name [OF assms(2), of "rsv_start\<lparr>buf := b', sent := replicate k ?p\<rparr>"]
    by (auto simp: replicate_append_same)
  define s1 where "s1 = rsv_start\<lparr>sent := replicate (k + 1) ?p, buf := ?r @ drop (length ?r) b''\<rparr>"
  have "take BUFZ ?r = ?r" using assms(7) by (simp add: reply_ok_def)
  then have "gethostbyname env (dotted ls) rsv_start = process env s1"
    unfolding b b' by (simp add: b'' assms(6) s1_def Let_def)
  moreover have "\<exists>s'. process env s1 = Inr (True, s') \<and> host_addrs s' = addr_data (take 4 rs) \<and>
      length (hlist s') = 5 \<and> sent s' = sent s1"
  proof (rule process_wire [OF assms(7)])
    show "buf s1 = ?r @ drop (length ?r) b''" by (simp add: s1_def)
    show "tabled [] s1" using tabled_start by (simp add: tabled_def s1_def)
  qed (rule assms(3))
  ultimately show ?thesis by (simp add: s1_def)
qed

text \<open>C18:
  When the server answers one of the five tries with a well-formed reply (whatever its flags),
  the call returns the host with the data of the address records among the first four records,
  in their order, after one question for every try.  It holds for names with pointers, for
  records of other types in between and for bytes behind the answers; the assignment that stores
  an address is taken in the order of a compiler that reads the index first.
\<close>

theorem dns_answer:
  assumes "asks env (dotted ls)" "name_ok ls" "\<not> inc_first env" "k < 5" "\<forall>i < k. reply env i = None"
    "reply env k = Some (reply_wire h qs rs extra)" "reply_ok h qs rs extra"
  shows "\<exists>s'. gethostbyname env (dotted ls) rsv_start = Inr (True, s') \<and>
    host_addrs s' = addr_data (take 4 rs) \<and> sent s' = replicate (k + 1) (question_head @ question ls)"
  using gethostbyname_answer [OF assms] by blast

text \<open>A reply with an alias and two addresses, to the second try.\<close>

definition demo_name :: "bytes list" where
  "demo_name = [str ''fuzix'', str ''org'']"

definition demo_ptr :: rname where
  "demo_ptr = Rname [] (Some (0xc0, 12))"

definition demo_rrs :: "rr list" where
  "demo_rrs =
     [\<lparr>rr_name = demo_ptr, rr_type = 5, rr_class_ttl = [0, 1, 0, 0, 0, 60], rr_data = [1, 0x61, 0xc0, 12]\<rparr>,
      \<lparr>rr_name = Rname [str ''a''] (Some (0xc0, 12)), rr_type = 1, rr_class_ttl = [0, 1, 0, 0, 0, 60],
        rr_data = [10, 0, 0, 1]\<rparr>,
      \<lparr>rr_name = demo_ptr, rr_type = 1, rr_class_ttl = [0, 1, 0, 0, 0, 60], rr_data = [10, 0, 0, 2]\<rparr>]"

definition demo_head :: bytes where
  "demo_head = [0, 42, 0x81, 0x80, 0, 1, 0, 3, 0, 0, 0, 0]"

definition demo_qs :: "(rname \<times> bytes) list" where
  "demo_qs = [(Rname demo_name None, [0, 1, 0, 1])]"

definition demo_renv :: renv where
  "demo_renv =
     \<lparr>pton = (\<lambda>t. if t = str ''8.8.8.8'' then Some [8, 8, 8, 8] else None),
      resolv = Some (str ''# dns'' @ [10] @ str ''nameserver 8.8.8.8'' @ [10]), sockets = True,
      connects = (\<lambda>a. a = Some [8, 8, 8, 8]),
      reply = (\<lambda>k. if k = 1 then Some (reply_wire demo_head demo_qs demo_rrs [1, 2, 3]) else None),
      junk = [], inc_first = False\<rparr>"

lemma demo_reply_ok: "reply_ok demo_head demo_qs demo_rrs [1, 2, 3]"
  unfolding reply_ok_def head_ok_def q_ok_def rr_ok_def rname_ok_def label_ok_def by code_simp

lemma demo_asks: "asks demo_renv (dotted demo_name)"
proof -
  let ?f = "str ''# dns'' @ [10] @ str ''nameserver 8.8.8.8'' @ [10]"
  have "find_server (words_of (c_str (take 511 ?f))) [] = Some (Some (str ''8.8.8.8''))" by code_simp
  moreover have "dotted demo_name \<noteq> str ''8.8.8.8''" by code_simp
  ultimately show ?thesis unfolding asks_def demo_renv_def by simp
qed

lemma dns_answer_witness:
  "\<exists>s'. gethostbyname demo_renv (dotted demo_name) rsv_start = Inr (True, s') \<and>
    host_addrs s' = [[10, 0, 0, 1], [10, 0, 0, 2]] \<and> length (sent s') = 2"
proof -
  have n: "name_ok demo_name" unfolding name_ok_def label_ok_def by code_simp
  have a: "addr_data (take 4 demo_rrs) = [[10, 0, 0, 1], [10, 0, 0, 2]]" by code_simp
  have "\<not> inc_first demo_renv" "(1 :: nat) < 5" "\<forall>i < 1. reply demo_renv i = None"
    "reply demo_renv 1 = Some (reply_wire demo_head demo_qs demo_rrs [1, 2, 3])"
    by (simp_all add: demo_renv_def)
  from dns_answer [OF demo_asks n this demo_reply_ok] show ?thesis unfolding a by auto
qed

text \<open>
  A reply that says 63 for the first label and has the byte \<open>0xbf\<close> behind it is never
  finished: the length is read as the signed number -65, the scan of the names goes back to where
  it came from, and no number of turns ends it.
\<close>

theorem dns_hang:
  fixes s :: rsv
  assumes "length (buf s) = BUFZ" "word_at (buf s) 0 = 42" "word_at (buf s) 4 \<noteq> 0" "word_at (buf s) 6 \<noteq> 0"
    "buf s ! 12 = 63" "buf s ! 76 = 0xbf"
  shows "process env s = Inl (Forever, s) \<and> (\<forall>n. skip_name n (buf s) 12 = Inl Forever)"
proof -
  have "skip_name n (buf s) 12 = Inl Forever \<and> skip_name n (buf s) 76 = Inl Forever" for n
    using assms(1,5,6) by (induction n) (simp_all add: BUFZ_def)
  then have f: "skip_name n (buf s) 12 = Inl Forever" for n by blast
  have "0 < unat (word_at (buf s) 4)" using assms(3) by (simp add: unat_gt_0)
  then obtain m where "min (unat (word_at (buf s) 4)) 4 = Suc m"
    by (metis gr0_implies_Suc min_less_iff_conj zero_less_numeral)
  then have "skip_questions (min (unat (word_at (buf s) 4)) 4) (buf s) (int HEADER) = Inl Forever"
    using f by (simp add: scan_name_def HEADER_def)
  then have "process env s = Inl (Forever, s)"
    unfolding process_def Let_def flag_never using assms(2,4) by simp
  with f show ?thesis by blast
qed

lemma dns_hang_witness:
  "process demo_renv (rsv_start\<lparr>buf := demo_head @ 63 # replicate 63 1 @ 0xbf # replicate 435 0\<rparr>) =
     Inl (Forever, rsv_start\<lparr>buf := demo_head @ 63 # replicate 63 1 @ 0xbf # replicate 435 0\<rparr>)"
proof -
  let ?s = "rsv_start\<lparr>buf := demo_head @ 63 # replicate 63 1 @ 0xbf # replicate 435 0\<rparr>"
  have "length (buf ?s) = BUFZ" "word_at (buf ?s) 0 = 42" "word_at (buf ?s) 4 \<noteq> 0" "word_at (buf ?s) 6 \<noteq> 0"
    "buf ?s ! 12 = 63" "buf ?s ! 76 = 0xbf"
    by (simp_all add: demo_head_def BUFZ_def word_at_def nth_append be16_def)
  from dns_hang [OF this] show ?thesis by blast
qed

section \<open>The fuel of the scan\<close>

text \<open>
  The answer \<open>Forever\<close> of \<open>scan_name\<close> is never a lack of fuel: a scan that makes more turns than the
  buffer has places was at some place twice, and then it goes round for any number of turns.
\<close>

definition next_label :: "bytes \<Rightarrow> int \<Rightarrow> int" where
  "next_label b p = p + sint (b ! nat p) + 1"

definition scan_ends :: "bytes \<Rightarrow> int \<Rightarrow> bool" where
  "scan_ends b p \<longleftrightarrow> p < 0 \<or> int (length b) \<le> p \<or> b ! nat p = 0 \<or> b ! nat p AND 0xc0 = 0xc0"

lemma skip_name_forever:
  "skip_name n b p = Inl Forever \<longleftrightarrow> (\<forall>i < n. \<not> scan_ends b ((next_label b ^^ i) p))"
proof (induction n arbitrary: p)
  case (Suc n)
  have "(\<forall>i < Suc n. \<not> scan_ends b ((next_label b ^^ i) p)) \<longleftrightarrow>
      \<not> scan_ends b p \<and> (\<forall>i < n. \<not> scan_ends b ((next_label b ^^ i) (next_label b p)))"
    unfolding All_less_Suc2 funpow_Suc_right by simp
  also have "\<dots> \<longleftrightarrow> \<not> scan_ends b p \<and> skip_name n b (next_label b p) = Inl Forever"
    by (simp only: Suc.IH)
  also have "\<dots> \<longleftrightarrow> skip_name (Suc n) b p = Inl Forever"
    by (simp add: scan_ends_def next_label_def Let_def)
  finally show ?case ..
qed simp

lemma funpow_cycle:
  fixes f :: "'a \<Rightarrow> 'a"
  assumes "(f ^^ i) x = (f ^^ j) x" "i < j"
  shows "\<exists>k < j. (f ^^ m) x = (f ^^ k) x"
proof (induction m rule: less_induct)
  case (less m)
  show ?case
  proof (cases "m < j")
    case False
    then have "(f ^^ m) x = (f ^^ (m - j)) ((f ^^ j) x)" by (metis add.commute comp_apply funpow_add le_add_diff_inverse not_less)
    also have "\<dots> = (f ^^ (m - j + i)) x" by (simp add: assms(1) [symmetric] funpow_add)
    finally show ?thesis using less [of "m - j + i"] assms(2) False by simp
  qed blast
qed

theorem scan_fuel: "scan_name b p = Inl Forever \<longleftrightarrow> (\<forall>n. skip_name n b p = Inl Forever)"
proof
  assume "scan_name b p = Inl Forever"
  then have go: "\<forall>i < length b + 1. \<not> scan_ends b ((next_label b ^^ i) p)"
    by (simp only: scan_name_def skip_name_forever)
  let ?at = "\<lambda>i. nat ((next_label b ^^ i) p)"
  have "?at ` {..< length b + 1} \<subseteq> {..< length b}" using go by (auto simp: scan_ends_def)
  then have "card (?at ` {..< length b + 1}) \<le> length b" using card_mono [of "{..< length b}"] by fastforce
  then have "\<not> inj_on ?at {..< length b + 1}" by (intro pigeonhole) simp
  then obtain i j where ij: "i < j" "j < length b + 1" "?at i = ?at j"
    unfolding inj_on_def by (metis lessThan_iff linorder_neqE_nat)
  have pos: "0 \<le> (next_label b ^^ k) p" if "k < length b + 1" for k using go that by (force simp: scan_ends_def)
  have "(next_label b ^^ i) p = (next_label b ^^ j) p"
    using ij(3) pos [of i] pos [OF ij(2)] ij(1,2) by (simp add: nat_eq_iff split: if_splits)
  from funpow_cycle [OF this ij(1)] have "\<forall>m. \<not> scan_ends b ((next_label b ^^ m) p)"
    using go ij(2) by (metis order_less_trans)
  then show "\<forall>n. skip_name n b p = Inl Forever" by (simp add: skip_name_forever)
qed (simp add: scan_name_def)

end
