(* ===== verification/Firc_Run.thy ===== *)
theory Firc_Run
  imports Firc_Spec Resolve_Spec
begin

text \<open>
  Sessions of the IRC client: keys and network turn by turn, the connection through the resolver,
  and what holds of every run.
\<close>

section \<open>Turns\<close>

fun turns :: "ienv \<Rightarrow> nat \<Rightarrow> nat \<Rightarrow> irc \<Rightarrow> unit fres" where
  "turns env 0 k s = Inr ((), s)"
| "turns env (Suc n) k s = rbind (turn env k s) (\<lambda>(_, s). turns env n (k + 1) s)"

lemma turns_add:
  "turns env (m + n) k s = rbind (turns env m k s) (\<lambda>(_, s). turns env n (k + m) s)"
proof (induction m arbitrary: k s)
  case (Suc m)
  then show ?case by (cases "turn env k s") auto
qed simp

lemma turn_key: "turn env k s = Inr (c, s') \<Longrightarrow> c = mygetc (keys env k)"
  by (auto simp: turn_def Let_def rbind_def split: sum.splits if_splits)

lemma main_loop_turns:
  "turns env n k s = Inr ((), s') \<Longrightarrow> \<forall>i < n. mygetc (keys env (k + i)) \<noteq> 27 \<Longrightarrow>
   main_loop env k s = main_loop env (k + n) s'"
proof (induction n arbitrary: k s)
  case (Suc n)
  then obtain c s1 where t: "turn env k s = Inr (c, s1)" "turns env n (k + 1) s1 = Inr ((), s')"
    by (auto simp: rbind_def split: sum.splits)
  then have "c \<noteq> 27" using Suc.prems(2) turn_key [OF t(1)] by force
  then have "main_loop env k s = main_loop env (k + 1) s1"
    by (subst main_loop.simps) (simp add: t)
  moreover have "\<forall>i < n. mygetc (keys env (k + 1 + i)) \<noteq> 27" using Suc.prems(2) by force
  then have "main_loop env (k + 1) s1 = main_loop env (k + 1 + n) s'" using t(2) by (intro Suc.IH) auto
  ultimately show ?case by simp
qed simp

text \<open>Turns without keys: the reads of the network.\<close>

lemma turns_net:
  "\<forall>i < length ds. mygetc (keys env (k + i)) \<le> 0 \<and> recv env (k + i) = Some (ds ! i) \<Longrightarrow>
   turns env (length ds) k s = net_all env ds s"
proof (induction ds arbitrary: k s)
  case (Cons d ds)
  have k: "mygetc (keys env k) \<le> 0" "recv env k = Some d" using Cons.prems by force+
  have "turns env (length ds) (k + 1) s1 = net_all env ds s1" for s1
    using Cons.prems by (intro Cons.IH) force
  then show ?case using k by (cases "do_network env (Some d) s") (auto simp: turn_def Let_def)
qed simp

text \<open>A turn without the network.\<close>

lemma turn_key_only:
  assumes "keys env k = Key c" "recv env k = None" "0 < sint c"
  shows "turn env k s = rbind (rbind (inproc env k c s) (\<lambda>(nl, s). if nl then messproc s else Inr ((), s)))
    (\<lambda>(_, s). Inr (sint c, s))"
  using assms
  by (cases "rbind (inproc env k c s) (\<lambda>(nl, s). if nl then messproc s else Inr ((), s))")
    (auto simp: turn_def mygetc_def do_network_def Let_def)

section \<open>Typing\<close>

text \<open>A character of a line that is not yet too long for the screen.\<close>

definition typed :: "bytes \<Rightarrow> irc \<Rightarrow> irc" where
  "typed l s = s\<lparr>ibuf := take (iptr s) (ibuf s) @ l @ drop (iptr s + length l) (ibuf s),
     iptr := iptr s + length l, tty := tty s @ l\<rparr>"

definition plain_key :: "u8 \<Rightarrow> bool" where
  "plain_key c \<longleftrightarrow> 0 < sint c \<and> c \<noteq> 8 \<and> c \<noteq> 10 \<and> c \<noteq> 27 \<and> c \<noteq> 0x25"

lemma inproc_char:
  assumes "c \<noteq> 8" "c \<noteq> 10" "iptr s < 78" "length (ibuf s) = IMAX"
  shows "inproc env k c s = Inr (False, typed [c] s)"
proof -
  have "(ibuf s)[iptr s := c] = take (iptr s) (ibuf s) @ c # drop (iptr s + 1) (ibuf s)"
    using assms by (simp add: upd_conv_take_nth_drop IMAX_def)
  with assms show ?thesis by (simp add: inproc_def typed_def put_def IMAX_def)
qed

lemma typed_typed: "length (ibuf s) = IMAX \<Longrightarrow> iptr s \<le> IMAX \<Longrightarrow> typed b (typed a s) = typed (a @ b) s"
  by (simp add: typed_def add.commute add.left_commute)

lemma turns_type:
  "\<forall>i < length l. keys env (k + i) = Key (l ! i) \<and> recv env (k + i) = None \<Longrightarrow> \<forall>c \<in> set l. plain_key c \<Longrightarrow>
   iptr s + length l \<le> 78 \<Longrightarrow> length (ibuf s) = IMAX \<Longrightarrow> turns env (length l) k s = Inr ((), typed l s)"
proof (induction l arbitrary: k s)
  case Nil
  then show ?case by (simp add: typed_def)
next
  case (Cons c l)
  have k: "keys env k = Key c" "recv env k = None" using Cons.prems(1) by force+
  have c: "c \<noteq> 8" "c \<noteq> 10" "0 < sint c" using Cons.prems by (auto simp: plain_key_def)
  have "turn env k s = Inr (sint c, typed [c] s)"
    using turn_key_only [OF k c(3)] inproc_char [OF c(1,2)] Cons.prems by simp
  moreover have "turns env (length l) (k + 1) (typed [c] s) = Inr ((), typed l (typed [c] s))"
    using Cons.prems by (intro Cons.IH) (force simp: typed_def IMAX_def)+
  ultimately show ?case using Cons.prems by (simp add: typed_typed IMAX_def)
qed

text \<open>The end of the line sends it to the channel and shows it.\<close>

definition to_channel :: "bytes \<Rightarrow> bytes \<Rightarrow> bytes" where
  "to_channel ch l = str ''PRIVMSG '' @ ch @ str '' :'' @ l @ [13, 10]"

lemma turn_enter:
  assumes k: "keys env k = Key 10" "recv env k = None"
    and l: "take (iptr s) (ibuf s) = l" "iptr s = length l" "\<forall>c \<in> set l. plain_key c" "hd l \<noteq> 0x2f" "length l \<le> 78"
    and s: "ready s"
  shows "\<exists>s'. turn env k s = Inr (10, s') \<and> net s' = net s @ to_channel (c_str (channel s)) l \<and>
    tty s' = tty s @ shows_line [] (str ''me> '' @ l) [] \<and> channel s' = channel s \<and> raw s' = raw s \<and>
    ready s' \<and> iptr s' = 0"
proof -
  define s1 where "s1 = s\<lparr>ibuf := (ibuf s)[iptr s := 0], iptr := 0, scrl := 0\<rparr>"
  define s2 where "s2 = s1\<lparr>net := net s @ str ''PRIVMSG '' @ c_str (channel s) @ str '' :'' @ l\<rparr>"
  have nz: "0 \<notin> set l" "0x25 \<notin> set l" using l(3) by (auto simp: plain_key_def)
  have len: "length (ibuf s) = IMAX" using s by (simp add: ready_def)
  then have "(ibuf s)[iptr s := 0] = l @ 0 # drop (length l + 1) (ibuf s)"
    using l by (simp add: upd_conv_take_nth_drop IMAX_def)
  then have b: "ibuf s1 = l @ 0 # drop (length l + 1) (ibuf s)" by (simp add: s1_def)
  have i: "inproc env k 10 s = Inr (True, s1)" using l by (simp add: inproc_def s1_def IMAX_def)
  have st: "string_at (ibuf s1) (Some 0) s1 = Inr (l, s1)" using nz b by (simp add: string_at_def c_str_0)
  have cl: "c_str (ibuf s1) = l" using nz b by (simp add: c_str_0)
  have m: "messproc s1 = rbind (show_line (str ''me> '' @ l) s2) (\<lambda>(_, s). Inr ((), sendto [13, 10] s))"
    unfolding messproc_def st using l(4) by (auto simp: sendto_def s2_def s1_def)
  have e: "echo s2 = Some []"
  proof -
    have "length (ibuf s1) = IMAX" using len by (simp add: s1_def)
    then obtain x xs where "ibuf s1 = x # xs" by (cases "ibuf s1") (auto simp: IMAX_def)
    then show ?thesis by (simp add: echo_def s2_def c_str_def s1_def)
  qed
  have t: "0 \<notin> set (str ''me> '' @ l)" "0x25 \<notin> set (str ''me> '' @ l)" "length (str ''me> '' @ l) < length (obuf s2)"
    using nz l s by (auto simp: str_def s2_def s1_def ready_def IMAX_def)
  have "turn env k s = rbind (messproc s1) (\<lambda>(_, s). Inr (10, s))"
    using turn_key_only [OF k] by (simp add: i)
  then have "turn env k s = rbind (rbind (show_line (str ''me> '' @ l) s2) (\<lambda>(_, s). Inr ((), sendto [13, 10] s)))
      (\<lambda>(_, s). Inr (10, s))" by (simp only: m)
  moreover have "length (str ''me> '') = 4" by (simp add: str_def)
  ultimately show ?thesis unfolding show_line_echo [OF t e] using s l(5)
    by (simp add: sendto_def s2_def s1_def to_channel_def shows_line_def ready_def IMAX_def)
qed

section \<open>The connection\<close>

lemma host_first:
  assumes "host_addrs r = a # as"
  shows "\<exists>k. hlist r ! 0 = Some k \<and> take 4 (drop (4 * k) (addrs r)) = a"
  using assms by (cases "hlist r") (auto simp: host_addrs_def split: if_splits)

lemma host_none: "host_addrs r = [] \<Longrightarrow> hlist r \<noteq> [] \<Longrightarrow> hlist r ! 0 = None"
  by (cases "hlist r") (auto simp: host_addrs_def split: if_splits)

text \<open>
  The client connects to the first address that the resolver has found in the server's answer,
  with the port of its second argument or 6667, and to no other one if that fails.
\<close>

theorem irc_connects:
  assumes "asks (resolver env) (dotted ls)" "name_ok ls" "\<not> inc_first (resolver env)" "k < 5"
    "\<forall>i < k. reply (resolver env) i = None" "reply (resolver env) k = Some (reply_wire h qs rs extra)"
    "reply_ok h qs rs extra" "addr_data (take 4 rs) = a # as" "tcp_socket env" "rsv_of s = rsv_start"
  shows "\<exists>r. my_open env (dotted ls # args) s =
    (if tcp_connect env a (port_of (dotted ls # args))
     then Inr ((), put (str ''connected'' @ [10]) (s\<lparr>rsv_of := r\<rparr>))
     else my_exit 1 (s\<lparr>rsv_of := r, diag := diag s @ [str ''connect'']\<rparr>))"
proof -
  from gethostbyname_answer [OF assms(1-7)] obtain r where r:
    "gethostbyname (resolver env) (dotted ls) rsv_start = Inr (True, r)" "host_addrs r = a # as"
    using assms(8) by auto
  from host_first [OF r(2)] obtain j where "hlist r ! 0 = Some j" "take 4 (drop (4 * j) (addrs r)) = a" by blast
  then show ?thesis using r(1) assms(9,10) by (intro exI [of _ r]) (simp add: my_open_def Let_def)
qed

text \<open>
  An answer without an address record among its first four ends the client in a read of the null
  pointer: the resolver returns a host with an empty list.
\<close>

theorem irc_no_address:
  assumes "asks (resolver env) (dotted ls)" "name_ok ls" "\<not> inc_first (resolver env)" "k < 5"
    "\<forall>i < k. reply (resolver env) i = None" "reply (resolver env) k = Some (reply_wire h qs rs extra)"
    "reply_ok h qs rs extra" "\<forall>r \<in> set (take 4 rs). \<not> is_A r" "rsv_of s = rsv_start"
  shows "\<exists>s'. my_open env (dotted ls # args) s = Inl (Null_read, s')"
proof -
  have "addr_data (take 4 rs) = []" using assms(8) by (simp add: addr_data_def)
  with gethostbyname_answer [OF assms(1-7)] obtain r where r:
    "gethostbyname (resolver env) (dotted ls) rsv_start = Inr (True, r)" "host_addrs r = []" "length (hlist r) = 5"
    by auto
  from r(3) have "hlist r \<noteq> []" by auto
  with r(1,2) assms(9) show ?thesis by (simp add: my_open_def Let_def host_none)
qed

section \<open>A session\<close>

text \<open>
  The turns of a session: the network brings \<open>ds\<close>, then the line \<open>l\<close> is typed and ended, and the
  key Escape follows.
\<close>

definition session :: "ienv \<Rightarrow> bytes list \<Rightarrow> bytes \<Rightarrow> bool" where
  "session env ds l \<longleftrightarrow>
     (\<forall>i < length ds. keys env i = No_key \<and> recv env i = Some (ds ! i)) \<and>
     (\<forall>i < length l. keys env (length ds + i) = Key (l ! i) \<and> recv env (length ds + i) = None) \<and>
     keys env (length ds + length l) = Key 10 \<and> recv env (length ds + length l) = None \<and>
     keys env (length ds + length l + 1) = Key 27 \<and> recv env (length ds + length l + 1) = None"

lemma session_loop:
  assumes m: "msg_ok m" "m_com m = str ''JOIN''" "m_prefix m = Some n" "msg_args m = [ch]"
    and plain: "0x25 \<notin> set n" "0x25 \<notin> set ch" "length n \<le> 200" "length ch \<le> 200"
    and ds: "concat ds = msg_text m @ [13, 10]" "\<forall>d \<in> set ds. length d \<le> IMAX"
    and l: "l \<noteq> []" "hd l \<noteq> 0x2f" "\<forall>c \<in> set l. plain_key c" "length l \<le> 77"
    and env: "session env ds l" and s: "ready s" "echo s = Some []" "iptr s = 0"
  shows "\<exists>s'. main_loop env 0 s = Some (Inr ((), s')) \<and> net s' = net s @ to_channel ch l"
proof -
  note e = env [unfolded session_def]
  obtain s1 where s1: "net_all env ds s = Inr ((), s1)" "c_str (channel s1) = ch" "net s1 = net s"
    "same_line s s1" "ready s1"
    using irc_join [OF m plain s(1,2) ds, of env] by blast
  have i1: "iptr s1 = 0" "length (ibuf s1) = IMAX" using s1 s(3) by (simp_all add: same_line_def ready_def)
  have t1: "turns env (length ds) 0 s = Inr ((), s1)"
    using e s1(1) by (subst turns_net) (auto simp: mygetc_def)
  let ?s2 = "typed l s1"
  have t2: "turns env (length l) (length ds) s1 = Inr ((), ?s2)"
    using e l i1 by (intro turns_type) auto
  have r2: "ready ?s2" using s1(5) i1 l by (simp add: ready_def typed_def IMAX_def)
  have y2: "take (iptr ?s2) (ibuf ?s2) = l" "iptr ?s2 = length l" using i1 by (simp_all add: typed_def)
  obtain s3 where s3: "turn env (length ds + length l) ?s2 = Inr (10, s3)"
    "net s3 = net ?s2 @ to_channel (c_str (channel ?s2)) l" "ready s3" "iptr s3 = 0"
  proof -
    have k: "keys env (length ds + length l) = Key 10" "recv env (length ds + length l) = None" using e by auto
    have "length l \<le> 78" using l by simp
    from turn_enter [OF k y2 l(3,2) this r2] that show thesis by blast
  qed
  have t4: "turn env (length ds + length l + 1) s3 = Inr (27, typed [27] s3)"
    using turn_key_only [of env "length ds + length l + 1" 27 s3] inproc_char [of 27 s3] e s3
    by (simp add: ready_def)
  have n: "\<forall>i < length ds + length l. mygetc (keys env (0 + i)) \<noteq> 27"
  proof (intro allI impI)
    fix i assume i: "i < length ds + length l"
    show "mygetc (keys env (0 + i)) \<noteq> 27"
    proof (cases "i < length ds")
      case True
      then show ?thesis using e by (simp add: mygetc_def)
    next
      case False
      then have "keys env i = Key (l ! (i - length ds))" "plain_key (l ! (i - length ds))"
        using e i l(3) by (metis add_diff_inverse_nat nat_add_left_cancel_less, auto)
      moreover have "sint c \<noteq> 27" if "c \<noteq> 27" for c :: u8
      proof
        assume "sint c = 27"
        then have "word_of_int (sint c) = (27 :: u8)" by simp
        with that show False by simp
      qed
      ultimately show ?thesis by (simp add: mygetc_def plain_key_def)
    qed
  qed
  have "turns env (length ds + length l) 0 s = Inr ((), ?s2)" by (simp add: turns_add t1 t2)
  from main_loop_turns [OF this n] have "main_loop env 0 s = main_loop env (length ds + length l) ?s2" by simp
  also have "\<dots> = main_loop env (length ds + length l + 1) s3"
    by (subst main_loop.simps) (simp add: s3(1))
  also have "\<dots> = Some (Inr ((), typed [27] s3))"
    by (subst main_loop.simps) (simp add: t4 [simplified])
  finally show ?thesis using s3 s1 by (simp add: typed_def)
qed

lemma opened:
  assumes "tcp_socket env" "gethostbyname (resolver env) name rsv_start = Inr (True, r)" "host_addrs r = a # as"
    "tcp_connect env a (port_of (name # args))" "ready s" "echo s = Some []" "rsv_of s = rsv_start"
  shows "\<exists>s'. rbind (my_open env (name # args) s) (\<lambda>(_, s). show_line (str ''Opened connection.'') s) = Inr ((), s') \<and>
    ready s' \<and> echo s' = Some [] \<and> iptr s' = iptr s \<and> net s' = net s"
proof -
  from host_first [OF assms(3)] obtain j where j: "hlist r ! 0 = Some j" "take 4 (drop (4 * j) (addrs r)) = a" by blast
  let ?s = "put (str ''connected'' @ [10]) (s\<lparr>rsv_of := r\<rparr>)" and ?t = "str ''Opened connection.''"
  have "my_open env (name # args) s = Inr ((), ?s)" using assms j by (simp add: my_open_def Let_def)
  moreover have e: "same_line s ?s" by (simp add: same_line_def put_def)
  have t: "0 \<notin> set ?t" "0x25 \<notin> set ?t" "length ?t < length (obuf ?s)"
    using assms(5) by (simp_all add: str_def put_def ready_def IMAX_def)
  have "show_line ?t ?s = Inr ((), ?s\<lparr>obuf := ?t @ 0 # drop (length ?t + 1) (obuf ?s), ibuf := (ibuf ?s)[iptr ?s := 0],
      tty := tty ?s @ to_input_line @ [27, 0x4b] @ ?t @ [10] @ to_input_line @ []\<rparr>)"
    using echo_cong [OF e] assms(6) by (intro show_line_echo [OF t]) simp
  moreover have "echo (?s\<lparr>obuf := ?t @ 0 # drop (length ?t + 1) (obuf ?s), ibuf := (ibuf ?s)[iptr ?s := 0],
      tty := tty ?s @ to_input_line @ [27, 0x4b] @ ?t @ [10] @ to_input_line @ []\<rparr>) = echo s"
    by (rule echo_cong) (simp add: same_line_def put_def)
  ultimately show ?thesis using assms(5,6) t(3) by (simp add: ready_def put_def)
qed

text \<open>C8:
  A session from the start of the program to its end.  When the host is found and the connection
  made, the server's message that the user has joined a channel comes in any pieces, a line of at
  most 77 characters is typed and ended, and Escape is hit, then the server has received exactly
  that line, addressed to that channel, and the program ends with the terminal as it was.
\<close>

theorem irc_session:
  assumes start: "gets_attr env" "sets_attr env" "tcp_socket env"
      "gethostbyname (resolver env) name rsv_start = Inr (True, r)" "host_addrs r = a # as"
      "tcp_connect env a (port_of (name # args))"
    and m: "msg_ok m" "m_com m = str ''JOIN''" "m_prefix m = Some n" "msg_args m = [ch]"
    and plain: "0x25 \<notin> set n" "0x25 \<notin> set ch" "length n \<le> 200" "length ch \<le> 200"
    and ds: "concat ds = msg_text m @ [13, 10]" "\<forall>d \<in> set ds. length d \<le> IMAX"
    and l: "l \<noteq> []" "hd l \<noteq> 0x2f" "\<forall>c \<in> set l. plain_key c" "length l \<le> 77"
    and env: "session env ds l"
  shows "\<exists>s'. firc_main env (name # args) irc_start = Some (Inl (Exit 0, s')) \<and>
    net s' = str ''PRIVMSG '' @ ch @ str '' :'' @ l @ [13, 10] \<and> \<not> raw s'"
proof -
  define s0 where "s0 = mvto 23 0 (put [27, 0x48, 27, 0x4a] (irc_start\<lparr>raw := True\<rparr>))"
  have s0: "same_line irc_start s0" "ready s0" "rsv_of s0 = rsv_start" "iptr s0 = 0" "net s0 = []"
    using start_ready by (simp_all add: s0_def mvto_def put_def same_line_def ready_def irc_start_def)
  have e0: "echo s0 = Some []" using echo_cong [OF s0(1)] start_ready by simp
  obtain s1 where s1: "rbind (my_open env (name # args) s0) (\<lambda>(_, s). show_line (str ''Opened connection.'') s) = Inr ((), s1)"
    "ready s1" "echo s1 = Some []" "iptr s1 = 0" "net s1 = []"
    using opened [OF start(3-6) s0(2) e0 s0(3)] s0(4,5) by auto
  from session_loop [OF m plain ds l env s1(2-4)] s1(5) obtain s2 where
    s2: "main_loop env 0 s1 = Some (Inr ((), s2))" "net s2 = to_channel ch l" by auto
  have "firc_main env (name # args) irc_start = Some (my_exit 0 s2)"
    unfolding firc_main_def Let_def s0_def [symmetric] s1(1) using start(1,2) by (simp add: s2(1))
  then show ?thesis using s2(2) by (simp add: my_exit_def to_channel_def)
qed

text \<open>The demonstration: \<open>firc fuzix.org 7000\<close>, with the answer of \<open>demo_renv\<close>.\<close>

definition demo_ds :: "bytes list" where
  "demo_ds = [str '':me!m@h JO'', str ''IN #cc'' @ [13, 10]]"

definition demo_line :: bytes where
  "demo_line = str ''hello''"

definition demo_ienv :: ienv where
  "demo_ienv =
     \<lparr>resolver = demo_renv, gets_attr = True, sets_attr = True, tcp_socket = True,
      tcp_connect = (\<lambda>a p. a = [10, 0, 0, 1] \<and> p = 7000),
      keys = (\<lambda>k. if k < 2 then No_key else if k < 7 then Key (demo_line ! (k - 2))
                  else if k = 7 then Key 10 else Key 27),
      recv = (\<lambda>k. if k < 2 then Some (demo_ds ! k) else None), junk_c = (\<lambda>_. 0), junk_x = (\<lambda>_. 0)\<rparr>"

lemma demo_answer:
  "\<exists>r. gethostbyname demo_renv (dotted demo_name) rsv_start = Inr (True, r) \<and>
    host_addrs r = [10, 0, 0, 1] # [[10, 0, 0, 2]]"
proof -
  have n: "name_ok demo_name" unfolding name_ok_def label_ok_def by code_simp
  have a: "addr_data (take 4 demo_rrs) = [[10, 0, 0, 1], [10, 0, 0, 2]]" by code_simp
  have "\<not> inc_first demo_renv" "(1 :: nat) < 5" "\<forall>i < 1. reply demo_renv i = None"
    "reply demo_renv 1 = Some (reply_wire demo_head demo_qs demo_rrs [1, 2, 3])"
    by (simp_all add: demo_renv_def)
  from gethostbyname_answer [OF demo_asks n this demo_reply_ok] show ?thesis unfolding a by auto
qed

lemma irc_session_witness:
  "\<exists>s'. firc_main demo_ienv [dotted demo_name, str ''7000''] irc_start = Some (Inl (Exit 0, s')) \<and>
    net s' = str ''PRIVMSG #cc :hello'' @ [13, 10] \<and> \<not> raw s'"
proof -
  let ?m = "\<lparr>m_prefix = Some (str ''me!m@h''), m_com = str ''JOIN'', m_mids = [str ''#cc''], m_trail = None\<rparr>"
  obtain r where r: "gethostbyname (resolver demo_ienv) (dotted demo_name) rsv_start = Inr (True, r)"
    "host_addrs r = [10, 0, 0, 1] # [[10, 0, 0, 2]]"
    using demo_answer by (auto simp: demo_ienv_def)
  have st: "gets_attr demo_ienv" "sets_attr demo_ienv" "tcp_socket demo_ienv" by (simp_all add: demo_ienv_def)
  have "atol (str ''7000'') = 7000" by code_simp
  then have c: "tcp_connect demo_ienv [10, 0, 0, 1] (port_of (dotted demo_name # [str ''7000'']))"
    by (simp add: demo_ienv_def port_of_def)
  have t: "msg_text ?m = str '':me!m@h JOIN #cc''" by code_simp
  have ok: "msg_ok ?m"
    unfolding msg_ok_def t by (simp add: word_ok_def str_def msg_args_def MAXPARAMS_def)
  have m: "m_com ?m = str ''JOIN''" "m_prefix ?m = Some (str ''me!m@h'')" "msg_args ?m = [str ''#cc'']"
    by (simp_all add: msg_args_def)
  have p: "0x25 \<notin> set (str ''me!m@h'')" "0x25 \<notin> set (str ''#cc'')" "length (str ''me!m@h'') \<le> 200"
    "length (str ''#cc'') \<le> 200"
    by (simp_all add: str_def)
  have d: "concat demo_ds = msg_text ?m @ [13, 10]" "\<forall>d \<in> set demo_ds. length d \<le> IMAX"
    unfolding t by (simp_all add: demo_ds_def str_def IMAX_def)
  have l: "demo_line \<noteq> []" "hd demo_line \<noteq> 0x2f" "\<forall>c \<in> set demo_line. plain_key c" "length demo_line \<le> 77"
    by (simp_all add: demo_line_def str_def plain_key_def)
  have e: "session demo_ienv demo_ds demo_line"
  proof -
    have "length demo_ds = 2" "length demo_line = 5" by (simp_all add: demo_ds_def demo_line_def str_def)
    then show ?thesis by (simp add: session_def demo_ienv_def)
  qed
  from irc_session [OF st r c ok m p d l e] show ?thesis by (simp add: demo_line_def str_def)
qed

lemma irc_connects_witness:
  "\<exists>r. my_open demo_ienv [dotted demo_name, str ''7000''] irc_start =
    Inr ((), put (str ''connected'' @ [10]) (irc_start\<lparr>rsv_of := r\<rparr>))"
proof -
  have n: "name_ok demo_name" unfolding name_ok_def label_ok_def by code_simp
  have a: "addr_data (take 4 demo_rrs) = [10, 0, 0, 1] # [[10, 0, 0, 2]]" by code_simp
  have r: "resolver demo_ienv = demo_renv" "tcp_socket demo_ienv" "rsv_of irc_start = rsv_start"
    by (simp_all add: demo_ienv_def irc_start_def)
  have k: "\<not> inc_first demo_renv" "(1 :: nat) < 5" "\<forall>i < 1. reply demo_renv i = None"
    "reply demo_renv 1 = Some (reply_wire demo_head demo_qs demo_rrs [1, 2, 3])"
    by (simp_all add: demo_renv_def)
  have p: "atol (str ''7000'') = 7000" by code_simp
  show ?thesis
    using irc_connects [of demo_ienv, unfolded r(1), OF demo_asks n k demo_reply_ok a r(2,3), of "[str ''7000'']"]
    by (simp add: demo_ienv_def port_of_def p)
qed

text \<open>
  A numeric address on the command line ends the client at once: the resolver lets \<open>inet_pton\<close>
  write through the first entry of its list, which is still null.
\<close>

theorem irc_numeric_host:
  assumes "gets_attr env" "sets_attr env" "pton (resolver env) name = Some a"
  shows "\<exists>s'. firc_main env (name # args) irc_start = Some (Inl (In_resolver Null_write, s')) \<and> raw s'"
  using assms
  by (simp add: firc_main_def my_open_def gethostbyname_def Let_def mvto_def put_def irc_start_def rsv_start_def
      numeral_eq_Suc)

lemma irc_numeric_host_witness:
  "\<exists>s'. firc_main demo_ienv [str ''8.8.8.8''] irc_start = Some (Inl (In_resolver Null_write, s')) \<and> raw s'"
  by (rule irc_numeric_host [where a = "[8, 8, 8, 8]"]) (simp_all add: demo_ienv_def demo_renv_def)

end
