(* ===== verification/Firc_Inv.thy ===== *)
theory Firc_Inv
  imports Firc_Run
begin

text \<open>
  What holds of every run of the IRC client: its buffers and indices, the terminal mode at an exit,
  and that the network does not disturb the line that is being typed.
\<close>

section \<open>The network and the input line\<close>

text \<open>What an operation of the network side keeps.\<close>

definition net_frame :: "irc \<Rightarrow> irc \<Rightarrow> bool" where
  "net_frame s s' \<longleftrightarrow> iptr s' = iptr s \<and> scrl s' = scrl s \<and> raw s' = raw s \<and>
     take (iptr s) (ibuf s') = take (iptr s) (ibuf s) \<and>
     length (ibuf s') = length (ibuf s) \<and> length (obuf s') = length (obuf s) \<and>
     length (pbuf s') = length (pbuf s) \<and> length (param s') = length (param s) \<and>
     length (channel s') = length (channel s) \<and>
     (ppos s \<le> length (pbuf s) \<longrightarrow> ppos s' \<le> length (pbuf s)) \<and>
     (param_no s \<le> MAXPARAMS \<longrightarrow> param_no s' \<le> MAXPARAMS)"

definition keeps :: "irc \<Rightarrow> 'a fres \<Rightarrow> bool" where
  "keeps s r \<longleftrightarrow> (case r of
     Inl (e, s') \<Rightarrow> net_frame s s' \<and> (\<forall>n. e \<noteq> Exit n)
   | Inr (_, s') \<Rightarrow> net_frame s s')"

lemma net_frame_refl [simp]: "net_frame s s"
  by (simp add: net_frame_def)

lemma net_frame_trans: "net_frame a b \<Longrightarrow> net_frame b c \<Longrightarrow> net_frame a c"
  by (simp add: net_frame_def)

lemma keeps_simps [simp]:
  "keeps s (Inl (e, s')) \<longleftrightarrow> net_frame s s' \<and> (\<forall>n. e \<noteq> Exit n)"
  "keeps s (Inr (a, s')) \<longleftrightarrow> net_frame s s'"
  by (simp_all add: keeps_def)

lemma keeps_trans: "net_frame s t \<Longrightarrow> keeps t r \<Longrightarrow> keeps s r"
  by (auto simp: keeps_def intro: net_frame_trans split: sum.splits)

lemma keeps_bind:
  assumes "keeps s r" "\<And>a t. r = Inr (a, t) \<Longrightarrow> keeps t (f (a, t))"
  shows "keeps s (rbind r f)"
proof (cases r)
  case (Inl e)
  with assms(1) show ?thesis by (cases e) simp
next
  case (Inr x)
  obtain a t where x: "x = (a, t)" by (cases x)
  then show ?thesis using Inr assms by (auto intro: keeps_trans)
qed

lemma keeps_string_at: "keeps s (string_at b p s)"
  by (simp add: string_at_def split: option.splits)

lemma net_frame_put: "net_frame s (put t s)"
  by (simp add: net_frame_def put_def)

lemma keeps_printf: "keeps s (printf t s)"
  by (simp add: printf_def net_frame_put split: option.splits)

lemma keeps_iprint: "keeps s (iprint s)"
proof -
  have "net_frame s (mvto 24 0 s\<lparr>ibuf := (ibuf (mvto 24 0 s))[iptr (mvto 24 0 s) := 0]\<rparr>)"
    by (simp add: net_frame_def mvto_def put_def)
  then show ?thesis unfolding iprint_def Let_def
    by (rule keeps_trans) (auto intro!: keeps_bind keeps_string_at keeps_printf)
qed

lemma keeps_oprint: "keeps s (oprint s)"
proof -
  have "net_frame s (put [27, 0x4b] (mvto 24 0 s))" by (simp add: net_frame_def mvto_def put_def)
  then show ?thesis unfolding oprint_def Let_def
    by (rule keeps_trans) (auto intro!: keeps_bind keeps_string_at keeps_printf keeps_trans [OF net_frame_put keeps_iprint])
qed

lemma keeps_show_line: "keeps s (show_line t s)"
  unfolding show_line_def
  by (rule keeps_bind) (auto intro!: keeps_oprint simp: sprintf_obuf_def net_frame_def)

lemma keeps_skip: "keeps s (skip p s)"
  by (auto simp: skip_def net_frame_def Let_def split: option.splits)

lemma skip_param_no: "skip p s = Inr (q, s') \<Longrightarrow> param_no s' = param_no s"
  by (auto simp: skip_def Let_def split: option.splits if_splits)

lemma keeps_params_loop: "param_no s + n \<le> MAXPARAMS \<Longrightarrow> keeps s (params_loop n p s)"
proof (induction n arbitrary: p s)
  case 0
  then show ?case by (subst params_loop.simps) simp
next
  case (Suc n)
  have f: "net_frame s (add_param q s)" for q using Suc.prems by (simp add: net_frame_def add_param_def)
  have "keeps s (rbind (skip p (add_param p s)) (\<lambda>(p, s). params_loop n p s))"
  proof (rule keeps_trans [OF f keeps_bind [OF keeps_skip]])
    fix q t assume "skip p (add_param p s) = Inr (q, t)"
    then have "param_no t + n \<le> MAXPARAMS" using Suc.prems skip_param_no by (fastforce simp: add_param_def)
    then show "keeps t (case (q, t) of (p, s) \<Rightarrow> params_loop n p s)" using Suc.IH by simp
  qed
  then show ?case using f by (subst params_loop.simps) simp
qed

lemma keeps_parse_proto: "keeps s (parse_proto s)"
proof -
  define s0 where "s0 = s\<lparr>param_no := 0, nickname := None, com := None, mes := None\<rparr>"
  have f: "net_frame s s0" by (simp add: s0_def net_frame_def)
  have n0: "param_no s0 = 0" by (simp add: s0_def)
  have first: "keeps s0 r \<and> (\<forall>p t. r = Inr (p, t) \<longrightarrow> param_no t = 0)"
    if "r = (if pbuf s0 ! 0 = 0x3a then skip 1 (s0\<lparr>nickname := Some 1\<rparr>) else Inr (0, s0))" for r
  proof -
    have "net_frame s0 (s0\<lparr>nickname := Some 1\<rparr>)" by (simp add: net_frame_def)
    then have "keeps s0 (skip 1 (s0\<lparr>nickname := Some 1\<rparr>))" by (rule keeps_trans [OF _ keeps_skip])
    moreover have "param_no t = 0" if "skip 1 (s0\<lparr>nickname := Some 1\<rparr>) = Inr (p, t)" for p t
      using skip_param_no [OF that] n0 by simp
    ultimately show ?thesis using that n0 by auto
  qed
  have tail: "keeps t (parse_tail p t)" if n: "param_no t = 0" for p t
  proof -
    have "net_frame t (t\<lparr>com := Some p\<rparr>)" by (simp add: net_frame_def)
    moreover have "keeps u (rbind (string_at (pbuf u) (com u) u) (\<lambda>(c, s).
        if c = str ''005'' then Inr (True, s)
        else rbind (params_loop MAXPARAMS q s) (\<lambda>(_, s). Inr (False, s))))"
      if "skip p (t\<lparr>com := Some p\<rparr>) = Inr (q, u)" for q u
    proof (rule keeps_bind [OF keeps_string_at])
      fix c v assume "string_at (pbuf u) (com u) u = Inr (c, v)"
      then have "v = u" by (auto simp: string_at_def split: option.splits if_splits)
      then have "param_no v + MAXPARAMS \<le> MAXPARAMS" using skip_param_no [OF that] n by simp
      then show "keeps v (case (c, v) of (c, s) \<Rightarrow> if c = str ''005'' then Inr (True, s)
          else rbind (params_loop MAXPARAMS q s) (\<lambda>(_, s). Inr (False, s)))"
        by (auto intro!: keeps_bind keeps_params_loop)
    qed
    ultimately show ?thesis unfolding parse_tail_def
      by (intro keeps_trans [OF _ keeps_bind [OF keeps_skip]]) (simp_all only: prod.case)
  qed
  have "parse_proto s = rbind (if pbuf s0 ! 0 = 0x3a then skip 1 (s0\<lparr>nickname := Some 1\<rparr>) else Inr (0, s0))
      (\<lambda>(p, s). parse_tail p s)"
    by (simp add: parse_proto_def parse_tail_def s0_def)
  moreover have "keeps s0 (rbind (if pbuf s0 ! 0 = 0x3a then skip 1 (s0\<lparr>nickname := Some 1\<rparr>) else Inr (0, s0))
      (\<lambda>(p, s). parse_tail p s))"
    using first tail by (intro keeps_bind) auto
  ultimately show ?thesis by (simp only: keeps_trans [OF f])
qed

lemma keeps_strcpy_channel: "keeps s (strcpy_channel t s)"
  by (auto simp: strcpy_channel_def net_frame_def)

lemma keeps_handle: "keeps s (handle env s)"
proof -
  have c: "keeps s (show_line t (set_fcolor h s))" for t h s
    using keeps_trans [OF net_frame_put keeps_show_line] by (simp add: set_fcolor_def)
  have n: "keeps s (Inr ((), s\<lparr>net := x\<rparr>))" for x s by (simp add: net_frame_def)
  have m: "keeps s (rbind (string_at b p (set_fcolor h s)) (\<lambda>(t, s). show_line (f t) s))" for s b p h f
  proof -
    have "net_frame s (set_fcolor h s)" by (simp add: set_fcolor_def net_frame_put)
    then show ?thesis
      by (rule keeps_trans) (rule keeps_bind [OF keeps_string_at], simp only: prod.case keeps_show_line)
  qed
  show ?thesis
    unfolding handle_def Let_def
    by (rule keeps_bind [OF keeps_string_at])
      (simp only: prod.case, intro if_split [where P = "keeps _", THEN iffD2] conjI impI n keeps_bind [OF keeps_string_at]
        keeps_show_line m | simp only: prod.case | rule keeps_bind [OF keeps_strcpy_channel])+
qed

lemma keeps_fill_proto: "keeps s (fill_proto env c s)"
proof -
  have "keeps s (rbind (proc_proto env (s\<lparr>pbuf := (pbuf s)[ppos s - 1 := 0]\<rparr>)) (\<lambda>(_, s). Inr ((), s\<lparr>ppos := 0\<rparr>)))"
  proof (rule keeps_bind)
    have "net_frame s (s\<lparr>pbuf := (pbuf s)[ppos s - 1 := 0]\<rparr>)" by (simp add: net_frame_def)
    then show "keeps s (proc_proto env (s\<lparr>pbuf := (pbuf s)[ppos s - 1 := 0]\<rparr>))"
      unfolding proc_proto_def
      by (rule keeps_trans) (rule keeps_bind [OF keeps_parse_proto], simp add: keeps_handle)
  qed (simp add: net_frame_def)
  then show ?thesis by (simp add: fill_proto_def net_frame_def)
qed

lemma keeps_fill_all: "keeps s (fill_all env d s)"
proof (induction d arbitrary: s)
  case (Cons c d)
  then show ?case by (auto intro!: keeps_bind keeps_fill_proto)
qed simp

lemma keeps_do_network: "keeps s (do_network env r s)"
  by (auto simp: do_network_def Let_def split: option.splits intro!: keeps_bind keeps_fill_all)

section \<open>Every run\<close>

text \<open>The buffers have their lengths and the indices are inside of them.\<close>

definition irc_wf :: "irc \<Rightarrow> bool" where
  "irc_wf s \<longleftrightarrow> length (ibuf s) = IMAX \<and> length (obuf s) = IMAX \<and> length (pbuf s) = IMAX \<and>
     length (param s) = MAXPARAMS \<and> length (channel s) = 256 \<and> iptr s < IMAX \<and> ppos s \<le> IMAX \<and>
     param_no s \<le> MAXPARAMS"

definition safe :: "'a fres \<Rightarrow> bool" where
  "safe r \<longleftrightarrow> (case r of
     Inl (e, s) \<Rightarrow> irc_wf s \<and> (\<forall>n. e = Exit n \<longrightarrow> \<not> raw s)
   | Inr (_, s) \<Rightarrow> irc_wf s)"

lemma safe_simps [simp]:
  "safe (Inl (e, s)) \<longleftrightarrow> irc_wf s \<and> (\<forall>n. e = Exit n \<longrightarrow> \<not> raw s)"
  "safe (Inr (a, s)) \<longleftrightarrow> irc_wf s"
  by (simp_all add: safe_def)

lemma safe_bind: "safe r \<Longrightarrow> (\<And>a s. r = Inr (a, s) \<Longrightarrow> irc_wf s \<Longrightarrow> safe (f (a, s))) \<Longrightarrow> safe (rbind r f)"
  by (auto simp: safe_def rbind_def split: sum.splits)

lemma wf_frame: "net_frame s s' \<Longrightarrow> irc_wf s \<Longrightarrow> irc_wf s'"
  by (auto simp: net_frame_def irc_wf_def)

lemma keeps_safe: "keeps s r \<Longrightarrow> irc_wf s \<Longrightarrow> safe r"
  by (auto simp: keeps_def safe_def intro: wf_frame split: sum.splits)

lemma safe_my_exit: "irc_wf s \<Longrightarrow> safe (my_exit n s)"
  by (simp add: my_exit_def irc_wf_def)

lemma wf_sendto: "irc_wf s \<Longrightarrow> irc_wf (sendto t s)"
  by (simp add: sendto_def irc_wf_def)

lemma safe_messproc: "irc_wf s \<Longrightarrow> safe (messproc s)"
  unfolding messproc_def Let_def
  by (auto intro!: safe_bind keeps_safe [OF keeps_string_at] keeps_safe [OF keeps_show_line] safe_my_exit wf_sendto)

lemma wf_put: "irc_wf s \<Longrightarrow> irc_wf (put t s)"
  by (rule wf_frame [OF net_frame_put])

lemma safe_inproc: "irc_wf s \<Longrightarrow> safe (inproc env k c s)"
proof -
  assume s: "irc_wf s"
  show ?thesis
  proof (cases "iptr s = IMAX - 1 \<or> c = 8 \<or> c = 10")
    case True
    with s show ?thesis by (auto simp: inproc_def irc_wf_def put_def Let_def)
  next
    case False
    let ?s = "s\<lparr>ibuf := (ibuf s)[iptr s := c], iptr := iptr s + 1\<rparr>"
    have w: "irc_wf ?s" "irc_wf (?s\<lparr>scrl := scrl s + 1\<rparr>)" using s False by (auto simp: irc_wf_def IMAX_def)
    have "inproc env k c s = (if 78 < iptr s + 1 then rbind (iprint (?s\<lparr>scrl := scrl s + 1\<rparr>)) (\<lambda>(_, s). Inr (False, s))
        else Inr (False, put [c] ?s))"
      using False by (simp add: inproc_def Let_def)
    moreover have "safe (rbind (iprint (?s\<lparr>scrl := scrl s + 1\<rparr>)) (\<lambda>(_, s). Inr (False, s)))"
      by (rule safe_bind [OF keeps_safe [OF keeps_iprint w(2)]]) simp
    ultimately show ?thesis using wf_put [OF w(1)] by simp
  qed
qed

lemma safe_turn: "irc_wf s \<Longrightarrow> safe (turn env k s)"
  unfolding turn_def Let_def
  by (auto intro!: safe_bind safe_inproc safe_messproc keeps_safe [OF keeps_do_network])

lemma safe_main_loop:
  assumes "main_loop env k s = Some r" "irc_wf s"
  shows "safe r"
proof -
  have "irc_wf s \<longrightarrow> safe r"
  proof (rule main_loop.raw_induct [where P = "\<lambda>env k s r. irc_wf s \<longrightarrow> safe r", OF _ assms(1)])
    fix loop :: "ienv \<Rightarrow> nat \<Rightarrow> irc \<Rightarrow> unit fres option" and env k s r
    assume IH: "\<And>env k s r. loop env k s = Some r \<Longrightarrow> irc_wf s \<longrightarrow> safe r"
      and r: "(case turn env k s of Inl e \<Rightarrow> Some (Inl e)
        | Inr (c, s) \<Rightarrow> if c = 27 then Some (Inr ((), s)) else loop env (k + 1) s) = Some r"
    show "irc_wf s \<longrightarrow> safe r"
    proof
      assume "irc_wf s"
      then have t: "safe (turn env k s)" by (rule safe_turn)
      show "safe r"
      proof (cases "turn env k s")
        case (Inl e)
        with t r show ?thesis by (cases e) auto
      next
        case (Inr x)
        with t r IH show ?thesis by (cases x) (auto split: if_splits)
      qed
    qed
  qed
  with assms(2) show ?thesis by blast
qed

lemma safe_my_open: "irc_wf s \<Longrightarrow> safe (my_open env args s)"
proof -
  assume s: "irc_wf s"
  have w: "irc_wf (s\<lparr>rsv_of := r\<rparr>)" "irc_wf (s\<lparr>rsv_of := r, diag := d\<rparr>)" for r d using s by (simp_all add: irc_wf_def)
  show ?thesis unfolding my_open_def Let_def
    using s w wf_put [OF w(1)] by (auto intro!: safe_my_exit split: list.splits sum.splits option.splits prod.splits)
qed

text \<open>C21:
  Whatever is typed and whatever the network, the name server and the terminal do, the buffers of
  the client keep their lengths and its indices stay inside, and if the program ends with an exit, the
  terminal has its old mode again.  The overruns that are left are stops of the model.
\<close>

theorem irc_typed:
  assumes "irc_wf s" "\<not> raw s" "firc_main env args s = Some r"
  shows "\<exists>e s'. r = Inl (e, s') \<and> irc_wf s' \<and> (\<forall>n. e = Exit n \<longrightarrow> \<not> raw s')"
proof -
  define s0 where "s0 = mvto 23 0 (put [27, 0x48, 27, 0x4a] (s\<lparr>raw := True\<rparr>))"
  have w0: "irc_wf s0" unfolding s0_def mvto_def by (intro wf_put) (use assms(1) in \<open>simp add: irc_wf_def\<close>)
  let ?o = "rbind (my_open env args s0) (\<lambda>(_, s). show_line (str ''Opened connection.'') s)"
  have o: "safe ?o" using w0 by (auto intro!: safe_bind safe_my_open keeps_safe [OF keeps_show_line])
  have "safe r \<and> (\<exists>x. r = Inl x)"
  proof (cases "gets_attr env \<and> sets_attr env")
    case False
    then show ?thesis using assms by (auto simp: firc_main_def irc_wf_def split: if_splits)
  next
    case True
    have f: "firc_main env args s = (case ?o of Inl e \<Rightarrow> Some (Inl e)
        | Inr (_, s) \<Rightarrow> (case main_loop env 0 s of None \<Rightarrow> None | Some r \<Rightarrow> Some (rbind r (\<lambda>(_, s). my_exit 0 s))))"
      using True by (simp add: firc_main_def Let_def s0_def)
    show ?thesis
    proof (cases ?o)
      case (Inl e)
      then have "r = ?o" using assms(3) unfolding f by simp
      then show ?thesis using o Inl by (metis)
    next
      case (Inr x)
      then obtain s1 where s1: "?o = Inr ((), s1)" by (cases x) auto
      then obtain q where q: "main_loop env 0 s1 = Some q" "r = rbind q (\<lambda>(_, s). my_exit 0 s)"
        using assms(3) unfolding f by (auto split: option.splits)
      have "safe q" using safe_main_loop [OF q(1)] o s1 by simp
      then have "safe r" unfolding q(2) by (rule safe_bind) (simp add: safe_my_exit)
      then show ?thesis using q(2) by (cases q) (auto simp: my_exit_def)
    qed
  qed
  then show ?thesis by (auto simp: safe_def)
qed

lemma irc_typed_witness:
  "\<exists>s'. firc_main demo_ienv [dotted demo_name] irc_start = Some (Inl (Exit 1, s')) \<and> irc_wf s' \<and> \<not> raw s'"
proof -
  obtain r where r: "gethostbyname demo_renv (dotted demo_name) rsv_start = Inr (True, r)"
    "host_addrs r = [10, 0, 0, 1] # [[10, 0, 0, 2]]"
    using demo_answer by blast
  from host_first [OF r(2)] obtain j where j: "hlist r ! 0 = Some j" by blast
  have "\<exists>s'. firc_main demo_ienv [dotted demo_name] irc_start = Some (Inl (Exit 1, s'))"
    using r(1) j by (simp add: firc_main_def my_open_def my_exit_def Let_def demo_ienv_def port_of_def
        mvto_def put_def irc_start_def)
  then obtain s' where s': "firc_main demo_ienv [dotted demo_name] irc_start = Some (Inl (Exit 1, s'))" by blast
  have "irc_wf irc_start" "\<not> raw irc_start" by (simp_all add: irc_wf_def irc_start_def IMAX_def)
  from irc_typed [OF this s'] s' show ?thesis by auto
qed

section \<open>Typing while the network is busy\<close>

text \<open>The characters of \<open>n\<close> turns.\<close>

definition key_text :: "ienv \<Rightarrow> nat \<Rightarrow> nat \<Rightarrow> bytes" where
  "key_text env k n = concat (map (\<lambda>i. case keys env i of Key c \<Rightarrow> [c] | _ \<Rightarrow> []) [k..<k + n])"

lemma key_text_Suc:
  "key_text env k (Suc n) = (case keys env k of Key c \<Rightarrow> [c] | _ \<Rightarrow> []) @ key_text env (k + 1) n"
  by (simp add: key_text_def upt_rec)

text \<open>What has been typed.\<close>

definition line_of :: "irc \<Rightarrow> bytes" where
  "line_of s = take (iptr s) (ibuf s)"

lemma frame_line: "net_frame s s' \<Longrightarrow> line_of s' = line_of s \<and> iptr s' = iptr s"
  by (simp add: net_frame_def line_of_def)

lemma inproc_adds:
  assumes c: "plain_key c" and s: "irc_wf s" "iptr s + 1 < IMAX" and r: "inproc env k c s = Inr (nl, t)"
  shows "\<not> nl \<and> iptr t = iptr s + 1 \<and> line_of t = line_of s @ [c]"
proof -
  let ?s = "s\<lparr>ibuf := (ibuf s)[iptr s := c], iptr := iptr s + 1\<rparr>"
  have "take (iptr s + 1) ((ibuf s)[iptr s := c]) = take (iptr s) (ibuf s) @ [c]"
    using s by (simp add: irc_wf_def take_Suc_conv_app_nth)
  then have l: "line_of (?s\<lparr>scrl := scrl s + 1\<rparr>) = line_of s @ [c]" "line_of (put [c] ?s) = line_of s @ [c]"
    by (simp_all add: line_of_def put_def)
  have i: "inproc env k c s = (if 78 < iptr s + 1 then rbind (iprint (?s\<lparr>scrl := scrl s + 1\<rparr>)) (\<lambda>(_, s). Inr (False, s))
      else Inr (False, put [c] ?s))"
    using c s(2) by (auto simp: inproc_def Let_def plain_key_def IMAX_def)
  show ?thesis
  proof (cases "78 < iptr s + 1")
    case True
    with r i obtain u where u: "iprint (?s\<lparr>scrl := scrl s + 1\<rparr>) = Inr (u, t)" "\<not> nl"
      by (auto simp: rbind_def split: sum.splits)
    then have "net_frame (?s\<lparr>scrl := scrl s + 1\<rparr>) t" using keeps_iprint [of "?s\<lparr>scrl := scrl s + 1\<rparr>"] by simp
    from frame_line [OF this] show ?thesis using u(2) l(1) by simp
  next
    case False
    with r i have "\<not> nl" "t = put [c] ?s" by auto
    then show ?thesis using l(2) by (simp add: put_def)
  qed
qed

lemma turn_line:
  assumes s: "irc_wf s" and t: "turn env k s = Inr (c, t)"
    and k: "\<forall>c \<in> set (key_text env k 1). plain_key c" "iptr s + length (key_text env k 1) < IMAX"
  shows "irc_wf t \<and> iptr t = iptr s + length (key_text env k 1) \<and>
    line_of t = line_of s @ key_text env k 1"
proof -
  let ?k = "key_text env k 1"
  have w: "irc_wf t" using safe_turn [OF s, of env k] t by simp
  obtain u where u: "(if 0 < mygetc (keys env k)
      then rbind (inproc env k (word_of_int (mygetc (keys env k))) s) (\<lambda>(nl, s). if nl then messproc s else Inr ((), s))
      else Inr ((), s)) = Inr ((), u)" "net_frame u t"
    using t keeps_do_network by (fastforce simp: turn_def Let_def rbind_def keeps_def split: sum.splits if_splits)
  have "iptr u = iptr s + length ?k \<and> line_of u = line_of s @ ?k"
  proof (cases "keys env k")
    case (Key x)
    then have x: "?k = [x]" "plain_key x" "mygetc (keys env k) = sint x" "0 < sint x"
      using k by (simp_all add: key_text_def mygetc_def plain_key_def)
    then obtain nl v where v: "inproc env k x s = Inr (nl, v)" "(if nl then messproc v else Inr ((), v)) = Inr ((), u)"
      using u(1) by (auto simp: rbind_def split: sum.splits)
    have "iptr s + 1 < IMAX" using k(2) x(1) by simp
    from inproc_adds [OF x(2) s this v(1)] v(2) x(1) show ?thesis by auto
  qed (use u(1) in \<open>simp_all add: mygetc_def key_text_def\<close>)
  with w frame_line [OF u(2)] show ?thesis by simp
qed

text \<open>C35:
  What is typed is not disturbed by the network: after any number of turns in which plain
  characters were typed, while the server sent whatever it liked in between, the input line is what
  it was followed by these characters, if nothing has stopped the client.
\<close>

theorem irc_typing_kept:
  assumes "irc_wf s" "turns env n k s = Inr ((), t)" "\<forall>c \<in> set (key_text env k n). plain_key c"
    "iptr s + length (key_text env k n) < IMAX"
  shows "iptr t = iptr s + length (key_text env k n) \<and>
    line_of t = line_of s @ key_text env k n"
  using assms
proof (induction n arbitrary: k s)
  case 0
  then show ?case by (simp add: key_text_def)
next
  case (Suc n)
  from Suc.prems(2) obtain c u where u: "turn env k s = Inr (c, u)" "turns env n (k + 1) u = Inr ((), t)"
    by (auto simp: rbind_def split: sum.splits)
  have kt: "key_text env k (Suc n) = key_text env k 1 @ key_text env (k + 1) n"
    using key_text_Suc [of env k n] key_text_Suc [of env k 0] by (simp add: key_text_def [of env _ 0])
  have h: "irc_wf u \<and> iptr u = iptr s + length (key_text env k 1) \<and>
      line_of u = line_of s @ key_text env k 1"
    using Suc.prems(3,4) unfolding kt by (intro turn_line [OF Suc.prems(1) u(1)]) auto
  have "iptr t = iptr u + length (key_text env (k + 1) n) \<and>
      line_of t = line_of u @ key_text env (k + 1) n"
    using h Suc.prems(3,4) unfolding kt by (intro Suc.IH [OF _ u(2)]) auto
  then show ?case using h unfolding kt by simp
qed

text \<open>Two characters with a ping between them.\<close>

definition demo_busy :: ienv where
  "demo_busy = demo_ienv\<lparr>keys := (\<lambda>k. if k = 0 then Key 0x61 else if k = 2 then Key 0x62 else No_key),
     recv := (\<lambda>k. if k = 1 then Some (str ''PING :x'' @ [13, 10]) else None)\<rparr>"

lemma irc_typing_kept_witness:
  "\<exists>t. turns demo_busy 3 0 irc_start = Inr ((), t) \<and> net t = str ''PONG'' @ [13, 10] \<and> line_of t = str ''ab''"
proof -
  let ?m = "\<lparr>m_prefix = None, m_com = str ''PING'', m_mids = [], m_trail = Some (str ''x'')\<rparr>"
  have t: "msg_text ?m = str ''PING :x''" by code_simp
  have ok: "msg_ok ?m" unfolding msg_ok_def t by (simp add: word_ok_def str_def msg_args_def MAXPARAMS_def)
  have l0: "length (ibuf irc_start) = IMAX" "iptr irc_start = 0" by (simp_all add: irc_start_def)
  have k0: "turns demo_busy (length [0x61 :: u8]) 0 irc_start = Inr ((), typed [0x61] irc_start)"
    by (rule turns_type) (simp_all add: demo_busy_def plain_key_def l0)
  let ?a = "typed [0x61] irc_start"
  have ra: "ready ?a" using start_ready(1) by (simp add: ready_def typed_def irc_start_def IMAX_def)
  let ?ds = "[str ''PING :x'' @ [13, 10]]"
  have "concat ?ds = msg_text ?m @ [13, 10]" "\<forall>d \<in> set ?ds. length d \<le> IMAX" unfolding t by (simp_all add: str_def IMAX_def)
  from irc_ping [OF ok _ ra this, of demo_busy] obtain b where
    b: "net_all demo_busy ?ds ?a = Inr ((), b)" "net b = net ?a @ str ''PONG'' @ [13, 10]" "same_line ?a b" "ready b"
    by auto
  have k1: "turns demo_busy (length ?ds) 1 ?a = Inr ((), b)"
    unfolding b(1) [symmetric] by (rule turns_net) (simp add: demo_busy_def mygetc_def)
  have lb: "iptr b = 1" "length (ibuf b) = IMAX" using b(3,4) by (simp_all add: same_line_def ready_def typed_def l0)
  have k2: "turns demo_busy (length [0x62 :: u8]) 2 b = Inr ((), typed [0x62] b)"
    by (rule turns_type) (simp_all add: demo_busy_def plain_key_def lb)
  have all: "turns demo_busy 3 0 irc_start = Inr ((), typed [0x62] b)"
    using turns_add [of demo_busy 1 2 0 irc_start] turns_add [of demo_busy 1 1 1 ?a] k0 k1 k2
    by (simp add: numeral_3_eq_3 numeral_2_eq_2 del: turns.simps)
  have kt: "key_text demo_busy 0 3 = str ''ab''" by (simp add: key_text_def demo_busy_def str_def upt_rec)
  have w: "irc_wf irc_start" by (simp add: irc_wf_def irc_start_def IMAX_def)
  have p: "\<forall>c \<in> set (key_text demo_busy 0 3). plain_key c" "iptr irc_start + length (key_text demo_busy 0 3) < IMAX"
    unfolding kt by (simp_all add: str_def plain_key_def irc_start_def IMAX_def)
  from irc_typing_kept [OF w all p] have "line_of (typed [0x62] b) = str ''ab''"
    unfolding kt by (elim conjE, simp only:) (simp add: line_of_def irc_start_def)
  moreover have "net (typed [0x62] b) = str ''PONG'' @ [13, 10]"
    using b(2) by (simp add: typed_def irc_start_def)
  ultimately show ?thesis using all by blast
qed

end
