(* ===== verification/Firc_Keys.thy ===== *)
theory Firc_Keys
  imports Firc_Inv
begin

text \<open>
  Two weaknesses of the IRC client's input line: a full line takes no more keys, not even the one
  that ends it, and going back and forth at the edge of the screen moves the shown part of the line
  out of its buffer.
\<close>

section \<open>A full line\<close>

lemma handle_keys: "handle (env\<lparr>keys := f\<rparr>) s = handle env s"
proof -
  have "junk_c (env\<lparr>keys := f\<rparr>) = junk_c env" by simp
  then show ?thesis unfolding handle_def by (simp only:)
qed

lemma fill_all_keys: "fill_all (env\<lparr>keys := f\<rparr>) d s = fill_all env d s"
proof (induction d arbitrary: s)
  case (Cons c d)
  have "fill_proto (env\<lparr>keys := f\<rparr>) c s = fill_proto env c s"
    unfolding fill_proto_def proc_proto_def handle_keys ..
  then show ?case unfolding fill_all.simps Cons.IH by (simp only:)
qed simp

lemma do_network_keys: "do_network (env\<lparr>keys := f\<rparr>) r s = do_network env r s"
  unfolding do_network_def fill_all_keys ..

lemma turn_full:
  assumes "iptr s = IMAX - 1"
  shows "turn env k s = rbind (do_network env (recv env k) s) (\<lambda>(_, s). Inr (mygetc (keys env k), s))"
  using assms by (simp add: turn_def inproc_def Let_def)

text \<open>
  Once the line has 511 characters, the keyboard is dead: any further session is the one without
  keys, so that neither Enter nor the deletion of a character has an effect, and the line is not sent.
\<close>

theorem irc_full_line:
  assumes "iptr s = IMAX - 1"
  shows "turns env n k s = turns (env\<lparr>keys := (\<lambda>_. No_key)\<rparr>) n k s \<and>
    (\<forall>t. turns env n k s = Inr ((), t) \<longrightarrow> iptr t = IMAX - 1)"
  using assms
proof (induction n arbitrary: k s)
  case (Suc n)
  let ?env = "env\<lparr>keys := (\<lambda>_. No_key)\<rparr>"
  have t: "turns e (Suc n) k s = rbind (do_network env (recv env k) s) (\<lambda>(_, s). turns e n (k + 1) s)"
    if "e = env \<or> e = ?env" for e
  proof -
    have "do_network e (recv e k) s = do_network env (recv env k) s" using that by (auto simp: do_network_keys)
    then show ?thesis using turn_full [OF Suc.prems, of e k] by (cases "do_network env (recv env k) s") auto
  qed
  show ?case
  proof (cases "do_network env (recv env k) s")
    case (Inl x)
    with t show ?thesis by simp
  next
    case (Inr x)
    then obtain b u where u: "do_network env (recv env k) s = Inr (b, u)" by (cases x) auto
    then have "iptr u = IMAX - 1"
      using keeps_do_network [of s env "recv env k"] Suc.prems by (simp add: net_frame_def)
    from Suc.IH [OF this, of "k + 1"] t u show ?thesis by simp
  qed
qed simp

lemma irc_full_line_witness:
  "turns demo_ienv 9 0 (irc_start\<lparr>iptr := 511\<rparr>) =
   turns (demo_ienv\<lparr>keys := (\<lambda>_. No_key)\<rparr>) 9 0 (irc_start\<lparr>iptr := 511\<rparr>)"
proof -
  have "iptr (irc_start\<lparr>iptr := 511\<rparr>) = IMAX - 1" by (simp add: IMAX_def)
  from irc_full_line [OF this, of demo_ienv 9 0] show ?thesis by blast
qed

section \<open>The shown part of the line\<close>

text \<open>A line of 78 characters, the last byte that was typed behind it, and zeros.\<close>

definition edge :: "bytes \<Rightarrow> nat \<Rightarrow> irc \<Rightarrow> bool" where
  "edge l j s \<longleftrightarrow> length l = 78 \<and> 0x25 \<notin> set l \<and> iptr s = 78 \<and> scrl s = j \<and>
     (\<exists>y. ibuf s = l @ y # replicate 433 0)"

lemma c_str_subset: "set (c_str b) \<subseteq> set b"
  by (auto simp: c_str_def dest: set_takeWhileD)

lemma edge_key:
  assumes e: "edge l j s" and x: "plain_key x" and k: "keys env k = Key x" "recv env k = None"
  shows "j < 511 \<Longrightarrow> \<exists>s'. turn env k s = Inr (sint x, s') \<and> iptr s' = 79 \<and> scrl s' = j + 1 \<and>
      ibuf s' = l @ x # replicate 433 0"
    and "511 \<le> j \<Longrightarrow> \<exists>s'. turn env k s = Inl (Overrun, s')"
proof -
  define b where "b = l @ x # replicate 433 (0 :: u8)"
  define s1 where "s1 = mvto 24 0 (s\<lparr>iptr := 79, scrl := j + 1\<rparr>)\<lparr>ibuf := b\<rparr>"
  from e obtain y where y: "ibuf s = l @ y # replicate 433 0" "length l = 78" "0x25 \<notin> set l" "iptr s = 78" "scrl s = j"
    by (auto simp: edge_def)
  have "(ibuf s)[iptr s := x] = b" using y by (simp add: b_def list_update_append)
  then have i: "inproc env k x s = rbind (iprint (s\<lparr>ibuf := b, iptr := 79, scrl := j + 1\<rparr>)) (\<lambda>(_, s). Inr (False, s))"
    using x y by (simp add: inproc_def plain_key_def IMAX_def)
  have z: "replicate 433 (0 :: u8) = 0 # replicate 432 0" using replicate_Suc [of 432 "0 :: u8"] by simp
  then have "b[79 := 0] = b" using y(2) by (simp add: b_def list_update_append)
  then have p: "iprint (s\<lparr>ibuf := b, iptr := 79, scrl := j + 1\<rparr>) =
      rbind (string_at b (Some (j + 1)) s1) (\<lambda>(t, s). printf t s)"
    by (simp add: iprint_def s1_def mvto_def put_def)
  have t: "turn env k s = rbind (rbind (iprint (s\<lparr>ibuf := b, iptr := 79, scrl := j + 1\<rparr>)) (\<lambda>(_, s). Inr ((), s)))
      (\<lambda>(_, s). Inr (sint x, s))"
    using turn_key_only [OF k] x
    by (cases "iprint (s\<lparr>ibuf := b, iptr := 79, scrl := j + 1\<rparr>)") (auto simp: i plain_key_def)
  show "\<exists>s'. turn env k s = Inr (sint x, s') \<and> iptr s' = 79 \<and> scrl s' = j + 1 \<and> ibuf s' = l @ x # replicate 433 0"
    if j: "j < 511"
  proof -
    have "b = (l @ x # replicate 432 0) @ [0]" by (simp add: b_def z replicate_append_same)
    moreover have "length (l @ x # replicate 432 0) = 511" using y(2) by simp
    ultimately have "drop (j + 1) b = drop (j + 1) (l @ x # replicate 432 0) @ [0]" using j by (simp only: drop_append) simp
    then have "0 \<in> set (drop (j + 1) b)" by simp
    moreover have "0x25 \<notin> set b" using x y(3) by (auto simp: b_def plain_key_def)
    then have "0x25 \<notin> set (c_str (drop (j + 1) b))" using c_str_subset set_drop_subset by fastforce
    then have "fmt_text (c_str (drop (j + 1) b)) = Some (c_str (drop (j + 1) b))" by (rule fmt_text_plain)
    ultimately show ?thesis unfolding t p by (simp add: string_at_def printf_def s1_def mvto_def put_def b_def)
  qed
  show "\<exists>s'. turn env k s = Inl (Overrun, s')" if "511 \<le> j"
  proof -
    have "drop (j + 1) b = []" using that y(2) by (simp add: b_def)
    then show ?thesis unfolding t p by (simp add: string_at_def)
  qed
qed

lemma turn_back:
  assumes "keys env k = Key 8" "recv env k = None" "iptr s = 79"
  shows "\<exists>s'. turn env k s = Inr (8, s') \<and> iptr s' = 78 \<and> scrl s' = scrl s \<and> ibuf s' = ibuf s"
  using turn_key_only [OF assms(1,2)] assms(3) by (simp add: inproc_def IMAX_def put_def Let_def)

lemma edge_pairs:
  assumes "edge l j s" "plain_key x" "\<forall>i < 2 * n. recv env (k + i) = None \<and> keys env (k + i) = Key (if even i then x else 8)"
    "j + n \<le> 511"
  shows "\<exists>s'. turns env (2 * n) k s = Inr ((), s') \<and> edge l (j + n) s'"
  using assms
proof (induction n arbitrary: j k s)
  case (Suc n)
  have k: "keys env k = Key x" "recv env k = None" "keys env (k + 1) = Key 8" "recv env (k + 1) = None"
    using spec [OF Suc.prems(3), of 0] spec [OF Suc.prems(3), of 1] by auto
  obtain s1 where s1: "turn env k s = Inr (sint x, s1)" "iptr s1 = 79" "scrl s1 = j + 1" "ibuf s1 = l @ x # replicate 433 0"
    using edge_key(1) [OF Suc.prems(1,2) k(1,2)] Suc.prems(4) by auto
  obtain s2 where s2: "turn env (k + 1) s1 = Inr (8, s2)" "iptr s2 = 78" "scrl s2 = j + 1" "ibuf s2 = ibuf s1"
    using turn_back [OF k(3,4) s1(2)] s1(3) by auto
  have e: "edge l (j + 1) s2" using Suc.prems(1) s1 s2 by (auto simp: edge_def)
  have "\<forall>i < 2 * n. recv env (k + 2 + i) = None \<and> keys env (k + 2 + i) = Key (if even i then x else 8)"
  proof (intro allI impI)
    fix i assume "i < 2 * n"
    then show "recv env (k + 2 + i) = None \<and> keys env (k + 2 + i) = Key (if even i then x else 8)"
      using spec [OF Suc.prems(3), of "i + 2"] by (simp add: add.assoc add.commute)
  qed
  from Suc.IH [OF e Suc.prems(2) this] Suc.prems(4) obtain s3 where
    "turns env (2 * n) (k + 2) s2 = Inr ((), s3)" "edge l (j + 1 + n) s3" by auto
  with s1(1) s2(1) show ?case by (simp add: numeral_2_eq_2)
qed simp

text \<open>
  Typing a character at the 79th column and deleting it again moves the start of the shown part
  by one every time, and nothing moves it back: with the 512th time it is behind the buffer, and the
  client prints what happens to be there.
\<close>

theorem irc_scroll_runs_off:
  assumes "edge l 0 s" "plain_key x"
    "\<forall>i < 1023. recv env (k + i) = None \<and> keys env (k + i) = Key (if even i then x else 8)"
  shows "\<exists>s'. turns env 1023 k s = Inl (Overrun, s')"
proof -
  have "\<forall>i < 2 * 511. recv env (k + i) = None \<and> keys env (k + i) = Key (if even i then x else 8)"
    using assms(3) by simp
  from edge_pairs [OF assms(1,2) this] obtain s1 where
    s1: "turns env (2 * 511) k s = Inr ((), s1)" "edge l 511 s1" by auto
  have "keys env (k + 1022) = Key x" "recv env (k + 1022) = None" using spec [OF assms(3), of 1022] by auto
  from edge_key(2) [OF s1(2) assms(2) this] obtain s' where "turn env (k + 1022) s1 = Inl (Overrun, s')" by auto
  then show ?thesis using turns_add [of env "2 * 511" 1 k s] s1(1) by simp
qed

definition demo_keys :: ienv where
  "demo_keys = demo_ienv\<lparr>keys := (\<lambda>k. Key (if even k then 0x61 else 8)), recv := (\<lambda>_. None)\<rparr>"

lemma irc_scroll_runs_off_witness:
  "\<exists>s'. turns demo_keys 1023 0 (irc_start\<lparr>ibuf := replicate 78 0x61 @ 0 # replicate 433 0, iptr := 78\<rparr>) =
    Inl (Overrun, s')"
proof -
  let ?s = "irc_start\<lparr>ibuf := replicate 78 0x61 @ 0 # replicate 433 0, iptr := 78\<rparr>"
  have "edge (replicate 78 0x61) 0 ?s" by (auto simp: edge_def irc_start_def)
  moreover have "plain_key 0x61" by (simp add: plain_key_def)
  moreover have "\<forall>i < 1023. recv demo_keys (0 + i) = None \<and> keys demo_keys (0 + i) = Key (if even i then 0x61 else 8)"
    by (simp add: demo_keys_def)
  ultimately show ?thesis by (rule irc_scroll_runs_off)
qed

end
