(* ===== verification/Snazzy.thy ===== *)
theory Snazzy
  imports Cstring
begin

text \<open>
  \<open>snazzy/snazzy.c\<close> and its driver \<open>vt52.c\<close>: dialogs out of widgets, which are allocated one after the
  other and linked into a tree.  Pointers to widgets are the numbers of the allocations, \<open>None\<close> is
  the null pointer; the function pointers of a widget are the names of the functions.
\<close>

section \<open>Widgets\<close>

definition SELECTED :: u16 where "SELECTED = 1"
definition FOCUSED :: u16 where "FOCUSED = 2"
definition FOCUSABLE :: u16 where "FOCUSABLE = 4"
definition DIRTY :: u16 where "DIRTY = 8"
definition HIDDEN :: u16 where "HIDDEN = 16"

lemmas stat_bits = SELECTED_def FOCUSED_def FOCUSABLE_def DIRTY_def HIDDEN_def

datatype wtype = LABEL | CHECK | BUTTON | INPUT | BOX | ICON | SEPAR

record boxdata =
  xpos :: int
  ypos :: int
  xpad :: int
  ypad :: int
  bmax :: int
  btype :: int

record inputdata =
  isize :: int
  icur :: int
  ibytes :: bytes

datatype wdata = No_data | Input_data nat | Box_data boxdata | Radio_data nat

datatype drawer = Draw_label | Draw_button | Draw_check | Draw_input | Box_draw

datatype clicker = Clicked_check | Clicked_radio | Clicked_textinput | Clicked_menu | Clicked_exit

text \<open>A widget; its methods \<open>focus\<close> and \<open>nudge\<close> are never used, \<open>pack\<close> and \<open>post\<close> have one function each.\<close>

record widget =
  wtype :: wtype
  wx :: int
  wy :: int
  ww :: int
  wh :: int
  wtext :: bytes
  stat :: u16
  mom :: "nat option"
  sib :: "nat option"
  child :: "nat option"
  wdata :: wdata
  draw :: "drawer option"
  clicked :: "clicker option"
  packs :: bool
  posts :: bool

definition has :: "widget \<Rightarrow> u16 \<Rightarrow> bool" where
  "has i b \<longleftrightarrow> stat i AND b \<noteq> 0"

definition stat_on :: "u16 \<Rightarrow> widget \<Rightarrow> widget" where
  "stat_on b i = i\<lparr>stat := stat i OR b\<rparr>"

definition stat_off :: "u16 \<Rightarrow> widget \<Rightarrow> widget" where
  "stat_off b i = i\<lparr>stat := stat i AND NOT b\<rparr>"

section \<open>State\<close>

definition LISTZ :: nat where "LISTZ = 64"

text \<open>
  The global variables, with \<open>wlist\<close>, \<open>cur\<close> and \<open>sptr\<close> for the list of the widgets that can be
  selected, the data that several widgets share, the line \<open>lb\<close> of \<open>clear_area\<close>, what was written to
  the terminal, its raw mode and the error output.  The bytes for the terminal are in the order of the
  calls: that what \<open>printf\<close> prints may wait in a buffer while \<open>write\<close> passes it is not modelled.
  Positions and sizes on the screen are far from the bounds of an \<open>int\<close> and are integers.
\<close>

record snz =
  heap :: "widget list"
  root :: "nat option"
  inputwidget :: "nat option"
  obj :: "nat option"
  iobj :: "nat option"
  wlist :: "nat option list"
  cur :: nat
  sptr :: nat
  menu :: "nat option"
  inputs :: "inputdata list"
  radios :: "nat option list"
  lb :: bytes
  tty :: bytes
  raw :: bool
  diag :: bytes

text \<open>
  What the program depends on: for how many widgets there is memory, what a read of a number at the
  null pointer gives (\<open>None\<close> where it is fatal), the pointer in \<open>rad\<close>, which is never set, whether
  the size of the screen can be read and the text of \<open>perror\<close> otherwise, the keys by the number of the
  read (\<open>None\<close> for a read that delivers nothing) and what the variable for them starts with.
\<close>

record senv =
  room :: nat
  null_int :: "int option"
  junk_rad :: "nat option"
  winsize_ok :: bool
  errtext :: bytes
  keys :: "nat \<Rightarrow> u8 option"
  junk_key :: u8

datatype wstop = Exit int | Null_pointer | Wild_pointer | List_full | Buffer_end

type_synonym 'a wres = "(wstop \<times> snz) + ('a \<times> snz)"

text \<open>\<open>None\<close> is a program that never comes back.\<close>

type_synonym 'a prog = "'a wres option"

definition wbind :: "'a prog \<Rightarrow> ('a \<times> snz \<Rightarrow> 'b prog) \<Rightarrow> 'b prog" where
  "wbind m f = Option.bind m (\<lambda>r. case r of Inl e \<Rightarrow> Some (Inl e) | Inr x \<Rightarrow> f x)"

lemma wbind_simps [simp, res_simps]:
  "wbind None f = None"
  "wbind (Some (Inl e)) f = Some (Inl e)"
  "wbind (Some (Inr x)) f = f x"
  by (simp_all add: wbind_def)

lemma wbind_mono [partial_function_mono]:
  assumes "monotone (fun_ord option_ord) option_ord B" "\<And>y. monotone (fun_ord option_ord) option_ord (\<lambda>f. C y f)"
  shows "monotone (fun_ord option_ord) option_ord (\<lambda>f. wbind (B f) (\<lambda>y. C y f))"
  unfolding wbind_def
proof (rule bind_mono [OF assms(1)])
  fix r
  show "monotone (fun_ord option_ord) option_ord (\<lambda>f. case r of Inl e \<Rightarrow> Some (Inl e) | Inr y \<Rightarrow> C y f)"
    using assms(2) by (cases r) (simp_all add: option.const_mono)
qed

definition getw :: "nat option \<Rightarrow> snz \<Rightarrow> widget wres" where
  "getw p s =
     (case p of
        None \<Rightarrow> Inl (Null_pointer, s)
      | Some a \<Rightarrow> if a < length (heap s) then Inr (heap s ! a, s) else Inl (Wild_pointer, s))"

definition setw :: "nat option \<Rightarrow> (widget \<Rightarrow> widget) \<Rightarrow> snz \<Rightarrow> unit wres" where
  "setw p f s = rbind (getw p s) (\<lambda>(i, s). Inr ((), s\<lparr>heap := (heap s)[the p := f i]\<rparr>))"

section \<open>Walks over the tree\<close>

definition istart :: "nat option \<Rightarrow> snz \<Rightarrow> snz" where
  "istart p s = s\<lparr>iobj := p, obj := p\<rparr>"

definition getnext :: "snz \<Rightarrow> nat option wres" where
  "getnext s =
     (case obj s of
        None \<Rightarrow> Inr (None, s)
      | Some a \<Rightarrow>
          rbind (getw (Some a) s) (\<lambda>(i, s).
            if child i \<noteq> None then Inr (Some a, s\<lparr>obj := child i\<rparr>)
            else if sib i \<noteq> None then Inr (Some a, s\<lparr>obj := sib i\<rparr>)
            else if mom i = iobj s then Inr (Some a, s\<lparr>obj := None\<rparr>)
            else if mom i \<noteq> None then
              rbind (getw (mom i) s) (\<lambda>(m, s). Inr (Some a, s\<lparr>obj := sib m\<rparr>))
            else Inr (Some a, s\<lparr>obj := None\<rparr>)))"

definition nextsib :: "snz \<Rightarrow> unit wres" where
  "nextsib s =
     (if obj s = iobj s then Inr ((), s\<lparr>obj := None\<rparr>)
      else
        rbind (getw (obj s) s) (\<lambda>(i, s).
          if mom i \<noteq> None then rbind (getw (mom i) s) (\<lambda>(m, s). Inr ((), s\<lparr>obj := sib m\<rparr>))
          else Inr ((), s)))"

text \<open>The loop \<open>while (i = getnext())\<close>, which need not end.\<close>

partial_function (option) walk :: "(nat \<Rightarrow> snz \<Rightarrow> unit wres) \<Rightarrow> snz \<Rightarrow> unit prog" where
  "walk body s =
     (case getnext s of
        Inl e \<Rightarrow> Some (Inl e)
      | Inr (None, s) \<Rightarrow> Some (Inr ((), s))
      | Inr (Some i, s) \<Rightarrow>
          (case body i s of Inl e \<Rightarrow> Some (Inl e) | Inr (_, s) \<Rightarrow> walk body s))"

declare walk.simps [code]

section \<open>The driver\<close>

definition put :: "bytes \<Rightarrow> snz \<Rightarrow> snz" where
  "put t s = s\<lparr>tty := tty s @ t\<rparr>"

definition cls :: "snz \<Rightarrow> snz" where
  "cls s = put [27, 0x48, 27, 0x4a] s"

definition sgoto :: "int \<Rightarrow> int \<Rightarrow> bytes" where
  "sgoto x y = [27, 0x59, word_of_int (32 + y), word_of_int (32 + x)]"

definition def_xpad :: int where "def_xpad = 1"
definition def_ypad :: int where "def_ypad = 0"

definition hint_label :: "widget \<Rightarrow> widget" where
  "hint_label i = i\<lparr>ww := int (length (wtext i)) + (if has i FOCUSABLE then 2 else 0), wh := 1\<rparr>"

definition hint_button :: "widget \<Rightarrow> widget" where
  "hint_button i = i\<lparr>ww := int (length (wtext i)) + 4, wh := 1\<rparr>"

definition hint_check :: "widget \<Rightarrow> widget" where
  "hint_check i = i\<lparr>ww := int (length (wtext i)) + 6, wh := 1\<rparr>"

text \<open>The size of the input field of a widget, which may have none yet.\<close>

definition hint_input :: "senv \<Rightarrow> nat option \<Rightarrow> snz \<Rightarrow> unit wres" where
  "hint_input env p s =
     rbind (getw p s) (\<lambda>(i, s).
       case (case wdata i of Input_data k \<Rightarrow> Some (isize (inputs s ! k)) | _ \<Rightarrow> null_int env) of
         None \<Rightarrow> Inl (Null_pointer, s)
       | Some z \<Rightarrow> setw p (\<lambda>i. i\<lparr>ww := int (length (wtext i)) + z + 2, wh := 1\<rparr>) s)"

definition arrow :: "widget \<Rightarrow> bytes" where
  "arrow i = (if has i FOCUSED then str ''->'' else str ''  '')"

text \<open>The text of a widget on the screen; boxes are drawn by the loop over the widgets.\<close>

definition widget_text :: "inputdata list \<Rightarrow> drawer \<Rightarrow> widget \<Rightarrow> wstop + bytes" where
  "widget_text ins d i =
     (let at = sgoto (wx i) (wy i) in
      case d of
        Draw_label \<Rightarrow> Inr (at @ (if has i FOCUSABLE then arrow i else []) @ wtext i)
      | Draw_button \<Rightarrow> Inr (at @ arrow i @ str ''['' @ wtext i @ str '']'')
      | Draw_check \<Rightarrow>
          Inr (at @ arrow i @ str ''<'' @ (if has i SELECTED then str ''*'' else str '' '') @ str ''> '' @ wtext i)
      | Draw_input \<Rightarrow>
          (case wdata i of
             Input_data k \<Rightarrow>
               if 0 \<in> set (ibytes (ins ! k)) then Inr (at @ arrow i @ wtext i @ str '': '' @ c_str (ibytes (ins ! k)))
               else Inl Buffer_end
           | _ \<Rightarrow> Inl Null_pointer)
      | Box_draw \<Rightarrow> Inr [])"

definition paint :: "drawer \<Rightarrow> widget \<Rightarrow> snz \<Rightarrow> unit wres" where
  "paint d i s = (case widget_text (inputs s) d i of Inl e \<Rightarrow> Inl (e, s) | Inr t \<Rightarrow> Inr ((), put t s))"

text \<open>
  The line of blanks is an array of 256 pointers: the blanks are put into its bytes, and the zero
  into the pointer, of two bytes, with the number of the width.
\<close>

definition set_line :: "int \<Rightarrow> snz \<Rightarrow> unit wres" where
  "set_line w s =
     (if w < 0 \<or> 256 \<le> w then Inl (Buffer_end, s)
      else
        let n = nat w; b = replicate n 32 @ drop n (lb s)
        in Inr ((), s\<lparr>lb := b[2 * n := 0, 2 * n + 1 := 0]\<rparr>))"

fun clear_rows :: "nat \<Rightarrow> int \<Rightarrow> int \<Rightarrow> snz \<Rightarrow> unit wres" where
  "clear_rows 0 x y s = Inr ((), s)"
| "clear_rows (Suc h) x y s =
     (if 0 \<in> set (lb s) then clear_rows h x (y + 1) (put (sgoto x y @ c_str (lb s) @ [10]) s)
      else Inl (Buffer_end, s))"

text \<open>A negative height would be counted down without an end, but for the overflow of the \<open>int\<close>.\<close>

definition clear_area :: "nat option \<Rightarrow> snz \<Rightarrow> unit prog" where
  "clear_area p s =
     wbind (Some (getw p s)) (\<lambda>(i, s).
     wbind (Some (set_line (ww i) s)) (\<lambda>(_, s).
       if wh i < 0 then None else Some (clear_rows (nat (wh i)) (wx i) (wy i) s)))"

definition ll_deinit :: "snz \<Rightarrow> snz" where
  "ll_deinit s = put [27, 0x65] (s\<lparr>raw := False\<rparr>)"

definition ll_init :: "senv \<Rightarrow> snz \<Rightarrow> unit wres" where
  "ll_init env s =
     (let s = s\<lparr>raw := True\<rparr> in
      if \<not> winsize_ok env then
        Inl (Exit (-1), (ll_deinit s)\<lparr>diag := diag s @ str ''ioctl: '' @ errtext env @ [10]\<rparr>)
      else Inr ((), put [27, 0x66] s))"

end
