(* ===== verification/Snazzy_Main.thy ===== *)
theory Snazzy_Main
  imports Snazzy
begin

text \<open>
  The dialogs of \<open>snazzy/snazzy.c\<close>: selection, redrawing, the kinds of widgets, packing, the menu, the
  loop over the keys and the demonstration program.
\<close>

section \<open>Selection\<close>

definition select_body :: "nat \<Rightarrow> snz \<Rightarrow> unit wres" where
  "select_body i s =
     rbind (getw (Some i) s) (\<lambda>(w, s).
       if has w HIDDEN then nextsib s
       else if has w FOCUSABLE then
         if LISTZ \<le> sptr s then Inl (List_full, s)
         else Inr ((), s\<lparr>wlist := (wlist s)[sptr s := Some i], sptr := sptr s + 1\<rparr>)
       else Inr ((), s))"

definition select_first :: "nat option \<Rightarrow> snz \<Rightarrow> unit prog" where
  "select_first p s =
     wbind (walk select_body ((istart p s)\<lparr>sptr := 0\<rparr>)) (\<lambda>(_, s).
       let s = s\<lparr>cur := 0\<rparr> in Some (setw (wlist s ! cur s) (stat_on (FOCUSED OR DIRTY)) s))"

definition select_off :: "snz \<Rightarrow> unit wres" where
  "select_off s =
     rbind (setw (wlist s ! cur s) (stat_off FOCUSED) s) (\<lambda>(_, s). setw (wlist s ! cur s) (stat_on DIRTY) s)"

definition select_warp :: "nat \<Rightarrow> snz \<Rightarrow> unit wres" where
  "select_warp i s =
     rbind (select_off s) (\<lambda>(_, s).
     let s = s\<lparr>cur := i\<rparr> in setw (wlist s ! cur s) (stat_on (DIRTY OR FOCUSED)) s)"

definition select_next :: "snz \<Rightarrow> unit wres" where
  "select_next s = (if cur s + 1 < sptr s then select_warp (cur s + 1) s else Inr ((), s))"

definition select_prev :: "snz \<Rightarrow> unit wres" where
  "select_prev s = (if cur s \<noteq> 0 then select_warp (cur s - 1) s else Inr ((), s))"

section \<open>Redrawing\<close>

text \<open>
  \<open>display_widgets\<close> behind its \<open>istart\<close>.  Drawing a box is the same loop over its children, and the
  two loops share the place in the tree.
\<close>

partial_function (option) display_loop :: "snz \<Rightarrow> unit prog" where
  "display_loop s =
     wbind (Some (getnext s)) (\<lambda>(i, s).
       if i = None then Some (Inr ((), s))
       else
         wbind (Some (getw i s)) (\<lambda>(w, s).
           if has w HIDDEN then wbind (Some (nextsib s)) (\<lambda>(_, s). display_loop s)
           else if has w DIRTY then
             wbind (Some (setw i (stat_off DIRTY) s)) (\<lambda>(_, s).
             wbind (if draw w = None then Some (Inr ((), s))
                    else if draw w = Some Box_draw then display_loop (istart (child w) s)
                    else Some (paint (the (draw w)) w s)) (\<lambda>(_, s).
               display_loop s))
           else display_loop s))"

declare display_loop.simps [code]

definition display_widgets :: "nat option \<Rightarrow> snz \<Rightarrow> unit prog" where
  "display_widgets p s = display_loop (istart p s)"

definition apart :: "widget \<Rightarrow> widget \<Rightarrow> bool" where
  "apart i w \<longleftrightarrow> wx i + ww i < wx w \<or> wx i > wx w + ww w \<or> wy i + wh i < wy w \<or> wy i > wy w + wh w"

definition dirty_body :: "nat option \<Rightarrow> nat \<Rightarrow> snz \<Rightarrow> unit wres" where
  "dirty_body p i s =
     rbind (getw (Some i) s) (\<lambda>(v, s). rbind (getw p s) (\<lambda>(w, s).
       if apart v w then nextsib s else setw (Some i) (stat_on DIRTY) s))"

definition dirty_rect :: "nat option \<Rightarrow> snz \<Rightarrow> unit prog" where
  "dirty_rect p s = walk (dirty_body p) (istart (root s) s)"

section \<open>Kinds of widgets\<close>

definition blank_widget :: widget where
  "blank_widget =
     \<lparr>wtype = LABEL, wx = 0, wy = 0, ww = 0, wh = 0, wtext = [], stat = 0, mom = None, sib = None, child = None,
      wdata = No_data, draw = None, clicked = None, packs = False, posts = False\<rparr>"

definition new_widget :: "senv \<Rightarrow> snz \<Rightarrow> nat option wres" where
  "new_widget env s =
     (if room env \<le> length (heap s) then Inr (None, s)
      else
        let a = length (heap s); s = s\<lparr>heap := heap s @ [blank_widget]\<rparr> in
        if LISTZ \<le> sptr s then Inl (List_full, s)
        else Inr (Some a, s\<lparr>wlist := (wlist s)[sptr s := Some a], sptr := sptr s + 1\<rparr>))"

text \<open>A new widget with its fields set, unless there is no memory.\<close>

definition create :: "senv \<Rightarrow> (widget \<Rightarrow> widget) \<Rightarrow> snz \<Rightarrow> nat option wres" where
  "create env f s =
     rbind (new_widget env s) (\<lambda>(p, s).
       if p = None then Inr (None, s) else rbind (setw p f s) (\<lambda>(_, s). Inr (p, s)))"

definition check :: "senv \<Rightarrow> bytes \<Rightarrow> snz \<Rightarrow> nat option wres" where
  "check env t =
     create env (\<lambda>w. stat_on (DIRTY OR FOCUSABLE) (hint_check
       (w\<lparr>wtype := CHECK, wtext := t, draw := Some Draw_check, clicked := Some Clicked_check\<rparr>)))"

definition radio :: "senv \<Rightarrow> bytes \<Rightarrow> nat \<Rightarrow> snz \<Rightarrow> nat option wres" where
  "radio env t d s =
     rbind (check env t s) (\<lambda>(p, s).
       if p = None then Inr (None, s)
       else rbind (setw p (\<lambda>w. w\<lparr>clicked := Some Clicked_radio, wdata := Radio_data d\<rparr>) s) (\<lambda>(_, s). Inr (p, s)))"

definition button :: "senv \<Rightarrow> bytes \<Rightarrow> clicker option \<Rightarrow> snz \<Rightarrow> nat option wres" where
  "button env t f =
     create env (\<lambda>w. stat_on (DIRTY OR FOCUSABLE) (hint_button
       (w\<lparr>wtype := BUTTON, wtext := t, draw := Some Draw_button, clicked := f\<rparr>)))"

definition label :: "senv \<Rightarrow> bytes \<Rightarrow> snz \<Rightarrow> nat option wres" where
  "label env t =
     create env (\<lambda>w. stat_on DIRTY (hint_label (w\<lparr>wtype := LABEL, wtext := t, draw := Some Draw_label\<rparr>)))"

definition textinput :: "senv \<Rightarrow> bytes \<Rightarrow> nat \<Rightarrow> snz \<Rightarrow> nat option wres" where
  "textinput env t d s =
     rbind (create env (\<lambda>w. w\<lparr>wtype := INPUT, wtext := t, draw := Some Draw_input,
       clicked := Some Clicked_textinput\<rparr>) s) (\<lambda>(p, s).
       if p = None then Inr (None, s)
       else rbind (hint_input env p s) (\<lambda>(_, s).
         rbind (setw p (\<lambda>w. (stat_on (DIRTY OR FOCUSABLE) w)\<lparr>wdata := Input_data d\<rparr>) s) (\<lambda>(_, s). Inr (p, s))))"

definition box :: "senv \<Rightarrow> int \<Rightarrow> snz \<Rightarrow> nat option wres" where
  "box env t =
     create env (\<lambda>w. stat_on DIRTY (w\<lparr>wtype := BOX, draw := Some Box_draw, packs := True,
       wdata := Box_data \<lparr>xpos = wx w + def_xpad, ypos = wy w + def_ypad, xpad = def_xpad, ypad = def_ypad,
         bmax = 0, btype = t\<rparr>\<rparr>))"

definition setgeom_widget :: "nat option \<Rightarrow> int \<Rightarrow> int \<Rightarrow> int \<Rightarrow> int \<Rightarrow> snz \<Rightarrow> unit wres" where
  "setgeom_widget p x y w h = setw p (\<lambda>i. i\<lparr>wx := x, wy := y, ww := w, wh := h\<rparr>)"

section \<open>Packing\<close>

text \<open>Where \<open>box_pack\<close> puts a widget, and the box data after it.\<close>

definition box_place :: "widget \<Rightarrow> widget \<Rightarrow> boxdata \<Rightarrow> (int \<times> int) \<times> boxdata" where
  "box_place w c b =
     (if btype b = 0 then
        let b = (if xpos b + ww c + xpad b > ww w
                 then b\<lparr>xpos := xpad b, ypos := ypos b + bmax b + ypad b, bmax := 0\<rparr> else b)
        in ((wx w + xpos b, wy w + ypos b),
            b\<lparr>xpos := xpos b + ww c + xpad b, bmax := (if bmax b < wh c then wh c else bmax b)\<rparr>)
      else if btype b = 1 then
        let b = (if ypos b + wh c + ypad b > wh w
                 then b\<lparr>ypos := ypad b, xpos := xpos b + bmax b + xpad b, bmax := 0\<rparr> else b)
        in ((wx w + xpos b, wy w + ypos b),
            b\<lparr>ypos := ypos b + wh c + ypad b, bmax := (if bmax b < ww c then ww c else bmax b)\<rparr>)
      else ((wx c, wy c), b))"

definition box_pack :: "nat option \<Rightarrow> nat option \<Rightarrow> snz \<Rightarrow> unit wres" where
  "box_pack p c s =
     rbind (getw p s) (\<lambda>(w, s). rbind (getw c s) (\<lambda>(v, s).
       case wdata w of
         Box_data b \<Rightarrow>
           let ((x, y), b) = box_place w v b in
           rbind (setw c (\<lambda>i. i\<lparr>wx := x, wy := y\<rparr>) s) (\<lambda>(_, s). setw p (\<lambda>i. i\<lparr>wdata := Box_data b\<rparr>) s)
       | _ \<Rightarrow> Inr ((), s)))"

text \<open>The last one of a list of siblings, which need not have one.\<close>

partial_function (option) last_sib :: "nat option \<Rightarrow> snz \<Rightarrow> nat option prog" where
  "last_sib p s =
     (case getw p s of
        Inl e \<Rightarrow> Some (Inl e)
      | Inr (i, s) \<Rightarrow> if sib i = None then Some (Inr (p, s)) else last_sib (sib i) s)"

declare last_sib.simps [code]

definition pack_widget :: "nat option \<Rightarrow> nat option \<Rightarrow> snz \<Rightarrow> nat option prog" where
  "pack_widget p c s =
     wbind (Some (setw c (\<lambda>i. i\<lparr>sib := None, mom := p\<rparr>) s)) (\<lambda>(_, s).
     wbind (Some (getw p s)) (\<lambda>(w, s).
     wbind (if child w = None then Some (setw p (\<lambda>i. i\<lparr>child := c\<rparr>) s)
            else wbind (last_sib (child w) s) (\<lambda>(l, s). Some (setw l (\<lambda>i. i\<lparr>sib := c\<rparr>) s))) (\<lambda>(_, s).
     wbind (if packs w then Some (box_pack p c s) else Some (Inr ((), s))) (\<lambda>(_, s).
       Some (Inr (c, s))))))"

section \<open>The menu\<close>

definition menu_item :: "senv \<Rightarrow> bytes \<Rightarrow> snz \<Rightarrow> nat option wres" where
  "menu_item env t s =
     rbind (label env t s) (\<lambda>(p, s).
     rbind (setw p (\<lambda>i. hint_label (stat_on FOCUSABLE i)) s) (\<lambda>(_, s). Inr (p, s)))"

text \<open>The row of the next item is a local variable of \<open>post_menu\<close>.\<close>

definition post_body :: "nat option \<Rightarrow> nat \<Rightarrow> snz \<times> int \<Rightarrow> (wstop \<times> snz) + (snz \<times> int)" where
  "post_body p i = (\<lambda>(s, y).
     rbind (getw (Some i) s) (\<lambda>(v, s). rbind (getw p s) (\<lambda>(w, s).
     let s = s\<lparr>diag := diag s @ wtext v @ [32] @ dec (ww w) @ [32] @ dec (ww v) @ [10]\<rparr> in
     rbind (setw p (\<lambda>w. w\<lparr>ww := (if ww v > ww w then ww v else ww w), wh := wh w + wh v\<rparr>) s) (\<lambda>(_, s).
     rbind (getw p s) (\<lambda>(w, s).
     rbind (setw (Some i) (\<lambda>v. v\<lparr>wx := wx w, wy := y\<rparr>) s) (\<lambda>(_, s). Inr (s, y + wh v)))))))"

partial_function (option) post_loop :: "nat option \<Rightarrow> int \<Rightarrow> snz \<Rightarrow> unit prog" where
  "post_loop p y s =
     (case getnext s of
        Inl e \<Rightarrow> Some (Inl e)
      | Inr (None, s) \<Rightarrow> Some (Inr ((), s))
      | Inr (Some i, s) \<Rightarrow>
          (case post_body p i (s, y) of Inl e \<Rightarrow> Some (Inl e) | Inr (s, y) \<Rightarrow> post_loop p y s))"

declare post_loop.simps [code]

definition post_menu :: "nat option \<Rightarrow> snz \<Rightarrow> unit prog" where
  "post_menu p s =
     wbind (Some (getw p s)) (\<lambda>(w, s).
     wbind (Some (setw p (\<lambda>w. w\<lparr>wh := 0, ww := 0\<rparr>) s)) (\<lambda>(_, s).
     wbind (Some (getnext (istart p s))) (\<lambda>(_, s). post_loop p (wy w) s)))"

definition post_widget :: "nat option \<Rightarrow> snz \<Rightarrow> unit prog" where
  "post_widget p s =
     wbind (Some (getw p s)) (\<lambda>(w, s). if posts w then post_menu p s else Some (Inr ((), s)))"

section \<open>Clicks\<close>

definition clicked_check :: "nat option \<Rightarrow> snz \<Rightarrow> unit wres" where
  "clicked_check p s = setw p (\<lambda>w. stat_on DIRTY (w\<lparr>stat := stat w XOR SELECTED\<rparr>)) s"

definition clicked_radio :: "nat option \<Rightarrow> snz \<Rightarrow> unit wres" where
  "clicked_radio p s =
     rbind (getw p s) (\<lambda>(w, s).
       case wdata w of
         Radio_data d \<Rightarrow>
           rbind (setw (radios s ! d) (stat_off SELECTED) s) (\<lambda>(_, s).
           rbind (setw (radios s ! d) (stat_on DIRTY) s) (\<lambda>(_, s).
           let s = s\<lparr>radios := (radios s)[d := p]\<rparr> in setw (radios s ! d) (stat_on (SELECTED OR DIRTY)) s))
       | _ \<Rightarrow> Inl (Null_pointer, s))"

definition clicked_textinput :: "nat option \<Rightarrow> snz \<Rightarrow> unit wres" where
  "clicked_textinput p s = Inr ((), s\<lparr>inputwidget := p\<rparr>)"

definition clicked_exit :: "snz \<Rightarrow> unit prog" where
  "clicked_exit s =
     wbind (Some (setw (menu s) (stat_on HIDDEN) s)) (\<lambda>(_, s).
     wbind (select_first (root s) s) (\<lambda>(_, s).
     wbind (clear_area (menu s) s) (\<lambda>(_, s). dirty_rect (menu s) s)))"

definition clicked_menu :: "snz \<Rightarrow> unit prog" where
  "clicked_menu s =
     wbind (Some (setw (menu s) (stat_off HIDDEN) s)) (\<lambda>(_, s).
     wbind (Some (setw (menu s) (stat_on DIRTY) s)) (\<lambda>(_, s).
     wbind (clear_area (menu s) s) (\<lambda>(_, s).
     wbind (Some (select_off s)) (\<lambda>(_, s).
     wbind (select_first (menu s) s) (\<lambda>(_, s). Some (select_warp 4 s))))))"

definition select_click :: "snz \<Rightarrow> unit prog" where
  "select_click s =
     wbind (Some (getw (wlist s ! cur s) s)) (\<lambda>(w, s).
       case clicked w of
         None \<Rightarrow> Some (Inr ((), s))
       | Some Clicked_check \<Rightarrow> Some (clicked_check (wlist s ! cur s) s)
       | Some Clicked_radio \<Rightarrow> Some (clicked_radio (wlist s ! cur s) s)
       | Some Clicked_textinput \<Rightarrow> Some (clicked_textinput (wlist s ! cur s) s)
       | Some Clicked_menu \<Rightarrow> clicked_menu s
       | Some Clicked_exit \<Rightarrow> clicked_exit s)"

section \<open>Keys\<close>

definition dirty_input :: "snz \<Rightarrow> unit wres" where
  "dirty_input s = setw (inputwidget s) (stat_on DIRTY) s"

definition input_text :: "u8 \<Rightarrow> snz \<Rightarrow> unit wres" where
  "input_text c s =
     rbind (getw (inputwidget s) s) (\<lambda>(w, s).
       case wdata w of
         Input_data k \<Rightarrow>
           (let d = inputs s ! k in
            if c = 27 \<or> c = 10 then rbind (dirty_input s) (\<lambda>(_, s). Inr ((), s\<lparr>inputwidget := None\<rparr>))
            else if c = 8 \<and> icur d \<noteq> 0 then
              let n = icur d - 1 in
              if n < 0 \<or> int (length (ibytes d)) \<le> n then Inl (Buffer_end, s)
              else dirty_input (s\<lparr>inputs := (inputs s)[k := d\<lparr>icur := n, ibytes := (ibytes d)[nat n := 32]\<rparr>]\<rparr>)
            else if sint c < 32 then Inr ((), s)
            else if icur d < 0 \<or> int (length (ibytes d)) \<le> icur d then Inl (Buffer_end, s)
            else dirty_input (s\<lparr>inputs := (inputs s)[k := d\<lparr>icur := icur d + 1, ibytes := (ibytes d)[nat (icur d) := c]\<rparr>]\<rparr>))
       | _ \<Rightarrow> Inl (Null_pointer, s))"

text \<open>One key of \<open>input\<close>: true for its return.\<close>

definition input_key :: "u8 \<Rightarrow> snz \<Rightarrow> bool prog" where
  "input_key c s =
     (if inputwidget s = None \<and> (c = 0x71 \<or> c = 27) then Some (Inr (True, s))
      else
        wbind (if inputwidget s = None then
                 if c = 0x6a then Some (select_next s)
                 else if c = 0x6b then Some (select_prev s)
                 else if c = 32 \<or> c = 10 then select_click s
                 else Some (Inr ((), s))
               else Some (input_text c s)) (\<lambda>(_, s).
        wbind (display_widgets (root s) s) (\<lambda>(_, s). Some (Inr (False, s)))))"

partial_function (option) input :: "senv \<Rightarrow> nat \<Rightarrow> u8 \<Rightarrow> snz \<Rightarrow> unit prog" where
  "input env k c s =
     (let c = (case keys env k of None \<Rightarrow> c | Some c \<Rightarrow> c) in
      wbind (input_key c s) (\<lambda>(quit, s). if quit then Some (Inr ((), s)) else input env (k + 1) c s))"

declare input.simps [code]

definition myexit :: "int \<Rightarrow> snz \<Rightarrow> 'a wres" where
  "myexit r s = Inl (Exit r, ll_deinit s)"

section \<open>The demonstration\<close>

text \<open>\<open>pack_widget(p, make(...))\<close>, one after the other.\<close>

fun pack_all :: "nat option \<Rightarrow> (snz \<Rightarrow> nat option wres) list \<Rightarrow> snz \<Rightarrow> unit prog" where
  "pack_all p [] s = Some (Inr ((), s))"
| "pack_all p (mk # mks) s =
     wbind (Some (mk s)) (\<lambda>(c, s). wbind (pack_widget p c s) (\<lambda>(_, s). pack_all p mks s))"

text \<open>A box of the given size in the root.\<close>

definition root_box :: "senv \<Rightarrow> int \<Rightarrow> int \<Rightarrow> snz \<Rightarrow> nat option prog" where
  "root_box env t h s =
     wbind (Some (box env t s)) (\<lambda>(b, s).
     wbind (Some (setgeom_widget b 0 0 80 h s)) (\<lambda>(_, s). pack_widget (root s) b s))"

definition snz_start :: "senv \<Rightarrow> snz" where
  "snz_start env =
     \<lparr>heap = [], root = None, inputwidget = None, obj = None, iobj = None, wlist = replicate LISTZ None, cur = 0,
      sptr = 0, menu = None, inputs = [\<lparr>isize = 49, icur = 0, ibytes = replicate 49 32 @ [0]\<rparr>],
      radios = [junk_rad env], lb = replicate 512 0, tty = [], raw = False, diag = []\<rparr>"

definition build_boxes :: "senv \<Rightarrow> snz \<Rightarrow> (nat option \<times> nat option \<times> nat option \<times> nat option) prog" where
  "build_boxes env s =
     wbind (Some (box env 1 s)) (\<lambda>(r, s).
     wbind (Some (setgeom_widget r 0 0 80 25 (s\<lparr>root := r\<rparr>))) (\<lambda>(_, s).
     wbind (root_box env 0 4 s) (\<lambda>(top, s).
     wbind (pack_all (root s) [label env (str ''This is a Label'')] s) (\<lambda>(_, s).
     wbind (root_box env 1 5 s) (\<lambda>(bottom, s).
     wbind (root_box env 0 1 s) (\<lambda>(vbottom, s).
     wbind (root_box env 0 1 s) (\<lambda>(vvbottom, s).
       Some (Inr ((top, bottom, vbottom, vvbottom), s)))))))))"

definition build_widgets :: "senv \<Rightarrow> nat option \<times> nat option \<times> nat option \<times> nat option \<Rightarrow> snz \<Rightarrow> unit prog" where
  "build_widgets env = (\<lambda>(top, bottom, vbottom, vvbottom) s.
     wbind (pack_all top [button env (str ''Menu'') (Some Clicked_menu), button env (str ''Ok'') None,
         button env (str ''Cancel'') None, button env (str ''one'') None, button env (str ''two'') None,
         button env (str ''three'') None] s) (\<lambda>(_, s).
     wbind (pack_all bottom [check env (str ''Awesome!''), check env (str ''cool!''), check env (str ''radical!''),
         check env (str ''narly!''), check env (str ''blah de blah''), check env (str ''42!''),
         label env (str ''does this works?'')] s) (\<lambda>(_, s).
       pack_all vbottom [radio env (str ''mutex'') 0, radio env (str ''xetum'') 0, radio env (str ''now now'') 0] s)))"

definition build_menu :: "senv \<Rightarrow> snz \<Rightarrow> unit prog" where
  "build_menu env s =
     wbind (Some (box env 1 s)) (\<lambda>(m, s).
     wbind (Some (setw m (\<lambda>w. w\<lparr>posts := True\<rparr>) (s\<lparr>menu := m\<rparr>))) (\<lambda>(_, s).
     wbind (pack_widget (root s) m s) (\<lambda>(_, s).
     wbind (Some (setgeom_widget m 3 1 15 5 s)) (\<lambda>(_, s).
     wbind (pack_all m [menu_item env (str ''Open''), menu_item env (str ''Print''), menu_item env (str ''File''),
         menu_item env (str ''Run'')] s) (\<lambda>(_, s).
     wbind (Some (menu_item env (str ''Exit'') s)) (\<lambda>(e, s).
     wbind (pack_widget m e s) (\<lambda>(e, s).
     wbind (Some (setw e (\<lambda>w. w\<lparr>clicked := Some Clicked_exit\<rparr>) s)) (\<lambda>(_, s).
     wbind (post_widget m s) (\<lambda>(_, s).
       Some (setw m (stat_on HIDDEN) s))))))))))"

definition build :: "senv \<Rightarrow> snz \<Rightarrow> unit prog" where
  "build env s =
     wbind (build_boxes env s) (\<lambda>(boxes, s).
     wbind (build_widgets env boxes s) (\<lambda>(_, s).
     wbind (build_menu env s) (\<lambda>(_, s).
       pack_all (snd (snd (snd boxes))) [\<lambda>s. textinput env (str ''some text'') 0 s] s)))"

text \<open>A dialog that has been built.\<close>

definition run_dialog :: "senv \<Rightarrow> snz \<Rightarrow> unit prog" where
  "run_dialog env s =
     wbind (select_first (root s) s) (\<lambda>(_, s).
     wbind (display_widgets (root s) s) (\<lambda>(_, s). input env 0 (junk_key env) s))"

definition snazzy_main :: "senv \<Rightarrow> unit prog" where
  "snazzy_main env =
     wbind (Some (ll_init env (cls (snz_start env)))) (\<lambda>(_, s).
     wbind (build env s) (\<lambda>(_, s).
     wbind (run_dialog env s) (\<lambda>(_, s). Some (myexit 0 (ll_deinit s)))))"

end
