(* ===== verification/Snazzy_Tree.thy ===== *)
theory Snazzy_Tree
  imports Snazzy_Main
begin

text \<open>
  Dialogs as trees: a root, boxes and widgets in it, and the widgets in the boxes, with the pointers of
  the heap between them.  The loops over the tree go through it in order, and packing adds to it.
\<close>

section \<open>Links\<close>

type_synonym link = "nat option \<times> nat option \<times> nat option"

definition links :: "widget list \<Rightarrow> link list" where
  "links hp = map (\<lambda>w. (mom w, sib w, child w)) hp"

definition first :: "nat list \<Rightarrow> nat option" where
  "first xs = (case xs of [] \<Rightarrow> None | a # _ \<Rightarrow> Some a)"

lemma first_simps [simp]: "first [] = None" "first (a # xs) = Some a"
  by (simp_all add: first_def)

lemma first_None [simp]: "first xs = None \<longleftrightarrow> xs = []" "None = first xs \<longleftrightarrow> xs = []"
  by (cases xs; simp)+

text \<open>The widgets in a box, and the boxes (or widgets) of the root with theirs.\<close>

fun kids_ok :: "link list \<Rightarrow> nat \<Rightarrow> nat list \<Rightarrow> bool" where
  "kids_ok L b [] \<longleftrightarrow> True"
| "kids_ok L b (k # ks) \<longleftrightarrow> k < length L \<and> L ! k = (Some b, first ks, None) \<and> kids_ok L b ks"

fun boxes_ok :: "link list \<Rightarrow> nat \<Rightarrow> (nat \<times> nat list) list \<Rightarrow> bool" where
  "boxes_ok L r [] \<longleftrightarrow> True"
| "boxes_ok L r ((b, ks) # bs) \<longleftrightarrow> b < length L \<and> L ! b = (Some r, first (map fst bs), first ks) \<and>
     kids_ok L b ks \<and> boxes_ok L r bs"

definition members :: "(nat \<times> nat list) list \<Rightarrow> nat list" where
  "members bs = concat (map (\<lambda>(b, ks). b # ks) bs)"

definition tree :: "link list \<Rightarrow> nat \<Rightarrow> (nat \<times> nat list) list \<Rightarrow> bool" where
  "tree L r bs \<longleftrightarrow> r < length L \<and> L ! r = (None, None, first (map fst bs)) \<and> boxes_ok L r bs \<and>
     distinct (r # members bs)"

lemma members_simps [simp]: "members [] = []" "members ((b, ks) # bs) = b # ks @ members bs"
  by (simp_all add: members_def)

lemma length_links [simp]: "length (links hp) = length hp"
  by (simp add: links_def)

lemma links_nth: "a < length hp \<Longrightarrow> links hp ! a = (mom (hp ! a), sib (hp ! a), child (hp ! a))"
  by (simp add: links_def)

text \<open>A change of a widget that leaves its pointers alone.\<close>

lemma links_same:
  assumes "mom w = mom (hp ! a)" "sib w = sib (hp ! a)" "child w = child (hp ! a)"
  shows "links (hp[a := w]) = links hp"
proof (cases "a < length hp")
  case True
  then have "(links hp)[a := links hp ! a] = links (hp[a := w])"
    using assms by (simp add: links_def map_update)
  then show ?thesis by (metis list_update_id)
qed (simp add: list_update_beyond)

lemma stat_same [simp]:
  "mom (stat_on b w) = mom w" "sib (stat_on b w) = sib w" "child (stat_on b w) = child w"
  "mom (stat_off b w) = mom w" "sib (stat_off b w) = sib w" "child (stat_off b w) = child w"
  "draw (stat_on b w) = draw w" "draw (stat_off b w) = draw w"
  by (simp_all add: stat_on_def stat_off_def)

lemma getw_Some [simp]: "a < length (heap s) \<Longrightarrow> getw (Some a) s = Inr (heap s ! a, s)"
  by (simp add: getw_def)

lemma setw_Some [simp]: "a < length (heap s) \<Longrightarrow> setw (Some a) f s = Inr ((), s\<lparr>heap := (heap s)[a := f (heap s ! a)]\<rparr>)"
  by (simp add: setw_def)

section \<open>One step\<close>

text \<open>A widget in a box is followed by the next one, and the last one by what follows the box.\<close>

lemma getnext_kid:
  assumes L: "links (heap s) = L" "kids_ok L b (k # ks)" "L ! b = (Some r, n, c)" "b < length L"
    and o: "obj s = Some k" "ks = [] \<longrightarrow> iobj s \<noteq> Some b"
  shows "getnext s = Inr (Some k, s\<lparr>obj := (if ks = [] then n else first ks)\<rparr>)"
proof -
  have k: "k < length (heap s)" "mom (heap s ! k) = Some b" "sib (heap s ! k) = first ks" "child (heap s ! k) = None"
    using L(1,2) links_nth [of k "heap s"] by auto
  have b: "b < length (heap s)" "sib (heap s ! b) = n" using L links_nth [of b "heap s"] by auto
  show ?thesis using k b o by (auto simp: getnext_def)
qed

text \<open>A box is followed by its first widget, or by the next box if it has none.\<close>

lemma getnext_box:
  assumes L: "links (heap s) = L" "boxes_ok L r ((b, ks) # bs)" "L ! r = (m, None, c)" "r < length L"
    and o: "obj s = Some b"
  shows "getnext s = Inr (Some b, s\<lparr>obj := (if ks = [] then first (map fst bs) else first ks)\<rparr>)"
proof -
  have k: "b < length (heap s)" "mom (heap s ! b) = Some r" "sib (heap s ! b) = first (map fst bs)"
    "child (heap s ! b) = first ks"
    using L(1,2) links_nth [of b "heap s"] by auto
  have r: "r < length (heap s)" "sib (heap s ! r) = None" using L links_nth [of r "heap s"] by auto
  show ?thesis using k r o by (simp add: getnext_def)
qed

lemma getnext_root:
  assumes "tree (links (heap s)) r bs" "obj s = Some r"
  shows "getnext s = Inr (Some r, s\<lparr>obj := first (map fst bs)\<rparr>)"
proof -
  have k: "r < length (heap s)" "mom (heap s ! r) = None" "sib (heap s ! r) = None"
    "child (heap s ! r) = first (map fst bs)"
    using assms(1) links_nth [of r "heap s"] by (auto simp: tree_def)
  show ?thesis using k assms(2) by (auto simp: getnext_def)
qed

text \<open>Leaving a hidden box, from its first widget, which the loop has gone to already.\<close>

lemma nextsib_kid:
  assumes L: "links (heap s) = L" "kids_ok L b (k # ks)" "L ! b = (Some r, n, c)" "b < length L"
    and o: "obj s = Some k" "iobj s \<noteq> Some k"
  shows "nextsib s = Inr ((), s\<lparr>obj := n\<rparr>)"
proof -
  have k: "k < length (heap s)" "mom (heap s ! k) = Some b" using L(1,2) links_nth [of k "heap s"] by auto
  have b: "b < length (heap s)" "sib (heap s ! b) = n" using L links_nth [of b "heap s"] by auto
  show ?thesis using k b o by (simp add: nextsib_def)
qed

section \<open>The list of selectable widgets\<close>

text \<open>What should be in it: the visible widgets that take the focus, in the order of the tree.\<close>

definition selectable :: "widget list \<Rightarrow> nat \<Rightarrow> bool" where
  "selectable hp a \<longleftrightarrow> has (hp ! a) FOCUSABLE"

definition box_selection :: "widget list \<Rightarrow> nat \<times> nat list \<Rightarrow> nat list" where
  "box_selection hp = (\<lambda>(b, ks). if has (hp ! b) HIDDEN then [] else filter (selectable hp) (b # ks))"

definition selection :: "widget list \<Rightarrow> nat \<Rightarrow> (nat \<times> nat list) list \<Rightarrow> nat list" where
  "selection hp r bs = filter (selectable hp) [r] @ concat (map (box_selection hp) bs)"

text \<open>Only boxes with something in them are hidden.\<close>

definition hides_boxes :: "widget list \<Rightarrow> (nat \<times> nat list) list \<Rightarrow> bool" where
  "hides_boxes hp bs \<longleftrightarrow> (\<forall>(b, ks) \<in> set bs. (has (hp ! b) HIDDEN \<longrightarrow> ks \<noteq> []) \<and> (\<forall>k \<in> set ks. \<not> has (hp ! k) HIDDEN))"

text \<open>Widgets put into the list.\<close>

definition pushed :: "nat list \<Rightarrow> snz \<Rightarrow> snz" where
  "pushed xs s = s\<lparr>wlist := take (sptr s) (wlist s) @ map Some xs @ drop (sptr s + length xs) (wlist s),
     sptr := sptr s + length xs\<rparr>"

lemma pushed_simps [simp]:
  "pushed [] s = s" "heap (pushed xs s) = heap s" "obj (pushed xs s) = obj s" "iobj (pushed xs s) = iobj s"
  "sptr (pushed xs s) = sptr s + length xs"
  "pushed xs (s\<lparr>obj := x\<rparr>) = (pushed xs s)\<lparr>obj := x\<rparr>"
  by (simp_all add: pushed_def)

lemma pushed_pushed:
  "sptr s + length xs \<le> length (wlist s) \<Longrightarrow> pushed ys (pushed xs s) = pushed (xs @ ys) s"
  by (simp add: pushed_def add.commute add.left_commute)

lemma select_body_plain:
  assumes "a < length (heap s)" "\<not> has (heap s ! a) HIDDEN" "length (wlist s) = LISTZ"
    "sptr s + length (filter (selectable (heap s)) [a]) \<le> LISTZ"
  shows "select_body a s = Inr ((), pushed (filter (selectable (heap s)) [a]) s)"
  using assms by (auto simp: select_body_def selectable_def pushed_def upd_conv_take_nth_drop)

lemma walk_step:
  "getnext s = Inr (Some a, t) \<Longrightarrow> body a t = Inr ((), u) \<Longrightarrow> walk body s = walk body u"
  by (subst walk.simps) simp

lemma walk_end: "obj s = None \<Longrightarrow> walk body s = Some (Inr ((), s))"
  by (subst walk.simps) (simp add: getnext_def)

lemma select_kids:
  assumes "links (heap s) = L" "kids_ok L b ks" "L ! b = (Some r, n, c)" "b < length L" "obj s = first ks" "ks \<noteq> []"
    "iobj s \<noteq> Some b" "\<forall>k \<in> set ks. \<not> has (heap s ! k) HIDDEN" "length (wlist s) = LISTZ"
    "sptr s + length (filter (selectable (heap s)) ks) \<le> LISTZ"
  shows "walk select_body s = walk select_body ((pushed (filter (selectable (heap s)) ks) s)\<lparr>obj := n\<rparr>)"
  using assms
proof (induction ks arbitrary: s)
  case (Cons k ks)
  let ?p = "filter (selectable (heap s)) [k]" and ?q = "filter (selectable (heap s)) ks"
  let ?n = "if ks = [] then n else first ks"
  have fl: "filter (selectable (heap s)) (k # ks) = ?p @ ?q" by simp
  have le: "sptr s + length ?p + length ?q \<le> LISTZ" using Cons.prems(10) unfolding fl by simp
  have k: "k < length (heap s)" using Cons.prems(1,2) by auto
  have g: "getnext s = Inr (Some k, s\<lparr>obj := ?n\<rparr>)"
    using getnext_kid [OF Cons.prems(1,2,3,4)] Cons.prems(5,7) by simp
  have "select_body k (s\<lparr>obj := ?n\<rparr>) = Inr ((), pushed (filter (selectable (heap (s\<lparr>obj := ?n\<rparr>))) [k]) (s\<lparr>obj := ?n\<rparr>))"
    using k Cons.prems le by (intro select_body_plain) auto
  then have w: "walk select_body s = walk select_body ((pushed ?p s)\<lparr>obj := ?n\<rparr>)" using walk_step [OF g] by simp
  show ?case
  proof (cases "ks = []")
    case True
    then show ?thesis using w by simp
  next
    case False
    let ?s = "(pushed ?p s)\<lparr>obj := first ks\<rparr>"
    have "walk select_body ?s = walk select_body ((pushed (filter (selectable (heap ?s)) ks) ?s)\<lparr>obj := n\<rparr>)"
      using Cons.prems le False by (intro Cons.IH) (auto simp: pushed_def)
    moreover have "pushed ?q (pushed ?p s) = pushed (filter (selectable (heap s)) (k # ks)) s"
      unfolding fl using le Cons.prems(9) by (intro pushed_pushed) simp
    ultimately show ?thesis using w False by simp
  qed
qed simp

lemma select_boxes:
  assumes "links (heap s) = L" "boxes_ok L r bs" "L ! r = (None, None, c)" "r < length L" "obj s = first (map fst bs)"
    "iobj s = Some r" "distinct (r # members bs)" "hides_boxes (heap s) bs" "length (wlist s) = LISTZ"
    "sptr s + length (concat (map (box_selection (heap s)) bs)) \<le> LISTZ"
  shows "walk select_body s =
    Some (Inr ((), (pushed (concat (map (box_selection (heap s)) bs)) s)\<lparr>obj := None\<rparr>))"
  using assms
proof (induction bs arbitrary: s)
  case Nil
  then have "s\<lparr>obj := None\<rparr> = s" by simp
  with Nil show ?case by (simp add: walk_end)
next
  case (Cons x bs)
  obtain b ks where x: "x = (b, ks)" by (cases x)
  note P = Cons.prems [unfolded x]
  let ?n = "first (map fst bs)" and ?X = "box_selection (heap s) (b, ks)"
  let ?Y = "concat (map (box_selection (heap s)) bs)"
  have b: "b < length (heap s)" "b < length L" "L ! b = (Some r, ?n, first ks)" "kids_ok L b ks" "boxes_ok L r bs"
    using P(1,2) by auto
  have hb: "has (heap s ! b) HIDDEN \<Longrightarrow> ks \<noteq> []" "\<forall>k \<in> set ks. \<not> has (heap s ! k) HIDDEN" "hides_boxes (heap s) bs"
    using P(8) by (auto simp: hides_boxes_def)
  have le: "sptr s + length ?X + length ?Y \<le> LISTZ" using P(10) by simp
  have io: "iobj s \<noteq> Some b" "k \<in> set ks \<Longrightarrow> iobj s \<noteq> Some k" for k using P(6,7) by auto
  have g: "getnext s = Inr (Some b, s\<lparr>obj := (if ks = [] then ?n else first ks)\<rparr>)"
    using getnext_box [OF P(1,2,3,4)] P(5) by simp
  have "walk select_body s = walk select_body ((pushed ?X s)\<lparr>obj := ?n\<rparr>)"
  proof (cases "has (heap s ! b) HIDDEN")
    case True
    then obtain k ks' where k: "ks = k # ks'" using hb(1) by (cases ks) auto
    have "nextsib (s\<lparr>obj := Some k\<rparr>) = Inr ((), s\<lparr>obj := ?n\<rparr>)"
      using nextsib_kid [of "s\<lparr>obj := Some k\<rparr>", OF _ b(4) [unfolded k] b(3,2)] P(1) io(2) [of k] k by simp
    then have "select_body b (s\<lparr>obj := Some k\<rparr>) = Inr ((), s\<lparr>obj := ?n\<rparr>)"
      using b(1) True by (simp add: select_body_def)
    with walk_step [OF g] k True show ?thesis by (simp add: box_selection_def)
  next
    case False
    let ?p = "filter (selectable (heap s)) [b]" and ?q = "filter (selectable (heap s)) ks"
    have X: "?X = ?p @ ?q" using False by (simp add: box_selection_def)
    have "select_body b (s\<lparr>obj := m\<rparr>) = Inr ((), pushed (filter (selectable (heap (s\<lparr>obj := m\<rparr>))) [b]) (s\<lparr>obj := m\<rparr>))" for m
      using b False P(9) le unfolding X by (intro select_body_plain) auto
    from walk_step [where body = select_body, OF g this [of "if ks = [] then ?n else first ks"]]
    have w: "walk select_body s = walk select_body ((pushed ?p s)\<lparr>obj := (if ks = [] then ?n else first ks)\<rparr>)" by simp
    show ?thesis
    proof (cases "ks = []")
      case True
      then show ?thesis using w X by simp
    next
      case ks: False
      let ?s = "(pushed ?p s)\<lparr>obj := first ks\<rparr>"
      have "walk select_body ?s = walk select_body ((pushed (filter (selectable (heap ?s)) ks) ?s)\<lparr>obj := ?n\<rparr>)"
        using P(1,9) b ks io(1) hb(2) le unfolding X by (intro select_kids [OF _ b(4,3,2)]) (auto simp: pushed_def)
      moreover have "pushed ?q (pushed ?p s) = pushed ?X s"
        unfolding X using le P(9) X by (intro pushed_pushed) simp
      ultimately show ?thesis using w ks by simp
    qed
  qed
  moreover have "walk select_body ((pushed ?X s)\<lparr>obj := ?n\<rparr>) =
      Some (Inr ((), (pushed (concat (map (box_selection (heap ((pushed ?X s)\<lparr>obj := ?n\<rparr>))) bs)) ((pushed ?X s)\<lparr>obj := ?n\<rparr>))\<lparr>obj := None\<rparr>))"
    using P b hb(3) le by (intro Cons.IH) (auto simp: pushed_def)
  moreover have "pushed ?Y (pushed ?X s) = pushed (?X @ ?Y) s" using le P(9) by (intro pushed_pushed) simp
  ultimately show ?case unfolding x by simp
qed

text \<open>Where the loop starts with a clean list, the list is the selection.\<close>

lemma select_walk:
  assumes t: "tree (links (heap s)) r bs" and h: "hides_boxes (heap s) bs" "\<not> has (heap s ! r) HIDDEN"
    and l: "length (wlist s) = LISTZ" "length (selection (heap s) r bs) \<le> LISTZ"
  shows "walk select_body ((istart (Some r) s)\<lparr>sptr := 0\<rparr>) =
    Some (Inr ((), (pushed (selection (heap s) r bs) (s\<lparr>sptr := 0, iobj := Some r, obj := None\<rparr>))))"
proof -
  let ?s = "(istart (Some r) s)\<lparr>sptr := 0\<rparr>" and ?p = "filter (selectable (heap s)) [r]"
  let ?Y = "concat (map (box_selection (heap s)) bs)"
  have s: "heap ?s = heap s" "obj ?s = Some r" "iobj ?s = Some r" "wlist ?s = wlist s" "sptr ?s = 0"
    by (simp_all add: istart_def)
  have r: "r < length (heap s)" "links (heap s) ! r = (None, None, first (map fst bs))" "boxes_ok (links (heap s)) r bs"
    "distinct (r # members bs)"
    using t by (auto simp: tree_def)
  have le: "length ?p + length ?Y \<le> LISTZ" using l(2) by (simp add: selection_def)
  let ?t = "?s\<lparr>obj := first (map fst bs)\<rparr>"
  have g: "getnext ?s = Inr (Some r, ?t)" using getnext_root [of ?s r bs] t s by simp
  have "select_body r ?t = Inr ((), pushed (filter (selectable (heap ?t)) [r]) ?t)"
    using r h l le s by (intro select_body_plain) auto
  then have w: "walk select_body ?s = walk select_body (pushed ?p ?t)" using walk_step [OF g] s by simp
  have "walk select_body (pushed ?p ?t) =
      Some (Inr ((), (pushed (concat (map (box_selection (heap (pushed ?p ?t))) bs)) (pushed ?p ?t))\<lparr>obj := None\<rparr>))"
    using r h l le s by (intro select_boxes [where r = r and L = "links (heap s)"]) (auto simp: pushed_def)
  moreover have "pushed ?Y (pushed ?p ?t) = pushed (?p @ ?Y) ?t" using le l s by (intro pushed_pushed) simp
  ultimately show ?thesis using w by (simp add: istart_def selection_def pushed_def)
qed

end
