(* ===== verification/Snazzy_Pack.thy ===== *)
theory Snazzy_Pack
  imports Snazzy_Tree
begin

text \<open>
  Packing: a widget becomes the last one of its box, the rest of the tree stays as it was, and the
  places that a box gives to its widgets do not overlap.
\<close>

section \<open>Layout\<close>

type_synonym rect = "int \<times> int \<times> int \<times> int"

definition rect :: "widget \<Rightarrow> rect" where
  "rect i = (wx i, wy i, ww i, wh i)"

text \<open>Areas without a common cell.\<close>

fun disjoint :: "rect \<Rightarrow> rect \<Rightarrow> bool" where
  "disjoint (x, y, w, h) (x', y', w', h') \<longleftrightarrow> x + w \<le> x' \<or> x' + w' \<le> x \<or> y + h \<le> y' \<or> y' + h' \<le> y"

text \<open>
  Every widget of a box ends before the current row, or lies in it before the next place; columns
  are the same with the coordinates exchanged.
\<close>

fun behind :: "widget \<Rightarrow> boxdata \<Rightarrow> rect \<Rightarrow> bool" where
  "behind w b (x, y, m, n) \<longleftrightarrow> 0 \<le> m \<and> 0 \<le> n \<and>
     (if btype b = 0
      then y + n \<le> wy w + ypos b \<or> (y = wy w + ypos b \<and> n \<le> bmax b \<and> x + m \<le> wx w + xpos b)
      else x + m \<le> wx w + xpos b \<or> (x = wx w + xpos b \<and> m \<le> bmax b \<and> y + n \<le> wy w + ypos b))"

definition laid_out :: "widget \<Rightarrow> boxdata \<Rightarrow> rect list \<Rightarrow> bool" where
  "laid_out w b rs \<longleftrightarrow> btype b \<in> {0, 1} \<and> 0 \<le> xpad b \<and> 0 \<le> ypad b \<and> 0 \<le> bmax b \<and>
     (\<forall>r \<in> set rs. behind w b r) \<and> sorted_wrt disjoint rs"

lemma box_place_apart:
  assumes "laid_out w b rs" "0 \<le> ww c" "0 \<le> wh c" "box_place w c b = ((x, y), b')"
  shows "laid_out w b' (rs @ [(x, y, ww c, wh c)])"
proof -
  have b: "0 \<le> xpad b" "0 \<le> ypad b" "0 \<le> bmax b" using assms(1) by (auto simp: laid_out_def)
  have rs: "\<forall>r \<in> set rs. behind w b r" "sorted_wrt disjoint rs" using assms(1) by (auto simp: laid_out_def)
  have step: "behind w b' r \<and> disjoint r (x, y, ww c, wh c)" if "behind w b r" for r
  proof (cases r)
    case (fields x0 y0 w0 h0)
    show ?thesis
    proof (cases "btype b = 0")
      case True
      with that b assms(2-4) show ?thesis unfolding fields
        by (auto simp: box_place_def Let_def split: if_splits)
    next
      case False
      then have "btype b = 1" using assms(1) by (auto simp: laid_out_def)
      with that b assms(2-4) show ?thesis unfolding fields
        by (auto simp: box_place_def Let_def split: if_splits)
    qed
  qed
  have own: "behind w b' (x, y, ww c, wh c) \<and> btype b' = btype b \<and> xpad b' = xpad b \<and> ypad b' = ypad b \<and> 0 \<le> bmax b'"
    using assms b by (auto simp: box_place_def Let_def laid_out_def split: if_splits)
  then show ?thesis using assms(1) rs step by (auto simp: laid_out_def sorted_wrt_append)
qed

text \<open>A widget that fits into a row (or a column) of the box at all is inside the box that way.\<close>

lemma box_place_inside:
  assumes "0 \<le> xpad b" "0 \<le> ypad b" "0 \<le> xpos b" "0 \<le> ypos b" "box_place w c b = ((x, y), b')"
  shows "btype b = 0 \<Longrightarrow> 2 * xpad b + ww c \<le> ww w \<Longrightarrow> wx w \<le> x \<and> x + ww c \<le> wx w + ww w"
    and "btype b = 1 \<Longrightarrow> 2 * ypad b + wh c \<le> wh w \<Longrightarrow> wy w \<le> y \<and> y + wh c \<le> wy w + wh w"
  using assms by (auto simp: box_place_def Let_def split: if_splits)

section \<open>Lists of siblings\<close>

fun sibs :: "link list \<Rightarrow> nat list \<Rightarrow> bool" where
  "sibs L [] \<longleftrightarrow> True"
| "sibs L (x # xs) \<longleftrightarrow> x < length L \<and> fst (snd (L ! x)) = first xs \<and> sibs L xs"

lemma sibs_kids: "kids_ok L b ks \<Longrightarrow> sibs L ks"
  by (induction ks) auto

lemma sibs_boxes: "boxes_ok L r bs \<Longrightarrow> sibs L (map fst bs)"
  by (induction L r bs rule: boxes_ok.induct) auto

lemma sibs_mem: "sibs L xs \<Longrightarrow> x \<in> set xs \<Longrightarrow> x < length L"
  by (induction xs) auto

lemma sibs_cong: "sibs L xs \<Longrightarrow> length L' = length L \<Longrightarrow> \<forall>x \<in> set xs. fst (snd (L' ! x)) = fst (snd (L ! x)) \<Longrightarrow> sibs L' xs"
  by (induction xs) auto

lemma last_sib_sibs:
  "sibs (links (heap s)) xs \<Longrightarrow> xs \<noteq> [] \<Longrightarrow> last_sib (first xs) s = Some (Inr (Some (last xs), s))"
proof (induction xs)
  case (Cons x xs)
  then have x: "x < length (heap s)" "sib (heap s ! x) = first xs" using links_nth [of x "heap s"] by auto
  show ?case
  proof (cases "xs = []")
    case True
    then show ?thesis using x by (subst last_sib.simps) simp
  next
    case False
    then have "last_sib (first xs) s = Some (Inr (Some (last xs), s))" using Cons by simp
    then show ?thesis using x False by (subst last_sib.simps) simp
  qed
qed simp

text \<open>The links after packing \<open>c\<close> into \<open>p\<close>, whose widgets are \<open>xs\<close>.\<close>

definition packed :: "nat \<Rightarrow> nat \<Rightarrow> nat list \<Rightarrow> link list \<Rightarrow> link list" where
  "packed p c xs L =
     (let L = L[c := (Some p, None, snd (snd (L ! c)))] in
      if xs = [] then L[p := (fst (L ! p), fst (snd (L ! p)), Some c)]
      else L[last xs := (fst (L ! last xs), Some c, snd (snd (L ! last xs)))])"

lemma length_packed [simp]: "length (packed p c xs L) = length L"
  by (simp add: packed_def Let_def)

lemma packed_other: "a \<noteq> c \<Longrightarrow> (xs = [] \<longrightarrow> a \<noteq> p) \<Longrightarrow> (xs \<noteq> [] \<longrightarrow> a \<noteq> last xs) \<Longrightarrow> packed p c xs L ! a = L ! a"
  by (auto simp: packed_def Let_def)

lemma kids_ok_cong:
  "kids_ok L b ks \<Longrightarrow> length L' = length L \<Longrightarrow> \<forall>k \<in> set ks. L' ! k = L ! k \<Longrightarrow> kids_ok L' b ks"
  by (induction ks) auto

lemma boxes_ok_cong:
  "boxes_ok L r bs \<Longrightarrow> length L' = length L \<Longrightarrow> \<forall>k \<in> set (members bs). L' ! k = L ! k \<Longrightarrow> boxes_ok L' r bs"
proof (induction L r bs rule: boxes_ok.induct)
  case (2 L r b ks bs)
  have "kids_ok L' b ks" using 2 by (intro kids_ok_cong [of L b ks L']) auto
  with 2 show ?case by auto
qed simp

lemma kids_ok_packed:
  "kids_ok L b ks \<Longrightarrow> distinct ks \<Longrightarrow> c < length L \<Longrightarrow> snd (snd (L ! c)) = None \<Longrightarrow> c \<notin> set ks \<Longrightarrow> b \<notin> set ks \<Longrightarrow> c \<noteq> b \<Longrightarrow>
   kids_ok (packed b c ks L) b (ks @ [c])"
proof (induction ks)
  case Nil
  then show ?case by (simp add: packed_def Let_def)
next
  case (Cons k ks)
  show ?case
  proof (cases "ks = []")
    case True
    with Cons.prems show ?thesis by (simp add: packed_def Let_def)
  next
    case False
    then have "packed b c (k # ks) L = packed b c ks L" by (simp add: packed_def Let_def)
    moreover have "packed b c ks L ! k = L ! k"
      using Cons.prems False by (intro packed_other) auto
    ultimately show ?thesis using Cons False by (cases ks) auto
  qed
qed

lemma packed_child: "ks = [] \<Longrightarrow> b < length L \<Longrightarrow> b \<noteq> c \<Longrightarrow> packed b c ks L ! b = (fst (L ! b), fst (snd (L ! b)), Some c)"
  by (simp add: packed_def Let_def)

text \<open>Packing into a box of the tree.\<close>

definition with_kid :: "nat \<Rightarrow> nat \<Rightarrow> (nat \<times> nat list) list \<Rightarrow> (nat \<times> nat list) list" where
  "with_kid b c bs = map (\<lambda>(d, ks). if d = b then (d, ks @ [c]) else (d, ks)) bs"

lemma map_fst_with_kid [simp]: "map fst (with_kid b c bs) = map fst bs"
  by (auto simp: with_kid_def)

lemma members_with_kid: "set (members (with_kid b c bs)) \<subseteq> insert c (set (members bs))"
  by (auto simp: members_def with_kid_def split: if_splits)

lemma with_kid_absent: "b \<notin> set (map fst bs) \<Longrightarrow> with_kid b c bs = bs"
  by (induction bs) (auto simp: with_kid_def)

lemma fst_members: "set (map fst bs) \<subseteq> set (members bs)"
  by (auto simp: members_def)

lemma boxes_ok_with_kid:
  "boxes_ok L r bs \<Longrightarrow> (b, ks) \<in> set bs \<Longrightarrow> distinct (members bs) \<Longrightarrow> c < length L \<Longrightarrow> snd (snd (L ! c)) = None \<Longrightarrow>
   c \<notin> set (members bs) \<Longrightarrow> boxes_ok (packed b c ks L) r (with_kid b c bs)"
proof (induction bs)
  case (Cons x bs)
  obtain d ls where x: "x = (d, ls)" by (cases x)
  note P = Cons.prems [unfolded x]
  have d: "d < length L" "L ! d = (Some r, first (map fst bs), first ls)" "kids_ok L d ls" "boxes_ok L r bs"
    using P(1) by auto
  have dis: "distinct (members bs)" "distinct ls" "d \<notin> set ls" "set ls \<inter> set (members bs) = {}" "d \<notin> set (members bs)"
    using P(3) by auto
  have lastk: "ks \<noteq> [] \<Longrightarrow> last ks \<in> set ks" by simp
  show ?case
  proof (cases "d = b")
    case True
    then have "b \<notin> set (map fst bs)" using dis(5) fst_members by blast
    then have ks: "ks = ls" and w: "with_kid b c bs = bs" using P(2) True with_kid_absent by force+
    have k: "kids_ok (packed b c ks L) b (ks @ [c])"
      using d(3) dis P(4-6) True ks by (intro kids_ok_packed) auto
    have m: "\<forall>a \<in> set (members bs). packed b c ks L ! a = L ! a"
    proof
      fix a assume a: "a \<in> set (members bs)"
      have "ls \<noteq> [] \<Longrightarrow> last ls \<in> set ls" by simp
      then have "ls \<noteq> [] \<Longrightarrow> a \<noteq> last ls" using a dis(4) by blast
      then show "packed b c ks L ! a = L ! a" using a dis(5) P(6) True ks by (intro packed_other) auto
    qed
    have n: "packed b c ks L ! b = (Some r, first (map fst bs), first (ks @ [c]))"
    proof (cases "ks = []")
      case True
      then show ?thesis using d P(6) \<open>d = b\<close> ks by (subst packed_child) auto
    next
      case False
      then have "packed b c ks L ! b = L ! b" using dis P(6) \<open>d = b\<close> ks lastk by (intro packed_other) auto
      then show ?thesis using d(2) \<open>d = b\<close> ks False by (cases ks) auto
    qed
    show ?thesis using d(1,4) k n True ks w m unfolding x by (simp add: with_kid_def boxes_ok_cong [OF d(4)])
  next
    case False
    then have in_bs: "(b, ks) \<in> set bs" using P(2) by auto
    then have sub: "insert b (set ks) \<subseteq> set (members bs)" by (force simp: members_def)
    have lm: "ks \<noteq> [] \<Longrightarrow> last ks \<in> set (members bs)" using lastk sub by blast
    have B: "boxes_ok (packed b c ks L) r (with_kid b c bs)" using d(4) in_bs dis(1) P(4-6) by (intro Cons.IH) auto
    have o: "packed b c ks L ! a = L ! a" if "a = d \<or> a \<in> set ls" for a
    proof (rule packed_other)
      show "a \<noteq> c" using that P(6) by auto
      show "ks = [] \<longrightarrow> a \<noteq> b" using that False dis(4) sub by auto
      show "ks \<noteq> [] \<longrightarrow> a \<noteq> last ks" using that dis(4,5) lm by auto
    qed
    have k: "kids_ok (packed b c ks L) d ls" using o by (intro kids_ok_cong [OF d(3)]) auto
    have e: "packed b c ks L ! d = (Some r, first (map fst bs), first ls)" using o [of d] d(2) by simp
    have "with_kid b c ((d, ls) # bs) = (d, ls) # with_kid b c bs" using False by (simp add: with_kid_def)
    then show ?thesis unfolding x using d(1) B k e by simp
  qed
qed simp

text \<open>Packing into the root.\<close>

lemma boxes_ok_packed:
  "boxes_ok L r bs \<Longrightarrow> distinct (r # members bs) \<Longrightarrow> c < length L \<Longrightarrow> snd (snd (L ! c)) = None \<Longrightarrow>
   c \<notin> set (r # members bs) \<Longrightarrow> boxes_ok (packed r c (map fst bs) L) r (bs @ [(c, [])])"
proof (induction bs)
  case Nil
  then show ?case by (simp add: packed_def Let_def)
next
  case (Cons x bs)
  obtain d ls where x: "x = (d, ls)" by (cases x)
  note P = Cons.prems [unfolded x]
  let ?L = "packed r c (map fst ((d, ls) # bs)) L"
  have d: "d < length L" "L ! d = (Some r, first (map fst bs), first ls)" "kids_ok L d ls" "boxes_ok L r bs"
    using P(1) by auto
  show ?case
  proof (cases "bs = []")
    case True
    have cd: "c \<noteq> d" "L ! d = (Some r, None, first ls)" using P(5) d(2) True by auto
    then have n: "?L = L[c := (Some r, None, None), d := (Some r, Some c, first ls)]"
      using P(4) True by (simp add: packed_def Let_def)
    have "c \<notin> set ls" "d \<notin> set ls" using P(2,5) by auto
    then have "\<forall>k \<in> set ls. k \<noteq> c \<and> k \<noteq> d" by auto
    then have "kids_ok ?L d ls" unfolding n by (intro kids_ok_cong [OF d(3)]) auto
    then show ?thesis unfolding x n using True d(1) P(3) cd(1) by simp
  next
    case False
    then have e: "?L = packed r c (map fst bs) L" by (simp add: packed_def Let_def)
    have lm: "last (map fst bs) \<in> set (members bs)" using False fst_members last_in_set by blast
    have o: "packed r c (map fst bs) L ! a = L ! a" if "a = d \<or> a \<in> set ls" for a
    proof (rule packed_other)
      show "a \<noteq> c" using that P(5) by auto
      show "map fst bs = [] \<longrightarrow> a \<noteq> r" using False by simp
      show "map fst bs \<noteq> [] \<longrightarrow> a \<noteq> last (map fst bs)" using that P(2) lm by auto
    qed
    have k: "kids_ok (packed r c (map fst bs) L) d ls" using o by (intro kids_ok_cong [OF d(3)]) auto
    have B: "boxes_ok (packed r c (map fst bs) L) r (bs @ [(c, [])])" using P by (intro Cons.IH) auto
    have f: "first (map fst (bs @ [(c, [])])) = first (map fst bs)" using False by (cases bs) simp_all
    have n: "packed r c (map fst bs) L ! d = (Some r, first (map fst bs), first ls)" using o [of d] d(2) by simp
    show ?thesis unfolding x append_Cons boxes_ok.simps e f using d(1) k B n by simp
  qed
qed

section \<open>The operation\<close>

text \<open>What packing does to the heap, but for the place in the box.\<close>

lemma links_setw: "a < length (heap s) \<Longrightarrow>
   links ((heap s)[a := w]) = (links (heap s))[a := (mom w, sib w, child w)]"
  by (simp add: links_def map_update)

lemma same_links_rect: "links (hp[a := (hp ! a)\<lparr>wx := x, wy := y\<rparr>]) = links hp"
  "links (hp[a := (hp ! a)\<lparr>wdata := d\<rparr>]) = links hp"
  by (rule links_same; simp)+

text \<open>The widget that a pointer change is made in keeps all else.\<close>

definition but_links :: "widget \<Rightarrow> widget" where
  "but_links w = w\<lparr>mom := None, sib := None, child := None\<rparr>"

lemma but_links_update: "but_links w = but_links (hp ! a) \<Longrightarrow> map but_links (hp[a := w]) = map but_links hp"
proof (cases "a < length hp")
  case True
  assume "but_links w = but_links (hp ! a)"
  with True have "map but_links (hp[a := w]) = (map but_links hp)[a := map but_links hp ! a]" by (simp add: map_update)
  then show ?thesis by (simp only: list_update_id)
qed (simp add: list_update_beyond)

lemma pack_links:
  assumes p: "p < length (heap s)" "c < length (heap s)" "c \<noteq> p" "c \<notin> set xs"
    and ch: "child (heap s ! p) = first xs" "sibs (links (heap s)) xs"
  shows "\<exists>h. links h = packed p c xs (links (heap s)) \<and> map but_links h = map but_links (heap s) \<and>
    pack_widget (Some p) (Some c) s =
      wbind (if packs (heap s ! p) then Some (box_pack (Some p) (Some c) (s\<lparr>heap := h\<rparr>)) else Some (Inr ((), s\<lparr>heap := h\<rparr>)))
        (\<lambda>(_, s). Some (Inr (Some c, s)))"
proof -
  define h1 where "h1 = (heap s)[c := (heap s ! c)\<lparr>sib := None, mom := Some p\<rparr>]"
  define s1 where "s1 = s\<lparr>heap := h1\<rparr>"
  have st: "setw (Some c) (\<lambda>i. i\<lparr>sib := None, mom := Some p\<rparr>) s = Inr ((), s1)"
    using p by (simp add: s1_def h1_def)
  have l1: "links h1 = (links (heap s))[c := (Some p, None, snd (snd (links (heap s) ! c)))]"
    unfolding h1_def using p links_nth [of c "heap s"] by (simp add: links_setw)
  have len: "length h1 = length (heap s)" by (simp add: h1_def)
  have hp: "h1 ! p = heap s ! p" using p by (simp add: h1_def)
  have b1: "map but_links h1 = map but_links (heap s)"
    unfolding h1_def by (rule but_links_update) (simp add: but_links_def)
  have sb: "sibs (links h1) xs" 
  proof (rule sibs_cong [OF ch(2)])
    show "\<forall>x \<in> set xs. fst (snd (links h1 ! x)) = fst (snd (links (heap s) ! x))"
    proof
      fix x assume "x \<in> set xs"
      with p(4) have "c \<noteq> x" by auto
      then show "fst (snd (links h1 ! x)) = fst (snd (links (heap s) ! x))" by (simp add: l1)
    qed
  qed (simp add: l1)
  show ?thesis
  proof (cases "xs = []")
    case True
    define h where "h = h1[p := (h1 ! p)\<lparr>child := Some c\<rparr>]"
    have "links h = packed p c xs (links (heap s))"
      using True p l1 len links_nth [of p h1] by (simp add: h_def links_def map_update packed_def Let_def)
    moreover have "map but_links h = map but_links (heap s)"
      unfolding b1 [symmetric] h_def by (rule but_links_update) (simp add: but_links_def)
    moreover have "packs (h1 ! p) = packs (heap s ! p)" by (simp add: hp)
    ultimately show ?thesis using True ch p hp len
      unfolding pack_widget_def st by (intro exI [of _ h]) (simp add: s1_def h_def)
  next
    case False
    let ?l = "last xs"
    define h where "h = h1[?l := (h1 ! ?l)\<lparr>sib := Some c\<rparr>]"
    have l: "?l < length h1" using sibs_mem [OF sb, of ?l] False by simp
    have "last_sib (first xs) s1 = Some (Inr (Some ?l, s1))"
      using sb False by (intro last_sib_sibs) (simp_all add: s1_def)
    moreover have "links h = packed p c xs (links (heap s))"
      using False l l1 links_nth [of ?l h1] by (simp add: h_def links_def map_update packed_def Let_def)
    moreover have "map but_links h = map but_links (heap s)"
      unfolding b1 [symmetric] h_def by (rule but_links_update) (simp add: but_links_def)
    ultimately show ?thesis using False ch p hp len l
      unfolding pack_widget_def st by (intro exI [of _ h]) (simp add: s1_def h_def)
  qed
qed

lemma but_links_fields:
  assumes "map but_links h = map but_links h'" "a < length h"
  shows "wx (h ! a) = wx (h' ! a)" "wy (h ! a) = wy (h' ! a)" "ww (h ! a) = ww (h' ! a)" "wh (h ! a) = wh (h' ! a)"
    "wdata (h ! a) = wdata (h' ! a)" "but_links (h ! a) = but_links (h' ! a)" "length h = length h'"
proof -
  show "length h = length h'" using assms(1) by (rule map_eq_imp_length_eq)
  then show e: "but_links (h ! a) = but_links (h' ! a)" using assms by (metis nth_map)
  show "wx (h ! a) = wx (h' ! a)" using arg_cong [OF e, of wx] by (simp add: but_links_def)
  show "wy (h ! a) = wy (h' ! a)" using arg_cong [OF e, of wy] by (simp add: but_links_def)
  show "ww (h ! a) = ww (h' ! a)" using arg_cong [OF e, of ww] by (simp add: but_links_def)
  show "wh (h ! a) = wh (h' ! a)" using arg_cong [OF e, of wh] by (simp add: but_links_def)
  show "wdata (h ! a) = wdata (h' ! a)" using arg_cong [OF e, of wdata] by (simp add: but_links_def)
qed

text \<open>The box \<open>p\<close> with the widgets \<open>xs\<close>, and what else stays the same.\<close>

definition box_ok :: "widget list \<Rightarrow> nat \<Rightarrow> nat list \<Rightarrow> bool" where
  "box_ok hp p xs \<longleftrightarrow> packs (hp ! p) \<and>
     (\<exists>b. wdata (hp ! p) = Box_data b \<and> laid_out (hp ! p) b (map (\<lambda>x. rect (hp ! x)) xs))"

definition others_kept :: "nat \<Rightarrow> nat \<Rightarrow> widget list \<Rightarrow> widget list \<Rightarrow> bool" where
  "others_kept p c hp hp' \<longleftrightarrow> length hp' = length hp \<and>
     (\<forall>a < length hp. a \<noteq> p \<longrightarrow> a \<noteq> c \<longrightarrow> but_links (hp' ! a) = but_links (hp ! a)) \<and>
     stat (hp' ! c) = stat (hp ! c) \<and> rect (hp' ! p) = rect (hp ! p)"

lemma laid_out_cong: "wx w' = wx w \<Longrightarrow> wy w' = wy w \<Longrightarrow> laid_out w' b rs = laid_out w b rs"
proof -
  assume w: "wx w' = wx w" "wy w' = wy w"
  have "behind w' b r = behind w b r" for r by (cases r) (simp add: w)
  then show ?thesis by (simp add: laid_out_def)
qed

lemma pack_result:
  assumes p: "p < length (heap s)" "c < length (heap s)" "c \<noteq> p" "c \<notin> set xs" "p \<notin> set xs"
    and ch: "child (heap s ! p) = first xs" "sibs (links (heap s)) xs"
    and b: "box_ok (heap s) p xs" and c: "0 \<le> ww (heap s ! c)" "0 \<le> wh (heap s ! c)"
  shows "\<exists>h. pack_widget (Some p) (Some c) s = Some (Inr (Some c, s\<lparr>heap := h\<rparr>)) \<and>
    links h = packed p c xs (links (heap s)) \<and> box_ok h p (xs @ [c]) \<and> others_kept p c (heap s) h"
proof -
  obtain h where h: "links h = packed p c xs (links (heap s))" "map but_links h = map but_links (heap s)"
    "pack_widget (Some p) (Some c) s =
      wbind (if packs (heap s ! p) then Some (box_pack (Some p) (Some c) (s\<lparr>heap := h\<rparr>)) else Some (Inr ((), s\<lparr>heap := h\<rparr>)))
        (\<lambda>(_, s). Some (Inr (Some c, s)))"
    using pack_links [OF p(1-4) ch] by blast
  obtain bd where bd: "packs (heap s ! p)" "wdata (heap s ! p) = Box_data bd"
    "laid_out (heap s ! p) bd (map (\<lambda>x. rect (heap s ! x)) xs)" using b by (auto simp: box_ok_def)
  have len: "length h = length (heap s)" using h(2) by (rule map_eq_imp_length_eq)
  note F = but_links_fields [OF h(2)]
  obtain q bd' where q: "box_place (h ! p) (h ! c) bd = (q, bd')" by (rule prod.exhaust)
  obtain x y where "q = (x, y)" by (rule prod.exhaust)
  with q have pl: "box_place (h ! p) (h ! c) bd = ((x, y), bd')" by (simp only:)
  define h1 where "h1 = h[c := (h ! c)\<lparr>wx := x, wy := y\<rparr>]"
  define h2 where "h2 = h1[p := (h1 ! p)\<lparr>wdata := Box_data bd'\<rparr>]"
  have "wdata (h ! p) = Box_data bd" using F(5) [of p] bd(2) p(1) len by simp
  then have bp: "box_pack (Some p) (Some c) (s\<lparr>heap := h\<rparr>) = Inr ((), s\<lparr>heap := h2\<rparr>)"
    using p len by (simp add: box_pack_def pl h1_def h2_def)
  have lnk: "links h2 = packed p c xs (links (heap s))"
    unfolding h2_def h1_def same_links_rect h(1) ..
  have n: "h2 ! p = (h ! p)\<lparr>wdata := Box_data bd'\<rparr>" "h2 ! c = (h ! c)\<lparr>wx := x, wy := y\<rparr>"
    "a \<noteq> p \<Longrightarrow> a \<noteq> c \<Longrightarrow> h2 ! a = h ! a" for a
    using p len by (simp_all add: h2_def h1_def)
  have rp: "wx (h2 ! p) = wx (heap s ! p)" "wy (h2 ! p) = wy (heap s ! p)" "rect (h2 ! p) = rect (heap s ! p)"
    using F(1-4) [of p] p(1) len by (simp_all add: n(1) rect_def)
  have me: "map (\<lambda>x. rect (h2 ! x)) xs = map (\<lambda>x. rect (heap s ! x)) xs"
  proof (rule map_cong [OF refl])
    fix a assume a: "a \<in> set xs"
    then have "a \<noteq> p" "a \<noteq> c" "a < length h" using p sibs_mem [OF ch(2) a] len by auto
    then show "rect (h2 ! a) = rect (heap s ! a)" using F(1-4) [of a] by (simp add: n(3) rect_def)
  qed
  have rc: "rect (h2 ! c) = (x, y, ww (heap s ! c), wh (heap s ! c))"
    using F(3,4) [of c] p(2) len by (simp add: n(2) rect_def)
  have "laid_out (h ! p) bd (map (\<lambda>x. rect (heap s ! x)) xs)"
    using laid_out_cong [of "h ! p" "heap s ! p"] F(1,2) [of p] bd(3) p(1) len by simp
  then have "laid_out (h ! p) bd' (map (\<lambda>x. rect (heap s ! x)) xs @ [(x, y, ww (h ! c), wh (h ! c))])"
    by (rule box_place_apart [OF _ _ _ pl]) (use c F(3,4) [of c] p(2) len in simp_all)
  then have "laid_out (h ! p) bd' (map (\<lambda>x. rect (h2 ! x)) (xs @ [c]))"
    using F(3,4) [of c] p(2) len rc by (simp only: map_append list.map me)
  then have "laid_out (h2 ! p) bd' (map (\<lambda>x. rect (h2 ! x)) (xs @ [c]))"
    using laid_out_cong [of "h2 ! p" "h ! p" bd'] by (simp add: n(1))
  moreover have "packs (h2 ! p)" using arg_cong [OF F(6) [of p], of packs] p(1) len bd(1) by (simp add: n(1) but_links_def)
  ultimately have "box_ok h2 p (xs @ [c])" by (auto simp: box_ok_def n(1))
  moreover have "others_kept p c (heap s) h2"
  proof -
    have "stat (h2 ! c) = stat (heap s ! c)" using arg_cong [OF F(6) [of c], of stat] p(2) len
      by (simp add: n(2) but_links_def)
    moreover have "length h2 = length (heap s)" by (simp add: h2_def h1_def len)
    moreover have "but_links (h2 ! a) = but_links (heap s ! a)" if "a < length (heap s)" "a \<noteq> p" "a \<noteq> c" for a
      using F(6) [of a] that len by (simp add: n(3))
    ultimately show ?thesis using rp(3) by (simp add: others_kept_def)
  qed
  ultimately show ?thesis using h(3) bp bd(1) lnk by (intro exI [of _ h2]) simp
qed

lemma distinct_with_kid:
  "distinct (members bs) \<Longrightarrow> (b, ks) \<in> set bs \<Longrightarrow> c \<notin> set (members bs) \<Longrightarrow> distinct (members (with_kid b c bs))"
proof (induction bs)
  case (Cons x bs)
  obtain d ls where x: "x = (d, ls)" by (cases x)
  note P = Cons.prems [unfolded x]
  show ?case
  proof (cases "d = b")
    case True
    then have "b \<notin> set (map fst bs)" using P(1) fst_members by force
    then have w: "with_kid b c (x # bs) = (b, ls @ [c]) # bs"
      using with_kid_absent [of b bs c] True by (simp add: with_kid_def x)
    show ?thesis unfolding w using P(1,3) True by auto
  next
    case False
    then have in_bs: "(b, ks) \<in> set bs" using P(2) by auto
    have w: "with_kid b c (x # bs) = (d, ls) # with_kid b c bs" using False by (simp add: with_kid_def x)
    have "distinct (members (with_kid b c bs))" using P in_bs by (intro Cons.IH) auto
    then show ?thesis unfolding w using P(1,3) members_with_kid [of b c bs] by auto
  qed
qed simp

lemma boxes_mem:
  "boxes_ok L r bs \<Longrightarrow> (b, ks) \<in> set bs \<Longrightarrow> b < length L \<and> kids_ok L b ks \<and> fst (L ! b) = Some r \<and> snd (snd (L ! b)) = first ks"
  by (induction L r bs rule: boxes_ok.induct) auto

lemma in_members: "(b, ks) \<in> set bs \<Longrightarrow> b \<in> set (members bs) \<and> set ks \<subseteq> set (members bs)"
  by (force simp: members_def)

lemma kids_distinct: "distinct (members bs) \<Longrightarrow> (b, ks) \<in> set bs \<Longrightarrow> distinct (b # ks)"
  by (induction bs) auto

text \<open>C34:
  Packing a widget into a box of a dialog makes it the last one of the box and leaves the rest of
  the tree as it was; the widget gets a place where it overlaps none of the box's widgets, which stay
  where they are.  It holds for rows and for columns, with any number of line breaks.
\<close>

theorem snz_pack:
  assumes t: "tree (links (heap s)) r bs" and b: "(b, ks) \<in> set bs" "box_ok (heap s) b ks"
    and c: "c < length (heap s)" "c \<notin> set (r # members bs)" "child (heap s ! c) = None"
      "0 \<le> ww (heap s ! c)" "0 \<le> wh (heap s ! c)"
  shows "\<exists>h. pack_widget (Some b) (Some c) s = Some (Inr (Some c, s\<lparr>heap := h\<rparr>)) \<and>
    tree (links h) r (with_kid b c bs) \<and> box_ok h b (ks @ [c]) \<and>
    (\<forall>a \<in> set ks. disjoint (rect (h ! a)) (rect (h ! c)) \<and> rect (h ! a) = rect (heap s ! a)) \<and>
    others_kept b c (heap s) h"
proof -
  let ?L = "links (heap s)"
  have bm: "b < length (heap s)" "kids_ok ?L b ks" "snd (snd (?L ! b)) = first ks"
    using boxes_mem [of ?L r bs b ks] t b(1) by (auto simp: tree_def)
  have mem: "b \<in> set (members bs)" "set ks \<subseteq> set (members bs)" using in_members [OF b(1)] by auto
  have dk: "distinct (b # ks)" using kids_distinct [OF _ b(1)] t by (simp add: tree_def)
  have cb: "c \<noteq> b" "c \<notin> set ks" using c(2) mem by auto
  have ch: "child (heap s ! b) = first ks" using bm links_nth [OF bm(1)] by simp
  obtain h where h: "pack_widget (Some b) (Some c) s = Some (Inr (Some c, s\<lparr>heap := h\<rparr>))"
    "links h = packed b c ks ?L" "box_ok h b (ks @ [c])" "others_kept b c (heap s) h"
    using pack_result [OF bm(1) c(1) cb _ ch sibs_kids [OF bm(2)] b(2) c(4,5)] dk by auto
  have lc: "snd (snd (?L ! c)) = None" using links_nth [OF c(1)] c(3) by simp
  have "packed b c ks ?L ! r = ?L ! r"
  proof (rule packed_other)
    show "r \<noteq> c" using c(2) by auto
    show "ks = [] \<longrightarrow> r \<noteq> b" using t mem by (auto simp: tree_def)
    show "ks \<noteq> [] \<longrightarrow> r \<noteq> last ks" using t mem last_in_set by (fastforce simp: tree_def)
  qed
  moreover have "boxes_ok (packed b c ks ?L) r (with_kid b c bs)"
    using t b(1) c(1,2) lc by (intro boxes_ok_with_kid) (auto simp: tree_def)
  moreover have "distinct (r # members (with_kid b c bs))"
    using distinct_with_kid [OF _ b(1), of c] members_with_kid [of b c bs] t c(2) by (auto simp: tree_def)
  ultimately have "tree (links h) r (with_kid b c bs)" using t unfolding h(2) tree_def by simp
  moreover have "disjoint (rect (h ! a)) (rect (h ! c))" if "a \<in> set ks" for a
    using h(3) that by (auto simp: box_ok_def laid_out_def sorted_wrt_append)
  moreover have "rect (h ! a) = rect (heap s ! a)" if a: "a \<in> set ks" for a
  proof -
    have "a \<noteq> b" "a \<noteq> c" "a < length (heap s)" using a dk cb sibs_mem [OF sibs_kids [OF bm(2)] a] by auto
    then have "but_links (h ! a) = but_links (heap s ! a)" using h(4) by (simp add: others_kept_def)
    from arg_cong [OF this, of rect] show ?thesis by (simp add: rect_def but_links_def)
  qed
  ultimately show ?thesis using h(1,3,4) by (intro exI [of _ h]) simp
qed

text \<open>A box with a button, and a second button for it.\<close>

definition demo_pack :: snz where
  "demo_pack = (snz_start \<lparr>room = 9, null_int = None, junk_rad = None, winsize_ok = True, errtext = [], keys = (\<lambda>_. None), junk_key = 0\<rparr>)
     \<lparr>heap :=
       [blank_widget\<lparr>child := Some 1, ww := 80, wh := 25\<rparr>,
        blank_widget\<lparr>wx := 1, ww := 20, wh := 4, mom := Some 0, child := Some 2, packs := True,
          wdata := Box_data \<lparr>xpos = 10, ypos = 0, xpad = 1, ypad = 0, bmax = 1, btype = 0\<rparr>\<rparr>,
        blank_widget\<lparr>wx := 2, ww := 8, wh := 1, mom := Some 1\<rparr>,
        blank_widget\<lparr>ww := 12, wh := 1\<rparr>]\<rparr>"

lemma snz_pack_witness:
  "\<exists>h. pack_widget (Some 1) (Some 3) demo_pack = Some (Inr (Some 3, demo_pack\<lparr>heap := h\<rparr>)) \<and>
    tree (links h) 0 [(1, [2, 3])] \<and> disjoint (rect (h ! 2)) (rect (h ! 3))"
proof -
  have t: "tree (links (heap demo_pack)) 0 [(1, [2])]"
    by (simp add: tree_def links_def demo_pack_def blank_widget_def)
  have b: "(1, [2]) \<in> set [(1 :: nat, [2 :: nat])]" by simp
  have o: "box_ok (heap demo_pack) 1 [2]"
    by (simp add: box_ok_def laid_out_def rect_def demo_pack_def blank_widget_def)
  have c: "3 < length (heap demo_pack)" "(3 :: nat) \<notin> set (0 # members [(1, [2])])" "child (heap demo_pack ! 3) = None"
    "0 \<le> ww (heap demo_pack ! 3)" "0 \<le> wh (heap demo_pack ! 3)"
    by (simp_all add: demo_pack_def blank_widget_def)
  have w: "with_kid 1 3 [(1, [2])] = [(1, [2, 3])]" by (simp add: with_kid_def)
  from snz_pack [OF t b o c] show ?thesis unfolding w by auto
qed

end
