(* ===== verification/Snazzy_Show.thy ===== *)
theory Snazzy_Show
  imports Snazzy_Tree
begin

text \<open>
  Redrawing: the loop draws every visible widget that has changed, in the order of the tree, and
  leaves none of them changed.
\<close>

section \<open>Drawn widgets\<close>

lemma and_not_id: "x AND b = 0 \<Longrightarrow> x AND NOT b = (x :: 'a :: len word)"
proof -
  assume b: "x AND b = 0"
  have "x = x AND (b OR NOT b)" by simp
  also have "\<dots> = (x AND b) OR (x AND NOT b)" by (simp only: bit.conj_disj_distrib)
  finally show ?thesis using b by simp
qed

lemma clean_off: "\<not> has w DIRTY \<Longrightarrow> stat_off DIRTY w = w"
  by (simp add: has_def stat_off_def and_not_id)

lemma has_off [simp]: "\<not> has (stat_off DIRTY w) DIRTY" "has (stat_off DIRTY w) HIDDEN = has w HIDDEN"
  by (simp_all add: has_def stat_off_def stat_bits and.assoc)

text \<open>What painting writes, where it succeeds.\<close>

definition ptext :: "snz \<Rightarrow> drawer \<Rightarrow> widget \<Rightarrow> bytes" where
  "ptext s d i = (case widget_text (inputs s) d i of Inl _ \<Rightarrow> [] | Inr t \<Rightarrow> t)"

definition paintable :: "snz \<Rightarrow> widget \<Rightarrow> bool" where
  "paintable s i \<longleftrightarrow> (\<forall>d. draw i = Some d \<longrightarrow> (case widget_text (inputs s) d i of Inl _ \<Rightarrow> False | Inr _ \<Rightarrow> True))"

definition drawn :: "snz \<Rightarrow> widget \<Rightarrow> bytes" where
  "drawn s i = (if has i DIRTY then case draw i of None \<Rightarrow> [] | Some d \<Rightarrow> ptext s d i else [])"

lemma paint_ptext: "draw i = Some d \<Longrightarrow> paintable s i \<Longrightarrow> paint d i s = Inr ((), put (ptext s d i) s)"
  by (auto simp: paintable_def ptext_def paint_def split: sum.splits)

lemma ptext_cong: "inputs t = inputs s \<Longrightarrow> ptext t d i = ptext s d i"
  by (simp add: ptext_def)

lemma paintable_cong: "inputs t = inputs s \<Longrightarrow> paintable t i = paintable s i"
  by (simp add: paintable_def)

lemma drawn_cong: "inputs t = inputs s \<Longrightarrow> drawn t i = drawn s i"
  by (cases "draw i") (simp_all add: drawn_def ptext_def)

definition cleaned :: "nat list \<Rightarrow> widget list \<Rightarrow> widget list" where
  "cleaned xs hp = fold (\<lambda>k hp. hp[k := stat_off DIRTY (hp ! k)]) xs hp"

lemma cleaned_simps [simp]: "cleaned [] hp = hp" "cleaned (x # xs) hp = cleaned xs (hp[x := stat_off DIRTY (hp ! x)])"
  "length (cleaned xs hp) = length hp" "cleaned (xs @ ys) hp = cleaned ys (cleaned xs hp)"
proof -
  show "length (cleaned xs hp) = length hp" unfolding cleaned_def by (induction xs arbitrary: hp) auto
qed (simp_all add: cleaned_def)

lemma cleaned_other: "a \<notin> set xs \<Longrightarrow> cleaned xs hp ! a = hp ! a"
  by (induction xs arbitrary: hp) auto

lemma links_stat [simp]: "links (hp[x := stat_off b (hp ! x)]) = links hp" "links (hp[x := stat_on b (hp ! x)]) = links hp"
  by (rule links_same; simp)+

lemma links_cleaned [simp]: "links (cleaned xs hp) = links hp"
proof (induction xs arbitrary: hp)
  case (Cons x xs)
  have "links (hp[x := stat_off DIRTY (hp ! x)]) = links hp" by (rule links_same) simp_all
  with Cons show ?case by simp
qed simp

lemma has_cleaned_hidden: "has (cleaned xs hp ! a) HIDDEN = has (hp ! a) HIDDEN"
proof (induction xs arbitrary: hp)
  case (Cons x xs)
  have "has (hp[x := stat_off DIRTY (hp ! x)] ! a) HIDDEN = has (hp ! a) HIDDEN"
    by (cases "x < length hp"; cases "a = x") (simp_all add: list_update_beyond)
  with Cons show ?case by simp
qed simp

text \<open>Some widgets shown, and the loop at \<open>p\<close>.\<close>

definition shown :: "nat list \<Rightarrow> nat option \<Rightarrow> snz \<Rightarrow> snz" where
  "shown xs p s = s\<lparr>heap := cleaned xs (heap s), obj := p, tty := tty s @ concat (map (\<lambda>k. drawn s (heap s ! k)) xs)\<rparr>"

lemma shown_simps [simp]: "obj (shown xs p s) = p" "iobj (shown xs p s) = iobj s" "inputs (shown xs p s) = inputs s"
  "heap (shown xs p s) = cleaned xs (heap s)"
  by (simp_all add: shown_def)

lemma shown_shown:
  assumes "set xs \<inter> set ys = {}"
  shows "shown ys q (shown xs p s) = shown (xs @ ys) q s"
proof -
  have m: "map (\<lambda>k. drawn (shown xs p s) (cleaned xs (heap s) ! k)) ys = map (\<lambda>k. drawn s (heap s ! k)) ys"
  proof (rule map_cong [OF refl])
    fix k assume "k \<in> set ys"
    then have "k \<notin> set xs" using assms by auto
    then show "drawn (shown xs p s) (cleaned xs (heap s) ! k) = drawn s (heap s ! k)"
      by (simp add: cleaned_other drawn_cong [OF shown_simps(3)])
  qed
  show ?thesis unfolding shown_def [of ys q "shown xs p s"] shown_simps m by (simp add: shown_def)
qed

lemma shown_iobj: "shown xs p (s\<lparr>iobj := q\<rparr>) = (shown xs p s)\<lparr>iobj := q\<rparr>"
proof -
  have "drawn (s\<lparr>iobj := q\<rparr>) i = drawn s i" for i by (rule drawn_cong) simp
  then show ?thesis by (simp add: shown_def)
qed

lemma shown_nil: "shown [] p s = s\<lparr>obj := p\<rparr>"
  by (simp add: shown_def)

section \<open>Steps\<close>

lemma display_end: "obj s = None \<Longrightarrow> display_loop s = Some (Inr ((), s))"
  by (subst display_loop.simps) (simp add: getnext_def)

lemma display_leaf:
  assumes g: "getnext s = Inr (Some a, s\<lparr>obj := p\<rparr>)" and a: "a < length (heap s)" "\<not> has (heap s ! a) HIDDEN"
    "draw (heap s ! a) \<noteq> Some Box_draw \<or> \<not> has (heap s ! a) DIRTY" "paintable s (heap s ! a)"
  shows "display_loop s = display_loop (shown [a] p s)"
proof (cases "has (heap s ! a) DIRTY")
  case False
  then have "shown [a] p s = s\<lparr>obj := p\<rparr>" by (simp add: shown_def drawn_def clean_off)
  then show ?thesis using g a False by (subst display_loop.simps) simp
next
  case True
  define h where "h = (heap s)[a := stat_off DIRTY (heap s ! a)]"
  have l: "display_loop s = wbind (if draw (heap s ! a) = None then Some (Inr ((), s\<lparr>obj := p, heap := h\<rparr>))
      else Some (paint (the (draw (heap s ! a))) (heap s ! a) (s\<lparr>obj := p, heap := h\<rparr>))) (\<lambda>(_, s). display_loop s)"
    using g a True by (subst display_loop.simps) (simp add: h_def)
  show ?thesis
  proof (cases "draw (heap s ! a)")
    case None
    then have "shown [a] p s = s\<lparr>obj := p, heap := h\<rparr>" by (simp add: shown_def drawn_def h_def)
    then show ?thesis using l None by simp
  next
    case (Some d)
    have "paintable (s\<lparr>obj := p, heap := h\<rparr>) (heap s ! a)" using a(4) by (subst paintable_cong [of _ s]) simp_all
    then have "paint d (heap s ! a) (s\<lparr>obj := p, heap := h\<rparr>) =
        Inr ((), put (ptext (s\<lparr>obj := p, heap := h\<rparr>) d (heap s ! a)) (s\<lparr>obj := p, heap := h\<rparr>))"
      by (rule paint_ptext [OF Some])
    moreover have "ptext (s\<lparr>obj := p, heap := h\<rparr>) d (heap s ! a) = ptext s d (heap s ! a)" by (rule ptext_cong) simp
    moreover have "shown [a] p s = put (ptext s d (heap s ! a)) (s\<lparr>obj := p, heap := h\<rparr>)"
      using Some True by (simp add: shown_def drawn_def put_def h_def)
    ultimately show ?thesis using l Some by simp
  qed
qed

lemma display_hidden:
  assumes "getnext s = Inr (Some a, t)" "a < length (heap t)" "has (heap t ! a) HIDDEN" "nextsib t = Inr ((), u)"
  shows "display_loop s = display_loop u"
  using assms by (subst display_loop.simps) simp

lemma display_box:
  assumes g: "getnext s = Inr (Some a, s\<lparr>obj := p\<rparr>)" and a: "a < length (heap s)" "\<not> has (heap s ! a) HIDDEN"
    "draw (heap s ! a) = Some Box_draw" "has (heap s ! a) DIRTY"
  shows "display_loop s = wbind (display_loop (istart (child (heap s ! a)) (shown [a] p s))) (\<lambda>(_, s). display_loop s)"
proof -
  have "ptext s Box_draw i = []" for i by (simp add: ptext_def widget_text_def)
  then have "shown [a] p s = s\<lparr>obj := p, heap := (heap s)[a := stat_off DIRTY (heap s ! a)]\<rparr>"
    using a by (simp add: shown_def drawn_def)
  then show ?thesis using g a by (subst display_loop.simps) simp
qed

section \<open>The loop\<close>

text \<open>Widgets in boxes are no boxes and not hidden; only boxes have widgets, and every box has some.\<close>

definition leaf_ok :: "snz \<Rightarrow> nat \<Rightarrow> bool" where
  "leaf_ok s k \<longleftrightarrow> \<not> has (heap s ! k) HIDDEN \<and> draw (heap s ! k) \<noteq> Some Box_draw \<and> paintable s (heap s ! k)"

definition box_shape :: "snz \<Rightarrow> nat \<times> nat list \<Rightarrow> bool" where
  "box_shape s = (\<lambda>(b, ks). (\<forall>k \<in> set ks. leaf_ok s k) \<and> paintable s (heap s ! b) \<and>
     (draw (heap s ! b) = Some Box_draw \<longleftrightarrow> ks \<noteq> []) \<and> (has (heap s ! b) HIDDEN \<longrightarrow> ks \<noteq> []))"

lemma leaf_ok_shown: "k \<notin> set xs \<Longrightarrow> leaf_ok (shown xs p s) k = leaf_ok s k"
  by (simp add: leaf_ok_def cleaned_other paintable_cong [of "shown xs p s" s])

lemma box_shape_shown: "set (b # ks) \<inter> set xs = {} \<Longrightarrow> box_shape (shown xs p s) (b, ks) = box_shape s (b, ks)"
proof -
  assume d: "set (b # ks) \<inter> set xs = {}"
  then have "\<forall>k \<in> set ks. leaf_ok (shown xs p s) k = leaf_ok s k" using leaf_ok_shown by fastforce
  with d show ?thesis
    by (simp add: box_shape_def cleaned_other paintable_cong [of "shown xs p s" s])
qed

lemma leaf_ok_cong: "heap t = heap s \<Longrightarrow> inputs t = inputs s \<Longrightarrow> leaf_ok t k = leaf_ok s k"
  by (simp add: leaf_ok_def paintable_cong [of t s])

lemma box_shape_cong: "heap t = heap s \<Longrightarrow> inputs t = inputs s \<Longrightarrow> box_shape t x = box_shape s x"
  by (cases x) (simp add: box_shape_def leaf_ok_cong [of t s] paintable_cong [of t s])

lemma display_kids:
  assumes "links (heap s) = L" "kids_ok L b ks" "L ! b = (Some r, n, c)" "b < length L" "obj s = first ks" "ks \<noteq> []"
    "iobj s \<noteq> Some b" "\<forall>k \<in> set ks. leaf_ok s k" "distinct ks"
  shows "display_loop s = display_loop (shown ks n s)"
  using assms
proof (induction ks arbitrary: s)
  case (Cons k ks)
  let ?n = "if ks = [] then n else first ks"
  have k: "k < length (heap s)" "leaf_ok s k" using Cons.prems(1,2,8) by auto
  have "getnext s = Inr (Some k, s\<lparr>obj := ?n\<rparr>)"
    using getnext_kid [OF Cons.prems(1,2,3,4)] Cons.prems(5,7) by simp
  then have w: "display_loop s = display_loop (shown [k] ?n s)"
    using k by (intro display_leaf) (auto simp: leaf_ok_def)
  show ?case
  proof (cases "ks = []")
    case True
    then show ?thesis using w by simp
  next
    case False
    have "\<forall>k' \<in> set ks. leaf_ok (shown [k] (first ks) s) k'"
    proof
      fix k' assume k': "k' \<in> set ks"
      then have "k' \<notin> set [k]" using Cons.prems(9) by auto
      then show "leaf_ok (shown [k] (first ks) s) k'" using Cons.prems(8) k' by (simp add: leaf_ok_shown)
    qed
    then have "display_loop (shown [k] (first ks) s) = display_loop (shown ks n (shown [k] (first ks) s))"
      using Cons.prems False by (intro Cons.IH) (auto simp del: cleaned_simps(2))
    moreover have "shown ks n (shown [k] (first ks) s) = shown ([k] @ ks) n s"
      using Cons.prems(9) by (intro shown_shown) auto
    ultimately show ?thesis using w False by simp
  qed
qed simp

text \<open>The visible widgets, in the order of the tree.\<close>

definition in_sight :: "widget list \<Rightarrow> nat \<times> nat list \<Rightarrow> nat list" where
  "in_sight hp = (\<lambda>(b, ks). if has (hp ! b) HIDDEN then [] else b # ks)"

definition visible :: "widget list \<Rightarrow> (nat \<times> nat list) list \<Rightarrow> nat list" where
  "visible hp bs = concat (map (in_sight hp) bs)"

lemma visible_members: "set (visible hp bs) \<subseteq> set (members bs)"
  by (auto simp: visible_def in_sight_def members_def split: if_splits)

lemma visible_cleaned: "visible (cleaned xs hp) bs = visible hp bs"
  unfolding visible_def in_sight_def has_cleaned_hidden ..

text \<open>Where the loop may have been started, so that it does not end too early.\<close>

definition start_ok :: "snz \<Rightarrow> (nat \<times> nat list) list \<Rightarrow> bool" where
  "start_ok s bs \<longleftrightarrow> (case bs of [] \<Rightarrow> True | (b, ks) # bs \<Rightarrow>
     (\<forall>a \<in> set ks \<union> set (members bs). iobj s \<noteq> Some a) \<and>
     (iobj s = Some b \<longrightarrow> has (heap s ! b) HIDDEN \<or> has (heap s ! b) DIRTY \<or> ks = []))"

lemma start_ok_fresh: "\<forall>a \<in> set (members bs). iobj s \<noteq> Some a \<Longrightarrow> start_ok s bs"
  by (auto simp: start_ok_def split: list.splits)

lemma shown_obj: "shown xs p (s\<lparr>obj := q\<rparr>) = shown xs p s"
proof -
  have "drawn (s\<lparr>obj := q\<rparr>) i = drawn s i" for i by (rule drawn_cong) simp
  then show ?thesis by (simp add: shown_def)
qed

lemma display_boxes:
  assumes "links (heap s) = L" "boxes_ok L r bs" "L ! r = (None, None, c)" "r < length L" "obj s = first (map fst bs)"
    "distinct (members bs)" "\<forall>x \<in> set bs. box_shape s x" "start_ok s bs"
  shows "\<exists>io. display_loop s = Some (Inr ((), (shown (visible (heap s) bs) None s)\<lparr>iobj := io\<rparr>))"
  using assms
proof (induction bs arbitrary: s)
  case Nil
  then have "shown (visible (heap s) []) None s = s" by (simp add: visible_def shown_nil)
  then show ?case using Nil by (intro exI [of _ "iobj s"]) (simp add: display_end)
next
  case (Cons x bs)
  obtain b ks where x: "x = (b, ks)" by (cases x)
  note P = Cons.prems [unfolded x]
  let ?n = "first (map fst bs)" and ?V = "visible (heap s) bs"
  have b: "b < length (heap s)" "b < length L" "L ! b = (Some r, ?n, first ks)" "kids_ok L b ks" "boxes_ok L r bs"
    using P(1,2) by auto
  have dis: "distinct (b # ks)" "set (b # ks) \<inter> set (members bs) = {}" "distinct (members bs)" using P(6) by auto
  have sh: "\<forall>k \<in> set ks. leaf_ok s k" "paintable s (heap s ! b)" "draw (heap s ! b) = Some Box_draw \<longleftrightarrow> ks \<noteq> []"
    "has (heap s ! b) HIDDEN \<longrightarrow> ks \<noteq> []" using P(7) by (auto simp: box_shape_def)
  have io: "\<forall>a \<in> set ks \<union> set (members bs). iobj s \<noteq> Some a"
    "iobj s = Some b \<longrightarrow> has (heap s ! b) HIDDEN \<or> has (heap s ! b) DIRTY \<or> ks = []"
    using P(8) by (auto simp: start_ok_def)
  have g: "getnext s = Inr (Some b, s\<lparr>obj := (if ks = [] then ?n else first ks)\<rparr>)"
    using getnext_box [OF P(1,2,3,4)] P(5) by simp
  have rest: "\<exists>io. display_loop ((shown ys ?n s)\<lparr>iobj := q\<rparr>) = Some (Inr ((), (shown (ys @ ?V) None s)\<lparr>iobj := io\<rparr>))"
    if q: "\<forall>a \<in> set (members bs). q \<noteq> Some a" and ys: "set ys \<subseteq> set (b # ks)" for q ys
  proof -
    let ?T = "(shown ys ?n s)\<lparr>iobj := q\<rparr>"
    have "\<exists>io. display_loop ?T = Some (Inr ((), (shown (visible (heap ?T) bs) None ?T)\<lparr>iobj := io\<rparr>))"
    proof (rule Cons.IH)
      show "\<forall>x \<in> set bs. box_shape ?T x"
      proof
        fix y assume y: "y \<in> set bs"
        obtain d ls where d: "y = (d, ls)" by (cases y)
        have "set (d # ls) \<subseteq> set (members bs)" using y unfolding d members_def by force
        then have "set (d # ls) \<inter> set ys = {}" using dis(2) ys by blast
        then have "box_shape (shown ys ?n s) (d, ls) = box_shape s (d, ls)" by (rule box_shape_shown)
        moreover have "box_shape s (d, ls)" using Cons.prems(7) y d by simp
        ultimately show "box_shape ?T y"
          using box_shape_cong [of ?T "shown ys ?n s" y] by (simp add: d)
      qed
      show "start_ok ?T bs" using q by (intro start_ok_fresh) simp
    qed (use P b dis in auto)
    moreover have "visible (heap ?T) bs = ?V" by (simp add: visible_cleaned)
    moreover have "shown ?V None ?T = (shown (ys @ ?V) None s)\<lparr>iobj := q\<rparr>"
      unfolding shown_iobj using ys dis(2) visible_members [of "heap s" bs] by (subst shown_shown) auto
    ultimately show ?thesis by simp
  qed
  have ios: "(shown ys p s)\<lparr>iobj := iobj s\<rparr> = shown ys p s" for ys p by (simp add: shown_def)
  show ?case
  proof (cases "has (heap s ! b) HIDDEN")
    case True
    then obtain k ks' where k: "ks = k # ks'" using sh(4) by (cases ks) auto
    have "nextsib (s\<lparr>obj := Some k\<rparr>) = Inr ((), s\<lparr>obj := ?n\<rparr>)"
      using nextsib_kid [of "s\<lparr>obj := Some k\<rparr>", OF _ b(4) [unfolded k] b(3,2)] P(1) io(1) k by simp
    then have "display_loop s = display_loop (s\<lparr>obj := ?n\<rparr>)"
      using g k b(1) True by (intro display_hidden) auto
    then have "display_loop s = display_loop ((shown [] ?n s)\<lparr>iobj := iobj s\<rparr>)" by (simp add: shown_nil)
    moreover have "visible (heap s) (x # bs) = [] @ ?V" using True by (simp add: visible_def in_sight_def x)
    ultimately show ?thesis using rest [of "iobj s" "[]"] io(1) by simp
  next
    case vis: False
    have V: "visible (heap s) (x # bs) = (b # ks) @ ?V" using vis by (simp add: visible_def in_sight_def x)
    show ?thesis
    proof (cases "ks = []")
      case True
      then have "display_loop s = display_loop (shown [b] ?n s)"
        using g b(1) vis sh by (intro display_leaf) auto
      then have "display_loop s = display_loop ((shown (b # ks) ?n s)\<lparr>iobj := iobj s\<rparr>)" using True by (simp only: ios)
      then show ?thesis using rest [of "iobj s" "b # ks"] io(1) unfolding V by simp
    next
      case ks: False
      let ?S = "shown [b] (first ks) s"
      have lk: "\<forall>k \<in> set ks. leaf_ok ?S k"
      proof
        fix k assume "k \<in> set ks"
        then show "leaf_ok ?S k" using dis(1) sh(1) leaf_ok_shown [of k "[b]" "first ks" s] by auto
      qed
      have app: "shown ks ?n ?S = shown (b # ks) ?n s" using dis(1) by (subst shown_shown) auto
      show ?thesis
      proof (cases "has (heap s ! b) DIRTY")
        case False
        then have "display_loop s = display_loop ?S" using g b(1) vis sh ks by (intro display_leaf) auto
        also have "\<dots> = display_loop (shown ks ?n ?S)"
          using P(1) b ks io False vis lk dis(1) by (intro display_kids [OF _ b(4,3,2)]) auto
        finally have "display_loop s = display_loop ((shown (b # ks) ?n s)\<lparr>iobj := iobj s\<rparr>)" by (simp only: app ios)
        then show ?thesis using rest [of "iobj s" "b # ks"] io(1) unfolding V by simp
      next
        case True
        let ?T = "?S\<lparr>iobj := first ks\<rparr>"
        have ch: "child (heap s ! b) = first ks" using b(3) P(1) links_nth [OF b(1)] by auto
        have it: "istart (first ks) ?S = ?T" by (simp add: istart_def shown_def)
        have d: "display_loop s = wbind (display_loop ?T) (\<lambda>(_, s). display_loop s)"
          using display_box [of s b "first ks"] g b(1) vis sh ks True ch it by simp
        have ne: "first ks \<noteq> Some b" using dis(1) ks by (cases ks) auto
        have "display_loop ?T = display_loop (shown ks ?n ?T)"
        proof (rule display_kids [OF _ b(4,3,2)])
          show "\<forall>k \<in> set ks. leaf_ok ?T k"
            using lk leaf_ok_cong [of ?T ?S] by simp
        qed (use P(1) ks ne dis(1) in auto)
        also have "shown ks ?n ?T = (shown (b # ks) ?n s)\<lparr>iobj := first ks\<rparr>" unfolding shown_iobj app ..
        finally have t: "display_loop ?T = display_loop ((shown (b # ks) ?n s)\<lparr>iobj := first ks\<rparr>)" .
        have "\<forall>a \<in> set (members bs). first ks \<noteq> Some a" using dis(2) ks by (cases ks) auto
        from rest [OF this subset_refl] obtain q where
          q: "display_loop ?T = Some (Inr ((), (shown ((b # ks) @ ?V) None s)\<lparr>iobj := q\<rparr>))" unfolding t by blast
        have "display_loop s = Some (Inr ((), (shown ((b # ks) @ ?V) None s)\<lparr>iobj := q\<rparr>))"
          unfolding d q by (simp add: display_end del: append_Cons)
        then show ?thesis unfolding V by blast
      qed
    qed
  qed
qed

section \<open>All of it\<close>

lemma cleaned_clean: "a \<in> set xs \<Longrightarrow> a < length hp \<Longrightarrow> \<not> has (cleaned xs hp ! a) DIRTY"
proof (induction xs arbitrary: hp)
  case (Cons x xs)
  show ?case
  proof (cases "a \<in> set xs")
    case True
    with Cons show ?thesis by simp
  next
    case False
    then show ?thesis using Cons.prems by (simp add: cleaned_other)
  qed
qed simp

lemma boxes_kids_len: "kids_ok L b ks \<Longrightarrow> k \<in> set ks \<Longrightarrow> k < length L"
  by (induction ks) auto

lemma members_len: "boxes_ok L r bs \<Longrightarrow> a \<in> set (members bs) \<Longrightarrow> a < length L"
  by (induction L r bs rule: boxes_ok.induct) (auto dest: boxes_kids_len)

lemma visible_clean:
  assumes "tree (links (heap s)) r bs"
  shows "\<forall>a \<in> set (r # visible (heap s) bs). \<not> has (cleaned (r # visible (heap s) bs) (heap s) ! a) DIRTY"
proof
  fix a assume a: "a \<in> set (r # visible (heap s) bs)"
  then have "a < length (heap s)"
    using assms members_len [of "links (heap s)" r bs a] visible_members [of "heap s" bs] by (auto simp: tree_def)
  with a show "\<not> has (cleaned (r # visible (heap s) bs) (heap s) ! a) DIRTY" by (rule cleaned_clean)
qed

text \<open>The whole loop, from the root.\<close>

lemma display_all:
  assumes t: "tree (links (heap s)) r bs" and r: "\<not> has (heap s ! r) HIDDEN" "draw (heap s ! r) = Some Box_draw" "bs \<noteq> []"
    and b: "\<forall>x \<in> set bs. box_shape s x"
    and f: "has (heap s ! r) DIRTY \<longrightarrow> (case hd bs of (b, ks) \<Rightarrow> has (heap s ! b) HIDDEN \<or> has (heap s ! b) DIRTY \<or> ks = [])"
  shows "\<exists>io. display_widgets (Some r) s =
    Some (Inr ((), (shown (r # visible (heap s) bs) None (istart (Some r) s))\<lparr>iobj := io\<rparr>))"
proof -
  let ?V = "visible (heap s) bs" and ?n = "first (map fst bs)"
  have T: "r < length (heap s)" "links (heap s) ! r = (None, None, ?n)" "boxes_ok (links (heap s)) r bs"
    "distinct (r # members bs)" using t by (auto simp: tree_def)
  define s0 where "s0 = istart (Some r) s"
  have s0: "heap s0 = heap s" "inputs s0 = inputs s" "tty s0 = tty s" "obj s0 = Some r" "iobj s0 = Some r"
    by (simp_all add: s0_def istart_def)
  have g: "getnext s0 = Inr (Some r, s0\<lparr>obj := ?n\<rparr>)" using getnext_root [of s0 r bs] t s0 by simp
  have rm: "r \<notin> set (members bs)" "r \<notin> set ?V" using T(4) visible_members [of "heap s" bs] by auto
  have go: "\<exists>io. display_loop u = Some (Inr ((), (shown (r # ?V) None s0)\<lparr>iobj := io\<rparr>))"
    if u: "u = (shown [r] ?n s0)\<lparr>iobj := q\<rparr>" and st: "start_ok u bs" for u q
  proof -
    have hu: "heap u = cleaned [r] (heap s)" "inputs u = inputs s" "obj u = ?n" by (simp_all add: u s0)
    have "\<exists>io. display_loop u = Some (Inr ((), (shown (visible (heap u) bs) None u)\<lparr>iobj := io\<rparr>))"
    proof (rule display_boxes [OF _ _ _ _ _ _ _ st])
      show "\<forall>x \<in> set bs. box_shape u x"
      proof
        fix y assume y: "y \<in> set bs"
        obtain d ls where d: "y = (d, ls)" by (cases y)
        have "set (d # ls) \<subseteq> set (members bs)" using y unfolding d members_def by force
        then have "set (d # ls) \<inter> set [r] = {}" using rm(1) by auto
        then have "box_shape (shown [r] ?n s0) (d, ls) = box_shape s0 (d, ls)" by (rule box_shape_shown)
        moreover have "box_shape s0 (d, ls)" using b y d box_shape_cong [of s0 s "(d, ls)"] s0 by simp
        ultimately show "box_shape u y" using box_shape_cong [of u "shown [r] ?n s0" y] by (simp add: u d)
      qed
    qed (use T hu in auto)
    moreover have "visible (heap u) bs = ?V" unfolding hu visible_cleaned ..
    moreover have "shown ?V None u = (shown (r # ?V) None s0)\<lparr>iobj := q\<rparr>"
      unfolding u shown_iobj using rm(2) by (subst shown_shown) auto
    ultimately show ?thesis by simp
  qed
  have "\<exists>io. display_widgets (Some r) s = Some (Inr ((), (shown (r # ?V) None s0)\<lparr>iobj := io\<rparr>))"
  proof (cases "has (heap s ! r) DIRTY")
    case False
    have p: "paintable s0 (heap s0 ! r)" using r(2) by (simp add: paintable_def s0 widget_text_def)
    have "display_loop s0 = display_loop (shown [r] ?n s0)"
      using g T(1) r s0 False p by (intro display_leaf) auto
    moreover have "shown [r] ?n s0 = (shown [r] ?n s0)\<lparr>iobj := Some r\<rparr>" using s0 by (simp add: shown_def)
    moreover have "start_ok (shown [r] ?n s0) bs" using rm(1) s0 by (intro start_ok_fresh) auto
    ultimately show ?thesis using go [of "shown [r] ?n s0" "Some r"] by (simp add: display_widgets_def s0_def)
  next
    case True
    let ?u = "(shown [r] ?n s0)\<lparr>iobj := ?n\<rparr>"
    have ch: "child (heap s ! r) = ?n" using T(1,2) links_nth [OF T(1)] by auto
    have it: "istart ?n (shown [r] ?n s0) = ?u" by (simp add: istart_def shown_def)
    have d: "display_loop s0 = wbind (display_loop ?u) (\<lambda>(_, s). display_loop s)"
      using display_box [of s0 r ?n] g T(1) r s0 True ch it by simp
    have "start_ok ?u bs"
    proof (cases bs)
      case (Cons x bs')
      obtain b ks where x: "x = (b, ks)" by (cases x)
      have "b \<noteq> r" using rm(1) by (auto simp: Cons x)
      then show ?thesis using f True T(4) s0 by (auto simp: start_ok_def Cons x)
    qed (use r in simp)
    from go [OF refl this] obtain q where
      q: "display_loop ?u = Some (Inr ((), (shown (r # ?V) None s0)\<lparr>iobj := q\<rparr>))" by blast
    then have "display_loop s0 = Some (Inr ((), (shown (r # ?V) None s0)\<lparr>iobj := q\<rparr>))"
      unfolding d by (simp add: display_end)
    then show ?thesis by (auto simp: display_widgets_def s0_def)
  qed
  then show ?thesis by (simp only: s0_def)
qed

text \<open>C25:
  After a change, \<open>display_widgets\<close> writes the texts of all visible widgets that are dirty, in the
  order of the tree, and nothing else, and afterwards no visible widget is dirty; hidden boxes and
  what is in them stay as they are.  The boxes draw themselves with the same loop, which moves its
  place in the tree and its origin; the condition on the first box is what keeps the loop from
  ending early.
\<close>

theorem snz_display:
  assumes t: "tree (links (heap s)) r bs" and r: "\<not> has (heap s ! r) HIDDEN" "draw (heap s ! r) = Some Box_draw" "bs \<noteq> []"
    and b: "\<forall>x \<in> set bs. box_shape s x"
    and f: "has (heap s ! r) DIRTY \<longrightarrow> (case hd bs of (b, ks) \<Rightarrow> has (heap s ! b) HIDDEN \<or> has (heap s ! b) DIRTY \<or> ks = [])"
  shows "\<exists>s'. display_widgets (Some r) s = Some (Inr ((), s')) \<and>
    heap s' = cleaned (r # visible (heap s) bs) (heap s) \<and>
    tty s' = tty s @ concat (map (\<lambda>a. drawn s (heap s ! a)) (visible (heap s) bs)) \<and>
    (\<forall>a \<in> set (r # visible (heap s) bs). \<not> has (heap s' ! a) DIRTY)"
proof -
  let ?V = "visible (heap s) bs" and ?s = "istart (Some r) s"
  obtain io where io: "display_widgets (Some r) s = Some (Inr ((), (shown (r # ?V) None ?s)\<lparr>iobj := io\<rparr>))"
    using display_all [OF assms] by blast
  have s: "heap ?s = heap s" "tty ?s = tty s" "drawn ?s i = drawn s i" for i
    by (simp_all add: istart_def drawn_cong [of "s\<lparr>iobj := Some r, obj := Some r\<rparr>" s])
  have "drawn s (heap s ! r) = []" using r(2) by (simp add: drawn_def ptext_def widget_text_def)
  then have "tty ((shown (r # ?V) None ?s)\<lparr>iobj := io\<rparr>) = tty s @ concat (map (\<lambda>a. drawn s (heap s ! a)) ?V)"
    by (simp add: shown_def s)
  moreover have "heap ((shown (r # ?V) None ?s)\<lparr>iobj := io\<rparr>) = cleaned (r # ?V) (heap s)" by (simp add: s)
  moreover have "\<forall>a \<in> set (r # ?V). \<not> has (cleaned (r # ?V) (heap s) ! a) DIRTY"
    by (rule visible_clean [OF t])
  ultimately show ?thesis using io by metis
qed


text \<open>A box with a check and two radio buttons, and a hidden box with an item.\<close>

definition demo_dialog :: snz where
  "demo_dialog = (snz_start \<lparr>room = 9, null_int = None, junk_rad = Some 4, winsize_ok = True, errtext = [], keys = (\<lambda>_. None), junk_key = 0\<rparr>)
     \<lparr>root := Some 0, heap :=
       [blank_widget\<lparr>wtype := BOX, child := Some 1, draw := Some Box_draw, stat := 8\<rparr>,
        blank_widget\<lparr>wtype := BOX, mom := Some 0, sib := Some 5, child := Some 2, draw := Some Box_draw, stat := 8\<rparr>,
        blank_widget\<lparr>wtype := CHECK, wtext := [0x61], mom := Some 1, sib := Some 3, draw := Some Draw_check,
          clicked := Some Clicked_check, stat := 12\<rparr>,
        blank_widget\<lparr>wtype := CHECK, wtext := [0x62], wx := 8, mom := Some 1, sib := Some 4, draw := Some Draw_check,
          clicked := Some Clicked_radio, wdata := Radio_data 0, stat := 12\<rparr>,
        blank_widget\<lparr>wtype := CHECK, wtext := [0x63], wx := 16, mom := Some 1, draw := Some Draw_check,
          clicked := Some Clicked_radio, wdata := Radio_data 0, stat := 5\<rparr>,
        blank_widget\<lparr>wtype := BOX, mom := Some 0, child := Some 6, draw := Some Box_draw, stat := 24\<rparr>,
        blank_widget\<lparr>wtext := [0x64], mom := Some 5, draw := Some Draw_label, stat := 12\<rparr>]\<rparr>"

lemma demo_dialog_shape:
  "tree (links (heap demo_dialog)) 0 [(1, [2, 3, 4]), (5, [6])]" "\<not> has (heap demo_dialog ! 0) HIDDEN"
  "draw (heap demo_dialog ! 0) = Some Box_draw" "[(1 :: nat, [2, 3, 4 :: nat]), (5, [6])] \<noteq> []"
  "\<forall>x \<in> set [(1, [2, 3, 4]), (5, [6])]. box_shape demo_dialog x"
  by (simp_all add: tree_def links_def demo_dialog_def blank_widget_def box_shape_def leaf_ok_def paintable_def
      widget_text_def has_def stat_bits)

lemma snz_display_witness:
  "\<exists>s'. display_widgets (Some 0) demo_dialog = Some (Inr ((), s')) \<and>
    tty s' = [27, 0x59, 32, 32] @ str ''  < > a'' @ [27, 0x59, 32, 40] @ str ''  < > b'' \<and>
    (\<forall>a \<in> {0, 1, 2, 3, 4}. \<not> has (heap s' ! a) DIRTY)"
proof -
  have f: "has (heap demo_dialog ! 0) DIRTY \<longrightarrow>
    (case hd [(1, [2, 3, 4]), (5, [6])] of (b, ks) \<Rightarrow> has (heap demo_dialog ! b) HIDDEN \<or> has (heap demo_dialog ! b) DIRTY \<or> ks = [])"
    by (simp add: demo_dialog_def blank_widget_def has_def stat_bits)
  have v: "visible (heap demo_dialog) [(1, [2, 3, 4]), (5, [6])] = [1, 2, 3, 4]"
    by (simp add: visible_def in_sight_def demo_dialog_def blank_widget_def has_def stat_bits)
  have "concat (map (\<lambda>a. drawn demo_dialog (heap demo_dialog ! a)) [1, 2, 3, 4]) =
      [27, 0x59, 32, 32] @ str ''  < > a'' @ [27, 0x59, 32, 40] @ str ''  < > b''"
    by code_simp
  moreover have "tty demo_dialog = []" by (simp add: demo_dialog_def snz_start_def)
  ultimately show ?thesis using snz_display [OF demo_dialog_shape f] unfolding v by fastforce
qed

end
