(* ===== verification/Snazzy_Spec.thy ===== *)
theory Snazzy_Spec
  imports Snazzy_Pack Snazzy_Show
begin

text \<open>
  Using a dialog: what the keys do to the focus, the checks and the radio buttons, and typing into
  the text field.
\<close>

section \<open>The bits of a widget\<close>

lemma has_bit:
  "has w SELECTED \<longleftrightarrow> bit (stat w) 0" "has w FOCUSED \<longleftrightarrow> bit (stat w) 1" "has w FOCUSABLE \<longleftrightarrow> bit (stat w) 2"
  "has w DIRTY \<longleftrightarrow> bit (stat w) 3" "has w HIDDEN \<longleftrightarrow> bit (stat w) 4"
  using and_exp_eq_0_iff_not_bit [of "stat w" 0] and_exp_eq_0_iff_not_bit [of "stat w" 1]
    and_exp_eq_0_iff_not_bit [of "stat w" 2] and_exp_eq_0_iff_not_bit [of "stat w" 3]
    and_exp_eq_0_iff_not_bit [of "stat w" 4]
  by (simp_all add: has_def stat_bits)

lemma mask_bit:
  "bit SELECTED n \<longleftrightarrow> n = 0" "bit FOCUSED n \<longleftrightarrow> n = 1" "bit DIRTY n \<longleftrightarrow> n = 3"
  using bit_exp_iff [where 'a = u16, of 1 n] bit_exp_iff [where 'a = u16, of 3 n]
  by (auto simp: stat_bits bit_1_iff)

lemma bit_ops:
  "bit (stat (stat_on b w)) n \<longleftrightarrow> bit b n \<or> bit (stat w) n"
  "n < 16 \<Longrightarrow> bit (stat (stat_off b w)) n \<longleftrightarrow> \<not> bit b n \<and> bit (stat w) n"
  by (auto simp: stat_on_def stat_off_def bit_or_iff bit_and_iff bit_not_iff)

lemmas bit_stat = has_bit mask_bit bit_ops bit_or_iff bit_xor_iff

text \<open>What the operations do to a widget: nothing else than these bits changes.\<close>

definition quiet :: "widget \<Rightarrow> widget" where
  "quiet w = w\<lparr>stat := stat w AND (HIDDEN OR FOCUSABLE)\<rparr>"

lemma quiet_ops:
  assumes "b AND (HIDDEN OR FOCUSABLE) = 0"
  shows "quiet (stat_on b w) = quiet w" "quiet (stat_off b w) = quiet w" "quiet (w\<lparr>stat := stat w XOR b\<rparr>) = quiet w"
proof -
  let ?m = "HIDDEN OR FOCUSABLE"
  have b: "\<not> (bit b n \<and> bit ?m n)" for n using assms by (metis bit_0_eq bit_and_iff bot_apply bot_bool_def)
  have "(stat w OR b) AND ?m = stat w AND ?m" by (rule bit_eqI) (use b in \<open>auto simp: bit_and_iff bit_or_iff [of "stat w"]\<close>)
  moreover have "(stat w AND NOT b) AND ?m = stat w AND ?m"
    by (rule bit_eqI) (use b in \<open>auto simp: bit_and_iff bit_not_iff\<close>)
  moreover have "(stat w XOR b) AND ?m = stat w AND ?m" by (rule bit_eqI) (use b in \<open>auto simp: bit_and_iff bit_xor_iff\<close>)
  ultimately show "quiet (stat_on b w) = quiet w" "quiet (stat_off b w) = quiet w" "quiet (w\<lparr>stat := stat w XOR b\<rparr>) = quiet w"
    by (simp_all add: quiet_def stat_on_def stat_off_def)
qed

lemma quiet_masks:
  "SELECTED AND (HIDDEN OR FOCUSABLE) = 0" "FOCUSED AND (HIDDEN OR FOCUSABLE) = 0" "DIRTY AND (HIDDEN OR FOCUSABLE) = 0"
  "(FOCUSED OR DIRTY) AND (HIDDEN OR FOCUSABLE) = 0" "(DIRTY OR FOCUSED) AND (HIDDEN OR FOCUSABLE) = 0"
  "(SELECTED OR DIRTY) AND (HIDDEN OR FOCUSABLE) = 0"
  by (simp_all add: stat_bits)

lemmas quiet_simps [simp] = quiet_masks [THEN quiet_ops(1)] quiet_masks [THEN quiet_ops(2)] quiet_masks [THEN quiet_ops(3)]

lemma quiet_fields:
  assumes "quiet v = quiet w"
  shows "mom v = mom w" "sib v = sib w" "child v = child w" "draw v = draw w" "clicked v = clicked w" "wdata v = wdata w"
    "has v HIDDEN = has w HIDDEN" "has v FOCUSABLE = has w FOCUSABLE"
    "widget_text ins d v = Inl e \<longleftrightarrow> widget_text ins d w = Inl e"
proof -
  show f: "mom v = mom w" "sib v = sib w" "child v = child w" "draw v = draw w" "clicked v = clicked w" "wdata v = wdata w"
    using arg_cong [OF assms, of mom] arg_cong [OF assms, of sib] arg_cong [OF assms, of child]
      arg_cong [OF assms, of draw] arg_cong [OF assms, of clicked] arg_cong [OF assms, of wdata]
    by (simp_all add: quiet_def)
  have s: "stat v AND (HIDDEN OR FOCUSABLE) = stat w AND (HIDDEN OR FOCUSABLE)"
    using arg_cong [OF assms, of stat] by (simp add: quiet_def)
  have m: "stat u AND HIDDEN = (stat u AND (HIDDEN OR FOCUSABLE)) AND HIDDEN"
    "stat u AND FOCUSABLE = (stat u AND (HIDDEN OR FOCUSABLE)) AND FOCUSABLE" for u
    by (simp_all add: and.assoc stat_bits)
  show "has v HIDDEN = has w HIDDEN" "has v FOCUSABLE = has w FOCUSABLE"
    unfolding has_def m [of v] m [of w] s by simp_all
  show "widget_text ins d v = Inl e \<longleftrightarrow> widget_text ins d w = Inl e"
    using f(6) by (cases d; cases "wdata w") (auto simp: widget_text_def)
qed

text \<open>The same dialog but for these bits.\<close>

definition same_dialog :: "widget list \<Rightarrow> widget list \<Rightarrow> bool" where
  "same_dialog hp hp' \<longleftrightarrow> map quiet hp' = map quiet hp"

lemma same_dialog_refl [simp]: "same_dialog hp hp"
  by (simp add: same_dialog_def)

lemma same_dialog_trans: "same_dialog a b \<Longrightarrow> same_dialog b c \<Longrightarrow> same_dialog a c"
  by (simp add: same_dialog_def)

lemma same_dialog_upd: "same_dialog hp hp' \<Longrightarrow> quiet w = quiet (hp' ! a) \<Longrightarrow> same_dialog hp (hp'[a := w])"
  unfolding same_dialog_def
  by (metis list_update_beyond list_update_id map_update not_le)

lemma same_dialog_len: "same_dialog hp hp' \<Longrightarrow> length hp' = length hp"
  unfolding same_dialog_def by (metis length_map)

lemma same_dialog_nth: "same_dialog hp hp' \<Longrightarrow> a < length hp \<Longrightarrow> quiet (hp' ! a) = quiet (hp ! a)"
  unfolding same_dialog_def by (metis length_map nth_map)

lemma same_dialog_links: "same_dialog hp hp' \<Longrightarrow> links hp' = links hp"
  by (rule nth_equalityI) (auto simp: same_dialog_len links_nth quiet_fields [OF same_dialog_nth])

lemma same_dialog_cleaned: "same_dialog hp (cleaned xs hp)"
proof (induction xs arbitrary: hp)
  case (Cons x xs)
  have "same_dialog hp (hp[x := stat_off DIRTY (hp ! x)])" by (rule same_dialog_upd) simp_all
  then show ?case using Cons [of "hp[x := stat_off DIRTY (hp ! x)]"] same_dialog_trans by simp
qed simp


lemma box_shape_same:
  assumes "same_dialog (heap s) (heap t)" "inputs t = inputs s" "\<forall>a \<in> set (b # ks). a < length (heap s)" "box_shape s (b, ks)"
  shows "box_shape t (b, ks)"
proof -
  have q: "quiet (heap t ! a) = quiet (heap s ! a)" if "a \<in> set (b # ks)" for a
    using same_dialog_nth [OF assms(1)] assms(3) that by auto
  have p: "paintable t (heap t ! a) = paintable s (heap s ! a)" if "a \<in> set (b # ks)" for a
    using assms(2) quiet_fields(4,9) [OF q [OF that]] by (auto simp: paintable_def split: sum.splits)
  show ?thesis using assms(4) p quiet_fields(4,7) [OF q] by (auto simp: box_shape_def leaf_ok_def)
qed

section \<open>A dialog in use\<close>

text \<open>
  The root is drawn; the list holds the widgets \<open>xs\<close>, one of which has the focus; a click finds a
  check, a radio button or nothing to do, and every group of radio buttons has one that is pressed.
\<close>

definition clickable :: "snz \<Rightarrow> nat \<Rightarrow> bool" where
  "clickable s x \<longleftrightarrow> clicked (heap s ! x) = None \<or> clicked (heap s ! x) = Some Clicked_check \<or>
     clicked (heap s ! x) = Some Clicked_radio \<and> (\<exists>d. wdata (heap s ! x) = Radio_data d \<and> d < length (radios s))"

definition radios_ok :: "nat \<Rightarrow> snz \<Rightarrow> bool" where
  "radios_ok r s \<longleftrightarrow> (\<forall>p \<in> set (radios s). \<exists>a. p = Some a \<and> a < length (heap s) \<and> a \<noteq> r)"

definition listed :: "nat \<Rightarrow> nat list \<Rightarrow> snz \<Rightarrow> bool" where
  "listed r xs s \<longleftrightarrow> take (sptr s) (wlist s) = map Some xs \<and> sptr s \<le> length (wlist s) \<and> distinct xs \<and>
     (\<forall>x \<in> set xs. x < length (heap s) \<and> x \<noteq> r \<and> clickable s x)"

definition focus_at :: "nat list \<Rightarrow> snz \<Rightarrow> bool" where
  "focus_at xs s \<longleftrightarrow> cur s < length xs \<and> (\<forall>a < length (heap s). has (heap s ! a) FOCUSED \<longleftrightarrow> a = xs ! cur s)"

definition shaped :: "nat \<Rightarrow> (nat \<times> nat list) list \<Rightarrow> snz \<Rightarrow> bool" where
  "shaped r bs s \<longleftrightarrow> root s = Some r \<and> inputwidget s = None \<and> tree (links (heap s)) r bs \<and> bs \<noteq> [] \<and>
     \<not> has (heap s ! r) HIDDEN \<and> \<not> has (heap s ! r) FOCUSABLE \<and> draw (heap s ! r) = Some Box_draw \<and>
     (\<forall>x \<in> set bs. box_shape s x)"

definition dialog :: "nat \<Rightarrow> (nat \<times> nat list) list \<Rightarrow> nat list \<Rightarrow> snz \<Rightarrow> bool" where
  "dialog r bs xs s \<longleftrightarrow> shaped r bs s \<and> \<not> has (heap s ! r) DIRTY \<and> listed r xs s \<and> focus_at xs s \<and> radios_ok r s"

lemma shaped_same:
  assumes "shaped r bs s" "same_dialog (heap s) (heap t)" "root t = root s" "inputwidget t = inputwidget s" "inputs t = inputs s"
  shows "shaped r bs t"
proof -
  have T: "tree (links (heap s)) r bs" "r < length (heap s)" "boxes_ok (links (heap s)) r bs"
    using assms(1) by (auto simp: shaped_def tree_def)
  have q: "quiet (heap t ! r) = quiet (heap s ! r)" by (rule same_dialog_nth [OF assms(2) T(2)])
  have "box_shape t x" if x: "x \<in> set bs" for x
  proof -
    obtain b ks where x': "x = (b, ks)" by (cases x)
    have "set (b # ks) \<subseteq> set (members bs)" using in_members [of b ks bs] x x' by auto
    then have "\<forall>a \<in> set (b # ks). a < length (heap s)" using members_len [OF T(3)] by auto
    then show ?thesis using box_shape_same [OF assms(2,5)] assms(1) x x' by (auto simp: shaped_def)
  qed
  then show ?thesis
    using assms same_dialog_links [OF assms(2)] quiet_fields(4,7,8) [OF q] by (simp add: shaped_def)
qed

lemma dialog_change:
  assumes "dialog r bs xs s" "same_dialog (heap s) (heap t)" "heap t ! r = heap s ! r"
    "root t = root s" "inputwidget t = inputwidget s" "inputs t = inputs s" "wlist t = wlist s" "sptr t = sptr s"
    "length (radios t) = length (radios s)" "focus_at xs t" "radios_ok r t"
  shows "dialog r bs xs t"
proof -
  have "clickable t x" if "clickable s x" "x < length (heap s)" for x
    using that assms(9) quiet_fields(5,6) [OF same_dialog_nth [OF assms(2) that(2)]] by (simp add: clickable_def)
  then have "listed r xs t" using assms(1) same_dialog_len [OF assms(2)] assms(7,8) by (simp add: dialog_def listed_def)
  then show ?thesis using assms shaped_same [OF _ assms(2,4,5,6)] by (simp add: dialog_def)
qed

lemma listed_nth: "listed r xs s \<Longrightarrow> i < length xs \<Longrightarrow> wlist s ! i = Some (xs ! i)"
  unfolding listed_def by (metis length_map length_take min.absorb2 nth_map nth_take)

lemma listed_len: "listed r xs s \<Longrightarrow> sptr s = length xs"
  unfolding listed_def by (metis length_map length_take min.absorb2)

text \<open>What a user sees of it: the place of the focus, the selected widgets and the pressed buttons.\<close>

type_synonym view = "nat \<times> nat set \<times> nat option list"

definition marked :: "widget list \<Rightarrow> nat set" where
  "marked hp = {a. a < length hp \<and> has (hp ! a) SELECTED}"

definition view :: "snz \<Rightarrow> view" where
  "view s = (cur s, marked (heap s), radios s)"

definition toggle :: "nat \<Rightarrow> nat set \<Rightarrow> nat set" where
  "toggle a S = (if a \<in> S then S - {a} else insert a S)"

text \<open>The keys, on this view.\<close>

definition click_view :: "widget \<Rightarrow> nat \<Rightarrow> view \<Rightarrow> view" where
  "click_view w a = (\<lambda>(p, S, R).
     case clicked w of
       Some Clicked_check \<Rightarrow> (p, toggle a S, R)
     | Some Clicked_radio \<Rightarrow>
         (case wdata w of
            Radio_data d \<Rightarrow> (p, insert a (S - {the (R ! d)}), R[d := Some a])
          | _ \<Rightarrow> (p, S, R))
     | _ \<Rightarrow> (p, S, R))"

definition key_view :: "widget list \<Rightarrow> nat list \<Rightarrow> u8 \<Rightarrow> view \<Rightarrow> view" where
  "key_view hp xs c = (\<lambda>(p, S, R).
     if c = 0x6a then (min (p + 1) (length xs - 1), S, R)
     else if c = 0x6b then (p - 1, S, R)
     else if c = 32 \<or> c = 10 then click_view (hp ! (xs ! p)) (xs ! p) (p, S, R)
     else (p, S, R))"


section \<open>One key\<close>

definition settles :: "nat \<Rightarrow> (nat \<times> nat list) list \<Rightarrow> nat list \<Rightarrow> snz \<Rightarrow> view \<Rightarrow> snz \<Rightarrow> bool" where
  "settles r bs xs s v t \<longleftrightarrow> dialog r bs xs t \<and> same_dialog (heap s) (heap t) \<and> view t = v"

lemma marked_same:
  assumes "\<forall>a < length hp. has (hp' ! a) SELECTED \<longleftrightarrow> has (hp ! a) SELECTED" "length hp' = length hp"
  shows "marked hp' = marked hp"
  using assms by (auto simp: marked_def)

lemma warp_settles:
  assumes d: "dialog r bs xs s" and i: "i < length xs"
  shows "\<exists>t. select_warp i s = Inr ((), t) \<and> settles r bs xs s (i, snd (view s)) t"
proof -
  let ?a = "xs ! cur s" and ?b = "xs ! i" and ?hp = "heap s"
  have l: "listed r xs s" "focus_at xs s" "cur s < length xs" using d by (auto simp: dialog_def focus_at_def)
  have ab: "?a < length ?hp" "?b < length ?hp" "?a \<noteq> r" "?b \<noteq> r" using l i by (auto simp: listed_def)
  have w: "wlist s ! cur s = Some ?a" "wlist s ! i = Some ?b" using listed_nth [OF l(1)] l(3) i by auto
  define h where "h = ?hp[?a := stat_on DIRTY (stat_off FOCUSED (?hp ! ?a))]"
  define k where "k = h[?b := stat_on (DIRTY OR FOCUSED) (h ! ?b)]"
  define t where "t = s\<lparr>heap := k, cur := i\<rparr>"
  have e: "select_warp i s = Inr ((), t)"
    using w ab by (simp add: select_warp_def select_off_def t_def k_def h_def)
  have len: "length h = length ?hp" "length k = length ?hp" by (simp_all add: h_def k_def)
  have sd: "same_dialog ?hp k" unfolding k_def h_def by (intro same_dialog_upd) simp_all
  have kr: "k ! r = ?hp ! r" using ab by (simp add: k_def h_def)
  have hf: "has (h ! a) FOCUSED \<longleftrightarrow> False" "has (h ! a) SELECTED \<longleftrightarrow> has (?hp ! a) SELECTED" if "a < length ?hp" for a
    using that l(2) by (cases "a = ?a"; simp add: h_def focus_at_def bit_stat)+
  have f: "has (k ! a) FOCUSED \<longleftrightarrow> a = ?b" "has (k ! a) SELECTED \<longleftrightarrow> has (?hp ! a) SELECTED" if "a < length ?hp" for a
    using hf [OF that] that len by (cases "a = ?b"; simp add: k_def bit_stat)+
  have m: "marked k = marked ?hp" using f(2) len(2) by (intro marked_same) auto
  have fo: "focus_at xs t" using f(1) i len by (simp add: focus_at_def t_def)
  have "dialog r bs xs t"
    using d sd kr fo len by (intro dialog_change [OF d]) (simp_all add: t_def dialog_def radios_ok_def)
  then show ?thesis using e sd m by (auto simp: settles_def t_def view_def)
qed

lemma settles_refl: "dialog r bs xs s \<Longrightarrow> settles r bs xs s (view s) s"
  by (simp add: settles_def)

lemma next_settles:
  assumes "dialog r bs xs s"
  shows "\<exists>t. select_next s = Inr ((), t) \<and> settles r bs xs s (min (cur s + 1) (length xs - 1), snd (view s)) t"
proof -
  have l: "sptr s = length xs" "cur s < length xs"
    using assms listed_len by (auto simp: dialog_def focus_at_def)
  show ?thesis
  proof (cases "cur s + 1 < length xs")
    case True
    then have "min (cur s + 1) (length xs - 1) = cur s + 1" by simp
    then show ?thesis using warp_settles [OF assms True] True l by (simp add: select_next_def)
  next
    case False
    then have "min (cur s + 1) (length xs - 1) = cur s" using l by simp
    then show ?thesis using settles_refl [OF assms] False l by (simp add: select_next_def view_def)
  qed
qed

lemma prev_settles:
  assumes "dialog r bs xs s"
  shows "\<exists>t. select_prev s = Inr ((), t) \<and> settles r bs xs s (cur s - 1, snd (view s)) t"
proof (cases "cur s = 0")
  case True
  then show ?thesis using settles_refl [OF assms] by (simp add: select_prev_def view_def)
next
  case False
  have "cur s - 1 < length xs" using assms by (auto simp: dialog_def focus_at_def)
  then show ?thesis using warp_settles [OF assms] False by (simp add: select_prev_def)
qed

text \<open>A change of the heap that moves no focus.\<close>

lemma mark_settles:
  assumes d: "dialog r bs xs s" and t: "t = s\<lparr>heap := h, radios := R\<rparr>"
    and h: "same_dialog (heap s) h" "h ! r = heap s ! r" "\<forall>a < length h. has (h ! a) FOCUSED \<longleftrightarrow> has (heap s ! a) FOCUSED"
    and R: "length R = length (radios s)" "\<forall>p \<in> set R. \<exists>a. p = Some a \<and> a < length (heap s) \<and> a \<noteq> r"
  shows "settles r bs xs s (cur s, marked h, R) t"
proof -
  have len: "length h = length (heap s)" by (rule same_dialog_len [OF h(1)])
  have "focus_at xs t" using d h(3) len by (simp add: dialog_def focus_at_def t)
  moreover have "radios_ok r t" using R(2) len by (simp add: radios_ok_def t)
  ultimately have "dialog r bs xs t" using h(1,2) R(1) by (intro dialog_change [OF d]) (simp_all add: t)
  then show ?thesis using h(1) by (simp add: settles_def t view_def)
qed

lemma check_settles:
  assumes d: "dialog r bs xs s" and x: "x < length (heap s)" "x \<noteq> r"
  shows "\<exists>t. clicked_check (Some x) s = Inr ((), t) \<and> settles r bs xs s (cur s, toggle x (marked (heap s)), radios s) t"
proof -
  define w where "w = (heap s ! x)\<lparr>stat := stat (heap s ! x) XOR SELECTED\<rparr>"
  define h where "h = (heap s)[x := stat_on DIRTY w]"
  have e: "clicked_check (Some x) s = Inr ((), s\<lparr>heap := h\<rparr>)" using x by (simp add: clicked_check_def h_def w_def)
  have q: "quiet (stat_on DIRTY w) = quiet (heap s ! x)" by (simp add: w_def)
  have b: "has (stat_on DIRTY w) FOCUSED \<longleftrightarrow> has (heap s ! x) FOCUSED"
    "has (stat_on DIRTY w) SELECTED \<longleftrightarrow> \<not> has (heap s ! x) SELECTED" by (simp_all add: w_def bit_stat)
  have m: "marked h = toggle x (marked (heap s))"
    using x(1) b(2) unfolding marked_def toggle_def h_def by (auto simp: nth_list_update split: if_splits)
  have "s\<lparr>heap := h\<rparr> = s\<lparr>heap := h, radios := radios s\<rparr>" by simp
  then have "settles r bs xs s (cur s, marked h, radios s) (s\<lparr>heap := h\<rparr>)"
  proof (rule mark_settles [OF d])
    show "same_dialog (heap s) h" unfolding h_def by (rule same_dialog_upd) (rule same_dialog_refl, rule q)
    have "has (h ! a) FOCUSED \<longleftrightarrow> has (heap s ! a) FOCUSED" for a
      using b(1) x(1) by (cases "a = x") (simp_all add: h_def)
    then show "\<forall>a < length h. has (h ! a) FOCUSED \<longleftrightarrow> has (heap s ! a) FOCUSED" by simp
  qed (use d x in \<open>auto simp: h_def dialog_def radios_ok_def\<close>)
  then show ?thesis using e m by simp
qed

lemma radio_settles:
  assumes d: "dialog r bs xs s" and x: "x < length (heap s)" "x \<noteq> r" "wdata (heap s ! x) = Radio_data n" "n < length (radios s)"
  shows "\<exists>t. clicked_radio (Some x) s = Inr ((), t) \<and>
    settles r bs xs s (cur s, insert x (marked (heap s) - {the (radios s ! n)}), (radios s)[n := Some x]) t"
proof -
  let ?hp = "heap s"
  have ro: "\<forall>p \<in> set (radios s). \<exists>a. p = Some a \<and> a < length ?hp \<and> a \<noteq> r" using d by (simp add: dialog_def radios_ok_def)
  then obtain a where a: "radios s ! n = Some a" "a < length ?hp" "a \<noteq> r" using x(4) by (meson nth_mem)
  define h where "h = ?hp[a := stat_on DIRTY (stat_off SELECTED (?hp ! a))]"
  define k where "k = h[x := stat_on (SELECTED OR DIRTY) (h ! x)]"
  define t where "t = s\<lparr>heap := k, radios := (radios s)[n := Some x]\<rparr>"
  have e: "clicked_radio (Some x) s = Inr ((), t)"
    using x a by (simp add: clicked_radio_def t_def k_def h_def)
  have len: "length h = length ?hp" "length k = length ?hp" by (simp_all add: h_def k_def)
  have hf: "has (h ! c) FOCUSED \<longleftrightarrow> has (?hp ! c) FOCUSED" "has (h ! c) SELECTED \<longleftrightarrow> c \<noteq> a \<and> has (?hp ! c) SELECTED" for c
    using a(2) by (cases "c = a"; simp add: h_def bit_stat)+
  have kf: "has (k ! c) FOCUSED \<longleftrightarrow> has (?hp ! c) FOCUSED" "has (k ! c) SELECTED \<longleftrightarrow> c = x \<or> c \<noteq> a \<and> has (?hp ! c) SELECTED" for c
    using hf [of c] x(1) len by (cases "c = x"; simp add: k_def bit_stat)+
  have m: "marked k = insert x (marked ?hp - {a})" using x(1) len by (auto simp: marked_def kf)
  have "settles r bs xs s (cur s, marked k, (radios s)[n := Some x]) t"
  proof (rule mark_settles [OF d t_def])
    show "same_dialog ?hp k" unfolding k_def h_def by (intro same_dialog_upd) simp_all
    show "k ! r = ?hp ! r" using x a by (simp add: k_def h_def)
    show "\<forall>p \<in> set ((radios s)[n := Some x]). \<exists>a. p = Some a \<and> a < length ?hp \<and> a \<noteq> r"
      using ro x(1,2) set_update_subset_insert [of "radios s" n "Some x"] by blast
  qed (simp_all add: kf)
  then show ?thesis using e m a(1) by auto
qed


lemma cleaned_focus: "has (cleaned xs hp ! a) FOCUSED = has (hp ! a) FOCUSED"
proof (induction xs arbitrary: hp)
  case (Cons x xs)
  have "has (hp[x := stat_off DIRTY (hp ! x)] ! a) FOCUSED = has (hp ! a) FOCUSED"
    by (cases "x < length hp"; cases "a = x") (simp_all add: list_update_beyond bit_stat)
  with Cons show ?case by simp
qed simp

lemma cleaned_mark: "has (cleaned xs hp ! a) SELECTED = has (hp ! a) SELECTED"
proof (induction xs arbitrary: hp)
  case (Cons x xs)
  have "has (hp[x := stat_off DIRTY (hp ! x)] ! a) SELECTED = has (hp ! a) SELECTED"
    by (cases "x < length hp"; cases "a = x") (simp_all add: list_update_beyond bit_stat)
  with Cons show ?case by simp
qed simp

definition all_drawn :: "nat \<Rightarrow> (nat \<times> nat list) list \<Rightarrow> snz \<Rightarrow> bool" where
  "all_drawn r bs s \<longleftrightarrow> (\<forall>a \<in> set (r # visible (heap s) bs). \<not> has (heap s ! a) DIRTY)"

text \<open>Drawing, in a dialog of the right shape.\<close>

lemma display_shaped:
  assumes s: "shaped r bs s"
    and f: "has (heap s ! r) DIRTY \<longrightarrow> (case hd bs of (b, ks) \<Rightarrow> has (heap s ! b) HIDDEN \<or> has (heap s ! b) DIRTY \<or> ks = [])"
  shows "\<exists>t. display_widgets (Some r) s = Some (Inr ((), t)) \<and> heap t = cleaned (r # visible (heap s) bs) (heap s) \<and>
    root t = root s \<and> inputwidget t = inputwidget s \<and> inputs t = inputs s \<and> wlist t = wlist s \<and> sptr t = sptr s \<and>
    cur t = cur s \<and> radios t = radios s \<and> all_drawn r bs t"
proof -
  have S: "tree (links (heap s)) r bs" "\<not> has (heap s ! r) HIDDEN" "draw (heap s ! r) = Some Box_draw" "bs \<noteq> []"
    "\<forall>x \<in> set bs. box_shape s x" using s by (auto simp: shaped_def)
  obtain io where "display_widgets (Some r) s =
      Some (Inr ((), (shown (r # visible (heap s) bs) None (istart (Some r) s))\<lparr>iobj := io\<rparr>))"
    using display_all [OF S f] by blast
  moreover have "all_drawn r bs ((shown (r # visible (heap s) bs) None (istart (Some r) s))\<lparr>iobj := io\<rparr>)"
    using visible_clean [OF S(1)] by (simp add: all_drawn_def istart_def visible_cleaned flip: cleaned_simps(2))
  ultimately show ?thesis by (simp add: shown_def istart_def)
qed

lemma display_settles:
  assumes "settles r bs xs s v t"
  shows "\<exists>u. display_widgets (root t) t = Some (Inr ((), u)) \<and> settles r bs xs s v u \<and> all_drawn r bs u"
proof -
  have d: "dialog r bs xs t" "same_dialog (heap s) (heap t)" "view t = v" using assms by (simp_all add: settles_def)
  have sh: "shaped r bs t" "\<not> has (heap t ! r) DIRTY" using d(1) by (simp_all add: dialog_def)
  obtain u where u: "display_widgets (Some r) t = Some (Inr ((), u))"
    "heap u = cleaned (r # visible (heap t) bs) (heap t)"
    "root u = root t" "inputwidget u = inputwidget t" "inputs u = inputs t" "wlist u = wlist t" "sptr u = sptr t"
    "cur u = cur t" "radios u = radios t" "all_drawn r bs u"
    using display_shaped [OF sh(1)] sh(2) by auto
  have len: "length (heap u) = length (heap t)" by (simp add: u(2))
  have sd: "same_dialog (heap t) (heap u)" unfolding u(2) by (rule same_dialog_cleaned)
  have "r \<notin> set (visible (heap t) bs)"
    using sh(1) visible_members [of "heap t" bs] by (auto simp: shaped_def tree_def)
  then have hr: "heap u ! r = heap t ! r" using sh(2) by (simp add: u(2) cleaned_other clean_off)
  have fb: "has (heap u ! a) FOCUSED = has (heap t ! a) FOCUSED" "has (heap u ! a) SELECTED = has (heap t ! a) SELECTED" for a
    unfolding u(2) by (rule cleaned_focus cleaned_mark)+
  have "focus_at xs u" "radios_ok r u" using d(1) len fb(1) u(8,9) by (simp_all add: dialog_def focus_at_def radios_ok_def)
  then have "dialog r bs xs u" using u(3-9) sd hr by (intro dialog_change [OF d(1)]) simp_all
  moreover have "view u = v" using d(3) fb(2) len u(8,9) by (simp add: view_def marked_def)
  ultimately show ?thesis
    using u sh(1) same_dialog_trans [OF d(2) sd] by (auto simp: settles_def shaped_def)
qed

lemma click_settles:
  assumes d: "dialog r bs xs s"
  shows "\<exists>t. select_click s = Some (Inr ((), t)) \<and>
    settles r bs xs s (click_view (heap s ! (xs ! cur s)) (xs ! cur s) (view s)) t"
proof -
  let ?x = "xs ! cur s"
  have l: "listed r xs s" "cur s < length xs" using d by (auto simp: dialog_def focus_at_def)
  have x: "?x < length (heap s)" "?x \<noteq> r" "clickable s ?x" using l by (auto simp: listed_def)
  have w: "wlist s ! cur s = Some ?x" by (rule listed_nth [OF l])
  consider "clicked (heap s ! ?x) = None" | "clicked (heap s ! ?x) = Some Clicked_check"
    | n where "clicked (heap s ! ?x) = Some Clicked_radio" "wdata (heap s ! ?x) = Radio_data n" "n < length (radios s)"
    using x(3) by (auto simp: clickable_def)
  then show ?thesis
  proof cases
    case 1
    then show ?thesis using settles_refl [OF d] w x(1) by (simp add: select_click_def click_view_def view_def)
  next
    case 2
    then show ?thesis using check_settles [OF d x(1,2)] w x(1) by (simp add: select_click_def click_view_def view_def)
  next
    case 3
    then show ?thesis using radio_settles [OF d x(1,2) 3(2,3)] w x(1) by (simp add: select_click_def click_view_def view_def)
  qed
qed

definition quits :: "u8 \<Rightarrow> bool" where
  "quits c \<longleftrightarrow> c = 0x71 \<or> c = 27"

lemma key_settles:
  assumes d: "dialog r bs xs s" and c: "\<not> quits c"
  shows "\<exists>u. input_key c s = Some (Inr (False, u)) \<and> settles r bs xs s (key_view (heap s) xs c (view s)) u \<and> all_drawn r bs u"
proof -
  let ?m = "if c = 0x6a then Some (select_next s) else if c = 0x6b then Some (select_prev s)
    else if c = 32 \<or> c = 10 then select_click s else Some (Inr ((), s))"
  have i: "inputwidget s = None" using d by (simp add: dialog_def shaped_def)
  have "\<exists>t. ?m = Some (Inr ((), t)) \<and> settles r bs xs s (key_view (heap s) xs c (view s)) t"
    using next_settles [OF d] prev_settles [OF d] click_settles [OF d] settles_refl [OF d]
    by (auto simp: key_view_def view_def)
  then obtain t where t: "?m = Some (Inr ((), t))" "settles r bs xs s (key_view (heap s) xs c (view s)) t" by blast
  obtain u where u: "display_widgets (root t) t = Some (Inr ((), u))" "settles r bs xs s (key_view (heap s) xs c (view s)) u"
    "all_drawn r bs u" using display_settles [OF t(2)] by blast
  have "input_key c s = wbind ?m (\<lambda>(_, s). wbind (display_widgets (root s) s) (\<lambda>(_, s). Some (Inr (False, s))))"
    using i c by (simp add: input_key_def quits_def)
  then show ?thesis unfolding t(1) using u by simp
qed


section \<open>A session\<close>

text \<open>The keys of a session, and the key that ends it.\<close>

definition keys_at :: "senv \<Rightarrow> nat \<Rightarrow> u8 list \<Rightarrow> u8 \<Rightarrow> bool" where
  "keys_at env i ks q \<longleftrightarrow> (\<forall>j < length ks. keys env (i + j) = Some (ks ! j)) \<and> keys env (i + length ks) = Some q \<and>
     (\<forall>c \<in> set ks. \<not> quits c) \<and> quits q"

lemma keys_at_Cons: "keys_at env i (c # ks) q \<Longrightarrow> keys env i = Some c \<and> \<not> quits c \<and> keys_at env (i + 1) ks q"
proof -
  assume k: "keys_at env i (c # ks) q"
  have "keys env (i + 1 + j) = Some (ks ! j)" if "j < length ks" for j
    using k that unfolding keys_at_def by (metis add.assoc add.commute length_Cons not_less_eq nth_Cons_Suc plus_1_eq_Suc)
  moreover have "keys env i = Some c" using k unfolding keys_at_def by (metis add_0_right length_greater_0_conv list.discI nth_Cons_0)
  ultimately show ?thesis using k by (simp add: keys_at_def)
qed

lemma key_view_same:
  assumes "same_dialog hp hp'" "\<forall>x \<in> set xs. x < length hp" "fst v < length xs"
  shows "key_view hp' xs c v = key_view hp xs c v"
proof -
  have "quiet (hp' ! (xs ! fst v)) = quiet (hp ! (xs ! fst v))"
    using assms by (intro same_dialog_nth [OF assms(1)]) simp
  from quiet_fields(5,6) [OF this] have "click_view (hp' ! (xs ! fst v)) a u = click_view (hp ! (xs ! fst v)) a u" for a u
    by (simp only: click_view_def)
  then show ?thesis by (cases v) (simp add: key_view_def)
qed

lemma view_in: "dialog r bs xs s \<Longrightarrow> (\<forall>x \<in> set xs. x < length (heap s)) \<and> fst (view s) < length xs"
  by (simp add: dialog_def listed_def focus_at_def view_def)

lemma fold_key_view_same:
  assumes "same_dialog (heap s) (heap t)" "dialog r bs xs t" "\<forall>x \<in> set xs. x < length (heap s)"
  shows "key_view (heap t) xs c (view t) = key_view (heap s) xs c (view t)"
  using key_view_same [OF assms(1,3)] view_in [OF assms(2)] by simp

text \<open>The loop, from a drawn dialog: the keys act on the view, one after the other.\<close>

lemma input_settles:
  assumes "settles r bs xs s v t" "all_drawn r bs t" "\<forall>x \<in> set xs. x < length (heap s)" "keys_at env i ks q"
  shows "\<exists>u. input env i c t = Some (Inr ((), u)) \<and> settles r bs xs s (fold (key_view (heap s) xs) ks v) u \<and> all_drawn r bs u"
  using assms
proof (induction ks arbitrary: i c v t)
  case Nil
  have "inputwidget t = None" using Nil.prems(1) by (simp add: settles_def dialog_def shaped_def)
  then have "input_key q t = Some (Inr (True, t))" using Nil.prems(4) by (simp add: input_key_def keys_at_def quits_def)
  then have "input env i c t = Some (Inr ((), t))" using Nil.prems(4) by (subst input.simps) (simp add: keys_at_def)
  then show ?case using Nil.prems by simp
next
  case (Cons k ks)
  have d: "dialog r bs xs t" "same_dialog (heap s) (heap t)" "view t = v" using Cons.prems(1) by (simp_all add: settles_def)
  note K = keys_at_Cons [OF Cons.prems(4)]
  let ?v = "key_view (heap s) xs k v"
  have kv: "key_view (heap t) xs k (view t) = ?v" using fold_key_view_same [OF d(2,1) Cons.prems(3)] d(3) by simp
  obtain u where u: "input_key k t = Some (Inr (False, u))" "settles r bs xs t ?v u" "all_drawn r bs u"
    using key_settles [OF d(1)] K kv by metis
  have su: "settles r bs xs s ?v u" using u(2) same_dialog_trans [OF d(2)] by (simp add: settles_def)
  have "input env i c t = input env (i + 1) k u" using K u(1) by (subst input.simps) simp
  then show ?case using Cons.IH [OF su u(3) Cons.prems(3)] K by simp
qed

section \<open>The start\<close>

lemma members_distinct_selection:
  "distinct (members bs) \<Longrightarrow> distinct (concat (map (box_selection hp) bs)) \<and> set (concat (map (box_selection hp) bs)) \<subseteq> set (members bs)"
proof (induction bs)
  case (Cons x bs)
  obtain b ks where x: "x = (b, ks)" by (cases x)
  have "set (box_selection hp x) \<subseteq> set (b # ks)" "distinct (box_selection hp x)"
    using Cons.prems by (auto simp: x box_selection_def)
  then show ?case using Cons by (auto simp: x)
qed simp

lemma selection_in:
  assumes "shaped r bs s"
  shows "distinct (selection (heap s) r bs)" "\<forall>x \<in> set (selection (heap s) r bs). x < length (heap s) \<and> x \<noteq> r"
proof -
  have T: "distinct (members bs)" "r \<notin> set (members bs)" "boxes_ok (links (heap s)) r bs"
    "\<not> selectable (heap s) r" using assms by (auto simp: shaped_def tree_def selectable_def)
  note m = members_distinct_selection [OF T(1), of "heap s"]
  show "distinct (selection (heap s) r bs)" using m T(4) by (simp add: selection_def)
  show "\<forall>x \<in> set (selection (heap s) r bs). x < length (heap s) \<and> x \<noteq> r"
  proof
    fix x assume "x \<in> set (selection (heap s) r bs)"
    then have "x \<in> set (members bs)" using m T(4) by (auto simp: selection_def)
    then show "x < length (heap s) \<and> x \<noteq> r" using members_len [OF T(3)] T(2) by auto
  qed
qed

lemma shaped_hides: "shaped r bs s \<Longrightarrow> hides_boxes (heap s) bs"
  by (fastforce simp: shaped_def hides_boxes_def box_shape_def leaf_ok_def)

text \<open>The list of selectable widgets, and the focus on the first of them.\<close>

definition chosen :: "nat list \<Rightarrow> nat \<Rightarrow> snz \<Rightarrow> snz" where
  "chosen xs r s = s\<lparr>obj := None, iobj := Some r, wlist := map Some xs @ drop (length xs) (wlist s), sptr := length xs,
     cur := 0, heap := (heap s)[hd xs := stat_on (FOCUSED OR DIRTY) (heap s ! hd xs)]\<rparr>"

lemma select_first_chosen:
  assumes "tree (links (heap s)) r bs" "hides_boxes (heap s) bs" "\<not> has (heap s ! r) HIDDEN" "length (wlist s) = LISTZ"
    "length (selection (heap s) r bs) \<le> LISTZ" "selection (heap s) r bs \<noteq> []" "hd (selection (heap s) r bs) < length (heap s)"
  shows "select_first (Some r) s = Some (Inr ((), chosen (selection (heap s) r bs) r s))"
proof -
  let ?xs = "selection (heap s) r bs"
  have "walk select_body ((istart (Some r) s)\<lparr>sptr := 0\<rparr>) =
      Some (Inr ((), pushed ?xs (s\<lparr>sptr := 0, iobj := Some r, obj := None\<rparr>)))"
    by (rule select_walk [OF assms(1-5)])
  moreover have "(map Some ?xs @ drop (length ?xs) (wlist s)) ! 0 = Some (hd ?xs)"
    using assms(6) by (cases ?xs) auto
  ultimately show ?thesis using assms(7) by (simp add: select_first_def pushed_def chosen_def Let_def)
qed


lemma chosen_same: "same_dialog (heap s) (heap (chosen xs r s))"
  unfolding chosen_def by (simp add: same_dialog_upd)

lemma chosen_focus:
  assumes "xs \<noteq> []" "hd xs < length (heap s)" "\<forall>a < length (heap s). \<not> has (heap s ! a) FOCUSED"
  shows "\<forall>a < length (heap s). has (heap (chosen xs r s) ! a) FOCUSED \<longleftrightarrow> a = xs ! 0"
proof -
  have "has (heap (chosen xs r s) ! a) FOCUSED \<longleftrightarrow> a = hd xs" if "a < length (heap s)" for a
    using assms(3) that by (cases "a = hd xs") (simp_all add: chosen_def bit_stat)
  then show ?thesis using assms(1) by (simp add: hd_conv_nth)
qed

lemma chosen_bits:
  "has (heap (chosen xs r s) ! a) SELECTED = has (heap s ! a) SELECTED"
  "has (heap s ! a) DIRTY \<Longrightarrow> has (heap (chosen xs r s) ! a) DIRTY"
  "a \<noteq> hd xs \<Longrightarrow> heap (chosen xs r s) ! a = heap s ! a"
  by (cases "hd xs < length (heap s)"; cases "a = hd xs"; simp add: chosen_def list_update_beyond bit_stat)+

text \<open>A built dialog, before the focus is set: what the program starts its loop with.\<close>

definition built :: "nat \<Rightarrow> (nat \<times> nat list) list \<Rightarrow> snz \<Rightarrow> bool" where
  "built r bs s \<longleftrightarrow> shaped r bs s \<and> radios_ok r s \<and> length (wlist s) = LISTZ \<and>
     (\<forall>a < length (heap s). \<not> has (heap s ! a) FOCUSED) \<and>
     selection (heap s) r bs \<noteq> [] \<and> length (selection (heap s) r bs) \<le> LISTZ \<and>
     (\<forall>x \<in> set (selection (heap s) r bs). clickable s x) \<and>
     (has (heap s ! r) DIRTY \<longrightarrow> (case hd bs of (b, ks) \<Rightarrow> has (heap s ! b) HIDDEN \<or> has (heap s ! b) DIRTY \<or> ks = []))"

lemma built_starts:
  assumes b: "built r bs s"
  defines "xs \<equiv> selection (heap s) r bs"
  shows "\<exists>t u. select_first (root s) s = Some (Inr ((), t)) \<and> display_widgets (root t) t = Some (Inr ((), u)) \<and>
    settles r bs xs s (0, marked (heap s), radios s) u \<and> all_drawn r bs u"
proof -
  have sh: "shaped r bs s" "xs \<noteq> []" "length xs \<le> LISTZ" "length (wlist s) = LISTZ"
    "\<forall>a < length (heap s). \<not> has (heap s ! a) FOCUSED" using b by (auto simp: built_def xs_def)
  note xi = selection_in [OF sh(1), folded xs_def]
  have hx: "hd xs < length (heap s)" "hd xs \<noteq> r" "r \<noteq> hd xs" using xi(2) sh(2) by auto
  let ?t = "chosen xs r s"
  have t: "select_first (Some r) s = Some (Inr ((), ?t))"
    unfolding xs_def using sh hx shaped_hides [OF sh(1)] by (intro select_first_chosen) (auto simp: shaped_def xs_def)
  have same: "same_dialog (heap s) (heap ?t)" by (rule chosen_same)
  have len: "length (heap ?t) = length (heap s)" by (rule same_dialog_len [OF same])
  have rest: "root ?t = root s" "inputwidget ?t = inputwidget s" "inputs ?t = inputs s" "radios ?t = radios s" "cur ?t = 0"
    "sptr ?t = length xs" "wlist ?t = map Some xs @ drop (length xs) (wlist s)" by (simp_all add: chosen_def)
  have st: "shaped r bs ?t" by (rule shaped_same [OF sh(1) same rest(1-3)])
  have f: "has (heap ?t ! r) DIRTY \<longrightarrow> (case hd bs of (c, ks) \<Rightarrow> has (heap ?t ! c) HIDDEN \<or> has (heap ?t ! c) DIRTY \<or> ks = [])"
  proof
    assume "has (heap ?t ! r) DIRTY"
    then have d: "has (heap s ! r) DIRTY" using chosen_bits(3) [OF hx(3)] by simp
    obtain c ks where c: "hd bs = (c, ks)" by (cases "hd bs")
    have cl: "c < length (heap s)" using sh(1) c by (cases bs) (auto simp: shaped_def tree_def)
    have "has (heap ?t ! c) HIDDEN = has (heap s ! c) HIDDEN" by (rule quiet_fields(7) [OF same_dialog_nth [OF same cl]])
    then show "case hd bs of (c, ks) \<Rightarrow> has (heap ?t ! c) HIDDEN \<or> has (heap ?t ! c) DIRTY \<or> ks = []"
      using b d c chosen_bits(2) [of s c xs r] by (auto simp: built_def)
  qed
  obtain u where u: "display_widgets (Some r) ?t = Some (Inr ((), u))" "heap u = cleaned (r # visible (heap ?t) bs) (heap ?t)"
    "root u = root ?t" "inputwidget u = inputwidget ?t" "inputs u = inputs ?t" "wlist u = wlist ?t" "sptr u = sptr ?t"
    "cur u = cur ?t" "radios u = radios ?t" "all_drawn r bs u" using display_shaped [OF st f] by blast
  have su: "same_dialog (heap s) (heap u)"
    using same_dialog_trans [OF same same_dialog_cleaned] unfolding u(2) .
  have lu: "length (heap u) = length (heap s)" by (rule same_dialog_len [OF su])
  have "clickable u x" if "clickable s x" "x < length (heap s)" for x
    using that u(9) rest(4) quiet_fields(5,6) [OF same_dialog_nth [OF su that(2)]] by (simp add: clickable_def)
  then have li: "listed r xs u"
    using b xi sh(3,4) lu u(6,7) rest(6,7) by (auto simp: listed_def built_def xs_def)
  have fo: "focus_at xs u"
    using chosen_focus [OF sh(2) hx(1) sh(5)] sh(2) lu u(8) rest(5) by (simp add: focus_at_def u(2) cleaned_focus del: cleaned_simps(2))
  have ro: "radios_ok r u" using b lu u(9) rest(4) by (simp add: built_def radios_ok_def)
  have "\<not> has (heap u ! r) DIRTY" using u(10) by (simp add: all_drawn_def)
  then have "dialog r bs xs u"
    using shaped_same [OF sh(1) su] u(3-5) rest(1-3) li fo ro by (simp add: dialog_def)
  moreover have "marked (heap u) = marked (heap s)"
    unfolding u(2) using len by (intro marked_same) (auto simp: cleaned_mark chosen_bits(1) simp del: cleaned_simps(2))
  ultimately show ?thesis using t u su rest sh(1) by (auto simp: settles_def view_def shaped_def)
qed

section \<open>Typing\<close>

text \<open>Keys for the text field, one after the other.\<close>

fun typed :: "bytes \<Rightarrow> snz \<Rightarrow> unit wres" where
  "typed [] s = Inr ((), s)"
| "typed (c # cs) s = rbind (input_text c s) (\<lambda>(_, s). typed cs s)"

definition printable :: "u8 \<Rightarrow> bool" where
  "printable c \<longleftrightarrow> 32 \<le> sint c"

lemma printable_not: "printable c \<Longrightarrow> c \<noteq> 0 \<and> c \<noteq> 8 \<and> c \<noteq> 10 \<and> c \<noteq> 27"
  by (auto simp: printable_def)

definition field :: "nat \<Rightarrow> nat \<Rightarrow> inputdata \<Rightarrow> snz \<Rightarrow> bool" where
  "field p k d s \<longleftrightarrow> inputwidget s = Some p \<and> p < length (heap s) \<and> wdata (heap s ! p) = Input_data k \<and>
     k < length (inputs s) \<and> inputs s ! k = d"

definition with_text :: "nat \<Rightarrow> bytes \<Rightarrow> inputdata \<Rightarrow> inputdata" where
  "with_text n t d = d\<lparr>icur := int (n + length t), ibytes := take n (ibytes d) @ t @ drop (n + length t) (ibytes d)\<rparr>"

lemma with_text_snoc:
  assumes "n < length (ibytes d)"
  shows "with_text (n + 1) t (with_text n [c] d) = with_text n (c # t) d"
proof -
  have "take (Suc n) (take n (ibytes d) @ c # drop (Suc n) (ibytes d)) = take n (ibytes d) @ [c]"
    using assms by (simp add: take_Suc_conv_app_nth min_def nth_append)
  then show ?thesis using assms by (simp add: with_text_def min_def add.commute [of "length t"])
qed

lemma input_char:
  assumes f: "field p k d s" and n: "icur d = int n" and c: "printable c"
  shows "(n < length (ibytes d) \<longrightarrow> (\<exists>s'. input_text c s = Inr ((), s') \<and> inputs s' = (inputs s)[k := with_text n [c] d] \<and>
      field p k (with_text n [c] d) s')) \<and>
    (length (ibytes d) \<le> n \<longrightarrow> input_text c s = Inl (Buffer_end, s))"
proof -
  have nc: "c \<noteq> 8" "c \<noteq> 10" "c \<noteq> 27" "\<not> sint c < 32" using printable_not [OF c] c by (auto simp: printable_def)
  have "with_text n [c] d = d\<lparr>icur := icur d + 1, ibytes := (ibytes d)[nat (icur d) := c]\<rparr>" if "n < length (ibytes d)"
    using that n by (simp add: with_text_def upd_conv_take_nth_drop)
  then show ?thesis using f n nc
    by (auto simp: input_text_def field_def dirty_input_def Let_def stat_on_def)
qed

lemma typed_text:
  assumes "field p k d s" "icur d = int n" "\<forall>c \<in> set t. printable c" "n \<le> length (ibytes d)"
  shows "(n + length t \<le> length (ibytes d) \<longrightarrow> (\<exists>s'. typed t s = Inr ((), s') \<and> inputs s' = (inputs s)[k := with_text n t d] \<and>
      field p k (with_text n t d) s')) \<and>
    (length (ibytes d) < n + length t \<longrightarrow> (\<exists>s'. typed t s = Inl (Buffer_end, s')))"
  using assms
proof (induction t arbitrary: s d n)
  case Nil
  then have "with_text n [] d = d" by (simp add: with_text_def)
  then show ?case using Nil by (auto simp: field_def)
next
  case (Cons c t)
  have c: "printable c" using Cons.prems(3) by simp
  note ic = input_char [OF Cons.prems(1,2) c]
  show ?case
  proof (cases "n < length (ibytes d)")
    case False
    then show ?thesis using ic Cons.prems(4) by auto
  next
    case True
    let ?d = "with_text n [c] d"
    obtain s' where s': "input_text c s = Inr ((), s')" "inputs s' = (inputs s)[k := ?d]" "field p k ?d s'"
      using ic True by blast
    have d: "icur ?d = int (n + 1)" "length (ibytes ?d) = length (ibytes d)" using True by (simp_all add: with_text_def min_def)
    have "\<forall>c \<in> set t. printable c" "n + 1 \<le> length (ibytes ?d)" using Cons.prems(3) True d(2) by auto
    from Cons.IH [OF s'(3) d(1) this] show ?thesis
      unfolding with_text_snoc [OF True] d(2) s'(2) using s'(1) by auto
  qed
qed

end
