(* ===== verification/Snazzy_Use.thy ===== *)
theory Snazzy_Use
  imports Snazzy_Spec
begin

text \<open>
  What the dialogs do, from the first look at them to the key that ends them; typing; and the
  things that go wrong with the demonstration's own data.
\<close>

section \<open>Sessions\<close>

text \<open>C22:
  A whole session with a dialog of buttons, checks and radio buttons: from a built dialog, any keys up
  to a \<open>q\<close> or an escape are taken one after the other and the loop returns.  The focus, which is on
  exactly one of the selectable widgets, goes down with \<open>j\<close> and up with \<open>k\<close> and stops at the ends;
  a space or a newline toggles the check that has the focus, or presses its radio button and
  releases the one pressed before; other keys do nothing.  At the end all that is visible is drawn.
\<close>

theorem snz_session:
  assumes "built r bs s" and "keys_at env 0 ks q"
  defines "xs \<equiv> selection (heap s) r bs"
  shows "\<exists>u. run_dialog env s = Some (Inr ((), u)) \<and>
    view u = fold (key_view (heap s) xs) ks (0, marked (heap s), radios s) \<and> focus_at xs u \<and> all_drawn r bs u"
proof -
  have x: "\<forall>x \<in> set xs. x < length (heap s)"
    using selection_in [of r bs s] assms(1) by (auto simp: built_def xs_def)
  obtain t u where t: "select_first (root s) s = Some (Inr ((), t))" "display_widgets (root t) t = Some (Inr ((), u))"
    "settles r bs xs s (0, marked (heap s), radios s) u" "all_drawn r bs u"
    using built_starts [OF assms(1), folded xs_def] by blast
  obtain v where v: "input env 0 (junk_key env) u = Some (Inr ((), v))"
    "settles r bs xs s (fold (key_view (heap s) xs) ks (0, marked (heap s), radios s)) v" "all_drawn r bs v"
    using input_settles [OF t(3,4) x assms(2)] by blast
  have "run_dialog env s = Some (Inr ((), v))" using t(1,2) v(1) by (simp add: run_dialog_def)
  then show ?thesis using v by (auto simp: settles_def dialog_def)
qed

text \<open>A check, a radio button that is released and one that is pressed: toggle, go down, press.\<close>

definition demo_keys :: senv where
  "demo_keys = \<lparr>room = 9, null_int = None, junk_rad = None, winsize_ok = True, errtext = [],
     keys = (\<lambda>i. if i < 4 then Some ([32, 0x6a, 10, 0x71] ! i) else None), junk_key = 0\<rparr>"

lemma demo_selection: "selection (heap demo_dialog) 0 [(1, [2, 3, 4]), (5, [6])] = [2, 3, 4]"
  by (simp add: selection_def box_selection_def selectable_def demo_dialog_def blank_widget_def has_def stat_bits)

lemma demo_built: "built 0 [(1, [2, 3, 4]), (5, [6])] demo_dialog"
proof -
  have s: "shaped 0 [(1, [2, 3, 4]), (5, [6])] demo_dialog"
    using demo_dialog_shape
    by (simp add: shaped_def) (simp add: demo_dialog_def snz_start_def blank_widget_def has_def stat_bits)
  have c: "\<forall>x \<in> set [2, 3, 4]. clickable demo_dialog x"
    by (simp add: clickable_def demo_dialog_def snz_start_def blank_widget_def)
  have f: "\<forall>a \<in> set [0..<7]. \<not> has (heap demo_dialog ! a) FOCUSED"
    by (simp add: upt_rec demo_dialog_def blank_widget_def has_def stat_bits)
  have "length (heap demo_dialog) = 7" by (simp add: demo_dialog_def)
  moreover have "radios_ok 0 demo_dialog" "length (wlist demo_dialog) = LISTZ" "has (heap demo_dialog ! 1) DIRTY"
    by (simp_all add: radios_ok_def demo_dialog_def snz_start_def blank_widget_def has_def stat_bits)
  ultimately show ?thesis
    unfolding built_def demo_selection using s c f by (simp add: LISTZ_def)
qed

lemma demo_marked: "marked (heap demo_dialog) = {4}"
proof -
  have "\<forall>a \<in> set [0..<7]. has (heap demo_dialog ! a) SELECTED \<longleftrightarrow> a = 4"
    by (simp add: upt_rec demo_dialog_def blank_widget_def has_def stat_bits)
  moreover have "length (heap demo_dialog) = 7" by (simp add: demo_dialog_def)
  ultimately show ?thesis by (auto simp: marked_def)
qed

lemma snz_session_witness:
  "\<exists>u. run_dialog demo_keys demo_dialog = Some (Inr ((), u)) \<and> cur u = 1 \<and> marked (heap u) = {2, 3} \<and> radios u = [Some 3]"
proof -
  have k: "keys_at demo_keys 0 [32, 0x6a, 10] 0x71"
    by (auto simp: keys_at_def demo_keys_def quits_def nth_Cons less_Suc_eq split: nat.split)
  have "radios demo_dialog = [Some 4]" by (simp add: demo_dialog_def snz_start_def)
  moreover have "clicked (heap demo_dialog ! 2) = Some Clicked_check" "clicked (heap demo_dialog ! 3) = Some Clicked_radio"
    "wdata (heap demo_dialog ! 3) = Radio_data 0"
    by (simp_all add: demo_dialog_def blank_widget_def)
  ultimately have "fold (key_view (heap demo_dialog) [2, 3, 4]) [32, 0x6a, 10] (0, marked (heap demo_dialog), radios demo_dialog) =
      (1, {2, 3}, [Some 3])"
    by (simp add: key_view_def click_view_def toggle_def demo_marked) auto
  with snz_session [OF demo_built k] show ?thesis unfolding demo_selection by (auto simp: view_def)
qed

section \<open>Typing\<close>

text \<open>C36:
  Typing printable characters into the text field puts them into its buffer, one after the other from
  the cursor on, without a look at the size of the field: as long as they fit they are stored, the last
  byte included, and then the field cannot be drawn any more, because no zero is left behind the
  text; one character more is written behind the buffer.
\<close>

theorem snz_input:
  assumes "field p k d s" and "icur d = int n" and "n \<le> length (ibytes d)" and "\<forall>c \<in> set t. printable c"
  shows "case typed t s of
      Inr (_, s') \<Rightarrow> n + length t \<le> length (ibytes d) \<and>
        inputs s' = (inputs s)[k := d\<lparr>icur := int (n + length t), ibytes := take n (ibytes d) @ t @ drop (n + length t) (ibytes d)\<rparr>] \<and>
        inputwidget s' = Some p \<and>
        (widget_text (inputs s') Draw_input (heap s' ! p) = Inl Buffer_end \<longleftrightarrow>
          0 \<notin> set (take n (ibytes d)) \<and> 0 \<notin> set (drop (n + length t) (ibytes d)))
    | Inl (e, s') \<Rightarrow> e = Buffer_end \<and> length (ibytes d) < n + length t"
proof (cases "n + length t \<le> length (ibytes d)")
  case False
  then show ?thesis using typed_text [OF assms(1,2,4,3)] by auto
next
  case True
  then obtain s' where s': "typed t s = Inr ((), s')" "inputs s' = (inputs s)[k := with_text n t d]" "field p k (with_text n t d) s'"
    using typed_text [OF assms(1,2,4,3)] by blast
  have "0 \<notin> set t" using assms(4) printable_not by auto
  then have "widget_text (inputs s') Draw_input (heap s' ! p) = Inl Buffer_end \<longleftrightarrow>
      0 \<notin> set (take n (ibytes d)) \<and> 0 \<notin> set (drop (n + length t) (ibytes d))"
    using s'(3) by (auto simp: field_def widget_text_def with_text_def)
  then show ?thesis using s' True by (simp add: with_text_def field_def)
qed

text \<open>The field of the demonstration: 49 blanks and a zero, and the 50th character.\<close>

definition demo_field :: snz where
  "demo_field = (snz_start demo_keys)\<lparr>heap := [blank_widget\<lparr>wtype := INPUT, wdata := Input_data 0\<rparr>], inputwidget := Some 0\<rparr>"

lemma snz_input_witness:
  "\<exists>s'. typed (replicate 50 0x61) demo_field = Inr ((), s') \<and> widget_text (inputs s') Draw_input (heap s' ! 0) = Inl Buffer_end"
proof -
  let ?d = "\<lparr>isize = 49, icur = 0, ibytes = replicate 49 32 @ [0 :: u8]\<rparr>"
  have f: "field 0 0 ?d demo_field" by (simp add: field_def demo_field_def snz_start_def)
  have c: "\<forall>c \<in> set (replicate 50 0x61). printable c" by (simp add: printable_def)
  have d: "icur ?d = int 0" "0 \<le> length (ibytes ?d)" "\<not> length (ibytes ?d) < 0 + length (replicate 50 (0x61 :: u8))" by simp_all
  show ?thesis
  proof (cases "typed (replicate 50 0x61) demo_field")
    case (Inl x)
    with snz_input [OF f d(1,2) c] d(3) show ?thesis by (cases x) simp
  next
    case (Inr x)
    then obtain s' where s': "typed (replicate 50 0x61) demo_field = Inr ((), s')" by (cases x) simp
    from snz_input [OF f d(1,2) c]
    have "widget_text (inputs s') Draw_input (heap s' ! 0) = Inl Buffer_end \<longleftrightarrow>
        0 \<notin> set (take 0 (ibytes ?d)) \<and> 0 \<notin> set (drop (0 + length (replicate 50 (0x61 :: u8))) (ibytes ?d))"
      unfolding s' sum.case prod.case by blast
    then show ?thesis using s' by simp
  qed
qed

section \<open>The demonstration's radio buttons\<close>

text \<open>
  No button of the group is pressed at the start and the pointer to it is not set: when it happens to
  be null, the first click on a radio button goes through it.
\<close>

lemma snz_first_radio:
  assumes "p < length (heap s)" "wdata (heap s ! p) = Radio_data d" "radios s ! d = None"
  shows "clicked_radio (Some p) s = Inl (Null_pointer, s)"
  using assms by (simp add: clicked_radio_def setw_def getw_def)

end
