(* ===== verification/Spec2Isabelle.thy ===== *)
theory Spec2Isabelle
  imports Uncompress_Spec Lwwire_Spec Decb_Demo Slz_Spec Bfc_Demo Picol_Loop Booter_Demo Dw_Server Detoken_Spec
    Romfs_Spec Os9sim_Start Firc_Keys Snazzy_Use
begin

text \<open>
  FIP, the Fuzix packages for the Tandy Color Computer: separate programs, most of them for the
  Fuzix operating system on a 6809 and some for the host, that share file formats and protocols
  more than code.  Each program is translated from its C source into executable functions over an
  explicit state, with every exit, overrun and unbounded wait as a value; what a program takes
  from outside (the kernel, a device, the keyboard, \<open>getopt\<close>'s results) is an argument.

  \<^bold>\<open>Shared.\<close>  \<open>Prelude\<close> has the machine words, results that may stop (\<open>rbind\<close>), byte files with
  \<open>pread\<close> and \<open>pwrite\<close>, and the locales \<open>block_store\<close> (what holds of reads after writes of
  numbered blocks) and \<open>codec\<close> (an encoder with a functional decoder is injective); \<open>Cstring\<close> has
  C strings and the number formats.  \<open>Lzw_Io\<close> has byte and bit streams as locales.

  \<^bold>\<open>LZW\<close> (\<open>uncompress/compress.c\<close>, \<open>uncompress.c\<close>).  \<open>Lzw_Io\<close>: the buffers of both programs
  implement \<open>byte_sink\<close> and \<open>byte_source\<close>, and the bit routines \<open>bit_sink\<close> and \<open>bit_source\<close>.
  \<open>Lzw_Dict\<close>: the dictionary as a prefix tree, whose search is the locale \<open>dict_search\<close>.
  \<open>Compress\<close>, \<open>Uncompress\<close>: the two loops.  \<open>Lzw\<close> puts them together (\<open>lzw_roundtrip\<close>).
  \<open>Uncompress_Main\<close>, \<open>Uncompress_Spec\<close>: file names, options and the question of the program.

  \<^bold>\<open>DriveWire\<close> (\<open>lwwire/lwwire.c\<close>, \<open>booter/dw.c\<close>).  \<open>Lwwire\<close>: the disk server, from the bytes of
  the line to the images on the host; its images are a \<open>block_store\<close>.  \<open>Lwwire_Spec\<close>: requests,
  checksums, protection and command line.  \<open>Dw\<close>: the driver of the boot loader, whose transaction in assembly is a
  parameter; \<open>Dw_Server\<close> puts server and line in its place (\<open>dw_session\<close>).

  \<^bold>\<open>Boot loader\<close> (\<open>booter/booter.c\<close>).  \<open>Booter\<close>: the file system it reads, \<open>Booter_Load\<close>: the
  window on the memory and the kernel format, \<open>Booter_Ui\<close>: line editor, commands and \<open>main\<close>.
  \<open>Booter_Fs\<close>, \<open>Booter_Boot\<close> relate them to disks as trees of files and kernels as sections
  (\<open>dopath_walks\<close>, \<open>boot_loads\<close>); \<open>Booter_Type\<close> has the state's invariant and the two ways to
  write past an array, at which the model ends (\<open>Path_overrun\<close>, \<open>Table_overrun\<close>); \<open>Booter_Ends\<close> has
  the termination of every loop, \<open>Booter_Spec\<close> and \<open>Booter_Demo\<close> the rest, with a disk as example.

  \<^bold>\<open>Disk images\<close> (\<open>decb/decb.c\<close>, \<open>detoken.c\<close>, \<open>romfs.c\<close>).  \<open>Decb\<close>: the commands; \<open>Decb_Disk\<close>:
  an image as granules (a \<open>block_store\<close>), table and directory; \<open>Decb_Chain\<close>: files as chains;
  \<open>Decb_Spec\<close>: put, get, rm, mkfs and the boot track.  \<open>Detoken\<close>: both passes of the lister;
  \<open>Detoken_Spec\<close>: its input as a stream and BASIC's saved programs.  \<open>Romfs\<close>, \<open>Romfs_Spec\<close>: the ROM
  packer, and a reader of its format.

  \<^bold>\<open>SLZ\<close> (\<open>slz/slz.c\<close>).  \<open>Slz\<close>: packer and unpacker; \<open>Slz_Spec\<close>: token lists between them, a \<open>codec\<close>.

  \<^bold>\<open>Forth compiler\<close> (\<open>bfc/bfc.c\<close>).  \<open>Bfc\<close>: the compiler; \<open>Bfc_Inv\<close>: its dictionary's invariant;
  \<open>Bfc_Code\<close>, \<open>Bfc_Run\<close>: structured commands, their meaning, and a machine for the lines written
  (\<open>bfc_refines\<close>).

  \<^bold>\<open>Tcl\<close> (\<open>tcl/picol.c\<close>, \<open>picol-brett.c\<close>).  \<open>Picol_Parse\<close>, \<open>Picol_Lex\<close>: the tokenizer and its
  bounds; \<open>Picol\<close>: interpreter and program; \<open>Picol_Fuel\<close>, \<open>Picol_Inv\<close>, \<open>Picol_Words\<close>: fuel,
  invariant, scripts as token lists; \<open>Picol_Spec\<close>, \<open>Picol_Loop\<close>: what scripts do and cannot do.

  \<^bold>\<open>OS-9 simulator\<close> (\<open>os9sim/os9sim.c\<close>).  \<open>Os9sim\<close>: system calls over a kernel, and the start of a
  module; \<open>Os9sim_Spec\<close>: paths, frames of the calls, the data area through any run;
  \<open>Os9sim_Start\<close>: a module from its file to its first instruction.

  \<^bold>\<open>IRC\<close> (\<open>firc/firc.c\<close>, \<open>gethostbyname.c\<close>).  \<open>Resolve\<close>: the resolver, from the configuration file to
  the table of addresses; \<open>Resolve_Spec\<close>: names and records of the protocol, what is asked and what
  an answer gives.  \<open>Firc\<close>: the client, a turn of its loop for a key and a read of the network;
  \<open>Firc_Spec\<close>: messages of the protocol; \<open>Firc_Run\<close>: the connection and a whole session;
  \<open>Firc_Inv\<close>: what every run keeps, and the input line while the network is busy; \<open>Firc_Keys\<close>: what
  goes wrong with long lines.

  \<^bold>\<open>Dialogs\<close> (\<open>snazzy/snazzy.c\<close>, \<open>vt52.c\<close>).  \<open>Snazzy\<close>: widgets, the walk over their tree and the terminal
  driver; \<open>Snazzy_Main\<close>: the rest of the library and its demonstration program.  \<open>Snazzy_Tree\<close>: heaps
  of widgets as trees, and the list of selectable ones; \<open>Snazzy_Pack\<close>: packing and the layout of
  boxes; \<open>Snazzy_Show\<close>: redrawing; \<open>Snazzy_Spec\<close>: the view that a user has of a dialog, which the
  keys act on; \<open>Snazzy_Use\<close>: whole sessions and typing.  The trees of the theorems are those of
  the demonstration: a root, boxes or widgets in it, and widgets in the boxes.

  \<^bold>\<open>Interactions.\<close>  \<open>compress\<close> and \<open>uncompress\<close> meet in the bit stream of \<open>Lzw\<close>, the packer and the
  unpacker in the token lists of \<open>Slz_Spec\<close>, driver and server in \<open>Dw_Server\<close>, the boot loader and
  the file system in \<open>Booter_Fs\<close>; the IRC client calls the resolver.  \<open>booter.c\<close> calls its driver through a record of function
  pointers, the record \<open>dev\<close> of the model; \<open>Booter.dev\<close> is not instantiated with \<open>Dw\<close>.

  \<^bold>\<open>Loops and fuel.\<close>  Recursion is structural or has a measure where the loop always ends.  Where
  it may not end (\<open>printsym\<close>, \<open>countchain\<close>, the loops of \<open>decb\<close> over chains, \<open>load_loop\<close> of the
  OS-9 simulator) it is a \<open>partial_function\<close> into options, and no result is a loop that does not
  end; the theorems prove that there is a result.  The boot loader's loops have a fuel that is
  computed from the open file and the keys, and \<open>booter_ends\<close> shows that it is never used up; the
  wait for a key has the number of looks at the ticker as fuel.  The Tcl interpreter is given a
  depth of calls; \<open>eval_fuel\<close> shows that a result does not depend on it, and \<open>count_loop\<close>
  gives enough of it for a loop.  The resolver's scan of names has as many turns as the buffer has
  places, and \<open>scan_fuel\<close> shows that a scan which needs more never ends; the session loop of the IRC
  client and the loops of the dialogs over their tree and the keys are \<open>partial_function\<close>s; \<open>irc_session\<close>
  and \<open>snz_session\<close> show that they return.

  \<^bold>\<open>Integers.\<close>  Bytes, 16-bit and 32-bit quantities are words where the code lets them wrap, and
  \<open>int16\<close> or \<open>int32\<close> give the C conversion; sizes and indices whose range is a guard of the code
  or an invariant are natural numbers.

  \<^bold>\<open>Not modelled.\<close>  \<open>util/useradd.c\<close> (the shadow suite's program) and \<open>util/xxd.c\<close> (Juergen
  Weigert's) are copies of the work of others.  \<open>cbe/cbe.c\<close> copies ROM images to fixed addresses, sets
  the terminal and jumps into assembly: there is no logic besides the calls.  The assembly files (\<open>*.s\<close>) are parameters where C calls them.
\<close>

end
